(* ===== verification/Prelude.thy ===== *)
theory Prelude
  imports Main "HOL-Library.Word" "HOL-Library.List_Lexorder"
begin

text \<open>
  Shared vocabulary of the development: JavaScript strings and numbers, the
  collections of rewrite rules the component theories use, and generic lemmas on
  lists and options.

  A JavaScript string is a list of UTF-16 code units, so \<open>length\<close>, equality,
  indexing and the lexicographic order on it are those of the language. A string
  literal of the source is written \<open>js ''abc''\<close>. A JavaScript number is an
  \<open>int\<close> where the code has already established that it is a (safe) integer, and a
  \<open>jnum\<close> where the code also has to cope with NaN and the infinities. Fractional
  numbers and rounding beyond \<open>2 ^ 53\<close> are not modelled.
\<close>

section \<open>Collections of facts\<close>

named_theorems ascii_eval \<open>definitions that evaluate string literals and code-unit constants\<close>
named_theorems store_laws \<open>laws of lookup after update for the stateful components\<close>
named_theorems wf_intros \<open>introduction rules for well-formedness invariants\<close>
named_theorems printer_simps \<open>facts that peel delimiters off printed values\<close>

section \<open>Strings\<close>

type_synonym code_unit = "16 word"
type_synonym jstr = "code_unit list"
type_synonym byte = "8 word"
type_synonym bytes = "byte list"

definition js :: "string \<Rightarrow> jstr" where
  "js s = map (\<lambda>c. of_nat (of_char c)) s"

lemma js_Nil [simp, ascii_eval]: "js [] = []"
  and js_Cons [ascii_eval]: "js (c # cs) = of_nat (of_char c) # js cs"
  by (simp_all add: js_def)

lemma js_append: "js (s @ t) = js s @ js t"
  by (simp add: js_def)

lemma length_js [simp]: "length (js s) = length s"
  by (simp add: js_def)

lemma unat_of_char [simp]: "unat (of_nat (of_char c) :: code_unit) = of_char c"
proof -
  have "(of_char c :: nat) < 256" by simp
  then have "(of_char c :: nat) mod 65536 = of_char c" by (intro mod_less) linarith
  then show ?thesis by (simp add: unat_of_nat)
qed

lemma js_inj [simp]: "js s = js t \<longleftrightarrow> s = t"
proof
  assume "js s = js t"
  then have "map (\<lambda>c. unat (of_nat (of_char c) :: code_unit)) s = map (\<lambda>c. unat (of_nat (of_char c) :: code_unit)) t"
    unfolding js_def by (metis (mono_tags, lifting) map_map comp_apply map_eq_conv)
  then have "map (of_char :: char \<Rightarrow> nat) s = map of_char t" by simp
  then show "s = t" by (rule map_injective) (simp add: inj_def)
qed simp

text \<open>\<open>s.startsWith(p)\<close>, \<open>s.endsWith(p)\<close>, \<open>s.includes(p)\<close>.\<close>

definition startsWith :: "'a list \<Rightarrow> 'a list \<Rightarrow> bool" where
  "startsWith s p \<longleftrightarrow> take (length p) s = p"

definition endsWith :: "'a list \<Rightarrow> 'a list \<Rightarrow> bool" where
  "endsWith s p \<longleftrightarrow> length p \<le> length s \<and> drop (length s - length p) s = p"

fun contains_sub :: "'a list \<Rightarrow> 'a list \<Rightarrow> bool" where
  "contains_sub [] p \<longleftrightarrow> p = []"
| "contains_sub (x # s) p \<longleftrightarrow> startsWith (x # s) p \<or> contains_sub s p"

lemma startsWith_iff: "startsWith s p \<longleftrightarrow> (\<exists>r. s = p @ r)"
  unfolding startsWith_def by (metis append_eq_conv_conj append_take_drop_id)

lemma contains_sub_iff: "contains_sub s p \<longleftrightarrow> (\<exists>a b. s = a @ p @ b)"
proof (induction s)
  case Nil
  then show ?case by auto
next
  case (Cons x s)
  have "(\<exists>a b. x # s = a @ p @ b) \<longleftrightarrow> (\<exists>b. x # s = p @ b) \<or> (\<exists>a b. s = a @ p @ b)"
    by (metis append_Cons append_Nil list.exhaust list.inject)
  with Cons.IH show ?case by (simp add: startsWith_iff)
qed

text \<open>\<open>s.split(sep)\<close> for a one-character separator; the result is never empty.\<close>

fun split_on :: "'a \<Rightarrow> 'a list \<Rightarrow> 'a list list" where
  "split_on c [] = [[]]"
| "split_on c (x # xs) =
     (if x = c then [] # split_on c xs
      else (case split_on c xs of [] \<Rightarrow> [[x]] | seg # segs \<Rightarrow> (x # seg) # segs))"

text \<open>\<open>segs.join(sep)\<close>.\<close>

fun join_with :: "'a list \<Rightarrow> 'a list list \<Rightarrow> 'a list" where
  "join_with sep [] = []"
| "join_with sep [s] = s"
| "join_with sep (s # t # ts) = s @ sep @ join_with sep (t # ts)"

lemma split_on_nonempty [simp]: "split_on c xs \<noteq> []"
  by (induction xs) (auto split: list.splits)

lemma split_on_no_sep: "seg \<in> set (split_on c xs) \<Longrightarrow> c \<notin> set seg"
proof (induction xs arbitrary: seg)
  case Nil
  then show ?case by simp
next
  case (Cons x xs)
  obtain s ss where s: "split_on c xs = s # ss"
    by (cases "split_on c xs") auto
  from Cons.IH [unfolded s] have "c \<notin> set s" "\<And>t. t \<in> set ss \<Longrightarrow> c \<notin> set t"
    by auto
  with Cons.prems s show ?case by (auto split: if_splits)
qed

lemma split_on_id: "c \<notin> set xs \<Longrightarrow> split_on c xs = [xs]"
  by (induction xs) auto

lemma split_on_append: "c \<notin> set xs \<Longrightarrow> split_on c (xs @ c # ys) = xs # split_on c ys"
  by (induction xs) auto

lemma join_split: "join_with [c] (split_on c xs) = xs"
proof (induction xs)
  case Nil
  then show ?case by simp
next
  case (Cons x xs)
  obtain seg segs where s: "split_on c xs = seg # segs"
    by (cases "split_on c xs") auto
  with Cons.IH show ?case by (cases segs) auto
qed

lemma split_join:
  assumes "segs \<noteq> []" and "\<forall>seg \<in> set segs. c \<notin> set seg"
  shows "split_on c (join_with [c] segs) = segs"
  using assms
proof (induction segs rule: induct_list012)
  case 1
  then show ?case by simp
next
  case (2 s)
  then show ?case by (simp add: split_on_id)
next
  case (3 s t ts)
  then show ?case by (simp add: split_on_append)
qed

lemma join_with_Cons: "ts \<noteq> [] \<Longrightarrow> join_with sep (s # ts) = s @ sep @ join_with sep ts"
  by (cases ts) auto

section \<open>Numbers\<close>

datatype jnum = Fin int | NaN | PosInf | NegInf

fun is_finite :: "jnum \<Rightarrow> bool" where
  "is_finite (Fin _) = True"
| "is_finite _ = False"

fun jnum_add :: "jnum \<Rightarrow> jnum \<Rightarrow> jnum" where
  "jnum_add (Fin a) (Fin b) = Fin (a + b)"
| "jnum_add NaN _ = NaN"
| "jnum_add _ NaN = NaN"
| "jnum_add PosInf NegInf = NaN"
| "jnum_add NegInf PosInf = NaN"
| "jnum_add PosInf _ = PosInf"
| "jnum_add _ PosInf = PosInf"
| "jnum_add NegInf _ = NegInf"
| "jnum_add _ NegInf = NegInf"

text \<open>\<open>a < b\<close> and \<open>a <= b\<close>: every comparison with NaN is false.\<close>

fun jnum_less :: "jnum \<Rightarrow> jnum \<Rightarrow> bool" where
  "jnum_less (Fin a) (Fin b) = (a < b)"
| "jnum_less NaN _ = False"
| "jnum_less _ NaN = False"
| "jnum_less NegInf b = (b \<noteq> NegInf)"
| "jnum_less a PosInf = (a \<noteq> PosInf)"
| "jnum_less _ _ = False"

definition jnum_le :: "jnum \<Rightarrow> jnum \<Rightarrow> bool" where
  "jnum_le a b \<longleftrightarrow> jnum_less a b \<or> (a = b \<and> a \<noteq> NaN)"

lemma jnum_le_Fin [simp]: "jnum_le (Fin a) (Fin b) \<longleftrightarrow> a \<le> b"
  by (auto simp: jnum_le_def)

lemma is_finite_iff: "is_finite a \<longleftrightarrow> (\<exists>n. a = Fin n)"
  by (cases a) auto

lemma is_finite_add: "is_finite (jnum_add a b) \<longleftrightarrow> is_finite a \<and> is_finite b"
  by (cases a; cases b) auto

text \<open>
  A linear order that agrees with the comparisons of the language wherever NaN is not
  involved (NaN is put last), so that the library's order lemmas apply to numbers.
\<close>

instantiation jnum :: linorder
begin

fun less_eq_jnum :: "jnum \<Rightarrow> jnum \<Rightarrow> bool" where
  "less_eq_jnum a NaN = True"
| "less_eq_jnum NaN b = False"
| "less_eq_jnum NegInf b = True"
| "less_eq_jnum a NegInf = False"
| "less_eq_jnum a PosInf = True"
| "less_eq_jnum PosInf b = False"
| "less_eq_jnum (Fin a) (Fin b) = (a \<le> b)"

definition less_jnum :: "jnum \<Rightarrow> jnum \<Rightarrow> bool" where
  "less_jnum a b \<longleftrightarrow> a \<le> b \<and> \<not> b \<le> a"

instance
proof
  fix a b c :: jnum
  show "(a < b) = (a \<le> b \<and> \<not> b \<le> a)" by (rule less_jnum_def)
  show "a \<le> a" by (cases a) auto
  show "a \<le> b \<Longrightarrow> b \<le> c \<Longrightarrow> a \<le> c" by (cases a; cases b; cases c) auto
  show "a \<le> b \<Longrightarrow> b \<le> a \<Longrightarrow> a = b" by (cases a; cases b) auto
  show "a \<le> b \<or> b \<le> a" by (cases a; cases b) auto
qed

end

lemma jnum_less_iff: "jnum_less a b \<longleftrightarrow> a \<noteq> NaN \<and> b \<noteq> NaN \<and> a < b"
  by (cases a; cases b) (auto simp: less_jnum_def)

lemma jnum_le_iff: "jnum_le a b \<longleftrightarrow> a \<noteq> NaN \<and> b \<noteq> NaN \<and> a \<le> b"
  by (auto simp: jnum_le_def jnum_less_iff)

lemma Fin_less [simp]: "Fin a < Fin b \<longleftrightarrow> a < b"
  by (auto simp: less_jnum_def)

text \<open>Numbers that JavaScript represents exactly.\<close>

definition max_safe :: int where
  "max_safe = 9007199254740991"

definition isSafeInteger :: "jnum \<Rightarrow> bool" where
  "isSafeInteger a = (case a of Fin n \<Rightarrow> - max_safe \<le> n \<and> n \<le> max_safe | _ \<Rightarrow> False)"

section \<open>Options and lists\<close>

text \<open>\<open>None\<close> stands for \<open>undefined\<close> or for a thrown exception, as each definition says.\<close>

fun all_some :: "'a option list \<Rightarrow> 'a list option" where
  "all_some [] = Some []"
| "all_some (None # xs) = None"
| "all_some (Some x # xs) = map_option (Cons x) (all_some xs)"

lemma all_some_map_Some: "all_some (map (\<lambda>x. Some (f x)) xs) = Some (map f xs)"
  by (induction xs) auto

lemma all_some_eq_Some: "all_some xs = Some ys \<longleftrightarrow> xs = map Some ys"
  by (induction xs arbitrary: ys rule: all_some.induct) auto

lemma all_some_eq_None: "all_some xs = None \<longleftrightarrow> None \<in> set xs"
  by (induction xs rule: all_some.induct) auto

lemma takeWhile_append_stop:
  assumes "\<forall>x \<in> set a. P x" and "r = [] \<or> \<not> P (hd r)"
  shows "takeWhile P (a @ r) = a"
  using assms by (induction a) (cases r; auto)+

lemma dropWhile_append_stop:
  assumes "\<forall>x \<in> set a. P x" and "r = [] \<or> \<not> P (hd r)"
  shows "dropWhile P (a @ r) = r"
  using assms by (induction a) (cases r; auto)+

text \<open>Two texts that run over the same class of characters split at the same place.\<close>

lemma span_unique:
  assumes "a @ r = b @ s"
    and "\<forall>x \<in> set a. P x" "r = [] \<or> \<not> P (hd r)"
    and "\<forall>x \<in> set b. P x" "s = [] \<or> \<not> P (hd s)"
  shows "a = b \<and> r = s"
  using takeWhile_append_stop [OF assms(2,3)] takeWhile_append_stop [OF assms(4,5)]
    dropWhile_append_stop [OF assms(2,3)] dropWhile_append_stop [OF assms(4,5)] assms(1)
  by simp

lemma find_None_iff_all: "List.find P xs = None \<longleftrightarrow> (\<forall>x \<in> set xs. \<not> P x)"
  by (induction xs) auto

lemma find_SomeD: "List.find P xs = Some x \<Longrightarrow> x \<in> set xs \<and> P x"
  by (induction xs) (auto split: if_splits)

lemma ex_split_Cons: "(\<exists>u v. x # s = u @ v \<and> P u v) \<longleftrightarrow> P [] (x # s) \<or> (\<exists>u v. s = u @ v \<and> P (x # u) v)"
  by (metis append_Cons append_Nil append_eq_Cons_conv)

end
