(* ===== verification/Encoding.thy ===== *)
theory Encoding
  imports Prelude
begin

text \<open>
  Byte-level encodings the protocol signs and ships: UTF-8 as \<open>TextEncoder\<close> and
  \<open>TextDecoder\<close> do it (lone surrogates and malformed bytes become U+FFFD, a leading
  byte-order mark is dropped on decoding), base64url as in \<open>src/protocol.ts\<close>
  (\<open>toBase64Url\<close>, \<open>fromBase64Url\<close>, on top of the platform's base64) and
  the hexadecimal printing of \<open>randomHex\<close>. The lemmas show that decoding undoes
  encoding, and that UTF-8 is injective on strings without lone surrogates.
\<close>

section \<open>UTF-16 to code points and back\<close>

definition is_high :: "code_unit \<Rightarrow> bool" where
  "is_high c \<longleftrightarrow> 0xD800 \<le> unat c \<and> unat c \<le> 0xDBFF"

definition is_low :: "code_unit \<Rightarrow> bool" where
  "is_low c \<longleftrightarrow> 0xDC00 \<le> unat c \<and> unat c \<le> 0xDFFF"

fun code_points :: "jstr \<Rightarrow> nat list" where
  "code_points [] = []"
| "code_points [c] = [if is_high c \<or> is_low c then 0xFFFD else unat c]"
| "code_points (c # d # s) =
     (if is_high c \<and> is_low d
      then (0x10000 + (unat c - 0xD800) * 1024 + (unat d - 0xDC00)) # code_points s
      else (if is_high c \<or> is_low c then 0xFFFD else unat c) # code_points (d # s))"

text \<open>No lone surrogates: the strings UTF-8 can carry.\<close>

fun well_formed :: "jstr \<Rightarrow> bool" where
  "well_formed [] = True"
| "well_formed [c] = (\<not> is_high c \<and> \<not> is_low c)"
| "well_formed (c # d # s) =
     (if is_high c \<and> is_low d then well_formed s
      else \<not> is_high c \<and> \<not> is_low c \<and> well_formed (d # s))"

definition utf16_of :: "nat \<Rightarrow> jstr" where
  "utf16_of n = (if n < 0x10000 then [of_nat n]
     else [of_nat (0xD800 + (n - 0x10000) div 1024), of_nat (0xDC00 + (n - 0x10000) mod 1024)])"

lemma unat16_less: "unat (c :: code_unit) < 65536"
  using unsigned_less [of c] by simp

lemma unat8_less: "unat (b :: byte) < 256"
  using unsigned_less [of b] by simp

lemma word_of_nat_unat': "of_nat (unat w) = w"
  by simp

lemma unat_of_nat16: "n < 65536 \<Longrightarrow> unat (of_nat n :: code_unit) = n"
  by (simp add: unat_of_nat)

lemma unat_of_nat8: "n < 256 \<Longrightarrow> unat (of_nat n :: byte) = n"
  by (simp add: unat_of_nat)

lemma utf16_pair:
  assumes "is_high c" "is_low d"
  shows "utf16_of (0x10000 + (unat c - 0xD800) * 1024 + (unat d - 0xDC00)) = [c, d]"
proof -
  define x y where "x = unat c - 0xD800" and "y = unat d - 0xDC00"
  have "unat c = 0xD800 + x" "unat d = 0xDC00 + y" "y < 1024"
    using assms by (auto simp: is_high_def is_low_def x_def y_def)
  then have "of_nat (0xD800 + x) = c" "of_nat (0xDC00 + y) = d" "(x * 1024 + y) div 1024 = x" "(x * 1024 + y) mod 1024 = y"
    by (metis word_of_nat_unat', metis word_of_nat_unat', simp_all)
  then show ?thesis
    by (simp add: utf16_of_def x_def [symmetric] y_def [symmetric] add.assoc)
qed

lemma utf16_single: "utf16_of (unat c) = [c]"
  using unat16_less [of c] by (simp add: utf16_of_def)

lemma utf16_code_points: "well_formed s \<Longrightarrow> concat (map utf16_of (code_points s)) = s"
proof (induction s rule: code_points.induct)
  case 1
  then show ?case by simp
next
  case (2 c)
  then show ?case by (simp add: utf16_single)
next
  case (3 c d s)
  then show ?case
    by (cases "is_high c \<and> is_low d") (auto simp: utf16_pair utf16_single)
qed

text \<open>Every code point of a string is a Unicode scalar value.\<close>

definition scalar :: "nat \<Rightarrow> bool" where
  "scalar n \<longleftrightarrow> n < 0x110000 \<and> \<not> (0xD800 \<le> n \<and> n \<le> 0xDFFF)"

lemma code_points_scalar: "n \<in> set (code_points s) \<Longrightarrow> scalar n"
proof (induction s rule: code_points.induct)
  case 1
  then show ?case by simp
next
  case (2 c)
  then show ?case using unat16_less [of c]
    by (auto simp: scalar_def is_high_def is_low_def split: if_splits)
next
  case (3 c d s)
  then show ?case using unat16_less [of c] unat16_less [of d]
    by (auto simp: scalar_def is_high_def is_low_def split: if_splits)
qed

section \<open>UTF-8\<close>

definition utf8_cp :: "nat \<Rightarrow> bytes" where
  "utf8_cp n =
    (if n < 0x80 then [of_nat n]
     else if n < 0x800 then [of_nat (0xC0 + n div 64), of_nat (0x80 + n mod 64)]
     else if n < 0x10000 then
       [of_nat (0xE0 + n div 4096), of_nat (0x80 + n div 64 mod 64), of_nat (0x80 + n mod 64)]
     else
       [of_nat (0xF0 + n div 262144), of_nat (0x80 + n div 4096 mod 64),
        of_nat (0x80 + n div 64 mod 64), of_nat (0x80 + n mod 64)])"

definition utf8Encode :: "jstr \<Rightarrow> bytes" where
  "utf8Encode s = concat (map utf8_cp (code_points s))"

text \<open>
  The decoder of the Encoding Standard: continuation bytes are read while they are in
  range; the first one out of range ends the sequence with U+FFFD and is read again.
\<close>

fun u8_cont :: "nat \<Rightarrow> nat \<Rightarrow> nat \<Rightarrow> nat \<Rightarrow> bytes \<Rightarrow> nat \<times> bytes" where
  "u8_cont 0 lo hi acc bs = (acc, bs)"
| "u8_cont (Suc n) lo hi acc [] = (0xFFFD, [])"
| "u8_cont (Suc n) lo hi acc (b # bs) =
     (if lo \<le> unat b \<and> unat b \<le> hi then u8_cont n 0x80 0xBF (acc * 64 + (unat b - 0x80)) bs
      else (0xFFFD, b # bs))"

lemma u8_cont_length: "length (snd (u8_cont n lo hi acc bs)) \<le> length bs"
  by (induction n lo hi acc bs rule: u8_cont.induct) auto

definition u8_head :: "byte \<Rightarrow> bytes \<Rightarrow> nat \<times> bytes" where
  "u8_head b bs = (let n = unat b in
     if n < 0x80 then (n, bs)
     else if 0xC2 \<le> n \<and> n \<le> 0xDF then u8_cont 1 0x80 0xBF (n - 0xC0) bs
     else if 0xE0 \<le> n \<and> n \<le> 0xEF then
       u8_cont 2 (if n = 0xE0 then 0xA0 else 0x80) (if n = 0xED then 0x9F else 0xBF) (n - 0xE0) bs
     else if 0xF0 \<le> n \<and> n \<le> 0xF4 then
       u8_cont 3 (if n = 0xF0 then 0x90 else 0x80) (if n = 0xF4 then 0x8F else 0xBF) (n - 0xF0) bs
     else (0xFFFD, bs))"

lemma u8_head_length: "length (snd (u8_head b bs)) \<le> length bs"
  by (simp add: u8_head_def Let_def u8_cont_length)

function utf8_points :: "bytes \<Rightarrow> nat list" where
  "utf8_points [] = []"
| "utf8_points (b # bs) = fst (u8_head b bs) # utf8_points (snd (u8_head b bs))"
  by pat_completeness auto
termination
  by (relation "measure length") (auto simp: u8_head_length less_Suc_eq_le)

text \<open>\<open>new TextDecoder().decode(bytes)\<close>: a leading byte-order mark is dropped.\<close>

definition utf8Decode :: "bytes \<Rightarrow> jstr" where
  "utf8Decode bs = concat (map utf16_of
     (utf8_points (if take 3 bs = [0xEF, 0xBB, 0xBF] then drop 3 bs else bs)))"

lemma u8_cont_numeral [simp]:
  "u8_cont 2 lo hi acc (b # bs) =
     (if lo \<le> unat b \<and> unat b \<le> hi then u8_cont 1 0x80 0xBF (acc * 64 + (unat b - 0x80)) bs
      else (0xFFFD, b # bs))"
  "u8_cont 3 lo hi acc (b # bs) =
     (if lo \<le> unat b \<and> unat b \<le> hi then u8_cont 2 0x80 0xBF (acc * 64 + (unat b - 0x80)) bs
      else (0xFFFD, b # bs))"
  by (simp_all add: numeral_2_eq_2 numeral_3_eq_3)

lemma u8_head_2:
  assumes "2 \<le> a" "a < 32" "b < 64"
  shows "u8_head (of_nat (0xC0 + a)) (of_nat (0x80 + b) # r) = (a * 64 + b, r)"
  using assms by (simp add: u8_head_def unat_of_nat8 Let_def del: of_nat_add)

lemma u8_head_3:
  assumes "a < 16" "b < 64" "c < 64" "a = 0 \<Longrightarrow> 32 \<le> b" "a = 13 \<Longrightarrow> b < 32"
  shows "u8_head (of_nat (0xE0 + a)) (of_nat (0x80 + b) # of_nat (0x80 + c) # r)
    = ((a * 64 + b) * 64 + c, r)"
  using assms by (cases "a = 0"; cases "a = 13") (simp_all add: u8_head_def unat_of_nat8 Let_def del: of_nat_add)

lemma u8_cont_3:
  assumes "unat x = 0x80 + b" "unat y = 0x80 + c" "unat z = 0x80 + d"
    and "lo \<le> 0x80 + b" "0x80 + b \<le> hi" "c < 64" "d < 64"
  shows "u8_cont 3 lo hi acc (x # y # z # r) = (((acc * 64 + b) * 64 + c) * 64 + d, r)"
  using assms by simp

lemma u8_head_4:
  assumes "a \<le> 4" "b < 64" "c < 64" "d < 64" "a = 0 \<Longrightarrow> 16 \<le> b" "a = 4 \<Longrightarrow> b < 16"
  shows "u8_head (of_nat (0xF0 + a)) (of_nat (0x80 + b) # of_nat (0x80 + c) # of_nat (0x80 + d) # r)
    = (((a * 64 + b) * 64 + c) * 64 + d, r)"
proof -
  have ub: "unat (of_nat (0xF0 + a) :: byte) = 0xF0 + a" "unat (of_nat (0x80 + b) :: byte) = 0x80 + b"
    "unat (of_nat (0x80 + c) :: byte) = 0x80 + c" "unat (of_nat (0x80 + d) :: byte) = 0x80 + d"
    using assms(1-4) by (simp_all add: unat_of_nat8 del: of_nat_add)
  have lohi: "(if a = 0 then 0x90 else 0x80) \<le> 0x80 + b \<and> 0x80 + b \<le> (if a = 4 then 0x8F else 0xBF)"
    using assms by auto
  have "u8_cont 3 (if a = 0 then 0x90 else 0x80) (if a = 4 then 0x8F else 0xBF) a
      (of_nat (0x80 + b) # of_nat (0x80 + c) # of_nat (0x80 + d) # r) = (((a * 64 + b) * 64 + c) * 64 + d, r)"
    using ub(2-4) lohi assms(3,4) by (intro u8_cont_3) simp_all
  then show ?thesis
    using assms(1) unfolding u8_head_def ub(1) Let_def by (simp del: u8_cont_numeral of_nat_add)
qed

lemma base64_digits:
  "(n div 4096 * 64 + n div 64 mod 64) * 64 + n mod 64 = (n :: nat)"
  "((n div 262144 * 64 + n div 4096 mod 64) * 64 + n div 64 mod 64) * 64 + n mod 64 = (n :: nat)"
proof -
  have d: "n div 4096 = n div 64 div 64" "n div 262144 = n div 4096 div 64"
    by (simp_all add: div_mult2_eq [symmetric])
  show one: "(n div 4096 * 64 + n div 64 mod 64) * 64 + n mod 64 = n"
    unfolding d(1) by simp
  show "((n div 262144 * 64 + n div 4096 mod 64) * 64 + n div 64 mod 64) * 64 + n mod 64 = n"
    unfolding d(2) using one by simp
qed

lemma u8_head_cp:
  assumes "scalar n"
  shows "\<exists>b cs. utf8_cp n = b # cs \<and> u8_head b (cs @ r) = (n, r)"
proof -
  consider "n < 0x80" | "0x80 \<le> n" "n < 0x800" | "0x800 \<le> n" "n < 0x10000" | "0x10000 \<le> n" "n < 0x110000"
    using assms unfolding scalar_def by (meson linorder_not_less)
  then show ?thesis
  proof cases
    case 1
    then show ?thesis by (simp add: utf8_cp_def u8_head_def unat_of_nat8 del: of_nat_add)
  next
    case 2
    then have "n div 64 < 32" "2 \<le> n div 64" "n mod 64 < 64" by auto
    from u8_head_2 [OF this(2,1,3), of r] 2 show ?thesis
      by (simp add: utf8_cp_def del: of_nat_add)
  next
    case 3
    have "n div 4096 < 16" "n div 64 mod 64 < 64" "n mod 64 < 64"
      "n div 4096 = 0 \<Longrightarrow> 32 \<le> n div 64 mod 64" using 3 by auto
    moreover have "n div 64 mod 64 < 32" if "n div 4096 = 13"
    proof -
      have "832 \<le> n div 64" "n div 64 < 864" using that 3 assms by (auto simp: scalar_def)
      then have "n div 64 div 64 = 13" by auto
      then show ?thesis using \<open>n div 64 < 864\<close> minus_div_mult_eq_mod [of "n div 64" 64] by linarith
    qed
    ultimately show ?thesis
      using base64_digits(1) [of n] u8_head_3 [of "n div 4096" "n div 64 mod 64" "n mod 64" r] 3
      by (simp add: utf8_cp_def del: of_nat_add)
  next
    case 4
    have "n div 262144 \<le> 4" "n div 4096 mod 64 < 64" "n div 64 mod 64 < 64" "n mod 64 < 64"
      using 4 by auto
    moreover have "16 \<le> n div 4096 mod 64" if "n div 262144 = 0"
      using that 4 by auto
    moreover have "n div 4096 mod 64 < 16" if "n div 262144 = 4"
    proof -
      have "n div 4096 = 256 + (n div 4096 - 256)" "n div 4096 - 256 < 16"
        using that 4 by auto
      then show ?thesis by (simp add: mod_if)
    qed
    ultimately show ?thesis
      using base64_digits(2) [of n] u8_head_4 [of "n div 262144" "n div 4096 mod 64" "n div 64 mod 64" "n mod 64" r] 4
      by (simp add: utf8_cp_def del: of_nat_add)
  qed
qed

lemma utf8_points_cp: "scalar n \<Longrightarrow> utf8_points (utf8_cp n @ r) = n # utf8_points r"
  using u8_head_cp [of n r] by auto

lemma utf8_points_encode:
  "\<forall>n \<in> set ns. scalar n \<Longrightarrow> utf8_points (concat (map utf8_cp ns)) = ns"
  by (induction ns) (simp_all add: utf8_points_cp)

lemma utf8_points_utf8Encode: "utf8_points (utf8Encode s) = code_points s"
  unfolding utf8Encode_def by (rule utf8_points_encode) (simp add: code_points_scalar)

lemma utf8Encode_inj: "well_formed s \<Longrightarrow> well_formed t \<Longrightarrow> utf8Encode s = utf8Encode t \<Longrightarrow> s = t"
  by (metis utf8_points_utf8Encode utf16_code_points)

definition bom :: "nat" where
  "bom = 0xFEFF"

lemma utf8Encode_bom:
  assumes "take 3 (utf8Encode s) = [0xEF, 0xBB, 0xBF]"
  shows "\<exists>ns. code_points s = bom # ns"
proof -
  obtain r where "utf8Encode s = 0xEF # 0xBB # 0xBF # r"
    by (metis append_Cons append_Nil append_take_drop_id assms)
  have "u8_head 0xEF (0xBB # 0xBF # r) = (0xFEFF, r)"
    using u8_head_3 [of 15 59 63 r] by simp
  then have "utf8_points (utf8Encode s) = 0xFEFF # utf8_points r"
    using \<open>utf8Encode s = _\<close> by simp
  then show ?thesis by (simp add: utf8_points_utf8Encode bom_def)
qed

lemma utf8_roundtrip:
  assumes "well_formed s" and "take 1 (code_points s) \<noteq> [bom]"
  shows "utf8Decode (utf8Encode s) = s"
proof -
  have "take 3 (utf8Encode s) \<noteq> [0xEF, 0xBB, 0xBF]"
    using utf8Encode_bom [of s] assms(2) by auto
  then show ?thesis
    using assms(1) by (simp add: utf8Decode_def utf8_points_utf8Encode utf16_code_points)
qed

section \<open>Base64url\<close>

definition b64_char :: "nat \<Rightarrow> code_unit" where
  "b64_char n = of_nat (if n < 26 then 65 + n else if n < 52 then 71 + n else if n < 62 then n - 4
     else if n = 62 then 43 else 47)"

definition b64_val :: "code_unit \<Rightarrow> nat option" where
  "b64_val c = (let u = unat c in
     if 65 \<le> u \<and> u \<le> 90 then Some (u - 65)
     else if 97 \<le> u \<and> u \<le> 122 then Some (u - 71)
     else if 48 \<le> u \<and> u \<le> 57 then Some (u + 4)
     else if u = 43 \<or> u = 45 then Some 62
     else if u = 47 \<or> u = 95 then Some 63
     else None)"

text \<open>The platform's encoder, with padding; its decoder skips characters outside the alphabet.\<close>

fun base64_encode :: "bytes \<Rightarrow> jstr" where
  "base64_encode [] = []"
| "base64_encode [x] =
     [b64_char (unat x div 4), b64_char (unat x mod 4 * 16), 61, 61]"
| "base64_encode [x, y] =
     [b64_char (unat x div 4), b64_char (unat x mod 4 * 16 + unat y div 16),
      b64_char (unat y mod 16 * 4), 61]"
| "base64_encode (x # y # z # r) =
     b64_char (unat x div 4) # b64_char (unat x mod 4 * 16 + unat y div 16)
     # b64_char (unat y mod 16 * 4 + unat z div 64) # b64_char (unat z mod 64) # base64_encode r"

fun b64_groups :: "nat list \<Rightarrow> bytes" where
  "b64_groups (a # b # c # d # r) =
     of_nat (a * 4 + b div 16) # of_nat (b mod 16 * 16 + c div 4) # of_nat (c mod 4 * 64 + d) # b64_groups r"
| "b64_groups [a, b, c] = [of_nat (a * 4 + b div 16), of_nat (b mod 16 * 16 + c div 4)]"
| "b64_groups [a, b] = [of_nat (a * 4 + b div 16)]"
| "b64_groups _ = []"

definition base64_decode :: "jstr \<Rightarrow> bytes" where
  "base64_decode s = b64_groups (List.map_filter b64_val s)"

definition replace_char :: "code_unit \<Rightarrow> code_unit \<Rightarrow> jstr \<Rightarrow> jstr" where
  "replace_char a b s = map (\<lambda>c. if c = a then b else c) s"

definition padEnd :: "jstr \<Rightarrow> nat \<Rightarrow> code_unit \<Rightarrow> jstr" where
  "padEnd s n c = s @ replicate (n - length s) c"

definition toBase64Url :: "bytes \<Rightarrow> jstr" where
  "toBase64Url bs =
     rev (dropWhile (\<lambda>c. c = 61) (rev (replace_char 47 95 (replace_char 43 45 (base64_encode bs)))))"

definition fromBase64Url :: "jstr \<Rightarrow> bytes" where
  "fromBase64Url s =
     base64_decode (padEnd (replace_char 95 47 (replace_char 45 43 s)) ((length s + 3) div 4 * 4) 61)"

lemma b64_val_char: "n < 64 \<Longrightarrow> b64_val (b64_char n) = Some n"
proof -
  assume "n < 64"
  then consider "n < 26" | "26 \<le> n" "n < 52" | "52 \<le> n" "n < 62" | "n = 62" | "n = 63" by linarith
  then show ?thesis
    by cases (auto simp add: b64_val_def b64_char_def Let_def unat_of_nat16 simp del: of_nat_add of_nat_diff)
qed

lemma b64_char_not_pad: "n < 64 \<Longrightarrow> b64_char n \<noteq> 61"
  using b64_val_char [of n] by (auto simp: b64_val_def)

lemma b64_val_simps [simp]: "b64_val 61 = None" "b64_val 45 = b64_val 43" "b64_val 95 = b64_val 47"
  by (simp_all add: b64_val_def)

lemma map_filter_replace:
  assumes "b64_val a = b64_val b"
  shows "List.map_filter b64_val (replace_char a b s) = List.map_filter b64_val s"
  using assms by (induction s) (auto simp: replace_char_def map_filter_simps split: option.splits)

lemma map_filter_append: "List.map_filter f (a @ b) = List.map_filter f a @ List.map_filter f b"
  by (simp add: List.map_filter_def)

lemma map_filter_none: "(\<And>x. x \<in> set a \<Longrightarrow> f x = None) \<Longrightarrow> List.map_filter f a = []"
  by (induction a) (auto simp: map_filter_simps)

lemma map_filter_pad: "List.map_filter b64_val (replicate n 61) = []"
  by (rule map_filter_none) auto

lemma map_filter_strip:
  "List.map_filter b64_val (rev (dropWhile (\<lambda>c. c = 61) (rev s))) = List.map_filter b64_val s"
proof -
  have "s = rev (dropWhile (\<lambda>c. c = 61) (rev s)) @ rev (takeWhile (\<lambda>c. c = 61) (rev s))"
    by (metis rev_append rev_rev_ident takeWhile_dropWhile_id)
  moreover have "List.map_filter b64_val (rev (takeWhile (\<lambda>c. c = 61) (rev s))) = []"
    by (rule map_filter_none) (auto dest: set_takeWhileD)
  ultimately show ?thesis by (metis append_Nil2 map_filter_append)
qed

lemma sextets_bound:
  "unat (x :: byte) div 4 < 64" "unat x mod 4 * 16 + unat (y :: byte) div 16 < 64"
  "unat x mod 4 * 16 < 64" "unat y mod 16 * 4 < 64"
  "unat y mod 16 * 4 + unat (z :: byte) div 64 < 64" "unat z mod 64 < 64"
proof -
  have b: "unat x < 256" "unat y < 256" "unat z < 256" by (rule unat8_less)+
  then have d: "unat x div 4 < 64" "unat y div 16 < 16" "unat z div 64 < 4" by auto
  have m: "unat x mod 4 < 4" "unat y mod 16 < 16" by simp_all
  show "unat (x :: byte) div 4 < 64" "unat x mod 4 * 16 + unat (y :: byte) div 16 < 64"
    "unat x mod 4 * 16 < 64" "unat y mod 16 * 4 < 64"
    "unat y mod 16 * 4 + unat (z :: byte) div 64 < 64" "unat z mod 64 < 64"
    using d m by linarith+
qed

lemma sextets_join:
  "of_nat (unat (x :: byte) div 4 * 4 + (unat x mod 4 * 16 + unat (y :: byte) div 16) div 16) = x"
  "of_nat (unat x div 4 * 4 + unat x mod 4 * 16 div 16) = x"
  "of_nat ((unat x mod 4 * 16 + unat y div 16) mod 16 * 16 + (unat y mod 16 * 4 + unat (z :: byte) div 64) div 4) = y"
  "of_nat ((unat x mod 4 * 16 + unat y div 16) mod 16 * 16 + unat y mod 16 * 4 div 4) = y"
  "of_nat ((unat y mod 16 * 4 + unat z div 64) mod 4 * 64 + unat z mod 64) = z"
proof -
  have "unat x < 256" "unat y < 256" "unat z < 256" by (rule unat8_less)+
  then have d: "unat y div 16 < 16" "unat z div 64 < 4" by auto
  have e: "(unat x mod 4 * 16 + unat y div 16) div 16 = unat x mod 4"
    "(unat x mod 4 * 16 + unat y div 16) mod 16 = unat y div 16"
    "(unat y mod 16 * 4 + unat z div 64) div 4 = unat y mod 16"
    "(unat y mod 16 * 4 + unat z div 64) mod 4 = unat z div 64"
    using d by simp_all
  show "of_nat (unat (x :: byte) div 4 * 4 + (unat x mod 4 * 16 + unat (y :: byte) div 16) div 16) = x"
    "of_nat (unat x div 4 * 4 + unat x mod 4 * 16 div 16) = x"
    "of_nat ((unat x mod 4 * 16 + unat y div 16) mod 16 * 16 + (unat y mod 16 * 4 + unat (z :: byte) div 64) div 4) = y"
    "of_nat ((unat x mod 4 * 16 + unat y div 16) mod 16 * 16 + unat y mod 16 * 4 div 4) = y"
    "of_nat ((unat y mod 16 * 4 + unat z div 64) mod 4 * 64 + unat z mod 64) = z"
    unfolding e by (simp_all del: of_nat_add of_nat_mult)
qed

lemma base64_roundtrip: "base64_decode (base64_encode bs) = bs"
proof (induction bs rule: base64_encode.induct)
  case 1
  then show ?case by (simp add: base64_decode_def map_filter_simps)
next
  case (2 x)
  then show ?case
    by (simp add: base64_decode_def map_filter_simps b64_val_char sextets_bound sextets_join del: of_nat_add of_nat_mult)
next
  case (3 x y)
  show ?case
    by (simp only: base64_encode.simps base64_decode_def map_filter_simps b64_val_char sextets_bound
        b64_val_simps option.simps b64_groups.simps sextets_join)
next
  case (4 x y z r)
  then show ?case
    by (simp only: base64_encode.simps base64_decode_def map_filter_simps b64_val_char sextets_bound
        option.simps b64_groups.simps sextets_join)
qed

lemma fromBase64Url_eq: "fromBase64Url s = b64_groups (List.map_filter b64_val s)"
  by (simp add: fromBase64Url_def base64_decode_def padEnd_def map_filter_append map_filter_replace map_filter_pad)

lemma base64url_roundtrip: "fromBase64Url (toBase64Url bs) = bs"
  using base64_roundtrip [of bs]
  by (simp add: fromBase64Url_eq toBase64Url_def map_filter_strip map_filter_replace base64_decode_def)

section \<open>Hexadecimal\<close>

definition hex_digit :: "nat \<Rightarrow> code_unit" where
  "hex_digit n = of_nat (if n < 10 then 48 + n else 87 + n)"

definition unhex_digit :: "code_unit \<Rightarrow> nat" where
  "unhex_digit c = (if unat c < 58 then unat c - 48 else unat c - 87)"

lemma unhex_hex_digit [simp]: "n < 16 \<Longrightarrow> unhex_digit (hex_digit n) = n"
  by (auto simp: unhex_digit_def hex_digit_def unat_of_nat16)

text \<open>\<open>b.toString(16).padStart(2, '0')\<close> for every byte.\<close>

definition toHex :: "bytes \<Rightarrow> jstr" where
  "toHex bs = concat (map (\<lambda>b. [hex_digit (unat b div 16), hex_digit (unat b mod 16)]) bs)"

lemma length_toHex: "length (toHex bs) = 2 * length bs"
  by (induction bs) (auto simp: toHex_def)

lemma toHex_inj: "toHex as = toHex bs \<Longrightarrow> as = bs"
proof (induction as arbitrary: bs)
  case Nil
  then show ?case by (cases bs) (auto simp: toHex_def)
next
  case (Cons a as)
  then obtain b cs where bs: "bs = b # cs" by (cases bs) (auto simp: toHex_def)
  with Cons.prems have "hex_digit (unat a div 16) = hex_digit (unat b div 16)"
    "hex_digit (unat a mod 16) = hex_digit (unat b mod 16)" "toHex as = toHex cs"
    by (auto simp: toHex_def)
  moreover have "unat a div 16 < 16" "unat b div 16 < 16"
    using unat8_less [of a] unat8_less [of b] by auto
  ultimately have "unat a div 16 = unat b div 16" "unat a mod 16 = unat b mod 16" "as = cs"
    by (metis unhex_hex_digit, metis unhex_hex_digit mod_less_divisor zero_less_numeral, metis Cons.IH)
  then show ?case using bs by (metis div_mult_mod_eq unsigned_word_eqI)
qed

end
