(* ===== verification/Json.thy ===== *)
theory Json
  imports Encoding
begin

text \<open>
  JSON text as the signed documents use it. \<open>json\<close> is a JSON value with object members
  in insertion order; \<open>quote\<close> is \<open>JSON.stringify\<close> on strings (well-formed
  stringify: control characters and lone surrogates are escaped), \<open>print_json\<close> is
  \<open>JSON.stringify\<close> on whole values, and \<open>stableStringify\<close> is the function of
  \<open>src/actionBinding.ts\<close>. The main results: what is printed is self-delimiting, so the
  printer is injective, and \<open>stableStringify\<close> maps two values to the same text
  exactly when they agree up to the order of object members.
\<close>

datatype json =
    JNull
  | JBool bool
  | JNum jnum
  | JStr jstr
  | JArr "json list"
  | JObj "(jstr \<times> json) list"

section \<open>Numbers\<close>

function show_nat :: "nat \<Rightarrow> jstr" where
  "show_nat n = (if n < 10 then [of_nat (48 + n)] else show_nat (n div 10) @ [of_nat (48 + n mod 10)])"
  by pat_completeness auto
termination by (relation "measure id") auto

declare show_nat.simps [simp del]

definition show_int :: "int \<Rightarrow> jstr" where
  "show_int i = (if i < 0 then 45 # show_nat (nat (- i)) else show_nat (nat i))"

text \<open>\<open>`${n}`\<close>: what a template literal makes of a number.\<close>

fun show_num :: "jnum \<Rightarrow> jstr" where
  "show_num (Fin i) = show_int i"
| "show_num NaN = js ''NaN''"
| "show_num PosInf = js ''Infinity''"
| "show_num NegInf = js ''-Infinity''"

definition digit_char :: "code_unit \<Rightarrow> bool" where
  "digit_char c \<longleftrightarrow> 48 \<le> unat c \<and> unat c \<le> 57"

fun read_nat :: "jstr \<Rightarrow> nat \<Rightarrow> nat" where
  "read_nat [] acc = acc"
| "read_nat (c # cs) acc = read_nat cs (acc * 10 + (unat c - 48))"

lemma read_nat_append: "read_nat (a @ b) acc = read_nat b (read_nat a acc)"
  by (induction a arbitrary: acc) auto

lemma digit_unat: "d < 10 \<Longrightarrow> unat (of_nat (48 + d) :: code_unit) = 48 + d"
  by (rule unat_of_nat16) simp

lemma read_show_nat: "read_nat (show_nat n) 0 = n"
proof (induction n rule: show_nat.induct)
  case (1 n)
  show ?case
  proof (cases "n < 10")
    case True
    then show ?thesis by (subst show_nat.simps) (simp add: digit_unat del: of_nat_add)
  next
    case False
    with 1 have "read_nat (show_nat (n div 10)) 0 = n div 10" by simp
    with False show ?thesis
      by (subst show_nat.simps) (simp add: read_nat_append digit_unat del: of_nat_add)
  qed
qed

lemma show_nat_digits: "\<forall>c \<in> set (show_nat n). digit_char c"
proof (induction n rule: show_nat.induct)
  case (1 n)
  have "n mod 10 < 10" by simp
  with 1 show ?case
    by (subst show_nat.simps) (auto simp add: digit_char_def digit_unat simp del: of_nat_add)
qed

lemma show_nat_nonempty: "show_nat n \<noteq> []"
  by (subst show_nat.simps) simp

lemma show_nat_inj: "show_nat m = show_nat n \<longleftrightarrow> m = n"
  by (metis read_show_nat)

text \<open>
  A text that does not continue a number: empty, or starting with a character no number
  contains.
\<close>

definition num_char :: "code_unit \<Rightarrow> bool" where
  "num_char c \<longleftrightarrow> digit_char c \<or> c = 45 \<or> 65 \<le> unat c \<and> unat c \<le> 90 \<or> 97 \<le> unat c \<and> unat c \<le> 122"

definition delimited :: "jstr \<Rightarrow> bool" where
  "delimited r \<longleftrightarrow> r = [] \<or> \<not> num_char (hd r)"

lemma delimited_simps [simp, printer_simps]:
  "delimited []" "delimited (c # r) \<longleftrightarrow> \<not> num_char c"
  by (auto simp: delimited_def)

lemma num_char_delims [simp]: "\<not> num_char 44" "\<not> num_char 125" "\<not> num_char 93" "\<not> num_char 34" "\<not> num_char 58"
  "\<not> num_char 10" "\<not> num_char 46" "\<not> num_char 123" "\<not> num_char 91"
  by (simp_all add: num_char_def digit_char_def)

lemma show_int_inj: "show_int i = show_int j \<longleftrightarrow> i = j"
proof -
  have d: "c \<noteq> 45" if "c \<in> set (show_nat n)" for c n
    using show_nat_digits [of n] that by (auto simp: digit_char_def)
  have n: "show_nat n \<noteq> 45 # r" for n r
    using d [of "45" n] by (metis list.set_intros(1))
  show ?thesis
    by (auto simp: show_int_def show_nat_inj n n [symmetric])
qed

lemma show_num_chars: "\<forall>c \<in> set (show_num n). num_char c"
  by (cases n) (use show_nat_digits in \<open>auto simp: show_int_def num_char_def ascii_eval\<close>)

lemma show_num_inj: "show_num m = show_num n \<longleftrightarrow> m = n"
proof -
  have a: "show_int i \<noteq> c # d # r" if "\<not> digit_char d" for i c d r
    using show_nat_digits [of "nat i"] show_nat_digits [of "nat (- i)"] that
    by (auto simp: show_int_def split: if_splits)
  have x: "show_int i \<noteq> js ''NaN''" "show_int i \<noteq> js ''Infinity''" "show_int i \<noteq> js ''-Infinity''" for i
    by (simp_all add: ascii_eval a digit_char_def)
  show ?thesis
    by (cases m; cases n) (auto simp: show_int_inj x x [symmetric])
qed

lemma show_num_delim:
  assumes "show_num m @ r = show_num n @ s" "delimited r" "delimited s"
  shows "m = n \<and> r = s"
  using span_unique [OF assms(1) show_num_chars _ show_num_chars] assms(2,3)
  by (auto simp: delimited_def show_num_inj)

section \<open>Strings\<close>

definition hex4 :: "nat \<Rightarrow> jstr" where
  "hex4 n = [hex_digit (n div 4096 mod 16), hex_digit (n div 256 mod 16), hex_digit (n div 16 mod 16), hex_digit (n mod 16)]"

text \<open>The escape of one code unit; 92 is the backslash, 34 the quotation mark.\<close>

definition escape :: "code_unit \<Rightarrow> jstr" where
  "escape c =
    (if c = 34 then [92, 34] else if c = 92 then [92, 92]
     else if c = 8 then [92, 98] else if c = 9 then [92, 116] else if c = 10 then [92, 110]
     else if c = 12 then [92, 102] else if c = 13 then [92, 114]
     else if unat c < 32 \<or> is_high c \<or> is_low c then 92 # 117 # hex4 (unat c)
     else [c])"

fun quote_body :: "jstr \<Rightarrow> jstr" where
  "quote_body [] = []"
| "quote_body [c] = escape c"
| "quote_body (c # d # s) =
     (if is_high c \<and> is_low d then c # d # quote_body s else escape c @ quote_body (d # s))"

definition quote :: "jstr \<Rightarrow> jstr" where
  "quote s = 34 # quote_body s @ [34]"

text \<open>Reading a quoted string back, used to show that quoting loses nothing.\<close>

definition unescape :: "code_unit \<Rightarrow> code_unit" where
  "unescape c = (if c = 98 then 8 else if c = 116 then 9 else if c = 110 then 10
     else if c = 102 then 12 else if c = 114 then 13 else c)"

function unquote :: "jstr \<Rightarrow> (jstr \<times> jstr) option" where
  "unquote s = (case s of [] \<Rightarrow> None
     | c # r \<Rightarrow>
       if c = 34 then Some ([], r)
       else if c = 92 then
         (case r of [] \<Rightarrow> None
          | d # r' \<Rightarrow>
            if d = 117 then
              map_option (\<lambda>(t, z). (of_nat (unhex_digit (r' ! 0) * 4096 + unhex_digit (r' ! 1) * 256
                  + unhex_digit (r' ! 2) * 16 + unhex_digit (r' ! 3)) # t, z)) (unquote (drop 4 r'))
            else map_option (\<lambda>(t, z). (unescape d # t, z)) (unquote r'))
       else map_option (\<lambda>(t, z). (c # t, z)) (unquote r))"
  by pat_completeness auto
termination by (relation "measure length") auto

declare unquote.simps [simp del]

lemma unquote_raw: "c \<noteq> 34 \<Longrightarrow> c \<noteq> 92 \<Longrightarrow> unquote (c # r) = map_option (\<lambda>(t, z). (c # t, z)) (unquote r)"
  by (subst unquote.simps) simp

lemma unquote_stop: "unquote (34 # r) = Some ([], r)"
  by (subst unquote.simps) simp

lemma unquote_short: "d \<noteq> 117 \<Longrightarrow> unquote (92 # d # r) = map_option (\<lambda>(t, z). (unescape d # t, z)) (unquote r)"
  by (subst unquote.simps) simp

lemma hex4_value:
  fixes n :: nat
  shows "n div 4096 * 4096 + n div 256 mod 16 * 256 + n div 16 mod 16 * 16 + n mod 16 = n"
proof -
  have "n div 16 div 16 = n div 256" "n div 256 div 16 = n div 4096"
    by (simp_all add: div_mult2_eq [symmetric])
  then show ?thesis
    using div_mult_mod_eq [of n 16] div_mult_mod_eq [of "n div 16" 16] div_mult_mod_eq [of "n div 256" 16]
    by linarith
qed

lemma unquote_hex:
  "unquote (92 # 117 # hex4 (unat c) @ r) = map_option (\<lambda>(t, z). (c # t, z)) (unquote r)"
proof -
  have "unat c div 4096 < 16" using unat16_less [of c] by auto
  then have m: "unat c div 4096 mod 16 = unat c div 4096" by simp
  show ?thesis
    by (subst unquote.simps) (simp add: hex4_def m hex4_value \<open>unat c div 4096 < 16\<close> del: of_nat_add of_nat_mult)
qed

lemma unquote_escape: "unquote (escape c @ r) = map_option (\<lambda>(t, z). (c # t, z)) (unquote r)"
proof -
  consider "c \<in> {34, 92, 8, 9, 10, 12, 13}" | "c \<notin> {34, 92, 8, 9, 10, 12, 13}" "unat c < 32 \<or> is_high c \<or> is_low c"
    | "c \<notin> {34, 92, 8, 9, 10, 12, 13}" "\<not> (unat c < 32 \<or> is_high c \<or> is_low c)" by blast
  then show ?thesis
  proof cases
    case 1
    then show ?thesis by (auto simp: escape_def unquote_short unescape_def)
  next
    case 2
    then show ?thesis by (simp add: escape_def unquote_hex)
  next
    case 3
    then show ?thesis by (simp add: escape_def unquote_raw)
  qed
qed

lemma surrogate_raw: "is_high c \<or> is_low c \<Longrightarrow> c \<noteq> 34 \<and> c \<noteq> 92"
  by (auto simp: is_high_def is_low_def)

lemma unquote_body: "unquote (quote_body s @ 34 # r) = Some (s, r)"
proof (induction s rule: quote_body.induct)
  case 1
  then show ?case by (simp add: unquote_stop)
next
  case (2 c)
  then show ?case by (simp add: unquote_escape unquote_stop)
next
  case (3 c d s)
  then show ?case
    by (cases "is_high c \<and> is_low d") (auto simp add: unquote_escape unquote_raw surrogate_raw)
qed

lemma quote_delim: "quote s @ r = quote t @ r' \<Longrightarrow> s = t \<and> r = r'"
proof -
  assume "quote s @ r = quote t @ r'"
  then have "quote_body s @ 34 # r = quote_body t @ 34 # r'" by (simp add: quote_def)
  then have "Some (s, r) = Some (t, r')" by (metis unquote_body)
  then show ?thesis by simp
qed

lemma quote_inj [simp]: "quote s = quote t \<longleftrightarrow> s = t"
  using quote_delim [of s "[]" t "[]"] by auto

lemma quote_Cons: "\<exists>r. quote s = 34 # r"
  by (simp add: quote_def)

section \<open>Values\<close>

text \<open>\<open>JSON.stringify\<close>: a number that is not finite prints as \<open>null\<close>.\<close>

fun print_json :: "json \<Rightarrow> jstr" where
  "print_json JNull = js ''null''"
| "print_json (JBool b) = (if b then js ''true'' else js ''false'')"
| "print_json (JNum n) = (if is_finite n then show_num n else js ''null'')"
| "print_json (JStr s) = quote s"
| "print_json (JArr vs) = 91 # join_with [44] (map print_json vs) @ [93]"
| "print_json (JObj kvs) = 123 # join_with [44] (map (\<lambda>(k, v). quote k @ 58 # print_json v) kvs) @ [125]"

text \<open>
  \<open>stableStringify\<close>: members sorted by key (UTF-16 code unit order), \<open>None\<close> where the
  source throws. \<open>undefined\<close> members and other unsupported values are not JSON values
  and have no counterpart here.
\<close>

fun stableStringify :: "json \<Rightarrow> jstr option" where
  "stableStringify JNull = Some (js ''null'')"
| "stableStringify (JStr s) = Some (quote s)"
| "stableStringify (JBool b) = Some (if b then js ''true'' else js ''false'')"
| "stableStringify (JNum n) = (if is_finite n then Some (show_num n) else None)"
| "stableStringify (JArr vs) =
     map_option (\<lambda>ts. 91 # join_with [44] ts @ [93]) (all_some (map stableStringify vs))"
| "stableStringify (JObj kvs) =
     map_option (\<lambda>ts. 123 # join_with [44] ts @ [125])
       (all_some (map (\<lambda>(k, t). map_option (\<lambda>t. quote k @ 58 # t) t)
         (sort_key fst (map (\<lambda>(k, v). (k, stableStringify v)) kvs))))"

fun json_finite :: "json \<Rightarrow> bool" where
  "json_finite (JNum n) = is_finite n"
| "json_finite (JArr vs) = (\<forall>v \<in> set vs. json_finite v)"
| "json_finite (JObj kvs) = (\<forall>(k, v) \<in> set kvs. json_finite v)"
| "json_finite _ = True"

text \<open>Object members brought into key order, at every level.\<close>

fun norm_json :: "json \<Rightarrow> json" where
  "norm_json (JArr vs) = JArr (map norm_json vs)"
| "norm_json (JObj kvs) = JObj (sort_key fst (map (\<lambda>(k, v). (k, norm_json v)) kvs))"
| "norm_json v = v"

lemma insort_key_map_fst:
  "insort_key fst (k, g v) (map (\<lambda>(k, v). (k, g v)) xs) = map (\<lambda>(k, v). (k, g v)) (insort_key fst (k, v) xs)"
  by (induction xs) auto

lemma sort_key_map_fst:
  "sort_key fst (map (\<lambda>(k, v). (k, g v)) xs) = map (\<lambda>(k, v). (k, g v)) (sort_key fst xs)"
  by (induction xs) (auto simp: insort_key_map_fst)

lemma stableStringify_finite: "json_finite v \<Longrightarrow> stableStringify v = Some (print_json (norm_json v))"
proof (induction v rule: stableStringify.induct)
  case (5 vs)
  then have e: "map stableStringify vs = map (\<lambda>v. Some (print_json (norm_json v))) vs" by simp
  have "all_some (map stableStringify vs) = Some (map (\<lambda>v. print_json (norm_json v)) vs)"
    unfolding e by (rule all_some_map_Some)
  then show ?case by (simp add: comp_def)
next
  case (6 kvs)
  have e: "map (\<lambda>(k, v). (k, stableStringify v)) kvs = map (\<lambda>(k, v). (k, Some (print_json (norm_json v)))) kvs"
    using 6 by (auto intro!: map_cong)
  define m where "m = (\<lambda>(k, v). quote k @ 58 # print_json (norm_json v))"
  have "map (\<lambda>(k, t). map_option (\<lambda>t. quote k @ 58 # t) t) (sort_key fst (map (\<lambda>(k, v). (k, stableStringify v)) kvs))
      = map (\<lambda>kv. Some (m kv)) (sort_key fst kvs)"
    unfolding e sort_key_map_fst [of "\<lambda>v. Some (print_json (norm_json v))"] by (auto simp: m_def)
  then have "stableStringify (JObj kvs) = Some (123 # join_with [44] (map m (sort_key fst kvs)) @ [125])"
    by (simp only: stableStringify.simps all_some_map_Some option.map)
  moreover have "print_json (norm_json (JObj kvs)) = 123 # join_with [44] (map m (sort_key fst kvs)) @ [125]"
    unfolding m_def by (simp only: norm_json.simps print_json.simps sort_key_map_fst map_map comp_def) (simp add: case_prod_beta')
  ultimately show ?case by simp
qed auto

lemma stableStringify_throws: "stableStringify v = None \<longleftrightarrow> \<not> json_finite v"
proof (induction v rule: stableStringify.induct)
  case (5 vs)
  have "None \<in> set (map stableStringify vs) \<longleftrightarrow> (\<exists>v \<in> set vs. stableStringify v = None)"
    by (force simp: image_iff)
  with 5 show ?case by (auto simp: all_some_eq_None)
next
  case (6 kvs)
  have "None \<in> set (map (\<lambda>(k, t). map_option (\<lambda>t. quote k @ 58 # t) t) (sort_key fst (map (\<lambda>(k, v). (k, stableStringify v)) kvs)))
      \<longleftrightarrow> (\<exists>(k, v) \<in> set kvs. stableStringify v = None)"
    by (force simp: image_iff)
  also have "\<dots> \<longleftrightarrow> (\<exists>(k, v) \<in> set kvs. \<not> json_finite v)"
    using 6 by (auto split: prod.splits; blast)
  finally show ?case by (auto simp: all_some_eq_None)
qed auto

section \<open>Printing is self-delimiting\<close>

definition self_delimiting :: "json \<Rightarrow> bool" where
  "self_delimiting v \<longleftrightarrow> (\<forall>w r s. json_finite w \<longrightarrow> delimited r \<longrightarrow> delimited s \<longrightarrow>
     print_json v @ r = print_json w @ s \<longrightarrow> v = w \<and> r = s)"

fun is_word :: "json \<Rightarrow> bool" where
  "is_word JNull = True"
| "is_word (JBool _) = True"
| "is_word (JNum _) = True"
| "is_word _ = False"

lemma word_chars: "is_word v \<Longrightarrow> \<forall>c \<in> set (print_json v). num_char c"
  by (cases v) (use show_num_chars in \<open>auto simp: ascii_eval num_char_def\<close>)

lemma show_num_nonempty: "show_num n \<noteq> []"
  by (cases n) (auto simp: show_int_def show_nat_nonempty ascii_eval)

lemma print_word_inj:
  assumes "is_word v" "is_word w" "json_finite v" "json_finite w" "print_json v = print_json w"
  shows "v = w"
proof -
  have no: "show_int i \<noteq> c # r" if "\<not> digit_char c" "c \<noteq> 45" for i c r
    using show_nat_digits [of "nat i"] that by (auto simp: show_int_def split: if_splits)
  have x: "show_int i \<noteq> js ''null''" "show_int i \<noteq> js ''true''" "show_int i \<noteq> js ''false''" for i
    by (simp_all add: ascii_eval no digit_char_def)
  show ?thesis using assms
    by (cases v; cases w) (auto simp: is_finite_iff show_int_inj x x [symmetric] split: if_splits)
qed

lemma print_first:
  "\<exists>c r. print_json v = c # r \<and> (if is_word v then num_char c else
      c = (case v of JStr _ \<Rightarrow> 34 | JArr _ \<Rightarrow> 91 | _ \<Rightarrow> 123))"
proof (cases "is_word v")
  case True
  have "print_json v \<noteq> []" using True by (cases v) (auto simp: ascii_eval show_num_nonempty)
  with word_chars [OF True] True show ?thesis by (cases "print_json v") auto
next
  case False
  then show ?thesis by (cases v) (auto simp: quote_def)
qed

definition lead :: "json \<Rightarrow> code_unit" where
  "lead v = hd (print_json v)"

lemma lead_simps [simp]: "lead (JStr t) = 34" "lead (JArr vs) = 91" "lead (JObj kvs) = 123"
  by (simp_all add: lead_def quote_def)

lemma lead_word: "is_word v \<Longrightarrow> num_char (lead v)"
  using print_first [of v] by (auto simp: lead_def split: if_splits)

lemma lead_eq: "print_json v @ r = print_json w @ s \<Longrightarrow> lead v = lead w"
  using print_first [of v] print_first [of w] by (auto simp: lead_def)

lemma lead_cases:
  "lead w = 34 \<Longrightarrow> \<exists>t. w = JStr t" "lead w = 91 \<Longrightarrow> \<exists>vs. w = JArr vs" "lead w = 123 \<Longrightarrow> \<exists>kvs. w = JObj kvs"
  using lead_word [of w] by (cases w; simp)+

lemma word_delim:
  assumes "is_word v" "json_finite v" shows "self_delimiting v"
  unfolding self_delimiting_def
proof (intro allI impI)
  fix w r s
  assume w: "json_finite w" "delimited r" "delimited s" and eq: "print_json v @ r = print_json w @ s"
  have "is_word w"
    using lead_eq [OF eq] lead_word [OF assms(1)] by (cases w) auto
  with word_chars [OF assms(1)] word_chars [OF this] w(2,3)
  have "print_json v = print_json w \<and> r = s"
    by (intro span_unique [OF eq]) (auto simp: delimited_def)
  with assms w(1) \<open>is_word w\<close> show "v = w \<and> r = s" by (auto intro: print_word_inj)
qed

text \<open>A separated list of self-delimiting items, closed by a bracket.\<close>

lemma join_delim:
  assumes "\<And>v w r s. v \<in> set vs \<Longrightarrow> w \<in> set ws \<Longrightarrow> delimited r \<Longrightarrow> delimited s \<Longrightarrow> p v @ r = p w @ s \<Longrightarrow> v = w \<and> r = s"
    and "\<And>v. \<exists>c t. p v = c # t \<and> c \<noteq> close"
    and "\<not> num_char close" "close \<noteq> 44"
    and "join_with [44] (map p vs) @ close # r = join_with [44] (map p ws) @ close # s"
  shows "vs = ws \<and> r = s"
  using assms(1,5)
proof (induction vs arbitrary: ws)
  case Nil
  show ?case
  proof (cases ws)
    case (Cons w ws')
    obtain c t where "p w = c # t" "c \<noteq> close" using assms(2) by blast
    with Nil(2) Cons show ?thesis by (cases ws') auto
  qed (use Nil(2) in simp)
next
  case (Cons v vs)
  obtain w ws' where ws: "ws = w # ws'"
  proof (cases ws)
    case Nil
    obtain c t where "p v = c # t" "c \<noteq> close" using assms(2) by blast
    with Cons(3) Nil show ?thesis by (cases vs) auto
  qed auto
  define tail where "tail us z = (if us = [] then close # z else 44 # join_with [44] (map p us) @ close # z)" for us z
  have join: "join_with [44] (map p (u # us)) @ close # z = p u @ tail us z" for u us z
    by (cases us) (auto simp: tail_def join_with_Cons)
  have del: "delimited (tail us z)" for us z using assms(3) by (simp add: tail_def)
  have "p v @ tail vs r = p w @ tail ws' s" using Cons(3) unfolding ws join .
  then have vw: "v = w" "tail vs r = tail ws' s" using Cons(2) [of v w] ws del by auto
  then have e: "join_with [44] (map p vs) @ close # r = join_with [44] (map p ws') @ close # s"
    using assms(4) by (auto simp: tail_def split: if_splits)
  have "vs = ws' \<and> r = s"
  proof (rule Cons(1) [OF _ e])
    fix x y r s
    assume "x \<in> set vs" "y \<in> set ws'" "delimited r" "delimited s" "p x @ r = p y @ s"
    then show "x = y \<and> r = s" using ws by (intro Cons(2)) simp_all
  qed
  with vw ws show ?case by simp
qed

lemma self_delimitingD:
  "self_delimiting v \<Longrightarrow> json_finite w \<Longrightarrow> delimited r \<Longrightarrow> delimited s \<Longrightarrow>
    print_json v @ r = print_json w @ s \<Longrightarrow> v = w \<and> r = s"
  by (simp add: self_delimiting_def)

lemma self_delimitingI:
  "(\<And>w r s. json_finite w \<Longrightarrow> delimited r \<Longrightarrow> delimited s \<Longrightarrow> print_json v @ r = print_json w @ s \<Longrightarrow> v = w \<and> r = s)
    \<Longrightarrow> self_delimiting v"
  by (simp add: self_delimiting_def)

lemma member_delim:
  assumes "self_delimiting x" "json_finite y" "delimited r" "delimited s"
    and "(quote k @ 58 # print_json x) @ r = (quote k' @ 58 # print_json y) @ s"
  shows "(k, x) = (k', y) \<and> r = s"
proof -
  have "quote k @ 58 # print_json x @ r = quote k' @ 58 # print_json y @ s" using assms(5) by simp
  from quote_delim [OF this] have "k = k'" "print_json x @ r = print_json y @ s" by auto
  with self_delimitingD [OF assms(1-4)] show ?thesis by auto
qed

lemma print_self_delimiting: "json_finite v \<Longrightarrow> self_delimiting v"
proof (induction v)
  case (JStr s)
  show ?case
  proof (rule self_delimitingI)
    fix w r r' assume eq: "print_json (JStr s) @ r = print_json w @ r'"
    obtain t where "w = JStr t" using lead_eq [OF eq] lead_cases(1) [of w] by auto
    with eq have "quote s @ r = quote t @ r'" by simp
    from quote_delim [OF this] \<open>w = JStr t\<close> show "JStr s = w \<and> r = r'" by simp
  qed
next
  case (JArr vs)
  show ?case
  proof (rule self_delimitingI)
    fix w r s assume w: "json_finite w" and eq: "print_json (JArr vs) @ r = print_json w @ s"
    obtain ws where ws: "w = JArr ws" using lead_eq [OF eq] lead_cases(2) [of w] by auto
    have "vs = ws \<and> r = s"
    proof (rule join_delim [where p = print_json and close = 93])
      fix v u r s
      assume "v \<in> set vs" "u \<in> set ws" "delimited r" "delimited s" "print_json v @ r = print_json u @ s"
      with JArr w ws show "v = u \<and> r = s" by (intro self_delimitingD) auto
    next
      show "\<exists>c t. print_json v = c # t \<and> c \<noteq> 93" for v
        using print_first [of v] by (auto split: if_splits json.splits)
    qed (use eq ws in auto)
    with ws show "JArr vs = w \<and> r = s" by simp
  qed
next
  case (JObj kvs)
  show ?case
  proof (rule self_delimitingI)
    fix w r s assume w: "json_finite w" and eq: "print_json (JObj kvs) @ r = print_json w @ s"
    obtain ws where ws: "w = JObj ws" using lead_eq [OF eq] lead_cases(3) [of w] by auto
    have "kvs = ws \<and> r = s"
    proof (rule join_delim [where p = "\<lambda>(k, v). quote k @ 58 # print_json v" and close = 125])
      fix m u r s
      assume m: "m \<in> set kvs" "u \<in> set ws" "delimited r" "delimited s"
        and e: "(case m of (k, v) \<Rightarrow> quote k @ 58 # print_json v) @ r = (case u of (k, v) \<Rightarrow> quote k @ 58 # print_json v) @ s"
      obtain k x k' y where kx: "m = (k, x)" "u = (k', y)" by (cases m; cases u) auto
      have y: "json_finite y" using w ws m(2) kx by auto
      have x: "self_delimiting x" using JObj m(1) kx by fastforce
      show "m = u \<and> r = s"
        unfolding kx by (rule member_delim [OF x y m(3,4)]) (use e kx in simp)
    qed (use eq ws in \<open>auto simp: quote_def\<close>)
    with ws show "JObj kvs = w \<and> r = s" by simp
  qed
qed (auto intro: word_delim)

lemma print_json_inj: "json_finite v \<Longrightarrow> json_finite w \<Longrightarrow> print_json v = print_json w \<Longrightarrow> v = w"
  using self_delimitingD [OF print_self_delimiting, of v w "[]" "[]"] by simp

section \<open>What a stable serialization determines\<close>

lemma json_finite_norm: "json_finite (norm_json v) \<longleftrightarrow> json_finite v"
proof (induction v rule: norm_json.induct)
  case (2 kvs)
  then show ?case by (fastforce split: prod.splits)
qed auto

lemma stableStringify_inj:
  assumes "stableStringify v = Some t" "stableStringify w = Some t"
  shows "norm_json v = norm_json w"
proof -
  have f: "json_finite v" "json_finite w"
    using assms stableStringify_throws [of v] stableStringify_throws [of w] by auto
  then have "print_json (norm_json v) = print_json (norm_json w)"
    using assms by (simp add: stableStringify_finite)
  with f show ?thesis by (intro print_json_inj) (simp_all add: json_finite_norm)
qed

lemma map_of_insort: "distinct (map fst ((k, v) # xs)) \<Longrightarrow> map_of (insort_key fst (k, v) xs) = map_of ((k, v) # xs)"
proof (induction xs)
  case (Cons x xs)
  then show ?case by (cases x) (auto simp: fun_eq_iff)
qed simp

lemma set_insort_fst: "set (map fst (insort_key fst kv xs)) = insert (fst kv) (set (map fst xs))"
  by (induction xs) auto

lemma set_sort_fst: "set (map fst (sort_key fst xs)) = set (map fst xs)"
  by (induction xs) (simp_all add: set_insort_fst [simplified])

lemma distinct_insort_fst: "distinct (map fst (insort_key fst kv xs)) \<longleftrightarrow> fst kv \<notin> set (map fst xs) \<and> distinct (map fst xs)"
  by (induction xs) (auto simp: set_insort_fst [simplified])

lemma distinct_sort_fst: "distinct (map fst (sort_key fst xs)) \<longleftrightarrow> distinct (map fst xs)"
  by (induction xs) (simp_all add: distinct_insort_fst set_sort_fst [simplified])

lemma map_of_sort_key: "distinct (map fst xs) \<Longrightarrow> map_of (sort_key fst xs) = map_of xs"
proof (induction xs)
  case (Cons x xs)
  obtain k v where x: "x = (k, v)" by (cases x)
  have "distinct (map fst ((k, v) # sort_key fst xs))"
    using Cons.prems x set_sort_fst [of xs] by (simp add: distinct_sort_fst)
  with Cons x show ?case by (simp add: map_of_insort)
qed simp

lemma map_of_map_snd: "map_of (map (\<lambda>(k, v). (k, f v)) xs) k = map_option f (map_of xs k)"
  by (induction xs) auto

text \<open>Two documents with the same stable serialization agree member by member.\<close>

lemma stable_member:
  assumes "stableStringify (JObj xs) = Some t" "stableStringify (JObj ys) = Some t"
    and "distinct (map fst xs)" "distinct (map fst ys)"
  shows "map_option norm_json (map_of xs k) = map_option norm_json (map_of ys k)"
proof -
  define nx ny where "nx = map (\<lambda>(k, v). (k, norm_json v)) xs" and "ny = map (\<lambda>(k, v). (k, norm_json v)) ys"
  have d: "distinct (map fst nx)" "distinct (map fst ny)"
    using assms(3,4) by (simp_all add: nx_def ny_def comp_def case_prod_beta)
  have "sort_key fst nx = sort_key fst ny"
    using stableStringify_inj [OF assms(1,2)] by (simp add: nx_def ny_def)
  then have "map_of nx = map_of ny" using d map_of_sort_key by metis
  then show ?thesis by (metis nx_def ny_def map_of_map_snd)
qed

lemma assoc_eqI: "map_of xs = map_of ys \<Longrightarrow> map fst xs = map fst ys \<Longrightarrow> distinct (map fst xs) \<Longrightarrow> xs = ys"
proof (induction xs arbitrary: ys)
  case (Cons x xs)
  obtain k v where x: "x = (k, v)" by (cases x)
  from Cons.prems(2) x obtain w ys' where y: "ys = (k, w) # ys'" by (cases ys) auto
  have vw: "v = w" using Cons.prems(1) x y by (metis map_of_Cons_code(2) option.inject)
  have k: "k \<notin> set (map fst xs)" "map fst xs = map fst ys'" "distinct (map fst xs)" using Cons.prems(2,3) x y by auto
  have "map_of xs j = map_of ys' j" for j
  proof (cases "j = k")
    case True
    then show ?thesis using k by (metis map_of_eq_None_iff list.set_map)
  next
    case False
    then show ?thesis using fun_cong [OF Cons.prems(1), of j] x y by simp
  qed
  then have "xs = ys'" using Cons.IH [of ys'] k by blast
  with x y vw show ?case by simp
qed simp

lemma snd_map_norm: "map snd (map (\<lambda>(k, v). (k, f v)) xs) = map (f \<circ> snd) xs"
  by (induction xs) auto

text \<open>Objects with the same members: equal texts mean equal values, member by member.\<close>

lemma norm_same_keys:
  assumes "norm_json (JObj xs) = norm_json (JObj ys)" "map fst xs = map fst ys" "distinct (map fst xs)"
  shows "map (norm_json \<circ> snd) xs = map (norm_json \<circ> snd) ys"
proof -
  define nx ny where "nx = map (\<lambda>(k, v). (k, norm_json v)) xs" and "ny = map (\<lambda>(k, v). (k, norm_json v)) ys"
  have f: "map fst nx = map fst xs" "map fst ny = map fst ys"
    by (simp_all add: nx_def ny_def comp_def case_prod_beta)
  with assms(2,3) have d: "distinct (map fst nx)" "distinct (map fst ny)" by simp_all
  have "sort_key fst nx = sort_key fst ny"
    using assms(1) by (simp add: nx_def ny_def)
  then have "map_of nx = map_of ny" using d map_of_sort_key by metis
  then have "nx = ny" by (rule assoc_eqI) (use d f assms(2) in simp_all)
  then show ?thesis by (metis snd_map_norm nx_def ny_def)
qed

lemma stable_same_keys:
  assumes "stableStringify (JObj xs) = Some t" "stableStringify (JObj ys) = Some t"
    and "map fst xs = map fst ys" "distinct (map fst xs)"
  shows "map (norm_json \<circ> snd) xs = map (norm_json \<circ> snd) ys"
  using norm_same_keys [OF stableStringify_inj [OF assms(1,2)] assms(3,4)] .

end
