(* ===== verification/JsMap.thy ===== *)
theory JsMap
  imports Prelude
begin

text \<open>
  The JavaScript \<open>Map\<close> the caches, windows and registries are kept in: an association
  list in insertion order with distinct keys. \<open>set\<close> on a present key keeps its place,
  \<open>delete\<close> followed by \<open>set\<close> moves it to the end, and iteration follows the list.
  The locale \<open>finite_store\<close> is what the components rely on: lookup after update, the
  effect of each operation on the size, and preservation of the invariant.
\<close>

type_synonym ('k, 'v) jsmap = "('k \<times> 'v) list"

definition mget :: "('k, 'v) jsmap \<Rightarrow> 'k \<Rightarrow> 'v option" where
  "mget m k = map_of m k"

definition mhas :: "('k, 'v) jsmap \<Rightarrow> 'k \<Rightarrow> bool" where
  "mhas m k \<longleftrightarrow> mget m k \<noteq> None"

fun mset_key :: "('k, 'v) jsmap \<Rightarrow> 'k \<Rightarrow> 'v \<Rightarrow> ('k, 'v) jsmap" where
  "mset_key [] k v = [(k, v)]"
| "mset_key ((k', v') # m) k v = (if k' = k then (k, v) # m else (k', v') # mset_key m k v)"

definition mdelete :: "('k, 'v) jsmap \<Rightarrow> 'k \<Rightarrow> ('k, 'v) jsmap" where
  "mdelete m k = filter (\<lambda>e. fst e \<noteq> k) m"

definition msize :: "('k, 'v) jsmap \<Rightarrow> nat" where
  "msize m = length m"

definition mkeys :: "('k, 'v) jsmap \<Rightarrow> 'k list" where
  "mkeys m = map fst m"

definition wf_map :: "('k, 'v) jsmap \<Rightarrow> bool" where
  "wf_map m \<longleftrightarrow> distinct (map fst m)"

section \<open>The interface\<close>

locale finite_store =
  fixes empty :: "'m"
    and get :: "'m \<Rightarrow> 'k \<Rightarrow> 'v option"
    and put :: "'m \<Rightarrow> 'k \<Rightarrow> 'v \<Rightarrow> 'm"
    and del :: "'m \<Rightarrow> 'k \<Rightarrow> 'm"
    and size :: "'m \<Rightarrow> nat"
    and invar :: "'m \<Rightarrow> bool"
  assumes get_empty: "get empty k = None"
    and get_put: "get (put m k v) k' = (if k' = k then Some v else get m k')"
    and get_del: "get (del m k) k' = (if k' = k then None else get m k')"
    and size_put: "size (put m k v) = (if get m k = None then Suc (size m) else size m)"
    and size_del: "invar m \<Longrightarrow> size (del m k) = (if get m k = None then size m else size m - 1)"
    and size_pos: "get m k \<noteq> None \<Longrightarrow> 0 < size m"
    and invar_empty: "invar empty"
    and invar_put: "invar m \<Longrightarrow> invar (put m k v)"
    and invar_del: "invar m \<Longrightarrow> invar (del m k)"
begin

lemmas store_specs = get_empty get_put get_del size_put size_del invar_empty invar_put invar_del

lemma size_del_le: "invar m \<Longrightarrow> size (del m k) \<le> size m"
  by (simp add: size_del)

lemma size_move: "invar m \<Longrightarrow> size (put (del m k) k v) = (if get m k = None then Suc (size m) else size m)"
  using size_pos [of m k] by (auto simp: size_put size_del get_del)

end

section \<open>The association list provides it\<close>

lemma mget_Nil [simp]: "mget [] k = None"
  by (simp add: mget_def)

lemma mget_Cons [simp]: "mget ((k', v) # m) k = (if k = k' then Some v else mget m k)"
  by (simp add: mget_def)

lemma mget_mset_key [simp, store_laws]: "mget (mset_key m k v) k' = (if k' = k then Some v else mget m k')"
  by (induction m k v rule: mset_key.induct) auto

lemma mget_mdelete [simp, store_laws]: "mget (mdelete m k) k' = (if k' = k then None else mget m k')"
  by (induction m) (auto simp: mdelete_def)

lemma mget_None_iff: "mget m k = None \<longleftrightarrow> k \<notin> set (map fst m)"
  by (simp add: mget_def map_of_eq_None_iff)

lemma mget_Some_size: "mget m k = Some v \<Longrightarrow> 0 < msize m"
  by (cases m) (auto simp: msize_def)

lemma set_mset_key_keys: "set (map fst (mset_key m k v)) = insert k (set (map fst m))"
  by (induction m k v rule: mset_key.induct) auto

lemma msize_mset_key [store_laws]: "msize (mset_key m k v) = (if mget m k = None then Suc (msize m) else msize m)"
  by (induction m k v rule: mset_key.induct) (auto simp: msize_def)

lemma wf_mset_key [wf_intros]: "wf_map m \<Longrightarrow> wf_map (mset_key m k v)"
proof (induction m)
  case (Cons e m)
  obtain k' v' where e: "e = (k', v')" by (cases e)
  from Cons.prems have w: "wf_map m" "k' \<notin> set (map fst m)" by (auto simp: wf_map_def e)
  from Cons.IH [OF w(1)] w(2) Cons.prems show ?case
    unfolding wf_map_def e by (auto simp del: set_map simp add: set_mset_key_keys)
qed (simp add: wf_map_def)

lemma wf_filter [wf_intros]: "wf_map m \<Longrightarrow> wf_map (filter P m)"
  by (simp add: wf_map_def distinct_map_filter)

lemma wf_mdelete [wf_intros]: "wf_map m \<Longrightarrow> wf_map (mdelete m k)"
  by (simp add: mdelete_def wf_filter)

lemma wf_Nil [simp, wf_intros]: "wf_map []"
  by (simp add: wf_map_def)

lemma mdelete_absent: "mget m k = None \<Longrightarrow> mdelete m k = m"
  by (induction m) (auto simp: mdelete_def split: if_splits)

lemma msize_mdelete [store_laws]:
  "wf_map m \<Longrightarrow> msize (mdelete m k) = (if mget m k = None then msize m else msize m - 1)"
proof (induction m)
  case (Cons e m)
  obtain k' v where e: "e = (k', v)" by (cases e)
  from Cons.prems have w: "wf_map m" "k' \<notin> set (map fst m)" by (auto simp: wf_map_def e)
  show ?case
  proof (cases "k = k'")
    case True
    with w(2) have "mget m k = None" by (simp add: mget_None_iff)
    then have "mdelete m k = m" by (rule mdelete_absent)
    with True e show ?thesis by (simp add: mdelete_def msize_def)
  next
    case False
    with mget_Some_size [of m k] Cons.IH [OF w(1)] e show ?thesis by (auto simp: mdelete_def msize_def)
  qed
qed (simp add: msize_def mdelete_def)

interpretation js_map: finite_store "[]" mget mset_key mdelete msize wf_map
  by unfold_locales (auto simp: store_laws intro: wf_intros dest: mget_Some_size)

lemma mget_filter:
  "wf_map m \<Longrightarrow> mget (filter P m) k = (case mget m k of None \<Rightarrow> None | Some v \<Rightarrow> if P (k, v) then Some v else None)"
proof (induction m)
  case (Cons e m)
  obtain k' v where e: "e = (k', v)" by (cases e)
  from Cons.prems have w: "wf_map m" "k' \<notin> set (map fst m)" by (auto simp: wf_map_def e)
  then have "mget m k' = None" by (simp add: mget_None_iff)
  with Cons.IH [OF w(1)] e show ?case by (auto split: option.splits)
qed simp

lemma mget_in_set: "wf_map m \<Longrightarrow> mget m k = Some v \<longleftrightarrow> (k, v) \<in> set m"
  by (simp add: mget_def wf_map_def)

lemma mget_Some_in_set: "mget m k = Some v \<Longrightarrow> (k, v) \<in> set m"
  by (simp add: mget_def map_of_SomeD)

lemma set_mset_key: "set (mset_key m k v) \<subseteq> insert (k, v) (set m)"
  by (induction m k v rule: mset_key.induct) auto

lemma mset_key_append: "mget m k = None \<Longrightarrow> mset_key m k v = m @ [(k, v)]"
  by (induction m k v rule: mset_key.induct) (auto split: if_splits)

lemma set_mdelete: "set (mdelete m k) = {e \<in> set m. fst e \<noteq> k}"
  by (auto simp: mdelete_def)

end
