(* ===== verification/Protocol.thy ===== *)
theory Protocol
  imports Json JsMap
begin

text \<open>
  The envelope of \<open>src/protocol.ts\<close>: its data, the canonical form the signatures cover,
  signing and verification with the three key caches, validation and creation.
  WebCrypto is not part of the repository: it is the record \<open>crypto\<close> of functions on
  bytes every operation takes as an argument. An operation whose WebCrypto call rejects
  (a key that cannot be imported) is \<open>None\<close>.
\<close>

section \<open>Data\<close>

datatype intent = PING | PONG | CAPS | TASK | RESULT | ERROR | ENCRYPTED

datatype sig_alg = HS256 | ED25519

record header =
  version :: jstr
  messageId :: jstr
  timestampMs :: jnum
  ttlMs :: jnum
  sender :: jstr
  recipient :: "jstr option"
  nonce :: jstr

record body =
  intent :: intent
  content :: jstr
  capability :: "jstr option"
  correlationId :: "jstr option"

record signature =
  alg :: sig_alg
  keyId :: jstr
  sigValue :: jstr

record envelope =
  header :: header
  body :: body
  signature :: "signature option"

datatype verification_material = HmacSecret jstr | Ed25519Key jstr

definition protocol_version :: jstr where
  "protocol_version = js ''7h3/0.1''"

fun intent_text :: "intent \<Rightarrow> jstr" where
  "intent_text PING = js ''PING''"
| "intent_text PONG = js ''PONG''"
| "intent_text CAPS = js ''CAPS''"
| "intent_text TASK = js ''TASK''"
| "intent_text RESULT = js ''RESULT''"
| "intent_text ERROR = js ''ERROR''"
| "intent_text ENCRYPTED = js ''ENCRYPTED''"

lemma intent_text_inj [simp]: "intent_text i = intent_text j \<longleftrightarrow> i = j"
  by (cases i; cases j) simp_all

section \<open>Canonical form\<close>

definition opt_member :: "string \<Rightarrow> jstr option \<Rightarrow> jstr list" where
  "opt_member name v = (case v of None \<Rightarrow> [] | Some s \<Rightarrow> [quote (js name) @ 58 # quote s])"

definition serializeHeaderCanonical :: "header \<Rightarrow> jstr" where
  "serializeHeaderCanonical h =
    123 # join_with [44]
     ([quote (js ''messageId'') @ 58 # quote (messageId h),
       quote (js ''nonce'') @ 58 # quote (nonce h)]
      @ opt_member ''recipient'' (recipient h)
      @ [quote (js ''sender'') @ 58 # quote (sender h),
         quote (js ''timestampMs'') @ 58 # show_num (timestampMs h),
         quote (js ''ttlMs'') @ 58 # show_num (ttlMs h),
         quote (js ''version'') @ 58 # quote (version h)]) @ [125]"

definition serializeBodyCanonical :: "body \<Rightarrow> jstr" where
  "serializeBodyCanonical b =
    123 # join_with [44]
     (opt_member ''capability'' (capability b)
      @ [quote (js ''content'') @ 58 # quote (content b)]
      @ opt_member ''correlationId'' (correlationId b)
      @ [quote (js ''intent'') @ 58 # quote (intent_text (intent b))]) @ [125]"

definition canonicalizeEnvelope :: "header \<Rightarrow> body \<Rightarrow> jstr" where
  "canonicalizeEnvelope h b =
    123 # quote (js ''body'') @ 58 # serializeBodyCanonical b @ 44 # quote (js ''header'') @ 58 # serializeHeaderCanonical h @ [125]"

text \<open>Peeling: two printed members agree name by name and value by value.\<close>

lemma quote_peel [printer_simps]: "quote s @ r = quote t @ r' \<longleftrightarrow> s = t \<and> r = r'"
  by (metis quote_delim)

lemma num_peel [printer_simps]:
  "delimited r \<Longrightarrow> delimited s \<Longrightarrow> show_num m @ r = show_num n @ s \<longleftrightarrow> m = n \<and> r = s"
  by (metis show_num_delim)

text \<open>An optional member together with the comma that follows it.\<close>

definition opt_text :: "string \<Rightarrow> jstr option \<Rightarrow> jstr" where
  "opt_text name v = (case v of None \<Rightarrow> [] | Some s \<Rightarrow> quote (js name) @ 58 # quote s @ [44])"

lemma opt_peel [printer_simps]:
  "name \<noteq> name' \<Longrightarrow>
    opt_text name v @ quote (js name') @ r = opt_text name v' @ quote (js name') @ r' \<longleftrightarrow> v = v' \<and> r = r'"
  by (cases v; cases v') (auto simp: opt_text_def printer_simps)

lemma join_opt_member: "ts \<noteq> [] \<Longrightarrow> join_with [44] (opt_member name v @ ts) = opt_text name v @ join_with [44] ts"
  by (cases v) (simp_all add: opt_member_def opt_text_def join_with_Cons)

lemma serializeBody_text:
  "serializeBodyCanonical b =
    123 # opt_text ''capability'' (capability b) @ quote (js ''content'') @ 58 # quote (content b) @ 44 #
      opt_text ''correlationId'' (correlationId b) @ quote (js ''intent'') @ 58 # quote (intent_text (intent b)) @ [125]"
  by (simp add: serializeBodyCanonical_def join_opt_member join_with_Cons)

lemma serializeHeader_text:
  "serializeHeaderCanonical h =
    123 # quote (js ''messageId'') @ 58 # quote (messageId h) @ 44 # quote (js ''nonce'') @ 58 # quote (nonce h) @ 44 #
      opt_text ''recipient'' (recipient h) @ quote (js ''sender'') @ 58 # quote (sender h) @ 44 #
      quote (js ''timestampMs'') @ 58 # show_num (timestampMs h) @ 44 #
      quote (js ''ttlMs'') @ 58 # show_num (ttlMs h) @ 44 # quote (js ''version'') @ 58 # quote (version h) @ [125]"
  by (simp add: serializeHeaderCanonical_def join_opt_member join_with_Cons)

lemma serializeBody_peel [printer_simps]:
  "serializeBodyCanonical b @ r = serializeBodyCanonical b' @ r' \<longleftrightarrow> b = b' \<and> r = r'"
proof
  assume "serializeBodyCanonical b @ r = serializeBodyCanonical b' @ r'"
  then have "intent b = intent b' \<and> content b = content b' \<and> capability b = capability b'
      \<and> correlationId b = correlationId b' \<and> r = r'"
    by (simp add: serializeBody_text printer_simps)
  then show "b = b' \<and> r = r'" by (simp add: body.equality)
qed simp

lemma serializeHeader_peel [printer_simps]:
  "serializeHeaderCanonical h @ r = serializeHeaderCanonical h' @ r' \<longleftrightarrow> h = h' \<and> r = r'"
proof
  assume "serializeHeaderCanonical h @ r = serializeHeaderCanonical h' @ r'"
  then have "messageId h = messageId h' \<and> nonce h = nonce h' \<and> recipient h = recipient h'
      \<and> sender h = sender h' \<and> timestampMs h = timestampMs h' \<and> ttlMs h = ttlMs h' \<and> version h = version h' \<and> r = r'"
    by (simp add: serializeHeader_text printer_simps)
  then show "h = h' \<and> r = r'" by (simp add: header.equality)
qed simp

lemma serializeHeader_inj [printer_simps]:
  "serializeHeaderCanonical h = serializeHeaderCanonical h' \<longleftrightarrow> h = h'"
  using serializeHeader_peel [of h "[]" h' "[]"] by simp

lemma canonicalize_inj: "canonicalizeEnvelope h b = canonicalizeEnvelope h' b' \<longleftrightarrow> h = h' \<and> b = b'"
  by (auto simp: canonicalizeEnvelope_def printer_simps)

text \<open>The canonical form is well-formed UTF-16, so encoding it as UTF-8 loses nothing either.\<close>

definition bmp_plain :: "code_unit \<Rightarrow> bool" where
  "bmp_plain c \<longleftrightarrow> \<not> is_high c \<and> \<not> is_low c"

lemma well_formed_plain: "\<forall>c \<in> set a. bmp_plain c \<Longrightarrow> well_formed (a @ r) = well_formed r"
proof (induction a)
  case (Cons c a)
  then show ?case by (cases "a @ r") (auto simp: bmp_plain_def)
qed simp

lemma hex_digit_plain: "n < 16 \<Longrightarrow> bmp_plain (hex_digit n)"
proof -
  assume n: "n < 16"
  then have "unat (hex_digit n) < 128" by (auto simp: hex_digit_def unat_of_nat16 simp del: of_nat_add)
  then show ?thesis by (simp add: bmp_plain_def is_high_def is_low_def)
qed

lemma escape_plain: "\<forall>x \<in> set (escape c). bmp_plain x"
  by (auto simp: escape_def hex4_def hex_digit_plain) (auto simp: bmp_plain_def is_high_def is_low_def)

lemma well_formed_quote_body: "well_formed (quote_body s @ 34 # r) = well_formed (34 # r)"
proof (induction s rule: quote_body.induct)
  case (2 c)
  then show ?case by (simp add: well_formed_plain [OF escape_plain] del: well_formed.simps)
next
  case (3 c d s)
  then show ?case
    by (cases "is_high c \<and> is_low d") (auto simp: well_formed_plain [OF escape_plain])
qed simp

lemma plain_34: "bmp_plain 34"
  by (simp add: bmp_plain_def is_high_def is_low_def)

lemma well_formed_quote [printer_simps]: "well_formed (quote s @ r) = well_formed r"
  using well_formed_plain [of "[34]" "quote_body s @ 34 # r"] well_formed_plain [of "[34]" r] plain_34
  by (simp add: quote_def well_formed_quote_body)

lemma num_char_plain: "num_char c \<Longrightarrow> bmp_plain c"
  by (auto simp: num_char_def digit_char_def bmp_plain_def is_high_def is_low_def)

lemma well_formed_num [printer_simps]: "well_formed (show_num n @ r) = well_formed r"
  by (rule well_formed_plain) (use show_num_chars num_char_plain in blast)

lemma well_formed_punct [printer_simps]: "c \<in> {44, 58, 123, 125} \<Longrightarrow> well_formed (c # r) = well_formed r"
  using well_formed_plain [of "[c]" r] by (auto simp: bmp_plain_def is_high_def is_low_def)

lemma well_formed_opt [printer_simps]: "well_formed (opt_text name v @ r) = well_formed r"
  by (cases v) (simp_all add: opt_text_def printer_simps del: well_formed.simps)

lemma well_formed_canonical: "well_formed (canonicalizeEnvelope h b)"
proof -
  have "well_formed (canonicalizeEnvelope h b @ [])"
    unfolding canonicalizeEnvelope_def serializeBody_text serializeHeader_text append.simps append_assoc
    by (simp add: printer_simps del: well_formed.simps append_Nil2) simp
  then show ?thesis by simp
qed

lemma signed_bytes_inj:
  "utf8Encode (canonicalizeEnvelope h b) = utf8Encode (canonicalizeEnvelope h' b') \<longleftrightarrow> h = h' \<and> b = b'"
  using utf8Encode_inj [OF well_formed_canonical well_formed_canonical] canonicalize_inj by metis

section \<open>WebCrypto\<close>

text \<open>
  Keys are the bytes they are imported from; \<open>*_ok\<close> says whether \<open>importKey\<close> accepts
  them. HMAC verification is comparison with the recomputed tag, as WebCrypto specifies.
\<close>

record crypto =
  hmac_key_ok :: "bytes \<Rightarrow> bool"
  hmac_raw :: "bytes \<Rightarrow> bytes \<Rightarrow> bytes"
  ed_priv_ok :: "bytes \<Rightarrow> bool"
  ed_sign_raw :: "bytes \<Rightarrow> bytes \<Rightarrow> bytes"
  ed_pub_ok :: "bytes \<Rightarrow> bool"
  ed_verify_raw :: "bytes \<Rightarrow> bytes \<Rightarrow> bytes \<Rightarrow> bool"
  sha256_raw :: "bytes \<Rightarrow> bytes"

definition import_hmac :: "crypto \<Rightarrow> jstr \<Rightarrow> bytes option" where
  "import_hmac C secret = (if hmac_key_ok C (utf8Encode secret) then Some (utf8Encode secret) else None)"

definition import_ed_priv :: "crypto \<Rightarrow> jstr \<Rightarrow> bytes option" where
  "import_ed_priv C k = (if ed_priv_ok C (fromBase64Url k) then Some (fromBase64Url k) else None)"

definition import_ed_pub :: "crypto \<Rightarrow> jstr \<Rightarrow> bytes option" where
  "import_ed_pub C k = (if ed_pub_ok C (fromBase64Url k) then Some (fromBase64Url k) else None)"

text \<open>The two halves of each scheme once the key is at hand.\<close>

definition hmac_tag :: "crypto \<Rightarrow> jstr \<Rightarrow> bytes \<Rightarrow> jstr" where
  "hmac_tag C payload key = toBase64Url (hmac_raw C key (utf8Encode payload))"

definition hmac_check :: "crypto \<Rightarrow> jstr \<Rightarrow> jstr \<Rightarrow> bytes \<Rightarrow> bool" where
  "hmac_check C payload sig key \<longleftrightarrow> fromBase64Url sig = hmac_raw C key (utf8Encode payload)"

definition ed_tag :: "crypto \<Rightarrow> jstr \<Rightarrow> bytes \<Rightarrow> jstr" where
  "ed_tag C payload key = toBase64Url (ed_sign_raw C key (utf8Encode payload))"

definition ed_check :: "crypto \<Rightarrow> jstr \<Rightarrow> jstr \<Rightarrow> bytes \<Rightarrow> bool" where
  "ed_check C payload sig key \<longleftrightarrow> ed_verify_raw C key (fromBase64Url sig) (utf8Encode payload)"

text \<open>Signing and verifying canonical payloads, the caches left out.\<close>

definition signCanonicalPayloadHmac :: "crypto \<Rightarrow> jstr \<Rightarrow> jstr \<Rightarrow> jstr option" where
  "signCanonicalPayloadHmac C payload secret = map_option (hmac_tag C payload) (import_hmac C secret)"

definition verifyCanonicalPayloadHmac :: "crypto \<Rightarrow> jstr \<Rightarrow> jstr \<Rightarrow> jstr \<Rightarrow> bool option" where
  "verifyCanonicalPayloadHmac C payload sig secret = map_option (hmac_check C payload sig) (import_hmac C secret)"

definition signCanonicalPayloadEd25519 :: "crypto \<Rightarrow> jstr \<Rightarrow> jstr \<Rightarrow> jstr option" where
  "signCanonicalPayloadEd25519 C payload priv = map_option (ed_tag C payload) (import_ed_priv C priv)"

definition verifyCanonicalPayloadEd25519 :: "crypto \<Rightarrow> jstr \<Rightarrow> jstr \<Rightarrow> jstr \<Rightarrow> bool option" where
  "verifyCanonicalPayloadEd25519 C payload sig pub = map_option (ed_check C payload sig) (import_ed_pub C pub)"

section \<open>Key caches\<close>

definition key_cache_limit :: nat where
  "key_cache_limit = 256"

type_synonym key_cache = "(jstr, bytes) jsmap"

text \<open>
  One cache lookup: \<open>imp\<close> is the import, \<open>prefix\<close> the tag of the cache. A rejected
  import removes its entry again, so the caller sees the rejection and the cache does not.
\<close>

definition getCachedKey :: "string \<Rightarrow> (jstr \<Rightarrow> bytes option) \<Rightarrow> key_cache \<Rightarrow> jstr \<Rightarrow> key_cache \<times> bytes option" where
  "getCachedKey prefix imp cache s =
    (let cacheKey = js prefix @ s in
     case mget cache cacheKey of
       Some key \<Rightarrow> (cache, Some key)
     | None \<Rightarrow>
         (let cache1 = (if key_cache_limit \<le> msize cache then [] else cache) in
          case imp s of
            None \<Rightarrow> (cache1, None)
          | Some key \<Rightarrow> (mset_key cache1 cacheKey key, Some key)))"

record key_caches =
  hmacKeyCache :: key_cache
  ed25519PrivateKeyCache :: key_cache
  ed25519PublicKeyCache :: key_cache

definition getCachedHmacKey :: "crypto \<Rightarrow> key_caches \<Rightarrow> jstr \<Rightarrow> key_caches \<times> bytes option" where
  "getCachedHmacKey C st secret =
    (let (cache, key) = getCachedKey ''hs256:'' (import_hmac C) (hmacKeyCache st) secret
     in (st\<lparr>hmacKeyCache := cache\<rparr>, key))"

definition getCachedEd25519PrivateKey :: "crypto \<Rightarrow> key_caches \<Rightarrow> jstr \<Rightarrow> key_caches \<times> bytes option" where
  "getCachedEd25519PrivateKey C st k =
    (let (cache, key) = getCachedKey ''ed25519:pkcs8:'' (import_ed_priv C) (ed25519PrivateKeyCache st) k
     in (st\<lparr>ed25519PrivateKeyCache := cache\<rparr>, key))"

definition getCachedEd25519PublicKey :: "crypto \<Rightarrow> key_caches \<Rightarrow> jstr \<Rightarrow> key_caches \<times> bytes option" where
  "getCachedEd25519PublicKey C st k =
    (let (cache, key) = getCachedKey ''ed25519:spki:'' (import_ed_pub C) (ed25519PublicKeyCache st) k
     in (st\<lparr>ed25519PublicKeyCache := cache\<rparr>, key))"

definition hmacSign :: "crypto \<Rightarrow> key_caches \<Rightarrow> jstr \<Rightarrow> jstr \<Rightarrow> key_caches \<times> jstr option" where
  "hmacSign C st payload secret =
    (let (st, key) = getCachedHmacKey C st secret in (st, map_option (hmac_tag C payload) key))"

definition hmacVerify :: "crypto \<Rightarrow> key_caches \<Rightarrow> jstr \<Rightarrow> jstr \<Rightarrow> jstr \<Rightarrow> key_caches \<times> bool option" where
  "hmacVerify C st payload sig secret =
    (let (st, key) = getCachedHmacKey C st secret in (st, map_option (hmac_check C payload sig) key))"

definition ed25519Sign :: "crypto \<Rightarrow> key_caches \<Rightarrow> jstr \<Rightarrow> jstr \<Rightarrow> key_caches \<times> jstr option" where
  "ed25519Sign C st payload priv =
    (let (st, key) = getCachedEd25519PrivateKey C st priv in (st, map_option (ed_tag C payload) key))"

definition ed25519Verify :: "crypto \<Rightarrow> key_caches \<Rightarrow> jstr \<Rightarrow> jstr \<Rightarrow> jstr \<Rightarrow> key_caches \<times> bool option" where
  "ed25519Verify C st payload sig pub =
    (let (st, key) = getCachedEd25519PublicKey C st pub in (st, map_option (ed_check C payload sig) key))"

definition cache_ok :: "string \<Rightarrow> (jstr \<Rightarrow> bytes option) \<Rightarrow> key_cache \<Rightarrow> bool" where
  "cache_ok prefix imp cache \<longleftrightarrow>
     wf_map cache \<and> msize cache \<le> key_cache_limit \<and>
     (\<forall>s. mget cache (js prefix @ s) \<in> {None, imp s})"

lemma cache_ok_empty [simp, wf_intros]: "cache_ok prefix imp []"
  by (simp add: cache_ok_def msize_def)

lemma getCachedKey_ok [wf_intros]:
  "cache_ok prefix imp cache \<Longrightarrow> cache_ok prefix imp (fst (getCachedKey prefix imp cache s))"
  by (auto simp: cache_ok_def getCachedKey_def Let_def store_laws key_cache_limit_def msize_def wf_map_def
      msize_mset_key [unfolded msize_def] intro!: wf_mset_key [unfolded wf_map_def] split: option.splits)

lemma getCachedKey_result: "cache_ok prefix imp cache \<Longrightarrow> snd (getCachedKey prefix imp cache s) = imp s"
  unfolding cache_ok_def getCachedKey_def Let_def
  by (auto split: option.splits dest: spec [of _ s])

definition caches_ok :: "crypto \<Rightarrow> key_caches \<Rightarrow> bool" where
  "caches_ok C st \<longleftrightarrow> cache_ok ''hs256:'' (import_hmac C) (hmacKeyCache st)
     \<and> cache_ok ''ed25519:pkcs8:'' (import_ed_priv C) (ed25519PrivateKeyCache st)
     \<and> cache_ok ''ed25519:spki:'' (import_ed_pub C) (ed25519PublicKeyCache st)"

datatype crypto_call = CSign jstr jstr | CVerify jstr jstr jstr | ESign jstr jstr | EVerify jstr jstr jstr

datatype crypto_answer = Signed "jstr option" | Checked "bool option"

text \<open>A call of the module against its caches, and the same call without them.\<close>

fun cached_call :: "crypto \<Rightarrow> key_caches \<Rightarrow> crypto_call \<Rightarrow> key_caches \<times> crypto_answer" where
  "cached_call C st (CSign p k) = map_prod id Signed (hmacSign C st p k)"
| "cached_call C st (CVerify p s k) = map_prod id Checked (hmacVerify C st p s k)"
| "cached_call C st (ESign p k) = map_prod id Signed (ed25519Sign C st p k)"
| "cached_call C st (EVerify p s k) = map_prod id Checked (ed25519Verify C st p s k)"

fun plain_call :: "crypto \<Rightarrow> crypto_call \<Rightarrow> crypto_answer" where
  "plain_call C (CSign p k) = Signed (signCanonicalPayloadHmac C p k)"
| "plain_call C (CVerify p s k) = Checked (verifyCanonicalPayloadHmac C p s k)"
| "plain_call C (ESign p k) = Signed (signCanonicalPayloadEd25519 C p k)"
| "plain_call C (EVerify p s k) = Checked (verifyCanonicalPayloadEd25519 C p s k)"

fun cached_run :: "crypto \<Rightarrow> key_caches \<Rightarrow> crypto_call list \<Rightarrow> key_caches \<times> crypto_answer list" where
  "cached_run C st [] = (st, [])"
| "cached_run C st (c # cs) =
    (let (st1, a) = cached_call C st c; (st2, as) = cached_run C st1 cs in (st2, a # as))"

definition empty_caches :: key_caches where
  "empty_caches = \<lparr>hmacKeyCache = [], ed25519PrivateKeyCache = [], ed25519PublicKeyCache = []\<rparr>"

lemma cached_call_step:
  assumes "caches_ok C st"
  shows "caches_ok C (fst (cached_call C st c)) \<and> snd (cached_call C st c) = plain_call C c"
proof -
  note ok = assms [unfolded caches_ok_def]
  note unf = hmacSign_def hmacVerify_def ed25519Sign_def ed25519Verify_def getCachedHmacKey_def
    getCachedEd25519PrivateKey_def getCachedEd25519PublicKey_def case_prod_beta Let_def
    signCanonicalPayloadHmac_def verifyCanonicalPayloadHmac_def signCanonicalPayloadEd25519_def
    verifyCanonicalPayloadEd25519_def caches_ok_def
  show ?thesis
    by (cases c) (use ok in \<open>auto simp: unf getCachedKey_result intro: getCachedKey_ok\<close>)
qed

lemma cached_run_steps:
  "caches_ok C st \<Longrightarrow> caches_ok C (fst (cached_run C st cs)) \<and> snd (cached_run C st cs) = map (plain_call C) cs"
proof (induction cs arbitrary: st)
  case (Cons c cs)
  with cached_call_step [OF Cons.prems, of c] show ?case
    by (auto simp: case_prod_beta Let_def)
qed simp

section \<open>Signature schemes\<close>

text \<open>
  What every signing path relies on: a signature made with a key verifies under the
  matching one, and a signature is accepted for two payloads only if the scheme itself
  confuses their bytes.
\<close>

locale signature_scheme =
  fixes sign :: "jstr \<Rightarrow> jstr \<Rightarrow> jstr option"
    and verify :: "jstr \<Rightarrow> jstr \<Rightarrow> jstr \<Rightarrow> bool option"
    and matching :: "jstr \<Rightarrow> jstr \<Rightarrow> bool"
  assumes sign_some: "matching sk pk \<Longrightarrow> \<exists>s. sign p sk = Some s"
    and sign_verifies: "matching sk pk \<Longrightarrow> sign p sk = Some s \<Longrightarrow> verify p s pk = Some True"
begin

lemma round_trip: "matching sk pk \<Longrightarrow> \<exists>s. sign p sk = Some s \<and> verify p s pk = Some True"
  using sign_some sign_verifies by blast

lemma never_rejects: "matching sk pk \<Longrightarrow> sign p sk = Some s \<Longrightarrow> verify p s pk \<noteq> Some False \<and> verify p s pk \<noteq> None"
  using sign_verifies by force

end

definition ed_pair :: "crypto \<Rightarrow> jstr \<Rightarrow> jstr \<Rightarrow> bool" where
  "ed_pair C priv pub \<longleftrightarrow> ed_priv_ok C (fromBase64Url priv) \<and> ed_pub_ok C (fromBase64Url pub)
     \<and> (\<forall>m. ed_verify_raw C (fromBase64Url pub) (ed_sign_raw C (fromBase64Url priv) m) m)"

definition hmac_pair :: "crypto \<Rightarrow> jstr \<Rightarrow> jstr \<Rightarrow> bool" where
  "hmac_pair C a b \<longleftrightarrow> a = b \<and> hmac_key_ok C (utf8Encode a)"

interpretation hmac: signature_scheme "signCanonicalPayloadHmac C" "verifyCanonicalPayloadHmac C" "hmac_pair C" for C
  by unfold_locales (auto simp: signCanonicalPayloadHmac_def verifyCanonicalPayloadHmac_def import_hmac_def
    hmac_pair_def hmac_tag_def hmac_check_def base64url_roundtrip)

interpretation ed: signature_scheme "signCanonicalPayloadEd25519 C" "verifyCanonicalPayloadEd25519 C" "ed_pair C" for C
  by unfold_locales (auto simp: signCanonicalPayloadEd25519_def verifyCanonicalPayloadEd25519_def import_ed_priv_def
    import_ed_pub_def ed_pair_def ed_tag_def ed_check_def base64url_roundtrip)

section \<open>Envelopes\<close>

definition signEnvelopeHmac :: "crypto \<Rightarrow> header \<Rightarrow> body \<Rightarrow> jstr \<Rightarrow> jstr \<Rightarrow> envelope option" where
  "signEnvelopeHmac C h b secret kid =
    map_option (\<lambda>s. \<lparr>header = h, body = b, signature = Some \<lparr>alg = HS256, keyId = kid, sigValue = s\<rparr>\<rparr>)
      (signCanonicalPayloadHmac C (canonicalizeEnvelope h b) secret)"

definition signEnvelopeEd25519 :: "crypto \<Rightarrow> header \<Rightarrow> body \<Rightarrow> jstr \<Rightarrow> jstr \<Rightarrow> envelope option" where
  "signEnvelopeEd25519 C h b priv kid =
    map_option (\<lambda>s. \<lparr>header = h, body = b, signature = Some \<lparr>alg = ED25519, keyId = kid, sigValue = s\<rparr>\<rparr>)
      (signCanonicalPayloadEd25519 C (canonicalizeEnvelope h b) priv)"

definition verifyEnvelopeHmac :: "crypto \<Rightarrow> envelope \<Rightarrow> jstr \<Rightarrow> bool option" where
  "verifyEnvelopeHmac C e secret =
    (case signature e of None \<Rightarrow> Some False
     | Some sg \<Rightarrow> if alg sg \<noteq> HS256 then Some False
         else verifyCanonicalPayloadHmac C (canonicalizeEnvelope (header e) (body e)) (sigValue sg) secret)"

definition verifyEnvelopeEd25519 :: "crypto \<Rightarrow> envelope \<Rightarrow> jstr \<Rightarrow> bool option" where
  "verifyEnvelopeEd25519 C e pub =
    (case signature e of None \<Rightarrow> Some False
     | Some sg \<Rightarrow> if alg sg \<noteq> ED25519 then Some False
         else verifyCanonicalPayloadEd25519 C (canonicalizeEnvelope (header e) (body e)) (sigValue sg) pub)"

fun material_alg :: "verification_material \<Rightarrow> sig_alg" where
  "material_alg (HmacSecret _) = HS256"
| "material_alg (Ed25519Key _) = ED25519"

definition verifyEnvelopeSignature :: "crypto \<Rightarrow> envelope \<Rightarrow> verification_material \<Rightarrow> bool option" where
  "verifyEnvelopeSignature C e material =
    (case signature e of None \<Rightarrow> Some False
     | Some sg \<Rightarrow> if alg sg \<noteq> material_alg material then Some False
         else (case material of HmacSecret s \<Rightarrow> verifyEnvelopeHmac C e s | Ed25519Key k \<Rightarrow> verifyEnvelopeEd25519 C e k))"

definition verifyCanonicalPayloadSignature :: "crypto \<Rightarrow> jstr \<Rightarrow> signature option \<Rightarrow> verification_material \<Rightarrow> bool option" where
  "verifyCanonicalPayloadSignature C payload sg material =
    (case sg of None \<Rightarrow> Some False
     | Some sg \<Rightarrow> if alg sg \<noteq> material_alg material then Some False
         else (case material of HmacSecret s \<Rightarrow> verifyCanonicalPayloadHmac C payload (sigValue sg) s
               | Ed25519Key k \<Rightarrow> verifyCanonicalPayloadEd25519 C payload (sigValue sg) k))"

lemmas envelope_defs = signEnvelopeHmac_def signEnvelopeEd25519_def verifyEnvelopeHmac_def
  verifyEnvelopeEd25519_def verifyEnvelopeSignature_def verifyCanonicalPayloadSignature_def

lemma verifyEnvelope_payload:
  "verifyEnvelopeSignature C e material =
    verifyCanonicalPayloadSignature C (canonicalizeEnvelope (header e) (body e)) (signature e) material"
  by (auto simp: envelope_defs split: option.split verification_material.split)

section \<open>Validation\<close>

text \<open>\<open>s.trim()\<close> is empty: every code unit is white space or a line terminator.\<close>

definition ws_char :: "code_unit \<Rightarrow> bool" where
  "ws_char c \<longleftrightarrow> unat c \<in> {9, 10, 11, 12, 13, 32, 0xA0, 0x1680, 0x2028, 0x2029, 0x202F, 0x205F, 0x3000, 0xFEFF}
     \<or> 0x2000 \<le> unat c \<and> unat c \<le> 0x200A"

definition trim :: "jstr \<Rightarrow> jstr" where
  "trim s = rev (dropWhile ws_char (rev (dropWhile ws_char s)))"

definition blank :: "jstr \<Rightarrow> bool" where
  "blank s \<longleftrightarrow> trim s = []"

lemma blank_iff: "blank s \<longleftrightarrow> (\<forall>c \<in> set s. ws_char c)"
proof
  assume "blank s"
  then have "\<forall>c \<in> set (dropWhile ws_char s). ws_char c"
    by (simp add: blank_def trim_def)
  then have "dropWhile ws_char s = []"
    by (metis hd_dropWhile hd_in_set)
  then show "\<forall>c \<in> set s. ws_char c" by simp
qed (auto simp: blank_def trim_def dest: set_dropWhileD)

datatype level = Error | Warning

datatype diagnostic_reason =
  UnsupportedVersion jstr | MissingMessageId | MissingSender | MissingNonce | TimestampNotFinite | TtlNotFinite
  | TtlNotPositive | TtlExceedsMax | TimestampInFuture | TtlExpired | EmptyContent

record diagnostic =
  level :: level
  reason :: diagnostic_reason

definition MAX_TTL_MS :: int where
  "MAX_TTL_MS = 86400000"

definition MAX_CLOCK_SKEW_MS :: int where
  "MAX_CLOCK_SKEW_MS = 30000"

text \<open>
  \<open>validateEnvelope\<close> takes whatever was received, so its argument is a JSON value:
  a missing or null part counts as \<open>{}\<close>, a member of the wrong type as absent.
\<close>

fun jmember :: "json \<Rightarrow> string \<Rightarrow> json option" where
  "jmember (JObj kvs) name = map_of kvs (js name)"
| "jmember _ name = None"

definition part_or_empty :: "json option \<Rightarrow> json" where
  "part_or_empty p = (case p of None \<Rightarrow> JObj [] | Some JNull \<Rightarrow> JObj [] | Some v \<Rightarrow> v)"

definition string_or_empty :: "json option \<Rightarrow> jstr" where
  "string_or_empty v = (case v of Some (JStr s) \<Rightarrow> s | _ \<Rightarrow> [])"

definition finite_or_nan :: "json option \<Rightarrow> jnum" where
  "finite_or_nan v = (case v of Some (JNum n) \<Rightarrow> if is_finite n then n else NaN | _ \<Rightarrow> NaN)"

definition err :: "diagnostic_reason \<Rightarrow> bool \<Rightarrow> diagnostic list" where
  "err r b = (if b then [\<lparr>level = Error, reason = r\<rparr>] else [])"

definition validateEnvelope :: "json \<Rightarrow> int \<Rightarrow> diagnostic list" where
  "validateEnvelope e nowMs =
    (let hd = part_or_empty (jmember e ''header''); bd = part_or_empty (jmember e ''body'');
         ver = string_or_empty (jmember hd ''version''); mid = string_or_empty (jmember hd ''messageId'');
         snd = string_or_empty (jmember hd ''sender''); non = string_or_empty (jmember hd ''nonce'');
         ts = finite_or_nan (jmember hd ''timestampMs''); ttl = finite_or_nan (jmember hd ''ttlMs'');
         cont = string_or_empty (jmember bd ''content'')
     in err (UnsupportedVersion ver) (ver \<noteq> protocol_version)
      @ err MissingMessageId (blank mid)
      @ err MissingSender (blank snd)
      @ err MissingNonce (blank non)
      @ err TimestampNotFinite (\<not> is_finite ts)
      @ (if \<not> is_finite ttl then err TtlNotFinite True
         else err TtlNotPositive (jnum_le ttl (Fin 0)) @ err TtlExceedsMax (jnum_less (Fin MAX_TTL_MS) ttl))
      @ err TimestampInFuture (is_finite ts \<and> jnum_less (Fin (nowMs + MAX_CLOCK_SKEW_MS)) ts)
      @ err TtlExpired (is_finite ts \<and> is_finite ttl \<and> jnum_less (jnum_add ts ttl) (Fin nowMs))
      @ (if blank cont then [\<lparr>level = Warning, reason = EmptyContent\<rparr>] else []))"

definition no_errors :: "diagnostic list \<Rightarrow> bool" where
  "no_errors ds \<longleftrightarrow> (\<forall>d \<in> set ds. level d \<noteq> Error)"

lemma no_errors_append [simp]: "no_errors (a @ b) \<longleftrightarrow> no_errors a \<and> no_errors b"
  and no_errors_err [simp]: "no_errors (err r p) \<longleftrightarrow> \<not> p"
  and no_errors_if [simp]: "no_errors (if p then a else b) \<longleftrightarrow> (if p then no_errors a else no_errors b)"
  and no_errors_warning [simp]: "no_errors [\<lparr>level = Warning, reason = r\<rparr>]" "no_errors []"
  by (auto simp: no_errors_def err_def)

text \<open>A typed envelope as the value on the wire.\<close>

definition opt_json :: "string \<Rightarrow> jstr option \<Rightarrow> (jstr \<times> json) list" where
  "opt_json name v = (case v of None \<Rightarrow> [] | Some s \<Rightarrow> [(js name, JStr s)])"

definition header_json :: "header \<Rightarrow> json" where
  "header_json h = JObj ([(js ''version'', JStr (version h)), (js ''messageId'', JStr (messageId h)),
     (js ''timestampMs'', JNum (timestampMs h)), (js ''ttlMs'', JNum (ttlMs h)), (js ''sender'', JStr (sender h)),
     (js ''nonce'', JStr (nonce h))] @ opt_json ''recipient'' (recipient h))"

definition body_json :: "body \<Rightarrow> json" where
  "body_json b = JObj ([(js ''intent'', JStr (intent_text (intent b))), (js ''content'', JStr (content b))]
     @ opt_json ''capability'' (capability b) @ opt_json ''correlationId'' (correlationId b))"

definition env_json :: "header \<Rightarrow> body \<Rightarrow> json" where
  "env_json h b = JObj [(js ''header'', header_json h), (js ''body'', body_json b)]"

text \<open>The acceptance condition of a typed header, free of the traversal.\<close>

definition header_acceptable :: "header \<Rightarrow> int \<Rightarrow> bool" where
  "header_acceptable h nowMs \<longleftrightarrow>
     version h = protocol_version \<and> \<not> blank (messageId h) \<and> \<not> blank (sender h) \<and> \<not> blank (nonce h) \<and>
     (case (timestampMs h, ttlMs h) of
        (Fin ts, Fin ttl) \<Rightarrow> 0 < ttl \<and> ttl \<le> MAX_TTL_MS \<and> ts \<le> nowMs + MAX_CLOCK_SKEW_MS \<and> nowMs \<le> ts + ttl
      | _ \<Rightarrow> False)"

lemma validate_typed: "no_errors (validateEnvelope (env_json h b) nowMs) \<longleftrightarrow> header_acceptable h nowMs"
  by (cases "timestampMs h"; cases "ttlMs h")
    (auto simp: validateEnvelope_def env_json_def header_json_def body_json_def part_or_empty_def string_or_empty_def
      finite_or_nan_def header_acceptable_def Let_def)

lemma validate_untyped:
  "no_errors (validateEnvelope e nowMs) \<Longrightarrow>
    \<exists>hd ts ttl. jmember e ''header'' = Some hd \<and> jmember hd ''timestampMs'' = Some (JNum (Fin ts))
      \<and> jmember hd ''ttlMs'' = Some (JNum (Fin ttl)) \<and> 0 < ttl \<and> ttl \<le> MAX_TTL_MS
      \<and> ts \<le> nowMs + MAX_CLOCK_SKEW_MS \<and> nowMs \<le> ts + ttl"
  by (auto simp: validateEnvelope_def part_or_empty_def finite_or_nan_def Let_def is_finite_iff
      split: option.splits json.splits if_splits)

section \<open>Creation\<close>

text \<open>
  The random hexadecimal strings and the clock reading are arguments: \<open>rnd6\<close> and
  \<open>rnd12\<close> are what \<open>crypto.getRandomValues\<close> filled the buffers with.
\<close>

definition randomHex :: "bytes \<Rightarrow> jstr" where
  "randomHex buf = toHex buf"

record create_input =
  in_sender :: jstr
  in_recipient :: "jstr option"
  in_intent :: intent
  in_content :: jstr
  in_capability :: "jstr option"
  in_correlationId :: "jstr option"
  in_ttlMs :: "int option"
  in_messageId :: "jstr option"
  in_nonce :: "jstr option"
  in_nowMs :: "int option"

definition createEnvelope :: "create_input \<Rightarrow> int \<Rightarrow> bytes \<Rightarrow> bytes \<Rightarrow> header \<times> body" where
  "createEnvelope i clock rnd6 rnd12 =
    (let nowMs = (case in_nowMs i of Some n \<Rightarrow> n | None \<Rightarrow> clock) in
     (\<lparr>version = protocol_version,
       messageId = (case in_messageId i of Some m \<Rightarrow> m | None \<Rightarrow> js ''msg-'' @ show_int nowMs @ js ''-'' @ randomHex rnd6),
       timestampMs = Fin nowMs,
       ttlMs = Fin (case in_ttlMs i of Some t \<Rightarrow> t | None \<Rightarrow> 60000),
       sender = in_sender i,
       recipient = in_recipient i,
       nonce = (case in_nonce i of Some n \<Rightarrow> n | None \<Rightarrow> randomHex rnd12)\<rparr>,
      \<lparr>intent = in_intent i, content = in_content i, capability = in_capability i, correlationId = in_correlationId i\<rparr>))"

section \<open>Properties\<close>

text \<open>A stand-in for WebCrypto to evaluate the statements on: signatures are the data itself.\<close>

definition demo_crypto :: crypto where
  "demo_crypto = \<lparr>hmac_key_ok = (\<lambda>k. k \<noteq> []), hmac_raw = (\<lambda>k m. k @ m), ed_priv_ok = (\<lambda>k. True),
    ed_sign_raw = (\<lambda>k m. m), ed_pub_ok = (\<lambda>k. True), ed_verify_raw = (\<lambda>k s m. s = m), sha256_raw = (\<lambda>m. m)\<rparr>"

lemma demo_pair [simp]: "ed_pair demo_crypto a b"
  by (simp add: ed_pair_def demo_crypto_def)

definition demo_header :: "int \<Rightarrow> int \<Rightarrow> header" where
  "demo_header ts ttl = \<lparr>version = protocol_version, messageId = js ''m1'', timestampMs = Fin ts, ttlMs = Fin ttl,
    sender = js ''a'', recipient = None, nonce = js ''n1''\<rparr>"

definition demo_body :: body where
  "demo_body = \<lparr>intent = TASK, content = js ''hi'', capability = None, correlationId = None\<rparr>"

text \<open>C2 The bytes an envelope signature covers determine the envelope: two envelopes with the same canonical UTF-8 bytes agree in every header and body field, the presence of optional fields included.\<close>

theorem signed_bytes_determine_envelope:
  "utf8Encode (canonicalizeEnvelope h b) = utf8Encode (canonicalizeEnvelope h' b') \<longleftrightarrow> h = h' \<and> b = b'"
  by (rule signed_bytes_inj)

text \<open>An envelope signed with an HMAC secret verifies under it, and when its header or body is replaced by different ones the signed bytes differ and the envelope verifies only if the HMAC of those different bytes is the same.\<close>

theorem hmac_envelope_tamper:
  assumes "signEnvelopeHmac C h b secret kid = Some e" and "(h', b') \<noteq> (h, b)"
  shows "verifyEnvelopeSignature C e (HmacSecret secret) = Some True \<and>
    utf8Encode (canonicalizeEnvelope h' b') \<noteq> utf8Encode (canonicalizeEnvelope h b) \<and>
    (verifyEnvelopeSignature C (e\<lparr>header := h', body := b'\<rparr>) (HmacSecret secret) = Some True \<longleftrightarrow>
      hmac_raw C (utf8Encode secret) (utf8Encode (canonicalizeEnvelope h' b')) =
      hmac_raw C (utf8Encode secret) (utf8Encode (canonicalizeEnvelope h b)))"
proof -
  from assms(1) have ok: "hmac_key_ok C (utf8Encode secret)"
    and e: "e = \<lparr>header = h, body = b, signature = Some \<lparr>alg = HS256, keyId = kid,
      sigValue = toBase64Url (hmac_raw C (utf8Encode secret) (utf8Encode (canonicalizeEnvelope h b)))\<rparr>\<rparr>"
    by (auto simp: signEnvelopeHmac_def signCanonicalPayloadHmac_def import_hmac_def hmac_tag_def split: if_splits)
  note v = verifyEnvelopeSignature_def verifyEnvelopeHmac_def verifyCanonicalPayloadHmac_def import_hmac_def hmac_check_def base64url_roundtrip
  from assms(2) have "utf8Encode (canonicalizeEnvelope h' b') \<noteq> utf8Encode (canonicalizeEnvelope h b)"
    unfolding signed_bytes_inj by simp
  with ok show ?thesis by (auto simp: e v)
qed

theorem hmac_envelope_tamper_witness:
  "\<exists>e. signEnvelopeHmac demo_crypto (demo_header 1 2) demo_body (js ''s'') (js ''k'') = Some e \<and>
    verifyEnvelopeSignature demo_crypto (e\<lparr>header := demo_header 1 3\<rparr>) (HmacSecret (js ''s'')) = Some False"
proof -
  have "hmac_key_ok demo_crypto (utf8Encode (js ''s''))"
    by (simp add: demo_crypto_def utf8Encode_def ascii_eval utf8_cp_def)
  then obtain e where e: "signEnvelopeHmac demo_crypto (demo_header 1 2) demo_body (js ''s'') (js ''k'') = Some e"
    by (auto simp: signEnvelopeHmac_def signCanonicalPayloadHmac_def import_hmac_def)
  have "(demo_header 1 3, demo_body) \<noteq> (demo_header 1 2, demo_body)" by (simp add: demo_header_def)
  note t = hmac_envelope_tamper [OF e this]
  have "body e = demo_body" using e by (auto simp: signEnvelopeHmac_def)
  then have "e\<lparr>header := demo_header 1 3, body := demo_body\<rparr> = e\<lparr>header := demo_header 1 3\<rparr>" by simp
  moreover have "verifyEnvelopeSignature demo_crypto (e\<lparr>header := demo_header 1 3\<rparr>) (HmacSecret (js ''s'')) \<noteq> None"
    using \<open>hmac_key_ok demo_crypto (utf8Encode (js ''s''))\<close> e
    by (auto simp: verifyEnvelopeSignature_def verifyEnvelopeHmac_def verifyCanonicalPayloadHmac_def import_hmac_def split: option.splits)
  ultimately show ?thesis using t e by (auto simp: demo_crypto_def)
qed

text \<open>Through any sequence of signing and verification calls the three key caches stay correct and bounded by 256 entries each, and every answer is the one the module gives without caches.\<close>

theorem key_caches_transparent:
  "snd (cached_run C empty_caches calls) = map (plain_call C) calls \<and>
   caches_ok C (fst (cached_run C empty_caches calls)) \<and>
   msize (hmacKeyCache (fst (cached_run C empty_caches calls))) \<le> 256 \<and>
   msize (ed25519PrivateKeyCache (fst (cached_run C empty_caches calls))) \<le> 256 \<and>
   msize (ed25519PublicKeyCache (fst (cached_run C empty_caches calls))) \<le> 256"
proof -
  have "caches_ok C empty_caches" by (simp add: caches_ok_def empty_caches_def)
  then show ?thesis
    using cached_run_steps [of C empty_caches calls] by (simp add: caches_ok_def cache_ok_def key_cache_limit_def)
qed

text \<open>Validation of a typed envelope reports no error exactly when the version is supported, messageId, sender and nonce are not blank, timestamp and ttl are finite, 0 < ttl <= 24 h, the timestamp is at most 30 s ahead and the message has not expired.\<close>

theorem validateEnvelope_exact:
  "no_errors (validateEnvelope (env_json h b) nowMs) \<longleftrightarrow>
    version h = protocol_version \<and> \<not> blank (messageId h) \<and> \<not> blank (sender h) \<and> \<not> blank (nonce h) \<and>
    (\<exists>ts ttl. timestampMs h = Fin ts \<and> ttlMs h = Fin ttl \<and> 0 < ttl \<and> ttl \<le> 86400000
       \<and> ts \<le> nowMs + 30000 \<and> nowMs \<le> ts + ttl)"
  by (cases "timestampMs h"; cases "ttlMs h")
    (simp_all add: validate_typed header_acceptable_def MAX_TTL_MS_def MAX_CLOCK_SKEW_MS_def)

text \<open>Whatever JSON value is received, if it validates at one time then it no longer validates 24 hours and 30 seconds later: no input can stay acceptable for longer.\<close>

theorem validation_expires:
  assumes "no_errors (validateEnvelope e t)" and "t + 86400000 + 30000 < t'"
  shows "\<not> no_errors (validateEnvelope e t')"
  using validate_untyped [OF assms(1)] validate_untyped [of e t'] assms(2)
  by (auto simp: MAX_TTL_MS_def MAX_CLOCK_SKEW_MS_def)

theorem validation_expires_witness: "\<not> no_errors (validateEnvelope (env_json (demo_header 1000 60000) demo_body) 90000000)"
proof -
  have "no_errors (validateEnvelope (env_json (demo_header 1000 60000) demo_body) 2000)"
    by (simp add: validate_typed header_acceptable_def demo_header_def blank_iff ws_char_def MAX_TTL_MS_def MAX_CLOCK_SKEW_MS_def ascii_eval)
  from validation_expires [OF this, of 90000000] show ?thesis by simp
qed

end
