(* ===== verification/ReplayHeap.thy ===== *)
theory ReplayHeap
  imports Protocol "HOL-Library.Multiset"
begin

text \<open>
  \<open>ExpiryMinHeap\<close> of \<open>src/protocolReplay.ts\<close>: a binary heap in an array, ordered by
  expiry. Reading outside the array gives \<open>undefined\<close> (\<open>None\<close>), as in the source. The
  lemmas show that \<open>push\<close> and \<open>pop\<close> neither lose nor invent entries, keep the heap
  order, and that \<open>peek\<close> is an entry with the least expiry.
\<close>

type_synonym expiry_entry = "jstr \<times> jnum"
type_synonym heap = "expiry_entry list"

definition at :: "'a list \<Rightarrow> nat \<Rightarrow> 'a option" where
  "at xs i = (if i < length xs then Some (xs ! i) else None)"

definition swap_at :: "heap \<Rightarrow> nat \<Rightarrow> nat \<Rightarrow> heap" where
  "swap_at items i j = items[i := items ! j, j := items ! i]"

section \<open>Operations\<close>

definition peek :: "heap \<Rightarrow> expiry_entry option" where
  "peek items = at items 0"

function bubbleUp :: "heap \<Rightarrow> nat \<Rightarrow> heap" where
  "bubbleUp items current =
    (if current = 0 then items
     else let parent = (current - 1) div 2 in
       case (at items parent, at items current) of
         (Some p, Some c) \<Rightarrow> if jnum_le (snd p) (snd c) then items else bubbleUp (swap_at items parent current) parent
       | _ \<Rightarrow> items)"
  by pat_completeness auto
termination by (relation "measure snd") auto

definition smallest :: "heap \<Rightarrow> nat \<Rightarrow> nat" where
  "smallest items current =
    (let left = current * 2 + 1; right = current * 2 + 2;
         s1 = (case (at items left, at items current) of
                 (Some l, Some c) \<Rightarrow> if jnum_less (snd l) (snd c) then left else current
               | _ \<Rightarrow> current)
     in case (at items right, at items s1) of
          (Some r, Some s) \<Rightarrow> if jnum_less (snd r) (snd s) then right else s1
        | _ \<Rightarrow> s1)"

lemma smallest_cases: "smallest items current \<in> {current, current * 2 + 1, current * 2 + 2}"
  by (auto simp: smallest_def Let_def split: option.splits)

lemma smallest_bound: "smallest items current \<noteq> current \<Longrightarrow> smallest items current < length items"
  by (auto simp: smallest_def Let_def at_def split: option.splits if_splits)

function bubbleDown :: "heap \<Rightarrow> nat \<Rightarrow> heap" where
  "bubbleDown items current =
    (let s = smallest items current in
     if s = current then items
     else case (at items current, at items s) of
            (Some a, Some b) \<Rightarrow> bubbleDown (swap_at items current s) s
          | _ \<Rightarrow> items)"
  by pat_completeness auto
termination
proof (relation "measure (\<lambda>(items, current). length items - current)")
  fix items current s a b
  assume s: "s = smallest items current" "s \<noteq> current"
  then have "current < s" using smallest_cases [of items current] by auto
  moreover have "s < length items" using s smallest_bound by simp
  ultimately show "((swap_at items current s, s), items, current) \<in> measure (\<lambda>(items, current). length items - current)"
    by (simp add: swap_at_def)
qed simp

declare bubbleUp.simps [simp del] bubbleDown.simps [simp del]

definition push :: "heap \<Rightarrow> expiry_entry \<Rightarrow> heap" where
  "push items e = bubbleUp (items @ [e]) (length items)"

definition pop :: "heap \<Rightarrow> expiry_entry option \<times> heap" where
  "pop items =
    (if items = [] then (None, [])
     else let rest = butlast items in
       (Some (hd items), if rest \<noteq> [] then bubbleDown (rest[0 := last items]) 0 else rest))"

section \<open>Nothing is lost\<close>

lemma mset_swap_at: "i < length items \<Longrightarrow> j < length items \<Longrightarrow> mset (swap_at items i j) = mset items"
  by (simp add: swap_at_def mset_swap)

lemma mset_bubbleUp: "mset (bubbleUp items i) = mset items"
proof (induction items i rule: bubbleUp.induct)
  case (1 items i)
  show ?case
    by (subst bubbleUp.simps) (use 1 in \<open>auto simp: Let_def at_def mset_swap_at split: option.splits if_splits\<close>)
qed

lemma mset_bubbleDown: "mset (bubbleDown items i) = mset items"
proof (induction items i rule: bubbleDown.induct)
  case (1 items i)
  show ?case
    by (subst bubbleDown.simps) (use 1 in \<open>auto simp: Let_def at_def mset_swap_at split: option.splits if_splits\<close>)
qed

lemma mset_push [store_laws]: "mset (push items e) = add_mset e (mset items)"
  by (simp add: push_def mset_bubbleUp)

lemma mset_pop [store_laws]: "pop items = (Some e, items') \<Longrightarrow> mset items = add_mset e (mset items')"
proof -
  assume p: "pop items = (Some e, items')"
  then have ne: "items \<noteq> []" and e: "e = hd items" by (auto simp: pop_def Let_def split: if_splits)
  then obtain x xs where c: "items = x # xs" by (cases items) auto
  show ?thesis
  proof (cases xs rule: rev_cases)
    case Nil
    with p c show ?thesis by (simp add: pop_def)
  next
    case (snoc ys z)
    then have "butlast items = x # ys" "last items = z" by (simp_all add: c butlast_append)
    with p c snoc show ?thesis by (auto simp: pop_def mset_bubbleDown)
  qed
qed

lemma pop_None [simp]: "pop items = (None, items') \<longleftrightarrow> items = [] \<and> items' = []"
  by (auto simp: pop_def Let_def)

lemma pop_Nil [simp]: "pop [] = (None, [])"
  by simp

section \<open>Heap order\<close>

definition par :: "nat \<Rightarrow> nat" where
  "par j = (j - 1) div 2"

abbreviation expiry_at :: "heap \<Rightarrow> nat \<Rightarrow> jnum" where
  "expiry_at items i \<equiv> snd (items ! i)"

definition no_nan :: "heap \<Rightarrow> bool" where
  "no_nan items \<longleftrightarrow> (\<forall>e \<in> set items. snd e \<noteq> NaN)"

definition heap_ordered :: "heap \<Rightarrow> bool" where
  "heap_ordered items \<longleftrightarrow> (\<forall>j. 0 < j \<and> j < length items \<longrightarrow> expiry_at items (par j) \<le> expiry_at items j)"

text \<open>The order except between \<open>i\<close> and its parent, and except between \<open>i\<close> and its children.\<close>

definition ordered_above :: "heap \<Rightarrow> nat \<Rightarrow> bool" where
  "ordered_above items i \<longleftrightarrow> i < length items \<and>
    (\<forall>j. 0 < j \<and> j < length items \<and> j \<noteq> i \<longrightarrow> expiry_at items (par j) \<le> expiry_at items j) \<and>
    (\<forall>j. 0 < j \<and> j < length items \<and> par j = i \<and> 0 < i \<longrightarrow> expiry_at items (par i) \<le> expiry_at items j)"

definition ordered_below :: "heap \<Rightarrow> nat \<Rightarrow> bool" where
  "ordered_below items i \<longleftrightarrow> i < length items \<and>
    (\<forall>j. 0 < j \<and> j < length items \<and> par j \<noteq> i \<longrightarrow> expiry_at items (par j) \<le> expiry_at items j) \<and>
    (\<forall>j. 0 < j \<and> j < length items \<and> par j = i \<and> 0 < i \<longrightarrow> expiry_at items (par i) \<le> expiry_at items j)"

lemma par_less [simp]: "0 < j \<Longrightarrow> par j < j"
  by (simp add: par_def)

lemma par_eq_iff: "0 < j \<Longrightarrow> par j = i \<longleftrightarrow> j = 2 * i + 1 \<or> j = 2 * i + 2"
  by (auto simp: par_def)

lemma no_nan_swap [simp]: "i < length items \<Longrightarrow> j < length items \<Longrightarrow> no_nan (swap_at items i j) = no_nan items"
  by (metis no_nan_def mset_swap_at mset_eq_setD)

lemma nth_swap_at:
  "i < length items \<Longrightarrow> j < length items \<Longrightarrow>
    swap_at items i j ! k = (if k = j then items ! i else if k = i then items ! j else items ! k)"
  by (auto simp: swap_at_def nth_list_update)

lemma length_swap_at [simp]: "length (swap_at items i j) = length items"
  by (simp add: swap_at_def)

lemma above_step:
  assumes "ordered_above items i" "0 < i" "expiry_at items i < expiry_at items (par i)"
  shows "ordered_above (swap_at items (par i) i) (par i)"
proof -
  let ?x = "swap_at items (par i) i"
  from assms(1) have i: "i < length items"
    and o: "\<And>j. 0 < j \<Longrightarrow> j < length items \<Longrightarrow> j \<noteq> i \<Longrightarrow> expiry_at items (par j) \<le> expiry_at items j"
    and c: "\<And>j. 0 < j \<Longrightarrow> j < length items \<Longrightarrow> par j = i \<Longrightarrow> expiry_at items (par i) \<le> expiry_at items j"
    using assms(2) by (auto simp: ordered_above_def)
  from i assms(2) have pl: "par i < length items" "par i < i" by (auto intro: order_less_trans [OF par_less])
  note nth = nth_swap_at [OF pl(1) i]
  have first: "snd (?x ! par j) \<le> snd (?x ! j)" if j: "0 < j" "j < length items" "j \<noteq> par i" for j
  proof -
    have pj: "par j < j" using j by simp
    consider "j = i" | "j \<noteq> i" "par j = i" | "j \<noteq> i" "par j = par i" | "j \<noteq> i" "par j \<noteq> i" "par j \<noteq> par i" by blast
    then show ?thesis
    proof cases
      case 1 with assms(3) pl show ?thesis by (simp add: nth)
    next
      case 2 with c [OF j(1,2)] j show ?thesis by (simp add: nth)
    next
      case 3 with o [OF j(1,2)] j assms(3) pl show ?thesis by (auto simp: nth)
    next
      case 4 with o [OF j(1,2)] j show ?thesis by (simp add: nth)
    qed
  qed
  have second: "snd (?x ! par (par i)) \<le> snd (?x ! j)" if j: "0 < j" "j < length items" "par j = par i" "0 < par i" for j
  proof -
    have pp: "par (par i) < par i" using j(4) by simp
    have a: "expiry_at items (par (par i)) \<le> expiry_at items (par i)" using o [of "par i"] pl j(4) by simp
    have b: "expiry_at items (par i) \<le> expiry_at items j" if "j \<noteq> i" using o [OF j(1,2) that] j(3) by simp
    have "j \<noteq> par i" using par_less [OF j(1)] j(3) by simp
    with a b pp pl show ?thesis by (cases "j = i") (auto simp: nth)
  qed
  show ?thesis using first second pl by (simp add: ordered_above_def)
qed

lemma above_done:
  assumes "ordered_above items i" "i = 0 \<or> expiry_at items (par i) \<le> expiry_at items i"
  shows "heap_ordered items"
  using assms by (auto simp: ordered_above_def heap_ordered_def)

lemma bubbleUp_ordered: "ordered_above items i \<Longrightarrow> no_nan items \<Longrightarrow> heap_ordered (bubbleUp items i)"
proof (induction items i rule: bubbleUp.induct)
  case (1 items i)
  show ?case
  proof (cases "i = 0")
    case True
    with above_done [OF "1.prems"(1)] show ?thesis by (subst bubbleUp.simps) simp
  next
    case False
    from "1.prems"(1) have i: "i < length items" by (simp add: ordered_above_def)
    with False have p: "par i < length items" by (auto intro: order_less_trans [OF par_less])
    have at: "at items (par i) = Some (items ! par i)" "at items i = Some (items ! i)"
      using i p by (simp_all add: at_def)
    from "1.prems"(2) i p have n: "expiry_at items (par i) \<noteq> NaN" "expiry_at items i \<noteq> NaN"
      by (simp_all add: no_nan_def)
    show ?thesis
    proof (cases "expiry_at items (par i) \<le> expiry_at items i")
      case True
      with False at n above_done [OF "1.prems"(1)] show ?thesis
        by (subst bubbleUp.simps) (simp add: jnum_le_iff par_def Let_def)
    next
      case gt: False
      have "heap_ordered (bubbleUp (swap_at items (par i) i) (par i))"
        using "1.IH" [OF False refl _ at(1) [unfolded par_def] at(2)] gt n above_step [OF "1.prems"(1)] False i p "1.prems"(2)
        by (simp add: jnum_le_iff at par_def)
      with False at gt show ?thesis
        by (subst bubbleUp.simps) (simp add: jnum_le_iff par_def Let_def)
    qed
  qed
qed

text \<open>Bubbling down: the chosen child is no later than its sibling.\<close>

lemma smallest_least:
  assumes "no_nan items" "i < length items"
  shows "j < length items \<Longrightarrow> j \<in> {i, i * 2 + 1, i * 2 + 2} \<Longrightarrow> expiry_at items (smallest items i) \<le> expiry_at items j"
  using assms
  by (auto simp: smallest_def Let_def at_def jnum_less_iff no_nan_def split: if_splits)

lemma smallest_less:
  assumes "no_nan items" "i < length items" "smallest items i \<noteq> i"
  shows "expiry_at items (smallest items i) < expiry_at items i"
  using assms
  by (auto simp: smallest_def Let_def at_def jnum_less_iff no_nan_def split: if_splits)

lemma below_step:
  assumes "ordered_below items i" "no_nan items" "smallest items i \<noteq> i"
  shows "ordered_below (swap_at items i (smallest items i)) (smallest items i)"
proof -
  let ?s = "smallest items i" and ?x = "swap_at items i (smallest items i)"
  from assms(1) have i: "i < length items"
    and o: "\<And>j. 0 < j \<Longrightarrow> j < length items \<Longrightarrow> par j \<noteq> i \<Longrightarrow> expiry_at items (par j) \<le> expiry_at items j"
    and c: "\<And>j. 0 < j \<Longrightarrow> j < length items \<Longrightarrow> par j = i \<Longrightarrow> 0 < i \<Longrightarrow> expiry_at items (par i) \<le> expiry_at items j"
    by (auto simp: ordered_below_def)
  have s: "?s < length items" using assms(3) by (rule smallest_bound)
  have s_pos: "0 < ?s" and s_par: "par ?s = i"
    using smallest_cases [of items i] assms(3) by (auto simp: par_def)
  note nth = nth_swap_at [OF i s]
  note least = smallest_least [OF assms(2) i]
  note less = smallest_less [OF assms(2) i assms(3)]
  have first: "snd (?x ! par j) \<le> snd (?x ! j)" if j: "0 < j" "j < length items" "par j \<noteq> ?s" for j
  proof -
    consider "par j = i" | "par j \<noteq> i" "j = i" | "par j \<noteq> i" "j \<noteq> i" by blast
    then show ?thesis
    proof cases
      case 1
      then have "j \<in> {i, i * 2 + 1, i * 2 + 2}" using par_eq_iff [OF j(1), of i] by (simp add: mult.commute)
      with least [OF j(2)] have "expiry_at items ?s \<le> expiry_at items j" by simp
      moreover have "j \<noteq> i" using 1 par_less [OF j(1)] by auto
      ultimately show ?thesis using 1 less assms(3) by (auto simp: nth)
    next
      case 2
      with c [OF s_pos s s_par] j show ?thesis by (auto simp: nth)
    next
      case 3
      have "j \<noteq> ?s" using 3 s_par by auto
      with 3 o [OF j(1,2)] j(3) show ?thesis by (simp add: nth)
    qed
  qed
  have second: "snd (?x ! par ?s) \<le> snd (?x ! j)" if j: "0 < j" "j < length items" "par j = ?s" for j
  proof -
    have "par j < j" using j(1) by simp
    then have "j \<noteq> i" "j \<noteq> ?s" "par j \<noteq> i" using s_par par_less [OF s_pos] j(3) assms(3) by auto
    with o [OF j(1,2)] j(3) s_par assms(3) show ?thesis by (simp add: nth)
  qed
  show ?thesis using first second s by (simp add: ordered_below_def)
qed

lemma below_done:
  assumes "ordered_below items i" "no_nan items" "smallest items i = i"
  shows "heap_ordered items"
proof -
  from assms(1) have i: "i < length items" by (simp add: ordered_below_def)
  have "expiry_at items (par j) \<le> expiry_at items j" if "0 < j" "j < length items" for j
  proof (cases "par j = i")
    case True
    with par_eq_iff [OF that(1), of i] have "j \<in> {i, i * 2 + 1, i * 2 + 2}" by (simp add: mult.commute)
    from smallest_least [OF assms(2) i that(2) this] assms(3) True show ?thesis by simp
  qed (use assms(1) that in \<open>auto simp: ordered_below_def\<close>)
  then show ?thesis by (simp add: heap_ordered_def)
qed

lemma bubbleDown_ordered: "ordered_below items i \<Longrightarrow> no_nan items \<Longrightarrow> heap_ordered (bubbleDown items i)"
proof (induction items i rule: bubbleDown.induct)
  case (1 items i)
  from "1.prems"(1) have i: "i < length items" by (simp add: ordered_below_def)
  show ?case
  proof (cases "smallest items i = i")
    case True
    with below_done [OF "1.prems"] show ?thesis by (subst bubbleDown.simps) simp
  next
    case False
    then have s: "smallest items i < length items" by (rule smallest_bound)
    have at: "at items i = Some (items ! i)" "at items (smallest items i) = Some (items ! smallest items i)"
      using i s by (simp_all add: at_def)
    have "heap_ordered (bubbleDown (swap_at items i (smallest items i)) (smallest items i))"
      using "1.IH" [OF refl False _ at] below_step [OF "1.prems" False] "1.prems"(2) i s by (simp add: at)
    with False at show ?thesis by (subst bubbleDown.simps) (simp add: Let_def)
  qed
qed

lemma heap_ordered_butlast: "heap_ordered (xs @ [x]) \<Longrightarrow> heap_ordered xs"
  unfolding heap_ordered_def
proof (intro allI impI)
  fix j assume o: "\<forall>j. 0 < j \<and> j < length (xs @ [x]) \<longrightarrow> expiry_at (xs @ [x]) (par j) \<le> expiry_at (xs @ [x]) j"
    and j: "0 < j \<and> j < length xs"
  then have "par j < length xs" using par_less [of j] by linarith
  with o j show "expiry_at xs (par j) \<le> expiry_at xs j" by (auto simp: nth_append dest: spec [of _ j])
qed

lemma push_ordered [wf_intros]:
  assumes "heap_ordered items" "no_nan items" "snd e \<noteq> NaN"
  shows "heap_ordered (push items e) \<and> no_nan (push items e)"
proof -
  have p: "par j < length items" if "0 < j" "j \<le> length items" for j
    using par_less [OF that(1)] that(2) by linarith
  have "ordered_above (items @ [e]) (length items)"
    using assms(1) p par_eq_iff by (auto simp: ordered_above_def heap_ordered_def nth_append less_Suc_eq)
  moreover have "no_nan (items @ [e])" using assms by (simp add: no_nan_def)
  moreover have "no_nan (push items e)"
    using assms mset_push [of items e] by (metis no_nan_def set_mset_add_mset_insert set_mset_mset insert_iff)
  ultimately show ?thesis by (simp add: push_def bubbleUp_ordered)
qed

lemma pop_ordered [wf_intros]:
  assumes "heap_ordered items" "no_nan items"
  shows "heap_ordered (snd (pop items)) \<and> no_nan (snd (pop items))"
proof (cases items rule: rev_cases)
  case Nil
  then show ?thesis by (simp add: pop_def heap_ordered_def no_nan_def)
next
  case (snoc ys z)
  have o: "heap_ordered ys" and n: "no_nan ys" "snd z \<noteq> NaN"
    using assms snoc heap_ordered_butlast by (auto simp: no_nan_def)
  show ?thesis
  proof (cases "ys = []")
    case True
    with snoc show ?thesis by (simp add: pop_def heap_ordered_def no_nan_def)
  next
    case False
    have "ordered_below (ys[0 := z]) 0"
      using o False by (auto simp: ordered_below_def heap_ordered_def nth_list_update)
    moreover have "no_nan (ys[0 := z])"
      using n by (auto simp: no_nan_def dest: set_update_subset_insert [THEN subsetD])
    moreover from this have "no_nan (bubbleDown (ys[0 := z]) 0)"
      using mset_bubbleDown [of "ys[0 := z]" 0] by (metis no_nan_def mset_eq_setD)
    ultimately show ?thesis using snoc False by (simp add: pop_def Let_def bubbleDown_ordered)
  qed
qed

lemma heap_root_least: "heap_ordered items \<Longrightarrow> j < length items \<Longrightarrow> expiry_at items 0 \<le> expiry_at items j"
proof (induction j rule: less_induct)
  case (less j)
  show ?case
  proof (cases "j = 0")
    case False
    with less have "expiry_at items 0 \<le> expiry_at items (par j)" by (metis par_less order_less_trans neq0_conv)
    also have "\<dots> \<le> expiry_at items j" using less.prems False by (simp add: heap_ordered_def)
    finally show ?thesis .
  qed simp
qed

lemma peek_least:
  assumes "heap_ordered items" "peek items = Some e" "e' \<in> set items"
  shows "snd e \<le> snd e'"
  using assms heap_root_least by (auto simp: peek_def at_def in_set_conv_nth split: if_splits)

lemma pop_peek: "fst (pop items) = peek items"
  by (cases items) (auto simp: pop_def peek_def at_def Let_def)

end
