(* ===== verification/Replay.thy ===== *)
theory Replay
  imports ReplayHeap
begin

text \<open>
  \<open>InMemoryReplayCache\<close> of \<open>src/protocolReplay.ts\<close>: the replay key, the map of
  reservations with its expiry heap, pruning, eviction and \<open>consume\<close>. The invariant ties
  the heap to the map entry by entry, so the cache behaves as a bounded map from keys to
  expiries, and a reservation refuses its key until it expires unless capacity forces an
  eviction.
\<close>

section \<open>Replay keys\<close>

text \<open>\<open>encodeURIComponent\<close> throws (\<open>None\<close>) on a lone surrogate.\<close>

definition uri_unreserved :: "byte \<Rightarrow> bool" where
  "uri_unreserved b \<longleftrightarrow> (48 \<le> unat b \<and> unat b \<le> 57) \<or> (65 \<le> unat b \<and> unat b \<le> 90) \<or> (97 \<le> unat b \<and> unat b \<le> 122)
     \<or> unat b \<in> {45, 95, 46, 33, 126, 42, 39, 40, 41}"

definition hex_upper :: "nat \<Rightarrow> code_unit" where
  "hex_upper n = (if n < 10 then of_nat (48 + n) else of_nat (55 + n))"

definition uri_byte :: "byte \<Rightarrow> jstr" where
  "uri_byte b = (if uri_unreserved b then [ucast b] else [37, hex_upper (unat b div 16), hex_upper (unat b mod 16)])"

definition encodeURIComponent :: "jstr \<Rightarrow> jstr option" where
  "encodeURIComponent s = (if well_formed s then Some (concat (map uri_byte (utf8Encode s))) else None)"

definition makeKey :: "header \<Rightarrow> jstr option" where
  "makeKey h = map_option (join_with [124])
     (all_some (map encodeURIComponent [sender h, messageId h, nonce h]))"

lemma unat_hex_upper: "n < 16 \<Longrightarrow> unat (hex_upper n) = (if n < 10 then 48 + n else 55 + n)"
  by (simp add: hex_upper_def unat_of_nat16 del: of_nat_add)

lemma hex_upper_inj: "m < 16 \<Longrightarrow> n < 16 \<Longrightarrow> hex_upper m = hex_upper n \<Longrightarrow> m = n"
proof -
  assume m: "m < 16" and n: "n < 16" and e: "hex_upper m = hex_upper n"
  have "(if m < 10 then 48 + m else 55 + m) = (if n < 10 then 48 + n else 55 + n)"
    using unat_hex_upper [OF m] unat_hex_upper [OF n] unfolding e by simp
  with m n show "m = n" by (simp split: if_splits)
qed

lemma unat_of_byte: "unat (ucast b :: code_unit) = unat (b :: byte)"
  using unat8_less [of b] by (simp add: unsigned_ucast_eq take_bit_nat_eq_self)

lemma uri_byte_peel: "uri_byte a @ r = uri_byte b @ s \<longleftrightarrow> a = b \<and> r = s"
proof
  have n37: "ucast c \<noteq> (37 :: code_unit)" if "uri_unreserved c" for c :: byte
  proof
    assume "ucast c = (37 :: code_unit)"
    with unat_of_byte [of c] have "unat c = 37" by simp
    with that show False by (simp add: uri_unreserved_def)
  qed
  have inj: "a = b" if "ucast a = (ucast b :: code_unit)"
    using unat_of_byte [of a] unat_of_byte [of b] that by (metis word_of_nat_unat')
  have h: "unat b div 16 < 16" "unat b mod 16 < 16" for b :: byte
    using unat8_less [of b] by auto
  assume e: "uri_byte a @ r = uri_byte b @ s"
  show "a = b \<and> r = s"
  proof (cases "uri_unreserved a \<or> uri_unreserved b")
    case True
    with e n37 n37 [THEN not_sym] inj show ?thesis by (auto simp: uri_byte_def split: if_splits)
  next
    case False
    with e have "hex_upper (unat a div 16) = hex_upper (unat b div 16)" "hex_upper (unat a mod 16) = hex_upper (unat b mod 16)" "r = s"
      by (simp_all add: uri_byte_def)
    with hex_upper_inj [OF h(1) h(1)] hex_upper_inj [OF h(2) h(2)] have "unat a = unat b" "r = s"
      by (metis div_mult_mod_eq)+
    then show ?thesis by (metis word_of_nat_unat')
  qed
qed simp

lemma uri_bytes_inj: "concat (map uri_byte a) = concat (map uri_byte b) \<Longrightarrow> a = b"
proof (induction a arbitrary: b)
  case Nil
  then show ?case by (cases b) (auto simp: uri_byte_def split: if_splits)
next
  case (Cons x a)
  then show ?case by (cases b) (auto simp: uri_byte_peel, simp add: uri_byte_def split: if_splits)
qed

lemma encodeURIComponent_inj: "encodeURIComponent s = Some e \<Longrightarrow> encodeURIComponent t = Some e \<Longrightarrow> s = t"
  by (auto simp: encodeURIComponent_def split: if_splits dest!: uri_bytes_inj [OF sym] dest: utf8Encode_inj)

lemma uri_byte_no_bar: "124 \<notin> set (uri_byte b)"
proof -
  have "ucast b \<noteq> (124 :: code_unit)" if "uri_unreserved b"
  proof
    assume "ucast b = (124 :: code_unit)"
    with unat_of_byte [of b] have "unat b = 124" by simp
    with that show False by (simp add: uri_unreserved_def)
  qed
  moreover have "hex_upper n \<noteq> 124" if "n < 16" for n
  proof
    assume "hex_upper n = 124"
    with unat_hex_upper [OF that] that show False by (simp split: if_splits)
  qed
  ultimately show ?thesis using unat8_less [of b] by (auto simp: uri_byte_def)
qed

lemma encodeURIComponent_no_bar: "encodeURIComponent s = Some e \<Longrightarrow> 124 \<notin> set e"
  using uri_byte_no_bar by (auto simp: encodeURIComponent_def split: if_splits)

lemma bar_peel: "124 \<notin> set a \<Longrightarrow> 124 \<notin> set b \<Longrightarrow> a @ (124 :: code_unit) # r = b @ 124 # s \<Longrightarrow> a = b \<and> r = s"
  using span_unique [of a "124 # r" b "124 # s" "\<lambda>c. c \<noteq> 124"] by auto

lemma makeKey_inj:
  assumes "makeKey h = Some k" "makeKey h' = Some k"
  shows "sender h = sender h' \<and> messageId h = messageId h' \<and> nonce h = nonce h'"
proof -
  from assms(1) obtain a b c where 1: "encodeURIComponent (sender h) = Some a" "encodeURIComponent (messageId h) = Some b"
      "encodeURIComponent (nonce h) = Some c" "k = a @ 124 # b @ 124 # c"
    by (auto simp: makeKey_def all_some_eq_Some)
  from assms(2) obtain a' b' c' where 2: "encodeURIComponent (sender h') = Some a'" "encodeURIComponent (messageId h') = Some b'"
      "encodeURIComponent (nonce h') = Some c'" "k = a' @ 124 # b' @ 124 # c'"
    by (auto simp: makeKey_def all_some_eq_Some)
  have "a = a' \<and> b = b' \<and> c = c'"
    using bar_peel [OF encodeURIComponent_no_bar [OF 1(1)] encodeURIComponent_no_bar [OF 2(1)]]
      bar_peel [OF encodeURIComponent_no_bar [OF 1(2)] encodeURIComponent_no_bar [OF 2(2)]] 1(4) 2(4) by metis
  with 1 2 show ?thesis using encodeURIComponent_inj by metis
qed

lemma makeKey_defined:
  "(\<exists>k. makeKey h = Some k) \<longleftrightarrow> well_formed (sender h) \<and> well_formed (messageId h) \<and> well_formed (nonce h)"
  by (auto simp: makeKey_def encodeURIComponent_def)

section \<open>The cache\<close>

record replay_cache =
  entries :: "(jstr, jnum) jsmap"
  maxEntries :: nat
  expiries :: heap

datatype replay_result = ReplayOk | ReplayDetected | NonFiniteExpiry

definition new_replay_cache :: "nat \<Rightarrow> replay_cache" where
  "new_replay_cache n = \<lparr>entries = [], maxEntries = n, expiries = []\<rparr>"

text \<open>\<open>a === b\<close> on numbers.\<close>

definition jnum_eq :: "jnum \<Rightarrow> jnum \<Rightarrow> bool" where
  "jnum_eq a b \<longleftrightarrow> a = b \<and> a \<noteq> NaN"

lemma pop_length: "pop items = (Some e, rest) \<Longrightarrow> length rest < length items"
  using mset_pop [of items e rest] by (metis size_mset size_add_mset lessI)

text \<open>The pruning loop: drop heap entries until the first one that is still ahead.\<close>

function prune_loop :: "(jstr, jnum) jsmap \<Rightarrow> heap \<Rightarrow> int \<Rightarrow> (jstr, jnum) jsmap \<times> heap" where
  "prune_loop es items nowMs =
    (case pop items of
       (None, _) \<Rightarrow> (es, items)
     | (Some (k, e), rest) \<Rightarrow>
         if jnum_less (Fin nowMs) e then (es, items)
         else prune_loop
           (case mget es k of
              Some cur \<Rightarrow> if jnum_eq cur e \<and> jnum_le cur (Fin nowMs) then mdelete es k else es
            | None \<Rightarrow> es) rest nowMs)"
  by pat_completeness auto
termination by (relation "measure (\<lambda>(es, items, t). length items)") (auto dest: pop_length [OF sym])

declare prune_loop.simps [simp del]

definition prune :: "replay_cache \<Rightarrow> int \<Rightarrow> replay_cache" where
  "prune st nowMs = (let (es, items) = prune_loop (entries st) (expiries st) nowMs in st\<lparr>entries := es, expiries := items\<rparr>)"

text \<open>The eviction loop; the flag says that an entry was evicted and the method returned.\<close>

function evict_loop :: "nat \<Rightarrow> (jstr, jnum) jsmap \<Rightarrow> heap \<Rightarrow> (jstr, jnum) jsmap \<times> heap \<times> bool" where
  "evict_loop n es items =
    (if msize es < n then (es, items, False)
     else case pop items of
       (None, _) \<Rightarrow> (es, items, False)
     | (Some (k, e), rest) \<Rightarrow>
         (case mget es k of
            Some cur \<Rightarrow> if jnum_eq cur e then (mdelete es k, rest, True) else evict_loop n es rest
          | None \<Rightarrow> evict_loop n es rest))"
  by pat_completeness auto
termination by (relation "measure (\<lambda>(n, es, items). length items)") (auto dest: pop_length [OF sym])

declare evict_loop.simps [simp del]

definition evictOne :: "replay_cache \<Rightarrow> replay_cache" where
  "evictOne st =
    (let (es, items, returned) = evict_loop (maxEntries st) (entries st) (expiries st);
         es' = (if \<not> returned \<and> maxEntries st \<le> msize es then
                  (case mkeys es of [] \<Rightarrow> es | fallback # _ \<Rightarrow> if fallback \<noteq> [] then mdelete es fallback else es)
                else es)
     in st\<lparr>entries := es', expiries := items\<rparr>)"

text \<open>
  \<open>consume\<close>; \<open>None\<close> when \<open>makeKey\<close> throws, which happens after pruning.
\<close>

definition consume :: "replay_cache \<Rightarrow> header \<Rightarrow> int \<Rightarrow> replay_cache \<times> replay_result option" where
  "consume st0 h nowMs =
    (let st = prune st0 nowMs in
     case makeKey h of
       None \<Rightarrow> (st, None)
     | Some key \<Rightarrow>
         if (case mget (entries st) key of None \<Rightarrow> False
             | Some e \<Rightarrow> \<not> is_finite e \<or> jnum_less (Fin nowMs) e)
         then (st, Some ReplayDetected)
         else let expiresAt = jnum_add (timestampMs h) (ttlMs h) in
           if \<not> is_finite expiresAt then (st, Some NonFiniteExpiry)
           else let st = (if maxEntries st \<le> msize (entries st) then evictOne st else st) in
             (st\<lparr>entries := mset_key (entries st) key expiresAt, expiries := push (expiries st) (key, expiresAt)\<rparr>,
              Some ReplayOk))"

fun consumeMany :: "replay_cache \<Rightarrow> header list \<Rightarrow> int \<Rightarrow> replay_cache \<times> replay_result option list" where
  "consumeMany st [] nowMs = (st, [])"
| "consumeMany st (h # hs) nowMs =
    (let (st1, r) = consume st h nowMs in
     case r of None \<Rightarrow> (st1, [None])
     | Some _ \<Rightarrow> let (st2, rs) = consumeMany st1 hs nowMs in (st2, r # rs))"

section \<open>Invariant\<close>

definition cache_inv :: "replay_cache \<Rightarrow> bool" where
  "cache_inv st \<longleftrightarrow> wf_map (entries st) \<and> mset (expiries st) = mset (entries st) \<and>
     heap_ordered (expiries st) \<and> (\<forall>e \<in> set (expiries st). is_finite (snd e))"

lemma mset_mdelete: "wf_map m \<Longrightarrow> mget m k = Some v \<Longrightarrow> mset m = add_mset (k, v) (mset (mdelete m k))"
proof (induction m)
  case (Cons e m)
  obtain k' v' where e: "e = (k', v')" by (cases e)
  from Cons.prems have w: "wf_map m" "k' \<notin> set (map fst m)" by (auto simp: wf_map_def e)
  show ?case
  proof (cases "k' = k")
    case True
    with w have "mget m k = None" by (simp add: mget_None_iff)
    then have "mdelete m k = m" by (rule mdelete_absent)
    with True e Cons.prems show ?thesis by (simp add: mdelete_def)
  next
    case False
    with Cons.IH [OF w(1)] Cons.prems e show ?thesis by (simp add: mdelete_def)
  qed
qed simp

lemma finite_no_nan: "\<forall>e \<in> set items. is_finite (snd e) \<Longrightarrow> no_nan items"
  by (auto simp: no_nan_def)

text \<open>What one \<open>pop\<close> of an intact cache removes.\<close>

lemma pop_entry:
  assumes "wf_map es" "mset items = mset es" "heap_ordered items" "\<forall>e \<in> set items. is_finite (snd e)"
    and "pop items = (Some (k, e), rest)"
  shows "mget es k = Some e" "is_finite e" "\<forall>x \<in> set es. e \<le> snd x"
    and "wf_map (mdelete es k)" "mset rest = mset (mdelete es k)" "heap_ordered rest" "\<forall>e \<in> set rest. is_finite (snd e)"
proof -
  from mset_pop [OF assms(5)] have m: "mset items = add_mset (k, e) (mset rest)" .
  then have ki: "(k, e) \<in> set items" by (metis set_mset_mset union_single_eq_member)
  have s: "set items = set es" using assms(2) by (rule mset_eq_setD)
  show g: "mget es k = Some e" using ki s assms(1) by (simp add: mget_in_set)
  show "is_finite e" using ki assms(4) by auto
  show "\<forall>x \<in> set es. e \<le> snd x"
    using peek_least [OF assms(3)] pop_peek [of items] assms(5) s by (metis fst_conv snd_conv)
  show "wf_map (mdelete es k)" using assms(1) by (rule wf_mdelete)
  show "mset rest = mset (mdelete es k)"
    using mset_mdelete [OF assms(1) g] m assms(2) by simp
  show "heap_ordered rest" using pop_ordered [OF assms(3) finite_no_nan [OF assms(4)]] assms(5) by simp
  show "\<forall>e \<in> set rest. is_finite (snd e)"
    using m assms(4) by (metis set_mset_mset set_mset_add_mset_insert insert_iff)
qed

lemma prune_loop_spec:
  assumes "wf_map es" "mset items = mset es" "heap_ordered items" "\<forall>e \<in> set items. is_finite (snd e)"
  shows "let (es', items') = prune_loop es items t in
    wf_map es' \<and> mset items' = mset es' \<and> heap_ordered items' \<and> (\<forall>e \<in> set items'. is_finite (snd e)) \<and>
    es' = filter (\<lambda>e. Fin t < snd e) es"
  using assms
proof (induction es items t rule: prune_loop.induct)
  case (1 es items t)
  show ?case
  proof (cases "pop items")
    case (Pair oe rest)
    show ?thesis
    proof (cases oe)
      case None
      with Pair "1.prems" have "es = []" by auto
      with None Pair "1.prems" show ?thesis by (subst prune_loop.simps) simp
    next
      case (Some ke)
      obtain k e where ke: "ke = (k, e)" by (cases ke)
      note p = pop_entry [OF "1.prems" Pair [unfolded Some ke]]
      from p(2) have n: "e \<noteq> NaN" by auto
      show ?thesis
      proof (cases "jnum_less (Fin t) e")
        case True
        then have "filter (\<lambda>x. Fin t < snd x) es = es"
          using p(3) by (auto simp: jnum_less_iff intro!: filter_True)
        with True Some ke Pair "1.prems" show ?thesis by (subst prune_loop.simps) simp
      next
        case False
        with n have et: "e \<le> Fin t" by (simp add: jnum_less_iff not_less)
        have d: "jnum_eq e e \<and> jnum_le e (Fin t)" using n et by (simp add: jnum_eq_def jnum_le_iff)
        have f: "filter (\<lambda>x. Fin t < snd x) (mdelete es k) = filter (\<lambda>x. Fin t < snd x) es"
          using et p(1) "1.prems"(1) by (auto simp: mdelete_def mget_in_set [symmetric] not_less intro!: filter_cong)
        have "let (es', items') = prune_loop (mdelete es k) rest t in
          wf_map es' \<and> mset items' = mset es' \<and> heap_ordered items' \<and> (\<forall>e \<in> set items'. is_finite (snd e)) \<and>
          es' = filter (\<lambda>e. Fin t < snd e) (mdelete es k)"
          using "1.IH" [OF Pair [symmetric] Some ke [symmetric] False] p d by simp
        with False Some ke Pair p(1) d f show ?thesis by (subst prune_loop.simps) simp
      qed
    qed
  qed
qed

lemma prune_inv [wf_intros]: "cache_inv st \<Longrightarrow> cache_inv (prune st t)"
  and prune_entries: "cache_inv st \<Longrightarrow> entries (prune st t) = filter (\<lambda>e. Fin t < snd e) (entries st)"
  and prune_max [simp]: "maxEntries (prune st t) = maxEntries st"
  using prune_loop_spec [of "entries st" "expiries st" t]
  by (auto simp: cache_inv_def prune_def case_prod_beta Let_def)

lemma evictOne_spec:
  assumes "cache_inv st" "maxEntries st \<le> msize (entries st)" "entries st \<noteq> []"
  shows "cache_inv (evictOne st) \<and> (\<exists>k e. mget (entries st) k = Some e \<and> (\<forall>x \<in> set (entries st). e \<le> snd x)
    \<and> entries (evictOne st) = mdelete (entries st) k) \<and> maxEntries (evictOne st) = maxEntries st"
proof -
  note inv = assms(1) [unfolded cache_inv_def]
  then have ne: "expiries st \<noteq> []" using assms(3) by auto
  obtain k e rest where p: "pop (expiries st) = (Some (k, e), rest)"
    using ne pop_None by (metis option.exhaust surj_pair)
  have w: "wf_map (entries st)" "mset (expiries st) = mset (entries st)" "heap_ordered (expiries st)"
    "\<forall>e \<in> set (expiries st). is_finite (snd e)" using inv by auto
  note pe = pop_entry [OF w p]
  from pe(1,2) have g: "mget (entries st) k = Some e" "jnum_eq e e" by (auto simp: jnum_eq_def)
  then have "evict_loop (maxEntries st) (entries st) (expiries st) = (mdelete (entries st) k, rest, True)"
    using assms(2) p by (subst evict_loop.simps) simp
  then have ev: "evictOne st = st\<lparr>entries := mdelete (entries st) k, expiries := rest\<rparr>" by (simp add: evictOne_def)
  have "cache_inv (evictOne st)" using pe(4-7) by (simp add: ev cache_inv_def)
  moreover have "maxEntries (evictOne st) = maxEntries st" "entries (evictOne st) = mdelete (entries st) k" by (simp_all add: ev)
  ultimately show ?thesis using g(1) pe(3) by metis
qed

section \<open>Functional behaviour\<close>

text \<open>The reservations that are alive at a time, and the map \<open>consume\<close> leaves behind.\<close>

definition live_entries :: "replay_cache \<Rightarrow> int \<Rightarrow> (jstr, jnum) jsmap" where
  "live_entries st t = filter (\<lambda>e. Fin t < snd e) (entries st)"

lemma live_get: "cache_inv st \<Longrightarrow> mget (live_entries st t) k = Some e \<longleftrightarrow> mget (entries st) k = Some e \<and> Fin t < e"
  unfolding live_entries_def cache_inv_def by (simp add: mget_filter split: option.splits) blast

lemma consume_cases:
  assumes "cache_inv st" "makeKey h = Some k"
  shows "cache_inv (fst (consume st h t)) \<and> maxEntries (fst (consume st h t)) = maxEntries st \<and>
    (case mget (live_entries st t) k of
       Some _ \<Rightarrow> snd (consume st h t) = Some ReplayDetected \<and> entries (fst (consume st h t)) = live_entries st t
     | None \<Rightarrow>
        (case jnum_add (timestampMs h) (ttlMs h) of
           Fin E \<Rightarrow> snd (consume st h t) = Some ReplayOk \<and>
             (if msize (live_entries st t) < maxEntries st \<or> live_entries st t = []
              then entries (fst (consume st h t)) = mset_key (live_entries st t) k (Fin E)
              else \<exists>v e. mget (live_entries st t) v = Some e \<and> (\<forall>x \<in> set (live_entries st t). e \<le> snd x) \<and>
                entries (fst (consume st h t)) = mset_key (mdelete (live_entries st t) v) k (Fin E))
         | _ \<Rightarrow> snd (consume st h t) = Some NonFiniteExpiry \<and> entries (fst (consume st h t)) = live_entries st t))"
proof -
  let ?p = "prune st t" and ?l = "live_entries st t"
  have p: "cache_inv ?p" "entries ?p = ?l" "maxEntries ?p = maxEntries st"
    using assms(1) by (simp_all add: prune_inv prune_entries live_entries_def)
  have add: "cache_inv (q\<lparr>entries := mset_key (entries q) k (Fin E), expiries := push (expiries q) (k, Fin E)\<rparr>)"
    if "cache_inv q" "mget (entries q) k = None" for q E
  proof -
    from that(1) have w: "wf_map (entries q)" "mset (expiries q) = mset (entries q)" "heap_ordered (expiries q)"
      and f: "\<forall>e \<in> set (expiries q). is_finite (snd e)" by (auto simp: cache_inv_def)
    have "set (push (expiries q) (k, Fin E)) = insert (k, Fin E) (set (expiries q))"
      by (metis mset_push set_mset_add_mset_insert set_mset_mset)
    with f have "\<forall>e \<in> set (push (expiries q) (k, Fin E)). is_finite (snd e)" by simp
    moreover have "mset (mset_key (entries q) k (Fin E)) = add_mset (k, Fin E) (mset (entries q))"
      using that(2) by (simp add: mset_key_append)
    moreover have "wf_map (mset_key (entries q) k (Fin E))" using w(1) by (rule wf_mset_key)
    ultimately show ?thesis
      using w push_ordered [OF w(3) finite_no_nan [OF f], of "(k, Fin E)"] by (simp add: cache_inv_def mset_push)
  qed
  show ?thesis
  proof (cases "mget ?l k")
    case (Some e)
    then have "Fin t < e" using live_get [OF assms(1)] by blast
    moreover have "is_finite e \<or> e = PosInf \<or> e = NaN \<or> e = NegInf" by (cases e) auto
    ultimately have "\<not> is_finite e \<or> jnum_less (Fin t) e" by (auto simp: jnum_less_iff)
    with Some p assms(2) show ?thesis by (simp add: consume_def Let_def)
  next
    case None
    show ?thesis
    proof (cases "jnum_add (timestampMs h) (ttlMs h)")
      case (Fin E)
      define q where "q = (if maxEntries st \<le> msize ?l then evictOne ?p else ?p)"
      have c: "consume st h t = (q\<lparr>entries := mset_key (entries q) k (Fin E), expiries := push (expiries q) (k, Fin E)\<rparr>, Some ReplayOk)"
        using None p assms(2) Fin by (simp add: consume_def Let_def q_def)
      show ?thesis
      proof (cases "msize ?l < maxEntries st \<or> ?l = []")
        case True
        then have "cache_inv q \<and> entries q = ?l \<and> maxEntries q = maxEntries st"
        proof
          assume l: "?l = []"
          then have "expiries ?p = []" using p(1,2) by (auto simp: cache_inv_def)
          then have "evict_loop (maxEntries ?p) (entries ?p) (expiries ?p) = ([], [], False)"
            using l p(2) by (subst evict_loop.simps) (simp add: msize_def)
          then have "evictOne ?p = ?p\<lparr>entries := [], expiries := []\<rparr>" by (simp add: evictOne_def mkeys_def)
          with l p show ?thesis by (auto simp: q_def cache_inv_def)
        qed (use p in \<open>simp add: q_def\<close>)
        with None Fin c True add [of q E] show ?thesis by simp
      next
        case False
        then have q: "q = evictOne ?p" and n: "maxEntries ?p \<le> msize (entries ?p)" "entries ?p \<noteq> []"
          using p by (auto simp: q_def)
        from evictOne_spec [OF p(1) n] obtain v e where v: "cache_inv q" "mget ?l v = Some e"
            "\<forall>x \<in> set ?l. e \<le> snd x" "entries q = mdelete ?l v" "maxEntries q = maxEntries st"
          using q p by auto
        with None have "mget (entries q) k = None" by simp
        with v None Fin c False add [of q E] show ?thesis by auto
      qed
    qed (use None p assms(2) in \<open>simp_all add: consume_def Let_def\<close>)
  qed
qed

text \<open>Any sequence of \<open>consume\<close> calls.\<close>

fun replay_run :: "replay_cache \<Rightarrow> (header \<times> int) list \<Rightarrow> replay_cache" where
  "replay_run st [] = st"
| "replay_run st ((h, t) # evs) = replay_run (fst (consume st h t)) evs"

lemma consume_throw: "makeKey h = None \<Longrightarrow> consume st h t = (prune st t, None)"
  by (simp add: consume_def Let_def)

lemma consume_step:
  assumes "cache_inv st"
  shows "cache_inv (fst (consume st h t))" "maxEntries (fst (consume st h t)) = maxEntries st"
  using consume_cases [OF assms, of h _ t] prune_inv [OF assms] consume_throw [of h st t]
  by (cases "makeKey h"; simp)+

lemma size_live: "msize (live_entries st t) \<le> msize (entries st)"
  by (simp add: live_entries_def msize_def)

text \<open>A step that finds room keeps every reservation that is still ahead.\<close>

lemma consume_keeps:
  assumes "cache_inv st" "mget (entries st) k = Some (Fin E)" "t < E" "msize (entries st) < maxEntries st"
  shows "mget (entries (fst (consume st h t))) k = Some (Fin E) \<and> msize (entries (fst (consume st h t))) \<le> Suc (msize (entries st))"
proof -
  have l: "mget (live_entries st t) k = Some (Fin E)" using live_get [OF assms(1)] assms(2,3) by simp
  have r: "msize (live_entries st t) < maxEntries st" using size_live [of st t] assms(4) by linarith
  show ?thesis
  proof (cases "makeKey h")
    case None
    then show ?thesis
      using l size_live [of st t] prune_entries [OF assms(1)] consume_throw [OF None] by (simp add: live_entries_def)
  next
    case (Some k')
    show ?thesis
      using consume_cases [OF assms(1) Some, of t] l r size_live [of st t]
      by (cases "mget (live_entries st t) k'"; cases "jnum_add (timestampMs h) (ttlMs h)") (auto simp: msize_mset_key)
  qed
qed

lemma replay_run_inv: "cache_inv st \<Longrightarrow> cache_inv (replay_run st evs)"
  by (induction st evs rule: replay_run.induct) (auto intro: consume_step)

lemma replay_run_keeps:
  assumes "cache_inv st" "mget (entries st) k = Some (Fin E)" "\<forall>(h, t) \<in> set evs. t < E"
    and "msize (entries st) + length evs \<le> maxEntries st"
  shows "mget (entries (replay_run st evs)) k = Some (Fin E)"
  using assms
proof (induction st evs rule: replay_run.induct)
  case (2 st h t evs)
  note s = consume_keeps [OF "2.prems"(1,2), of t h]
  from "2.IH" [OF consume_step(1) [OF "2.prems"(1)]] s "2.prems" consume_step(2) [OF "2.prems"(1), of h t]
  show ?case by auto
qed simp

lemma consume_ok_reserves:
  assumes "cache_inv st" "makeKey h = Some k" "snd (consume st h t) = Some ReplayOk"
  shows "\<exists>E. jnum_add (timestampMs h) (ttlMs h) = Fin E \<and> mget (entries (fst (consume st h t))) k = Some (Fin E)"
  using consume_cases [OF assms(1,2), of t] assms(3)
  by (auto split: option.splits jnum.splits if_splits)

lemma cache_inv_new [simp]: "cache_inv (new_replay_cache n)"
  by (simp add: cache_inv_def new_replay_cache_def heap_ordered_def)

lemma size_consume:
  assumes "cache_inv st" "0 < maxEntries st" "msize (entries st) \<le> maxEntries st"
  shows "msize (entries (fst (consume st h t))) \<le> maxEntries st"
proof (cases "makeKey h")
  case None
  then show ?thesis
    using size_live [of st t] prune_entries [OF assms(1)] consume_throw [OF None] assms(3) by (simp add: live_entries_def)
next
  case (Some k)
  have w: "wf_map (live_entries st t)" using assms(1) by (simp add: live_entries_def cache_inv_def wf_filter)
  have le: "msize (live_entries st t) \<le> maxEntries st" using size_live [of st t] assms(3) by linarith
  have evicted: "msize (mset_key (mdelete (live_entries st t) v) k (Fin E)) \<le> maxEntries st"
    if "mget (live_entries st t) v = Some e" "mget (live_entries st t) k = None" for v e E
    using that msize_mdelete [OF w, of v] mget_Some_size [OF that(1)] le by (auto simp: msize_mset_key)
  show ?thesis
  proof (cases "mget (live_entries st t) k")
    case None
    show ?thesis
      using consume_cases [OF assms(1) Some, of t] None evicted assms(2) le
      by (cases "jnum_add (timestampMs h) (ttlMs h)") (auto simp: msize_mset_key msize_def [of "[]"] split: if_splits)
  next
    case (Some e)
    then show ?thesis using consume_cases [OF assms(1) \<open>makeKey h = Some k\<close>, of t] le by simp
  qed
qed

section \<open>Properties\<close>

text \<open>Replay keys cannot collide across field boundaries: two envelopes with the same key have the same sender, messageId and nonce.\<close>

theorem replay_key_injective:
  assumes "makeKey h = Some k" "makeKey h' = Some k"
  shows "(sender h, messageId h, nonce h) = (sender h', messageId h', nonce h')"
  using makeKey_inj [OF assms] by simp

theorem replay_key_injective_witness:
  "\<exists>k. makeKey (demo_header 1 2) = Some k \<and> (sender (demo_header 1 2), nonce (demo_header 1 2)) = (sender (demo_header 5 6), nonce (demo_header 5 6))"
proof -
  have "\<exists>k. makeKey (demo_header 1 2) = Some k"
    by (simp add: makeKey_defined demo_header_def ascii_eval is_high_def is_low_def)
  then obtain k where k: "makeKey (demo_header 1 2) = Some k" ..
  moreover from k have "makeKey (demo_header 5 6) = Some k" by (simp add: makeKey_def demo_header_def)
  ultimately show ?thesis using replay_key_injective [of "demo_header 1 2" k "demo_header 5 6"] by simp
qed

text \<open>C21 The in-memory replay cache implements a bounded map from replay keys to expiries: consume keeps the invariant and the bound, answers a replay exactly for a key whose reservation is still ahead, refuses exactly the other envelopes whose timestamp + ttl is not finite, and accepts all the rest, reserving the key until timestamp + ttl; only when the map is full it gives up one reservation, one with the least expiry, and apart from that only the reservations that are over are dropped.\<close>

theorem replay_cache_refines_map:
  assumes "cache_inv st" "makeKey h = Some k"
  shows "let (st', r) = consume st h t; live = live_entries st t; held = (\<exists>e. mget (entries st) k = Some e \<and> Fin t < e) in
    cache_inv st' \<and> maxEntries st' = maxEntries st \<and>
    (r = Some ReplayDetected \<longleftrightarrow> held) \<and>
    (r = Some NonFiniteExpiry \<longleftrightarrow> \<not> held \<and> \<not> is_finite (jnum_add (timestampMs h) (ttlMs h))) \<and>
    (r = Some ReplayOk \<longleftrightarrow> \<not> held \<and> is_finite (jnum_add (timestampMs h) (ttlMs h))) \<and>
    (if r = Some ReplayOk
     then \<exists>E. jnum_add (timestampMs h) (ttlMs h) = Fin E \<and> mget (entries st') k = Some (Fin E) \<and>
       (if msize live < maxEntries st \<or> live = [] then entries st' = mset_key live k (Fin E)
        else \<exists>v e. mget live v = Some e \<and> (\<forall>x \<in> set live. e \<le> snd x) \<and> entries st' = mset_key (mdelete live v) k (Fin E))
     else entries st' = live)"
proof -
  note c = consume_cases [OF assms, of t]
  have l: "(\<exists>e. mget (live_entries st t) k = Some e) \<longleftrightarrow> (\<exists>e. mget (entries st) k = Some e \<and> Fin t < e)"
    using live_get [OF assms(1)] by blast
  show ?thesis
  proof (cases "mget (live_entries st t) k")
    case None
    then have "\<not> (\<exists>e. mget (entries st) k = Some e \<and> Fin t < e)" using l by simp
    with c None show ?thesis
      by (cases "jnum_add (timestampMs h) (ttlMs h)") (auto simp: case_prod_beta Let_def split: if_splits)
  qed (use c l in \<open>auto simp: case_prod_beta Let_def\<close>)
qed

theorem replay_cache_refines_map_witness:
  "let (st', r) = consume (new_replay_cache 2) (demo_header 5 10) 6; (st2, r2) = consume st' (demo_header 5 10) 7
   in r = Some ReplayOk \<and> r2 = Some ReplayDetected \<and> cache_inv st2"
proof -
  have "\<exists>k. makeKey (demo_header 5 10) = Some k"
    by (simp add: makeKey_defined demo_header_def ascii_eval is_high_def is_low_def)
  then obtain k where k: "makeKey (demo_header 5 10) = Some k" ..
  have e: "jnum_add (timestampMs (demo_header 5 10)) (ttlMs (demo_header 5 10)) = Fin 15" by (simp add: demo_header_def)
  obtain st' r where c: "consume (new_replay_cache 2) (demo_header 5 10) 6 = (st', r)" by (cases "consume (new_replay_cache 2) (demo_header 5 10) 6")
  have n: "mget (entries (new_replay_cache 2)) k = None" by (simp add: new_replay_cache_def)
  from replay_cache_refines_map [OF cache_inv_new k, of 2 6] c e n
  have r: "r = Some ReplayOk" "cache_inv st'" "mget (entries st') k = Some (Fin 15)" by (auto simp: Let_def)
  obtain st2 r2 where c2: "consume st' (demo_header 5 10) 7 = (st2, r2)" by (cases "consume st' (demo_header 5 10) 7")
  from replay_cache_refines_map [OF r(2) k, of 7] c2 r(3) have "r2 = Some ReplayDetected" "cache_inv st2"
    by (auto simp: Let_def less_jnum_def)
  with c r c2 show ?thesis by (simp add: Let_def)
qed

text \<open>C22 No replay while a message is alive: once the in-memory cache has accepted an envelope, every later envelope with the same sender, messageId and nonce is refused until the first one expires, whatever happens in between, as long as the cache has room for the calls made.\<close>

theorem no_replay_before_expiry:
  assumes "cache_inv st" "snd (consume st h t) = Some ReplayOk" "makeKey h = Some k"
    and "jnum_add (timestampMs h) (ttlMs h) = Fin E" "\<forall>(h'', t'') \<in> set evs. t'' < E"
    and "msize (entries st) + length evs < maxEntries st"
    and "makeKey h' = Some k" "t' < E"
  shows "snd (consume (replay_run (fst (consume st h t)) evs) h' t') = Some ReplayDetected"
proof -
  let ?st1 = "fst (consume st h t)"
  note s = consume_step [OF assms(1), of h t]
  have k: "mget (entries ?st1) k = Some (Fin E)"
    using consume_ok_reserves [OF assms(1,3,2)] assms(4) by simp
  have "msize (entries ?st1) \<le> Suc (msize (entries st))"
    using consume_cases [OF assms(1,3), of t] assms(2,4,6) size_live [of st t]
    by (auto simp: msize_mset_key split: option.splits)
  with assms(6) s(2) have "msize (entries ?st1) + length evs \<le> maxEntries ?st1" by simp
  from replay_run_keeps [OF s(1) k assms(5) this] have "mget (entries (replay_run ?st1 evs)) k = Some (Fin E)" .
  then have "mget (live_entries (replay_run ?st1 evs) t') k = Some (Fin E)"
    using live_get [OF replay_run_inv [OF s(1)]] assms(8) by simp
  with consume_cases [OF replay_run_inv [OF s(1)] assms(7), of evs t'] show ?thesis by simp
qed

theorem no_replay_before_expiry_witness:
  "snd (consume (replay_run (fst (consume (new_replay_cache 9) (demo_header 5 10) 6)) [(demo_header 5 10, 7)]) (demo_header 100 3) 8) = Some ReplayDetected"
proof -
  have "\<exists>k. makeKey (demo_header 5 10) = Some k"
    by (simp add: makeKey_defined demo_header_def ascii_eval is_high_def is_low_def)
  then obtain k where k: "makeKey (demo_header 5 10) = Some k" ..
  then have k': "makeKey (demo_header 100 3) = Some k" by (simp add: makeKey_def demo_header_def)
  have e: "jnum_add (timestampMs (demo_header 5 10)) (ttlMs (demo_header 5 10)) = Fin 15" by (simp add: demo_header_def)
  have ok: "snd (consume (new_replay_cache 9) (demo_header 5 10) 6) = Some ReplayOk"
    using consume_cases [OF cache_inv_new k, of 9 6] e by (simp add: new_replay_cache_def live_entries_def)
  show ?thesis
    by (rule no_replay_before_expiry [OF cache_inv_new ok k e _ _ k']) (auto simp: new_replay_cache_def msize_def)
qed

end
