(* ===== verification/RateLimiter.thy ===== *)
theory RateLimiter
  imports JsMap
begin

text \<open>
  \<open>SlidingWindowRateLimiter\<close> of \<open>src/rateLimiter.ts\<close>: per key the timestamps of the
  accepted calls, least recently used key first. \<open>check\<close> reads, \<open>consume\<close> records,
  and the three eviction loops bound the number of tracked keys. The lemmas show that a
  window never holds more than its quota, that \<open>consume\<close> and \<open>check\<close> agree, that the
  bound on keys holds after every call, and that an undisturbed key is limited exactly.
\<close>

record policy =
  requests :: int
  windowMs :: int

record limit_result =
  allowed :: bool
  remaining :: int
  resetMs :: int

record limiter =
  windows :: "(jstr, int list) jsmap"
  maxKeys :: nat

section \<open>Operations\<close>

definition in_window :: "limiter \<Rightarrow> jstr \<Rightarrow> policy \<Rightarrow> int \<Rightarrow> int list" where
  "in_window l key p nowMs =
    filter (\<lambda>t. nowMs - windowMs p < t) (case mget (windows l) key of None \<Rightarrow> [] | Some ts \<Rightarrow> ts)"

definition reset_after :: "int list \<Rightarrow> policy \<Rightarrow> int \<Rightarrow> int" where
  "reset_after ts p nowMs = (case ts of [] \<Rightarrow> 0 | t # _ \<Rightarrow> max 0 (t + windowMs p - nowMs))"

definition check :: "limiter \<Rightarrow> jstr \<Rightarrow> policy \<Rightarrow> int \<Rightarrow> limit_result" where
  "check l key p nowMs =
    (let ts = in_window l key p nowMs; used = int (length ts); ok = used < requests p in
     \<lparr>allowed = ok,
      remaining = max 0 (requests p - used - (if ok then 1 else 0)),
      resetMs = reset_after ts p nowMs\<rparr>)"

text \<open>
  One pass over the map in iteration order, deleting the keys the predicate selects as
  long as the map is over its bound; \<open>n\<close> is the current size.
\<close>

fun sweep :: "(jstr \<times> int list \<Rightarrow> bool) \<Rightarrow> jstr \<Rightarrow> nat \<Rightarrow> nat \<Rightarrow> (jstr, int list) jsmap \<Rightarrow> (jstr, int list) jsmap" where
  "sweep P key bound n [] = []"
| "sweep P key bound n (e # m) =
    (if n \<le> bound then e # m
     else if fst e = key then e # sweep P key bound n m
     else if P e then sweep P key bound (n - 1) m
     else e # sweep P key bound n m)"

fun drop_oldest :: "nat \<Rightarrow> (jstr, int list) jsmap \<Rightarrow> (jstr, int list) jsmap" where
  "drop_oldest bound [] = []"
| "drop_oldest bound (e # m) = (if bound < length (e # m) then drop_oldest bound m else e # m)"

definition evict :: "(jstr, int list) jsmap \<Rightarrow> nat \<Rightarrow> jstr \<Rightarrow> policy \<Rightarrow> int \<Rightarrow> (jstr, int list) jsmap" where
  "evict m bound key p nowMs =
    (let m1 = sweep (\<lambda>(k, ts). ts = [] \<or> last ts \<le> nowMs - windowMs p) key bound (msize m) m;
         m2 = sweep (\<lambda>(k, ts). int (length ts) < requests p) key bound (msize m1) m1
     in drop_oldest bound m2)"

definition limit_consume :: "limiter \<Rightarrow> jstr \<Rightarrow> policy \<Rightarrow> int \<Rightarrow> limiter \<times> limit_result" where
  "limit_consume l key p nowMs =
    (let ts0 = in_window l key p nowMs; ok = int (length ts0) < requests p;
         ts = (if ok then ts0 @ [nowMs] else ts0);
         m = (if ts \<noteq> [] then
                (let m1 = mset_key (mdelete (windows l) key) key ts in
                 if maxKeys l < msize m1 then evict m1 (maxKeys l) key p nowMs else m1)
              else mdelete (windows l) key)
     in (l\<lparr>windows := m\<rparr>,
         \<lparr>allowed = ok, remaining = max 0 (requests p - int (length ts)), resetMs = reset_after ts p nowMs\<rparr>))"

definition reset :: "limiter \<Rightarrow> jstr \<Rightarrow> limiter" where
  "reset l key = l\<lparr>windows := mdelete (windows l) key\<rparr>"

definition clear :: "limiter \<Rightarrow> limiter" where
  "clear l = l\<lparr>windows := []\<rparr>"

section \<open>Eviction\<close>

lemma sweep_subset: "set (sweep P key bound n m) \<subseteq> set m"
  by (induction P key bound n m rule: sweep.induct) auto

lemma sweep_keeps_key: "(key, ts) \<in> set m \<Longrightarrow> (key, ts) \<in> set (sweep P key bound n m)"
  by (induction P key bound n m rule: sweep.induct) auto

lemma sweep_keeps_spared: "e \<in> set m \<Longrightarrow> \<not> P e \<Longrightarrow> e \<in> set (sweep P key bound n m)"
  by (induction P key bound n m rule: sweep.induct) auto

lemma sweep_wf: "wf_map m \<Longrightarrow> wf_map (sweep P key bound n m)"
proof (induction P key bound n m rule: sweep.induct)
  case (2 P key bound n e m)
  then show ?case
    using sweep_subset [of P key bound n m] by (auto simp: wf_map_def)
qed simp

lemma drop_oldest_length: "length (drop_oldest bound m) = min bound (length m)"
  by (induction bound m rule: drop_oldest.induct) auto

lemma drop_oldest_drop: "drop_oldest bound m = drop (length m - bound) m"
  by (induction bound m rule: drop_oldest.induct) (auto simp: Suc_diff_le)

lemma drop_oldest_wf: "wf_map m \<Longrightarrow> wf_map (drop_oldest bound m)"
  by (simp add: drop_oldest_drop wf_map_def drop_map [symmetric] distinct_drop)

lemma evict_bound: "msize (evict m bound key p nowMs) \<le> bound"
  by (simp add: evict_def msize_def drop_oldest_length Let_def)

lemma evict_wf: "wf_map m \<Longrightarrow> wf_map (evict m bound key p nowMs)"
  by (simp add: evict_def Let_def sweep_wf drop_oldest_wf)

lemma evict_subset: "set (evict m bound key p nowMs) \<subseteq> set m"
proof -
  have "set (drop_oldest bound x) \<subseteq> set x" for x by (simp add: drop_oldest_drop set_drop_subset)
  then show ?thesis unfolding evict_def Let_def using sweep_subset by blast
qed

text \<open>The key just served is last in the map, so it survives any positive bound.\<close>

lemma sweep_last: "m \<noteq> [] \<Longrightarrow> fst (last m) = key \<Longrightarrow> sweep P key bound n m \<noteq> [] \<and> last (sweep P key bound n m) = last m"
  by (induction P key bound n m rule: sweep.induct) (auto split: if_splits)

lemma evict_keeps_served:
  assumes "0 < bound" "m \<noteq> []" "last m = (key, ts)"
  shows "(key, ts) \<in> set (evict m bound key p nowMs)"
proof -
  let ?m1 = "sweep (\<lambda>(k, ts). ts = [] \<or> last ts \<le> nowMs - windowMs p) key bound (msize m) m"
  let ?m2 = "sweep (\<lambda>(k, ts). int (length ts) < requests p) key bound (msize ?m1) ?m1"
  have 1: "?m1 \<noteq> [] \<and> last ?m1 = (key, ts)" using sweep_last [OF assms(2)] assms(3) by simp
  then have 2: "?m2 \<noteq> [] \<and> last ?m2 = (key, ts)" using sweep_last [of ?m1 key] by simp
  then have "drop (length ?m2 - bound) ?m2 \<noteq> []" using assms(1) by (cases ?m2) auto
  then show ?thesis
    using 2 by (metis (no_types, lifting) drop_oldest_drop evict_def last_drop last_in_set drop_eq_Nil not_le)
qed

section \<open>Invariants\<close>

definition limiter_inv :: "limiter \<Rightarrow> bool" where
  "limiter_inv l \<longleftrightarrow> wf_map (windows l) \<and> msize (windows l) \<le> maxKeys l \<and> (\<forall>(k, ts) \<in> set (windows l). ts \<noteq> [])"

lemma in_window_length: "length (in_window l key p t) \<le> length (case mget (windows l) key of None \<Rightarrow> [] | Some ts \<Rightarrow> ts)"
  by (simp add: in_window_def)

lemma served_inv:
  assumes "wf_map m" "\<forall>(k, ts) \<in> set m. ts \<noteq> []" "ts \<noteq> []"
  shows "wf_map (mset_key (mdelete m key) key ts)" "\<forall>(k, ts) \<in> set (mset_key (mdelete m key) key ts). ts \<noteq> []"
  using assms set_mset_key [of "mdelete m key" key ts] by (auto simp: wf_mset_key wf_mdelete set_mdelete)

lemma limit_consume_inv: "limiter_inv l \<Longrightarrow> limiter_inv (fst (limit_consume l key p t))"
proof -
  assume inv: "limiter_inv l"
  define ts where "ts = (if int (length (in_window l key p t)) < requests p then in_window l key p t @ [t] else in_window l key p t)"
  let ?m1 = "mset_key (mdelete (windows l) key) key ts"
  have fst: "fst (limit_consume l key p t) = l\<lparr>windows := if ts \<noteq> [] then
      (if maxKeys l < msize ?m1 then evict ?m1 (maxKeys l) key p t else ?m1) else mdelete (windows l) key\<rparr>"
    by (simp add: limit_consume_def Let_def ts_def)
  have d: "msize (mdelete (windows l) key) \<le> maxKeys l"
    using inv js_map.size_del_le [of "windows l" key] by (auto simp: limiter_inv_def)
  from inv have i: "wf_map (windows l)" "\<forall>(k, ts) \<in> set (windows l). ts \<noteq> []" by (auto simp: limiter_inv_def)
  show ?thesis
  proof (cases "ts = []")
    case True
    then show ?thesis using d i by (auto simp: fst limiter_inv_def wf_mdelete set_mdelete)
  next
    case False
    note s = served_inv [OF i False, of key]
    show ?thesis
      using False s evict_bound evict_wf [OF s(1)] evict_subset [of ?m1 "maxKeys l" key p t]
      by (auto simp: fst limiter_inv_def)
  qed
qed

text \<open>\<open>check\<close> predicts \<open>consume\<close>: same decision, same remaining allowance.\<close>

lemma check_predicts:
  "allowed (check l key p t) = allowed (snd (limit_consume l key p t))"
  "remaining (check l key p t) = remaining (snd (limit_consume l key p t))"
  by (auto simp: check_def limit_consume_def Let_def)

section \<open>The sliding window\<close>

text \<open>
  The specification: a call is accepted when fewer than \<open>requests\<close> accepted calls of its
  key lie in the window that ends now.
\<close>

type_synonym calls = "(jstr \<times> int) list"

definition times_of :: "jstr \<Rightarrow> calls \<Rightarrow> int list" where
  "times_of key A = map snd (filter (\<lambda>c. fst c = key) A)"

definition spec_allowed :: "calls \<Rightarrow> jstr \<Rightarrow> policy \<Rightarrow> int \<Rightarrow> bool" where
  "spec_allowed A key p t \<longleftrightarrow> int (length (filter (\<lambda>u. t - windowMs p < u) (times_of key A))) < requests p"

fun spec_run :: "policy \<Rightarrow> calls \<Rightarrow> calls \<Rightarrow> bool list" where
  "spec_run p A [] = []"
| "spec_run p A ((key, t) # cs) =
    (let ok = spec_allowed A key p t in ok # spec_run p (if ok then A @ [(key, t)] else A) cs)"

fun limit_run :: "policy \<Rightarrow> limiter \<Rightarrow> calls \<Rightarrow> bool list" where
  "limit_run p l [] = []"
| "limit_run p l ((key, t) # cs) =
    (let (l1, r) = limit_consume l key p t in allowed r # limit_run p l1 cs)"

text \<open>The simulation relation; T is the time of the last call.\<close>

definition tracks :: "jstr set \<Rightarrow> policy \<Rightarrow> limiter \<Rightarrow> calls \<Rightarrow> int \<Rightarrow> bool" where
  "tracks K p l A T \<longleftrightarrow> limiter_inv l \<and> fst ` set (windows l) \<subseteq> K \<and>
    (\<forall>key c. T - windowMs p \<le> c \<longrightarrow>
      filter (\<lambda>u. c < u) (case mget (windows l) key of None \<Rightarrow> [] | Some ts \<Rightarrow> ts) = filter (\<lambda>u. c < u) (times_of key A))"

lemma msize_keys: "wf_map m \<Longrightarrow> finite K \<Longrightarrow> fst ` set m \<subseteq> K \<Longrightarrow> msize m \<le> card K"
  by (metis card_mono distinct_card length_map list.set_map msize_def wf_map_def)

lemma filter_later: "s \<le> c \<Longrightarrow> filter (\<lambda>u. c < u) (filter (\<lambda>u. (s :: int) < u) xs) = filter (\<lambda>u. c < u) xs"
  by (induction xs) auto

lemma times_of_snoc: "times_of k (A @ [(key, t)]) = (if k = key then times_of k A @ [t] else times_of k A)"
  by (simp add: times_of_def)

lemma tracks_step:
  assumes "tracks K p l A T" "finite K" "card K \<le> maxKeys l" "key \<in> K" "T \<le> t"
  shows "allowed (snd (limit_consume l key p t)) = spec_allowed A key p t"
    and "tracks K p (fst (limit_consume l key p t)) (if spec_allowed A key p t then A @ [(key, t)] else A) t"
    and "maxKeys (fst (limit_consume l key p t)) = maxKeys l"
proof -
  let ?old = "case mget (windows l) key of None \<Rightarrow> [] | Some ts \<Rightarrow> ts"
  let ?w = "in_window l key p t"
  from assms(1) have inv: "limiter_inv l" and K: "fst ` set (windows l) \<subseteq> K"
    and f: "\<And>k c. T - windowMs p \<le> c \<Longrightarrow>
      filter (\<lambda>u. c < u) (case mget (windows l) k of None \<Rightarrow> [] | Some ts \<Rightarrow> ts) = filter (\<lambda>u. c < u) (times_of k A)"
    by (auto simp: tracks_def)
  have w: "?w = filter (\<lambda>u. t - windowMs p < u) (times_of key A)"
    using f [of "t - windowMs p" key] assms(5) by (simp add: in_window_def)
  have ok: "allowed (snd (limit_consume l key p t)) = (int (length ?w) < requests p)"
    by (simp add: limit_consume_def Let_def)
  then show ok': "allowed (snd (limit_consume l key p t)) = spec_allowed A key p t"
    by (simp add: w spec_allowed_def)
  show "maxKeys (fst (limit_consume l key p t)) = maxKeys l"
    by (simp add: limit_consume_def Let_def)
  define ts where "ts = (if spec_allowed A key p t then ?w @ [t] else ?w)"
  define m where "m = (if ts \<noteq> [] then mset_key (mdelete (windows l) key) key ts else mdelete (windows l) key)"
  have keys: "fst ` set m \<subseteq> K"
    using K assms(4) set_mset_key_keys [of "mdelete (windows l) key" key ts] by (auto simp: m_def set_mdelete)
  have wf: "wf_map m" using inv by (simp add: m_def wf_mset_key wf_mdelete limiter_inv_def)
  have "msize m \<le> maxKeys l" using msize_keys [OF wf assms(2) keys] assms(3) by simp
  then have fst: "fst (limit_consume l key p t) = l\<lparr>windows := m\<rparr>"
    using ok ok' by (auto simp: limit_consume_def Let_def ts_def m_def)
  have get: "(case mget m k of None \<Rightarrow> [] | Some ts \<Rightarrow> ts) = (if k = key then ts else case mget (windows l) k of None \<Rightarrow> [] | Some ts \<Rightarrow> ts)" for k
    by (simp add: m_def)
  have "filter (\<lambda>u. c < u) (if k = key then ts else case mget (windows l) k of None \<Rightarrow> [] | Some ts \<Rightarrow> ts)
      = filter (\<lambda>u. c < u) (times_of k (if spec_allowed A key p t then A @ [(key, t)] else A))"
    if "t - windowMs p \<le> c" for k c
    using f [of c k] that assms(5) filter_later [OF that, of "times_of key A"]
    by (simp add: ts_def w times_of_snoc)
  then show "tracks K p (fst (limit_consume l key p t)) (if spec_allowed A key p t then A @ [(key, t)] else A) t"
    using limit_consume_inv [OF inv, of key p t] keys by (simp add: tracks_def fst get)
qed

lemma limit_run_spec:
  assumes "tracks K p l A T" "finite K" "card K \<le> maxKeys l" "fst ` set cs \<subseteq> K" "sorted (T # map snd cs)"
  shows "limit_run p l cs = spec_run p A cs"
  using assms
proof (induction cs arbitrary: l A T)
  case (Cons c cs)
  obtain key t where c: "c = (key, t)" by (cases c)
  from Cons.prems c have k: "key \<in> K" "T \<le> t" by auto
  note s = tracks_step [OF Cons.prems(1-3) k]
  from Cons.IH [OF s(2) Cons.prems(2)] s(1,3) Cons.prems c show ?case
    by (simp add: Let_def case_prod_beta)
qed simp

lemma tracks_empty: "tracks K p \<lparr>windows = [], maxKeys = n\<rparr> [] T"
  by (simp add: tracks_def limiter_inv_def msize_def times_of_def)

text \<open>The specification never accepts more than the quota inside any window.\<close>

fun accepted :: "policy \<Rightarrow> calls \<Rightarrow> calls \<Rightarrow> calls" where
  "accepted p A [] = A"
| "accepted p A ((key, t) # cs) = accepted p (if spec_allowed A key p t then A @ [(key, t)] else A) cs"

definition quota_kept :: "policy \<Rightarrow> calls \<Rightarrow> bool" where
  "quota_kept p A \<longleftrightarrow> (\<forall>key s. int (length (filter (\<lambda>u. s - windowMs p < u \<and> u \<le> s) (times_of key A))) \<le> max 0 (requests p))"

lemma quota_step:
  assumes "quota_kept p A" "\<forall>u \<in> snd ` set A. u \<le> t" "spec_allowed A key p t"
  shows "quota_kept p (A @ [(key, t)])"
  unfolding quota_kept_def
proof (intro allI)
  fix k s
  have old: "int (length (filter (\<lambda>u. s - windowMs p < u \<and> u \<le> s) (times_of k A))) \<le> max 0 (requests p)"
    using assms(1) by (simp add: quota_kept_def)
  have "length (filter (\<lambda>u. s - windowMs p < u \<and> u \<le> s) (times_of k A)) \<le> length (filter (\<lambda>u. t - windowMs p < u) (times_of k A))"
    if "t \<le> s"
  proof -
    have "length (filter P xs) \<le> length (filter Q xs)" if "\<And>x. P x \<Longrightarrow> Q x" for P Q and xs :: "int list"
      using that by (induction xs) auto
    then show ?thesis using that by force
  qed
  then show "int (length (filter (\<lambda>u. s - windowMs p < u \<and> u \<le> s) (times_of k (A @ [(key, t)])))) \<le> max 0 (requests p)"
    using old assms(3) by (auto simp: times_of_snoc spec_allowed_def)
qed

lemma accepted_quota:
  assumes "quota_kept p A" "\<forall>u \<in> snd ` set A. u \<le> T" "sorted (T # map snd cs)"
  shows "quota_kept p (accepted p A cs)"
  using assms
proof (induction cs arbitrary: A T)
  case (Cons c cs)
  obtain key t where c: "c = (key, t)" by (cases c)
  from Cons.prems c have "\<forall>u \<in> snd ` set A. u \<le> t" by auto
  with Cons.prems c quota_step [OF Cons.prems(1) this] show ?case
    by (auto intro!: Cons.IH [where T = t])
qed simp

fun accepted_calls :: "calls \<Rightarrow> bool list \<Rightarrow> calls" where
  "accepted_calls (c # cs) (b # bs) = (if b then c # accepted_calls cs bs else accepted_calls cs bs)"
| "accepted_calls _ _ = []"

lemma accepted_spec: "accepted p A cs = A @ accepted_calls cs (spec_run p A cs)"
  by (induction cs arbitrary: A) (auto simp: Let_def)

lemma quota_empty [simp]: "quota_kept p []"
  by (simp add: quota_kept_def times_of_def)

section \<open>Properties\<close>

text \<open>C26 The sliding-window limiter is exact: starting empty, with a non-decreasing clock and at most maxKeys different keys, it accepts a call exactly when fewer than the quota of accepted calls of its key lie in the window ending now, and in no window of that length does a key get more accepted calls than its quota.\<close>

theorem rate_limit_exact:
  assumes "sorted (map snd calls)" "card (fst ` set calls) \<le> n"
  shows "limit_run p \<lparr>windows = [], maxKeys = n\<rparr> calls = spec_run p [] calls \<and>
    int (length (filter (\<lambda>u. s - windowMs p < u \<and> u \<le> s)
      (times_of key (accepted_calls calls (limit_run p \<lparr>windows = [], maxKeys = n\<rparr> calls))))) \<le> max 0 (requests p)"
proof
  define T where "T = (case calls of [] \<Rightarrow> 0 | c # _ \<Rightarrow> snd c)"
  have s: "sorted (T # map snd calls)" using assms(1) by (cases calls) (auto simp: T_def)
  show r: "limit_run p \<lparr>windows = [], maxKeys = n\<rparr> calls = spec_run p [] calls"
    by (rule limit_run_spec [OF tracks_empty _ _ order_refl s]) (use assms(2) in auto)
  have "quota_kept p (accepted p [] calls)" by (rule accepted_quota [OF _ _ s]) auto
  then show "int (length (filter (\<lambda>u. s - windowMs p < u \<and> u \<le> s)
      (times_of key (accepted_calls calls (limit_run p \<lparr>windows = [], maxKeys = n\<rparr> calls))))) \<le> max 0 (requests p)"
    unfolding r by (simp add: accepted_spec quota_kept_def)
qed

theorem rate_limit_exact_witness:
  "limit_run \<lparr>requests = 1, windowMs = 10\<rparr> \<lparr>windows = [], maxKeys = 2\<rparr> [(js ''a'', 1), (js ''b'', 2), (js ''a'', 5), (js ''a'', 11)]
    = [True, True, False, True]"
proof -
  have "limit_run \<lparr>requests = 1, windowMs = 10\<rparr> \<lparr>windows = [], maxKeys = 2\<rparr> [(js ''a'', 1), (js ''b'', 2), (js ''a'', 5), (js ''a'', 11)]
    = spec_run \<lparr>requests = 1, windowMs = 10\<rparr> [] [(js ''a'', 1), (js ''b'', 2), (js ''a'', 5), (js ''a'', 11)]"
    by (rule rate_limit_exact [THEN conjunct1]) (auto simp: card_insert_if)
  then show ?thesis by (simp add: spec_allowed_def times_of_def Let_def)
qed

text \<open>After every call the limiter tracks at most maxKeys keys, no empty window is stored, and check predicts the decision and the remaining allowance of the consume that would follow.\<close>

theorem rate_limiter_bounded:
  assumes "limiter_inv l"
  shows "msize (windows (fst (limit_consume l key p t))) \<le> maxKeys l \<and> limiter_inv (fst (limit_consume l key p t)) \<and>
    allowed (check l key p t) = allowed (snd (limit_consume l key p t)) \<and>
    remaining (check l key p t) = remaining (snd (limit_consume l key p t))"
  using limit_consume_inv [OF assms, of key p t] check_predicts [of l key p t]
  by (simp add: limiter_inv_def) (simp add: limit_consume_def Let_def)

theorem rate_limiter_bounded_witness:
  "msize (windows (fst (limit_consume \<lparr>windows = [(js ''a'', [1])], maxKeys = 1\<rparr> (js ''b'') \<lparr>requests = 1, windowMs = 10\<rparr> 5))) \<le> 1"
  using rate_limiter_bounded [of "\<lparr>windows = [(js ''a'', [1])], maxKeys = 1\<rparr>" "js ''b''" "\<lparr>requests = 1, windowMs = 10\<rparr>" 5]
  by (simp add: limiter_inv_def wf_map_def msize_def)

end
