(* ===== verification/ReplayStores.thy ===== *)
theory ReplayStores
  imports Replay
begin

text \<open>
  The shared replay stores: \<open>InMemoryRedisLikeClient\<close> (\<open>src/redisClient.ts\<close>), and
  \<open>RedisReplayStore\<close>, \<open>ClusterRedisReplayStore\<close>, \<open>MemoryReplayStore\<close> and the degrading
  distributed store of \<open>src/replayStores.ts\<close>, with \<open>DistributedReplayCache\<close> of
  \<open>src/protocolReplay.ts\<close> on top. The locale \<open>replay_store\<close> is the contract the gateway and
  the transport rely on; every store that honours it is an interpretation. The clock is
  an argument of each call and read once per call.
\<close>

section \<open>The contract\<close>

text \<open>
  \<open>mark st k ttl now\<close> answers True for a key seen for the first time; \<open>holds st k t\<close>
  says the key is still remembered at time t.
\<close>

locale replay_store =
  fixes mark :: "'st \<Rightarrow> jstr \<Rightarrow> jnum \<Rightarrow> int \<Rightarrow> 'st \<times> bool"
    and holds :: "'st \<Rightarrow> jstr \<Rightarrow> int \<Rightarrow> bool"
    and invar :: "'st \<Rightarrow> bool"
  assumes invar_mark: "invar st \<Longrightarrow> invar (fst (mark st k ttl now))"
    and held_refused: "invar st \<Longrightarrow> holds st k now \<Longrightarrow> \<not> snd (mark st k ttl now)"
    and fresh_held: "invar st \<Longrightarrow> snd (mark st k (Fin n) now) \<Longrightarrow> t < now + n \<Longrightarrow> holds (fst (mark st k (Fin n) now)) k t"
    and held_kept: "invar st \<Longrightarrow> holds st k t \<Longrightarrow> now \<le> t \<Longrightarrow> holds (fst (mark st k' ttl now)) k t"
begin

fun mark_run :: "'st \<Rightarrow> (jstr \<times> jnum \<times> int) list \<Rightarrow> 'st" where
  "mark_run st [] = st"
| "mark_run st ((k, ttl, now) # evs) = mark_run (fst (mark st k ttl now)) evs"

lemma run_keeps: "invar st \<Longrightarrow> holds st k t \<Longrightarrow> \<forall>(k', ttl, now) \<in> set evs. now \<le> t \<Longrightarrow> invar (mark_run st evs) \<and> holds (mark_run st evs) k t"
  by (induction st evs rule: mark_run.induct) (auto intro: invar_mark held_kept)

lemma no_replay:
  assumes "invar st" "snd (mark st k (Fin n) now)" "\<forall>(k', ttl, now') \<in> set evs. now' \<le> t" "t < now + n"
  shows "\<not> snd (mark (mark_run (fst (mark st k (Fin n) now)) evs) k ttl' t)"
  using run_keeps [OF invar_mark [OF assms(1)] fresh_held [OF assms(1,2,4)] assms(3)] held_refused by blast

end

section \<open>The in-memory Redis client\<close>

record redis_entry =
  stored :: jstr
  expiresAt :: "jnum option"

type_synonym redis = "(jstr, redis_entry) jsmap"

definition redis_live :: "redis \<Rightarrow> jstr \<Rightarrow> int \<Rightarrow> redis \<times> redis_entry option" where
  "redis_live r key now =
    (case mget r key of
       None \<Rightarrow> (r, None)
     | Some entry \<Rightarrow>
         (case expiresAt entry of
            Some e \<Rightarrow> if jnum_le e (Fin now) then (mdelete r key, None) else (r, Some entry)
          | None \<Rightarrow> (r, Some entry)))"

record set_options =
  nx :: bool
  pxMs :: "jnum option"

text \<open>The Boolean is \<open>'OK'\<close>.\<close>

definition redis_set :: "redis \<Rightarrow> jstr \<Rightarrow> jstr \<Rightarrow> set_options \<Rightarrow> int \<Rightarrow> redis \<times> bool" where
  "redis_set r key v opts now =
    (let (r1, blocked) = (if nx opts then (let (r1, e) = redis_live r key now in (r1, e \<noteq> None)) else (r, False)) in
     if blocked then (r1, False)
     else (mset_key r1 key \<lparr>stored = v, expiresAt = map_option (jnum_add (Fin now)) (pxMs opts)\<rparr>, True))"

definition redis_get :: "redis \<Rightarrow> jstr \<Rightarrow> int \<Rightarrow> redis \<times> jstr option" where
  "redis_get r key now = (let (r1, e) = redis_live r key now in (r1, map_option stored e))"

definition redis_del :: "redis \<Rightarrow> jstr \<Rightarrow> int \<Rightarrow> redis \<times> nat" where
  "redis_del r key now = (let (r1, e) = redis_live r key now in (mdelete r1 key, if e \<noteq> None then 1 else 0))"

fun redis_exec :: "redis \<Rightarrow> (jstr \<times> jstr \<times> set_options) list \<Rightarrow> int \<Rightarrow> redis \<times> bool list" where
  "redis_exec r [] now = (r, [])"
| "redis_exec r ((key, v, opts) # cmds) now =
    (let (r1, ok) = redis_set r key v opts now; (r2, oks) = redis_exec r1 cmds now in (r2, ok # oks))"

definition redis_holds :: "redis \<Rightarrow> jstr \<Rightarrow> int \<Rightarrow> bool" where
  "redis_holds r key t \<longleftrightarrow> snd (redis_live r key t) \<noteq> None"

lemma redis_holds_iff:
  "redis_holds r key t \<longleftrightarrow> (\<exists>e. mget r key = Some e \<and> (\<forall>x. expiresAt e = Some x \<longrightarrow> \<not> jnum_le x (Fin t)))"
  by (auto simp: redis_holds_def redis_live_def split: option.splits if_splits)

text \<open>\<open>SET key value NX PX\<close> answers OK exactly when the key is not held.\<close>

lemma redis_set_nx_ok: "nx opts \<Longrightarrow> snd (redis_set r key v opts now) \<longleftrightarrow> \<not> redis_holds r key now"
  by (auto simp: redis_set_def redis_holds_def case_prod_beta Let_def)

lemma jnum_le_trans_int: "jnum_le x (Fin s) \<Longrightarrow> s \<le> t \<Longrightarrow> jnum_le x (Fin t)"
  by (cases x) (auto simp: jnum_le_iff)

lemma redis_set_fresh_held:
  assumes "nx opts" "pxMs opts = Some (Fin n)" "snd (redis_set r key v opts now)" "t < now + n"
  shows "redis_holds (fst (redis_set r key v opts now)) key t"
  using assms by (auto simp: redis_set_def redis_holds_iff case_prod_beta Let_def split: if_splits)

lemma redis_set_kept:
  assumes "nx opts" "redis_holds r key t" "now \<le> t"
  shows "redis_holds (fst (redis_set r key' v opts now)) key t"
proof -
  from assms(2) obtain e where e: "mget r key = Some e" "\<forall>x. expiresAt e = Some x \<longrightarrow> \<not> jnum_le x (Fin t)"
    by (auto simp: redis_holds_iff)
  then have n: "\<forall>x. expiresAt e = Some x \<longrightarrow> \<not> jnum_le x (Fin now)" using jnum_le_trans_int assms(3) by blast
  have "mget (fst (redis_set r key' v opts now)) key = Some e"
    using e(1) n assms(1)
    by (cases "key' = key") (auto simp: redis_set_def redis_live_def Let_def split: option.splits if_splits)
  with e(2) show ?thesis by (simp add: redis_holds_iff)
qed

section \<open>RedisReplayStore\<close>

definition max_one :: "jnum \<Rightarrow> jnum" where
  "max_one n = (if n = NaN then NaN else if jnum_less (Fin 1) n then n else Fin 1)"

record redis_replay_store =
  keyPrefix :: jstr
  client :: redis

text \<open>\<open>check\<close> answers True for a replay.\<close>

definition redis_check :: "redis_replay_store \<Rightarrow> jstr \<Rightarrow> jnum \<Rightarrow> int \<Rightarrow> redis_replay_store \<times> bool" where
  "redis_check s key ttl now =
    (let (r, ok) = redis_set (client s) (keyPrefix s @ key) (js ''1'') \<lparr>nx = True, pxMs = Some (max_one ttl)\<rparr> now
     in (s\<lparr>client := r\<rparr>, \<not> ok))"

definition redis_mark :: "redis_replay_store \<Rightarrow> jstr \<Rightarrow> jnum \<Rightarrow> int \<Rightarrow> redis_replay_store \<times> bool" where
  "redis_mark s key ttl now = map_prod id Not (redis_check s key ttl now)"

definition store_holds :: "redis_replay_store \<Rightarrow> jstr \<Rightarrow> int \<Rightarrow> bool" where
  "store_holds s key t \<longleftrightarrow> redis_holds (client s) (keyPrefix s @ key) t"

lemma max_one_Fin: "\<exists>m. max_one (Fin n) = Fin m \<and> n \<le> m \<and> 1 \<le> m"
  by (cases "1 < n") (auto simp: max_one_def jnum_less_iff)

lemma redis_check_snd: "snd (redis_check s key ttl now) \<longleftrightarrow> store_holds s key now"
  by (simp add: redis_check_def case_prod_beta Let_def redis_set_nx_ok store_holds_def)

lemma redis_check_kept: "store_holds s key t \<Longrightarrow> now \<le> t \<Longrightarrow> store_holds (fst (redis_check s key' ttl now)) key t"
  by (simp add: redis_check_def store_holds_def case_prod_beta Let_def redis_set_kept)

lemma redis_check_fresh:
  assumes "\<not> snd (redis_check s key (Fin n) now)" "t < now + n"
  shows "store_holds (fst (redis_check s key (Fin n) now)) key t"
proof -
  obtain m where m: "max_one (Fin n) = Fin m" "n \<le> m" using max_one_Fin by blast
  then show ?thesis
    using redis_set_fresh_held [of "\<lparr>nx = True, pxMs = Some (Fin m)\<rparr>" m "client s" "keyPrefix s @ key" "js ''1''" now t] assms
    by (simp add: redis_check_def store_holds_def case_prod_beta Let_def)
qed

interpretation redis_store: replay_store redis_mark store_holds "\<lambda>s. True"
  by unfold_locales (auto simp: redis_mark_def redis_check_snd redis_check_kept redis_check_fresh)

section \<open>ClusterRedisReplayStore\<close>

definition cluster_check :: "redis_replay_store list \<Rightarrow> jstr \<Rightarrow> jnum \<Rightarrow> int \<Rightarrow> redis_replay_store list \<times> bool" where
  "cluster_check nodes key ttl now =
    (let results = map (\<lambda>node. redis_check node key ttl now) nodes in (map fst results, \<exists>r \<in> set results. snd r))"

definition cluster_mark :: "redis_replay_store list \<Rightarrow> jstr \<Rightarrow> jnum \<Rightarrow> int \<Rightarrow> redis_replay_store list \<times> bool" where
  "cluster_mark nodes key ttl now = map_prod id Not (cluster_check nodes key ttl now)"

definition cluster_holds :: "redis_replay_store list \<Rightarrow> jstr \<Rightarrow> int \<Rightarrow> bool" where
  "cluster_holds nodes key t \<longleftrightarrow> (\<exists>n \<in> set nodes. store_holds n key t)"

interpretation cluster_store: replay_store cluster_mark cluster_holds "\<lambda>nodes. nodes \<noteq> []"
proof unfold_locales
  fix nodes :: "redis_replay_store list" and k n now t
  assume "nodes \<noteq> []" "snd (cluster_mark nodes k (Fin n) now)" "t < now + n"
  then show "cluster_holds (fst (cluster_mark nodes k (Fin n) now)) k t"
    by (cases nodes) (auto simp: cluster_mark_def cluster_check_def cluster_holds_def Let_def intro: redis_check_fresh)
next
  fix nodes :: "redis_replay_store list" and k t now k' ttl
  assume "cluster_holds nodes k t" "now \<le> t"
  then obtain n where "n \<in> set nodes" "store_holds (fst (redis_check n k' ttl now)) k t"
    using redis_check_kept by (auto simp: cluster_holds_def)
  then show "cluster_holds (fst (cluster_mark nodes k' ttl now)) k t"
    by (auto simp: cluster_mark_def cluster_check_def cluster_holds_def Let_def)
qed (auto simp: cluster_mark_def cluster_check_def cluster_holds_def Let_def redis_check_snd)

section \<open>MemoryReplayStore\<close>

record memory_store =
  mem_entries :: "(jstr, int) jsmap"
  mem_max :: nat

definition mem_prune :: "memory_store \<Rightarrow> int \<Rightarrow> memory_store" where
  "mem_prune s now = s\<lparr>mem_entries := filter (\<lambda>e. \<not> snd e \<le> now) (mem_entries s)\<rparr>"

text \<open>\<open>None\<close>: \<open>check\<close> throws on a ttl that is not a positive finite number.\<close>

definition mem_check :: "memory_store \<Rightarrow> jstr \<Rightarrow> jnum \<Rightarrow> int \<Rightarrow> memory_store \<times> bool option" where
  "mem_check s key ttl now =
    (case ttl of
       Fin ttl \<Rightarrow>
         if ttl \<le> 0 then (s, None)
         else if (case mget (mem_entries s) key of Some e \<Rightarrow> now < e | None \<Rightarrow> False) then (s, Some True)
         else let s1 = (if mem_max s \<le> msize (mem_entries s) then mem_prune s now else s) in
           if mem_max s1 \<le> msize (mem_entries s1) then (s1, Some True)
           else (s1\<lparr>mem_entries := mset_key (mem_entries s1) key (now + ttl)\<rparr>, Some False)
     | _ \<Rightarrow> (s, None))"

definition mem_size :: "memory_store \<Rightarrow> int \<Rightarrow> memory_store \<times> nat" where
  "mem_size s now = (let s1 = mem_prune s now in (s1, msize (mem_entries s1)))"

definition mem_mark :: "memory_store \<Rightarrow> jstr \<Rightarrow> jnum \<Rightarrow> int \<Rightarrow> memory_store \<times> bool" where
  "mem_mark s key ttl now = map_prod id (\<lambda>r. r = Some False) (mem_check s key ttl now)"

definition mem_holds :: "memory_store \<Rightarrow> jstr \<Rightarrow> int \<Rightarrow> bool" where
  "mem_holds s key t \<longleftrightarrow> (case mget (mem_entries s) key of Some e \<Rightarrow> t < e | None \<Rightarrow> False)"

definition mem_inv :: "memory_store \<Rightarrow> bool" where
  "mem_inv s \<longleftrightarrow> wf_map (mem_entries s) \<and> msize (mem_entries s) \<le> mem_max s"

lemma mem_prune_get:
  "mem_inv s \<Longrightarrow> mget (mem_entries (mem_prune s now)) k = Some e \<longleftrightarrow> mget (mem_entries s) k = Some e \<and> now < e"
  by (auto simp: mem_prune_def mem_inv_def mget_filter split: option.splits)

lemma mem_prune_inv: "mem_inv s \<Longrightarrow> mem_inv (mem_prune s now) \<and> mem_max (mem_prune s now) = mem_max s"
  by (auto simp: mem_inv_def mem_prune_def wf_filter msize_def intro: order_trans [OF length_filter_le])

lemma mem_check_inv: "mem_inv s \<Longrightarrow> mem_inv (fst (mem_check s k ttl now))"
  using mem_prune_inv [of s now]
  by (auto simp: mem_check_def Let_def mem_inv_def wf_mset_key msize_mset_key split: jnum.split option.split)

lemma mem_kept:
  assumes "mem_inv s" "mem_holds s k t" "now \<le> t"
  shows "mem_holds (fst (mem_check s k' ttl now)) k t"
proof -
  from assms(2) obtain e where e: "mget (mem_entries s) k = Some e" "t < e" by (auto simp: mem_holds_def split: option.splits)
  have p: "mget (mem_entries (mem_prune s now)) k = Some e" using mem_prune_get [OF assms(1)] e assms(3) by simp
  show ?thesis
    using e p assms(3)
    by (cases ttl; cases "k' = k") (auto simp: mem_check_def mem_holds_def Let_def split: option.splits if_splits)
qed

interpretation memory_replay: replay_store mem_mark mem_holds mem_inv
proof unfold_locales
  fix s k n now t
  assume "mem_inv s" "snd (mem_mark s k (Fin n) now)" "t < now + n"
  then show "mem_holds (fst (mem_mark s k (Fin n) now)) k t"
    by (auto simp: mem_mark_def mem_check_def mem_holds_def Let_def split: if_splits option.splits)
next
  fix s k now ttl
  assume "mem_holds s k now"
  then show "\<not> snd (mem_mark s k ttl now)"
    by (cases ttl) (auto simp: mem_mark_def mem_check_def mem_holds_def Let_def split: option.splits)
qed (simp_all add: mem_mark_def mem_check_inv mem_kept)

section \<open>The degrading distributed store\<close>

text \<open>
  \<open>_createDistributedReplayStore\<close> over a client that may fail: \<open>outage\<close> says whether the
  call to the client throws. The fallback is the default one, a store of the same prefix
  over its own in-memory client, which never throws.
\<close>

datatype error_behavior = Fallback | Reject | Allow

record dist_store =
  dprefix :: jstr
  behavior :: error_behavior
  dclient :: redis
  dfallback :: redis
  has_pipeline :: bool

definition reserve_opts :: "jnum \<Rightarrow> int \<Rightarrow> set_options" where
  "reserve_opts expiresAtMs now = \<lparr>nx = True, pxMs = Some (max_one (jnum_add expiresAtMs (Fin (- now))))\<rparr>"

definition degrade :: "dist_store \<Rightarrow> jstr \<Rightarrow> jnum \<Rightarrow> int \<Rightarrow> dist_store \<times> bool" where
  "degrade d key expiresAtMs now =
    (case behavior d of
       Allow \<Rightarrow> (d, True)
     | Reject \<Rightarrow> (d, False)
     | Fallback \<Rightarrow>
         (let (r, ok) = redis_set (dfallback d) (dprefix d @ key) (js ''1'') (reserve_opts expiresAtMs now) now
          in (d\<lparr>dfallback := r\<rparr>, ok)))"

definition reserve :: "dist_store \<Rightarrow> bool \<Rightarrow> jstr \<Rightarrow> jnum \<Rightarrow> int \<Rightarrow> dist_store \<times> bool" where
  "reserve d outage key expiresAtMs now =
    (if outage then degrade d key expiresAtMs now
     else let (r, ok) = redis_set (dclient d) (dprefix d @ key) (js ''1'') (reserve_opts expiresAtMs now) now
       in (d\<lparr>dclient := r\<rparr>, ok))"

fun degrade_all :: "dist_store \<Rightarrow> (jstr \<times> jnum) list \<Rightarrow> int \<Rightarrow> dist_store \<times> bool list" where
  "degrade_all d [] now = (d, [])"
| "degrade_all d ((key, e) # es) now =
    (let (d1, ok) = degrade d key e now; (d2, oks) = degrade_all d1 es now in (d2, ok # oks))"

fun reserve_all :: "dist_store \<Rightarrow> bool \<Rightarrow> (jstr \<times> jnum) list \<Rightarrow> int \<Rightarrow> dist_store \<times> bool list" where
  "reserve_all d outage [] now = (d, [])"
| "reserve_all d outage ((key, e) # es) now =
    (let (d1, ok) = reserve d outage key e now; (d2, oks) = reserve_all d1 outage es now in (d2, ok # oks))"

definition reserveMany :: "dist_store \<Rightarrow> bool \<Rightarrow> (jstr \<times> jnum) list \<Rightarrow> int \<Rightarrow> dist_store \<times> bool list" where
  "reserveMany d outage es now =
    (if es = [] then (d, [])
     else if has_pipeline d then
       (if outage then degrade_all d es now
        else let (r, oks) = redis_exec (dclient d)
                   (map (\<lambda>(key, e). (dprefix d @ key, js ''1'', reserve_opts e now)) es) now
             in (d\<lparr>dclient := r\<rparr>, oks))
     else reserve_all d outage es now)"

text \<open>The batch behaves like the entries reserved one after another, outage or not.\<close>

lemma degrade_all_eq: "degrade_all d es now = reserve_all d True es now"
  by (induction es arbitrary: d) (auto simp: reserve_def split: prod.splits)

lemma redis_exec_eq:
  "reserve_all d False es now =
    (let (r, oks) = redis_exec (dclient d) (map (\<lambda>(key, e). (dprefix d @ key, js ''1'', reserve_opts e now)) es) now
     in (d\<lparr>dclient := r\<rparr>, oks))"
  by (induction es arbitrary: d) (auto simp: reserve_def case_prod_beta Let_def)

lemma reserveMany_eq: "reserveMany d outage es now = reserve_all d outage es now"
  by (cases es; cases outage; cases "has_pipeline d")
    (simp_all only: reserveMany_def degrade_all_eq redis_exec_eq simp_thms if_True if_False list.distinct reserve_all.simps(1))

section \<open>DistributedReplayCache\<close>

definition dist_consume :: "dist_store \<Rightarrow> bool \<Rightarrow> header \<Rightarrow> int \<Rightarrow> dist_store \<times> replay_result option" where
  "dist_consume d outage h now =
    (case makeKey h of
       None \<Rightarrow> (d, None)
     | Some key \<Rightarrow>
         let e = jnum_add (timestampMs h) (ttlMs h) in
         if \<not> is_finite e then (d, Some NonFiniteExpiry)
         else let (d1, ok) = reserve d outage key e now in (d1, Some (if ok then ReplayOk else ReplayDetected)))"

definition dist_consumeMany :: "dist_store \<Rightarrow> bool \<Rightarrow> header list \<Rightarrow> int \<Rightarrow> dist_store \<times> replay_result list option" where
  "dist_consumeMany d outage hs now =
    (case all_some (map makeKey hs) of
       None \<Rightarrow> (d, None)
     | Some keys \<Rightarrow>
         (let (d1, oks) = reserveMany d outage (zip keys (map (\<lambda>h. jnum_add (timestampMs h) (ttlMs h)) hs)) now
          in (d1, Some (map (\<lambda>ok. if ok then ReplayOk else ReplayDetected) oks))))"

text \<open>
  Failing closed honours the contract whatever the outages: the state carries the
  outages still to come.
\<close>

definition dist_mark :: "dist_store \<times> bool list \<Rightarrow> jstr \<Rightarrow> jnum \<Rightarrow> int \<Rightarrow> (dist_store \<times> bool list) \<times> bool" where
  "dist_mark s key ttl now =
    (let (d, ok) = reserve (fst s) (snd s \<noteq> [] \<and> hd (snd s)) key (jnum_add (Fin now) ttl) now in ((d, tl (snd s)), ok))"

definition dist_holds :: "dist_store \<times> bool list \<Rightarrow> jstr \<Rightarrow> int \<Rightarrow> bool" where
  "dist_holds s key t \<longleftrightarrow> redis_holds (dclient (fst s)) (dprefix (fst s) @ key) t"

lemma reserve_reject:
  assumes "behavior d = Reject"
  shows "behavior (fst (reserve d out key e now)) = Reject" "dprefix (fst (reserve d out key e now)) = dprefix d"
    "redis_holds (dclient d) (dprefix d @ key) now \<Longrightarrow> \<not> snd (reserve d out key e now)"
    "redis_holds (dclient d) (dprefix d @ k) t \<Longrightarrow> now \<le> t \<Longrightarrow> redis_holds (dclient (fst (reserve d out key e now))) (dprefix d @ k) t"
  using assms
  by (auto simp: reserve_def degrade_def reserve_opts_def case_prod_beta Let_def redis_set_nx_ok redis_set_kept)

lemma reserve_fresh:
  assumes "behavior d = Reject" "snd (reserve d out key (Fin e) now)" "t < e"
  shows "redis_holds (dclient (fst (reserve d out key (Fin e) now))) (dprefix d @ key) t"
proof -
  obtain m where m: "max_one (Fin (e - now)) = Fin m" "e - now \<le> m" using max_one_Fin by blast
  then show ?thesis
    using redis_set_fresh_held [of "reserve_opts (Fin e) now" m "dclient d" "dprefix d @ key" "js ''1''" now t] assms
    by (auto simp: reserve_def degrade_def case_prod_beta Let_def reserve_opts_def split: if_splits)
qed

interpretation reject_store: replay_store dist_mark dist_holds "\<lambda>s. behavior (fst s) = Reject"
  by unfold_locales
    (auto simp: dist_mark_def dist_holds_def case_prod_beta Let_def reserve_reject reserve_fresh)

text \<open>
  A non-finite expiry in a batch: \<open>consume\<close> refuses the envelope, \<open>consumeMany\<close>
  accepts it and holds its key for ever.
\<close>

lemma redis_set_nan_held:
  assumes "nx opts" "pxMs opts = Some NaN" "snd (redis_set r key v opts now)"
  shows "redis_holds (fst (redis_set r key v opts now)) key t"
  using assms by (auto simp: redis_set_def redis_holds_iff case_prod_beta Let_def jnum_le_iff split: if_splits)

section \<open>Properties\<close>

text \<open>A cluster of at least one Redis node never accepts a key twice within its lifetime: after a check that reported the key as new, every check of the same key before the ttl has run out reports a replay, whatever other checks ran in between.\<close>

theorem cluster_no_replay:
  assumes "nodes \<noteq> []" "\<not> snd (cluster_check nodes k (Fin n) now)"
    and "\<forall>(k', ttl, now') \<in> set evs. now' \<le> t" "t < now + n"
  shows "snd (cluster_check (cluster_store.mark_run (fst (cluster_check nodes k (Fin n) now)) evs) k ttl' t)"
  using cluster_store.no_replay [of nodes k n now evs t ttl'] assms by (simp add: cluster_mark_def)

theorem cluster_no_replay_witness:
  "snd (cluster_check (cluster_store.mark_run (fst (cluster_check [\<lparr>keyPrefix = [], client = []\<rparr>] (js ''k'') (Fin 10) 5)) [(js ''z'', Fin 3, 6)]) (js ''k'') (Fin 10) 14)"
  by (rule cluster_no_replay)
    (auto simp: cluster_check_def redis_check_def redis_set_def redis_live_def max_one_def jnum_less_iff)

text \<open>The single-process replay store fails closed: a key accepted once is not accepted again before its ttl has run out, whatever other checks ran in between, and a store full of live keys refuses every key, an unseen one too.\<close>

theorem memory_store_fails_closed:
  assumes "mem_inv s" "snd (mem_check s k (Fin n) now) = Some False"
    and "\<forall>(k', ttl, now') \<in> set evs. now' \<le> t" "t < now + n"
    and "mem_max full \<le> msize (mem_entries (mem_prune full u))" "0 < m"
  shows "snd (mem_check (memory_replay.mark_run (fst (mem_check s k (Fin n) now)) evs) k ttl' t) \<noteq> Some False
    \<and> mem_inv (memory_replay.mark_run (fst (mem_check s k (Fin n) now)) evs)
    \<and> snd (mem_check full key (Fin m) u) = Some True"
proof (intro conjI)
  have "msize (mem_entries (mem_prune full u)) \<le> msize (mem_entries full)"
    by (simp add: mem_prune_def msize_def)
  then show "snd (mem_check full key (Fin m) u) = Some True"
    using assms(5,6) by (auto simp: mem_check_def Let_def mem_prune_def split: option.split)
  show "snd (mem_check (memory_replay.mark_run (fst (mem_check s k (Fin n) now)) evs) k ttl' t) \<noteq> Some False"
    using memory_replay.no_replay [of s k n now evs t ttl'] assms by (simp add: mem_mark_def)
  have "mem_holds (fst (mem_mark s k (Fin n) now)) k t"
    using memory_replay.fresh_held [of s k n now t] assms by (simp add: mem_mark_def)
  with memory_replay.run_keeps [of "fst (mem_mark s k (Fin n) now)" k t evs] memory_replay.invar_mark [OF assms(1)] assms(3)
  show "mem_inv (memory_replay.mark_run (fst (mem_check s k (Fin n) now)) evs)" by (auto simp: mem_mark_def)
qed

theorem memory_store_fails_closed_witness:
  "snd (mem_check (memory_replay.mark_run (fst (mem_check \<lparr>mem_entries = [], mem_max = 1\<rparr> (js ''k'') (Fin 10) 5)) [(js ''z'', Fin 3, 6)]) (js ''k'') (Fin 10) 14) \<noteq> Some False"
  by (rule memory_store_fails_closed [of _ _ _ _ _ _ "\<lparr>mem_entries = [(js ''a'', 9)], mem_max = 1\<rparr>" 5 1, THEN conjunct1])
    (auto simp: mem_inv_def mem_check_def msize_def mem_prune_def wf_map_def)

text \<open>With errorBehavior reject the distributed store never accepts a key twice within its lifetime, for every pattern of client outages.\<close>

theorem reject_store_survives_outages:
  assumes "behavior d = Reject" "snd (reserve d out k (Fin E) now)"
    and "\<forall>(k', ttl, now') \<in> set evs. now' \<le> t" "t < E"
  shows "\<not> snd (reserve (fst (reject_store.mark_run (fst (reserve d out k (Fin E) now), outs) evs))
      (snd (reject_store.mark_run (fst (reserve d out k (Fin E) now), outs) evs) \<noteq> []
        \<and> hd (snd (reject_store.mark_run (fst (reserve d out k (Fin E) now), outs) evs))) k (Fin E') t)"
proof -
  let ?s = "(fst (reserve d out k (Fin E) now), outs)"
  have "behavior (fst ?s) = Reject" using reserve_reject(1) [OF assms(1)] by simp
  moreover have "dist_holds ?s k t"
    using reserve_fresh [OF assms(1,2,4)] reserve_reject(2) [OF assms(1)] by (simp add: dist_holds_def)
  ultimately have "\<not> snd (dist_mark (reject_store.mark_run ?s evs) k (Fin (E' - t)) t)"
    using reject_store.run_keeps [of ?s k t evs] reject_store.held_refused assms(3) by blast
  then show ?thesis by (simp add: dist_mark_def case_prod_beta Let_def)
qed

theorem reject_store_survives_outages_witness:
  "\<not> snd (reserve (fst (reject_store.mark_run (fst (reserve \<lparr>dprefix = [], behavior = Reject, dclient = [], dfallback = [], has_pipeline = True\<rparr> False (js ''k'') (Fin 20) 5), [True]) [(js ''z'', Fin 3, 6)]))
      (snd (reject_store.mark_run (fst (reserve \<lparr>dprefix = [], behavior = Reject, dclient = [], dfallback = [], has_pipeline = True\<rparr> False (js ''k'') (Fin 20) 5), [True]) [(js ''z'', Fin 3, 6)]) \<noteq> []
        \<and> hd (snd (reject_store.mark_run (fst (reserve \<lparr>dprefix = [], behavior = Reject, dclient = [], dfallback = [], has_pipeline = True\<rparr> False (js ''k'') (Fin 20) 5), [True]) [(js ''z'', Fin 3, 6)]))) (js ''k'') (Fin 30) 14)"
  by (rule reject_store_survives_outages)
    (auto simp: reserve_def redis_set_def redis_live_def reserve_opts_def)

text \<open>The batch entry point skips a check the single one makes: on an envelope whose expiry is not finite, consume refuses and leaves the store alone, while consumeMany accepts it and reserves its key for ever.\<close>

theorem batch_accepts_non_finite:
  assumes "makeKey h = Some k" "jnum_add (timestampMs h) (ttlMs h) = NaN" "\<not> redis_holds (dclient d) (dprefix d @ k) now"
  shows "dist_consume d False h now = (d, Some NonFiniteExpiry)
    \<and> snd (dist_consumeMany d False [h] now) = Some [ReplayOk]
    \<and> redis_holds (dclient (fst (dist_consumeMany d False [h] now))) (dprefix d @ k) t"
proof -
  have r: "snd (redis_set (dclient d) (dprefix d @ k) (js ''1'') (reserve_opts NaN now) now)"
    using assms(3) by (simp add: redis_set_nx_ok reserve_opts_def)
  have b: "dist_consumeMany d False [h] now =
     (d\<lparr>dclient := fst (redis_set (dclient d) (dprefix d @ k) (js ''1'') (reserve_opts NaN now) now)\<rparr>, Some [ReplayOk])"
    using assms(1,2) r by (simp add: dist_consumeMany_def reserveMany_eq reserve_def case_prod_beta Let_def)
  have "redis_holds (dclient (fst (dist_consumeMany d False [h] now))) (dprefix d @ k) t"
    unfolding b using redis_set_nan_held [of "reserve_opts NaN now", OF _ _ r]
    by (simp add: reserve_opts_def max_one_def)
  then show ?thesis
    using assms(1,2) by (simp add: dist_consume_def Let_def b)
qed

theorem batch_accepts_non_finite_witness:
  "\<exists>h d. dist_consume d False h 5 = (d, Some NonFiniteExpiry) \<and> snd (dist_consumeMany d False [h] 5) = Some [ReplayOk]"
proof -
  let ?h = "demo_header 1 2\<lparr>ttlMs := NaN\<rparr>" and ?d = "\<lparr>dprefix = [], behavior = Reject, dclient = [], dfallback = [], has_pipeline = True\<rparr>"
  have "\<exists>k. makeKey ?h = Some k"
    by (simp add: makeKey_defined demo_header_def ascii_eval is_high_def is_low_def)
  then obtain k where k: "makeKey ?h = Some k" ..
  show ?thesis
    using batch_accepts_non_finite [OF k, of ?d 5] by (auto simp: demo_header_def redis_holds_iff)
qed

end
