(* ===== verification/RoutePolicy.thy ===== *)
theory RoutePolicy
  imports Encoding
begin

text \<open>
  \<open>src/routePolicy.ts\<close>: glob patterns, route policies and the sender check. \<open>matchGlob\<close>
  builds a regular expression; here the pattern becomes the list of atoms of that
  expression and \<open>atoms_match\<close> is the language of \<open>^...$\<close> over UTF-16 code units. The dot
  of \<open>.*\<close> does not match a line terminator.
\<close>

section \<open>Glob patterns\<close>

datatype atom = AnyDeep | AnySeg | OneChar | Lit code_unit

text \<open>Code units: 42 is the star, 63 the question mark, 47 the slash.\<close>

fun glob_atoms :: "jstr \<Rightarrow> atom list" where
  "glob_atoms [] = []"
| "glob_atoms [c] = [if c = 42 then AnySeg else if c = 63 then OneChar else Lit c]"
| "glob_atoms (c # d # s) =
    (if c = 42 then (if d = 42 then AnyDeep # glob_atoms s else AnySeg # glob_atoms (d # s))
     else (if c = 63 then OneChar else Lit c) # glob_atoms (d # s))"

definition line_terminator :: "code_unit \<Rightarrow> bool" where
  "line_terminator c \<longleftrightarrow> c = 10 \<or> c = 13 \<or> c = 0x2028 \<or> c = 0x2029"

fun atoms_match :: "atom list \<Rightarrow> jstr \<Rightarrow> bool" where
  "atoms_match [] s = (s = [])"
| "atoms_match (Lit c # as) s = (case s of [] \<Rightarrow> False | x # s' \<Rightarrow> x = c \<and> atoms_match as s')"
| "atoms_match (OneChar # as) s = (case s of [] \<Rightarrow> False | x # s' \<Rightarrow> x \<noteq> 47 \<and> atoms_match as s')"
| "atoms_match (AnySeg # as) s =
    (atoms_match as s \<or> (case s of [] \<Rightarrow> False | x # s' \<Rightarrow> x \<noteq> 47 \<and> atoms_match (AnySeg # as) s'))"
| "atoms_match (AnyDeep # as) s =
    (atoms_match as s \<or> (case s of [] \<Rightarrow> False | x # s' \<Rightarrow> \<not> line_terminator x \<and> atoms_match (AnyDeep # as) s'))"

definition matchGlob :: "jstr \<Rightarrow> jstr \<Rightarrow> bool" where
  "matchGlob pattern path = atoms_match (glob_atoms pattern) path"

lemma match_AnySeg: "atoms_match (AnySeg # as) s \<longleftrightarrow> (\<exists>u v. s = u @ v \<and> 47 \<notin> set u \<and> atoms_match as v)"
proof (induction s)
  case (Cons x s)
  have "(\<exists>u v. x # s = u @ v \<and> 47 \<notin> set u \<and> atoms_match as v)
    \<longleftrightarrow> atoms_match as (x # s) \<or> x \<noteq> 47 \<and> (\<exists>u v. s = u @ v \<and> 47 \<notin> set u \<and> atoms_match as v)"
    unfolding ex_split_Cons by auto
  with Cons.IH show ?case by simp
qed simp

lemma match_AnyDeep:
  "atoms_match (AnyDeep # as) s \<longleftrightarrow> (\<exists>u v. s = u @ v \<and> (\<forall>c \<in> set u. \<not> line_terminator c) \<and> atoms_match as v)"
proof (induction s)
  case (Cons x s)
  have "(\<exists>u v. x # s = u @ v \<and> (\<forall>c \<in> set u. \<not> line_terminator c) \<and> atoms_match as v)
    \<longleftrightarrow> atoms_match as (x # s) \<or> \<not> line_terminator x \<and> (\<exists>u v. s = u @ v \<and> (\<forall>c \<in> set u. \<not> line_terminator c) \<and> atoms_match as v)"
    unfolding ex_split_Cons by auto
  with Cons.IH show ?case by simp
qed simp

text \<open>Concatenating patterns concatenates languages.\<close>

lemma ex_split_assoc:
  "(\<exists>u v. s = u @ v \<and> P u \<and> (\<exists>a b. v = a @ b \<and> Q a \<and> R b)) \<longleftrightarrow> (\<exists>u v. s = u @ v \<and> (\<exists>a b. u = a @ b \<and> P a \<and> Q b) \<and> R v)"
proof
  assume "\<exists>u v. s = u @ v \<and> P u \<and> (\<exists>a b. v = a @ b \<and> Q a \<and> R b)"
  then obtain u a b where "s = (u @ a) @ b" "P u" "Q a" "R b" by auto
  then show "\<exists>u v. s = u @ v \<and> (\<exists>a b. u = a @ b \<and> P a \<and> Q b) \<and> R v" by blast
next
  assume "\<exists>u v. s = u @ v \<and> (\<exists>a b. u = a @ b \<and> P a \<and> Q b) \<and> R v"
  then obtain a b v where "s = a @ b @ v" "P a" "Q b" "R v" by auto
  then show "\<exists>u v. s = u @ v \<and> P u \<and> (\<exists>a b. v = a @ b \<and> Q a \<and> R b)" by blast
qed

lemma match_append: "atoms_match (as @ bs) s \<longleftrightarrow> (\<exists>u v. s = u @ v \<and> atoms_match as u \<and> atoms_match bs v)"
proof (induction as arbitrary: s)
  case (Cons a as)
  show ?case
  proof (cases a)
    case AnyDeep
    show ?thesis unfolding append_Cons AnyDeep match_AnyDeep Cons.IH by (rule ex_split_assoc)
  next
    case AnySeg
    show ?thesis unfolding append_Cons AnySeg match_AnySeg Cons.IH by (rule ex_split_assoc)
  next
    case OneChar
    show ?thesis
      unfolding OneChar append_Cons by (cases s) (simp_all only: ex_split_Cons, auto simp: Cons.IH)
  next
    case (Lit c)
    show ?thesis
      unfolding Lit append_Cons by (cases s) (simp_all only: ex_split_Cons, auto simp: Cons.IH)
  qed
qed simp

lemma match_Lit: "atoms_match (Lit c # as) s \<longleftrightarrow> (\<exists>v. s = c # v \<and> atoms_match as v)"
  by (cases s) auto

section \<open>Segments\<close>

lemma glob_atoms_slash: "glob_atoms (a @ 47 # b) = glob_atoms a @ Lit 47 # glob_atoms b"
proof (induction a rule: glob_atoms.induct)
  case 1
  then show ?case by (cases b) auto
next
  case (2 c)
  then show ?case by (cases b) auto
qed auto

definition segs_match :: "jstr list \<Rightarrow> jstr \<Rightarrow> bool" where
  "segs_match segs s = atoms_match (glob_atoms (join_with [47] segs)) s"

lemma segs_match_one: "segs_match [g] s = atoms_match (glob_atoms g) s"
  by (simp add: segs_match_def)

lemma segs_match_cons:
  "gs \<noteq> [] \<Longrightarrow> segs_match (g # gs) s \<longleftrightarrow> (\<exists>u v. s = u @ 47 # v \<and> atoms_match (glob_atoms g) u \<and> segs_match gs v)"
  by (simp add: segs_match_def join_with_Cons glob_atoms_slash match_append match_Lit del: atoms_match.simps(2)) blast

lemma matchGlob_segs: "matchGlob g s = segs_match (split_on 47 g) s"
  by (simp add: matchGlob_def segs_match_def join_split)

text \<open>A segment pattern without \<open>**\<close> matches no slash.\<close>

definition double_star :: jstr where
  "double_star = [42, 42]"

lemma no_deep_atoms: "\<not> contains_sub g double_star \<Longrightarrow> AnyDeep \<notin> set (glob_atoms g)"
  by (induction g rule: glob_atoms.induct) (auto simp: double_star_def startsWith_def split: if_splits)

lemma lit_atoms: "Lit c \<in> set (glob_atoms g) \<Longrightarrow> c \<in> set g"
  by (induction g rule: glob_atoms.induct) (auto split: if_splits)

lemma atoms_no_slash: "AnyDeep \<notin> set as \<Longrightarrow> Lit 47 \<notin> set as \<Longrightarrow> atoms_match as s \<Longrightarrow> 47 \<notin> set s"
proof (induction as arbitrary: s)
  case (Cons a as)
  show ?case
  proof (cases a)
    case AnySeg
    from Cons.prems(3) obtain u v where "s = u @ v" "47 \<notin> set u" "atoms_match as v"
      unfolding AnySeg match_AnySeg by blast
    with Cons show ?thesis by auto
  qed (use Cons in \<open>auto split: list.splits\<close>)
qed simp

lemma segment_no_slash:
  "47 \<notin> set g \<Longrightarrow> \<not> contains_sub g double_star \<Longrightarrow> atoms_match (glob_atoms g) s \<Longrightarrow> 47 \<notin> set s"
  using atoms_no_slash no_deep_atoms lit_atoms by metis

lemma star_matches: "atoms_match (glob_atoms [42]) s \<longleftrightarrow> 47 \<notin> set s"
  by (simp add: match_AnySeg del: atoms_match.simps(4))

lemma double_star_matches: "atoms_match (glob_atoms double_star) s \<longleftrightarrow> (\<forall>c \<in> set s. \<not> line_terminator c)"
  by (simp add: double_star_def match_AnyDeep del: atoms_match.simps(5))

lemma glob_literal: "\<forall>c \<in> set g. c \<noteq> 42 \<and> c \<noteq> 63 \<Longrightarrow> atoms_match (glob_atoms g) s \<longleftrightarrow> s = g"
  by (induction g arbitrary: s rule: glob_atoms.induct) (auto split: list.splits)

section \<open>Policies\<close>

datatype requirement = ReqEd25519 | ReqHmac | ReqAny | ReqHttpSignature | ReqDpop | ReqNone

datatype approval_require = Always | Untrusted

record approval_policy =
  approval_require :: approval_require
  approvers :: "jstr list"

record route_policy =
  path :: jstr
  require :: requirement
  rateLimit :: "(int \<times> int) option"
  allowedSenders :: "jstr list option"
  signResponse :: "bool option"
  approval :: "approval_policy option"

definition matchPolicy :: "route_policy list \<Rightarrow> jstr \<Rightarrow> route_policy option" where
  "matchPolicy policies p = List.find (\<lambda>policy. matchGlob (path policy) p) policies"

definition isAllowedSender :: "route_policy \<Rightarrow> jstr \<Rightarrow> bool" where
  "isAllowedSender policy s =
    (case allowedSenders policy of None \<Rightarrow> True | Some ss \<Rightarrow> ss = [] \<or> s \<in> set ss)"

lemma ex_mid_Cons:
  "(\<exists>b a. r # ps = b @ q # a \<and> P b) \<longleftrightarrow> r = q \<and> P [] \<or> (\<exists>b a. ps = b @ q # a \<and> P (r # b))"
  unfolding Cons_eq_append_conv list.inject by blast

lemma matchPolicy_first:
  "matchPolicy policies p = Some q \<longleftrightarrow>
    (\<exists>before after. policies = before @ q # after \<and> matchGlob (path q) p \<and> (\<forall>r \<in> set before. \<not> matchGlob (path r) p))"
proof (induction policies)
  case (Cons r policies)
  then show ?case
    unfolding ex_mid_Cons by (auto simp: matchPolicy_def)
qed (simp add: matchPolicy_def)

end
