(* ===== verification/Capability.thy ===== *)
theory Capability
  imports Protocol RoutePolicy
begin

text \<open>
  Capability tokens of \<open>src/capability.ts\<close>: the canonical form, the containment checks on
  scopes, issuing, delegating and verifying chains. Times and delegation counts are
  integers; a received token is not validated, and one without a time has none here. The key registry is an argument, and an empty key counts as none, as in the
  source. The lemmas show what an accepted chain guarantees, that delegating from an
  accepted chain gives an accepted chain, and on which patterns the containment check is
  sound.
\<close>

section \<open>Data\<close>

record scope =
  pathGlob :: jstr
  methods :: "jstr list option"
  scopeMaxDelegations :: "int option"

record token =
  tid :: jstr
  tversion :: jstr
  issuer :: jstr
  subject :: jstr
  scopes :: "scope list"
  issuedAt :: "int option"
  expiresAt :: "int option"
  delegationDepth :: int
  parentTokenId :: "jstr option"
  maxDelegations :: "int option"
  tsignature :: jstr
  tkeyId :: jstr

definition cap_version :: jstr where
  "cap_version = js ''7h3-cap/1''"

text \<open>
  \<open>now >= token.expiresAt\<close> and \<open>token.expiresAt > prev.expiresAt\<close>: a comparison with
  undefined is false. \<open>${t}\<close> of a time.
\<close>

definition lapsed :: "int option \<Rightarrow> int \<Rightarrow> bool" where
  "lapsed e now \<longleftrightarrow> (case e of None \<Rightarrow> False | Some x \<Rightarrow> x \<le> now)"

definition outlives :: "int option \<Rightarrow> int option \<Rightarrow> bool" where
  "outlives a b \<longleftrightarrow> (case (a, b) of (Some x, Some y) \<Rightarrow> y < x | _ \<Rightarrow> False)"

definition time_text :: "int option \<Rightarrow> jstr" where
  "time_text t = (case t of None \<Rightarrow> js ''undefined'' | Some n \<Rightarrow> show_num (Fin n))"

lemma lapsed_simps [simp]: "\<not> lapsed None now" "lapsed (Some x) now \<longleftrightarrow> x \<le> now"
  by (simp_all add: lapsed_def)

lemma outlives_simps [simp]: "\<not> outlives None b" "\<not> outlives a None" "\<not> outlives a a" "outlives (Some x) (Some y) \<longleftrightarrow> y < x"
  by (auto simp: outlives_def split: option.split)

section \<open>Canonical form\<close>

definition opt_num_member :: "string \<Rightarrow> int option \<Rightarrow> jstr list" where
  "opt_num_member name v = (case v of None \<Rightarrow> [] | Some n \<Rightarrow> [quote (js name) @ 58 # show_num (Fin n)])"

definition canonicalizeScope :: "scope \<Rightarrow> jstr" where
  "canonicalizeScope s =
    123 # join_with [44]
     (opt_num_member ''maxDelegations'' (scopeMaxDelegations s)
      @ (case methods s of None \<Rightarrow> [] | Some ms \<Rightarrow> [quote (js ''methods'') @ 58 # print_json (JArr (map JStr ms))])
      @ [quote (js ''pathGlob'') @ 58 # quote (pathGlob s)]) @ [125]"

text \<open>The signature is left out.\<close>

definition canonicalizeCapabilityToken :: "token \<Rightarrow> jstr" where
  "canonicalizeCapabilityToken t =
    123 # join_with [44]
     ([quote (js ''delegationDepth'') @ 58 # show_num (Fin (delegationDepth t)),
       quote (js ''expiresAt'') @ 58 # time_text (expiresAt t),
       quote (js ''id'') @ 58 # quote (tid t),
       quote (js ''issuedAt'') @ 58 # time_text (issuedAt t),
       quote (js ''issuer'') @ 58 # quote (issuer t),
       quote (js ''keyId'') @ 58 # quote (tkeyId t)]
      @ opt_num_member ''maxDelegations'' (maxDelegations t)
      @ opt_member ''parentTokenId'' (parentTokenId t)
      @ [quote (js ''scopes'') @ 58 # 91 # join_with [44] (map canonicalizeScope (scopes t)) @ [93],
         quote (js ''subject'') @ 58 # quote (subject t),
         quote (js ''version'') @ 58 # quote (tversion t)]) @ [125]"

text \<open>With its times there, the text is the JSON text of a value, so it determines its token.\<close>

definition opt_field :: "string \<Rightarrow> ('a \<Rightarrow> json) \<Rightarrow> 'a option \<Rightarrow> (jstr \<times> json) list" where
  "opt_field name f v = (case v of None \<Rightarrow> [] | Some x \<Rightarrow> [(js name, f x)])"

definition scope_json :: "scope \<Rightarrow> json" where
  "scope_json s = JObj (opt_field ''maxDelegations'' (\<lambda>n. JNum (Fin n)) (scopeMaxDelegations s)
    @ opt_field ''methods'' (\<lambda>ms. JArr (map JStr ms)) (methods s) @ [(js ''pathGlob'', JStr (pathGlob s))])"

definition token_json :: "token \<Rightarrow> json" where
  "token_json t = JObj
    ([(js ''delegationDepth'', JNum (Fin (delegationDepth t))), (js ''expiresAt'', JNum (Fin (the (expiresAt t)))),
      (js ''id'', JStr (tid t)), (js ''issuedAt'', JNum (Fin (the (issuedAt t)))), (js ''issuer'', JStr (issuer t)),
      (js ''keyId'', JStr (tkeyId t))]
     @ opt_field ''maxDelegations'' (\<lambda>n. JNum (Fin n)) (maxDelegations t)
     @ opt_field ''parentTokenId'' JStr (parentTokenId t)
     @ [(js ''scopes'', JArr (map scope_json (scopes t))), (js ''subject'', JStr (subject t)), (js ''version'', JStr (tversion t))])"

lemma canonicalizeScope_json: "canonicalizeScope s = print_json (scope_json s)"
  by (cases "scopeMaxDelegations s"; cases "methods s")
    (simp_all add: canonicalizeScope_def scope_json_def opt_num_member_def opt_field_def)

definition timed :: "token \<Rightarrow> bool" where
  "timed t \<longleftrightarrow> issuedAt t \<noteq> None \<and> expiresAt t \<noteq> None"

lemma canonicalizeToken_json: "timed t \<Longrightarrow> canonicalizeCapabilityToken t = print_json (token_json t)"
proof -
  assume "timed t"
  have "canonicalizeScope = print_json \<circ> scope_json"
    by (simp add: fun_eq_iff canonicalizeScope_json)
  with \<open>timed t\<close> show ?thesis
    by (cases "maxDelegations t"; cases "parentTokenId t")
      (auto simp add: timed_def time_text_def canonicalizeCapabilityToken_def token_json_def opt_num_member_def opt_member_def opt_field_def)
qed

lemma finite_scope_json [simp]: "json_finite (scope_json s)"
  by (cases "scopeMaxDelegations s"; cases "methods s") (auto simp: scope_json_def opt_field_def)

lemma finite_token_json [simp]: "json_finite (token_json t)"
  by (cases "maxDelegations t"; cases "parentTokenId t") (auto simp: token_json_def opt_field_def)

lemma map_JStr_inj [simp]: "map JStr a = map JStr b \<longleftrightarrow> a = b"
  by (simp add: inj_map_eq_map inj_def)

lemma scope_json_inj [simp]: "scope_json a = scope_json b \<longleftrightarrow> a = b"
proof
  assume e: "scope_json a = scope_json b"
  then show "a = b"
    by (cases "scopeMaxDelegations a"; cases "methods a"; cases "scopeMaxDelegations b"; cases "methods b")
      (simp_all add: scope_json_def opt_field_def scope.equality)
qed simp

lemma map_scope_json_inj [simp]: "map scope_json a = map scope_json b \<longleftrightarrow> a = b"
  by (simp add: inj_map_eq_map inj_def)

lemma token_json_inj: "timed a \<Longrightarrow> timed b \<Longrightarrow> token_json a = token_json b \<Longrightarrow> b = a\<lparr>tsignature := tsignature b\<rparr>"
  by (cases "maxDelegations a"; cases "parentTokenId a"; cases "maxDelegations b"; cases "parentTokenId b")
    (auto simp add: timed_def token_json_def opt_field_def intro!: token.equality)

lemma canonicalizeToken_inj:
  assumes "timed a" "timed b"
  shows "canonicalizeCapabilityToken a = canonicalizeCapabilityToken b \<longleftrightarrow> b = a\<lparr>tsignature := tsignature b\<rparr>"
proof
  assume "canonicalizeCapabilityToken a = canonicalizeCapabilityToken b"
  then have "token_json a = token_json b"
    using print_json_inj [OF finite_token_json finite_token_json] by (simp only: canonicalizeToken_json [OF assms(1)] canonicalizeToken_json [OF assms(2)])
  then show "b = a\<lparr>tsignature := tsignature b\<rparr>" by (rule token_json_inj [OF assms])
next
  assume "b = a\<lparr>tsignature := tsignature b\<rparr>"
  then obtain s where "b = a\<lparr>tsignature := s\<rparr>" ..
  then show "canonicalizeCapabilityToken a = canonicalizeCapabilityToken b"
    by (simp add: canonicalizeCapabilityToken_def)
qed

section \<open>Containment of scopes\<close>

definition segmentIsSubset :: "jstr \<Rightarrow> jstr \<Rightarrow> bool" where
  "segmentIsSubset childSeg parentSeg \<longleftrightarrow>
    (if childSeg = parentSeg then True else if parentSeg = [42] then childSeg \<noteq> double_star else False)"

text \<open>The loop over the parent's segments; the first argument is what is left of the child's.\<close>

fun segs_subset :: "jstr list \<Rightarrow> jstr list \<Rightarrow> bool" where
  "segs_subset cs [] = (cs = [])"
| "segs_subset cs (p # ps) =
    (if p = double_star then cs \<noteq> []
     else case cs of [] \<Rightarrow> False
       | c # cs' \<Rightarrow> if c = double_star then False
           else if \<not> segmentIsSubset c p then False else segs_subset cs' ps)"

definition pathGlobIsSubset :: "jstr \<Rightarrow> jstr \<Rightarrow> bool" where
  "pathGlobIsSubset childGlob parentGlob = segs_subset (split_on 47 childGlob) (split_on 47 parentGlob)"

definition scopeIsSubset :: "scope \<Rightarrow> scope \<Rightarrow> bool" where
  "scopeIsSubset child parent \<longleftrightarrow>
    (if \<not> pathGlobIsSubset (pathGlob child) (pathGlob parent) then False
     else case methods parent of None \<Rightarrow> True
       | Some pm \<Rightarrow> (case methods child of None \<Rightarrow> False | Some cm \<Rightarrow> \<forall>m \<in> set cm. m \<in> set pm))"

definition scopesAreSubset :: "scope list \<Rightarrow> scope list \<Rightarrow> bool" where
  "scopesAreSubset childScopes parentScopes \<longleftrightarrow> (\<forall>c \<in> set childScopes. \<exists>p \<in> set parentScopes. scopeIsSubset c p)"

section \<open>Issue and delegate\<close>

text \<open>\<open>rnd6\<close> and \<open>now\<close> are the random bytes and the clock reading; \<open>None\<close>: signing throws.\<close>

definition token_id :: "int \<Rightarrow> bytes \<Rightarrow> jstr" where
  "token_id now rnd6 = js ''cap-'' @ show_int now @ js ''-'' @ randomHex rnd6"

definition signed_token :: "crypto \<Rightarrow> token \<Rightarrow> jstr \<Rightarrow> token option" where
  "signed_token C u priv =
    map_option (\<lambda>s. u\<lparr>tsignature := s\<rparr>)
      (signCanonicalPayloadEd25519 C (canonicalizeCapabilityToken u) priv)"

record issue_opts =
  issuerPrivateKey :: jstr
  issuerId :: jstr
  iss_subject :: jstr
  iss_scopes :: "scope list"
  iss_ttlMs :: int
  iss_maxDelegations :: "int option"
  iss_keyId :: "jstr option"

definition issueCapabilityToken :: "crypto \<Rightarrow> issue_opts \<Rightarrow> int \<Rightarrow> bytes \<Rightarrow> token option" where
  "issueCapabilityToken C o' now rnd6 =
    signed_token C
      \<lparr>tid = token_id now rnd6, tversion = cap_version, issuer = issuerId o', subject = iss_subject o',
       scopes = iss_scopes o', issuedAt = Some now, expiresAt = Some (now + iss_ttlMs o'), delegationDepth = 0,
       parentTokenId = None,
       maxDelegations = Some (case iss_maxDelegations o' of None \<Rightarrow> 0 | Some n \<Rightarrow> n),
       tsignature = [],
       tkeyId = (case iss_keyId o' of None \<Rightarrow> issuerId o' @ js ''-key'' | Some k \<Rightarrow> k)\<rparr>
      (issuerPrivateKey o')"

datatype delegate_error =
  NotParentSubject | ParentExpired | DelegationForbidden | ScopesExceedParent | TtlExceedsParent | SigningThrew

record delegate_opts =
  parentToken :: token
  delegatorPrivateKey :: jstr
  delegatorId :: jstr
  newSubject :: jstr
  del_scopes :: "scope list option"
  del_ttlMs :: int
  del_keyId :: "jstr option"

definition delegated_scopes :: "delegate_opts \<Rightarrow> scope list" where
  "delegated_scopes d = (case del_scopes d of None \<Rightarrow> scopes (parentToken d) | Some ss \<Rightarrow> ss)"

definition unsigned_delegate :: "delegate_opts \<Rightarrow> int \<Rightarrow> bytes \<Rightarrow> token" where
  "unsigned_delegate d now rnd6 =
    \<lparr>tid = token_id now rnd6, tversion = cap_version, issuer = delegatorId d, subject = newSubject d,
     scopes = delegated_scopes d, issuedAt = Some now, expiresAt = Some (now + del_ttlMs d),
     delegationDepth = delegationDepth (parentToken d) + 1,
     parentTokenId = Some (tid (parentToken d)),
     maxDelegations = map_option (\<lambda>n. n - 1) (maxDelegations (parentToken d)),
     tsignature = [],
     tkeyId = (case del_keyId d of None \<Rightarrow> delegatorId d @ js ''-key'' | Some k \<Rightarrow> k)\<rparr>"

definition exhausted :: "int option \<Rightarrow> bool" where
  "exhausted n \<longleftrightarrow> (case n of None \<Rightarrow> False | Some k \<Rightarrow> k \<le> 0)"

definition delegateCapabilityToken :: "crypto \<Rightarrow> delegate_opts \<Rightarrow> int \<Rightarrow> bytes \<Rightarrow> delegate_error + token" where
  "delegateCapabilityToken C d now rnd6 =
    (if delegatorId d \<noteq> subject (parentToken d) then Inl NotParentSubject
     else if lapsed (expiresAt (parentToken d)) now then Inl ParentExpired
     else if exhausted (maxDelegations (parentToken d)) then Inl DelegationForbidden
     else if \<not> scopesAreSubset (delegated_scopes d) (scopes (parentToken d)) then Inl ScopesExceedParent
     else if outlives (Some (now + del_ttlMs d)) (expiresAt (parentToken d)) then Inl TtlExceedsParent
     else case signed_token C (unsigned_delegate d now rnd6) (delegatorPrivateKey d) of
       None \<Rightarrow> Inl SigningThrew | Some t \<Rightarrow> Inr t)"

section \<open>Verify\<close>

text \<open>\<open>toUpperCase\<close> on the ASCII letters; HTTP method names are ASCII.\<close>

definition upper_unit :: "code_unit \<Rightarrow> code_unit" where
  "upper_unit c = (if 97 \<le> unat c \<and> unat c \<le> 122 then c - 32 else c)"

definition toUpperCase :: "jstr \<Rightarrow> jstr" where
  "toUpperCase s = map upper_unit s"

definition token_signature_ok :: "crypto \<Rightarrow> token \<Rightarrow> jstr \<Rightarrow> bool option" where
  "token_signature_ok C t pub = verifyCanonicalPayloadEd25519 C (canonicalizeCapabilityToken t) (tsignature t) pub"

definition verifyCapabilityToken :: "crypto \<Rightarrow> token \<Rightarrow> jstr \<Rightarrow> int \<Rightarrow> bool option" where
  "verifyCapabilityToken C t pub now = (if lapsed (expiresAt t) now then Some False else token_signature_ok C t pub)"

definition scope_grants :: "scope \<Rightarrow> jstr \<Rightarrow> jstr option \<Rightarrow> bool" where
  "scope_grants s p mth \<longleftrightarrow> matchGlob (pathGlob s) p \<and>
    (case methods s of None \<Rightarrow> True
     | Some ms \<Rightarrow> (case mth of None \<Rightarrow> False | Some m \<Rightarrow> toUpperCase m \<in> set ms))"

definition tokenMatchesScope :: "token \<Rightarrow> jstr \<Rightarrow> jstr option \<Rightarrow> bool" where
  "tokenMatchesScope t p mth \<longleftrightarrow> (\<exists>s \<in> set (scopes t). scope_grants s p mth)"

datatype chain_error =
  EmptyChain | RootDepth | IssuerBroken nat | ParentIdBroken nat | DepthBroken nat | NoFurtherDelegation nat
  | ExpiryExceeds nat | ScopesExceed nat | Expired nat | NoPublicKey jstr | InvalidSignature nat | ScopeNotCovered

definition link_error :: "nat \<Rightarrow> token \<Rightarrow> token \<Rightarrow> chain_error option" where
  "link_error i prev t =
    (if issuer t \<noteq> subject prev then Some (IssuerBroken i)
     else if parentTokenId t \<noteq> Some (tid prev) then Some (ParentIdBroken i)
     else if delegationDepth t \<noteq> delegationDepth prev + 1 then Some (DepthBroken i)
     else if exhausted (maxDelegations prev) then Some (NoFurtherDelegation (i - 1))
     else if outlives (expiresAt t) (expiresAt prev) then Some (ExpiryExceeds i)
     else if \<not> scopesAreSubset (scopes t) (scopes prev) then Some (ScopesExceed i)
     else None)"

text \<open>Expiry, key and signature of one token. The outer option is a throw.\<close>

definition token_error :: "crypto \<Rightarrow> (jstr \<Rightarrow> jstr option) \<Rightarrow> int \<Rightarrow> nat \<Rightarrow> token \<Rightarrow> chain_error option option" where
  "token_error C getPublicKey now i t =
    (if lapsed (expiresAt t) now then Some (Some (Expired i))
     else case getPublicKey (issuer t) of
       None \<Rightarrow> Some (Some (NoPublicKey (issuer t)))
     | Some pub \<Rightarrow>
         if pub = [] then Some (Some (NoPublicKey (issuer t)))
         else map_option (\<lambda>ok. if ok then None else Some (InvalidSignature i)) (token_signature_ok C t pub))"

fun check_chain :: "crypto \<Rightarrow> (jstr \<Rightarrow> jstr option) \<Rightarrow> int \<Rightarrow> nat \<Rightarrow> token option \<Rightarrow> token list \<Rightarrow> chain_error option option" where
  "check_chain C reg now i prev [] = Some None"
| "check_chain C reg now i prev (t # ts) =
    (case (case prev of None \<Rightarrow> if delegationDepth t \<noteq> 0 then Some RootDepth else None
           | Some q \<Rightarrow> link_error i q t) of
       Some e \<Rightarrow> Some (Some e)
     | None \<Rightarrow>
         (case token_error C reg now i t of
            Some None \<Rightarrow> check_chain C reg now (Suc i) (Some t) ts
          | r \<Rightarrow> r))"

definition verifyCapabilityChain ::
  "crypto \<Rightarrow> token list \<Rightarrow> (jstr \<Rightarrow> jstr option) \<Rightarrow> jstr option \<Rightarrow> jstr option \<Rightarrow> int \<Rightarrow> (chain_error + token) option" where
  "verifyCapabilityChain C chain reg requiredPath requiredMethod now =
    (if chain = [] then Some (Inl EmptyChain)
     else case check_chain C reg now 0 None chain of
       None \<Rightarrow> None
     | Some (Some e) \<Rightarrow> Some (Inl e)
     | Some None \<Rightarrow>
         (case requiredPath of
            Some p \<Rightarrow> if \<not> tokenMatchesScope (last chain) p requiredMethod then Some (Inl ScopeNotCovered)
              else Some (Inr (last chain))
          | None \<Rightarrow> Some (Inr (last chain))))"

section \<open>What containment of patterns means\<close>

text \<open>
  The child patterns on which the check is exact enough: \<open>**\<close> only as a whole segment; and
  the parent patterns: \<open>**\<close> only as the last segment.
\<close>

definition plain_segments :: "jstr \<Rightarrow> bool" where
  "plain_segments g \<longleftrightarrow> (\<forall>seg \<in> set (split_on 47 g). contains_sub seg double_star \<longrightarrow> seg = double_star)"

definition deep_last :: "jstr \<Rightarrow> bool" where
  "deep_last g \<longleftrightarrow> double_star \<notin> set (butlast (split_on 47 g))"

lemma segment_subset_match:
  assumes "segmentIsSubset c p" "c \<noteq> double_star" "47 \<notin> set c" "contains_sub c double_star \<longrightarrow> c = double_star"
    and "atoms_match (glob_atoms c) u"
  shows "atoms_match (glob_atoms p) u"
proof (cases "c = p")
  case False
  with assms(1) have p: "p = [42]" by (auto simp: segmentIsSubset_def split: if_splits)
  have "47 \<notin> set u" using segment_no_slash [OF assms(3)] assms(2,4,5) by blast
  then show ?thesis by (simp add: p star_matches [simplified])
qed (use assms in simp)

lemma segs_subset_match:
  assumes "segs_subset cs ps" "\<forall>c \<in> set cs. 47 \<notin> set c \<and> (contains_sub c double_star \<longrightarrow> c = double_star)"
    and "double_star \<notin> set (butlast ps)" "cs \<noteq> []" "ps \<noteq> []"
    and "segs_match cs s" "\<forall>x \<in> set s. \<not> line_terminator x"
  shows "segs_match ps s"
  using assms
proof (induction cs ps arbitrary: s rule: segs_subset.induct)
  case (2 cs p ps)
  show ?case
  proof (cases "p = double_star")
    case True
    with "2.prems"(3) have "ps = []" by (cases ps) auto
    with True "2.prems"(7) show ?thesis by (simp add: segs_match_one double_star_matches)
  next
    case False
    with "2.prems"(1) obtain c cs' where c: "cs = c # cs'" "c \<noteq> double_star" "segmentIsSubset c p" "segs_subset cs' ps"
      by (auto split: list.splits if_splits)
    note sub = segment_subset_match [OF c(3,2)]
    have cc: "47 \<notin> set c" "contains_sub c double_star \<longrightarrow> c = double_star" using "2.prems"(2) c(1) by auto
    show ?thesis
    proof (cases "ps = []")
      case True
      with c(4) have "cs' = []" by simp
      with "2.prems"(6) c(1) True sub [OF cc] show ?thesis by (simp add: segs_match_one)
    next
      case ps: False
      then have cs': "cs' \<noteq> []" using c(4) by (cases ps) (auto split: if_splits)
      from "2.prems"(6) [unfolded c(1) segs_match_cons [OF cs']] obtain u v
        where uv: "s = u @ 47 # v" "atoms_match (glob_atoms c) u" "segs_match cs' v" by blast
      have "segs_match ps v"
        using "2.IH" [OF False c(1) c(2) _ c(4) _ _ cs' ps uv(3)] "2.prems"(2,3,7) c(1,3) ps uv(1) by simp
      with sub [OF cc uv(2)] uv(1) show ?thesis unfolding segs_match_cons [OF ps] by blast
    qed
  qed
qed simp

lemma pathGlobIsSubset_sound:
  assumes "pathGlobIsSubset child parent" "plain_segments child" "deep_last parent"
    and "\<forall>x \<in> set p. \<not> line_terminator x" "matchGlob child p"
  shows "matchGlob parent p"
proof -
  have "\<forall>c \<in> set (split_on 47 child). 47 \<notin> set c \<and> (contains_sub c double_star \<longrightarrow> c = double_star)"
    using assms(2) by (auto simp: plain_segments_def dest: split_on_no_sep)
  then show ?thesis
    using segs_subset_match [of "split_on 47 child" "split_on 47 parent" p] assms
    by (simp add: pathGlobIsSubset_def deep_last_def matchGlob_segs)
qed

definition safe_scopes :: "token \<Rightarrow> bool" where
  "safe_scopes t \<longleftrightarrow> (\<forall>s \<in> set (scopes t). plain_segments (pathGlob s) \<and> deep_last (pathGlob s))"

lemma scope_subset_grants:
  assumes "scopeIsSubset c p" "plain_segments (pathGlob c)" "deep_last (pathGlob p)"
    and "\<forall>x \<in> set u. \<not> line_terminator x" "scope_grants c u m"
  shows "scope_grants p u m"
  using assms pathGlobIsSubset_sound [of "pathGlob c" "pathGlob p" u]
  by (auto simp: scopeIsSubset_def scope_grants_def split: option.splits if_splits)

lemma tokens_subset_grants:
  assumes "scopesAreSubset (scopes c) (scopes p)" "safe_scopes c" "safe_scopes p"
    and "\<forall>x \<in> set u. \<not> line_terminator x" "tokenMatchesScope c u m"
  shows "tokenMatchesScope p u m"
  using assms scope_subset_grants unfolding tokenMatchesScope_def scopesAreSubset_def safe_scopes_def by blast

section \<open>What an accepted chain guarantees\<close>

definition linked :: "token \<Rightarrow> token \<Rightarrow> bool" where
  "linked p t \<longleftrightarrow> issuer t = subject p \<and> parentTokenId t = Some (tid p) \<and> delegationDepth t = delegationDepth p + 1
    \<and> \<not> exhausted (maxDelegations p) \<and> \<not> outlives (expiresAt t) (expiresAt p) \<and> scopesAreSubset (scopes t) (scopes p)"

definition authentic :: "crypto \<Rightarrow> (jstr \<Rightarrow> jstr option) \<Rightarrow> int \<Rightarrow> token \<Rightarrow> bool" where
  "authentic C reg now t \<longleftrightarrow> \<not> lapsed (expiresAt t) now \<and>
    (\<exists>pub. reg (issuer t) = Some pub \<and> pub \<noteq> [] \<and> token_signature_ok C t pub = Some True)"

fun links :: "token list \<Rightarrow> bool" where
  "links (a # b # ts) = (linked a b \<and> links (b # ts))"
| "links _ = True"

lemma link_error_None: "link_error i p t = None \<longleftrightarrow> linked p t"
  by (auto simp: link_error_def linked_def)

lemma token_error_None: "token_error C reg now i t = Some None \<longleftrightarrow> authentic C reg now t"
  by (auto simp: token_error_def authentic_def split: option.splits)

lemma check_chain_None:
  "check_chain C reg now i prev ts = Some None \<longleftrightarrow>
    (\<forall>t \<in> set ts. authentic C reg now t) \<and>
    (case prev of None \<Rightarrow> (ts \<noteq> [] \<longrightarrow> delegationDepth (hd ts) = 0) \<and> links ts | Some p \<Rightarrow> links (p # ts))"
proof (induction ts arbitrary: i prev)
  case Nil
  then show ?case by (cases prev) auto
next
  case (Cons t ts)
  let ?e = "case prev of None \<Rightarrow> if delegationDepth t \<noteq> 0 then Some RootDepth else None | Some q \<Rightarrow> link_error i q t"
  let ?fits = "case prev of None \<Rightarrow> delegationDepth t = 0 | Some q \<Rightarrow> linked q t"
  have e: "?e = None \<longleftrightarrow> ?fits" by (cases prev) (auto simp: link_error_None)
  have "check_chain C reg now i prev (t # ts) = Some None \<longleftrightarrow>
      ?e = None \<and> token_error C reg now i t = Some None \<and> check_chain C reg now (Suc i) (Some t) ts = Some None"
    by (auto split: option.splits)
  also have "\<dots> \<longleftrightarrow> ?fits \<and> authentic C reg now t \<and> (\<forall>t \<in> set ts. authentic C reg now t) \<and> links (t # ts)"
    unfolding e token_error_None Cons.IH by simp
  finally show ?case by (cases prev) auto
qed

lemma verifyChain_iff:
  "verifyCapabilityChain C chain reg req mth now = Some (Inr leaf) \<longleftrightarrow>
    chain \<noteq> [] \<and> leaf = last chain \<and> delegationDepth (hd chain) = 0 \<and> links chain \<and>
    (\<forall>t \<in> set chain. authentic C reg now t) \<and>
    (\<forall>p. req = Some p \<longrightarrow> tokenMatchesScope leaf p mth)"
  using check_chain_None [of C reg now 0 None chain]
  by (auto simp: verifyCapabilityChain_def split: option.splits if_splits)

text \<open>Along an accepted chain every token stays inside the root's authority.\<close>

lemma links_expiry:
  "links (r # ts) \<Longrightarrow> \<forall>t \<in> set (r # ts). expiresAt t \<noteq> None \<Longrightarrow> t \<in> set (r # ts) \<Longrightarrow> \<not> outlives (expiresAt t) (expiresAt r)"
proof (induction ts arbitrary: r)
  case Nil
  then show ?case by auto
next
  case (Cons a ts)
  then have l: "linked r a" "links (a # ts)" by auto
  show ?case
  proof (cases "t = r")
    case False
    with Cons l(2) have "\<not> outlives (expiresAt t) (expiresAt a)" by auto
    moreover have "\<not> outlives (expiresAt a) (expiresAt r)" using l(1) by (simp add: linked_def)
    moreover obtain x y z where "expiresAt t = Some x" "expiresAt a = Some y" "expiresAt r = Some z" using Cons.prems by fastforce
    ultimately show ?thesis by simp
  qed (auto simp: outlives_def split: option.split)
qed

lemma links_grants:
  assumes "links (r # ts)" "\<forall>t \<in> set (r # ts). safe_scopes t" "\<forall>x \<in> set u. \<not> line_terminator x"
    and "t \<in> set (r # ts)" "tokenMatchesScope t u m"
  shows "tokenMatchesScope r u m"
  using assms
proof (induction ts arbitrary: r)
  case (Cons a ts)
  then have l: "linked r a" "links (a # ts)" by auto
  show ?case
  proof (cases "t = r")
    case False
    with Cons l(2) have "tokenMatchesScope a u m" by auto
    with l(1) Cons.prems show ?thesis
      using tokens_subset_grants [of a r u m] by (simp add: linked_def)
  qed (use Cons in simp)
qed simp

lemma links_drop: "links ts \<Longrightarrow> links (drop i ts)"
proof (induction ts arbitrary: i rule: links.induct)
  case (1 a b ts)
  then show ?case by (cases i) auto
qed (auto simp: drop_Cons split: nat.split)

lemma links_depth: "links ts \<Longrightarrow> i < length ts \<Longrightarrow> delegationDepth (ts ! i) = delegationDepth (hd ts) + int i"
proof (induction ts arbitrary: i rule: links.induct)
  case (1 a b ts)
  then show ?case by (cases i) (auto simp: linked_def)
qed (auto simp: nth_Cons split: nat.split)

text \<open>So every token of a chain is inside the authority of each one before it.\<close>

lemma links_pair:
  assumes "links chain" "i \<le> j" "j < length chain"
  obtains ts where "links (chain ! i # ts)" "chain ! j \<in> set (chain ! i # ts)" "set (chain ! i # ts) \<subseteq> set chain"
proof (rule that [of "drop (Suc i) chain"])
  have d: "chain ! i # drop (Suc i) chain = drop i chain" using assms(2,3) by (simp add: Cons_nth_drop_Suc)
  show "links (chain ! i # drop (Suc i) chain)" unfolding d by (rule links_drop [OF assms(1)])
  have "chain ! j = drop i chain ! (j - i)" using assms(2,3) by simp
  then show "chain ! j \<in> set (chain ! i # drop (Suc i) chain)" unfolding d using assms(2,3) by (metis diff_less_mono length_drop nth_mem)
  show "set (chain ! i # drop (Suc i) chain) \<subseteq> set chain" unfolding d by (rule set_drop_subset)
qed

lemma links_snoc: "links (ts @ [t]) \<longleftrightarrow> links ts \<and> (ts \<noteq> [] \<longrightarrow> linked (last ts) t)"
  by (induction ts rule: links.induct) auto

section \<open>Delegating from an accepted chain\<close>

lemma signed_token_fields:
  "signed_token C u priv = Some t \<Longrightarrow> t = u\<lparr>tsignature := tsignature t\<rparr>"
  by (auto simp: signed_token_def)

lemma canonical_resign [simp]: "canonicalizeCapabilityToken (u\<lparr>tsignature := s\<rparr>) = canonicalizeCapabilityToken u"
  by (simp add: canonicalizeCapabilityToken_def)

lemma signed_token_verifies:
  "ed_pair C priv pub \<Longrightarrow> signed_token C u priv = Some t \<Longrightarrow> token_signature_ok C t pub = Some True"
  by (auto simp: signed_token_def token_signature_ok_def intro: ed.sign_verifies)

lemma sign_token_exists: "ed_pair C priv pub \<Longrightarrow> \<exists>s. signed_token C u priv = Some (u\<lparr>tsignature := s\<rparr>)"
  using ed.sign_some [of C priv pub "canonicalizeCapabilityToken u"] by (auto simp: signed_token_def)

lemma segs_subset_refl: "segs_subset gs gs"
  by (induction gs) (auto simp: segmentIsSubset_def)

lemma scopesAreSubset_refl [simp]: "scopesAreSubset ss ss"
proof -
  have "scopeIsSubset c c" for c
    by (simp add: scopeIsSubset_def pathGlobIsSubset_def segs_subset_refl split: option.splits)
  then show ?thesis by (auto simp: scopesAreSubset_def)
qed

lemma delegate_signed:
  "delegateCapabilityToken C d now rnd6 = Inr t \<Longrightarrow> signed_token C (unsigned_delegate d now rnd6) (delegatorPrivateKey d) = Some t"
  by (auto simp: delegateCapabilityToken_def split: if_splits option.splits)

lemma delegate_linked:
  assumes "delegateCapabilityToken C d now rnd6 = Inr t"
  shows "linked (parentToken d) t \<and> expiresAt t = Some (now + del_ttlMs d) \<and> issuer t = delegatorId d"
proof -
  from delegate_signed [OF assms] obtain s where t: "t = unsigned_delegate d now rnd6\<lparr>tsignature := s\<rparr>"
    by (auto simp: signed_token_def)
  show ?thesis
    using assms by (auto simp: delegateCapabilityToken_def t linked_def unsigned_delegate_def split: if_splits option.splits)
qed

section \<open>Properties\<close>


definition demo_token :: token where
  "demo_token = \<lparr>tid = js ''t0'', tversion = cap_version, issuer = js ''i'', subject = js ''s'',
    scopes = [\<lparr>pathGlob = js ''/a/*'', methods = None, scopeMaxDelegations = None\<rparr>], issuedAt = Some 0, expiresAt = Some 100,
    delegationDepth = 0, parentTokenId = None, maxDelegations = Some 1, tsignature = [], tkeyId = []\<rparr>"

definition demo_root :: token where
  "demo_root = the (signed_token demo_crypto demo_token (js ''k''))"

definition demo_delegate :: "scope list option \<Rightarrow> delegate_opts" where
  "demo_delegate ss = \<lparr>parentToken = demo_root, delegatorPrivateKey = js ''k'', delegatorId = js ''s'',
    newSubject = js ''t'', del_scopes = ss, del_ttlMs = 50, del_keyId = None\<rparr>"

lemma demo_signed: "\<exists>s. signed_token demo_crypto u priv = Some (u\<lparr>tsignature := s\<rparr>)"
  by (rule sign_token_exists [OF demo_pair])

lemma demo_root_fields: "\<exists>s. demo_root = demo_token\<lparr>tsignature := s\<rparr>"
  using demo_signed [of demo_token "js ''k''"] by (auto simp: demo_root_def)

lemma demo_root_facts: "delegationDepth demo_root = 0" "expiresAt demo_root = Some 100" "maxDelegations demo_root = Some 1" "subject demo_root = js ''s''"
proof -
  obtain s where r: "demo_root = demo_token\<lparr>tsignature := s\<rparr>" using demo_root_fields ..
  show "delegationDepth demo_root = 0" "expiresAt demo_root = Some 100" "maxDelegations demo_root = Some 1" "subject demo_root = js ''s''"
    by (simp_all add: r demo_token_def)
qed

lemma demo_root_ok: "verifyCapabilityChain demo_crypto [demo_root] (\<lambda>i. Some (js ''k'')) None None 10 = Some (Inr demo_root)"
proof -
  obtain t where t: "signed_token demo_crypto demo_token (js ''k'') = Some t" using demo_signed by blast
  then have "token_signature_ok demo_crypto demo_root (js ''k'') = Some True"
    using signed_token_verifies [OF demo_pair t] by (simp add: demo_root_def)
  then show ?thesis
    by (auto simp: verifyChain_iff authentic_def demo_root_facts ascii_eval)
qed


text \<open>C5 Authority can only narrow along an accepted chain: whatever path and method a token of the chain grants, every token before it grants too, down from the root; the depth of each token is its place in the chain; and, when every token states an expiry, none outlives one before it. This holds for scopes that use ** only as whole segments, last in a pattern, and paths without line terminators.\<close>

theorem chain_authority_narrows:
  assumes "verifyCapabilityChain C chain reg req mth now = Some (Inr leaf)" "i \<le> j" "j < length chain"
    and "\<forall>t \<in> set chain. safe_scopes t"
    and "\<forall>x \<in> set p. \<not> line_terminator x" "tokenMatchesScope (chain ! j) p m"
  shows "tokenMatchesScope (chain ! i) p m \<and> delegationDepth (chain ! j) = int j
    \<and> ((\<forall>t \<in> set chain. expiresAt t \<noteq> None) \<longrightarrow> \<not> outlives (expiresAt (chain ! j)) (expiresAt (chain ! i)))"
proof -
  from assms(1) [unfolded verifyChain_iff] have l: "links chain" "delegationDepth (hd chain) = 0" by auto
  obtain ts where ts: "links (chain ! i # ts)" "chain ! j \<in> set (chain ! i # ts)" "set (chain ! i # ts) \<subseteq> set chain"
    using links_pair [OF l(1) assms(2,3)] .
  have "tokenMatchesScope (chain ! i) p m" by (rule links_grants [OF ts(1) _ assms(5) ts(2) assms(6)]) (use assms(4) ts(3) in blast)
  moreover have "\<not> outlives (expiresAt (chain ! j)) (expiresAt (chain ! i))" if "\<forall>t \<in> set chain. expiresAt t \<noteq> None"
    by (rule links_expiry [OF ts(1) _ ts(2)]) (use that ts(3) in blast)
  ultimately show ?thesis using links_depth [OF l(1) assms(3)] l(2) by simp
qed

text \<open>Delegating from the leaf of an accepted chain, with a key that matches the registry, gives a token that extends it to an accepted chain until the new token expires.\<close>

theorem delegation_extends_chain:
  assumes "verifyCapabilityChain C chain reg None None now = Some (Inr (parentToken d))"
    and "delegateCapabilityToken C d now rnd6 = Inr t"
    and "reg (delegatorId d) = Some pub" "pub \<noteq> []" "ed_pair C (delegatorPrivateKey d) pub" "0 < del_ttlMs d"
  shows "verifyCapabilityChain C (chain @ [t]) reg None None now = Some (Inr t)"
proof -
  from assms(1) [unfolded verifyChain_iff] have c: "chain \<noteq> []" "last chain = parentToken d" "delegationDepth (hd chain) = 0"
    "links chain" "\<forall>t \<in> set chain. authentic C reg now t" by auto
  note l = delegate_linked [OF assms(2)]
  have "authentic C reg now t"
    using signed_token_verifies [OF assms(5) delegate_signed [OF assms(2)]] l assms(3,4,6) by (simp add: authentic_def)
  with c l show ?thesis by (simp add: verifyChain_iff links_snoc)
qed

lemma demo_delegates: "\<exists>t. delegateCapabilityToken demo_crypto (demo_delegate None) 10 [] = Inr t"
proof -
  obtain s where r: "demo_root = demo_token\<lparr>tsignature := s\<rparr>" using demo_root_fields ..
  obtain t where "signed_token demo_crypto (unsigned_delegate (demo_delegate None) 10 []) (js ''k'') = Some t"
    using demo_signed by blast
  then show ?thesis
    by (simp add: delegateCapabilityToken_def demo_delegate_def r demo_token_def delegated_scopes_def exhausted_def
      scopesAreSubset_def scopeIsSubset_def pathGlobIsSubset_def segmentIsSubset_def double_star_def ascii_eval)
qed

lemma demo_two_tokens:
  assumes "delegateCapabilityToken demo_crypto (demo_delegate None) 10 [] = Inr t"
  shows "verifyCapabilityChain demo_crypto [demo_root, t] (\<lambda>i. Some (js ''k'')) None None 10 = Some (Inr t)"
proof -
  have p: "parentToken (demo_delegate None) = demo_root" by (simp add: demo_delegate_def)
  note l = delegate_linked [OF assms] and s = signed_token_verifies [OF demo_pair, of _ "js ''k''"]
  have "authentic demo_crypto (\<lambda>i. Some (js ''k'')) 10 t"
    using s [of "unsigned_delegate (demo_delegate None) 10 []" t] delegate_signed [OF assms] l
    by (simp add: authentic_def demo_delegate_def ascii_eval)
  with demo_root_ok l p show ?thesis by (simp add: verifyChain_iff)
qed

theorem delegation_extends_chain_witness:
  "\<exists>t. verifyCapabilityChain demo_crypto ([demo_root] @ [t]) (\<lambda>i. Some (js ''k'')) None None 10 = Some (Inr t)"
proof -
  obtain t where t: "delegateCapabilityToken demo_crypto (demo_delegate None) 10 [] = Inr t" using demo_delegates ..
  have p: "parentToken (demo_delegate None) = demo_root" by (simp add: demo_delegate_def)
  show ?thesis
    using delegation_extends_chain [OF demo_root_ok [folded p] t refl] by (auto simp: demo_delegate_def ascii_eval)
qed

theorem chain_authority_narrows_witness:
  "\<exists>t. verifyCapabilityChain demo_crypto [demo_root, t] (\<lambda>i. Some (js ''k'')) None None 10 = Some (Inr t) \<and> expiresAt t = Some 60
    \<and> tokenMatchesScope t (js ''/a/x'') None \<and> tokenMatchesScope demo_root (js ''/a/x'') None \<and> delegationDepth t = 1 \<and> \<not> outlives (expiresAt t) (expiresAt demo_root)"
proof -
  obtain t where t: "delegateCapabilityToken demo_crypto (demo_delegate None) 10 [] = Inr t" using demo_delegates ..
  have acc: "verifyCapabilityChain demo_crypto [demo_root, t] (\<lambda>i. Some (js ''k'')) None None 10 = Some (Inr t)" by (rule demo_two_tokens [OF t])
  obtain s where r: "demo_root = demo_token\<lparr>tsignature := s\<rparr>" using demo_root_fields ..
  obtain s' where t': "t = (unsigned_delegate (demo_delegate None) 10 [])\<lparr>tsignature := s'\<rparr>"
    using delegate_signed [OF t] by (auto simp: signed_token_def)
  have f: "scopes t = scopes demo_token" "expiresAt t = Some 60" "expiresAt demo_root = Some 100"
    by (simp_all add: t' r unsigned_delegate_def delegated_scopes_def demo_delegate_def demo_token_def)
  have g: "\<forall>u \<in> set [demo_root, t]. safe_scopes u"
    by (simp add: r f safe_scopes_def) (simp add: demo_token_def plain_segments_def deep_last_def double_star_def ascii_eval startsWith_def)
  have p: "\<forall>x \<in> set (js ''/a/x''). \<not> line_terminator x" by (simp add: ascii_eval line_terminator_def)
  have m: "tokenMatchesScope ([demo_root, t] ! 1) (js ''/a/x'') None"
    by (simp add: tokenMatchesScope_def f) (simp add: demo_token_def scope_grants_def matchGlob_def ascii_eval)
  show ?thesis using chain_authority_narrows [OF acc, of 0 1, OF _ _ g p m] m acc f by (intro exI [of _ t]) simp
qed

text \<open>A token without an expiry is neither expired nor a bound for the next one: the holder of a token can sign a hop without expiresAt and under it one that expires long after the root, and while the root lives the chain is accepted.\<close>

theorem missing_expiry_unbounded:
  assumes "verifyCapabilityChain C [root] reg None None now = Some (Inr root)" "maxDelegations root = None" "expiresAt root = Some x"
    and "reg (subject root) = Some pub" "pub \<noteq> []" "ed_pair C priv pub" "x < y"
  shows "\<exists>hop leaf. expiresAt leaf = Some y \<and> verifyCapabilityChain C [root, hop, leaf] reg None None now = Some (Inr leaf)"
proof -
  from assms(1) [unfolded verifyChain_iff] have r: "delegationDepth root = 0" "authentic C reg now root" by auto
  then have live: "now < x" using assms(3) by (simp add: authentic_def)
  let ?hop = "root\<lparr>issuer := subject root, parentTokenId := Some (tid root), delegationDepth := 1, expiresAt := None\<rparr>"
  obtain s where s: "signed_token C ?hop priv = Some (?hop\<lparr>tsignature := s\<rparr>)" using sign_token_exists [OF assms(6)] by blast
  let ?leaf = "?hop\<lparr>delegationDepth := 2, expiresAt := Some y\<rparr>"
  obtain s' where s': "signed_token C ?leaf priv = Some (?leaf\<lparr>tsignature := s'\<rparr>)" using sign_token_exists [OF assms(6)] by blast
  have "authentic C reg now (?hop\<lparr>tsignature := s\<rparr>)" "authentic C reg now (?leaf\<lparr>tsignature := s'\<rparr>)"
    using signed_token_verifies [OF assms(6) s] signed_token_verifies [OF assms(6) s'] assms(4,5,7) live
    by (auto simp: authentic_def)
  then have "verifyCapabilityChain C [root, ?hop\<lparr>tsignature := s\<rparr>, ?leaf\<lparr>tsignature := s'\<rparr>] reg None None now
      = Some (Inr (?leaf\<lparr>tsignature := s'\<rparr>))"
    using r assms(2) by (auto simp: verifyChain_iff linked_def exhausted_def)
  then show ?thesis
    by (intro exI [of _ "?hop\<lparr>tsignature := s\<rparr>"] exI [of _ "?leaf\<lparr>tsignature := s'\<rparr>"] conjI) simp_all
qed

text \<open>Outside those patterns the containment check lets a delegate escalate: it accepts a child segment with an inner ** under a parent *, and anything below a parent ** that is not last, although the child then matches paths the parent does not.\<close>

theorem containment_escalates:
  "pathGlobIsSubset (js ''/api/x**'') (js ''/api/*'') \<and>
   matchGlob (js ''/api/x**'') (js ''/api/x/admin'') \<and> \<not> matchGlob (js ''/api/*'') (js ''/api/x/admin'') \<and>
   pathGlobIsSubset (js ''/api/x/delete'') (js ''/api/**/read'') \<and>
   matchGlob (js ''/api/x/delete'') (js ''/api/x/delete'') \<and> \<not> matchGlob (js ''/api/**/read'') (js ''/api/x/delete'')"
  by (intro conjI) (simp_all add: pathGlobIsSubset_def segmentIsSubset_def double_star_def matchGlob_def ascii_eval line_terminator_def)

text \<open>Verification does not make the delegation allowance shrink: a subject whose token allows one more delegation can sign a hop to itself that allows any number, and the chain it then extends beyond what the root permitted is accepted.\<close>

theorem delegation_allowance_can_grow:
  assumes "verifyCapabilityChain C [root] reg None None now = Some (Inr root)" "maxDelegations root = Some 1"
    and "reg (subject root) = Some pub" "pub \<noteq> []" "ed_pair C priv pub" "0 < n"
  shows "\<exists>hop leaf. maxDelegations hop = Some n \<and> verifyCapabilityChain C [root, hop, leaf] reg None None now = Some (Inr leaf)"
proof -
  from assms(1) [unfolded verifyChain_iff] have r: "delegationDepth root = 0" "authentic C reg now root" by auto
  then have live: "\<not> lapsed (expiresAt root) now" by (simp add: authentic_def)
  let ?hop = "root\<lparr>issuer := subject root, parentTokenId := Some (tid root), delegationDepth := 1, maxDelegations := Some n\<rparr>"
  obtain s where s: "signed_token C ?hop priv = Some (?hop\<lparr>tsignature := s\<rparr>)" using sign_token_exists [OF assms(5)] by blast
  let ?leaf = "?hop\<lparr>delegationDepth := 2\<rparr>"
  obtain s' where s': "signed_token C ?leaf priv = Some (?leaf\<lparr>tsignature := s'\<rparr>)" using sign_token_exists [OF assms(5)] by blast
  have "authentic C reg now (?hop\<lparr>tsignature := s\<rparr>)" "authentic C reg now (?leaf\<lparr>tsignature := s'\<rparr>)"
    using signed_token_verifies [OF assms(5) s] signed_token_verifies [OF assms(5) s'] assms(3,4) live
    by (auto simp: authentic_def)
  then have "verifyCapabilityChain C [root, ?hop\<lparr>tsignature := s\<rparr>, ?leaf\<lparr>tsignature := s'\<rparr>] reg None None now
      = Some (Inr (?leaf\<lparr>tsignature := s'\<rparr>))"
    using r assms(2,6) by (auto simp: verifyChain_iff linked_def exhausted_def)
  then show ?thesis
    by (intro exI [of _ "?hop\<lparr>tsignature := s\<rparr>"] exI [of _ "?leaf\<lparr>tsignature := s'\<rparr>"] conjI) simp_all
qed

theorem delegation_allowance_can_grow_witness:
  "\<exists>hop leaf. maxDelegations hop = Some 99 \<and>
    verifyCapabilityChain demo_crypto [demo_root, hop, leaf] (\<lambda>i. Some (js ''k'')) None None 10 = Some (Inr leaf)"
  by (rule delegation_allowance_can_grow [OF demo_root_ok demo_root_facts(3) refl _ demo_pair]) (simp_all add: ascii_eval)

end
