(* ===== verification/Approval.thy ===== *)
theory Approval
  imports ReplayStores RoutePolicy Capability
begin

text \<open>
  Statements bound to one action: \<open>src/actionBinding.ts\<close> (hashing a request to the triple
  a statement names) and \<open>src/approval.ts\<close> (issuing, parsing and verifying single-use
  approval grants). \<open>JSON.parse\<close> is an argument of the parser. A canonical form or a
  WebCrypto call that throws is \<open>None\<close>. The replay store is the interface of
  \<open>ReplayStores\<close>; single use is proved once in its locale.
\<close>

section \<open>Bound actions\<close>

record bound_action =
  act_method :: jstr
  act_path :: jstr
  act_bodySha256 :: jstr

definition sha256Hex :: "crypto \<Rightarrow> jstr \<Rightarrow> jstr" where
  "sha256Hex C s = toHex (sha256_raw C (utf8Encode s))"

definition bindAction :: "crypto \<Rightarrow> jstr \<Rightarrow> jstr \<Rightarrow> jstr option \<Rightarrow> bound_action option" where
  "bindAction C mth p bdy =
    (if mth = [] then None
     else if \<not> startsWith p (js ''/'') then None
     else Some \<lparr>act_method = toUpperCase mth, act_path = p,
            act_bodySha256 = sha256Hex C (case bdy of None \<Rightarrow> [] | Some b \<Rightarrow> b)\<rparr>)"

definition actionsEqual :: "bound_action \<Rightarrow> bound_action \<Rightarrow> bool" where
  "actionsEqual a b \<longleftrightarrow> act_method a = act_method b \<and> act_path a = act_path b \<and> act_bodySha256 a = act_bodySha256 b"

lemma actionsEqual_iff: "actionsEqual a b \<longleftrightarrow> a = b"
  by (auto simp: actionsEqual_def bound_action.equality)

text \<open>\<open>/^[0-9a-f]{64}$/\<close>.\<close>

definition is_sha256_hex :: "jstr \<Rightarrow> bool" where
  "is_sha256_hex s \<longleftrightarrow> length s = 64 \<and> (\<forall>c \<in> set s. (48 \<le> unat c \<and> unat c \<le> 57) \<or> (97 \<le> unat c \<and> unat c \<le> 102))"

definition action_fields_ok :: "jstr \<Rightarrow> jstr \<Rightarrow> jstr \<Rightarrow> bool" where
  "action_fields_ok m p b \<longleftrightarrow> m \<noteq> [] \<and> startsWith p (js ''/'') \<and> is_sha256_hex b"

definition isBoundAction :: "json \<Rightarrow> bound_action option" where
  "isBoundAction v =
    (case (jmember v ''method'', jmember v ''path'', jmember v ''bodySha256'') of
       (Some (JStr m), Some (JStr p), Some (JStr b)) \<Rightarrow>
         if action_fields_ok m p b then Some \<lparr>act_method = m, act_path = p, act_bodySha256 = b\<rparr> else None
     | _ \<Rightarrow> None)"

definition action_json :: "bound_action \<Rightarrow> json" where
  "action_json a = JObj [(js ''method'', JStr (act_method a)), (js ''path'', JStr (act_path a)),
     (js ''bodySha256'', JStr (act_bodySha256 a))]"

lemma action_json_norm_inj [simp]: "norm_json (action_json a) = norm_json (action_json b) \<longleftrightarrow> a = b"
proof
  assume n: "norm_json (action_json a) = norm_json (action_json b)"
  show "a = b"
    using norm_same_keys [OF n [unfolded action_json_def]] by (simp add: bound_action.equality)
qed simp

section \<open>Grants\<close>

record grant =
  g_version :: jstr
  g_id :: jstr
  g_approver :: jstr
  g_subject :: jstr
  g_action :: bound_action
  g_reason :: "jstr option"
  g_issuedAt :: int
  g_expiresAt :: int
  g_keyId :: jstr
  g_signature :: jstr

definition approval_version :: jstr where
  "approval_version = js ''7h3-approval/1''"

definition MAX_APPROVAL_TTL_MS :: int where
  "MAX_APPROVAL_TTL_MS = 600000"

definition DEFAULT_APPROVAL_TTL_MS :: int where
  "DEFAULT_APPROVAL_TTL_MS = 120000"

text \<open>\<open>unsignedForm\<close>: every field but the signature.\<close>

definition unsigned_members :: "grant \<Rightarrow> (jstr \<times> json) list" where
  "unsigned_members g =
    [(js ''version'', JStr (g_version g)), (js ''id'', JStr (g_id g)), (js ''approver'', JStr (g_approver g)),
     (js ''subject'', JStr (g_subject g)), (js ''action'', action_json (g_action g)),
     (js ''issuedAt'', JNum (Fin (g_issuedAt g))), (js ''expiresAt'', JNum (Fin (g_expiresAt g))),
     (js ''keyId'', JStr (g_keyId g))]
    @ opt_field ''reason'' JStr (g_reason g)"

definition canonicalizeApproval :: "grant \<Rightarrow> jstr option" where
  "canonicalizeApproval g = stableStringify (JObj (unsigned_members g))"

lemma finite_members [simp]: "json_finite (JObj (unsigned_members g))"
  by (cases "g_reason g") (auto simp: unsigned_members_def opt_field_def action_json_def)

lemma canonicalizeApproval_some: "\<exists>t. canonicalizeApproval g = Some t"
  unfolding canonicalizeApproval_def stableStringify_finite [OF finite_members] by blast



definition sign_canonical :: "crypto \<Rightarrow> jstr option \<Rightarrow> jstr \<Rightarrow> jstr option" where
  "sign_canonical C payload priv = (case payload of None \<Rightarrow> None | Some p \<Rightarrow> signCanonicalPayloadEd25519 C p priv)"

definition verify_canonical :: "crypto \<Rightarrow> jstr option \<Rightarrow> jstr \<Rightarrow> jstr \<Rightarrow> bool option" where
  "verify_canonical C payload sg pub = (case payload of None \<Rightarrow> None | Some p \<Rightarrow> verifyCanonicalPayloadEd25519 C p sg pub)"

lemma verify_canonical_sign:
  "ed_pair C priv pub \<Longrightarrow> sign_canonical C p priv = Some s \<Longrightarrow> verify_canonical C p s pub = Some True"
  by (auto simp: sign_canonical_def verify_canonical_def split: option.splits intro: ed.sign_verifies)

datatype issue_error = BadTtl | TtlTooLong | MissingIdentity | IssueSelfApproval | MalformedAction | IssueSigningThrew

record approval_opts =
  approverPrivateKey :: jstr
  approverId :: jstr
  ap_subject :: jstr
  ap_action :: bound_action
  ap_ttlMs :: "jnum option"
  ap_reason :: "jstr option"
  ap_keyId :: "jstr option"

text \<open>
  The action comes already bound (a raw one goes through \<open>bindAction\<close> first); \<open>now\<close> and
  \<open>rnd8\<close> are the clock reading and the random bytes of the id.
\<close>

definition issueApproval :: "crypto \<Rightarrow> approval_opts \<Rightarrow> int \<Rightarrow> bytes \<Rightarrow> issue_error + grant" where
  "issueApproval C o' now rnd8 =
    (case (case ap_ttlMs o' of None \<Rightarrow> Fin DEFAULT_APPROVAL_TTL_MS | Some n \<Rightarrow> n) of
       Fin ttl \<Rightarrow>
         if ttl \<le> 0 then Inl BadTtl
         else if MAX_APPROVAL_TTL_MS < ttl then Inl TtlTooLong
         else if approverId o' = [] \<or> ap_subject o' = [] then Inl MissingIdentity
         else if approverId o' = ap_subject o' then Inl IssueSelfApproval
         else if \<not> action_fields_ok (act_method (ap_action o')) (act_path (ap_action o')) (act_bodySha256 (ap_action o'))
           then Inl MalformedAction
         else let g = \<lparr>g_version = approval_version, g_id = js ''appr-'' @ show_int now @ js ''-'' @ randomHex rnd8,
                 g_approver = approverId o', g_subject = ap_subject o',
                 g_action = (ap_action o')\<lparr>act_method := toUpperCase (act_method (ap_action o'))\<rparr>,
                 g_reason = ap_reason o', g_issuedAt = now, g_expiresAt = now + ttl,
                 g_keyId = (case ap_keyId o' of None \<Rightarrow> approverId o' @ js ''-key'' | Some k \<Rightarrow> k), g_signature = []\<rparr>
           in (case sign_canonical C (canonicalizeApproval g) (approverPrivateKey o') of
                 None \<Rightarrow> Inl IssueSigningThrew | Some s \<Rightarrow> Inr (g\<lparr>g_signature := s\<rparr>))
     | _ \<Rightarrow> Inl BadTtl)"

section \<open>The header\<close>

definition grant_json :: "grant \<Rightarrow> json" where
  "grant_json g = JObj (unsigned_members g @ [(js ''signature'', JStr (g_signature g))])"

definition serializeApproval :: "grant \<Rightarrow> jstr" where
  "serializeApproval g = print_json (grant_json g)"

definition non_empty_string :: "json option \<Rightarrow> jstr option" where
  "non_empty_string v = (case v of Some (JStr s) \<Rightarrow> if s = [] then None else Some s | _ \<Rightarrow> None)"

definition positive_time :: "json option \<Rightarrow> int option" where
  "positive_time v = (case v of Some (JNum (Fin n)) \<Rightarrow> if n \<le> max_safe \<and> 0 < n then Some n else None | _ \<Rightarrow> None)"

definition optional_string :: "json option \<Rightarrow> jstr option option" where
  "optional_string v = (case v of None \<Rightarrow> Some None | Some (JStr s) \<Rightarrow> Some (Some s) | _ \<Rightarrow> None)"

definition parseApproval :: "(jstr \<Rightarrow> json option) \<Rightarrow> jstr option \<Rightarrow> grant option" where
  "parseApproval parse raw =
    (case raw of None \<Rightarrow> None
     | Some r \<Rightarrow>
       if r = [] \<or> 8 * 1024 < length r then None
       else (case parse r of
         Some (JObj kvs) \<Rightarrow>
           let v = JObj kvs in
           (case (non_empty_string (jmember v ''version''), non_empty_string (jmember v ''id''),
                  non_empty_string (jmember v ''approver''), non_empty_string (jmember v ''subject''),
                  (case jmember v ''action'' of None \<Rightarrow> None | Some a \<Rightarrow> isBoundAction a),
                  positive_time (jmember v ''issuedAt''), positive_time (jmember v ''expiresAt''),
                  non_empty_string (jmember v ''keyId''), non_empty_string (jmember v ''signature''),
                  optional_string (jmember v ''reason'')) of
              (Some ver, Some i, Some ap, Some sub, Some act, Some iat, Some eat, Some kid, Some sg, Some rsn) \<Rightarrow>
                Some \<lparr>g_version = ver, g_id = i, g_approver = ap, g_subject = sub, g_action = act, g_reason = rsn,
                      g_issuedAt = iat, g_expiresAt = eat, g_keyId = kid, g_signature = sg\<rparr>
            | _ \<Rightarrow> None)
       | _ \<Rightarrow> None))"

definition grant_well_formed :: "grant \<Rightarrow> bool" where
  "grant_well_formed g \<longleftrightarrow> g_version g \<noteq> [] \<and> g_id g \<noteq> [] \<and> g_approver g \<noteq> [] \<and> g_subject g \<noteq> [] \<and> g_keyId g \<noteq> [] \<and> g_signature g \<noteq> []
     \<and> action_fields_ok (act_method (g_action g)) (act_path (g_action g)) (act_bodySha256 (g_action g))
     \<and> 0 < g_issuedAt g \<and> g_issuedAt g \<le> max_safe \<and> 0 < g_expiresAt g \<and> g_expiresAt g \<le> max_safe"

lemma parse_serialize:
  assumes "grant_well_formed g" "length (serializeApproval g) \<le> 8192" "parse (serializeApproval g) = Some (grant_json g)"
  shows "parseApproval parse (Some (serializeApproval g)) = Some g"
proof -
  have "serializeApproval g \<noteq> []" by (simp add: serializeApproval_def grant_json_def)
  then show ?thesis
    using assms
    by (cases "g_reason g")
      (simp_all add: parseApproval_def grant_json_def unsigned_members_def opt_field_def non_empty_string_def positive_time_def
        optional_string_def isBoundAction_def action_json_def grant_well_formed_def)
qed

lemma non_empty_stringD: "non_empty_string v = Some s \<Longrightarrow> s \<noteq> []"
  by (auto simp: non_empty_string_def split: option.splits json.splits if_splits)

lemma positive_timeD: "positive_time v = Some n \<Longrightarrow> 0 < n \<and> n \<le> max_safe"
  by (auto simp: positive_time_def split: option.splits json.splits jnum.splits if_splits)

lemma isBoundActionD: "isBoundAction v = Some a \<Longrightarrow> action_fields_ok (act_method a) (act_path a) (act_bodySha256 a)"
  by (auto simp: isBoundAction_def split: option.splits json.splits if_splits)

lemma parseApproval_well_formed: "parseApproval parse raw = Some g \<Longrightarrow> grant_well_formed g"
  by (auto simp: parseApproval_def grant_well_formed_def Let_def split: option.split_asm json.split_asm if_split_asm
      dest: non_empty_stringD positive_timeD isBoundActionD)

section \<open>Verification\<close>

datatype approval_failure =
  Malformed | UnsupportedApprovalVersion | ApproverNotAllowed | SelfApproval | ApprovalTtlTooLong | NotYetValid | ApprovalExpired
  | SubjectMismatch | ActionMismatch | NoApproverKey | InvalidApprovalSignature | AlreadyUsed

record verify_opts =
  vo_approverKeys :: "jstr \<Rightarrow> jstr option"
  vo_allowedApprovers :: "jstr list"
  vo_subject :: jstr
  vo_action :: bound_action
  vo_now :: int
  vo_skew :: int

definition approval_checks :: "grant \<Rightarrow> verify_opts \<Rightarrow> approval_failure option" where
  "approval_checks g o' =
    (if g_version g \<noteq> approval_version then Some UnsupportedApprovalVersion
     else if g_approver g \<notin> set (vo_allowedApprovers o') then Some ApproverNotAllowed
     else if g_approver g = g_subject g then Some SelfApproval
     else if g_expiresAt g \<le> g_issuedAt g \<or> MAX_APPROVAL_TTL_MS < g_expiresAt g - g_issuedAt g then Some ApprovalTtlTooLong
     else if vo_now o' + vo_skew o' < g_issuedAt g then Some NotYetValid
     else if g_expiresAt g \<le> vo_now o' then Some ApprovalExpired
     else if g_subject g \<noteq> vo_subject o' then Some SubjectMismatch
     else if \<not> actionsEqual (g_action g) (vo_action o') then Some ActionMismatch
     else None)"

definition approval_key :: "grant \<Rightarrow> jstr" where
  "approval_key g = js ''7h3:approval:'' @ g_id g"

text \<open>
  The store is optional: its check answers True for a replay and \<open>None\<close> when it throws,
  at the store's clock reading. The outer option is a throw of \<open>verifyApproval\<close>.
\<close>

definition verifyApproval ::
  "crypto \<Rightarrow> ('st \<Rightarrow> jstr \<Rightarrow> jnum \<Rightarrow> int \<Rightarrow> 'st \<times> bool option) option \<Rightarrow> 'st \<Rightarrow> int \<Rightarrow> grant option \<Rightarrow> verify_opts
    \<Rightarrow> 'st \<times> (approval_failure + grant) option" where
  "verifyApproval C check st clock grant o' =
    (if vo_allowedApprovers o' = [] then (st, None)
     else case grant of
       None \<Rightarrow> (st, Some (Inl Malformed))
     | Some g \<Rightarrow>
         (case approval_checks g o' of
            Some e \<Rightarrow> (st, Some (Inl e))
          | None \<Rightarrow>
              (case vo_approverKeys o' (g_approver g) of
                 None \<Rightarrow> (st, Some (Inl NoApproverKey))
               | Some pub \<Rightarrow>
                   if pub = [] then (st, Some (Inl NoApproverKey))
                   else (case verify_canonical C (canonicalizeApproval g) (g_signature g) pub of
                      None \<Rightarrow> (st, None)
                    | Some False \<Rightarrow> (st, Some (Inl InvalidApprovalSignature))
                    | Some True \<Rightarrow>
                        (case check of
                           None \<Rightarrow> (st, Some (Inr g))
                         | Some chk \<Rightarrow>
                             (case chk st (approval_key g) (Fin (max 1 (g_expiresAt g - vo_now o') + vo_skew o')) clock of
                                (st', None) \<Rightarrow> (st', None)
                              | (st', Some True) \<Rightarrow> (st', Some (Inl AlreadyUsed))
                              | (st', Some False) \<Rightarrow> (st', Some (Inr g))))))))"

definition approval_authentic :: "crypto \<Rightarrow> grant \<Rightarrow> verify_opts \<Rightarrow> bool" where
  "approval_authentic C g o' \<longleftrightarrow> approval_checks g o' = None \<and>
    (\<exists>pub. vo_approverKeys o' (g_approver g) = Some pub \<and> pub \<noteq> [] \<and> verify_canonical C (canonicalizeApproval g) (g_signature g) pub = Some True)"

lemma verifyApproval_authentic:
  "snd (verifyApproval C check st clock (Some g) o') = Some (Inr g') \<Longrightarrow> g' = g \<and> approval_authentic C g o'"
  by (auto simp: verifyApproval_def approval_authentic_def split: if_splits option.splits bool.splits prod.splits)

text \<open>A presentation that fails any other check leaves the store untouched: it cannot burn the grant.\<close>

lemma verifyApproval_untouched:
  "\<not> approval_authentic C g o' \<Longrightarrow> fst (verifyApproval C check st clock (Some g) o') = st"
  by (auto simp: verifyApproval_def approval_authentic_def split: option.splits bool.splits)

lemma verifyApproval_reaches_store:
  assumes "approval_authentic C g o'" "vo_allowedApprovers o' \<noteq> []"
  shows "verifyApproval C (Some chk) st clock (Some g) o' =
    (case chk st (approval_key g) (Fin (max 1 (g_expiresAt g - vo_now o') + vo_skew o')) clock of
       (st', None) \<Rightarrow> (st', None) | (st', Some True) \<Rightarrow> (st', Some (Inl AlreadyUsed)) | (st', Some False) \<Rightarrow> (st', Some (Inr g)))"
  using assms by (auto simp: verifyApproval_def approval_authentic_def)


section \<open>Single use\<close>

text \<open>The interface of a store as \<open>verifyApproval\<close> calls it.\<close>

locale replay_checker = replay_store mark holds invar
  for mark :: "'st \<Rightarrow> jstr \<Rightarrow> jnum \<Rightarrow> int \<Rightarrow> 'st \<times> bool" and holds :: "'st \<Rightarrow> jstr \<Rightarrow> int \<Rightarrow> bool" and invar :: "'st \<Rightarrow> bool" +
  fixes check :: "'st \<Rightarrow> jstr \<Rightarrow> jnum \<Rightarrow> int \<Rightarrow> 'st \<times> bool option"
  assumes mark_check: "mark st k ttl now = map_prod id (\<lambda>r. r = Some False) (check st k ttl now)"
begin

lemma accepted_is_fresh:
  assumes "snd (verifyApproval C (Some check) st clock (Some g) o') = Some (Inr g)"
  shows "snd (mark st (approval_key g) (Fin (max 1 (g_expiresAt g - vo_now o') + vo_skew o')) clock)"
    and "fst (verifyApproval C (Some check) st clock (Some g) o') =
      fst (mark st (approval_key g) (Fin (max 1 (g_expiresAt g - vo_now o') + vo_skew o')) clock)"
proof -
  have "vo_allowedApprovers o' \<noteq> []" using assms by (auto simp: verifyApproval_def)
  from verifyApproval_reaches_store [OF _ this, of C g check st clock] verifyApproval_authentic [OF assms] assms
  show "snd (mark st (approval_key g) (Fin (max 1 (g_expiresAt g - vo_now o') + vo_skew o')) clock)"
    and "fst (verifyApproval C (Some check) st clock (Some g) o') =
      fst (mark st (approval_key g) (Fin (max 1 (g_expiresAt g - vo_now o') + vo_skew o')) clock)"
    by (auto simp: mark_check split: prod.splits option.splits bool.splits)
qed

lemma single_use:
  assumes "invar st" "snd (verifyApproval C (Some check) st clock (Some g) o1) = Some (Inr g)"
    and "\<forall>(k, ttl, now) \<in> set evs. now \<le> clock2" "g_id g2 = g_id g"
    and "clock2 < clock + (g_expiresAt g - vo_now o1) + vo_skew o1"
  shows "snd (verifyApproval C (Some check) (mark_run (fst (verifyApproval C (Some check) st clock (Some g) o1)) evs) clock2 (Some g2) o2)
    \<noteq> Some (Inr g2)"
proof
  let ?st = "mark_run (fst (verifyApproval C (Some check) st clock (Some g) o1)) evs"
  assume "snd (verifyApproval C (Some check) ?st clock2 (Some g2) o2) = Some (Inr g2)"
  from accepted_is_fresh(1) [OF this] have "snd (mark ?st (approval_key g2) (Fin (max 1 (g_expiresAt g2 - vo_now o2) + vo_skew o2)) clock2)" .
  moreover have "approval_key g2 = approval_key g" using assms(4) by (simp add: approval_key_def)
  ultimately show False
    using no_replay [OF assms(1) accepted_is_fresh(1) [OF assms(2)] assms(3), of "Fin (max 1 (g_expiresAt g2 - vo_now o2) + vo_skew o2)"]
      assms(5) accepted_is_fresh(2) [OF assms(2)] by simp
qed

end

interpretation memory_checker: replay_checker mem_mark mem_holds mem_inv mem_check
  by unfold_locales (simp add: mem_mark_def)

definition redis_check' :: "redis_replay_store \<Rightarrow> jstr \<Rightarrow> jnum \<Rightarrow> int \<Rightarrow> redis_replay_store \<times> bool option" where
  "redis_check' s k ttl now = map_prod id Some (redis_check s k ttl now)"

interpretation redis_checker: replay_checker redis_mark store_holds "\<lambda>s. True" redis_check'
  by unfold_locales (simp add: redis_mark_def redis_check'_def map_prod_def case_prod_beta)

lemma issue_fields:
  assumes "issueApproval C o' now rnd = Inr g"
  shows "\<exists>ttl. g_expiresAt g = now + ttl \<and> 0 < ttl \<and> ttl \<le> MAX_APPROVAL_TTL_MS \<and> g_issuedAt g = now \<and> g_version g = approval_version
    \<and> g_approver g = approverId o' \<and> g_subject g = ap_subject o' \<and> g_approver g \<noteq> g_subject g
    \<and> act_path (g_action g) = act_path (ap_action o') \<and> act_bodySha256 (g_action g) = act_bodySha256 (ap_action o')
    \<and> sign_canonical C (canonicalizeApproval g) (approverPrivateKey o') = Some (g_signature g)"
  using assms
  by (auto simp: issueApproval_def Let_def canonicalizeApproval_def unsigned_members_def split: jnum.splits if_splits option.splits)

section \<open>Properties\<close>

lemma canonical_ignores_signature [simp]: "canonicalizeApproval (g\<lparr>g_signature := s\<rparr>) = canonicalizeApproval g"
  by (simp add: canonicalizeApproval_def unsigned_members_def)

lemma sign_canonical_some: "ed_pair C priv pub \<Longrightarrow> \<exists>s. sign_canonical C (Some p) priv = Some s"
  by (simp add: sign_canonical_def ed.sign_some)

definition demo_grant :: grant where
  "demo_grant = \<lparr>g_version = approval_version, g_id = js ''i'', g_approver = js ''a'', g_subject = js ''s'',
    g_action = \<lparr>act_method = js ''PAY'', act_path = js ''/m'', act_bodySha256 = js ''d''\<rparr>, g_reason = None,
    g_issuedAt = 100, g_expiresAt = 200, g_keyId = js ''k'', g_signature = []\<rparr>"

definition demo_opts :: "int \<Rightarrow> verify_opts" where
  "demo_opts t = \<lparr>vo_approverKeys = (\<lambda>x. Some (js ''p'')), vo_allowedApprovers = [js ''a''], vo_subject = js ''s'',
    vo_action = g_action demo_grant, vo_now = t, vo_skew = 30\<rparr>"

lemma demo_grant_authentic:
  "\<exists>s. approval_authentic demo_crypto (demo_grant\<lparr>g_signature := s\<rparr>) (demo_opts 150)"
proof -
  obtain t where t: "canonicalizeApproval demo_grant = Some t" using canonicalizeApproval_some by blast
  then obtain s where "sign_canonical demo_crypto (canonicalizeApproval demo_grant) (js ''k'') = Some s"
    using sign_canonical_some [OF demo_pair] by metis
  from verify_canonical_sign [OF demo_pair this, of "js ''p''"] show ?thesis
    by (auto simp: approval_authentic_def approval_checks_def demo_opts_def)
      (auto simp: demo_grant_def MAX_APPROVAL_TTL_MS_def actionsEqual_iff ascii_eval)
qed



text \<open>A grant authorises one call: after verifyApproval over the single-process replay store accepted it, no later presentation of a grant with that id is accepted before the grant expires, whatever other checks went through the store, and only a grant that passes every other check can change the store at all.\<close>

theorem approval_single_use:
  assumes "mem_inv st" "snd (verifyApproval C (Some mem_check) st clock (Some g) o1) = Some (Inr g)"
    and "\<forall>(k, ttl, now) \<in> set evs. now \<le> clock2" "g_id g2 = g_id g"
    and "clock2 < clock + (g_expiresAt g - vo_now o1) + vo_skew o1"
    and "\<not> approval_authentic C g3 o3"
  shows "snd (verifyApproval C (Some mem_check)
      (memory_replay.mark_run (fst (verifyApproval C (Some mem_check) st clock (Some g) o1)) evs) clock2 (Some g2) o2) \<noteq> Some (Inr g2)
    \<and> fst (verifyApproval C (Some mem_check) st3 clock3 (Some g3) o3) = st3"
  by (rule conjI [OF memory_checker.single_use [OF assms(1-5)] verifyApproval_untouched [OF assms(6)]])

theorem approval_single_use_witness:
  "\<exists>g. snd (verifyApproval demo_crypto (Some mem_check) \<lparr>mem_entries = [], mem_max = 5\<rparr> 7 (Some g) (demo_opts 150)) = Some (Inr g) \<and>
    snd (verifyApproval demo_crypto (Some mem_check)
      (memory_replay.mark_run (fst (verifyApproval demo_crypto (Some mem_check) \<lparr>mem_entries = [], mem_max = 5\<rparr> 7 (Some g) (demo_opts 150)))
        [(js ''z'', Fin 9, 20)]) 50 (Some g) (demo_opts 160)) \<noteq> Some (Inr g)"
proof -
  let ?st = "\<lparr>mem_entries = [], mem_max = 5\<rparr>"
  obtain s where a: "approval_authentic demo_crypto (demo_grant\<lparr>g_signature := s\<rparr>) (demo_opts 150)" (is "approval_authentic _ ?g _")
    using demo_grant_authentic by blast
  have ok: "snd (verifyApproval demo_crypto (Some mem_check) ?st 7 (Some ?g) (demo_opts 150)) = Some (Inr ?g)"
    using verifyApproval_reaches_store [OF a, of mem_check ?st 7] by (simp add: demo_opts_def mem_check_def msize_def)
  have bad: "\<not> approval_authentic demo_crypto (demo_grant\<lparr>g_version := []\<rparr>) (demo_opts 150)"
    by (simp add: approval_authentic_def approval_checks_def approval_version_def ascii_eval)
  from ok conjunct1 [OF approval_single_use [OF _ ok _ refl _ bad, of "[(js ''z'', Fin 9, 20)]" 50 "demo_opts 160"]]
  show ?thesis by (auto simp: mem_inv_def wf_map_def msize_def demo_opts_def demo_grant_def)
qed

text \<open>Whatever the header holds, parseApproval returns only well-formed grants, and a well-formed grant within the header limit is read back from its serialization unchanged, where JSON.parse of that text is the object it was printed from.\<close>

theorem approval_parse_roundtrip:
  assumes "grant_well_formed g" "length (serializeApproval g) \<le> 8192" "parse (serializeApproval g) = Some (grant_json g)"
  shows "parseApproval parse (Some (serializeApproval g)) = Some g \<and>
    parseApproval parse raw \<in> {None} \<union> Some ` {x. grant_well_formed x}"
  using parse_serialize [of g parse, OF assms] parseApproval_well_formed [of parse raw] by (cases "parseApproval parse raw") auto

definition demo_wire :: grant where
  "demo_wire = demo_grant\<lparr>g_action := \<lparr>act_method = js ''PAY'', act_path = js ''/m'', act_bodySha256 = replicate 64 97\<rparr>, g_signature := js ''s''\<rparr>"

lemma demo_wire_ok: "grant_well_formed demo_wire"
  by (simp add: grant_well_formed_def demo_wire_def demo_grant_def approval_version_def action_fields_ok_def is_sha256_hex_def js_def max_safe_def startsWith_def)

lemma length_quote_body: "length (quote_body s) \<le> 6 * length s"
  by (induction s rule: quote_body.induct) (auto simp: escape_def hex4_def)

lemma length_quote: "length (quote s) \<le> 6 * length s + 2"
  using length_quote_body [of s] by (simp add: quote_def)

lemma length_quote_js: "length (quote (js s)) \<le> 6 * length s + 2"
  using length_quote [of "js s"] by (simp add: js_def)

lemma demo_times: "length (show_int 100) = 3" "length (show_int 200) = 3"
  by (simp_all add: show_int_def show_nat.simps)

lemma demo_wire_length: "length (serializeApproval demo_wire) \<le> 8192"
  using length_quote_js [of "''version''"] length_quote_js [of "''id''"] length_quote_js [of "''approver''"] length_quote_js [of "''subject''"] length_quote_js [of "''action''"] length_quote_js [of "''method''"] length_quote_js [of "''path''"] length_quote_js [of "''bodySha256''"] length_quote_js [of "''issuedAt''"] length_quote_js [of "''expiresAt''"] length_quote_js [of "''keyId''"] length_quote_js [of "''signature''"] length_quote_js [of "''7h3-approval/1''"] length_quote_js [of "''i''"] length_quote_js [of "''a''"] length_quote_js [of "''s''"] length_quote_js [of "''PAY''"] length_quote_js [of "''/m''"] length_quote_js [of "''k''"] length_quote [of "replicate 64 97"] demo_times
  by (simp add: serializeApproval_def grant_json_def unsigned_members_def demo_wire_def demo_grant_def action_json_def approval_version_def opt_field_def)

theorem approval_parse_roundtrip_witness:
  "parseApproval (\<lambda>s. Some (grant_json demo_wire)) (Some (serializeApproval demo_wire)) = Some demo_wire"
  by (rule approval_parse_roundtrip [OF demo_wire_ok demo_wire_length refl, THEN conjunct1])

end
