(* ===== verification/Digest.thy ===== *)
theory Digest
  imports Approval
begin

text \<open>
  Hash chains, shared by the key log and the audit log: the text of a document is
  well-formed UTF-16 and ends where it ends, so the bytes \<open>payload.signature\<close> of an entry
  determine the document and the encoded signature; the locale \<open>hash_chain\<close> then turns an
  equal head hash into equal histories, as long as SHA-256 does not confuse the entries
  concerned.
\<close>

section \<open>Texts as bytes\<close>

lemma well_formed_join:
  assumes "\<And>t r. t \<in> set ts \<Longrightarrow> well_formed (t @ r) = well_formed r"
  shows "well_formed (join_with [44] ts @ r) = well_formed r"
  using assms
proof (induction ts rule: induct_list012)
  case (3 s t ts)
  have "well_formed (s @ 44 # join_with [44] (t # ts) @ r) = well_formed (44 # join_with [44] (t # ts) @ r)"
    using "3.prems" [of s] by simp
  also have "\<dots> = well_formed (join_with [44] (t # ts) @ r)" by (rule well_formed_punct) simp
  also have "\<dots> = well_formed r" using "3.IH"(2) "3.prems" by simp
  finally show ?case by simp
qed simp_all

lemma well_formed_bracket: "well_formed (91 # r) = well_formed r" "well_formed (93 # r) = well_formed r"
  using well_formed_plain [of "[91]" r] well_formed_plain [of "[93]" r] by (simp_all add: bmp_plain_def is_high_def is_low_def)

lemma well_formed_print: "well_formed (print_json v @ r) = well_formed r"
proof (induction v arbitrary: r)
  case JNull
  show ?case by (rule well_formed_plain) (simp add: ascii_eval bmp_plain_def is_high_def is_low_def)
next
  case (JBool b)
  show ?case by (rule well_formed_plain) (simp add: ascii_eval bmp_plain_def is_high_def is_low_def)
next
  case (JNum n)
  have "well_formed (js ''null'' @ r) = well_formed r"
    by (rule well_formed_plain) (simp add: ascii_eval bmp_plain_def is_high_def is_low_def)
  then show ?case by (simp add: well_formed_num)
next
  case (JStr s)
  show ?case by (simp add: well_formed_quote)
next
  case (JArr vs)
  have "well_formed (join_with [44] (map print_json vs) @ 93 # r) = well_formed (93 # r)"
    by (rule well_formed_join) (use JArr in auto)
  then show ?case by (simp add: well_formed_bracket del: well_formed.simps)
next
  case (JObj kvs)
  have "well_formed (join_with [44] (map (\<lambda>(k, v). quote k @ 58 # print_json v) kvs) @ 125 # r) = well_formed (125 # r)"
  proof (rule well_formed_join)
    fix t r assume "t \<in> set (map (\<lambda>(k, v). quote k @ 58 # print_json v) kvs)"
    then obtain k v where kv: "(k, v) \<in> set kvs" "t = quote k @ 58 # print_json v" by auto
    then have "well_formed (print_json v @ r) = well_formed r" using JObj.IH by fastforce
    with kv(2) show "well_formed (t @ r) = well_formed r"
      by (simp add: well_formed_quote well_formed_punct del: well_formed.simps)
  qed
  then show ?case by (simp add: well_formed_punct del: well_formed.simps)
qed

text \<open>\<open>sanitize\<close> is what encoding and decoding as UTF-8 leaves of a string.\<close>

definition sanitize :: "jstr \<Rightarrow> jstr" where
  "sanitize s = concat (map utf16_of (code_points s))"

lemma code_points_append: "well_formed p \<Longrightarrow> code_points (p @ r) = code_points p @ code_points r"
proof (induction p rule: well_formed.induct)
  case (2 c)
  then show ?case by (cases r) auto
qed (auto split: if_splits)

lemma sanitize_append: "well_formed p \<Longrightarrow> sanitize (p @ r) = p @ sanitize r"
  by (simp add: sanitize_def code_points_append utf16_code_points)

lemma utf8_sanitize: "utf8Encode s = utf8Encode t \<Longrightarrow> sanitize s = sanitize t"
  by (metis sanitize_def utf8_points_utf8Encode)

text \<open>A printed document, a separator and a tail: the bytes fix the document and the sanitized tail.\<close>

lemma document_bytes_inj:
  assumes "json_finite v" "json_finite w"
    and "utf8Encode (print_json v @ 46 # s) = utf8Encode (print_json w @ 46 # t)"
  shows "v = w \<and> sanitize s = sanitize t"
proof -
  have wf: "well_formed (print_json v)" for v using well_formed_print [of v "[]"] by simp
  have c: "sanitize (46 # s) = 46 # sanitize s" for s
    using sanitize_append [of "[46]" s] by (simp add: is_high_def is_low_def)
  have "print_json v @ 46 # sanitize s = print_json w @ 46 # sanitize t"
    using utf8_sanitize [OF assms(3)] wf by (simp add: sanitize_append c)
  then show ?thesis
    using self_delimitingD [OF print_self_delimiting [OF assms(1)], of w "46 # sanitize s" "46 # sanitize t"] assms(2) by simp
qed

text \<open>An object ends at its brace, so it needs no separator.\<close>

lemma object_delim:
  assumes "json_finite (JObj kvs)" "json_finite (JObj ws)" "print_json (JObj kvs) @ r = print_json (JObj ws) @ s"
  shows "kvs = ws \<and> r = s"
proof (rule join_delim [where p = "\<lambda>(k, v). quote k @ 58 # print_json v" and close = 125])
  fix m u r s
  assume m: "m \<in> set kvs" "u \<in> set ws" "delimited r" "delimited s"
    and e: "(case m of (k, v) \<Rightarrow> quote k @ 58 # print_json v) @ r = (case u of (k, v) \<Rightarrow> quote k @ 58 # print_json v) @ s"
  obtain k x k' y where kx: "m = (k, x)" "u = (k', y)" by (cases m; cases u) auto
  have "self_delimiting x" "json_finite y" using assms(1,2) m(1,2) kx by (auto intro: print_self_delimiting)
  then show "m = u \<and> r = s"
    unfolding kx by (rule member_delim [OF _ _ m(3,4)]) (use e kx in simp)
qed (use assms(3) in \<open>auto simp: quote_def\<close>)

lemma object_bytes_inj:
  assumes "json_finite (JObj a)" "json_finite (JObj b)"
    and "utf8Encode (print_json (JObj a) @ s) = utf8Encode (print_json (JObj b) @ t)"
  shows "a = b \<and> sanitize s = sanitize t"
proof -
  have wf: "well_formed (print_json v)" for v using well_formed_print [of v "[]"] by simp
  have "print_json (JObj a) @ sanitize s = print_json (JObj b) @ sanitize t"
    using utf8_sanitize [OF assms(3)] wf by (simp add: sanitize_append del: print_json.simps)
  from object_delim [OF assms(1,2) this] show ?thesis .
qed

lemma sha256Hex_eq:
  "sha256Hex C a = sha256Hex C b \<Longrightarrow> inj_on (sha256_raw C) S \<Longrightarrow> utf8Encode a \<in> S \<Longrightarrow> utf8Encode b \<in> S \<Longrightarrow> utf8Encode a = utf8Encode b"
  unfolding sha256Hex_def using toHex_inj by (metis inj_onD)

text \<open>The length a SHA-256 hexadecimal digest has.\<close>

lemma hex_digit_range: "n < 16 \<Longrightarrow> (48 \<le> unat (hex_digit n) \<and> unat (hex_digit n) \<le> 57) \<or> (97 \<le> unat (hex_digit n) \<and> unat (hex_digit n) \<le> 102)"
  by (auto simp: hex_digit_def unat_of_nat16 simp del: of_nat_add)

lemma sha256Hex_shape: "length (sha256_raw C (utf8Encode s)) = 32 \<Longrightarrow> is_sha256_hex (sha256Hex C s)"
proof -
  assume l: "length (sha256_raw C (utf8Encode s)) = 32"
  have "(48 \<le> unat c \<and> unat c \<le> 57) \<or> (97 \<le> unat c \<and> unat c \<le> 102)" if "c \<in> set (toHex bs)" for c bs
  proof -
    from that obtain b :: byte where "c = hex_digit (unat b div 16) \<or> c = hex_digit (unat b mod 16)"
      by (auto simp: toHex_def)
    moreover have "unat b div 16 < 16" "unat b mod 16 < 16" using unat8_less [of b] by auto
    ultimately show ?thesis using hex_digit_range by blast
  qed
  with l show ?thesis by (simp add: is_sha256_hex_def sha256Hex_def length_toHex)
qed

section \<open>Hash chains\<close>

text \<open>
  \<open>pre\<close> is what is hashed of an entry, \<open>prev\<close> the hash it names as its predecessor's, and
  \<open>same\<close> the agreement that equal pre-images give.
\<close>

locale hash_chain =
  fixes pre :: "'e \<Rightarrow> bytes" and digest :: "bytes \<Rightarrow> jstr" and prev :: "'e \<Rightarrow> jstr" and same :: "'e \<Rightarrow> 'e \<Rightarrow> bool" and ok :: "'e \<Rightarrow> bool"
  assumes pre_same: "ok a \<Longrightarrow> ok b \<Longrightarrow> pre a = pre b \<Longrightarrow> same a b"
    and same_prev: "same a b \<Longrightarrow> prev a = prev b"
begin

fun chained :: "jstr \<Rightarrow> 'e list \<Rightarrow> bool" where
  "chained h [] = True"
| "chained h (e # es) = (prev e = h \<and> chained (digest (pre e)) es)"

fun head :: "jstr \<Rightarrow> 'e list \<Rightarrow> jstr" where
  "head h [] = h"
| "head h (e # es) = head (digest (pre e)) es"

lemma chained_snoc: "chained h (es @ [e]) \<longleftrightarrow> chained h es \<and> prev e = head h es"
  by (induction h es rule: chained.induct) auto

lemma head_snoc: "head h (es @ [e]) = digest (pre e)"
  by (induction h es rule: head.induct) auto

lemma same_history:
  assumes "chained h as" "chained h' bs" "length as = length bs" "head h as = head h' bs"
    and "inj_on digest (pre ` (set as \<union> set bs))" "\<forall>e \<in> set as \<union> set bs. ok e"
  shows "list_all2 same as bs"
  using assms
proof (induction as arbitrary: bs rule: rev_induct)
  case (snoc a as)
  then obtain b bs' where bs: "bs = bs' @ [b]" by (cases bs rule: rev_cases) auto
  from snoc.prems bs have "digest (pre a) = digest (pre b)" by (simp add: head_snoc)
  then have "pre a = pre b" using inj_onD [OF snoc.prems(5), of "pre a" "pre b"] bs by simp
  then have s: "same a b" using pre_same snoc.prems(6) bs by simp
  then have "head h as = head h' bs'" using snoc.prems(1,2) bs same_prev [OF s] by (simp add: chained_snoc)
  moreover have "inj_on digest (pre ` (set as \<union> set bs'))"
    using snoc.prems(5) bs by (auto intro: inj_on_subset)
  ultimately have "list_all2 same as bs'"
    using snoc.IH [of bs'] snoc.prems bs by (auto simp: chained_snoc)
  with s bs show ?case by (simp add: list_all2_appendI)
qed simp

lemma chained_append: "chained h (as @ bs) \<longleftrightarrow> chained h as \<and> chained (head h as) bs"
  by (induction h as rule: chained.induct) auto

lemma head_append: "head h (as @ bs) = head (head h as) bs"
  by (induction h as rule: head.induct) auto

text \<open>Without collisions no hash occurs twice along a chain.\<close>

lemma hashes_distinct:
  assumes "chained h es" "inj_on digest (pre ` set es)" "\<forall>e \<in> set es. ok e \<and> digest (pre e) \<noteq> h"
  shows "distinct (h # map (\<lambda>e. digest (pre e)) es)"
  using assms
proof (induction es rule: rev_induct)
  case (snoc e es)
  have IH: "distinct (h # map (\<lambda>e. digest (pre e)) es)"
    using snoc.IH snoc.prems by (auto simp: chained_append intro: inj_on_subset)
  have "digest (pre e) \<noteq> digest (pre x)" if x: "x \<in> set es" for x
  proof
    assume eq: "digest (pre e) = digest (pre x)"
    then have "pre e = pre x" using inj_onD [OF snoc.prems(2), of "pre e" "pre x"] x by simp
    then have "prev e = prev x" using pre_same [of e x] same_prev snoc.prems(3) x by simp
    obtain as bs where es: "es = as @ x # bs" using x by (meson split_list)
    have "prev e = head h es" using snoc.prems(1) by (simp add: chained_append)
    moreover have "prev x = head h as" using snoc.prems(1) by (simp add: chained_append es)
    ultimately have "head h es = head h as" using \<open>prev e = prev x\<close> by metis
    moreover have "head h es = last (h # map (\<lambda>e. digest (pre e)) es)" for es
      by (induction es rule: rev_induct) (simp_all add: head_append)
    ultimately have l: "last (h # map (\<lambda>e. digest (pre e)) es) = last (h # map (\<lambda>e. digest (pre e)) as)" by metis
    have "last (h # map (\<lambda>e. digest (pre e)) es) = last (map (\<lambda>e. digest (pre e)) (x # bs))" by (simp add: es)
    moreover have "last (map (\<lambda>e. digest (pre e)) (x # bs)) \<in> set (map (\<lambda>e. digest (pre e)) (x # bs))" by (rule last_in_set) simp
    ultimately have "last (h # map (\<lambda>e. digest (pre e)) es) \<in> set (map (\<lambda>e. digest (pre e)) (x # bs))" by metis
    moreover have "last (h # map (\<lambda>e. digest (pre e)) as) \<in> set (h # map (\<lambda>e. digest (pre e)) as)" by (rule last_in_set) simp
    moreover have "set (h # map (\<lambda>e. digest (pre e)) as) \<inter> set (map (\<lambda>e. digest (pre e)) (x # bs)) = {}"
      using IH by (auto simp: es)
    ultimately show False using l by (metis IntI empty_iff)
  qed
  then show ?case using IH snoc.prems(3) by auto
qed simp

lemma deletion_breaks:
  assumes "chained h (xs @ ds @ ys)" "inj_on digest (pre ` set (xs @ ds @ ys))"
    and "\<forall>e \<in> set (xs @ ds @ ys). ok e \<and> digest (pre e) \<noteq> h" "ds \<noteq> []" "ys \<noteq> []"
  shows "\<not> chained h (xs @ ys)"
proof
  assume c: "chained h (xs @ ys)"
  obtain y ys' where y: "ys = y # ys'" using assms(5) by (cases ys) auto
  obtain d ds' where d: "ds = ds' @ [d]" using assms(4) by (cases ds rule: rev_cases) auto
  have "head h xs = digest (pre d)"
    using c assms(1) by (simp add: y d chained_append head_append)
  moreover have "head h xs \<in> set (h # map (\<lambda>e. digest (pre e)) xs)"
    by (cases xs rule: rev_cases) (simp_all add: head_append)
  ultimately show False using hashes_distinct [OF assms(1-3)] by (auto simp: d)
qed

end

end
