(* ===== verification/Mandate.thy ===== *)
theory Mandate
  imports Approval
begin

text \<open>
  Payment mandates of \<open>src/mandate.ts\<close>: the intent, cart and payment documents, their
  canonical forms and issuing, the spend ledger, and \<open>verifyPayment\<close>. Amounts are integers
  in minor units; \<open>safe\<close> is \<open>Number.isSafeInteger\<close> on them, and a product or sum the code
  finds unsafe is unsafe here too, because rounding never brings a number back below
  \<open>2 ^ 53\<close>. The ledger is used through the locale \<open>spend_ledger\<close>, which
  \<open>MemorySpendLedger\<close> interprets.
\<close>

section \<open>Documents\<close>

record constraints =
  currency :: jstr
  maxTotalMinor :: int
  maxPerPurchaseMinor :: "int option"
  merchants :: "jstr list option"
  categories :: "jstr list option"
  requireApprovalAboveMinor :: "int option"

record intent_mandate =
  im_version :: jstr
  im_id :: jstr
  payer :: jstr
  im_agent :: jstr
  im_constraints :: constraints
  im_issuedAt :: int
  im_expiresAt :: int
  im_keyId :: jstr
  im_signature :: jstr

record cart_item =
  sku :: jstr
  description :: "jstr option"
  category :: "jstr option"
  quantity :: int
  unitMinor :: int

record cart_mandate =
  cm_version :: jstr
  cm_id :: jstr
  cm_intentId :: jstr
  cm_merchant :: jstr
  cm_currency :: jstr
  cart_items :: "cart_item list"
  totalMinor :: int
  cm_issuedAt :: int
  cm_expiresAt :: int
  cm_keyId :: jstr
  cm_signature :: jstr

record payment_mandate =
  pm_version :: jstr
  pm_id :: jstr
  pm_intentId :: jstr
  pm_cartId :: jstr
  pm_cartDigest :: jstr
  pm_merchant :: jstr
  pm_agent :: jstr
  amountMinor :: int
  pm_currency :: jstr
  pm_issuedAt :: int
  pm_expiresAt :: int
  pm_keyId :: jstr
  pm_signature :: jstr

definition mandate_version :: jstr where
  "mandate_version = js ''7h3-mandate/1''"

definition MAX_CART_LIFETIME_MS :: int where "MAX_CART_LIFETIME_MS = 3600000"

definition MAX_PAYMENT_LIFETIME_MS :: int where "MAX_PAYMENT_LIFETIME_MS = 900000"

definition MAX_INTENT_LIFETIME_MS :: int where "MAX_INTENT_LIFETIME_MS = 2592000000"

definition safe :: "int \<Rightarrow> bool" where
  "safe n \<longleftrightarrow> - max_safe \<le> n \<and> n \<le> max_safe"

definition isMoney :: "int \<Rightarrow> bool" where
  "isMoney n \<longleftrightarrow> safe n \<and> 0 \<le> n"

definition isPositive :: "int \<Rightarrow> bool" where
  "isPositive n \<longleftrightarrow> isMoney n \<and> 0 < n"

text \<open>\<open>/^[A-Z]{3}$/\<close> and \<open>/^[A-Za-z0-9@._:/#-]{1,256}$/\<close>.\<close>

definition is_currency :: "jstr \<Rightarrow> bool" where
  "is_currency s \<longleftrightarrow> length s = 3 \<and> (\<forall>c \<in> set s. 65 \<le> unat c \<and> unat c \<le> 90)"

definition is_name :: "jstr \<Rightarrow> bool" where
  "is_name s \<longleftrightarrow> 1 \<le> length s \<and> length s \<le> 256 \<and>
    (\<forall>c \<in> set s. (65 \<le> unat c \<and> unat c \<le> 90) \<or> (97 \<le> unat c \<and> unat c \<le> 122) \<or> (48 \<le> unat c \<and> unat c \<le> 57)
      \<or> unat c \<in> {64, 46, 95, 58, 47, 35, 45})"

text \<open>The loop of \<open>checkedTotal\<close>, with the running total as its state.\<close>

fun total_loop :: "cart_item list \<Rightarrow> int \<Rightarrow> int option" where
  "total_loop [] acc = Some acc"
| "total_loop (it # its) acc =
    (if \<not> isPositive (quantity it) \<or> \<not> isMoney (unitMinor it) then None
     else let line = quantity it * unitMinor it in
       if \<not> safe line then None
       else let sum = acc + line in if \<not> safe sum then None else total_loop its sum)"

definition checkedTotal :: "cart_item list \<Rightarrow> int option" where
  "checkedTotal its = total_loop its 0"

lemma total_loop_sum:
  "total_loop its acc = Some t \<Longrightarrow> t = acc + (\<Sum>it \<leftarrow> its. quantity it * unitMinor it) \<and>
    (\<forall>it \<in> set its. 0 < quantity it \<and> 0 \<le> unitMinor it) \<and> (safe acc \<longrightarrow> safe t) \<and> acc \<le> t"
proof (induction its arbitrary: acc)
  case (Cons it its)
  from Cons.prems have ok: "isPositive (quantity it)" "isMoney (unitMinor it)" "safe (acc + quantity it * unitMinor it)"
      "total_loop its (acc + quantity it * unitMinor it) = Some t"
    by (auto simp: Let_def split: if_splits)
  then have "0 \<le> quantity it * unitMinor it" by (simp add: isPositive_def isMoney_def)
  with Cons.IH [OF ok(4)] ok(1-3) show ?case by (auto simp: isPositive_def isMoney_def)
qed simp

lemma total_loop_complete:
  assumes "\<forall>it \<in> set its. 0 < quantity it \<and> 0 \<le> unitMinor it \<and> safe (quantity it) \<and> safe (unitMinor it)"
    and "0 \<le> acc" "safe (acc + (\<Sum>it \<leftarrow> its. quantity it * unitMinor it))"
  shows "total_loop its acc = Some (acc + (\<Sum>it \<leftarrow> its. quantity it * unitMinor it))"
  using assms
proof (induction its arbitrary: acc)
  case (Cons it its)
  let ?l = "quantity it * unitMinor it"
  have l: "0 \<le> ?l" using Cons.prems(1) by simp
  have rest: "0 \<le> (\<Sum>it \<leftarrow> its. quantity it * unitMinor it)"
    using Cons.prems(1) by (intro sum_list_nonneg) auto
  have s: "safe ?l" "safe (acc + ?l)"
    using l rest Cons.prems(2,3) by (auto simp: safe_def)
  have "total_loop its (acc + ?l) = Some (acc + ?l + (\<Sum>it \<leftarrow> its. quantity it * unitMinor it))"
    using Cons.IH [of "acc + ?l"] Cons.prems l by (simp add: add.assoc)
  then show ?case using Cons.prems(1) s by (simp add: isPositive_def isMoney_def Let_def add.assoc)
qed simp

section \<open>Canonical forms\<close>

definition null_or :: "('a \<Rightarrow> json) \<Rightarrow> 'a option \<Rightarrow> json" where
  "null_or f v = (case v of None \<Rightarrow> JNull | Some x \<Rightarrow> f x)"

abbreviation num :: "int \<Rightarrow> json" where
  "num n \<equiv> JNum (Fin n)"

definition constraints_json :: "constraints \<Rightarrow> json" where
  "constraints_json c = JObj
    [(js ''currency'', JStr (currency c)), (js ''maxTotalMinor'', num (maxTotalMinor c)),
     (js ''maxPerPurchaseMinor'', null_or num (maxPerPurchaseMinor c)),
     (js ''merchants'', null_or (\<lambda>l. JArr (map JStr l)) (merchants c)),
     (js ''categories'', null_or (\<lambda>l. JArr (map JStr l)) (categories c)),
     (js ''requireApprovalAboveMinor'', null_or num (requireApprovalAboveMinor c))]"

definition canonIntent :: "intent_mandate \<Rightarrow> jstr option" where
  "canonIntent m = stableStringify (JObj
    [(js ''version'', JStr (im_version m)), (js ''kind'', JStr (js ''intent'')), (js ''id'', JStr (im_id m)),
     (js ''payer'', JStr (payer m)), (js ''agent'', JStr (im_agent m)), (js ''constraints'', constraints_json (im_constraints m)),
     (js ''issuedAt'', num (im_issuedAt m)), (js ''expiresAt'', num (im_expiresAt m)), (js ''keyId'', JStr (im_keyId m))])"

definition item_json :: "cart_item \<Rightarrow> json" where
  "item_json i = JObj
    [(js ''sku'', JStr (sku i)), (js ''description'', null_or JStr (description i)), (js ''category'', null_or JStr (category i)),
     (js ''quantity'', num (quantity i)), (js ''unitMinor'', num (unitMinor i))]"

definition canonCart :: "cart_mandate \<Rightarrow> jstr option" where
  "canonCart m = stableStringify (JObj
    [(js ''version'', JStr (cm_version m)), (js ''kind'', JStr (js ''cart'')), (js ''id'', JStr (cm_id m)),
     (js ''intentId'', JStr (cm_intentId m)), (js ''merchant'', JStr (cm_merchant m)), (js ''currency'', JStr (cm_currency m)),
     (js ''items'', JArr (map item_json (cart_items m))), (js ''totalMinor'', num (totalMinor m)),
     (js ''issuedAt'', num (cm_issuedAt m)), (js ''expiresAt'', num (cm_expiresAt m)), (js ''keyId'', JStr (cm_keyId m))])"

definition canonPayment :: "payment_mandate \<Rightarrow> jstr option" where
  "canonPayment m = stableStringify (JObj
    [(js ''version'', JStr (pm_version m)), (js ''kind'', JStr (js ''payment'')), (js ''id'', JStr (pm_id m)),
     (js ''intentId'', JStr (pm_intentId m)), (js ''cartId'', JStr (pm_cartId m)), (js ''cartDigest'', JStr (pm_cartDigest m)),
     (js ''merchant'', JStr (pm_merchant m)), (js ''agent'', JStr (pm_agent m)), (js ''amountMinor'', num (amountMinor m)),
     (js ''currency'', JStr (pm_currency m)), (js ''issuedAt'', num (pm_issuedAt m)), (js ''expiresAt'', num (pm_expiresAt m)),
     (js ''keyId'', JStr (pm_keyId m))])"

definition cartDigest :: "crypto \<Rightarrow> cart_mandate \<Rightarrow> jstr option" where
  "cartDigest C cart = map_option (\<lambda>c. sha256Hex C (c @ js ''.'' @ cm_signature cart)) (canonCart cart)"

lemma null_or_JStr_inj [simp]: "norm_json (null_or JStr a) = norm_json (null_or JStr b) \<longleftrightarrow> a = b"
  by (cases a; cases b) (simp_all add: null_or_def)

lemma null_or_num_inj [simp]: "norm_json (null_or num a) = norm_json (null_or num b) \<longleftrightarrow> a = b"
  by (cases a; cases b) (simp_all add: null_or_def)

lemma norm_map_JStr [simp]: "map (norm_json \<circ> JStr) xs = map JStr xs"
  by simp

lemma null_or_list_inj [simp]:
  "norm_json (null_or (\<lambda>l. JArr (map JStr l)) a) = norm_json (null_or (\<lambda>l. JArr (map JStr l)) b) \<longleftrightarrow> a = b"
  by (cases a; cases b) (simp_all add: null_or_def)

lemma constraints_norm_inj [simp]: "norm_json (constraints_json a) = norm_json (constraints_json b) \<longleftrightarrow> a = b"
proof
  assume n: "norm_json (constraints_json a) = norm_json (constraints_json b)"
  show "a = b"
    using norm_same_keys [OF n [unfolded constraints_json_def]] by (simp add: constraints.equality)
qed simp

lemma item_norm_inj [simp]: "norm_json (item_json a) = norm_json (item_json b) \<longleftrightarrow> a = b"
proof
  assume n: "norm_json (item_json a) = norm_json (item_json b)"
  show "a = b"
    using norm_same_keys [OF n [unfolded item_json_def]] by (simp add: cart_item.equality)
qed simp

lemma items_norm_inj [simp]: "map (norm_json \<circ> item_json) a = map (norm_json \<circ> item_json) b \<longleftrightarrow> a = b"
  by (simp add: inj_map_eq_map inj_def)

lemma canonIntent_inj: "canonIntent a = Some t \<Longrightarrow> canonIntent b = Some t \<Longrightarrow> b = a\<lparr>im_signature := im_signature b\<rparr>"
  unfolding canonIntent_def by (drule (1) stable_same_keys) (simp_all add: intent_mandate.equality)

lemma canonCart_inj: "canonCart a = Some t \<Longrightarrow> canonCart b = Some t \<Longrightarrow> b = a\<lparr>cm_signature := cm_signature b\<rparr>"
  unfolding canonCart_def by (drule (1) stable_same_keys) (simp_all add: cart_mandate.equality)

lemma canonPayment_inj: "canonPayment a = Some t \<Longrightarrow> canonPayment b = Some t \<Longrightarrow> b = a\<lparr>pm_signature := pm_signature b\<rparr>"
  unfolding canonPayment_def by (drule (1) stable_same_keys) (simp_all add: payment_mandate.equality)

text \<open>A text of one kind is never a text of another: the documents cannot be confused.\<close>

lemma kind_member:
  assumes "stableStringify (JObj xs) = Some t" "stableStringify (JObj ys) = Some t" "distinct (map fst xs)" "distinct (map fst ys)"
    and "map_of xs (js ''kind'') = Some (JStr a)" "map_of ys (js ''kind'') = Some (JStr b)"
  shows "a = b"
  using stable_member [OF assms(1-4), of "js ''kind''"] assms(5,6) by simp

lemma canon_kinds_disjoint:
  "\<not> (canonIntent m = Some t \<and> canonCart c = Some t)"
  "\<not> (canonIntent m = Some t \<and> canonPayment p = Some t)"
  "\<not> (canonCart c = Some t \<and> canonPayment p = Some t)"
proof -
  show "\<not> (canonIntent m = Some t \<and> canonCart c = Some t)"
  proof
    assume "canonIntent m = Some t \<and> canonCart c = Some t"
    then have i: "canonIntent m = Some t" and j: "canonCart c = Some t" by auto
    from kind_member [OF i [unfolded canonIntent_def] j [unfolded canonCart_def], of "js ''intent''" "js ''cart''"] show False by simp
  qed
  show "\<not> (canonIntent m = Some t \<and> canonPayment p = Some t)"
  proof
    assume "canonIntent m = Some t \<and> canonPayment p = Some t"
    then have i: "canonIntent m = Some t" and j: "canonPayment p = Some t" by auto
    from kind_member [OF i [unfolded canonIntent_def] j [unfolded canonPayment_def], of "js ''intent''" "js ''payment''"] show False by simp
  qed
  show "\<not> (canonCart c = Some t \<and> canonPayment p = Some t)"
  proof
    assume "canonCart c = Some t \<and> canonPayment p = Some t"
    then have i: "canonCart c = Some t" and j: "canonPayment p = Some t" by auto
    from kind_member [OF i [unfolded canonCart_def] j [unfolded canonPayment_def], of "js ''cart''" "js ''payment''"] show False by simp
  qed
qed

section \<open>Issuing\<close>

text \<open>\<open>checkLifetime\<close>; \<open>None\<close> stands for every exception of the issuing functions.\<close>

definition lifetime_ok :: "jnum \<Rightarrow> int \<Rightarrow> int option" where
  "lifetime_ok ttl mx = (case ttl of Fin n \<Rightarrow> if n \<le> 0 \<or> mx < n then None else Some n | _ \<Rightarrow> None)"

definition constraints_ok :: "constraints \<Rightarrow> bool" where
  "constraints_ok c \<longleftrightarrow> is_currency (currency c) \<and> isPositive (maxTotalMinor c) \<and>
    (case maxPerPurchaseMinor c of None \<Rightarrow> True | Some n \<Rightarrow> isPositive n \<and> n \<le> maxTotalMinor c) \<and>
    (case requireApprovalAboveMinor c of None \<Rightarrow> True | Some n \<Rightarrow> isMoney n) \<and>
    (\<forall>l \<in> {merchants c, categories c}. case l of None \<Rightarrow> True | Some l \<Rightarrow> l \<noteq> [] \<and> (\<forall>x \<in> set l. is_name x))"

record intent_opts =
  io_privateKey :: jstr
  io_payer :: jstr
  io_agent :: jstr
  io_constraints :: constraints
  io_lifetimeMs :: jnum
  io_keyId :: "jstr option"

definition issueIntentMandate :: "crypto \<Rightarrow> intent_opts \<Rightarrow> int \<Rightarrow> bytes \<Rightarrow> intent_mandate option" where
  "issueIntentMandate C o' now rnd8 =
    (case lifetime_ok (io_lifetimeMs o') MAX_INTENT_LIFETIME_MS of None \<Rightarrow> None
     | Some ttl \<Rightarrow>
       if \<not> is_name (io_payer o') \<or> \<not> is_name (io_agent o') then None
       else if \<not> constraints_ok (io_constraints o') then None
       else let m = \<lparr>im_version = mandate_version, im_id = js ''intent-'' @ show_int now @ js ''-'' @ randomHex rnd8,
               payer = io_payer o', im_agent = io_agent o', im_constraints = io_constraints o',
               im_issuedAt = now, im_expiresAt = now + ttl,
               im_keyId = (case io_keyId o' of None \<Rightarrow> io_payer o' @ js ''-key'' | Some k \<Rightarrow> k), im_signature = []\<rparr>
         in map_option (\<lambda>s. m\<lparr>im_signature := s\<rparr>) (sign_canonical C (canonIntent m) (io_privateKey o')))"

record cart_opts =
  co_privateKey :: jstr
  co_merchant :: jstr
  co_intentId :: jstr
  co_currency :: jstr
  co_items :: "cart_item list"
  co_lifetimeMs :: "jnum option"
  co_keyId :: "jstr option"

definition issueCartMandate :: "crypto \<Rightarrow> cart_opts \<Rightarrow> int \<Rightarrow> bytes \<Rightarrow> cart_mandate option" where
  "issueCartMandate C o' now rnd8 =
    (case lifetime_ok (case co_lifetimeMs o' of None \<Rightarrow> Fin 900000 | Some n \<Rightarrow> n) MAX_CART_LIFETIME_MS of None \<Rightarrow> None
     | Some ttl \<Rightarrow>
       if \<not> is_name (co_merchant o') \<or> \<not> is_name (co_intentId o') then None
       else if \<not> is_currency (co_currency o') then None
       else if co_items o' = [] \<or> 200 < length (co_items o') then None
       else if \<exists>it \<in> set (co_items o'). \<not> is_name (sku it) \<or> (case category it of None \<Rightarrow> False | Some c \<Rightarrow> \<not> is_name c) then None
       else case checkedTotal (co_items o') of None \<Rightarrow> None
        | Some computed \<Rightarrow>
          let m = \<lparr>cm_version = mandate_version, cm_id = js ''cart-'' @ show_int now @ js ''-'' @ randomHex rnd8,
               cm_intentId = co_intentId o', cm_merchant = co_merchant o', cm_currency = co_currency o',
               cart_items = co_items o', totalMinor = computed, cm_issuedAt = now, cm_expiresAt = now + ttl,
               cm_keyId = (case co_keyId o' of None \<Rightarrow> co_merchant o' @ js ''-key'' | Some k \<Rightarrow> k), cm_signature = []\<rparr>
          in map_option (\<lambda>s. m\<lparr>cm_signature := s\<rparr>) (sign_canonical C (canonCart m) (co_privateKey o')))"

record payment_opts =
  pay_privateKey :: jstr
  pay_agent :: jstr
  pay_intent :: intent_mandate
  pay_cart :: cart_mandate
  pay_lifetimeMs :: "jnum option"
  pay_keyId :: "jstr option"

definition issuePaymentMandate :: "crypto \<Rightarrow> payment_opts \<Rightarrow> int \<Rightarrow> bytes \<Rightarrow> payment_mandate option" where
  "issuePaymentMandate C o' now rnd8 =
    (case lifetime_ok (case pay_lifetimeMs o' of None \<Rightarrow> Fin 300000 | Some n \<Rightarrow> n) MAX_PAYMENT_LIFETIME_MS of None \<Rightarrow> None
     | Some ttl \<Rightarrow>
       (case cartDigest C (pay_cart o') of None \<Rightarrow> None
        | Some d \<Rightarrow>
          let m = \<lparr>pm_version = mandate_version, pm_id = js ''pay-'' @ show_int now @ js ''-'' @ randomHex rnd8,
               pm_intentId = im_id (pay_intent o'), pm_cartId = cm_id (pay_cart o'), pm_cartDigest = d,
               pm_merchant = cm_merchant (pay_cart o'), pm_agent = pay_agent o', amountMinor = totalMinor (pay_cart o'),
               pm_currency = cm_currency (pay_cart o'), pm_issuedAt = now, pm_expiresAt = now + ttl,
               pm_keyId = (case pay_keyId o' of None \<Rightarrow> pay_agent o' @ js ''-key'' | Some k \<Rightarrow> k), pm_signature = []\<rparr>
          in map_option (\<lambda>s. m\<lparr>pm_signature := s\<rparr>) (sign_canonical C (canonPayment m) (pay_privateKey o'))))"

section \<open>The spend ledger\<close>

datatype reserve_outcome = Reserved | Duplicate | ExceedsCeiling

text \<open>The contract: \<open>charged\<close> says which payments are recorded, \<open>None\<close> is a throw.\<close>

locale spend_ledger =
  fixes reserve :: "'l \<Rightarrow> jstr \<Rightarrow> jstr \<Rightarrow> int \<Rightarrow> int \<Rightarrow> 'l \<times> reserve_outcome option"
    and release :: "'l \<Rightarrow> jstr \<Rightarrow> jstr \<Rightarrow> 'l"
    and spent :: "'l \<Rightarrow> jstr \<Rightarrow> int"
    and charged :: "'l \<Rightarrow> jstr \<Rightarrow> jstr \<Rightarrow> bool"
    and invar :: "'l \<Rightarrow> bool"
  assumes invar_reserve: "invar l \<Longrightarrow> invar (fst (reserve l i p a c))"
    and invar_release: "invar l \<Longrightarrow> invar (release l i p)"
    and reserved: "invar l \<Longrightarrow> snd (reserve l i p a c) = Some Reserved \<Longrightarrow>
      spent (fst (reserve l i p a c)) i = spent l i + a \<and> spent l i + a \<le> c \<and> \<not> charged l i p \<and> charged (fst (reserve l i p a c)) i p"
    and not_reserved: "invar l \<Longrightarrow> snd (reserve l i p a c) \<noteq> Some Reserved \<Longrightarrow>
      spent (fst (reserve l i p a c)) j = spent l j \<and> charged (fst (reserve l i p a c)) j q = charged l j q"
    and frame: "invar l \<Longrightarrow> j \<noteq> i \<Longrightarrow> spent (fst (reserve l i p a c)) j = spent l j"
    and keeps: "invar l \<Longrightarrow> charged l j q \<Longrightarrow> charged (fst (reserve l i p a c)) j q"
    and released: "invar l \<Longrightarrow> spent (release l i p) j \<le> spent l j"
    and released_charged: "invar l \<Longrightarrow> charged (release l i p) j q \<longleftrightarrow> charged l j q \<and> (j, q) \<noteq> (i, p)"
begin

text \<open>A run of reservations, each with the ceiling of its intent, and releases.\<close>

fun ledger_run :: "(jstr \<Rightarrow> int) \<Rightarrow> 'l \<Rightarrow> ((jstr \<times> jstr \<times> int) + (jstr \<times> jstr)) list \<Rightarrow> 'l" where
  "ledger_run ceil l [] = l"
| "ledger_run ceil l (Inl (i, p, a) # evs) = ledger_run ceil (fst (reserve l i p a (ceil i))) evs"
| "ledger_run ceil l (Inr (i, p) # evs) = ledger_run ceil (release l i p) evs"

lemma reserve_ceiling: "invar l \<Longrightarrow> spent l j \<le> ceil j \<Longrightarrow> spent (fst (reserve l i p a (ceil i))) j \<le> ceil j"
  using reserved [of l i p a "ceil i"] not_reserved [of l i p a "ceil i" j] frame [of l j i p a "ceil i"]
  by (cases "snd (reserve l i p a (ceil i)) = Some Reserved"; cases "j = i") auto

lemma ceiling_kept: "invar l \<Longrightarrow> spent l j \<le> ceil j \<Longrightarrow> invar (ledger_run ceil l evs) \<and> spent (ledger_run ceil l evs) j \<le> ceil j"
proof (induction ceil l evs rule: ledger_run.induct)
  case (3 ceil l i p evs)
  then show ?case using invar_release released [of l i p j] by auto
qed (auto intro: invar_reserve reserve_ceiling)

lemma charged_kept:
  "invar l \<Longrightarrow> charged l i p \<Longrightarrow> Inr (i, p) \<notin> set evs \<Longrightarrow> invar (ledger_run ceil l evs) \<and> charged (ledger_run ceil l evs) i p"
proof (induction ceil l evs rule: ledger_run.induct)
  case (3 ceil l i' p' evs)
  then show ?case using invar_release released_charged by auto
qed (auto intro: invar_reserve keeps)

lemma no_double_charge:
  assumes "invar l" "snd (reserve l i p a c) = Some Reserved" "Inr (i, p) \<notin> set evs"
  shows "snd (reserve (ledger_run ceil (fst (reserve l i p a c)) evs) i p a' c') \<noteq> Some Reserved"
  using charged_kept [OF invar_reserve [OF assms(1)] _ assms(3), of i p a c ceil] reserved [OF assms(1,2)] reserved by blast

end

text \<open>\<open>MemorySpendLedger\<close>: per intent the payments and their amounts.\<close>

type_synonym mem_ledger = "(jstr, (jstr, int) jsmap) jsmap"

definition payments_of :: "mem_ledger \<Rightarrow> jstr \<Rightarrow> (jstr, int) jsmap" where
  "payments_of l i = (case mget l i of None \<Rightarrow> [] | Some ps \<Rightarrow> ps)"

definition ledger_reserve :: "mem_ledger \<Rightarrow> jstr \<Rightarrow> jstr \<Rightarrow> int \<Rightarrow> int \<Rightarrow> mem_ledger \<times> reserve_outcome option" where
  "ledger_reserve l i p a c =
    (if \<not> isMoney a \<or> \<not> isPositive c then (l, None)
     else let l1 = (if mget l i = None then mset_key l i [] else l); ps = payments_of l1 i in
       if mhas ps p then (l1, Some Duplicate)
       else let t = a + sum_list (map snd ps) in
         if \<not> safe t \<or> c < t then (l1, Some ExceedsCeiling)
         else (mset_key l1 i (mset_key ps p a), Some Reserved))"

definition ledger_release :: "mem_ledger \<Rightarrow> jstr \<Rightarrow> jstr \<Rightarrow> mem_ledger" where
  "ledger_release l i p = (case mget l i of None \<Rightarrow> l | Some ps \<Rightarrow> mset_key l i (mdelete ps p))"

definition ledger_spent :: "mem_ledger \<Rightarrow> jstr \<Rightarrow> int" where
  "ledger_spent l i = sum_list (map snd (payments_of l i))"

definition ledger_charged :: "mem_ledger \<Rightarrow> jstr \<Rightarrow> jstr \<Rightarrow> bool" where
  "ledger_charged l i p \<longleftrightarrow> mhas (payments_of l i) p"

definition ledger_inv :: "mem_ledger \<Rightarrow> bool" where
  "ledger_inv l \<longleftrightarrow> (\<forall>i. \<forall>e \<in> set (payments_of l i). 0 \<le> snd e)"

lemma payments_of_set [simp]: "payments_of (mset_key l i ps) j = (if j = i then ps else payments_of l j)"
  by (simp add: payments_of_def)

lemma payments_of_None [simp]: "mget l i = None \<Longrightarrow> payments_of l i = []"
  by (simp add: payments_of_def)

lemma payments_of_open [simp]: "payments_of (if mget l i = None then mset_key l i [] else l) j = payments_of l j"
  by (auto simp: payments_of_def)

lemma sum_put_new: "mget m k = None \<Longrightarrow> sum_list (map snd (mset_key m k v)) = sum_list (map snd m) + (v :: int)"
  by (simp add: mset_key_append)

lemma sum_delete: "\<forall>e \<in> set m. 0 \<le> snd e \<Longrightarrow> sum_list (map snd (mdelete m k)) \<le> sum_list (map snd (m :: (jstr, int) jsmap))"
  by (induction m) (auto simp: mdelete_def)

lemma reserve_cases:
  "ledger_reserve l i p a c = (l', r) \<Longrightarrow>
    (if r = Some Reserved then \<not> mhas (payments_of l i) p \<and> 0 \<le> a \<and> ledger_spent l i + a \<le> c
       \<and> (\<forall>j. payments_of l' j = (if j = i then mset_key (payments_of l i) p a else payments_of l j))
     else \<forall>j. payments_of l' j = payments_of l j)"
  by (auto simp: ledger_reserve_def Let_def ledger_spent_def isMoney_def split: if_splits)

lemma ledger_release_eq:
  "ledger_release l i p = (if mget l i = None then l else mset_key l i (mdelete (payments_of l i) p))"
  by (auto simp: ledger_release_def payments_of_def)

interpretation memory_ledger: spend_ledger ledger_reserve ledger_release ledger_spent ledger_charged ledger_inv
proof unfold_locales
  fix l i p a c j q
  obtain l' r where lr: "ledger_reserve l i p a c = (l', r)" by (cases "ledger_reserve l i p a c")
  note c = reserve_cases [OF lr]
  show "ledger_inv l \<Longrightarrow> ledger_inv (fst (ledger_reserve l i p a c))"
    using c set_mset_key [of "payments_of l i" p a] by (auto simp: lr ledger_inv_def split: if_splits dest!: subsetD)
  show "snd (ledger_reserve l i p a c) = Some Reserved \<Longrightarrow>
      ledger_spent (fst (ledger_reserve l i p a c)) i = ledger_spent l i + a \<and> ledger_spent l i + a \<le> c
      \<and> \<not> ledger_charged l i p \<and> ledger_charged (fst (ledger_reserve l i p a c)) i p"
    using c by (auto simp: lr ledger_spent_def ledger_charged_def mhas_def sum_put_new)
  show "snd (ledger_reserve l i p a c) \<noteq> Some Reserved \<Longrightarrow>
      ledger_spent (fst (ledger_reserve l i p a c)) j = ledger_spent l j
      \<and> ledger_charged (fst (ledger_reserve l i p a c)) j q = ledger_charged l j q"
    using c by (simp add: lr ledger_spent_def ledger_charged_def)
  show "j \<noteq> i \<Longrightarrow> ledger_spent (fst (ledger_reserve l i p a c)) j = ledger_spent l j"
    using c by (auto simp: lr ledger_spent_def split: if_splits)
  show "ledger_charged l j q \<Longrightarrow> ledger_charged (fst (ledger_reserve l i p a c)) j q"
    using c by (auto simp: lr ledger_charged_def mhas_def split: if_splits)
next
  fix l i p
  show "ledger_inv l \<Longrightarrow> ledger_inv (ledger_release l i p)"
    by (fastforce simp: ledger_release_eq ledger_inv_def set_mdelete)
next
  fix l i p j
  assume "ledger_inv l"
  then show "ledger_spent (ledger_release l i p) j \<le> ledger_spent l j"
    using sum_delete [of "payments_of l i" p] by (auto simp: ledger_release_eq ledger_spent_def ledger_inv_def)
next
  fix l i p j q
  show "ledger_charged (ledger_release l i p) j q \<longleftrightarrow> ledger_charged l j q \<and> (j, q) \<noteq> (i, p)"
    by (auto simp: ledger_release_def ledger_charged_def mhas_def payments_of_def split: option.splits)
qed

section \<open>Verification\<close>

datatype payment_failure =
  PayMalformed | PayVersion | IntentLifetime | CartLifetime | PaymentLifetime | PayNotYetValid | IntentExpired | CartExpired
  | PaymentExpired | PayerMismatch | MerchantMismatch | AgentMismatch | IntentMismatch | CartMismatch | CurrencyMismatch
  | NoPayerKey | NoMerchantKey | NoAgentKey | InvalidIntentSignature | InvalidCartSignature | InvalidPaymentSignature
  | CartTotalWrong | CartDigestMismatch | AmountMismatch | MerchantNotAllowed | CategoryNotAllowed | ExceedsPerPurchase
  | ExceedsTotal | AlreadyCharged | ExceedsCumulative | ApprovalRequired | ApprovalInvalid approval_failure

record approval_input =
  ai_grant :: "grant option"
  ai_keys :: "jstr \<Rightarrow> jstr option"
  ai_allowed :: "jstr list"
  ai_store :: bool

record payment_input =
  pi_intent :: intent_mandate
  pi_cart :: cart_mandate
  pi_payment :: payment_mandate
  payerKeys :: "jstr \<Rightarrow> jstr option"
  merchantKeys :: "jstr \<Rightarrow> jstr option"
  agentKeys :: "jstr \<Rightarrow> jstr option"
  expectedPayer :: jstr
  expectedMerchant :: jstr
  pi_approval :: "approval_input option"
  pi_now :: int
  pi_skew :: int

definition paymentApprovalAction :: "payment_mandate \<Rightarrow> bound_action" where
  "paymentApprovalAction p = \<lparr>act_method = js ''PAY'', act_path = js ''/mandate/'' @ pm_id p, act_bodySha256 = pm_cartDigest p\<rparr>"

text \<open>The run-time type checks of \<open>shape\<close> hold by typing; these remain.\<close>

definition shape :: "intent_mandate \<Rightarrow> cart_mandate \<Rightarrow> payment_mandate \<Rightarrow> bool" where
  "shape i c p \<longleftrightarrow> safe (im_issuedAt i) \<and> safe (im_expiresAt i) \<and> safe (cm_issuedAt c) \<and> safe (cm_expiresAt c)
     \<and> safe (pm_issuedAt p) \<and> safe (pm_expiresAt p) \<and> isMoney (totalMinor c) \<and> isMoney (amountMinor p)
     \<and> is_currency (currency (im_constraints i)) \<and> isPositive (maxTotalMinor (im_constraints i))"

definition lifetime_bad :: "int \<Rightarrow> int \<Rightarrow> int \<Rightarrow> bool" where
  "lifetime_bad iat eat mx \<longleftrightarrow> eat \<le> iat \<or> mx < eat - iat"

text \<open>The checks before any key is looked up, in the order of the source.\<close>

definition document_checks :: "payment_input \<Rightarrow> payment_failure option" where
  "document_checks o' =
    (let i = pi_intent o'; c = pi_cart o'; p = pi_payment o'; now = pi_now o'; soon = pi_now o' + pi_skew o' in
     if \<not> shape i c p then Some PayMalformed
     else if im_version i \<noteq> mandate_version \<or> cm_version c \<noteq> mandate_version \<or> pm_version p \<noteq> mandate_version then Some PayVersion
     else if lifetime_bad (im_issuedAt i) (im_expiresAt i) MAX_INTENT_LIFETIME_MS then Some IntentLifetime
     else if lifetime_bad (cm_issuedAt c) (cm_expiresAt c) MAX_CART_LIFETIME_MS then Some CartLifetime
     else if lifetime_bad (pm_issuedAt p) (pm_expiresAt p) MAX_PAYMENT_LIFETIME_MS then Some PaymentLifetime
     else if soon < im_issuedAt i \<or> soon < cm_issuedAt c \<or> soon < pm_issuedAt p then Some PayNotYetValid
     else if im_expiresAt i \<le> now then Some IntentExpired
     else if cm_expiresAt c \<le> now then Some CartExpired
     else if pm_expiresAt p \<le> now then Some PaymentExpired
     else if payer i \<noteq> expectedPayer o' then Some PayerMismatch
     else if cm_merchant c \<noteq> expectedMerchant o' \<or> pm_merchant p \<noteq> expectedMerchant o' then Some MerchantMismatch
     else if pm_agent p \<noteq> im_agent i then Some AgentMismatch
     else if cm_intentId c \<noteq> im_id i \<or> pm_intentId p \<noteq> im_id i then Some IntentMismatch
     else if pm_cartId p \<noteq> cm_id c then Some CartMismatch
     else if cm_currency c \<noteq> currency (im_constraints i) \<or> pm_currency p \<noteq> currency (im_constraints i) then Some CurrencyMismatch
     else None)"

definition key_of :: "(jstr \<Rightarrow> jstr option) \<Rightarrow> jstr \<Rightarrow> jstr option" where
  "key_of reg who = (case reg who of None \<Rightarrow> None | Some k \<Rightarrow> if k = [] then None else Some k)"

text \<open>Keys and signatures. The outer option is a throw.\<close>

definition signature_checks :: "crypto \<Rightarrow> payment_input \<Rightarrow> payment_failure option option" where
  "signature_checks C o' =
    (let i = pi_intent o'; c = pi_cart o'; p = pi_payment o' in
     case key_of (payerKeys o') (payer i) of None \<Rightarrow> Some (Some NoPayerKey)
     | Some pk \<Rightarrow>
     (case key_of (merchantKeys o') (cm_merchant c) of None \<Rightarrow> Some (Some NoMerchantKey)
     | Some mk \<Rightarrow>
     (case key_of (agentKeys o') (pm_agent p) of None \<Rightarrow> Some (Some NoAgentKey)
     | Some ak \<Rightarrow>
     (case verify_canonical C (canonIntent i) (im_signature i) pk of
        None \<Rightarrow> None | Some False \<Rightarrow> Some (Some InvalidIntentSignature)
      | Some True \<Rightarrow>
     (case verify_canonical C (canonCart c) (cm_signature c) mk of
        None \<Rightarrow> None | Some False \<Rightarrow> Some (Some InvalidCartSignature)
      | Some True \<Rightarrow>
     (case verify_canonical C (canonPayment p) (pm_signature p) ak of
        None \<Rightarrow> None | Some False \<Rightarrow> Some (Some InvalidPaymentSignature)
      | Some True \<Rightarrow> Some None))))))"

text \<open>The money and the constraints of the intent.\<close>

definition money_checks :: "crypto \<Rightarrow> payment_input \<Rightarrow> payment_failure option option" where
  "money_checks C o' =
    (let i = pi_intent o'; c = pi_cart o'; p = pi_payment o'; k = im_constraints i in
     if checkedTotal (cart_items c) \<noteq> Some (totalMinor c) then Some (Some CartTotalWrong)
     else case cartDigest C c of None \<Rightarrow> None
     | Some d \<Rightarrow>
       Some (if pm_cartDigest p \<noteq> d then Some CartDigestMismatch
         else if amountMinor p \<noteq> totalMinor c then Some AmountMismatch
         else if (case merchants k of None \<Rightarrow> False | Some ms \<Rightarrow> cm_merchant c \<notin> set ms) then Some MerchantNotAllowed
         else if (case categories k of None \<Rightarrow> False
             | Some cs \<Rightarrow> \<exists>it \<in> set (cart_items c). case category it of None \<Rightarrow> True | Some x \<Rightarrow> x \<notin> set cs) then Some CategoryNotAllowed
         else if (case maxPerPurchaseMinor k of None \<Rightarrow> False | Some n \<Rightarrow> n < amountMinor p) then Some ExceedsPerPurchase
         else if maxTotalMinor k < amountMinor p then Some ExceedsTotal
         else None))"

definition approval_opts_of :: "payment_input \<Rightarrow> approval_input \<Rightarrow> verify_opts" where
  "approval_opts_of o' a = \<lparr>vo_approverKeys = ai_keys a, vo_allowedApprovers = ai_allowed a,
     vo_subject = pm_agent (pi_payment o'), vo_action = paymentApprovalAction (pi_payment o'), vo_now = pi_now o', vo_skew = pi_skew o'\<rparr>"

text \<open>
  Recording the spend, then asking for the human: the last part of \<open>verifyPayment\<close>. The
  state is the ledger and the approval replay store; the result is the spent total and
  the approver, a failure, or \<open>None\<close> when a call throws.
\<close>

definition approve ::
  "crypto \<Rightarrow> ('st \<Rightarrow> jstr \<Rightarrow> jnum \<Rightarrow> int \<Rightarrow> 'st \<times> bool option) \<Rightarrow> int \<Rightarrow> mem_ledger \<Rightarrow> 'st \<Rightarrow> payment_input
    \<Rightarrow> (mem_ledger \<times> 'st) \<times> (payment_failure + (int \<times> jstr option)) option" where
  "approve C check clock l s0 o' =
    (let p = pi_payment o'; iid = im_id (pi_intent o') in
     case pi_approval o' of
       None \<Rightarrow> ((ledger_release l iid (pm_id p), s0), Some (Inl ApprovalRequired))
     | Some a \<Rightarrow>
         if ai_grant a = None then ((ledger_release l iid (pm_id p), s0), Some (Inl ApprovalRequired))
         else (case verifyApproval C (if ai_store a then Some check else None) s0 clock (ai_grant a) (approval_opts_of o' a) of
            (s, None) \<Rightarrow> ((l, s), None)
          | (s, Some (Inl e)) \<Rightarrow> ((ledger_release l iid (pm_id p), s), Some (Inl (ApprovalInvalid e)))
          | (s, Some (Inr g)) \<Rightarrow> ((l, s), Some (Inr (ledger_spent l iid, Some (g_approver g))))))"

definition needs_approval :: "payment_input \<Rightarrow> bool" where
  "needs_approval o' \<longleftrightarrow> (case requireApprovalAboveMinor (im_constraints (pi_intent o')) of
     None \<Rightarrow> False | Some n \<Rightarrow> n < amountMinor (pi_payment o'))"

definition settle ::
  "crypto \<Rightarrow> ('st \<Rightarrow> jstr \<Rightarrow> jnum \<Rightarrow> int \<Rightarrow> 'st \<times> bool option) \<Rightarrow> int \<Rightarrow> mem_ledger \<times> 'st \<Rightarrow> payment_input
    \<Rightarrow> (mem_ledger \<times> 'st) \<times> (payment_failure + (int \<times> jstr option)) option" where
  "settle C check clock st o' =
    (let iid = im_id (pi_intent o') in
     case ledger_reserve (fst st) iid (pm_id (pi_payment o')) (amountMinor (pi_payment o'))
            (maxTotalMinor (im_constraints (pi_intent o'))) of
       (l, r) \<Rightarrow>
         (case r of
            None \<Rightarrow> ((l, snd st), None)
          | Some Duplicate \<Rightarrow> ((l, snd st), Some (Inl AlreadyCharged))
          | Some ExceedsCeiling \<Rightarrow> ((l, snd st), Some (Inl ExceedsCumulative))
          | Some Reserved \<Rightarrow>
              if needs_approval o' then approve C check clock l (snd st) o'
              else ((l, snd st), Some (Inr (ledger_spent l iid, None)))))"

definition verifyPayment ::
  "crypto \<Rightarrow> ('st \<Rightarrow> jstr \<Rightarrow> jnum \<Rightarrow> int \<Rightarrow> 'st \<times> bool option) \<Rightarrow> int \<Rightarrow> mem_ledger \<times> 'st \<Rightarrow> payment_input
    \<Rightarrow> (mem_ledger \<times> 'st) \<times> (payment_failure + (int \<times> jstr option)) option" where
  "verifyPayment C check clock st o' =
    (case document_checks o' of Some e \<Rightarrow> (st, Some (Inl e))
     | None \<Rightarrow>
     (case signature_checks C o' of None \<Rightarrow> (st, None) | Some (Some e) \<Rightarrow> (st, Some (Inl e))
      | Some None \<Rightarrow>
     (case money_checks C o' of None \<Rightarrow> (st, None) | Some (Some e) \<Rightarrow> (st, Some (Inl e))
      | Some None \<Rightarrow> settle C check clock st o')))"

lemma signature_checks_None:
  "signature_checks C o' = Some None \<longleftrightarrow>
    (\<exists>pk mk ak. key_of (payerKeys o') (payer (pi_intent o')) = Some pk \<and>
      key_of (merchantKeys o') (cm_merchant (pi_cart o')) = Some mk \<and> key_of (agentKeys o') (pm_agent (pi_payment o')) = Some ak \<and>
      verify_canonical C (canonIntent (pi_intent o')) (im_signature (pi_intent o')) pk = Some True \<and>
      verify_canonical C (canonCart (pi_cart o')) (cm_signature (pi_cart o')) mk = Some True \<and>
      verify_canonical C (canonPayment (pi_payment o')) (pm_signature (pi_payment o')) ak = Some True)"
  by (auto simp: signature_checks_def Let_def split: option.splits bool.splits)

lemma money_checks_None:
  "money_checks C o' = Some None \<Longrightarrow>
    amountMinor (pi_payment o') = (\<Sum>it \<leftarrow> cart_items (pi_cart o'). quantity it * unitMinor it) \<and>
    cartDigest C (pi_cart o') = Some (pm_cartDigest (pi_payment o')) \<and>
    amountMinor (pi_payment o') \<le> maxTotalMinor (im_constraints (pi_intent o')) \<and>
    (\<forall>n. maxPerPurchaseMinor (im_constraints (pi_intent o')) = Some n \<longrightarrow> amountMinor (pi_payment o') \<le> n) \<and>
    (\<forall>ms. merchants (im_constraints (pi_intent o')) = Some ms \<longrightarrow> cm_merchant (pi_cart o') \<in> set ms) \<and>
    (\<forall>cs. categories (im_constraints (pi_intent o')) = Some cs \<longrightarrow>
      (\<forall>it \<in> set (cart_items (pi_cart o')). \<exists>x \<in> set cs. category it = Some x))"
  using total_loop_sum [of "cart_items (pi_cart o')" 0 "totalMinor (pi_cart o')"]
  by (auto simp: money_checks_def Let_def checkedTotal_def split: option.splits if_splits)

lemma document_checks_None:
  assumes "document_checks o' = None"
  shows "payer (pi_intent o') = expectedPayer o' \<and> cm_merchant (pi_cart o') = expectedMerchant o' \<and>
    pm_merchant (pi_payment o') = expectedMerchant o' \<and> pm_agent (pi_payment o') = im_agent (pi_intent o') \<and>
    cm_intentId (pi_cart o') = im_id (pi_intent o') \<and> pm_intentId (pi_payment o') = im_id (pi_intent o') \<and>
    pm_cartId (pi_payment o') = cm_id (pi_cart o') \<and> pm_currency (pi_payment o') = currency (im_constraints (pi_intent o')) \<and>
    pi_now o' < im_expiresAt (pi_intent o') \<and> pi_now o' < cm_expiresAt (pi_cart o') \<and> pi_now o' < pm_expiresAt (pi_payment o')"
  using assms by (simp add: document_checks_def Let_def split: if_splits)

lemma key_of_Some: "key_of reg who = Some k \<longleftrightarrow> reg who = Some k \<and> k \<noteq> []"
  by (auto simp: key_of_def split: option.splits)

lemma approve_accepts:
  assumes "approve C check clock l s0 o' = (st', Some (Inr (n, appr)))"
  shows "fst st' = l \<and> n = ledger_spent l (im_id (pi_intent o')) \<and>
    (\<exists>a g. pi_approval o' = Some a \<and> ai_grant a = Some g \<and> appr = Some (g_approver g) \<and> approval_authentic C g (approval_opts_of o' a))"
proof (cases "pi_approval o'")
  case None
  with assms show ?thesis by (simp add: approve_def Let_def)
next
  case (Some a)
  show ?thesis
  proof (cases "ai_grant a")
    case None
    with Some assms show ?thesis by (simp add: approve_def Let_def)
  next
    case (Some g)
    obtain s r where v: "verifyApproval C (if ai_store a then Some check else None) s0 clock (Some g) (approval_opts_of o' a) = (s, r)"
      by (cases "verifyApproval C (if ai_store a then Some check else None) s0 clock (Some g) (approval_opts_of o' a)")
    with assms Some \<open>pi_approval o' = Some a\<close> obtain g' where "r = Some (Inr g')" "st' = (l, s)" "n = ledger_spent l (im_id (pi_intent o'))"
        "appr = Some (g_approver g')"
      by (auto simp: approve_def Let_def split: option.splits sum.splits)
    moreover from this v have "g' = g \<and> approval_authentic C g (approval_opts_of o' a)"
      using verifyApproval_authentic [of C "if ai_store a then Some check else None" s0 clock g "approval_opts_of o' a" g'] by simp
    ultimately show ?thesis using Some \<open>pi_approval o' = Some a\<close> by simp
  qed
qed

lemma settle_accepts:
  assumes "settle C check clock st o' = (st', Some (Inr (n, appr)))"
  shows "ledger_reserve (fst st) (im_id (pi_intent o')) (pm_id (pi_payment o')) (amountMinor (pi_payment o'))
      (maxTotalMinor (im_constraints (pi_intent o'))) = (fst st', Some Reserved) \<and>
    n = ledger_spent (fst st') (im_id (pi_intent o')) \<and>
    (needs_approval o' \<longrightarrow>
      (\<exists>a g. pi_approval o' = Some a \<and> ai_grant a = Some g \<and> appr = Some (g_approver g) \<and> approval_authentic C g (approval_opts_of o' a)))"
proof -
  obtain l r where lr: "ledger_reserve (fst st) (im_id (pi_intent o')) (pm_id (pi_payment o')) (amountMinor (pi_payment o'))
      (maxTotalMinor (im_constraints (pi_intent o'))) = (l, r)" by fastforce
  with assms have "r = Some Reserved"
    by (auto simp: settle_def Let_def split: option.splits reserve_outcome.splits)
  with assms lr approve_accepts [of C check clock l "snd st" o' st' n appr] show ?thesis
    by (auto simp: settle_def Let_def split: if_splits)
qed

lemma verifyPayment_accepts:
  assumes "verifyPayment C check clock st o' = (st', Some (Inr (n, appr)))"
  shows "document_checks o' = None \<and> signature_checks C o' = Some None \<and> money_checks C o' = Some None \<and>
    settle C check clock st o' = (st', Some (Inr (n, appr)))"
  using assms by (auto simp: verifyPayment_def split: option.splits)

text \<open>Whatever the outcome, the ledger invariant holds, and every refusal leaves every intent's total as it was.\<close>

lemma approve_ledger:
  "fst (fst (approve C check clock l s0 o')) \<in> {l, ledger_release l (im_id (pi_intent o')) (pm_id (pi_payment o'))}"
  by (auto simp: approve_def Let_def split: option.splits sum.splits prod.splits)

lemma verifyPayment_ledger:
  assumes "ledger_inv (fst st)"
  shows "ledger_inv (fst (fst (verifyPayment C check clock st o')))"
proof -
  obtain l r where lr: "ledger_reserve (fst st) (im_id (pi_intent o')) (pm_id (pi_payment o')) (amountMinor (pi_payment o'))
      (maxTotalMinor (im_constraints (pi_intent o'))) = (l, r)" by fastforce
  have l: "ledger_inv l" using memory_ledger.invar_reserve [OF assms] lr by (metis fst_conv)
  then have "ledger_inv (fst (fst (approve C check clock l (snd st) o')))"
    using approve_ledger [of C check clock l "snd st" o'] memory_ledger.invar_release by auto
  with l lr have "ledger_inv (fst (fst (settle C check clock st o')))"
    by (auto simp: settle_def Let_def split: option.splits reserve_outcome.splits)
  with assms show ?thesis by (auto simp: verifyPayment_def split: option.splits)
qed

section \<open>Sequences of payments\<close>

lemma ledger_release_undo:
  assumes "ledger_reserve l i p a c = (l', Some Reserved)"
  shows "ledger_spent (ledger_release l' i p) j = ledger_spent l j \<and> ledger_charged (ledger_release l' i p) j q = ledger_charged l j q"
proof -
  note c = reserve_cases [OF assms, simplified]
  have p: "payments_of (ledger_release l' i p) k = (if k = i then mdelete (payments_of l' i) p else payments_of l' k)" for k
    by (auto simp: ledger_release_eq mdelete_def)
  have new: "mget (payments_of l i) p = None" using c by (auto simp: mhas_def)
  have "mdelete (mset_key (payments_of l i) p a) p = mdelete (payments_of l i) p"
    using new by (simp add: mset_key_append mdelete_def)
  also have "\<dots> = payments_of l i"
    using new by (auto simp: mdelete_def mget_def map_of_eq_None_iff intro!: filter_True)
  finally have "payments_of (ledger_release l' i p) k = payments_of l k" for k using c by (simp add: p)
  then show ?thesis by (simp add: ledger_spent_def ledger_charged_def)
qed

text \<open>What one call does to the ledger: nothing is lost, and an accepted payment is charged once, under its ceiling.\<close>

definition ledger_grows :: "mem_ledger \<Rightarrow> mem_ledger \<Rightarrow> bool" where
  "ledger_grows l l' \<longleftrightarrow> (\<forall>i. ledger_spent l i \<le> ledger_spent l' i) \<and> (\<forall>i p. ledger_charged l i p \<longrightarrow> ledger_charged l' i p)"

lemma ledger_grows_refl: "ledger_grows l l"
  by (simp add: ledger_grows_def)

lemma reserve_grows:
  assumes "ledger_reserve l i p a c = (l', r)" "ledger_inv l"
  shows "ledger_grows l l'"
proof (cases "r = Some Reserved")
  case True
  with reserve_cases [OF assms(1)] have c: "mget (payments_of l i) p = None" "0 \<le> a"
    "\<forall>j. payments_of l' j = (if j = i then mset_key (payments_of l i) p a else payments_of l j)" by (auto simp: mhas_def)
  then show ?thesis by (auto simp: ledger_grows_def ledger_spent_def ledger_charged_def sum_put_new mhas_def)
next
  case False
  with reserve_cases [OF assms(1)] show ?thesis by (simp add: ledger_grows_def ledger_spent_def ledger_charged_def)
qed

lemma settle_grows:
  assumes "ledger_inv (fst st)"
  shows "ledger_grows (fst st) (fst (fst (settle C check clock st o')))"
proof -
  obtain l r where lr: "ledger_reserve (fst st) (im_id (pi_intent o')) (pm_id (pi_payment o')) (amountMinor (pi_payment o'))
      (maxTotalMinor (im_constraints (pi_intent o'))) = (l, r)" by fastforce
  note g = reserve_grows [OF lr assms]
  have "r = Some Reserved \<Longrightarrow> ledger_grows (fst st) (ledger_release l (im_id (pi_intent o')) (pm_id (pi_payment o')))"
    using ledger_release_undo [of "fst st" "im_id (pi_intent o')" "pm_id (pi_payment o')"] lr by (simp add: ledger_grows_def)
  with g have "r = Some Reserved \<Longrightarrow> ledger_grows (fst st) (fst (fst (approve C check clock l (snd st) o')))"
    using approve_ledger [of C check clock l "snd st" o'] by auto
  with g lr show ?thesis by (auto simp: settle_def Let_def split: option.splits reserve_outcome.splits)
qed

lemma verifyPayment_grows:
  "ledger_inv (fst st) \<Longrightarrow> ledger_grows (fst st) (fst (fst (verifyPayment C check clock st o')))"
  using settle_grows [of st C check clock o'] by (auto simp: verifyPayment_def ledger_grows_refl split: option.splits)

lemma verifyPayment_charges:
  assumes "ledger_inv (fst st)" "verifyPayment C check clock st o' = (st', Some (Inr v))"
  shows "ledger_spent (fst st') (im_id (pi_intent o')) = ledger_spent (fst st) (im_id (pi_intent o')) + amountMinor (pi_payment o') \<and>
    ledger_spent (fst st') (im_id (pi_intent o')) \<le> maxTotalMinor (im_constraints (pi_intent o')) \<and>
    \<not> ledger_charged (fst st) (im_id (pi_intent o')) (pm_id (pi_payment o')) \<and>
    ledger_charged (fst st') (im_id (pi_intent o')) (pm_id (pi_payment o'))"
proof -
  obtain n appr where v: "v = (n, appr)" by (cases v)
  from verifyPayment_accepts [OF assms(2) [unfolded v]] have "settle C check clock st o' = (st', Some (Inr (n, appr)))" by blast
  from settle_accepts [OF this]
  have r: "ledger_reserve (fst st) (im_id (pi_intent o')) (pm_id (pi_payment o')) (amountMinor (pi_payment o'))
      (maxTotalMinor (im_constraints (pi_intent o'))) = (fst st', Some Reserved)" by blast
  from memory_ledger.reserved [OF assms(1), of "im_id (pi_intent o')" "pm_id (pi_payment o')" "amountMinor (pi_payment o')"
      "maxTotalMinor (im_constraints (pi_intent o'))"] show ?thesis by (simp add: r)
qed

text \<open>A sequence of calls, each with the store's clock reading, and the payments accepted in it.\<close>

fun payment_run :: "crypto \<Rightarrow> ('st \<Rightarrow> jstr \<Rightarrow> jnum \<Rightarrow> int \<Rightarrow> 'st \<times> bool option) \<Rightarrow> mem_ledger \<times> 'st \<Rightarrow> (int \<times> payment_input) list
    \<Rightarrow> (mem_ledger \<times> 'st) \<times> payment_input list" where
  "payment_run C check st [] = (st, [])"
| "payment_run C check st ((clock, o') # xs) =
    (case verifyPayment C check clock st o' of
       (st', r) \<Rightarrow> (case payment_run C check st' xs of
         (st'', acc) \<Rightarrow> (st'', (case r of Some (Inr v) \<Rightarrow> [o'] | _ \<Rightarrow> []) @ acc)))"

definition payment_key :: "payment_input \<Rightarrow> jstr \<times> jstr" where
  "payment_key o' = (im_id (pi_intent o'), pm_id (pi_payment o'))"

definition charged_total :: "jstr \<Rightarrow> payment_input list \<Rightarrow> int" where
  "charged_total i xs = (\<Sum>x \<leftarrow> filter (\<lambda>x. im_id (pi_intent x) = i) xs. amountMinor (pi_payment x))"

lemma payment_run_Cons:
  assumes "payment_run C check st ((clock, o') # xs) = (st', acc)"
  shows "\<exists>st1 r acc'. verifyPayment C check clock st o' = (st1, r) \<and> payment_run C check st1 xs = (st', acc') \<and>
    ((\<forall>v. r \<noteq> Some (Inr v)) \<and> acc = acc' \<or> (\<exists>v. r = Some (Inr v)) \<and> acc = o' # acc')"
  using assms by (auto split: prod.splits option.splits sum.splits)

lemma payment_run_total:
  assumes "ledger_inv (fst st)" "payment_run C check st xs = (st', acc)" "B \<le> ledger_spent (fst st) i" "B \<le> M"
    and "\<forall>x \<in> set acc. im_id (pi_intent x) = i \<longrightarrow> maxTotalMinor (im_constraints (pi_intent x)) \<le> M"
  shows "B + charged_total i acc \<le> M"
  using assms
proof (induction xs arbitrary: st acc B)
  case Nil
  then show ?case by (simp add: charged_total_def)
next
  case (Cons x xs)
  obtain clock o' where x: "x = (clock, o')" by (cases x)
  obtain st1 r acc' where v: "verifyPayment C check clock st o' = (st1, r)" and run: "payment_run C check st1 xs = (st', acc')"
    and acc: "(\<forall>v. r \<noteq> Some (Inr v)) \<and> acc = acc' \<or> (\<exists>v. r = Some (Inr v)) \<and> acc = o' # acc'"
    using payment_run_Cons [OF Cons.prems(2) [unfolded x]] by blast
  have inv1: "ledger_inv (fst st1)" using verifyPayment_ledger [OF Cons.prems(1), of C check clock o'] by (simp add: v)
  have g1: "ledger_spent (fst st) i \<le> ledger_spent (fst st1) i"
    using verifyPayment_grows [OF Cons.prems(1), of C check clock o'] by (simp add: v ledger_grows_def)
  show ?case
  proof (cases "\<exists>w. r = Some (Inr w) \<and> im_id (pi_intent o') = i")
    case False
    then have "charged_total i acc = charged_total i acc'" using acc by (auto simp: charged_total_def)
    then show ?thesis using Cons.IH [OF inv1 run, of B] g1 Cons.prems(3-5) acc by auto
  next
    case True
    then obtain w where w: "r = Some (Inr w)" "im_id (pi_intent o') = i" by blast
    then have a: "acc = o' # acc'" using acc by blast
    from verifyPayment_charges [OF Cons.prems(1) v [unfolded w(1)]] w(2) Cons.prems(3,5) a
    have "B + amountMinor (pi_payment o') \<le> ledger_spent (fst st1) i" "B + amountMinor (pi_payment o') \<le> M" by auto
    from Cons.IH [OF inv1 run this] Cons.prems(5) a w(2) show ?thesis by (simp add: charged_total_def add.assoc)
  qed
qed

lemma payment_run_distinct:
  assumes "ledger_inv (fst st)" "payment_run C check st xs = (st', acc)"
  shows "distinct (map payment_key acc) \<and> (\<forall>x \<in> set acc. \<not> ledger_charged (fst st) (im_id (pi_intent x)) (pm_id (pi_payment x)))"
  using assms
proof (induction xs arbitrary: st acc)
  case (Cons x xs)
  obtain clock o' where x: "x = (clock, o')" by (cases x)
  obtain st1 r acc' where v: "verifyPayment C check clock st o' = (st1, r)" and run: "payment_run C check st1 xs = (st', acc')"
    and acc: "(\<forall>v. r \<noteq> Some (Inr v)) \<and> acc = acc' \<or> (\<exists>v. r = Some (Inr v)) \<and> acc = o' # acc'"
    using payment_run_Cons [OF Cons.prems(2) [unfolded x]] by blast
  have inv1: "ledger_inv (fst st1)" using verifyPayment_ledger [OF Cons.prems(1), of C check clock o'] by (simp add: v)
  have g1: "ledger_charged (fst st) i p \<Longrightarrow> ledger_charged (fst st1) i p" for i p
    using verifyPayment_grows [OF Cons.prems(1), of C check clock o'] by (simp add: v ledger_grows_def)
  note IH = Cons.IH [OF inv1 run]
  show ?case
  proof (cases "\<exists>w. r = Some (Inr w)")
    case False
    then have "acc = acc'" using acc by blast
    then show ?thesis using IH g1 by blast
  next
    case True
    then obtain w where w: "r = Some (Inr w)" by blast
    then have a: "acc = o' # acc'" using acc by blast
    from verifyPayment_charges [OF Cons.prems(1) v [unfolded w]]
    have c: "\<not> ledger_charged (fst st) (im_id (pi_intent o')) (pm_id (pi_payment o'))"
      "ledger_charged (fst st1) (im_id (pi_intent o')) (pm_id (pi_payment o'))" by auto
    then have "payment_key o' \<notin> payment_key ` set acc'" using IH by (auto simp: payment_key_def)
    then show ?thesis using IH g1 c(1) a by auto
  qed
qed simp

section \<open>Properties\<close>

text \<open>A cart total is recomputed exactly: checkedTotal succeeds precisely on carts whose quantities are positive and prices non-negative safe integers with a safe total, and then is the mathematical sum of quantity times price, so no rounding of large amounts can slip through.\<close>

theorem cart_total_exact:
  assumes "\<forall>it \<in> set its. safe (quantity it) \<and> safe (unitMinor it)"
  shows "checkedTotal its = Some t \<longleftrightarrow>
    (\<forall>it \<in> set its. 0 < quantity it \<and> 0 \<le> unitMinor it) \<and> t = (\<Sum>it \<leftarrow> its. quantity it * unitMinor it) \<and> t \<le> max_safe"
proof
  assume "checkedTotal its = Some t"
  from total_loop_sum [OF this [unfolded checkedTotal_def]]
  show "(\<forall>it \<in> set its. 0 < quantity it \<and> 0 \<le> unitMinor it) \<and> t = (\<Sum>it \<leftarrow> its. quantity it * unitMinor it) \<and> t \<le> max_safe"
    by (auto simp: safe_def max_safe_def)
next
  assume r: "(\<forall>it \<in> set its. 0 < quantity it \<and> 0 \<le> unitMinor it) \<and> t = (\<Sum>it \<leftarrow> its. quantity it * unitMinor it) \<and> t \<le> max_safe"
  then have "0 \<le> (\<Sum>it \<leftarrow> its. quantity it * unitMinor it)" by (auto intro!: sum_list_nonneg mult_nonneg_nonneg simp: less_imp_le)
  with total_loop_complete [of its 0] r assms show "checkedTotal its = Some t" by (simp add: checkedTotal_def safe_def)
qed

text \<open>C6 Over any sequence of verifyPayment calls from an empty ledger, the payments accepted under one intent never add up to more than its ceiling, and no payment of an intent is accepted twice, whether earlier calls were refused, threw, or handed their reservation back.\<close>

theorem payments_within_ceiling:
  assumes "payment_run C check ([], s) xs = (st', acc)" "0 \<le> M"
    and "\<forall>x \<in> set acc. im_id (pi_intent x) = i \<longrightarrow> maxTotalMinor (im_constraints (pi_intent x)) \<le> M"
  shows "charged_total i acc \<le> M \<and> distinct (map payment_key acc)"
proof -
  have inv: "ledger_inv (fst ([], s))" "ledger_spent (fst ([], s)) i = 0"
    by (simp_all add: ledger_inv_def payments_of_def ledger_spent_def)
  from payment_run_total [OF inv(1) assms(1) _ assms(2,3)] payment_run_distinct [OF inv(1) assms(1)] inv(2) show ?thesis by simp
qed

text \<open>C7 An accepted payment is what the three parties signed: the intent, cart and payment verify under the keys of payer, merchant and agent, belong together and to the expected parties, the amount is the recomputed cart total and within the limits, the merchant and every category are allowed, nothing is expired, and above the approval threshold an authentic approval of exactly this payment was presented.\<close>

theorem accepted_payment_sound:
  assumes "verifyPayment C check clock st o' = (st', Some (Inr (n, appr)))"
  shows "let i = pi_intent o'; c = pi_cart o'; p = pi_payment o'; k = im_constraints i in
    (\<exists>pk mk ak. payerKeys o' (payer i) = Some pk \<and> merchantKeys o' (cm_merchant c) = Some mk \<and> agentKeys o' (im_agent i) = Some ak \<and>
      verify_canonical C (canonIntent i) (im_signature i) pk = Some True \<and>
      verify_canonical C (canonCart c) (cm_signature c) mk = Some True \<and>
      verify_canonical C (canonPayment p) (pm_signature p) ak = Some True) \<and>
    payer i = expectedPayer o' \<and> cm_merchant c = expectedMerchant o' \<and> pm_merchant p = cm_merchant c \<and>
    cm_intentId c = im_id i \<and> pm_intentId p = im_id i \<and> pm_cartId p = cm_id c \<and> pm_currency p = currency k \<and>
    amountMinor p = (\<Sum>it \<leftarrow> cart_items c. quantity it * unitMinor it) \<and> amountMinor p \<le> maxTotalMinor k \<and>
    cartDigest C c = Some (pm_cartDigest p) \<and>
    pi_now o' < im_expiresAt i \<and> pi_now o' < cm_expiresAt c \<and> pi_now o' < pm_expiresAt p \<and>
    (\<forall>m. maxPerPurchaseMinor k = Some m \<longrightarrow> amountMinor p \<le> m) \<and>
    (\<forall>ms. merchants k = Some ms \<longrightarrow> cm_merchant c \<in> set ms) \<and>
    (\<forall>cs. categories k = Some cs \<longrightarrow> (\<forall>it \<in> set (cart_items c). \<exists>x. category it = Some x \<and> x \<in> set cs)) \<and>
    (needs_approval o' \<longrightarrow>
      (\<exists>a g. pi_approval o' = Some a \<and> ai_grant a = Some g \<and> appr = Some (g_approver g) \<and>
        g_action g = paymentApprovalAction p \<and> approval_authentic C g (approval_opts_of o' a)))"
proof -
  note v = verifyPayment_accepts [OF assms]
  have d: "document_checks o' = None" using v by blast
  have s: "signature_checks C o' = Some None" using v by blast
  have m: "money_checks C o' = Some None" using v by blast
  have act: "g_action g = paymentApprovalAction (pi_payment o')" if "approval_authentic C g (approval_opts_of o' a)" for a g
    using that by (auto simp: approval_authentic_def approval_checks_def approval_opts_of_def actionsEqual_iff split: if_splits)
  note docs = document_checks_None [OF d]
  have ag: "pm_agent (pi_payment o') = im_agent (pi_intent o')" using docs by blast
  from s [unfolded signature_checks_None]
  have keys: "\<exists>pk mk ak. payerKeys o' (payer (pi_intent o')) = Some pk \<and> merchantKeys o' (cm_merchant (pi_cart o')) = Some mk \<and>
      agentKeys o' (im_agent (pi_intent o')) = Some ak \<and>
      verify_canonical C (canonIntent (pi_intent o')) (im_signature (pi_intent o')) pk = Some True \<and>
      verify_canonical C (canonCart (pi_cart o')) (cm_signature (pi_cart o')) mk = Some True \<and>
      verify_canonical C (canonPayment (pi_payment o')) (pm_signature (pi_payment o')) ak = Some True"
    unfolding key_of_Some ag by blast
  have appr: "needs_approval o' \<longrightarrow>
      (\<exists>a g. pi_approval o' = Some a \<and> ai_grant a = Some g \<and> appr = Some (g_approver g) \<and>
        g_action g = paymentApprovalAction (pi_payment o') \<and> approval_authentic C g (approval_opts_of o' a))"
    using settle_accepts [OF conjunct2 [OF conjunct2 [OF conjunct2 [OF v]]]] act by blast
  have cats: "\<forall>cs. categories (im_constraints (pi_intent o')) = Some cs \<longrightarrow>
      (\<forall>it \<in> set (cart_items (pi_cart o')). \<exists>x. category it = Some x \<and> x \<in> set cs)"
    using money_checks_None [OF m] by blast
  have per: "\<forall>m. maxPerPurchaseMinor (im_constraints (pi_intent o')) = Some m \<longrightarrow> amountMinor (pi_payment o') \<le> m"
    using money_checks_None [OF m] by blast
  show ?thesis
    unfolding Let_def by (intro conjI keys appr cats per) (use docs money_checks_None [OF m] in simp_all)
qed

theorem cart_total_exact_witness:
  "checkedTotal [\<lparr>sku = js ''a'', description = None, category = None, quantity = 3, unitMinor = 5\<rparr>] = Some 15"
  using cart_total_exact [of "[\<lparr>sku = js ''a'', description = None, category = None, quantity = 3, unitMinor = 5\<rparr>]" 15]
  by (simp add: safe_def max_safe_def)

text \<open>A purchase of 3 items at 5, within a limit of 100, to evaluate the statements on.\<close>

definition demo_intent :: intent_mandate where
  "demo_intent = \<lparr>im_version = mandate_version, im_id = js ''i'', payer = js ''p'', im_agent = js ''a'',
    im_constraints = \<lparr>currency = js ''USD'', maxTotalMinor = 100, maxPerPurchaseMinor = Some 20, merchants = Some [js ''m''],
      categories = None, requireApprovalAboveMinor = None\<rparr>,
    im_issuedAt = 100, im_expiresAt = 200, im_keyId = js ''k'', im_signature = []\<rparr>"

definition demo_cart :: cart_mandate where
  "demo_cart = \<lparr>cm_version = mandate_version, cm_id = js ''c'', cm_intentId = js ''i'', cm_merchant = js ''m'', cm_currency = js ''USD'',
    cart_items = [\<lparr>sku = js ''s'', description = None, category = None, quantity = 3, unitMinor = 5\<rparr>], totalMinor = 15,
    cm_issuedAt = 100, cm_expiresAt = 200, cm_keyId = js ''k'', cm_signature = []\<rparr>"

definition demo_payment :: "jstr \<Rightarrow> payment_mandate" where
  "demo_payment d = \<lparr>pm_version = mandate_version, pm_id = js ''pay'', pm_intentId = js ''i'', pm_cartId = js ''c'', pm_cartDigest = d,
    pm_merchant = js ''m'', pm_agent = js ''a'', amountMinor = 15, pm_currency = js ''USD'', pm_issuedAt = 100, pm_expiresAt = 200,
    pm_keyId = js ''k'', pm_signature = []\<rparr>"

definition demo_input :: "jstr \<Rightarrow> jstr \<Rightarrow> jstr \<Rightarrow> jstr \<Rightarrow> payment_input" where
  "demo_input d s1 s2 s3 = \<lparr>pi_intent = demo_intent\<lparr>im_signature := s1\<rparr>, pi_cart = demo_cart\<lparr>cm_signature := s2\<rparr>,
    pi_payment = demo_payment d\<lparr>pm_signature := s3\<rparr>, payerKeys = (\<lambda>x. Some (js ''x'')), merchantKeys = (\<lambda>x. Some (js ''x'')),
    agentKeys = (\<lambda>x. Some (js ''x'')), expectedPayer = js ''p'', expectedMerchant = js ''m'', pi_approval = None, pi_now = 150, pi_skew = 0\<rparr>"

lemma canon_signature [simp]:
  "canonIntent (i\<lparr>im_signature := s\<rparr>) = canonIntent i" "canonCart (c\<lparr>cm_signature := s\<rparr>) = canonCart c"
  "canonPayment (p\<lparr>pm_signature := s\<rparr>) = canonPayment p"
  by (simp_all add: canonIntent_def canonCart_def canonPayment_def)

lemma demo_doc_signed: "\<exists>t. canon = Some t \<Longrightarrow> \<exists>s. verify_canonical demo_crypto canon s (js ''x'') = Some True"
  using sign_canonical_some [OF demo_pair] verify_canonical_sign [OF demo_pair] by metis

lemma demo_accepted:
  "\<exists>d s1 s2 s3. verifyPayment demo_crypto check clock ([], st) (demo_input d s1 s2 s3) =
    (([(js ''i'', [(js ''pay'', 15)])], st), Some (Inr (15, None)))"
proof -
  note canon_some = stableStringify_finite [THEN exI [of "\<lambda>t. stableStringify v = Some t" for v]]
  have "\<exists>t. canonIntent demo_intent = Some t"
    unfolding canonIntent_def by (rule canon_some) (simp add: demo_intent_def constraints_json_def null_or_def)
  moreover have "\<exists>t. canonCart demo_cart = Some t"
    unfolding canonCart_def by (rule canon_some) (simp add: demo_cart_def item_json_def null_or_def)
  moreover have "\<exists>t. canonPayment (demo_payment d) = Some t" for d
    unfolding canonPayment_def by (rule canon_some) (simp add: demo_payment_def)
  ultimately obtain s1 s2 t where s1: "verify_canonical demo_crypto (canonIntent demo_intent) s1 (js ''x'') = Some True"
    and s2: "verify_canonical demo_crypto (canonCart demo_cart) s2 (js ''x'') = Some True" and t: "canonCart demo_cart = Some t"
    and c3: "\<forall>d. \<exists>t. canonPayment (demo_payment d) = Some t"
    using demo_doc_signed by metis
  define d where "d = sha256Hex demo_crypto (t @ js ''.'' @ s2)"
  obtain s3 where s3: "verify_canonical demo_crypto (canonPayment (demo_payment d)) s3 (js ''x'') = Some True"
    using demo_doc_signed c3 by metis
  let ?o = "demo_input d s1 s2 s3"
  have docs: "document_checks ?o = None"
    by (simp add: document_checks_def demo_input_def shape_def demo_intent_def demo_cart_def demo_payment_def lifetime_bad_def Let_def
        MAX_INTENT_LIFETIME_MS_def MAX_CART_LIFETIME_MS_def MAX_PAYMENT_LIFETIME_MS_def safe_def max_safe_def isMoney_def isPositive_def is_currency_def ascii_eval)
  have sigs: "signature_checks demo_crypto ?o = Some None"
    using s1 s2 s3 by (simp add: signature_checks_def demo_input_def key_of_def) (simp add: js_def)
  have dig: "cartDigest demo_crypto (pi_cart ?o) = Some d"
    using t by (simp add: cartDigest_def demo_input_def d_def)
  have money: "money_checks demo_crypto ?o = Some None"
    unfolding money_checks_def dig Let_def
    by (simp add: demo_input_def demo_intent_def demo_cart_def demo_payment_def checkedTotal_def isPositive_def isMoney_def safe_def max_safe_def)
  have "settle demo_crypto check clock ([], st) ?o = (([(js ''i'', [(js ''pay'', 15)])], st), Some (Inr (15, None)))"
    by (simp add: settle_def needs_approval_def demo_input_def demo_intent_def demo_payment_def ledger_reserve_def isMoney_def isPositive_def
        safe_def max_safe_def payments_of_def mhas_def ledger_spent_def)
  then have "verifyPayment demo_crypto check clock ([], st) ?o = (([(js ''i'', [(js ''pay'', 15)])], st), Some (Inr (15, None)))"
    using docs sigs money by (simp add: verifyPayment_def)
  then show ?thesis by blast
qed

theorem accepted_payment_sound_witness:
  "\<exists>o'. snd (verifyPayment demo_crypto mem_check 0 ([], \<lparr>mem_entries = [], mem_max = 5\<rparr>) o') = Some (Inr (15, None)) \<and>
    amountMinor (pi_payment o') \<le> maxTotalMinor (im_constraints (pi_intent o')) \<and>
    cartDigest demo_crypto (pi_cart o') = Some (pm_cartDigest (pi_payment o'))"
proof -
  obtain d s1 s2 s3 where v: "verifyPayment demo_crypto mem_check 0 ([], \<lparr>mem_entries = [], mem_max = 5\<rparr>) (demo_input d s1 s2 s3) =
      (([(js ''i'', [(js ''pay'', 15)])], \<lparr>mem_entries = [], mem_max = 5\<rparr>), Some (Inr (15, None)))"
    using demo_accepted [of mem_check 0 "\<lparr>mem_entries = [], mem_max = 5\<rparr>"] by blast
  from accepted_payment_sound [OF v] show ?thesis unfolding Let_def by (intro exI [of _ "demo_input d s1 s2 s3"]) (use v in simp)
qed

lemma payment_run_subset: "payment_run C check st xs = (st', acc) \<Longrightarrow> set acc \<subseteq> snd ` set xs"
  by (induction xs arbitrary: st acc) (fastforce split: prod.splits option.splits sum.splits)+

theorem payments_within_ceiling_witness:
  "\<exists>x st' acc. payment_run demo_crypto mem_check ([], \<lparr>mem_entries = [], mem_max = 5\<rparr>) [(0, x), (1, x)] = (st', acc) \<and>
    acc \<noteq> [] \<and> charged_total (js ''i'') acc \<le> 100 \<and> distinct (map payment_key acc)"
proof -
  let ?st = "([] :: mem_ledger, \<lparr>mem_entries = [], mem_max = 5\<rparr>)"
  obtain d s1 s2 s3 where v: "verifyPayment demo_crypto mem_check 0 ?st (demo_input d s1 s2 s3) =
      (([(js ''i'', [(js ''pay'', 15)])], \<lparr>mem_entries = [], mem_max = 5\<rparr>), Some (Inr (15, None)))"
    using demo_accepted [of mem_check 0 "\<lparr>mem_entries = [], mem_max = 5\<rparr>"] by blast
  let ?x = "demo_input d s1 s2 s3"
  obtain st' acc where run: "payment_run demo_crypto mem_check ?st [(0, ?x), (1, ?x)] = (st', acc)" by fastforce
  have "acc \<noteq> []" using payment_run_Cons [OF run] v by auto
  moreover have "\<forall>x \<in> set acc. im_id (pi_intent x) = js ''i'' \<longrightarrow> maxTotalMinor (im_constraints (pi_intent x)) \<le> 100"
    using payment_run_subset [OF run] by (auto simp: demo_input_def demo_intent_def)
  ultimately have "acc \<noteq> [] \<and> charged_total (js ''i'') acc \<le> 100 \<and> distinct (map payment_key acc)"
    using payments_within_ceiling [OF run, of 100 "js ''i''"] by simp
  with run show ?thesis by blast
qed

end
