(* ===== verification/KeyLog.thy ===== *)
theory KeyLog
  imports Digest Mandate
begin

text \<open>
  The append-only key log of \<open>src/keyLog.ts\<close>: entries and their hash chain, the rules'
  running state, the writer, verification, checkpoints, resolution and the registry built on
  it. \<open>KeyLog.append\<close> awaits between reading the log and extending it, so it is split into
  the steps it really takes; running them one after another is \<open>append\<close>.
\<close>

section \<open>Entries\<close>

datatype entry_type = Register | Rotate | Revoke

fun entry_type_text :: "entry_type \<Rightarrow> jstr" where
  "entry_type_text Register = js ''register''"
| "entry_type_text Rotate = js ''rotate''"
| "entry_type_text Revoke = js ''revoke''"

lemma entry_type_text_inj [simp]: "entry_type_text a = entry_type_text b \<longleftrightarrow> a = b"
  by (cases a; cases b) simp_all

record entry =
  e_version :: jstr
  e_index :: int
  e_type :: entry_type
  e_subject :: jstr
  e_keyId :: jstr
  e_publicKey :: "jstr option"
  e_reason :: "jstr option"
  e_timestampMs :: int
  e_prevHash :: jstr
  e_operator :: jstr
  e_signature :: jstr

record checkpoint =
  cp_version :: jstr
  cp_operator :: jstr
  cp_size :: int
  cp_headHash :: jstr
  cp_timestampMs :: int
  cp_signature :: jstr

definition keylog_version :: jstr where
  "keylog_version = js ''7h3-keylog/1''"

definition keylog_genesis :: jstr where
  "keylog_genesis = replicate 64 48"

definition entry_json :: "entry \<Rightarrow> json" where
  "entry_json e = JObj
    [(js ''version'', JStr (e_version e)), (js ''index'', num (e_index e)), (js ''type'', JStr (entry_type_text (e_type e))),
     (js ''subject'', JStr (e_subject e)), (js ''keyId'', JStr (e_keyId e)), (js ''publicKey'', null_or JStr (e_publicKey e)),
     (js ''reason'', null_or JStr (e_reason e)), (js ''timestampMs'', num (e_timestampMs e)), (js ''prevHash'', JStr (e_prevHash e)),
     (js ''operator'', JStr (e_operator e))]"

text \<open>\<open>stableStringify\<close> never throws on an entry, so the payload is its text.\<close>

definition entryPayload :: "entry \<Rightarrow> jstr" where
  "entryPayload e = (case stableStringify (entry_json e) of Some t \<Rightarrow> t | None \<Rightarrow> [])"

definition keyLogEntryHash :: "crypto \<Rightarrow> entry \<Rightarrow> jstr" where
  "keyLogEntryHash C e = sha256Hex C (entryPayload e @ js ''.'' @ e_signature e)"

definition checkpointPayload :: "checkpoint \<Rightarrow> jstr" where
  "checkpointPayload c = (case stableStringify (JObj
    [(js ''version'', JStr (cp_version c)), (js ''operator'', JStr (cp_operator c)), (js ''size'', num (cp_size c)),
     (js ''headHash'', JStr (cp_headHash c)), (js ''timestampMs'', num (cp_timestampMs c))]) of Some t \<Rightarrow> t | None \<Rightarrow> [])"

lemma finite_null_or [simp]: "json_finite (null_or JStr v)"
  by (cases v) (simp_all add: null_or_def)

lemma finite_entry [simp]: "json_finite (entry_json e)"
  by (simp add: entry_json_def)

lemma entryPayload_text: "stableStringify (entry_json e) = Some (entryPayload e)" "entryPayload e = print_json (norm_json (entry_json e))"
  by (simp_all only: entryPayload_def stableStringify_finite [OF finite_entry] option.case)

lemma entry_norm_inj:
  "norm_json (entry_json a) = norm_json (entry_json b) \<Longrightarrow> b = a\<lparr>e_signature := e_signature b\<rparr>"
  unfolding entry_json_def by (drule norm_same_keys) (simp_all add: entry.equality)

text \<open>The bytes hashed of an entry determine every field, and the signature as encoded.\<close>

definition entry_bytes :: "entry \<Rightarrow> bytes" where
  "entry_bytes e = utf8Encode (entryPayload e @ js ''.'' @ e_signature e)"

definition same_entry :: "entry \<Rightarrow> entry \<Rightarrow> bool" where
  "same_entry a b \<longleftrightarrow> b = a\<lparr>e_signature := e_signature b\<rparr> \<and> sanitize (e_signature a) = sanitize (e_signature b)"

lemma entry_bytes_same: "entry_bytes a = entry_bytes b \<Longrightarrow> same_entry a b"
  using document_bytes_inj [of "norm_json (entry_json a)" "norm_json (entry_json b)" "e_signature a" "e_signature b"] entry_norm_inj
  by (simp add: entry_bytes_def entryPayload_text ascii_eval json_finite_norm same_entry_def)

interpretation key_chain: hash_chain entry_bytes "\<lambda>bs. toHex (sha256_raw C bs)" e_prevHash same_entry "\<lambda>e. True" for C :: crypto
proof unfold_locales
  fix a b
  assume "same_entry a b"
  then obtain s where "b = a\<lparr>e_signature := s\<rparr>" by (auto simp: same_entry_def)
  then show "e_prevHash a = e_prevHash b" by simp
qed (simp add: entry_bytes_same)

lemma keyLogEntryHash_bytes: "keyLogEntryHash C e = toHex (sha256_raw C (entry_bytes e))"
  by (simp add: keyLogEntryHash_def sha256Hex_def entry_bytes_def)

record entry_fields =
  f_type :: entry_type
  f_subject :: jstr
  f_keyId :: jstr
  f_publicKey :: "jstr option"
  f_reason :: "jstr option"

definition unsigned_entry :: "entry_fields \<Rightarrow> jstr \<Rightarrow> int \<Rightarrow> jstr \<Rightarrow> int \<Rightarrow> entry" where
  "unsigned_entry f op idx prevHash ts =
    \<lparr>e_version = keylog_version, e_index = idx, e_type = f_type f, e_subject = f_subject f, e_keyId = f_keyId f,
     e_publicKey = f_publicKey f, e_reason = f_reason f, e_timestampMs = ts, e_prevHash = prevHash, e_operator = op, e_signature = []\<rparr>"

definition signKeyLogEntry :: "crypto \<Rightarrow> entry_fields \<Rightarrow> jstr \<Rightarrow> jstr \<Rightarrow> int \<Rightarrow> jstr \<Rightarrow> int \<Rightarrow> entry option" where
  "signKeyLogEntry C f op priv idx prevHash ts =
    (let e = unsigned_entry f op idx prevHash ts in
     map_option (\<lambda>s. e\<lparr>e_signature := s\<rparr>) (signCanonicalPayloadEd25519 C (entryPayload e) priv))"

section \<open>The rules\<close>

datatype keylog_failure =
  LogMalformed | WrongIndex | BrokenChain | WrongOperator | LogInvalidSignature | TimeWentBackwards | DuplicateKeyId | AlreadyRegistered
  | NotRegistered | NoActiveKey | UnknownKey | AlreadyRevoked | RevokedKeyReuse | KeyReuse | MissingPublicKey | UnexpectedPublicKey

record subject_state =
  active :: "(jstr \<times> jstr) option"
  keys :: "jstr \<rightharpoonup> jstr"
  revokedKeyIds :: "jstr set"

record key_state =
  subjects :: "jstr \<rightharpoonup> subject_state"
  keyOwner :: "jstr \<rightharpoonup> jstr"
  revokedPublicKeys :: "jstr set"

definition empty_key_state :: key_state where
  "empty_key_state = \<lparr>subjects = Map.empty, keyOwner = Map.empty, revokedPublicKeys = {}\<rparr>"

definition apply_revoke :: "key_state \<Rightarrow> entry \<Rightarrow> keylog_failure + key_state" where
  "apply_revoke st e =
    (if e_publicKey e \<noteq> None then Inl UnexpectedPublicKey
     else case subjects st (e_subject e) of None \<Rightarrow> Inl NotRegistered
     | Some s \<Rightarrow>
       (case keys s (e_keyId e) of None \<Rightarrow> Inl UnknownKey
        | Some pk \<Rightarrow>
          if e_keyId e \<in> revokedKeyIds s then Inl AlreadyRevoked
          else Inr (st\<lparr>subjects := (subjects st)(e_subject e \<mapsto>
                 s\<lparr>revokedKeyIds := insert (e_keyId e) (revokedKeyIds s),
                   active := (case active s of None \<Rightarrow> None | Some (k, p) \<Rightarrow> if k = e_keyId e then None else Some (k, p))\<rparr>),
               revokedPublicKeys := insert pk (revokedPublicKeys st)\<rparr>)))"

definition apply_add :: "key_state \<Rightarrow> entry \<Rightarrow> jstr \<Rightarrow> keylog_failure + key_state" where
  "apply_add st e pk =
    (if subjects st (e_subject e) = None \<and> e_type e = Rotate then Inl NotRegistered
     else let s = (case subjects st (e_subject e) of None \<Rightarrow> \<lparr>active = None, keys = Map.empty, revokedKeyIds = {}\<rparr> | Some s \<Rightarrow> s) in
       if e_type e = Register \<and> active s \<noteq> None then Inl AlreadyRegistered
       else if e_type e = Rotate \<and> active s = None then Inl NoActiveKey
       else if keys s (e_keyId e) \<noteq> None then Inl DuplicateKeyId
       else if pk \<in> revokedPublicKeys st then Inl RevokedKeyReuse
       else if keyOwner st pk \<noteq> None then Inl KeyReuse
       else Inr (st\<lparr>subjects := (subjects st)(e_subject e \<mapsto> s\<lparr>keys := (keys s)(e_keyId e \<mapsto> pk), active := Some (e_keyId e, pk)\<rparr>),
                   keyOwner := (keyOwner st)(pk \<mapsto> e_subject e)\<rparr>))"

definition apply_entry :: "key_state \<Rightarrow> entry \<Rightarrow> keylog_failure + key_state" where
  "apply_entry st e =
    (if e_type e = Revoke then apply_revoke st e
     else case e_publicKey e of None \<Rightarrow> Inl MissingPublicKey | Some pk \<Rightarrow> apply_add st e pk)"

fun apply_all :: "key_state \<Rightarrow> entry list \<Rightarrow> keylog_failure + key_state" where
  "apply_all st [] = Inr st"
| "apply_all st (e # es) = (case apply_entry st e of Inl f \<Rightarrow> Inl f | Inr st' \<Rightarrow> apply_all st' es)"

text \<open>
  What the rules maintain: an active key is a key of its subject that is not revoked; a
  public key belongs to the one subject that registered it; the revoked public keys are
  the keys of revoked ids.
\<close>

definition subject_ok :: "(jstr \<rightharpoonup> jstr) \<Rightarrow> jstr set \<Rightarrow> jstr \<Rightarrow> subject_state \<Rightarrow> bool" where
  "subject_ok owner revoked u s \<longleftrightarrow>
    (\<forall>k p. active s = Some (k, p) \<longrightarrow> keys s k = Some p \<and> k \<notin> revokedKeyIds s) \<and>
    (\<forall>k p. keys s k = Some p \<longrightarrow> owner p = Some u \<and> (p \<in> revoked \<longleftrightarrow> k \<in> revokedKeyIds s)) \<and>
    (\<forall>k k' p. keys s k = Some p \<longrightarrow> keys s k' = Some p \<longrightarrow> k = k') \<and>
    (\<forall>k \<in> revokedKeyIds s. keys s k \<noteq> None)"

definition key_inv :: "key_state \<Rightarrow> bool" where
  "key_inv st \<longleftrightarrow> (\<forall>u s. subjects st u = Some s \<longrightarrow> subject_ok (keyOwner st) (revokedPublicKeys st) u s)
    \<and> (\<forall>p \<in> revokedPublicKeys st. keyOwner st p \<noteq> None)"

lemma key_inv_empty [simp]: "key_inv empty_key_state"
  by (simp add: key_inv_def empty_key_state_def)

lemma subject_okD:
  assumes "subject_ok owner revoked u s"
  shows "active s = Some (k, p) \<Longrightarrow> keys s k = Some p" "active s = Some (k, p) \<Longrightarrow> k \<notin> revokedKeyIds s"
    and "keys s k = Some p \<Longrightarrow> owner p = Some u" "keys s k = Some p \<Longrightarrow> p \<in> revoked \<longleftrightarrow> k \<in> revokedKeyIds s"
    and "keys s k = Some p \<Longrightarrow> keys s k' = Some p \<Longrightarrow> k = k'" "k \<in> revokedKeyIds s \<Longrightarrow> keys s k \<noteq> None"
  using assms unfolding subject_ok_def by blast+

lemma subject_okI:
  assumes "\<And>k p. active s = Some (k, p) \<Longrightarrow> keys s k = Some p \<and> k \<notin> revokedKeyIds s"
    and "\<And>k p. keys s k = Some p \<Longrightarrow> owner p = Some u \<and> (p \<in> revoked \<longleftrightarrow> k \<in> revokedKeyIds s)"
    and "\<And>k k' p. keys s k = Some p \<Longrightarrow> keys s k' = Some p \<Longrightarrow> k = k'"
    and "\<And>k. k \<in> revokedKeyIds s \<Longrightarrow> keys s k \<noteq> None"
  shows "subject_ok owner revoked u s"
  using assms unfolding subject_ok_def by blast

lemma subject_revoke:
  assumes "subject_ok owner revoked u s" "keys s k0 = Some pk"
  shows "subject_ok owner (insert pk revoked) u (s\<lparr>revokedKeyIds := insert k0 (revokedKeyIds s),
     active := (case active s of None \<Rightarrow> None | Some (k, p) \<Rightarrow> if k = k0 then None else Some (k, p))\<rparr>)"
proof (rule subject_okI)
  note d = subject_okD [OF assms(1)]
  let ?t = "s\<lparr>revokedKeyIds := insert k0 (revokedKeyIds s),
     active := (case active s of None \<Rightarrow> None | Some (k, p) \<Rightarrow> if k = k0 then None else Some (k, p))\<rparr>"
  fix k p
  show "keys ?t k = Some p \<and> k \<notin> revokedKeyIds ?t" if "active ?t = Some (k, p)"
  proof -
    from that have "active s = Some (k, p)" "k \<noteq> k0" by (auto split: option.splits if_splits)
    with d(1,2) [OF \<open>active s = Some (k, p)\<close>] show ?thesis by simp
  qed
  show "owner p = Some u \<and> (p \<in> insert pk revoked \<longleftrightarrow> k \<in> revokedKeyIds ?t)" if "keys ?t k = Some p"
  proof -
    from that have k: "keys s k = Some p" by simp
    then have "p = pk \<longleftrightarrow> k = k0" using d(5) [OF k, of k0] assms(2) by auto
    with d(3,4) [OF k] show ?thesis by simp
  qed
  show "keys ?t k \<noteq> None" if "k \<in> revokedKeyIds ?t" using that d(6) [of k] assms(2) by auto
  show "k = k'" if "keys ?t k = Some p" "keys ?t k' = Some p" for k' using d(5) [of k p k'] that by simp
qed

lemma subject_other_revoke: "subject_ok owner revoked u s \<Longrightarrow> owner pk \<noteq> Some u \<Longrightarrow> subject_ok owner (insert pk revoked) u s"
proof (rule subject_okI)
  assume ok: "subject_ok owner revoked u s" and o: "owner pk \<noteq> Some u"
  note d = subject_okD [OF ok]
  fix k p
  show "keys s k = Some p \<and> k \<notin> revokedKeyIds s" if "active s = Some (k, p)" using d(1,2) [OF that] by simp
  show "owner p = Some u \<and> (p \<in> insert pk revoked \<longleftrightarrow> k \<in> revokedKeyIds s)" if "keys s k = Some p"
    using d(3,4) [OF that] o by auto
  show "keys s k \<noteq> None" if "k \<in> revokedKeyIds s" using d(6) [OF that] .
  show "k = k'" if "keys s k = Some p" "keys s k' = Some p" for k' using d(5) [OF that] .
qed

lemma subject_add:
  assumes "subject_ok owner revoked u s" "keys s k0 = None" "pk \<notin> revoked" "owner pk = None"
  shows "subject_ok (owner(pk \<mapsto> u)) revoked u (s\<lparr>keys := (keys s)(k0 \<mapsto> pk), active := Some (k0, pk)\<rparr>)"
proof (rule subject_okI)
  note d = subject_okD [OF assms(1)]
  let ?t = "s\<lparr>keys := (keys s)(k0 \<mapsto> pk), active := Some (k0, pk)\<rparr>"
  have n: "k0 \<notin> revokedKeyIds s" using d(6) assms(2) by blast
  have new: "p \<noteq> pk" if "keys s k = Some p" for k p using d(3) [OF that] assms(4) by auto
  fix k p
  show "keys ?t k = Some p \<and> k \<notin> revokedKeyIds ?t" if "active ?t = Some (k, p)" using that n by simp
  show "(owner(pk \<mapsto> u)) p = Some u \<and> (p \<in> revoked \<longleftrightarrow> k \<in> revokedKeyIds ?t)" if "keys ?t k = Some p"
  proof (cases "k = k0")
    case True
    with that n assms(3) show ?thesis by simp
  next
    case False
    with that have k: "keys s k = Some p" by simp
    with d(3,4) [OF k] show ?thesis by simp
  qed
  show "keys ?t k \<noteq> None" if "k \<in> revokedKeyIds ?t" using that d(6) [of k] by simp
  show "k = k'" if "keys ?t k = Some p" "keys ?t k' = Some p" for k'
    using that new [of k] new [of k'] d(5) [of k p k'] by (cases "k = k0"; cases "k' = k0") auto
qed

lemma subject_other_add: "subject_ok owner revoked u s \<Longrightarrow> owner pk = None \<Longrightarrow> subject_ok (owner(pk \<mapsto> v)) revoked u s"
proof (rule subject_okI)
  assume ok: "subject_ok owner revoked u s" and o: "owner pk = None"
  note d = subject_okD [OF ok]
  fix k p
  show "keys s k = Some p \<and> k \<notin> revokedKeyIds s" if "active s = Some (k, p)" using d(1,2) [OF that] by simp
  show "(owner(pk \<mapsto> v)) p = Some u \<and> (p \<in> revoked \<longleftrightarrow> k \<in> revokedKeyIds s)" if "keys s k = Some p"
    using d(3,4) [OF that] o by auto
  show "keys s k \<noteq> None" if "k \<in> revokedKeyIds s" using d(6) [OF that] .
  show "k = k'" if "keys s k = Some p" "keys s k' = Some p" for k' using d(5) [OF that] .
qed

lemma key_invI:
  "(\<And>u s. subjects st u = Some s \<Longrightarrow> subject_ok (keyOwner st) (revokedPublicKeys st) u s) \<Longrightarrow>
   (\<And>p. p \<in> revokedPublicKeys st \<Longrightarrow> keyOwner st p \<noteq> None) \<Longrightarrow> key_inv st"
  by (simp add: key_inv_def)

lemma apply_revoke_inv:
  assumes "key_inv st" "apply_revoke st e = Inr st'"
  shows "key_inv st'"
proof -
  from assms(2) obtain s pk where s: "subjects st (e_subject e) = Some s" "keys s (e_keyId e) = Some pk"
    and st': "st' = st\<lparr>subjects := (subjects st)(e_subject e \<mapsto>
                 s\<lparr>revokedKeyIds := insert (e_keyId e) (revokedKeyIds s),
                   active := (case active s of None \<Rightarrow> None | Some (k, p) \<Rightarrow> if k = e_keyId e then None else Some (k, p))\<rparr>),
               revokedPublicKeys := insert pk (revokedPublicKeys st)\<rparr>"
    by (auto simp: apply_revoke_def split: option.splits if_splits)
  have ok: "subject_ok (keyOwner st) (revokedPublicKeys st) u t" if "subjects st u = Some t" for u t
    using assms(1) that by (simp add: key_inv_def)
  have own: "keyOwner st pk = Some (e_subject e)" using subject_okD(3) [OF ok [OF s(1)] s(2)] .
  show ?thesis
  proof (rule key_invI)
    fix u t assume "subjects st' u = Some t"
    then show "subject_ok (keyOwner st') (revokedPublicKeys st') u t"
      using subject_revoke [OF ok [OF s(1)] s(2)] subject_other_revoke [OF ok] own
      by (cases "u = e_subject e") (simp_all add: st')
  next
    fix p assume "p \<in> revokedPublicKeys st'"
    then show "keyOwner st' p \<noteq> None" using assms(1) own by (auto simp: key_inv_def st')
  qed
qed

lemma apply_add_inv:
  assumes "key_inv st" "apply_add st e pk = Inr st'"
  shows "key_inv st'"
proof -
  define s where "s = (case subjects st (e_subject e) of None \<Rightarrow> \<lparr>active = None, keys = Map.empty, revokedKeyIds = {}\<rparr> | Some s \<Rightarrow> s)"
  from assms(2) have new: "keys s (e_keyId e) = None" "pk \<notin> revokedPublicKeys st" "keyOwner st pk = None"
    and st': "st' = st\<lparr>subjects := (subjects st)(e_subject e \<mapsto> s\<lparr>keys := (keys s)(e_keyId e \<mapsto> pk), active := Some (e_keyId e, pk)\<rparr>),
                   keyOwner := (keyOwner st)(pk \<mapsto> e_subject e)\<rparr>"
    by (auto simp: apply_add_def s_def Let_def split: if_splits)
  have ok: "subject_ok (keyOwner st) (revokedPublicKeys st) u t" if "subjects st u = Some t" for u t
    using assms(1) that by (simp add: key_inv_def)
  have "subject_ok (keyOwner st) (revokedPublicKeys st) (e_subject e) s"
  proof (cases "subjects st (e_subject e)")
    case None
    then show ?thesis by (simp add: s_def subject_ok_def)
  next
    case (Some t)
    with ok [OF Some] show ?thesis by (simp add: s_def)
  qed
  note added = subject_add [OF this new]
  show ?thesis
  proof (rule key_invI)
    fix u t assume "subjects st' u = Some t"
    then show "subject_ok (keyOwner st') (revokedPublicKeys st') u t"
      using added subject_other_add [OF ok new(3)] by (cases "u = e_subject e") (simp_all add: st')
  next
    fix p assume "p \<in> revokedPublicKeys st'"
    then show "keyOwner st' p \<noteq> None" using assms(1) by (auto simp: key_inv_def st')
  qed
qed

lemma apply_entry_inv: "key_inv st \<Longrightarrow> apply_entry st e = Inr st' \<Longrightarrow> key_inv st'"
  by (auto simp: apply_entry_def intro: apply_revoke_inv apply_add_inv split: if_splits option.splits)

lemma apply_all_inv: "key_inv st \<Longrightarrow> apply_all st es = Inr st' \<Longrightarrow> key_inv st'"
  by (induction st es rule: apply_all.induct) (auto split: sum.splits dest: apply_entry_inv)

text \<open>Revocation is for ever: revoked public keys stay revoked, owners never change.\<close>

lemma apply_entry_mono:
  "apply_entry st e = Inr st' \<Longrightarrow> revokedPublicKeys st \<subseteq> revokedPublicKeys st' \<and> keyOwner st \<subseteq>\<^sub>m keyOwner st'"
  by (auto simp: apply_entry_def apply_revoke_def apply_add_def Let_def map_le_def split: if_splits option.splits)

lemma apply_all_mono:
  "apply_all st es = Inr st' \<Longrightarrow> revokedPublicKeys st \<subseteq> revokedPublicKeys st' \<and> keyOwner st \<subseteq>\<^sub>m keyOwner st'"
proof (induction st es rule: apply_all.induct)
  case (2 st e es)
  then obtain st1 where s: "apply_entry st e = Inr st1" "apply_all st1 es = Inr st'" by (auto split: sum.splits)
  from "2.IH" [OF s] apply_entry_mono [OF s(1)] show ?case by (meson map_le_trans order_trans)
qed simp

lemma apply_all_append:
  "apply_all st (as @ bs) = (case apply_all st as of Inl f \<Rightarrow> Inl f | Inr st' \<Rightarrow> apply_all st' bs)"
  by (induction st as rule: apply_all.induct) (auto split: sum.splits)

section \<open>The writer\<close>

record keylog =
  k_log :: "entry list"
  k_head :: jstr
  k_state :: key_state

definition new_keylog :: keylog where
  "new_keylog = \<lparr>k_log = [], k_head = keylog_genesis, k_state = empty_key_state\<rparr>"

datatype append_error = BadName | AppendSigningThrew | RuleBroken keylog_failure

text \<open>First step: check the names, read position and head, sign.\<close>

definition append_sign :: "crypto \<Rightarrow> jstr \<Rightarrow> jstr \<Rightarrow> keylog \<Rightarrow> entry_fields \<Rightarrow> int \<Rightarrow> append_error + entry" where
  "append_sign C op priv l f now =
    (if \<not> is_name (f_subject f) \<or> \<not> is_name (f_keyId f) then Inl BadName
     else case signKeyLogEntry C f op priv (int (length (k_log l))) (k_head l)
              (max now (if k_log l = [] then 0 else e_timestampMs (last (k_log l)))) of
       None \<Rightarrow> Inl AppendSigningThrew | Some e \<Rightarrow> Inr e)"

text \<open>Second step: apply the rules and push.\<close>

definition append_commit :: "keylog \<Rightarrow> entry \<Rightarrow> append_error + keylog" where
  "append_commit l e =
    (case apply_entry (k_state l) e of
       Inl f \<Rightarrow> Inl (RuleBroken f)
     | Inr st \<Rightarrow> Inr (l\<lparr>k_log := k_log l @ [e], k_state := st\<rparr>))"

text \<open>Third step: the hash of the entry becomes the head.\<close>

definition append_finish :: "crypto \<Rightarrow> keylog \<Rightarrow> entry \<Rightarrow> keylog" where
  "append_finish C l e = l\<lparr>k_head := keyLogEntryHash C e\<rparr>"

definition append :: "crypto \<Rightarrow> jstr \<Rightarrow> jstr \<Rightarrow> keylog \<Rightarrow> entry_fields \<Rightarrow> int \<Rightarrow> keylog \<times> (append_error + entry)" where
  "append C op priv l f now =
    (case append_sign C op priv l f now of
       Inl x \<Rightarrow> (l, Inl x)
     | Inr e \<Rightarrow> (case append_commit l e of Inl x \<Rightarrow> (l, Inl x) | Inr l' \<Rightarrow> (append_finish C l' e, Inr e)))"

definition register :: "crypto \<Rightarrow> jstr \<Rightarrow> jstr \<Rightarrow> keylog \<Rightarrow> jstr \<Rightarrow> jstr \<Rightarrow> jstr \<Rightarrow> int \<Rightarrow> keylog \<times> (append_error + entry)" where
  "register C op priv l u k pk = append C op priv l \<lparr>f_type = Register, f_subject = u, f_keyId = k, f_publicKey = Some pk, f_reason = None\<rparr>"

definition rotate :: "crypto \<Rightarrow> jstr \<Rightarrow> jstr \<Rightarrow> keylog \<Rightarrow> jstr \<Rightarrow> jstr \<Rightarrow> jstr \<Rightarrow> int \<Rightarrow> keylog \<times> (append_error + entry)" where
  "rotate C op priv l u k pk = append C op priv l \<lparr>f_type = Rotate, f_subject = u, f_keyId = k, f_publicKey = Some pk, f_reason = None\<rparr>"

definition revoke :: "crypto \<Rightarrow> jstr \<Rightarrow> jstr \<Rightarrow> keylog \<Rightarrow> jstr \<Rightarrow> jstr \<Rightarrow> jstr option \<Rightarrow> int \<Rightarrow> keylog \<times> (append_error + entry)" where
  "revoke C op priv l u k r = append C op priv l \<lparr>f_type = Revoke, f_subject = u, f_keyId = k, f_publicKey = None, f_reason = r\<rparr>"

definition make_checkpoint :: "crypto \<Rightarrow> jstr \<Rightarrow> jstr \<Rightarrow> keylog \<Rightarrow> int \<Rightarrow> checkpoint option" where
  "make_checkpoint C op priv l now =
    (let c = \<lparr>cp_version = keylog_version, cp_operator = op, cp_size = int (length (k_log l)), cp_headHash = k_head l,
              cp_timestampMs = now, cp_signature = []\<rparr>
     in map_option (\<lambda>s. c\<lparr>cp_signature := s\<rparr>) (signCanonicalPayloadEd25519 C (checkpointPayload c) priv))"

section \<open>Verification\<close>

record log_opts =
  operatorPublicKey :: jstr
  lo_operator :: "jstr option"
  lo_now :: int
  lo_skew :: int

definition wellFormed :: "entry \<Rightarrow> bool" where
  "wellFormed e \<longleftrightarrow> e_version e = keylog_version \<and> safe (e_index e) \<and> 0 \<le> e_index e \<and> is_name (e_subject e) \<and> is_name (e_keyId e)
     \<and> (case e_publicKey e of None \<Rightarrow> True | Some p \<Rightarrow> 0 < length p \<and> length p < 512)
     \<and> (case e_reason e of None \<Rightarrow> True | Some r \<Rightarrow> length r < 1024)
     \<and> safe (e_timestampMs e) \<and> is_sha256_hex (e_prevHash e) \<and> is_name (e_operator e) \<and> e_signature e \<noteq> []"

fun verify_loop :: "crypto \<Rightarrow> log_opts \<Rightarrow> int \<Rightarrow> jstr \<Rightarrow> int \<Rightarrow> key_state \<Rightarrow> entry list \<Rightarrow> ((int \<times> keylog_failure) + jstr) option" where
  "verify_loop C o' i prev lastTime st [] = Some (Inr prev)"
| "verify_loop C o' i prev lastTime st (e # es) =
    (if \<not> wellFormed e then Some (Inl (i, LogMalformed))
     else if e_index e \<noteq> i then Some (Inl (i, WrongIndex))
     else if e_prevHash e \<noteq> prev then Some (Inl (i, BrokenChain))
     else if (case lo_operator o' of None \<Rightarrow> False | Some op \<Rightarrow> e_operator e \<noteq> op) then Some (Inl (i, WrongOperator))
     else case verifyCanonicalPayloadEd25519 C (entryPayload e) (e_signature e) (operatorPublicKey o') of
       None \<Rightarrow> None
     | Some False \<Rightarrow> Some (Inl (i, LogInvalidSignature))
     | Some True \<Rightarrow>
         if lo_now o' + lo_skew o' < e_timestampMs e then Some (Inl (i, TimeWentBackwards))
         else if e_timestampMs e < lastTime then Some (Inl (i, TimeWentBackwards))
         else case apply_entry st e of
           Inl f \<Rightarrow> Some (Inl (i, f))
         | Inr st' \<Rightarrow> verify_loop C o' (i + 1) (keyLogEntryHash C e) (e_timestampMs e) st' es)"

text \<open>The result is the size and the head hash.\<close>

definition verifyKeyLog :: "crypto \<Rightarrow> entry list \<Rightarrow> log_opts \<Rightarrow> ((int \<times> keylog_failure) + (int \<times> jstr)) option" where
  "verifyKeyLog C es o' =
    (if operatorPublicKey o' = [] then None
     else map_option (map_sum id (Pair (int (length es)))) (verify_loop C o' 0 keylog_genesis 0 empty_key_state es))"

definition entry_ok :: "crypto \<Rightarrow> log_opts \<Rightarrow> entry \<Rightarrow> bool" where
  "entry_ok C o' e \<longleftrightarrow> wellFormed e \<and> (\<forall>op. lo_operator o' = Some op \<longrightarrow> e_operator e = op)
     \<and> verifyCanonicalPayloadEd25519 C (entryPayload e) (e_signature e) (operatorPublicKey o') = Some True
     \<and> e_timestampMs e \<le> lo_now o' + lo_skew o'"

fun indexed :: "int \<Rightarrow> entry list \<Rightarrow> bool" where
  "indexed i [] = True"
| "indexed i (e # es) = (e_index e = i \<and> indexed (i + 1) es)"

lemma verify_loop_iff:
  "verify_loop C o' i prev lastTime st es = Some (Inr h) \<longleftrightarrow>
    (\<forall>e \<in> set es. entry_ok C o' e) \<and> indexed i es \<and> key_chain.chained C prev es \<and> h = key_chain.head C prev es \<and>
    sorted (lastTime # map e_timestampMs es) \<and> (\<exists>st'. apply_all st es = Inr st')"
proof (induction es arbitrary: i prev lastTime st)
  case Nil
  then show ?case by auto
next
  case (Cons e es)
  let ?v = "verifyCanonicalPayloadEd25519 C (entryPayload e) (e_signature e) (operatorPublicKey o')"
  show ?case
  proof (cases "entry_ok C o' e \<and> e_index e = i \<and> e_prevHash e = prev \<and> lastTime \<le> e_timestampMs e \<and> (\<exists>st'. apply_entry st e = Inr st')")
    case True
    then obtain st' where st': "apply_entry st e = Inr st'" by blast
    have "verify_loop C o' i prev lastTime st (e # es) = verify_loop C o' (i + 1) (keyLogEntryHash C e) (e_timestampMs e) st' es"
      using True st' by (auto simp: entry_ok_def split: option.splits)
    with True st' show ?thesis by (auto simp: Cons.IH keyLogEntryHash_bytes)
  next
    case False
    then have "verify_loop C o' i prev lastTime st (e # es) \<noteq> Some (Inr h)"
      by (auto simp: entry_ok_def split: option.splits sum.splits bool.splits)
    moreover have "\<not> ((\<forall>x \<in> set (e # es). entry_ok C o' x) \<and> indexed i (e # es) \<and> key_chain.chained C prev (e # es) \<and>
        sorted (lastTime # map e_timestampMs (e # es)) \<and> (\<exists>st'. apply_all st (e # es) = Inr st'))"
      using False by (auto split: sum.splits)
    ultimately show ?thesis by blast
  qed
qed

lemma verifyKeyLog_iff:
  "verifyKeyLog C es o' = Some (Inr (n, h)) \<longleftrightarrow>
    operatorPublicKey o' \<noteq> [] \<and> n = int (length es) \<and> h = key_chain.head C keylog_genesis es \<and>
    (\<forall>e \<in> set es. entry_ok C o' e) \<and> indexed 0 es \<and> key_chain.chained C keylog_genesis es \<and>
    sorted (0 # map e_timestampMs es) \<and> (\<exists>st'. apply_all empty_key_state es = Inr st')"
proof -
  have "verifyKeyLog C es o' = Some (Inr (n, h)) \<longleftrightarrow>
    operatorPublicKey o' \<noteq> [] \<and> n = int (length es) \<and> verify_loop C o' 0 keylog_genesis 0 empty_key_state es = Some (Inr h)"
  proof (cases "verify_loop C o' 0 keylog_genesis 0 empty_key_state es")
    case None
    then show ?thesis by (simp add: verifyKeyLog_def)
  next
    case (Some r)
    then show ?thesis by (cases r) (auto simp: verifyKeyLog_def)
  qed
  then show ?thesis unfolding verify_loop_iff by blast
qed

section \<open>Checkpoints\<close>

definition verifyCheckpoint :: "crypto \<Rightarrow> checkpoint \<Rightarrow> jstr \<Rightarrow> jstr option \<Rightarrow> bool" where
  "verifyCheckpoint C cp pub op \<longleftrightarrow>
    (if cp_version cp \<noteq> keylog_version then False
     else if \<not> safe (cp_size cp) \<or> cp_size cp < 0 \<or> \<not> is_sha256_hex (cp_headHash cp) then False
     else if \<not> safe (cp_timestampMs cp) then False
     else if (case op of None \<Rightarrow> False | Some x \<Rightarrow> cp_operator cp \<noteq> x) then False
     else verifyCanonicalPayloadEd25519 C (checkpointPayload cp) (cp_signature cp) pub = Some True)"

definition logExtendsCheckpoint :: "crypto \<Rightarrow> checkpoint \<Rightarrow> entry list \<Rightarrow> jstr \<Rightarrow> int \<Rightarrow> bool option" where
  "logExtendsCheckpoint C cp es pub now =
    (if \<not> verifyCheckpoint C cp pub None then Some False
     else if int (length es) < cp_size cp then Some False
     else map_option (\<lambda>v. v = Inr (cp_size cp, cp_headHash cp))
       (verifyKeyLog C (take (nat (cp_size cp)) es)
         \<lparr>operatorPublicKey = pub, lo_operator = None, lo_now = now, lo_skew = MAX_CLOCK_SKEW_MS\<rparr>))"

definition checkpointsConflict :: "crypto \<Rightarrow> checkpoint \<Rightarrow> checkpoint \<Rightarrow> jstr \<Rightarrow> bool" where
  "checkpointsConflict C a b pub \<longleftrightarrow>
    (if cp_size a \<noteq> cp_size b \<or> cp_headHash a = cp_headHash b then False
     else verifyCheckpoint C a pub None \<and> verifyCheckpoint C b pub None)"

section \<open>Reading the log\<close>

type_synonym resolved = "(jstr \<rightharpoonup> jstr \<times> jstr) \<times> (jstr \<rightharpoonup> jstr set)"

definition resolve_step :: "resolved \<Rightarrow> entry \<Rightarrow> resolved" where
  "resolve_step r e =
    (if e_type e = Revoke then
       ((if (case fst r (e_subject e) of None \<Rightarrow> False | Some (k, p) \<Rightarrow> k = e_keyId e) then (fst r)(e_subject e := None) else fst r),
        (snd r)(e_subject e \<mapsto> insert (e_keyId e) (case snd r (e_subject e) of None \<Rightarrow> {} | Some ks \<Rightarrow> ks)))
     else case e_publicKey e of
       None \<Rightarrow> r
     | Some pk \<Rightarrow> ((fst r)(e_subject e \<mapsto> (e_keyId e, pk)), snd r))"

definition resolveKeyLog :: "entry list \<Rightarrow> resolved" where
  "resolveKeyLog es = foldl resolve_step (Map.empty, Map.empty) es"

definition keyChangesFor :: "entry list \<Rightarrow> jstr \<Rightarrow> int \<Rightarrow> entry list" where
  "keyChangesFor es u from_index = filter (\<lambda>e. from_index \<le> e_index e \<and> e_subject e = u) es"

text \<open>Resolution and the rules see the same keys.\<close>

definition resolves :: "key_state \<Rightarrow> resolved \<Rightarrow> bool" where
  "resolves st r \<longleftrightarrow> (\<forall>u.
    fst r u = (case subjects st u of None \<Rightarrow> None | Some s \<Rightarrow> active s) \<and>
    (case snd r u of None \<Rightarrow> {} | Some ks \<Rightarrow> ks) = (case subjects st u of None \<Rightarrow> {} | Some s \<Rightarrow> revokedKeyIds s))"

lemma apply_revoke_cases:
  assumes "apply_revoke st e = Inr st'"
  obtains s where "subjects st (e_subject e) = Some s"
    "subjects st' = (subjects st)(e_subject e \<mapsto>
       s\<lparr>revokedKeyIds := insert (e_keyId e) (revokedKeyIds s),
         active := (case active s of None \<Rightarrow> None | Some (k, p) \<Rightarrow> if k = e_keyId e then None else Some (k, p))\<rparr>)"
  using assms by (auto simp: apply_revoke_def split: option.splits if_splits)

lemma apply_add_cases:
  assumes "apply_add st e pk = Inr st'"
  obtains s where "revokedKeyIds s = (case subjects st (e_subject e) of None \<Rightarrow> {} | Some s \<Rightarrow> revokedKeyIds s)"
    "subjects st' = (subjects st)(e_subject e \<mapsto> s\<lparr>keys := (keys s)(e_keyId e \<mapsto> pk), active := Some (e_keyId e, pk)\<rparr>)"
proof -
  let ?s = "case subjects st (e_subject e) of None \<Rightarrow> \<lparr>active = None, keys = Map.empty, revokedKeyIds = {}\<rparr> | Some s \<Rightarrow> s"
  show thesis
    by (rule that [of ?s]) (use assms in \<open>auto simp: apply_add_def Let_def split: if_splits option.splits\<close>)
qed

lemma resolves_step:
  assumes "resolves st r" "apply_entry st e = Inr st'"
  shows "resolves st' (resolve_step r e)"
proof -
  have a: "fst r u = (case subjects st u of None \<Rightarrow> None | Some s \<Rightarrow> active s)"
    and b: "(case snd r u of None \<Rightarrow> {} | Some ks \<Rightarrow> ks) = (case subjects st u of None \<Rightarrow> {} | Some s \<Rightarrow> revokedKeyIds s)" for u
    using assms(1) by (simp_all add: resolves_def)
  show ?thesis
  proof (cases "e_type e = Revoke")
    case True
    with assms(2) have "apply_revoke st e = Inr st'" by (simp add: apply_entry_def)
    then obtain s where s: "subjects st (e_subject e) = Some s"
      "subjects st' = (subjects st)(e_subject e \<mapsto>
       s\<lparr>revokedKeyIds := insert (e_keyId e) (revokedKeyIds s),
         active := (case active s of None \<Rightarrow> None | Some (k, p) \<Rightarrow> if k = e_keyId e then None else Some (k, p))\<rparr>)"
      by (rule apply_revoke_cases)
    show ?thesis
      unfolding resolves_def
    proof (intro allI)
      fix u
      show "fst (resolve_step r e) u = (case subjects st' u of None \<Rightarrow> None | Some s \<Rightarrow> active s) \<and>
        (case snd (resolve_step r e) u of None \<Rightarrow> {} | Some ks \<Rightarrow> ks) = (case subjects st' u of None \<Rightarrow> {} | Some s \<Rightarrow> revokedKeyIds s)"
        using a [of u] b [of u] s True
        by (cases "u = e_subject e"; cases "active s") (auto simp: resolve_step_def)
    qed
  next
    case False
    with assms(2) obtain pk where pk: "e_publicKey e = Some pk" "apply_add st e pk = Inr st'"
      by (auto simp: apply_entry_def split: option.splits)
    from pk(2) obtain s where s: "revokedKeyIds s = (case subjects st (e_subject e) of None \<Rightarrow> {} | Some s \<Rightarrow> revokedKeyIds s)"
      "subjects st' = (subjects st)(e_subject e \<mapsto> s\<lparr>keys := (keys s)(e_keyId e \<mapsto> pk), active := Some (e_keyId e, pk)\<rparr>)"
      by (rule apply_add_cases)
    show ?thesis
      unfolding resolves_def
    proof (intro allI)
      fix u
      show "fst (resolve_step r e) u = (case subjects st' u of None \<Rightarrow> None | Some s \<Rightarrow> active s) \<and>
        (case snd (resolve_step r e) u of None \<Rightarrow> {} | Some ks \<Rightarrow> ks) = (case subjects st' u of None \<Rightarrow> {} | Some s \<Rightarrow> revokedKeyIds s)"
        using a [of u] b [of u] s pk False by (cases "u = e_subject e") (simp_all add: resolve_step_def)
    qed
  qed
qed

lemma resolves_all: "resolves st r \<Longrightarrow> apply_all st es = Inr st' \<Longrightarrow> resolves st' (foldl resolve_step r es)"
proof (induction st es arbitrary: r rule: apply_all.induct)
  case (2 st e es)
  then obtain st1 where "apply_entry st e = Inr st1" "apply_all st1 es = Inr st'" by (auto split: sum.splits)
  with 2 resolves_step [OF "2.prems"(1)] show ?case by auto
qed simp

lemma resolves_empty: "resolves empty_key_state (Map.empty, Map.empty)"
  by (simp add: resolves_def empty_key_state_def)

section \<open>The registry\<close>

record registry_opts =
  ro_operatorPublicKey :: jstr
  ro_operator :: "jstr option"
  refreshMs :: int

type_synonym registry_cache = "(resolved option \<times> int) option"

text \<open>
  \<open>load\<close>: the published entries and the trusted checkpoint are arguments; \<open>None\<close> entries
  means that fetching them threw. Any exception gives no keys.
\<close>

definition load_fresh :: "crypto \<Rightarrow> registry_opts \<Rightarrow> entry list option \<Rightarrow> checkpoint option \<Rightarrow> int \<Rightarrow> resolved option" where
  "load_fresh C o' es cp t =
    (case es of None \<Rightarrow> None
     | Some es \<Rightarrow>
       (case verifyKeyLog C es \<lparr>operatorPublicKey = ro_operatorPublicKey o', lo_operator = ro_operator o', lo_now = t, lo_skew = MAX_CLOCK_SKEW_MS\<rparr> of
          Some (Inr v) \<Rightarrow>
            (case cp of None \<Rightarrow> Some (resolveKeyLog es)
             | Some c \<Rightarrow> if logExtendsCheckpoint C c es (ro_operatorPublicKey o') t = Some True then Some (resolveKeyLog es) else None)
        | _ \<Rightarrow> None))"

definition load :: "crypto \<Rightarrow> registry_opts \<Rightarrow> registry_cache \<Rightarrow> entry list option \<Rightarrow> checkpoint option \<Rightarrow> int \<Rightarrow> registry_cache \<times> resolved option" where
  "load C o' cached es cp t =
    (case cached of
       Some (r, t0) \<Rightarrow> if t - t0 < refreshMs o' then (cached, r) else (Some (load_fresh C o' es cp t, t), load_fresh C o' es cp t)
     | None \<Rightarrow> (Some (load_fresh C o' es cp t, t), load_fresh C o' es cp t))"

definition registry_getPublicKey ::
  "crypto \<Rightarrow> registry_opts \<Rightarrow> registry_cache \<Rightarrow> entry list option \<Rightarrow> checkpoint option \<Rightarrow> int \<Rightarrow> jstr \<Rightarrow> registry_cache \<times> jstr option" where
  "registry_getPublicKey C o' cached es cp t u =
    (let (cached', r) = load C o' cached es cp t in
     (cached', case r of None \<Rightarrow> None | Some r \<Rightarrow> map_option snd (fst r u)))"

section \<open>What the writer records verifies\<close>

definition field_ok :: "entry_fields \<Rightarrow> bool" where
  "field_ok f \<longleftrightarrow> (case f_publicKey f of None \<Rightarrow> True | Some p \<Rightarrow> 0 < length p \<and> length p < 512)
     \<and> (case f_reason f of None \<Rightarrow> True | Some r \<Rightarrow> length r < 1024)"

definition writer_ok :: "crypto \<Rightarrow> jstr \<Rightarrow> jstr \<Rightarrow> int \<Rightarrow> keylog \<Rightarrow> bool" where
  "writer_ok C op pub T l \<longleftrightarrow> indexed 0 (k_log l) \<and> key_chain.chained C keylog_genesis (k_log l) \<and>
     k_head l = key_chain.head C keylog_genesis (k_log l) \<and> sorted (0 # map e_timestampMs (k_log l)) \<and>
     apply_all empty_key_state (k_log l) = Inr (k_state l) \<and> is_sha256_hex (k_head l) \<and>
     (\<forall>e \<in> set (k_log l). wellFormed e \<and> e_operator e = op \<and> e_timestampMs e \<le> T \<and>
        verifyCanonicalPayloadEd25519 C (entryPayload e) (e_signature e) pub = Some True)"

text \<open>What is assumed of WebCrypto: matching keys, non-empty signatures and 32-byte digests.\<close>

definition crypto_ok :: "crypto \<Rightarrow> jstr \<Rightarrow> jstr \<Rightarrow> bool" where
  "crypto_ok C priv pub \<longleftrightarrow> ed_pair C priv pub \<and> (\<forall>k m. ed_sign_raw C k m \<noteq> []) \<and> (\<forall>m. length (sha256_raw C m) = 32)"

lemma indexed_snoc: "indexed i (es @ [e]) \<longleftrightarrow> indexed i es \<and> e_index e = i + int (length es)"
  by (induction i es rule: indexed.induct) auto

lemma payload_signature [simp]: "entryPayload (e\<lparr>e_signature := s\<rparr>) = entryPayload e"
  by (simp add: entryPayload_def entry_json_def)

lemma signed_nonempty: "crypto_ok C priv pub \<Longrightarrow> signCanonicalPayloadEd25519 C p priv = Some s \<Longrightarrow> s \<noteq> []"
proof
  assume c: "crypto_ok C priv pub" and s: "signCanonicalPayloadEd25519 C p priv = Some s" "s = []"
  then obtain bs where "toBase64Url bs = []" "bs \<noteq> []"
    by (auto simp: signCanonicalPayloadEd25519_def ed_tag_def crypto_ok_def import_ed_priv_def split: if_splits)
  then have "fromBase64Url [] = bs" by (metis base64url_roundtrip)
  with \<open>bs \<noteq> []\<close> show False by (simp add: fromBase64Url_eq List.map_filter_simps)
qed

lemma writer_ok_new: "writer_ok C op pub T new_keylog"
  by (simp add: writer_ok_def new_keylog_def is_sha256_hex_def keylog_genesis_def)

lemma writer_ok_append:
  assumes "writer_ok C op pub T l" "crypto_ok C priv pub" "is_name op" "field_ok f" "safe now" "now \<le> T" "0 \<le> T" "int (length (k_log l)) \<le> max_safe"
  shows "writer_ok C op pub T (fst (append C op priv l f now))"
proof (cases "snd (append C op priv l f now)")
  case (Inl x)
  then have "fst (append C op priv l f now) = l" by (auto simp: append_def split: sum.splits)
  with assms(1) show ?thesis by simp
next
  case (Inr e)
  then obtain st' where sg: "append_sign C op priv l f now = Inr e" and st': "apply_entry (k_state l) e = Inr st'"
    and l': "fst (append C op priv l f now) = l\<lparr>k_log := k_log l @ [e], k_state := st', k_head := keyLogEntryHash C e\<rparr>"
    by (auto simp: append_def append_commit_def append_finish_def split: sum.splits)
  let ?ts = "max now (if k_log l = [] then 0 else e_timestampMs (last (k_log l)))"
  let ?u = "unsigned_entry f op (int (length (k_log l))) (k_head l) ?ts"
  from sg obtain s where names: "is_name (f_subject f)" "is_name (f_keyId f)"
    and s: "signCanonicalPayloadEd25519 C (entryPayload ?u) priv = Some s" and e: "e = ?u\<lparr>e_signature := s\<rparr>"
    by (auto simp: append_sign_def signKeyLogEntry_def Let_def split: if_splits option.splits)
  note w = assms(1) [unfolded writer_ok_def]
  have old: "safe t \<and> t \<le> T" if "t \<in> set (map e_timestampMs (k_log l))" for t
    using w that by (auto simp: wellFormed_def)
  have ts: "safe ?ts" "?ts \<le> T" "\<forall>t \<in> set (map e_timestampMs (k_log l)). t \<le> ?ts" "0 \<le> ?ts"
  proof -
    have m: "\<forall>t \<in> set (map e_timestampMs (k_log l)). t \<le> e_timestampMs (last (k_log l))" "k_log l \<noteq> [] \<Longrightarrow> 0 \<le> e_timestampMs (last (k_log l))"
      using w by (cases "k_log l" rule: rev_cases; auto simp: sorted_append)+
    have "k_log l \<noteq> [] \<Longrightarrow> e_timestampMs (last (k_log l)) \<in> set (map e_timestampMs (k_log l))" by simp
    with old m assms(5-7) show "safe ?ts" "?ts \<le> T" "\<forall>t \<in> set (map e_timestampMs (k_log l)). t \<le> ?ts" "0 \<le> ?ts"
      by (auto simp: max_def safe_def max_safe_def)
  qed
  have wf: "wellFormed e"
    using names assms(3,4,8) conjunct1 [OF conjunct2 [OF conjunct2 [OF conjunct2 [OF conjunct2 [OF conjunct2 [OF w]]]]]] ts(1) signed_nonempty [OF assms(2) s]
    by (simp add: wellFormed_def e unsigned_entry_def field_ok_def safe_def max_safe_def)
  have v: "verifyCanonicalPayloadEd25519 C (entryPayload e) (e_signature e) pub = Some True"
    using ed.sign_verifies [OF _ s] assms(2) by (simp add: e crypto_ok_def)
  have h: "is_sha256_hex (keyLogEntryHash C e)"
    unfolding keyLogEntryHash_def using assms(2) by (intro sha256Hex_shape) (simp add: crypto_ok_def)
  show ?thesis
    unfolding l' writer_ok_def
    using w st' wf v h ts(2-4)
    by (auto simp: indexed_snoc key_chain.chained_snoc key_chain.head_snoc apply_all_append keyLogEntryHash_bytes sorted_append
      e unsigned_entry_def)
qed

fun append_run :: "crypto \<Rightarrow> jstr \<Rightarrow> jstr \<Rightarrow> keylog \<Rightarrow> (entry_fields \<times> int) list \<Rightarrow> keylog" where
  "append_run C op priv l [] = l"
| "append_run C op priv l ((f, t) # fs) = append_run C op priv (fst (append C op priv l f t)) fs"

lemma append_length: "length (k_log (fst (append C op priv l f t))) \<le> Suc (length (k_log l))"
  by (auto simp: append_def append_commit_def append_finish_def split: sum.splits)

lemma writer_ok_run:
  assumes "writer_ok C op pub T l" "crypto_ok C priv pub" "is_name op" "\<forall>(f, t) \<in> set fs. field_ok f \<and> safe t \<and> t \<le> T" "0 \<le> T"
    and "int (length (k_log l) + length fs) \<le> max_safe"
  shows "writer_ok C op pub T (append_run C op priv l fs)"
  using assms
proof (induction C op priv l fs rule: append_run.induct)
  case (2 C op priv l f t fs)
  have "writer_ok C op pub T (fst (append C op priv l f t))"
    by (rule writer_ok_append [OF "2.prems"(1-3)]) (use "2.prems"(4-6) in auto)
  from "2.IH" [OF this "2.prems"(2,3)] "2.prems"(4-6) append_length [of C op priv l f t] show ?case by simp
qed simp

lemma writer_ok_verifies:
  assumes "writer_ok C op pub T l" "pub \<noteq> []" "T \<le> lo_now o' + lo_skew o'" "operatorPublicKey o' = pub" "lo_operator o' \<in> {None, Some op}"
  shows "verifyKeyLog C (k_log l) o' = Some (Inr (int (length (k_log l)), k_head l))"
  using assms unfolding verifyKeyLog_iff writer_ok_def entry_ok_def by force

section \<open>The state in terms of the entries\<close>

definition adds :: "entry \<Rightarrow> jstr \<Rightarrow> jstr \<Rightarrow> jstr \<Rightarrow> bool" where
  "adds e u k p \<longleftrightarrow> e_type e \<noteq> Revoke \<and> e_subject e = u \<and> e_keyId e = k \<and> e_publicKey e = Some p"

definition revokes :: "entry \<Rightarrow> jstr \<Rightarrow> jstr \<Rightarrow> bool" where
  "revokes e u k \<longleftrightarrow> e_type e = Revoke \<and> e_subject e = u \<and> e_keyId e = k"

definition has_key :: "key_state \<Rightarrow> jstr \<Rightarrow> jstr \<Rightarrow> jstr \<Rightarrow> bool" where
  "has_key st u k p \<longleftrightarrow> (case subjects st u of None \<Rightarrow> False | Some s \<Rightarrow> keys s k = Some p)"

definition has_revoked :: "key_state \<Rightarrow> jstr \<Rightarrow> jstr \<Rightarrow> bool" where
  "has_revoked st u k \<longleftrightarrow> (case subjects st u of None \<Rightarrow> False | Some s \<Rightarrow> k \<in> revokedKeyIds s)"

lemma apply_entry_keys:
  assumes "apply_entry st e = Inr st'"
  shows "has_key st' u k p \<longleftrightarrow> has_key st u k p \<or> adds e u k p"
    and "has_revoked st' u k \<longleftrightarrow> has_revoked st u k \<or> revokes e u k"
proof -
  have "(has_key st' u k p \<longleftrightarrow> has_key st u k p \<or> adds e u k p) \<and> (has_revoked st' u k \<longleftrightarrow> has_revoked st u k \<or> revokes e u k)"
  proof (cases "e_type e = Revoke")
    case True
    with assms have "apply_revoke st e = Inr st'" by (simp add: apply_entry_def)
    then obtain s where "subjects st (e_subject e) = Some s"
      "subjects st' = (subjects st)(e_subject e \<mapsto>
       s\<lparr>revokedKeyIds := insert (e_keyId e) (revokedKeyIds s),
         active := (case active s of None \<Rightarrow> None | Some (k, p) \<Rightarrow> if k = e_keyId e then None else Some (k, p))\<rparr>)"
      by (rule apply_revoke_cases)
    with True show ?thesis
      by (cases "u = e_subject e") (auto simp: has_key_def has_revoked_def adds_def revokes_def)
  next
    case False
    with assms obtain pk where pk: "e_publicKey e = Some pk" "apply_add st e pk = Inr st'"
      by (auto simp: apply_entry_def split: option.splits)
    let ?s = "case subjects st (e_subject e) of None \<Rightarrow> \<lparr>active = None, keys = Map.empty, revokedKeyIds = {}\<rparr> | Some s \<Rightarrow> s"
    from pk(2) have new: "keys ?s (e_keyId e) = None"
      and st': "subjects st' = (subjects st)(e_subject e \<mapsto> ?s\<lparr>keys := (keys ?s)(e_keyId e \<mapsto> pk), active := Some (e_keyId e, pk)\<rparr>)"
      by (simp_all add: apply_add_def Let_def split: if_splits) auto
    show ?thesis
      using False pk(1) new
      by (cases "u = e_subject e"; cases "k = e_keyId e"; cases "subjects st (e_subject e)")
        (auto simp: has_key_def has_revoked_def adds_def revokes_def st')
  qed
  then show "has_key st' u k p \<longleftrightarrow> has_key st u k p \<or> adds e u k p" "has_revoked st' u k \<longleftrightarrow> has_revoked st u k \<or> revokes e u k"
    by auto
qed

lemma apply_all_keys:
  "apply_all st es = Inr st' \<Longrightarrow>
    (has_key st' u k p \<longleftrightarrow> has_key st u k p \<or> (\<exists>e \<in> set es. adds e u k p)) \<and>
    (has_revoked st' u k \<longleftrightarrow> has_revoked st u k \<or> (\<exists>e \<in> set es. revokes e u k))"
proof (induction st es rule: apply_all.induct)
  case (2 st e es)
  then obtain st1 where s: "apply_entry st e = Inr st1" "apply_all st1 es = Inr st'" by (auto split: sum.splits)
  from "2.IH" [OF s] apply_entry_keys [OF s(1)] show ?case by auto
qed simp

lemma resolved_key:
  assumes "apply_all empty_key_state es = Inr st" "fst (resolveKeyLog es) u = Some (k, p)"
  shows "(\<exists>e \<in> set es. adds e u k p) \<and> \<not> (\<exists>e \<in> set es. revokes e u k) \<and> (\<forall>e \<in> set es. \<forall>u' k'. adds e u' k' p \<longrightarrow> u' = u \<and> k' = k)"
proof -
  have inv: "key_inv st" using apply_all_inv [OF key_inv_empty assms(1)] .
  have "resolves st (resolveKeyLog es)"
    using resolves_all [OF resolves_empty assms(1)] by (simp add: resolveKeyLog_def)
  with assms(2) obtain s where s: "subjects st u = Some s" "active s = Some (k, p)"
    by (auto simp: resolves_def split: option.splits)
  have ok: "subject_ok (keyOwner st) (revokedPublicKeys st) v t" if "subjects st v = Some t" for v t
    using inv that by (simp add: key_inv_def)
  note d = subject_okD [OF ok [OF s(1)]]
  note t = apply_all_keys [OF assms(1)]
  have key: "has_key st u k p" "\<not> has_revoked st u k"
    using d(1,2) [OF s(2)] s(1) by (simp_all add: has_key_def has_revoked_def)
  have "u' = u \<and> k' = k" if "e \<in> set es" "adds e u' k' p" for e u' k'
  proof -
    have "has_key st u' k' p" using t that by blast
    then obtain s' where s': "subjects st u' = Some s'" "keys s' k' = Some p" by (auto simp: has_key_def split: option.splits)
    from subject_okD(3) [OF ok [OF s'(1)] s'(2)] d(3) [OF d(1) [OF s(2)]] have "u' = u" by simp
    moreover from this s s' have "k' = k" using d(5) [OF _ d(1) [OF s(2)]] by simp
    ultimately show ?thesis ..
  qed
  with key t [of u k p] show ?thesis by (auto simp: has_key_def has_revoked_def empty_key_state_def)
qed

section \<open>Properties\<close>

text \<open>C23 The key log registry only returns live keys: a key it returns after a refresh was added for that identity in the published log, the log verifies (order, chain, operator signatures, times, rules), the key id was never revoked, and the same public key was never added for any other identity or key id.\<close>

theorem registry_returns_live_keys:
  assumes "snd (registry_getPublicKey C o' None (Some es) cp t u) = Some p"
  shows "\<exists>k h. verifyKeyLog C es \<lparr>operatorPublicKey = ro_operatorPublicKey o', lo_operator = ro_operator o', lo_now = t,
      lo_skew = MAX_CLOCK_SKEW_MS\<rparr> = Some (Inr (int (length es), h)) \<and>
    (\<exists>e \<in> set es. adds e u k p) \<and> \<not> (\<exists>e \<in> set es. revokes e u k) \<and>
    (\<forall>e \<in> set es. \<forall>u' k'. adds e u' k' p \<longrightarrow> u' = u \<and> k' = k)"
proof -
  let ?o = "\<lparr>operatorPublicKey = ro_operatorPublicKey o', lo_operator = ro_operator o', lo_now = t, lo_skew = MAX_CLOCK_SKEW_MS\<rparr>"
  from assms obtain n h k where v: "verifyKeyLog C es ?o = Some (Inr (n, h))" and r: "fst (resolveKeyLog es) u = Some (k, p)"
    by (auto simp: registry_getPublicKey_def load_def load_fresh_def split: option.splits sum.splits if_splits)
  from v [unfolded verifyKeyLog_iff] obtain st where "n = int (length es)" "apply_all empty_key_state es = Inr st" by blast
  with v resolved_key [OF _ r] show ?thesis by blast
qed

definition demo_entry :: entry where
  "demo_entry = unsigned_entry \<lparr>f_type = Register, f_subject = js ''u'', f_keyId = js ''k'', f_publicKey = Some (js ''p''), f_reason = None\<rparr>
    (js ''op'') 0 keylog_genesis 5"

definition demo_registry :: registry_opts where
  "demo_registry = \<lparr>ro_operatorPublicKey = js ''o'', ro_operator = Some (js ''op''), refreshMs = 30000\<rparr>"

lemma demo_entry_verifies:
  assumes "signCanonicalPayloadEd25519 demo_crypto (entryPayload demo_entry) (js ''o'') = Some s" "s \<noteq> []"
  shows "verifyKeyLog demo_crypto [demo_entry\<lparr>e_signature := s\<rparr>]
    \<lparr>operatorPublicKey = js ''o'', lo_operator = Some (js ''op''), lo_now = 5, lo_skew = MAX_CLOCK_SKEW_MS\<rparr> = Some (Inr (1, keyLogEntryHash demo_crypto (demo_entry\<lparr>e_signature := s\<rparr>)))"
proof -
  let ?e = "demo_entry\<lparr>e_signature := s\<rparr>"
  have g: "is_sha256_hex keylog_genesis" by (simp add: is_sha256_hex_def keylog_genesis_def)
  have v: "verifyCanonicalPayloadEd25519 demo_crypto (entryPayload ?e) (e_signature ?e) (js ''o'') = Some True"
    using ed.sign_verifies [OF demo_pair assms(1)] by simp
  have w: "wellFormed ?e"
    using g assms(2) by (simp add: wellFormed_def demo_entry_def unsigned_entry_def safe_def max_safe_def is_name_def ascii_eval)
  have a: "\<exists>st. apply_entry empty_key_state ?e = Inr st"
    by (simp add: apply_entry_def apply_add_def empty_key_state_def demo_entry_def unsigned_entry_def)
  show ?thesis
    unfolding verifyKeyLog_iff
    using v w a
    by (auto simp: entry_ok_def keyLogEntryHash_bytes)
      (simp_all add: demo_entry_def unsigned_entry_def MAX_CLOCK_SKEW_MS_def ascii_eval)
qed

lemma demo_signature: "\<exists>s. signCanonicalPayloadEd25519 demo_crypto (entryPayload demo_entry) (js ''o'') = Some s \<and> s \<noteq> []"
proof -
  obtain s where s: "signCanonicalPayloadEd25519 demo_crypto (entryPayload demo_entry) (js ''o'') = Some s"
    using ed.sign_some [OF demo_pair] by blast
  have "s \<noteq> []"
  proof
    assume "s = []"
    with s have "toBase64Url (utf8Encode (entryPayload demo_entry)) = []"
      by (simp add: signCanonicalPayloadEd25519_def import_ed_priv_def demo_crypto_def ed_tag_def)
    then have "fromBase64Url [] = utf8Encode (entryPayload demo_entry)" by (metis base64url_roundtrip)
    then have "utf8Encode (entryPayload demo_entry) = []" by (simp add: fromBase64Url_eq List.map_filter_simps)
    then have "sanitize (entryPayload demo_entry) = []" using utf8_sanitize [of _ "[]"] by (simp add: utf8Encode_def sanitize_def)
    moreover have "well_formed (entryPayload demo_entry)"
      using well_formed_print [of _ "[]"] by (simp add: entryPayload_text)
    ultimately have "entryPayload demo_entry = []" using sanitize_append [of "entryPayload demo_entry" "[]"] by simp
    then show False by (simp add: entryPayload_text entry_json_def)
  qed
  with s show ?thesis by blast
qed

theorem registry_returns_live_keys_witness:
  "\<exists>es k. (\<exists>e \<in> set es. adds e (js ''u'') k (js ''p'')) \<and> \<not> (\<exists>e \<in> set es. revokes e (js ''u'') k)"
proof -
  obtain s where s: "signCanonicalPayloadEd25519 demo_crypto (entryPayload demo_entry) (js ''o'') = Some s" "s \<noteq> []"
    using demo_signature by blast
  have "snd (registry_getPublicKey demo_crypto demo_registry None (Some [demo_entry\<lparr>e_signature := s\<rparr>]) None 5 (js ''u'')) = Some (js ''p'')"
    using demo_entry_verifies [OF s]
    by (simp add: registry_getPublicKey_def load_def load_fresh_def demo_registry_def)
      (simp add: resolveKeyLog_def resolve_step_def demo_entry_def unsigned_entry_def)
  from registry_returns_live_keys [OF this] show ?thesis by blast
qed

section \<open>Properties of writing\<close>

text \<open>C24 What the operator writes is verifiable: after any sequence of register, rotate and revoke calls, accepted or refused, with fields of the sizes verification allows and clock readings up to T, the published log verifies under the operator's key with exactly the size and head hash the writer reports.\<close>

theorem published_log_verifies:
  assumes "crypto_ok C priv pub" "pub \<noteq> []" "is_name op" "0 \<le> T" "T \<le> now + skew"
    and "\<forall>(f, t) \<in> set fs. field_ok f \<and> safe t \<and> t \<le> T" "int (length fs) \<le> max_safe"
  shows "verifyKeyLog C (k_log (append_run C op priv new_keylog fs))
      \<lparr>operatorPublicKey = pub, lo_operator = Some op, lo_now = now, lo_skew = skew\<rparr> =
    Some (Inr (int (length (k_log (append_run C op priv new_keylog fs))), k_head (append_run C op priv new_keylog fs)))"
proof -
  have "writer_ok C op pub T (append_run C op priv new_keylog fs)"
    by (rule writer_ok_run [OF writer_ok_new assms(1,3,6,4)]) (use assms(7) in \<open>simp add: new_keylog_def\<close>)
  then show ?thesis by (rule writer_ok_verifies [OF _ assms(2)]) (simp_all add: assms(5))
qed

text \<open>A stand-in whose digests have 32 bytes and whose signatures are never empty.\<close>

definition demo_crypto32 :: crypto where
  "demo_crypto32 = demo_crypto\<lparr>ed_sign_raw := (\<lambda>k m. 1 # m), ed_verify_raw := (\<lambda>k s m. s = 1 # m), sha256_raw := (\<lambda>m. replicate 32 0)\<rparr>"

lemma demo_crypto32_ok: "crypto_ok demo_crypto32 a b"
  by (simp add: crypto_ok_def demo_crypto32_def demo_crypto_def ed_pair_def)

definition demo_register :: "jstr \<Rightarrow> jstr \<Rightarrow> entry_fields" where
  "demo_register u p = \<lparr>f_type = Register, f_subject = u, f_keyId = js ''k'', f_publicKey = Some p, f_reason = None\<rparr>"

lemma demo_register_names [simp]:
  "f_subject (demo_register u p) = u" "is_name (f_keyId (demo_register u p))"
  by (simp_all add: demo_register_def is_name_def ascii_eval)

lemma demo_sign:
  assumes "is_name u"
  shows "\<exists>s. append_sign demo_crypto32 (js ''op'') (js ''o'') new_keylog (demo_register u p) 5 =
    Inr ((unsigned_entry (demo_register u p) (js ''op'') 0 keylog_genesis 5)\<lparr>e_signature := s\<rparr>)"
proof -
  have "ed_pair demo_crypto32 (js ''o'') b" for b using demo_crypto32_ok by (simp add: crypto_ok_def)
  from ed.sign_some [OF this] obtain s where
    "signCanonicalPayloadEd25519 demo_crypto32 (entryPayload (unsigned_entry (demo_register u p) (js ''op'') 0 keylog_genesis 5)) (js ''o'') = Some s"
    by blast
  then show ?thesis using assms by (auto simp: append_sign_def signKeyLogEntry_def new_keylog_def)
qed

lemma demo_names: "is_name (js ''u'')" "is_name (js ''v'')" "is_name (js ''op'')"
  by (simp_all add: is_name_def ascii_eval)

theorem published_log_verifies_witness:
  "\<exists>es h. es \<noteq> [] \<and> verifyKeyLog demo_crypto32 es
    \<lparr>operatorPublicKey = js ''o'', lo_operator = Some (js ''op''), lo_now = 9, lo_skew = 0\<rparr> = Some (Inr (int (length es), h))"
proof -
  let ?fs = "[(demo_register (js ''u'') (js ''p''), 5)]"
  let ?l = "append_run demo_crypto32 (js ''op'') (js ''o'') new_keylog ?fs"
  obtain s where "append_sign demo_crypto32 (js ''op'') (js ''o'') new_keylog (demo_register (js ''u'') (js ''p'')) 5 =
      Inr ((unsigned_entry (demo_register (js ''u'') (js ''p'')) (js ''op'') 0 keylog_genesis 5)\<lparr>e_signature := s\<rparr>)"
    using demo_sign demo_names by blast
  then have "k_log ?l \<noteq> []"
    by (simp add: append_def append_commit_def append_finish_def new_keylog_def apply_entry_def apply_add_def empty_key_state_def
        unsigned_entry_def demo_register_def)
  moreover have "field_ok (demo_register (js ''u'') (js ''p''))"
    by (simp add: field_ok_def demo_register_def js_def)
  ultimately show ?thesis
    using published_log_verifies [OF demo_crypto32_ok [of "js ''o''" "js ''o''"] _ demo_names(3), of 9 9 0 ?fs]
    by (auto simp: js_def safe_def max_safe_def)
qed

text \<open>C25 A checkpoint fixes the history: two logs that extend the same checkpoint carry the same entries up to its size, in every signed field and in the signature bytes hashed, provided SHA-256 does not collide on the entries of the two logs.\<close>

theorem checkpoint_fixes_history:
  assumes "logExtendsCheckpoint C cp as pub now = Some True" "logExtendsCheckpoint C cp bs pub now' = Some True"
    and "inj_on (\<lambda>b. toHex (sha256_raw C b)) (entry_bytes ` (set as \<union> set bs))"
  shows "list_all2 same_entry (take (nat (cp_size cp)) as) (take (nat (cp_size cp)) bs)"
proof -
  let ?n = "nat (cp_size cp)"
  have e: "\<exists>o'. verifyKeyLog C (take ?n es) o' = Some (Inr (cp_size cp, cp_headHash cp))"
    if "logExtendsCheckpoint C cp es pub t = Some True" for es t
    using that by (auto simp: logExtendsCheckpoint_def split: if_splits)
  from e [OF assms(1)] e [OF assms(2)] obtain oa ob where
    a: "verifyKeyLog C (take ?n as) oa = Some (Inr (cp_size cp, cp_headHash cp))" and
    b: "verifyKeyLog C (take ?n bs) ob = Some (Inr (cp_size cp, cp_headHash cp))" by blast
  note a' = a [unfolded verifyKeyLog_iff] and b' = b [unfolded verifyKeyLog_iff]
  have "int (length (take ?n as)) = int (length (take ?n bs))" using a' b' by metis
  then have "length (take ?n as) = length (take ?n bs)" by (rule of_nat_eq_iff [THEN iffD1])
  moreover have "key_chain.head C keylog_genesis (take ?n as) = key_chain.head C keylog_genesis (take ?n bs)" using a' b' by metis
  moreover have "inj_on (\<lambda>b. toHex (sha256_raw C b)) (entry_bytes ` (set (take ?n as) \<union> set (take ?n bs)))"
    by (rule inj_on_subset [OF assms(3)]) (auto dest: in_set_takeD)
  ultimately show ?thesis using a' b' by (intro key_chain.same_history) auto
qed

lemma own_checkpoint:
  assumes "writer_ok C op pub T l" "crypto_ok C priv pub" "pub \<noteq> []" "T \<le> now + MAX_CLOCK_SKEW_MS" "safe t" "safe (int (length (k_log l)))"
    and "make_checkpoint C op priv l t = Some cp"
  shows "logExtendsCheckpoint C cp (k_log l) pub now = Some True"
proof -
  let ?c = "\<lparr>cp_version = keylog_version, cp_operator = op, cp_size = int (length (k_log l)), cp_headHash = k_head l,
              cp_timestampMs = t, cp_signature = []\<rparr>"
  obtain s where s: "signCanonicalPayloadEd25519 C (checkpointPayload ?c) priv = Some s" and cp: "cp = ?c\<lparr>cp_signature := s\<rparr>"
    using assms(7) by (auto simp: make_checkpoint_def Let_def)
  have "verifyCanonicalPayloadEd25519 C (checkpointPayload cp) (cp_signature cp) pub = Some True"
    using ed.sign_verifies [OF _ s] assms(2) by (simp add: cp crypto_ok_def checkpointPayload_def)
  moreover have "is_sha256_hex (k_head l)" using assms(1) unfolding writer_ok_def by blast
  ultimately have "verifyCheckpoint C cp pub None" using assms(5,6) by (simp add: verifyCheckpoint_def cp)
  moreover have "verifyKeyLog C (k_log l) \<lparr>operatorPublicKey = pub, lo_operator = None, lo_now = now, lo_skew = MAX_CLOCK_SKEW_MS\<rparr> =
      Some (Inr (int (length (k_log l)), k_head l))"
    by (rule writer_ok_verifies [OF assms(1,3)]) (simp_all add: assms(4))
  ultimately show ?thesis by (simp add: logExtendsCheckpoint_def cp)
qed

lemma demo_log:
  "\<exists>e l. append_run demo_crypto32 (js ''op'') (js ''o'') new_keylog [(demo_register (js ''u'') (js ''p''), 5)] = l \<and> k_log l = [e] \<and>
    writer_ok demo_crypto32 (js ''op'') (js ''o'') 9 l"
proof -
  let ?fs = "[(demo_register (js ''u'') (js ''p''), 5)]"
  obtain s where "append_sign demo_crypto32 (js ''op'') (js ''o'') new_keylog (demo_register (js ''u'') (js ''p'')) 5 =
      Inr ((unsigned_entry (demo_register (js ''u'') (js ''p'')) (js ''op'') 0 keylog_genesis 5)\<lparr>e_signature := s\<rparr>)"
    using demo_sign demo_names by blast
  then have "\<exists>e. k_log (append_run demo_crypto32 (js ''op'') (js ''o'') new_keylog ?fs) = [e]"
    by (simp add: append_def append_commit_def append_finish_def new_keylog_def apply_entry_def apply_add_def empty_key_state_def
        unsigned_entry_def demo_register_def)
  moreover have "writer_ok demo_crypto32 (js ''op'') (js ''o'') 9 (append_run demo_crypto32 (js ''op'') (js ''o'') new_keylog ?fs)"
    by (rule writer_ok_run [OF writer_ok_new demo_crypto32_ok demo_names(3)])
      (auto simp: field_ok_def demo_register_def js_def safe_def max_safe_def new_keylog_def)
  ultimately show ?thesis by blast
qed

theorem checkpoint_fixes_history_witness:
  "\<exists>cp e. logExtendsCheckpoint demo_crypto32 cp [e] (js ''o'') 9 = Some True \<and> list_all2 same_entry [e] [e]"
proof -
  obtain e l where l: "k_log l = [e]" "writer_ok demo_crypto32 (js ''op'') (js ''o'') 9 l" using demo_log by blast
  obtain cp where cp: "make_checkpoint demo_crypto32 (js ''op'') (js ''o'') l 9 = Some cp"
    using ed.sign_some demo_crypto32_ok [of "js ''o''" "js ''o''"] by (fastforce simp: make_checkpoint_def crypto_ok_def)
  then have n: "cp_size cp = 1" by (auto simp: make_checkpoint_def l(1))
  have "logExtendsCheckpoint demo_crypto32 cp [e] (js ''o'') 9 = Some True"
    using own_checkpoint [OF l(2) demo_crypto32_ok _ _ _ _ cp, of 9] by (simp add: l(1) js_def safe_def max_safe_def MAX_CLOCK_SKEW_MS_def)
  from checkpoint_fixes_history [OF this this] this n show ?thesis by auto
qed

text \<open>Two appends that are not awaited in turn break the log: when both have read their position and signed before either commits, both can commit, and then the operator's log no longer verifies for anyone.\<close>

theorem concurrent_appends_break_log:
  assumes "append_sign C op priv l f1 t1 = Inr e1" "append_sign C op priv l f2 t2 = Inr e2"
    and "append_commit l e1 = Inr l1" "append_commit (append_finish C l1 e1) e2 = Inr l2"
  shows "verifyKeyLog C (k_log l2) o' \<noteq> Some (Inr r)"
proof
  assume v: "verifyKeyLog C (k_log l2) o' = Some (Inr r)"
  obtain n h where r: "r = (n, h)" by (cases r)
  have i: "e_index e1 = int (length (k_log l))" "e_index e2 = int (length (k_log l))"
    using assms(1,2) by (auto simp: append_sign_def signKeyLogEntry_def unsigned_entry_def Let_def split: if_splits option.splits)
  have "k_log l2 = (k_log l @ [e1]) @ [e2]"
    using assms(3,4) by (auto simp: append_commit_def append_finish_def split: sum.splits)
  moreover have "indexed 0 (k_log l2)" using v [unfolded r verifyKeyLog_iff] by blast
  ultimately show False using i by (simp only: indexed_snoc) simp
qed

theorem concurrent_appends_break_log_witness:
  "\<exists>e1 e2 l1 l2. append_sign demo_crypto32 (js ''op'') (js ''o'') new_keylog (demo_register (js ''u'') (js ''p'')) 5 = Inr e1 \<and>
    append_sign demo_crypto32 (js ''op'') (js ''o'') new_keylog (demo_register (js ''v'') (js ''q'')) 5 = Inr e2 \<and>
    append_commit new_keylog e1 = Inr l1 \<and> append_commit (append_finish demo_crypto32 l1 e1) e2 = Inr l2 \<and>
    verifyKeyLog demo_crypto32 (k_log l2) \<lparr>operatorPublicKey = js ''o'', lo_operator = None, lo_now = 9, lo_skew = 0\<rparr> \<noteq> Some (Inr (2, k_head l2))"
proof -
  obtain s1 where s1: "append_sign demo_crypto32 (js ''op'') (js ''o'') new_keylog (demo_register (js ''u'') (js ''p'')) 5 =
      Inr ((unsigned_entry (demo_register (js ''u'') (js ''p'')) (js ''op'') 0 keylog_genesis 5)\<lparr>e_signature := s1\<rparr>)" (is "_ = Inr ?e1")
    using demo_sign demo_names by blast
  obtain s2 where s2: "append_sign demo_crypto32 (js ''op'') (js ''o'') new_keylog (demo_register (js ''v'') (js ''q'')) 5 =
      Inr ((unsigned_entry (demo_register (js ''v'') (js ''q'')) (js ''op'') 0 keylog_genesis 5)\<lparr>e_signature := s2\<rparr>)" (is "_ = Inr ?e2")
    using demo_sign demo_names by blast
  obtain l1 where l1: "append_commit new_keylog ?e1 = Inr l1"
    by (simp add: append_commit_def new_keylog_def apply_entry_def apply_add_def empty_key_state_def unsigned_entry_def demo_register_def)
  then obtain l2 where l2: "append_commit (append_finish demo_crypto32 l1 ?e1) ?e2 = Inr l2"
    by (simp add: append_commit_def append_finish_def new_keylog_def apply_entry_def apply_add_def empty_key_state_def unsigned_entry_def demo_register_def)
      (auto simp: ascii_eval)
  show ?thesis using s1 s2 l1 l2 concurrent_appends_break_log [OF s1 s2 l1 l2] by blast
qed

text \<open>The writer also accepts entries that verification refuses as malformed: registering an empty public key is recorded, and from then on the operator's log fails to verify at that entry.\<close>

theorem append_accepts_malformed_entry:
  assumes "ed_pair C priv pub" "pub \<noteq> []" "is_name u" "is_name k"
  shows "(\<exists>e. snd (register C op priv new_keylog u k [] t) = Inr e) \<and>
    verifyKeyLog C (k_log (fst (register C op priv new_keylog u k [] t)))
      \<lparr>operatorPublicKey = pub, lo_operator = None, lo_now = now, lo_skew = skew\<rparr> = Some (Inl (0, LogMalformed))"
proof -
  let ?f = "\<lparr>f_type = Register, f_subject = u, f_keyId = k, f_publicKey = Some [], f_reason = None\<rparr>"
  obtain s where s: "signCanonicalPayloadEd25519 C (entryPayload (unsigned_entry ?f op 0 keylog_genesis (max t 0))) priv = Some s"
    using ed.sign_some [OF assms(1)] by blast
  then have "append_sign C op priv new_keylog ?f t = Inr ((unsigned_entry ?f op 0 keylog_genesis (max t 0))\<lparr>e_signature := s\<rparr>)"
    using assms(3,4) by (simp add: append_sign_def signKeyLogEntry_def new_keylog_def)
  then show ?thesis
    using assms(2) by (simp add: register_def append_def append_commit_def append_finish_def new_keylog_def apply_entry_def apply_add_def
        empty_key_state_def verifyKeyLog_def wellFormed_def unsigned_entry_def)
qed

theorem append_accepts_malformed_entry_witness:
  "verifyKeyLog demo_crypto (k_log (fst (register demo_crypto (js ''op'') (js ''o'') new_keylog (js ''u'') (js ''v'') [] 5)))
    \<lparr>operatorPublicKey = js ''o'', lo_operator = None, lo_now = 9, lo_skew = 0\<rparr> = Some (Inl (0, LogMalformed))"
  using append_accepts_malformed_entry [OF demo_pair [of "js ''o''" "js ''o''"] _ demo_names(1,2)] by (simp add: js_def)

end
