(* ===== verification/AuditLog.thy ===== *)
theory AuditLog
  imports Digest Mandate
begin

text \<open>
  \<open>src/auditLog.ts\<close>: the audit log of the gateway. Entries are signed one by one and
  chained by hash; \<open>verifyAuditChain\<close> checks the chain from the genesis value. An
  append has three atomic parts, because it awaits the signature and then the hash; the
  relation \<open>audit_step\<close> interleaves any number of them, \<open>audit_log\<close> runs one at a time.
\<close>

section \<open>Entries\<close>

datatype audit_type = VerifyOk | VerifyFail | RateLimited | SenderDenied | ResponseSigned

fun audit_type_text :: "audit_type \<Rightarrow> jstr" where
  "audit_type_text VerifyOk = js ''verify-ok''"
| "audit_type_text VerifyFail = js ''verify-fail''"
| "audit_type_text RateLimited = js ''rate-limited''"
| "audit_type_text SenderDenied = js ''sender-denied''"
| "audit_type_text ResponseSigned = js ''response-signed''"

lemma audit_type_text_inj [simp]: "audit_type_text a = audit_type_text b \<longleftrightarrow> a = b"
  by (cases a; cases b) simp_all

record audit_event =
  ev_type :: audit_type
  ev_sender :: "jstr option"
  ev_path :: "jstr option"
  ev_method :: "jstr option"
  ev_envelopeId :: "jstr option"
  ev_failReason :: "jstr option"
  ev_upstream :: "jstr option"
  ev_responseStatus :: "int option"

record audit_entry =
  a_id :: jstr
  a_timestampMs :: int
  a_event :: audit_event
  a_prevHash :: jstr
  a_signature :: jstr

definition audit_genesis :: jstr where
  "audit_genesis = replicate 64 48"

definition audit_members :: "audit_entry \<Rightarrow> (jstr \<times> json) list" where
  "audit_members e = (let v = a_event e in
    [(js ''id'', JStr (a_id e)), (js ''timestampMs'', num (a_timestampMs e)), (js ''type'', JStr (audit_type_text (ev_type v)))]
    @ opt_field ''sender'' JStr (ev_sender v) @ opt_field ''path'' JStr (ev_path v) @ opt_field ''method'' JStr (ev_method v)
    @ opt_field ''envelopeId'' JStr (ev_envelopeId v) @ opt_field ''failReason'' JStr (ev_failReason v)
    @ opt_field ''upstream'' JStr (ev_upstream v) @ opt_field ''responseStatus'' num (ev_responseStatus v)
    @ [(js ''prevHash'', JStr (a_prevHash e))])"

definition canonicalAuditPayload :: "audit_entry \<Rightarrow> jstr" where
  "canonicalAuditPayload e = 123 # join_with [44] (map (\<lambda>(k, v). quote k @ 58 # print_json v) (audit_members e)) @ [125]"

definition auditEntryHash :: "crypto \<Rightarrow> audit_entry \<Rightarrow> jstr" where
  "auditEntryHash C e = sha256Hex C (canonicalAuditPayload e @ a_signature e)"

lemma payload_print: "canonicalAuditPayload e = print_json (JObj (audit_members e))"
  by (simp add: canonicalAuditPayload_def)

lemma finite_opt_field [simp]: "(\<And>x. json_finite (f x)) \<Longrightarrow> (\<forall>(k, v) \<in> set (opt_field n f x). json_finite v)"
  by (cases x) (auto simp: opt_field_def)

lemma finite_audit [simp]: "json_finite (JObj (audit_members e))"
  using finite_opt_field [of JStr] finite_opt_field [of num]
  by (auto simp: audit_members_def Let_def ball_Un)

lemma map_of_opt_field [simp]: "map_of (opt_field n f x) k = (if k = js n then map_option f x else None)"
  by (simp add: opt_field_def split: option.split)

lemma audit_lookup:
  "map_of (audit_members e) (js ''id'') = Some (JStr (a_id e))"
  "map_of (audit_members e) (js ''timestampMs'') = Some (num (a_timestampMs e))"
  "map_of (audit_members e) (js ''type'') = Some (JStr (audit_type_text (ev_type (a_event e))))"
  "map_of (audit_members e) (js ''sender'') = map_option JStr (ev_sender (a_event e))"
  "map_of (audit_members e) (js ''path'') = map_option JStr (ev_path (a_event e))"
  "map_of (audit_members e) (js ''method'') = map_option JStr (ev_method (a_event e))"
  "map_of (audit_members e) (js ''envelopeId'') = map_option JStr (ev_envelopeId (a_event e))"
  "map_of (audit_members e) (js ''failReason'') = map_option JStr (ev_failReason (a_event e))"
  "map_of (audit_members e) (js ''upstream'') = map_option JStr (ev_upstream (a_event e))"
  "map_of (audit_members e) (js ''responseStatus'') = map_option num (ev_responseStatus (a_event e))"
  "map_of (audit_members e) (js ''prevHash'') = Some (JStr (a_prevHash e))"
  by (simp_all add: audit_members_def Let_def map_add_def split: option.split)

lemma map_option_inj_iff: "inj f \<Longrightarrow> map_option f x = map_option f y \<longleftrightarrow> x = y"
  by (cases x; cases y) (auto dest: injD)

lemma audit_members_inj:
  assumes "audit_members a = audit_members b"
  shows "b = a\<lparr>a_signature := a_signature b\<rparr>"
proof -
  have "inj JStr" "inj num" by (auto simp: inj_def)
  note m = map_option_inj_iff [OF this(1)] map_option_inj_iff [OF this(2)]
  show ?thesis
    using audit_lookup [of a, unfolded assms audit_lookup] by (simp add: m audit_entry.equality audit_event.equality)
qed

definition audit_pre :: "audit_entry \<Rightarrow> bytes" where
  "audit_pre e = utf8Encode (canonicalAuditPayload e @ a_signature e)"

definition same_audit :: "audit_entry \<Rightarrow> audit_entry \<Rightarrow> bool" where
  "same_audit a b \<longleftrightarrow> b = a\<lparr>a_signature := a_signature b\<rparr> \<and> sanitize (a_signature a) = sanitize (a_signature b)"

lemma audit_pre_same: "audit_pre a = audit_pre b \<Longrightarrow> same_audit a b"
  using object_bytes_inj [OF finite_audit finite_audit, of a "a_signature a" b "a_signature b"] audit_members_inj [of a b]
  by (simp add: audit_pre_def same_audit_def payload_print del: print_json.simps)

interpretation audit_chain: hash_chain audit_pre "\<lambda>bs. toHex (sha256_raw C bs)" a_prevHash same_audit "\<lambda>e. True" for C :: crypto
proof unfold_locales
  fix a b
  assume "same_audit a b"
  then obtain s where "b = a\<lparr>a_signature := s\<rparr>" by (auto simp: same_audit_def)
  then show "a_prevHash a = a_prevHash b" by simp
qed (simp add: audit_pre_same)

lemma auditEntryHash_pre: "auditEntryHash C e = toHex (sha256_raw C (audit_pre e))"
  by (simp add: auditEntryHash_def sha256Hex_def audit_pre_def)

section \<open>The log\<close>

record audit_log =
  au_entries :: "audit_entry list"
  au_tip :: jstr
  au_max :: nat

definition new_audit_log :: "nat \<Rightarrow> audit_log" where
  "new_audit_log n = \<lparr>au_entries = [], au_tip = audit_genesis, au_max = n\<rparr>"

text \<open>\<open>log\<close> up to the first await: the identifier, the clock and the tip are read, the signature is requested.\<close>

definition audit_sign :: "crypto \<Rightarrow> jstr \<Rightarrow> audit_log \<Rightarrow> audit_event \<Rightarrow> int \<Rightarrow> bytes \<Rightarrow> int \<Rightarrow> audit_entry option" where
  "audit_sign C priv l v idTime rnd5 now =
    (let e = \<lparr>a_id = js ''audit-'' @ show_int idTime @ js ''-'' @ randomHex rnd5, a_timestampMs = now, a_event = v,
              a_prevHash = au_tip l, a_signature = []\<rparr>
     in map_option (\<lambda>s. e\<lparr>a_signature := s\<rparr>) (signCanonicalPayloadEd25519 C (canonicalAuditPayload e) priv))"

text \<open>Between the awaits: the oldest entry makes room, the new one is pushed.\<close>

definition audit_push :: "audit_log \<Rightarrow> audit_entry \<Rightarrow> audit_log" where
  "audit_push l e =
    (let kept = (if au_max l \<le> length (au_entries l) then drop 1 (au_entries l) else au_entries l)
     in l\<lparr>au_entries := kept @ [e]\<rparr>)"

text \<open>After the second await: the hash becomes the tip.\<close>

definition audit_finish :: "crypto \<Rightarrow> audit_log \<Rightarrow> audit_entry \<Rightarrow> audit_log" where
  "audit_finish C l e = l\<lparr>au_tip := auditEntryHash C e\<rparr>"

text \<open>A call that is awaited; \<open>None\<close> for the event: signing throws and the log stays as it is.\<close>

definition audit_append :: "crypto \<Rightarrow> jstr \<Rightarrow> audit_log \<Rightarrow> audit_event \<Rightarrow> int \<Rightarrow> bytes \<Rightarrow> int \<Rightarrow> audit_log" where
  "audit_append C priv l v idTime rnd5 now =
    (case audit_sign C priv l v idTime rnd5 now of None \<Rightarrow> l | Some e \<Rightarrow> audit_finish C (audit_push l e) e)"

record audit_query =
  aq_type :: "audit_type option"
  aq_sender :: "jstr option"
  aq_since :: "int option"
  aq_limit :: "int option"

text \<open>\<open>slice (-n)\<close>: the last \<open>n\<close> entries, everything for 0, all but the first \<open>-n\<close> for a negative \<open>n\<close>.\<close>

definition slice_last :: "'a list \<Rightarrow> int \<Rightarrow> 'a list" where
  "slice_last xs n = (if 0 < n then drop (length xs - nat n) xs else drop (nat (- n)) xs)"

definition audit_results :: "audit_log \<Rightarrow> audit_query \<Rightarrow> audit_entry list" where
  "audit_results l q =
    (let r1 = (case aq_type q of None \<Rightarrow> au_entries l | Some t \<Rightarrow> filter (\<lambda>e. ev_type (a_event e) = t) (au_entries l));
         r2 = (case aq_sender q of None \<Rightarrow> r1 | Some s \<Rightarrow> filter (\<lambda>e. ev_sender (a_event e) = Some s) r1);
         r3 = (case aq_since q of None \<Rightarrow> r2 | Some t \<Rightarrow> filter (\<lambda>e. t \<le> a_timestampMs e) r2)
     in case aq_limit q of None \<Rightarrow> r3 | Some n \<Rightarrow> slice_last r3 n)"

definition audit_verify :: "crypto \<Rightarrow> audit_entry \<Rightarrow> jstr \<Rightarrow> bool option" where
  "audit_verify C e pub = verifyCanonicalPayloadEd25519 C (canonicalAuditPayload e) (a_signature e) pub"

datatype audit_break = PrevHashMismatch | BadSignature

fun audit_chain_loop :: "crypto \<Rightarrow> jstr \<Rightarrow> nat \<Rightarrow> jstr \<Rightarrow> audit_entry list \<Rightarrow> (nat \<times> audit_break) option option" where
  "audit_chain_loop C pub i expectedPrev [] = Some None"
| "audit_chain_loop C pub i expectedPrev (e # es) =
    (if a_prevHash e \<noteq> expectedPrev then Some (Some (i, PrevHashMismatch))
     else case verifyCanonicalPayloadEd25519 C (canonicalAuditPayload e) (a_signature e) pub of
       None \<Rightarrow> None
     | Some False \<Rightarrow> Some (Some (i, BadSignature))
     | Some True \<Rightarrow> audit_chain_loop C pub (Suc i) (auditEntryHash C e) es)"

text \<open>\<open>Some None\<close> is the answer ok, \<open>Some (Some (i, r))\<close> the entry and reason of the first failure, \<open>None\<close> a throw.\<close>

definition verifyAuditChain :: "crypto \<Rightarrow> audit_entry list \<Rightarrow> jstr \<Rightarrow> (nat \<times> audit_break) option option" where
  "verifyAuditChain C es pub = audit_chain_loop C pub 0 audit_genesis es"

lemma audit_loop_iff:
  "audit_chain_loop C pub i h es = Some None \<longleftrightarrow> audit_chain.chained C h es \<and> (\<forall>e \<in> set es. audit_verify C e pub = Some True)"
  by (induction C pub i h es rule: audit_chain_loop.induct)
    (auto simp: audit_verify_def auditEntryHash_pre split: option.splits bool.splits)

lemma verifyAuditChain_iff:
  "verifyAuditChain C es pub = Some None \<longleftrightarrow> audit_chain.chained C audit_genesis es \<and> (\<forall>e \<in> set es. audit_verify C e pub = Some True)"
  by (simp add: verifyAuditChain_def audit_loop_iff)

section \<open>Awaited appends\<close>

fun audit_run :: "crypto \<Rightarrow> jstr \<Rightarrow> audit_log \<Rightarrow> (audit_event \<times> int \<times> bytes \<times> int) list \<Rightarrow> audit_log" where
  "audit_run C priv l [] = l"
| "audit_run C priv l ((v, t, r, now) # evs) = audit_run C priv (audit_append C priv l v t r now) evs"

lemma audit_sign_some:
  assumes "ed_pair C priv pub"
  shows "\<exists>e. audit_sign C priv l v t r now = Some e \<and> a_prevHash e = au_tip l \<and> audit_verify C e pub = Some True"
proof -
  let ?u = "\<lparr>a_id = js ''audit-'' @ show_int t @ js ''-'' @ randomHex r, a_timestampMs = now, a_event = v, a_prevHash = au_tip l, a_signature = []\<rparr>"
  obtain s where s: "signCanonicalPayloadEd25519 C (canonicalAuditPayload ?u) priv = Some s" using ed.sign_some [OF assms] by blast
  have "canonicalAuditPayload (?u\<lparr>a_signature := s\<rparr>) = canonicalAuditPayload ?u"
    by (simp add: canonicalAuditPayload_def audit_members_def)
  with ed.sign_verifies [OF assms s] s show ?thesis by (simp add: audit_sign_def audit_verify_def)
qed

text \<open>The log is the end of its whole history, the tip the head of it.\<close>

definition audit_history :: "crypto \<Rightarrow> jstr \<Rightarrow> audit_log \<Rightarrow> audit_entry list \<Rightarrow> bool" where
  "audit_history C pub l es \<longleftrightarrow> audit_chain.chained C audit_genesis es \<and> au_tip l = audit_chain.head C audit_genesis es \<and>
    au_entries l = drop (length es - au_max l) es \<and> (\<forall>e \<in> set es. audit_verify C e pub = Some True)"

lemma audit_push_drop:
  assumes "au_entries l = drop (length es - au_max l) es" "0 < au_max l"
  shows "au_entries (audit_push l e) = drop (length (es @ [e]) - au_max l) (es @ [e])"
proof (cases "au_max l \<le> length es")
  case True
  then have "drop 1 (drop (length es - au_max l) es) @ [e] = drop (Suc (length es) - au_max l) (es @ [e])"
    using assms(2) by (simp add: Suc_diff_le)
  with True assms(1) show ?thesis by (simp add: audit_push_def)
qed (use assms(1) in \<open>simp add: audit_push_def\<close>)

lemma audit_append_history:
  assumes "audit_history C pub l es" "ed_pair C priv pub" "0 < au_max l"
  shows "\<exists>e. audit_history C pub (audit_append C priv l v t r now) (es @ [e]) \<and> au_max (audit_append C priv l v t r now) = au_max l"
proof -
  obtain e where e: "audit_sign C priv l v t r now = Some e" "a_prevHash e = au_tip l" "audit_verify C e pub = Some True"
    using audit_sign_some [OF assms(2)] by blast
  note h = assms(1) [unfolded audit_history_def]
  have "audit_history C pub (audit_finish C (audit_push l e) e) (es @ [e])"
    using h e audit_push_drop [of l es e] assms(3)
    by (auto simp: audit_history_def audit_finish_def audit_chain.chained_snoc audit_chain.head_snoc auditEntryHash_pre audit_push_def Let_def)
  with e(1) show ?thesis by (auto simp: audit_append_def audit_finish_def audit_push_def Let_def)
qed

lemma audit_run_history:
  assumes "audit_history C pub l es" "ed_pair C priv pub" "0 < au_max l"
  shows "\<exists>es'. audit_history C pub (audit_run C priv l evs) es' \<and> length es' = length es + length evs \<and>
    au_max (audit_run C priv l evs) = au_max l"
  using assms
proof (induction evs arbitrary: l es)
  case (Cons ev evs)
  obtain v t r now where ev: "ev = (v, t, r, now)" by (cases ev)
  obtain e where e: "audit_history C pub (audit_append C priv l v t r now) (es @ [e])" "au_max (audit_append C priv l v t r now) = au_max l"
    using audit_append_history [OF Cons.prems] by blast
  from Cons.IH [OF e(1) Cons.prems(2)] e(2) Cons.prems(3) show ?case by (simp add: ev)
qed auto

lemma audit_history_new: "audit_history C pub (new_audit_log n) []"
  by (simp add: audit_history_def new_audit_log_def)

section \<open>Overlapping appends\<close>

datatype audit_task = AwaitSignature audit_entry | AwaitHash audit_entry

inductive audit_step :: "crypto \<Rightarrow> jstr \<Rightarrow> audit_log \<times> audit_task list \<Rightarrow> audit_log \<times> audit_task list \<Rightarrow> bool" for C priv where
  audit_start: "audit_sign C priv l v t r now = Some e \<Longrightarrow> audit_step C priv (l, ts) (l, ts @ [AwaitSignature e])"
| audit_pushed: "audit_step C priv (l, as @ AwaitSignature e # bs) (audit_push l e, as @ AwaitHash e # bs)"
| audit_finished: "audit_step C priv (l, as @ AwaitHash e # bs) (audit_finish C l e, as @ bs)"

inductive_cases audit_stepE: "audit_step C priv s s'"

fun task_entry :: "audit_task \<Rightarrow> audit_entry" where
  "task_entry (AwaitSignature e) = e"
| "task_entry (AwaitHash e) = e"

definition audit_safe :: "crypto \<Rightarrow> jstr \<Rightarrow> audit_log \<times> audit_task list \<Rightarrow> bool" where
  "audit_safe C pub s \<longleftrightarrow> length (au_entries (fst s)) \<le> max 1 (au_max (fst s)) \<and>
    (\<forall>e \<in> set (au_entries (fst s)) \<union> task_entry ` set (snd s). audit_verify C e pub = Some True)"

lemma audit_step_safe:
  assumes "audit_step C priv s s'" "audit_safe C pub s" "ed_pair C priv pub"
  shows "audit_safe C pub s'"
  using assms(1)
proof cases
  case (audit_start l v t r now e ts)
  with audit_sign_some [OF assms(3), of l v t r now] assms(2) show ?thesis by (auto simp: audit_safe_def)
next
  case (audit_pushed l as e bs)
  with assms(2) show ?thesis by (auto simp: audit_safe_def audit_push_def Let_def dest: in_set_dropD)
next
  case (audit_finished l as e bs)
  with assms(2) show ?thesis by (auto simp: audit_safe_def audit_finish_def)
qed

lemma audit_reachable_safe:
  assumes "(audit_step C priv)\<^sup>*\<^sup>* s s'" "audit_safe C pub s" "ed_pair C priv pub"
  shows "audit_safe C pub s'"
  using assms(1) by (induction rule: rtranclp_induct) (use assms(2,3) audit_step_safe in blast)+

section \<open>Properties\<close>

text \<open>The audit trail detects deletion: when a log verifies, removing any block of entries that is not at its end makes verification fail, provided SHA-256 does not collide on its entries and none hashes to the genesis value; removing entries at the end is not detected.\<close>

theorem audit_deletion_detected:
  assumes "verifyAuditChain C (xs @ ds @ ys) pub = Some None" "ds \<noteq> []" "ys \<noteq> []"
    and "inj_on (\<lambda>b. toHex (sha256_raw C b)) (audit_pre ` set (xs @ ds @ ys))"
    and "\<forall>e \<in> set (xs @ ds @ ys). auditEntryHash C e \<noteq> audit_genesis"
  shows "verifyAuditChain C (xs @ ys) pub \<noteq> Some None \<and> verifyAuditChain C (xs @ ds) pub = Some None"
  using assms(1) audit_chain.deletion_breaks [OF _ assms(4) _ assms(2,3), of audit_genesis] assms(5)
  by (auto simp: verifyAuditChain_iff auditEntryHash_pre audit_chain.chained_append)

text \<open>The log a gateway keeps by awaiting each append verifies from genesis exactly until the first eviction: with room for n entries, after any sequence of events the entries pass verifyAuditChain if and only if there were at most n events.\<close>

theorem audit_verifies_until_eviction:
  assumes "ed_pair C priv pub" "0 < n" "\<forall>e. auditEntryHash C e \<noteq> audit_genesis"
  shows "verifyAuditChain C (au_entries (audit_run C priv (new_audit_log n) evs)) pub = Some None \<longleftrightarrow> length evs \<le> n"
proof -
  obtain es where h: "audit_history C pub (audit_run C priv (new_audit_log n) evs) es" "length es = length evs"
      "au_max (audit_run C priv (new_audit_log n) evs) = n"
    using audit_run_history [OF audit_history_new assms(1), of n evs] assms(2) by (auto simp: new_audit_log_def)
  note a = h(1) [unfolded audit_history_def h(3)]
  show ?thesis
  proof (cases "length evs \<le> n")
    case True
    with a h(2) show ?thesis by (simp add: verifyAuditChain_iff)
  next
    case False
    let ?k = "length es - n"
    have k: "0 < ?k" "?k < length es" using False h(2) assms(2) by auto
    obtain xs x where x: "take ?k es = xs @ [x]" using k by (cases "take ?k es" rule: rev_cases) auto
    obtain y ys where y: "drop ?k es = y # ys" using k by (cases "drop ?k es") auto
    have es: "es = (xs @ [x]) @ y # ys" using append_take_drop_id [of ?k es] x y by metis
    then have "audit_chain.chained C audit_genesis (y # ys) \<Longrightarrow> False"
      using a assms(3) [rule_format, of x] by (auto simp: es audit_chain.chained_append audit_chain.head_append auditEntryHash_pre)
    moreover have "au_entries (audit_run C priv (new_audit_log n) evs) = y # ys"
      using a y by simp
    ultimately show ?thesis using False by (auto simp: verifyAuditChain_iff)
  qed
qed

text \<open>However appends overlap, the log stays within its bound and every entry in it carries a valid signature of the log's key.\<close>

theorem audit_entries_authentic:
  assumes "(audit_step C priv)\<^sup>*\<^sup>* (new_audit_log n, []) (l, ts)" "ed_pair C priv pub" "e \<in> set (au_entries l)"
  shows "audit_verify C e pub = Some True \<and> length (au_entries l) \<le> max 1 (au_max l)"
  using audit_reachable_safe [OF assms(1) _ assms(2)] assms(3) by (auto simp: audit_safe_def new_audit_log_def)

text \<open>Overlapping appends break the chain: from an empty log there is an interleaving of two appends, both finished, after which verifyAuditChain reports entry 1, although nothing was tampered with.\<close>

theorem audit_overlap_breaks_chain:
  assumes "ed_pair C priv pub" "1 < n" "\<forall>e. auditEntryHash C e \<noteq> audit_genesis"
  shows "\<exists>l. (audit_step C priv)\<^sup>*\<^sup>* (new_audit_log n, []) (l, []) \<and>
    verifyAuditChain C (au_entries l) pub = Some (Some (1, PrevHashMismatch))"
proof -
  let ?l = "new_audit_log n"
  define v where "v ty = \<lparr>ev_type = ty, ev_sender = None, ev_path = None, ev_method = None, ev_envelopeId = None,
    ev_failReason = None, ev_upstream = None, ev_responseStatus = None\<rparr>" for ty
  obtain a where a: "audit_sign C priv ?l (v VerifyOk) 0 [] 0 = Some a" "a_prevHash a = au_tip ?l" "audit_verify C a pub = Some True"
    using audit_sign_some [OF assms(1)] by blast
  obtain b where b: "audit_sign C priv ?l (v VerifyFail) 1 [] 1 = Some b" "a_prevHash b = au_tip ?l" "audit_verify C b pub = Some True"
    using audit_sign_some [OF assms(1)] by blast
  let ?l1 = "audit_push ?l a" let ?l2 = "audit_push (audit_push ?l a) b"
  have "(audit_step C priv)\<^sup>*\<^sup>* (?l, []) (?l, [AwaitSignature a])"
    using audit_start [OF a(1), of "[]"] by (simp add: r_into_rtranclp)
  moreover have "audit_step C priv (?l, [AwaitSignature a]) (?l, [AwaitSignature a, AwaitSignature b])"
    using audit_start [OF b(1), of "[AwaitSignature a]"] by simp
  moreover have "audit_step C priv (?l, [AwaitSignature a, AwaitSignature b]) (?l1, [AwaitHash a, AwaitSignature b])"
    using audit_pushed [of C priv ?l "[]" a "[AwaitSignature b]"] by simp
  moreover have "audit_step C priv (?l1, [AwaitHash a, AwaitSignature b]) (?l2, [AwaitHash a, AwaitHash b])"
    using audit_pushed [of C priv ?l1 "[AwaitHash a]" b "[]"] by simp
  moreover have "audit_step C priv (?l2, [AwaitHash a, AwaitHash b]) (audit_finish C ?l2 a, [AwaitHash b])"
    using audit_finished [of C priv ?l2 "[]" a "[AwaitHash b]"] by simp
  moreover have "audit_step C priv (audit_finish C ?l2 a, [AwaitHash b]) (audit_finish C (audit_finish C ?l2 a) b, [])"
    using audit_finished [of C priv "audit_finish C ?l2 a" "[]" b "[]"] by simp
  ultimately have "(audit_step C priv)\<^sup>*\<^sup>* (?l, []) (audit_finish C (audit_finish C ?l2 a) b, [])"
    by (meson rtranclp.rtrancl_into_rtrancl)
  moreover have "au_entries (audit_finish C (audit_finish C ?l2 a) b) = [a, b]"
    using assms(2) by (simp add: audit_finish_def audit_push_def new_audit_log_def)
  moreover have "verifyAuditChain C [a, b] pub = Some (Some (1, PrevHashMismatch))"
    using a(2,3) b(2) assms(3) [rule_format, of a] by (simp add: verifyAuditChain_def new_audit_log_def audit_verify_def)
  ultimately show ?thesis by metis
qed

text \<open>A stand-in whose digests are injective and never all zeros.\<close>

definition demo_crypto_inj :: crypto where
  "demo_crypto_inj = demo_crypto\<lparr>sha256_raw := (\<lambda>m. 1 # m)\<rparr>"

lemma demo_inj_pair: "ed_pair demo_crypto_inj a b"
  by (simp add: ed_pair_def demo_crypto_inj_def demo_crypto_def)

lemma demo_inj_hash: "toHex (sha256_raw demo_crypto_inj m) \<noteq> audit_genesis"
proof
  assume "toHex (sha256_raw demo_crypto_inj m) = audit_genesis"
  then have "toHex (1 # m) ! 1 = audit_genesis ! 1" by (simp add: demo_crypto_inj_def)
  moreover have "toHex (1 # m) ! 1 = hex_digit 1" by (simp add: toHex_def)
  moreover have "audit_genesis ! 1 = 48" by (simp add: audit_genesis_def)
  ultimately show False by (simp add: hex_digit_def)
qed

lemma demo_inj_on: "inj_on (\<lambda>b. toHex (sha256_raw demo_crypto_inj b)) S"
  by (rule inj_onI) (use toHex_inj in \<open>auto simp: demo_crypto_inj_def\<close>)

definition demo_event :: "audit_type \<Rightarrow> audit_event" where
  "demo_event ty = \<lparr>ev_type = ty, ev_sender = None, ev_path = None, ev_method = None, ev_envelopeId = None,
    ev_failReason = None, ev_upstream = None, ev_responseStatus = None\<rparr>"

definition demo_events :: "nat \<Rightarrow> (audit_event \<times> int \<times> bytes \<times> int) list" where
  "demo_events n = replicate n (demo_event VerifyOk, 1, [], 1)"

theorem audit_verifies_until_eviction_witness:
  "verifyAuditChain demo_crypto_inj (au_entries (audit_run demo_crypto_inj (js ''k'') (new_audit_log 2) (demo_events 2))) (js ''k'') = Some None \<and>
   verifyAuditChain demo_crypto_inj (au_entries (audit_run demo_crypto_inj (js ''k'') (new_audit_log 2) (demo_events 3))) (js ''k'') \<noteq> Some None"
proof -
  have "\<forall>e. auditEntryHash demo_crypto_inj e \<noteq> audit_genesis" by (simp add: auditEntryHash_pre demo_inj_hash)
  note t = audit_verifies_until_eviction [OF demo_inj_pair _ this, of 2]
  show ?thesis using t [where evs = "demo_events 2"] t [where evs = "demo_events 3"] by (simp add: demo_events_def del: audit_run.simps)
qed

theorem audit_overlap_breaks_chain_witness:
  "\<exists>l :: audit_log. verifyAuditChain demo_crypto_inj (au_entries l) (js ''k'') = Some (Some (1, PrevHashMismatch))"
proof -
  have "\<forall>e. auditEntryHash demo_crypto_inj e \<noteq> audit_genesis" by (simp add: auditEntryHash_pre demo_inj_hash)
  from audit_overlap_breaks_chain [OF demo_inj_pair _ this, of 2 "js ''k''" "js ''k''"] show ?thesis by (simp del: One_nat_def) blast
qed

theorem audit_entries_authentic_witness:
  "\<exists>e. audit_verify demo_crypto_inj e (js ''k'') = Some True"
proof -
  obtain e where e: "audit_sign demo_crypto_inj (js ''k'') (new_audit_log 2) (demo_event VerifyOk) 1 [] 1 = Some e"
    using audit_sign_some [OF demo_inj_pair] by blast
  have "audit_step demo_crypto_inj (js ''k'') (new_audit_log 2, []) (new_audit_log 2, [AwaitSignature e])"
    using audit_start [OF e, of "[]"] by simp
  moreover have "audit_step demo_crypto_inj (js ''k'') (new_audit_log 2, [AwaitSignature e]) (audit_push (new_audit_log 2) e, [AwaitHash e])"
    using audit_pushed [of _ _ "new_audit_log 2" "[]" e "[]"] by simp
  ultimately have "(audit_step demo_crypto_inj (js ''k''))\<^sup>*\<^sup>* (new_audit_log 2, []) (audit_push (new_audit_log 2) e, [AwaitHash e])"
    by (meson rtranclp.intros)
  from audit_entries_authentic [OF this demo_inj_pair, of e "js ''k''"] show ?thesis
    by (auto simp: audit_push_def new_audit_log_def)
qed

theorem audit_deletion_detected_witness:
  "\<exists>a b c. verifyAuditChain demo_crypto_inj [a, b, c] (js ''k'') = Some None \<and>
    verifyAuditChain demo_crypto_inj [a, c] (js ''k'') \<noteq> Some None \<and> verifyAuditChain demo_crypto_inj [a, b] (js ''k'') = Some None"
proof -
  obtain es where es: "audit_history demo_crypto_inj (js ''k'') (audit_run demo_crypto_inj (js ''k'') (new_audit_log 3) (demo_events 3)) es" "length es = 3"
    using audit_run_history [OF audit_history_new [where n = 3] demo_inj_pair, where evs = "demo_events 3"] by (auto simp: new_audit_log_def demo_events_def)
  then obtain a b c where abc: "es = [a] @ [b] @ [c]" by (auto simp: numeral_3_eq_3 length_Suc_conv)
  have v: "verifyAuditChain demo_crypto_inj ([a] @ [b] @ [c]) (js ''k'') = Some None"
    using es(1) unfolding verifyAuditChain_iff audit_history_def abc by blast
  from audit_deletion_detected [OF v _ _ demo_inj_on] v show ?thesis by (auto simp: auditEntryHash_pre demo_inj_hash)
qed

end
