(* ===== verification/Stream.thy ===== *)
theory Stream
  imports Digest
begin

text \<open>
  \<open>src/stream.ts\<close>: signed streams. The writer numbers the chunks and signs the SHA-256
  of their joined texts; the reader checks the numbers and, at the end, the signature.
  HKDF is the parameter \<open>D\<close> (key, salt, info; \<open>None\<close> when it throws); the caches of imported keys
  are those of \<open>src/protocol.ts\<close> and are left out here.
\<close>

type_synonym hkdf = "bytes \<Rightarrow> bytes \<Rightarrow> bytes \<Rightarrow> bytes option"

record stream_chunk =
  sc_i :: jnum
  sc_d :: jstr
  sc_h :: jstr
  sc_f :: bool
  sc_sig :: "jstr option"
  sc_kid :: "jstr option"

section \<open>The content message\<close>

definition content_part :: "int \<times> jstr \<Rightarrow> jstr" where
  "content_part c = show_int (fst c) @ js '':'' @ snd c"

definition buildContentMessage :: "(int \<times> jstr) list \<Rightarrow> bytes" where
  "buildContentMessage chunks = utf8Encode (join_with [10] (map content_part chunks))"

section \<open>Writer\<close>

record stream_writer =
  sw_privateKey :: jstr
  sw_nonce :: jstr
  sw_keyId :: jstr
  sw_seq :: int
  sw_accum :: "(int \<times> jstr) list"

definition getDerivedHmacKey :: "hkdf \<Rightarrow> jstr \<Rightarrow> jstr \<Rightarrow> bytes option" where
  "getDerivedHmacKey D priv salt = D (fromBase64Url priv) (utf8Encode salt) (utf8Encode (js ''7h3-stream/1''))"

definition computeChunkHmac :: "crypto \<Rightarrow> hkdf \<Rightarrow> stream_writer \<Rightarrow> int \<Rightarrow> jstr \<Rightarrow> jstr option" where
  "computeChunkHmac C D w index d =
    (case getDerivedHmacKey D (sw_privateKey w) (sw_nonce w) of
       None \<Rightarrow> None
     | Some key \<Rightarrow> if hmac_key_ok C key then Some (hmac_tag C (sw_nonce w @ js '':'' @ show_int index @ js '':'' @ d) key) else None)"

text \<open>The number is taken before the first await, so it is lost when the HMAC throws.\<close>

definition writeChunk :: "crypto \<Rightarrow> hkdf \<Rightarrow> stream_writer \<Rightarrow> jstr \<Rightarrow> stream_writer \<times> stream_chunk option" where
  "writeChunk C D w d =
    (let index = sw_seq w; w1 = w\<lparr>sw_seq := sw_seq w + 1\<rparr> in
     case computeChunkHmac C D w index d of
       None \<Rightarrow> (w1, None)
     | Some h \<Rightarrow> (w1\<lparr>sw_accum := sw_accum w1 @ [(index, d)]\<rparr>,
                  Some \<lparr>sc_i = Fin index, sc_d = d, sc_h = h, sc_f = False, sc_sig = None, sc_kid = None\<rparr>))"

definition writer_finalize :: "crypto \<Rightarrow> hkdf \<Rightarrow> stream_writer \<Rightarrow> stream_chunk option" where
  "writer_finalize C D w =
    (case import_ed_priv C (sw_privateKey w) of
       None \<Rightarrow> None
     | Some key \<Rightarrow>
         let digest = sha256_raw C (buildContentMessage (sw_accum w)); s = toBase64Url (ed_sign_raw C key digest) in
         (case computeChunkHmac C D w (sw_seq w) (toBase64Url digest) of
            None \<Rightarrow> None
          | Some h \<Rightarrow> Some \<lparr>sc_i = Fin (sw_seq w), sc_d = [], sc_h = h, sc_f = True, sc_sig = Some s, sc_kid = Some (sw_keyId w)\<rparr>))"

definition new_writer :: "jstr \<Rightarrow> jstr \<Rightarrow> jstr \<Rightarrow> stream_writer" where
  "new_writer priv nn kid = \<lparr>sw_privateKey = priv, sw_nonce = nn, sw_keyId = kid, sw_seq = 0, sw_accum = []\<rparr>"

fun write_all :: "crypto \<Rightarrow> hkdf \<Rightarrow> stream_writer \<Rightarrow> jstr list \<Rightarrow> (stream_writer \<times> stream_chunk list) option" where
  "write_all C D w [] = Some (w, [])"
| "write_all C D w (d # ds) =
    (case writeChunk C D w d of
       (w1, None) \<Rightarrow> None
     | (w1, Some c) \<Rightarrow> map_option (map_prod id ((#) c)) (write_all C D w1 ds))"

definition signStream :: "crypto \<Rightarrow> hkdf \<Rightarrow> jstr list \<Rightarrow> stream_writer \<Rightarrow> stream_chunk list option" where
  "signStream C D ds w =
    (case write_all C D w ds of
       None \<Rightarrow> None
     | Some (w1, cs) \<Rightarrow> map_option (\<lambda>c. cs @ [c]) (writer_finalize C D w1))"

section \<open>Reader\<close>

record stream_reader =
  sr_publicKey :: jstr
  sr_maxChunks :: nat
  sr_expected :: int
  sr_accum :: "(int \<times> jstr) list"
  sr_totalBytes :: nat
  sr_done :: bool

datatype stream_failure =
  AlreadyFinalized | ExceededMaxChunks nat | SequenceError int jnum | MissingSignature | InvalidPublicKey | StreamSignatureFailed
  | EmptyChunkArray | MissingFinalFrame

definition new_reader :: "jstr \<Rightarrow> nat \<Rightarrow> stream_reader" where
  "new_reader pub mx = \<lparr>sr_publicKey = pub, sr_maxChunks = mx, sr_expected = 0, sr_accum = [], sr_totalBytes = 0, sr_done = False\<rparr>"

definition receiveChunk :: "stream_reader \<Rightarrow> stream_chunk \<Rightarrow> stream_reader \<times> stream_failure option" where
  "receiveChunk r c =
    (if sr_done r then (r, Some AlreadyFinalized)
     else if sr_maxChunks r \<le> length (sr_accum r) then (r, Some (ExceededMaxChunks (sr_maxChunks r)))
     else if sc_i c \<noteq> Fin (sr_expected r) then (r, Some (SequenceError (sr_expected r) (sc_i c)))
     else (r\<lparr>sr_expected := sr_expected r + 1, sr_accum := sr_accum r @ [(sr_expected r, sc_d c)],
             sr_totalBytes := sr_totalBytes r + length (utf8Encode (sc_d c))\<rparr>, None))"

text \<open>The result of a finished stream: total bytes and number of chunks.\<close>

definition reader_finalize :: "crypto \<Rightarrow> stream_reader \<Rightarrow> stream_chunk \<Rightarrow> stream_reader \<times> (stream_failure + nat \<times> nat)" where
  "reader_finalize C r c =
    (if sr_done r then (r, Inl AlreadyFinalized)
     else let r1 = r\<lparr>sr_done := True\<rparr> in
       case sc_sig c of
         None \<Rightarrow> (r1, Inl MissingSignature)
       | Some s \<Rightarrow>
           if s = [] then (r1, Inl MissingSignature)
           else (case import_ed_pub C (sr_publicKey r) of
              None \<Rightarrow> (r1, Inl InvalidPublicKey)
            | Some key \<Rightarrow>
                if ed_verify_raw C key (fromBase64Url s) (sha256_raw C (buildContentMessage (sr_accum r)))
                then (r1, Inr (sr_totalBytes r, length (sr_accum r)))
                else (r1, Inl StreamSignatureFailed)))"

fun receive_all :: "stream_reader \<Rightarrow> stream_chunk list \<Rightarrow> stream_reader \<times> (stream_failure \<times> jnum) option" where
  "receive_all r [] = (r, None)"
| "receive_all r (c # cs) =
    (case receiveChunk r c of
       (r1, Some e) \<Rightarrow> (r1, Some (e, sc_i c))
     | (r1, None) \<Rightarrow> receive_all r1 cs)"

text \<open>A failure carries the index of the offending chunk where the source gives one.\<close>

definition verifyStream :: "crypto \<Rightarrow> stream_chunk list \<Rightarrow> jstr \<Rightarrow> nat \<Rightarrow> (stream_failure \<times> jnum option) + nat \<times> nat" where
  "verifyStream C chunks pub mx =
    (if chunks = [] then Inl (EmptyChunkArray, None)
     else case receive_all (new_reader pub mx) (butlast chunks) of
       (r, Some (e, i)) \<Rightarrow> Inl (e, Some i)
     | (r, None) \<Rightarrow>
         if \<not> sc_f (last chunks) then
           (case receiveChunk r (last chunks) of
              (r1, Some e) \<Rightarrow> Inl (e, Some (sc_i (last chunks)))
            | (r1, None) \<Rightarrow> Inl (MissingFinalFrame, None))
         else (case reader_finalize C r (last chunks) of
              (r1, Inl e) \<Rightarrow> Inl (e, None)
            | (r1, Inr res) \<Rightarrow> Inr res))"

section \<open>Wire form\<close>

definition chunk_json :: "stream_chunk \<Rightarrow> json" where
  "chunk_json c = JObj ([(js ''i'', JNum (sc_i c)), (js ''d'', JStr (sc_d c)), (js ''h'', JStr (sc_h c)), (js ''f'', JBool (sc_f c))]
     @ opt_field ''sig'' JStr (sc_sig c) @ opt_field ''kid'' JStr (sc_kid c))"

definition encodeStreamChunk :: "stream_chunk \<Rightarrow> jstr" where
  "encodeStreamChunk c = print_json (chunk_json c)"

text \<open>\<open>None\<close>: it throws, on text that is no JSON, null, missing fields or wrong types.\<close>

definition decodeStreamChunk :: "(jstr \<Rightarrow> json option) \<Rightarrow> jstr \<Rightarrow> stream_chunk option" where
  "decodeStreamChunk parse raw =
    (case parse raw of
       None \<Rightarrow> None
     | Some v \<Rightarrow>
         (case (jmember v ''i'', jmember v ''d'', jmember v ''h'', jmember v ''f'') of
            (Some (JNum i), Some (JStr d), Some (JStr h), Some (JBool f)) \<Rightarrow>
              (case (optional_string (jmember v ''sig''), optional_string (jmember v ''kid'')) of
                 (Some s, Some k) \<Rightarrow> Some \<lparr>sc_i = i, sc_d = d, sc_h = h, sc_f = f, sc_sig = s, sc_kid = k\<rparr>
               | _ \<Rightarrow> None)
          | _ \<Rightarrow> None))"

section \<open>What the content message determines\<close>

lemma well_formed_append: "well_formed p \<Longrightarrow> well_formed (p @ r) = well_formed r"
proof (induction p rule: well_formed.induct)
  case (2 c)
  then show ?case by (cases r) auto
qed (auto split: if_splits)

fun enumerate_from :: "int \<Rightarrow> jstr list \<Rightarrow> (int \<times> jstr) list" where
  "enumerate_from n [] = []"
| "enumerate_from n (d # ds) = (n, d) # enumerate_from (n + 1) ds"

lemma enumerate_length [simp]: "length (enumerate_from n ds) = length ds"
  by (induction ds arbitrary: n) auto

lemma enumerate_snoc: "enumerate_from n (ds @ [d]) = enumerate_from n ds @ [(n + int (length ds), d)]"
  by (induction ds arbitrary: n) auto

lemma enumerate_texts [simp]: "map snd (enumerate_from n ds) = ds"
  by (induction ds arbitrary: n) auto

lemma show_int_plain: "x \<in> set (show_int n) \<Longrightarrow> x = 45 \<or> digit_char x"
  using show_nat_digits by (auto simp: show_int_def split: if_splits)

lemma part_inj: "content_part (n, d) = content_part (m, e) \<Longrightarrow> (n, d) = (m, e)"
proof -
  assume eq: "content_part (n, d) = content_part (m, e)"
  have "58 \<notin> set (show_int k)" for k using show_int_plain [of 58 k] by (auto simp: digit_char_def)
  moreover have "split_on 58 (show_int n @ 58 # d) = split_on 58 (show_int m @ 58 # e)"
    using eq by (simp add: content_part_def ascii_eval)
  ultimately have "show_int n = show_int m" by (simp add: split_on_append)
  then show ?thesis using eq show_int_inj by (auto simp: content_part_def)
qed

lemma parts_inj: "map content_part as = map content_part bs \<Longrightarrow> as = bs"
proof (induction as arbitrary: bs)
  case (Cons a as)
  then obtain b bs' where b: "bs = b # bs'" "content_part a = content_part b" "map content_part as = map content_part bs'" by auto
  with Cons.IH part_inj [of "fst a" "snd a" "fst b" "snd b"] show ?case by simp
qed simp

lemma part_no_newline: "10 \<notin> set d \<Longrightarrow> 10 \<notin> set (content_part (n, d))"
  using show_int_plain [of 10 n] by (auto simp: content_part_def digit_char_def ascii_eval)

lemma well_formed_show: "well_formed (show_int n)"
proof -
  have "\<forall>x \<in> set s. \<not> is_high x \<and> \<not> is_low x \<Longrightarrow> well_formed s" for s
    by (induction s rule: well_formed.induct) auto
  moreover have "\<forall>x \<in> set (show_int n). \<not> is_high x \<and> \<not> is_low x"
    using show_int_plain by (fastforce simp: digit_char_def is_high_def is_low_def)
  ultimately show ?thesis by blast
qed

lemma well_formed_message:
  "\<forall>c \<in> set cs. well_formed (snd c) \<Longrightarrow> well_formed (join_with [10] (map content_part cs))"
proof (induction cs rule: induct_list012)
  case (2 c)
  then show ?case by (simp add: content_part_def well_formed_append well_formed_show ascii_eval well_formed_punct del: well_formed.simps)
next
  case (3 c d cs)
  have "well_formed (content_part c @ 10 # r) = well_formed (10 # r)" for r
    using 3 by (simp add: content_part_def well_formed_append well_formed_show ascii_eval well_formed_punct del: well_formed.simps)
  moreover have "well_formed (10 # r) = well_formed r" for r
    using well_formed_append [of "[10]" r] by (simp add: is_high_def is_low_def)
  ultimately show ?case using 3 by (simp del: well_formed.simps)
qed simp

lemma content_message_inj:
  assumes "buildContentMessage as = buildContentMessage bs"
    and "\<forall>c \<in> set as \<union> set bs. well_formed (snd c) \<and> 10 \<notin> set (snd c)"
  shows "as = bs"
proof -
  have j: "join_with [10] (map content_part as) = join_with [10] (map content_part bs)"
    using utf8Encode_inj [OF well_formed_message well_formed_message] assms by (simp add: buildContentMessage_def)
  have ne: "join_with [10] (map content_part cs) = [] \<longleftrightarrow> cs = []" for cs
    by (cases cs rule: list.exhaust; cases "tl cs") (auto simp: content_part_def ascii_eval)
  show ?thesis
  proof (cases "as = []")
    case True
    then show ?thesis using j ne by metis
  next
    case False
    then have "bs \<noteq> []" using j ne by metis
    have "\<forall>c \<in> set as \<union> set bs. 10 \<notin> set (content_part c)"
      using assms(2) part_no_newline by (metis prod.collapse)
    then have "split_on 10 (join_with [10] (map content_part as)) = map content_part as"
      "split_on 10 (join_with [10] (map content_part bs)) = map content_part bs"
      using False \<open>bs \<noteq> []\<close> by (simp_all add: split_join)
    with j have "map content_part as = map content_part bs" by metis
    then show ?thesis by (rule parts_inj)
  qed
qed

section \<open>Writing and reading\<close>

definition hkdf_ok :: "crypto \<Rightarrow> hkdf \<Rightarrow> jstr \<Rightarrow> jstr \<Rightarrow> bool" where
  "hkdf_ok C D priv salt \<longleftrightarrow> (\<exists>key. getDerivedHmacKey D priv salt = Some key \<and> hmac_key_ok C key)"

lemma chunk_hmac_some: "hkdf_ok C D (sw_privateKey w) (sw_nonce w) \<Longrightarrow> \<exists>h. computeChunkHmac C D w i d = Some h"
  by (auto simp: hkdf_ok_def computeChunkHmac_def)

definition chunk_key :: "stream_chunk \<Rightarrow> jnum \<times> jstr" where
  "chunk_key c = (sc_i c, sc_d c)"

definition fin_keys :: "(int \<times> jstr) list \<Rightarrow> (jnum \<times> jstr) list" where
  "fin_keys = map (map_prod Fin id)"

lemma write_all_ok:
  assumes "hkdf_ok C D (sw_privateKey w) (sw_nonce w)"
  shows "\<exists>cs. write_all C D w ds =
      Some (w\<lparr>sw_seq := sw_seq w + int (length ds), sw_accum := sw_accum w @ enumerate_from (sw_seq w) ds\<rparr>, cs) \<and>
    map chunk_key cs = fin_keys (enumerate_from (sw_seq w) ds)"
  using assms
proof (induction ds arbitrary: w)
  case Nil
  then show ?case by (simp add: fin_keys_def)
next
  case (Cons d ds)
  obtain h where h: "computeChunkHmac C D w (sw_seq w) d = Some h" using chunk_hmac_some [OF Cons.prems] by blast
  let ?w = "w\<lparr>sw_seq := sw_seq w + 1, sw_accum := sw_accum w @ [(sw_seq w, d)]\<rparr>"
  obtain cs where "write_all C D ?w ds =
      Some (?w\<lparr>sw_seq := sw_seq ?w + int (length ds), sw_accum := sw_accum ?w @ enumerate_from (sw_seq ?w) ds\<rparr>, cs)"
    "map chunk_key cs = fin_keys (enumerate_from (sw_seq ?w) ds)" using Cons.IH [of ?w] Cons.prems by auto
  then show ?case
    by (simp add: writeChunk_def Let_def h chunk_key_def [abs_def] fin_keys_def ac_simps)
qed

lemma receive_all_ok:
  assumes "\<not> sr_done r" "length (sr_accum r) + length cs \<le> sr_maxChunks r" "map chunk_key cs = fin_keys (enumerate_from (sr_expected r) ds)"
  shows "receive_all r cs = (r\<lparr>sr_expected := sr_expected r + int (length cs), sr_accum := sr_accum r @ enumerate_from (sr_expected r) ds,
      sr_totalBytes := sr_totalBytes r + (\<Sum>d \<leftarrow> ds. length (utf8Encode d))\<rparr>, None)"
  using assms
proof (induction cs arbitrary: r ds)
  case Nil
  then show ?case by (cases ds) (simp_all add: fin_keys_def)
next
  case (Cons c cs)
  obtain d ds' where ds: "ds = d # ds'" using Cons.prems(3) by (cases ds) (auto simp: fin_keys_def)
  have c: "sc_i c = Fin (sr_expected r)" "sc_d c = d" "map chunk_key cs = fin_keys (enumerate_from (sr_expected r + 1) ds')"
    using Cons.prems(3) by (simp_all add: ds fin_keys_def chunk_key_def [abs_def])
  let ?r = "r\<lparr>sr_expected := sr_expected r + 1, sr_accum := sr_accum r @ [(sr_expected r, d)],
             sr_totalBytes := sr_totalBytes r + length (utf8Encode d)\<rparr>"
  have "receiveChunk r c = (?r, None)" using Cons.prems(1,2) c by (simp add: receiveChunk_def)
  with Cons.IH [of ?r ds'] Cons.prems(1,2) c(3) show ?case by (simp add: ds ac_simps)
qed

lemma receive_all_inv:
  assumes "receive_all r cs = (r', None)"
  shows "sr_accum r' = sr_accum r @ enumerate_from (sr_expected r) (map sc_d cs) \<and> sr_publicKey r' = sr_publicKey r"
  using assms
proof (induction cs arbitrary: r)
  case (Cons c cs)
  obtain r1 where r1: "receiveChunk r c = (r1, None)" "receive_all r1 cs = (r', None)"
    using Cons.prems by (auto split: prod.splits option.splits)
  from Cons.IH [OF r1(2)] r1(1) show ?case by (auto simp: receiveChunk_def split: if_splits)
qed simp

lemma signStream_ok:
  assumes "hkdf_ok C D priv nn" "ed_pair C priv pub"
  shows "\<exists>cs c. signStream C D ds (new_writer priv nn kid) = Some (cs @ [c]) \<and> map chunk_key cs = fin_keys (enumerate_from 0 ds) \<and>
    sc_f c \<and> sc_sig c = Some (toBase64Url (ed_sign_raw C (fromBase64Url priv) (sha256_raw C (buildContentMessage (enumerate_from 0 ds)))))"
proof -
  let ?w = "new_writer priv nn kid"
  let ?w1 = "?w\<lparr>sw_seq := sw_seq ?w + int (length ds), sw_accum := sw_accum ?w @ enumerate_from (sw_seq ?w) ds\<rparr>"
  have k: "hkdf_ok C D (sw_privateKey ?w) (sw_nonce ?w)" using assms(1) by (simp add: new_writer_def)
  obtain cs where cs: "write_all C D ?w ds = Some (?w1, cs)" "map chunk_key cs = fin_keys (enumerate_from (sw_seq ?w) ds)"
    using write_all_ok [OF k] by blast
  have "hkdf_ok C D (sw_privateKey ?w1) (sw_nonce ?w1)" using k by simp
  then obtain h where "computeChunkHmac C D ?w1 (sw_seq ?w1) (toBase64Url (sha256_raw C (buildContentMessage (sw_accum ?w1)))) = Some h"
    using chunk_hmac_some by blast
  moreover have "import_ed_priv C priv = Some (fromBase64Url priv)" using assms(2) by (simp add: import_ed_priv_def ed_pair_def)
  ultimately show ?thesis
    using cs by (simp add: signStream_def writer_finalize_def Let_def) (simp add: new_writer_def)
qed

lemma verifyStream_accepts:
  assumes "verifyStream C chunks pub mx = Inr res"
  shows "\<exists>key s. import_ed_pub C pub = Some key \<and> sc_sig (last chunks) = Some s \<and>
    ed_verify_raw C key (fromBase64Url s) (sha256_raw C (buildContentMessage (enumerate_from 0 (map sc_d (butlast chunks)))))"
proof -
  obtain r where r: "receive_all (new_reader pub mx) (butlast chunks) = (r, None)" "\<exists>r1. reader_finalize C r (last chunks) = (r1, Inr res)"
    using assms by (auto simp: verifyStream_def split: if_splits prod.splits option.splits sum.splits)
  from receive_all_inv [OF r(1)] r(2) show ?thesis
    by (auto simp: reader_finalize_def new_reader_def Let_def split: if_splits option.splits)
qed

lemma toBase64Url_nonempty: "bs \<noteq> [] \<Longrightarrow> toBase64Url bs \<noteq> []"
proof
  assume "bs \<noteq> []" "toBase64Url bs = []"
  then have "fromBase64Url [] = bs" by (metis base64url_roundtrip)
  with \<open>bs \<noteq> []\<close> show False by (simp add: fromBase64Url_eq List.map_filter_simps)
qed

lemma verifyStream_ok:
  assumes "map chunk_key cs = fin_keys (enumerate_from 0 ds)" "length ds \<le> mx" "sc_f c" "sc_sig c = Some s" "s \<noteq> []"
    and "import_ed_pub C pub = Some key"
    and "ed_verify_raw C key (fromBase64Url s) (sha256_raw C (buildContentMessage (enumerate_from 0 ds)))"
  shows "verifyStream C (cs @ [c]) pub mx = Inr (\<Sum>d \<leftarrow> ds. length (utf8Encode d), length ds)"
proof -
  have "length cs = length ds" using arg_cong [OF assms(1), of length] by (simp add: fin_keys_def)
  with receive_all_ok [of "new_reader pub mx" cs ds] assms show ?thesis
    by (simp add: verifyStream_def new_reader_def reader_finalize_def)
qed

section \<open>Properties\<close>

text \<open>What a writer signs the reader accepts: for every list of chunks within the reader's bound, signStream succeeds, and verifyStream of its frames under the matching public key reports the total number of UTF-8 bytes and the number of chunks.\<close>

theorem stream_round_trip:
  assumes "ed_pair C priv pub" "hkdf_ok C D priv nn" "\<forall>m. ed_sign_raw C (fromBase64Url priv) m \<noteq> []" "length ds \<le> mx"
  shows "\<exists>cs. signStream C D ds (new_writer priv nn kid) = Some cs \<and>
    verifyStream C cs pub mx = Inr (\<Sum>d \<leftarrow> ds. length (utf8Encode d), length ds)"
proof -
  obtain cs c where cs: "signStream C D ds (new_writer priv nn kid) = Some (cs @ [c])" "map chunk_key cs = fin_keys (enumerate_from 0 ds)"
    "sc_f c" "sc_sig c = Some (toBase64Url (ed_sign_raw C (fromBase64Url priv) (sha256_raw C (buildContentMessage (enumerate_from 0 ds)))))"
    using signStream_ok [OF assms(2,1)] by blast
  have "import_ed_pub C pub = Some (fromBase64Url pub)" using assms(1) by (simp add: import_ed_pub_def ed_pair_def)
  from verifyStream_ok [OF cs(2) assms(4) cs(3,4) toBase64Url_nonempty this] cs(1) assms(1,3) show ?thesis
    by (auto simp: base64url_roundtrip ed_pair_def)
qed

text \<open>Tampering is caught at the end: frames that verify with the signature of a stream carry exactly its chunks, in order and none missing, when the chunk texts contain no line feed and no lone surrogate, the signature verifies for no other digest and SHA-256 does not collide on the two messages.\<close>

theorem stream_tamper_detected:
  assumes "verifyStream C frames pub mx = Inr res" "sc_sig (last frames) = Some s"
    and "\<forall>m. ed_verify_raw C (fromBase64Url pub) (fromBase64Url s) m \<longrightarrow> m = sha256_raw C (buildContentMessage (enumerate_from 0 ds))"
    and "inj_on (sha256_raw C) {buildContentMessage (enumerate_from 0 ds), buildContentMessage (enumerate_from 0 (map sc_d (butlast frames)))}"
    and "\<forall>d \<in> set ds \<union> set (map sc_d (butlast frames)). well_formed d \<and> 10 \<notin> set d"
  shows "map sc_d (butlast frames) = ds"
proof -
  let ?fs = "map sc_d (butlast frames)"
  from verifyStream_accepts [OF assms(1)] assms(2,3)
  have "sha256_raw C (buildContentMessage (enumerate_from 0 ?fs)) = sha256_raw C (buildContentMessage (enumerate_from 0 ds))"
    by (auto simp: import_ed_pub_def split: if_splits)
  then have "buildContentMessage (enumerate_from 0 ?fs) = buildContentMessage (enumerate_from 0 ds)"
    using assms(4) by (auto dest: inj_onD)
  moreover have "snd c \<in> set ds" if "c \<in> set (enumerate_from 0 ds)" for c ds
    using imageI [OF that, of snd] by (metis enumerate_texts list.set_map)
  ultimately have "enumerate_from 0 ?fs = enumerate_from 0 ds"
    using assms(5) by (intro content_message_inj) blast+
  then show ?thesis by (metis enumerate_texts)
qed

text \<open>Chunk boundaries are not signed: with a line feed in the data, a stream of two chunks and the one-chunk stream that joins them as their content message does carry the same signature, so an intermediary can merge them and the reader accepts.\<close>

theorem stream_boundaries_ambiguous:
  assumes "ed_pair C priv pub" "hkdf_ok C D priv nn" "\<forall>m. ed_sign_raw C (fromBase64Url priv) m \<noteq> []" "0 < mx"
  shows "\<exists>frames c merged. signStream C D [a, b] (new_writer priv nn kid) = Some (frames @ [c]) \<and> length frames = 2 \<and>
    sc_d merged = a @ js ''\<newline>1:'' @ b \<and> sc_f merged = False \<and>
    verifyStream C [merged, c] pub mx = Inr (length (utf8Encode (sc_d merged)), 1)"
proof -
  obtain cs c where cs: "signStream C D [a, b] (new_writer priv nn kid) = Some (cs @ [c])" "map chunk_key cs = fin_keys (enumerate_from 0 [a, b])"
    "sc_f c" "sc_sig c = Some (toBase64Url (ed_sign_raw C (fromBase64Url priv) (sha256_raw C (buildContentMessage (enumerate_from 0 [a, b])))))"
    using signStream_ok [OF assms(2,1)] by blast
  let ?d = "a @ js ''\<newline>1:'' @ b"
  let ?m = "\<lparr>sc_i = Fin 0, sc_d = ?d, sc_h = [], sc_f = False, sc_sig = None, sc_kid = None\<rparr>"
  have msg: "buildContentMessage (enumerate_from 0 [a, b]) = buildContentMessage (enumerate_from 0 [?d])"
    by (simp add: buildContentMessage_def content_part_def ascii_eval show_int_def show_nat.simps)
  have "import_ed_pub C pub = Some (fromBase64Url pub)" using assms(1) by (simp add: import_ed_pub_def ed_pair_def)
  from verifyStream_ok [OF _ _ cs(3,4) toBase64Url_nonempty this, of "[?m]" "[?d]" mx]
  have "verifyStream C [?m, c] pub mx = Inr (length (utf8Encode ?d), 1)"
    using assms(1,3,4) msg by (simp add: chunk_key_def [abs_def] fin_keys_def base64url_roundtrip ed_pair_def)
  moreover have "length cs = 2" using arg_cong [OF cs(2), of length] by (simp add: fin_keys_def)
  ultimately show ?thesis using cs(1) by (intro exI [of _ cs] exI [of _ c] exI [of _ ?m]) simp
qed

section \<open>The properties at work\<close>

definition demo_signer :: crypto where
  "demo_signer = demo_crypto\<lparr>ed_sign_raw := (\<lambda>k m. 1 # m), ed_verify_raw := (\<lambda>k s m. s = 1 # m)\<rparr>"

definition demo_hkdf :: hkdf where
  "demo_hkdf = (\<lambda>k s i. Some [1])"

lemma demo_signer_ok: "ed_pair demo_signer a b" "hkdf_ok demo_signer demo_hkdf a b" "ed_sign_raw demo_signer k m \<noteq> []"
  by (simp_all add: ed_pair_def hkdf_ok_def getDerivedHmacKey_def demo_signer_def demo_hkdf_def demo_crypto_def)

theorem stream_round_trip_witness:
  "\<exists>cs. signStream demo_signer demo_hkdf [js ''ab'', js ''c''] (new_writer (js ''k'') (js ''n'') (js ''id'')) = Some cs \<and>
    verifyStream demo_signer cs (js ''k'') 10 = Inr (length (utf8Encode (js ''ab'')) + length (utf8Encode (js ''c'')), 2)"
  using stream_round_trip [OF demo_signer_ok(1,2), where ds = "[js ''ab'', js ''c'']" and mx = 10 and pub = "js ''k''"
    and priv = "js ''k''" and nn = "js ''n''" and kid = "js ''id''"] demo_signer_ok(3) by (simp add: numeral_2_eq_2)

theorem stream_tamper_detected_witness:
  "\<exists>frames :: stream_chunk list. verifyStream demo_signer frames (js ''k'') 10 = Inr (1, 1) \<and> map sc_d (butlast frames) = [js ''a'']"
proof -
  obtain cs :: "stream_chunk list" and c :: stream_chunk where cs: "map chunk_key cs = fin_keys (enumerate_from 0 [js ''a''])" "sc_f c"
    "sc_sig c = Some (toBase64Url (ed_sign_raw demo_signer (fromBase64Url (js ''k'')) (sha256_raw demo_signer (buildContentMessage (enumerate_from 0 [js ''a''])))))"
    using signStream_ok [OF demo_signer_ok(2,1), where priv = "js ''k''" and ds = "[js ''a'']" and nn = "[]" and kid = "[]"] by blast
  have "import_ed_pub demo_signer (js ''k'') = Some (fromBase64Url (js ''k''))"
    using demo_signer_ok(1) by (simp add: import_ed_pub_def ed_pair_def)
  from verifyStream_ok [OF cs(1) _ cs(2,3) toBase64Url_nonempty this, of 10]
  have v: "verifyStream demo_signer (cs @ [c]) (js ''k'') 10 = Inr (length (utf8Encode (js ''a'')), 1)"
    by (simp add: demo_signer_def base64url_roundtrip)
  have d: "map sc_d cs = [js ''a'']"
    using arg_cong [OF cs(1), of "map snd"] by (simp add: fin_keys_def chunk_key_def [abs_def] o_def)
  have "map sc_d (butlast (cs @ [c])) = [js ''a'']"
    by (rule stream_tamper_detected [OF v])
      (use cs(3) d in \<open>auto simp: demo_signer_def base64url_roundtrip ascii_eval is_high_def is_low_def\<close>)
  moreover have "length (utf8Encode (js ''a'')) = 1" by (simp add: utf8Encode_def ascii_eval is_high_def is_low_def utf8_cp_def)
  ultimately show ?thesis using v by auto
qed

theorem stream_boundaries_ambiguous_witness:
  "\<exists>c merged. sc_d merged = js ''a\<newline>1:b'' \<and> verifyStream demo_signer [merged, c] (js ''k'') 10 = Inr (length (utf8Encode (js ''a\<newline>1:b'')), 1)"
proof -
  obtain c merged where m: "sc_d merged = js ''a'' @ js ''\<newline>1:'' @ js ''b''"
    "verifyStream demo_signer [merged, c] (js ''k'') 10 = Inr (length (utf8Encode (sc_d merged)), 1)"
    using stream_boundaries_ambiguous [OF demo_signer_ok(1,2), where mx = 10 and pub = "js ''k''" and a = "js ''a''" and b = "js ''b''"
      and priv = "[]" and nn = "[]" and kid = "[]"] demo_signer_ok(3) by auto
  then have d: "sc_d merged = js ''a\<newline>1:b''" by (simp add: ascii_eval)
  show ?thesis using m(2) d by (intro exI [of _ c] exI [of _ merged]) simp
qed

end
