(* ===== verification/GatewayPath.thy ===== *)
theory GatewayPath
  imports RoutePolicy Encoding
begin

text \<open>
  \<open>normalizeGatewayPath\<close> of \<open>src/gateway.ts\<close>: the path the gateway matches its policies
  against and forwards. Percent-encoding is decoded in at most five passes
  (\<open>decodeURIComponent\<close> is the language's), control characters and leftover escapes are
  refused, and dot segments are resolved; \<open>None\<close> is the source's \<open>null\<close>.
\<close>

section \<open>decodeURIComponent\<close>

definition hex_value :: "code_unit \<Rightarrow> nat option" where
  "hex_value c = (let n = unat c in
     if 48 \<le> n \<and> n \<le> 57 then Some (n - 48)
     else if 65 \<le> n \<and> n \<le> 70 then Some (n - 55)
     else if 97 \<le> n \<and> n \<le> 102 then Some (n - 87)
     else None)"

text \<open>One \<open>%XX\<close> at the front of a string.\<close>

fun take_octet :: "jstr \<Rightarrow> (byte \<times> jstr) option" where
  "take_octet (p # a # b # r) =
     (if p = 37 then
        (case (hex_value a, hex_value b) of
           (Some x, Some y) \<Rightarrow> Some (of_nat (16 * x + y), r)
         | _ \<Rightarrow> None)
      else None)"
| "take_octet _ = None"

fun take_octets :: "nat \<Rightarrow> jstr \<Rightarrow> (bytes \<times> jstr) option" where
  "take_octets 0 s = Some ([], s)"
| "take_octets (Suc n) s =
     (case take_octet s of
        None \<Rightarrow> None
      | Some (b, r) \<Rightarrow> map_option (\<lambda>(bs, r'). (b # bs, r')) (take_octets n r))"

text \<open>How many octets the first one announces, and the code point they spell.\<close>

definition octet_count :: "byte \<Rightarrow> nat" where
  "octet_count b = (let n = unat b in
     if n < 0x80 then 1 else if 0xC0 \<le> n \<and> n < 0xE0 then 2 else if 0xE0 \<le> n \<and> n < 0xF0 then 3
     else if 0xF0 \<le> n \<and> n < 0xF8 then 4 else 0)"

fun octets_value :: "bytes \<Rightarrow> nat" where
  "octets_value [a] = unat a"
| "octets_value [a, b] = (unat a - 0xC0) * 64 + (unat b - 0x80)"
| "octets_value [a, b, c] = (unat a - 0xE0) * 4096 + (unat b - 0x80) * 64 + (unat c - 0x80)"
| "octets_value [a, b, c, d] = (unat a - 0xF0) * 262144 + (unat b - 0x80) * 4096 + (unat c - 0x80) * 64 + (unat d - 0x80)"
| "octets_value _ = 0"

text \<open>The octets must be the UTF-8 encoding of a code point: no overlong form, no surrogate.\<close>

definition take_char :: "jstr \<Rightarrow> (jstr \<times> jstr) option" where
  "take_char s =
    (case take_octet s of
       None \<Rightarrow> None
     | Some (b, _) \<Rightarrow>
         if octet_count b = 0 then None
         else (case take_octets (octet_count b) s of
           None \<Rightarrow> None
         | Some (bs, r) \<Rightarrow> let v = octets_value bs in
             if scalar v \<and> utf8_cp v = bs then Some (utf16_of v, r) else None))"

lemma take_octet_length: "take_octet s = Some (b, r) \<Longrightarrow> length r < length s"
  by (induction s rule: take_octet.induct) (auto split: if_splits option.splits)

lemma take_octets_length: "take_octets n s = Some (bs, r) \<Longrightarrow> length r \<le> length s"
proof (induction n s arbitrary: bs rule: take_octets.induct)
  case (2 n s)
  then show ?case by (fastforce split: option.splits dest: take_octet_length)
qed simp

lemma take_char_length: "take_char s = Some (c, r) \<Longrightarrow> length r < length s"
proof -
  assume "take_char s = Some (c, r)"
  then obtain b r' bs where b: "take_octet s = Some (b, r')" "octet_count b \<noteq> 0" "take_octets (octet_count b) s = Some (bs, r)"
    by (auto simp: take_char_def Let_def split: option.splits if_splits prod.splits)
  then obtain n where "octet_count b = Suc n" by (cases "octet_count b") auto
  with b obtain bs' where "take_octets n r' = Some (bs', r)" by (auto split: option.splits)
  then show "length r < length s" using take_octets_length take_octet_length [OF b(1)] by fastforce
qed

text \<open>\<open>None\<close>: it throws a \<open>URIError\<close>.\<close>

function decodeURIComponent :: "jstr \<Rightarrow> jstr option" where
  "decodeURIComponent [] = Some []"
| "decodeURIComponent (c # s) =
     (if c \<noteq> 37 then map_option ((#) c) (decodeURIComponent s)
      else (case take_char (c # s) of
         None \<Rightarrow> None
       | Some (u, r) \<Rightarrow> map_option ((@) u) (decodeURIComponent r)))"
  by pat_completeness auto
termination
  by (relation "measure length") (auto dest: take_char_length)

section \<open>The normalisation\<close>

text \<open>The loop: at most \<open>n\<close> passes, until nothing changes.\<close>

fun decode_passes :: "nat \<Rightarrow> jstr \<Rightarrow> jstr option" where
  "decode_passes 0 s = Some s"
| "decode_passes (Suc n) s =
     (case decodeURIComponent s of
        None \<Rightarrow> None
      | Some t \<Rightarrow> if t = s then Some s else decode_passes n t)"

text \<open>The regular expression \<open>%[0-9a-fA-F]{2}\<close>, tested anywhere.\<close>

fun has_escape :: "jstr \<Rightarrow> bool" where
  "has_escape [] = False"
| "has_escape (c # s) = (take_octet (c # s) \<noteq> None \<or> has_escape s)"

definition control_char :: "code_unit \<Rightarrow> bool" where
  "control_char c \<longleftrightarrow> unat c \<le> 0x1F"

fun resolve_segments :: "jstr list \<Rightarrow> jstr list \<Rightarrow> jstr list option" where
  "resolve_segments done' [] = Some done'"
| "resolve_segments done' (seg # segs) =
     (if seg = [] \<or> seg = js ''.'' then resolve_segments done' segs
      else if seg = js ''..'' then (if done' = [] then None else resolve_segments (butlast done') segs)
      else resolve_segments (done' @ [seg]) segs)"

definition normalizeGatewayPath :: "jstr \<Rightarrow> jstr option" where
  "normalizeGatewayPath rawPath =
    (if \<not> startsWith rawPath [47] then None
     else case decode_passes 5 rawPath of
       None \<Rightarrow> None
     | Some decoded \<Rightarrow>
         if has_escape decoded then None
         else if \<exists>c \<in> set decoded. control_char c then None
         else map_option (\<lambda>segs. 47 # join_with [47] segs) (resolve_segments [] (split_on 47 decoded)))"

section \<open>Decoding\<close>

lemma decode_plain: "37 \<notin> set s \<Longrightarrow> decodeURIComponent s = Some s"
  by (induction s) auto

lemma decode_passes_plain: "37 \<notin> set s \<Longrightarrow> decode_passes n s = Some s"
  by (cases n) (auto simp: decode_plain)

lemma has_escape_plain: "37 \<notin> set s \<Longrightarrow> \<not> has_escape s"
proof (induction s)
  case (Cons c s)
  have "take_octet (c # s) = None" if "c \<noteq> 37" using that by (cases "c # s" rule: take_octet.cases) auto
  with Cons show ?case by auto
qed simp

text \<open>A text with every character written as an escape, and the same again \<open>n\<close> times.\<close>

definition percent_encode :: "jstr \<Rightarrow> jstr" where
  "percent_encode s = concat (map (\<lambda>c. 37 # toHex [of_nat (unat c)]) s)"

lemma hex_value_hex_digit: "n < 16 \<Longrightarrow> hex_value (hex_digit n) = Some n"
  by (simp add: hex_value_def hex_digit_def unat_of_nat16)

lemma take_octet_encoded: "take_octet (37 # toHex [b] @ r) = Some (b, r)"
proof -
  have "unat b div 16 < 16" using unat8_less [of b] by simp
  then show ?thesis by (simp add: toHex_def hex_value_hex_digit)
qed

lemma decode_octet:
  assumes "unat b < 128"
  shows "decodeURIComponent (37 # toHex [b] @ r) = map_option ((@) (utf16_of (unat b))) (decodeURIComponent r)"
proof -
  have "of_nat (unat b) = b" by (rule word_of_nat_unat')
  then have "take_char (37 # toHex [b] @ r) = Some (utf16_of (unat b), r)"
    using assms by (simp add: take_char_def take_octet_encoded octet_count_def scalar_def utf8_cp_def del: take_octet.simps)
  then show ?thesis by (simp only: decodeURIComponent.simps(2)) simp
qed

lemma decode_encoded_char:
  assumes "unat c < 128"
  shows "decodeURIComponent (37 # toHex [of_nat (unat c)] @ r) = map_option ((#) c) (decodeURIComponent r)"
proof -
  have b: "unat (of_nat (unat c) :: byte) = unat c" by (rule unat_of_nat8) (use assms in simp)
  moreover have "(@) [c] = (#) c" by (rule ext) simp
  ultimately show ?thesis using decode_octet [of "of_nat (unat c)" r] assms
    unfolding b utf16_single by (simp del: decodeURIComponent.simps)
qed

lemma decode_percent_encode: "\<forall>c \<in> set s. unat c < 128 \<Longrightarrow> decodeURIComponent (percent_encode s) = Some s"
proof (induction s)
  case (Cons c s)
  then show ?case using decode_encoded_char [of c "percent_encode s"] by (simp add: percent_encode_def)
qed (simp add: percent_encode_def)

lemma percent_encode_ascii: "\<forall>c \<in> set (percent_encode s). unat c < 128"
proof -
  have "unat c < 128" if "c \<in> set (toHex [b])" for c and b :: byte
  proof -
    have "unat b div 16 < 16" using unat8_less [of b] by simp
    moreover have "unat (hex_digit n) < 128" if "n < 16" for n
      using that by (simp add: hex_digit_def unat_of_nat16 del: of_nat_add)
    ultimately show ?thesis using that by (auto simp: toHex_def)
  qed
  then show ?thesis by (auto simp: percent_encode_def)
qed

lemma decode_slash: "decodeURIComponent (47 # s) = map_option ((#) 47) (decodeURIComponent s)"
  by simp

lemma percent_encode_neq: "s \<noteq> [] \<Longrightarrow> percent_encode s \<noteq> s"
proof
  assume "s \<noteq> []" "percent_encode s = s"
  moreover have "length (percent_encode s) = 3 * length s"
    by (induction s) (auto simp: percent_encode_def toHex_def)
  ultimately show False by simp
qed

lemma decode_passes_encoded:
  assumes "\<forall>c \<in> set s. unat c < 128" "37 \<notin> set s" "k \<le> n"
  shows "decode_passes n (47 # (percent_encode ^^ k) s) = Some (47 # s)"
  using assms(3)
proof (induction k arbitrary: n)
  case 0
  have "37 \<notin> set (47 # s)" using assms(2) by simp
  then show ?case by (simp add: decode_passes_plain del: decodeURIComponent.simps)
next
  case (Suc k)
  then obtain m where n: "n = Suc m" "k \<le> m" by (cases n) auto
  let ?t = "(percent_encode ^^ k) s"
  have "\<forall>c \<in> set ?t. unat c < 128" using assms(1) percent_encode_ascii by (cases k) auto
  then have d: "decodeURIComponent (47 # percent_encode ?t) = Some (47 # ?t)" by (simp add: decode_percent_encode)
  show ?case
  proof (cases "?t = []")
    case True
    then have "(percent_encode ^^ Suc k) s = []" by (simp add: percent_encode_def)
    moreover have "s = []" using Suc.IH [OF n(2)] True decode_passes_plain [of "[47]" m] by simp
    ultimately show ?thesis using decode_passes_plain [of "[47]" n] by simp
  next
    case False
    then have "percent_encode ?t \<noteq> ?t" by (rule percent_encode_neq)
    then show ?thesis using Suc.IH [OF n(2)] d n(1) by (simp del: decodeURIComponent.simps)
  qed
qed

section \<open>What a normalised path looks like\<close>

text \<open>Segments the result may contain, and the paths made of them.\<close>

definition plain_segment :: "jstr \<Rightarrow> bool" where
  "plain_segment seg \<longleftrightarrow> seg \<noteq> [] \<and> seg \<noteq> js ''.'' \<and> seg \<noteq> js ''..''"

definition canonical_path :: "jstr \<Rightarrow> bool" where
  "canonical_path q \<longleftrightarrow> (\<exists>segs. q = 47 # join_with [47] segs \<and> (\<forall>seg \<in> set segs. plain_segment seg \<and> 47 \<notin> set seg))
    \<and> \<not> has_escape q \<and> (\<forall>c \<in> set q. \<not> control_char c)"

lemma resolve_skip [simp]: "resolve_segments a ([] # segs) = resolve_segments a segs"
  by simp

lemma resolve_plain:
  "\<forall>seg \<in> set segs. plain_segment seg \<Longrightarrow> resolve_segments a segs = Some (a @ segs)"
  by (induction segs arbitrary: a) (auto simp: plain_segment_def)

lemma resolve_cases:
  assumes "resolve_segments a (seg # segs) = Some out"
  obtains (skip) "seg = [] \<or> seg = js ''.''" "resolve_segments a segs = Some out"
    | (up) "seg = js ''..''" "a \<noteq> []" "resolve_segments (butlast a) segs = Some out"
    | (down) "plain_segment seg" "resolve_segments (a @ [seg]) segs = Some out"
  using assms by (auto simp: plain_segment_def split: if_splits)

lemma resolve_sound:
  "resolve_segments a segs = Some out \<Longrightarrow> \<forall>seg \<in> set a. plain_segment seg
    \<Longrightarrow> (\<forall>seg \<in> set out. plain_segment seg) \<and> set out \<subseteq> set a \<union> set segs"
proof (induction segs arbitrary: a)
  case (Cons seg segs)
  from Cons.prems(1) show ?case
  proof (cases rule: resolve_cases)
    case skip
    then show ?thesis using Cons.IH [OF skip(2) Cons.prems(2)] by (simp only: list.set) blast
  next
    case up
    have "\<forall>seg \<in> set (butlast a). plain_segment seg" using Cons.prems(2) by (auto dest: in_set_butlastD)
    then show ?thesis using Cons.IH [OF up(3)] by (auto dest: in_set_butlastD)
  next
    case down
    have "\<forall>t \<in> set (a @ [seg]). plain_segment t" using Cons.prems(2) down(1) by simp
    from Cons.IH [OF down(2) this] show ?thesis by (auto simp only: set_append list.set)
  qed
qed simp

text \<open>An escape never spans a slash, so cutting a text at slashes makes no new one.\<close>

lemma take_octet_iff: "take_octet s \<noteq> None \<longleftrightarrow> (\<exists>a b r. s = 37 # a # b # r \<and> hex_value a \<noteq> None \<and> hex_value b \<noteq> None)"
  by (cases s rule: take_octet.cases) (auto split: option.splits)

lemma take_octet_more: "take_octet s = Some (b, r) \<Longrightarrow> take_octet (s @ t) = Some (b, r @ t)"
  by (cases s rule: take_octet.cases) (auto split: if_splits option.splits)

lemma has_escape_iff: "has_escape s \<longleftrightarrow> (\<exists>u v. s = u @ v \<and> take_octet v \<noteq> None)"
proof (induction s)
  case (Cons c s)
  then show ?case using ex_split_Cons [of c s "\<lambda>u v. take_octet v \<noteq> None"] by (simp del: take_octet.simps)
qed simp

lemma has_escape_sub: "has_escape s \<Longrightarrow> has_escape (a @ s @ b)"
proof -
  assume "has_escape s"
  then obtain u v x r where "s = u @ v" "take_octet v = Some (x, r)" unfolding has_escape_iff by fastforce
  then have "a @ s @ b = (a @ u) @ (v @ b)" "take_octet (v @ b) = Some (x, r @ b)" by (simp_all add: take_octet_more)
  then show ?thesis unfolding has_escape_iff by blast
qed

lemma take_octet_slash: "take_octet (seg @ 47 # t) \<noteq> None \<Longrightarrow> take_octet seg \<noteq> None"
proof -
  have "hex_value 47 = None" by (simp add: hex_value_def)
  then show "take_octet (seg @ 47 # t) \<noteq> None \<Longrightarrow> take_octet seg \<noteq> None"
    unfolding take_octet_iff by (auto simp: append_eq_Cons_conv)
qed

lemma has_escape_join:
  "has_escape (join_with [47] segs) \<Longrightarrow> \<exists>seg \<in> set segs. has_escape seg"
proof (induction segs rule: induct_list012)
  case (3 s t ts)
  have "has_escape (s @ 47 # r) \<Longrightarrow> has_escape s \<or> has_escape r" for s r
  proof (induction s)
    case Nil
    have "take_octet (47 # r) = None" using take_octet_iff [of "47 # r"] by (cases "take_octet (47 # r)") auto
    with Nil show ?case by simp
  next
    case (Cons c s)
    then show ?case using take_octet_slash [of "c # s" r] by (auto simp del: take_octet.simps)
  qed
  with 3 show ?case by auto
qed simp_all

lemma in_set_join: "c \<in> set (join_with [47] segs) \<Longrightarrow> c = 47 \<or> (\<exists>seg \<in> set segs. c \<in> set seg)"
  by (induction segs rule: induct_list012) auto

lemma split_segment_sub: "seg \<in> set (split_on c s) \<Longrightarrow> \<exists>a b. s = a @ seg @ b"
proof (induction s arbitrary: seg)
  case (Cons x s)
  obtain y ys where y: "split_on c s = y # ys" by (cases "split_on c s") auto
  have pre: "\<exists>b. s = y @ b" using join_split [of c s] y by (cases ys) (metis append_Nil2 join_with.simps(2), metis join_with.simps(3))
  consider "x = c" "seg = []" | "x \<noteq> c" "seg = x # y" | "seg \<in> set (split_on c s)"
    using Cons.prems y by (auto split: if_splits)
  then show ?case
  proof cases
    case 1
    then show ?thesis by auto
  next
    case 2
    then show ?thesis using pre by (metis append_Cons append_Nil)
  next
    case 3
    then show ?thesis using Cons.IH by (metis append_Cons)
  qed
qed auto

lemma normalize_cases:
  assumes "normalizeGatewayPath p = Some q"
  obtains s segs where "decode_passes 5 p = Some s" "\<not> has_escape s" "\<forall>c \<in> set s. \<not> control_char c"
    "resolve_segments [] (split_on 47 s) = Some segs" "q = 47 # join_with [47] segs"
  using assms by (auto simp: normalizeGatewayPath_def split: if_splits option.splits)

lemma has_escape_slash: "has_escape (47 # s) = has_escape s"
proof -
  have "take_octet (47 # s) = None" using take_octet_iff [of "47 # s"] by (cases "take_octet (47 # s)") auto
  then show ?thesis by (simp del: take_octet.simps)
qed

lemma slash_not_control: "\<not> control_char 47"
  by (simp add: control_char_def)

lemma normalize_canonical: "normalizeGatewayPath p = Some q \<Longrightarrow> canonical_path q"
proof (erule normalize_cases)
  fix s segs
  assume s: "\<not> has_escape s" "\<forall>c \<in> set s. \<not> control_char c" "resolve_segments [] (split_on 47 s) = Some segs"
    and q: "q = 47 # join_with [47] segs"
  have seg: "plain_segment seg \<and> 47 \<notin> set seg \<and> seg \<in> set (split_on 47 s)" if "seg \<in> set segs" for seg
  proof -
    have "plain_segment seg" "seg \<in> set (split_on 47 s)" using resolve_sound [OF s(3)] that by auto
    then show ?thesis using split_on_no_sep [of seg 47 s] by simp
  qed
  have sub: "\<exists>a b. s = a @ seg @ b" if "seg \<in> set segs" for seg
    by (rule split_segment_sub [of seg 47 s]) (use seg [OF that] in simp)
  have "\<not> has_escape seg" if "seg \<in> set segs" for seg
    using sub [OF that] s(1) has_escape_sub [of seg] by metis
  then have "\<not> has_escape q" using has_escape_join [of segs] unfolding q has_escape_slash by blast
  moreover have "\<not> control_char c" if "c \<in> set q" for c
  proof -
    note c = that
    consider "c = 47" | seg where "seg \<in> set segs" "c \<in> set seg" using c in_set_join [of c segs] q by auto
    then show ?thesis
    proof cases
      case 2
      then have "c \<in> set s" using sub [OF 2(1)] by auto
      then show ?thesis using s(2) by simp
    qed (simp add: slash_not_control)
  qed
  ultimately show "canonical_path q" unfolding canonical_path_def using q seg by blast
qed

lemma canonical_fixed:
  assumes "canonical_path q" "37 \<notin> set q"
  shows "normalizeGatewayPath q = Some q"
proof -
  from assms(1) obtain segs where q: "q = 47 # join_with [47] segs" and segs: "\<forall>seg \<in> set segs. plain_segment seg \<and> 47 \<notin> set seg"
    and c: "\<not> has_escape q" "\<forall>c \<in> set q. \<not> control_char c"
    unfolding canonical_path_def by blast
  have "split_on 47 q = [] # (if segs = [] then [[]] else segs)"
    using segs split_join [of segs 47] by (simp add: q)
  moreover have "resolve_segments [] segs = Some segs" using segs resolve_plain [of segs "[]"] by simp
  ultimately have "resolve_segments [] (split_on 47 q) = Some segs" by simp
  then show ?thesis using decode_passes_plain [OF assms(2)] c q
    by (simp add: normalizeGatewayPath_def startsWith_def)
qed

text \<open>
  How far above the root a list of segments climbs at most; the reference for the
  refusals: a path is refused for its dots iff some prefix climbs out.
\<close>

fun depth_after :: "jstr list \<Rightarrow> int" where
  "depth_after [] = 0"
| "depth_after (seg # segs) =
     (if seg = [] \<or> seg = js ''.'' then 0 else if seg = js ''..'' then - 1 else 1) + depth_after segs"

lemma resolve_length: "resolve_segments a segs = Some out \<Longrightarrow> int (length out) = int (length a) + depth_after segs"
proof (induction segs arbitrary: a)
  case (Cons seg segs)
  from Cons.prems show ?case
  proof (cases rule: resolve_cases)
    case skip
    then show ?thesis using Cons.IH [OF skip(2)] by auto
  next
    case up
    then have "int (length (butlast a)) = int (length a) - 1" by (cases a) auto
    then show ?thesis using Cons.IH [OF up(3)] up(1) by (simp add: ascii_eval)
  next
    case down
    then show ?thesis using Cons.IH [OF down(2)] by (simp add: plain_segment_def)
  qed
qed simp

lemma resolve_none: "resolve_segments a segs = None \<longleftrightarrow> (\<exists>k \<le> length segs. int (length a) + depth_after (take k segs) < 0)"
proof (induction segs arbitrary: a)
  case (Cons seg segs)
  have step: "(\<exists>k \<le> length (seg # segs). int (length a) + depth_after (take k (seg # segs)) < 0)
    \<longleftrightarrow> (\<exists>k \<le> length segs. int (length a) + depth_after (seg # take k segs) < 0)"
    (is "?L \<longleftrightarrow> ?R")
  proof
    assume ?L
    then obtain k where "k \<le> length (seg # segs)" "int (length a) + depth_after (take k (seg # segs)) < 0" by blast
    then show ?R by (cases k) auto
  next
    assume ?R
    then obtain k where "k \<le> length segs" "int (length a) + depth_after (seg # take k segs) < 0" by blast
    then show ?L by (intro exI [of _ "Suc k"]) simp
  qed
  show ?case
  proof (cases "seg = [] \<or> seg = js ''.''")
    case True
    then have "resolve_segments a (seg # segs) = resolve_segments a segs" "depth_after (seg # t) = depth_after t" for t by auto
    with Cons.IH [of a] step show ?thesis by simp
  next
    case skip: False
    show ?thesis
    proof (cases "seg = js ''..''")
      case True
      then have d: "depth_after (seg # t) = depth_after t - 1" for t by (simp add: ascii_eval)
      show ?thesis
      proof (cases "a = []")
        case e: True
        have "int (length a) + depth_after (seg # take 0 segs) < 0" using e d [of "[]"] by simp
        then have ?thesis if "resolve_segments a (seg # segs) = None" using that step by blast
        then show ?thesis using e True skip by simp
      next
        case False
        then have "int (length (butlast a)) = int (length a) - 1" by (cases a) auto
        then show ?thesis using Cons.IH [of "butlast a"] step d False True skip by (simp add: algebra_simps)
      qed
    next
      case False
      then have "resolve_segments a (seg # segs) = resolve_segments (a @ [seg]) segs" "depth_after (seg # t) = 1 + depth_after t" for t
        using skip by auto
      with Cons.IH [of "a @ [seg]"] step show ?thesis by (simp add: algebra_simps)
    qed
  qed
qed simp

text \<open>The path the gateway matches and forwards is canonical: it starts with a slash, no segment is empty or a dot segment, and it holds no control character and no percent escape; unless a bare percent sign survived, normalising it again changes nothing.\<close>

theorem normalized_path_canonical:
  assumes "normalizeGatewayPath p = Some q"
  shows "(\<exists>segs. q = 47 # join_with [47] segs \<and> (\<forall>seg \<in> set segs. seg \<notin> {[], js ''.'', js ''..''} \<and> 47 \<notin> set seg))
    \<and> \<not> has_escape q \<and> (\<forall>c \<in> set q. 0x1F < unat c) \<and> (37 \<in> set q \<or> normalizeGatewayPath q = Some q)"
proof -
  have c: "canonical_path q" by (rule normalize_canonical [OF assms])
  then obtain segs where "q = 47 # join_with [47] segs" "\<forall>seg \<in> set segs. plain_segment seg \<and> 47 \<notin> set seg"
    "\<not> has_escape q" "\<forall>ch \<in> set q. \<not> control_char ch" unfolding canonical_path_def by blast
  then show ?thesis using canonical_fixed [OF c]
    by (intro conjI exI [of _ segs]) (auto simp only: plain_segment_def control_char_def not_le insert_iff empty_iff)
qed

text \<open>C39 Escaping adds nothing to a path: take a path of ASCII characters that contains no control character below the space and no per cent sign. Escaped wholly, up to five times over, it is normalised to exactly what it is normalised to unescaped, and both are refused exactly when some prefix of the segments between its slashes climbs above the root. (Only slashes divide segments: see \<open>backslash_not_normalized\<close>.)\<close>

theorem encoded_traversal_refused:
  assumes "\<forall>c \<in> set s. unat c < 128 \<and> 0x1F < unat c \<and> c \<noteq> 37" "k \<le> 5"
  shows "normalizeGatewayPath (47 # (percent_encode ^^ k) s) = normalizeGatewayPath (47 # s)
    \<and> (normalizeGatewayPath (47 # s) = None \<longleftrightarrow> (\<exists>j \<le> length (split_on 47 s). depth_after (take j (split_on 47 s)) < 0))"
proof -
  have p: "37 \<notin> set s" "\<forall>c \<in> set s. unat c < 128" using assms(1) by auto
  have d: "decode_passes 5 (47 # (percent_encode ^^ k) s) = Some (47 # s)" "decode_passes 5 (47 # s) = Some (47 # s)"
    using decode_passes_encoded [OF p(2,1) assms(2)] decode_passes_plain [of "47 # s" 5] p(1) by simp_all
  have e: "\<not> has_escape (47 # s)" "\<not> (\<exists>c \<in> set (47 # s). control_char c)"
    using has_escape_plain [of "47 # s"] assms(1) by (auto simp: control_char_def)
  have n: "normalizeGatewayPath (47 # s) = map_option (\<lambda>segs. 47 # join_with [47] segs) (resolve_segments [] (split_on 47 s))"
    using d(2) e by (simp add: normalizeGatewayPath_def startsWith_def del: has_escape.simps)
  have "normalizeGatewayPath (47 # (percent_encode ^^ k) s) = normalizeGatewayPath (47 # s)"
    unfolding normalizeGatewayPath_def d by (simp add: startsWith_def)
  then show ?thesis unfolding n using resolve_none [of "[]" "split_on 47 s"] by simp
qed

text \<open>The normalisation knows slashes only: a path that climbs with a backslash is passed on as it is, and still matches the policy of the prefix it climbs out of once a URL parser reads backslashes as slashes.\<close>

theorem backslash_not_normalized:
  "normalizeGatewayPath (js ''/public/..'' @ [92] @ js ''admin'') = Some (js ''/public/..'' @ [92] @ js ''admin'')
    \<and> matchGlob (js ''/public/**'') (js ''/public/..'' @ [92] @ js ''admin'')"
proof (intro conjI)
  let ?p = "js ''/public/..'' @ [92] @ js ''admin''"
  have s: "split_on 47 ?p = [[], js ''public'', js ''..'' @ [92] @ js ''admin'']" by (simp add: ascii_eval)
  have "resolve_segments [] (split_on 47 ?p) = Some [js ''public'', js ''..'' @ [92] @ js ''admin'']"
    unfolding s by (simp add: ascii_eval)
  moreover have "47 # join_with [47] [js ''public'', js ''..'' @ [92] @ js ''admin''] = ?p" by (simp add: ascii_eval)
  moreover have "37 \<notin> set ?p" "\<not> (\<exists>c \<in> set ?p. control_char c)" by (simp_all add: ascii_eval control_char_def)
  ultimately show "normalizeGatewayPath ?p = Some ?p"
    using decode_passes_plain [of ?p 5] has_escape_plain [of ?p] by (simp add: normalizeGatewayPath_def startsWith_def ascii_eval)
  show "matchGlob (js ''/public/**'') ?p"
    by (simp add: matchGlob_def ascii_eval line_terminator_def ex_split_Cons)
qed

section \<open>The properties at work\<close>

theorem normalized_path_canonical_witness:
  "normalizeGatewayPath (js ''/a/./b//../c'') = Some (js ''/a/c'') \<and> \<not> has_escape (js ''/a/c'')"
proof -
  have p: "37 \<notin> set (js ''/a/./b//../c'')" by (simp add: ascii_eval)
  have "normalizeGatewayPath (js ''/a/./b//../c'') = Some (js ''/a/c'')"
    using decode_passes_plain [OF p, of 5] has_escape_plain [OF p]
    by (simp add: normalizeGatewayPath_def startsWith_def ascii_eval control_char_def)
  from this normalized_path_canonical [OF this] show ?thesis by blast
qed

theorem encoded_traversal_refused_witness:
  "normalizeGatewayPath (47 # percent_encode (percent_encode (js ''a/../../b''))) = None"
proof -
  have "(2::nat) \<le> 5" by simp
  have "\<exists>j \<le> length (split_on 47 (js ''a/../../b'')). depth_after (take j (split_on 47 (js ''a/../../b''))) < 0"
    by (rule exI [of _ 3]) (simp add: ascii_eval numeral_3_eq_3)
  moreover have "\<forall>c \<in> set (js ''a/../../b''). unat c < 128 \<and> 0x1F < unat c \<and> c \<noteq> 37" by (simp add: ascii_eval)
  ultimately have "normalizeGatewayPath (47 # (percent_encode ^^ 2) (js ''a/../../b'')) = None"
    using encoded_traversal_refused [of "js ''a/../../b''" 2] by simp
  then show ?thesis by (simp only: numeral_2_eq_2 funpow.simps comp_apply id_apply)
qed

end
