(* ===== verification/Bytes.thy ===== *)
theory Bytes
  imports Encoding
begin

text \<open>
  Byte readers and writers, shared by the binary formats: big-endian integers as
  \<open>DataView\<close> reads and writes them, counted reads, and the locale \<open>prefix_codec\<close>, a
  writer with a reader that consumes exactly what was written. A reader takes the bytes
  left and returns a value and the rest; \<open>None\<close> stands for a thrown error.
\<close>

type_synonym 'a reader = "bytes \<Rightarrow> ('a \<times> bytes) option"

named_theorems codec_simps \<open>equations of readers on what the writers wrote\<close>

section \<open>Integers\<close>

text \<open>\<open>setUint16\<close>, \<open>setUint32\<close>, \<open>setBigUint64\<close> with \<open>k\<close> = 2, 4, 8: the value modulo \<open>256 ^ k\<close>.\<close>

fun be_bytes :: "nat \<Rightarrow> nat \<Rightarrow> bytes" where
  "be_bytes 0 v = []"
| "be_bytes (Suc k) v = be_bytes k (v div 256) @ [of_nat (v mod 256)]"

definition be_value :: "bytes \<Rightarrow> nat" where
  "be_value bs = foldl (\<lambda>acc b. acc * 256 + unat b) 0 bs"

lemma length_be_bytes [simp]: "length (be_bytes k v) = k"
  by (induction k arbitrary: v) auto

lemma be_value_bytes: "be_value (be_bytes k v) = v mod 256 ^ k"
proof (induction k arbitrary: v)
  case (Suc k)
  have "unat (of_nat (v mod 256) :: byte) = v mod 256" by (rule unat_of_nat8) simp
  then have "be_value (be_bytes (Suc k) v) = v div 256 mod 256 ^ k * 256 + v mod 256"
    using Suc [of "v div 256"] by (simp add: be_value_def)
  also have "\<dots> = v mod 256 ^ Suc k"
    using mod_mult2_eq [of v 256 "256 ^ k"] by (simp add: mult.commute)
  finally show ?case .
qed (simp add: be_value_def)

lemma be_roundtrip [codec_simps]: "v < 256 ^ k \<Longrightarrow> be_value (be_bytes k v) = v"
  by (simp add: be_value_bytes)

lemma be_value_bound: "be_value bs < 256 ^ length bs"
proof (induction bs rule: rev_induct)
  case (snoc b bs)
  then have "be_value bs * 256 + unat b < 256 ^ Suc (length bs)" using unat8_less [of b] by simp
  then show ?case by (simp add: be_value_def)
qed (simp add: be_value_def)

section \<open>Readers\<close>

definition read_byte :: "byte reader" where
  "read_byte bs = (case bs of [] \<Rightarrow> None | b # r \<Rightarrow> Some (b, r))"

definition read_bytes :: "nat \<Rightarrow> bytes reader" where
  "read_bytes n bs = (if length bs < n then None else Some (take n bs, drop n bs))"

definition read_be :: "nat \<Rightarrow> nat reader" where
  "read_be k bs = map_option (\<lambda>(v, r). (be_value v, r)) (read_bytes k bs)"

text \<open>A counted loop over a reader.\<close>

fun read_times :: "nat \<Rightarrow> 'a reader \<Rightarrow> 'a list reader" where
  "read_times 0 rd bs = Some ([], bs)"
| "read_times (Suc n) rd bs =
     (case rd bs of
        None \<Rightarrow> None
      | Some (x, r) \<Rightarrow> map_option (\<lambda>(xs, r'). (x # xs, r')) (read_times n rd r))"

lemma read_byte_Cons [simp]: "read_byte (b # r) = Some (b, r)"
  by (simp add: read_byte_def)

lemma read_bytes_append [simp, codec_simps]: "read_bytes (length a) (a @ r) = Some (a, r)"
  by (simp add: read_bytes_def)

lemma read_be_append [codec_simps]: "v < 256 ^ k \<Longrightarrow> read_be k (be_bytes k v @ r) = Some (v, r)"
  using read_bytes_append [of "be_bytes k v" r] by (simp add: read_be_def be_roundtrip del: read_bytes_append)

lemma read_bytes_rest: "read_bytes n bs = Some (a, r) \<Longrightarrow> bs = a @ r \<and> length a = n"
  by (auto simp: read_bytes_def split: if_splits)

lemma read_be_rest: "read_be k bs = Some (v, r) \<Longrightarrow> length bs = k + length r \<and> v < 256 ^ k"
  using be_value_bound by (auto simp: read_be_def dest: read_bytes_rest)

lemma read_times_rest:
  assumes "read_times n rd bs = Some (xs, r)"
    and "\<And>bs x r. rd bs = Some (x, r) \<Longrightarrow> f x + length r \<le> length bs"
  shows "length xs = n \<and> sum_list (map f xs) + length r \<le> length bs"
  using assms(1)
proof (induction n arbitrary: bs xs)
  case (Suc n)
  then obtain x r1 ys where x: "rd bs = Some (x, r1)" "read_times n rd r1 = Some (ys, r)" "xs = x # ys"
    by (auto split: option.splits)
  then show ?case using Suc.IH [OF x(2)] assms(2) [OF x(1)] by simp
qed simp

lemma read_times_all:
  assumes "read_times n rd bs = Some (xs, r)" "\<And>bs x r. rd bs = Some (x, r) \<Longrightarrow> P x"
  shows "\<forall>x \<in> set xs. P x"
  using assms(1) by (induction n arbitrary: bs xs) (auto split: option.splits dest: assms(2))

lemma read_times_concat:
  "\<forall>x \<in> set xs. \<forall>r. rd (f x @ r) = Some (g x, r) \<Longrightarrow> read_times (length xs) rd (concat (map f xs) @ r) = Some (map g xs, r)"
  by (induction xs) simp_all

section \<open>Codecs\<close>

text \<open>
  \<open>view\<close> is what the reader gives back for a written value: the value itself, or its
  normal form.
\<close>

locale prefix_codec =
  fixes enc :: "'a \<Rightarrow> bytes" and dec :: "'b reader" and view :: "'a \<Rightarrow> 'b" and ok :: "'a \<Rightarrow> bool"
  assumes dec_enc: "ok x \<Longrightarrow> dec (enc x @ r) = Some (view x, r)"
begin

lemma enc_view: "ok x \<Longrightarrow> ok y \<Longrightarrow> enc x = enc y \<Longrightarrow> view x = view y"
  using dec_enc [of x "[]"] dec_enc [of y "[]"] by simp

lemma prefix_free: "ok x \<Longrightarrow> ok y \<Longrightarrow> enc x @ r = enc y @ s \<Longrightarrow> view x = view y \<and> r = s"
  using dec_enc [of x r] dec_enc [of y s] by simp

lemma dec_times: "\<forall>x \<in> set xs. ok x \<Longrightarrow> read_times (length xs) dec (concat (map enc xs) @ r) = Some (map view xs, r)"
  by (rule read_times_concat) (simp add: dec_enc)

end

interpretation u8: prefix_codec "\<lambda>b. [b]" read_byte id "\<lambda>b. True"
  by unfold_locales simp

interpretation u16: prefix_codec "be_bytes 2" "read_be 2" id "\<lambda>v. v < 256 ^ 2"
  by unfold_locales (simp add: read_be_append)

interpretation u32: prefix_codec "be_bytes 4" "read_be 4" id "\<lambda>v. v < 256 ^ 4"
  by unfold_locales (simp add: read_be_append)

interpretation u64: prefix_codec "be_bytes 8" "read_be 8" id "\<lambda>v. v < 256 ^ 8"
  by unfold_locales (simp add: read_be_append)

end
