(* ===== verification/Cbor.thy ===== *)
theory Cbor
  imports Bytes Json JsMap "HOL-Library.Multiset"
begin

text \<open>
  \<open>src/cborCodec.ts\<close>: the deterministic CBOR encoder and the depth-limited decoder.
  Numbers that are integers, NaN or infinite are \<open>CNum\<close>; any other double is
  \<open>CFrac\<close> with its bit pattern. \<open>CMap\<close> is a \<open>Map\<close>, \<open>CObj\<close> a plain object; the
  decoder yields objects without prototype. The members of an object stand in the order in
  which the language enumerates them: array indices first, in ascending order, then the
  others as they were added.
  Printing a double that is no integer below \<open>10 ^ 21\<close> (a key of that type) is the
  parameter \<open>T\<close>.
\<close>

datatype map_key = KInt int | KText jstr

datatype cbor =
    CNull
  | CBool bool
  | CNum jnum
  | CFrac "64 word"
  | CStr jstr
  | CBytes bytes
  | CArr "cbor list"
  | CMap "(map_key \<times> cbor) list"
  | CObj "(jstr \<times> cbor) list"

section \<open>Encoder\<close>

text \<open>\<open>mt | value\<close> is an operation on 32-bit integers, then the byte array takes 8 bits.\<close>

definition encodeHeadBytes :: "nat \<Rightarrow> int \<Rightarrow> bytes" where
  "encodeHeadBytes mt v =
    (if v \<le> 23 then [or (of_nat (mt * 32)) (word_of_int v)]
     else if v \<le> 0xFF then [of_nat (mt * 32 + 24), word_of_int v]
     else if v \<le> 0xFFFF then of_nat (mt * 32 + 25) # be_bytes 2 (nat v)
     else if v \<le> 0xFFFFFFFF then of_nat (mt * 32 + 26) # be_bytes 4 (nat v)
     else of_nat (mt * 32 + 27) # be_bytes 8 (nat v))"

definition float64 :: "64 word \<Rightarrow> bytes" where
  "float64 w = 0xFB # be_bytes 8 (unat w)"

fun encodeNumber :: "jnum \<Rightarrow> bytes" where
  "encodeNumber NaN = float64 0x7FF8000000000000"
| "encodeNumber PosInf = float64 0x7FF0000000000000"
| "encodeNumber NegInf = float64 0xFFF0000000000000"
| "encodeNumber (Fin n) = (if 0 \<le> n then encodeHeadBytes 0 n else encodeHeadBytes 1 (- 1 - n))"

definition encodeString :: "jstr \<Rightarrow> bytes" where
  "encodeString s = encodeHeadBytes 3 (int (length (utf8Encode s))) @ utf8Encode s"

definition key_bytes :: "map_key \<Rightarrow> bytes" where
  "key_bytes k = (case k of KInt i \<Rightarrow> encodeHeadBytes 0 i | KText s \<Rightarrow> encodeString s)"

text \<open>\<open>sort_key fst\<close> is the stable sort by \<open>compareBytes\<close>, the lexicographic order of bytes.\<close>

fun cbor_encode :: "cbor \<Rightarrow> bytes" where
  "cbor_encode CNull = [0xF6]"
| "cbor_encode (CBool b) = [if b then 0xF5 else 0xF4]"
| "cbor_encode (CNum n) = encodeNumber n"
| "cbor_encode (CFrac w) = float64 w"
| "cbor_encode (CStr s) = encodeString s"
| "cbor_encode (CBytes bs) = encodeHeadBytes 2 (int (length bs)) @ bs"
| "cbor_encode (CArr vs) = encodeHeadBytes 4 (int (length vs)) @ concat (map cbor_encode vs)"
| "cbor_encode (CMap kvs) = encodeHeadBytes 5 (int (length kvs))
     @ concat (map (\<lambda>(k, v). k @ v) (sort_key fst (map (\<lambda>(k, v). (key_bytes k, cbor_encode v)) kvs)))"
| "cbor_encode (CObj kvs) = encodeHeadBytes 5 (int (length kvs))
     @ concat (map (\<lambda>(k, v). k @ v) (sort_key fst (map (\<lambda>(k, v). (encodeString k, cbor_encode v)) kvs)))"

definition encodeCbor :: "cbor \<Rightarrow> bytes" where
  "encodeCbor v = cbor_encode v"

section \<open>Decoder\<close>

text \<open>\<open>Number(n)\<close> of a 64-bit integer: the nearest double, ties to even.\<close>

function double_unit :: "nat \<Rightarrow> nat" where
  "double_unit n = (if n < 9007199254740992 then 1 else 2 * double_unit (n div 2))"
  by pat_completeness auto
termination by (relation "measure id") auto

declare double_unit.simps [simp del]

definition to_double :: "nat \<Rightarrow> nat" where
  "to_double n = (let u = double_unit n; q = n div u; r = n mod u in
     u * (if u < 2 * r \<or> (u = 2 * r \<and> odd q) then q + 1 else q))"

text \<open>\<open>getFloat64\<close>: sign, exponent and mantissa.\<close>

definition double_value :: "64 word \<Rightarrow> cbor" where
  "double_value w = (let n = unat w; neg = n div 2 ^ 63 = 1; e = n div 2 ^ 52 mod 2048; m = n mod 2 ^ 52;
       mant = (if e = 0 then m else 2 ^ 52 + m); sg = (if neg then - 1 else 1) in
     if e = 2047 then CNum (if m \<noteq> 0 then NaN else if neg then NegInf else PosInf)
     else if 1075 \<le> e then CNum (Fin (sg * int (mant * 2 ^ (e - 1075))))
     else let k = 1075 - max 1 e in
       if mant mod 2 ^ k = 0 then CNum (Fin (sg * int (mant div 2 ^ k))) else CFrac w)"

text \<open>\<open>_decodeUint\<close>.\<close>

definition decodeUint :: "nat \<Rightarrow> nat reader" where
  "decodeUint ai bs =
    (if ai \<le> 23 then Some (ai, bs)
     else if ai = 24 then map_option (\<lambda>(b, r). (unat b, r)) (read_byte bs)
     else if ai = 25 then read_be 2 bs
     else if ai = 26 then read_be 4 bs
     else if ai = 27 then map_option (\<lambda>(v, r). (to_double v, r)) (read_be 8 bs)
     else None)"

text \<open>\<open>String(key)\<close>; \<open>None\<close>: an object without prototype cannot be converted.\<close>

fun key_string :: "(cbor \<Rightarrow> jstr) \<Rightarrow> cbor \<Rightarrow> jstr option" where
  "key_string T CNull = Some (js ''null'')"
| "key_string T (CBool b) = Some (if b then js ''true'' else js ''false'')"
| "key_string T (CNum (Fin n)) = Some (if \<bar>n\<bar> < 10 ^ 21 then show_int n else T (CNum (Fin n)))"
| "key_string T (CNum n) = Some (show_num n)"
| "key_string T (CFrac w) = Some (T (CFrac w))"
| "key_string T (CStr s) = Some s"
| "key_string T (CBytes bs) = Some (join_with [44] (map (\<lambda>b. show_nat (unat b)) bs))"
| "key_string T (CArr vs) = map_option (join_with [44])
     (all_some (map (\<lambda>v. if v = CNull then Some [] else key_string T v) vs))"
| "key_string T (CMap kvs) = None"
| "key_string T (CObj kvs) = None"

definition read_pair :: "(cbor \<Rightarrow> jstr) \<Rightarrow> cbor reader \<Rightarrow> (jstr \<times> cbor) reader" where
  "read_pair T rd bs =
    (case rd bs of
       None \<Rightarrow> None
     | Some (k, r) \<Rightarrow>
         (case rd r of
            None \<Rightarrow> None
          | Some (v, r') \<Rightarrow> map_option (\<lambda>s. ((s, v), r')) (key_string T k)))"

text \<open>The number a key is an array index for: a decimal without leading zeros below \<open>2 ^ 32 - 1\<close>.\<close>

definition array_index :: "jstr \<Rightarrow> nat option" where
  "array_index s =
    (let n = foldl (\<lambda>n c. 10 * n + (unat c - 48)) 0 s in
     if s \<noteq> [] \<and> list_all digit_char s \<and> (hd s = 48 \<longrightarrow> s = [48]) \<and> n < 4294967295 then Some n else None)"

definition index_upto :: "nat \<Rightarrow> jstr \<times> cbor \<Rightarrow> bool" where
  "index_upto n kv \<longleftrightarrow> (case array_index (fst kv) of None \<Rightarrow> False | Some i \<Rightarrow> i \<le> n)"

text \<open>\<open>result[key] = value\<close>: a member that is there keeps its place, a new one takes the place of its key.\<close>

definition obj_put :: "(jstr \<times> cbor) list \<Rightarrow> jstr \<Rightarrow> cbor \<Rightarrow> (jstr \<times> cbor) list" where
  "obj_put m k v =
    (if mhas m k then mset_key m k v
     else case array_index k of
       None \<Rightarrow> m @ [(k, v)]
     | Some n \<Rightarrow> takeWhile (index_upto n) m @ (k, v) # dropWhile (index_upto n) m)"

definition MAX_CBOR_DEPTH :: nat where
  "MAX_CBOR_DEPTH = 64"

text \<open>
  \<open>_decode\<close> with \<open>_decodeItem\<close>; the first argument is how many levels may still be
  entered, \<open>MAX_CBOR_DEPTH - depth\<close>.
\<close>

primrec cbor_decode :: "(cbor \<Rightarrow> jstr) \<Rightarrow> nat \<Rightarrow> cbor reader" where
  "cbor_decode T 0 = (\<lambda>bs. None)"
| "cbor_decode T (Suc d) = (\<lambda>bs.
    (case read_byte bs of
       None \<Rightarrow> None
     | Some (b, r) \<Rightarrow> let mt = unat b div 32; ai = unat b mod 32 in
         if mt = 0 then map_option (\<lambda>(n, r). (CNum (Fin (int n)), r)) (decodeUint ai r)
         else if mt = 1 then map_option (\<lambda>(n, r). (CNum (Fin (- int (to_double (n + 1)))), r)) (decodeUint ai r)
         else if mt = 2 then
           (case decodeUint ai r of None \<Rightarrow> None
            | Some (n, r) \<Rightarrow> map_option (\<lambda>(bs, r). (CBytes bs, r)) (read_bytes n r))
         else if mt = 3 then
           (case decodeUint ai r of None \<Rightarrow> None
            | Some (n, r) \<Rightarrow> map_option (\<lambda>(bs, r). (CStr (utf8Decode bs), r)) (read_bytes n r))
         else if mt = 4 then
           (case decodeUint ai r of None \<Rightarrow> None
            | Some (n, r) \<Rightarrow> map_option (\<lambda>(vs, r). (CArr vs, r)) (read_times n (cbor_decode T d) r))
         else if mt = 5 then
           (case decodeUint ai r of None \<Rightarrow> None
            | Some (n, r) \<Rightarrow> map_option (\<lambda>(kvs, r). (CObj (foldl (\<lambda>m (k, v). obj_put m k v) [] kvs), r))
                (read_times n (read_pair T (cbor_decode T d)) r))
         else if mt = 7 then
           (if ai = 20 then Some (CBool False, r)
            else if ai = 21 then Some (CBool True, r)
            else if ai = 22 then Some (CNull, r)
            else if ai = 27 then map_option (\<lambda>(n, r). (double_value (of_nat n), r)) (read_be 8 r)
            else None)
         else None))"

text \<open>\<open>decode\<close> ignores what is left after the first item.\<close>

definition decodeCbor :: "(cbor \<Rightarrow> jstr) \<Rightarrow> bytes \<Rightarrow> cbor option" where
  "decodeCbor T bs = map_option fst (cbor_decode T MAX_CBOR_DEPTH bs)"

section \<open>Round trip\<close>

lemma or_head:
  assumes "mt < 8" "v < (32 :: nat)"
  shows "unat (or (of_nat (mt * 32)) (of_nat v) :: byte) = mt * 32 + v"
proof -
  have "and (push_bit 5 mt) v = 0"
  proof (rule bit_eqI)
    fix n
    have "take_bit 5 v = v" using assms(2) by (simp add: take_bit_nat_eq_self_iff)
    then have "\<not> bit v n" if "5 \<le> n"
      using that bit_take_bit_iff [of 5 v n] by simp
    then show "bit (and (push_bit 5 mt) v) n = bit (0 :: nat) n" by (auto simp: bit_simps)
  qed
  then have "or (push_bit 5 mt) v = mt * 32 + v" by (simp add: disjunctive_add_eq_or [symmetric] push_bit_eq_mult)
  moreover have "unat (of_nat (mt * 32) :: byte) = mt * 32" "unat (of_nat v :: byte) = v"
    using assms by (intro unat_of_nat8; simp)+
  ultimately show ?thesis by (simp only: unsigned_or_eq) (simp add: push_bit_eq_mult)
qed

lemma to_double_exact [simp]: "n < 2 ^ 53 \<Longrightarrow> to_double n = n"
  by (simp add: to_double_def double_unit.simps Let_def)

lemma head_split:
  assumes "mt < 8" "0 \<le> v" "v < 2 ^ 53"
  obtains b t where "encodeHeadBytes mt v = b # t" "unat b div 32 = mt"
    "\<And>r. decodeUint (unat b mod 32) (t @ r) = Some (nat v, r)"
proof -
  define n where "n = nat v"
  have v: "v = int n" "n < 2 ^ 53" using assms(2,3) by (simp_all add: n_def)
  have small: "unat (of_nat (mt * 32 + k) :: byte) = mt * 32 + k" if "k < 32" for k
    by (rule unat_of_nat8) (use assms(1) that in simp)
  consider "n \<le> 23" | "23 < n" "n < 256" | "256 \<le> n" "n < 256 ^ 2" | "256 ^ 2 \<le> n" "n < 256 ^ 4" | "256 ^ 4 \<le> n"
    by linarith
  then show thesis
  proof cases
    case 1
    then show thesis
      using or_head [OF assms(1), of n] that [of "or (of_nat (mt * 32)) (of_nat n)" "[]"]
      by (simp add: encodeHeadBytes_def v decodeUint_def)
  next
    case 2
    moreover have "unat (of_nat n :: byte) = n" using 2 by (simp add: unat_of_nat8)
    ultimately show thesis using small [of 24] that [of "of_nat (mt * 32 + 24)" "[of_nat n]"]
      by (simp add: encodeHeadBytes_def v decodeUint_def del: of_nat_add of_nat_mult)
  next
    case 3
    then show thesis using small [of 25] that [of "of_nat (mt * 32 + 25)" "be_bytes 2 n"]
      by (simp add: encodeHeadBytes_def v decodeUint_def read_be_append del: of_nat_add of_nat_mult)
  next
    case 4
    then show thesis using small [of 26] that [of "of_nat (mt * 32 + 26)" "be_bytes 4 n"]
      by (simp add: encodeHeadBytes_def v decodeUint_def read_be_append del: of_nat_add of_nat_mult)
  next
    case 5
    moreover have "n < 256 ^ 8" using v(2) by simp
    ultimately show thesis using small [of 27] that [of "of_nat (mt * 32 + 27)" "be_bytes 8 n"] v(2)
      by (simp add: encodeHeadBytes_def v decodeUint_def read_be_append del: of_nat_add of_nat_mult)
  qed
qed

text \<open>Texts UTF-8 carries faithfully through a \<open>TextDecoder\<close>, and values that survive.\<close>

definition text_ok :: "jstr \<Rightarrow> bool" where
  "text_ok s \<longleftrightarrow> well_formed s \<and> take 1 (code_points s) \<noteq> [bom] \<and> length (utf8Encode s) < 2 ^ 53"

definition key_ok :: "map_key \<Rightarrow> bool" where
  "key_ok k = (case k of KInt i \<Rightarrow> 0 \<le> i \<and> i < 2 ^ 53 | KText s \<Rightarrow> text_ok s)"

definition key_text :: "map_key \<Rightarrow> jstr" where
  "key_text k = (case k of KInt i \<Rightarrow> show_int i | KText s \<Rightarrow> s)"

fun cbor_ok :: "cbor \<Rightarrow> bool" where
  "cbor_ok CNull = True"
| "cbor_ok (CBool b) = True"
| "cbor_ok (CNum n) = (case n of Fin i \<Rightarrow> \<bar>i\<bar> < 2 ^ 53 | _ \<Rightarrow> True)"
| "cbor_ok (CFrac w) = (double_value w = CFrac w)"
| "cbor_ok (CStr s) = text_ok s"
| "cbor_ok (CBytes bs) = (length bs < 2 ^ 53)"
| "cbor_ok (CArr vs) = (length vs < 2 ^ 53 \<and> (\<forall>v \<in> set vs. cbor_ok v))"
| "cbor_ok (CMap kvs) = (length kvs < 2 ^ 53 \<and> distinct (map (key_text \<circ> fst) kvs) \<and> (\<forall>(k, v) \<in> set kvs. key_ok k \<and> cbor_ok v))"
| "cbor_ok (CObj kvs) = (length kvs < 2 ^ 53 \<and> distinct (map fst kvs) \<and> (\<forall>(k, v) \<in> set kvs. text_ok k \<and> cbor_ok v))"

fun cbor_depth :: "cbor \<Rightarrow> nat" where
  "cbor_depth (CArr vs) = Suc (fold max (map cbor_depth vs) 0)"
| "cbor_depth (CMap kvs) = Suc (fold max (map (\<lambda>(k, v). cbor_depth v) kvs) 0)"
| "cbor_depth (CObj kvs) = Suc (fold max (map (\<lambda>(k, v). cbor_depth v) kvs) 0)"
| "cbor_depth v = 1"

text \<open>The order of an object's members that were added in a given order.\<close>

definition index_of_key :: "jstr \<times> cbor \<Rightarrow> nat" where
  "index_of_key kv = (case array_index (fst kv) of None \<Rightarrow> 0 | Some i \<Rightarrow> i)"

definition js_order :: "(jstr \<times> cbor) list \<Rightarrow> (jstr \<times> cbor) list" where
  "js_order kvs = sort_key index_of_key (filter (\<lambda>kv. array_index (fst kv) \<noteq> None) kvs) @ filter (\<lambda>kv. array_index (fst kv) = None) kvs"

text \<open>What the decoder gives back: maps become objects whose members were added in the order of their encoded keys.\<close>

fun cbor_view :: "cbor \<Rightarrow> cbor" where
  "cbor_view (CArr vs) = CArr (map cbor_view vs)"
| "cbor_view (CMap kvs) = CObj (js_order (map snd (sort_key fst (map (\<lambda>(k, v). (key_bytes k, (key_text k, cbor_view v))) kvs))))"
| "cbor_view (CObj kvs) = CObj (js_order (map snd (sort_key fst (map (\<lambda>(k, v). (encodeString k, (k, cbor_view v))) kvs))))"
| "cbor_view v = v"

lemma fold_max_le: "fold max xs a \<le> (d :: nat) \<longleftrightarrow> a \<le> d \<and> (\<forall>x \<in> set xs. x \<le> d)"
  by (induction xs arbitrary: a) auto

lemma cbor_depth_pos: "1 \<le> cbor_depth v"
  by (cases v) auto

lemma read_head:
  assumes "mt < 8" "0 \<le> v" "v < 2 ^ 53"
  shows "\<exists>b t. encodeHeadBytes mt v = b # t \<and> unat b div 32 = mt \<and> (\<forall>r. decodeUint (unat b mod 32) (t @ r) = Some (nat v, r))"
  using head_split [OF assms] by metis

lemma decode_int [codec_simps]: "0 \<le> v \<Longrightarrow> v < 2 ^ 53 \<Longrightarrow> cbor_decode T (Suc d) (encodeHeadBytes 0 v @ r) = Some (CNum (Fin v), r)"
  using read_head [of 0 v] by auto

lemma decode_neg [codec_simps]: "v < 0 \<Longrightarrow> - v < 2 ^ 53 \<Longrightarrow> cbor_decode T (Suc d) (encodeHeadBytes 1 (- 1 - v) @ r) = Some (CNum (Fin v), r)"
proof -
  assume v: "v < 0" "- v < 2 ^ 53"
  have "nat (- 1 - v) + 1 = nat (- v)" using v(1) by simp
  moreover have "nat (- v) < 2 ^ 53" using v by simp
  ultimately have "- int (to_double (nat (- 1 - v) + 1)) = v" using v(1) by simp
  then show ?thesis using read_head [of 1 "- 1 - v"] v by auto
qed

lemma decode_bytes: "length bs < 2 ^ 53 \<Longrightarrow> cbor_decode T (Suc d) (encodeHeadBytes 2 (int (length bs)) @ bs @ r) = Some (CBytes bs, r)"
  using read_head [of 2 "int (length bs)"] by auto

lemma decode_text: "text_ok s \<Longrightarrow> cbor_decode T (Suc d) (encodeString s @ r) = Some (CStr s, r)"
  using read_head [of 3 "int (length (utf8Encode s))"]
  by (auto simp: encodeString_def text_ok_def utf8_roundtrip)

lemma decode_array: "n < 2 ^ 53 \<Longrightarrow> cbor_decode T (Suc d) (encodeHeadBytes 4 (int n) @ r)
    = map_option (\<lambda>(vs, r). (CArr vs, r)) (read_times n (cbor_decode T d) r)"
  using read_head [of 4 "int n"] by auto

lemma decode_map: "n < 2 ^ 53 \<Longrightarrow> cbor_decode T (Suc d) (encodeHeadBytes 5 (int n) @ r)
    = map_option (\<lambda>(kvs, r). (CObj (foldl (\<lambda>m (k, v). obj_put m k v) [] kvs), r)) (read_times n (read_pair T (cbor_decode T d)) r)"
  using read_head [of 5 "int n"] by auto

lemma decode_float: "cbor_decode T (Suc d) (float64 w @ r) = Some (double_value w, r)"
proof -
  have "unat w < 2 ^ LENGTH(64)" by (rule unsigned_less)
  then have "unat w < 256 ^ 8" by simp
  from read_be_append [OF this, of r] show ?thesis by (simp add: float64_def Let_def)
qed

lemma special_doubles:
  "double_value 0x7FF8000000000000 = CNum NaN" "double_value 0x7FF0000000000000 = CNum PosInf"
  "double_value 0xFFF0000000000000 = CNum NegInf"
  by (simp_all add: double_value_def Let_def)

lemma decode_number:
  assumes "cbor_ok (CNum n)"
  shows "cbor_decode T (Suc d) (encodeNumber n @ r) = Some (CNum n, r)"
proof (cases n)
  case (Fin i)
  with assms show ?thesis using decode_int [of i T d r] decode_neg [of i T d r]
    by (auto simp del: cbor_decode.simps)
qed (simp_all add: decode_float special_doubles del: cbor_decode.simps)

lemma insert_last:
  fixes f :: "'a \<Rightarrow> nat"
  assumes "sorted (map f zs)"
  shows "sorted (map f (takeWhile (\<lambda>y. f y \<le> f x) zs @ x # dropWhile (\<lambda>y. f y \<le> f x) zs))"
    and "\<forall>y \<in> set (dropWhile (\<lambda>y. f y \<le> f x) zs). f x < f y"
proof -
  have w: "sorted (map f (takeWhile (\<lambda>y. f y \<le> f x) zs @ dropWhile (\<lambda>y. f y \<le> f x) zs))" using assms by simp
  show above: "\<forall>y \<in> set (dropWhile (\<lambda>y. f y \<le> f x) zs). f x < f y"
  proof (cases "dropWhile (\<lambda>y. f y \<le> f x) zs")
    case (Cons a as)
    then have "\<not> f a \<le> f x" using hd_dropWhile [of "\<lambda>y. f y \<le> f x" zs] by simp
    moreover have "sorted (map f (a # as))" using w unfolding map_append sorted_append Cons by blast
    ultimately show ?thesis using Cons by auto
  next
    case Nil
    show ?thesis unfolding Nil by simp
  qed
  have below: "\<forall>y \<in> set (takeWhile (\<lambda>y. f y \<le> f x) zs). f y \<le> f x" using set_takeWhileD by fast
  have t: "sorted (map f (takeWhile (\<lambda>y. f y \<le> f x) zs))" "sorted (map f (dropWhile (\<lambda>y. f y \<le> f x) zs))"
    using w unfolding map_append sorted_append by blast+
  have m: "\<forall>a \<in> set (takeWhile (\<lambda>y. f y \<le> f x) zs). \<forall>b \<in> set (x # dropWhile (\<lambda>y. f y \<le> f x) zs). f a \<le> f b"
    using below above by fastforce
  have "sorted (map f (x # dropWhile (\<lambda>y. f y \<le> f x) zs))" using t(2) above by (simp add: less_imp_le)
  with t(1) m show "sorted (map f (takeWhile (\<lambda>y. f y \<le> f x) zs @ x # dropWhile (\<lambda>y. f y \<le> f x) zs))"
    unfolding map_append sorted_append set_map by blast
qed

lemma sort_key_snoc:
  fixes f :: "'a \<Rightarrow> nat"
  shows "sort_key f (xs @ [x]) = takeWhile (\<lambda>y. f y \<le> f x) (sort_key f xs) @ x # dropWhile (\<lambda>y. f y \<le> f x) (sort_key f xs)"
    (is "_ = takeWhile ?P ?zs @ x # dropWhile ?P ?zs")
proof (rule properties_for_sort_key)
  have z: "mset (takeWhile ?P ?zs) + mset (dropWhile ?P ?zs) = mset xs"
    unfolding mset_append [symmetric] takeWhile_dropWhile_id by simp
  show "mset (takeWhile ?P ?zs @ x # dropWhile ?P ?zs) = mset (xs @ [x])" using z by simp
  show "sorted (map f (takeWhile ?P ?zs @ x # dropWhile ?P ?zs))" by (rule insert_last) simp
  fix k
  have s: "filter (\<lambda>y. f k = f y) (takeWhile ?P ?zs) @ filter (\<lambda>y. f k = f y) (dropWhile ?P ?zs) = filter (\<lambda>y. f k = f y) xs"
  proof -
    have "(\<lambda>y. f k = f y) = (\<lambda>y. f y = f k)" by auto
    then show ?thesis unfolding filter_append [symmetric] takeWhile_dropWhile_id by (simp only: sort_key_stable)
  qed
  have "filter (\<lambda>y. f k = f y) (dropWhile ?P ?zs) = []" if "f k = f x"
    using insert_last(2) [of f ?zs x] that by (auto simp: filter_empty_conv)
  with s show "filter (\<lambda>y. f k = f y) (takeWhile ?P ?zs @ x # dropWhile ?P ?zs) = filter (\<lambda>y. f k = f y) (xs @ [x])" by auto
qed

lemma while_append: "\<forall>y \<in> set ys. \<not> P y \<Longrightarrow> takeWhile P (xs @ ys) = takeWhile P xs \<and> dropWhile P (xs @ ys) = dropWhile P xs @ ys"
  by (induction xs) (auto simp: takeWhile_eq_Nil_iff dropWhile_eq_self_iff)

lemma while_cong: "\<forall>x \<in> set xs. P x = Q x \<Longrightarrow> takeWhile P xs = takeWhile Q xs \<and> dropWhile P xs = dropWhile Q xs"
  by (induction xs) auto

lemma set_js_order [simp]: "set (js_order kvs) = set kvs"
  by (auto simp: js_order_def)

lemma obj_put_order:
  assumes "k \<notin> fst ` set kvs"
  shows "obj_put (js_order kvs) k v = js_order (kvs @ [(k, v)])"
proof (cases "array_index k")
  case None
  with assms show ?thesis by (auto simp: obj_put_def mhas_def mget_None_iff js_order_def)
next
  case (Some n)
  let ?idx = "sort_key index_of_key (filter (\<lambda>kv. array_index (fst kv) \<noteq> None) kvs)"
  let ?rest = "filter (\<lambda>kv. array_index (fst kv) = None) kvs"
  let ?P = "\<lambda>y. index_of_key y \<le> index_of_key (k, v)"
  have "\<forall>y \<in> set ?rest. \<not> index_upto n y" by (auto simp: index_upto_def)
  note w = while_append [OF this, of ?idx]
  have "\<forall>y \<in> set ?idx. index_upto n y = ?P y" using Some by (auto simp: index_upto_def index_of_key_def)
  note c = while_cong [OF this]
  have "obj_put (js_order kvs) k v = takeWhile ?P ?idx @ (k, v) # dropWhile ?P ?idx @ ?rest"
    using assms Some w c by (simp add: obj_put_def mhas_def mget_None_iff) (simp add: js_order_def)
  then show ?thesis using sort_key_snoc [of index_of_key "filter (\<lambda>kv. array_index (fst kv) \<noteq> None) kvs" "(k, v)"] Some
    by (simp add: js_order_def)
qed

lemma foldl_obj_put: "distinct (map fst kvs) \<Longrightarrow> foldl (\<lambda>m (k, v). obj_put m k v) [] kvs = js_order kvs"
proof (induction kvs rule: rev_induct)
  case (snoc kv kvs)
  then show ?case using obj_put_order [of "fst kv" kvs "snd kv"] by (cases kv) simp
qed (simp add: js_order_def)

text \<open>One lemma for both kinds of map: \<open>kb\<close> writes a key and \<open>kt\<close> is its text.\<close>

lemma decode_members:
  assumes "\<forall>(k, v) \<in> set kvs. (\<forall>r. \<exists>c. dec (kb k @ r) = Some (c, r) \<and> key_string T c = Some (kt k))
      \<and> (\<forall>r. dec (cbor_encode v @ r) = Some (cbor_view v, r))"
  shows "read_times (length kvs) (read_pair T dec)
      (concat (map (\<lambda>(k, v). k @ v) (sort_key fst (map (\<lambda>(k, v). (kb k, cbor_encode v)) kvs))) @ r)
    = Some (map snd (sort_key fst (map (\<lambda>(k, v). (kb k, (kt k, cbor_view v))) kvs)), r)"
proof -
  define rows where "rows = sort_key fst (map (\<lambda>(k, v). (kb k, (k, v))) kvs)"
  have s1: "sort_key fst (map (\<lambda>(k, v). (kb k, cbor_encode v)) kvs) = map (\<lambda>(b, kv). (b, cbor_encode (snd kv))) rows"
    unfolding rows_def sort_key_map_fst [symmetric] by (simp add: case_prod_beta' comp_def)
  have s2: "sort_key fst (map (\<lambda>(k, v). (kb k, (kt k, cbor_view v))) kvs) = map (\<lambda>(b, kv). (b, (kt (fst kv), cbor_view (snd kv)))) rows"
    unfolding rows_def sort_key_map_fst [symmetric] by (simp add: case_prod_beta' comp_def)
  have "\<forall>row \<in> set rows. \<forall>r. read_pair T dec ((fst row @ cbor_encode (snd (snd row))) @ r) = Some ((kt (fst (snd row)), cbor_view (snd (snd row))), r)"
  proof (intro ballI allI)
    fix row r
    assume "row \<in> set rows"
    then obtain k v where kv: "(k, v) \<in> set kvs" "row = (kb k, (k, v))" by (auto simp: rows_def)
    with assms obtain c where "dec (kb k @ cbor_encode v @ r) = Some (c, cbor_encode v @ r)" "key_string T c = Some (kt k)" by fastforce
    then show "read_pair T dec ((fst row @ cbor_encode (snd (snd row))) @ r) = Some ((kt (fst (snd row)), cbor_view (snd (snd row))), r)"
      using assms kv by (auto simp: read_pair_def)
  qed
  from read_times_concat [OF this, of r] show ?thesis
    unfolding s1 s2 by (simp add: rows_def case_prod_beta' comp_def)
qed

lemma distinct_view: "distinct (map (f \<circ> fst) kvs) \<Longrightarrow> distinct (map fst (map snd (sort_key g (map (\<lambda>(k, v). (h k, (f k, w v))) kvs))))"
proof -
  assume d: "distinct (map (f \<circ> fst) kvs)"
  let ?l = "map (\<lambda>(k, v). (h k, (f k, w v))) kvs"
  have "mset (map (fst \<circ> snd) (sort_key g ?l)) = mset (map (fst \<circ> snd) ?l)" by (simp only: mset_map mset_sort)
  also have "map (fst \<circ> snd) ?l = map (f \<circ> fst) kvs" by auto
  finally have "distinct (map (fst \<circ> snd) (sort_key g ?l)) = distinct (map (f \<circ> fst) kvs)" by (rule mset_eq_imp_distinct_iff)
  with d show ?thesis unfolding map_map by blast
qed

lemma foldl_view:
  "distinct (map (f \<circ> fst) kvs) \<Longrightarrow>
    foldl (\<lambda>m (k, v). obj_put m k v) [] (map snd (sort_key fst (map (\<lambda>(k, v). (h k, (f k, w v))) kvs)))
      = js_order (map snd (sort_key fst (map (\<lambda>(k, v). (h k, (f k, w v))) kvs)))"
  by (drule distinct_view [where g = fst]) (rule foldl_obj_put)

lemma decode_const [codec_simps]:
  "cbor_decode T (Suc d) (0xF6 # r) = Some (CNull, r)"
  "cbor_decode T (Suc d) (0xF5 # r) = Some (CBool True, r)"
  "cbor_decode T (Suc d) (0xF4 # r) = Some (CBool False, r)"
  by (simp_all add: Let_def)

lemma decode_view:
  assumes "cbor_ok v" "cbor_depth v \<le> d"
  shows "cbor_decode T d (cbor_encode v @ r) = Some (cbor_view v, r)"
  using assms
proof (induction v arbitrary: d r rule: cbor_encode.induct)
  case (7 vs)
  then obtain d' where d: "d = Suc d'" "\<forall>v \<in> set vs. cbor_depth v \<le> d'" by (cases d) (auto simp: fold_max_le)
  have "\<forall>v \<in> set vs. \<forall>r. cbor_decode T d' (cbor_encode v @ r) = Some (cbor_view v, r)"
    using 7 d(2) by simp
  from read_times_concat [OF this, of r] show ?case
    using decode_array [of "length vs"] 7(2) d(1) by (simp del: cbor_decode.simps)
next
  case (8 kvs)
  then obtain d' where d: "d = Suc d'" "\<forall>(k, v) \<in> set kvs. cbor_depth v \<le> d'"
    by (cases d) (auto simp: fold_max_le split: prod.splits)
  have k: "\<exists>c. cbor_decode T d' (key_bytes k @ r) = Some (c, r) \<and> key_string T c = Some (key_text k)" if "(k, v) \<in> set kvs" for k v r
  proof -
    have "1 \<le> d'" "key_ok k" using that d(2) 8(2) cbor_depth_pos [of v] by fastforce+
    then show ?thesis
      by (cases d'; cases k) (auto simp: key_ok_def key_bytes_def key_text_def decode_int decode_text simp del: cbor_decode.simps)
  qed
  have "\<forall>(k, v) \<in> set kvs. (\<forall>r. \<exists>c. cbor_decode T d' (key_bytes k @ r) = Some (c, r) \<and> key_string T c = Some (key_text k))
      \<and> (\<forall>r. cbor_decode T d' (cbor_encode v @ r) = Some (cbor_view v, r))"
    using 8 d(2) k by fastforce
  from decode_members [OF this, of r] show ?case
    using decode_map [of "length kvs"] 8(2) d(1)
      foldl_view [of key_text kvs key_bytes cbor_view]
    by (simp del: cbor_decode.simps)
next
  case (9 kvs)
  then obtain d' where d: "d = Suc d'" "\<forall>(k, v) \<in> set kvs. cbor_depth v \<le> d'"
    by (cases d) (auto simp: fold_max_le split: prod.splits)
  have k: "\<exists>c. cbor_decode T d' (encodeString k @ r) = Some (c, r) \<and> key_string T c = Some k" if "(k, v) \<in> set kvs" for k v r
  proof -
    have "1 \<le> d'" "text_ok k" using that d(2) 9(2) cbor_depth_pos [of v] by fastforce+
    then show ?thesis by (cases d') (auto simp: decode_text simp del: cbor_decode.simps)
  qed
  have "\<forall>(k, v) \<in> set kvs. (\<forall>r. \<exists>c. cbor_decode T d' (encodeString k @ r) = Some (c, r) \<and> key_string T c = Some k)
      \<and> (\<forall>r. cbor_decode T d' (cbor_encode v @ r) = Some (cbor_view v, r))"
    using 9 d(2) k by fastforce
  from decode_members [OF this, of r] show ?case
    using decode_map [of "length kvs"] 9(2) d(1)
      foldl_view [of id kvs encodeString cbor_view]
    by (simp del: cbor_decode.simps)
next
  case (3 n)
  then show ?case by (cases d) (simp_all add: decode_number del: cbor_decode.simps)
next
  case (4 w)
  then show ?case by (cases d) (simp_all add: decode_float del: cbor_decode.simps)
next
  case (5 s)
  then show ?case by (cases d) (simp_all add: decode_text del: cbor_decode.simps)
next
  case (6 bs)
  then show ?case by (cases d) (simp_all add: decode_bytes del: cbor_decode.simps)
next
  case 1
  then show ?case by (cases d) (simp_all add: decode_const del: cbor_decode.simps)
next
  case (2 b)
  then show ?case by (cases d; cases b) (simp_all add: decode_const del: cbor_decode.simps)
qed

interpretation cbor: prefix_codec cbor_encode "cbor_decode T MAX_CBOR_DEPTH" cbor_view "\<lambda>v. cbor_ok v \<and> cbor_depth v \<le> MAX_CBOR_DEPTH" for T
  by unfold_locales (simp add: decode_view)

section \<open>Bounds on what is decoded\<close>

fun cbor_nodes :: "cbor \<Rightarrow> nat" where
  "cbor_nodes (CArr vs) = Suc (sum_list (map cbor_nodes vs))"
| "cbor_nodes (CMap kvs) = Suc (sum_list (map (\<lambda>(k, v). cbor_nodes v) kvs))"
| "cbor_nodes (CObj kvs) = Suc (sum_list (map (\<lambda>(k, v). cbor_nodes v) kvs))"
| "cbor_nodes v = 1"

lemma sum_mset_key: "sum_list (map (\<lambda>(k, v). f v) (mset_key m k v)) \<le> sum_list (map (\<lambda>(k, v). f v) m) + (f v :: nat)"
  by (induction m k v rule: mset_key.induct) auto

lemma mset_while: "mset (takeWhile P xs @ x # dropWhile P xs) = mset (x # xs)"
proof -
  have "mset (takeWhile P xs) + mset (dropWhile P xs) = mset xs" unfolding mset_append [symmetric] takeWhile_dropWhile_id ..
  then show ?thesis by simp
qed

lemma obj_put_mset: "\<not> mhas m k \<Longrightarrow> mset (obj_put m k v) = mset ((k, v) # m)"
  using mset_while by (auto simp: obj_put_def split: option.split)

lemma sum_obj_put: "sum_list (map (\<lambda>(k, v). f v) (obj_put m k v)) \<le> sum_list (map (\<lambda>(k, v). f v) m) + (f v :: nat)"
proof (cases "mhas m k")
  case True
  then show ?thesis using sum_mset_key by (simp add: obj_put_def)
next
  case False
  have "sum_mset (image_mset (\<lambda>(k, v). f v) (mset (obj_put m k v))) = sum_mset (image_mset (\<lambda>(k, v). f v) (mset ((k, v) # m)))"
    by (simp only: obj_put_mset [OF False])
  then show ?thesis unfolding mset_map [symmetric] sum_mset_sum_list by simp
qed

lemma sum_foldl_mset:
  "sum_list (map (\<lambda>(k, v). f v) (foldl (\<lambda>m (k, v). obj_put m k v) m kvs))
    \<le> sum_list (map (\<lambda>(k, v). f v) m) + sum_list (map (\<lambda>(k, v). (f v :: nat)) kvs)"
proof (induction kvs arbitrary: m)
  case (Cons kv kvs)
  obtain k v where kv: "kv = (k, v)" by (cases kv)
  show ?case using Cons.IH [of "obj_put m k v"] sum_obj_put [of f m k v] kv by simp
qed simp

lemma in_mset_key: "(k', v') \<in> set (mset_key m k v) \<Longrightarrow> v' = v \<or> (k', v') \<in> set m"
  by (induction m k v rule: mset_key.induct) (auto split: if_splits)

lemma in_obj_put: "(k', v') \<in> set (obj_put m k v) \<Longrightarrow> v' = v \<or> (k', v') \<in> set m"
proof (cases "mhas m k")
  case False
  then have "set (obj_put m k v) = insert (k, v) (set m)" using arg_cong [OF obj_put_mset [of m k v], of set_mset] by simp
  then show "(k', v') \<in> set (obj_put m k v) \<Longrightarrow> v' = v \<or> (k', v') \<in> set m" by auto
qed (simp add: obj_put_def in_mset_key)

lemma in_foldl_mset: "(k', v') \<in> set (foldl (\<lambda>m (k, v). obj_put m k v) m kvs) \<Longrightarrow> (\<exists>k. (k, v') \<in> set kvs) \<or> (k', v') \<in> set m"
proof (induction kvs arbitrary: m)
  case (Cons kv kvs)
  then show ?case by (cases kv) (fastforce dest: in_obj_put)
qed simp

lemma decodeUint_rest: "decodeUint ai bs = Some (n, r) \<Longrightarrow> length r \<le> length bs"
  by (auto simp: decodeUint_def read_byte_def split: if_splits list.splits dest: read_be_rest)

lemma read_pair_rest:
  assumes "read_pair T rd bs = Some ((s, v), r)" "\<And>bs x r. rd bs = Some (x, r) \<Longrightarrow> f x + length r \<le> length bs \<and> P x"
  shows "f v + length r \<le> length bs \<and> P v"
proof -
  from assms(1) obtain k r1 where "rd bs = Some (k, r1)" "rd r1 = Some (v, r)"
    by (auto simp: read_pair_def split: option.splits)
  from assms(2) [OF this(1)] assms(2) [OF this(2)] show ?thesis by simp
qed

lemma double_value_leaf: "cbor_nodes (double_value w) = 1 \<and> cbor_depth (double_value w) = 1"
  by (auto simp: double_value_def Let_def)

lemma decode_cases:
  assumes "cbor_decode T (Suc d) bs = Some (v, r)"
  obtains (leaf) "cbor_nodes v = 1" "cbor_depth v = 1" "length r < length bs"
    | (arr) n vs r1 where "v = CArr vs" "read_times n (cbor_decode T d) r1 = Some (vs, r)" "length r1 < length bs"
    | (obj) n kvs r1 where "v = CObj (foldl (\<lambda>m (k, v). obj_put m k v) [] kvs)"
        "read_times n (read_pair T (cbor_decode T d)) r1 = Some (kvs, r)" "length r1 < length bs"
proof -
  from assms obtain b r0 where b: "bs = b # r0" by (cases bs) (auto simp: read_byte_def)
  define mt ai where "mt = unat b div 32" and "ai = unat b mod 32"
  have m: "mt < 8" using unat8_less [of b] by (simp add: mt_def)
  note a = assms [unfolded b, simplified, folded mt_def ai_def, unfolded Let_def]
  consider "mt = 0 \<or> mt = 1" | "mt = 2 \<or> mt = 3" | "mt = 4" | "mt = 5" | "mt = 6" | "mt = 7" using m by linarith
  then show thesis
  proof cases
    case 1
    then show thesis using a leaf b by (auto dest!: decodeUint_rest)
  next
    case 2
    then show thesis using a leaf b by (auto split: option.splits dest!: decodeUint_rest read_bytes_rest)
  next
    case 3
    then show thesis using a arr b by (auto split: option.splits dest!: decodeUint_rest)
  next
    case 4
    then show thesis using a obj b by (auto split: option.splits dest!: decodeUint_rest)
  next
    case 5
    then show thesis using a by simp
  next
    case 6
    then show thesis using a leaf b double_value_leaf by (auto split: if_splits dest!: read_be_rest)
  qed
qed

lemma decode_bounds: "cbor_decode T d bs = Some (v, r) \<Longrightarrow> cbor_nodes v + length r \<le> length bs \<and> cbor_depth v \<le> d"
proof (induction d arbitrary: bs v r)
  case (Suc d)
  have p: "cbor_nodes (snd kv) + length r' \<le> length bs' \<and> cbor_depth (snd kv) \<le> d"
    if "read_pair T (cbor_decode T d) bs' = Some (kv, r')" for bs' kv r'
    using read_pair_rest [of T "cbor_decode T d" bs' "fst kv" "snd kv" r' cbor_nodes "\<lambda>v. cbor_depth v \<le> d"] that Suc.IH by simp
  from Suc.prems show ?case
  proof (cases rule: decode_cases)
    case (arr n vs r1)
    have "sum_list (map cbor_nodes vs) + length r \<le> length r1" "\<forall>v \<in> set vs. cbor_depth v \<le> d"
      using read_times_rest [OF arr(2), of cbor_nodes] read_times_all [OF arr(2), of "\<lambda>v. cbor_depth v \<le> d"] Suc.IH by blast+
    then show ?thesis using arr by (simp add: fold_max_le)
  next
    case (obj n kvs r1)
    let ?m = "foldl (\<lambda>m (k, v). obj_put m k v) [] kvs"
    have "sum_list (map (\<lambda>kv. cbor_nodes (snd kv)) kvs) + length r \<le> length r1" "\<forall>kv \<in> set kvs. cbor_depth (snd kv) \<le> d"
      using read_times_rest [OF obj(2), of "\<lambda>kv. cbor_nodes (snd kv)"] read_times_all [OF obj(2), of "\<lambda>kv. cbor_depth (snd kv) \<le> d"] p by blast+
    moreover have "\<forall>(k, v) \<in> set ?m. cbor_depth v \<le> d" using calculation(2) in_foldl_mset [of _ _ "[]" kvs] by fastforce
    ultimately show ?thesis using obj sum_foldl_mset [of cbor_nodes "[]" kvs] by (auto simp: fold_max_le case_prod_beta')
  qed (use cbor_depth_pos in simp)
qed simp

section \<open>Determinism\<close>

lemma sort_key_perm: "mset xs = mset ys \<Longrightarrow> inj_on f (set xs) \<Longrightarrow> sort_key f xs = sort_key f ys"
  by (rule sort_key_inj_key_eq) simp_all

lemma encode_perm:
  assumes "mset kvs = mset kvs'" "distinct (map fst (map (\<lambda>(k, v). (kb k, w v)) kvs))"
  shows "sort_key fst (map (\<lambda>(k, v). (kb k, w v)) kvs) = sort_key fst (map (\<lambda>(k, v). (kb k, w v)) kvs')"
  using assms by (intro sort_key_perm) (auto simp: distinct_map intro: inj_on_imageI)

text \<open>C37 Decoding undoes encoding, whatever bytes follow: a value of at most 64 levels, made of texts without lone surrogates or a leading byte-order mark, integers of absolute value below 2 ^ 53, doubles that are no integers, byte strings, arrays, objects whose keys are such texts, and maps whose keys are such texts or non-negative integers below 2 ^ 53, no two of one map with the same text (1 and "1"), comes back as it was, except that maps become objects under the texts of their keys, and that in objects and maps alike the keys that are array indices come first, in ascending order, and the others in the order of their encoded bytes. And the bytes of a map do not depend on the order its entries were inserted in. (A negative key does not come back: see \<open>negative_key_lost\<close>.)\<close>

theorem cbor_round_trip:
  assumes "cbor_ok v" "cbor_depth v \<le> 64"
  shows "decodeCbor T (encodeCbor v @ rest) = Some (cbor_view v)
    \<and> (\<forall>kvs kvs'. v = CMap kvs \<longrightarrow> mset kvs = mset kvs' \<longrightarrow> distinct (map (key_bytes \<circ> fst) kvs) \<longrightarrow> encodeCbor (CMap kvs') = encodeCbor v)"
proof (intro conjI allI impI)
  show "decodeCbor T (encodeCbor v @ rest) = Some (cbor_view v)"
    using cbor.dec_enc [of v T rest] assms by (simp add: decodeCbor_def encodeCbor_def MAX_CBOR_DEPTH_def)
  fix kvs kvs'
  assume v: "v = CMap kvs" and m: "mset kvs = mset kvs'" and "distinct (map (key_bytes \<circ> fst) kvs)"
  then have "distinct (map fst (map (\<lambda>(k, v). (key_bytes k, cbor_encode v)) kvs))" by (simp add: comp_def case_prod_beta')
  from encode_perm [OF m this] mset_eq_length [OF m] show "encodeCbor (CMap kvs') = encodeCbor v" by (simp add: v encodeCbor_def)
qed

text \<open>A negative integer key is written as an unsigned one: the key - 11 comes back as the text "true".\<close>

theorem negative_key_lost: "decodeCbor T (encodeCbor (CMap [(KInt (- 11), CNull)])) = Some (CObj [(js ''true'', CNull)])"
proof -
  have "encodeCbor (CMap [(KInt (- 11), CNull)]) = [0xA1, 0xF5, 0xF6]"
    by (simp add: encodeCbor_def key_bytes_def encodeHeadBytes_def)
  moreover have "cbor_decode T (Suc (Suc d)) [0xA1, 0xF5, 0xF6] = Some (CObj [(js ''true'', CNull)], [])" for d
    by (simp add: decodeUint_def read_pair_def Let_def obj_put_def mhas_def array_index_def digit_char_def ascii_eval)
  from this [of 62] have "cbor_decode T 64 [0xA1, 0xF5, 0xF6] = Some (CObj [(js ''true'', CNull)], [])" by (simp del: cbor_decode.simps)
  ultimately show ?thesis by (simp only: decodeCbor_def MAX_CBOR_DEPTH_def) simp
qed

text \<open>The keys 1 and "1" of a map fall together: one of the two values is lost.\<close>

theorem equal_key_texts_collide:
  "decodeCbor T (encodeCbor (CMap [(KInt 1, CNull), (KText (js ''1''), CBool True)])) = Some (CObj [(js ''1'', CBool True)])"
proof -
  have "encodeCbor (CMap [(KInt 1, CNull), (KText (js ''1''), CBool True)]) = [0xA2, 1, 0xF6, 0x61, 49, 0xF5]"
    by (simp add: encodeCbor_def key_bytes_def encodeHeadBytes_def encodeString_def utf8Encode_def utf8_cp_def is_high_def is_low_def ascii_eval)
  moreover have "cbor_decode T (Suc (Suc d)) [0xA2, 1, 0xF6, 0x61, 49, 0xF5] = Some (CObj [(js ''1'', CBool True)], [])" for d
  proof -
    have "utf8Decode [49] = [49]" by (simp add: utf8Decode_def u8_head_def utf16_of_def)
    moreover have "show_int 1 = [49]" by (simp add: show_int_def show_nat.simps)
    moreover have "read_times 2 rd bs = (case rd bs of None \<Rightarrow> None | Some (x, r) \<Rightarrow> map_option (\<lambda>(xs, r). (x # xs, r)) (read_times 1 rd r))"
      for rd :: "(jstr \<times> cbor) reader" and bs
      unfolding numeral_2_eq_2 One_nat_def by (rule read_times.simps(2))
    ultimately show ?thesis
      by (simp add: decodeUint_def read_pair_def read_bytes_def Let_def obj_put_def mhas_def array_index_def digit_char_def ascii_eval)
  qed
  from this [of 62] have "cbor_decode T 64 [0xA2, 1, 0xF6, 0x61, 49, 0xF5] = Some (CObj [(js ''1'', CBool True)], [])" by (simp del: cbor_decode.simps)
  ultimately show ?thesis by (simp only: decodeCbor_def MAX_CBOR_DEPTH_def) simp
qed

text \<open>C38 Decoding is bounded by its input: whatever the bytes announce, the decoder yields no more nodes than it was given bytes, and nothing nested deeper than 64 levels.\<close>

theorem cbor_decode_bounded:
  assumes "decodeCbor T bs = Some v"
  shows "cbor_nodes v \<le> length bs \<and> cbor_depth v \<le> 64"
  using assms decode_bounds [of T 64 bs v] by (auto simp: decodeCbor_def MAX_CBOR_DEPTH_def)

text \<open>A nest of one-element arrays deeper than the limit is refused.\<close>

lemma deep_array_refused: "cbor_decode T d (replicate d 0x81 @ r) = None"
proof (induction d)
  case (Suc d)
  have "cbor_decode T (Suc d) (0x81 # s) = map_option (\<lambda>(vs, r). (CArr vs, r)) (read_times 1 (cbor_decode T d) s)" for s
    by (simp add: Let_def decodeUint_def)
  from this [of "replicate d 0x81 @ r"] Suc show ?case by (simp del: cbor_decode.simps)
qed simp

section \<open>The properties at work\<close>

definition demo_map :: cbor where
  "demo_map = CMap [(KInt 7, CStr (js ''x'')), (KInt 1, CArr [CBool True, CNum (Fin 300)])]"

lemma demo_map_ok: "cbor_ok demo_map \<and> cbor_depth demo_map \<le> 64"
  by (simp add: demo_map_def key_ok_def key_text_def show_int_def show_nat.simps text_ok_def ascii_eval is_high_def is_low_def
      bom_def utf8Encode_def utf8_cp_def)

theorem cbor_round_trip_witness:
  "decodeCbor (\<lambda>c. []) (encodeCbor demo_map @ [1, 2]) = Some (cbor_view demo_map)"
  using cbor_round_trip [of demo_map "\<lambda>c. []" "[1, 2]"] demo_map_ok by blast

theorem cbor_decode_bounded_witness:
  "cbor_nodes (cbor_view demo_map) \<le> length (encodeCbor demo_map)"
  using cbor_decode_bounded [of "\<lambda>c. []" "encodeCbor demo_map" "cbor_view demo_map"]
    cbor.dec_enc [of demo_map "\<lambda>c. []" "[]"] demo_map_ok
  by (simp add: decodeCbor_def encodeCbor_def MAX_CBOR_DEPTH_def)

end
