(* ===== verification/EnvelopeCbor.thy ===== *)
theory EnvelopeCbor
  imports Cbor Capability
begin

text \<open>
  \<open>src/envelopeCbor.ts\<close>: envelopes as CBOR maps with numeric keys, and the strict
  reading back. A decoded envelope is the JSON value a JSON body would have given, since
  its version, intent and algorithm are only known to be strings.
\<close>

section \<open>Envelopes as values\<close>

fun alg_text :: "sig_alg \<Rightarrow> jstr" where
  "alg_text HS256 = js ''HS256''"
| "alg_text ED25519 = js ''ED25519''"

lemma alg_text_inj [simp]: "alg_text a = alg_text b \<longleftrightarrow> a = b"
  by (cases a; cases b) simp_all

definition signature_json :: "signature \<Rightarrow> json" where
  "signature_json s = JObj [(js ''alg'', JStr (alg_text (alg s))), (js ''keyId'', JStr (keyId s)), (js ''value'', JStr (sigValue s))]"

definition envelope_json :: "envelope \<Rightarrow> json" where
  "envelope_json e = JObj ([(js ''header'', header_json (header e)), (js ''body'', body_json (body e))]
     @ opt_field ''signature'' signature_json (signature e))"

section \<open>Encoding\<close>

definition opt_entry :: "int \<Rightarrow> jstr option \<Rightarrow> (map_key \<times> cbor) list" where
  "opt_entry i v = (case v of None \<Rightarrow> [] | Some s \<Rightarrow> [(KInt i, CStr s)])"

definition header_map :: "header \<Rightarrow> cbor" where
  "header_map h = CMap ([(KInt 1, CStr (version h)), (KInt 2, CStr (messageId h)), (KInt 3, CNum (timestampMs h)),
     (KInt 4, CNum (ttlMs h)), (KInt 5, CStr (sender h))] @ opt_entry 6 (recipient h) @ [(KInt 7, CStr (nonce h))])"

definition body_map :: "body \<Rightarrow> cbor" where
  "body_map b = CMap ([(KInt 1, CStr (intent_text (intent b))), (KInt 2, CStr (content b))]
     @ opt_entry 3 (capability b) @ opt_entry 4 (correlationId b))"

definition signature_map :: "signature \<Rightarrow> cbor" where
  "signature_map s = CMap [(KInt 1, CStr (alg_text (alg s))), (KInt 2, CStr (keyId s)), (KInt 3, CStr (sigValue s))]"

definition envelope_map :: "envelope \<Rightarrow> cbor" where
  "envelope_map e = CMap ([(KInt 1, header_map (header e)), (KInt 2, body_map (body e))]
     @ (case signature e of None \<Rightarrow> [] | Some s \<Rightarrow> [(KInt 3, signature_map s)]))"

definition encodeEnvelopeCbor :: "envelope \<Rightarrow> bytes" where
  "encodeEnvelopeCbor e = encodeCbor (envelope_map e)"

section \<open>Decoding\<close>

text \<open>A member of a decoded value; only objects have string members.\<close>

definition cmember :: "cbor \<Rightarrow> string \<Rightarrow> cbor option" where
  "cmember v name = (case v of CObj kvs \<Rightarrow> map_of kvs (js name) | _ \<Rightarrow> None)"

definition expectString :: "cbor option \<Rightarrow> jstr option" where
  "expectString v = (case v of Some (CStr s) \<Rightarrow> Some s | _ \<Rightarrow> None)"

text \<open>Outer \<open>None\<close>: it throws.\<close>

definition expectOptionalString :: "cbor option \<Rightarrow> jstr option option" where
  "expectOptionalString v = (case v of None \<Rightarrow> Some None | Some x \<Rightarrow> map_option Some (expectString (Some x)))"

text \<open>
  The source also accepts a double that is no integer; the JSON values of this
  development have no such number, so it counts as refused here.
\<close>

definition expectFiniteNumber :: "cbor option \<Rightarrow> jnum option" where
  "expectFiniteNumber v = (case v of Some (CNum (Fin n)) \<Rightarrow> Some (Fin n) | _ \<Rightarrow> None)"

text \<open>A value that is an object and no array; byte strings pass the source's test too, but have no members.\<close>

definition expect_map :: "cbor option \<Rightarrow> cbor option" where
  "expect_map v = (case v of Some (CObj kvs) \<Rightarrow> Some (CObj kvs) | _ \<Rightarrow> None)"

definition decode_header :: "cbor \<Rightarrow> json option" where
  "decode_header hr =
    (case (expectString (cmember hr ''1''), expectString (cmember hr ''2''), expectFiniteNumber (cmember hr ''3''),
           expectFiniteNumber (cmember hr ''4''), expectString (cmember hr ''5''), expectString (cmember hr ''7''),
           expectOptionalString (cmember hr ''6'')) of
       (Some v, Some m, Some ts, Some ttl, Some s, Some n, Some rc) \<Rightarrow>
         Some (JObj ([(js ''version'', JStr v), (js ''messageId'', JStr m), (js ''timestampMs'', JNum ts), (js ''ttlMs'', JNum ttl),
           (js ''sender'', JStr s), (js ''nonce'', JStr n)] @ opt_json ''recipient'' rc))
     | _ \<Rightarrow> None)"

definition decode_body :: "cbor \<Rightarrow> json option" where
  "decode_body br =
    (case (expectString (cmember br ''1''), expectString (cmember br ''2''),
           expectOptionalString (cmember br ''3''), expectOptionalString (cmember br ''4'')) of
       (Some i, Some c, Some cap, Some cor) \<Rightarrow>
         Some (JObj ([(js ''intent'', JStr i), (js ''content'', JStr c)] @ opt_json ''capability'' cap @ opt_json ''correlationId'' cor))
     | _ \<Rightarrow> None)"

text \<open>Outer \<open>None\<close>: it throws; inner \<open>None\<close>: no signature.\<close>

definition decode_signature :: "cbor option \<Rightarrow> json option option" where
  "decode_signature sigRaw =
    (case sigRaw of
       None \<Rightarrow> Some None
     | Some CNull \<Rightarrow> Some None
     | Some sr \<Rightarrow>
         (case (expectString (cmember sr ''1''), expectString (cmember sr ''2''), expectString (cmember sr ''3'')) of
            (Some a, Some k, Some v) \<Rightarrow> Some (Some (JObj [(js ''alg'', JStr a), (js ''keyId'', JStr k), (js ''value'', JStr v)]))
          | _ \<Rightarrow> None))"

definition decodeEnvelopeCbor :: "(cbor \<Rightarrow> jstr) \<Rightarrow> bytes \<Rightarrow> json option" where
  "decodeEnvelopeCbor T bs =
    (case expect_map (decodeCbor T bs) of
       None \<Rightarrow> None
     | Some t \<Rightarrow>
         (case (expect_map (cmember t ''1''), expect_map (cmember t ''2'')) of
            (Some hr, Some br) \<Rightarrow>
              (case (decode_header hr, decode_body br, decode_signature (cmember t ''3'')) of
                 (Some h, Some b, Some sg) \<Rightarrow> Some (JObj ([(js ''header'', h), (js ''body'', b)] @ opt_field ''signature'' id sg))
               | _ \<Rightarrow> None)
          | _ \<Rightarrow> None))"

section \<open>Round trip\<close>

lemma show_keys:
  "show_int 1 = js ''1''" "show_int 2 = js ''2''" "show_int 3 = js ''3''" "show_int 4 = js ''4''"
  "show_int 5 = js ''5''" "show_int 6 = js ''6''" "show_int 7 = js ''7''"
  by (simp_all add: show_int_def show_nat.simps ascii_eval)

lemma key_heads:
  "encodeHeadBytes 0 1 = [1]" "encodeHeadBytes 0 2 = [2]" "encodeHeadBytes 0 3 = [3]" "encodeHeadBytes 0 4 = [4]"
  "encodeHeadBytes 0 5 = [5]" "encodeHeadBytes 0 6 = [6]" "encodeHeadBytes 0 7 = [7]"
  by (simp_all add: encodeHeadBytes_def)

lemmas envelope_map_defs = header_map_def body_map_def signature_map_def envelope_map_def opt_entry_def

lemma index_keys:
  "array_index (js ''1'') = Some 1" "array_index (js ''2'') = Some 2" "array_index (js ''3'') = Some 3" "array_index (js ''4'') = Some 4"
  "array_index (js ''5'') = Some 5" "array_index (js ''6'') = Some 6" "array_index (js ''7'') = Some 7"
  by (simp_all add: array_index_def digit_char_def ascii_eval)

lemmas view_keys = show_keys key_heads key_bytes_def key_text_def index_keys js_order_def index_of_key_def

definition opt_pair :: "string \<Rightarrow> ('a \<Rightarrow> 'b) \<Rightarrow> 'a option \<Rightarrow> (jstr \<times> 'b) list" where
  "opt_pair name f v = (case v of None \<Rightarrow> [] | Some x \<Rightarrow> [(js name, f x)])"

lemma view_header: "cbor_view (header_map h) = CObj ([(js ''1'', CStr (version h)), (js ''2'', CStr (messageId h)),
    (js ''3'', CNum (timestampMs h)), (js ''4'', CNum (ttlMs h)), (js ''5'', CStr (sender h))]
    @ opt_pair ''6'' CStr (recipient h) @ [(js ''7'', CStr (nonce h))])"
  by (cases "recipient h") (simp_all add: envelope_map_defs view_keys opt_pair_def)

lemma view_body: "cbor_view (body_map b) = CObj ([(js ''1'', CStr (intent_text (intent b))), (js ''2'', CStr (content b))]
    @ opt_pair ''3'' CStr (capability b) @ opt_pair ''4'' CStr (correlationId b))"
  by (cases "capability b"; cases "correlationId b") (simp_all add: envelope_map_defs view_keys opt_pair_def)

lemma view_signature: "cbor_view (signature_map s) = CObj [(js ''1'', CStr (alg_text (alg s))), (js ''2'', CStr (keyId s)), (js ''3'', CStr (sigValue s))]"
  by (simp add: envelope_map_defs view_keys)

lemma view_envelope: "cbor_view (envelope_map e) = CObj ([(js ''1'', cbor_view (header_map (header e))), (js ''2'', cbor_view (body_map (body e)))]
    @ opt_pair ''3'' (\<lambda>s. cbor_view (signature_map s)) (signature e))"
  by (cases "signature e") (simp_all add: envelope_map_def view_keys opt_pair_def)

text \<open>What CBOR carries faithfully: sendable texts, and times of less than 53 bits.\<close>

definition opt_ok :: "jstr option \<Rightarrow> bool" where
  "opt_ok v = (case v of None \<Rightarrow> True | Some s \<Rightarrow> text_ok s)"

definition time_ok :: "jnum \<Rightarrow> bool" where
  "time_ok t = (case t of Fin n \<Rightarrow> \<bar>n\<bar> < 2 ^ 53 | _ \<Rightarrow> False)"

definition envelope_sendable :: "envelope \<Rightarrow> bool" where
  "envelope_sendable e \<longleftrightarrow>
     (let h = header e; b = body e in
      text_ok (version h) \<and> text_ok (messageId h) \<and> text_ok (sender h) \<and> text_ok (nonce h) \<and> opt_ok (recipient h)
      \<and> time_ok (timestampMs h) \<and> time_ok (ttlMs h)
      \<and> text_ok (content b) \<and> opt_ok (capability b) \<and> opt_ok (correlationId b)
      \<and> (case signature e of None \<Rightarrow> True | Some s \<Rightarrow> text_ok (keyId s) \<and> text_ok (sigValue s)))"

lemma intent_ok: "text_ok (intent_text i)" and alg_ok: "text_ok (alg_text a)"
  by (cases i; simp add: text_ok_def ascii_eval is_high_def is_low_def bom_def utf8Encode_def utf8_cp_def)
     (cases a; simp add: text_ok_def ascii_eval is_high_def is_low_def bom_def utf8Encode_def utf8_cp_def)

lemma envelope_map_ok:
  assumes "envelope_sendable e"
  shows "cbor_ok (envelope_map e) \<and> cbor_depth (envelope_map e) \<le> MAX_CBOR_DEPTH"
proof -
  let ?h = "header e" and ?b = "body e"
  have h: "cbor_ok (header_map ?h) \<and> cbor_depth (header_map ?h) = 2"
    using assms by (cases "recipient ?h"; cases "timestampMs ?h"; cases "ttlMs ?h")
      (simp_all add: envelope_map_defs key_ok_def key_text_def show_keys envelope_sendable_def opt_ok_def time_ok_def Let_def)
  have b: "cbor_ok (body_map ?b) \<and> cbor_depth (body_map ?b) = 2"
    using assms by (cases "capability ?b"; cases "correlationId ?b")
      (simp_all add: envelope_map_defs key_ok_def key_text_def show_keys envelope_sendable_def opt_ok_def intent_ok Let_def)
  have s: "cbor_ok (signature_map s) \<and> cbor_depth (signature_map s) = 2" if "signature e = Some s" for s
    using assms that by (simp add: envelope_map_defs key_ok_def key_text_def show_keys envelope_sendable_def alg_ok Let_def)
  show ?thesis using h b s
    by (cases "signature e") (simp_all add: envelope_map_def key_ok_def key_text_def show_keys MAX_CBOR_DEPTH_def)
qed

lemma decode_header_view: "time_ok (timestampMs h) \<Longrightarrow> time_ok (ttlMs h) \<Longrightarrow> decode_header (cbor_view (header_map h)) = Some (header_json h)"
  by (cases "recipient h"; cases "timestampMs h"; cases "ttlMs h")
    (simp_all add: view_header decode_header_def cmember_def expectString_def expectOptionalString_def expectFiniteNumber_def
      time_ok_def opt_pair_def opt_json_def header_json_def)

lemma decode_body_view: "decode_body (cbor_view (body_map b)) = Some (body_json b)"
  by (cases "capability b"; cases "correlationId b")
    (simp_all add: view_body decode_body_def cmember_def expectString_def expectOptionalString_def opt_pair_def opt_json_def body_json_def)

lemma decode_signature_view: "decode_signature (Some (cbor_view (signature_map s))) = Some (Some (signature_json s))"
  by (simp add: view_signature decode_signature_def cmember_def expectString_def signature_json_def)

lemma envelope_decoded:
  assumes "envelope_sendable e"
  shows "decodeEnvelopeCbor T (encodeEnvelopeCbor e @ rest) = Some (envelope_json e)"
proof -
  have d: "decodeCbor T (encodeEnvelopeCbor e @ rest) = Some (cbor_view (envelope_map e))"
    using cbor.dec_enc [of "envelope_map e" T rest] envelope_map_ok [OF assms]
    by (simp add: decodeCbor_def encodeEnvelopeCbor_def encodeCbor_def)
  have m: "expect_map (Some (cbor_view (header_map h))) = Some (cbor_view (header_map h))"
    "expect_map (Some (cbor_view (body_map b))) = Some (cbor_view (body_map b))" for h b
    by (simp_all add: expect_map_def view_header view_body)
  have t: "time_ok (timestampMs (header e))" "time_ok (ttlMs (header e))"
    using assms by (simp_all add: envelope_sendable_def Let_def)
  show ?thesis
  proof (cases "signature e")
    case None
    then show ?thesis unfolding decodeEnvelopeCbor_def d view_envelope
      by (simp add: expect_map_def [of "Some (CObj x)" for x] cmember_def opt_pair_def m decode_header_view [OF t] decode_body_view
          decode_signature_def envelope_json_def opt_field_def)
  next
    case (Some s)
    then show ?thesis unfolding decodeEnvelopeCbor_def d view_envelope
      by (simp add: expect_map_def [of "Some (CObj x)" for x] cmember_def opt_pair_def m decode_header_view [OF t] decode_body_view
          decode_signature_view envelope_json_def opt_field_def)
  qed
qed

lemma envelope_cbor_decoded: "envelope_sendable e \<Longrightarrow> decodeEnvelopeCbor T (encodeEnvelopeCbor e) = Some (envelope_json e)"
  using envelope_decoded [of e T "[]"] by simp

text \<open>An envelope of sendable texts and finite times survives the CBOR encoding: decoding its bytes, whatever follows them, gives the JSON value of that envelope, signature included.\<close>

theorem envelope_cbor_round_trip:
  assumes "envelope_sendable e"
  shows "decodeEnvelopeCbor T (encodeEnvelopeCbor e @ rest) = Some (envelope_json e)"
  by (rule envelope_decoded) (rule assms)

text \<open>A leading byte-order mark does not survive: \<open>TextDecoder\<close> drops it.\<close>

lemma bom_dropped: "decodeCbor T (encodeCbor (CStr [0xFEFF, 97])) = Some (CStr [97])"
proof -
  have e: "utf8Encode [0xFEFF, 97] = [0xEF, 0xBB, 0xBF, 97]"
    by (simp add: utf8Encode_def utf8_cp_def is_high_def is_low_def)
  have d: "utf8Decode [0xEF, 0xBB, 0xBF, 97] = [97]"
    by (simp add: utf8Decode_def u8_head_def utf16_of_def)
  have "cbor_decode T (Suc d) (encodeString [0xFEFF, 97] @ []) = Some (CStr [97], [])" for d
    unfolding encodeString_def e using read_head [of 3 4] by (auto simp: d read_bytes_def)
  from this [of 63] show ?thesis by (simp add: decodeCbor_def encodeCbor_def MAX_CBOR_DEPTH_def del: cbor_decode.simps)
qed

definition demo_envelope :: envelope where
  "demo_envelope = \<lparr>header = demo_header 5 10, body = demo_body, signature = Some \<lparr>alg = ED25519, keyId = js ''k'', sigValue = js ''AA''\<rparr>\<rparr>"

lemma demo_sendable: "envelope_sendable demo_envelope"
  by (simp add: demo_envelope_def envelope_sendable_def demo_header_def demo_body_def protocol_version_def text_ok_def opt_ok_def time_ok_def
      ascii_eval is_high_def is_low_def bom_def utf8Encode_def utf8_cp_def Let_def)

theorem envelope_cbor_round_trip_witness:
  "decodeEnvelopeCbor (\<lambda>c. []) (encodeEnvelopeCbor demo_envelope @ [0]) = Some (envelope_json demo_envelope)"
  by (rule envelope_cbor_round_trip) (rule demo_sendable)

end
