(* ===== verification/BinaryCodec.thy ===== *)
theory BinaryCodec
  imports EnvelopeCbor
begin

text \<open>
  \<open>src/protocolBinary.ts\<close>: the length-prefixed binary frame of an envelope. The writer
  fills a buffer of exactly the computed size, so its result is the concatenation of what
  is written; the reader is a chain of readers, an early end of the bytes being the caught
  error \<open>UnexpectedEnd\<close>.
\<close>

definition MAGIC :: bytes where
  "MAGIC = [0x41, 0x49, 0x50, 0x42]"

definition FORMAT_VERSION :: byte where
  "FORMAT_VERSION = 1"

definition DEFAULT_MAX_BINARY_ENVELOPE_BYTES :: nat where
  "DEFAULT_MAX_BINARY_ENVELOPE_BYTES = 1024 * 1024"

text \<open>Intents the decoder knows; \<open>ENCRYPTED\<close> is not among them.\<close>

definition binary_intents :: "intent list" where
  "binary_intents = [PING, PONG, CAPS, TASK, RESULT, ERROR]"

section \<open>Writer\<close>

definition signatureAlgCode :: "sig_alg \<Rightarrow> byte" where
  "signatureAlgCode a = (if a = ED25519 then 2 else 1)"

definition signatureAlgFromCode :: "byte \<Rightarrow> sig_alg option" where
  "signatureAlgFromCode c = (if c = 1 then Some HS256 else if c = 2 then Some ED25519 else None)"

text \<open>A truthy optional string: present and not empty.\<close>

definition truthy :: "jstr option \<Rightarrow> bool" where
  "truthy v = (case v of Some s \<Rightarrow> s \<noteq> [] | None \<Rightarrow> False)"

definition writeString :: "jstr \<Rightarrow> bytes" where
  "writeString s = be_bytes 4 (length (utf8Encode s)) @ utf8Encode s"

definition write_opt :: "jstr option \<Rightarrow> bytes" where
  "write_opt v = (if truthy v then writeString (the v) else [])"

definition write_signature :: "signature option \<Rightarrow> bytes" where
  "write_signature sg = (case sg of None \<Rightarrow> [] | Some s \<Rightarrow> signatureAlgCode (alg s) # writeString (keyId s) @ writeString (sigValue s))"

definition envelope_flags :: "envelope \<Rightarrow> byte" where
  "envelope_flags e =
    or (or (if truthy (recipient (header e)) then 1 else 0) (if truthy (capability (body e)) then 2 else 0))
       (or (if truthy (correlationId (body e)) then 4 else 0) (if signature e \<noteq> None then 8 else 0))"

text \<open>\<open>setBigUint64(BigInt(n))\<close> throws for a number that is no integer; \<open>setUint32\<close> takes what it gets.\<close>

definition u64_of :: "jnum \<Rightarrow> nat option" where
  "u64_of n = (case n of Fin i \<Rightarrow> Some (nat (i mod 2 ^ 64)) | _ \<Rightarrow> None)"

definition u32_of :: "jnum \<Rightarrow> nat" where
  "u32_of n = (case n of Fin i \<Rightarrow> nat (i mod 2 ^ 32) | _ \<Rightarrow> 0)"

definition encodeEnvelopeBinary :: "envelope \<Rightarrow> bytes option" where
  "encodeEnvelopeBinary e =
    (let h = header e; b = body e in
     map_option (\<lambda>ts.
       MAGIC @ [FORMAT_VERSION, envelope_flags e] @ be_bytes 8 ts @ be_bytes 4 (u32_of (ttlMs h))
       @ concat (map writeString [version h, messageId h, sender h, nonce h, intent_text (intent b), content b])
       @ write_opt (recipient h) @ write_opt (capability b) @ write_opt (correlationId b)
       @ write_signature (signature e)) (u64_of (timestampMs h)))"

section \<open>Reader\<close>

datatype binary_failure =
  FrameTooLarge nat | BadMagic | BadFormatVersion nat | UnexpectedEnd | BadProtocolVersion jstr | BadIntent jstr
  | BadSignatureAlg nat | TrailingBytes

definition readString :: "jstr reader" where
  "readString bs =
    (case read_be 4 bs of
       None \<Rightarrow> None
     | Some (n, r) \<Rightarrow> map_option (\<lambda>(b, r'). (utf8Decode b, r')) (read_bytes n r))"

definition read_opt :: "bool \<Rightarrow> jstr option reader" where
  "read_opt b bs = (if b then map_option (\<lambda>(s, r). (Some s, r)) (readString bs) else Some (None, bs))"

text \<open>The fixed part after the format version: flags, times and the six required strings.\<close>

definition read_fixed :: "(byte \<times> nat \<times> nat \<times> jstr list) reader" where
  "read_fixed bs =
    (case read_byte bs of
       None \<Rightarrow> None
     | Some (flags, r) \<Rightarrow>
         (case read_be 8 r of
            None \<Rightarrow> None
          | Some (ts, r) \<Rightarrow>
              (case read_be 4 r of
                 None \<Rightarrow> None
               | Some (ttl, r) \<Rightarrow> map_option (\<lambda>(ss, r). ((flags, to_double ts, ttl, ss), r)) (read_times 6 readString r))))"

definition read_options :: "byte \<Rightarrow> (jstr option \<times> jstr option \<times> jstr option) reader" where
  "read_options flags bs =
    (case read_opt (and flags 1 \<noteq> 0) bs of
       None \<Rightarrow> None
     | Some (a, r) \<Rightarrow>
         (case read_opt (and flags 2 \<noteq> 0) r of
            None \<Rightarrow> None
          | Some (b, r) \<Rightarrow> map_option (\<lambda>(c, r). ((a, b, c), r)) (read_opt (and flags 4 \<noteq> 0) r)))"

definition read_signature :: "byte \<Rightarrow> bytes \<Rightarrow> binary_failure + (signature option \<times> bytes)" where
  "read_signature flags bs =
    (if and flags 8 = 0 then Inr (None, bs)
     else case read_byte bs of
       None \<Rightarrow> Inl UnexpectedEnd
     | Some (code, r) \<Rightarrow>
         (case signatureAlgFromCode code of
            None \<Rightarrow> Inl (BadSignatureAlg (unat code))
          | Some a \<Rightarrow>
              (case read_times 2 readString r of
                 Some ([k, v], r) \<Rightarrow> Inr (Some \<lparr>alg = a, keyId = k, sigValue = v\<rparr>, r)
               | _ \<Rightarrow> Inl UnexpectedEnd)))"

definition known_intent :: "jstr \<Rightarrow> intent option" where
  "known_intent s = List.find (\<lambda>i. intent_text i = s) binary_intents"

text \<open>The part of \<open>decodeEnvelopeBinary\<close> after the fixed fields.\<close>

definition decode_rest :: "byte \<Rightarrow> nat \<Rightarrow> nat \<Rightarrow> jstr list \<Rightarrow> bytes \<Rightarrow> binary_failure + envelope" where
  "decode_rest flags ts ttl ss bs =
    (case ss of
       [ver, mid, sdr, non, knd, con] \<Rightarrow>
         if ver \<noteq> protocol_version then Inl (BadProtocolVersion ver)
         else (case known_intent knd of
            None \<Rightarrow> Inl (BadIntent knd)
          | Some i \<Rightarrow>
              (case read_options flags bs of
                 None \<Rightarrow> Inl UnexpectedEnd
               | Some ((rc, cap, cor), r) \<Rightarrow>
                   (case read_signature flags r of
                      Inl e \<Rightarrow> Inl e
                    | Inr (sg, r) \<Rightarrow>
                        if r \<noteq> [] then Inl TrailingBytes
                        else Inr \<lparr>header = \<lparr>version = ver, messageId = mid, timestampMs = Fin (of_nat ts), ttlMs = Fin (of_nat ttl),
                               sender = sdr, recipient = rc, nonce = non\<rparr>,
                             body = \<lparr>intent = i, content = con, capability = cap, correlationId = cor\<rparr>,
                             signature = sg\<rparr>)))
     | _ \<Rightarrow> Inl UnexpectedEnd)"

definition decodeEnvelopeBinary :: "nat \<Rightarrow> bytes \<Rightarrow> binary_failure + envelope" where
  "decodeEnvelopeBinary maxFrameBytes payload =
    (if maxFrameBytes < length payload then Inl (FrameTooLarge maxFrameBytes)
     else case read_times 4 read_byte payload of
       None \<Rightarrow> Inl UnexpectedEnd
     | Some (magic, r) \<Rightarrow>
         if magic \<noteq> MAGIC then Inl BadMagic
         else (case read_byte r of
            None \<Rightarrow> Inl UnexpectedEnd
          | Some (v, r) \<Rightarrow>
              if v \<noteq> FORMAT_VERSION then Inl (BadFormatVersion (unat v))
              else (case read_fixed r of
                 None \<Rightarrow> Inl UnexpectedEnd
               | Some ((flags, ts, ttl, ss), r) \<Rightarrow> decode_rest flags ts ttl ss r)))"

section \<open>Round trip\<close>

definition frame_text :: "jstr \<Rightarrow> bool" where
  "frame_text s \<longleftrightarrow> well_formed s \<and> take 1 (code_points s) \<noteq> [bom] \<and> length (utf8Encode s) < 256 ^ 4"

definition frame_opt :: "jstr option \<Rightarrow> bool" where
  "frame_opt v = (case v of None \<Rightarrow> True | Some s \<Rightarrow> frame_text s \<and> s \<noteq> [])"

definition frame_ok :: "envelope \<Rightarrow> bool" where
  "frame_ok e \<longleftrightarrow>
     (let h = header e; b = body e in
      version h = protocol_version \<and> frame_text (messageId h) \<and> frame_text (sender h) \<and> frame_text (nonce h)
      \<and> (\<exists>ts. timestampMs h = Fin ts \<and> 0 \<le> ts \<and> ts < 2 ^ 53) \<and> (\<exists>ttl. ttlMs h = Fin ttl \<and> 0 \<le> ttl \<and> ttl < 2 ^ 32)
      \<and> intent b \<noteq> ENCRYPTED \<and> frame_text (content b)
      \<and> frame_opt (recipient h) \<and> frame_opt (capability b) \<and> frame_opt (correlationId b)
      \<and> (case signature e of None \<Rightarrow> True | Some s \<Rightarrow> frame_text (keyId s) \<and> frame_text (sigValue s)))"

interpretation frame_string: prefix_codec writeString readString id frame_text
  by unfold_locales (simp add: writeString_def readString_def frame_text_def read_be_append utf8_roundtrip)

lemma read_opt_write: "frame_opt v \<Longrightarrow> read_opt (truthy v) (write_opt v @ r) = Some (v, r)"
  by (cases v) (simp_all add: read_opt_def write_opt_def truthy_def frame_opt_def frame_string.dec_enc)

lemma flag_bits:
  "and (envelope_flags e) 1 \<noteq> 0 \<longleftrightarrow> truthy (recipient (header e))"
  "and (envelope_flags e) 2 \<noteq> 0 \<longleftrightarrow> truthy (capability (body e))"
  "and (envelope_flags e) 4 \<noteq> 0 \<longleftrightarrow> truthy (correlationId (body e))"
  "and (envelope_flags e) 8 = 0 \<longleftrightarrow> signature e = None"
  by (auto simp: envelope_flags_def)

lemma known_intent_text: "i \<noteq> ENCRYPTED \<Longrightarrow> known_intent (intent_text i) = Some i"
  by (cases i) (simp_all add: known_intent_def binary_intents_def)

lemma read_options_write:
  assumes "frame_ok e"
  shows "read_options (envelope_flags e) (write_opt (recipient (header e)) @ write_opt (capability (body e)) @ write_opt (correlationId (body e)) @ r)
    = Some ((recipient (header e), capability (body e), correlationId (body e)), r)"
  using assms by (simp add: read_options_def flag_bits read_opt_write frame_ok_def Let_def)

lemma read_signature_write:
  assumes "frame_ok e"
  shows "read_signature (envelope_flags e) (write_signature (signature e) @ r) = Inr (signature e, r)"
proof (cases "signature e")
  case (Some s)
  have "read_times (length [keyId s, sigValue s]) readString (concat (map writeString [keyId s, sigValue s]) @ r) = Some (map id [keyId s, sigValue s], r)"
    by (rule frame_string.dec_times) (use assms Some in \<open>simp add: frame_ok_def Let_def\<close>)
  then have "read_times 2 readString (writeString (keyId s) @ writeString (sigValue s) @ r) = Some ([keyId s, sigValue s], r)"
    by (simp add: numeral_2_eq_2)
  moreover have "signatureAlgFromCode (signatureAlgCode (alg s)) = Some (alg s)"
    by (cases "alg s") (simp_all add: signatureAlgCode_def signatureAlgFromCode_def)
  ultimately show ?thesis using Some by (simp add: read_signature_def write_signature_def flag_bits)
qed (simp add: read_signature_def write_signature_def flag_bits)

lemma read_fixed_write:
  assumes "ts < 2 ^ 53" "ttl < 2 ^ 32" "\<forall>s \<in> set ss. frame_text s" "length ss = 6"
  shows "read_fixed (fl # be_bytes 8 ts @ be_bytes 4 ttl @ concat (map writeString ss) @ r) = Some ((fl, ts, ttl, ss), r)"
  using frame_string.dec_times [OF assms(3), of r] assms(1,2,4)
  by (simp add: read_fixed_def read_be_append)

text \<open>The encoded frame, read up to the strings the envelope must have.\<close>

definition required_strings :: "envelope \<Rightarrow> jstr list" where
  "required_strings e = [version (header e), messageId (header e), sender (header e), nonce (header e), intent_text (intent (body e)), content (body e)]"

definition optional_part :: "envelope \<Rightarrow> bytes" where
  "optional_part e = write_opt (recipient (header e)) @ write_opt (capability (body e)) @ write_opt (correlationId (body e))
     @ write_signature (signature e)"

lemma decode_frame:
  assumes "encodeEnvelopeBinary e = Some frame" "\<forall>s \<in> set (required_strings e). frame_text s"
    and "timestampMs (header e) = Fin ts" "0 \<le> ts" "ts < 2 ^ 53" "ttlMs (header e) = Fin ttl" "0 \<le> ttl" "ttl < 2 ^ 32"
    and "length (frame @ r) \<le> mx"
  shows "decodeEnvelopeBinary mx (frame @ r) = decode_rest (envelope_flags e) (nat ts) (nat ttl) (required_strings e) (optional_part e @ r)"
proof -
  obtain W where W: "W = concat (map writeString (required_strings e))" by blast
  have "u64_of (timestampMs (header e)) = Some (nat ts)" "u32_of (ttlMs (header e)) = nat ttl"
    using assms(3-8) by (simp_all add: u64_of_def u32_of_def)
  then have f: "frame = MAGIC @ [FORMAT_VERSION, envelope_flags e] @ be_bytes 8 (nat ts) @ be_bytes 4 (nat ttl) @ W @ optional_part e"
    using assms(1) by (simp add: encodeEnvelopeBinary_def Let_def W required_strings_def optional_part_def)
  have fixed: "read_fixed (envelope_flags e # be_bytes 8 (nat ts) @ be_bytes 4 (nat ttl) @ W @ r)
      = Some ((envelope_flags e, nat ts, nat ttl, required_strings e), r)" for r
    unfolding W by (rule read_fixed_write) (use assms(2-8) in \<open>simp_all add: required_strings_def\<close>)
  have m: "read_times 4 read_byte (MAGIC @ s) = Some (MAGIC, s)" for s by (simp add: MAGIC_def numeral_eq_Suc)
  show ?thesis using assms(9) unfolding decodeEnvelopeBinary_def f append_assoc m by (simp add: fixed)
qed

lemma text_constants: "frame_text (intent_text i)" "frame_text protocol_version"
  by (cases i; simp add: frame_text_def ascii_eval is_high_def is_low_def bom_def utf8Encode_def utf8_cp_def)
    (simp add: protocol_version_def frame_text_def ascii_eval is_high_def is_low_def bom_def utf8Encode_def utf8_cp_def)

lemma frame_read:
  assumes "frame_ok e" "encodeEnvelopeBinary e = Some frame" "length (frame @ r) \<le> mx"
  shows "decodeEnvelopeBinary mx (frame @ r) = (if r = [] then Inr e else Inl TrailingBytes)"
proof -
  obtain ts ttl where t: "timestampMs (header e) = Fin ts" "0 \<le> ts" "ts < 2 ^ 53" "ttlMs (header e) = Fin ttl" "0 \<le> ttl" "ttl < 2 ^ 32"
    using assms(1) by (auto simp: frame_ok_def Let_def)
  have ss: "\<forall>s \<in> set (required_strings e). frame_text s"
    using assms(1) text_constants by (simp add: frame_ok_def required_strings_def Let_def)
  have "decode_rest (envelope_flags e) (nat ts) (nat ttl) (required_strings e) (optional_part e @ r)
      = (if r = [] then Inr e else Inl TrailingBytes)"
    using assms(1) read_options_write [OF assms(1), of "write_signature (signature e) @ r"] read_signature_write [OF assms(1), of r] t
    by (simp add: decode_rest_def known_intent_text frame_ok_def Let_def required_strings_def optional_part_def)
  then show ?thesis using decode_frame [OF assms(2) ss t assms(3)] by simp
qed

lemma frame_decoded: "frame_ok e \<Longrightarrow> encodeEnvelopeBinary e = Some frame \<Longrightarrow> length frame \<le> mx \<Longrightarrow> decodeEnvelopeBinary mx frame = Inr e"
  using frame_read [of e frame "[]" mx] by simp

text \<open>A typed envelope survives the binary frame: with sendable texts, no empty optional field, an intent the decoder knows and times in range, decoding the encoded frame gives the envelope back, and one byte more is refused.\<close>

theorem binary_round_trip:
  assumes "frame_ok e" "encodeEnvelopeBinary e = Some frame" "length frame < mx"
  shows "decodeEnvelopeBinary mx frame = Inr e \<and> decodeEnvelopeBinary mx (frame @ [b]) = Inl TrailingBytes"
  using frame_read [OF assms(1,2), of "[]" mx] frame_read [OF assms(1,2), of "[b]" mx] assms(3) by simp

text \<open>The binary frame loses envelopes the protocol allows: an encrypted envelope is encoded without complaint and refused on decoding, and an optional field that is present but empty is encoded as if it were absent, although the signature covers its presence.\<close>

theorem binary_frame_loses:
  assumes "frame_ok e" "encodeEnvelopeBinary (e\<lparr>body := body e\<lparr>intent := ENCRYPTED\<rparr>\<rparr>) = Some frame" "length frame \<le> mx"
  shows "decodeEnvelopeBinary mx frame = Inl (BadIntent (js ''ENCRYPTED''))
    \<and> encodeEnvelopeBinary (e\<lparr>header := header e\<lparr>recipient := Some []\<rparr>\<rparr>) = encodeEnvelopeBinary (e\<lparr>header := header e\<lparr>recipient := None\<rparr>\<rparr>)
    \<and> serializeHeaderCanonical (header e\<lparr>recipient := Some []\<rparr>) \<noteq> serializeHeaderCanonical (header e\<lparr>recipient := None\<rparr>)"
proof (intro conjI)
  let ?e = "e\<lparr>body := body e\<lparr>intent := ENCRYPTED\<rparr>\<rparr>"
  obtain ts ttl where t: "timestampMs (header ?e) = Fin ts" "0 \<le> ts" "ts < 2 ^ 53" "ttlMs (header ?e) = Fin ttl" "0 \<le> ttl" "ttl < 2 ^ 32"
    using assms(1) by (auto simp: frame_ok_def Let_def)
  have ss: "\<forall>s \<in> set (required_strings ?e). frame_text s"
    using assms(1) text_constants(1) [of ENCRYPTED] by (simp add: frame_ok_def required_strings_def Let_def text_constants(2))
  have "version (header e) = protocol_version" using assms(1) by (simp add: frame_ok_def Let_def)
  then have "decode_rest (envelope_flags ?e) (nat ts) (nat ttl) (required_strings ?e) bs = Inl (BadIntent (js ''ENCRYPTED''))" for bs
    by (simp add: decode_rest_def required_strings_def known_intent_def binary_intents_def)
  then show "decodeEnvelopeBinary mx frame = Inl (BadIntent (js ''ENCRYPTED''))"
    using decode_frame [OF assms(2) ss t, of "[]" mx] assms(3) by simp
  show "encodeEnvelopeBinary (e\<lparr>header := header e\<lparr>recipient := Some []\<rparr>\<rparr>) = encodeEnvelopeBinary (e\<lparr>header := header e\<lparr>recipient := None\<rparr>\<rparr>)"
  proof -
    have w: "write_opt (Some []) = write_opt None" by (simp add: write_opt_def truthy_def)
    have "envelope_flags (e\<lparr>header := header e\<lparr>recipient := Some []\<rparr>\<rparr>) = envelope_flags (e\<lparr>header := header e\<lparr>recipient := None\<rparr>\<rparr>)"
      unfolding envelope_flags_def by (simp add: truthy_def)
    then show ?thesis by (simp add: encodeEnvelopeBinary_def Let_def w)
  qed
  show "serializeHeaderCanonical (header e\<lparr>recipient := Some []\<rparr>) \<noteq> serializeHeaderCanonical (header e\<lparr>recipient := None\<rparr>)"
    unfolding serializeHeader_inj by (cases "header e") simp
qed

section \<open>The properties at work\<close>

lemma demo_frame_ok: "frame_ok demo_envelope"
  by (simp add: demo_envelope_def frame_ok_def demo_header_def demo_body_def frame_text_def frame_opt_def
      ascii_eval is_high_def is_low_def bom_def utf8Encode_def utf8_cp_def Let_def)

lemma demo_frame: "\<exists>frame. encodeEnvelopeBinary demo_envelope = Some frame \<and> length frame < 1000"
  by (simp add: encodeEnvelopeBinary_def demo_envelope_def demo_header_def demo_body_def u64_of_def protocol_version_def writeString_def
      write_opt_def truthy_def write_signature_def MAGIC_def ascii_eval is_high_def is_low_def utf8Encode_def utf8_cp_def Let_def)

theorem binary_round_trip_witness:
  "\<exists>frame. decodeEnvelopeBinary 1000 frame = Inr demo_envelope \<and> decodeEnvelopeBinary 1000 (frame @ [0]) = Inl TrailingBytes"
proof -
  obtain frame where "encodeEnvelopeBinary demo_envelope = Some frame" "length frame < 1000" using demo_frame by blast
  from binary_round_trip [OF demo_frame_ok this] show ?thesis by blast
qed

theorem binary_frame_loses_witness:
  "\<exists>frame. decodeEnvelopeBinary 1000 frame = Inl (BadIntent (js ''ENCRYPTED''))"
proof -
  have "\<exists>frame. encodeEnvelopeBinary (demo_envelope\<lparr>body := body demo_envelope\<lparr>intent := ENCRYPTED\<rparr>\<rparr>) = Some frame \<and> length frame \<le> 1000"
    by (simp add: encodeEnvelopeBinary_def demo_envelope_def demo_header_def demo_body_def u64_of_def protocol_version_def writeString_def
      write_opt_def truthy_def write_signature_def MAGIC_def ascii_eval is_high_def is_low_def utf8Encode_def utf8_cp_def Let_def)
  then obtain frame where "encodeEnvelopeBinary (demo_envelope\<lparr>body := body demo_envelope\<lparr>intent := ENCRYPTED\<rparr>\<rparr>) = Some frame" "length frame \<le> 1000"
    by blast
  from binary_frame_loses [OF demo_frame_ok this] show ?thesis by blast
qed

end
