(* ===== verification/KeyRegistry.thy ===== *)
theory KeyRegistry
  imports Protocol
begin

text \<open>
  \<open>src/keyRegistry.ts\<close>: the interface every binding looks keys up with, and its static,
  composite and caching implementations. Sender and key id come straight off a parsed
  request, so they are JSON values (or absent); what a lookup returns is a key text or
  null, and the outer \<open>None\<close> is a lookup that throws.
\<close>

type_synonym lookup = "jstr option option"

record key_registry =
  reg_public :: "json option \<Rightarrow> lookup"
  reg_secret :: "(json option \<Rightarrow> json option \<Rightarrow> lookup) option"

section \<open>How values turn into text\<close>

text \<open>\<open>JSON.stringify\<close> in a template, and \<open>String(v)\<close>; an absent value is \<open>undefined\<close>.\<close>

definition stringify_text :: "json option \<Rightarrow> jstr" where
  "stringify_text v = (case v of None \<Rightarrow> js ''undefined'' | Some v \<Rightarrow> print_json v)"

fun to_text :: "json \<Rightarrow> jstr" where
  "to_text JNull = js ''null''"
| "to_text (JBool b) = (if b then js ''true'' else js ''false'')"
| "to_text (JNum n) = show_num n"
| "to_text (JStr s) = s"
| "to_text (JArr vs) = join_with [44] (map (\<lambda>v. if v = JNull then [] else to_text v) vs)"
| "to_text (JObj kvs) = js ''[object Object]''"

definition template_text :: "json option \<Rightarrow> jstr" where
  "template_text v = (case v of None \<Rightarrow> js ''undefined'' | Some v \<Rightarrow> to_text v)"

definition truthy_json :: "json option \<Rightarrow> bool" where
  "truthy_json v =
    (case v of
       None \<Rightarrow> False
     | Some JNull \<Rightarrow> False
     | Some (JBool b) \<Rightarrow> b
     | Some (JNum n) \<Rightarrow> n \<noteq> NaN \<and> n \<noteq> Fin 0
     | Some (JStr s) \<Rightarrow> s \<noteq> []
     | Some _ \<Rightarrow> True)"

section \<open>Implementations\<close>

text \<open>
  A plain object inherits members: for the names of those the static registry answers a
  function or an object, which no later step can use as a key text, so the lookup counts
  as one that throws.
\<close>

definition inherited_names :: "jstr list" where
  "inherited_names = map js [''constructor'', ''toString'', ''toLocaleString'', ''valueOf'', ''hasOwnProperty'', ''isPrototypeOf'',
    ''propertyIsEnumerable'', ''__proto__'', ''__defineGetter__'', ''__defineSetter__'', ''__lookupGetter__'', ''__lookupSetter__'']"

definition static_public :: "(jstr, jstr) jsmap \<Rightarrow> json option \<Rightarrow> lookup" where
  "static_public ks senderId =
    (let name = template_text senderId in
     case mget ks name of
       Some k \<Rightarrow> Some (Some k)
     | None \<Rightarrow> if name \<in> set inherited_names then None else Some None)"

definition createStaticKeyRegistry :: "(jstr, jstr) jsmap \<Rightarrow> key_registry" where
  "createStaticKeyRegistry ks = \<lparr>reg_public = static_public ks, reg_secret = None\<rparr>"

fun composite_public :: "key_registry list \<Rightarrow> json option \<Rightarrow> lookup" where
  "composite_public [] s = Some None"
| "composite_public (r # rs) s =
    (case reg_public r s of
       None \<Rightarrow> None
     | Some (Some k) \<Rightarrow> Some (Some k)
     | Some None \<Rightarrow> composite_public rs s)"

fun composite_secret :: "key_registry list \<Rightarrow> json option \<Rightarrow> json option \<Rightarrow> lookup" where
  "composite_secret [] k s = Some None"
| "composite_secret (r # rs) k s =
    (case reg_secret r of
       None \<Rightarrow> composite_secret rs k s
     | Some f \<Rightarrow>
         (case f k s of
            None \<Rightarrow> None
          | Some (Some x) \<Rightarrow> Some (Some x)
          | Some None \<Rightarrow> composite_secret rs k s))"

definition createCompositeKeyRegistry :: "key_registry list \<Rightarrow> key_registry" where
  "createCompositeKeyRegistry rs = \<lparr>reg_public = composite_public rs, reg_secret = Some (composite_secret rs)\<rparr>"

section \<open>The caching wrapper\<close>

type_synonym lookup_cache = "(jstr, jstr option \<times> int) jsmap"

record caching_registry =
  cr_inner :: key_registry
  cr_ttl :: int
  cr_cache :: lookup_cache

definition cached_get :: "caching_registry \<Rightarrow> jstr \<Rightarrow> lookup \<Rightarrow> int \<Rightarrow> caching_registry \<times> lookup" where
  "cached_get c key fetched now =
    (case mget (cr_cache c) key of
       Some (v, expires) \<Rightarrow>
         if now < expires then (c, Some v)
         else (case fetched of None \<Rightarrow> (c, None) | Some v \<Rightarrow> (c\<lparr>cr_cache := mset_key (cr_cache c) key (v, now + cr_ttl c)\<rparr>, Some v))
     | None \<Rightarrow> (case fetched of None \<Rightarrow> (c, None) | Some v \<Rightarrow> (c\<lparr>cr_cache := mset_key (cr_cache c) key (v, now + cr_ttl c)\<rparr>, Some v)))"

definition public_key :: "json option \<Rightarrow> jstr" where
  "public_key s = js ''pk:'' @ template_text s"

definition secret_key :: "json option \<Rightarrow> json option \<Rightarrow> jstr" where
  "secret_key k s = js ''ss:'' @ template_text s @ js '':'' @ template_text k"

definition caching_public :: "caching_registry \<Rightarrow> json option \<Rightarrow> int \<Rightarrow> caching_registry \<times> lookup" where
  "caching_public c s now = cached_get c (public_key s) (reg_public (cr_inner c) s) now"

definition caching_secret :: "caching_registry \<Rightarrow> json option \<Rightarrow> json option \<Rightarrow> int \<Rightarrow> caching_registry \<times> lookup" where
  "caching_secret c k s now =
    (case reg_secret (cr_inner c) of
       None \<Rightarrow> (c, Some None)
     | Some f \<Rightarrow> cached_get c (secret_key k s) (f k s) now)"

definition createCachingKeyRegistry :: "key_registry \<Rightarrow> int option \<Rightarrow> caching_registry" where
  "createCachingKeyRegistry r ttl = \<lparr>cr_inner = r, cr_ttl = (case ttl of None \<Rightarrow> 60000 | Some t \<Rightarrow> t), cr_cache = []\<rparr>"

text \<open>A run of lookups by name, each at its time.\<close>

datatype registry_call = AskPublic jstr | AskSecret jstr jstr

fun caching_call :: "caching_registry \<Rightarrow> registry_call \<Rightarrow> int \<Rightarrow> caching_registry \<times> lookup" where
  "caching_call c (AskPublic s) now = caching_public c (Some (JStr s)) now"
| "caching_call c (AskSecret k s) now = caching_secret c (Some (JStr k)) (Some (JStr s)) now"

fun inner_call :: "key_registry \<Rightarrow> registry_call \<Rightarrow> lookup" where
  "inner_call r (AskPublic s) = reg_public r (Some (JStr s))"
| "inner_call r (AskSecret k s) = (case reg_secret r of None \<Rightarrow> Some None | Some f \<Rightarrow> f (Some (JStr k)) (Some (JStr s)))"

fun caching_run :: "caching_registry \<Rightarrow> (registry_call \<times> int) list \<Rightarrow> caching_registry" where
  "caching_run c [] = c"
| "caching_run c ((q, t) # qs) = caching_run (fst (caching_call c q t)) qs"

section \<open>What the cache may answer\<close>

text \<open>The calls whose cache keys cannot be confused: no colon in the sender of a secret.\<close>

fun plain_call :: "registry_call \<Rightarrow> bool" where
  "plain_call (AskPublic s) = True"
| "plain_call (AskSecret k s) = (58 \<notin> set s)"

fun call_key :: "registry_call \<Rightarrow> jstr" where
  "call_key (AskPublic s) = public_key (Some (JStr s))"
| "call_key (AskSecret k s) = secret_key (Some (JStr k)) (Some (JStr s))"

lemma call_key_inj:
  assumes "plain_call p" "plain_call q" "call_key p = call_key q"
  shows "p = q"
proof (cases p; cases q)
  fix k s k' s'
  assume pq: "p = AskSecret k s" "q = AskSecret k' s'"
  with assms(3) have "s @ 58 # k = s' @ 58 # k'" by (simp add: secret_key_def template_text_def ascii_eval)
  then have "s = s' \<and> 58 # k = 58 # k'"
    by (rule span_unique [where P = "\<lambda>c. c \<noteq> 58"]) (use assms(1,2) pq in auto)
  with pq show ?thesis by simp
qed (use assms(3) in \<open>auto simp: public_key_def secret_key_def template_text_def ascii_eval\<close>)

text \<open>Every cached answer is one the inner registry gives to a call with that key.\<close>

definition cache_faithful :: "caching_registry \<Rightarrow> bool" where
  "cache_faithful c \<longleftrightarrow> (\<forall>key v e. mget (cr_cache c) key = Some (v, e) \<longrightarrow>
     (\<exists>q. plain_call q \<and> call_key q = key \<and> inner_call (cr_inner c) q = Some v))"

lemma caching_call_get:
  "caching_call c q t = (if \<exists>k s. q = AskSecret k s \<and> reg_secret (cr_inner c) = None then (c, Some None)
     else cached_get c (call_key q) (inner_call (cr_inner c) q) t)"
  by (cases q) (auto simp: caching_public_def caching_secret_def split: option.splits)

lemma cached_get_inner [simp]: "cr_inner (fst (cached_get c key f t)) = cr_inner c"
  by (auto simp: cached_get_def split: option.splits)

lemma caching_call_inner [simp]: "cr_inner (fst (caching_call c q t)) = cr_inner c"
  by (simp add: caching_call_get)

lemma caching_call_faithful:
  assumes "cache_faithful c" "plain_call q"
  shows "cache_faithful (fst (caching_call c q t)) \<and> snd (caching_call c q t) \<in> {None, inner_call (cr_inner c) q}"
proof (cases "\<exists>k s. q = AskSecret k s \<and> reg_secret (cr_inner c) = None")
  case True
  then show ?thesis using assms(1) by (auto simp: caching_call_get)
next
  case False
  have hit: "inner_call (cr_inner c) q = Some v" if h: "mget (cr_cache c) (call_key q) = Some (v, e)" for v e
  proof -
    obtain p where p: "plain_call p" "call_key p = call_key q" "inner_call (cr_inner c) p = Some v"
      using assms(1) h unfolding cache_faithful_def by blast
    then show ?thesis using call_key_inj [OF p(1) assms(2) p(2)] by simp
  qed
  have put: "cache_faithful (c\<lparr>cr_cache := mset_key (cr_cache c) (call_key q) (v, e)\<rparr>)" if "inner_call (cr_inner c) q = Some v" for v e
    using assms that unfolding cache_faithful_def by auto
  have eq: "caching_call c q t = cached_get c (call_key q) (inner_call (cr_inner c) q) t"
    using False by (auto simp: caching_call_get)
  show ?thesis unfolding eq cached_get_def using hit put assms(1) by (auto split: option.splits)
qed

lemma caching_run_faithful:
  "cache_faithful c \<Longrightarrow> \<forall>(q, t) \<in> set qs. plain_call q \<Longrightarrow> cache_faithful (caching_run c qs) \<and> cr_inner (caching_run c qs) = cr_inner c"
  by (induction c qs rule: caching_run.induct) (auto dest: caching_call_faithful)

text \<open>While no sender name with a colon asks for a secret, the caching registry is transparent: after any run of lookups it answers a lookup as the registry it wraps does, unless the inner lookup throws.\<close>

theorem caching_registry_transparent:
  assumes "\<forall>(q, t) \<in> set qs. plain_call q" "plain_call q" "inner_call r q \<noteq> None"
  shows "snd (caching_call (caching_run (createCachingKeyRegistry r ttl) qs) q now) = inner_call r q"
proof -
  let ?c = "caching_run (createCachingKeyRegistry r ttl) qs"
  have "cache_faithful (createCachingKeyRegistry r ttl)" by (simp add: cache_faithful_def createCachingKeyRegistry_def)
  then have c: "cache_faithful ?c" "cr_inner ?c = r"
    using caching_run_faithful assms(1) by (auto simp: createCachingKeyRegistry_def)
  have "snd (caching_call ?c q now) \<noteq> None"
    using assms(3) c(2) by (auto simp: caching_call_get cached_get_def split: option.splits)
  then show ?thesis using caching_call_faithful [OF c(1) assms(2), of now] c(2) by auto
qed

text \<open>The cache key joins sender and key id with a colon: after a lookup of the secret of key id b:c for sender a, a lookup of key id c for sender a:b is answered with the secret of a until the entry expires, whatever the wrapped registry says about a:b.\<close>

theorem caching_registry_confuses_senders:
  assumes "reg_secret r = Some f" "f (Some (JStr (js ''b:c''))) (Some (JStr (js ''a''))) = Some (Some secret)" "now' < now + 60000"
  shows "snd (caching_call (caching_run (createCachingKeyRegistry r None) [(AskSecret (js ''b:c'') (js ''a''), now)]) (AskSecret (js ''c'') (js ''a:b'')) now')
    = Some (Some secret)"
proof -
  have "secret_key (Some (JStr (js ''c''))) (Some (JStr (js ''a:b''))) = secret_key (Some (JStr (js ''b:c''))) (Some (JStr (js ''a'')))"
    by (simp add: secret_key_def template_text_def ascii_eval)
  then show ?thesis using assms
    by (simp add: caching_secret_def createCachingKeyRegistry_def cached_get_def)
qed

section \<open>The properties at work\<close>

definition demo_secrets :: key_registry where
  "demo_secrets = \<lparr>reg_public = (\<lambda>s. Some None),
     reg_secret = Some (\<lambda>k s. if s = Some (JStr (js ''a'')) then Some (Some (js ''secret-of-a'')) else Some None)\<rparr>"

theorem caching_registry_transparent_witness:
  "snd (caching_call (caching_run (createCachingKeyRegistry demo_secrets None) [(AskPublic (js ''a:b''), 1), (AskSecret (js ''k'') (js ''a''), 2)])
     (AskSecret (js ''k'') (js ''a'')) 3) = Some (Some (js ''secret-of-a''))"
  using caching_registry_transparent [of "[(AskPublic (js ''a:b''), 1), (AskSecret (js ''k'') (js ''a''), 2)]" "AskSecret (js ''k'') (js ''a'')" demo_secrets None 3]
  by (simp add: demo_secrets_def ascii_eval)

theorem caching_registry_confuses_senders_witness:
  "snd (caching_call (caching_run (createCachingKeyRegistry demo_secrets None) [(AskSecret (js ''b:c'') (js ''a''), 0)]) (AskSecret (js ''c'') (js ''a:b'')) 5)
     = Some (Some (js ''secret-of-a''))
   \<and> inner_call demo_secrets (AskSecret (js ''c'') (js ''a:b'')) = Some None"
  using caching_registry_confuses_senders [of demo_secrets _ "js ''secret-of-a''" 5 0] by (simp add: demo_secrets_def ascii_eval)

end
