(* ===== verification/HttpBinding.thy ===== *)
theory HttpBinding
  imports EnvelopeCbor KeyRegistry
begin

text \<open>
  \<open>src/httpBinding.ts\<close> and \<open>src/signedResponse.ts\<close>: envelopes on HTTP requests and
  responses. What arrives is a JSON value (or a CBOR body), read member by member as the
  source does it, so a missing or mistyped member has the consequence it has there; the
  outer \<open>None\<close> of a result is an exception nobody in the function catches. The clock is
  an argument, \<open>parse\<close> is \<open>JSON.parse\<close> and \<open>T\<close> the number printing of \<open>Cbor\<close>.
\<close>

section \<open>Header fields\<close>

datatype header_value = Single jstr | Multi "jstr list"

type_synonym http_headers = "(jstr, header_value) jsmap"

text \<open>\<open>Array.isArray(v) ? v[0] : v\<close>.\<close>

definition first_value :: "header_value option \<Rightarrow> jstr option" where
  "first_value v = (case v of None \<Rightarrow> None | Some (Single s) \<Rightarrow> Some s | Some (Multi ss) \<Rightarrow> (case ss of [] \<Rightarrow> None | s # _ \<Rightarrow> Some s))"

section \<open>Signatures over received values\<close>

text \<open>\<open>serializeHeaderCanonical\<close> and \<open>serializeBodyCanonical\<close> of whatever was parsed.\<close>

definition member_text :: "string \<Rightarrow> json option \<Rightarrow> jstr" where
  "member_text name v = quote (js name) @ 58 # stringify_text v"

definition opt_member_text :: "string \<Rightarrow> json option \<Rightarrow> jstr list" where
  "opt_member_text name v = (case v of None \<Rightarrow> [] | Some x \<Rightarrow> [quote (js name) @ 58 # print_json x])"

definition header_text :: "json \<Rightarrow> jstr" where
  "header_text h = 123 # join_with [44]
     ([member_text ''messageId'' (jmember h ''messageId''), member_text ''nonce'' (jmember h ''nonce'')]
      @ opt_member_text ''recipient'' (jmember h ''recipient'')
      @ [member_text ''sender'' (jmember h ''sender''),
         quote (js ''timestampMs'') @ 58 # template_text (jmember h ''timestampMs''),
         quote (js ''ttlMs'') @ 58 # template_text (jmember h ''ttlMs''),
         member_text ''version'' (jmember h ''version'')]) @ [125]"

text \<open>Reading a member of \<open>undefined\<close> or \<open>null\<close> throws: \<open>None\<close>.\<close>

definition readable :: "json option \<Rightarrow> json option" where
  "readable v = (case v of Some JNull \<Rightarrow> None | _ \<Rightarrow> v)"

definition body_text :: "json option \<Rightarrow> jstr option" where
  "body_text b =
    (case readable b of
       None \<Rightarrow> None
     | Some v \<Rightarrow> Some (123 # join_with [44]
         (opt_member_text ''capability'' (jmember v ''capability'') @ [member_text ''content'' (jmember v ''content'')]
          @ opt_member_text ''correlationId'' (jmember v ''correlationId'') @ [member_text ''intent'' (jmember v ''intent'')]) @ [125]))"

definition canonical_text :: "json \<Rightarrow> json option \<Rightarrow> jstr option" where
  "canonical_text h b =
    map_option (\<lambda>t. 123 # quote (js ''body'') @ 58 # t @ 44 # quote (js ''header'') @ 58 # header_text h @ [125]) (body_text b)"

definition json_verify :: "(jstr \<Rightarrow> jstr \<Rightarrow> jstr \<Rightarrow> bool option) \<Rightarrow> string \<Rightarrow> json \<Rightarrow> jstr \<Rightarrow> bool option" where
  "json_verify ver name e key =
    (case jmember e ''signature'' of
       None \<Rightarrow> Some False
     | Some sg \<Rightarrow>
         if \<not> truthy_json (Some sg) then Some False
         else if jmember sg ''alg'' \<noteq> Some (JStr (js name)) then Some False
         else (case (canonical_text (the (jmember e ''header'')) (jmember e ''body''), jmember sg ''value'') of
           (Some payload, Some (JStr v)) \<Rightarrow> ver payload v key
         | _ \<Rightarrow> None))"

abbreviation json_verify_ed :: "crypto \<Rightarrow> json \<Rightarrow> jstr \<Rightarrow> bool option" where
  "json_verify_ed C \<equiv> json_verify (verifyCanonicalPayloadEd25519 C) ''ED25519''"

abbreviation json_verify_hmac :: "crypto \<Rightarrow> json \<Rightarrow> jstr \<Rightarrow> bool option" where
  "json_verify_hmac C \<equiv> json_verify (verifyCanonicalPayloadHmac C) ''HS256''"

section \<open>Requests\<close>

definition DEFAULT_HEADER :: jstr where
  "DEFAULT_HEADER = js ''x-7h3-envelope''"

datatype http_failure =
  MissingHeader | CborDecodeFailed | JsonParseFailed | MissingFields | ValidationErrors "diagnostic_reason list"
  | NoRegistry | UnknownSender | UnsupportedAlg | BadSignature

record http_options =
  ho_registry :: "key_registry option"
  ho_headerName :: "jstr option"
  ho_strictTtl :: "bool option"

text \<open>Where the envelope comes from: the CBOR body, or the JSON text of the header.\<close>

definition received_envelope ::
  "(jstr \<Rightarrow> json option) \<Rightarrow> (cbor \<Rightarrow> jstr) \<Rightarrow> jstr option \<Rightarrow> http_headers \<Rightarrow> bytes option \<Rightarrow> http_failure + json" where
  "received_envelope parse T headerName hs bd =
    (let contentType = (case first_value (mget hs (js ''content-type'')) of None \<Rightarrow> [] | Some s \<Rightarrow> s) in
     case (if contains_sub contentType (js ''7h3-cbor'') then bd else None) of
       Some bytes \<Rightarrow> (case decodeEnvelopeCbor T bytes of None \<Rightarrow> Inl CborDecodeFailed | Some e \<Rightarrow> Inr e)
     | None \<Rightarrow>
         (case first_value (mget hs (case headerName of None \<Rightarrow> DEFAULT_HEADER | Some n \<Rightarrow> n)) of
            None \<Rightarrow> Inl MissingHeader
          | Some raw \<Rightarrow>
              if raw = [] then Inl MissingHeader
              else (case parse raw of None \<Rightarrow> Inl JsonParseFailed | Some e \<Rightarrow> Inr e)))"

definition error_reasons :: "diagnostic list \<Rightarrow> diagnostic_reason list" where
  "error_reasons ds = map reason (filter (\<lambda>d. level d = Error) ds)"

text \<open>Key lookup and signature, by the algorithm the request names.\<close>

definition check_signature :: "crypto \<Rightarrow> key_registry option \<Rightarrow> json \<Rightarrow> json \<Rightarrow> json \<Rightarrow> (http_failure + json) option" where
  "check_signature C registry e h sg =
    (let sender = jmember h ''sender'' in
     case registry of
       None \<Rightarrow> Some (Inl NoRegistry)
     | Some reg \<Rightarrow>
         if jmember sg ''alg'' = Some (JStr (js ''ED25519'')) then
           (case reg_public reg sender of
              None \<Rightarrow> None
            | Some None \<Rightarrow> Some (Inl UnknownSender)
            | Some (Some k) \<Rightarrow>
                if k = [] then Some (Inl UnknownSender)
                else map_option (\<lambda>ok. if ok then Inr e else Inl BadSignature) (json_verify_ed C e k))
         else if jmember sg ''alg'' = Some (JStr (js ''HS256'')) then
           (case (case reg_secret reg of None \<Rightarrow> Some None | Some f \<Rightarrow> f (jmember sg ''keyId'') sender) of
              None \<Rightarrow> None
            | Some None \<Rightarrow> Some (Inl UnknownSender)
            | Some (Some s) \<Rightarrow>
                if s = [] then Some (Inl UnknownSender)
                else map_option (\<lambda>ok. if ok then Inr e else Inl BadSignature) (json_verify_hmac C e s))
         else Some (Inl UnsupportedAlg))"

definition verifyHttpEnvelope ::
  "crypto \<Rightarrow> (jstr \<Rightarrow> json option) \<Rightarrow> (cbor \<Rightarrow> jstr) \<Rightarrow> http_options \<Rightarrow> http_headers \<Rightarrow> bytes option \<Rightarrow> int \<Rightarrow> (http_failure + json) option" where
  "verifyHttpEnvelope C parse T opts hs bd now =
    (case received_envelope parse T (ho_headerName opts) hs bd of
       Inl e \<Rightarrow> Some (Inl e)
     | Inr e \<Rightarrow>
         (case (jmember e ''header'', jmember e ''signature'') of
            (Some h, Some sg) \<Rightarrow>
              if \<not> truthy_json (Some sg) \<or> \<not> truthy_json (Some h) then Some (Inl MissingFields)
              else let errors = (if ho_strictTtl opts \<noteq> Some False then error_reasons (validateEnvelope e now) else []) in
                if errors \<noteq> [] then Some (Inl (ValidationErrors errors))
                else check_signature C (ho_registry opts) e h sg
          | _ \<Rightarrow> Some (Inl MissingFields)))"

section \<open>Signing requests\<close>

definition CBOR_CONTENT_TYPE :: jstr where
  "CBOR_CONTENT_TYPE = js ''application/7h3-cbor''"

definition default_ed_key_id :: jstr where
  "default_ed_key_id = js ''local-ed25519-key''"

text \<open>Headers to merge, and the body in CBOR format. \<open>None\<close>: the key import throws.\<close>

definition signHttpRequest :: "crypto \<Rightarrow> header \<Rightarrow> body \<Rightarrow> jstr \<Rightarrow> jstr option \<Rightarrow> bool \<Rightarrow> (http_headers \<times> bytes option) option" where
  "signHttpRequest C h b priv headerName asCbor =
    map_option (\<lambda>e.
      if asCbor then ([(js ''content-type'', Single CBOR_CONTENT_TYPE)], Some (encodeEnvelopeCbor e))
      else ([(case headerName of None \<Rightarrow> DEFAULT_HEADER | Some n \<Rightarrow> n, Single (print_json (envelope_json e)))], None))
    (signEnvelopeEd25519 C h b priv default_ed_key_id)"

definition signHttpRequestHmac :: "crypto \<Rightarrow> header \<Rightarrow> body \<Rightarrow> jstr \<Rightarrow> jstr \<Rightarrow> jstr option \<Rightarrow> http_headers option" where
  "signHttpRequestHmac C h b secret kid headerName =
    map_option (\<lambda>e. [(case headerName of None \<Rightarrow> DEFAULT_HEADER | Some n \<Rightarrow> n, Single (print_json (envelope_json e)))])
      (signEnvelopeHmac C h b secret kid)"

text \<open>The middleware: a refusal is answered with status 401, an acceptance calls \<open>next\<close> with the envelope.\<close>

datatype middleware_outcome = Respond int http_failure | Next json

definition protocol7h3Middleware ::
  "crypto \<Rightarrow> (jstr \<Rightarrow> json option) \<Rightarrow> (cbor \<Rightarrow> jstr) \<Rightarrow> http_options \<Rightarrow> http_headers \<Rightarrow> int \<Rightarrow> middleware_outcome option" where
  "protocol7h3Middleware C parse T opts hs now =
    map_option (\<lambda>r. case r of Inl e \<Rightarrow> Respond 401 e | Inr v \<Rightarrow> Next v) (verifyHttpEnvelope C parse T opts hs None now)"

definition fetch_envelope :: "jstr \<Rightarrow> jstr \<Rightarrow> jstr option \<Rightarrow> int option \<Rightarrow> int \<Rightarrow> bytes \<Rightarrow> bytes \<Rightarrow> header \<times> body" where
  "fetch_envelope url snd' rcp ttl clock rnd6 rnd12 = createEnvelope
    \<lparr>in_sender = snd', in_recipient = rcp, in_intent = TASK, in_content = url, in_capability = None, in_correlationId = None,
     in_ttlMs = Some (case ttl of None \<Rightarrow> 60000 | Some t \<Rightarrow> t), in_messageId = None, in_nonce = None, in_nowMs = None\<rparr> clock rnd6 rnd12"

section \<open>Signed responses\<close>

definition RESPONSE_HEADER :: jstr where
  "RESPONSE_HEADER = js ''x-7h3-response''"

definition response_envelope ::
  "crypto \<Rightarrow> jstr \<Rightarrow> jstr \<Rightarrow> jstr \<Rightarrow> jstr option \<Rightarrow> jstr option \<Rightarrow> int option \<Rightarrow> int \<Rightarrow> bytes \<Rightarrow> bytes \<Rightarrow> envelope option" where
  "response_envelope C text priv snd' rcp correlation ttl clock rnd6 rnd12 =
    (let (h, b) = createEnvelope
       \<lparr>in_sender = snd', in_recipient = rcp, in_intent = RESULT, in_content = text, in_capability = None, in_correlationId = correlation,
        in_ttlMs = Some (case ttl of None \<Rightarrow> 60000 | Some t \<Rightarrow> t), in_messageId = None, in_nonce = None, in_nowMs = None\<rparr> clock rnd6 rnd12
     in signEnvelopeEd25519 C h b priv default_ed_key_id)"

definition signResponse ::
  "crypto \<Rightarrow> jstr \<Rightarrow> jstr \<Rightarrow> jstr \<Rightarrow> jstr option \<Rightarrow> jstr option \<Rightarrow> int option \<Rightarrow> int \<Rightarrow> bytes \<Rightarrow> bytes \<Rightarrow> http_headers option" where
  "signResponse C text priv snd' rcp correlation ttl clock rnd6 rnd12 =
    map_option (\<lambda>e. [(RESPONSE_HEADER, Single (print_json (envelope_json e)))])
      (response_envelope C text priv snd' rcp correlation ttl clock rnd6 rnd12)"

datatype response_failure = ResponseMissing | ResponseMalformed | ResponseExpired | ResponseBadSignature | ContentMismatch

text \<open>
  A time of the header that is absent is NaN in the comparisons; members of other types,
  which the language would coerce, count as NaN too. The header itself must be readable.
\<close>

definition number_member :: "json \<Rightarrow> string \<Rightarrow> jnum" where
  "number_member h name = (case jmember h name of Some (JNum n) \<Rightarrow> n | _ \<Rightarrow> NaN)"

definition verifyResponse ::
  "crypto \<Rightarrow> (jstr \<Rightarrow> json option) \<Rightarrow> jstr \<Rightarrow> int option \<Rightarrow> jstr \<Rightarrow> http_headers \<Rightarrow> int \<Rightarrow> (response_failure + json) option" where
  "verifyResponse C parse pub maxAge text hs now =
    (case first_value (mget hs RESPONSE_HEADER) of
       None \<Rightarrow> Some (Inl ResponseMissing)
     | Some raw \<Rightarrow>
         if raw = [] then Some (Inl ResponseMissing)
         else (case parse raw of
           None \<Rightarrow> Some (Inl ResponseMalformed)
         | Some e \<Rightarrow>
             (case readable (jmember e ''header'') of
                None \<Rightarrow> None
              | Some h \<Rightarrow>
                  let ts = number_member h ''timestampMs''; ttl = number_member h ''ttlMs'' in
                  if jnum_less (jnum_add ts ttl) (Fin now) then Some (Inl ResponseExpired)
                  else if (case (maxAge, ts) of (Some a, Fin t) \<Rightarrow> a < now - t | (Some a, NegInf) \<Rightarrow> True | _ \<Rightarrow> False)
                    then Some (Inl ResponseExpired)
                  else (case json_verify_ed C e pub of
                    None \<Rightarrow> None
                  | Some False \<Rightarrow> Some (Inl ResponseBadSignature)
                  | Some True \<Rightarrow>
                      if (case jmember e ''body'' of Some b \<Rightarrow> jmember b ''content'' \<noteq> Some (JStr text) | None \<Rightarrow> True)
                      then Some (Inl ContentMismatch) else Some (Inr e)))))"

section \<open>Typed envelopes on the wire\<close>

lemma members_envelope:
  "jmember (envelope_json e) ''header'' = Some (header_json (header e))"
  "jmember (envelope_json e) ''body'' = Some (body_json (body e))"
  "jmember (envelope_json e) ''signature'' = map_option signature_json (signature e)"
  by (simp_all add: envelope_json_def opt_field_def split: option.split)

lemma members_signature:
  "jmember (signature_json s) ''alg'' = Some (JStr (alg_text (alg s)))"
  "jmember (signature_json s) ''keyId'' = Some (JStr (keyId s))"
  "jmember (signature_json s) ''value'' = Some (JStr (sigValue s))"
  by (simp_all add: signature_json_def)

lemma members_header:
  "jmember (header_json h) ''messageId'' = Some (JStr (messageId h))" "jmember (header_json h) ''nonce'' = Some (JStr (nonce h))"
  "jmember (header_json h) ''sender'' = Some (JStr (sender h))" "jmember (header_json h) ''version'' = Some (JStr (version h))"
  "jmember (header_json h) ''timestampMs'' = Some (JNum (timestampMs h))" "jmember (header_json h) ''ttlMs'' = Some (JNum (ttlMs h))"
  "jmember (header_json h) ''recipient'' = map_option JStr (recipient h)"
  by (cases "recipient h"; simp add: header_json_def opt_json_def)+

lemma members_body:
  "jmember (body_json b) ''intent'' = Some (JStr (intent_text (intent b)))" "jmember (body_json b) ''content'' = Some (JStr (content b))"
  "jmember (body_json b) ''capability'' = map_option JStr (capability b)" "jmember (body_json b) ''correlationId'' = map_option JStr (correlationId b)"
  by (cases "capability b"; cases "correlationId b"; simp add: body_json_def opt_json_def)+

lemmas wire_members = members_envelope members_signature members_header members_body

lemma opt_member_typed: "opt_member_text name (map_option JStr v) = opt_member name v"
  by (cases v) (simp_all add: opt_member_text_def opt_member_def)

lemma header_text_typed: "header_text (header_json h) = serializeHeaderCanonical h"
  by (simp add: header_text_def serializeHeaderCanonical_def wire_members opt_member_typed member_text_def stringify_text_def template_text_def)

lemma readable_parts: "readable (Some (body_json b)) = Some (body_json b)" "readable (Some (header_json h)) = Some (header_json h)"
  by (simp_all add: readable_def body_json_def header_json_def)

lemma body_text_typed: "body_text (Some (body_json b)) = Some (serializeBodyCanonical b)"
  by (simp add: body_text_def readable_parts serializeBodyCanonical_def wire_members opt_member_typed member_text_def stringify_text_def)

lemma canonical_text_typed: "canonical_text (header_json h) (Some (body_json b)) = Some (canonicalizeEnvelope h b)"
  by (simp add: canonical_text_def body_text_typed header_text_typed canonicalizeEnvelope_def)

lemma signature_truthy: "truthy_json (Some (signature_json s))" "truthy_json (Some (header_json h))"
  by (simp_all add: truthy_json_def signature_json_def header_json_def)

lemma json_verify_typed:
  "json_verify_ed C (envelope_json e) k = verifyEnvelopeEd25519 C e k"
  "json_verify_hmac C (envelope_json e) k = verifyEnvelopeHmac C e k"
proof -
  show "json_verify_ed C (envelope_json e) k = verifyEnvelopeEd25519 C e k"
    by (cases "signature e")
      (auto simp: json_verify_def envelope_defs wire_members canonical_text_typed signature_truthy alg_text.simps(2) [symmetric] simp del: alg_text.simps)
  show "json_verify_hmac C (envelope_json e) k = verifyEnvelopeHmac C e k"
    by (cases "signature e")
      (auto simp: json_verify_def envelope_defs wire_members canonical_text_typed signature_truthy alg_text.simps(1) [symmetric] simp del: alg_text.simps)
qed

lemma validate_wire: "validateEnvelope (envelope_json e) now = validateEnvelope (env_json (header e) (body e)) now"
  by (simp add: validateEnvelope_def env_json_def wire_members)

lemma validate_header:
  assumes "jmember v ''header'' = Some (header_json h)"
  shows "no_errors (validateEnvelope v now) \<longleftrightarrow> header_acceptable h now"
proof -
  have "part_or_empty (Some (header_json h)) = header_json h" by (simp add: part_or_empty_def header_json_def)
  moreover have "jmember (env_json h demo_body) ''header'' = Some (header_json h)" by (simp add: env_json_def)
  ultimately have "no_errors (validateEnvelope v now) = no_errors (validateEnvelope (env_json h demo_body) now)"
    unfolding validateEnvelope_def assms by (simp add: Let_def)
  then show ?thesis by (simp add: validate_typed)
qed

lemma error_reasons_none: "error_reasons ds = [] \<longleftrightarrow> no_errors ds"
  by (auto simp: error_reasons_def no_errors_def filter_empty_conv)

lemma check_typed_ed:
  assumes "signature e = Some sg" "alg sg = ED25519" "reg_public reg (Some (JStr (sender (header e)))) = Some (Some k)" "k \<noteq> []"
  shows "check_signature C (Some reg) (envelope_json e) (header_json (header e)) (signature_json sg)
    = map_option (\<lambda>ok. if ok then Inr (envelope_json e) else Inl BadSignature) (verifyEnvelopeEd25519 C e k)"
  using assms by (simp add: check_signature_def wire_members json_verify_typed Let_def)

lemma check_typed_hmac:
  assumes "signature e = Some sg" "alg sg = HS256" "reg_secret reg = Some f"
    "f (Some (JStr (keyId sg))) (Some (JStr (sender (header e)))) = Some (Some k)" "k \<noteq> []"
  shows "check_signature C (Some reg) (envelope_json e) (header_json (header e)) (signature_json sg)
    = map_option (\<lambda>ok. if ok then Inr (envelope_json e) else Inl BadSignature) (verifyEnvelopeHmac C e k)"
  using assms by (simp add: check_signature_def wire_members json_verify_typed Let_def)

text \<open>Once an envelope has arrived as a value, only validation and signature are left.\<close>

lemma verify_typed:
  assumes "received_envelope parse T (ho_headerName opts) hs bd = Inr (envelope_json e)" "signature e = Some sg"
    and "header_acceptable (header e) now"
  shows "verifyHttpEnvelope C parse T opts hs bd now = check_signature C (ho_registry opts) (envelope_json e) (header_json (header e)) (signature_json sg)"
proof -
  have "no_errors (validateEnvelope (envelope_json e) now)" using assms(3) by (simp add: validate_wire validate_typed)
  then have "error_reasons (validateEnvelope (envelope_json e) now) = []" by (simp add: error_reasons_none)
  then show ?thesis using assms(1,2) by (simp add: verifyHttpEnvelope_def wire_members signature_truthy)
qed

section \<open>Properties\<close>

lemma received_json:
  assumes "parse t = Some v" "t \<noteq> []" "mget hs (case hn of None \<Rightarrow> DEFAULT_HEADER | Some n \<Rightarrow> n) = Some (Single t)"
  shows "received_envelope parse T hn hs None = Inr v"
  using assms by (simp add: received_envelope_def first_value_def Let_def)

lemma received_cbor:
  assumes "decodeEnvelopeCbor T bs = Some v"
  shows "received_envelope parse T hn [(js ''content-type'', Single CBOR_CONTENT_TYPE)] (Some bs) = Inr v"
proof -
  have "contains_sub CBOR_CONTENT_TYPE (js ''7h3-cbor'')"
    unfolding contains_sub_iff CBOR_CONTENT_TYPE_def by (intro exI [of _ "js ''application/''"] exI [of _ "[]"]) (simp add: ascii_eval)
  then show ?thesis using assms by (simp add: received_envelope_def first_value_def Let_def)
qed

lemma signed_ed_parts:
  assumes "signEnvelopeEd25519 C h b priv kid = Some e"
  shows "header e = h \<and> body e = b \<and> (\<exists>s. signature e = Some s \<and> alg s = ED25519 \<and> keyId s = kid)"
  using assms by (auto simp: signEnvelopeEd25519_def)

lemma sign_verify_ed: "ed_pair C priv pub \<Longrightarrow> signEnvelopeEd25519 C h b priv kid = Some e \<Longrightarrow> verifyEnvelopeEd25519 C e pub = Some True"
  using ed.sign_verifies [of C priv pub] by (auto simp: signEnvelopeEd25519_def verifyEnvelopeEd25519_def)

lemma print_nonempty: "print_json (envelope_json e) \<noteq> []"
  by (simp add: envelope_json_def)

text \<open>A signed request is accepted: what signHttpRequest produces, as a JSON header or as a CBOR body, is verified with the registered key of its sender and yields the envelope, as long as the header is fresh and JSON.parse reads back what JSON.stringify printed.\<close>

theorem http_request_round_trip:
  assumes "signHttpRequest C h b priv headerName asCbor = Some (hs, bd)" "ed_pair C priv pub" "pub \<noteq> []"
    and "reg_public reg (Some (JStr (sender h))) = Some (Some pub)" "header_acceptable h now"
    and "\<forall>e. signEnvelopeEd25519 C h b priv default_ed_key_id = Some e \<longrightarrow> parse (print_json (envelope_json e)) = Some (envelope_json e)"
    and "asCbor \<longrightarrow> (\<forall>e. signEnvelopeEd25519 C h b priv default_ed_key_id = Some e \<longrightarrow> envelope_sendable e)"
  shows "\<exists>e. header e = h \<and> body e = b \<and> verifyHttpEnvelope C parse T \<lparr>ho_registry = Some reg, ho_headerName = headerName, ho_strictTtl = strict\<rparr> hs bd now
    = Some (Inr (envelope_json e))"
proof -
  obtain e where e: "signEnvelopeEd25519 C h b priv default_ed_key_id = Some e"
    and w: "(hs, bd) = (if asCbor then ([(js ''content-type'', Single CBOR_CONTENT_TYPE)], Some (encodeEnvelopeCbor e))
      else ([(case headerName of None \<Rightarrow> DEFAULT_HEADER | Some n \<Rightarrow> n, Single (print_json (envelope_json e)))], None))"
    using assms(1) by (auto simp: signHttpRequest_def)
  let ?o = "\<lparr>ho_registry = Some reg, ho_headerName = headerName, ho_strictTtl = strict\<rparr>"
  from signed_ed_parts [OF e] obtain s where s: "header e = h" "body e = b" "signature e = Some s" "alg s = ED25519" by blast
  have "received_envelope parse T (ho_headerName ?o) hs bd = Inr (envelope_json e)"
  proof (cases asCbor)
    case True
    then have "envelope_sendable e" using assms(7) e by blast
    from received_cbor [OF envelope_cbor_decoded [OF this]] show ?thesis using w True by simp
  next
    case False
    then show ?thesis using w assms(6) e print_nonempty [of e]
      received_json [where parse = parse and t = "print_json (envelope_json e)" and hn = headerName and hs = hs] by simp
  qed
  from verify_typed [OF this s(3)] assms(5) s(1)
  have "verifyHttpEnvelope C parse T ?o hs bd now = check_signature C (Some reg) (envelope_json e) (header_json (header e)) (signature_json s)"
    by simp
  also have "\<dots> = Some (Inr (envelope_json e))"
    using check_typed_ed [OF s(3,4), of reg pub C] assms(3,4) s(1) sign_verify_ed [OF assms(2) e] by simp
  finally show ?thesis using s(1,2) by blast
qed

lemma check_signature_ok:
  assumes "check_signature C registry e h sg = Some (Inr v)"
  shows "v = e \<and> (\<exists>reg. registry = Some reg \<and>
    ((\<exists>k. jmember sg ''alg'' = Some (JStr (js ''ED25519'')) \<and> reg_public reg (jmember h ''sender'') = Some (Some k) \<and> json_verify_ed C e k = Some True)
     \<or> (\<exists>f k. jmember sg ''alg'' = Some (JStr (js ''HS256'')) \<and> reg_secret reg = Some f
          \<and> f (jmember sg ''keyId'') (jmember h ''sender'') = Some (Some k) \<and> json_verify_hmac C e k = Some True)))"
  using assms by (auto simp: check_signature_def Let_def split: option.splits if_splits)

lemma verify_ok_parts:
  assumes "verifyHttpEnvelope C parse T opts hs bd now = Some (Inr e)"
  obtains h sg where "received_envelope parse T (ho_headerName opts) hs bd = Inr e" "jmember e ''header'' = Some h" "jmember e ''signature'' = Some sg"
    "ho_strictTtl opts \<noteq> Some False \<Longrightarrow> no_errors (validateEnvelope e now)"
    "check_signature C (ho_registry opts) e h sg = Some (Inr e)"
proof -
  from assms obtain e' h sg where e: "received_envelope parse T (ho_headerName opts) hs bd = Inr e'" "jmember e' ''header'' = Some h"
    "jmember e' ''signature'' = Some sg" "ho_strictTtl opts \<noteq> Some False \<Longrightarrow> no_errors (validateEnvelope e' now)"
    "check_signature C (ho_registry opts) e' h sg = Some (Inr e)"
    by (auto simp: verifyHttpEnvelope_def Let_def error_reasons_none split: sum.splits option.splits if_splits)
  moreover have "e = e'" using check_signature_ok [OF e(5)] by blast
  ultimately show thesis using that by blast
qed

text \<open>What the binding accepts is authentic and fresh: the request carried it, its time window contains the moment, and the key or secret the registry holds for its own sender verifies its signature over its own header and body.\<close>

theorem http_accepts_sound:
  assumes "verifyHttpEnvelope C parse T opts hs bd now = Some (Inr e)" "ho_strictTtl opts \<noteq> Some False"
  shows "received_envelope parse T (ho_headerName opts) hs bd = Inr e
    \<and> (\<exists>reg h sg ts ttl. ho_registry opts = Some reg \<and> jmember e ''header'' = Some h \<and> jmember e ''signature'' = Some sg
      \<and> jmember h ''timestampMs'' = Some (JNum (Fin ts)) \<and> jmember h ''ttlMs'' = Some (JNum (Fin ttl))
      \<and> 0 < ttl \<and> ttl \<le> 86400000 \<and> ts - 30000 \<le> now \<and> now \<le> ts + ttl
      \<and> ((\<exists>k. reg_public reg (jmember h ''sender'') = Some (Some k) \<and> json_verify_ed C e k = Some True)
        \<or> (\<exists>f k. reg_secret reg = Some f \<and> f (jmember sg ''keyId'') (jmember h ''sender'') = Some (Some k) \<and> json_verify_hmac C e k = Some True)))"
proof -
  obtain h sg where p: "received_envelope parse T (ho_headerName opts) hs bd = Inr e" "jmember e ''header'' = Some h" "jmember e ''signature'' = Some sg"
    "no_errors (validateEnvelope e now)" "check_signature C (ho_registry opts) e h sg = Some (Inr e)"
    using verify_ok_parts [OF assms(1)] assms(2) by metis
  obtain ts ttl where "jmember h ''timestampMs'' = Some (JNum (Fin ts))" "jmember h ''ttlMs'' = Some (JNum (Fin ttl))"
    "0 < ttl" "ttl \<le> 86400000" "ts \<le> now + 30000" "now \<le> ts + ttl"
    using validate_untyped [OF p(4)] p(2) by (auto simp: MAX_TTL_MS_def MAX_CLOCK_SKEW_MS_def)
  moreover obtain reg where "ho_registry opts = Some reg"
    "(\<exists>k. reg_public reg (jmember h ''sender'') = Some (Some k) \<and> json_verify_ed C e k = Some True)
      \<or> (\<exists>f k. reg_secret reg = Some f \<and> f (jmember sg ''keyId'') (jmember h ''sender'') = Some (Some k) \<and> json_verify_hmac C e k = Some True)"
    using check_signature_ok [OF p(5)] by blast
  ultimately show ?thesis using p(1-3)
    by (intro conjI exI [of _ reg] exI [of _ h] exI [of _ sg] exI [of _ ts] exI [of _ ttl]) auto
qed

text \<open>A request without a body part is not refused but throws: an envelope with a valid header that names a registered sender and has no body passes validation and then fails to be serialised, so verification ends in an uncaught exception.\<close>

theorem missing_body_throws:
  assumes "parse t = Some (JObj [(js ''header'', header_json h), (js ''signature'', signature_json sg)])" "t \<noteq> []"
    and "header_acceptable h now" "alg sg = ED25519" "reg_public reg (Some (JStr (sender h))) = Some (Some k)" "k \<noteq> []"
  shows "verifyHttpEnvelope C parse T \<lparr>ho_registry = Some reg, ho_headerName = None, ho_strictTtl = None\<rparr> [(DEFAULT_HEADER, Single t)] None now = None"
proof -
  let ?e = "JObj [(js ''header'', header_json h), (js ''signature'', signature_json sg)]"
  have m: "jmember ?e ''header'' = Some (header_json h)" "jmember ?e ''signature'' = Some (signature_json sg)" "jmember ?e ''body'' = None"
    by simp_all
  have "no_errors (validateEnvelope ?e now)" using assms(3) validate_header [OF m(1)] by simp
  then have "error_reasons (validateEnvelope ?e now) = []" by (simp add: error_reasons_none)
  moreover have "received_envelope parse T None [(DEFAULT_HEADER, Single t)] None = Inr ?e"
    by (rule received_json [where parse = parse and t = t]) (use assms(1,2) in simp_all)
  moreover have "check_signature C (Some reg) ?e (header_json h) (signature_json sg) = None"
    using assms(4-6) m by (simp add: check_signature_def wire_members json_verify_def signature_truthy canonical_text_def body_text_def readable_def Let_def del: jmember.simps)
  ultimately show ?thesis by (simp add: verifyHttpEnvelope_def signature_truthy)
qed

text \<open>A response is bound to its text: a signed response verifies for the text it was signed over while it is fresh, and a verified response always carries exactly the received text under a signature of the given key.\<close>

theorem response_binds_text:
  assumes "response_envelope C text priv snd' rcp correlation None clock rnd6 rnd12 = Some e" "ed_pair C priv pub"
    and "parse (print_json (envelope_json e)) = Some (envelope_json e)" "now \<le> clock + 60000"
  shows "(\<exists>hs. signResponse C text priv snd' rcp correlation None clock rnd6 rnd12 = Some hs
        \<and> verifyResponse C parse pub None text hs now = Some (Inr (envelope_json e)))
    \<and> (\<forall>text' hs' pub' maxAge now' v. verifyResponse C parse pub' maxAge text' hs' now' = Some (Inr v)
        \<longrightarrow> (\<exists>b. jmember v ''body'' = Some b \<and> jmember b ''content'' = Some (JStr text')) \<and> json_verify_ed C v pub' = Some True)"
proof (intro conjI allI impI)
  obtain h b where hb: "createEnvelope \<lparr>in_sender = snd', in_recipient = rcp, in_intent = RESULT, in_content = text, in_capability = None,
      in_correlationId = correlation, in_ttlMs = Some 60000, in_messageId = None, in_nonce = None, in_nowMs = None\<rparr> clock rnd6 rnd12 = (h, b)"
    by fastforce
  then have c: "timestampMs h = Fin clock" "ttlMs h = Fin 60000" "content b = text" by (auto simp: createEnvelope_def Let_def)
  have e: "signEnvelopeEd25519 C h b priv default_ed_key_id = Some e" using assms(1) hb by (simp add: response_envelope_def)
  have "json_verify_ed C (envelope_json e) pub = Some True"
    unfolding json_verify_typed by (rule sign_verify_ed [OF assms(2) e])
  then have "verifyResponse C parse pub None text [(RESPONSE_HEADER, Single (print_json (envelope_json e)))] now = Some (Inr (envelope_json e))"
    using c signed_ed_parts [OF e] assms(3,4) print_nonempty [of e]
    by (simp add: verifyResponse_def first_value_def wire_members number_member_def readable_parts Let_def)
  then show "\<exists>hs. signResponse C text priv snd' rcp correlation None clock rnd6 rnd12 = Some hs
      \<and> verifyResponse C parse pub None text hs now = Some (Inr (envelope_json e))"
    using assms(1) by (simp add: signResponse_def)
next
  fix text' hs' pub' maxAge now' v
  assume "verifyResponse C parse pub' maxAge text' hs' now' = Some (Inr v)"
  then have "json_verify_ed C v pub' = Some True" "\<not> (case jmember v ''body'' of Some b \<Rightarrow> jmember b ''content'' \<noteq> Some (JStr text') | None \<Rightarrow> True)"
    by (auto simp: verifyResponse_def Let_def split: option.splits json.splits if_splits bool.splits)
  then show "\<exists>b. jmember v ''body'' = Some b \<and> jmember b ''content'' = Some (JStr text')" "json_verify_ed C v pub' = Some True"
    by (auto split: option.splits)
qed

section \<open>The properties at work\<close>

definition demo_keys :: key_registry where
  "demo_keys = createStaticKeyRegistry [(js ''a'', js ''AA'')]"

lemma demo_keys_a: "reg_public demo_keys (Some (JStr (js ''a''))) = Some (Some (js ''AA''))"
  by (simp add: demo_keys_def createStaticKeyRegistry_def static_public_def template_text_def)

lemma demo_acceptable: "header_acceptable (demo_header 5 10) 8"
  by (simp add: header_acceptable_def demo_header_def blank_iff ws_char_def MAX_TTL_MS_def MAX_CLOCK_SKEW_MS_def ascii_eval)

lemma demo_envelope_signed: "\<exists>e. signEnvelopeEd25519 demo_crypto (demo_header 5 10) demo_body (js ''AA'') default_ed_key_id = Some e"
  by (simp add: signEnvelopeEd25519_def signCanonicalPayloadEd25519_def import_ed_priv_def demo_crypto_def)

theorem http_request_round_trip_witness:
  "\<exists>hs e. verifyHttpEnvelope demo_crypto (\<lambda>t. Some (envelope_json e)) (\<lambda>c. []) \<lparr>ho_registry = Some demo_keys, ho_headerName = None, ho_strictTtl = None\<rparr> hs None 8
    = Some (Inr (envelope_json e)) \<and> header e = demo_header 5 10"
proof -
  obtain e where e: "signEnvelopeEd25519 demo_crypto (demo_header 5 10) demo_body (js ''AA'') default_ed_key_id = Some e" using demo_envelope_signed by blast
  then obtain hs where hs: "signHttpRequest demo_crypto (demo_header 5 10) demo_body (js ''AA'') None False = Some (hs, None)"
    by (simp add: signHttpRequest_def)
  have ne: "js ''AA'' \<noteq> []" by (simp add: ascii_eval)
  have pk: "reg_public demo_keys (Some (JStr (sender (demo_header 5 10)))) = Some (Some (js ''AA''))"
    using demo_keys_a by (simp add: demo_header_def)
  obtain e' where e': "header e' = demo_header 5 10" "verifyHttpEnvelope demo_crypto (\<lambda>t. Some (envelope_json e)) (\<lambda>c. [])
      \<lparr>ho_registry = Some demo_keys, ho_headerName = None, ho_strictTtl = None\<rparr> hs None 8 = Some (Inr (envelope_json e'))"
    using http_request_round_trip [OF hs demo_pair ne pk demo_acceptable, of "\<lambda>t. Some (envelope_json e)" "\<lambda>c. []" None] e by auto
  from e'(2) have "envelope_json e' = envelope_json e"
    by (auto simp: verifyHttpEnvelope_def received_envelope_def check_signature_def Let_def split: option.splits if_splits)
  with e' signed_ed_parts [OF e] show ?thesis by metis
qed

lemma demo_http:
  "\<exists>e. verifyHttpEnvelope demo_crypto (\<lambda>t. Some (envelope_json e)) T \<lparr>ho_registry = Some demo_keys, ho_headerName = None, ho_strictTtl = None\<rparr>
    [(DEFAULT_HEADER, Single (js ''x''))] None 8 = Some (Inr (envelope_json e))"
proof -
  let ?o = "\<lparr>ho_registry = Some demo_keys, ho_headerName = None, ho_strictTtl = None\<rparr>"
  obtain e where e: "signEnvelopeEd25519 demo_crypto (demo_header 5 10) demo_body (js ''AA'') default_ed_key_id = Some e" using demo_envelope_signed by blast
  from signed_ed_parts [OF e] obtain s where s: "header e = demo_header 5 10" "signature e = Some s" "alg s = ED25519" by blast
  have "received_envelope (\<lambda>t. Some (envelope_json e)) T (ho_headerName ?o) [(DEFAULT_HEADER, Single (js ''x''))] None = Inr (envelope_json e)"
    by (simp add: received_envelope_def first_value_def ascii_eval DEFAULT_HEADER_def Let_def)
  from verify_typed [OF this s(2)] demo_acceptable s(1)
  have "verifyHttpEnvelope demo_crypto (\<lambda>t. Some (envelope_json e)) T ?o [(DEFAULT_HEADER, Single (js ''x''))] None 8
    = check_signature demo_crypto (Some demo_keys) (envelope_json e) (header_json (header e)) (signature_json s)" by simp
  also have "\<dots> = Some (Inr (envelope_json e))"
    using check_typed_ed [OF s(2,3), of demo_keys "js ''AA''" demo_crypto] demo_keys_a s(1)
      sign_verify_ed [OF demo_pair e, of "js ''AA''"] by (simp add: demo_header_def ascii_eval)
  finally show ?thesis by blast
qed

theorem http_accepts_sound_witness:
  "\<exists>e h sg. jmember e ''header'' = Some h \<and> jmember e ''signature'' = Some sg \<and> (\<exists>ts ttl. jmember h ''timestampMs'' = Some (JNum (Fin ts))
    \<and> jmember h ''ttlMs'' = Some (JNum (Fin ttl)) \<and> 8 \<le> ts + ttl)"
proof -
  obtain e where "verifyHttpEnvelope demo_crypto (\<lambda>t. Some (envelope_json e)) (\<lambda>c. []) \<lparr>ho_registry = Some demo_keys, ho_headerName = None, ho_strictTtl = None\<rparr>
    [(DEFAULT_HEADER, Single (js ''x''))] None 8 = Some (Inr (envelope_json e))" using demo_http by blast
  from http_accepts_sound [OF this] show ?thesis by auto
qed

theorem missing_body_throws_witness:
  "verifyHttpEnvelope demo_crypto (\<lambda>t. Some (JObj [(js ''header'', header_json (demo_header 5 10)), (js ''signature'', signature_json \<lparr>alg = ED25519, keyId = [], sigValue = js ''AA''\<rparr>)]))
     (\<lambda>c. []) \<lparr>ho_registry = Some demo_keys, ho_headerName = None, ho_strictTtl = None\<rparr> [(DEFAULT_HEADER, Single (js ''{}''))] None 8 = None"
  by (rule missing_body_throws [OF _ _ demo_acceptable]) (use demo_keys_a in \<open>auto simp: demo_header_def ascii_eval\<close>)

theorem response_binds_text_witness:
  "\<exists>hs e. verifyResponse demo_crypto (\<lambda>t. Some (envelope_json e)) (js ''AA'') None (js ''hi'') hs 7 = Some (Inr (envelope_json e))"
proof -
  have "\<exists>e. response_envelope demo_crypto (js ''hi'') (js ''AA'') (js ''a'') None None None 5 [] [] = Some e"
    by (simp add: response_envelope_def createEnvelope_def signEnvelopeEd25519_def signCanonicalPayloadEd25519_def import_ed_priv_def demo_crypto_def)
  then obtain e where "response_envelope demo_crypto (js ''hi'') (js ''AA'') (js ''a'') None None None 5 [] [] = Some e" by blast
  from response_binds_text [OF this demo_pair, of "\<lambda>t. Some (envelope_json e)" 7 "js ''AA''"] show ?thesis by auto
qed

end
