(* ===== verification/Dpop.thy ===== *)
theory Dpop
  imports Approval Digest
begin

unbundle bit_operations_syntax

text \<open>
  \<open>src/jose.ts\<close> and \<open>src/dpop.ts\<close>: strict base64url, public JWKs and their thumbprints,
  JWS signatures, DPoP proofs (RFC 9449) and the stateless server nonces. The URL parser
  and the key operations of the platform are parameters; the clock is an argument. An
  outer \<open>None\<close> is a thrown exception.
\<close>

section \<open>Strict base64url and UTF-8\<close>

definition url_char :: "code_unit \<Rightarrow> bool" where
  "url_char c \<longleftrightarrow> (let n = unat c in 65 \<le> n \<and> n \<le> 90 \<or> 97 \<le> n \<and> n \<le> 122 \<or> 48 \<le> n \<and> n \<le> 57 \<or> n = 45 \<or> n = 95)"

definition b64uToBytes :: "jstr \<Rightarrow> bytes option" where
  "b64uToBytes s =
    (if (\<forall>c \<in> set s. url_char c) \<and> length s mod 4 \<noteq> 1
     then Some (base64_decode (replace_char 95 47 (replace_char 45 43 s) @ replicate ((4 - length s mod 4) mod 4) 61))
     else None)"

text \<open>\<open>new TextDecoder('utf-8', { fatal: true })\<close>.\<close>

definition utf8DecodeFatal :: "bytes \<Rightarrow> jstr option" where
  "utf8DecodeFatal bs = (if concat (map utf8_cp (utf8_points bs)) = bs then Some (utf8Decode bs) else None)"

section \<open>JWKs\<close>

datatype public_jwk = EcJwk jstr jstr | OkpJwk jstr

datatype jws_alg = ES256 | EdDSA

fun jws_alg_text :: "jws_alg \<Rightarrow> jstr" where
  "jws_alg_text ES256 = js ''ES256''"
| "jws_alg_text EdDSA = js ''EdDSA''"

definition private_members :: "string list" where
  "private_members = [''d'', ''p'', ''q'', ''dp'', ''dq'', ''qi'', ''oth'', ''k'', ''priv'']"

definition b64u43 :: "json option \<Rightarrow> jstr option" where
  "b64u43 v = (case v of Some (JStr s) \<Rightarrow> if length s = 43 \<and> (\<forall>c \<in> set s. url_char c) then Some s else None | _ \<Rightarrow> None)"

text \<open>\<open>isPublicJwk\<close>, with the key it recognises.\<close>

definition public_jwk_of :: "json \<Rightarrow> public_jwk option" where
  "public_jwk_of v =
    (if \<exists>m \<in> set private_members. jmember v m \<noteq> None then None
     else if jmember v ''kty'' = Some (JStr (js ''EC'')) then
       (if jmember v ''crv'' \<noteq> Some (JStr (js ''P-256'')) then None
        else case (b64u43 (jmember v ''x''), b64u43 (jmember v ''y'')) of (Some x, Some y) \<Rightarrow> Some (EcJwk x y) | _ \<Rightarrow> None)
     else if jmember v ''kty'' = Some (JStr (js ''OKP'')) then
       (if jmember v ''crv'' \<noteq> Some (JStr (js ''Ed25519'')) \<or> jmember v ''y'' \<noteq> None then None
        else map_option OkpJwk (b64u43 (jmember v ''x'')))
     else None)"

definition isPublicJwk :: "json \<Rightarrow> bool" where
  "isPublicJwk v \<longleftrightarrow> public_jwk_of v \<noteq> None"

fun algForJwk :: "public_jwk \<Rightarrow> jws_alg" where
  "algForJwk (EcJwk x y) = ES256"
| "algForJwk (OkpJwk x) = EdDSA"

fun jwk_text :: "public_jwk \<Rightarrow> jstr" where
  "jwk_text (EcJwk x y) = print_json (JObj [(js ''crv'', JStr (js ''P-256'')), (js ''kty'', JStr (js ''EC'')), (js ''x'', JStr x), (js ''y'', JStr y)])"
| "jwk_text (OkpJwk x) = print_json (JObj [(js ''crv'', JStr (js ''Ed25519'')), (js ''kty'', JStr (js ''OKP'')), (js ''x'', JStr x)])"

definition jwkThumbprint :: "crypto \<Rightarrow> public_jwk \<Rightarrow> jstr" where
  "jwkThumbprint C k = toBase64Url (sha256_raw C (utf8Encode (jwk_text k)))"

section \<open>JWS\<close>

text \<open>
  \<open>importKey\<close> of a JWK, raw verification and signing; \<open>None\<close> where they throw. Import
  gets the whole JWK, unknown members included.
\<close>

record jose =
  jwk_import :: "json \<Rightarrow> bytes option"
  jwk_verify :: "jws_alg \<Rightarrow> bytes \<Rightarrow> bytes \<Rightarrow> bytes \<Rightarrow> bool option"
  jwk_sign :: "jws_alg \<Rightarrow> json \<Rightarrow> bytes \<Rightarrow> bytes option"

datatype jws_outcome = JwsValid | JwsInvalid | JwsBadKey

definition jwsVerify :: "jose \<Rightarrow> json \<Rightarrow> public_jwk \<Rightarrow> bytes \<Rightarrow> bytes \<Rightarrow> jws_outcome" where
  "jwsVerify J v k input sig =
    (case jwk_import J v of
       None \<Rightarrow> JwsBadKey
     | Some key \<Rightarrow>
         if algForJwk k = ES256 \<and> length sig \<noteq> 64 then JwsInvalid
         else (case jwk_verify J (algForJwk k) key sig input of
           None \<Rightarrow> JwsBadKey | Some ok \<Rightarrow> if ok then JwsValid else JwsInvalid))"

section \<open>Proofs\<close>

text \<open>\<open>new URL(s)\<close>: protocol, host and path; \<open>None\<close> where it throws.\<close>

type_synonym url_parser = "jstr \<Rightarrow> (jstr \<times> jstr \<times> jstr) option"

definition url_text :: "jstr \<times> jstr \<times> jstr \<Rightarrow> jstr" where
  "url_text u = (case u of (proto, host, pth) \<Rightarrow> proto @ js ''//'' @ host @ pth)"

definition dpopHtu :: "url_parser \<Rightarrow> jstr \<Rightarrow> jstr option" where
  "dpopHtu U url = map_option url_text (U url)"

definition normalizeHtu :: "url_parser \<Rightarrow> jstr \<Rightarrow> jstr option" where
  "normalizeHtu U v =
    (case U v of
       None \<Rightarrow> None
     | Some u \<Rightarrow> if fst u \<noteq> js ''https:'' \<and> fst u \<noteq> js ''http:'' then None else Some (url_text u))"

definition accessTokenHash :: "crypto \<Rightarrow> jstr \<Rightarrow> jstr" where
  "accessTokenHash C t = toBase64Url (sha256_raw C (utf8Encode t))"

definition DPOP_TYP :: jstr where
  "DPOP_TYP = js ''dpop+jwt''"

record dpop_key =
  dk_alg :: jws_alg
  dk_public :: public_jwk
  dk_private :: json

fun public_jwk_json :: "public_jwk \<Rightarrow> json" where
  "public_jwk_json (EcJwk x y) = JObj [(js ''kty'', JStr (js ''EC'')), (js ''crv'', JStr (js ''P-256'')), (js ''x'', JStr x), (js ''y'', JStr y)]"
| "public_jwk_json (OkpJwk x) = JObj [(js ''kty'', JStr (js ''OKP'')), (js ''crv'', JStr (js ''Ed25519'')), (js ''x'', JStr x)]"

record proof_opts =
  po_key :: dpop_key
  po_method :: jstr
  po_url :: jstr
  po_accessToken :: "jstr option"
  po_nonce :: "jstr option"
  po_iat :: "int option"
  po_jti :: "jstr option"

definition proof_header :: "dpop_key \<Rightarrow> json" where
  "proof_header k = JObj [(js ''typ'', JStr DPOP_TYP), (js ''alg'', JStr (jws_alg_text (dk_alg k))), (js ''jwk'', public_jwk_json (dk_public k))]"

definition proof_payload :: "crypto \<Rightarrow> proof_opts \<Rightarrow> jstr \<Rightarrow> jstr \<Rightarrow> int \<Rightarrow> json" where
  "proof_payload C o' jti htu iat = JObj ([(js ''jti'', JStr jti), (js ''htm'', JStr (toUpperCase (po_method o'))), (js ''htu'', JStr htu), (js ''iat'', JNum (Fin iat))]
     @ opt_field ''nonce'' JStr (po_nonce o') @ opt_field ''ath'' JStr (map_option (accessTokenHash C) (po_accessToken o')))"

definition b64u_json :: "json \<Rightarrow> jstr" where
  "b64u_json v = toBase64Url (utf8Encode (print_json v))"

text \<open>\<open>rnd\<close> is the 16 random bytes of a fresh \<open>jti\<close>.\<close>

definition createDpopProof :: "crypto \<Rightarrow> jose \<Rightarrow> url_parser \<Rightarrow> proof_opts \<Rightarrow> int \<Rightarrow> bytes \<Rightarrow> jstr option" where
  "createDpopProof C J U o' now rnd =
    (let iat = (case po_iat o' of Some i \<Rightarrow> i | None \<Rightarrow> now div 1000);
         jti = (case po_jti o' of Some j \<Rightarrow> j | None \<Rightarrow> toBase64Url rnd)
     in case dpopHtu U (po_url o') of
       None \<Rightarrow> None
     | Some htu \<Rightarrow>
         let signingInput = b64u_json (proof_header (po_key o')) @ js ''.'' @ b64u_json (proof_payload C o' jti htu iat) in
         map_option (\<lambda>sig. signingInput @ js ''.'' @ toBase64Url sig)
           (jwk_sign J (dk_alg (po_key o')) (dk_private (po_key o')) (utf8Encode signingInput)))"

text \<open>The regular expression of \<open>parseDpopAuthorization\<close>, read from the left.\<close>

definition token_char :: "code_unit \<Rightarrow> bool" where
  "token_char c \<longleftrightarrow> url_char c \<or> c \<in> {46, 126, 43, 47}"

definition parseDpopAuthorization :: "jstr option \<Rightarrow> jstr option" where
  "parseDpopAuthorization h =
    (case h of
       None \<Rightarrow> None
     | Some h \<Rightarrow> let s = trim h; t = drop 5 s; rest = dropWhile token_char t in
         if toUpperCase (take 5 s) = js ''DPOP '' \<and> takeWhile token_char t \<noteq> [] \<and> (\<forall>c \<in> set rest. c = 61) then Some t else None)"

section \<open>Verifying proofs\<close>

datatype dpop_failure =
  MissingProof | MultipleProofs | DpopMalformed | BadTyp | DpopUnsupportedAlg | BadJwk | CriticalHeader
  | DpopInvalidSignature | MissingClaim | HtmMismatch | HtuMismatch | DpopNotYetValid | DpopExpired
  | NonceRequired | NonceMismatch | AthRequired | AthMismatch | KeyNotBound | Replayed

record dpop_claims =
  cl_jti :: jstr
  cl_htm :: jstr
  cl_htu :: jstr
  cl_iat :: int
  cl_nonce :: "jstr option"
  cl_ath :: "jstr option"

record dpop_result =
  dr_jkt :: jstr
  dr_jwk :: public_jwk
  dr_claims :: dpop_claims

text \<open>The nonce policy: whether one is required, and the validator, which may throw.\<close>

record dpop_opts =
  do_method :: jstr
  do_url :: jstr
  do_accessToken :: "jstr option"
  do_expectedJkt :: "jstr option"
  do_nonce :: "(bool \<times> (jstr \<Rightarrow> bool option)) option"
  do_allowedAlgs :: "jws_alg list option"
  do_maxAgeMs :: "int option"
  do_clockSkewMs :: "int option"
  do_now :: int

definition MAX_PROOF_BYTES :: nat where
  "MAX_PROOF_BYTES = 8 * 1024"

definition parseJsonObject :: "(jstr \<Rightarrow> json option) \<Rightarrow> bytes \<Rightarrow> json option" where
  "parseJsonObject parse bs =
    (case utf8DecodeFatal bs of
       None \<Rightarrow> None
     | Some t \<Rightarrow> (case parse t of Some (JObj kvs) \<Rightarrow> Some (JObj kvs) | _ \<Rightarrow> None))"

text \<open>The three parts of the one proof: header, payload, signed text and signature.\<close>

definition split_proof :: "(jstr \<Rightarrow> json option) \<Rightarrow> jstr list \<Rightarrow> dpop_failure + (json \<times> json \<times> jstr \<times> bytes)" where
  "split_proof parse proofs =
    (case proofs of
       [] \<Rightarrow> Inl MissingProof
     | jwt # others \<Rightarrow>
         if jwt = [] then Inl MissingProof
         else if others \<noteq> [] then Inl MultipleProofs
         else if MAX_PROOF_BYTES < length jwt then Inl DpopMalformed
         else (case split_on 46 jwt of
           [a, b, c] \<Rightarrow>
             (case (b64uToBytes a, b64uToBytes b, b64uToBytes c) of
                (Some hb, Some pb, Some sig) \<Rightarrow>
                  (case (parseJsonObject parse hb, parseJsonObject parse pb) of
                     (Some h, Some p) \<Rightarrow> Inr (h, p, a @ js ''.'' @ b, sig)
                   | _ \<Rightarrow> Inl DpopMalformed)
              | _ \<Rightarrow> Inl DpopMalformed)
         | _ \<Rightarrow> Inl DpopMalformed))"

text \<open>Header checks and the signature under the proof's own key.\<close>

definition header_alg :: "json \<Rightarrow> jws_alg option" where
  "header_alg h =
    (if jmember h ''alg'' = Some (JStr (js ''ES256'')) then Some ES256
     else if jmember h ''alg'' = Some (JStr (js ''EdDSA'')) then Some EdDSA else None)"

definition check_header :: "jose \<Rightarrow> dpop_opts \<Rightarrow> json \<Rightarrow> jstr \<Rightarrow> bytes \<Rightarrow> dpop_failure + public_jwk" where
  "check_header J o' h input sig =
    (if jmember h ''typ'' \<noteq> Some (JStr DPOP_TYP) then Inl BadTyp
     else if jmember h ''crit'' \<noteq> None then Inl CriticalHeader
     else case header_alg h of
       None \<Rightarrow> Inl DpopUnsupportedAlg
     | Some a \<Rightarrow>
         if a \<notin> set (case do_allowedAlgs o' of None \<Rightarrow> [ES256, EdDSA] | Some l \<Rightarrow> l) then Inl DpopUnsupportedAlg
         else (case jmember h ''jwk'' of
           None \<Rightarrow> Inl BadJwk
         | Some v \<Rightarrow>
             (case public_jwk_of v of
                None \<Rightarrow> Inl BadJwk
              | Some k \<Rightarrow>
                  if algForJwk k \<noteq> a then Inl BadJwk
                  else (case jwsVerify J v k (utf8Encode input) sig of
                    JwsBadKey \<Rightarrow> Inl BadJwk | JwsInvalid \<Rightarrow> Inl DpopInvalidSignature | JwsValid \<Rightarrow> Inr k))))"

definition text_claim :: "json \<Rightarrow> string \<Rightarrow> jstr option" where
  "text_claim p name = (case jmember p name of Some (JStr s) \<Rightarrow> if s = [] then None else Some s | _ \<Rightarrow> None)"

text \<open>Inner \<open>None\<close>: the claim is absent; outer: it is there and no non-empty text.\<close>

definition opt_claim :: "json \<Rightarrow> string \<Rightarrow> jstr option option" where
  "opt_claim p name = (case jmember p name of None \<Rightarrow> Some None | Some v \<Rightarrow> map_option Some (text_claim p name))"

definition read_claims :: "json \<Rightarrow> dpop_claims option" where
  "read_claims p =
    (case (text_claim p ''jti'', text_claim p ''htm'', text_claim p ''htu'', jmember p ''iat'', opt_claim p ''nonce'', opt_claim p ''ath'') of
       (Some jti, Some htm, Some htu, Some (JNum (Fin iat)), Some n, Some a) \<Rightarrow>
         if 256 < length jti \<or> \<not> isSafeInteger (Fin iat) then None
         else Some \<lparr>cl_jti = jti, cl_htm = htm, cl_htu = htu, cl_iat = iat, cl_nonce = n, cl_ath = a\<rparr>
     | _ \<Rightarrow> None)"

text \<open>\<open>Math.ceil(ms / 1000)\<close> and the two windows in seconds.\<close>

definition ceil_s :: "int \<Rightarrow> int" where
  "ceil_s ms = - (- ms div 1000)"

definition skew_s :: "dpop_opts \<Rightarrow> int" where
  "skew_s o' = ceil_s (case do_clockSkewMs o' of None \<Rightarrow> 30000 | Some m \<Rightarrow> m)"

definition max_age_s :: "dpop_opts \<Rightarrow> int" where
  "max_age_s o' = ceil_s (case do_maxAgeMs o' of None \<Rightarrow> 60000 | Some m \<Rightarrow> m)"

definition claim_checks :: "url_parser \<Rightarrow> dpop_opts \<Rightarrow> dpop_claims \<Rightarrow> dpop_failure option" where
  "claim_checks U o' c =
    (if cl_htm c \<noteq> toUpperCase (do_method o') then Some HtmMismatch
     else if normalizeHtu U (do_url o') = None \<or> normalizeHtu U (cl_htu c) = None \<or> normalizeHtu U (do_url o') \<noteq> normalizeHtu U (cl_htu c)
       then Some HtuMismatch
     else if do_now o' div 1000 + skew_s o' < cl_iat c then Some DpopNotYetValid
     else if max_age_s o' + skew_s o' < do_now o' div 1000 - cl_iat c then Some DpopExpired
     else None)"

text \<open>The outer option is a throw of the validator.\<close>

definition nonce_check :: "dpop_opts \<Rightarrow> dpop_claims \<Rightarrow> dpop_failure option option" where
  "nonce_check o' c =
    (case do_nonce o' of
       None \<Rightarrow> Some None
     | Some (required, validate) \<Rightarrow>
         (case cl_nonce c of
            None \<Rightarrow> Some (if required then Some NonceRequired else None)
          | Some n \<Rightarrow> map_option (\<lambda>ok. if ok then None else Some NonceMismatch) (validate n)))"

definition binding_check :: "crypto \<Rightarrow> dpop_opts \<Rightarrow> dpop_claims \<Rightarrow> jstr \<Rightarrow> dpop_failure option option" where
  "binding_check C o' c jkt =
    (case do_accessToken o' of
       None \<Rightarrow> Some None
     | Some t \<Rightarrow>
         (case do_expectedJkt o' of
            None \<Rightarrow> None
          | Some want \<Rightarrow> Some
              (case cl_ath c of
                 None \<Rightarrow> Some AthRequired
               | Some a \<Rightarrow> if a \<noteq> accessTokenHash C t then Some AthMismatch else if jkt \<noteq> want then Some KeyNotBound else None)))"

definition jti_key :: "jstr \<Rightarrow> jstr \<Rightarrow> jstr" where
  "jti_key jkt jti = js ''7h3:dpop:'' @ jkt @ js '':'' @ jti"

definition jti_ttl :: "dpop_opts \<Rightarrow> int" where
  "jti_ttl o' = (max_age_s o' + 2 * skew_s o') * 1000"

text \<open>Everything before the single-use check: a failure, a throw, or the result to return.\<close>

definition dpop_verdict ::
  "crypto \<Rightarrow> jose \<Rightarrow> url_parser \<Rightarrow> (jstr \<Rightarrow> json option) \<Rightarrow> jstr list \<Rightarrow> dpop_opts \<Rightarrow> (dpop_failure + dpop_result) option" where
  "dpop_verdict C J U parse proofs o' =
    (case split_proof parse proofs of
       Inl e \<Rightarrow> Some (Inl e)
     | Inr (h, p, input, sig) \<Rightarrow>
         (case check_header J o' h input sig of
            Inl e \<Rightarrow> Some (Inl e)
          | Inr k \<Rightarrow>
              (case read_claims p of
                 None \<Rightarrow> Some (Inl MissingClaim)
               | Some c \<Rightarrow>
                   (case claim_checks U o' c of
                      Some e \<Rightarrow> Some (Inl e)
                    | None \<Rightarrow>
                        (case nonce_check o' c of
                           None \<Rightarrow> None
                         | Some (Some e) \<Rightarrow> Some (Inl e)
                         | Some None \<Rightarrow>
                             (case binding_check C o' c (jwkThumbprint C k) of
                                None \<Rightarrow> None
                              | Some (Some e) \<Rightarrow> Some (Inl e)
                              | Some None \<Rightarrow> Some (Inr \<lparr>dr_jkt = jwkThumbprint C k, dr_jwk = k, dr_claims = c\<rparr>)))))))"

definition verifyDpopProof ::
  "crypto \<Rightarrow> jose \<Rightarrow> url_parser \<Rightarrow> (jstr \<Rightarrow> json option) \<Rightarrow> ('st \<Rightarrow> jstr \<Rightarrow> jnum \<Rightarrow> int \<Rightarrow> 'st \<times> bool option) option
    \<Rightarrow> 'st \<Rightarrow> int \<Rightarrow> jstr list \<Rightarrow> dpop_opts \<Rightarrow> 'st \<times> (dpop_failure + dpop_result) option" where
  "verifyDpopProof C J U parse check st clock proofs o' =
    (case dpop_verdict C J U parse proofs o' of
       Some (Inr r) \<Rightarrow>
         (case check of
            None \<Rightarrow> (st, Some (Inr r))
          | Some chk \<Rightarrow>
              (case chk st (jti_key (dr_jkt r) (cl_jti (dr_claims r))) (Fin (jti_ttl o')) clock of
                 (st', None) \<Rightarrow> (st', None)
               | (st', Some True) \<Rightarrow> (st', Some (Inl Replayed))
               | (st', Some False) \<Rightarrow> (st', Some (Inr r))))
     | v \<Rightarrow> (st, v))"

section \<open>What base64url carries\<close>

definition b64_plain :: "code_unit \<Rightarrow> bool" where
  "b64_plain c \<longleftrightarrow> (let n = unat c in 65 \<le> n \<and> n \<le> 90 \<or> 97 \<le> n \<and> n \<le> 122 \<or> 48 \<le> n \<and> n \<le> 57 \<or> n = 43 \<or> n = 47)"

lemma b64_plain_char: "n < 64 \<Longrightarrow> b64_plain (b64_char n)"
proof -
  assume "n < 64"
  then consider "n < 26" | "26 \<le> n" "n < 52" | "52 \<le> n" "n < 62" | "n = 62" | "n = 63" by linarith
  then show ?thesis
    by cases (auto simp: b64_char_def b64_plain_def Let_def unat_of_nat16 simp del: of_nat_add of_nat_diff)
qed

lemma base64_core:
  "\<exists>core k. base64_encode bs = core @ replicate k 61 \<and> (\<forall>c \<in> set core. b64_plain c) \<and> length core = (4 * length bs + 2) div 3 \<and> k \<le> 2"
proof (induction bs rule: base64_encode.induct)
  case 1
  then show ?case by (intro exI [of _ "[]"] exI [of _ 0]) simp
next
  case (2 x)
  show ?case
    by (intro exI [of _ "[b64_char (unat x div 4), b64_char (unat x mod 4 * 16)]"] exI [of _ 2])
      (simp add: b64_plain_char sextets_bound numeral_2_eq_2)
next
  case (3 x y)
  show ?case
    by (intro exI [of _ "[b64_char (unat x div 4), b64_char (unat x mod 4 * 16 + unat y div 16), b64_char (unat y mod 16 * 4)]"] exI [of _ 1])
      (simp add: b64_plain_char sextets_bound)
next
  case (4 x y z r)
  then obtain core k where c: "base64_encode r = core @ replicate k 61" "\<forall>c \<in> set core. b64_plain c" "length core = (4 * length r + 2) div 3" "k \<le> 2" by blast
  let ?g = "[b64_char (unat x div 4), b64_char (unat x mod 4 * 16 + unat y div 16), b64_char (unat y mod 16 * 4 + unat z div 64), b64_char (unat z mod 64)]"
  from c show ?case
    by (intro exI [of _ "?g @ core"] exI [of _ k]) (simp add: b64_plain_char sextets_bound)
qed

lemma base64_length: "length (base64_encode bs) mod 4 = 0"
  by (induction bs rule: base64_encode.induct) auto

lemma toBase64Url_shape: "(\<forall>c \<in> set (toBase64Url bs). url_char c) \<and> length (toBase64Url bs) = (4 * length bs + 2) div 3"
proof -
  obtain core k where c: "base64_encode bs = core @ replicate k 61" "\<forall>c \<in> set core. b64_plain c" "length core = (4 * length bs + 2) div 3"
    using base64_core by blast
  define f where "f = (\<lambda>c :: code_unit. if (if c = 43 then 45 else c) = 47 then 95 else if c = 43 then 45 else c)"
  have m: "replace_char 47 95 (replace_char 43 45 s) = map f s" for s by (simp add: replace_char_def f_def)
  have f61: "f 61 = 61" by (simp add: f_def)
  have core: "url_char (f c) \<and> f c \<noteq> 61" if "c \<in> set core" for c
    using c(2) that by (auto simp: f_def b64_plain_def url_char_def Let_def word_unat_eq_iff)
  have "toBase64Url bs = rev (dropWhile (\<lambda>c. c = 61) (replicate k 61 @ rev (map f core)))"
    by (simp add: toBase64Url_def m c(1) f61 rev_map)
  also have "dropWhile (\<lambda>c. c = 61) (replicate k 61 @ rev (map f core)) = rev (map f core)"
  proof (rule dropWhile_append_stop)
    have "hd (rev (map f core)) \<in> set (map f core)" if "core \<noteq> []" using that hd_in_set [of "rev (map f core)"] by simp
    then show "rev (map f core) = [] \<or> hd (rev (map f core)) \<noteq> 61" using core by auto
  qed simp
  finally show ?thesis using core c(3) by auto
qed

lemma b64u_roundtrip: "b64uToBytes (toBase64Url bs) = Some bs"
proof -
  have "base64_decode (replace_char 95 47 (replace_char 45 43 (toBase64Url bs)) @ replicate n 61) = fromBase64Url (toBase64Url bs)" for n
    by (simp add: base64_decode_def map_filter_append map_filter_replace map_filter_pad fromBase64Url_eq)
  moreover have "(4 * n + 2) div 3 mod 4 \<noteq> (1 :: nat)" for n by presburger
  ultimately show ?thesis using toBase64Url_shape [of bs] by (simp add: b64uToBytes_def base64url_roundtrip)
qed

lemma length_utf8: "length (utf8Encode s) \<le> 4 * length s"
proof -
  have p: "length (code_points s) \<le> length s" by (induction s rule: code_points.induct) auto
  have "length (concat (map utf8_cp ns)) \<le> 4 * length ns" for ns by (induction ns) (auto simp: utf8_cp_def)
  from this [of "code_points s"] p show ?thesis by (simp add: utf8Encode_def)
qed

lemma length_b64u_json: "length (b64u_json v) \<le> 6 * length (print_json v) + 1"
  using length_utf8 [of "print_json v"] toBase64Url_shape [of "utf8Encode (print_json v)"] by (simp add: b64u_json_def)

lemma no_dot: "46 \<notin> set (toBase64Url bs)"
  using toBase64Url_shape [of bs] by (auto simp: url_char_def)

lemma utf8_fatal_roundtrip:
  assumes "well_formed s" "take 1 (code_points s) \<noteq> [bom]"
  shows "utf8DecodeFatal (utf8Encode s) = Some s"
proof -
  have "concat (map utf8_cp (utf8_points (utf8Encode s))) = utf8Encode s"
    by (simp only: utf8_points_utf8Encode) (simp add: utf8Encode_def)
  then show ?thesis using utf8_roundtrip [OF assms] by (simp add: utf8DecodeFatal_def)
qed

section \<open>Single use\<close>

lemma verdict_ok:
  assumes "dpop_verdict C J U parse proofs o' = Some (Inr r)"
  obtains h p input sig v where "split_proof parse proofs = Inr (h, p, input, sig)" "check_header J o' h input sig = Inr (dr_jwk r)"
    "read_claims p = Some (dr_claims r)" "claim_checks U o' (dr_claims r) = None" "nonce_check o' (dr_claims r) = Some None"
    "binding_check C o' (dr_claims r) (dr_jkt r) = Some None" "dr_jkt r = jwkThumbprint C (dr_jwk r)"
  using assms by (auto simp: dpop_verdict_def split: sum.splits option.splits)

lemma check_header_ok:
  assumes "check_header J o' h input sig = Inr k"
  shows "jmember h ''typ'' = Some (JStr DPOP_TYP) \<and> jmember h ''crit'' = None \<and> header_alg h = Some (algForJwk k)
    \<and> (\<exists>v. jmember h ''jwk'' = Some v \<and> public_jwk_of v = Some k \<and> jwsVerify J v k (utf8Encode input) sig = JwsValid)"
  using assms by (auto simp: check_header_def split: option.splits if_splits jws_outcome.splits)

lemma split_proof_ok:
  assumes "split_proof parse proofs = Inr (h, p, input, sig)"
  shows "\<exists>a b c hb pb. proofs = [a @ 46 # b @ 46 # c] \<and> input = a @ 46 # b \<and> b64uToBytes a = Some hb \<and> b64uToBytes b = Some pb
    \<and> b64uToBytes c = Some sig \<and> parseJsonObject parse hb = Some h \<and> parseJsonObject parse pb = Some p"
proof -
  obtain jwt where j: "proofs = [jwt]" using assms by (cases proofs) (auto simp: split_proof_def split: if_splits)
  with assms obtain a b c hb pb where s: "split_on 46 jwt = [a, b, c]" "b64uToBytes a = Some hb" "b64uToBytes b = Some pb"
    "b64uToBytes c = Some sig" "parseJsonObject parse hb = Some h" "parseJsonObject parse pb = Some p" "input = a @ js ''.'' @ b"
    by (auto simp: split_proof_def split: if_splits list.splits option.splits)
  have "jwt = a @ 46 # b @ 46 # c" using join_split [of 46 jwt] s(1) by simp
  moreover have "input = a @ 46 # b" using s(7) by (simp add: ascii_eval)
  ultimately show ?thesis using j s
    by (intro exI [of _ a] exI [of _ b] exI [of _ c] exI [of _ hb] exI [of _ pb]) simp
qed

text \<open>The moments at which claims pass the time checks.\<close>

lemma claim_window:
  "claim_checks U o' c = None \<Longrightarrow> cl_iat c \<le> do_now o' div 1000 + skew_s o' \<and> do_now o' div 1000 \<le> cl_iat c + max_age_s o' + skew_s o'"
  by (auto simp: claim_checks_def split: if_splits)

context replay_checker
begin

lemma proof_fresh:
  assumes "snd (verifyDpopProof C J U parse (Some check) st clock proofs o') = Some (Inr r)"
  shows "dpop_verdict C J U parse proofs o' = Some (Inr r)"
    and "snd (mark st (jti_key (dr_jkt r) (cl_jti (dr_claims r))) (Fin (jti_ttl o')) clock)"
    and "fst (verifyDpopProof C J U parse (Some check) st clock proofs o') = fst (mark st (jti_key (dr_jkt r) (cl_jti (dr_claims r))) (Fin (jti_ttl o')) clock)"
  using assms by (auto simp: verifyDpopProof_def mark_check split: option.splits sum.splits prod.splits bool.splits)

lemma proof_single_use:
  assumes "invar st" "snd (verifyDpopProof C J U parse (Some check) st clock proofs o1) = Some (Inr r1)"
    and "\<forall>(k, ttl, now) \<in> set evs. now \<le> clock2" "clock2 < clock + jti_ttl o1"
    and "dr_jkt r2 = dr_jkt r1" "cl_jti (dr_claims r2) = cl_jti (dr_claims r1)"
  shows "snd (verifyDpopProof C J U parse (Some check) (mark_run (fst (verifyDpopProof C J U parse (Some check) st clock proofs o1)) evs) clock2 proofs2 o2)
    \<noteq> Some (Inr r2)"
proof
  let ?st = "mark_run (fst (verifyDpopProof C J U parse (Some check) st clock proofs o1)) evs"
  assume "snd (verifyDpopProof C J U parse (Some check) ?st clock2 proofs2 o2) = Some (Inr r2)"
  from proof_fresh(2) [OF this] show False
    using no_replay [OF assms(1) proof_fresh(2) [OF assms(2)] assms(3,4)] proof_fresh(3) [OF assms(2)] assms(5,6) by simp
qed

end

section \<open>Server nonces\<close>

text \<open>
  \<open>DpopNonceIssuer\<close>: \<open>None\<close> of the constructor is its throw on a short secret; the key it
  keeps is the secret's bytes. The comparison loop is written as it runs.
\<close>

definition nonce_issuer :: "bytes \<Rightarrow> bytes option" where
  "nonce_issuer raw = (if length raw < 16 then None else Some raw)"

definition nonce_mac :: "crypto \<Rightarrow> bytes \<Rightarrow> jstr \<Rightarrow> jstr" where
  "nonce_mac C key issued = toBase64Url (hmac_raw C key (utf8Encode issued))"

definition issue_nonce :: "crypto \<Rightarrow> bytes \<Rightarrow> int \<Rightarrow> jstr" where
  "issue_nonce C key now = (let issued = show_int (now div 1000) in issued @ js ''.'' @ nonce_mac C key issued)"

definition diff_of :: "jstr \<Rightarrow> jstr \<Rightarrow> code_unit" where
  "diff_of a b = foldl (\<lambda>d (x, y). d OR (x XOR y)) (if length a = length b then 0 else 1) (zip a b)"

definition validate_nonce :: "crypto \<Rightarrow> bytes \<Rightarrow> int option \<Rightarrow> int \<Rightarrow> jstr \<Rightarrow> bool" where
  "validate_nonce C key lifetimeMs now s =
    (let issued = takeWhile digit_char s; rest = drop (length issued) s; mac = drop 1 rest in
     if issued = [] \<or> 12 < length issued \<or> take 1 rest \<noteq> js ''.'' \<or> length mac \<noteq> 43 \<or> \<not> (\<forall>c \<in> set mac. url_char c) then False
     else if diff_of (nonce_mac C key issued) mac \<noteq> 0 then False
     else let age = now - int (read_nat issued 0) * 1000 in
       - 30000 \<le> age \<and> age \<le> (case lifetimeMs of None \<Rightarrow> 5 * 60000 | Some l \<Rightarrow> l))"

lemma or_zero_word: "a OR b = 0 \<longleftrightarrow> a = 0 \<and> b = 0" for a b :: "'a::len word"
  by (rule or_eq_0_iff)

lemma xor_zero_word: "a XOR b = 0 \<longleftrightarrow> a = b" for a b :: "'a::len word"
  by (metis xor.assoc xor_self_eq xor.right_neutral xor.left_neutral)

lemma fold_diff: "foldl (\<lambda>d (x, y). d OR (x XOR y)) d ps = 0 \<longleftrightarrow> d = 0 \<and> (\<forall>(x, y) \<in> set ps. x = y)" for d :: code_unit
  by (induction ps arbitrary: d) (auto simp: or_zero_word xor_zero_word)

lemma length_show_nat: "n < 10 ^ k \<Longrightarrow> 0 < k \<Longrightarrow> length (show_nat n) \<le> k"
proof (induction k arbitrary: n)
  case (Suc k)
  show ?case
  proof (cases "n < 10")
    case True
    then show ?thesis by (subst show_nat.simps) simp
  next
    case False
    then have "0 < k" using Suc.prems by (cases k) auto
    moreover have "n div 10 < 10 ^ k" using Suc.prems by (simp add: less_mult_imp_div_less mult.commute)
    ultimately show ?thesis using False Suc.IH [of "n div 10"] by (subst show_nat.simps) simp
  qed
qed simp

lemma diff_of_eq: "diff_of a b = 0 \<longleftrightarrow> a = b"
  unfolding list_eq_iff_zip_eq diff_of_def fold_diff by simp

section \<open>What is created verifies\<close>

text \<open>The claims a proof created at \<open>now\<close> makes.\<close>

definition proof_claims :: "crypto \<Rightarrow> url_parser \<Rightarrow> proof_opts \<Rightarrow> int \<Rightarrow> bytes \<Rightarrow> dpop_claims" where
  "proof_claims C U po now rnd =
    \<lparr>cl_jti = (case po_jti po of Some j \<Rightarrow> j | None \<Rightarrow> toBase64Url rnd), cl_htm = toUpperCase (po_method po),
     cl_htu = (case dpopHtu U (po_url po) of Some htu \<Rightarrow> htu | None \<Rightarrow> []),
     cl_iat = (case po_iat po of Some i \<Rightarrow> i | None \<Rightarrow> now div 1000),
     cl_nonce = po_nonce po, cl_ath = map_option (accessTokenHash C) (po_accessToken po)\<rparr>"

text \<open>A public key as \<open>generateDpopKeyPair\<close> exports it, whose signatures the platform verifies.\<close>

fun jwk_shaped :: "public_jwk \<Rightarrow> bool" where
  "jwk_shaped (EcJwk x y) \<longleftrightarrow> length x = 43 \<and> (\<forall>c \<in> set x. url_char c) \<and> length y = 43 \<and> (\<forall>c \<in> set y. url_char c)"
| "jwk_shaped (OkpJwk x) \<longleftrightarrow> length x = 43 \<and> (\<forall>c \<in> set x. url_char c)"

definition key_usable :: "jose \<Rightarrow> dpop_key \<Rightarrow> bool" where
  "key_usable J k \<longleftrightarrow> dk_alg k = algForJwk (dk_public k) \<and> jwk_shaped (dk_public k)
    \<and> (\<exists>key. jwk_import J (public_jwk_json (dk_public k)) = Some key
      \<and> (\<forall>m s. jwk_sign J (dk_alg k) (dk_private k) m = Some s \<longrightarrow> jwk_verify J (dk_alg k) key s m = Some True \<and> length s = 64))"

definition claims_usable :: "dpop_claims \<Rightarrow> bool" where
  "claims_usable c \<longleftrightarrow> cl_jti c \<noteq> [] \<and> length (cl_jti c) \<le> 256 \<and> cl_htm c \<noteq> [] \<and> cl_htu c \<noteq> [] \<and> isSafeInteger (Fin (cl_iat c))
    \<and> cl_nonce c \<noteq> Some [] \<and> cl_ath c \<noteq> Some []"

lemma public_jwk_of_json: "jwk_shaped k \<Longrightarrow> public_jwk_of (public_jwk_json k) = Some k"
  by (cases k) (auto simp: public_jwk_of_def private_members_def b64u43_def ascii_eval)

lemma part_roundtrip:
  assumes "parse (print_json (JObj kvs)) = Some (JObj kvs)"
  shows "\<exists>bs. b64uToBytes (b64u_json (JObj kvs)) = Some bs \<and> parseJsonObject parse bs = Some (JObj kvs)"
proof -
  have "utf8DecodeFatal (utf8Encode (print_json (JObj kvs))) = Some (print_json (JObj kvs))"
  proof (rule utf8_fatal_roundtrip)
    show "well_formed (print_json (JObj kvs))" using well_formed_print [of "JObj kvs" "[]"] by simp
    have "code_points (123 # r) = 123 # code_points r" for r by (cases r) (simp_all add: is_high_def is_low_def)
    then show "take 1 (code_points (print_json (JObj kvs))) \<noteq> [bom]" by (simp add: bom_def)
  qed
  then show ?thesis using assms by (simp add: b64u_json_def b64u_roundtrip parseJsonObject_def)
qed

lemma read_claims_payload:
  assumes "claims_usable (proof_claims C U po now rnd)"
  shows "read_claims (proof_payload C po (cl_jti (proof_claims C U po now rnd)) (cl_htu (proof_claims C U po now rnd)) (cl_iat (proof_claims C U po now rnd)))
    = Some (proof_claims C U po now rnd)"
  using assms
  by (cases "po_nonce po"; cases "po_accessToken po")
    (auto simp: read_claims_def proof_payload_def claims_usable_def proof_claims_def text_claim_def opt_claim_def opt_field_def ascii_eval)

lemma created_splits:
  assumes "createDpopProof C J U po now rnd = Some t" "length t \<le> MAX_PROOF_BYTES"
    and "parse (print_json (proof_header (po_key po))) = Some (proof_header (po_key po))"
    and "parse (print_json p) = Some p" "p = proof_payload C po (cl_jti c) (cl_htu c) (cl_iat c)" "c = proof_claims C U po now rnd"
  shows "\<exists>input sig. split_proof parse [t] = Inr (proof_header (po_key po), p, input, sig)
    \<and> jwk_sign J (dk_alg (po_key po)) (dk_private (po_key po)) (utf8Encode input) = Some sig"
proof -
  let ?h = "proof_header (po_key po)"
  have obj: "\<exists>kvs. ?h = JObj kvs" "\<exists>kvs. p = JObj kvs" using assms(5) by (simp_all add: proof_header_def proof_payload_def)
  obtain hb where hb: "b64uToBytes (b64u_json ?h) = Some hb" "parseJsonObject parse hb = Some ?h"
    using part_roundtrip [where parse = parse] obj(1) assms(3) by metis
  obtain pb where pb: "b64uToBytes (b64u_json p) = Some pb" "parseJsonObject parse pb = Some p"
    using part_roundtrip [where parse = parse] obj(2) assms(4) by metis
  obtain htu where "dpopHtu U (po_url po) = Some htu" using assms(1) by (auto simp: createDpopProof_def Let_def split: option.splits)
  then obtain sig where s: "t = (b64u_json ?h @ js ''.'' @ b64u_json p) @ js ''.'' @ toBase64Url sig"
    "jwk_sign J (dk_alg (po_key po)) (dk_private (po_key po)) (utf8Encode (b64u_json ?h @ js ''.'' @ b64u_json p)) = Some sig"
    using assms(1,5,6) by (auto simp: createDpopProof_def Let_def proof_claims_def)
  have t: "t = b64u_json ?h @ 46 # b64u_json p @ 46 # toBase64Url sig" using s(1) by (simp add: ascii_eval)
  have "split_on 46 t = [b64u_json ?h, b64u_json p, toBase64Url sig]"
    unfolding t by (simp add: split_on_append split_on_id no_dot b64u_json_def)
  moreover have "t \<noteq> []" using t by simp
  ultimately have "split_proof parse [t] = Inr (?h, p, b64u_json ?h @ js ''.'' @ b64u_json p, sig)"
    using assms(2) hb pb by (simp add: split_proof_def b64u_roundtrip)
  then show ?thesis using s(2) by blast
qed

lemma created_header:
  assumes "key_usable J k" "jwk_sign J (dk_alg k) (dk_private k) (utf8Encode input) = Some sig"
    and "\<forall>l. do_allowedAlgs o' = Some l \<longrightarrow> dk_alg k \<in> set l"
  shows "check_header J o' (proof_header k) input sig = Inr (dk_public k)"
proof -
  from assms(1,2) obtain key where k: "dk_alg k = algForJwk (dk_public k)" "jwk_shaped (dk_public k)"
    "jwk_import J (public_jwk_json (dk_public k)) = Some key" "jwk_verify J (dk_alg k) key sig (utf8Encode input) = Some True" "length sig = 64"
    by (auto simp: key_usable_def)
  have m: "jmember (proof_header k) ''typ'' = Some (JStr DPOP_TYP)" "jmember (proof_header k) ''crit'' = None"
    "jmember (proof_header k) ''alg'' = Some (JStr (jws_alg_text (dk_alg k)))" "jmember (proof_header k) ''jwk'' = Some (public_jwk_json (dk_public k))"
    by (simp_all add: proof_header_def ascii_eval)
  have "header_alg (proof_header k) = Some (dk_alg k)" by (cases "dk_alg k") (simp_all add: header_alg_def m(3) ascii_eval del: jmember.simps)
  then show ?thesis
    using m(1,2,4) k assms(3) public_jwk_of_json [OF k(2)]
    by (cases "do_allowedAlgs o'"; cases "dk_alg k") (simp_all add: check_header_def jwsVerify_def del: jmember.simps)
qed

text \<open>The options the created proof is meant for.\<close>

definition proof_wanted :: "crypto \<Rightarrow> url_parser \<Rightarrow> proof_opts \<Rightarrow> dpop_claims \<Rightarrow> dpop_opts \<Rightarrow> bool" where
  "proof_wanted C U po c o' \<longleftrightarrow> do_method o' = po_method po \<and> do_url o' = po_url po
    \<and> do_accessToken o' = po_accessToken po \<and> (po_accessToken po \<noteq> None \<longrightarrow> do_expectedJkt o' = Some (jwkThumbprint C (dk_public (po_key po))))
    \<and> (case do_allowedAlgs o' of None \<Rightarrow> True | Some l \<Rightarrow> dk_alg (po_key po) \<in> set l)
    \<and> (case do_nonce o' of None \<Rightarrow> True | Some (required, validate) \<Rightarrow>
        (case po_nonce po of None \<Rightarrow> \<not> required | Some n \<Rightarrow> validate n = Some True))
    \<and> cl_iat c \<le> do_now o' div 1000 + skew_s o' \<and> do_now o' div 1000 \<le> cl_iat c + max_age_s o' + skew_s o'"

text \<open>The URL parser reads the \<open>htu\<close> it is given back as it is, and the scheme is one a proof may name.\<close>

definition url_stable :: "url_parser \<Rightarrow> jstr \<Rightarrow> bool" where
  "url_stable U url \<longleftrightarrow> (case U url of None \<Rightarrow> False | Some u \<Rightarrow> fst u \<in> {js ''https:'', js ''http:''} \<and> U (url_text u) = Some u)"

lemma created_verdict:
  assumes "createDpopProof C J U po now rnd = Some t" "length t \<le> MAX_PROOF_BYTES" "c = proof_claims C U po now rnd"
    and "parse (print_json (proof_header (po_key po))) = Some (proof_header (po_key po))"
    and "p = proof_payload C po (cl_jti c) (cl_htu c) (cl_iat c)" "parse (print_json p) = Some p"
    and "key_usable J (po_key po)" "claims_usable c" "url_stable U (po_url po)" "proof_wanted C U po c o'"
  shows "dpop_verdict C J U parse [t] o' = Some (Inr \<lparr>dr_jkt = jwkThumbprint C (dk_public (po_key po)), dr_jwk = dk_public (po_key po), dr_claims = c\<rparr>)"
proof -
  obtain input sig where s: "split_proof parse [t] = Inr (proof_header (po_key po), p, input, sig)"
    "jwk_sign J (dk_alg (po_key po)) (dk_private (po_key po)) (utf8Encode input) = Some sig"
    using created_splits [where parse = parse, OF assms(1,2,4,6,5,3)] by blast
  have h: "check_header J o' (proof_header (po_key po)) input sig = Inr (dk_public (po_key po))"
    by (rule created_header [OF assms(7) s(2)]) (use assms(10) in \<open>auto simp: proof_wanted_def split: option.splits\<close>)
  have r: "read_claims p = Some c" using read_claims_payload assms(3,5,8) by simp
  obtain u where u: "U (po_url po) = Some u" "fst u \<in> {js ''https:'', js ''http:''}" "U (url_text u) = Some u"
    using assms(9) by (auto simp: url_stable_def split: option.splits)
  have "cl_htu c = url_text u" "cl_htm c = toUpperCase (po_method po)" "cl_nonce c = po_nonce po"
    "cl_ath c = map_option (accessTokenHash C) (po_accessToken po)"
    by (simp_all add: assms(3) proof_claims_def dpopHtu_def u(1))
  note c = this
  have "claim_checks U o' c = None"
    using assms(10) u c by (auto simp: claim_checks_def normalizeHtu_def proof_wanted_def)
  moreover have "nonce_check o' c = Some None"
    using assms(10) c(3) by (auto simp: nonce_check_def proof_wanted_def split: option.splits)
  moreover have "binding_check C o' c (jwkThumbprint C (dk_public (po_key po))) = Some None"
    using assms(10) c(4) by (auto simp: binding_check_def proof_wanted_def split: option.splits)
  ultimately show ?thesis using s(1) h r by (simp add: dpop_verdict_def)
qed

section \<open>Properties\<close>

definition demo_dpop_key :: dpop_key where
  "demo_dpop_key = \<lparr>dk_alg = EdDSA, dk_public = OkpJwk (replicate 43 65), dk_private = JNull\<rparr>"

definition demo_jose :: jose where
  "demo_jose = \<lparr>jwk_import = (\<lambda>v. Some []), jwk_verify = (\<lambda>a k s m. Some True), jwk_sign = (\<lambda>a k m. Some (replicate 64 0))\<rparr>"

definition demo_url :: url_parser where
  "demo_url s = (if s = js ''https://h/p?q'' \<or> s = js ''https://h/p'' then Some (js ''https:'', js ''h'', js ''/p'') else None)"

definition demo_proof :: proof_opts where
  "demo_proof = \<lparr>po_key = demo_dpop_key, po_method = js ''get'', po_url = js ''https://h/p?q'', po_accessToken = Some (js ''tok''),
    po_nonce = None, po_iat = None, po_jti = Some (js ''j'')\<rparr>"

definition demo_claims :: dpop_claims where
  "demo_claims = \<lparr>cl_jti = js ''j'', cl_htm = js ''GET'', cl_htu = js ''https://h/p'', cl_iat = 100, cl_nonce = None,
    cl_ath = Some (accessTokenHash demo_crypto (js ''tok''))\<rparr>"

definition demo_payload :: json where
  "demo_payload = proof_payload demo_crypto demo_proof (js ''j'') (js ''https://h/p'') 100"

definition demo_parse :: "jstr \<Rightarrow> json option" where
  "demo_parse t = (if t = print_json demo_payload then Some demo_payload else Some (proof_header demo_dpop_key))"

definition demo_dpop_opts :: "int \<Rightarrow> dpop_opts" where
  "demo_dpop_opts now = \<lparr>do_method = js ''get'', do_url = js ''https://h/p?q'', do_accessToken = Some (js ''tok''),
    do_expectedJkt = Some (jwkThumbprint demo_crypto (OkpJwk (replicate 43 65))), do_nonce = None, do_allowedAlgs = None,
    do_maxAgeMs = None, do_clockSkewMs = None, do_now = now\<rparr>"

definition demo_jwt :: jstr where
  "demo_jwt = the (createDpopProof demo_crypto demo_jose demo_url demo_proof 100000 [])"

lemma demo_jwt:
  "createDpopProof demo_crypto demo_jose demo_url demo_proof 100000 [] = Some demo_jwt"
  "demo_jwt = b64u_json (proof_header demo_dpop_key) @ js ''.'' @ b64u_json demo_payload @ js ''.'' @ toBase64Url (replicate 64 0)"
  by (simp_all add: demo_jwt_def createDpopProof_def demo_proof_def demo_url_def dpopHtu_def url_text_def demo_jose_def demo_payload_def Let_def ascii_eval)

lemma demo_jwt_length: "length demo_jwt \<le> MAX_PROOF_BYTES"
proof -
  note q = length_quote [of "js ''typ''"] length_quote [of "js ''dpop+jwt''"] length_quote [of "js ''alg''"] length_quote [of "js ''EdDSA''"] length_quote [of "js ''jwk''"] length_quote [of "js ''kty''"] length_quote [of "js ''OKP''"] length_quote [of "js ''crv''"] length_quote [of "js ''Ed25519''"] length_quote [of "js ''x''"] length_quote [of "replicate 43 65"]
    length_quote [of "js ''jti''"] length_quote [of "js ''j''"] length_quote [of "js ''htm''"] length_quote [of "js ''GET''"] length_quote [of "js ''htu''"] length_quote [of "js ''https://h/p''"] length_quote [of "js ''iat''"] length_quote [of "js ''ath''"] length_quote [of "toBase64Url (utf8Encode (js ''tok''))"]
  have "length (print_json (proof_header demo_dpop_key)) \<le> 700"
    using q by (simp add: proof_header_def demo_dpop_key_def DPOP_TYP_def ascii_eval)
  note h = this
  have "length (toBase64Url (utf8Encode (js ''tok''))) \<le> 17"
    using length_utf8 [of "js ''tok''"] toBase64Url_shape [of "utf8Encode (js ''tok'')"] by simp
  moreover have "toUpperCase (js ''get'') = js ''GET''" "length (show_int 100) = 3"
    by (simp_all add: toUpperCase_def upper_unit_def ascii_eval show_int_def show_nat.simps)
  ultimately have "length (print_json demo_payload) \<le> 500"
    using q by (simp add: demo_payload_def proof_payload_def demo_proof_def opt_field_def accessTokenHash_def demo_crypto_def)
  then show ?thesis
    using h length_b64u_json [of "proof_header demo_dpop_key"] length_b64u_json [of demo_payload] toBase64Url_shape [of "replicate 64 0"]
    unfolding demo_jwt(2) by (simp add: MAX_PROOF_BYTES_def)
qed

lemma accepted_verdict:
  "snd (verifyDpopProof C J U parse check st clock proofs o') = Some (Inr r) \<Longrightarrow> dpop_verdict C J U parse proofs o' = Some (Inr r)"
  by (auto simp: verifyDpopProof_def split: option.splits sum.splits prod.splits bool.splits)

lemma verify_ok: "dpop_verdict C J U parse proofs o' = Some (Inr r) \<Longrightarrow>
  check = None \<or> (\<exists>chk. check = Some chk \<and> snd (chk st (jti_key (dr_jkt r) (cl_jti (dr_claims r))) (Fin (jti_ttl o')) clock) = Some False) \<Longrightarrow>
  snd (verifyDpopProof C J U parse check st clock proofs o') = Some (Inr r)"
  by (auto simp: verifyDpopProof_def split: prod.splits)

text \<open>C20 An accepted DPoP proof was the only one sent, its signature verifies under the public key it carries, that key's thumbprint is the one returned, and its claims name the received method and URL and lie in the time window; when an access token came along, they hash that token and the key is the one the token is bound to.\<close>

theorem dpop_accepts_sound:
  assumes "snd (verifyDpopProof C J U parse check st clock proofs o') = Some (Inr r)"
  shows "\<exists>a b c hb pb sig h p v. proofs = [a @ 46 # b @ 46 # c] \<and> b64uToBytes a = Some hb \<and> parseJsonObject parse hb = Some h
    \<and> b64uToBytes b = Some pb \<and> parseJsonObject parse pb = Some p \<and> b64uToBytes c = Some sig
    \<and> jmember h ''jwk'' = Some v \<and> public_jwk_of v = Some (dr_jwk r) \<and> jwsVerify J v (dr_jwk r) (utf8Encode (a @ 46 # b)) sig = JwsValid
    \<and> dr_jkt r = jwkThumbprint C (dr_jwk r) \<and> read_claims p = Some (dr_claims r)
    \<and> cl_htm (dr_claims r) = toUpperCase (do_method o') \<and> normalizeHtu U (cl_htu (dr_claims r)) = normalizeHtu U (do_url o') \<and> normalizeHtu U (do_url o') \<noteq> None
    \<and> cl_iat (dr_claims r) \<le> do_now o' div 1000 + skew_s o' \<and> do_now o' div 1000 \<le> cl_iat (dr_claims r) + max_age_s o' + skew_s o'
    \<and> (\<forall>t. do_accessToken o' = Some t \<longrightarrow> cl_ath (dr_claims r) = Some (accessTokenHash C t) \<and> do_expectedJkt o' = Some (dr_jkt r))"
proof -
  obtain h p input sig v where v: "split_proof parse proofs = Inr (h, p, input, sig)" "check_header J o' h input sig = Inr (dr_jwk r)"
    "read_claims p = Some (dr_claims r)" "claim_checks U o' (dr_claims r) = None"
    "binding_check C o' (dr_claims r) (dr_jkt r) = Some None" "dr_jkt r = jwkThumbprint C (dr_jwk r)"
    using verdict_ok [OF accepted_verdict [OF assms]] by metis
  obtain a b c hb pb where s: "proofs = [a @ 46 # b @ 46 # c]" "input = a @ 46 # b" "b64uToBytes a = Some hb" "b64uToBytes b = Some pb"
    "b64uToBytes c = Some sig" "parseJsonObject parse hb = Some h" "parseJsonObject parse pb = Some p"
    using split_proof_ok [where parse = parse, OF v(1)] by metis
  obtain w where w: "jmember h ''jwk'' = Some w" "public_jwk_of w = Some (dr_jwk r)" "jwsVerify J w (dr_jwk r) (utf8Encode input) sig = JwsValid"
    using check_header_ok [OF v(2)] by metis
  have b: "\<forall>t. do_accessToken o' = Some t \<longrightarrow> cl_ath (dr_claims r) = Some (accessTokenHash C t) \<and> do_expectedJkt o' = Some (dr_jkt r)"
    using v(5) by (auto simp: binding_check_def split: option.splits if_splits)
  have m: "cl_htm (dr_claims r) = toUpperCase (do_method o')" "normalizeHtu U (cl_htu (dr_claims r)) = normalizeHtu U (do_url o')" "normalizeHtu U (do_url o') \<noteq> None"
    using v(4) by (auto simp: claim_checks_def split: if_splits)
  show ?thesis
    by (intro exI [of _ a] exI [of _ b] exI [of _ c] exI [of _ hb] exI [of _ pb] exI [of _ sig] exI [of _ h] exI [of _ p] exI [of _ w] conjI)
      (rule s w(1,2) w(3) [unfolded s(2)] v(3,6) m b claim_window [OF v(4), THEN conjunct1] claim_window [OF v(4), THEN conjunct2])+
qed

text \<open>A proof created for a request is accepted for it: whoever signs with a key the platform can use, and sends the proof within its time window for the same method, URL, token and nonce, gets exactly the claims and the key thumbprint back, provided the single-use store has not seen the identifier.\<close>

theorem dpop_round_trip:
  assumes "createDpopProof C J U po now rnd = Some t" "length t \<le> MAX_PROOF_BYTES" "c = proof_claims C U po now rnd"
    and "parse (print_json (proof_header (po_key po))) = Some (proof_header (po_key po))"
    and "p = proof_payload C po (cl_jti c) (cl_htu c) (cl_iat c)" "parse (print_json p) = Some p"
    and "key_usable J (po_key po)" "claims_usable c" "url_stable U (po_url po)" "proof_wanted C U po c o'"
    and "k = dk_public (po_key po)" "snd (chk st (jti_key (jwkThumbprint C k) (cl_jti c)) (Fin (jti_ttl o')) clock) = Some False"
  shows "snd (verifyDpopProof C J U parse (Some chk) st clock [t] o') = Some (Inr \<lparr>dr_jkt = jwkThumbprint C k, dr_jwk = k, dr_claims = c\<rparr>)"
  using verify_ok [OF created_verdict [where parse = parse, OF assms(1-10)], of "Some chk"] assms(11,12) by simp

text \<open>A proof is single use: once one is accepted, no proof with the same key and identifier is accepted while the reservation lasts, whatever other proofs and replay checks happen in between on the same store.\<close>

theorem dpop_single_use:
  assumes "mem_inv st" "snd (verifyDpopProof C J U parse (Some mem_check) st clock proofs o1) = Some (Inr r1)"
    and "\<forall>(k, ttl, now) \<in> set evs. now \<le> clock2" "clock2 < clock + jti_ttl o1"
    and "dr_jkt r2 = dr_jkt r1" "cl_jti (dr_claims r2) = cl_jti (dr_claims r1)"
  shows "snd (verifyDpopProof C J U parse (Some mem_check)
      (memory_replay.mark_run (fst (verifyDpopProof C J U parse (Some mem_check) st clock proofs o1)) evs) clock2 proofs2 o2)
    \<noteq> Some (Inr r2)"
  by (rule memory_checker.proof_single_use [OF assms])

text \<open>
  The reservation is one moment too short: a proof whose \<open>iat\<close> lies the whole clock skew
  ahead is still in its window when the reservation ends, and is accepted a second time.
\<close>

lemma dpop_reservation_gap:
  assumes "dpop_verdict C J U parse proofs (o'\<lparr>do_now := t1\<rparr>) = Some (Inr r)" "cl_iat (dr_claims r) = t1 div 1000 + skew_s o'"
    and "0 < jti_ttl o'" "0 \<le> max_age_s o' + 2 * skew_s o'" "t2 = t1 + jti_ttl o'" "mem_entries st = []" "0 < mem_max st"
  shows "\<exists>st1. verifyDpopProof C J U parse (Some mem_check) st t1 proofs (o'\<lparr>do_now := t1\<rparr>) = (st1, Some (Inr r))
    \<and> snd (verifyDpopProof C J U parse (Some mem_check) st1 t2 proofs (o'\<lparr>do_now := t2\<rparr>)) = Some (Inr r)"
proof -
  have s: "skew_s (o'\<lparr>do_now := t\<rparr>) = skew_s o'" "max_age_s (o'\<lparr>do_now := t\<rparr>) = max_age_s o'" "jti_ttl (o'\<lparr>do_now := t\<rparr>) = jti_ttl o'" for t
    by (simp_all add: skew_s_def max_age_s_def jti_ttl_def)
  have "t2 div 1000 = t1 div 1000 + max_age_s o' + 2 * skew_s o'" using assms(5) by (simp add: jti_ttl_def)
  then have cc: "claim_checks U (o'\<lparr>do_now := t1\<rparr>) (dr_claims r) = None \<Longrightarrow> claim_checks U (o'\<lparr>do_now := t2\<rparr>) (dr_claims r) = None"
    using assms(2,4) by (simp add: claim_checks_def s split: if_splits)
  obtain h p input sig where v: "split_proof parse proofs = Inr (h, p, input, sig)" "check_header J (o'\<lparr>do_now := t1\<rparr>) h input sig = Inr (dr_jwk r)"
    "read_claims p = Some (dr_claims r)" "claim_checks U (o'\<lparr>do_now := t1\<rparr>) (dr_claims r) = None" "nonce_check (o'\<lparr>do_now := t1\<rparr>) (dr_claims r) = Some None"
    "binding_check C (o'\<lparr>do_now := t1\<rparr>) (dr_claims r) (dr_jkt r) = Some None" "dr_jkt r = jwkThumbprint C (dr_jwk r)"
    using verdict_ok [OF assms(1)] by metis
  have f: "do_allowedAlgs (o'\<lparr>do_now := t\<rparr>) = do_allowedAlgs o'" "do_nonce (o'\<lparr>do_now := t\<rparr>) = do_nonce o'"
    "do_accessToken (o'\<lparr>do_now := t\<rparr>) = do_accessToken o'" "do_expectedJkt (o'\<lparr>do_now := t\<rparr>) = do_expectedJkt o'" for t
    by simp_all
  have same: "check_header J (o'\<lparr>do_now := t\<rparr>) = check_header J o'" "nonce_check (o'\<lparr>do_now := t\<rparr>) = nonce_check o'"
    "binding_check C (o'\<lparr>do_now := t\<rparr>) = binding_check C o'" for t
    unfolding check_header_def nonce_check_def binding_check_def f by (rule refl)+
  have v2: "dpop_verdict C J U parse proofs (o'\<lparr>do_now := t2\<rparr>) = Some (Inr r)"
    using v cc by (simp add: dpop_verdict_def same)
  define k where "k = jti_key (dr_jkt r) (cl_jti (dr_claims r))"
  define st1 where "st1 = st\<lparr>mem_entries := [(k, t2)]\<rparr>"
  have one: "mem_check st k (Fin (jti_ttl o')) t1 = (st1, Some False)"
    using assms(3,5,6,7) by (simp add: mem_check_def msize_def st1_def)
  have two: "snd (mem_check st1 k (Fin (jti_ttl o')) t2) = Some False"
    using assms(3,7) by (simp add: mem_check_def Let_def mem_prune_def st1_def msize_def)
  have "verifyDpopProof C J U parse (Some mem_check) st t1 proofs (o'\<lparr>do_now := t1\<rparr>) = (st1, Some (Inr r))"
    using one by (simp add: verifyDpopProof_def assms(1) s k_def)
  moreover have "snd (verifyDpopProof C J U parse (Some mem_check) st1 t2 proofs (o'\<lparr>do_now := t2\<rparr>)) = Some (Inr r)"
    by (rule verify_ok [OF v2]) (use two in \<open>simp add: s k_def\<close>)
  ultimately show ?thesis by blast
qed

text \<open>A server nonce is good for its lifetime and only what the server issued is good: the nonce issued at a moment validates at every moment from then on until its lifetime ends, and a nonce that validates is, up to leading zeros of its second, the text and the MAC the server makes for a second within the lifetime and 30 s of clock skew.\<close>

theorem server_nonces:
  assumes "\<forall>m. length (hmac_raw C key m) = 32" "0 \<le> t0" "t0 < 10 ^ 15" "t0 \<le> now" "now < t0 + 300000 - 1000"
  shows "validate_nonce C key None now (issue_nonce C key t0)
    \<and> (\<forall>n life. validate_nonce C key (Some life) now n \<longrightarrow>
        (\<exists>issued. n = issued @ js ''.'' @ nonce_mac C key issued \<and> (\<forall>c \<in> set issued. digit_char c)
          \<and> int (read_nat issued 0) * 1000 \<le> now + 30000 \<and> now \<le> int (read_nat issued 0) * 1000 + life))"
proof (intro conjI allI impI)
  let ?d = "show_nat (nat (t0 div 1000))"
  have i: "show_int (t0 div 1000) = ?d" using assms(2) by (simp add: show_int_def)
  have "takeWhile digit_char (?d @ 46 # r) = ?d" for r
    using show_nat_digits by (subst takeWhile_append2) (simp_all add: digit_char_def)
  moreover have "length ?d \<le> 12" using assms(2,3) by (intro length_show_nat) auto
  moreover have "length (nonce_mac C key ?d) = 43" "\<forall>c \<in> set (nonce_mac C key ?d). url_char c"
    using toBase64Url_shape assms(1) by (simp_all add: nonce_mac_def)
  moreover have "t0 div 1000 * 1000 \<le> t0" "t0 < t0 div 1000 * 1000 + 1000" by linarith+
  ultimately show "validate_nonce C key None now (issue_nonce C key t0)"
    using assms(2,4,5) show_nat_nonempty [of "nat (t0 div 1000)"]
    by (simp add: validate_nonce_def issue_nonce_def i Let_def diff_of_eq read_show_nat ascii_eval)
next
  fix n life
  assume a: "validate_nonce C key (Some life) now n"
  let ?d = "takeWhile digit_char n"
  have "n = ?d @ dropWhile digit_char n" by simp
  from a have "take 1 (drop (length ?d) n) = js ''.''" "drop 1 (drop (length ?d) n) = nonce_mac C key ?d"
    "int (read_nat ?d 0) * 1000 \<le> now + 30000" "now \<le> int (read_nat ?d 0) * 1000 + life"
    by (auto simp: validate_nonce_def Let_def diff_of_eq split: if_splits)
  note v = this
  have "n = ?d @ take 1 (drop (length ?d) n) @ drop 1 (drop (length ?d) n)"
    by (simp only: append_take_drop_id) (metis append_take_drop_id takeWhile_eq_take)
  then have "n = ?d @ js ''.'' @ nonce_mac C key ?d" by (simp only: v(1,2))
  then show "\<exists>issued. n = issued @ js ''.'' @ nonce_mac C key issued \<and> (\<forall>c \<in> set issued. digit_char c)
      \<and> int (read_nat issued 0) * 1000 \<le> now + 30000 \<and> now \<le> int (read_nat issued 0) * 1000 + life"
    using v(3,4) set_takeWhileD by (intro exI [of _ ?d]) fastforce
qed

section \<open>The properties at work\<close>

definition demo_result :: dpop_result where
  "demo_result = \<lparr>dr_jkt = jwkThumbprint demo_crypto (OkpJwk (replicate 43 65)), dr_jwk = OkpJwk (replicate 43 65), dr_claims = demo_claims\<rparr>"

lemma demo_claims_eq: "demo_claims = proof_claims demo_crypto demo_url demo_proof 100000 []"
  by (simp add: demo_claims_def proof_claims_def demo_proof_def demo_url_def dpopHtu_def url_text_def toUpperCase_def upper_unit_def ascii_eval)

lemma demo_header_parses: "demo_parse (print_json (proof_header (po_key demo_proof))) = Some (proof_header (po_key demo_proof))"
proof -
  have "json_finite (proof_header demo_dpop_key)" "json_finite demo_payload"
    by (simp_all add: proof_header_def demo_dpop_key_def demo_payload_def proof_payload_def demo_proof_def opt_field_def)
  moreover have "proof_header demo_dpop_key \<noteq> demo_payload"
    by (simp add: proof_header_def demo_payload_def proof_payload_def ascii_eval)
  ultimately have "print_json (proof_header demo_dpop_key) \<noteq> print_json demo_payload" using print_json_inj by blast
  then show ?thesis by (simp add: demo_parse_def demo_proof_def)
qed

lemma demo_payload_parses:
  "demo_payload = proof_payload demo_crypto demo_proof (cl_jti demo_claims) (cl_htu demo_claims) (cl_iat demo_claims)"
  "demo_parse (print_json demo_payload) = Some demo_payload"
  by (simp_all add: demo_payload_def demo_claims_def demo_parse_def)

lemma demo_hash_nonempty: "accessTokenHash demo_crypto (js ''tok'') \<noteq> []"
proof
  assume "accessTokenHash demo_crypto (js ''tok'') = []"
  then have "b64uToBytes [] = Some (sha256_raw demo_crypto (utf8Encode (js ''tok'')))"
    using b64u_roundtrip [of "sha256_raw demo_crypto (utf8Encode (js ''tok''))"] by (simp add: accessTokenHash_def)
  moreover have "utf8Encode (js ''tok'') \<noteq> []" by (simp add: utf8Encode_def ascii_eval is_high_def is_low_def utf8_cp_def)
  ultimately show False by (simp add: b64uToBytes_def base64_decode_def demo_crypto_def replace_char_def List.map_filter_def)
qed

lemma demo_usable: "key_usable demo_jose (po_key demo_proof)" "claims_usable demo_claims" "url_stable demo_url (po_url demo_proof)"
  "proof_wanted demo_crypto demo_url demo_proof demo_claims (demo_dpop_opts 100000)"
proof -
  show "key_usable demo_jose (po_key demo_proof)"
    by (simp add: key_usable_def demo_proof_def demo_dpop_key_def demo_jose_def url_char_def)
  show "claims_usable demo_claims"
    using demo_hash_nonempty by (simp add: claims_usable_def demo_claims_def isSafeInteger_def max_safe_def ascii_eval)
  show "url_stable demo_url (po_url demo_proof)"
    by (simp add: url_stable_def demo_url_def demo_proof_def url_text_def ascii_eval)
  show "proof_wanted demo_crypto demo_url demo_proof demo_claims (demo_dpop_opts 100000)"
    by (simp add: proof_wanted_def demo_dpop_opts_def demo_proof_def demo_claims_def demo_dpop_key_def skew_s_def max_age_s_def ceil_s_def)
qed

text \<open>A store with room for one entry.\<close>

definition demo_store :: memory_store where
  "demo_store = \<lparr>mem_entries = [], mem_max = 1\<rparr>"

lemma demo_store_fresh: "mem_inv demo_store" "0 < t \<Longrightarrow> snd (mem_check demo_store k (Fin t) clock) = Some False"
  by (simp_all add: demo_store_def mem_inv_def wf_map_def msize_def mem_check_def)

lemma demo_ttl: "jti_ttl (demo_dpop_opts n) = 120000"
  by (simp add: jti_ttl_def demo_dpop_opts_def skew_s_def max_age_s_def ceil_s_def)

lemma demo_verdict: "dpop_verdict demo_crypto demo_jose demo_url demo_parse [demo_jwt] (demo_dpop_opts 100000) = Some (Inr demo_result)"
  using created_verdict [where parse = demo_parse, OF demo_jwt(1) demo_jwt_length demo_claims_eq demo_header_parses demo_payload_parses demo_usable]
  by (simp add: demo_result_def demo_proof_def demo_dpop_key_def)

lemma demo_proof_accepted: "snd (verifyDpopProof demo_crypto demo_jose demo_url demo_parse (Some mem_check) demo_store 100000 [demo_jwt] (demo_dpop_opts 100000))
  = Some (Inr demo_result)"
  using verify_ok [OF demo_verdict, of "Some mem_check"] demo_store_fresh(2) demo_ttl by simp

theorem dpop_accepts_sound_witness:
  "normalizeHtu demo_url (cl_htu demo_claims) = normalizeHtu demo_url (js ''https://h/p?q'')
    \<and> cl_ath demo_claims = Some (accessTokenHash demo_crypto (js ''tok'')) \<and> (\<exists>v. public_jwk_of v = Some (OkpJwk (replicate 43 65)))"
  using dpop_accepts_sound [OF demo_proof_accepted] by (auto simp: demo_dpop_opts_def demo_result_def)

theorem dpop_round_trip_witness:
  "snd (verifyDpopProof demo_crypto demo_jose demo_url demo_parse (Some mem_check) demo_store 5 [demo_jwt] (demo_dpop_opts 100000)) = Some (Inr demo_result)"
  using dpop_round_trip [where parse = demo_parse, OF demo_jwt(1) demo_jwt_length demo_claims_eq demo_header_parses demo_payload_parses demo_usable refl,
      of mem_check demo_store 5] demo_store_fresh(2) demo_ttl
  by (simp add: demo_result_def demo_proof_def demo_dpop_key_def)

theorem dpop_single_use_witness:
  "snd (verifyDpopProof demo_crypto demo_jose demo_url demo_parse (Some mem_check)
      (fst (verifyDpopProof demo_crypto demo_jose demo_url demo_parse (Some mem_check) demo_store 100000 [demo_jwt] (demo_dpop_opts 100000)))
      200000 [demo_jwt] (demo_dpop_opts 100000)) \<noteq> Some (Inr demo_result)"
  using dpop_single_use [OF demo_store_fresh(1) demo_proof_accepted, of "[]" 200000 demo_result] demo_ttl by simp

theorem server_nonces_witness:
  "validate_nonce (demo_crypto\<lparr>hmac_raw := \<lambda>k m. replicate 32 0\<rparr>) [] None 1234 (issue_nonce (demo_crypto\<lparr>hmac_raw := \<lambda>k m. replicate 32 0\<rparr>) [] 1000)"
  using server_nonces [of "demo_crypto\<lparr>hmac_raw := \<lambda>k m. replicate 32 0\<rparr>" "[]" 1000 1234] by simp

end
