(* ===== verification/Provenance.thy ===== *)
theory Provenance
  imports Approval
begin

text \<open>
  \<open>src/provenance.ts\<close>: the taint label of an action's inputs, the accumulator that computes
  it, and signing, parsing and verifying claims. Verification fails closed: the effective
  trust of anything that did not verify is untrusted.
\<close>

section \<open>Labels\<close>

datatype trust = Trusted | Untrusted

datatype source_kind = KUser | KSystem | KAgent | KTool | KEmail | KWeb | KFile | KOther

fun kind_text :: "source_kind \<Rightarrow> jstr" where
  "kind_text KUser = js ''user''"
| "kind_text KSystem = js ''system''"
| "kind_text KAgent = js ''agent''"
| "kind_text KTool = js ''tool''"
| "kind_text KEmail = js ''email''"
| "kind_text KWeb = js ''web''"
| "kind_text KFile = js ''file''"
| "kind_text KOther = js ''other''"

fun trust_text :: "trust \<Rightarrow> jstr" where
  "trust_text Trusted = js ''trusted''"
| "trust_text Untrusted = js ''untrusted''"

definition source_kinds :: "source_kind list" where
  "source_kinds = [KUser, KSystem, KAgent, KTool, KEmail, KWeb, KFile, KOther]"

definition parse_kind :: "jstr \<Rightarrow> source_kind option" where
  "parse_kind s = List.find (\<lambda>k. kind_text k = s) source_kinds"

definition parse_trust :: "jstr \<Rightarrow> trust option" where
  "parse_trust s = (if s = js ''trusted'' then Some Trusted else if s = js ''untrusted'' then Some Untrusted else None)"

record source =
  skind :: source_kind
  sid :: "jstr option"
  strust :: trust

definition MAX_PROVENANCE_SOURCES :: nat where
  "MAX_PROVENANCE_SOURCES = 64"

definition deriveTrust :: "source list \<Rightarrow> trust" where
  "deriveTrust ss = (if ss = [] then Untrusted else if \<forall>s \<in> set ss. strust s = Trusted then Trusted else Untrusted)"

text \<open>
  \<open>ProvenanceContext.add\<close>; the run-time checks on kind and trust hold by typing.
\<close>

definition ctx_add :: "source list \<Rightarrow> source \<Rightarrow> source list" where
  "ctx_add items s =
    (if MAX_PROVENANCE_SOURCES \<le> length items then
       (if strust s = Untrusted \<and> strust (last items) = Trusted
        then items[length items - 1 := \<lparr>skind = KOther, sid = Some (js ''overflow''), strust = Untrusted\<rparr>]
        else items)
     else items @ [s])"

definition ctx_sources :: "source list \<Rightarrow> source list" where
  "ctx_sources items = items"

definition ctx_trust :: "source list \<Rightarrow> trust" where
  "ctx_trust items = deriveTrust items"

definition ctx_of :: "source list \<Rightarrow> source list" where
  "ctx_of ss = foldl ctx_add [] ss"

text \<open>Overflow never makes the label cleaner: it is the one of all sources ever added.\<close>

lemma ctx_add_bound: "length items \<le> MAX_PROVENANCE_SOURCES \<Longrightarrow> length (ctx_add items s) \<le> MAX_PROVENANCE_SOURCES"
  by (auto simp: ctx_add_def)

lemma ctx_add_trust:
  "(\<forall>x \<in> set (ctx_add items s). strust x = Trusted) \<longleftrightarrow> (\<forall>x \<in> set items. strust x = Trusted) \<and> strust s = Trusted"
proof (cases "MAX_PROVENANCE_SOURCES \<le> length items")
  case True
  then obtain xs x where i: "items = xs @ [x]"
    by (cases items rule: rev_cases) (auto simp: MAX_PROVENANCE_SOURCES_def)
  show ?thesis
    using True by (cases "strust s"; cases "strust x") (auto simp: ctx_add_def i)
qed (auto simp: ctx_add_def)

lemma ctx_foldl:
  "length items \<le> MAX_PROVENANCE_SOURCES \<Longrightarrow>
   length (foldl ctx_add items ss) \<le> MAX_PROVENANCE_SOURCES \<and>
   ((\<forall>x \<in> set (foldl ctx_add items ss). strust x = Trusted) \<longleftrightarrow> (\<forall>x \<in> set items \<union> set ss. strust x = Trusted))"
proof (induction ss arbitrary: items)
  case (Cons s ss)
  from Cons.IH [OF ctx_add_bound [OF Cons.prems, of s]] ctx_add_trust [of items s] show ?case by auto
qed simp

lemma ctx_add_nonempty: "ctx_add items s \<noteq> []"
  by (auto simp: ctx_add_def MAX_PROVENANCE_SOURCES_def)

lemma foldl_nonempty: "items \<noteq> [] \<Longrightarrow> foldl ctx_add items ss \<noteq> []"
  by (induction ss arbitrary: items) (auto simp: ctx_add_nonempty)

lemma ctx_trust_of: "ctx_trust (ctx_of ss) = deriveTrust ss"
proof (cases ss)
  case (Cons s ss')
  have "ctx_of ss \<noteq> []" using foldl_nonempty [OF ctx_add_nonempty [of "[]" s]] by (simp add: ctx_of_def Cons)
  with ctx_foldl [of "[]" ss] Cons show ?thesis by (simp add: ctx_trust_def ctx_of_def deriveTrust_def)
qed (simp add: ctx_of_def ctx_trust_def deriveTrust_def)

section \<open>Claims\<close>

record claim =
  c_version :: jstr
  c_sender :: jstr
  c_action :: bound_action
  c_sources :: "source list"
  c_trust :: trust
  c_issuedAt :: int
  c_expiresAt :: int
  c_keyId :: jstr
  c_signature :: jstr

definition provenance_version :: jstr where
  "provenance_version = js ''7h3-prov/1''"

definition MAX_PROVENANCE_TTL_MS :: int where
  "MAX_PROVENANCE_TTL_MS = 300000"

definition DEFAULT_PROVENANCE_TTL_MS :: int where
  "DEFAULT_PROVENANCE_TTL_MS = 60000"

definition source_json :: "source \<Rightarrow> json" where
  "source_json s = JObj ([(js ''kind'', JStr (kind_text (skind s)))] @ opt_field ''id'' JStr (sid s)
     @ [(js ''trust'', JStr (trust_text (strust s)))])"

definition claim_members :: "claim \<Rightarrow> (jstr \<times> json) list" where
  "claim_members c =
    [(js ''version'', JStr (c_version c)), (js ''sender'', JStr (c_sender c)), (js ''action'', action_json (c_action c)),
     (js ''sources'', JArr (map source_json (c_sources c))), (js ''trust'', JStr (trust_text (c_trust c))),
     (js ''issuedAt'', JNum (Fin (c_issuedAt c))), (js ''expiresAt'', JNum (Fin (c_expiresAt c))),
     (js ''keyId'', JStr (c_keyId c))]"

definition canonicalizeClaim :: "claim \<Rightarrow> jstr option" where
  "canonicalizeClaim c = stableStringify (JObj (claim_members c))"

record sign_opts =
  so_privateKey :: jstr
  so_sender :: jstr
  so_action :: bound_action
  so_sources :: "source list"
  so_ttlMs :: "jnum option"
  so_keyId :: "jstr option"

definition signProvenance :: "crypto \<Rightarrow> sign_opts \<Rightarrow> int \<Rightarrow> claim option" where
  "signProvenance C o' now =
    (case (case so_ttlMs o' of None \<Rightarrow> Fin DEFAULT_PROVENANCE_TTL_MS | Some n \<Rightarrow> n) of
       Fin ttl \<Rightarrow>
         if ttl \<le> 0 \<or> MAX_PROVENANCE_TTL_MS < ttl then None
         else if so_sender o' = [] then None
         else if \<not> action_fields_ok (act_method (so_action o')) (act_path (so_action o')) (act_bodySha256 (so_action o')) then None
         else if MAX_PROVENANCE_SOURCES < length (so_sources o') then None
         else let c = \<lparr>c_version = provenance_version, c_sender = so_sender o',
                 c_action = (so_action o')\<lparr>act_method := toUpperCase (act_method (so_action o'))\<rparr>,
                 c_sources = so_sources o', c_trust = deriveTrust (so_sources o'), c_issuedAt = now, c_expiresAt = now + ttl,
                 c_keyId = (case so_keyId o' of None \<Rightarrow> so_sender o' @ js ''-key'' | Some k \<Rightarrow> k), c_signature = []\<rparr>
           in map_option (\<lambda>s. c\<lparr>c_signature := s\<rparr>) (sign_canonical C (canonicalizeClaim c) (so_privateKey o'))
     | _ \<Rightarrow> None)"

definition parse_source :: "json \<Rightarrow> source option" where
  "parse_source v =
    (case (jmember v ''kind'', jmember v ''trust'', optional_string (jmember v ''id'')) of
       (Some (JStr k), Some (JStr t), Some i) \<Rightarrow>
         (case (parse_kind k, parse_trust t) of
            (Some k, Some t) \<Rightarrow> Some \<lparr>skind = k, sid = i, strust = t\<rparr>
          | _ \<Rightarrow> None)
     | _ \<Rightarrow> None)"

definition parseProvenance :: "(jstr \<Rightarrow> json option) \<Rightarrow> jstr option \<Rightarrow> claim option" where
  "parseProvenance parse raw =
    (case raw of None \<Rightarrow> None
     | Some r \<Rightarrow>
       if r = [] \<or> 16 * 1024 < length r then None
       else (case parse r of
         Some (JObj kvs) \<Rightarrow>
           let v = JObj kvs in
           (case (non_empty_string (jmember v ''version''), non_empty_string (jmember v ''sender''),
                  (case jmember v ''action'' of None \<Rightarrow> None | Some a \<Rightarrow> isBoundAction a),
                  jmember v ''sources'', jmember v ''trust'',
                  positive_time (jmember v ''issuedAt''), positive_time (jmember v ''expiresAt''),
                  non_empty_string (jmember v ''keyId''), non_empty_string (jmember v ''signature'')) of
              (Some ver, Some sd, Some act, Some (JArr ss), Some (JStr t), Some iat, Some eat, Some kid, Some sg) \<Rightarrow>
                if MAX_PROVENANCE_SOURCES < length ss then None
                else (case (parse_trust t, all_some (map parse_source ss)) of
                   (Some t, Some ss) \<Rightarrow>
                     Some \<lparr>c_version = ver, c_sender = sd, c_action = act, c_sources = ss, c_trust = t,
                           c_issuedAt = iat, c_expiresAt = eat, c_keyId = kid, c_signature = sg\<rparr>
                 | _ \<Rightarrow> None)
            | _ \<Rightarrow> None)
       | _ \<Rightarrow> None))"

datatype provenance_failure =
  ProvMalformed | ProvVersion | SenderMismatch | TrustInconsistent | ProvTtlTooLong | ProvNotYetValid | ProvExpired
  | ProvActionMismatch | NoSenderKey | ProvInvalidSignature

record prov_opts =
  po_keys :: "jstr \<Rightarrow> jstr option"
  po_sender :: jstr
  po_action :: bound_action
  po_now :: int
  po_skew :: int

definition verifyProvenance :: "crypto \<Rightarrow> claim option \<Rightarrow> prov_opts \<Rightarrow> (provenance_failure + claim) option" where
  "verifyProvenance C cl o' =
    (case cl of None \<Rightarrow> Some (Inl ProvMalformed)
     | Some c \<Rightarrow>
       if c_version c \<noteq> provenance_version then Some (Inl ProvVersion)
       else if c_sender c \<noteq> po_sender o' then Some (Inl SenderMismatch)
       else if c_trust c \<noteq> deriveTrust (c_sources c) then Some (Inl TrustInconsistent)
       else if c_expiresAt c \<le> c_issuedAt c \<or> MAX_PROVENANCE_TTL_MS < c_expiresAt c - c_issuedAt c then Some (Inl ProvTtlTooLong)
       else if po_now o' + po_skew o' < c_issuedAt c then Some (Inl ProvNotYetValid)
       else if c_expiresAt c \<le> po_now o' then Some (Inl ProvExpired)
       else if \<not> actionsEqual (c_action c) (po_action o') then Some (Inl ProvActionMismatch)
       else case po_keys o' (c_sender c) of
         None \<Rightarrow> Some (Inl NoSenderKey)
       | Some pub \<Rightarrow>
           if pub = [] then Some (Inl NoSenderKey)
           else map_option (\<lambda>ok. if ok then Inr c else Inl ProvInvalidSignature)
             (verify_canonical C (canonicalizeClaim c) (c_signature c) pub))"

definition effectiveTrust :: "provenance_failure + claim \<Rightarrow> trust" where
  "effectiveTrust r = (case r of Inr c \<Rightarrow> c_trust c | Inl e \<Rightarrow> Untrusted)"

text \<open>Trusted is only ever the verdict of a signed claim, bound to this sender and action, whose every source is trusted.\<close>

lemma effective_trusted:
  assumes "verifyProvenance C cl o' = Some r" "effectiveTrust r = Trusted"
  shows "\<exists>c pub. cl = Some c \<and> r = Inr c \<and> c_sender c = po_sender o' \<and> c_action c = po_action o' \<and>
    c_sources c \<noteq> [] \<and> (\<forall>s \<in> set (c_sources c). strust s = Trusted) \<and>
    c_issuedAt c \<le> po_now o' + po_skew o' \<and> po_now o' < c_expiresAt c \<and> c_expiresAt c \<le> c_issuedAt c + MAX_PROVENANCE_TTL_MS \<and>
    po_keys o' (po_sender o') = Some pub \<and> verify_canonical C (canonicalizeClaim c) (c_signature c) pub = Some True"
  using assms
  by (auto simp: verifyProvenance_def effectiveTrust_def deriveTrust_def actionsEqual_iff split: option.splits if_splits)

lemma finite_source_json [simp]: "json_finite (source_json s)"
  by (cases "sid s") (auto simp: source_json_def opt_field_def)

lemma finite_claim [simp]: "json_finite (JObj (claim_members c))"
  by (auto simp: claim_members_def action_json_def)

lemma canonicalizeClaim_some: "\<exists>t. canonicalizeClaim c = Some t"
  unfolding canonicalizeClaim_def stableStringify_finite [OF finite_claim] by blast

lemma kind_text_inj [simp]: "kind_text a = kind_text b \<longleftrightarrow> a = b"
  by (cases a; cases b) simp_all

lemma trust_text_inj [simp]: "trust_text a = trust_text b \<longleftrightarrow> a = b"
  by (cases a; cases b) simp_all

lemma source_norm_inj [simp]: "norm_json (source_json a) = norm_json (source_json b) \<longleftrightarrow> a = b"
proof
  assume n: "norm_json (source_json a) = norm_json (source_json b)"
  have "length (case norm_json (source_json a) of JObj kvs \<Rightarrow> kvs | _ \<Rightarrow> []) = length (case norm_json (source_json b) of JObj kvs \<Rightarrow> kvs | _ \<Rightarrow> [])"
    by (simp add: n)
  then have i: "sid a = None \<longleftrightarrow> sid b = None"
    by (cases "sid a"; cases "sid b") (simp_all add: source_json_def opt_field_def split: if_splits)
  show "a = b"
    using norm_same_keys [OF n [unfolded source_json_def]] i
    by (cases "sid a"; cases "sid b") (simp_all add: opt_field_def source.equality)
qed simp

lemma canonicalizeClaim_inj:
  assumes "canonicalizeClaim a = Some t" "canonicalizeClaim b = Some t"
  shows "b = a\<lparr>c_signature := c_signature b\<rparr>"
proof -
  have "map (norm_json \<circ> snd) (claim_members a) = map (norm_json \<circ> snd) (claim_members b)"
    using assms unfolding canonicalizeClaim_def
    by (rule stable_same_keys) (simp_all add: claim_members_def)
  moreover have "map (norm_json \<circ> source_json) x = map (norm_json \<circ> source_json) y \<longleftrightarrow> x = y" for x y
    by (simp add: inj_map_eq_map inj_def)
  ultimately show ?thesis by (simp add: claim_members_def claim.equality)
qed

section \<open>Properties\<close>

text \<open>Overflow never cleans the label: a provenance context never holds more than its bound of sources, and however many were added its label is the one derived from all of them, so untrusted as soon as one was.\<close>

theorem provenance_context_label:
  "ctx_trust (ctx_of ss) = deriveTrust ss \<and> length (ctx_sources (ctx_of ss)) \<le> MAX_PROVENANCE_SOURCES \<and>
   (ctx_trust (ctx_of ss) = Trusted \<longleftrightarrow> ss \<noteq> [] \<and> (\<forall>s \<in> set ss. strust s = Trusted))"
  using ctx_foldl [of "[]" ss] ctx_trust_of [of ss] by (auto simp: ctx_sources_def ctx_of_def deriveTrust_def)

theorem provenance_context_label_witness:
  "ctx_trust (ctx_of (\<lparr>skind = KWeb, sid = None, strust = Untrusted\<rparr> # replicate 100 \<lparr>skind = KUser, sid = None, strust = Trusted\<rparr>)) = Untrusted"
  using provenance_context_label [of "\<lparr>skind = KWeb, sid = None, strust = Untrusted\<rparr> # replicate 100 \<lparr>skind = KUser, sid = None, strust = Trusted\<rparr>"]
  by (cases "ctx_trust (ctx_of (\<lparr>skind = KWeb, sid = None, strust = Untrusted\<rparr> # replicate 100 \<lparr>skind = KUser, sid = None, strust = Trusted\<rparr>))") simp_all

text \<open>C28 A caller acts on trusted data only if it may: when the effective trust of a verification is trusted, the claim is the sender's, for exactly this action, within its life of at most MAX_PROVENANCE_TTL_MS, every one of its sources is trusted, and the signature verifies under the sender's key.\<close>

theorem provenance_trusted_sound:
  assumes "verifyProvenance C cl o' = Some r" "effectiveTrust r = Trusted"
  shows "\<exists>c pub. cl = Some c \<and> r = Inr c \<and> c_sender c = po_sender o' \<and> c_action c = po_action o' \<and>
    c_sources c \<noteq> [] \<and> (\<forall>s \<in> set (c_sources c). strust s = Trusted) \<and>
    c_issuedAt c \<le> po_now o' + po_skew o' \<and> po_now o' < c_expiresAt c \<and> c_expiresAt c \<le> c_issuedAt c + MAX_PROVENANCE_TTL_MS \<and>
    po_keys o' (po_sender o') = Some pub \<and> verify_canonical C (canonicalizeClaim c) (c_signature c) pub = Some True"
  by (rule effective_trusted [OF assms])

theorem provenance_trusted_sound_witness:
  "\<exists>c s. strust s = Trusted \<and> s \<in> set (c_sources c) \<and>
    verify_canonical demo_crypto (canonicalizeClaim c) (c_signature c) (js ''p'') = Some True"
proof -
  let ?c = "\<lparr>c_version = provenance_version, c_sender = js ''a'',
    c_action = \<lparr>act_method = js ''GET'', act_path = js ''/m'', act_bodySha256 = js ''d''\<rparr>,
    c_sources = [\<lparr>skind = KUser, sid = None, strust = Trusted\<rparr>], c_trust = Trusted, c_issuedAt = 100, c_expiresAt = 200,
    c_keyId = js ''k'', c_signature = []\<rparr>"
  obtain t where t: "canonicalizeClaim ?c = Some t" using canonicalizeClaim_some by blast
  obtain s where s: "sign_canonical demo_crypto (canonicalizeClaim ?c) (js ''k'') = Some s"
    using sign_canonical_some [OF demo_pair] t by metis
  have v: "verify_canonical demo_crypto (canonicalizeClaim (?c\<lparr>c_signature := s\<rparr>)) s (js ''p'') = Some True"
    using verify_canonical_sign [OF demo_pair s, of "js ''p''"] by (simp add: canonicalizeClaim_def claim_members_def)
  let ?o = "\<lparr>po_keys = (\<lambda>x. Some (js ''p'')), po_sender = js ''a'',
    po_action = \<lparr>act_method = js ''GET'', act_path = js ''/m'', act_bodySha256 = js ''d''\<rparr>, po_now = 150, po_skew = 30\<rparr>"
  have "verifyProvenance demo_crypto (Some (?c\<lparr>c_signature := s\<rparr>)) ?o = Some (Inr (?c\<lparr>c_signature := s\<rparr>))"
    using v by (simp add: verifyProvenance_def deriveTrust_def actionsEqual_iff MAX_PROVENANCE_TTL_MS_def) (simp add: ascii_eval)
  from provenance_trusted_sound [OF this] obtain c pub where c: "?c\<lparr>c_signature := s\<rparr> = c" "pub = js ''p''"
    "\<forall>s \<in> set (c_sources c). strust s = Trusted" "verify_canonical demo_crypto (canonicalizeClaim c) (c_signature c) pub = Some True"
    by (auto simp: effectiveTrust_def)
  have "c_sources c = [\<lparr>skind = KUser, sid = None, strust = Trusted\<rparr>]" by (simp add: c(1) [symmetric])
  with c show ?thesis by (intro exI [of _ c] exI [of _ "\<lparr>skind = KUser, sid = None, strust = Trusted\<rparr>"]) simp
qed

end
