(* ===== verification/StructuredFields.thy ===== *)
theory StructuredFields
  imports Dpop
begin

text \<open>
  The structured-field subset of \<open>src/httpMessageSignatures.ts\<close> (RFC 8941): the parser
  class as functions from the rest of the text to a value and what is left, the top-level
  splitter, the serialisers, component identifiers and dictionary members. An error is the
  code of the \<open>HttpSignatureError\<close> thrown.
\<close>

section \<open>Errors and parsers\<close>

datatype sig_error =
  NoSignature | FieldTooLarge | TooManySignatures | MalformedField | DuplicateLabel | NoSignatureForLabel
  | MalformedComponent | UnsupportedParameter | NonAsciiValue | TooManyComponents | DuplicateParameter
  | MalformedParameter | ComponentNotFound | InvalidUrl | InvalidQueryEncoding | AmbiguousQueryParameter
  | InvalidFieldValue | ReqOnRequest | ReqWithoutRequest | ComponentNotApplicable | UnknownDerivedComponent
  | DuplicateComponent | InvalidComponentValue | NonAsciiBase | InvalidLabel | ReservedComponent

definition and_then :: "'e + 'a \<Rightarrow> ('a \<Rightarrow> 'e + 'b) \<Rightarrow> 'e + 'b" where
  "and_then m f = (case m of Inl e \<Rightarrow> Inl e | Inr x \<Rightarrow> f x)"

lemma and_then_simps [simp]: "and_then (Inl e) f = Inl e" "and_then (Inr x) f = f x"
  by (simp_all add: and_then_def)

lemma and_then_Inr [simp]: "and_then m f = Inr y \<longleftrightarrow> (\<exists>x. m = Inr x \<and> f x = Inr y)"
  by (cases m) auto

lemma and_then_cong [fundef_cong]: "m = m' \<Longrightarrow> (\<And>x. m' = Inr x \<Longrightarrow> f x = g x) \<Longrightarrow> and_then m f = and_then m' g"
  by (cases m') auto

type_synonym 'a parser = "jstr \<Rightarrow> sig_error + ('a \<times> jstr)"

text \<open>\<open>map\<close> over a list, stopping at the first error.\<close>

fun each :: "('a \<Rightarrow> 'e + 'b) \<Rightarrow> 'a list \<Rightarrow> 'e + 'b list" where
  "each f [] = Inr []"
| "each f (x # xs) = and_then (f x) (\<lambda>y. and_then (each f xs) (\<lambda>ys. Inr (y # ys)))"

lemma each_Inr: "each f xs = Inr ys \<longleftrightarrow> map f xs = map Inr ys"
  by (induction xs arbitrary: ys) (auto simp: Cons_eq_map_conv)

section \<open>Lexical classes\<close>

definition lower_char :: "code_unit \<Rightarrow> bool" where
  "lower_char c \<longleftrightarrow> 97 \<le> unat c \<and> unat c \<le> 122"

definition upper_char :: "code_unit \<Rightarrow> bool" where
  "upper_char c \<longleftrightarrow> 65 \<le> unat c \<and> unat c \<le> 90"

definition key_start :: "code_unit \<Rightarrow> bool" where
  "key_start c \<longleftrightarrow> lower_char c \<or> c = 42"

definition key_char :: "code_unit \<Rightarrow> bool" where
  "key_char c \<longleftrightarrow> lower_char c \<or> digit_char c \<or> c \<in> {95, 46, 42, 45}"

definition token_start :: "code_unit \<Rightarrow> bool" where
  "token_start c \<longleftrightarrow> lower_char c \<or> upper_char c \<or> c = 42"

text \<open>\<open>A-Z a-z 0-9 : / ! # $ % & ' * + . ^ _ ` | ~ -\<close>\<close>

definition sf_token_char :: "code_unit \<Rightarrow> bool" where
  "sf_token_char c \<longleftrightarrow> lower_char c \<or> upper_char c \<or> digit_char c
     \<or> c \<in> {58, 47, 33, 35, 36, 37, 38, 39, 42, 43, 46, 94, 95, 96, 124, 126, 45}"

definition printable :: "code_unit \<Rightarrow> bool" where
  "printable c \<longleftrightarrow> 32 \<le> unat c \<and> unat c \<le> 126"

definition std64_char :: "code_unit \<Rightarrow> bool" where
  "std64_char c \<longleftrightarrow> lower_char c \<or> upper_char c \<or> digit_char c \<or> c = 43 \<or> c = 47"

lemma std64_plain: "std64_char c \<longleftrightarrow> b64_plain c"
  by (auto simp: std64_char_def b64_plain_def lower_char_def upper_char_def digit_char_def Let_def word_unat_eq_iff)

text \<open>The regular expression and \<open>atob\<close>: padding only where it completes a group of four.\<close>

definition base64ToBytes :: "jstr \<Rightarrow> bytes option" where
  "base64ToBytes s =
    (let core = takeWhile std64_char s; pad = drop (length core) s in
     if pad \<noteq> replicate (length pad) 61 \<or> 2 < length pad \<or> length s mod 4 = 1 then None
     else if pad \<noteq> [] \<and> length s mod 4 \<noteq> 0 then None
     else Some (base64_decode core))"

section \<open>Splitting at the top level\<close>

text \<open>
  The scanner of \<open>splitTopLevel\<close>, one character at a time: inside a string, after a
  backslash in a string, inside a byte sequence. \<open>None\<close>: a byte sequence has no end.
\<close>

datatype split_mode = Plain | InStr | Escaped | InBytes

fun split_scan :: "code_unit \<Rightarrow> split_mode \<Rightarrow> int \<Rightarrow> jstr \<Rightarrow> jstr \<Rightarrow> jstr list option" where
  "split_scan sep mode depth cur [] = (if mode = InBytes then None else Some [rev cur])"
| "split_scan sep mode depth cur (c # s) =
    (case mode of
       InStr \<Rightarrow> split_scan sep (if c = 92 then Escaped else if c = 34 then Plain else InStr) depth (c # cur) s
     | Escaped \<Rightarrow> split_scan sep InStr depth (c # cur) s
     | InBytes \<Rightarrow> split_scan sep (if c = 58 then Plain else InBytes) depth (c # cur) s
     | Plain \<Rightarrow>
         if c = 34 then split_scan sep InStr depth (c # cur) s
         else if c = 40 then split_scan sep Plain (depth + 1) (c # cur) s
         else if c = 41 then split_scan sep Plain (depth - 1) (c # cur) s
         else if c = 58 \<and> sep \<noteq> 58 then split_scan sep InBytes depth (c # cur) s
         else if c = sep \<and> depth = 0 then map_option ((#) (rev cur)) (split_scan sep Plain depth [] s)
         else split_scan sep Plain depth (c # cur) s)"

definition splitTopLevel :: "jstr \<Rightarrow> code_unit \<Rightarrow> jstr list" where
  "splitTopLevel input sep = (case split_scan sep Plain 0 [] input of None \<Rightarrow> [input] | Some parts \<Rightarrow> parts)"

section \<open>The parser\<close>

datatype sf_item = SfStr jstr | SfInt int | SfBool bool | SfToken jstr | SfBytes bytes

type_synonym sf_params = "(jstr \<times> sf_item) list"

definition sf_expect :: "code_unit \<Rightarrow> unit parser" where
  "sf_expect c s = (case s of [] \<Rightarrow> Inl MalformedField | x # r \<Rightarrow> if x = c then Inr ((), r) else Inl MalformedField)"

definition skipSp :: "jstr \<Rightarrow> jstr" where
  "skipSp s = dropWhile (\<lambda>c. c = 32) s"

definition skipOws :: "jstr \<Rightarrow> jstr" where
  "skipOws s = dropWhile (\<lambda>c. c = 32 \<or> c = 9) s"

definition sf_key :: "jstr parser" where
  "sf_key s =
    (case s of
       [] \<Rightarrow> Inl MalformedField
     | c # r \<Rightarrow> if key_start c then Inr (c # takeWhile key_char r, dropWhile key_char r) else Inl MalformedField)"

fun sf_chars :: "jstr parser" where
  "sf_chars [] = Inl MalformedField"
| "sf_chars (c # s) =
    (if c = 92 then
       (case s of
          [] \<Rightarrow> Inl MalformedField
        | n # s' \<Rightarrow> if n \<noteq> 34 \<and> n \<noteq> 92 then Inl MalformedField else and_then (sf_chars s') (\<lambda>(t, r). Inr (n # t, r)))
     else if c = 34 then Inr ([], s)
     else if \<not> printable c then Inl MalformedField
     else and_then (sf_chars s) (\<lambda>(t, r). Inr (c # t, r)))"

definition sf_string :: "jstr parser" where
  "sf_string s = and_then (sf_expect 34 s) (\<lambda>(_, r). sf_chars r)"

text \<open>At most 15 digits after an optional minus; a fraction is refused.\<close>

definition sf_digits :: "jstr \<Rightarrow> jstr" where
  "sf_digits s = takeWhile digit_char (take 15 s)"

definition sf_number :: "jstr \<Rightarrow> (sig_error + (sf_item \<times> jstr)) option" where
  "sf_number s =
    (let neg = (take 1 s = [45]); t = (if neg then drop 1 s else s); d = sf_digits t; r = drop (length d) t in
     if d = [] then None
     else if take 1 r = [46] \<and> sf_digits (drop 1 r) \<noteq> [] then Some (Inl MalformedField)
     else Some (Inr (SfInt (if neg then - int (read_nat d 0) else int (read_nat d 0)), r)))"

definition bareItem :: "sf_item parser" where
  "bareItem s =
    (case s of
       [] \<Rightarrow> Inl MalformedField
     | c # r \<Rightarrow>
         if c = 34 then and_then (sf_string s) (\<lambda>(t, r). Inr (SfStr t, r))
         else if c = 58 then
           (let b = takeWhile (\<lambda>x. x \<noteq> 58) r in
            if length b = length r then Inl MalformedField
            else (case base64ToBytes b of None \<Rightarrow> Inl MalformedField | Some bs \<Rightarrow> Inr (SfBytes bs, drop (Suc (length b)) r)))
         else if c = 63 then
           (case r of
              [] \<Rightarrow> Inl MalformedField
            | v # r' \<Rightarrow> if v \<noteq> 48 \<and> v \<noteq> 49 then Inl MalformedField else Inr (SfBool (v = 49), r'))
         else (case sf_number s of
            Some res \<Rightarrow> res
          | None \<Rightarrow> if token_start c then Inr (SfToken (c # takeWhile sf_token_char r), dropWhile sf_token_char r) else Inl MalformedField))"

text \<open>One parameter after its semicolon.\<close>

definition sf_param :: "(jstr \<times> sf_item) parser" where
  "sf_param s =
    and_then (sf_key (skipSp s)) (\<lambda>(k, r).
      (case r of
         [] \<Rightarrow> Inr ((k, SfBool True), r)
       | c # r' \<Rightarrow> if c = 61 then and_then (bareItem r') (\<lambda>(v, r2). Inr ((k, v), r2)) else Inr ((k, SfBool True), r)))"

section \<open>What parsers consume\<close>

text \<open>A parser takes a non-empty prefix of its input, and no line feed with it.\<close>

definition one_line :: "jstr \<Rightarrow> bool" where
  "one_line t \<longleftrightarrow> 10 \<notin> set t"

definition takes :: "'a parser \<Rightarrow> bool" where
  "takes p \<longleftrightarrow> (\<forall>s v r. p s = Inr (v, r) \<longrightarrow> (\<exists>t. s = t @ r \<and> t \<noteq> [] \<and> one_line t))"

lemma takesI: "(\<And>s v r. p s = Inr (v, r) \<Longrightarrow> \<exists>t. s = t @ r \<and> t \<noteq> [] \<and> one_line t) \<Longrightarrow> takes p"
  by (simp add: takes_def)

lemma takesD: "takes p \<Longrightarrow> p s = Inr (v, r) \<Longrightarrow> \<exists>t. s = t @ r \<and> t \<noteq> [] \<and> one_line t"
  by (simp add: takes_def)

lemma one_line_simps [simp]: "one_line []" "one_line (c # t) \<longleftrightarrow> c \<noteq> 10 \<and> one_line t" "one_line (a @ b) \<longleftrightarrow> one_line a \<and> one_line b"
  by (auto simp: one_line_def)

lemma one_line_takeWhile: "\<not> P 10 \<Longrightarrow> one_line (takeWhile P s)"
  by (auto simp: one_line_def dest: set_takeWhileD)

lemma dropWhile_split: "\<not> P 10 \<Longrightarrow> \<exists>t. s = t @ dropWhile P s \<and> one_line t"
  by (rule exI [of _ "takeWhile P s"]) (simp add: one_line_takeWhile)

lemma class_10 [simp]: "\<not> key_char 10" "\<not> key_start 10" "\<not> sf_token_char 10" "\<not> token_start 10" "\<not> printable 10" "\<not> digit_char 10" "\<not> std64_char 10"
  by (simp_all add: key_char_def key_start_def sf_token_char_def token_start_def printable_def digit_char_def std64_char_def lower_char_def upper_char_def)

lemma takes_expect: "c \<noteq> 10 \<Longrightarrow> takes (sf_expect c)"
  by (rule takesI) (auto simp: sf_expect_def split: list.splits if_splits)

lemma takes_key: "takes sf_key"
proof (rule takesI)
  fix s v r
  assume "sf_key s = Inr (v, r)"
  then obtain c t where "s = c # t" "key_start c" "r = dropWhile key_char t" by (auto simp: sf_key_def split: list.splits if_splits)
  then show "\<exists>t. s = t @ r \<and> t \<noteq> [] \<and> one_line t"
    using class_10(2) by (intro exI [of _ "c # takeWhile key_char t"]) (auto simp: one_line_takeWhile)
qed

lemma takes_chars: "takes sf_chars"
proof (rule takesI)
  fix s v r
  show "sf_chars s = Inr (v, r) \<Longrightarrow> \<exists>t. s = t @ r \<and> t \<noteq> [] \<and> one_line t"
  proof (induction s arbitrary: v rule: sf_chars.induct)
    case (2 c s)
    consider n s' where "c = 92" "s = n # s'" "n = 34 \<or> n = 92" "\<exists>v'. sf_chars s' = Inr (v', r)"
      | "c = 34" "r = s" | "c \<noteq> 92" "c \<noteq> 34" "printable c" "\<exists>v'. sf_chars s = Inr (v', r)"
      using "2.prems" by (auto split: if_splits list.splits)
    then show ?case
    proof cases
      case (1 n s')
      then obtain v' where v': "sf_chars s' = Inr (v', r)" by blast
      have "\<not> (n \<noteq> 34 \<and> n \<noteq> 92)" using 1(3) by blast
      from "2.IH"(1) [OF 1(1,2) this v'] obtain t where "s' = t @ r" "one_line t" by blast
      with 1(1-3) show ?thesis by (intro exI [of _ "c # n # t"]) auto
    next
      case 2
      then show ?thesis by (intro exI [of _ "[c]"]) simp
    next
      case 3
      then obtain v' where v': "sf_chars s = Inr (v', r)" by blast
      have "\<not> \<not> printable c" using 3(3) by simp
      from "2.IH"(2) [OF 3(1,2) this v'] obtain t where "s = t @ r" "one_line t" by blast
      with 3(3) class_10(5) show ?thesis by (intro exI [of _ "c # t"]) auto
    qed
  qed simp
qed

lemma takes_string: "takes sf_string"
proof (rule takesI)
  fix s v r
  assume "sf_string s = Inr (v, r)"
  then obtain u where u: "sf_expect 34 s = Inr ((), u)" "sf_chars u = Inr (v, r)" by (auto simp: sf_string_def)
  obtain a where "s = a @ u" "a \<noteq> []" "one_line a" using takesD [OF takes_expect u(1)] by auto
  moreover obtain b where "u = b @ r" "one_line b" using takesD [OF takes_chars u(2)] by blast
  ultimately show "\<exists>t. s = t @ r \<and> t \<noteq> [] \<and> one_line t" by (intro exI [of _ "a @ b"]) simp
qed

lemma sf_digits_prefix: "t = sf_digits t @ drop (length (sf_digits t)) t"
proof -
  have "sf_digits t = take (length (sf_digits t)) t"
    unfolding sf_digits_def by (metis append_eq_conv_conj append_take_drop_id takeWhile_dropWhile_id append.assoc)
  then show ?thesis by (metis append_take_drop_id)
qed

lemma sf_number_takes: "sf_number s = Some (Inr (v, r)) \<Longrightarrow> \<exists>t. s = t @ r \<and> t \<noteq> [] \<and> one_line t"
proof -
  assume a: "sf_number s = Some (Inr (v, r))"
  define t where "t = (if take 1 s = [45] then drop 1 s else s)"
  have d: "sf_digits t \<noteq> []" "r = drop (length (sf_digits t)) t"
    using a by (auto simp: sf_number_def Let_def t_def split: if_splits)
  have o: "one_line (sf_digits t)" by (simp add: sf_digits_def one_line_takeWhile)
  have "\<exists>p. s = p @ t \<and> one_line p" by (cases s) (auto simp: t_def intro: exI [of _ "[45]"])
  then obtain p where "s = p @ t" "one_line p" by blast
  with d o sf_digits_prefix [of t] show ?thesis by (intro exI [of _ "p @ sf_digits t"]) auto
qed

lemma class_pad: "(61 :: code_unit) \<noteq> 10"
  by simp

lemma base64_chars: "base64ToBytes s = Some bs \<Longrightarrow> one_line s"
proof -
  assume a: "base64ToBytes s = Some bs"
  let ?c = "takeWhile std64_char s"
  from a have "drop (length ?c) s = replicate (length (drop (length ?c) s)) 61"
    unfolding base64ToBytes_def Let_def by (meson option.distinct(1))
  then have "one_line (drop (length ?c) s)" by (metis in_set_replicate one_line_def class_pad)
  moreover have "s = ?c @ drop (length ?c) s" by (metis append_take_drop_id takeWhile_eq_take)
  ultimately show "one_line s" by (metis one_line_simps(3) one_line_takeWhile class_10(7))
qed

lemma takes_bareItem: "takes bareItem"
proof (rule takesI)
  fix s v r
  assume a: "bareItem s = Inr (v, r)"
  then obtain c u where s: "s = c # u" by (cases s) (simp add: bareItem_def)
  consider "c = 34" | "c = 58" | "c = 63" | "c \<noteq> 34" "c \<noteq> 58" "c \<noteq> 63" by blast
  then show "\<exists>t. s = t @ r \<and> t \<noteq> [] \<and> one_line t"
  proof cases
    case 1
    then obtain t where "sf_string s = Inr (t, r)" using a s by (auto simp: bareItem_def)
    then show ?thesis using takesD [OF takes_string] by blast
  next
    case 2
    let ?b = "takeWhile (\<lambda>x. x \<noteq> 58) u"
    from 2 a s obtain bs where b: "length ?b \<noteq> length u" "base64ToBytes ?b = Some bs" "r = drop (Suc (length ?b)) u"
      by (auto simp: bareItem_def Let_def split: if_splits option.splits)
    have "length ?b \<le> length u" by (rule length_takeWhile_le)
    with b(1) have l: "length ?b < length u" by simp
    then have "u ! length ?b = 58" using nth_length_takeWhile by blast
    with l have "u = ?b @ 58 # drop (Suc (length ?b)) u" by (metis id_take_nth_drop takeWhile_eq_take)
    with b(3) have "s = (58 # ?b @ [58]) @ r" unfolding s 2 by simp
    moreover have "one_line (58 # ?b @ [58])" using base64_chars [OF b(2)] by simp
    ultimately show ?thesis by blast
  next
    case 3
    then obtain x where "s = [c, x] @ r" "x = 48 \<or> x = 49" using a s by (auto simp: bareItem_def split: list.splits if_splits)
    with 3 show ?thesis by (intro exI [of _ "[c, x]"]) auto
  next
    case 4
    show ?thesis
    proof (cases "sf_number s")
      case None
      then have "token_start c" "r = dropWhile sf_token_char u" using a s 4 by (auto simp: bareItem_def split: if_splits)
      then show ?thesis using s class_10(4)
        by (intro exI [of _ "c # takeWhile sf_token_char u"]) (auto simp: one_line_takeWhile)
    next
      case (Some res)
      then have "sf_number s = Some (Inr (v, r))" using a s 4 by (simp add: bareItem_def)
      then show ?thesis by (rule sf_number_takes)
    qed
  qed
qed

lemma takes_param: "takes sf_param"
proof (rule takesI)
  fix s v r
  assume a: "sf_param s = Inr (v, r)"
  then obtain k u where k: "sf_key (skipSp s) = Inr (k, u)" "(case u of [] \<Rightarrow> Inr ((k, SfBool True), u)
      | c # r' \<Rightarrow> if c = 61 then and_then (bareItem r') (\<lambda>(v, r2). Inr ((k, v), r2)) else Inr ((k, SfBool True), u)) = Inr (v, r)"
    by (auto simp: sf_param_def)
  from k(2) have u: "u = r \<or> (\<exists>w x. u = 61 # w \<and> bareItem w = Inr (x, r))" by (cases u) (auto split: if_splits)
  obtain p where p: "s = p @ skipSp s" "one_line p" using dropWhile_split [of "\<lambda>c. c = 32" s] by (auto simp: skipSp_def)
  obtain q where q: "skipSp s = q @ u" "q \<noteq> []" "one_line q" using takesD [OF takes_key k(1)] by blast
  from u show "\<exists>t. s = t @ r \<and> t \<noteq> [] \<and> one_line t"
  proof
    assume "u = r"
    with p q show ?thesis by (intro exI [of _ "p @ q"]) auto
  next
    assume "\<exists>w x. u = 61 # w \<and> bareItem w = Inr (x, r)"
    then obtain w x where w: "u = 61 # w" "bareItem w = Inr (x, r)" by blast
    obtain z where "w = z @ r" "one_line z" using takesD [OF takes_bareItem w(2)] by blast
    with p q w(1) show ?thesis by (intro exI [of _ "p @ q @ 61 # z"]) auto
  qed
qed

section \<open>Parameters and components\<close>

function sf_params :: "sf_params parser" where
  "sf_params s =
    (case s of
       [] \<Rightarrow> Inr ([], [])
     | c # r \<Rightarrow>
         if c = 59 then and_then (sf_param r) (\<lambda>kr. and_then (sf_params (snd kr)) (\<lambda>(ps, r2). Inr (fst kr # ps, r2)))
         else Inr ([], s))"
  by pat_completeness auto
termination
proof (relation "measure length")
  fix s c r x
  assume s: "s = c # r" "c = 59" "sf_param r = Inr x"
  then obtain t where "r = t @ snd x" using takesD [OF takes_param, of r "fst x" "snd x"] by auto
  then show "(snd x, s) \<in> measure length" using s(1) by simp
qed simp

declare sf_params.simps [simp del]

lemma sf_params_Nil [simp]: "sf_params [] = Inr ([], [])"
  by (simp add: sf_params.simps)

lemma sf_params_stop: "c \<noteq> 59 \<Longrightarrow> sf_params (c # s) = Inr ([], c # s)"
  by (simp add: sf_params.simps)

lemma sf_params_more: "sf_params (59 # r) = and_then (sf_param r) (\<lambda>kr. and_then (sf_params (snd kr)) (\<lambda>(ps, r2). Inr (fst kr # ps, r2)))"
  by (simp add: sf_params.simps)

lemma params_line: "sf_params s = Inr (ps, r) \<Longrightarrow> \<exists>t. s = t @ r \<and> one_line t"
proof (induction s arbitrary: ps rule: sf_params.induct)
  case (1 s)
  show ?case
  proof (cases "\<exists>u. s = 59 # u")
    case False
    then have "r = s" using "1.prems" by (cases s) (auto simp: sf_params_stop)
    then show ?thesis by (intro exI [of _ "[]"]) simp
  next
    case True
    then obtain u where s: "s = 59 # u" by blast
    with "1.prems" obtain x ps' where x: "sf_param u = Inr x" "sf_params (snd x) = Inr (ps', r)" by (auto simp: sf_params_more)
    from "1.IH" [OF s refl x] obtain t where "snd x = t @ r" "one_line t" by blast
    moreover obtain q where "u = q @ snd x" "one_line q" using takesD [OF takes_param, of u "fst x" "snd x"] x(1) by auto
    ultimately show ?thesis using s by (intro exI [of _ "59 # q @ t"]) auto
  qed
qed

section \<open>Serialising\<close>

definition sf_escape :: "code_unit \<Rightarrow> jstr" where
  "sf_escape c = (if c = 92 \<or> c = 34 then [92, c] else [c])"

definition sfString :: "jstr \<Rightarrow> sig_error + jstr" where
  "sfString s = (if \<forall>c \<in> set s. printable c then Inr (34 # concat (map sf_escape s) @ [34]) else Inl NonAsciiValue)"

fun component_param :: "jstr \<times> sf_item \<Rightarrow> sig_error + jstr" where
  "component_param (k, SfBool b) = (if b then Inr (59 # k) else Inl UnsupportedParameter)"
| "component_param (k, SfStr t) = and_then (sfString t) (\<lambda>q. Inr (59 # k @ 61 # q))"
| "component_param (k, _) = Inl UnsupportedParameter"

definition serializeComponent :: "jstr \<Rightarrow> sf_params \<Rightarrow> sig_error + jstr" where
  "serializeComponent name ps = and_then (sfString name) (\<lambda>n. and_then (each component_param ps) (\<lambda>ts. Inr (n @ concat ts)))"

definition normalizeComponentId :: "jstr \<Rightarrow> sig_error + jstr" where
  "normalizeComponentId ident =
    (let trimmed = trim ident; rawName = takeWhile (\<lambda>c. c \<noteq> 59) trimmed; rest = dropWhile (\<lambda>c. c \<noteq> 59) trimmed;
         quoted = (if startsWith rawName [34] then rawName else 34 # rawName @ [34])
     in and_then (sf_string (quoted @ rest)) (\<lambda>(name, r). and_then (sf_params r) (\<lambda>(ps, r2).
          if r2 \<noteq> [] then Inl MalformedComponent else serializeComponent name ps)))"

record sig_params =
  sp_created :: "int option"
  sp_expires :: "int option"
  sp_nonce :: "jstr option"
  sp_alg :: "jstr option"
  sp_keyid :: "jstr option"
  sp_tag :: "jstr option"

definition num_param :: "string \<Rightarrow> int option \<Rightarrow> sig_error + jstr" where
  "num_param name v = (case v of None \<Rightarrow> Inr [] | Some n \<Rightarrow> Inr (59 # js name @ 61 # show_int n))"

definition text_param :: "string \<Rightarrow> jstr option \<Rightarrow> sig_error + jstr" where
  "text_param name v = (case v of None \<Rightarrow> Inr [] | Some t \<Rightarrow> and_then (sfString t) (\<lambda>q. Inr (59 # js name @ 61 # q)))"

definition serializeSignatureParams :: "jstr list \<Rightarrow> sig_params \<Rightarrow> sig_error + jstr" where
  "serializeSignatureParams comps p =
    and_then (each (\<lambda>m. m) [num_param ''created'' (sp_created p), text_param ''keyid'' (sp_keyid p), text_param ''alg'' (sp_alg p),
        num_param ''expires'' (sp_expires p), text_param ''nonce'' (sp_nonce p), text_param ''tag'' (sp_tag p)])
      (\<lambda>ts. Inr (40 # join_with [32] comps @ 41 # concat ts))"

section \<open>A member of Signature-Input\<close>

definition MAX_FIELD_BYTES :: nat where
  "MAX_FIELD_BYTES = 8 * 1024"

definition MAX_MEMBERS :: nat where
  "MAX_MEMBERS = 16"

definition MAX_COMPONENTS :: nat where
  "MAX_COMPONENTS = 32"

lemma skipSp_split: "\<exists>t. s = t @ skipSp s \<and> one_line t"
  unfolding skipSp_def by (rule dropWhile_split) simp

lemma component_shorter:
  assumes "sf_string s = Inr nr" "sf_params (snd nr) = Inr pr"
  shows "\<exists>t. s = t @ skipSp (snd pr) \<and> t \<noteq> [] \<and> one_line t"
proof -
  obtain a where a: "s = a @ snd nr" "a \<noteq> []" "one_line a" using takesD [OF takes_string, of s "fst nr" "snd nr"] assms(1) by auto
  obtain b where b: "snd nr = b @ snd pr" "one_line b" using params_line [of "snd nr" "fst pr" "snd pr"] assms(2) by auto
  obtain d where d: "snd pr = d @ skipSp (snd pr)" "one_line d" using skipSp_split by blast
  have "s = (a @ b @ d) @ skipSp (snd pr)" using a(1) b(1) d(1) by (metis append.assoc)
  with a(2,3) b(2) d(2) show ?thesis by (intro exI [of _ "a @ b @ d"]) simp
qed

text \<open>The loop over the inner list; \<open>n\<close> components have been read.\<close>

function inner_components :: "nat \<Rightarrow> jstr list parser" where
  "inner_components n s =
    (case s of
       [] \<Rightarrow> Inl MalformedField
     | c # _ \<Rightarrow>
         if c = 41 then Inr ([], s)
         else and_then (sf_string s) (\<lambda>nr. and_then (sf_params (snd nr)) (\<lambda>pr. and_then (serializeComponent (fst nr) (fst pr)) (\<lambda>ident.
           if MAX_COMPONENTS < Suc n then Inl TooManyComponents
           else if take 1 (snd pr) \<noteq> [32] \<and> take 1 (snd pr) \<noteq> [41] then Inl MalformedField
           else and_then (inner_components (Suc n) (skipSp (snd pr))) (\<lambda>(ids, r). Inr (ident # ids, r))))))"
  by pat_completeness auto

termination
proof (relation "measure (length \<circ> snd)")
  fix n s c u nr pr
  fix ident :: jstr
  assume "sf_string s = Inr nr" "sf_params (snd nr) = Inr pr"
  from component_shorter [OF this] show "((Suc n, skipSp (snd pr)), n, s) \<in> measure (length \<circ> snd)"
    by (metis comp_apply in_measure length_append length_greater_0_conv less_add_same_cancel2 snd_conv)
qed simp

declare inner_components.simps [simp del]

text \<open>Parameters the verifier knows; later ones keep the earlier value of the others.\<close>

fun set_param :: "jstr \<Rightarrow> sf_item \<Rightarrow> sig_params \<Rightarrow> sig_error + sig_params" where
  "set_param k v p =
    (if k = js ''created'' \<or> k = js ''expires'' then
       (case v of
          SfInt n \<Rightarrow>
            if \<not> isSafeInteger (Fin n) \<or> n < 0 then Inl MalformedParameter
            else Inr (if k = js ''created'' then p\<lparr>sp_created := Some n\<rparr> else p\<lparr>sp_expires := Some n\<rparr>)
        | _ \<Rightarrow> Inl MalformedParameter)
     else if k \<in> {js ''nonce'', js ''alg'', js ''keyid'', js ''tag''} then
       (case v of
          SfStr t \<Rightarrow> Inr
            (if k = js ''nonce'' then p\<lparr>sp_nonce := Some t\<rparr> else if k = js ''alg'' then p\<lparr>sp_alg := Some t\<rparr>
             else if k = js ''keyid'' then p\<lparr>sp_keyid := Some t\<rparr> else p\<lparr>sp_tag := Some t\<rparr>)
        | _ \<Rightarrow> Inl MalformedParameter)
     else Inr p)"

fun read_params :: "jstr list \<Rightarrow> sf_params \<Rightarrow> sig_params \<Rightarrow> sig_error + sig_params" where
  "read_params seen [] p = Inr p"
| "read_params seen ((k, v) # ps) p =
    (if k \<in> set seen then Inl DuplicateParameter else and_then (set_param k v p) (read_params (k # seen) ps))"

definition no_params :: sig_params where
  "no_params = \<lparr>sp_created = None, sp_expires = None, sp_nonce = None, sp_alg = None, sp_keyid = None, sp_tag = None\<rparr>"

definition parseSignatureInputMember :: "jstr \<Rightarrow> sig_error + (jstr list \<times> sig_params)" where
  "parseSignatureInputMember raw =
    and_then (sf_expect 40 raw) (\<lambda>(_, r0). and_then (inner_components 0 (skipSp r0)) (\<lambda>(ids, r1). and_then (sf_expect 41 r1) (\<lambda>(_, r2).
      and_then (sf_params r2) (\<lambda>(ps, r3). and_then (read_params [] ps no_params) (\<lambda>p.
        if r3 \<noteq> [] then Inl MalformedField else Inr (ids, p))))))"

section \<open>Dictionary members\<close>

fun sfBare :: "sf_item \<Rightarrow> sig_error + jstr" where
  "sfBare (SfStr t) = sfString t"
| "sfBare (SfInt n) = Inr (show_int n)"
| "sfBare (SfBool b) = Inr (if b then js ''?1'' else js ''?0'')"
| "sfBare (SfToken t) = Inr t"
| "sfBare (SfBytes bs) = Inr (58 # base64_encode bs @ [58])"

definition sfParams :: "sf_params \<Rightarrow> sig_error + jstr" where
  "sfParams ps = and_then
    (each (\<lambda>(k, v). if v = SfBool True then Inr (59 # k) else and_then (sfBare v) (\<lambda>t. Inr (59 # k @ 61 # t))) ps) (\<lambda>ts. Inr (concat ts))"

text \<open>An item with its parameters, re-serialised.\<close>

definition sf_item_text :: "jstr parser" where
  "sf_item_text s = and_then (bareItem s) (\<lambda>br. and_then (sf_params (snd br)) (\<lambda>pr.
     and_then (sfBare (fst br)) (\<lambda>b. and_then (sfParams (fst pr)) (\<lambda>p. Inr (b @ p, snd pr)))))"

lemma takes_item_text: "takes sf_item_text"
proof (rule takesI)
  fix s v r
  assume "sf_item_text s = Inr (v, r)"
  then obtain br pr where "bareItem s = Inr br" "sf_params (snd br) = Inr pr" "r = snd pr" by (auto simp: sf_item_text_def)
  moreover from this obtain a where "s = a @ snd br" "a \<noteq> []" "one_line a" using takesD [OF takes_bareItem, of s "fst br" "snd br"] by auto
  moreover from calculation obtain b where "snd br = b @ r" "one_line b" using params_line [of "snd br" "fst pr" r] by auto
  ultimately show "\<exists>t. s = t @ r \<and> t \<noteq> [] \<and> one_line t" by (intro exI [of _ "a @ b"]) simp
qed

function inner_items :: "jstr list parser" where
  "inner_items s =
    (case s of
       [] \<Rightarrow> Inl MalformedField
     | c # _ \<Rightarrow> if c = 41 then Inr ([], s)
         else and_then (sf_item_text s) (\<lambda>ir. and_then (inner_items (skipSp (snd ir))) (\<lambda>(is, r). Inr (fst ir # is, r))))"
  by pat_completeness auto
termination
proof (relation "measure length")
  fix s ir
  fix c :: code_unit and u :: jstr
  assume "sf_item_text s = Inr ir"
  then obtain a where "s = a @ snd ir" "a \<noteq> []" using takesD [OF takes_item_text, of s "fst ir" "snd ir"] by auto
  moreover obtain d where "snd ir = d @ skipSp (snd ir)" using skipSp_split by blast
  ultimately have "s = (a @ d) @ skipSp (snd ir)" "a \<noteq> []" by (metis append.assoc, simp)
  then show "(skipSp (snd ir), s) \<in> measure length"
    by (metis append_is_Nil_conv in_measure length_append length_greater_0_conv less_add_same_cancel2)
qed simp

declare inner_items.simps [simp del]

definition dict_value :: "jstr parser" where
  "dict_value s =
    (if take 1 s \<noteq> [61] then and_then (sf_params s) (\<lambda>pr. and_then (sfParams (fst pr)) (\<lambda>p. Inr (js ''?1'' @ p, snd pr)))
     else if take 1 (drop 1 s) = [40] then
       and_then (inner_items (skipSp (drop 2 s))) (\<lambda>ir. and_then (sf_expect 41 (snd ir)) (\<lambda>(_, r).
         and_then (sf_params r) (\<lambda>pr. and_then (sfParams (fst pr)) (\<lambda>p. Inr (40 # join_with [32] (fst ir) @ 41 # p, snd pr)))))
     else sf_item_text (drop 1 s))"

definition dict_member :: "jstr \<Rightarrow> sig_error + (jstr \<times> jstr)" where
  "dict_member raw =
    and_then (sf_key (trim raw)) (\<lambda>(k, r). and_then (dict_value r) (\<lambda>(v, r2).
      if skipOws r2 \<noteq> [] then Inl MalformedField else Inr (k, v)))"

definition getDictionaryMember :: "jstr \<Rightarrow> jstr \<Rightarrow> sig_error + jstr" where
  "getDictionaryMember fv key =
    and_then (each dict_member (splitTopLevel fv 44)) (\<lambda>ms.
      (case map_of (rev ms) key of None \<Rightarrow> Inl ComponentNotFound | Some v \<Rightarrow> Inr v))"

text \<open>What parses as a member is one line.\<close>

lemma inner_components_line: "inner_components n s = Inr (ids, r) \<Longrightarrow> \<exists>t. s = t @ r \<and> one_line t"
proof (induction n s arbitrary: ids rule: inner_components.induct)
  case (1 n s)
  then obtain c u where s: "s = c # u" by (cases s) (simp add: inner_components.simps)
  show ?case
  proof (cases "c = 41")
    case True
    then have "r = s" using "1.prems" s by (simp add: inner_components.simps)
    then show ?thesis by (intro exI [of _ "[]"]) simp
  next
    case False
    with "1.prems" s obtain nr pr ident ids' where c: "sf_string s = Inr nr" "sf_params (snd nr) = Inr pr" "serializeComponent (fst nr) (fst pr) = Inr ident"
      "\<not> MAX_COMPONENTS < Suc n" "\<not> (take 1 (snd pr) \<noteq> [32] \<and> take 1 (snd pr) \<noteq> [41])" "inner_components (Suc n) (skipSp (snd pr)) = Inr (ids', r)"
      by (auto simp: inner_components.simps [of n "c # u"] split: if_splits)
    from "1.IH" [OF s False c] obtain b where "skipSp (snd pr) = b @ r" "one_line b" by blast
    moreover obtain a where "s = a @ skipSp (snd pr)" "one_line a" using component_shorter [OF c(1,2)] by blast
    ultimately show ?thesis by (intro exI [of _ "a @ b"]) simp
  qed
qed

lemma member_line: "parseSignatureInputMember raw = Inr m \<Longrightarrow> one_line raw"
proof -
  assume "parseSignatureInputMember raw = Inr m"
  then obtain r0 ids r1 r2 ps where p: "sf_expect 40 raw = Inr ((), r0)" "inner_components 0 (skipSp r0) = Inr (ids, r1)" "sf_expect 41 r1 = Inr ((), r2)"
    "sf_params r2 = Inr (ps, [])" by (auto simp: parseSignatureInputMember_def split: if_splits)
  obtain a where "raw = a @ r0" "one_line a" using takesD [OF takes_expect p(1)] by auto
  moreover obtain b where "r0 = b @ skipSp r0" "one_line b" using skipSp_split by blast
  moreover obtain d where "skipSp r0 = d @ r1" "one_line d" using inner_components_line [OF p(2)] by blast
  moreover obtain e where "r1 = e @ r2" "one_line e" using takesD [OF takes_expect p(3)] by auto
  moreover obtain f where "r2 = f" "one_line f" using params_line [OF p(4)] by auto
  ultimately have "raw = a @ b @ d @ e @ f" "one_line (a @ b @ d @ e @ f)" by (metis, simp)
  then show ?thesis by simp
qed

section \<open>Reading back what is written\<close>

lemma base64_back: "base64ToBytes (base64_encode bs) = Some bs"
proof -
  obtain core k where c: "base64_encode bs = core @ replicate k 61" "\<forall>c \<in> set core. b64_plain c" "k \<le> 2" using base64_core [of bs] by blast
  have t: "takeWhile std64_char (core @ replicate k 61) = core"
    using c(2) by (subst takeWhile_append2) (auto simp: std64_plain b64_plain_def takeWhile_eq_Nil_iff)
  have "base64_decode core = bs"
    using base64_roundtrip [of bs] unfolding c(1) by (simp add: base64_decode_def map_filter_append map_filter_pad)
  then show ?thesis using base64_length [of bs] c(3) unfolding c(1) by (simp add: base64ToBytes_def t Let_def)
qed

lemma chars_back: "\<forall>c \<in> set s. printable c \<Longrightarrow> sf_chars (concat (map sf_escape s) @ 34 # r) = Inr (s, r)"
  by (induction s) (auto simp: sf_escape_def)

lemma string_back: "sfString s = Inr q \<Longrightarrow> sf_string (q @ r) = Inr (s, r)"
  by (auto simp: sfString_def sf_string_def sf_expect_def chars_back split: if_splits)

definition valid_key :: "jstr \<Rightarrow> bool" where
  "valid_key k \<longleftrightarrow> sf_key k = Inr (k, [])"

lemma valid_keyE: "valid_key k \<Longrightarrow> (\<And>c t. k = c # t \<Longrightarrow> key_start c \<Longrightarrow> \<forall>x \<in> set t. key_char x \<Longrightarrow> thesis) \<Longrightarrow> thesis"
  by (auto simp: valid_key_def sf_key_def takeWhile_eq_all_conv split: list.splits if_splits)

text \<open>What may follow a key without being read as part of it.\<close>

definition key_stops :: "jstr \<Rightarrow> bool" where
  "key_stops r \<longleftrightarrow> (case r of [] \<Rightarrow> True | c # _ \<Rightarrow> \<not> key_char c)"

lemma takeWhile_stops: "\<forall>x \<in> set t. P x \<Longrightarrow> (case r of [] \<Rightarrow> True | c # _ \<Rightarrow> \<not> P c) \<Longrightarrow> takeWhile P (t @ r) = t \<and> dropWhile P (t @ r) = r"
  by (cases r) (auto simp: takeWhile_append2 dropWhile_append2)

lemma key_back: "valid_key k \<Longrightarrow> key_stops r \<Longrightarrow> sf_key (k @ r) = Inr (k, r)"
  by (erule valid_keyE) (use takeWhile_stops [of _ key_char r] in \<open>auto simp: sf_key_def key_stops_def\<close>)

lemma key_valid: "sf_key s = Inr (k, r) \<Longrightarrow> valid_key k"
  by (auto simp: sf_key_def valid_key_def takeWhile_eq_all_conv dropWhile_eq_Nil_conv dest: set_takeWhileD split: list.splits if_splits)

lemma key_not_space: "valid_key k \<Longrightarrow> skipSp (k @ r) = k @ r"
  by (erule valid_keyE) (auto simp: skipSp_def key_start_def lower_char_def)

text \<open>Parameters as the serialisers write them, and what follows them.\<close>

definition param_stops :: "jstr \<Rightarrow> bool" where
  "param_stops r \<longleftrightarrow> (case r of [] \<Rightarrow> True | c # _ \<Rightarrow> c \<in> {59, 32, 41})"

lemma param_stops_key: "param_stops r \<Longrightarrow> key_stops r"
  by (auto simp: param_stops_def key_stops_def key_char_def lower_char_def digit_char_def split: list.splits)

fun written_param :: "jstr \<times> sf_item \<Rightarrow> jstr \<Rightarrow> bool" where
  "written_param (k, SfBool b) t \<longleftrightarrow> b \<and> valid_key k \<and> t = 59 # k"
| "written_param (k, SfStr v) t \<longleftrightarrow> valid_key k \<and> (\<exists>q. sfString v = Inr q \<and> t = 59 # k @ 61 # q)"
| "written_param (k, SfInt n) t \<longleftrightarrow> valid_key k \<and> 0 \<le> n \<and> n < 10 ^ 15 \<and> t = 59 # k @ 61 # show_int n"
| "written_param (k, _) t \<longleftrightarrow> False"

lemma number_back:
  assumes "0 \<le> n" "n < 10 ^ 15" "param_stops r"
  shows "bareItem (show_int n @ r) = Inr (SfInt n, r)"
proof -
  let ?d = "show_nat (nat n)"
  have s: "show_int n = ?d" using assms(1) by (simp add: show_int_def)
  have dig: "\<forall>c \<in> set ?d. digit_char c" by (rule show_nat_digits)
  have len: "length ?d \<le> 15" using assms(1,2) by (intro length_show_nat) auto
  obtain c u where cu: "?d = c # u" using show_nat_nonempty [of "nat n"] by (cases ?d) auto
  then have c: "digit_char c" using dig by simp
  have stop: "case take (15 - length ?d) r of [] \<Rightarrow> True | c # _ \<Rightarrow> \<not> digit_char c"
    using assms(3) by (cases r; cases "15 - length ?d") (auto simp: param_stops_def digit_char_def)
  have "sf_digits (?d @ r) = ?d"
    using takeWhile_stops [OF dig stop] len by (simp add: sf_digits_def)
  moreover have "take 1 (?d @ r) \<noteq> [45]" using c cu by (auto simp: digit_char_def)
  moreover have "take 1 r \<noteq> [46]" using assms(3) by (cases r) (auto simp: param_stops_def)
  moreover have "int (read_nat ?d 0) = n" using assms(1) by (simp add: read_show_nat)
  ultimately have "sf_number (?d @ r) = Some (Inr (SfInt n, r))"
    using cu by (simp add: sf_number_def Let_def del: read_nat.simps)
  moreover have "c \<noteq> 34" "c \<noteq> 58" "c \<noteq> 63" using c by (auto simp: digit_char_def)
  ultimately show ?thesis unfolding s using cu by (simp add: bareItem_def)
qed

lemma param_back:
  assumes "written_param kv t" "param_stops r"
  shows "\<exists>u. t = 59 # u \<and> sf_param (u @ r) = Inr (kv, r)"
proof -
  obtain k v where kv: "kv = (k, v)" by fastforce
  have stop61: "key_stops (61 # x)" for x by (simp add: key_stops_def key_char_def lower_char_def digit_char_def)
  show ?thesis
  proof (cases v)
    case (SfBool b)
    then have b: "b" "valid_key k" "t = 59 # k" using assms(1) kv by auto
    have "sf_key (k @ r) = Inr (k, r)" by (rule key_back [OF b(2) param_stops_key [OF assms(2)]])
    then have "sf_param (k @ r) = Inr ((k, SfBool True), r)"
      using assms(2) by (auto simp: sf_param_def key_not_space [OF b(2)] param_stops_def split: list.splits)
    then show ?thesis using b kv SfBool by simp
  next
    case (SfStr w)
    then obtain q where q: "valid_key k" "sfString w = Inr q" "t = 59 # k @ 61 # q" using assms(1) kv by auto
    obtain x where x: "q = 34 # x" using q(2) by (auto simp: sfString_def split: if_splits)
    have "bareItem (q @ r) = Inr (SfStr w, r)" using string_back [OF q(2), of r] x by (simp add: bareItem_def)
    then have "sf_param (k @ 61 # q @ r) = Inr ((k, SfStr w), r)"
      using key_back [OF q(1) stop61] by (simp add: sf_param_def key_not_space [OF q(1)])
    then show ?thesis using q(3) kv SfStr by simp
  next
    case (SfInt n)
    then have q: "valid_key k" "0 \<le> n" "n < 10 ^ 15" "t = 59 # k @ 61 # show_int n" using assms(1) kv by auto
    have "sf_param (k @ 61 # show_int n @ r) = Inr ((k, SfInt n), r)"
      using key_back [OF q(1) stop61] number_back [OF q(2,3) assms(2)] by (simp add: sf_param_def key_not_space [OF q(1)])
    then show ?thesis using q(4) kv SfInt by simp
  qed (use assms(1) kv in auto)
qed

lemma params_back:
  assumes "list_all2 written_param ps ts" "param_stops r" "take 1 r \<noteq> [59]"
  shows "sf_params (concat ts @ r) = Inr (ps, r)"
  using assms(1)
proof (induction ps ts rule: list_all2_induct)
  case Nil
  show ?case using assms(3) by (cases r) (auto simp: sf_params_stop)
next
  case (Cons p ps t ts)
  have "param_stops (concat ts @ r)"
    using Cons.hyps(2) assms(2)
    by (cases ts) (auto simp: param_stops_def list_all2_Cons2 elim!: written_param.elims)
  from param_back [OF Cons.hyps(1) this] obtain u where "t = 59 # u" "sf_param (u @ concat ts @ r) = Inr (p, concat ts @ r)" by blast
  with Cons.IH show ?case by (simp add: sf_params_more)
qed

text \<open>Component identifiers in canonical form.\<close>

definition canonical_component :: "jstr \<Rightarrow> bool" where
  "canonical_component ident \<longleftrightarrow> (\<exists>name ps n ts. sfString name = Inr n \<and> list_all2 written_param ps ts
     \<and> each component_param ps = Inr ts \<and> ident = n @ concat ts)"

lemma sf_params_valid: "sf_params s = Inr (ps, r) \<Longrightarrow> \<forall>(k, v) \<in> set ps. valid_key k"
proof (induction s arbitrary: ps rule: sf_params.induct)
  case (1 s)
  show ?case
  proof (cases "\<exists>u. s = 59 # u")
    case False
    then have "ps = []" using "1.prems" by (cases s) (auto simp: sf_params_stop)
    then show ?thesis by simp
  next
    case True
    then obtain u where s: "s = 59 # u" by blast
    with "1.prems" obtain x ps' where x: "sf_param u = Inr x" "sf_params (snd x) = Inr (ps', r)" "ps = fst x # ps'" by (auto simp: sf_params_more)
    obtain k w where k: "sf_key (skipSp u) = Inr (k, w)" "(case w of [] \<Rightarrow> Inr ((k, SfBool True), w)
      | c # r' \<Rightarrow> if c = 61 then and_then (bareItem r') (\<lambda>(v, r2). Inr ((k, v), r2)) else Inr ((k, SfBool True), w)) = Inr x"
      using x(1) by (auto simp: sf_param_def)
    from k(2) have "fst (fst x) = k" by (cases w) (auto split: if_splits)
    with "1.IH" [OF s refl x(1,2)] key_valid [OF k(1)] x(3) show ?thesis by (cases x; cases "fst x") auto
  qed
qed

lemma component_written:
  "each component_param ps = Inr ts \<Longrightarrow> \<forall>(k, v) \<in> set ps. valid_key k \<Longrightarrow> list_all2 written_param ps ts"
proof (induction ps arbitrary: ts)
  case (Cons p ps)
  obtain k v where "p = (k, v)" by fastforce
  with Cons show ?case by (cases v) (auto split: if_splits)
qed simp

lemma normalized_canonical:
  assumes "normalizeComponentId x = Inr ident"
  shows "canonical_component ident"
proof -
  obtain r ps r2 name where n: "sf_params r = Inr (ps, r2)" "serializeComponent name ps = Inr ident"
    using assms by (auto simp: normalizeComponentId_def Let_def split: if_splits)
  then obtain n ts where t: "sfString name = Inr n" "each component_param ps = Inr ts" "ident = n @ concat ts"
    by (auto simp: serializeComponent_def)
  with component_written [OF t(2) sf_params_valid [OF n(1)]] show ?thesis by (auto simp: canonical_component_def)
qed

lemma component_read:
  assumes "canonical_component ident" "param_stops r" "take 1 r \<noteq> [59]"
  shows "\<exists>name ps r1. sf_string (ident @ r) = Inr (name, r1) \<and> sf_params r1 = Inr (ps, r) \<and> serializeComponent name ps = Inr ident"
proof -
  obtain name ps n ts where c: "sfString name = Inr n" "list_all2 written_param ps ts" "each component_param ps = Inr ts" "ident = n @ concat ts"
    using assms(1) by (auto simp: canonical_component_def)
  then show ?thesis
    using string_back [OF c(1), of "concat ts @ r"] params_back [OF c(2) assms(2,3)]
    by (intro exI [of _ name] exI [of _ ps] exI [of _ "concat ts @ r"]) (simp add: serializeComponent_def)
qed

lemma canonical_start: "canonical_component ident \<Longrightarrow> \<exists>u. ident = 34 # u"
  by (auto simp: canonical_component_def sfString_def split: if_splits)

lemma inner_back:
  "\<forall>i \<in> set ids. canonical_component i \<Longrightarrow> n + length ids \<le> MAX_COMPONENTS \<Longrightarrow> inner_components n (join_with [32] ids @ 41 # r) = Inr (ids, 41 # r)"
proof (induction ids arbitrary: n)
  case Nil
  show ?case by (simp add: inner_components.simps)
next
  case (Cons i ids)
  define rest where "rest = (if ids = [] then 41 # r else 32 # join_with [32] ids @ 41 # r)"
  have s: "join_with [32] (i # ids) @ 41 # r = i @ rest" by (cases ids) (simp_all add: rest_def)
  obtain u where u: "i = 34 # u" using canonical_start Cons.prems(1) by fastforce
  have "param_stops rest" "take 1 rest \<noteq> [59]" by (simp_all add: rest_def param_stops_def)
  from component_read [OF _ this, of i] Cons.prems(1) obtain name ps r1
    where c: "sf_string (i @ rest) = Inr (name, r1)" "sf_params r1 = Inr (ps, rest)" "serializeComponent name ps = Inr i" by auto
  have "skipSp rest = join_with [32] ids @ 41 # r"
  proof (cases ids)
    case (Cons j js)
    then obtain w where "j = 34 # w" using canonical_start \<open>\<forall>i \<in> set (i # ids). canonical_component i\<close> by fastforce
    then show ?thesis using Cons by (cases js) (simp_all add: rest_def skipSp_def)
  qed (simp add: rest_def skipSp_def)
  moreover have "take 1 rest = [32] \<or> take 1 rest = [41]" by (simp add: rest_def)
  moreover have "inner_components (Suc n) (join_with [32] ids @ 41 # r) = Inr (ids, 41 # r)" using Cons by simp
  ultimately have "inner_components n (i @ rest) = Inr (i # ids, 41 # r)"
    using c u Cons.prems(2) by (subst inner_components.simps) simp
  then show ?case unfolding s .
qed

text \<open>The parameter list a serialised record is read back from.\<close>

definition params_list :: "sig_params \<Rightarrow> sf_params" where
  "params_list p =
    map (Pair (js ''created'')) (case sp_created p of None \<Rightarrow> [] | Some n \<Rightarrow> [SfInt n])
    @ map (Pair (js ''keyid'')) (case sp_keyid p of None \<Rightarrow> [] | Some t \<Rightarrow> [SfStr t])
    @ map (Pair (js ''alg'')) (case sp_alg p of None \<Rightarrow> [] | Some t \<Rightarrow> [SfStr t])
    @ map (Pair (js ''expires'')) (case sp_expires p of None \<Rightarrow> [] | Some n \<Rightarrow> [SfInt n])
    @ map (Pair (js ''nonce'')) (case sp_nonce p of None \<Rightarrow> [] | Some t \<Rightarrow> [SfStr t])
    @ map (Pair (js ''tag'')) (case sp_tag p of None \<Rightarrow> [] | Some t \<Rightarrow> [SfStr t])"

definition time_param_ok :: "int option \<Rightarrow> bool" where
  "time_param_ok v \<longleftrightarrow> (case v of None \<Rightarrow> True | Some n \<Rightarrow> 0 \<le> n \<and> n < 10 ^ 15)"

lemma param_names_valid: "valid_key (js ''created'')" "valid_key (js ''keyid'')" "valid_key (js ''alg'')" "valid_key (js ''expires'')"
  "valid_key (js ''nonce'')" "valid_key (js ''tag'')"
  by (simp_all add: valid_key_def sf_key_def ascii_eval key_start_def key_char_def lower_char_def)

lemma num_written: "num_param name v = Inr t \<Longrightarrow> time_param_ok v \<Longrightarrow> valid_key (js name) \<Longrightarrow>
  \<exists>ts. list_all2 written_param (map (Pair (js name)) (case v of None \<Rightarrow> [] | Some n \<Rightarrow> [SfInt n])) ts \<and> concat ts = t"
  by (cases v) (auto simp: num_param_def time_param_ok_def intro!: exI [of _ "[t]"])

lemma text_written: "text_param name v = Inr t \<Longrightarrow> valid_key (js name) \<Longrightarrow>
  \<exists>ts. list_all2 written_param (map (Pair (js name)) (case v of None \<Rightarrow> [] | Some n \<Rightarrow> [SfStr n])) ts \<and> concat ts = t"
  by (cases v) (auto simp: text_param_def intro!: exI [of _ "[t]"])

lemma written_append:
  "\<exists>ts. list_all2 written_param ps ts \<and> concat ts = a \<Longrightarrow> \<exists>ts. list_all2 written_param qs ts \<and> concat ts = b \<Longrightarrow>
   \<exists>ts. list_all2 written_param (ps @ qs) ts \<and> concat ts = a @ b"
  by (metis concat_append list_all2_appendI)

lemma params_written:
  assumes "serializeSignatureParams ids p = Inr sp" "time_param_ok (sp_created p)" "time_param_ok (sp_expires p)"
  shows "\<exists>ts. list_all2 written_param (params_list p) ts \<and> sp = 40 # join_with [32] ids @ 41 # concat ts"
proof -
  obtain a b c d e f where t: "num_param ''created'' (sp_created p) = Inr a" "text_param ''keyid'' (sp_keyid p) = Inr b" "text_param ''alg'' (sp_alg p) = Inr c"
    "num_param ''expires'' (sp_expires p) = Inr d" "text_param ''nonce'' (sp_nonce p) = Inr e" "text_param ''tag'' (sp_tag p) = Inr f"
    "sp = 40 # join_with [32] ids @ 41 # a @ b @ c @ d @ e @ f"
    using assms(1) by (auto simp: serializeSignatureParams_def)
  have "\<exists>ts. list_all2 written_param (params_list p) ts \<and> concat ts = a @ b @ c @ d @ e @ f"
    unfolding params_list_def
    by (intro written_append num_written [OF t(1)] text_written [OF t(2)] text_written [OF t(3)] num_written [OF t(4)] text_written [OF t(5)]
        text_written [OF t(6)] assms(2,3) param_names_valid)
  then show ?thesis using t(7) by auto
qed

lemma read_params_list:
  assumes "time_param_ok (sp_created p)" "time_param_ok (sp_expires p)"
  shows "read_params [] (params_list p) no_params = Inr p"
proof -
  have safe: "isSafeInteger (Fin n)" if "0 \<le> n" "n < 10 ^ 15" for n using that by (simp add: isSafeInteger_def max_safe_def)
  obtain c x n a k t where p: "p = \<lparr>sp_created = c, sp_expires = x, sp_nonce = n, sp_alg = a, sp_keyid = k, sp_tag = t\<rparr>" by (cases p)
  show ?thesis
    using assms safe unfolding p
    by (cases c; cases x; cases n; cases a; cases k; cases t) (simp_all add: params_list_def no_params_def time_param_ok_def)
qed

lemma member_back:
  assumes "serializeSignatureParams ids p = Inr sp" "time_param_ok (sp_created p)" "time_param_ok (sp_expires p)"
    and "\<forall>i \<in> set ids. canonical_component i" "length ids \<le> MAX_COMPONENTS"
  shows "parseSignatureInputMember sp = Inr (ids, p)"
proof -
  obtain ts where ts: "list_all2 written_param (params_list p) ts" "sp = 40 # join_with [32] ids @ 41 # concat ts"
    using params_written [OF assms(1-3)] by blast
  have "skipSp (join_with [32] ids @ 41 # concat ts) = join_with [32] ids @ 41 # concat ts"
  proof (cases ids)
    case (Cons i js)
    then obtain u where "i = 34 # u" using canonical_start assms(4) by fastforce
    then show ?thesis using Cons by (cases js) (simp_all add: skipSp_def)
  qed (simp add: skipSp_def)
  moreover have "inner_components 0 (join_with [32] ids @ 41 # concat ts) = Inr (ids, 41 # concat ts)"
    using inner_back [OF assms(4), of 0] assms(5) by simp
  moreover have "sf_params (concat ts) = Inr (params_list p, [])" using params_back [OF ts(1), of "[]"] by (simp add: param_stops_def)
  ultimately show ?thesis unfolding ts(2) using read_params_list [OF assms(2,3)] by (simp add: parseSignatureInputMember_def sf_expect_def)
qed

text \<open>Texts the top-level splitter passes over.\<close>

definition neutral :: "jstr \<Rightarrow> bool" where
  "neutral t \<longleftrightarrow> (\<forall>d cur s. split_scan 44 Plain d cur (t @ s) = split_scan 44 Plain d (rev t @ cur) s)"

lemma neutral_Nil [simp]: "neutral []"
  by (simp add: neutral_def)

lemma neutral_append: "neutral a \<Longrightarrow> neutral b \<Longrightarrow> neutral (a @ b)"
  by (simp add: neutral_def)

lemma neutral_Cons: "c \<notin> {34, 40, 41, 58, 44} \<Longrightarrow> neutral t \<Longrightarrow> neutral (c # t)"
  by (simp add: neutral_def)

lemma neutral_plain: "\<forall>c \<in> set t. c \<notin> {34, 40, 41, 58, 44} \<Longrightarrow> neutral t"
  by (induction t) (auto intro!: neutral_Cons)

lemma neutral_paren: "neutral a \<Longrightarrow> neutral (40 # a @ [41])"
  by (simp add: neutral_def)

lemma neutral_concat: "\<forall>t \<in> set ts. neutral t \<Longrightarrow> neutral (concat ts)"
  by (induction ts) (auto intro: neutral_append)

lemma neutral_quoted: "sfString s = Inr q \<Longrightarrow> neutral q"
proof -
  have e: "split_scan 44 InStr d cur (concat (map sf_escape s) @ 34 # r) = split_scan 44 Plain d (34 # rev (concat (map sf_escape s)) @ cur) r" for d cur r
  proof (induction s arbitrary: cur)
    case (Cons c s)
    then show ?case by (auto simp: sf_escape_def)
  qed simp
  assume "sfString s = Inr q"
  then have "q = 34 # concat (map sf_escape s) @ [34]" by (auto simp: sfString_def split: if_splits)
  then show ?thesis by (simp add: neutral_def e)
qed

lemma neutral_key: "valid_key k \<Longrightarrow> neutral k"
  by (erule valid_keyE, rule neutral_plain) (auto simp: key_start_def key_char_def lower_char_def digit_char_def)

lemma neutral_param: "written_param p t \<Longrightarrow> neutral t"
proof -
  have d: "digit_char c \<Longrightarrow> c \<notin> {34, 40, 41, 58, 44}" for c by (auto simp: digit_char_def)
  have i: "0 \<le> n \<Longrightarrow> neutral (show_int n)" for n
    by (rule neutral_plain) (use show_nat_digits [of "nat n"] d in \<open>auto simp: show_int_def\<close>)
  show "written_param p t \<Longrightarrow> neutral t"
    by (erule written_param.elims(2)) (auto intro!: neutral_Cons neutral_append i dest: neutral_quoted neutral_key)
qed

lemma neutral_params: "list_all2 written_param ps ts \<Longrightarrow> neutral (concat ts)"
  by (induction ps ts rule: list_all2_induct) (auto intro: neutral_append neutral_param)

lemma neutral_component: "canonical_component i \<Longrightarrow> neutral i"
  unfolding canonical_component_def using neutral_quoted neutral_params neutral_append by blast

lemma neutral_join: "\<forall>i \<in> set ids. neutral i \<Longrightarrow> neutral (join_with [32] ids)"
  by (induction ids rule: induct_list012) (auto intro!: neutral_append neutral_Cons)

lemma split_neutral: "neutral t \<Longrightarrow> splitTopLevel t 44 = [t]"
  unfolding splitTopLevel_def neutral_def by (metis append_Nil2 option.simps(5) rev_rev_ident split_mode.distinct(5) split_scan.simps(1))

lemma neutral_member:
  assumes "serializeSignatureParams ids p = Inr sp" "time_param_ok (sp_created p)" "time_param_ok (sp_expires p)" "\<forall>i \<in> set ids. canonical_component i"
  shows "neutral sp"
proof -
  obtain ts where ts: "list_all2 written_param (params_list p) ts" "sp = (40 # join_with [32] ids @ [41]) @ concat ts"
    using params_written [OF assms(1-3)] by auto
  have "neutral (40 # join_with [32] ids @ [41])"
    using assms(4) neutral_component by (intro neutral_paren neutral_join) blast
  then show ?thesis unfolding ts(2) by (rule neutral_append [OF _ neutral_params [OF ts(1)]])
qed

text \<open>A byte sequence passes too.\<close>

lemma neutral_bytes: "58 \<notin> set b \<Longrightarrow> neutral (58 # b @ [58])"
proof -
  assume a: "58 \<notin> set b"
  have "split_scan 44 InBytes d cur (b @ 58 # r) = split_scan 44 Plain d (58 # rev b @ cur) r" for d cur r
    using a by (induction b arbitrary: cur) auto
  then show ?thesis by (simp add: neutral_def)
qed

end
