(* ===== verification/HttpSignature.thy ===== *)
theory HttpSignature
  imports StructuredFields GatewayPath HttpBinding
begin

text \<open>
  \<open>src/httpMessageSignatures.ts\<close> (RFC 9421, RFC 9530): content digests, parsing of the
  signature fields, component resolution, the signature base, signing and verifying.
  WebCrypto is the \<open>crypto\<close> parameter and a function for SHA-512; the clock is an argument.
  Errors thrown as \<open>HttpSignatureError\<close> are values; an outer \<open>None\<close> is any throw that
  leaves the exported function.
\<close>

section \<open>Fields\<close>

text \<open>
  \<open>toLowerCase\<close> on ASCII and on the one other character whose lower case is an ASCII
  letter; the rest of Unicode is left alone, which matters to no comparison made here.
\<close>

definition lower_unit :: "code_unit \<Rightarrow> code_unit" where
  "lower_unit c = (if upper_char c then c + 32 else if c = 0x212A then 107 else c)"

definition toLowerCase :: "jstr \<Rightarrow> jstr" where
  "toLowerCase s = map lower_unit s"

definition getField :: "http_headers \<Rightarrow> jstr \<Rightarrow> jstr list" where
  "getField hs name =
    concat (map (\<lambda>(k, v). if toLowerCase k \<noteq> toLowerCase name then [] else (case v of Single x \<Rightarrow> [x] | Multi xs \<Rightarrow> xs)) hs)"

record http_message =
  msg_method :: "jstr option"
  msg_url :: "jstr option"
  msg_status :: "int option"
  msg_headers :: http_headers

section \<open>Content-Digest\<close>

datatype digest_alg = Sha256 | Sha512

fun digest_name :: "digest_alg \<Rightarrow> jstr" where
  "digest_name Sha256 = js ''sha-256''"
| "digest_name Sha512 = js ''sha-512''"

fun digest :: "crypto \<Rightarrow> (bytes \<Rightarrow> bytes) \<Rightarrow> digest_alg \<Rightarrow> bytes \<Rightarrow> bytes" where
  "digest C sha512 Sha256 bs = sha256_raw C bs"
| "digest C sha512 Sha512 bs = sha512 bs"

definition createContentDigest :: "crypto \<Rightarrow> (bytes \<Rightarrow> bytes) \<Rightarrow> digest_alg \<Rightarrow> bytes \<Rightarrow> jstr" where
  "createContentDigest C sha512 a bs = digest_name a @ js ''=:'' @ base64_encode (digest C sha512 a bs) @ js '':''"

definition constantTimeEqual :: "bytes \<Rightarrow> bytes \<Rightarrow> bool" where
  "constantTimeEqual a b \<longleftrightarrow> length a = length b \<and> foldl (\<lambda>d (x, y). d OR (x XOR y)) 0 (zip a b) = 0"

text \<open>One member of the header: the algorithm's name and the text between the colons.\<close>

definition digest_member :: "jstr \<Rightarrow> (jstr \<times> jstr) option" where
  "digest_member m =
    (let t = dropWhile ws_char m in
     case t of
       [] \<Rightarrow> None
     | c # r \<Rightarrow>
         if \<not> lower_char c then None
         else let r1 = dropWhile key_char r; b = takeWhile (\<lambda>x. std64_char x \<or> x = 61) (drop 2 r1); r2 = drop (length b) (drop 2 r1) in
           if take 2 r1 \<noteq> js ''=:'' \<or> take 1 r2 \<noteq> js '':'' \<or> \<not> (\<forall>x \<in> set (drop 1 r2). ws_char x) then None
           else Some (c # takeWhile key_char r, b))"

text \<open>
  \<open>alg in DIGEST_HASH\<close> is also true of a member of \<open>Object.prototype\<close>, of which only
  \<open>constructor\<close> fits the pattern; its digest throws.
\<close>

fun digest_loop :: "crypto \<Rightarrow> (bytes \<Rightarrow> bytes) \<Rightarrow> bytes \<Rightarrow> bool \<Rightarrow> jstr list \<Rightarrow> bool option" where
  "digest_loop C sha512 bs saw [] = Some saw"
| "digest_loop C sha512 bs saw (m # ms) =
    (case digest_member m of
       None \<Rightarrow> Some False
     | Some (name, b) \<Rightarrow>
         if name \<notin> {js ''sha-256'', js ''sha-512'', js ''constructor''} then digest_loop C sha512 bs saw ms
         else (case base64ToBytes b of
           None \<Rightarrow> Some False
         | Some claimed \<Rightarrow>
             if name = js ''constructor'' then None
             else if \<not> constantTimeEqual (digest C sha512 (if name = js ''sha-256'' then Sha256 else Sha512) bs) claimed then Some False
             else digest_loop C sha512 bs True ms))"

definition verifyContentDigest :: "crypto \<Rightarrow> (bytes \<Rightarrow> bytes) \<Rightarrow> jstr \<Rightarrow> bytes \<Rightarrow> bool option" where
  "verifyContentDigest C sha512 headerValue bs = digest_loop C sha512 bs False (splitTopLevel headerValue 44)"

section \<open>Parsing the signature fields\<close>

record parsed_signature =
  ps_label :: jstr
  ps_components :: "jstr list"
  ps_params :: sig_params
  ps_value :: jstr
  ps_signature :: bytes

text \<open>Label and value of a member; the value may be anything.\<close>

definition labelled :: "jstr \<Rightarrow> (jstr \<times> jstr) option" where
  "labelled part = (case sf_key (dropWhile ws_char part) of Inr (k, c # r) \<Rightarrow> if c = 61 then Some (k, r) else None | _ \<Rightarrow> None)"

definition signature_member :: "jstr \<Rightarrow> (jstr \<times> jstr) option" where
  "signature_member part =
    (case labelled part of
       None \<Rightarrow> None
     | Some (k, r) \<Rightarrow>
         let b = takeWhile (\<lambda>x. std64_char x \<or> x = 61) (drop 1 r); r2 = drop (length b) (drop 1 r) in
         if take 1 r \<noteq> js '':'' \<or> take 1 r2 \<noteq> js '':'' \<or> \<not> (\<forall>x \<in> set (drop 1 r2). ws_char x) then None else Some (k, b))"

fun input_members :: "(jstr, jstr) jsmap \<Rightarrow> jstr list \<Rightarrow> sig_error + (jstr, jstr) jsmap" where
  "input_members m [] = Inr m"
| "input_members m (part # parts) =
    (case labelled part of
       None \<Rightarrow> Inl MalformedField
     | Some (k, v) \<Rightarrow> if mhas m k then Inl DuplicateLabel else input_members (mset_key m k (trim v)) parts)"

fun signature_members :: "(jstr, bytes) jsmap \<Rightarrow> jstr list \<Rightarrow> sig_error + (jstr, bytes) jsmap" where
  "signature_members m [] = Inr m"
| "signature_members m (part # parts) =
    (case signature_member part of
       None \<Rightarrow> Inl MalformedField
     | Some (k, b) \<Rightarrow>
         (case base64ToBytes b of
            None \<Rightarrow> Inl MalformedField
          | Some bs \<Rightarrow> if mhas m k then Inl DuplicateLabel else signature_members (mset_key m k bs) parts))"

definition combine_members :: "(jstr, bytes) jsmap \<Rightarrow> jstr \<times> jstr \<Rightarrow> sig_error + parsed_signature" where
  "combine_members sigs lr =
    (case mget sigs (fst lr) of
       None \<Rightarrow> Inl NoSignatureForLabel
     | Some bs \<Rightarrow> and_then (parseSignatureInputMember (snd lr)) (\<lambda>(ids, p).
         Inr \<lparr>ps_label = fst lr, ps_components = ids, ps_params = p, ps_value = snd lr, ps_signature = bs\<rparr>))"

definition parseSignatures :: "http_headers \<Rightarrow> sig_error + parsed_signature list" where
  "parseSignatures hs =
    (let inputs = join_with (js '', '') (getField hs (js ''signature-input''));
         sigs = join_with (js '', '') (getField hs (js ''signature''));
         parts = splitTopLevel inputs 44
     in if inputs = [] \<or> sigs = [] then Inl NoSignature
        else if MAX_FIELD_BYTES < length inputs \<or> MAX_FIELD_BYTES < length sigs then Inl FieldTooLarge
        else if MAX_MEMBERS < length parts then Inl TooManySignatures
        else and_then (input_members [] parts) (\<lambda>ins. and_then (signature_members [] (splitTopLevel sigs 44)) (\<lambda>sm. each (combine_members sm) ins)))"

section \<open>Components\<close>

definition scheme_char :: "code_unit \<Rightarrow> bool" where
  "scheme_char c \<longleftrightarrow> lower_char c \<or> upper_char c \<or> digit_char c \<or> c \<in> {43, 46, 45}"

record url_parts =
  up_scheme :: jstr
  up_authority :: jstr
  up_path :: jstr
  up_query :: "jstr option"

definition strip_port :: "jstr \<Rightarrow> jstr \<Rightarrow> jstr" where
  "strip_port scheme a =
    (let port = (if scheme = js ''https'' then js '':443'' else if scheme = js ''http'' then js '':80'' else []) in
     if port \<noteq> [] \<and> endsWith a port then take (length a - length port) a else a)"

definition parseUrl :: "jstr \<Rightarrow> sig_error + url_parts" where
  "parseUrl url =
    (let sch = takeWhile scheme_char url; r0 = drop (length sch) url;
         auth = takeWhile (\<lambda>c. c \<notin> {47, 63, 35}) (drop 3 r0); r1 = dropWhile (\<lambda>c. c \<notin> {47, 63, 35}) (drop 3 r0);
         pth = takeWhile (\<lambda>c. c \<notin> {63, 35}) r1; r2 = dropWhile (\<lambda>c. c \<notin> {63, 35}) r1;
         query = (if take 1 r2 = [63] then Some (takeWhile (\<lambda>c. c \<noteq> 35) r2) else None);
         fragment = dropWhile (\<lambda>c. c \<noteq> 35) r2;
         authority = toLowerCase auth
     in if sch = [] \<or> digit_char (hd sch) \<or> hd sch \<in> {43, 46, 45} \<or> take 3 r0 \<noteq> js ''://'' then Inl InvalidUrl
        else if \<exists>c \<in> set fragment. line_terminator c then Inl InvalidUrl
        else if 64 \<in> set authority then Inl InvalidUrl
        else Inr \<lparr>up_scheme = toLowerCase sch, up_authority = strip_port (toLowerCase sch) authority,
                  up_path = (if pth = [] then [47] else pth), up_query = query\<rparr>)"

definition form_char :: "code_unit \<Rightarrow> bool" where
  "form_char c \<longleftrightarrow> lower_char c \<or> upper_char c \<or> digit_char c \<or> c \<in> {42, 45, 46, 95}"

definition upper_hex :: "nat \<Rightarrow> code_unit" where
  "upper_hex n = of_nat (if n < 10 then 48 + n else 55 + n)"

definition formEncode :: "jstr \<Rightarrow> jstr" where
  "formEncode decoded = concat (map (\<lambda>b. let n = unat b; c = of_nat n in
     if form_char c then [c] else [37, upper_hex (n div 16), upper_hex (n mod 16)]) (utf8Encode decoded))"

definition formDecode :: "jstr \<Rightarrow> sig_error + jstr" where
  "formDecode s = (case decodeURIComponent (replace_char 43 32 s) of None \<Rightarrow> Inl InvalidQueryEncoding | Some t \<Rightarrow> Inr t)"

text \<open>The values of the parameter, in order.\<close>

fun query_values :: "jstr \<Rightarrow> jstr list \<Rightarrow> sig_error + jstr list" where
  "query_values wanted [] = Inr []"
| "query_values wanted (p # ps) =
    and_then (formDecode (takeWhile (\<lambda>c. c \<noteq> 61) p)) (\<lambda>k.
      if formEncode k \<noteq> wanted then query_values wanted ps
      else and_then (formDecode (drop 1 (dropWhile (\<lambda>c. c \<noteq> 61) p))) (\<lambda>v. and_then (query_values wanted ps) (\<lambda>vs. Inr (formEncode v # vs))))"

definition queryParam :: "jstr option \<Rightarrow> jstr \<Rightarrow> sig_error + jstr" where
  "queryParam query wanted =
    (let raw = (case query of None \<Rightarrow> [] | Some q \<Rightarrow> drop 1 q) in
     and_then (if raw = [] then Inr [] else query_values wanted (split_on 38 raw)) (\<lambda>vs.
       (case vs of [] \<Rightarrow> Inl ComponentNotFound | [v] \<Rightarrow> Inr v | _ \<Rightarrow> Inl AmbiguousQueryParameter)))"

definition fieldValue :: "http_headers \<Rightarrow> jstr \<Rightarrow> sig_error + jstr" where
  "fieldValue hs name =
    (let vs = getField hs name in
     if vs = [] then Inl ComponentNotFound
     else and_then (each (\<lambda>v. if 13 \<in> set v \<or> 10 \<in> set v then Inl InvalidFieldValue else Inr (trim v)) vs)
       (\<lambda>cs. Inr (join_with (js '', '') cs)))"

record sig_context =
  cx_message :: http_message
  cx_request :: "http_message option"
  cx_isResponse :: bool

text \<open>The parameters of a component: \<open>req\<close>, \<open>name\<close> and \<open>key\<close>.\<close>

fun component_opts :: "sf_params \<Rightarrow> bool \<times> jstr option \<times> jstr option \<Rightarrow> sig_error + (bool \<times> jstr option \<times> jstr option)" where
  "component_opts [] o' = Inr o'"
| "component_opts ((k, v) # ps) (req, nm, ky) =
    (if k = js ''req'' \<and> v = SfBool True then component_opts ps (True, nm, ky)
     else (case v of
       SfStr t \<Rightarrow>
         if k = js ''name'' then component_opts ps (req, Some t, ky)
         else if k = js ''key'' then component_opts ps (req, nm, Some t)
         else Inl UnsupportedParameter
     | _ \<Rightarrow> Inl UnsupportedParameter))"

definition url_component :: "jstr \<Rightarrow> jstr option \<Rightarrow> url_parts \<Rightarrow> sig_error + jstr" where
  "url_component name nm u =
    (if name = js ''@authority'' then Inr (up_authority u)
     else if name = js ''@scheme'' then Inr (up_scheme u)
     else if name = js ''@path'' then Inr (up_path u)
     else if name = js ''@query'' then Inr (case up_query u of None \<Rightarrow> js ''?'' | Some q \<Rightarrow> q)
     else if name = js ''@request-target'' then Inr (up_path u @ (case up_query u of None \<Rightarrow> [] | Some q \<Rightarrow> q))
     else if name = js ''@query-param'' then (case nm of None \<Rightarrow> Inl ComponentNotFound | Some n \<Rightarrow> queryParam (up_query u) n)
     else Inl UnknownDerivedComponent)"

definition derived_component :: "jstr \<Rightarrow> bool \<Rightarrow> jstr option \<Rightarrow> jstr option \<Rightarrow> http_message \<Rightarrow> sig_context \<Rightarrow> sig_error + jstr" where
  "derived_component name req nm ky target ctx =
    (if ky \<noteq> None then Inl UnsupportedParameter
     else if nm \<noteq> None \<and> name \<noteq> js ''@query-param'' then Inl UnsupportedParameter
     else if name = js ''@status'' then
       (if \<not> cx_isResponse ctx \<or> req then Inl ComponentNotApplicable
        else (case msg_status target of None \<Rightarrow> Inl ComponentNotFound | Some n \<Rightarrow> Inr (show_int n)))
     else if cx_isResponse ctx \<and> \<not> req then Inl ComponentNotApplicable
     else if name = js ''@method'' then
       (case msg_method target of None \<Rightarrow> Inl ComponentNotFound | Some m \<Rightarrow> if m = [] then Inl ComponentNotFound else Inr m)
     else (case msg_url target of
         None \<Rightarrow> Inl ComponentNotFound
       | Some url \<Rightarrow>
           if url = [] then Inl ComponentNotFound
           else if name = js ''@target-uri'' then Inr (takeWhile (\<lambda>c. c \<noteq> 35) url)
           else and_then (parseUrl url) (url_component name nm)))"

definition resolveComponent :: "jstr \<Rightarrow> sig_context \<Rightarrow> sig_error + jstr" where
  "resolveComponent ident ctx =
    and_then (sf_string ident) (\<lambda>(name, r). and_then (sf_params r) (\<lambda>(ps, _). and_then (component_opts ps (False, None, None)) (\<lambda>(req, nm, ky).
      if req \<and> \<not> cx_isResponse ctx then Inl ReqOnRequest
      else if req \<and> cx_request ctx = None then Inl ReqWithoutRequest
      else let target = (if req then the (cx_request ctx) else cx_message ctx) in
        if startsWith name [64] then derived_component name req nm ky target ctx
        else if nm \<noteq> None then Inl UnsupportedParameter
        else and_then (fieldValue (msg_headers target) name) (\<lambda>v. (case ky of None \<Rightarrow> Inr v | Some k \<Rightarrow> getDictionaryMember v k)))))"

section \<open>The signature base\<close>

fun base_lines :: "jstr list \<Rightarrow> jstr list \<Rightarrow> sig_context \<Rightarrow> sig_error + jstr" where
  "base_lines seen [] ctx = Inr []"
| "base_lines seen (ident # ids) ctx =
    (if ident \<in> set seen then Inl DuplicateComponent
     else and_then (resolveComponent ident ctx) (\<lambda>v.
       if 13 \<in> set v \<or> 10 \<in> set v then Inl InvalidComponentValue
       else and_then (base_lines (ident # seen) ids ctx) (\<lambda>rest. Inr (ident @ js '': '' @ v @ 10 # rest))))"

definition params_line_start :: jstr where
  "params_line_start = 34 # js ''@signature-params'' @ 34 # js '': ''"

definition buildSignatureBase :: "jstr list \<Rightarrow> jstr \<Rightarrow> sig_context \<Rightarrow> sig_error + jstr" where
  "buildSignatureBase ids sp ctx =
    and_then (base_lines [] ids ctx) (\<lambda>ls.
      let out = ls @ params_line_start @ sp in if \<exists>c \<in> set out. 127 < unat c then Inl NonAsciiBase else Inr out)"

definition context_of :: "http_message \<Rightarrow> http_message option \<Rightarrow> sig_context" where
  "context_of msg request = \<lparr>cx_message = msg, cx_request = request, cx_isResponse = msg_status msg \<noteq> None\<rparr>"

definition createSignatureBase :: "http_message \<Rightarrow> jstr list \<Rightarrow> sig_params \<Rightarrow> http_message option \<Rightarrow> sig_error + jstr" where
  "createSignatureBase msg ids p request =
    and_then (each normalizeComponentId ids) (\<lambda>ns. and_then (serializeSignatureParams ns p) (\<lambda>sp. buildSignatureBase ns sp (context_of msg request)))"

section \<open>Keys\<close>

text \<open>Secrets given as text are their UTF-8 bytes.\<close>

datatype signing_key = SignEd jstr | SignHmac bytes

datatype verification_key = VerifyEd jstr | VerifyHmac bytes

definition alg_ed :: jstr where
  "alg_ed = js ''ed25519''"

definition alg_hmac :: jstr where
  "alg_hmac = js ''hmac-sha256''"

fun signing_alg :: "signing_key \<Rightarrow> jstr" where
  "signing_alg (SignEd k) = alg_ed"
| "signing_alg (SignHmac s) = alg_hmac"

fun verification_alg :: "verification_key \<Rightarrow> jstr" where
  "verification_alg (VerifyEd k) = alg_ed"
| "verification_alg (VerifyHmac s) = alg_hmac"

definition url_to_base64 :: "jstr \<Rightarrow> jstr" where
  "url_to_base64 s = replace_char 95 47 (replace_char 45 43 s) @ replicate ((4 - length s mod 4) mod 4) 61"

definition key_bytes_of :: "jstr \<Rightarrow> bytes" where
  "key_bytes_of k = (case base64ToBytes (url_to_base64 k) of None \<Rightarrow> [] | Some bs \<Rightarrow> bs)"

fun signBytes :: "crypto \<Rightarrow> signing_key \<Rightarrow> bytes \<Rightarrow> bytes option" where
  "signBytes C (SignEd k) d = (if ed_priv_ok C (key_bytes_of k) then Some (ed_sign_raw C (key_bytes_of k) d) else None)"
| "signBytes C (SignHmac s) d = (if hmac_key_ok C s then Some (hmac_raw C s d) else None)"

fun verifyBytes :: "crypto \<Rightarrow> verification_key \<Rightarrow> bytes \<Rightarrow> bytes \<Rightarrow> bool" where
  "verifyBytes C (VerifyEd k) d sig \<longleftrightarrow> ed_pub_ok C (key_bytes_of k) \<and> ed_verify_raw C (key_bytes_of k) sig d"
| "verifyBytes C (VerifyHmac s) d sig \<longleftrightarrow> hmac_key_ok C s \<and> constantTimeEqual (hmac_raw C s d) sig"

section \<open>Signing\<close>

datatype created_opt = CreatedNow | CreatedAt int | NoCreated

datatype nonce_opt = NoNonce | RandomNonce | GivenNonce jstr

record sign_message_opts =
  sm_label :: "jstr option"
  sm_components :: "jstr list"
  sm_key :: signing_key
  sm_keyId :: "jstr option"
  sm_created :: created_opt
  sm_expires :: "int option"
  sm_nonce :: nonce_opt
  sm_tag :: "jstr option"
  sm_includeAlg :: bool
  sm_request :: "http_message option"

record signed_message =
  sd_label :: jstr
  sd_signatureInput :: jstr
  sd_signature :: jstr

definition message_params :: "sign_message_opts \<Rightarrow> int \<Rightarrow> bytes \<Rightarrow> sig_params" where
  "message_params o' now rnd =
    \<lparr>sp_created = (case sm_created o' of NoCreated \<Rightarrow> None | CreatedAt n \<Rightarrow> Some n | CreatedNow \<Rightarrow> Some (now div 1000)),
     sp_expires = sm_expires o',
     sp_nonce = (case sm_nonce o' of NoNonce \<Rightarrow> None | RandomNonce \<Rightarrow> Some (randomHex rnd) | GivenNonce n \<Rightarrow> Some n),
     sp_alg = (if sm_includeAlg o' then Some (signing_alg (sm_key o')) else None),
     sp_keyid = sm_keyId o', sp_tag = sm_tag o'\<rparr>"

definition signed_fields :: "jstr \<Rightarrow> jstr \<Rightarrow> bytes \<Rightarrow> signed_message" where
  "signed_fields label sp sig =
    \<lparr>sd_label = label, sd_signatureInput = label @ 61 # sp, sd_signature = label @ js ''=:'' @ base64_encode sig @ js '':''\<rparr>"

text \<open>\<open>Inr None\<close>: WebCrypto threw.\<close>

definition signMessage :: "crypto \<Rightarrow> http_message \<Rightarrow> sign_message_opts \<Rightarrow> int \<Rightarrow> bytes \<Rightarrow> sig_error + signed_message option" where
  "signMessage C msg o' now rnd =
    (let label = (case sm_label o' of None \<Rightarrow> js ''sig1'' | Some l \<Rightarrow> l) in
     if (case sf_key label of Inr (_, r) \<Rightarrow> r \<noteq> [] | Inl _ \<Rightarrow> True) then Inl InvalidLabel
     else and_then (each normalizeComponentId (sm_components o')) (\<lambda>ids.
       if 34 # js ''@signature-params'' @ [34] \<in> set ids then Inl ReservedComponent
       else and_then (serializeSignatureParams ids (message_params o' now rnd)) (\<lambda>sp.
         and_then (buildSignatureBase ids sp (context_of msg (sm_request o'))) (\<lambda>base.
           Inr (map_option (signed_fields label sp) (signBytes C (sm_key o') (utf8Encode base)))))))"

section \<open>Verifying\<close>

datatype hms_failure =
  HsMissingSignature | HsMalformedSignature | NoMatchingSignature | UnsupportedComponent | ComponentUnresolvable
  | InsufficientCoverage | BodyNotBound | DigestMismatch | MissingCreated | MissingExpires | HsNotYetValid
  | TooOld | HsExpired | TagMismatch | MissingNonce | NoKeyForSignature | AlgorithmMismatch | HsInvalidSignature | HsReplayed

text \<open>\<open>resolveKey\<close> may throw (outer \<open>None\<close>) or find no key.\<close>

record verify_message_opts =
  vm_label :: "jstr option"
  vm_tag :: "jstr option"
  vm_resolveKey :: "jstr option \<Rightarrow> sig_params \<Rightarrow> verification_key option option"
  vm_requiredComponents :: "jstr list"
  vm_body :: "bytes option"
  vm_requireBodyBinding :: bool
  vm_maxAgeMs :: "int option"
  vm_clockSkewMs :: "int option"
  vm_requireCreated :: bool
  vm_requireExpires :: bool
  vm_now :: int
  vm_request :: "http_message option"

definition candidates :: "verify_message_opts \<Rightarrow> parsed_signature list \<Rightarrow> parsed_signature list" where
  "candidates o' sigs =
    filter (\<lambda>s. (vm_label o' = None \<or> vm_label o' = Some (ps_label s)) \<and> (vm_tag o' = None \<or> sp_tag (ps_params s) = vm_tag o')) sigs"

text \<open>The same condition, of one signature.\<close>

definition asked_for :: "verify_message_opts \<Rightarrow> parsed_signature \<Rightarrow> bool" where
  "asked_for o' s \<longleftrightarrow> (vm_label o' = None \<or> vm_label o' = Some (ps_label s)) \<and> (vm_tag o' = None \<or> sp_tag (ps_params s) = vm_tag o')"

definition select_signature :: "verify_message_opts \<Rightarrow> http_headers \<Rightarrow> hms_failure + parsed_signature" where
  "select_signature o' hs =
    (case parseSignatures hs of
       Inl e \<Rightarrow> Inl (if e = NoSignature then HsMissingSignature else HsMalformedSignature)
     | Inr sigs \<Rightarrow>
         (case candidates o' sigs of
            [] \<Rightarrow> Inl (if vm_tag o' \<noteq> None \<and> sigs \<noteq> [] \<and> vm_label o' = None then TagMismatch else NoMatchingSignature)
          | s # _ \<Rightarrow> Inr s))"

definition content_digest_id :: jstr where
  "content_digest_id = 34 # js ''content-digest'' @ [34]"

definition coverage_check :: "verify_message_opts \<Rightarrow> jstr list \<Rightarrow> parsed_signature \<Rightarrow> hms_failure option" where
  "coverage_check o' required s =
    (if \<not> set required \<subseteq> set (ps_components s) then Some InsufficientCoverage
     else if vm_requireBodyBinding o' \<and> vm_body o' \<notin> {None, Some []} \<and> content_digest_id \<notin> set (ps_components s) then Some BodyNotBound
     else None)"

definition hs_skew :: "verify_message_opts \<Rightarrow> int" where
  "hs_skew o' = ceil_s (case vm_clockSkewMs o' of None \<Rightarrow> 30000 | Some m \<Rightarrow> m)"

definition hs_max_age :: "verify_message_opts \<Rightarrow> int" where
  "hs_max_age o' = ceil_s (case vm_maxAgeMs o' of None \<Rightarrow> 5 * 60000 | Some m \<Rightarrow> m)"

definition time_check :: "verify_message_opts \<Rightarrow> sig_params \<Rightarrow> hms_failure option" where
  "time_check o' p =
    (case (case sp_created p of
             None \<Rightarrow> if vm_requireCreated o' then Some MissingCreated else None
           | Some c \<Rightarrow>
               if vm_now o' div 1000 + hs_skew o' < c then Some HsNotYetValid
               else if hs_max_age o' + hs_skew o' < vm_now o' div 1000 - c then Some TooOld else None) of
       Some e \<Rightarrow> Some e
     | None \<Rightarrow>
         (case sp_expires p of
            None \<Rightarrow> if vm_requireExpires o' then Some MissingExpires else None
          | Some x \<Rightarrow> if x \<le> vm_now o' div 1000 then Some HsExpired else None))"

text \<open>The algorithm is that of the key, the base is rebuilt from the message.\<close>

definition signature_check :: "crypto \<Rightarrow> http_message \<Rightarrow> verify_message_opts \<Rightarrow> parsed_signature \<Rightarrow> verification_key \<Rightarrow> hms_failure option" where
  "signature_check C msg o' s key =
    (if sp_alg (ps_params s) \<noteq> None \<and> sp_alg (ps_params s) \<noteq> Some (verification_alg key) then Some AlgorithmMismatch
     else case buildSignatureBase (ps_components s) (ps_value s) (context_of msg (vm_request o')) of
       Inl e \<Rightarrow> Some (if e = UnsupportedParameter \<or> e = UnknownDerivedComponent then UnsupportedComponent else ComponentUnresolvable)
     | Inr base \<Rightarrow> if verifyBytes C key (utf8Encode base) (ps_signature s) then None else Some HsInvalidSignature)"

text \<open>Outer \<open>None\<close>: a throw.\<close>

definition digest_check :: "crypto \<Rightarrow> (bytes \<Rightarrow> bytes) \<Rightarrow> http_message \<Rightarrow> verify_message_opts \<Rightarrow> parsed_signature \<Rightarrow> hms_failure option option" where
  "digest_check C sha512 msg o' s =
    (case vm_body o' of
       None \<Rightarrow> Some None
     | Some bs \<Rightarrow>
         if content_digest_id \<notin> set (ps_components s) then Some None
         else (case fieldValue (msg_headers msg) (js ''content-digest'') of
           Inl _ \<Rightarrow> None
         | Inr v \<Rightarrow> map_option (\<lambda>ok. if ok then None else Some DigestMismatch) (verifyContentDigest C sha512 v bs)))"

definition hs_verdict ::
  "crypto \<Rightarrow> (bytes \<Rightarrow> bytes) \<Rightarrow> http_message \<Rightarrow> verify_message_opts \<Rightarrow> (hms_failure + parsed_signature) option" where
  "hs_verdict C sha512 msg o' =
    (if vm_requiredComponents o' = [] then None
     else case each normalizeComponentId (vm_requiredComponents o') of
       Inl _ \<Rightarrow> None
     | Inr required \<Rightarrow>
         (case select_signature o' (msg_headers msg) of
            Inl e \<Rightarrow> Some (Inl e)
          | Inr s \<Rightarrow>
              (case coverage_check o' required s of
                 Some e \<Rightarrow> Some (Inl e)
               | None \<Rightarrow>
                   (case time_check o' (ps_params s) of
                      Some e \<Rightarrow> Some (Inl e)
                    | None \<Rightarrow>
                        (case vm_resolveKey o' (sp_keyid (ps_params s)) (ps_params s) of
                           None \<Rightarrow> None
                         | Some None \<Rightarrow> Some (Inl NoKeyForSignature)
                         | Some (Some key) \<Rightarrow>
                             (case signature_check C msg o' s key of
                                Some e \<Rightarrow> Some (Inl e)
                              | None \<Rightarrow>
                                  (case digest_check C sha512 msg o' s of
                                     None \<Rightarrow> None
                                   | Some (Some e) \<Rightarrow> Some (Inl e)
                                   | Some None \<Rightarrow> Some (Inr s))))))))"

definition hs_nonce_key :: "sig_params \<Rightarrow> jstr \<Rightarrow> jstr" where
  "hs_nonce_key p n = js ''7h3:http-sig:'' @ (case sp_keyid p of None \<Rightarrow> [] | Some k \<Rightarrow> k) @ js '':'' @ n"

definition hs_nonce_ttl :: "verify_message_opts \<Rightarrow> int" where
  "hs_nonce_ttl o' = max 1 ((hs_max_age o' + hs_skew o') * 1000)"

definition verifyMessage ::
  "crypto \<Rightarrow> (bytes \<Rightarrow> bytes) \<Rightarrow> ('st \<Rightarrow> jstr \<Rightarrow> jnum \<Rightarrow> int \<Rightarrow> 'st \<times> bool option) option \<Rightarrow> 'st \<Rightarrow> int
    \<Rightarrow> http_message \<Rightarrow> verify_message_opts \<Rightarrow> 'st \<times> (hms_failure + parsed_signature) option" where
  "verifyMessage C sha512 check st clock msg o' =
    (case hs_verdict C sha512 msg o' of
       Some (Inr s) \<Rightarrow>
         (case check of
            None \<Rightarrow> (st, Some (Inr s))
          | Some chk \<Rightarrow>
              (case sp_nonce (ps_params s) of
                 None \<Rightarrow> (st, Some (Inl MissingNonce))
               | Some n \<Rightarrow>
                   (case chk st (hs_nonce_key (ps_params s) n) (Fin (hs_nonce_ttl o')) clock of
                      (st', None) \<Rightarrow> (st', None)
                    | (st', Some True) \<Rightarrow> (st', Some (Inl HsReplayed))
                    | (st', Some False) \<Rightarrow> (st', Some (Inr s)))))
     | v \<Rightarrow> (st, v))"

section \<open>The base determines what it covers\<close>

lemma line_split:
  fixes v1 v2 :: jstr
  assumes "v1 @ 10 # x = v2 @ 10 # y" "10 \<notin> set v1" "10 \<notin> set v2"
  shows "v1 = v2 \<and> x = y"
proof -
  have "takeWhile (\<lambda>c. c \<noteq> 10) (v @ 10 # z) = v" if "10 \<notin> set v" for v :: jstr and z
    using that by (subst takeWhile_append2) auto
  from this [OF assms(2), of x] this [OF assms(3), of y] have "v1 = v2" by (simp only: assms(1))
  then show ?thesis using assms(1) by simp
qed

lemma base_lines_end: "base_lines seen ids ctx = Inr ls \<Longrightarrow> ls = [] \<or> last ls = 10"
proof (induction ids arbitrary: seen ls)
  case (Cons i ids)
  then obtain v rest where "base_lines (i # seen) ids ctx = Inr rest" "ls = i @ js '': '' @ v @ 10 # rest"
    by (auto split: if_splits)
  with Cons.IH show ?case by (cases "rest = []") auto
qed simp

lemma last_line:
  assumes "l1 @ a = l2 @ b" "one_line a" "one_line b" "l1 = [] \<or> last l1 = 10" "l2 = [] \<or> last l2 = 10"
  shows "a = b \<and> l1 = l2"
proof -
  have t: "takeWhile (\<lambda>c. c \<noteq> 10) (rev (l @ x)) = rev x" if "one_line x" "l = [] \<or> last l = 10" for l x :: jstr
  proof (cases l rule: rev_cases)
    case Nil
    then show ?thesis using that(1) by (auto simp: one_line_def takeWhile_eq_all_conv)
  next
    case (snoc ys y)
    then show ?thesis using that by (subst rev_append) (subst takeWhile_append2; auto simp: one_line_def)
  qed
  then have "rev a = rev b" using assms by metis
  then show ?thesis using assms(1) by simp
qed

lemma base_lines_values:
  assumes "base_lines seen1 ids ctx1 = Inr ls" "base_lines seen2 ids ctx2 = Inr ls"
  shows "\<forall>i \<in> set ids. resolveComponent i ctx1 = resolveComponent i ctx2"
  using assms
proof (induction ids arbitrary: seen1 seen2 ls)
  case (Cons i ids)
  then obtain v1 r1 where a: "resolveComponent i ctx1 = Inr v1" "10 \<notin> set v1" "base_lines (i # seen1) ids ctx1 = Inr r1" "ls = i @ js '': '' @ v1 @ 10 # r1"
    by (auto split: if_splits)
  from Cons obtain v2 r2 where b: "resolveComponent i ctx2 = Inr v2" "10 \<notin> set v2" "base_lines (i # seen2) ids ctx2 = Inr r2" "ls = i @ js '': '' @ v2 @ 10 # r2"
    by (auto split: if_splits)
  have "v1 @ 10 # r1 = v2 @ 10 # r2" using a(4) b(4) by simp
  from line_split [OF this a(2) b(2)] have "v1 = v2 \<and> r1 = r2" .
  with Cons.IH [OF a(3)] a(1) b(1,3) show ?case by simp
qed simp

lemma base_parts:
  assumes "buildSignatureBase ids sp ctx = Inr b"
  obtains ls where "base_lines [] ids ctx = Inr ls" "b = ls @ params_line_start @ sp" "\<forall>c \<in> set b. unat c \<le> 127"
  using assms by (auto simp: buildSignatureBase_def Let_def not_less split: if_splits)

lemma base_binding:
  assumes "parseSignatureInputMember sp1 = Inr (ids1, p1)" "parseSignatureInputMember sp2 = Inr (ids2, p2)"
    and "buildSignatureBase ids1 sp1 ctx1 = Inr b" "buildSignatureBase ids2 sp2 ctx2 = Inr b"
  shows "sp1 = sp2 \<and> ids1 = ids2 \<and> p1 = p2 \<and> (\<forall>i \<in> set ids1. resolveComponent i ctx1 = resolveComponent i ctx2)"
proof -
  obtain l1 where l1: "base_lines [] ids1 ctx1 = Inr l1" "b = l1 @ params_line_start @ sp1" using base_parts [OF assms(3)] by blast
  obtain l2 where l2: "base_lines [] ids2 ctx2 = Inr l2" "b = l2 @ params_line_start @ sp2" using base_parts [OF assms(4)] by blast
  have "one_line params_line_start" by (simp add: params_line_start_def ascii_eval)
  then have "one_line (params_line_start @ sp1)" "one_line (params_line_start @ sp2)"
    using member_line [OF assms(1)] member_line [OF assms(2)] by simp_all
  from last_line [OF _ this base_lines_end [OF l1(1)] base_lines_end [OF l2(1)]] l1(2) l2(2)
  have "params_line_start @ sp1 = params_line_start @ sp2" "l1 = l2" by blast+
  then have sp: "sp1 = sp2" "l1 = l2" by simp_all
  then have ids: "ids1 = ids2" "p1 = p2" using assms(1,2) by simp_all
  from base_lines_values [of "[]" ids1 ctx1 l1 "[]" ctx2] l1(1) l2(1) sp ids show ?thesis by simp
qed

text \<open>Accepted signatures were parsed from the message.\<close>

lemma each_in: "each f xs = Inr ys \<Longrightarrow> y \<in> set ys \<Longrightarrow> \<exists>x \<in> set xs. f x = Inr y"
  by (induction xs arbitrary: ys) auto

lemma parsed_member:
  assumes "parseSignatures hs = Inr sigs" "s \<in> set sigs"
  shows "parseSignatureInputMember (ps_value s) = Inr (ps_components s, ps_params s)"
proof -
  obtain ins sm where "each (combine_members sm) ins = Inr sigs"
    using assms(1) by (auto simp: parseSignatures_def Let_def split: if_splits)
  from each_in [OF this assms(2)] show ?thesis by (auto simp: combine_members_def split: option.splits)
qed

lemma filter_first: "filter P xs = x # ys \<Longrightarrow> \<exists>us vs. xs = us @ x # vs \<and> P x \<and> (\<forall>u \<in> set us. \<not> P u)"
  by (auto simp: filter_eq_Cons_iff)

lemma selected_first:
  assumes "select_signature o' hs = Inr s"
  shows "\<exists>earlier later. parseSignatures hs = Inr (earlier @ s # later) \<and> asked_for o' s \<and> (\<forall>r \<in> set earlier. \<not> asked_for o' r)"
proof -
  obtain sigs rest where s: "parseSignatures hs = Inr sigs" "candidates o' sigs = s # rest"
    using assms by (auto simp: select_signature_def split: sum.splits list.splits)
  have "candidates o' sigs = filter (asked_for o') sigs" unfolding candidates_def asked_for_def ..
  from filter_first [OF s(2) [unfolded this]] s(1) show ?thesis by blast
qed

lemma selected:
  assumes "select_signature o' hs = Inr s"
  shows "\<exists>sigs. parseSignatures hs = Inr sigs \<and> s \<in> set sigs \<and> (vm_label o' = None \<or> vm_label o' = Some (ps_label s))
    \<and> (vm_tag o' = None \<or> sp_tag (ps_params s) = vm_tag o')"
  using selected_first [OF assms] by (auto simp: asked_for_def)

text \<open>A parsed signature stands in the message: its value and its bytes are those of the members with its label.\<close>

lemma input_members_from:
  "input_members m parts = Inr ins \<Longrightarrow> (k, v) \<in> set ins \<Longrightarrow> (k, v) \<in> set m \<or> (\<exists>part \<in> set parts. \<exists>w. labelled part = Some (k, w) \<and> v = trim w)"
proof (induction m parts rule: input_members.induct)
  case (2 m part parts)
  obtain l w where l: "labelled part = Some (l, w)" using 2(2) by (auto split: option.splits)
  have "\<not> mhas m l" "input_members (mset_key m l (trim w)) parts = Inr ins" using 2(2) l by (auto split: if_splits)
  from 2(1) [OF l _ this(1) this(2) 2(3)] show ?case using l set_mset_key [of m l "trim w"] by auto
qed simp

lemma signature_members_from:
  "signature_members m parts = Inr sm \<Longrightarrow> mget sm k = Some bs \<Longrightarrow>
    mget m k = Some bs \<or> (\<exists>part \<in> set parts. \<exists>b. signature_member part = Some (k, b) \<and> base64ToBytes b = Some bs)"
proof (induction m parts rule: signature_members.induct)
  case (2 m part parts)
  obtain l b c where l: "signature_member part = Some (l, b)" "base64ToBytes b = Some c" using 2(2) by (auto split: option.splits)
  have "\<not> mhas m l" "signature_members (mset_key m l c) parts = Inr sm" using 2(2) l by (auto split: if_splits)
  from 2(1) [OF l(1) _ l(2) this(1) this(2) 2(3)] show ?case using l by (auto split: if_splits)
qed simp

lemma parsed_from_fields:
  assumes "parseSignatures hs = Inr sigs" "s \<in> set sigs"
  shows "(\<exists>part \<in> set (splitTopLevel (join_with (js '', '') (getField hs (js ''signature-input''))) 44). \<exists>w.
      labelled part = Some (ps_label s, w) \<and> ps_value s = trim w) \<and>
    (\<exists>part \<in> set (splitTopLevel (join_with (js '', '') (getField hs (js ''signature''))) 44). \<exists>b.
      signature_member part = Some (ps_label s, b) \<and> base64ToBytes b = Some (ps_signature s))"
proof -
  obtain ins sm where p: "input_members [] (splitTopLevel (join_with (js '', '') (getField hs (js ''signature-input''))) 44) = Inr ins"
    "signature_members [] (splitTopLevel (join_with (js '', '') (getField hs (js ''signature''))) 44) = Inr sm" "each (combine_members sm) ins = Inr sigs"
    using assms(1) by (auto simp: parseSignatures_def Let_def split: if_splits)
  obtain lr where "lr \<in> set ins" "combine_members sm lr = Inr s" using each_in [OF p(3) assms(2)] by blast
  then have "(ps_label s, ps_value s) \<in> set ins" "mget sm (ps_label s) = Some (ps_signature s)"
    by (auto simp: combine_members_def split: option.splits)
  then show ?thesis using input_members_from [OF p(1)] signature_members_from [OF p(2)] by (fastforce simp: mget_def)
qed

lemma hs_verdict_ok:
  assumes "hs_verdict C sha512 msg o' = Some (Inr s)"
  obtains required key where "each normalizeComponentId (vm_requiredComponents o') = Inr required" "select_signature o' (msg_headers msg) = Inr s"
    "coverage_check o' required s = None" "time_check o' (ps_params s) = None" "vm_resolveKey o' (sp_keyid (ps_params s)) (ps_params s) = Some (Some key)"
    "signature_check C msg o' s key = None" "digest_check C sha512 msg o' s = Some None"
  using assms by (auto simp: hs_verdict_def split: if_splits sum.splits option.splits)

lemma accepted_verdict_hs:
  "snd (verifyMessage C sha512 check st clock msg o') = Some (Inr s) \<Longrightarrow> hs_verdict C sha512 msg o' = Some (Inr s)"
  by (auto simp: verifyMessage_def split: option.splits sum.splits prod.splits bool.splits)

lemma fold_diff8: "foldl (\<lambda>d (x, y). d OR (x XOR y)) d ps = 0 \<longleftrightarrow> d = 0 \<and> (\<forall>(x, y) \<in> set ps. x = y)" for d :: byte
  by (induction ps arbitrary: d) (auto simp: or_zero_word xor_zero_word)

lemma constantTimeEqual_eq: "constantTimeEqual a b \<longleftrightarrow> a = b"
  unfolding constantTimeEqual_def fold_diff8 list_eq_iff_zip_eq [of a b] by simp

lemma digest_loop_sound:
  "digest_loop C sha512 bs saw ms = Some True \<Longrightarrow>
    (\<forall>m \<in> set ms. \<forall>b a. digest_member m = Some (digest_name a, b) \<longrightarrow> base64ToBytes b = Some (digest C sha512 a bs))
    \<and> (saw \<or> (\<exists>m \<in> set ms. \<exists>b a. digest_member m = Some (digest_name a, b)))"
proof (induction ms arbitrary: saw)
  case (Cons m ms)
  obtain name b where m: "digest_member m = Some (name, b)" using Cons.prems by (auto split: option.splits)
  show ?case
  proof (cases "name \<in> {js ''sha-256'', js ''sha-512'', js ''constructor''}")
    case False
    have other: "name \<noteq> digest_name a" for a using False by (cases a) auto
    have "digest_loop C sha512 bs saw ms = Some True" using Cons.prems m False by simp
    from Cons.IH [OF this] m other show ?thesis by auto
  next
    case True
    obtain c where c: "base64ToBytes b = Some c" "name \<noteq> js ''constructor''"
      "c = digest C sha512 (if name = js ''sha-256'' then Sha256 else Sha512) bs" "digest_loop C sha512 bs True ms = Some True"
      using Cons.prems m True by (auto simp: constantTimeEqual_eq split: option.splits if_splits)
    define a where "a = (if name = js ''sha-256'' then Sha256 else Sha512)"
    have n: "name = digest_name a" using True c(2) by (auto simp: a_def)
    have "a' = a" if "digest_name a' = name" for a' using that n by (cases a; cases a') auto
    note same = this
    have "\<forall>b' a'. digest_member m = Some (digest_name a', b') \<longrightarrow> base64ToBytes b' = Some (digest C sha512 a' bs)"
      using m same c(1,3) unfolding a_def [symmetric] by auto
    with Cons.IH [OF c(4)] m n show ?thesis by auto
  qed
qed simp

section \<open>Single use\<close>

lemma time_window:
  assumes "time_check o' p = None"
  shows "(sp_created p = None \<longrightarrow> \<not> vm_requireCreated o') \<and> (sp_expires p = None \<longrightarrow> \<not> vm_requireExpires o')
    \<and> (\<forall>c. sp_created p = Some c \<longrightarrow> c \<le> vm_now o' div 1000 + hs_skew o' \<and> vm_now o' div 1000 \<le> c + hs_max_age o' + hs_skew o')
    \<and> (\<forall>x. sp_expires p = Some x \<longrightarrow> vm_now o' div 1000 < x)"
proof (cases "sp_created p")
  case None
  then show ?thesis using assms by (cases "sp_expires p") (auto simp: time_check_def split: if_splits)
next
  case (Some c)
  then show ?thesis using assms by (cases "sp_expires p") (auto simp: time_check_def split: if_splits)
qed

context replay_checker
begin

lemma message_fresh:
  assumes "snd (verifyMessage C sha512 (Some check) st clock msg o') = Some (Inr s)"
  shows "\<exists>n. sp_nonce (ps_params s) = Some n \<and> snd (mark st (hs_nonce_key (ps_params s) n) (Fin (hs_nonce_ttl o')) clock)
    \<and> fst (verifyMessage C sha512 (Some check) st clock msg o') = fst (mark st (hs_nonce_key (ps_params s) n) (Fin (hs_nonce_ttl o')) clock)"
  using assms by (auto simp: verifyMessage_def mark_check split: option.splits sum.splits prod.splits bool.splits)

lemma message_single_use:
  assumes "invar st" "snd (verifyMessage C sha512 (Some check) st clock msg1 o1) = Some (Inr s1)"
    and "\<forall>(k, ttl, now) \<in> set evs. now \<le> clock2" "clock2 < clock + hs_nonce_ttl o1"
    and "sp_keyid (ps_params s2) = sp_keyid (ps_params s1)" "sp_nonce (ps_params s2) = sp_nonce (ps_params s1)"
  shows "snd (verifyMessage C sha512 (Some check) (mark_run (fst (verifyMessage C sha512 (Some check) st clock msg1 o1)) evs) clock2 msg2 o2)
    \<noteq> Some (Inr s2)"
proof
  assume a: "snd (verifyMessage C sha512 (Some check) (mark_run (fst (verifyMessage C sha512 (Some check) st clock msg1 o1)) evs) clock2 msg2 o2) = Some (Inr s2)"
  obtain n where n: "sp_nonce (ps_params s1) = Some n" "snd (mark st (hs_nonce_key (ps_params s1) n) (Fin (hs_nonce_ttl o1)) clock)"
    "fst (verifyMessage C sha512 (Some check) st clock msg1 o1) = fst (mark st (hs_nonce_key (ps_params s1) n) (Fin (hs_nonce_ttl o1)) clock)"
    using message_fresh [OF assms(2)] by blast
  have k: "hs_nonce_key (ps_params s2) n = hs_nonce_key (ps_params s1) n" using assms(5) by (simp add: hs_nonce_key_def)
  obtain m where "sp_nonce (ps_params s2) = Some m"
    "snd (mark (mark_run (fst (verifyMessage C sha512 (Some check) st clock msg1 o1)) evs) (hs_nonce_key (ps_params s2) m) (Fin (hs_nonce_ttl o2)) clock2)"
    using message_fresh [OF a] by blast
  with n k assms(6) no_replay [OF assms(1) n(2) assms(3,4)] show False by simp
qed

end

section \<open>Reading back a signed message\<close>

lemma valid_label: "\<not> (case sf_key label of Inr (_, r) \<Rightarrow> r \<noteq> [] | Inl _ \<Rightarrow> True) \<Longrightarrow> valid_key label"
  by (auto simp: valid_key_def sf_key_def split: sum.splits list.splits if_splits prod.splits)

lemma not_ws: "key_start c \<Longrightarrow> \<not> ws_char c" "digit_char c \<Longrightarrow> \<not> ws_char c" "\<not> ws_char 34" "\<not> ws_char 40" "\<not> ws_char 41" "key_char c \<Longrightarrow> \<not> ws_char c"
  by (auto simp: key_start_def key_char_def lower_char_def digit_char_def ws_char_def)

lemma labelled_back: "valid_key k \<Longrightarrow> labelled (k @ 61 # v) = Some (k, v)"
proof -
  assume k: "valid_key k"
  have "key_stops (61 # v)" by (simp add: key_stops_def key_char_def lower_char_def digit_char_def)
  moreover have "dropWhile ws_char (k @ 61 # v) = k @ 61 # v" using k by (rule valid_keyE) (simp add: not_ws)
  ultimately show ?thesis using key_back [OF k] by (simp add: labelled_def)
qed

lemma trim_id: "s = c # u \<Longrightarrow> s = w @ [d] \<Longrightarrow> \<not> ws_char c \<Longrightarrow> \<not> ws_char d \<Longrightarrow> trim s = s"
proof -
  assume s: "s = c # u" "s = w @ [d]" and ws: "\<not> ws_char c" "\<not> ws_char d"
  have "dropWhile ws_char s = s" using ws(1) by (simp add: s(1))
  moreover have "dropWhile ws_char (rev s) = rev s" using ws(2) by (simp add: s(2))
  ultimately show ?thesis by (simp add: trim_def)
qed

lemma param_last: "written_param p t \<Longrightarrow> \<exists>w d. t = w @ [d] \<and> \<not> ws_char d"
proof -
  have k: "\<exists>w d. k = w @ [d] \<and> \<not> ws_char d" if "valid_key k" for k
    using that
  proof (rule valid_keyE)
    fix c t
    assume "k = c # t" "key_start c" "\<forall>x \<in> set t. key_char x"
    then show ?thesis by (cases t rule: rev_cases) (auto simp: not_ws)
  qed
  have n: "\<exists>w d. show_int n = w @ [d] \<and> \<not> ws_char d" if "0 \<le> n" for n
  proof -
    obtain w d where "show_nat (nat n) = w @ [d]" using show_nat_nonempty rev_exhaust by blast
    moreover from this have "digit_char d" using show_nat_digits [of "nat n"] by simp
    ultimately show ?thesis using that by (auto simp: show_int_def not_ws)
  qed
  assume a: "written_param p t"
  then show ?thesis
  proof (cases rule: written_param.elims(2))
    case (1 k b)
    then obtain w d where "k = w @ [d]" "\<not> ws_char d" using k by blast
    with 1 show ?thesis by (intro exI [of _ "59 # w"] exI [of _ d]) simp
  next
    case (2 k v t')
    then obtain q where "sfString v = Inr q" "t = 59 # k @ 61 # q" by auto
    moreover from this obtain x where "q = x @ [34]" by (auto simp: sfString_def split: if_splits)
    ultimately show ?thesis by (intro exI [of _ "59 # k @ 61 # x"] exI [of _ 34]) (simp add: not_ws)
  next
    case (3 k i t')
    then obtain w d where "show_int i = w @ [d]" "\<not> ws_char d" using n [of i] by auto
    with 3 show ?thesis by (intro exI [of _ "59 # k @ 61 # w"] exI [of _ d]) simp
  qed
qed

lemma member_trim:
  assumes "serializeSignatureParams ids p = Inr sp" "time_param_ok (sp_created p)" "time_param_ok (sp_expires p)"
  shows "trim sp = sp"
proof -
  obtain ts where ts: "list_all2 written_param (params_list p) ts" "sp = 40 # join_with [32] ids @ 41 # concat ts"
    using params_written [OF assms] by blast
  have "\<exists>w d. sp = w @ [d] \<and> \<not> ws_char d"
  proof (cases ts rule: rev_cases)
    case Nil
    then show ?thesis using ts(2) by (intro exI [of _ "40 # join_with [32] ids"] exI [of _ 41]) (simp add: not_ws)
  next
    case (snoc us t)
    then obtain q where "written_param q t" using ts(1) by (auto simp: list_all2_append2 list_all2_Cons2)
    then obtain w d where "t = w @ [d]" "\<not> ws_char d" using param_last by blast
    with ts(2) snoc show ?thesis by (intro exI [of _ "40 # join_with [32] ids @ 41 # concat us @ w"] exI [of _ d]) simp
  qed
  then show ?thesis using trim_id [OF ts(2)] not_ws(4) by blast
qed

lemma signature_member_back:
  assumes "valid_key k"
  shows "signature_member (k @ js ''=:'' @ base64_encode bs @ js '':'') = Some (k, base64_encode bs)"
    and "splitTopLevel (k @ js ''=:'' @ base64_encode bs @ js '':'') 44 = [k @ js ''=:'' @ base64_encode bs @ js '':'']"
proof -
  obtain core n where c: "base64_encode bs = core @ replicate n 61" "\<forall>c \<in> set core. b64_plain c" using base64_core [of bs] by blast
  have p: "\<forall>c \<in> set (base64_encode bs). std64_char c \<or> c = 61" using c by (auto simp: std64_plain)
  have "\<not> std64_char 58" by (simp add: std64_plain b64_plain_def)
  then have t: "takeWhile (\<lambda>x. std64_char x \<or> x = 61) (base64_encode bs @ [58]) = base64_encode bs"
    using takeWhile_stops [OF p, of "[58]"] by simp
  have e: "k @ js ''=:'' @ base64_encode bs @ js '':'' = k @ 61 # 58 # base64_encode bs @ [58]" by (simp add: ascii_eval)
  show "signature_member (k @ js ''=:'' @ base64_encode bs @ js '':'') = Some (k, base64_encode bs)"
    unfolding e using labelled_back [OF assms, of "58 # base64_encode bs @ [58]"] t by (simp add: signature_member_def Let_def ascii_eval)
  have "58 \<notin> set (base64_encode bs)" using p \<open>\<not> std64_char 58\<close> by auto
  then show "splitTopLevel (k @ js ''=:'' @ base64_encode bs @ js '':'') 44 = [k @ js ''=:'' @ base64_encode bs @ js '':'']"
    unfolding e by (intro split_neutral neutral_append [OF neutral_key [OF assms]] neutral_Cons [OF _ neutral_bytes]) auto
qed

text \<open>The message as it is sent, with the two fields added.\<close>

definition with_signature :: "http_message \<Rightarrow> signed_message \<Rightarrow> http_message" where
  "with_signature msg sd = msg\<lparr>msg_headers := msg_headers msg @
     [(js ''signature-input'', Single (sd_signatureInput sd)), (js ''signature'', Single (sd_signature sd))]\<rparr>"

definition signature_fields :: "jstr set" where
  "signature_fields = {js ''signature-input'', js ''signature''}"

definition unsigned_message :: "http_message \<Rightarrow> bool" where
  "unsigned_message msg \<longleftrightarrow> (\<forall>(k, v) \<in> set (msg_headers msg). toLowerCase k \<notin> signature_fields)"

definition free_components :: "jstr list \<Rightarrow> bool" where
  "free_components ids \<longleftrightarrow> (\<forall>i \<in> set ids. \<forall>name r. sf_string i = Inr (name, r) \<longrightarrow> toLowerCase name \<notin> signature_fields)"

lemma lower_names: "toLowerCase (js ''signature-input'') = js ''signature-input''" "toLowerCase (js ''signature'') = js ''signature''"
  by (simp_all add: toLowerCase_def lower_unit_def upper_char_def ascii_eval)

lemma getField_append: "getField (a @ b) n = getField a n @ getField b n"
  by (simp add: getField_def)

lemma getField_other: "\<forall>(k, v) \<in> set hs. toLowerCase k \<noteq> toLowerCase n \<Longrightarrow> getField hs n = []"
  by (induction hs) (auto simp: getField_def)

lemma added_fields:
  assumes "unsigned_message msg"
  shows "getField (msg_headers (with_signature msg sd)) (js ''signature-input'') = [sd_signatureInput sd]"
    and "getField (msg_headers (with_signature msg sd)) (js ''signature'') = [sd_signature sd]"
    and "toLowerCase n \<notin> signature_fields \<Longrightarrow> getField (msg_headers (with_signature msg sd)) n = getField (msg_headers msg) n"
proof -
  have "getField (msg_headers msg) (js ''signature-input'') = []" "getField (msg_headers msg) (js ''signature'') = []"
    using assms by (auto intro!: getField_other simp: lower_names unsigned_message_def signature_fields_def split: prod.splits)
  then show "getField (msg_headers (with_signature msg sd)) (js ''signature-input'') = [sd_signatureInput sd]"
    "getField (msg_headers (with_signature msg sd)) (js ''signature'') = [sd_signature sd]"
    by (simp_all add: with_signature_def getField_append) (simp_all add: getField_def lower_names)
  show "toLowerCase n \<notin> signature_fields \<Longrightarrow> getField (msg_headers (with_signature msg sd)) n = getField (msg_headers msg) n"
    by (simp add: with_signature_def getField_append) (auto simp: getField_def lower_names signature_fields_def)
qed

lemma field_same: "unsigned_message msg \<Longrightarrow> toLowerCase n \<notin> signature_fields \<Longrightarrow>
  fieldValue (msg_headers (with_signature msg sd)) n = fieldValue (msg_headers msg) n"
  by (simp add: fieldValue_def added_fields(3))

lemma with_simps [simp]: "msg_method (with_signature msg sd) = msg_method msg" "msg_url (with_signature msg sd) = msg_url msg"
  "msg_status (with_signature msg sd) = msg_status msg"
  by (simp_all add: with_signature_def)

lemma derived_same: "derived_component n r nm ky (with_signature msg sd) ctx = derived_component n r nm ky msg ctx"
  "derived_component n r nm ky target (context_of (with_signature msg sd) rq) = derived_component n r nm ky target (context_of msg rq)"
  by (simp_all add: derived_component_def context_of_def)

lemma resolve_same:
  assumes "unsigned_message msg" "free_components ids" "i \<in> set ids"
  shows "resolveComponent i (context_of (with_signature msg sd) rq) = resolveComponent i (context_of msg rq)"
proof (cases "sf_string i")
  case (Inr nr)
  obtain name r where nr: "nr = (name, r)" by fastforce
  have n: "toLowerCase name \<notin> signature_fields"
    using assms(2,3) Inr nr unfolding free_components_def by blast
  have cx: "cx_isResponse (context_of (with_signature msg sd) rq) = cx_isResponse (context_of msg rq)"
    "cx_request (context_of (with_signature msg sd) rq) = cx_request (context_of msg rq)" by (simp_all add: context_of_def)
  show ?thesis
  proof (cases "sf_params r")
    case (Inr pr)
    obtain ps r2 where pr: "pr = (ps, r2)" by fastforce
    show ?thesis
    proof (cases "component_opts ps (False, None, None)")
      case o': (Inr o3)
      obtain req nm ky where "o3 = (req, nm, ky)" by (cases o3)
      with o' Inr pr nr \<open>sf_string i = Inr nr\<close> show ?thesis
        using field_same [OF assms(1) n, of sd]
        by (cases req) (simp_all add: resolveComponent_def cx derived_same Let_def, simp_all add: context_of_def derived_same)
    qed (simp add: resolveComponent_def \<open>sf_string i = Inr nr\<close> nr Inr pr)
  qed (simp add: resolveComponent_def \<open>sf_string i = Inr nr\<close> nr)
qed (simp add: resolveComponent_def)

lemma lines_same:
  assumes "unsigned_message msg"
  shows "free_components ids \<Longrightarrow> base_lines seen ids (context_of (with_signature msg sd) rq) = base_lines seen ids (context_of msg rq)"
proof (induction ids arbitrary: seen)
  case (Cons i ids)
  then have "free_components ids" by (simp add: free_components_def)
  with Cons.IH resolve_same [OF assms Cons.prems, of i sd rq] show ?case by (simp cong: if_cong)
qed simp

text \<open>A digest that was created verifies.\<close>

lemma digest_back: "verifyContentDigest C sha512 (createContentDigest C sha512 a bs) bs = Some True"
proof -
  have v: "valid_key (digest_name a)"
    by (cases a) (simp_all add: valid_key_def sf_key_def ascii_eval key_start_def key_char_def lower_char_def digit_char_def)
  obtain c t where n: "digest_name a = c # t" "lower_char c" "\<forall>x \<in> set t. key_char x"
    by (cases a) (simp_all add: ascii_eval lower_char_def key_char_def digit_char_def)
  let ?d = "digest C sha512 a bs"
  have sp: "splitTopLevel (createContentDigest C sha512 a bs) 44 = [createContentDigest C sha512 a bs]"
    using signature_member_back(2) [OF v] by (simp add: createContentDigest_def)
  obtain core k where b: "base64_encode ?d = core @ replicate k 61" "\<forall>c \<in> set core. b64_plain c" using base64_core [of ?d] by blast
  have p: "\<forall>c \<in> set (base64_encode ?d). std64_char c \<or> c = 61" using b by (auto simp: std64_plain)
  have "\<not> std64_char 58" by (simp add: std64_plain b64_plain_def)
  then have t: "takeWhile (\<lambda>x. std64_char x \<or> x = 61) (base64_encode ?d @ [58]) = base64_encode ?d"
    using takeWhile_stops [OF p, of "[58]"] by simp
  have "\<not> ws_char c" using n(2) by (auto simp: lower_char_def ws_char_def)
  moreover have "\<not> key_char 61" by (simp add: key_char_def lower_char_def digit_char_def)
  then have "takeWhile key_char (t @ 61 # r) = t \<and> dropWhile key_char (t @ 61 # r) = 61 # r" for r
    using takeWhile_stops [OF n(3), of "61 # r"] by simp
  ultimately have "digest_member (createContentDigest C sha512 a bs) = Some (digest_name a, base64_encode ?d)"
    using n(1,2) t by (simp add: digest_member_def createContentDigest_def Let_def ascii_eval)
  then show ?thesis unfolding verifyContentDigest_def sp by (cases a) (simp_all add: base64_back constantTimeEqual_eq)
qed

text \<open>What the two added fields parse to.\<close>

lemma signed_parts:
  assumes "signMessage C msg o' now rnd = Inr (Some sd)"
  obtains ids sp base sig where "each normalizeComponentId (sm_components o') = Inr ids" "serializeSignatureParams ids (message_params o' now rnd) = Inr sp"
    "buildSignatureBase ids sp (context_of msg (sm_request o')) = Inr base" "signBytes C (sm_key o') (utf8Encode base) = Some sig"
    "sd = signed_fields (sd_label sd) sp sig" "valid_key (sd_label sd)" "sd_label sd = (case sm_label o' of None \<Rightarrow> js ''sig1'' | Some l \<Rightarrow> l)"
  using assms valid_label
  by (auto simp: signMessage_def Let_def signed_fields_def split: if_splits)

lemma each_canonical: "each normalizeComponentId xs = Inr ids \<Longrightarrow> \<forall>i \<in> set ids. canonical_component i"
  using each_in normalized_canonical by metis

lemma signed_parse:
  assumes "sd = signed_fields l sp sig" "valid_key l" "unsigned_message msg" "serializeSignatureParams ids p = Inr sp"
    and "time_param_ok (sp_created p)" "time_param_ok (sp_expires p)" "\<forall>i \<in> set ids. canonical_component i" "length ids \<le> MAX_COMPONENTS"
    and "length (sd_signatureInput sd) \<le> MAX_FIELD_BYTES" "length (sd_signature sd) \<le> MAX_FIELD_BYTES"
  shows "parseSignatures (msg_headers (with_signature msg sd)) =
    Inr [\<lparr>ps_label = l, ps_components = ids, ps_params = p, ps_value = sp, ps_signature = sig\<rparr>]"
proof -
  have i: "sd_signatureInput sd = l @ 61 # sp" "sd_signature sd = l @ js ''=:'' @ base64_encode sig @ js '':''"
    using assms(1) by (simp_all add: signed_fields_def)
  have ne: "sd_signatureInput sd \<noteq> []" "sd_signature sd \<noteq> []" by (simp_all add: i ascii_eval)
  have parts: "splitTopLevel (sd_signatureInput sd) 44 = [sd_signatureInput sd]"
    unfolding i by (intro split_neutral neutral_append [OF neutral_key [OF assms(2)]] neutral_Cons [OF _ neutral_member [OF assms(4-7)]]) simp
  have "input_members [] [sd_signatureInput sd] = Inr [(l, sp)]"
    unfolding i by (simp add: labelled_back [OF assms(2)] member_trim [OF assms(4-6)] mhas_def)
  moreover have "signature_members [] (splitTopLevel (sd_signature sd) 44) = Inr [(l, sig)]"
    unfolding i(2) signature_member_back(2) [OF assms(2)] by (simp add: signature_member_back(1) [OF assms(2)] base64_back mhas_def)
  moreover have "parseSignatureInputMember sp = Inr (ids, p)" by (rule member_back [OF assms(4-8)])
  ultimately show ?thesis
    unfolding parseSignatures_def added_fields(1,2) [OF assms(3)]
    using assms(9,10) parts ne by (simp add: Let_def MAX_MEMBERS_def combine_members_def)
qed

section \<open>Properties\<close>

text \<open>C12 The signature base authenticates exactly what the signature claims to cover: if the bases rebuilt for two messages, from two Signature-Input values that parse, are the same text, then the two values, their covered components and parameters are the same and every covered component has the same value in both messages. No header value or URL can imitate a line of the base.\<close>

theorem signature_base_binding:
  assumes "parseSignatureInputMember sp1 = Inr (ids1, p1)" "parseSignatureInputMember sp2 = Inr (ids2, p2)"
    and "buildSignatureBase ids1 sp1 ctx1 = Inr b" "buildSignatureBase ids2 sp2 ctx2 = Inr b"
  shows "sp1 = sp2 \<and> ids1 = ids2 \<and> p1 = p2 \<and> (\<forall>i \<in> set ids1. resolveComponent i ctx1 = resolveComponent i ctx2)"
  by (rule base_binding [OF assms])

text \<open>C13 An accepted message signature is the first one in the message's own Signature-Input field that has the wanted label and tag: its parameters and components are those that its member of that field states and its bytes are those of the member of the Signature field with the same label. It covers every required component, states the times the verifier requires and is inside its window, and verifies over the base rebuilt from the received message under the key the verifier resolved for its keyid, with that key's algorithm. A body that must be bound is covered by Content-Digest; wherever a body is given and Content-Digest is covered, every recognised digest of that field is the digest of the body and at least one is there. With a nonce store the signature has a nonce and the store answered that it is new.\<close>

theorem http_signature_sound:
  assumes "snd (verifyMessage C sha512 check st clock msg o') = Some (Inr s)"
  shows "(\<exists>earlier later. parseSignatures (msg_headers msg) = Inr (earlier @ s # later) \<and> asked_for o' s \<and> (\<forall>r \<in> set earlier. \<not> asked_for o' r))
    \<and> (\<exists>part \<in> set (splitTopLevel (join_with (js '', '') (getField (msg_headers msg) (js ''signature-input''))) 44). \<exists>w.
        labelled part = Some (ps_label s, w) \<and> ps_value s = trim w)
    \<and> (\<exists>part \<in> set (splitTopLevel (join_with (js '', '') (getField (msg_headers msg) (js ''signature''))) 44). \<exists>b.
        signature_member part = Some (ps_label s, b) \<and> base64ToBytes b = Some (ps_signature s))
    \<and> (\<exists>required key base. each normalizeComponentId (vm_requiredComponents o') = Inr required \<and> set required \<subseteq> set (ps_components s)
    \<and> parseSignatureInputMember (ps_value s) = Inr (ps_components s, ps_params s)
    \<and> vm_resolveKey o' (sp_keyid (ps_params s)) (ps_params s) = Some (Some key) \<and> sp_alg (ps_params s) \<in> {None, Some (verification_alg key)}
    \<and> buildSignatureBase (ps_components s) (ps_value s) (context_of msg (vm_request o')) = Inr base
    \<and> verifyBytes C key (utf8Encode base) (ps_signature s))
    \<and> (sp_created (ps_params s) = None \<longrightarrow> \<not> vm_requireCreated o') \<and> (sp_expires (ps_params s) = None \<longrightarrow> \<not> vm_requireExpires o')
    \<and> (\<forall>c. sp_created (ps_params s) = Some c \<longrightarrow> c \<le> vm_now o' div 1000 + hs_skew o' \<and> vm_now o' div 1000 \<le> c + hs_max_age o' + hs_skew o')
    \<and> (\<forall>x. sp_expires (ps_params s) = Some x \<longrightarrow> vm_now o' div 1000 < x)
    \<and> (vm_requireBodyBinding o' \<and> vm_body o' \<notin> {None, Some []} \<longrightarrow> content_digest_id \<in> set (ps_components s))
    \<and> (\<forall>bs. vm_body o' = Some bs \<and> content_digest_id \<in> set (ps_components s) \<longrightarrow> (\<exists>v. fieldValue (msg_headers msg) (js ''content-digest'') = Inr v
        \<and> (\<forall>m \<in> set (splitTopLevel v 44). \<forall>a b. digest_member m = Some (digest_name a, b) \<longrightarrow> base64ToBytes b = Some (digest C sha512 a bs))
        \<and> (\<exists>m \<in> set (splitTopLevel v 44). \<exists>a b. digest_member m = Some (digest_name a, b))))
    \<and> (\<forall>chk. check = Some chk \<longrightarrow> (\<exists>n. sp_nonce (ps_params s) = Some n \<and> snd (chk st (hs_nonce_key (ps_params s) n) (Fin (hs_nonce_ttl o')) clock) = Some False))"
proof -
  obtain required key where v: "each normalizeComponentId (vm_requiredComponents o') = Inr required" "select_signature o' (msg_headers msg) = Inr s"
    "coverage_check o' required s = None" "time_check o' (ps_params s) = None" "vm_resolveKey o' (sp_keyid (ps_params s)) (ps_params s) = Some (Some key)"
    "signature_check C msg o' s key = None" "digest_check C sha512 msg o' s = Some None"
    using hs_verdict_ok [OF accepted_verdict_hs [OF assms]] by metis
  note first = selected_first [OF v(2)]
  obtain sigs where sigs: "parseSignatures (msg_headers msg) = Inr sigs" "s \<in> set sigs" using selected [OF v(2)] by blast
  note fields = parsed_from_fields [OF sigs] and parsed = parsed_member [OF sigs] and times = time_window [OF v(4)]
  have cov: "set required \<subseteq> set (ps_components s)" "vm_requireBodyBinding o' \<and> vm_body o' \<notin> {None, Some []} \<longrightarrow> content_digest_id \<in> set (ps_components s)"
    using v(3) by (auto simp: coverage_check_def split: if_splits)
  obtain base where base: "buildSignatureBase (ps_components s) (ps_value s) (context_of msg (vm_request o')) = Inr base"
    "verifyBytes C key (utf8Encode base) (ps_signature s)" "sp_alg (ps_params s) \<in> {None, Some (verification_alg key)}"
    using v(6) by (auto simp: signature_check_def split: if_splits sum.splits)
  have dig: "\<exists>v. fieldValue (msg_headers msg) (js ''content-digest'') = Inr v \<and> verifyContentDigest C sha512 v bs = Some True"
    if "vm_body o' = Some bs" "content_digest_id \<in> set (ps_components s)" for bs
    using v(7) that by (auto simp: digest_check_def split: sum.splits if_splits)
  have body: "\<forall>bs. vm_body o' = Some bs \<and> content_digest_id \<in> set (ps_components s) \<longrightarrow> (\<exists>v. fieldValue (msg_headers msg) (js ''content-digest'') = Inr v
        \<and> (\<forall>m \<in> set (splitTopLevel v 44). \<forall>a b. digest_member m = Some (digest_name a, b) \<longrightarrow> base64ToBytes b = Some (digest C sha512 a bs))
        \<and> (\<exists>m \<in> set (splitTopLevel v 44). \<exists>a b. digest_member m = Some (digest_name a, b)))"
    using dig digest_loop_sound unfolding verifyContentDigest_def by fast
  have nonce': "\<forall>chk. check = Some chk \<longrightarrow> (\<exists>n. sp_nonce (ps_params s) = Some n \<and> snd (chk st (hs_nonce_key (ps_params s) n) (Fin (hs_nonce_ttl o')) clock) = Some False)"
    using assms accepted_verdict_hs [OF assms] by (auto simp: verifyMessage_def split: option.splits prod.splits bool.splits)
  show ?thesis
    by (intro conjI) (use first fields times cov(2) body nonce' v(1,5) cov(1) parsed base in blast)+
qed

text \<open>The verification key belongs to the signing key.\<close>

definition sign_pair :: "crypto \<Rightarrow> signing_key \<Rightarrow> verification_key \<Rightarrow> bool" where
  "sign_pair C sk vk \<longleftrightarrow> signing_alg sk = verification_alg vk \<and> (\<forall>d sig. signBytes C sk d = Some sig \<longrightarrow> verifyBytes C vk d sig)"

text \<open>Options under which a message signed with \<open>so\<close> is to be accepted.\<close>

definition signature_wanted :: "crypto \<Rightarrow> (bytes \<Rightarrow> bytes) \<Rightarrow> http_message \<Rightarrow> sign_message_opts \<Rightarrow> jstr list \<Rightarrow> sig_params \<Rightarrow> verify_message_opts \<Rightarrow> bool" where
  "signature_wanted C sha512 msg so ids p o' \<longleftrightarrow>
     vm_label o' \<in> {None, Some (case sm_label so of None \<Rightarrow> js ''sig1'' | Some l \<Rightarrow> l)} \<and> vm_tag o' \<in> {None, sp_tag p}
     \<and> vm_requiredComponents o' \<noteq> [] \<and> (\<exists>required. each normalizeComponentId (vm_requiredComponents o') = Inr required \<and> set required \<subseteq> set ids)
     \<and> (vm_requireBodyBinding o' \<longrightarrow> vm_body o' \<in> {None, Some []} \<or> content_digest_id \<in> set ids)
     \<and> (vm_body o' = None \<or> (\<exists>a. fieldValue (msg_headers msg) (js ''content-digest'') = Inr (createContentDigest C sha512 a (the (vm_body o')))))
     \<and> time_check o' p = None \<and> vm_request o' = sm_request so"

lemma signed_verdict:
  assumes "signMessage C msg so now rnd = Inr (Some sd)" "each normalizeComponentId (sm_components so) = Inr ids"
    and "unsigned_message msg" "free_components ids" "length ids \<le> MAX_COMPONENTS" "p = message_params so now rnd"
    and "time_param_ok (sp_created p)" "time_param_ok (sp_expires p)"
    and "length (sd_signatureInput sd) \<le> MAX_FIELD_BYTES" "length (sd_signature sd) \<le> MAX_FIELD_BYTES"
    and "vm_resolveKey o' (sm_keyId so) p = Some (Some vk)" "sign_pair C (sm_key so) vk" "signature_wanted C sha512 msg so ids p o'"
  shows "\<exists>s. hs_verdict C sha512 (with_signature msg sd) o' = Some (Inr s) \<and> ps_components s = ids \<and> ps_params s = p"
proof -
  obtain sp base sig where s: "serializeSignatureParams ids p = Inr sp" "buildSignatureBase ids sp (context_of msg (sm_request so)) = Inr base"
    "signBytes C (sm_key so) (utf8Encode base) = Some sig" "sd = signed_fields (sd_label sd) sp sig" "valid_key (sd_label sd)"
    "sd_label sd = (case sm_label so of None \<Rightarrow> js ''sig1'' | Some l \<Rightarrow> l)"
    using signed_parts [OF assms(1)] assms(2,6) by (metis sum.inject(2))
  define r where "r = \<lparr>ps_label = sd_label sd, ps_components = ids, ps_params = p, ps_value = sp, ps_signature = sig\<rparr>"
  have "parseSignatures (msg_headers (with_signature msg sd)) = Inr [r]"
    unfolding r_def by (rule signed_parse [OF s(4,5) assms(3) s(1) assms(7,8) each_canonical [OF assms(2)] assms(5,9,10)])
  moreover have "candidates o' [r] = [r]"
    using assms(13) s(6) by (auto simp: candidates_def signature_wanted_def r_def)
  ultimately have sel: "select_signature o' (msg_headers (with_signature msg sd)) = Inr r" by (simp add: select_signature_def)
  obtain required where req: "each normalizeComponentId (vm_requiredComponents o') = Inr required" "set required \<subseteq> set ids"
    using assms(13) by (auto simp: signature_wanted_def)
  have cov: "coverage_check o' required r = None"
    using assms(13) req(2) by (auto simp: coverage_check_def signature_wanted_def r_def)
  have "buildSignatureBase ids sp (context_of (with_signature msg sd) (vm_request o')) = Inr base"
    using s(2) lines_same [OF assms(3,4)] assms(13) by (simp add: buildSignatureBase_def signature_wanted_def)
  moreover have "verifyBytes C vk (utf8Encode base) sig" "verification_alg vk = signing_alg (sm_key so)"
    using assms(12) s(3) by (auto simp: sign_pair_def)
  ultimately have sg: "signature_check C (with_signature msg sd) o' r vk = None"
    using assms(6) by (auto simp: signature_check_def r_def message_params_def)
  have "toLowerCase (js ''content-digest'') \<notin> signature_fields"
    by (simp add: toLowerCase_def lower_unit_def upper_char_def ascii_eval signature_fields_def)
  from field_same [OF assms(3) this, of sd] assms(13) digest_back
  have dg: "digest_check C sha512 (with_signature msg sd) o' r = Some None"
    by (auto simp: digest_check_def signature_wanted_def split: option.splits)
  have "sp_keyid p = sm_keyId so" using assms(6) by (simp add: message_params_def)
  then have key: "vm_resolveKey o' (sp_keyid (ps_params r)) (ps_params r) = Some (Some vk)" using assms(11) by (simp add: r_def)
  have "vm_requiredComponents o' \<noteq> []" "time_check o' (ps_params r) = None" using assms(13) by (simp_all add: signature_wanted_def r_def)
  then have "hs_verdict C sha512 (with_signature msg sd) o' = Some (Inr r)"
    using req(1) sel cov key sg dg by (simp add: hs_verdict_def)
  then show ?thesis by (intro exI [of _ r]) (simp add: r_def)
qed

text \<open>C14 What is signed verifies, within the verifier's limits: take a message without signature fields that \<open>signMessage\<close> signed over at most 32 components, none of them a signature field itself, with created and expires in the range the verifier reads, such that neither resulting field exceeds 8 KiB. With the two fields added it is accepted under the matching key by a verifier without a nonce store whose label, tag, required components, body and times fit the signature, and the verifier reads back exactly the covered components and the signature parameters that were signed, whatever text the keyid, nonce and tag hold. (The signer has no such limits: see the finding on \<open>MAX_COMPONENTS\<close>.)\<close>

theorem http_signature_round_trip:
  assumes "signMessage C msg so now rnd = Inr (Some sd)" "each normalizeComponentId (sm_components so) = Inr ids"
    and "unsigned_message msg" "free_components ids" "length ids \<le> MAX_COMPONENTS" "p = message_params so now rnd"
    and "time_param_ok (sp_created p)" "time_param_ok (sp_expires p)"
    and "length (sd_signatureInput sd) \<le> MAX_FIELD_BYTES" "length (sd_signature sd) \<le> MAX_FIELD_BYTES"
    and "vm_resolveKey o' (sm_keyId so) p = Some (Some vk)" "sign_pair C (sm_key so) vk" "signature_wanted C sha512 msg so ids p o'"
  shows "\<exists>s. verifyMessage C sha512 None st clock (with_signature msg sd) o' = (st, Some (Inr s)) \<and> ps_components s = ids \<and> ps_params s = p"
  using signed_verdict [OF assms] by (auto simp: verifyMessage_def)

text \<open>The nonce reservation is too short: a signature created the whole clock skew ahead of the verifier is accepted, its nonce is reserved for the maximum age and one skew, but the signature stays fresh for another skew. Sent again once the reservation has ended it is accepted a second time.\<close>

theorem nonce_reservation_gap:
  assumes "hs_verdict C sha512 msg (o'\<lparr>vm_now := t1\<rparr>) = Some (Inr s)" "sp_created (ps_params s) = Some (t1 div 1000 + hs_skew o')"
    and "sp_expires (ps_params s) = None" "sp_nonce (ps_params s) = Some n" "0 < hs_max_age o'" "0 \<le> hs_skew o'"
    and "t1 + hs_nonce_ttl o' \<le> t2" "t2 \<le> t1 + hs_nonce_ttl o' + hs_skew o' * 1000" "mem_entries st = []" "0 < mem_max st"
  shows "\<exists>st1. verifyMessage C sha512 (Some mem_check) st t1 msg (o'\<lparr>vm_now := t1\<rparr>) = (st1, Some (Inr s))
    \<and> snd (verifyMessage C sha512 (Some mem_check) st1 t2 msg (o'\<lparr>vm_now := t2\<rparr>)) = Some (Inr s)"
proof -
  have f: "hs_skew (o'\<lparr>vm_now := t\<rparr>) = hs_skew o'" "hs_max_age (o'\<lparr>vm_now := t\<rparr>) = hs_max_age o'" "hs_nonce_ttl (o'\<lparr>vm_now := t\<rparr>) = hs_nonce_ttl o'" for t
    by (simp_all add: hs_skew_def hs_max_age_def hs_nonce_ttl_def)
  have g: "vm_label (o'\<lparr>vm_now := t\<rparr>) = vm_label o'" "vm_tag (o'\<lparr>vm_now := t\<rparr>) = vm_tag o'" "vm_body (o'\<lparr>vm_now := t\<rparr>) = vm_body o'"
    "vm_requireBodyBinding (o'\<lparr>vm_now := t\<rparr>) = vm_requireBodyBinding o'" "vm_request (o'\<lparr>vm_now := t\<rparr>) = vm_request o'" for t
    by simp_all
  have same: "select_signature (o'\<lparr>vm_now := t\<rparr>) = select_signature o'" "coverage_check (o'\<lparr>vm_now := t\<rparr>) = coverage_check o'"
    "signature_check C msg (o'\<lparr>vm_now := t\<rparr>) = signature_check C msg o'" "digest_check C sha512 msg (o'\<lparr>vm_now := t\<rparr>) = digest_check C sha512 msg o'" for t
    unfolding select_signature_def candidates_def coverage_check_def signature_check_def digest_check_def g by (rule refl)+
  obtain required key where v: "each normalizeComponentId (vm_requiredComponents o') = Inr required" "select_signature o' (msg_headers msg) = Inr s"
    "coverage_check o' required s = None" "time_check (o'\<lparr>vm_now := t1\<rparr>) (ps_params s) = None"
    "vm_resolveKey o' (sp_keyid (ps_params s)) (ps_params s) = Some (Some key)" "signature_check C msg o' s key = None" "digest_check C sha512 msg o' s = Some None"
    "vm_requiredComponents o' \<noteq> []"
    using assms(1) by (auto simp: hs_verdict_def same split: if_splits sum.splits option.splits)
  have ttl: "hs_nonce_ttl o' = (hs_max_age o' + hs_skew o') * 1000" using assms(5,6) by (simp add: hs_nonce_ttl_def)
  have "t2 \<le> t1 + (hs_max_age o' + 2 * hs_skew o') * 1000" using assms(8) ttl by simp
  then have "t2 div 1000 \<le> (t1 + (hs_max_age o' + 2 * hs_skew o') * 1000) div 1000" by (rule zdiv_mono1) simp
  then have late: "t2 div 1000 \<le> t1 div 1000 + hs_max_age o' + 2 * hs_skew o'" by simp
  have "t1 div 1000 \<le> t2 div 1000" using assms(5-7) ttl by (intro zdiv_mono1) auto
  then have "time_check (o'\<lparr>vm_now := t2\<rparr>) (ps_params s) = None"
    using v(4) assms(2,3,6) late by (simp add: time_check_def f split: if_splits)
  then have v2: "hs_verdict C sha512 msg (o'\<lparr>vm_now := t2\<rparr>) = Some (Inr s)" using v by (simp add: hs_verdict_def same)
  define k where "k = hs_nonce_key (ps_params s) n"
  define st1 where "st1 = st\<lparr>mem_entries := [(k, t1 + hs_nonce_ttl o')]\<rparr>"
  have pos: "0 < hs_nonce_ttl o'" by (simp add: hs_nonce_ttl_def)
  have "mem_check st k (Fin (hs_nonce_ttl o')) t1 = (st1, Some False)"
    using pos assms(9,10) by (simp add: mem_check_def msize_def st1_def)
  then have "verifyMessage C sha512 (Some mem_check) st t1 msg (o'\<lparr>vm_now := t1\<rparr>) = (st1, Some (Inr s))"
    by (simp add: verifyMessage_def assms(1,4) f k_def)
  moreover have "snd (mem_check st1 k (Fin (hs_nonce_ttl o')) t2) = Some False"
    using pos assms(7,10) by (simp add: mem_check_def Let_def mem_prune_def st1_def msize_def)
  then have "snd (verifyMessage C sha512 (Some mem_check) st1 t2 msg (o'\<lparr>vm_now := t2\<rparr>)) = Some (Inr s)"
    by (auto simp: verifyMessage_def v2 assms(4) f k_def split: prod.splits)
  ultimately show ?thesis by blast
qed

section \<open>The properties at work\<close>

definition demo_mac :: crypto where
  "demo_mac = demo_crypto\<lparr>hmac_raw := \<lambda>k m. [1]\<rparr>"

definition demo_message :: "string \<Rightarrow> http_message" where
  "demo_message url = \<lparr>msg_method = Some (js ''GET''), msg_url = Some (js url), msg_status = None, msg_headers = []\<rparr>"

definition demo_sign_opts :: sign_message_opts where
  "demo_sign_opts = \<lparr>sm_label = None, sm_components = [js ''@method''], sm_key = SignHmac [7], sm_keyId = Some (js ''k''), sm_created = CreatedAt 130,
    sm_expires = None, sm_nonce = GivenNonce (js ''n''), sm_tag = None, sm_includeAlg = False, sm_request = None\<rparr>"

definition demo_ids :: "jstr list" where
  "demo_ids = [34 # js ''@method'' @ [34]]"

definition demo_params :: sig_params where
  "demo_params = message_params demo_sign_opts 0 []"

definition demo_sp :: jstr where
  "demo_sp = 40 # 34 # js ''@method'' @ 34 # 41 # 59 # js ''created'' @ 61 # show_int 130 @ 59 # js ''keyid'' @ 61 # 34 # js ''k'' @ 34 # 59 # js ''nonce'' @ 61 # 34 # js ''n'' @ [34]"

lemma demo_normal: "each normalizeComponentId [js ''@method''] = Inr demo_ids"
  by (simp add: normalizeComponentId_def trim_def ws_char_def ascii_eval Let_def startsWith_def sf_string_def sf_expect_def printable_def
      serializeComponent_def sfString_def sf_escape_def demo_ids_def)

lemma demo_serialized: "serializeSignatureParams demo_ids demo_params = Inr demo_sp"
  by (simp add: serializeSignatureParams_def demo_params_def message_params_def demo_sign_opts_def num_param_def text_param_def sfString_def
      printable_def sf_escape_def demo_sp_def demo_ids_def ascii_eval)

lemma demo_params_times: "time_param_ok (sp_created demo_params)" "time_param_ok (sp_expires demo_params)"
  by (simp_all add: time_param_ok_def demo_params_def message_params_def demo_sign_opts_def)

lemma demo_member: "parseSignatureInputMember demo_sp = Inr (demo_ids, demo_params)"
  by (rule member_back [OF demo_serialized demo_params_times each_canonical [OF demo_normal]]) (simp add: demo_ids_def MAX_COMPONENTS_def)

lemma demo_method: "resolveComponent (34 # js ''@method'' @ [34]) (context_of (demo_message url) None) = Inr (js ''GET'')"
  by (simp add: resolveComponent_def sf_string_def sf_expect_def ascii_eval printable_def context_of_def demo_message_def startsWith_def derived_component_def)

lemma demo_digits: "show_int 130 = [49, 51, 48]"
  by (simp add: show_int_def show_nat.simps)

lemma demo_base: "\<exists>b. \<forall>url. buildSignatureBase demo_ids demo_sp (context_of (demo_message url) None) = Inr b"
  using demo_method
  by (simp add: buildSignatureBase_def demo_ids_def demo_sp_def params_line_start_def ascii_eval demo_digits)

theorem signature_base_binding_witness:
  "resolveComponent (34 # js ''@method'' @ [34]) (context_of (demo_message ''https://h/p'') None)
    = resolveComponent (34 # js ''@method'' @ [34]) (context_of (demo_message ''https://h/q'') None)"
proof -
  obtain b where "\<forall>url. buildSignatureBase demo_ids demo_sp (context_of (demo_message url) None) = Inr b" using demo_base by blast
  then have "\<forall>i \<in> set demo_ids. resolveComponent i (context_of (demo_message ''https://h/p'') None)
      = resolveComponent i (context_of (demo_message ''https://h/q'') None)"
    using signature_base_binding [OF demo_member demo_member] by blast
  then show ?thesis by (simp add: demo_ids_def)
qed

definition demo_verify :: "int \<Rightarrow> verify_message_opts" where
  "demo_verify now = \<lparr>vm_label = None, vm_tag = None, vm_resolveKey = (\<lambda>k p. Some (Some (VerifyHmac [7]))), vm_requiredComponents = [js ''@method''],
    vm_body = None, vm_requireBodyBinding = True, vm_maxAgeMs = None, vm_clockSkewMs = None, vm_requireCreated = True, vm_requireExpires = False,
    vm_now = now, vm_request = None\<rparr>"

lemma demo_signed_message: "\<exists>sd. signMessage demo_mac (demo_message ''https://h/p'') demo_sign_opts 0 [] = Inr (Some sd)
  \<and> length (sd_signatureInput sd) \<le> MAX_FIELD_BYTES \<and> length (sd_signature sd) \<le> MAX_FIELD_BYTES"
proof -
  obtain b where b: "buildSignatureBase demo_ids demo_sp (context_of (demo_message ''https://h/p'') None) = Inr b" using demo_base by blast
  have l: "sf_key (js ''sig1'') = Inr (js ''sig1'', [])" by (simp add: sf_key_def ascii_eval key_start_def key_char_def lower_char_def digit_char_def)
  have r: "34 # js ''@signature-params'' @ [34] \<notin> set demo_ids" by (simp add: demo_ids_def ascii_eval)
  have s: "sm_label demo_sign_opts = None" "sm_components demo_sign_opts = [js ''@method'']" "sm_key demo_sign_opts = SignHmac [7]" "sm_request demo_sign_opts = None"
    by (simp_all add: demo_sign_opts_def)
  have "signBytes demo_mac (SignHmac [7]) (utf8Encode b) = Some [1]" by (simp add: demo_mac_def demo_crypto_def)
  then have "signMessage demo_mac (demo_message ''https://h/p'') demo_sign_opts 0 [] = Inr (Some (signed_fields (js ''sig1'') demo_sp [1]))"
    unfolding signMessage_def s demo_normal demo_params_def [symmetric] using l r b demo_serialized by simp
  then show ?thesis by (simp add: signed_fields_def demo_sp_def demo_digits MAX_FIELD_BYTES_def)
qed

lemma demo_wanted: "now \<in> {100000, 450000} \<Longrightarrow> signature_wanted demo_mac (\<lambda>b. b) (demo_message ''https://h/p'') demo_sign_opts demo_ids demo_params (demo_verify now)"
  using demo_normal
  by (auto simp: signature_wanted_def demo_verify_def time_check_def demo_params_def message_params_def demo_sign_opts_def hs_skew_def hs_max_age_def ceil_s_def
      simp del: each.simps)

lemma demo_free: "free_components demo_ids" "unsigned_message (demo_message url)" "length demo_ids \<le> MAX_COMPONENTS"
  by (auto simp: free_components_def demo_ids_def sf_string_def sf_expect_def ascii_eval printable_def toLowerCase_def lower_unit_def upper_char_def signature_fields_def
      unsigned_message_def demo_message_def MAX_COMPONENTS_def)

lemma demo_sign_pair: "sign_pair demo_mac (sm_key demo_sign_opts) (VerifyHmac [7])"
  by (simp add: sign_pair_def demo_sign_opts_def constantTimeEqual_eq demo_mac_def demo_crypto_def)

lemma demo_sent: "each normalizeComponentId (sm_components demo_sign_opts) = Inr demo_ids" "vm_resolveKey (demo_verify now) (sm_keyId demo_sign_opts) demo_params = Some (Some (VerifyHmac [7]))"
  using demo_normal by (simp_all add: demo_sign_opts_def demo_verify_def del: each.simps)

theorem http_signature_round_trip_witness:
  "\<exists>sd s. verifyMessage demo_mac (\<lambda>b. b) None () 0 (with_signature (demo_message ''https://h/p'') sd) (demo_verify 100000) = ((), Some (Inr s)) \<and> ps_components s = demo_ids"
proof -
  obtain sd where sd: "signMessage demo_mac (demo_message ''https://h/p'') demo_sign_opts 0 [] = Inr (Some sd)"
    "length (sd_signatureInput sd) \<le> MAX_FIELD_BYTES" "length (sd_signature sd) \<le> MAX_FIELD_BYTES" using demo_signed_message by blast
  from http_signature_round_trip [OF sd(1) demo_sent(1) demo_free(2,1,3) demo_params_def demo_params_times sd(2,3) demo_sent(2) demo_sign_pair demo_wanted, of 100000 "()" 0]
  show ?thesis by auto
qed

text \<open>A message the demo verifier accepts.\<close>

lemma demo_verdict_hs: "\<exists>msg s. hs_verdict demo_mac (\<lambda>b. b) msg (demo_verify 100000) = Some (Inr s) \<and> ps_components s = demo_ids \<and> ps_params s = demo_params"
proof -
  obtain sd where sd: "signMessage demo_mac (demo_message ''https://h/p'') demo_sign_opts 0 [] = Inr (Some sd)"
    "length (sd_signatureInput sd) \<le> MAX_FIELD_BYTES" "length (sd_signature sd) \<le> MAX_FIELD_BYTES" using demo_signed_message by blast
  from signed_verdict [OF sd(1) demo_sent(1) demo_free(2,1,3) demo_params_def demo_params_times sd(2,3) demo_sent(2) demo_sign_pair demo_wanted, of 100000]
  show ?thesis by auto
qed

theorem http_signature_sound_witness:
  "\<exists>msg (s :: parsed_signature) base sigs. parseSignatures (msg_headers msg) = Inr sigs \<and> s \<in> set sigs
    \<and> buildSignatureBase (ps_components s) (ps_value s) (context_of msg None) = Inr base \<and> set demo_ids \<subseteq> set (ps_components s)"
proof -
  obtain msg s where v: "hs_verdict demo_mac (\<lambda>b. b) msg (demo_verify 100000) = Some (Inr s)" using demo_verdict_hs by blast
  then have "snd (verifyMessage demo_mac (\<lambda>b. b) None () 0 msg (demo_verify 100000)) = Some (Inr s)" by (simp add: verifyMessage_def)
  note a = http_signature_sound [OF this]
  have o': "vm_requiredComponents (demo_verify 100000) = [js ''@method'']" "vm_request (demo_verify 100000) = None" by (simp_all add: demo_verify_def)
  obtain earlier later where f: "parseSignatures (msg_headers msg) = Inr (earlier @ s # later)" using a by (elim exE conjE) (rule that)
  obtain required key base where "Inr demo_ids = (Inr required :: sig_error + _)" "set required \<subseteq> set (ps_components s)"
    "buildSignatureBase (ps_components s) (ps_value s) (context_of msg None) = Inr base"
    using a unfolding o' demo_normal by (elim exE conjE) (rule that)
  then have "parseSignatures (msg_headers msg) = Inr (earlier @ s # later) \<and> s \<in> set (earlier @ s # later)
    \<and> buildSignatureBase (ps_components s) (ps_value s) (context_of msg None) = Inr base \<and> set demo_ids \<subseteq> set (ps_components s)"
    using f by simp
  then show ?thesis by blast
qed

theorem nonce_reservation_gap_witness:
  "\<exists>msg s st1. verifyMessage demo_mac (\<lambda>b. b) (Some mem_check) demo_store 100000 msg (demo_verify 100000) = (st1, Some (Inr s))
    \<and> snd (verifyMessage demo_mac (\<lambda>b. b) (Some mem_check) st1 450000 msg (demo_verify 450000)) = Some (Inr s)"
proof -
  obtain msg s where v: "hs_verdict demo_mac (\<lambda>b. b) msg (demo_verify 100000) = Some (Inr s)" "ps_params s = demo_params" using demo_verdict_hs by blast
  have e: "demo_verify 0\<lparr>vm_now := t\<rparr> = demo_verify t" for t by (simp add: demo_verify_def)
  have f: "hs_skew (demo_verify 0) = 30" "hs_max_age (demo_verify 0) = 300" "hs_nonce_ttl (demo_verify 0) = 330000"
    by (simp_all add: hs_skew_def hs_max_age_def hs_nonce_ttl_def demo_verify_def ceil_s_def)
  have p: "sp_created (ps_params s) = Some 130" "sp_expires (ps_params s) = None" "sp_nonce (ps_params s) = Some (js ''n'')"
    by (simp_all add: v(2) demo_params_def message_params_def demo_sign_opts_def)
  show ?thesis
    using nonce_reservation_gap [where C = demo_mac and ?sha512.0 = "\<lambda>b. b" and msg = msg and o' = "demo_verify 0" and ?t1.0 = 100000 and ?t2.0 = 450000
        and s = s and n = "js ''n''" and st = demo_store] v(1) p
    unfolding e f by (auto simp: demo_store_def)
qed

end
