(* ===== verification/Gateway.thy ===== *)
theory Gateway
  imports GatewayPath HttpSignature Provenance RateLimiter Capability
begin

text \<open>
  The gateway (\<open>gateway.ts\<close>): \<open>createGateway\<close> and \<open>createProductionGateway\<close>, the four ways a
  request authenticates (capability chain, DPoP, HTTP signature, envelope), the sender, rate and
  approval gates every one of them passes, and the request forwarded to the upstream. The stores
  the configuration brings share one state \<open>'st\<close>; the stores and the limiter the gateway owns are
  fields of \<open>gateway_state\<close>. What the platform provides is the record \<open>platform\<close>; the readings
  of the clock at the awaits of a request are the record \<open>moments\<close>. Metrics are left out.
\<close>

section \<open>Configuration and state\<close>

type_synonym 'st store_check = "'st \<Rightarrow> jstr \<Rightarrow> jnum \<Rightarrow> int \<Rightarrow> 'st \<times> bool option"

text \<open>
  Hashes, signatures, the URL parser, \<open>JSON.parse\<close>, \<open>JSON.parse\<close> of a text that holds a
  capability chain (\<open>None\<close>: it throws) and the number printing of \<open>Cbor\<close>. The source takes
  what it parsed for a chain without looking; \<open>pf_chain\<close> gives tokens whose members have their
  declared types, of which only the two times may be missing. A text that parses to anything
  else has no counterpart here.
\<close>

record platform =
  pf_crypto :: crypto
  pf_sha512 :: "bytes \<Rightarrow> bytes"
  pf_jose :: jose
  pf_url :: url_parser
  pf_parse :: "jstr \<Rightarrow> json option"
  pf_chain :: "jstr \<Rightarrow> token list option"
  pf_num :: "cbor \<Rightarrow> jstr"

text \<open>The issuer of server nonces: \<open>issue\<close> at a moment, \<open>validate\<close> at a moment (it may throw).\<close>

record dpop_nonce =
  dn_required :: "bool option"
  dn_issue :: "int \<Rightarrow> jstr"
  dn_validate :: "int \<Rightarrow> jstr \<Rightarrow> bool option"

record 'st dpop_config =
  gd_resolveToken :: "jstr \<Rightarrow> (jstr \<times> jstr) option option"
  gd_nonce :: "dpop_nonce option"
  gd_maxAgeMs :: "int option"
  gd_allowedAlgs :: "jws_alg list option"
  gd_scheme :: "jstr option"
  gd_trustForwardedHost :: bool
  gd_replayStore :: "'st store_check option"

record 'st signature_config =
  gs_resolveKey :: "jstr option \<Rightarrow> sig_params \<Rightarrow> (verification_key \<times> jstr) option option"
  gs_tag :: "jstr option"
  gs_requiredComponents :: "jstr list option"
  gs_maxAgeMs :: "int option"
  gs_requireExpires :: bool
  gs_requireBodyBinding :: "bool option"
  gs_scheme :: "jstr option"
  gs_trustForwardedHost :: bool
  gs_nonceStore :: "'st store_check option"
  gs_label :: "jstr option"

datatype default_policy = AllowUnmatched | DenyUnmatched

record 'st gateway_config =
  gc_upstream :: jstr
  gc_keyRegistry :: key_registry
  gc_policies :: "route_policy list"
  gc_privateKey :: "jstr option"
  gc_sender :: "jstr option"
  gc_signResponses :: "bool option"
  gc_defaultPolicy :: "default_policy option"
  gc_headerName :: "jstr option"
  gc_replayStore :: "'st store_check option"
  gc_rateLimitStore :: "('st \<Rightarrow> jstr \<Rightarrow> policy \<Rightarrow> int \<Rightarrow> 'st \<times> limit_result option) option"
  gc_capabilityRegistry :: "(jstr \<Rightarrow> jstr option) option"
  gc_approverRegistry :: "(jstr \<Rightarrow> jstr option) option"
  gc_approvalReplayStore :: "'st store_check option"
  gc_httpSignature :: "'st signature_config option"
  gc_dpop :: "'st dpop_config option"

record gateway_request =
  rq_method :: jstr
  rq_path :: jstr
  rq_headers :: http_headers
  rq_body :: "jstr option"

record 'st gateway_state =
  gw_world :: 'st
  gw_limiter :: limiter
  gw_approvalStore :: memory_store
  gw_nonceStore :: memory_store
  gw_dpopStore :: memory_store

record moments =
  at_verify :: int
  at_store :: int
  at_limit :: int
  at_claim :: int
  at_approval :: int
  at_approval_store :: int

section \<open>Outcomes\<close>

datatype signature_reason = SigMissingHost | SigUnverifiable | SigFailed hms_failure

datatype dpop_reason = DpopMissingToken | DpopInvalidToken | DpopMissingHost | DpopUnverifiable | DpopFailed dpop_failure

datatype deny_reason =
  InvalidPath | SenderDenied | RateLimited | ApprovalRequired | ApprovalInvalid approval_failure
  | SignatureRefused signature_reason | DpopRefused dpop_reason
  | CapabilityRefused chain_error | CapabilityScopeMismatch | InvalidCapabilityChain
  | NoMatchingPolicy | EnvelopeRefused http_failure | ReplayDetected | WrongAlgorithm

text \<open>The details of a refused approval and the headers of a DPoP challenge.\<close>

record denial =
  dn_status :: int
  dn_reason :: deny_reason
  dn_detail :: "(bound_action \<times> jstr list \<times> trust) option"
  dn_headers :: "(jstr \<times> jstr) list"

record acceptance =
  ac_sender :: jstr
  ac_envelopeId :: "jstr option"
  ac_approvedBy :: "jstr option"
  ac_trust :: "trust option"

datatype outcome = Accepted acceptance | Denied denial

definition deny :: "int \<Rightarrow> deny_reason \<Rightarrow> outcome" where
  "deny status r = Denied \<lparr>dn_status = status, dn_reason = r, dn_detail = None, dn_headers = []\<rparr>"

section \<open>Headers\<close>

definition getHeader :: "http_headers \<Rightarrow> jstr \<Rightarrow> jstr option" where
  "getHeader hs name =
    (case List.find (\<lambda>(k, v). toLowerCase k = toLowerCase name) hs of
       None \<Rightarrow> None
     | Some (k, v) \<Rightarrow> first_value (Some v))"

definition CAP_HEADER :: jstr where
  "CAP_HEADER = js ''x-7h3-capability''"

definition APPROVAL_HEADER :: jstr where
  "APPROVAL_HEADER = js ''x-7h3-approval''"

definition PROVENANCE_HEADER :: jstr where
  "PROVENANCE_HEADER = js ''x-7h3-provenance''"

definition DPOP_HEADER :: jstr where
  "DPOP_HEADER = js ''dpop''"

definition DPOP_NONCE_HEADER :: jstr where
  "DPOP_NONCE_HEADER = js ''dpop-nonce''"

definition SENDER_HEADER :: jstr where
  "SENDER_HEADER = js ''x-7h3-sender''"

definition VERIFIED_HEADER :: jstr where
  "VERIFIED_HEADER = js ''x-7h3-verified''"

definition APPROVED_BY_HEADER :: jstr where
  "APPROVED_BY_HEADER = js ''x-7h3-approved-by''"

definition TRUST_HEADER :: jstr where
  "TRUST_HEADER = js ''x-7h3-trust''"

definition GATEWAY_OWNED_HEADERS :: "jstr list" where
  "GATEWAY_OWNED_HEADERS = [SENDER_HEADER, VERIFIED_HEADER, APPROVED_BY_HEADER, TRUST_HEADER, APPROVAL_HEADER, DPOP_HEADER]"

section \<open>Construction\<close>

text \<open>
  \<open>a ?? b ?? new MemoryReplayStore()\<close>: a store of the configuration works on the shared
  state, the fallback is a field of the gateway, read by \<open>own\<close> and written by \<open>put\<close>.
\<close>

definition resolved_store ::
  "'st store_check option \<Rightarrow> 'st store_check option \<Rightarrow> ('st gateway_state \<Rightarrow> memory_store) \<Rightarrow> (memory_store \<Rightarrow> 'st gateway_state \<Rightarrow> 'st gateway_state)
    \<Rightarrow> 'st gateway_state store_check" where
  "resolved_store special shared own put g key ttl now =
    (case (case special of None \<Rightarrow> shared | Some s \<Rightarrow> Some s) of
       Some chk \<Rightarrow> (case chk (gw_world g) key ttl now of (w, r) \<Rightarrow> (g\<lparr>gw_world := w\<rparr>, r))
     | None \<Rightarrow> (case mem_check (own g) key ttl now of (m, r) \<Rightarrow> (put m g, r)))"

definition approvalStore :: "'st gateway_config \<Rightarrow> 'st gateway_state store_check" where
  "approvalStore cfg = resolved_store (gc_approvalReplayStore cfg) (gc_replayStore cfg) gw_approvalStore (\<lambda>m g. g\<lparr>gw_approvalStore := m\<rparr>)"

definition httpSigNonceStore :: "'st gateway_config \<Rightarrow> 'st gateway_state store_check" where
  "httpSigNonceStore cfg = resolved_store (case gc_httpSignature cfg of None \<Rightarrow> None | Some s \<Rightarrow> gs_nonceStore s) (gc_replayStore cfg)
     gw_nonceStore (\<lambda>m g. g\<lparr>gw_nonceStore := m\<rparr>)"

definition dpopStore :: "'st gateway_config \<Rightarrow> 'st gateway_state store_check" where
  "dpopStore cfg = resolved_store (case gc_dpop cfg of None \<Rightarrow> None | Some d \<Rightarrow> gd_replayStore d) (gc_replayStore cfg)
     gw_dpopStore (\<lambda>m g. g\<lparr>gw_dpopStore := m\<rparr>)"

definition fresh_store :: memory_store where
  "fresh_store = \<lparr>mem_entries = [], mem_max = 10000\<rparr>"

definition fresh_limiter :: limiter where
  "fresh_limiter = \<lparr>windows = [], maxKeys = 50000\<rparr>"

datatype config_error =
  DpopNotConfigured | HttpSignatureNotConfigured | ApprovalOnOpenRoute jstr | NoApproverRegistry jstr | NoApprovers jstr
  | DefaultPolicyNotDeny | ReplayStoreMissing

definition approval_config_error :: "'st gateway_config \<Rightarrow> route_policy \<Rightarrow> config_error option" where
  "approval_config_error cfg p =
    (case approval p of
       None \<Rightarrow> None
     | Some rule \<Rightarrow>
         if require p = ReqNone then Some (ApprovalOnOpenRoute (path p))
         else if gc_approverRegistry cfg = None then Some (NoApproverRegistry (path p))
         else if approvers rule = [] then Some (NoApprovers (path p))
         else None)"

text \<open>The first policy, in order, that cannot be enforced stops the construction.\<close>

definition createGateway :: "'st gateway_config \<Rightarrow> 'st \<Rightarrow> config_error + 'st gateway_state" where
  "createGateway cfg w =
    (if (\<exists>p \<in> set (gc_policies cfg). require p = ReqDpop) \<and> gc_dpop cfg = None then Inl DpopNotConfigured
     else if (\<exists>p \<in> set (gc_policies cfg). require p = ReqHttpSignature) \<and> gc_httpSignature cfg = None then Inl HttpSignatureNotConfigured
     else case List.map_filter (approval_config_error cfg) (gc_policies cfg) of
       e # _ \<Rightarrow> Inl e
     | [] \<Rightarrow> Inr \<lparr>gw_world = w, gw_limiter = fresh_limiter, gw_approvalStore = fresh_store, gw_nonceStore = fresh_store, gw_dpopStore = fresh_store\<rparr>)"

definition createProductionGateway :: "'st gateway_config \<Rightarrow> 'st \<Rightarrow> config_error + 'st gateway_state" where
  "createProductionGateway cfg w =
    (if gc_defaultPolicy cfg \<noteq> Some DenyUnmatched then Inl DefaultPolicyNotDeny
     else if gc_replayStore cfg = None then Inl ReplayStoreMissing
     else createGateway cfg w)"

section \<open>The gates behind every authentication\<close>

text \<open>The outer option is a throw, the inner one the denial.\<close>

definition checkSenderAndRateLimit ::
  "'st gateway_config \<Rightarrow> 'st gateway_state \<Rightarrow> int \<Rightarrow> route_policy option \<Rightarrow> jstr \<Rightarrow> 'st gateway_state \<times> outcome option option" where
  "checkSenderAndRateLimit cfg g now pol s =
    (case pol of
       None \<Rightarrow> (g, Some None)
     | Some p \<Rightarrow>
         if \<not> isAllowedSender p s then (g, Some (Some (deny 403 SenderDenied)))
         else (case rateLimit p of
           None \<Rightarrow> (g, Some None)
         | Some (n, w) \<Rightarrow>
             (case (case gc_rateLimitStore cfg of
                      Some use \<Rightarrow> (case use (gw_world g) s \<lparr>requests = n, windowMs = w\<rparr> now of (st, r) \<Rightarrow> (g\<lparr>gw_world := st\<rparr>, r))
                    | None \<Rightarrow> (case limit_consume (gw_limiter g) s \<lparr>requests = n, windowMs = w\<rparr> now of (l, r) \<Rightarrow> (g\<lparr>gw_limiter := l\<rparr>, Some r))) of
                (g', None) \<Rightarrow> (g', None)
              | (g', Some r) \<Rightarrow> (g', Some (if allowed r then None else Some (deny 429 RateLimited))))))"

text \<open>\<open>verifyProvenance\<close> with the gateway's registry, whose lookup may throw.\<close>

definition claimed_trust :: "platform \<Rightarrow> key_registry \<Rightarrow> int \<Rightarrow> jstr \<Rightarrow> bound_action \<Rightarrow> jstr option \<Rightarrow> trust option" where
  "claimed_trust P reg now s act raw =
    (case verifyProvenance (pf_crypto P) (parseProvenance (pf_parse P) raw)
       \<lparr>po_keys = \<lambda>k. (case reg_public reg (Some (JStr k)) of None \<Rightarrow> None | Some r \<Rightarrow> r), po_sender = s, po_action = act,
        po_now = now, po_skew = MAX_CLOCK_SKEW_MS\<rparr> of
       None \<Rightarrow> None
     | Some r \<Rightarrow> if r = Inl NoSenderKey \<and> reg_public reg (Some (JStr s)) = None then None else Some (effectiveTrust r))"

definition approval_denial :: "deny_reason \<Rightarrow> bound_action \<Rightarrow> jstr list \<Rightarrow> trust \<Rightarrow> outcome" where
  "approval_denial r act aps t = Denied \<lparr>dn_status = 403, dn_reason = r, dn_detail = Some (act, aps, t), dn_headers = []\<rparr>"

definition approval_opts_of :: "(jstr \<Rightarrow> jstr option) \<Rightarrow> jstr list \<Rightarrow> jstr \<Rightarrow> bound_action \<Rightarrow> int \<Rightarrow> verify_opts" where
  "approval_opts_of reg aps s act now =
    \<lparr>vo_approverKeys = reg, vo_allowedApprovers = aps, vo_subject = s, vo_action = act, vo_now = now, vo_skew = MAX_CLOCK_SKEW_MS\<rparr>"

text \<open>The approval step once the trust of the inputs is known.\<close>

definition requireApproval ::
  "platform \<Rightarrow> 'st gateway_config \<Rightarrow> 'st gateway_state \<Rightarrow> moments \<Rightarrow> jstr list \<Rightarrow> jstr \<Rightarrow> bound_action \<Rightarrow> jstr option \<Rightarrow> trust
    \<Rightarrow> 'st gateway_state \<times> (outcome + (jstr option \<times> trust option)) option" where
  "requireApproval P cfg g t aps s act raw tr =
    (case parseApproval (pf_parse P) raw of
       None \<Rightarrow> (g, Some (Inl (approval_denial ApprovalRequired act aps tr)))
     | Some grant \<Rightarrow>
         (case gc_approverRegistry cfg of
            None \<Rightarrow> (g, None)
          | Some reg \<Rightarrow>
              (case verifyApproval (pf_crypto P) (Some (approvalStore cfg)) g (at_approval_store t) (Some grant)
                      (approval_opts_of reg aps s act (at_approval t)) of
                 (g', None) \<Rightarrow> (g', None)
               | (g', Some (Inl e)) \<Rightarrow> (g', Some (Inl (approval_denial (ApprovalInvalid e) act aps tr)))
               | (g', Some (Inr gr)) \<Rightarrow> (g', Some (Inr (Some (g_approver gr), Some tr))))))"

definition enforceApproval ::
  "platform \<Rightarrow> 'st gateway_config \<Rightarrow> 'st gateway_state \<Rightarrow> moments \<Rightarrow> route_policy option \<Rightarrow> jstr \<Rightarrow> gateway_request \<Rightarrow> jstr
    \<Rightarrow> 'st gateway_state \<times> (outcome + (jstr option \<times> trust option)) option" where
  "enforceApproval P cfg g t pol s req np =
    (case (case pol of None \<Rightarrow> None | Some p \<Rightarrow> approval p) of
       None \<Rightarrow> (g, Some (Inr (None, None)))
     | Some rule \<Rightarrow>
         (case bindAction (pf_crypto P) (rq_method req) np (rq_body req) of
            None \<Rightarrow> (g, None)
          | Some act \<Rightarrow>
              let raw = getHeader (rq_headers req) APPROVAL_HEADER in
              (case approval_require rule of
                 Always \<Rightarrow> requireApproval P cfg g t (approvers rule) s act raw trust.Untrusted
               | approval_require.Untrusted \<Rightarrow>
                   (case claimed_trust P (gc_keyRegistry cfg) (at_claim t) s act (getHeader (rq_headers req) PROVENANCE_HEADER) of
                      None \<Rightarrow> (g, None)
                    | Some Trusted \<Rightarrow> (g, Some (Inr (None, Some Trusted)))
                    | Some trust.Untrusted \<Rightarrow> requireApproval P cfg g t (approvers rule) s act raw trust.Untrusted))))"

text \<open>The common end of the four routes, once the caller is authenticated as \<open>s\<close>.\<close>

definition admit ::
  "platform \<Rightarrow> 'st gateway_config \<Rightarrow> 'st gateway_state \<Rightarrow> moments \<Rightarrow> route_policy option \<Rightarrow> jstr \<Rightarrow> jstr option \<Rightarrow> gateway_request \<Rightarrow> jstr
    \<Rightarrow> 'st gateway_state \<times> outcome option" where
  "admit P cfg g t pol s eid req np =
    (case checkSenderAndRateLimit cfg g (at_limit t) pol s of
       (g1, None) \<Rightarrow> (g1, None)
     | (g1, Some (Some d)) \<Rightarrow> (g1, Some d)
     | (g1, Some None) \<Rightarrow>
         (case enforceApproval P cfg g1 t pol s req np of
            (g2, None) \<Rightarrow> (g2, None)
          | (g2, Some (Inl d)) \<Rightarrow> (g2, Some d)
          | (g2, Some (Inr (ab, tr))) \<Rightarrow> (g2, Some (Accepted \<lparr>ac_sender = s, ac_envelopeId = eid, ac_approvedBy = ab, ac_trust = tr\<rparr>))))"

section \<open>The four ways to authenticate\<close>

text \<open>A string member of a received header; validated envelopes have one under every name read here.\<close>

definition text_member :: "json \<Rightarrow> string \<Rightarrow> jstr" where
  "text_member h name = string_or_empty (jmember h name)"

definition authority_of :: "bool \<Rightarrow> http_headers \<Rightarrow> jstr option" where
  "authority_of forwarded hs = getHeader hs (if forwarded then js ''x-forwarded-host'' else js ''host'')"

definition url_of :: "jstr option \<Rightarrow> jstr \<Rightarrow> jstr \<Rightarrow> jstr" where
  "url_of scheme authority p = (case scheme of None \<Rightarrow> js ''https'' | Some s \<Rightarrow> s) @ js ''://'' @ authority @ p"

definition gateway_message :: "'st signature_config \<Rightarrow> jstr \<Rightarrow> gateway_request \<Rightarrow> http_message" where
  "gateway_message c authority req =
    \<lparr>msg_method = Some (rq_method req), msg_url = Some (url_of (gs_scheme c) authority (rq_path req)), msg_status = None, msg_headers = rq_headers req\<rparr>"

definition default_components :: "jstr \<Rightarrow> jstr list" where
  "default_components p = [js ''@method'', js ''@authority'', js ''@path''] @ (if 63 \<in> set p then [js ''@query''] else [])"

definition gateway_signature_opts :: "'st signature_config \<Rightarrow> gateway_request \<Rightarrow> int \<Rightarrow> verify_message_opts" where
  "gateway_signature_opts c req now =
    \<lparr>vm_label = gs_label c, vm_tag = gs_tag c,
     vm_resolveKey = \<lambda>kid p. map_option (map_option fst) (gs_resolveKey c kid p),
     vm_requiredComponents = (case gs_requiredComponents c of None \<Rightarrow> default_components (rq_path req) | Some l \<Rightarrow> l),
     vm_body = map_option utf8Encode (rq_body req),
     vm_requireBodyBinding = (case gs_requireBodyBinding c of None \<Rightarrow> True | Some b \<Rightarrow> b),
     vm_maxAgeMs = gs_maxAgeMs c, vm_clockSkewMs = None, vm_requireCreated = True, vm_requireExpires = gs_requireExpires c,
     vm_now = now, vm_request = None\<rparr>"

definition sig_denial :: "signature_reason \<Rightarrow> outcome" where
  "sig_denial r = deny 401 (SignatureRefused r)"

definition verifyHttpSignature ::
  "platform \<Rightarrow> 'st gateway_config \<Rightarrow> 'st gateway_state \<Rightarrow> moments \<Rightarrow> route_policy \<Rightarrow> gateway_request \<Rightarrow> jstr
    \<Rightarrow> 'st gateway_state \<times> outcome option" where
  "verifyHttpSignature P cfg g t pol req np =
    (case gc_httpSignature cfg of
       None \<Rightarrow> (g, None)
     | Some c \<Rightarrow>
         (case authority_of (gs_trustForwardedHost c) (rq_headers req) of
            None \<Rightarrow> (g, Some (sig_denial SigMissingHost))
          | Some a \<Rightarrow>
              if a = [] then (g, Some (sig_denial SigMissingHost))
              else (case verifyMessage (pf_crypto P) (pf_sha512 P) (Some (httpSigNonceStore cfg)) g (at_store t)
                      (gateway_message c a req) (gateway_signature_opts c req (at_verify t)) of
                (g', None) \<Rightarrow> (g', Some (sig_denial SigUnverifiable))
              | (g', Some (Inl e)) \<Rightarrow> (g', Some (sig_denial (SigFailed e)))
              | (g', Some (Inr s)) \<Rightarrow>
                  (case gs_resolveKey c (sp_keyid (ps_params s)) (ps_params s) of
                     Some (Some (k, sender')) \<Rightarrow> admit P cfg g' t (Some pol) sender' None req np
                   | _ \<Rightarrow> (g', None)))))"

text \<open>Every value under the name, the values of a repeated field in order.\<close>

definition dpop_proofs :: "http_headers \<Rightarrow> jstr list" where
  "dpop_proofs hs = concat (map (\<lambda>(k, v). if toLowerCase k = DPOP_HEADER then (case v of Single x \<Rightarrow> [x] | Multi xs \<Rightarrow> xs) else []) hs)"

definition gateway_dpop_opts :: "'st dpop_config \<Rightarrow> jstr \<Rightarrow> jstr \<Rightarrow> jstr \<Rightarrow> gateway_request \<Rightarrow> int \<Rightarrow> dpop_opts" where
  "gateway_dpop_opts c authority tok jkt req now =
    \<lparr>do_method = rq_method req, do_url = url_of (gd_scheme c) authority (takeWhile (\<lambda>u. u \<notin> {63, 35}) (rq_path req)),
     do_accessToken = Some tok, do_expectedJkt = Some jkt,
     do_nonce = map_option (\<lambda>n. (case dn_required n of None \<Rightarrow> True | Some b \<Rightarrow> b, dn_validate n now)) (gd_nonce c),
     do_allowedAlgs = gd_allowedAlgs c, do_maxAgeMs = gd_maxAgeMs c, do_clockSkewMs = None, do_now = now\<rparr>"

text \<open>\<open>fail\<close>: status 401, the challenge header and, when asked for, a fresh nonce.\<close>

definition dpop_denial :: "'st dpop_config \<Rightarrow> int \<Rightarrow> dpop_reason \<Rightarrow> outcome" where
  "dpop_denial c now r =
    (let challenge = (r = DpopFailed NonceRequired \<or> r = DpopFailed NonceMismatch) in
     Denied \<lparr>dn_status = 401, dn_reason = DpopRefused r, dn_detail = None,
       dn_headers = (js ''www-authenticate'', js ''DPoP error='' @ 34 # (if challenge then js ''use_dpop_nonce'' else js ''invalid_dpop_proof'') @ [34])
         # (if challenge then (case gd_nonce c of None \<Rightarrow> [] | Some n \<Rightarrow> [(DPOP_NONCE_HEADER, dn_issue n now)]) else [])\<rparr>)"

definition verifyDpop ::
  "platform \<Rightarrow> 'st gateway_config \<Rightarrow> 'st gateway_state \<Rightarrow> moments \<Rightarrow> route_policy \<Rightarrow> gateway_request \<Rightarrow> jstr
    \<Rightarrow> 'st gateway_state \<times> outcome option" where
  "verifyDpop P cfg g t pol req np =
    (case gc_dpop cfg of
       None \<Rightarrow> (g, None)
     | Some c \<Rightarrow>
         (case parseDpopAuthorization (getHeader (rq_headers req) (js ''authorization'')) of
            None \<Rightarrow> (g, Some (dpop_denial c (at_verify t) DpopMissingToken))
          | Some tok \<Rightarrow>
              (case gd_resolveToken c tok of
                 None \<Rightarrow> (g, None)
               | Some None \<Rightarrow> (g, Some (dpop_denial c (at_verify t) DpopInvalidToken))
               | Some (Some (owner, jkt)) \<Rightarrow>
                   if jkt = [] then (g, Some (dpop_denial c (at_verify t) DpopInvalidToken))
                   else (case authority_of (gd_trustForwardedHost c) (rq_headers req) of
                     None \<Rightarrow> (g, Some (dpop_denial c (at_verify t) DpopMissingHost))
                   | Some a \<Rightarrow>
                       if a = [] then (g, Some (dpop_denial c (at_verify t) DpopMissingHost))
                       else (case verifyDpopProof (pf_crypto P) (pf_jose P) (pf_url P) (pf_parse P) (Some (dpopStore cfg)) g (at_store t)
                               (dpop_proofs (rq_headers req)) (gateway_dpop_opts c a tok jkt req (at_verify t)) of
                         (g', None) \<Rightarrow> (g', Some (dpop_denial c (at_verify t) DpopUnverifiable))
                       | (g', Some (Inl e)) \<Rightarrow> (g', Some (dpop_denial c (at_verify t) (DpopFailed e)))
                       | (g', Some (Inr r)) \<Rightarrow> admit P cfg g' t (Some pol) owner None req np)))))"

text \<open>The capability header, read under its exact name; every throw on this way ends in one refusal.\<close>

definition capability_header :: "http_headers \<Rightarrow> jstr option" where
  "capability_header hs = (case first_value (mget hs CAP_HEADER) of None \<Rightarrow> None | Some c \<Rightarrow> if c = [] then None else Some c)"

definition verifyCapability ::
  "platform \<Rightarrow> 'st gateway_config \<Rightarrow> 'st gateway_state \<Rightarrow> moments \<Rightarrow> route_policy option \<Rightarrow> (jstr \<Rightarrow> jstr option) \<Rightarrow> jstr \<Rightarrow> gateway_request \<Rightarrow> jstr
    \<Rightarrow> 'st gateway_state \<times> outcome option" where
  "verifyCapability P cfg g t pol reg cap req np =
    (let thrown = deny 401 InvalidCapabilityChain in
     case pf_chain P cap of
       None \<Rightarrow> (g, Some thrown)
     | Some chain \<Rightarrow>
         (case verifyCapabilityChain (pf_crypto P) chain reg (Some (rq_path req)) (Some (rq_method req)) (at_verify t) of
            None \<Rightarrow> (g, Some thrown)
          | Some (Inl e) \<Rightarrow> (g, Some (deny 401 (CapabilityRefused e)))
          | Some (Inr tok) \<Rightarrow>
              if tokenMatchesScope tok (rq_path req) (Some (rq_method req)) then
                (case admit P cfg g t pol (subject tok) None req np of
                   (g', None) \<Rightarrow> (g', Some thrown)
                 | r \<Rightarrow> r)
              else (g, Some (deny 401 CapabilityScopeMismatch))))"

text \<open>Whether the algorithm of the envelope is the one the policy asks for.\<close>

definition wrong_algorithm :: "route_policy option \<Rightarrow> json option \<Rightarrow> bool" where
  "wrong_algorithm pol a =
    (case pol of None \<Rightarrow> False
     | Some p \<Rightarrow> (require p = ReqEd25519 \<and> a \<noteq> Some (JStr (js ''ED25519''))) \<or> (require p = ReqHmac \<and> a \<noteq> Some (JStr (js ''HS256''))))"

definition verifyEnvelopeRoute ::
  "platform \<Rightarrow> 'st gateway_config \<Rightarrow> 'st gateway_state \<Rightarrow> moments \<Rightarrow> route_policy option \<Rightarrow> gateway_request \<Rightarrow> jstr
    \<Rightarrow> 'st gateway_state \<times> outcome option" where
  "verifyEnvelopeRoute P cfg g t pol req np =
    (case verifyHttpEnvelope (pf_crypto P) (pf_parse P) (pf_num P)
            \<lparr>ho_registry = Some (gc_keyRegistry cfg), ho_headerName = gc_headerName cfg, ho_strictTtl = None\<rparr> (rq_headers req) None (at_verify t) of
       None \<Rightarrow> (g, None)
     | Some (Inl e) \<Rightarrow> (g, Some (deny 401 (EnvelopeRefused e)))
     | Some (Inr e) \<Rightarrow>
         let h = the (jmember e ''header'') in
         (case (case gc_replayStore cfg of
                  None \<Rightarrow> (g, Some False)
                | Some chk \<Rightarrow> (case chk (gw_world g) (text_member h ''nonce'') (finite_or_nan (jmember h ''ttlMs'')) (at_store t) of
                    (w, r) \<Rightarrow> (g\<lparr>gw_world := w\<rparr>, r))) of
            (g', None) \<Rightarrow> (g', None)
          | (g', Some True) \<Rightarrow> (g', Some (deny 401 ReplayDetected))
          | (g', Some False) \<Rightarrow>
              if wrong_algorithm pol (jmember (the (jmember e ''signature'')) ''alg'') then (g', Some (deny 401 WrongAlgorithm))
              else admit P cfg g' t pol (text_member h ''sender'') (Some (text_member h ''messageId'')) req np))"

definition verify ::
  "platform \<Rightarrow> 'st gateway_config \<Rightarrow> 'st gateway_state \<Rightarrow> moments \<Rightarrow> gateway_request \<Rightarrow> 'st gateway_state \<times> outcome option" where
  "verify P cfg g t req =
    (case normalizeGatewayPath (rq_path req) of
       None \<Rightarrow> (g, Some (deny 400 InvalidPath))
     | Some np \<Rightarrow>
         let pol = matchPolicy (gc_policies cfg) np; unmatched_ok = (gc_defaultPolicy cfg \<noteq> Some DenyUnmatched) in
         if map_option require pol = Some ReqNone \<or> (pol = None \<and> unmatched_ok)
         then (g, Some (Accepted \<lparr>ac_sender = [], ac_envelopeId = None, ac_approvedBy = None, ac_trust = None\<rparr>))
         else (case (gc_capabilityRegistry cfg, capability_header (rq_headers req)) of
           (Some reg, Some cap) \<Rightarrow> verifyCapability P cfg g t pol reg cap req np
         | _ \<Rightarrow>
             (case pol of
                None \<Rightarrow> (g, Some (deny 403 NoMatchingPolicy))
              | Some p \<Rightarrow>
                  if require p = ReqDpop then verifyDpop P cfg g t p req np
                  else if require p = ReqHttpSignature then verifyHttpSignature P cfg g t p req np
                  else verifyEnvelopeRoute P cfg g t pol req np)))"

section \<open>Forwarding\<close>

text \<open>The request sent upstream, the response received, and the response returned.\<close>

record forwarded_request =
  fw_url :: jstr
  fw_method :: jstr
  fw_headers :: "(jstr, jstr option) jsmap"
  fw_body :: "jstr option"

record upstream_response =
  up_status :: int
  up_contentType :: "jstr option"
  up_body :: jstr

datatype response_body = ErrorBody deny_reason "(bound_action \<times> jstr list \<times> trust) option" | TextBody jstr

record gateway_response =
  gr_status :: int
  gr_headers :: "(jstr, jstr) jsmap"
  gr_body :: response_body

definition client_headers :: "http_headers \<Rightarrow> (jstr, jstr option) jsmap" where
  "client_headers hs =
    foldl (\<lambda>m (k, v). if toLowerCase k \<in> set GATEWAY_OWNED_HEADERS then m else mset_key m k (first_value (Some v))) [] hs"

definition add_header :: "jstr \<Rightarrow> jstr option \<Rightarrow> (jstr, jstr option) jsmap \<Rightarrow> (jstr, jstr option) jsmap" where
  "add_header name v m = (case v of None \<Rightarrow> m | Some [] \<Rightarrow> m | Some s \<Rightarrow> mset_key m name (Some s))"

definition forward_headers :: "acceptance \<Rightarrow> http_headers \<Rightarrow> (jstr, jstr option) jsmap" where
  "forward_headers a hs =
    add_header TRUST_HEADER (map_option trust_text (ac_trust a))
      (add_header APPROVED_BY_HEADER (ac_approvedBy a)
        (add_header VERIFIED_HEADER (if ac_sender a = [] then None else Some (js ''true''))
          (add_header SENDER_HEADER (Some (ac_sender a)) (client_headers hs))))"

text \<open>\<open>upstream.replace(/\/$/, '')\<close>.\<close>

definition upstream_base :: "jstr \<Rightarrow> jstr" where
  "upstream_base u = (if u \<noteq> [] \<and> last u = 47 then butlast u else u)"

definition forward_request :: "'st gateway_config \<Rightarrow> acceptance \<Rightarrow> gateway_request \<Rightarrow> forwarded_request" where
  "forward_request cfg a req =
    \<lparr>fw_url = upstream_base (gc_upstream cfg) @ (case normalizeGatewayPath (rq_path req) of None \<Rightarrow> js ''null'' | Some np \<Rightarrow> np),
     fw_method = rq_method req, fw_headers = forward_headers a (rq_headers req), fw_body = rq_body req\<rparr>"

text \<open>The key import of the response signature may throw: \<open>None\<close>.\<close>

definition signed_headers :: "crypto \<Rightarrow> 'st gateway_config \<Rightarrow> acceptance \<Rightarrow> jstr \<Rightarrow> int \<Rightarrow> bytes \<Rightarrow> bytes \<Rightarrow> http_headers option" where
  "signed_headers C cfg a text clock rnd6 rnd12 =
    (case (gc_privateKey cfg, gc_sender cfg) of
       (Some priv, Some s) \<Rightarrow>
         if gc_signResponses cfg = Some False then Some []
         else signResponse C text priv s (if ac_sender a = [] then None else Some (ac_sender a)) None None clock rnd6 rnd12
     | _ \<Rightarrow> Some [])"

definition gateway_reply :: "crypto \<Rightarrow> 'st gateway_config \<Rightarrow> acceptance \<Rightarrow> upstream_response \<Rightarrow> int \<Rightarrow> bytes \<Rightarrow> bytes \<Rightarrow> gateway_response option" where
  "gateway_reply C cfg a u clock rnd6 rnd12 =
    map_option (\<lambda>hs. \<lparr>gr_status = up_status u,
        gr_headers = foldl (\<lambda>m (k, v). case v of Single s \<Rightarrow> mset_key m k s | Multi _ \<Rightarrow> m)
          [(js ''content-type'', case up_contentType u of None \<Rightarrow> js ''application/json'' | Some c \<Rightarrow> c)] hs,
        gr_body = TextBody (up_body u)\<rparr>)
      (signed_headers C cfg a (up_body u) clock rnd6 rnd12)"

definition denial_response :: "denial \<Rightarrow> gateway_response" where
  "denial_response d =
    \<lparr>gr_status = dn_status d,
     gr_headers = foldl (\<lambda>m (k, v). mset_key m k v) [(js ''content-type'', js ''application/json'')] (dn_headers d),
     gr_body = ErrorBody (dn_reason d) (dn_detail d)\<rparr>"

text \<open>\<open>fetch\<close> is the upstream (\<open>None\<close>: it throws); what is sent to it is part of the result.\<close>

definition handle ::
  "platform \<Rightarrow> 'st gateway_config \<Rightarrow> (forwarded_request \<Rightarrow> upstream_response option) \<Rightarrow> 'st gateway_state \<Rightarrow> moments \<Rightarrow> int \<Rightarrow> bytes \<Rightarrow> bytes
    \<Rightarrow> gateway_request \<Rightarrow> 'st gateway_state \<times> forwarded_request option \<times> gateway_response option" where
  "handle P cfg fetch g t clock rnd6 rnd12 req =
    (case verify P cfg g t req of
       (g', None) \<Rightarrow> (g', None, None)
     | (g', Some (Denied d)) \<Rightarrow> (g', None, Some (denial_response d))
     | (g', Some (Accepted a)) \<Rightarrow>
         let f = forward_request cfg a req in
         (g', Some f, case fetch f of None \<Rightarrow> None | Some u \<Rightarrow> gateway_reply (pf_crypto P) cfg a u clock rnd6 rnd12))"

section \<open>What the gates let through\<close>

text \<open>The facts an accepted request establishes about its approval, and about its caller.\<close>

definition approved :: "platform \<Rightarrow> 'st gateway_config \<Rightarrow> moments \<Rightarrow> approval_policy \<Rightarrow> gateway_request \<Rightarrow> jstr \<Rightarrow> acceptance \<Rightarrow> bool" where
  "approved P cfg t rule req np a \<longleftrightarrow>
    (\<exists>act. bindAction (pf_crypto P) (rq_method req) np (rq_body req) = Some act \<and>
      (approval_require rule = approval_require.Untrusted \<and> ac_trust a = Some Trusted
         \<and> claimed_trust P (gc_keyRegistry cfg) (at_claim t) (ac_sender a) act (getHeader (rq_headers req) PROVENANCE_HEADER) = Some Trusted
       \<or> (\<exists>reg grant. gc_approverRegistry cfg = Some reg \<and> parseApproval (pf_parse P) (getHeader (rq_headers req) APPROVAL_HEADER) = Some grant
         \<and> approval_authentic (pf_crypto P) grant (approval_opts_of reg (approvers rule) (ac_sender a) act (at_approval t))
         \<and> ac_approvedBy a = Some (g_approver grant))))"

definition authenticated_as :: "platform \<Rightarrow> 'st gateway_config \<Rightarrow> moments \<Rightarrow> route_policy option \<Rightarrow> gateway_request \<Rightarrow> jstr \<Rightarrow> bool" where
  "authenticated_as P cfg t pol req s \<longleftrightarrow>
    (\<exists>reg cap chain tok. gc_capabilityRegistry cfg = Some reg \<and> capability_header (rq_headers req) = Some cap \<and> pf_chain P cap = Some chain
       \<and> verifyCapabilityChain (pf_crypto P) chain reg (Some (rq_path req)) (Some (rq_method req)) (at_verify t) = Some (Inr tok) \<and> subject tok = s)
    \<or> (\<exists>p c tok jkt au r. pol = Some p \<and> require p = ReqDpop \<and> gc_dpop cfg = Some c
       \<and> parseDpopAuthorization (getHeader (rq_headers req) (js ''authorization'')) = Some tok \<and> gd_resolveToken c tok = Some (Some (s, jkt))
       \<and> authority_of (gd_trustForwardedHost c) (rq_headers req) = Some au
       \<and> dpop_verdict (pf_crypto P) (pf_jose P) (pf_url P) (pf_parse P) (dpop_proofs (rq_headers req))
            (gateway_dpop_opts c au tok jkt req (at_verify t)) = Some (Inr r))
    \<or> (\<exists>p c au sg key. pol = Some p \<and> require p = ReqHttpSignature \<and> gc_httpSignature cfg = Some c
       \<and> authority_of (gs_trustForwardedHost c) (rq_headers req) = Some au
       \<and> hs_verdict (pf_crypto P) (pf_sha512 P) (gateway_message c au req) (gateway_signature_opts c req (at_verify t)) = Some (Inr sg)
       \<and> gs_resolveKey c (sp_keyid (ps_params sg)) (ps_params sg) = Some (Some (key, s)))
    \<or> (\<exists>p e h. pol = Some p \<and> require p \<notin> {ReqNone, ReqDpop, ReqHttpSignature}
       \<and> verifyHttpEnvelope (pf_crypto P) (pf_parse P) (pf_num P)
            \<lparr>ho_registry = Some (gc_keyRegistry cfg), ho_headerName = gc_headerName cfg, ho_strictTtl = None\<rparr> (rq_headers req) None (at_verify t) = Some (Inr e)
       \<and> jmember e ''header'' = Some h \<and> jmember h ''sender'' = Some (JStr s)
       \<and> \<not> wrong_algorithm (Some p) (jmember (the (jmember e ''signature'')) ''alg''))"

lemma requireApproval_ok:
  assumes "snd (requireApproval P cfg g t aps s act raw tr) = Some (Inr (ab, tr'))"
  shows "\<exists>reg grant. gc_approverRegistry cfg = Some reg \<and> parseApproval (pf_parse P) raw = Some grant
    \<and> approval_authentic (pf_crypto P) grant (approval_opts_of reg aps s act (at_approval t)) \<and> ab = Some (g_approver grant)"
proof -
  from assms obtain reg grant gr where r: "gc_approverRegistry cfg = Some reg" "parseApproval (pf_parse P) raw = Some grant"
    "snd (verifyApproval (pf_crypto P) (Some (approvalStore cfg)) g (at_approval_store t) (Some grant) (approval_opts_of reg aps s act (at_approval t))) = Some (Inr gr)"
    "ab = Some (g_approver gr)"
    by (auto simp: requireApproval_def split: option.splits prod.splits sum.splits)
  from verifyApproval_authentic [OF r(3)] r show ?thesis by blast
qed

lemma enforceApproval_ok:
  assumes "snd (enforceApproval P cfg g t (Some p) s req np) = Some (Inr (ab, tr))" "approval p = Some rule"
    and "ac_sender a = s" "ac_approvedBy a = ab" "ac_trust a = tr"
  shows "approved P cfg t rule req np a"
proof -
  let ?raw = "getHeader (rq_headers req) APPROVAL_HEADER"
  let ?claimed = "\<lambda>act. claimed_trust P (gc_keyRegistry cfg) (at_claim t) s act (getHeader (rq_headers req) PROVENANCE_HEADER)"
  from assms obtain act where act: "bindAction (pf_crypto P) (rq_method req) np (rq_body req) = Some act"
    by (auto simp: enforceApproval_def split: option.splits)
  with assms(1,2) have "(approval_require rule = approval_require.Untrusted \<and> tr = Some Trusted \<and> ?claimed act = Some Trusted)
    \<or> (\<exists>tr0. snd (requireApproval P cfg g t (approvers rule) s act ?raw tr0) = Some (Inr (ab, tr)))"
    by (auto simp: enforceApproval_def Let_def split: option.splits approval_require.splits trust.splits)
  then show ?thesis using requireApproval_ok [of P cfg g t "approvers rule" s act ?raw _ ab tr] assms(3-5) act
    unfolding approved_def by blast
qed

lemma checkSender_ok: "snd (checkSenderAndRateLimit cfg g now (Some p) s) = Some None \<Longrightarrow> isAllowedSender p s"
  by (auto simp: checkSenderAndRateLimit_def split: if_splits)

lemma checkSender_denied:
  "snd (checkSenderAndRateLimit cfg g now pol s) = Some (Some d) \<Longrightarrow> d = deny 403 SenderDenied \<or> d = deny 429 RateLimited"
  by (auto simp: checkSenderAndRateLimit_def split: if_splits option.splits prod.splits)

lemma requireApproval_denied: "snd (requireApproval P cfg g t aps s act raw tr) = Some (Inl d) \<Longrightarrow> d \<noteq> Accepted a"
  by (auto simp: requireApproval_def approval_denial_def split: option.splits prod.splits sum.splits)

lemma enforceApproval_denied: "snd (enforceApproval P cfg g t pol s req np) = Some (Inl d) \<Longrightarrow> d \<noteq> Accepted a"
  using requireApproval_denied
  by (force simp: enforceApproval_def Let_def split: option.splits approval_require.splits trust.splits)

lemma admit_accepts:
  assumes "snd (admit P cfg g t pol s eid req np) = Some (Accepted a)"
  shows "ac_sender a = s" "ac_envelopeId a = eid" "\<And>p. pol = Some p \<Longrightarrow> isAllowedSender p s"
    and "\<And>p rule. pol = Some p \<Longrightarrow> approval p = Some rule \<Longrightarrow> approved P cfg t rule req np a"
proof -
  obtain g1 r1 where c: "checkSenderAndRateLimit cfg g (at_limit t) pol s = (g1, r1)" by fastforce
  obtain g2 r2 where e: "enforceApproval P cfg g1 t pol s req np = (g2, r2)" by fastforce
  have no: "r1 \<noteq> Some (Some (Accepted a))" "r2 \<noteq> Some (Inl (Accepted a))"
    using checkSender_denied [of cfg g "at_limit t" pol s "Accepted a"] enforceApproval_denied [of P cfg g1 t pol s req np "Accepted a" a] c e
    by (auto simp: deny_def)
  with assms c e obtain ab tr where r: "r1 = Some None" "r2 = Some (Inr (ab, tr))"
    "a = \<lparr>ac_sender = s, ac_envelopeId = eid, ac_approvedBy = ab, ac_trust = tr\<rparr>"
    by (auto simp: admit_def split: option.splits sum.splits prod.splits)
  then show "ac_sender a = s" "ac_envelopeId a = eid" by simp_all
  show "isAllowedSender p s" if "pol = Some p" for p using checkSender_ok [of cfg g "at_limit t" p s] c r(1) that by simp
  show "approved P cfg t rule req np a" if "pol = Some p" "approval p = Some rule" for p rule
    using enforceApproval_ok [of P cfg g1 t p s req np ab tr rule a] e r that by simp
qed

text \<open>A validated header has texts under the names the gateway reads.\<close>

lemma validated_texts:
  assumes "no_errors (validateEnvelope e now)" "jmember e ''header'' = Some h"
  shows "jmember h ''sender'' = Some (JStr (text_member h ''sender''))" "jmember h ''nonce'' = Some (JStr (text_member h ''nonce''))"
    and "text_member h ''sender'' \<noteq> []" "\<exists>n. finite_or_nan (jmember h ''ttlMs'') = Fin n \<and> 0 < n"
proof -
  have h: "part_or_empty (jmember e ''header'') = (if h = JNull then JObj [] else h)"
    using assms(2) by (cases h) (auto simp: part_or_empty_def)
  have b: "\<not> blank (text_member h ''sender'')" "\<not> blank (text_member h ''nonce'')"
    using assms(1) by (auto simp: validateEnvelope_def h text_member_def Let_def split: if_splits)
  have t: "jmember h n = Some (JStr (text_member h n))" if "\<not> blank (text_member h n)" for n
    using that by (auto simp: text_member_def string_or_empty_def blank_def trim_def split: option.splits json.splits)
  show "jmember h ''sender'' = Some (JStr (text_member h ''sender''))" "jmember h ''nonce'' = Some (JStr (text_member h ''nonce''))"
    using t b by blast+
  show "text_member h ''sender'' \<noteq> []" using b(1) by (auto simp: blank_def trim_def)
  show "\<exists>n. finite_or_nan (jmember h ''ttlMs'') = Fin n \<and> 0 < n"
    using validate_untyped [OF assms(1)] assms(2) by (auto simp: finite_or_nan_def)
qed

lemma capability_accepts:
  assumes "snd (verifyCapability P cfg g t pol reg cap req np) = Some (Accepted a)"
  obtains chain tok g' where "pf_chain P cap = Some chain"
    "verifyCapabilityChain (pf_crypto P) chain reg (Some (rq_path req)) (Some (rq_method req)) (at_verify t) = Some (Inr tok)"
    "snd (admit P cfg g t pol (subject tok) None req np) = Some (Accepted a)"
  using assms by (auto simp: verifyCapability_def Let_def deny_def split: option.splits sum.splits if_splits prod.splits)

lemma dpop_accepts:
  assumes "snd (verifyDpop P cfg g t pol req np) = Some (Accepted a)"
  obtains c tok owner jkt au r g' where "gc_dpop cfg = Some c" "parseDpopAuthorization (getHeader (rq_headers req) (js ''authorization'')) = Some tok"
    "gd_resolveToken c tok = Some (Some (owner, jkt))" "authority_of (gd_trustForwardedHost c) (rq_headers req) = Some au"
    "verifyDpopProof (pf_crypto P) (pf_jose P) (pf_url P) (pf_parse P) (Some (dpopStore cfg)) g (at_store t)
       (dpop_proofs (rq_headers req)) (gateway_dpop_opts c au tok jkt req (at_verify t)) = (g', Some (Inr r))"
    "snd (admit P cfg g' t (Some pol) owner None req np) = Some (Accepted a)"
  using assms by (auto simp: verifyDpop_def dpop_denial_def Let_def split: option.splits sum.splits if_splits prod.splits)

lemma signature_accepts:
  assumes "snd (verifyHttpSignature P cfg g t pol req np) = Some (Accepted a)"
  obtains c au sg key s g' where "gc_httpSignature cfg = Some c" "authority_of (gs_trustForwardedHost c) (rq_headers req) = Some au"
    "verifyMessage (pf_crypto P) (pf_sha512 P) (Some (httpSigNonceStore cfg)) g (at_store t)
       (gateway_message c au req) (gateway_signature_opts c req (at_verify t)) = (g', Some (Inr sg))"
    "gs_resolveKey c (sp_keyid (ps_params sg)) (ps_params sg) = Some (Some (key, s))"
    "snd (admit P cfg g' t (Some pol) s None req np) = Some (Accepted a)"
  using assms by (auto simp: verifyHttpSignature_def sig_denial_def deny_def split: option.splits sum.splits if_splits prod.splits)

lemma envelope_accepts:
  assumes "snd (verifyEnvelopeRoute P cfg g t pol req np) = Some (Accepted a)"
  obtains e h g' where "verifyHttpEnvelope (pf_crypto P) (pf_parse P) (pf_num P)
       \<lparr>ho_registry = Some (gc_keyRegistry cfg), ho_headerName = gc_headerName cfg, ho_strictTtl = None\<rparr> (rq_headers req) None (at_verify t) = Some (Inr e)"
    "jmember e ''header'' = Some h" "jmember h ''sender'' = Some (JStr (text_member h ''sender''))"
    "\<not> wrong_algorithm pol (jmember (the (jmember e ''signature'')) ''alg'')"
    "snd (admit P cfg g' t pol (text_member h ''sender'') (Some (text_member h ''messageId'')) req np) = Some (Accepted a)"
proof -
  from assms obtain e g' where e: "verifyHttpEnvelope (pf_crypto P) (pf_parse P) (pf_num P)
       \<lparr>ho_registry = Some (gc_keyRegistry cfg), ho_headerName = gc_headerName cfg, ho_strictTtl = None\<rparr> (rq_headers req) None (at_verify t) = Some (Inr e)"
    "\<not> wrong_algorithm pol (jmember (the (jmember e ''signature'')) ''alg'')"
    "snd (admit P cfg g' t pol (text_member (the (jmember e ''header'')) ''sender'') (Some (text_member (the (jmember e ''header'')) ''messageId'')) req np)
       = Some (Accepted a)"
    by (auto simp: verifyEnvelopeRoute_def deny_def Let_def split: option.splits sum.splits if_splits prod.splits bool.splits)
  from verify_ok_parts [OF e(1)] obtain h where h: "jmember e ''header'' = Some h" "no_errors (validateEnvelope e (at_verify t))" by (simp, metis)
  show thesis by (rule that [OF e(1) h(1) validated_texts(1) [OF h(2,1)] e(2)]) (use e(3) h(1) in simp)
qed

text \<open>The gate a request has passed when the gateway accepts it.\<close>

lemma verify_accepts:
  assumes "snd (verify P cfg g t req) = Some (Accepted a)"
  obtains (open_route) np where "normalizeGatewayPath (rq_path req) = Some np" "a = \<lparr>ac_sender = [], ac_envelopeId = None, ac_approvedBy = None, ac_trust = None\<rparr>"
      "map_option require (matchPolicy (gc_policies cfg) np) = Some ReqNone \<or> matchPolicy (gc_policies cfg) np = None \<and> gc_defaultPolicy cfg \<noteq> Some DenyUnmatched"
  | (checked) np g' s eid where "normalizeGatewayPath (rq_path req) = Some np" "authenticated_as P cfg t (matchPolicy (gc_policies cfg) np) req s"
      "snd (admit P cfg g' t (matchPolicy (gc_policies cfg) np) s eid req np) = Some (Accepted a)"
proof -
  obtain np where np: "normalizeGatewayPath (rq_path req) = Some np"
    using assms by (auto simp: verify_def deny_def split: option.splits)
  let ?pol = "matchPolicy (gc_policies cfg) np"
  consider (o) "a = \<lparr>ac_sender = [], ac_envelopeId = None, ac_approvedBy = None, ac_trust = None\<rparr>"
      "map_option require ?pol = Some ReqNone \<or> ?pol = None \<and> gc_defaultPolicy cfg \<noteq> Some DenyUnmatched"
    | (c) reg cap where "gc_capabilityRegistry cfg = Some reg" "capability_header (rq_headers req) = Some cap"
        "snd (verifyCapability P cfg g t ?pol reg cap req np) = Some (Accepted a)"
    | (d) p where "?pol = Some p" "require p = ReqDpop" "snd (verifyDpop P cfg g t p req np) = Some (Accepted a)"
    | (h) p where "?pol = Some p" "require p = ReqHttpSignature" "snd (verifyHttpSignature P cfg g t p req np) = Some (Accepted a)"
    | (e) p where "?pol = Some p" "require p \<notin> {ReqNone, ReqDpop, ReqHttpSignature}" "snd (verifyEnvelopeRoute P cfg g t ?pol req np) = Some (Accepted a)"
    using assms np by (auto simp: verify_def deny_def Let_def split: option.splits if_splits)
  then show thesis
  proof cases
    case o
    then show thesis using open_route np by blast
  next
    case c
    from capability_accepts [OF c(3)] obtain chain tok where "pf_chain P cap = Some chain"
      "verifyCapabilityChain (pf_crypto P) chain reg (Some (rq_path req)) (Some (rq_method req)) (at_verify t) = Some (Inr tok)"
      "snd (admit P cfg g t ?pol (subject tok) None req np) = Some (Accepted a)" by metis
    then show thesis using checked [OF np, of "subject tok"] c(1,2) unfolding authenticated_as_def by blast
  next
    case d
    from dpop_accepts [OF d(3)] obtain c tok owner jkt au r g' where v: "gc_dpop cfg = Some c"
      "parseDpopAuthorization (getHeader (rq_headers req) (js ''authorization'')) = Some tok"
      "gd_resolveToken c tok = Some (Some (owner, jkt))" "authority_of (gd_trustForwardedHost c) (rq_headers req) = Some au"
      "verifyDpopProof (pf_crypto P) (pf_jose P) (pf_url P) (pf_parse P) (Some (dpopStore cfg)) g (at_store t)
         (dpop_proofs (rq_headers req)) (gateway_dpop_opts c au tok jkt req (at_verify t)) = (g', Some (Inr r))"
      "snd (admit P cfg g' t (Some p) owner None req np) = Some (Accepted a)" by metis
    then have "dpop_verdict (pf_crypto P) (pf_jose P) (pf_url P) (pf_parse P) (dpop_proofs (rq_headers req))
        (gateway_dpop_opts c au tok jkt req (at_verify t)) = Some (Inr r)"
      by (metis accepted_verdict snd_conv)
    then have "authenticated_as P cfg t ?pol req owner" using v(1-4) d(1,2) unfolding authenticated_as_def by blast
    then show thesis using checked [OF np] v(6) d(1) by metis
  next
    case h
    from signature_accepts [OF h(3)] obtain c au sg key s g' where v: "gc_httpSignature cfg = Some c"
      "authority_of (gs_trustForwardedHost c) (rq_headers req) = Some au"
      "verifyMessage (pf_crypto P) (pf_sha512 P) (Some (httpSigNonceStore cfg)) g (at_store t)
         (gateway_message c au req) (gateway_signature_opts c req (at_verify t)) = (g', Some (Inr sg))"
      "gs_resolveKey c (sp_keyid (ps_params sg)) (ps_params sg) = Some (Some (key, s))"
      "snd (admit P cfg g' t (Some p) s None req np) = Some (Accepted a)" by metis
    then have "hs_verdict (pf_crypto P) (pf_sha512 P) (gateway_message c au req) (gateway_signature_opts c req (at_verify t)) = Some (Inr sg)"
      by (metis accepted_verdict_hs snd_conv)
    then have "authenticated_as P cfg t ?pol req s" using v(1,2,4) h(1,2) unfolding authenticated_as_def by blast
    then show thesis using checked [OF np] v(5) h(1) by metis
  next
    case e
    show thesis
    proof (rule envelope_accepts [OF e(3)])
      fix v h g'
      assume v: "verifyHttpEnvelope (pf_crypto P) (pf_parse P) (pf_num P)
          \<lparr>ho_registry = Some (gc_keyRegistry cfg), ho_headerName = gc_headerName cfg, ho_strictTtl = None\<rparr> (rq_headers req) None (at_verify t) = Some (Inr v)"
        "jmember v ''header'' = Some h" "jmember h ''sender'' = Some (JStr (text_member h ''sender''))"
        "\<not> wrong_algorithm ?pol (jmember (the (jmember v ''signature'')) ''alg'')"
        "snd (admit P cfg g' t ?pol (text_member h ''sender'') (Some (text_member h ''messageId'')) req np) = Some (Accepted a)"
      then have "authenticated_as P cfg t ?pol req (text_member h ''sender'')" using e(1,2) unfolding authenticated_as_def by fastforce
      then show thesis using checked [OF np] v(5) by metis
    qed
  qed
qed

end
