(* ===== verification/GatewayStores.thy ===== *)
theory GatewayStores
  imports Gateway
begin

text \<open>
  A gateway whose replay protection is one shared store, as \<open>createProductionGateway\<close> asks for
  (\<open>gateway.ts\<close>): every request moves the store forward through the interface of
  \<open>replay_checker\<close> only, so what it remembers it keeps, and an approval grant is spent once
  across requests. Proved in the locale, then for the in-memory and the Redis store.
\<close>

section \<open>Moving forward\<close>

text \<open>No key remembered at a moment from \<open>T\<close> on is forgotten.\<close>

definition advances :: "('st \<Rightarrow> bool) \<Rightarrow> ('st \<Rightarrow> jstr \<Rightarrow> int \<Rightarrow> bool) \<Rightarrow> int \<Rightarrow> 'st \<Rightarrow> 'st \<Rightarrow> bool" where
  "advances invar holds T st st' \<longleftrightarrow> (invar st \<longrightarrow> invar st' \<and> (\<forall>k u. T \<le> u \<and> holds st k u \<longrightarrow> holds st' k u))"

lemma advances_refl [simp, intro]: "advances invar holds T st st"
  by (simp add: advances_def)

lemma advances_trans [trans]: "advances invar holds T a b \<Longrightarrow> advances invar holds T b c \<Longrightarrow> advances invar holds T a c"
  by (auto simp: advances_def)

text \<open>All replay protection goes through one store of the configuration.\<close>

definition shared_store :: "'st store_check \<Rightarrow> 'st gateway_config \<Rightarrow> bool" where
  "shared_store chk cfg \<longleftrightarrow> gc_replayStore cfg = Some chk \<and> gc_approvalReplayStore cfg = None \<and> gc_rateLimitStore cfg = None
    \<and> (\<forall>c. gc_httpSignature cfg = Some c \<longrightarrow> gs_nonceStore c = None) \<and> (\<forall>c. gc_dpop cfg = Some c \<longrightarrow> gd_replayStore c = None)"

definition before :: "int \<Rightarrow> moments \<Rightarrow> bool" where
  "before T t \<longleftrightarrow> at_store t \<le> T \<and> at_approval_store t \<le> T"

text \<open>The requests a gateway serves one after the other.\<close>

fun gateway_run :: "platform \<Rightarrow> 'st gateway_config \<Rightarrow> 'st gateway_state \<Rightarrow> (moments \<times> gateway_request) list \<Rightarrow> 'st gateway_state" where
  "gateway_run P cfg g [] = g"
| "gateway_run P cfg g ((t, req) # rest) = gateway_run P cfg (fst (verify P cfg g t req)) rest"

lemma shared_resolved:
  assumes "shared_store chk cfg"
  shows "approvalStore cfg g k ttl now = map_prod (\<lambda>w. g\<lparr>gw_world := w\<rparr>) id (chk (gw_world g) k ttl now)"
    and "httpSigNonceStore cfg g k ttl now = map_prod (\<lambda>w. g\<lparr>gw_world := w\<rparr>) id (chk (gw_world g) k ttl now)"
    and "dpopStore cfg g k ttl now = map_prod (\<lambda>w. g\<lparr>gw_world := w\<rparr>) id (chk (gw_world g) k ttl now)"
proof -
  have "(case gc_httpSignature cfg of None \<Rightarrow> None | Some s \<Rightarrow> gs_nonceStore s) = None" "(case gc_dpop cfg of None \<Rightarrow> None | Some d \<Rightarrow> gd_replayStore d) = None"
    using assms by (simp_all add: shared_store_def split: option.split)
  then show "approvalStore cfg g k ttl now = map_prod (\<lambda>w. g\<lparr>gw_world := w\<rparr>) id (chk (gw_world g) k ttl now)"
    "httpSigNonceStore cfg g k ttl now = map_prod (\<lambda>w. g\<lparr>gw_world := w\<rparr>) id (chk (gw_world g) k ttl now)"
    "dpopStore cfg g k ttl now = map_prod (\<lambda>w. g\<lparr>gw_world := w\<rparr>) id (chk (gw_world g) k ttl now)"
    using assms by (simp_all add: approvalStore_def httpSigNonceStore_def dpopStore_def resolved_store_def shared_store_def map_prod_def split_def)
qed

text \<open>Each verifier calls its store at most once, at the store's clock reading.\<close>

lemma approval_calls: "fst (verifyApproval C (Some chk) st clock gr o') = st \<or> (\<exists>k ttl. fst (verifyApproval C (Some chk) st clock gr o') = fst (chk st k ttl clock))"
  by (auto simp: verifyApproval_def split: option.splits bool.splits prod.splits) (metis fst_conv)+

lemma message_calls: "fst (verifyMessage C sha512 (Some chk) st clock msg o') = st \<or> (\<exists>k ttl. fst (verifyMessage C sha512 (Some chk) st clock msg o') = fst (chk st k ttl clock))"
  by (auto simp: verifyMessage_def split: option.splits bool.splits prod.splits sum.splits) (metis fst_conv)+

lemma proof_calls: "fst (verifyDpopProof C J U parse (Some chk) st clock proofs o') = st \<or> (\<exists>k ttl. fst (verifyDpopProof C J U parse (Some chk) st clock proofs o') = fst (chk st k ttl clock))"
  by (auto simp: verifyDpopProof_def split: option.splits bool.splits prod.splits sum.splits) (metis fst_conv)+

lemma checkSender_world: "gc_rateLimitStore cfg = None \<Longrightarrow> gw_world (fst (checkSenderAndRateLimit cfg g now pol s)) = gw_world g"
  by (auto simp: checkSenderAndRateLimit_def split: option.splits prod.splits)

section \<open>A shared store that keeps what it is told\<close>

context replay_checker
begin

lemma check_advances: "now \<le> T \<Longrightarrow> advances invar holds T st (fst (check st k ttl now))"
  using invar_mark [of st k ttl now] held_kept [of st _ _ now k ttl] mark_check [of st k ttl now] by (auto simp: advances_def)

lemma stores_advance:
  assumes "shared_store check cfg" "now \<le> T"
  shows "advances invar holds T (gw_world g) (gw_world (fst (approvalStore cfg g k ttl now)))"
    and "advances invar holds T (gw_world g) (gw_world (fst (httpSigNonceStore cfg g k ttl now)))"
    and "advances invar holds T (gw_world g) (gw_world (fst (dpopStore cfg g k ttl now)))"
  using check_advances [OF assms(2)] by (simp_all add: shared_resolved [OF assms(1)])

lemma requireApproval_advances:
  assumes "shared_store check cfg" "before T t"
  shows "advances invar holds T (gw_world g) (gw_world (fst (requireApproval P cfg g t aps s act raw tr)))"
proof -
  have "advances invar holds T (gw_world g) (gw_world (fst (verifyApproval C (Some (approvalStore cfg)) g (at_approval_store t) gr o')))" for C gr o'
    using approval_calls [of C "approvalStore cfg" g "at_approval_store t" gr o'] stores_advance(1) [OF assms(1)] assms(2)
    by (auto simp: before_def)
  then show ?thesis
    by (auto simp: requireApproval_def split: option.split sum.split prod.split) (metis fst_conv)+
qed

lemma admit_advances:
  assumes "shared_store check cfg" "before T t"
  shows "advances invar holds T (gw_world g) (gw_world (fst (admit P cfg g t pol s eid req np)))"
proof -
  obtain g1 r1 where c: "checkSenderAndRateLimit cfg g (at_limit t) pol s = (g1, r1)" by fastforce
  obtain g2 r2 where e: "enforceApproval P cfg g1 t pol s req np = (g2, r2)" by fastforce
  have w: "gw_world g1 = gw_world g" using checkSender_world [of cfg g "at_limit t" pol s] assms(1) c by (simp add: shared_store_def)
  have "advances invar holds T (gw_world g1) (gw_world (fst (enforceApproval P cfg g1 t pol s req np)))"
    using requireApproval_advances [OF assms]
    by (auto simp: enforceApproval_def Let_def split: option.split approval_require.split trust.split)
  then have "advances invar holds T (gw_world g) (gw_world g2)" by (simp add: w e)
  then show ?thesis using w by (auto simp: admit_def c e split: option.split sum.split)
qed

lemma capability_advances:
  assumes "shared_store check cfg" "before T t"
  shows "advances invar holds T (gw_world g) (gw_world (fst (verifyCapability P cfg g t pol reg cap req np)))"
proof -
  note a = admit_advances [OF assms, of g P pol]
  have "advances invar holds T (gw_world g) (gw_world g')" if "admit P cfg g t pol s eid req np = (g', r)" for g' r s eid
    using a [of s eid req np] that by simp
  then show ?thesis by (auto simp: verifyCapability_def Let_def split: option.split sum.split prod.split)
qed

lemma dpop_advances:
  assumes "shared_store check cfg" "before T t"
  shows "advances invar holds T (gw_world g) (gw_world (fst (verifyDpop P cfg g t pol req np)))"
proof -
  have v: "advances invar holds T (gw_world g) (gw_world g')"
    if "verifyDpopProof C J U parse (Some (dpopStore cfg)) g (at_store t) proofs o' = (g', r)" for C J U parse proofs o' g' r
    using proof_calls [of C J U parse "dpopStore cfg" g "at_store t" proofs o'] stores_advance(3) [OF assms(1)] assms(2) that
    by (auto simp: before_def)
  note w = advances_trans [OF v admit_advances [OF assms]]
  show ?thesis by (auto simp: verifyDpop_def split: option.split sum.split prod.split intro: v w)
qed

lemma signature_advances:
  assumes "shared_store check cfg" "before T t"
  shows "advances invar holds T (gw_world g) (gw_world (fst (verifyHttpSignature P cfg g t pol req np)))"
proof -
  have v: "advances invar holds T (gw_world g) (gw_world g')"
    if "verifyMessage C sha512 (Some (httpSigNonceStore cfg)) g (at_store t) msg o' = (g', r)" for C sha512 msg o' g' r
    using message_calls [of C sha512 "httpSigNonceStore cfg" g "at_store t" msg o'] stores_advance(2) [OF assms(1)] assms(2) that
    by (auto simp: before_def)
  note w = advances_trans [OF v admit_advances [OF assms]]
  show ?thesis by (auto simp: verifyHttpSignature_def split: option.split sum.split prod.split intro: v w)
qed

lemma envelope_advances:
  assumes "shared_store check cfg" "before T t"
  shows "advances invar holds T (gw_world g) (gw_world (fst (verifyEnvelopeRoute P cfg g t pol req np)))"
proof -
  have chk: "gc_replayStore cfg = Some check" using assms(1) by (simp add: shared_store_def)
  have v: "advances invar holds T (gw_world g) st'" if "check (gw_world g) k ttl (at_store t) = (st', r)" for k ttl st' r
    using check_advances [of "at_store t" T "gw_world g" k ttl] assms(2) that by (simp add: before_def)
  have w: "advances invar holds T (gw_world g) (gw_world (fst (admit P cfg (g\<lparr>gw_world := st'\<rparr>) t pol s eid req np)))"
    if "check (gw_world g) k ttl (at_store t) = (st', r)" for k ttl st' r s eid
    using advances_trans [OF v [OF that]] admit_advances [OF assms, of "g\<lparr>gw_world := st'\<rparr>"] by simp
  show ?thesis by (auto simp: verifyEnvelopeRoute_def chk Let_def split: option.split sum.split prod.split bool.split intro: v w)
qed

lemma verify_advances:
  assumes "shared_store check cfg" "before T t"
  shows "advances invar holds T (gw_world g) (gw_world (fst (verify P cfg g t req)))"
  using capability_advances [OF assms] dpop_advances [OF assms] signature_advances [OF assms] envelope_advances [OF assms]
  by (auto simp: verify_def Let_def split: option.split)

lemma run_advances:
  assumes "shared_store check cfg" "\<forall>(t, req) \<in> set evs. before T t"
  shows "advances invar holds T (gw_world g) (gw_world (gateway_run P cfg g evs))"
  using assms(2)
proof (induction evs arbitrary: g)
  case (Cons e evs)
  obtain t req where e: "e = (t, req)" by (cases e)
  have "advances invar holds T (gw_world g) (gw_world (fst (verify P cfg g t req)))" using verify_advances [OF assms(1)] Cons.prems e by simp
  from advances_trans [OF this Cons.IH] Cons.prems show ?case by (simp add: e)
qed simp

end

section \<open>A grant is spent once\<close>

context replay_checker
begin

lemma requireApproval_spends:
  assumes "shared_store check cfg" "invar (gw_world g)" "requireApproval P cfg g t aps s act raw tr = (g', Some (Inr r))"
  shows "\<exists>gr. parseApproval (pf_parse P) raw = Some gr \<and> \<not> holds (gw_world g) (approval_key gr) (at_approval_store t)
    \<and> (\<forall>u < at_approval_store t + (g_expiresAt gr - at_approval t) + MAX_CLOCK_SKEW_MS. holds (gw_world g') (approval_key gr) u)"
proof -
  from assms(3) obtain gr reg r' where gr: "parseApproval (pf_parse P) raw = Some gr"
    and v: "verifyApproval (pf_crypto P) (Some (approvalStore cfg)) g (at_approval_store t) (Some gr) (approval_opts_of reg aps s act (at_approval t)) = (g', Some (Inr r'))"
    by (auto simp: requireApproval_def split: option.splits prod.splits sum.splits)
  let ?o = "approval_opts_of reg aps s act (at_approval t)"
  let ?n = "max 1 (g_expiresAt gr - at_approval t) + MAX_CLOCK_SKEW_MS"
  have ne: "vo_allowedApprovers ?o \<noteq> []" using v by (auto simp: verifyApproval_def split: if_splits)
  have "approval_authentic (pf_crypto P) gr ?o"
    using v verifyApproval_authentic [of "pf_crypto P" "Some (approvalStore cfg)" g "at_approval_store t" gr ?o] by simp
  from verifyApproval_reaches_store [OF this ne, of "approvalStore cfg" g "at_approval_store t"] v
  have "(case approvalStore cfg g (approval_key gr) (Fin ?n) (at_approval_store t) of
       (st', None) \<Rightarrow> (st', None) | (st', Some True) \<Rightarrow> (st', Some (Inl AlreadyUsed)) | (st', Some False) \<Rightarrow> (st', Some (Inr gr))) = (g', Some (Inr r'))"
    by (simp add: approval_opts_of_def)
  then have "approvalStore cfg g (approval_key gr) (Fin ?n) (at_approval_store t) = (g', Some False)"
    by (auto split: prod.splits option.splits bool.splits)
  then have c: "snd (check (gw_world g) (approval_key gr) (Fin ?n) (at_approval_store t)) = Some False"
    "gw_world g' = fst (check (gw_world g) (approval_key gr) (Fin ?n) (at_approval_store t))"
    by (auto simp: shared_resolved(1) [OF assms(1)] map_prod_def split_def)
  then have m: "snd (mark (gw_world g) (approval_key gr) (Fin ?n) (at_approval_store t))"
    "gw_world g' = fst (mark (gw_world g) (approval_key gr) (Fin ?n) (at_approval_store t))"
    by (simp_all add: mark_check)
  have "holds (gw_world g') (approval_key gr) u" if "u < at_approval_store t + (g_expiresAt gr - at_approval t) + MAX_CLOCK_SKEW_MS" for u
    unfolding m(2) using that by (intro fresh_held [OF assms(2) m(1)]) simp
  then show ?thesis using gr m(1) held_refused [OF assms(2)] by blast
qed

lemma admit_spends:
  assumes "shared_store check cfg" "invar (gw_world g)" "admit P cfg g t pol s eid req np = (g', Some (Accepted a))" "ac_approvedBy a \<noteq> None"
  shows "\<exists>gr. parseApproval (pf_parse P) (getHeader (rq_headers req) APPROVAL_HEADER) = Some gr
    \<and> \<not> holds (gw_world g) (approval_key gr) (at_approval_store t)
    \<and> (\<forall>u < at_approval_store t + (g_expiresAt gr - at_approval t) + MAX_CLOCK_SKEW_MS. holds (gw_world g') (approval_key gr) u)"
proof -
  let ?raw = "getHeader (rq_headers req) APPROVAL_HEADER"
  obtain g1 r1 where c: "checkSenderAndRateLimit cfg g (at_limit t) pol s = (g1, r1)" by fastforce
  obtain g2 r2 where e: "enforceApproval P cfg g1 t pol s req np = (g2, r2)" by fastforce
  have no: "r1 \<noteq> Some (Some (Accepted a))" "r2 \<noteq> Some (Inl (Accepted a))"
    using checkSender_denied [of cfg g "at_limit t" pol s "Accepted a"] enforceApproval_denied [of P cfg g1 t pol s req np "Accepted a" a] c e
    by (auto simp: deny_def)
  have w: "gw_world g1 = gw_world g" using checkSender_world [of cfg g "at_limit t" pol s] assms(1) c by (simp add: shared_store_def)
  from assms(3) c e no obtain ab tr where r: "g2 = g'" "r2 = Some (Inr (ab, tr))" "ab = ac_approvedBy a"
    by (auto simp: admit_def split: option.splits sum.splits)
  then obtain aps act tr' where "requireApproval P cfg g1 t aps s act ?raw tr' = (g', Some (Inr (ab, tr)))"
    using e assms(4) by (auto simp: enforceApproval_def Let_def split: option.splits approval_require.splits trust.splits)
  from requireApproval_spends [OF assms(1) _ this] assms(2) w show ?thesis by simp
qed

lemma verify_admits:
  assumes "shared_store check cfg" "before T t" "verify P cfg g t req = (g', Some (Accepted a))" "ac_approvedBy a \<noteq> None"
  shows "\<exists>g1 pol s eid np. advances invar holds T (gw_world g) (gw_world g1) \<and> admit P cfg g1 t pol s eid req np = (g', Some (Accepted a))"
proof -
  obtain np where np: "normalizeGatewayPath (rq_path req) = Some np"
    using assms(3) by (auto simp: verify_def deny_def split: option.splits)
  let ?pol = "matchPolicy (gc_policies cfg) np"
  let ?goal = "\<exists>g1 pol s eid np. advances invar holds T (gw_world g) (gw_world g1) \<and> admit P cfg g1 t pol s eid req np = (g', Some (Accepted a))"
  consider (c) reg cap where "verifyCapability P cfg g t ?pol reg cap req np = (g', Some (Accepted a))"
    | (d) p where "verifyDpop P cfg g t p req np = (g', Some (Accepted a))"
    | (h) p where "verifyHttpSignature P cfg g t p req np = (g', Some (Accepted a))"
    | (e) "verifyEnvelopeRoute P cfg g t ?pol req np = (g', Some (Accepted a))"
    using assms(3,4) np by (auto simp: verify_def deny_def Let_def split: option.splits if_splits)
  then show ?thesis
  proof cases
    case c
    then obtain s eid where "admit P cfg g t ?pol s eid req np = (g', Some (Accepted a))"
      by (auto simp: verifyCapability_def Let_def deny_def split: option.splits sum.splits if_splits prod.splits)
    then show ?goal by blast
  next
    case d
    then obtain C J U parse proofs o' g1 r s where v: "verifyDpopProof C J U parse (Some (dpopStore cfg)) g (at_store t) proofs o' = (g1, r)"
      "admit P cfg g1 t (Some p) s None req np = (g', Some (Accepted a))"
      by (auto simp: verifyDpop_def dpop_denial_def Let_def split: option.splits sum.splits if_splits prod.splits)
    have "advances invar holds T (gw_world g) (gw_world g1)"
      using proof_calls [of C J U parse "dpopStore cfg" g "at_store t" proofs o'] stores_advance(3) [OF assms(1)] assms(2) v(1)
      by (auto simp: before_def)
    with v(2) show ?goal by blast
  next
    case h
    then obtain C sha512 msg o' g1 r s where v: "verifyMessage C sha512 (Some (httpSigNonceStore cfg)) g (at_store t) msg o' = (g1, r)"
      "admit P cfg g1 t (Some p) s None req np = (g', Some (Accepted a))"
      by (auto simp: verifyHttpSignature_def sig_denial_def deny_def split: option.splits sum.splits if_splits prod.splits)
    have "advances invar holds T (gw_world g) (gw_world g1)"
      using message_calls [of C sha512 "httpSigNonceStore cfg" g "at_store t" msg o'] stores_advance(2) [OF assms(1)] assms(2) v(1)
      by (auto simp: before_def)
    with v(2) show ?goal by blast
  next
    case e
    have chk: "gc_replayStore cfg = Some check" using assms(1) by (simp add: shared_store_def)
    with e obtain k ttl w r s eid where v: "check (gw_world g) k ttl (at_store t) = (w, r)"
      "admit P cfg (g\<lparr>gw_world := w\<rparr>) t ?pol s eid req np = (g', Some (Accepted a))"
      by (auto simp: verifyEnvelopeRoute_def deny_def Let_def split: option.splits sum.splits if_splits prod.splits bool.splits)
    have "advances invar holds T (gw_world g) (gw_world (g\<lparr>gw_world := w\<rparr>))"
      using check_advances [of "at_store t" T "gw_world g" k ttl] assms(2) v(1) by (simp add: before_def)
    with v(2) show ?goal by blast
  qed
qed

lemma grant_spent_once:
  assumes "shared_store check cfg" "invar (gw_world g)"
    and "verify P cfg g t1 req1 = (g1, Some (Accepted a1))" "ac_approvedBy a1 \<noteq> None"
    and "\<forall>(t, req) \<in> set evs. before (at_approval_store t2) t" "before (at_approval_store t2) t1" "before (at_approval_store t2) t2"
    and "verify P cfg (gateway_run P cfg g1 evs) t2 req2 = (g2, Some (Accepted a2))"
    and "parseApproval (pf_parse P) (getHeader (rq_headers req1) APPROVAL_HEADER) = Some gr1"
    and "parseApproval (pf_parse P) (getHeader (rq_headers req2) APPROVAL_HEADER) = Some gr2" "g_id gr2 = g_id gr1"
    and "at_approval_store t2 < at_approval_store t1 + (g_expiresAt gr1 - at_approval t1) + MAX_CLOCK_SKEW_MS"
  shows "ac_approvedBy a2 = None"
proof (rule ccontr)
  let ?T = "at_approval_store t2"
  assume a2: "ac_approvedBy a2 \<noteq> None"
  obtain h1 pol s eid np where h1: "advances invar holds ?T (gw_world g) (gw_world h1)" "admit P cfg h1 t1 pol s eid req1 np = (g1, Some (Accepted a1))"
    using verify_admits [OF assms(1,6,3,4)] by blast
  then have i1: "invar (gw_world h1)" using assms(2) by (auto simp: advances_def)
  have held: "holds (gw_world g1) (approval_key gr1) ?T"
    using admit_spends [OF assms(1) i1 h1(2) assms(4)] assms(9,12) by auto
  obtain h2 pol2 s2 eid2 np2 where h2: "advances invar holds ?T (gw_world (gateway_run P cfg g1 evs)) (gw_world h2)"
    "admit P cfg h2 t2 pol2 s2 eid2 req2 np2 = (g2, Some (Accepted a2))"
    using verify_admits [OF assms(1,7,8) a2] by blast
  have adv1: "advances invar holds ?T (gw_world h1) (gw_world g1)"
    using admit_advances [OF assms(1,6), of h1 P pol s eid req1 np] h1(2) by simp
  have "advances invar holds ?T (gw_world g1) (gw_world h2)"
    by (rule advances_trans [OF run_advances [OF assms(1,5)] h2(1)])
  then have "invar (gw_world h2)" "holds (gw_world h2) (approval_key gr1) ?T"
    using held adv1 i1 by (auto simp: advances_def)
  moreover have "approval_key gr2 = approval_key gr1" using assms(11) by (simp add: approval_key_def)
  ultimately show False using admit_spends [OF assms(1) _ h2(2) a2] assms(10) by auto
qed

end

end
