(* ===== verification/GatewaySafety.thy ===== *)
theory GatewaySafety
  imports GatewayStores
begin

text \<open>
  What the gateway guarantees (\<open>gateway.ts\<close>): who an accepted request is from, which approval it
  had, what reaches the upstream and under which headers, that a grant is spent once across
  requests, and which configurations are refused. The last section evaluates each on one gateway.
\<close>

section \<open>Acceptance\<close>

text \<open>C1 Nothing is accepted by default or by accident: an accepted request has a clean path, and either its route is open by configuration, and then it carries no identity, no approval and no trust, or it authenticated as its sender in one of the four ways (a verified capability chain, DPoP proof, HTTP signature or envelope with the algorithm asked for), the policy admits that sender, and an approval rule of the policy was satisfied.\<close>

theorem gateway_accepts_sound:
  assumes "snd (verify P cfg g t req) = Some (Accepted a)"
  shows "\<exists>np. normalizeGatewayPath (rq_path req) = Some np \<and> (let pol = matchPolicy (gc_policies cfg) np in
    (a = \<lparr>ac_sender = [], ac_envelopeId = None, ac_approvedBy = None, ac_trust = None\<rparr>
      \<and> (map_option require pol = Some ReqNone \<or> pol = None \<and> gc_defaultPolicy cfg \<noteq> Some DenyUnmatched))
    \<or> (authenticated_as P cfg t pol req (ac_sender a)
      \<and> (case pol of None \<Rightarrow> True | Some p \<Rightarrow> isAllowedSender p (ac_sender a)
          \<and> (case approval p of None \<Rightarrow> True | Some rule \<Rightarrow> approved P cfg t rule req np a))))"
  using assms
proof (cases rule: verify_accepts)
  case (open_route np)
  then show ?thesis by (auto simp: Let_def)
next
  case (checked np g' s eid)
  note adm = admit_accepts [OF checked(3)]
  show ?thesis
    by (intro exI [of _ np] conjI checked(1)) (use adm checked(2) in \<open>auto simp: Let_def split: option.split\<close>)
qed

text \<open>What a trusted claim of provenance is.\<close>

lemma claimed_trusted:
  assumes "claimed_trust P reg now s act raw = Some Trusted"
  shows "\<exists>c pub. parseProvenance (pf_parse P) raw = Some c \<and> c_sender c = s \<and> c_action c = act \<and> c_sources c \<noteq> []
    \<and> (\<forall>x \<in> set (c_sources c). strust x = Trusted) \<and> now < c_expiresAt c \<and> reg_public reg (Some (JStr s)) = Some (Some pub)
    \<and> verify_canonical (pf_crypto P) (canonicalizeClaim c) (c_signature c) pub = Some True"
proof -
  let ?o = "\<lparr>po_keys = \<lambda>k. (case reg_public reg (Some (JStr k)) of None \<Rightarrow> None | Some r \<Rightarrow> r), po_sender = s, po_action = act,
        po_now = now, po_skew = MAX_CLOCK_SKEW_MS\<rparr>"
  from assms obtain r where "verifyProvenance (pf_crypto P) (parseProvenance (pf_parse P) raw) ?o = Some r" "effectiveTrust r = Trusted"
    by (auto simp: claimed_trust_def split: option.splits if_splits)
  from effective_trusted [OF this] show ?thesis
    by (auto split: option.splits)
qed

text \<open>C3 A route with an approval rule is never passed without one: the accepted request was either backed by a provenance claim that its sender signed for exactly this method, path and body and whose sources are all trusted, where the rule allows that, or by a grant for exactly this action and this sender, signed with the registered key of one of the rule's approvers other than the sender, inside its time window; and the approver reported upstream is that one.\<close>

theorem gateway_approval_enforced:
  assumes "snd (verify P cfg g t req) = Some (Accepted a)" "normalizeGatewayPath (rq_path req) = Some np"
    and "matchPolicy (gc_policies cfg) np = Some p" "require p \<noteq> ReqNone" "approval p = Some rule"
  shows "\<exists>act. bindAction (pf_crypto P) (rq_method req) np (rq_body req) = Some act \<and>
    ((approval_require rule = approval_require.Untrusted \<and> (\<exists>c pub. parseProvenance (pf_parse P) (getHeader (rq_headers req) PROVENANCE_HEADER) = Some c
       \<and> c_sender c = ac_sender a \<and> c_action c = act \<and> c_sources c \<noteq> [] \<and> (\<forall>x \<in> set (c_sources c). strust x = Trusted) \<and> at_claim t < c_expiresAt c
       \<and> reg_public (gc_keyRegistry cfg) (Some (JStr (ac_sender a))) = Some (Some pub)
       \<and> verify_canonical (pf_crypto P) (canonicalizeClaim c) (c_signature c) pub = Some True))
     \<or> (\<exists>reg gr pub. gc_approverRegistry cfg = Some reg \<and> parseApproval (pf_parse P) (getHeader (rq_headers req) APPROVAL_HEADER) = Some gr
       \<and> g_approver gr \<in> set (approvers rule) \<and> g_approver gr \<noteq> ac_sender a \<and> g_subject gr = ac_sender a \<and> g_action gr = act
       \<and> g_issuedAt gr \<le> at_approval t + 30000 \<and> at_approval t < g_expiresAt gr \<and> g_expiresAt gr \<le> g_issuedAt gr + 600000
       \<and> reg (g_approver gr) = Some pub \<and> verify_canonical (pf_crypto P) (canonicalizeApproval gr) (g_signature gr) pub = Some True
       \<and> ac_approvedBy a = Some (g_approver gr)))"
  using assms(1)
proof (cases rule: verify_accepts)
  case (open_route np')
  then show ?thesis using assms(2-4) by auto
next
  case (checked np' g' s eid)
  then have "np' = np" using assms(2) by simp
  then have "approved P cfg t rule req np a" using admit_accepts(4) [OF checked(3), of p rule] assms(3,5) by simp
  then obtain act where act: "bindAction (pf_crypto P) (rq_method req) np (rq_body req) = Some act"
    and "(approval_require rule = approval_require.Untrusted
         \<and> claimed_trust P (gc_keyRegistry cfg) (at_claim t) (ac_sender a) act (getHeader (rq_headers req) PROVENANCE_HEADER) = Some Trusted)
       \<or> (\<exists>reg gr. gc_approverRegistry cfg = Some reg \<and> parseApproval (pf_parse P) (getHeader (rq_headers req) APPROVAL_HEADER) = Some gr
         \<and> approval_authentic (pf_crypto P) gr (approval_opts_of reg (approvers rule) (ac_sender a) act (at_approval t))
         \<and> ac_approvedBy a = Some (g_approver gr))" (is "?trusted \<or> ?granted")
    by (auto simp: approved_def)
  then show ?thesis
  proof (elim disjE)
    assume ?trusted
    then show ?thesis using claimed_trusted act by blast
  next
    assume ?granted
    then obtain reg gr where gr: "gc_approverRegistry cfg = Some reg" "parseApproval (pf_parse P) (getHeader (rq_headers req) APPROVAL_HEADER) = Some gr"
      "approval_authentic (pf_crypto P) gr (approval_opts_of reg (approvers rule) (ac_sender a) act (at_approval t))"
      "ac_approvedBy a = Some (g_approver gr)" by blast
    from gr(3) obtain pub where "reg (g_approver gr) = Some pub" "verify_canonical (pf_crypto P) (canonicalizeApproval gr) (g_signature gr) pub = Some True"
      "approval_checks gr (approval_opts_of reg (approvers rule) (ac_sender a) act (at_approval t)) = None"
      by (auto simp: approval_authentic_def approval_opts_of_def)
    moreover from this(3) have "g_approver gr \<in> set (approvers rule)" "g_approver gr \<noteq> ac_sender a" "g_subject gr = ac_sender a" "g_action gr = act"
      "g_issuedAt gr \<le> at_approval t + 30000" "at_approval t < g_expiresAt gr" "g_expiresAt gr \<le> g_issuedAt gr + 600000"
      by (auto simp: approval_checks_def approval_opts_of_def actionsEqual_iff MAX_CLOCK_SKEW_MS_def MAX_APPROVAL_TTL_MS_def split: if_splits)
    ultimately show ?thesis using act gr(1,2,4) by blast
  qed
qed

section \<open>What reaches the upstream\<close>

lemma client_headers_acc:
  "mget (foldl (\<lambda>m (k, v). if toLowerCase k \<in> set GATEWAY_OWNED_HEADERS then m else mset_key m k (first_value (Some v))) m hs) k =
    (if toLowerCase k \<in> set GATEWAY_OWNED_HEADERS then mget m k
     else case map_of (rev hs) k of None \<Rightarrow> mget m k | Some v \<Rightarrow> Some (first_value (Some v)))"
proof (induction hs arbitrary: m)
  case (Cons e hs)
  obtain k' v where e: "e = (k', v)" by (cases e)
  show ?case by (auto simp add: e Cons.IH map_add_def split: option.split)
qed simp

lemma map_of_distinct_rev: "distinct (map fst hs) \<Longrightarrow> map_of (rev hs) k = map_of hs k"
proof -
  assume "distinct (map fst hs)"
  then have "map_of (rev hs) k = Some v \<longleftrightarrow> map_of hs k = Some v" for v by (simp add: map_of_eq_Some_iff rev_map [symmetric])
  then show ?thesis by (metis not_Some_eq)
qed

lemma client_headers_get:
  "wf_map hs \<Longrightarrow> mget (client_headers hs) k =
    (if toLowerCase k \<in> set GATEWAY_OWNED_HEADERS then None else map_option (\<lambda>v. first_value (Some v)) (mget hs k))"
  using map_of_distinct_rev [of hs k] unfolding client_headers_def client_headers_acc
  by (auto simp: wf_map_def mget_def split: option.split)

lemma add_header_get: "mget (add_header n v m) k = (if k = n \<and> v \<notin> {None, Some []} then Some v else mget m k)"
  by (auto simp: add_header_def split: option.splits list.splits)

lemma owned_names [simp]:
  "toLowerCase SENDER_HEADER = SENDER_HEADER" "toLowerCase VERIFIED_HEADER = VERIFIED_HEADER"
  "toLowerCase APPROVED_BY_HEADER = APPROVED_BY_HEADER" "toLowerCase TRUST_HEADER = TRUST_HEADER"
  by (simp_all add: toLowerCase_def lower_unit_def upper_char_def SENDER_HEADER_def VERIFIED_HEADER_def APPROVED_BY_HEADER_def TRUST_HEADER_def ascii_eval)

lemma names_differ [simp]:
  "SENDER_HEADER \<noteq> VERIFIED_HEADER" "SENDER_HEADER \<noteq> APPROVED_BY_HEADER" "SENDER_HEADER \<noteq> TRUST_HEADER"
  "VERIFIED_HEADER \<noteq> APPROVED_BY_HEADER" "VERIFIED_HEADER \<noteq> TRUST_HEADER" "APPROVED_BY_HEADER \<noteq> TRUST_HEADER"
  by (simp_all add: SENDER_HEADER_def VERIFIED_HEADER_def APPROVED_BY_HEADER_def TRUST_HEADER_def ascii_eval)

lemma trust_text_nonempty: "trust_text x \<noteq> []" "js ''true'' \<noteq> []"
  by (cases x) (simp_all add: ascii_eval)

lemma forward_headers_get:
  assumes "wf_map hs"
  shows "mget (forward_headers a hs) k =
    (if toLowerCase k \<notin> set GATEWAY_OWNED_HEADERS then map_option (\<lambda>v. first_value (Some v)) (mget hs k)
     else if k = SENDER_HEADER \<and> ac_sender a \<noteq> [] then Some (Some (ac_sender a))
     else if k = VERIFIED_HEADER \<and> ac_sender a \<noteq> [] then Some (Some (js ''true''))
     else if k = APPROVED_BY_HEADER \<and> ac_approvedBy a \<notin> {None, Some []} then Some (ac_approvedBy a)
     else if k = TRUST_HEADER \<and> ac_trust a \<noteq> None then Some (map_option trust_text (ac_trust a))
     else None)"
proof (cases "toLowerCase k \<in> set GATEWAY_OWNED_HEADERS")
  case True
  then show ?thesis
    by (auto simp: forward_headers_def add_header_get client_headers_get [OF assms] trust_text_nonempty names_differ [symmetric])
next
  case False
  then have "k \<noteq> SENDER_HEADER" "k \<noteq> VERIFIED_HEADER" "k \<noteq> APPROVED_BY_HEADER" "k \<noteq> TRUST_HEADER"
    by (auto simp: GATEWAY_OWNED_HEADERS_def)
  with False show ?thesis by (simp add: forward_headers_def add_header_get client_headers_get [OF assms])
qed

text \<open>C10 Only accepted requests are forwarded, to the normalised path, and under the names the gateway owns, in whatever case the client wrote them, the upstream sees exactly what the gateway established: the sender and the verified mark only for an authenticated caller, the approver and the trust level only if there are such; every other header is the client's, first value of a repeated one.\<close>

theorem gateway_forwards_sound:
  assumes "handle P cfg fetch g t clock rnd6 rnd12 req = (g', Some f, resp)" "wf_map (rq_headers req)"
  shows "\<exists>a np. snd (verify P cfg g t req) = Some (Accepted a) \<and> normalizeGatewayPath (rq_path req) = Some np
    \<and> fw_url f = upstream_base (gc_upstream cfg) @ np \<and> fw_method f = rq_method req \<and> fw_body f = rq_body req
    \<and> (\<forall>k. mget (fw_headers f) k =
      (if toLowerCase k \<notin> set GATEWAY_OWNED_HEADERS then map_option (\<lambda>v. first_value (Some v)) (mget (rq_headers req) k)
       else if k = SENDER_HEADER \<and> ac_sender a \<noteq> [] then Some (Some (ac_sender a))
       else if k = VERIFIED_HEADER \<and> ac_sender a \<noteq> [] then Some (Some (js ''true''))
       else if k = APPROVED_BY_HEADER \<and> ac_approvedBy a \<notin> {None, Some []} then Some (ac_approvedBy a)
       else if k = TRUST_HEADER \<and> ac_trust a \<noteq> None then Some (map_option trust_text (ac_trust a))
       else None))"
proof -
  from assms(1) obtain a where a: "snd (verify P cfg g t req) = Some (Accepted a)" "f = forward_request cfg a req"
    by (auto simp: handle_def Let_def split: prod.splits option.splits outcome.splits)
  from a(1) obtain np where np: "normalizeGatewayPath (rq_path req) = Some np"
    by (auto simp: verify_def deny_def split: option.splits)
  show ?thesis
    by (intro exI [of _ a] exI [of _ np] conjI allI a(1) np)
      (simp_all add: a(2) forward_request_def np forward_headers_get [OF assms(2)] del: insert_iff)
qed

section \<open>Configuration\<close>

text \<open>C40 A gateway exists only for a configuration that has the parts its policies name: construction succeeds exactly when every DPoP and HTTP-signature policy has its configuration and every policy with an approval rule authenticates its callers, names at least one approver and finds an approver registry. It starts on the world it was given with no rate-limit window and with empty approval, nonce and DPoP stores; the production preset also insists on refusing unmatched paths and on a shared replay store.\<close>

theorem created_gateway_enforceable:
  "(\<exists>g. createGateway cfg w = Inr g) =
    (\<forall>p \<in> set (gc_policies cfg). (require p = ReqDpop \<longrightarrow> gc_dpop cfg \<noteq> None) \<and> (require p = ReqHttpSignature \<longrightarrow> gc_httpSignature cfg \<noteq> None)
      \<and> (\<forall>rule. approval p = Some rule \<longrightarrow> require p \<noteq> ReqNone \<and> gc_approverRegistry cfg \<noteq> None \<and> approvers rule \<noteq> []))
  \<and> (\<forall>g. createGateway cfg w = Inr g \<longrightarrow> gw_world g = w \<and> windows (gw_limiter g) = [] \<and> mem_entries (gw_approvalStore g) = []
      \<and> mem_entries (gw_nonceStore g) = [] \<and> mem_entries (gw_dpopStore g) = []
      \<and> mem_inv (gw_approvalStore g) \<and> mem_inv (gw_nonceStore g) \<and> mem_inv (gw_dpopStore g))
  \<and> (\<forall>g. createProductionGateway cfg w = Inr g \<longleftrightarrow> createGateway cfg w = Inr g \<and> gc_defaultPolicy cfg = Some DenyUnmatched \<and> gc_replayStore cfg \<noteq> None)"
proof -
  have ok: "(\<exists>g. createGateway cfg w = Inr g) \<longleftrightarrow> \<not> ((\<exists>p \<in> set (gc_policies cfg). require p = ReqDpop) \<and> gc_dpop cfg = None)
    \<and> \<not> ((\<exists>p \<in> set (gc_policies cfg). require p = ReqHttpSignature) \<and> gc_httpSignature cfg = None)
    \<and> List.map_filter (approval_config_error cfg) (gc_policies cfg) = []"
    by (simp add: createGateway_def split: list.split)
  have "List.map_filter (approval_config_error cfg) ps = [] \<longleftrightarrow> (\<forall>p \<in> set ps. approval_config_error cfg p = None)" for ps
    by (induction ps) (auto simp: List.map_filter_simps split: option.split)
  moreover have "approval_config_error cfg p = None \<longleftrightarrow> (\<forall>rule. approval p = Some rule \<longrightarrow> require p \<noteq> ReqNone \<and> gc_approverRegistry cfg \<noteq> None \<and> approvers rule \<noteq> [])" for p
    by (cases "approval p") (auto simp: approval_config_error_def)
  ultimately have "(\<exists>g. createGateway cfg w = Inr g) =
    (\<forall>p \<in> set (gc_policies cfg). (require p = ReqDpop \<longrightarrow> gc_dpop cfg \<noteq> None) \<and> (require p = ReqHttpSignature \<longrightarrow> gc_httpSignature cfg \<noteq> None)
      \<and> (\<forall>rule. approval p = Some rule \<longrightarrow> require p \<noteq> ReqNone \<and> gc_approverRegistry cfg \<noteq> None \<and> approvers rule \<noteq> []))"
    unfolding ok by simp blast
  moreover have "mem_inv fresh_store" "mem_entries fresh_store = []" "windows fresh_limiter = []"
    by (simp_all add: fresh_store_def fresh_limiter_def mem_inv_def msize_def)
  ultimately show ?thesis
    by (intro conjI) (assumption | (auto simp: createGateway_def createProductionGateway_def split: list.split_asm if_split_asm)[1])+
qed

section \<open>Single use across requests\<close>

text \<open>C9 An approval is spent once: with one shared Redis store behind the gateway, after a request was accepted on a grant, no later request that brings a grant with that id is let through on it before the grant expires, whatever requests the gateway served in between and whichever way either caller authenticated.\<close>

theorem gateway_grant_single_use:
  assumes "shared_store redis_check' cfg"
    and "verify P cfg g t1 req1 = (g1, Some (Accepted a1))" "ac_approvedBy a1 \<noteq> None"
    and "\<forall>(t, req) \<in> set evs. before (at_approval_store t2) t" "before (at_approval_store t2) t1" "before (at_approval_store t2) t2"
    and "verify P cfg (gateway_run P cfg g1 evs) t2 req2 = (g2, Some (Accepted a2))"
    and "parseApproval (pf_parse P) (getHeader (rq_headers req1) APPROVAL_HEADER) = Some gr1"
    and "parseApproval (pf_parse P) (getHeader (rq_headers req2) APPROVAL_HEADER) = Some gr2" "g_id gr2 = g_id gr1"
    and "at_approval_store t2 < at_approval_store t1 + (g_expiresAt gr1 - at_approval t1) + 30000"
  shows "ac_approvedBy a2 = None"
  using redis_checker.grant_spent_once [OF assms(1) TrueI assms(2-10)] assms(11) by (simp add: MAX_CLOCK_SKEW_MS_def)

text \<open>
  The nonce of an envelope is used as the store's key as it stands, and approvals, DPoP proofs and
  signatures keep their keys in the same store.
\<close>

lemma nonce_reserves:
  assumes "shared_store mem_check cfg" "mem_inv (gw_world g)" "before T t"
    and "verifyHttpEnvelope (pf_crypto P) (pf_parse P) (pf_num P)
      \<lparr>ho_registry = Some (gc_keyRegistry cfg), ho_headerName = gc_headerName cfg, ho_strictTtl = None\<rparr> (rq_headers req) None (at_verify t) = Some (Inr e)"
    and "jmember e ''header'' = Some h" "jmember h ''nonce'' = Some (JStr k)" "jmember h ''ttlMs'' = Some (JNum (Fin n))"
    and "snd (mem_check (gw_world g) k (Fin n) (at_store t)) = Some False" "T < at_store t + n"
  shows "mem_holds (gw_world (fst (verifyEnvelopeRoute P cfg g t pol req np))) k T
    \<and> mem_inv (gw_world (fst (verifyEnvelopeRoute P cfg g t pol req np)))"
proof -
  have chk: "gc_replayStore cfg = Some mem_check" using assms(1) by (simp add: shared_store_def)
  define w where "w = fst (mem_check (gw_world g) k (Fin n) (at_store t))"
  have m: "snd (mem_mark (gw_world g) k (Fin n) (at_store t))" "w = fst (mem_mark (gw_world g) k (Fin n) (at_store t))"
    using assms(8) by (simp_all add: mem_mark_def w_def)
  have held: "mem_holds w k T" unfolding m(2) by (rule memory_replay.fresh_held [OF assms(2) m(1) assms(9)])
  have inv: "mem_inv w" unfolding m(2) by (rule memory_replay.invar_mark [OF assms(2)])
  have c: "mem_check (gw_world g) k (Fin n) (at_store t) = (w, Some False)" using assms(8) by (simp add: w_def prod_eq_iff)
  let ?g = "g\<lparr>gw_world := w\<rparr>"
  have "mem_holds (gw_world (fst (admit P cfg ?g t pol s eid req np))) k T \<and> mem_inv (gw_world (fst (admit P cfg ?g t pol s eid req np)))" for s eid
    using memory_checker.admit_advances [OF assms(1,3), of ?g P pol s eid req np] held inv by (simp add: advances_def)
  then show ?thesis
    using held inv by (simp add: verifyEnvelopeRoute_def assms(4,5,6,7) chk c text_member_def string_or_empty_def finite_or_nan_def Let_def)
qed

text \<open>Any registered sender can burn somebody else's approval: an authentic envelope whose nonce is the store key of a grant reserves that key, even when the request itself is refused afterwards for its sender, its rate or its missing approval, and from then on the genuine grant is answered as already used.\<close>

theorem envelope_nonce_burns_grant:
  assumes "shared_store mem_check cfg" "mem_inv (gw_world g)" "before T t"
    and "verifyHttpEnvelope (pf_crypto P) (pf_parse P) (pf_num P)
      \<lparr>ho_registry = Some (gc_keyRegistry cfg), ho_headerName = gc_headerName cfg, ho_strictTtl = None\<rparr> (rq_headers req) None (at_verify t) = Some (Inr e)"
    and "jmember e ''header'' = Some h" "jmember h ''nonce'' = Some (JStr (approval_key gr))" "jmember h ''ttlMs'' = Some (JNum (Fin n))"
    and "snd (mem_check (gw_world g) (approval_key gr) (Fin n) (at_store t)) = Some False" "T < at_store t + n"
    and "approval_authentic (pf_crypto P) gr (approval_opts_of reg aps s act now)"
  shows "snd (verifyApproval (pf_crypto P) (Some (approvalStore cfg)) (fst (verifyEnvelopeRoute P cfg g t pol req np)) T (Some gr)
      (approval_opts_of reg aps s act now)) = Some (Inl AlreadyUsed)"
proof -
  let ?g = "fst (verifyEnvelopeRoute P cfg g t pol req np)"
  note r = nonce_reserves [OF assms(1-9), of pol np]
  have ne: "vo_allowedApprovers (approval_opts_of reg aps s act now) \<noteq> []"
    using assms(10) by (auto simp: approval_authentic_def approval_checks_def split: if_splits)
  have "snd (mem_check (gw_world ?g) (approval_key gr) (Fin ttl) T) = Some True" if "0 < ttl" for ttl
    using conjunct1 [OF r] that by (simp add: mem_check_def mem_holds_def)
  then have "snd (approvalStore cfg ?g (approval_key gr) (Fin (max 1 (g_expiresAt gr - now) + MAX_CLOCK_SKEW_MS)) T) = Some True"
    by (simp add: shared_resolved(1) [OF assms(1)] MAX_CLOCK_SKEW_MS_def)
  then show ?thesis
    unfolding verifyApproval_reaches_store [OF assms(10) ne]
    by (auto simp: approval_opts_of_def split: prod.splits)
qed

section \<open>Where the checked path and the forwarded path part\<close>

text \<open>The capability is checked against the path as received, while the policy and the upstream get the normalised one: a token whose scope matches only the raw text of a path is accepted for, and forwarded to, the path that text resolves to, on every route that asks for authentication, those that ask for an HTTP signature or DPoP included.\<close>

theorem capability_checked_on_raw_path:
  assumes "gc_capabilityRegistry cfg = Some reg" "capability_header (rq_headers req) = Some cap" "pf_chain P cap = Some chain"
    and "verifyCapabilityChain (pf_crypto P) chain reg None None (at_verify t) = Some (Inr tok)"
    and "tokenMatchesScope tok (rq_path req) (Some (rq_method req))"
    and "normalizeGatewayPath (rq_path req) = Some np" "matchPolicy (gc_policies cfg) np = Some p" "require p \<noteq> ReqNone"
    and "allowedSenders p = None" "rateLimit p = None" "approval p = None"
  shows "\<exists>a. verify P cfg g t req = (g, Some (Accepted a)) \<and> ac_sender a = subject tok
    \<and> fw_url (forward_request cfg a req) = upstream_base (gc_upstream cfg) @ np"
proof -
  have "verifyCapabilityChain (pf_crypto P) chain reg (Some (rq_path req)) (Some (rq_method req)) (at_verify t) = Some (Inr tok)"
    using assms(4,5) by (simp add: verifyChain_iff)
  moreover have "admit P cfg g t (Some p) (subject tok) None req np
      = (g, Some (Accepted \<lparr>ac_sender = subject tok, ac_envelopeId = None, ac_approvedBy = None, ac_trust = None\<rparr>))"
    using assms(9-11) by (simp add: admit_def checkSenderAndRateLimit_def isAllowedSender_def enforceApproval_def)
  ultimately have "verify P cfg g t req = (g, Some (Accepted \<lparr>ac_sender = subject tok, ac_envelopeId = None, ac_approvedBy = None, ac_trust = None\<rparr>))"
    using assms(1-3,5-8) by (simp add: verify_def verifyCapability_def Let_def)
  then show ?thesis using assms(6) by (intro exI conjI) (assumption | simp add: forward_request_def)+
qed

definition health_policy :: route_policy where
  "health_policy = \<lparr>path = js ''/*/health'', require = ReqNone, rateLimit = None, allowedSenders = None, signResponse = None, approval = None\<rparr>"

text \<open>The decoded path is forwarded without being encoded again, so an escaped question mark becomes a real one: with a single open policy for health checks, everything else refused, the path /admin%3F/health is accepted without any authentication as a health check, and the URL sent upstream has the path /admin, which no policy opens.\<close>

theorem decoded_path_reinterpreted:
  "\<exists>a u. snd (verify P (cfg\<lparr>gc_policies := [health_policy], gc_defaultPolicy := Some DenyUnmatched\<rparr>) g t
      \<lparr>rq_method = m, rq_path = js ''/admin%3F/health'', rq_headers = hs, rq_body = bd\<rparr>) = Some (Accepted a)
    \<and> fw_url (forward_request (cfg\<lparr>gc_upstream := js ''https://up''\<rparr>) a \<lparr>rq_method = m, rq_path = js ''/admin%3F/health'', rq_headers = hs, rq_body = bd\<rparr>)
        = js ''https://up/admin?/health''
    \<and> parseUrl (js ''https://up/admin?/health'') = Inr u \<and> up_path u = js ''/admin'' \<and> matchPolicy [health_policy] (js ''/admin'') = None"
proof -
  have d: "decode_passes 5 (js ''/admin%3F/health'') = Some (js ''/admin?/health'')"
  proof -
    have "decodeURIComponent (js ''/admin%3F/health'') = Some (js ''/admin?/health'')"
      by (simp add: ascii_eval take_char_def Let_def octet_count_def hex_value_def scalar_def utf8_cp_def utf16_of_def)
    moreover have "37 \<notin> set (js ''/admin?/health'')" by (simp add: ascii_eval)
    moreover have "js ''/admin?/health'' \<noteq> js ''/admin%3F/health''" by (simp add: ascii_eval)
    ultimately show ?thesis using decode_passes_plain [of "js ''/admin?/health''" 4] by (simp add: eval_nat_numeral)
  qed
  have s: "split_on 47 (js ''/admin?/health'') = [[], js ''admin?'', js ''health'']" by (simp add: ascii_eval)
  have "37 \<notin> set (js ''/admin?/health'')" "\<not> (\<exists>c \<in> set (js ''/admin?/health''). control_char c)" by (simp_all add: ascii_eval control_char_def)
  then have np: "normalizeGatewayPath (js ''/admin%3F/health'') = Some (js ''/admin?/health'')"
    using d has_escape_plain [of "js ''/admin?/health''"] by (simp add: normalizeGatewayPath_def startsWith_def s) (simp add: ascii_eval)
  have yes: "matchPolicy [health_policy] (js ''/admin?/health'') = Some health_policy"
    by (simp add: matchPolicy_def health_policy_def matchGlob_def ascii_eval line_terminator_def ex_split_Cons)
  have no: "matchPolicy [health_policy] (js ''/admin'') = None"
    by (simp add: matchPolicy_def health_policy_def matchGlob_def ascii_eval line_terminator_def ex_split_Cons)
  have u: "\<exists>u. parseUrl (js ''https://up/admin?/health'') = Inr u \<and> up_path u = js ''/admin''"
    by (simp add: parseUrl_def Let_def ascii_eval scheme_char_def lower_char_def upper_char_def digit_char_def toLowerCase_def lower_unit_def)
  have v: "snd (verify P (cfg\<lparr>gc_policies := [health_policy], gc_defaultPolicy := Some DenyUnmatched\<rparr>) g t
      \<lparr>rq_method = m, rq_path = js ''/admin%3F/health'', rq_headers = hs, rq_body = bd\<rparr>)
    = Some (Accepted \<lparr>ac_sender = [], ac_envelopeId = None, ac_approvedBy = None, ac_trust = None\<rparr>)"
    using yes by (simp add: verify_def np Let_def health_policy_def)
  have base: "upstream_base (js ''https://up'') @ js ''/admin?/health'' = js ''https://up/admin?/health''"
    by (simp add: upstream_base_def ascii_eval)
  have "fw_url (forward_request (cfg\<lparr>gc_upstream := js ''https://up''\<rparr>) \<lparr>ac_sender = [], ac_envelopeId = None, ac_approvedBy = None, ac_trust = None\<rparr>
      \<lparr>rq_method = m, rq_path = js ''/admin%3F/health'', rq_headers = hs, rq_body = bd\<rparr>) = js ''https://up/admin?/health''"
    by (simp add: forward_request_def np base)
  with v u no show ?thesis by blast
qed

section \<open>The properties at work\<close>

text \<open>Signatures that are one fixed byte, and hashes of the right size.\<close>

definition gw_crypto :: crypto where
  "gw_crypto = \<lparr>hmac_key_ok = (\<lambda>k. True), hmac_raw = (\<lambda>k m. [1]), ed_priv_ok = (\<lambda>k. True),
    ed_sign_raw = (\<lambda>k m. [1]), ed_pub_ok = (\<lambda>k. True), ed_verify_raw = (\<lambda>k s m. s = [1]), sha256_raw = (\<lambda>m. replicate 32 0)\<rparr>"

definition gw_sig :: jstr where
  "gw_sig = toBase64Url [1]"

lemma gw_verifies: "verifyCanonicalPayloadEd25519 gw_crypto p gw_sig pub = Some True"
  by (simp add: verifyCanonicalPayloadEd25519_def import_ed_pub_def ed_check_def gw_crypto_def gw_sig_def base64url_roundtrip)

lemma gw_sig_nonempty: "gw_sig \<noteq> []"
  using base64url_roundtrip [of "[1]"] base64url_roundtrip [of "[]"] by (auto simp: gw_sig_def toBase64Url_def replace_char_def)

definition gw_root :: token where
  "gw_root = demo_token\<lparr>scopes := [\<lparr>pathGlob = js ''/public/**'', methods = None, scopeMaxDelegations = None\<rparr>], tsignature := gw_sig\<rparr>"

definition gw_action :: bound_action where
  "gw_action = \<lparr>act_method = js ''GET'', act_path = js ''/public/x'', act_bodySha256 = toHex (replicate 32 0)\<rparr>"

definition gw_grant :: grant where
  "gw_grant = demo_grant\<lparr>g_action := gw_action, g_signature := gw_sig\<rparr>"

definition gw_platform :: "(jstr \<Rightarrow> json option) \<Rightarrow> platform" where
  "gw_platform parse = \<lparr>pf_crypto = gw_crypto, pf_sha512 = (\<lambda>b. b), pf_jose = demo_jose, pf_url = demo_url, pf_parse = parse,
     pf_chain = (\<lambda>s. Some [gw_root]), pf_num = (\<lambda>c. [])\<rparr>"

definition gw_policy :: "string \<Rightarrow> approval_policy option \<Rightarrow> route_policy" where
  "gw_policy p ap = \<lparr>path = js p, require = ReqHmac, rateLimit = None, allowedSenders = None, signResponse = None, approval = ap\<rparr>"

definition gw_rule :: approval_policy where
  "gw_rule = \<lparr>approval_require = Always, approvers = [js ''a'']\<rparr>"

definition gw_config :: "'st store_check option \<Rightarrow> route_policy list \<Rightarrow> 'st gateway_config" where
  "gw_config chk ps = \<lparr>gc_upstream = js ''https://up/'', gc_keyRegistry = demo_keys, gc_policies = ps, gc_privateKey = None, gc_sender = None,
     gc_signResponses = None, gc_defaultPolicy = Some DenyUnmatched, gc_headerName = None, gc_replayStore = chk, gc_rateLimitStore = None,
     gc_capabilityRegistry = Some (\<lambda>i. Some (js ''k'')), gc_approverRegistry = Some (\<lambda>i. Some (js ''k'')), gc_approvalReplayStore = None,
     gc_httpSignature = None, gc_dpop = None\<rparr>"

definition gw_request :: "string \<Rightarrow> gateway_request" where
  "gw_request p = \<lparr>rq_method = js ''GET'', rq_path = js p,
     rq_headers = [(CAP_HEADER, Single (js ''c'')), (APPROVAL_HEADER, Single (js ''g'')), (js ''X-7h3-Verified'', Single (js ''true''))], rq_body = None\<rparr>"

definition gw_moments :: "int \<Rightarrow> moments" where
  "gw_moments s = \<lparr>at_verify = 10, at_store = s, at_limit = 0, at_claim = 150, at_approval = 150, at_approval_store = s\<rparr>"

definition gw_state :: "'st \<Rightarrow> 'st gateway_state" where
  "gw_state w = \<lparr>gw_world = w, gw_limiter = fresh_limiter, gw_approvalStore = fresh_store, gw_nonceStore = fresh_store, gw_dpopStore = fresh_store\<rparr>"

abbreviation gw_granting :: platform where
  "gw_granting \<equiv> gw_platform (\<lambda>t. Some (grant_json gw_grant))"

lemma gw_chain: "verifyCapabilityChain gw_crypto [gw_root] (\<lambda>i. Some (js ''k'')) None None 10 = Some (Inr gw_root)"
  using gw_verifies by (simp add: verifyChain_iff authentic_def token_signature_ok_def gw_root_def demo_token_def ascii_eval)

lemma gw_scope:
  "tokenMatchesScope gw_root (js ''/public/x'') m" "tokenMatchesScope gw_root (js ''/public/../admin'') m"
  "\<not> tokenMatchesScope gw_root (js ''/admin'') m"
  by (simp_all add: tokenMatchesScope_def scope_grants_def gw_root_def demo_token_def matchGlob_def ascii_eval line_terminator_def)

lemma gw_paths:
  "normalizeGatewayPath (js ''/public/x'') = Some (js ''/public/x'')" "normalizeGatewayPath (js ''/open'') = Some (js ''/open'')"
  "normalizeGatewayPath (js ''/public/../admin'') = Some (js ''/admin'')"
proof -
  have p: "37 \<notin> set (js ''/public/x'')" "37 \<notin> set (js ''/open'')" "37 \<notin> set (js ''/public/../admin'')" by (simp_all add: ascii_eval)
  show "normalizeGatewayPath (js ''/public/x'') = Some (js ''/public/x'')"
    using decode_passes_plain [OF p(1), of 5] has_escape_plain [OF p(1)] by (simp add: normalizeGatewayPath_def startsWith_def ascii_eval control_char_def)
  show "normalizeGatewayPath (js ''/open'') = Some (js ''/open'')"
    using decode_passes_plain [OF p(2), of 5] has_escape_plain [OF p(2)] by (simp add: normalizeGatewayPath_def startsWith_def ascii_eval control_char_def)
  show "normalizeGatewayPath (js ''/public/../admin'') = Some (js ''/admin'')"
    using decode_passes_plain [OF p(3), of 5] has_escape_plain [OF p(3)] by (simp add: normalizeGatewayPath_def startsWith_def ascii_eval control_char_def)
qed

lemma gw_headers: "capability_header (rq_headers (gw_request p)) = Some (js ''c'')"
  "getHeader (rq_headers (gw_request p)) APPROVAL_HEADER = Some (js ''g'')"
  by (simp_all add: gw_request_def capability_header_def getHeader_def first_value_def CAP_HEADER_def APPROVAL_HEADER_def toLowerCase_def lower_unit_def upper_char_def ascii_eval)

lemma gw_hex: "is_sha256_hex (toHex (replicate 32 0))"
  by (simp add: is_sha256_hex_def length_toHex) (simp add: toHex_def hex_digit_def)

lemma gw_grant_ok: "grant_well_formed gw_grant"
  using gw_hex gw_sig_nonempty
  by (simp add: grant_well_formed_def gw_grant_def demo_grant_def gw_action_def approval_version_def action_fields_ok_def max_safe_def startsWith_def ascii_eval)

lemma gw_grant_parses: "parseApproval (\<lambda>t. Some (grant_json gw_grant)) (Some (js ''g'')) = Some gw_grant"
proof -
  have r: "g_reason gw_grant = None" by (simp add: gw_grant_def demo_grant_def)
  have "js ''g'' \<noteq> []" "length (js ''g'') \<le> 8192" by (simp_all add: ascii_eval)
  with gw_grant_ok show ?thesis
    by (simp add: parseApproval_def grant_json_def unsigned_members_def opt_field_def non_empty_string_def positive_time_def
        optional_string_def isBoundAction_def action_json_def grant_well_formed_def r)
qed

lemma gw_grant_authentic: "approval_authentic gw_crypto gw_grant (approval_opts_of (\<lambda>i. Some (js ''k'')) [js ''a''] (js ''s'') gw_action 150)"
proof -
  obtain tx where "canonicalizeApproval gw_grant = Some tx" using canonicalizeApproval_some by blast
  then have "verify_canonical gw_crypto (canonicalizeApproval gw_grant) (g_signature gw_grant) (js ''k'') = Some True"
    using gw_verifies by (simp add: verify_canonical_def gw_grant_def)
  moreover have "js ''k'' \<noteq> []" by (simp add: ascii_eval)
  moreover have "approval_checks gw_grant (approval_opts_of (\<lambda>i. Some (js ''k'')) [js ''a''] (js ''s'') gw_action 150) = None"
    by (simp add: approval_checks_def approval_opts_of_def gw_grant_def demo_grant_def MAX_APPROVAL_TTL_MS_def MAX_CLOCK_SKEW_MS_def actionsEqual_iff ascii_eval)
  ultimately show ?thesis by (simp add: approval_authentic_def approval_opts_of_def)
qed

lemma gw_policies:
  "matchPolicy [gw_policy ''/public/**'' ap, gw_policy ''/admin'' None] (js ''/public/x'') = Some (gw_policy ''/public/**'' ap)"
  "matchPolicy [gw_policy ''/public/**'' ap, gw_policy ''/admin'' None] (js ''/admin'') = Some (gw_policy ''/admin'' None)"
  by (simp_all add: matchPolicy_def gw_policy_def matchGlob_def ascii_eval line_terminator_def)

lemma gw_bind: "bindAction gw_crypto (js ''GET'') (js ''/public/x'') None = Some gw_action"
  by (simp add: bindAction_def gw_action_def gw_crypto_def sha256Hex_def startsWith_def ascii_eval toUpperCase_def upper_unit_def)

abbreviation gw_two :: "route_policy list" where
  "gw_two \<equiv> [gw_policy ''/public/**'' (Some gw_rule), gw_policy ''/admin'' None]"

lemma gw_fields [simp]:
  "pf_crypto (gw_platform parse) = gw_crypto" "pf_parse (gw_platform parse) = parse" "pf_chain (gw_platform parse) = (\<lambda>s. Some [gw_root])"
  "gc_upstream (gw_config chk ps) = js ''https://up/''" "gc_policies (gw_config chk ps) = ps" "gc_capabilityRegistry (gw_config chk ps) = Some (\<lambda>i. Some (js ''k''))"
  "gc_approverRegistry (gw_config chk ps) = Some (\<lambda>i. Some (js ''k''))" "gc_defaultPolicy (gw_config chk ps) = Some DenyUnmatched"
  "gc_replayStore (gw_config chk ps) = chk" "gc_approvalReplayStore (gw_config chk ps) = None" "gc_keyRegistry (gw_config chk ps) = demo_keys"
  "gc_headerName (gw_config chk ps) = None"
  "at_verify (gw_moments t) = 10" "at_store (gw_moments t) = t" "at_approval (gw_moments t) = 150" "at_approval_store (gw_moments t) = t"
  "require (gw_policy p ap) = ReqHmac" "allowedSenders (gw_policy p ap) = None" "rateLimit (gw_policy p ap) = None" "approval (gw_policy p ap) = ap"
  "rq_method (gw_request q) = js ''GET''" "rq_body (gw_request q) = None" "rq_path (gw_request q) = js q"
  "gw_world (gw_state w) = w" "gw_state w\<lparr>gw_world := w'\<rparr> = gw_state w'"
  "approval_require gw_rule = Always" "approvers gw_rule = [js ''a'']" "subject gw_root = js ''s''" "g_approver gw_grant = js ''a''"
  "g_expiresAt gw_grant = 200"
  by (simp_all add: gw_platform_def gw_config_def gw_moments_def gw_policy_def gw_request_def gw_state_def gw_rule_def gw_root_def demo_token_def gw_grant_def demo_grant_def)

lemma gw_verify:
  assumes "snd (chk w (approval_key gw_grant) (Fin 30050) t) = Some False"
    and "matchPolicy ps (js ''/public/x'') = Some (gw_policy ''/public/**'' (Some gw_rule))"
  shows "verify gw_granting (gw_config (Some chk) ps) (gw_state w) (gw_moments t) (gw_request ''/public/x'')
    = (gw_state (fst (chk w (approval_key gw_grant) (Fin 30050) t)),
       Some (Accepted \<lparr>ac_sender = js ''s'', ac_envelopeId = None, ac_approvedBy = Some (js ''a''), ac_trust = Some trust.Untrusted\<rparr>))"
proof -
  let ?cfg = "gw_config (Some chk) ps" and ?pol = "Some (gw_policy ''/public/**'' (Some gw_rule))"
  let ?opts = "approval_opts_of (\<lambda>i. Some (js ''k'')) [js ''a''] (js ''s'') gw_action 150"
  obtain w' where w: "chk w (approval_key gw_grant) (Fin 30050) t = (w', Some False)" using assms(1) by (cases "chk w (approval_key gw_grant) (Fin 30050) t") auto
  have st: "approvalStore ?cfg (gw_state w) (approval_key gw_grant) (Fin 30050) t = (gw_state w', Some False)"
    by (simp add: approvalStore_def resolved_store_def w)
  have n: "Fin (max 1 (g_expiresAt gw_grant - vo_now ?opts) + vo_skew ?opts) = Fin 30050"
    by (simp add: approval_opts_of_def MAX_CLOCK_SKEW_MS_def)
  have ne: "vo_allowedApprovers ?opts \<noteq> []" by (simp add: approval_opts_of_def)
  have "verifyApproval gw_crypto (Some (approvalStore ?cfg)) (gw_state w) t (Some gw_grant) ?opts = (gw_state w', Some (Inr gw_grant))"
    unfolding verifyApproval_reaches_store [OF gw_grant_authentic ne] n by (simp add: st)
  then have "requireApproval gw_granting ?cfg (gw_state w) (gw_moments t) [js ''a''] (js ''s'') gw_action (Some (js ''g'')) trust.Untrusted
      = (gw_state w', Some (Inr (Some (js ''a''), Some trust.Untrusted)))"
    using gw_grant_parses by (simp add: requireApproval_def)
  then have "enforceApproval gw_granting ?cfg (gw_state w) (gw_moments t) ?pol (js ''s'') (gw_request ''/public/x'') (js ''/public/x'')
      = (gw_state w', Some (Inr (Some (js ''a''), Some trust.Untrusted)))"
    using gw_bind by (simp add: enforceApproval_def Let_def gw_headers)
  then have a: "admit gw_granting ?cfg (gw_state w) (gw_moments t) ?pol (js ''s'') None (gw_request ''/public/x'') (js ''/public/x'')
      = (gw_state w', Some (Accepted \<lparr>ac_sender = js ''s'', ac_envelopeId = None, ac_approvedBy = Some (js ''a''), ac_trust = Some trust.Untrusted\<rparr>))"
    by (simp add: admit_def checkSenderAndRateLimit_def isAllowedSender_def)
  have "verifyCapabilityChain gw_crypto [gw_root] (\<lambda>i. Some (js ''k'')) (Some (js ''/public/x'')) (Some (js ''GET'')) 10 = Some (Inr gw_root)"
    using gw_chain gw_scope(1) by (simp add: verifyChain_iff)
  then have "verifyCapability gw_granting ?cfg (gw_state w) (gw_moments t) ?pol (\<lambda>i. Some (js ''k'')) (js ''c'') (gw_request ''/public/x'') (js ''/public/x'')
      = (gw_state w', Some (Accepted \<lparr>ac_sender = js ''s'', ac_envelopeId = None, ac_approvedBy = Some (js ''a''), ac_trust = Some trust.Untrusted\<rparr>))"
    using gw_scope(1) a by (simp add: verifyCapability_def Let_def)
  then show ?thesis by (simp add: verify_def gw_paths assms(2) gw_headers Let_def w)
qed

lemma gw_redis: "snd (redis_check' \<lparr>keyPrefix = [], client = []\<rparr> k (Fin 30050) t) = Some False"
  by (simp add: redis_check'_def redis_check_def redis_set_def redis_live_def map_prod_def Let_def split: option.split)

definition gw_accepted :: acceptance where
  "gw_accepted = \<lparr>ac_sender = js ''s'', ac_envelopeId = None, ac_approvedBy = Some (js ''a''), ac_trust = Some trust.Untrusted\<rparr>"

abbreviation gw_shared :: "redis_replay_store gateway_config" where
  "gw_shared \<equiv> gw_config (Some redis_check') gw_two"

abbreviation gw_empty :: "redis_replay_store gateway_state" where
  "gw_empty \<equiv> gw_state \<lparr>keyPrefix = [], client = []\<rparr>"

lemma gw_accepts:
  "matchPolicy ps (js ''/public/x'') = Some (gw_policy ''/public/**'' (Some gw_rule)) \<Longrightarrow>
    \<exists>g'. verify gw_granting (gw_config (Some redis_check') ps) gw_empty (gw_moments t) (gw_request ''/public/x'') = (g', Some (Accepted gw_accepted))"
  using gw_verify [of redis_check' "\<lparr>keyPrefix = [], client = []\<rparr>" t ps] gw_redis by (simp add: gw_accepted_def)

theorem gateway_accepts_sound_witness:
  "authenticated_as gw_granting gw_shared (gw_moments 7) (Some (gw_policy ''/public/**'' (Some gw_rule))) (gw_request ''/public/x'') (js ''s'')"
proof -
  from gw_accepts [OF gw_policies(1), of 7] have "snd (verify gw_granting gw_shared gw_empty (gw_moments 7) (gw_request ''/public/x'')) = Some (Accepted gw_accepted)" by auto
  from gateway_accepts_sound [OF this] show ?thesis
    by (simp add: gw_paths gw_policies Let_def) (simp add: gw_accepted_def)
qed

theorem gateway_approval_enforced_witness:
  "\<exists>pub. verify_canonical gw_crypto (canonicalizeApproval gw_grant) (g_signature gw_grant) pub = Some True \<and> g_action gw_grant = gw_action"
proof -
  from gw_accepts [OF gw_policies(1), of 7] have "snd (verify gw_granting gw_shared gw_empty (gw_moments 7) (gw_request ''/public/x'')) = Some (Accepted gw_accepted)" by auto
  from gateway_approval_enforced [OF this _ _ _ _, of "js ''/public/x''" "gw_policy ''/public/**'' (Some gw_rule)" gw_rule]
  show ?thesis using gw_bind gw_grant_parses by (auto simp: gw_paths gw_policies gw_headers)
qed

theorem gateway_forwards_sound_witness:
  "\<exists>g' f. handle gw_granting gw_shared (\<lambda>f. None) gw_empty (gw_moments 7) 0 [] [] (gw_request ''/public/x'') = (g', Some f, None)
    \<and> mget (fw_headers f) VERIFIED_HEADER = Some (Some (js ''true'')) \<and> mget (fw_headers f) (js ''X-7h3-Verified'') = None"
proof -
  let ?f = "forward_request gw_shared gw_accepted (gw_request ''/public/x'')"
  obtain g' where v: "verify gw_granting gw_shared gw_empty (gw_moments 7) (gw_request ''/public/x'') = (g', Some (Accepted gw_accepted))"
    using gw_accepts [OF gw_policies(1)] by blast
  then have h: "handle gw_granting gw_shared (\<lambda>f. None) gw_empty (gw_moments 7) 0 [] [] (gw_request ''/public/x'') = (g', Some ?f, None)"
    by (simp add: handle_def Let_def)
  have "wf_map (rq_headers (gw_request ''/public/x''))" by (simp add: gw_request_def wf_map_def CAP_HEADER_def APPROVAL_HEADER_def ascii_eval)
  then obtain a where a: "snd (verify gw_granting gw_shared gw_empty (gw_moments 7) (gw_request ''/public/x'')) = Some (Accepted a)"
    and all: "\<forall>k. mget (fw_headers ?f) k =
      (if toLowerCase k \<notin> set GATEWAY_OWNED_HEADERS then map_option (\<lambda>v. first_value (Some v)) (mget (rq_headers (gw_request ''/public/x'')) k)
       else if k = SENDER_HEADER \<and> ac_sender a \<noteq> [] then Some (Some (ac_sender a))
       else if k = VERIFIED_HEADER \<and> ac_sender a \<noteq> [] then Some (Some (js ''true''))
       else if k = APPROVED_BY_HEADER \<and> ac_approvedBy a \<notin> {None, Some []} then Some (ac_approvedBy a)
       else if k = TRUST_HEADER \<and> ac_trust a \<noteq> None then Some (map_option trust_text (ac_trust a))
       else None)"
    using gateway_forwards_sound [OF h] by blast
  have "a = gw_accepted" using a v by simp
  with all have m: "mget (fw_headers ?f) k =
      (if toLowerCase k \<notin> set GATEWAY_OWNED_HEADERS then map_option (\<lambda>v. first_value (Some v)) (mget (rq_headers (gw_request ''/public/x'')) k)
       else if k = SENDER_HEADER \<and> ac_sender gw_accepted \<noteq> [] then Some (Some (ac_sender gw_accepted))
       else if k = VERIFIED_HEADER \<and> ac_sender gw_accepted \<noteq> [] then Some (Some (js ''true''))
       else if k = APPROVED_BY_HEADER \<and> ac_approvedBy gw_accepted \<notin> {None, Some []} then Some (ac_approvedBy gw_accepted)
       else if k = TRUST_HEADER \<and> ac_trust gw_accepted \<noteq> None then Some (map_option trust_text (ac_trust gw_accepted))
       else None)" for k by (simp only:)
  have l: "toLowerCase (js ''X-7h3-Verified'') = VERIFIED_HEADER"
    by (simp add: toLowerCase_def lower_unit_def upper_char_def VERIFIED_HEADER_def ascii_eval)
  have n: "js ''X-7h3-Verified'' \<notin> {SENDER_HEADER, VERIFIED_HEADER, APPROVED_BY_HEADER, TRUST_HEADER}"
    by (simp add: SENDER_HEADER_def VERIFIED_HEADER_def APPROVED_BY_HEADER_def TRUST_HEADER_def ascii_eval)
  have s: "ac_sender gw_accepted \<noteq> []" by (simp add: gw_accepted_def ascii_eval)
  have "VERIFIED_HEADER \<in> set GATEWAY_OWNED_HEADERS" by (simp add: GATEWAY_OWNED_HEADERS_def)
  then have "mget (fw_headers ?f) VERIFIED_HEADER = Some (Some (js ''true''))" "mget (fw_headers ?f) (js ''X-7h3-Verified'') = None"
    using l n s unfolding m by (simp_all add: names_differ [symmetric])
  with h show ?thesis by blast
qed

theorem created_gateway_enforceable_witness:
  "\<exists>g. createProductionGateway gw_shared \<lparr>keyPrefix = [], client = []\<rparr> = Inr g"
proof -
  have "\<exists>g. createGateway gw_shared \<lparr>keyPrefix = [], client = []\<rparr> = Inr g"
    using created_gateway_enforceable [of gw_shared "\<lparr>keyPrefix = [], client = []\<rparr>", THEN conjunct1] by simp
  then show ?thesis
    using created_gateway_enforceable [of gw_shared "\<lparr>keyPrefix = [], client = []\<rparr>", THEN conjunct2, THEN conjunct2] by auto
qed

theorem gateway_grant_single_use_witness:
  "\<exists>g1 g2 a2. verify gw_granting (gw_shared\<lparr>gc_policies := health_policy\<lparr>path := js ''/open''\<rparr> # gw_two\<rparr>) gw_empty (gw_moments 7) (gw_request ''/public/x'')
      = (g1, Some (Accepted gw_accepted))
    \<and> verify gw_granting (gw_shared\<lparr>gc_policies := health_policy\<lparr>path := js ''/open''\<rparr> # gw_two\<rparr>) g1 (gw_moments 9) (gw_request ''/open'') = (g2, Some (Accepted a2))
    \<and> ac_approvedBy a2 = None"
proof -
  let ?ps = "health_policy\<lparr>path := js ''/open''\<rparr> # gw_two"
  let ?cfg = "gw_config (Some redis_check') ?ps"
  have cfg: "gw_shared\<lparr>gc_policies := ?ps\<rparr> = ?cfg" by (simp add: gw_config_def)
  have p: "matchPolicy ?ps (js ''/public/x'') = Some (gw_policy ''/public/**'' (Some gw_rule))"
    "matchPolicy ?ps (js ''/open'') = Some (health_policy\<lparr>path := js ''/open''\<rparr>)"
    by (simp_all add: matchPolicy_def health_policy_def gw_policy_def matchGlob_def ascii_eval line_terminator_def)
  have open_route: "require (health_policy\<lparr>path := js ''/open''\<rparr>) = ReqNone" by (simp add: health_policy_def)
  obtain g1 where v1: "verify gw_granting ?cfg gw_empty (gw_moments 7) (gw_request ''/public/x'') = (g1, Some (Accepted gw_accepted))"
    using gw_accepts [OF p(1)] by blast
  obtain a2 where v2: "verify gw_granting ?cfg (gateway_run gw_granting ?cfg g1 []) (gw_moments 9) (gw_request ''/open'') = (g1, Some (Accepted a2))"
    by (simp add: verify_def gw_paths p Let_def open_route)
  have "shared_store redis_check' ?cfg" by (simp add: shared_store_def gw_config_def)
  from gateway_grant_single_use [OF this v1 _ _ _ _ v2, of gw_grant gw_grant]
  have "ac_approvedBy a2 = None" using gw_grant_parses by (simp add: gw_accepted_def before_def gw_headers)
  with v1 v2 show ?thesis unfolding cfg by auto
qed

theorem capability_checked_on_raw_path_witness:
  "\<exists>a. verify gw_granting gw_shared gw_empty (gw_moments 7) (gw_request ''/public/../admin'') = (gw_empty, Some (Accepted a))
    \<and> fw_url (forward_request gw_shared a (gw_request ''/public/../admin'')) = js ''https://up/admin''
    \<and> \<not> tokenMatchesScope gw_root (js ''/admin'') (Some (js ''GET''))"
proof -
  have u: "upstream_base (js ''https://up/'') @ js ''/admin'' = js ''https://up/admin''" by (simp add: upstream_base_def ascii_eval)
  from capability_checked_on_raw_path [of gw_shared "\<lambda>i. Some (js ''k'')" "gw_request ''/public/../admin''" "js ''c''" gw_granting "[gw_root]"
      "gw_moments 7" gw_root "js ''/admin''" "gw_policy ''/admin'' None" gw_empty]
  show ?thesis using gw_chain gw_scope(2,3) gw_paths(3) gw_policies(2) by (auto simp: gw_headers u)
qed

definition gw_burner :: header where
  "gw_burner = (demo_header 5 10)\<lparr>nonce := approval_key gw_grant\<rparr>"

lemma gw_burner_ok: "header_acceptable gw_burner 10"
  by (simp add: header_acceptable_def gw_burner_def demo_header_def approval_key_def blank_iff ws_char_def MAX_TTL_MS_def MAX_CLOCK_SKEW_MS_def ascii_eval)

lemma gw_http:
  "\<exists>e. verifyHttpEnvelope gw_crypto (\<lambda>t. Some (envelope_json e)) T \<lparr>ho_registry = Some demo_keys, ho_headerName = None, ho_strictTtl = None\<rparr>
    [(DEFAULT_HEADER, Single (js ''x''))] None 10 = Some (Inr (envelope_json e)) \<and> header e = gw_burner"
proof -
  let ?o = "\<lparr>ho_registry = Some demo_keys, ho_headerName = None, ho_strictTtl = None\<rparr>"
  define s where "s = \<lparr>alg = ED25519, keyId = [], sigValue = gw_sig\<rparr>"
  define e where "e = \<lparr>header = gw_burner, body = demo_body, signature = Some s\<rparr>"
  have f: "header e = gw_burner" "signature e = Some s" "alg s = ED25519" by (simp_all add: e_def s_def)
  have "received_envelope (\<lambda>t. Some (envelope_json e)) T (ho_headerName ?o) [(DEFAULT_HEADER, Single (js ''x''))] None = Inr (envelope_json e)"
    by (simp add: received_envelope_def first_value_def ascii_eval DEFAULT_HEADER_def Let_def)
  from verify_typed [OF this f(2)] gw_burner_ok f(1)
  have "verifyHttpEnvelope gw_crypto (\<lambda>t. Some (envelope_json e)) T ?o [(DEFAULT_HEADER, Single (js ''x''))] None 10
    = check_signature gw_crypto (Some demo_keys) (envelope_json e) (header_json (header e)) (signature_json s)" by simp
  also have "\<dots> = Some (Inr (envelope_json e))"
    using check_typed_ed [OF f(2,3), of demo_keys "js ''AA''" gw_crypto] demo_keys_a f(1)
    by (simp add: gw_burner_def demo_header_def ascii_eval verifyEnvelopeEd25519_def e_def s_def gw_verifies)
  finally show ?thesis using f(1) by blast
qed

theorem envelope_nonce_burns_grant_witness:
  "\<exists>parse. let P = gw_platform parse; req = \<lparr>rq_method = js ''GET'', rq_path = js ''/admin'', rq_headers = [(DEFAULT_HEADER, Single (js ''x''))], rq_body = None\<rparr> in
    snd (verifyApproval gw_crypto (Some (approvalStore (gw_config (Some mem_check) gw_two)))
      (fst (verifyEnvelopeRoute P (gw_config (Some mem_check) gw_two) (gw_state fresh_store) (gw_moments 7) (Some (gw_policy ''/admin'' None)) req (js ''/admin'')))
      12 (Some gw_grant) (approval_opts_of (\<lambda>i. Some (js ''k'')) [js ''a''] (js ''s'') gw_action 150)) = Some (Inl AlreadyUsed)"
proof -
  obtain e where e: "verifyHttpEnvelope gw_crypto (\<lambda>t. Some (envelope_json e)) (\<lambda>c. []) \<lparr>ho_registry = Some demo_keys, ho_headerName = None, ho_strictTtl = None\<rparr>
    [(DEFAULT_HEADER, Single (js ''x''))] None 10 = Some (Inr (envelope_json e))" "header e = gw_burner" using gw_http by blast
  let ?P = "gw_platform (\<lambda>t. Some (envelope_json e))" and ?cfg = "gw_config (Some mem_check) gw_two"
  let ?req = "\<lparr>rq_method = js ''GET'', rq_path = js ''/admin'', rq_headers = [(DEFAULT_HEADER, Single (js ''x''))], rq_body = None\<rparr>"
  have v: "verifyHttpEnvelope (pf_crypto ?P) (pf_parse ?P) (pf_num ?P)
      \<lparr>ho_registry = Some (gc_keyRegistry ?cfg), ho_headerName = gc_headerName ?cfg, ho_strictTtl = None\<rparr> (rq_headers ?req) None (at_verify (gw_moments 7))
      = Some (Inr (envelope_json e))"
    using e(1) by simp (simp add: gw_platform_def)
  have sh: "shared_store mem_check ?cfg" by (simp add: shared_store_def gw_config_def)
  have inv: "mem_inv (gw_world (gw_state fresh_store))" by (simp add: fresh_store_def mem_inv_def msize_def)
  have b: "before 12 (gw_moments 7)" by (simp add: before_def)
  have hd: "jmember (envelope_json e) ''header'' = Some (header_json gw_burner)" by (simp add: members_envelope e(2))
  have nn: "jmember (header_json gw_burner) ''nonce'' = Some (JStr (approval_key gw_grant))" by (simp add: members_header) (simp add: gw_burner_def)
  have tt: "jmember (header_json gw_burner) ''ttlMs'' = Some (JNum (Fin 10))" by (simp add: members_header) (simp add: gw_burner_def demo_header_def)
  have fr: "snd (mem_check (gw_world (gw_state fresh_store)) (approval_key gw_grant) (Fin 10) (at_store (gw_moments 7))) = Some False"
    by (simp add: mem_check_def fresh_store_def msize_def)
  have "approval_authentic (pf_crypto ?P) gw_grant (approval_opts_of (\<lambda>i. Some (js ''k'')) [js ''a''] (js ''s'') gw_action 150)"
    using gw_grant_authentic by simp
  from envelope_nonce_burns_grant [OF sh inv b v hd nn tt fr _ this] show ?thesis
    by (intro exI [of _ "\<lambda>t. Some (envelope_json e)"]) simp
qed

end
