(* ===== verification/Process.thy ===== *)
theory Process
  imports Prelude "HOL-Library.Multiset"
begin

text \<open>
  Asynchronous functions as processes. A process is a sequence of atomic steps on a shared
  world that ends in a value or in an exception (\<open>None\<close>); between two steps, that is at an
  \<open>await\<close>, other processes may run. \<open>run\<close> executes one process alone, \<open>pool_step\<close> one step of
  a member of a pool, and \<open>worker_step\<close> one step of a worker that takes the members of a
  pool one after the other. The lemmas give what the users of a pool need: whatever is
  handed out once in the world is handed out to one process (\<open>credit\<close>), and workers on
  processes of bounded length end under every schedule that keeps giving each of them a turn.
\<close>

section \<open>Processes\<close>

text \<open>\<open>Act g k\<close>: change the world by g and go on as k says, which sees the world before the change.\<close>

datatype ('w, 'a) proc = Done "'a option" | Act "'w \<Rightarrow> 'w" "'w \<Rightarrow> ('w, 'a) proc"

primrec run :: "('w, 'a) proc \<Rightarrow> 'w \<Rightarrow> 'w \<times> 'a option" where
  "run (Done r) = (\<lambda>w. (w, r))"
| "run (Act g k) = (\<lambda>w. run (k w) (g w))"

definition act :: "('w \<Rightarrow> 'w \<times> 'b option) \<Rightarrow> ('b \<Rightarrow> ('w, 'a) proc) \<Rightarrow> ('w, 'a) proc" where
  "act f k = Act (\<lambda>w. fst (f w)) (\<lambda>w. case snd (f w) of None \<Rightarrow> Done None | Some b \<Rightarrow> k b)"

lemma run_act [simp]: "run (act f k) w = (case f w of (w', None) \<Rightarrow> (w', None) | (w', Some b) \<Rightarrow> run (k b) w')"
  by (simp add: act_def case_prod_beta split: option.split)

fun finished :: "('w, 'a) proc \<Rightarrow> bool" where
  "finished (Done r) = True"
| "finished (Act g k) = False"

lemma finished_iff: "finished p \<longleftrightarrow> (\<exists>r. p = Done r)"
  by (cases p) simp_all

text \<open>At most n steps to the end.\<close>

primrec within :: "('w, 'a) proc \<Rightarrow> nat \<Rightarrow> bool" where
  "within (Done r) = (\<lambda>n. True)"
| "within (Act g k) = (\<lambda>n. n > 0 \<and> (\<forall>w. within (k w) (n - 1)))"

lemma within_mono: "within p n \<Longrightarrow> n \<le> m \<Longrightarrow> within p m"
proof (induction p arbitrary: n m)
  case (Act g k)
  have "within (k w) (m - 1)" for w
    by (rule Act.IH [OF rangeI, of w "n - 1"]) (use Act.prems in \<open>simp_all add: diff_le_mono\<close>)
  then show ?case using Act.prems by simp
qed simp

lemma within_act: "(\<And>b. within (k b) n) \<Longrightarrow> within (act f k) (Suc n)"
  by (auto simp: act_def split: option.split)

lemma within_map: "within (map_proc f p) n = within p n"
  by (induction p arbitrary: n) auto

lemma within_zero: "within p 0 \<Longrightarrow> finished p"
  by (cases p) simp_all

section \<open>Pools\<close>

type_synonym ('w, 'a) pool = "('w, 'a) proc list \<times> 'w"

definition pool_step :: "('w, 'a) pool \<Rightarrow> nat \<Rightarrow> ('w, 'a) pool" where
  "pool_step pw i =
    (if i < length (fst pw) then
       (case fst pw ! i of
          Done r \<Rightarrow> pw
        | Act g k \<Rightarrow> ((fst pw)[i := k (snd pw)], g (snd pw)))
     else pw)"

definition pool_result :: "('w, 'a) proc list \<Rightarrow> 'a list option" where
  "pool_result ps = all_some (map (\<lambda>p. case p of Done r \<Rightarrow> r | Act g k \<Rightarrow> None) ps)"

lemma pool_step_length [simp]: "length (fst (pool_step pw i)) = length (fst pw)"
  by (auto simp: pool_step_def split: proc.split)

lemma foldl_length [simp]: "length (fst (foldl (pool_step) pw is)) = length (fst pw)"
  by (induction "is" arbitrary: pw) simp_all

section \<open>What a process may end in\<close>

primrec may :: "('w, 'a) proc \<Rightarrow> 'a option \<Rightarrow> bool" where
  "may (Done r) = (\<lambda>x. x = r)"
| "may (Act g k) = (\<lambda>x. \<exists>w. may (k w) x)"

lemma may_act: "may (act f k) x \<longleftrightarrow> (\<exists>w. case snd (f w) of None \<Rightarrow> x = None | Some b \<Rightarrow> may (k b) x)"
  unfolding act_def may.simps by (rule ex_cong1) (simp split: option.split)

lemma may_act_Some: "may (act f k) (Some v) \<longleftrightarrow> (\<exists>w b. snd (f w) = Some b \<and> may (k b) (Some v))"
  unfolding may_act by (intro ex_cong1) (simp split: option.split)

lemma may_map: "may (map_proc f p) x \<longleftrightarrow> (\<exists>y. may p y \<and> x = map_option f y)"
proof (induction p)
  case (Act g k)
  have "may (map_proc f (k w)) x \<longleftrightarrow> (\<exists>y. may (k w) y \<and> x = map_option f y)" for w by (rule Act.IH [OF rangeI])
  then show ?case by auto
qed auto

lemma may_run: "may p (snd (run p w))"
proof (induction p arbitrary: w)
  case (Act g k)
  have "may (k w) (snd (run (k w) (g w)))" by (rule Act.IH [OF rangeI])
  then show ?case by auto
qed simp

lemma may_step: "i < length (fst pw) \<Longrightarrow> may (fst (pool_step pw j) ! i) x \<Longrightarrow> may (fst pw ! i) x"
proof (cases "i = j")
  case True
  assume "i < length (fst pw)" "may (fst (pool_step pw j) ! i) x"
  then show ?thesis using True by (cases "fst pw ! i") (auto simp: pool_step_def)
next
  case False
  assume "may (fst (pool_step pw j) ! i) x"
  moreover have "fst (pool_step pw j) ! i = fst pw ! i"
    using False by (cases "fst pw ! j") (auto simp: pool_step_def)
  ultimately show ?thesis by simp
qed

lemma may_pool: "i < length (fst pw) \<Longrightarrow> may (fst (foldl (pool_step) pw is) ! i) x \<Longrightarrow> may (fst pw ! i) x"
proof (induction "is" arbitrary: pw)
  case (Cons j "is")
  have "may (fst (pool_step pw j) ! i) x"
    by (rule Cons.IH) (use Cons.prems in simp_all)
  then show ?case by (rule may_step [OF Cons.prems(1)])
qed simp

section \<open>What is handed out once\<close>

text \<open>
  \<open>held w x\<close>: x has been given away. A process has a credit for x if it was the one whose
  step took x; \<open>claims r\<close> is what a result stands for. \<open>credit\<close> says that a process never
  gives anything back and ends with a claim only if it holds the credit for it. Taking may
  need room: \<open>okw n w\<close> is an invariant of a world with room for n more takers.
\<close>

primrec credit :: "('w, 'a) proc \<Rightarrow> (nat \<Rightarrow> 'w \<Rightarrow> bool) \<Rightarrow> ('w \<Rightarrow> 'x \<Rightarrow> bool) \<Rightarrow> ('a \<Rightarrow> 'x option) \<Rightarrow> 'x option \<Rightarrow> bool" where
  "credit (Done r) = (\<lambda>okw held claims c. \<forall>v x. r = Some v \<longrightarrow> claims v = Some x \<longrightarrow> c = Some x)"
| "credit (Act g k) = (\<lambda>okw held claims c. \<forall>w n. okw n w \<longrightarrow> (c = None \<longrightarrow> 0 < n) \<longrightarrow>
     (\<forall>x. held w x \<longrightarrow> held (g w) x) \<and>
     (okw n (g w) \<and> credit (k w) okw held claims c \<or>
       c = None \<and> okw (n - 1) (g w) \<and> (\<exists>x. \<not> held w x \<and> held (g w) x \<and> credit (k w) okw held claims (Some x))))"

definition credits_ok :: "(nat \<Rightarrow> 'w \<Rightarrow> bool) \<Rightarrow> ('w \<Rightarrow> 'x \<Rightarrow> bool) \<Rightarrow> ('a \<Rightarrow> 'x option) \<Rightarrow> ('w, 'a) pool \<Rightarrow> 'x option list \<Rightarrow> bool" where
  "credits_ok okw held claims pw cs \<longleftrightarrow> okw (count (mset cs) None) (snd pw) \<and> length cs = length (fst pw) \<and>
     (\<forall>i < length cs. credit (fst pw ! i) okw held claims (cs ! i)) \<and>
     (\<forall>i < length cs. \<forall>x. cs ! i = Some x \<longrightarrow> held (snd pw) x) \<and>
     (\<forall>i < length cs. \<forall>j < length cs. i \<noteq> j \<longrightarrow> cs ! i \<noteq> None \<longrightarrow> cs ! i \<noteq> cs ! j)"

lemma credits_step:
  assumes "credits_ok okw held claims pw cs"
  shows "\<exists>cs'. credits_ok okw held claims (pool_step pw i) cs'"
proof (cases "i < length (fst pw) \<and> \<not> finished (fst pw ! i)")
  case False
  then have "pool_step pw i = pw" by (auto simp: pool_step_def finished_iff split: proc.split)
  with assms show ?thesis by metis
next
  case True
  then obtain g k where a: "fst pw ! i = Act g k" by (cases "fst pw ! i") auto
  have i: "i < length (fst pw)" using True by simp
  note ok = assms [unfolded credits_ok_def]
  let ?n = "count (mset cs) None"
  have step: "pool_step pw i = ((fst pw)[i := k (snd pw)], g (snd pw))"
    using True a by (simp add: pool_step_def)
  from ok i have room: "okw ?n (snd pw)" and len: "length cs = length (fst pw)" and cr: "credit (Act g k) okw held claims (cs ! i)"
    by (auto simp: a [symmetric])
  have pos: "cs ! i = None \<longrightarrow> 0 < ?n" using i len by (metis count_mset_gt_0 nth_mem)
  from cr room pos have gh: "\<forall>x. held (snd pw) x \<longrightarrow> held (g (snd pw)) x"
    and alt: "okw ?n (g (snd pw)) \<and> credit (k (snd pw)) okw held claims (cs ! i) \<or>
       cs ! i = None \<and> okw (?n - 1) (g (snd pw)) \<and> (\<exists>x. \<not> held (snd pw) x \<and> held (g (snd pw)) x \<and> credit (k (snd pw)) okw held claims (Some x))"
    by auto
  show ?thesis
  proof (cases "okw ?n (g (snd pw)) \<and> credit (k (snd pw)) okw held claims (cs ! i)")
    case True
    have "credits_ok okw held claims (pool_step pw i) cs"
      unfolding step credits_ok_def using ok gh True i len by (auto simp: nth_list_update)
    then show ?thesis by blast
  next
    case False
    with alt obtain x where x: "\<not> held (snd pw) x" "held (g (snd pw)) x" "credit (k (snd pw)) okw held claims (Some x)"
      and n: "cs ! i = None" "okw (?n - 1) (g (snd pw))" by blast
    have new: "cs ! j \<noteq> Some x \<and> Some x \<noteq> cs ! j" if "j < length cs" for j using ok x(1) that by metis
    have m: "count (mset (cs[i := Some x])) None = ?n - 1" using i len n(1) by (simp add: mset_update)
    have "credits_ok okw held claims (pool_step pw i) (cs[i := Some x])"
      unfolding step credits_ok_def m using ok gh x(2,3) n(2) i len by (auto simp: nth_list_update new split: if_splits)
    then show ?thesis by blast
  qed
qed

lemma credits_run:
  "credits_ok okw held claims pw cs \<Longrightarrow> \<exists>cs'. credits_ok okw held claims (foldl (pool_step) pw is) cs'"
proof (induction "is" arbitrary: pw cs)
  case (Cons i "is")
  then show ?case using credits_step [OF Cons.prems] by fastforce
qed auto

lemma credits_start:
  "okw (length ps) w \<Longrightarrow> \<forall>p \<in> set ps. credit p okw held claims None \<Longrightarrow> credits_ok okw held claims (ps, w) (replicate (length ps) None)"
  by (simp add: credits_ok_def)

text \<open>No schedule lets two members of a pool end with the same claim.\<close>

lemma claims_distinct:
  assumes "okw (length ps) w" "\<forall>p \<in> set ps. credit p okw held claims None"
    and "fst (foldl (pool_step) (ps, w) is) ! i = Done (Some u)" "fst (foldl (pool_step) (ps, w) is) ! j = Done (Some v)"
    and "i < length ps" "j < length ps" "i \<noteq> j" "claims u = Some x"
  shows "claims v \<noteq> Some x"
proof
  assume v: "claims v = Some x"
  obtain cs where "credits_ok okw held claims (foldl (pool_step) (ps, w) is) cs"
    using credits_run [OF credits_start [where okw = okw, OF assms(1,2)]] by metis
  note ok = this [unfolded credits_ok_def]
  then have "credit (Done (Some u)) okw held claims (cs ! i)" "credit (Done (Some v)) okw held claims (cs ! j)"
    using assms(3-6) by (metis foldl_length fst_conv)+
  then have "cs ! i = Some x" "cs ! j = Some x" using v assms(8) by simp_all
  with ok assms(5-7) show False by (metis foldl_length fst_conv option.distinct(1))
qed

lemma credit_act:
  assumes "\<And>n w. okw n w \<Longrightarrow> okw n (fst (f w))" "\<And>n w x. okw n w \<Longrightarrow> held w x \<Longrightarrow> held (fst (f w)) x"
    and "\<And>b. credit (k b) okw held claims c"
  shows "credit (act f k) okw held claims c"
  using assms by (auto simp: act_def split: option.split)

text \<open>The step that takes: it answers b, and then either nothing was taken or x was.\<close>

lemma credit_take:
  assumes "\<And>n w y. okw n w \<Longrightarrow> 0 < n \<Longrightarrow> held w y \<Longrightarrow> held (fst (f w)) y"
    and "\<And>n w. okw n w \<Longrightarrow> 0 < n \<Longrightarrow> snd (f w) = None \<Longrightarrow> okw n (fst (f w))"
    and "\<And>n w b. okw n w \<Longrightarrow> 0 < n \<Longrightarrow> snd (f w) = Some b \<Longrightarrow>
      okw n (fst (f w)) \<and> credit (k b) okw held claims None \<or>
      okw (n - 1) (fst (f w)) \<and> (\<exists>x. \<not> held w x \<and> held (fst (f w)) x \<and> credit (k b) okw held claims (Some x))"
  shows "credit (act f k) okw held claims None"
  unfolding act_def credit.simps
proof (intro allI impI conjI)
  fix w n x
  assume w: "okw n w" "None = None \<longrightarrow> 0 < n" "held w x"
  then show "held (fst (f w)) x" using assms(1) by blast
next
  fix w n
  assume w: "okw n w" "None = None \<longrightarrow> 0 < n"
  then show "okw n (fst (f w)) \<and> credit (case snd (f w) of None \<Rightarrow> Done None | Some b \<Rightarrow> k b) okw held claims None \<or>
      None = None \<and> okw (n - 1) (fst (f w)) \<and> (\<exists>x. \<not> held w x \<and> held (fst (f w)) x \<and> credit (case snd (f w) of None \<Rightarrow> Done None | Some b \<Rightarrow> k b) okw held claims (Some x))"
    using assms(2,3) [of n w] by (cases "snd (f w)") auto
qed

lemma credit_map: "credit p okw held (\<lambda>v. claims (f v)) c \<Longrightarrow> credit (map_proc f p) okw held claims c"
proof (induction p arbitrary: c)
  case (Act g k)
  have IH: "credit (k w) okw held (\<lambda>v. claims (f v)) c \<Longrightarrow> credit (map_proc f (k w)) okw held claims c" for w c
    by (rule Act.IH [OF rangeI])
  show ?case using Act.prems by (auto simp del: all_simps) (metis IH)+
qed auto

section \<open>Every fair schedule finishes\<close>

section \<open>Workers\<close>

text \<open>
  Workers that share the index of the next member to take. One that takes a member works at
  it until it is done, then takes the next; it ends when none is left, or with the
  exception of its member.
\<close>

datatype worker = Idle | Busy nat | Ended

record ('w, 'a) batch =
  b_pool :: "('w, 'a) pool"
  b_next :: nat
  b_workers :: "worker list"

definition start_batch :: "nat \<Rightarrow> ('w, 'a) proc list \<Rightarrow> 'w \<Rightarrow> ('w, 'a) batch" where
  "start_batch c ps w = \<lparr>b_pool = (ps, w), b_next = 0, b_workers = replicate c Idle\<rparr>"

definition take_item :: "('w, 'a) batch \<Rightarrow> nat \<Rightarrow> ('w, 'a) batch" where
  "take_item b j =
    (if b_next b < length (fst (b_pool b))
     then b\<lparr>b_next := Suc (b_next b), b_workers := (b_workers b)[j := Busy (b_next b)]\<rparr>
     else b\<lparr>b_workers := (b_workers b)[j := Ended]\<rparr>)"

definition work_on :: "('w, 'a) batch \<Rightarrow> nat \<Rightarrow> nat \<Rightarrow> ('w, 'a) batch" where
  "work_on b j i =
    (case fst (b_pool b) ! i of
       Act g k \<Rightarrow> b\<lparr>b_pool := pool_step (b_pool b) i\<rparr>
     | Done r \<Rightarrow> b\<lparr>b_workers := (b_workers b)[j := if r = None then Ended else Idle]\<rparr>)"

definition worker_step :: "('w, 'a) batch \<Rightarrow> nat \<Rightarrow> ('w, 'a) batch" where
  "worker_step b j =
    (if j < length (b_workers b) then
       (case b_workers b ! j of Ended \<Rightarrow> b | Idle \<Rightarrow> take_item b j | Busy i \<Rightarrow> work_on b j i)
     else b)"

definition all_ended :: "('w, 'a) batch \<Rightarrow> bool" where
  "all_ended b \<longleftrightarrow> list_all (\<lambda>x. x = Ended) (b_workers b)"

text \<open>The results, once every worker has ended and none with an exception.\<close>

definition batch_outcome :: "('w, 'a) batch \<Rightarrow> 'a list option" where
  "batch_outcome b = (if all_ended b then pool_result (fst (b_pool b)) else None)"

text \<open>To the pool a worker's step is a step of one member, or none.\<close>

lemma worker_pool_step: "b_pool (worker_step b j) = b_pool b \<or> (\<exists>i. b_pool (worker_step b j) = pool_step (b_pool b) i)"
  by (auto simp: worker_step_def take_item_def work_on_def split: worker.split proc.split)

lemma batch_pool: "\<exists>is. b_pool (foldl worker_step b turns) = foldl pool_step (b_pool b) is"
proof (induction turns arbitrary: b)
  case Nil
  show ?case by (intro exI [of _ "[]"]) simp
next
  case (Cons j turns)
  from Cons.IH [of "worker_step b j"] obtain "is" where i: "b_pool (foldl worker_step b (j # turns)) = foldl pool_step (b_pool (worker_step b j)) is" by auto
  from worker_pool_step [of b j] show ?case
  proof
    assume "\<exists>i. b_pool (worker_step b j) = pool_step (b_pool b) i"
    then obtain k where "b_pool (worker_step b j) = pool_step (b_pool b) k" ..
    with i show ?thesis by (intro exI [of _ "k # is"]) simp
  qed (use i in auto)
qed

text \<open>What is taken is at work or finished; a worker ends when all are taken or its member has thrown.\<close>

definition thrown :: "('w, 'a) batch \<Rightarrow> bool" where
  "thrown b \<longleftrightarrow> (\<exists>i < b_next b. fst (b_pool b) ! i = Done None)"

definition batch_ok :: "('w, 'a) batch \<Rightarrow> bool" where
  "batch_ok b \<longleftrightarrow> b_next b \<le> length (fst (b_pool b))
    \<and> (\<forall>i < b_next b. Busy i \<in> set (b_workers b) \<or> finished (fst (b_pool b) ! i))
    \<and> (\<forall>i. Busy i \<in> set (b_workers b) \<longrightarrow> i < b_next b)
    \<and> (Ended \<in> set (b_workers b) \<longrightarrow> b_next b = length (fst (b_pool b)) \<or> thrown b)"

lemma set_update_other: "x \<in> set xs \<Longrightarrow> x \<noteq> xs ! j \<Longrightarrow> x \<in> set (xs[j := y])"
  by (metis in_set_conv_nth length_list_update nth_list_update_neq)

lemma set_updateD: "x \<in> set (xs[j := y]) \<Longrightarrow> x = y \<or> x \<in> set xs"
  using set_update_subset_insert by fastforce

lemma batch_ok_start: "batch_ok (start_batch c ps w)"
  by (auto simp: batch_ok_def start_batch_def)

lemma take_item_ok:
  assumes "batch_ok b" "j < length (b_workers b)" "b_workers b ! j = Idle"
  shows "batch_ok (take_item b j)"
proof (cases "b_next b < length (fst (b_pool b))")
  case True
  let ?ws = "(b_workers b)[j := Busy (b_next b)]"
  have new: "Busy (b_next b) \<in> set ?ws" using assms(2) by (simp add: set_update_memI)
  have old: "Busy i \<in> set (b_workers b) \<Longrightarrow> Busy i \<in> set ?ws" for i using assms(3) by (auto intro: set_update_other)
  have "b_next b = length (fst (b_pool b)) \<or> thrown b" if "Ended \<in> set ?ws"
    using set_updateD [OF that] assms(1) by (auto simp: batch_ok_def)
  moreover have "thrown b \<Longrightarrow> thrown (b\<lparr>b_next := Suc (b_next b), b_workers := ?ws\<rparr>)" by (auto simp: thrown_def less_Suc_eq)
  moreover have "i < Suc (b_next b)" if "Busy i \<in> set ?ws" for i
    using set_updateD [OF that] assms(1) by (auto simp: batch_ok_def less_Suc_eq)
  ultimately show ?thesis using True assms(1) new old by (auto simp: take_item_def batch_ok_def less_Suc_eq)
next
  case False
  let ?ws = "(b_workers b)[j := Ended]"
  have "Busy i \<in> set (b_workers b) \<Longrightarrow> Busy i \<in> set ?ws" for i using assms(3) by (auto intro: set_update_other)
  moreover have "Busy i \<in> set ?ws \<Longrightarrow> Busy i \<in> set (b_workers b)" for i by (auto dest: set_updateD)
  ultimately show ?thesis using False assms(1) by (auto simp: take_item_def batch_ok_def)
qed

lemma work_on_ok:
  assumes "batch_ok b" "j < length (b_workers b)" "b_workers b ! j = Busy i"
  shows "batch_ok (work_on b j i)"
proof -
  have i: "i < b_next b" using assms by (metis batch_ok_def nth_mem)
  show ?thesis
  proof (cases "fst (b_pool b) ! i")
    case (Act g k)
    have f: "finished (fst (pool_step (b_pool b) i) ! m)" if "finished (fst (b_pool b) ! m)" for m
      using that by (cases "m = i") (auto simp: pool_step_def Act split: proc.split)
    have t: "thrown b \<Longrightarrow> thrown (b\<lparr>b_pool := pool_step (b_pool b) i\<rparr>)"
      unfolding thrown_def using Act by (auto simp: pool_step_def) (metis nth_list_update_neq proc.distinct(1))
    show ?thesis using assms(1) f t by (auto simp: work_on_def Act batch_ok_def)
  next
    case (Done r)
    let ?x = "if r = None then Ended else Idle"
    have k: "Busy m \<in> set ((b_workers b)[j := ?x])" if "Busy m \<in> set (b_workers b)" "m \<noteq> i" for m
      using that assms(3) by (auto intro: set_update_other)
    have d: "y \<in> set (b_workers b) \<or> r = None \<and> y = Ended \<or> y = Idle" if "y \<in> set ((b_workers b)[j := ?x])" for y
      using set_updateD [OF that] by (auto split: if_splits)
    have f: "finished (fst (b_pool b) ! m)" if "m < b_next b" "Busy m \<notin> set ((b_workers b)[j := ?x])" for m
      using that k [of m] assms(1) Done by (cases "m = i") (auto simp: batch_ok_def)
    have t: "r = None \<Longrightarrow> thrown b" using i Done by (auto simp: thrown_def)
    have b: "m < b_next b" if "Busy m \<in> set ((b_workers b)[j := ?x])" for m
      using d [OF that] assms(1) by (auto simp: batch_ok_def)
    have e: "b_next b = length (fst (b_pool b)) \<or> thrown b" if "Ended \<in> set ((b_workers b)[j := ?x])"
      using d [OF that] assms(1) t by (auto simp: batch_ok_def)
    have n: "b_next b \<le> length (fst (b_pool b))" using assms(1) by (simp add: batch_ok_def)
    have u: "thrown (b\<lparr>b_workers := (b_workers b)[j := ?x]\<rparr>) = thrown b" by (simp add: thrown_def)
    have w: "work_on b j i = b\<lparr>b_workers := (b_workers b)[j := ?x]\<rparr>" by (simp add: work_on_def Done)
    have p: "\<forall>m < b_next b. Busy m \<in> set ((b_workers b)[j := ?x]) \<or> finished (fst (b_pool b) ! m)" using f by metis
    have q: "\<forall>m. Busy m \<in> set ((b_workers b)[j := ?x]) \<longrightarrow> m < b_next b" using b by metis
    have r: "Ended \<in> set ((b_workers b)[j := ?x]) \<longrightarrow> b_next b = length (fst (b_pool b)) \<or> thrown b" using e by metis
    have s: "b_pool (b\<lparr>b_workers := ws\<rparr>) = b_pool b" "b_next (b\<lparr>b_workers := ws\<rparr>) = b_next b" "b_workers (b\<lparr>b_workers := ws\<rparr>) = ws" for ws by simp_all
    show ?thesis unfolding w batch_ok_def u s by (intro conjI n p q r)
  qed
qed

lemma worker_step_ok: "batch_ok b \<Longrightarrow> batch_ok (worker_step b j)"
  by (auto simp: worker_step_def take_item_ok work_on_ok split: worker.split)

lemma worker_run_ok: "batch_ok b \<Longrightarrow> batch_ok (foldl worker_step b turns)"
  by (induction turns arbitrary: b) (simp_all add: worker_step_ok)

text \<open>When all workers have ended, every member has its result, unless one that was taken has thrown.\<close>

lemma ended_outcome:
  assumes "batch_ok b" "all_ended b" "b_workers b \<noteq> [] \<or> fst (b_pool b) = []"
  shows "thrown b \<or> (\<exists>rs. batch_outcome b = Some rs \<and> length rs = length (fst (b_pool b)))"
proof (cases "thrown b")
  case False
  have busy: "Busy i \<notin> set (b_workers b)" for i using assms(2) by (auto simp: all_ended_def list_all_iff)
  have n: "b_next b = length (fst (b_pool b))"
  proof (cases "fst (b_pool b) = []")
    case True
    with assms(1) show ?thesis by (simp add: batch_ok_def)
  next
    case f: False
    with assms(2,3) have "Ended \<in> set (b_workers b)" by (cases "b_workers b") (auto simp: all_ended_def)
    with assms(1) False show ?thesis by (simp add: batch_ok_def)
  qed
  have "\<exists>v. p = Done (Some v)" if "p \<in> set (fst (b_pool b))" for p
  proof -
    obtain i where i: "i < b_next b" "p = fst (b_pool b) ! i" using \<open>p \<in> _\<close> n by (auto simp: in_set_conv_nth)
    then obtain r where r: "p = Done r" using assms(1) busy by (auto simp: batch_ok_def finished_iff)
    with False i show ?thesis by (cases r) (force simp: thrown_def)+
  qed
  then have "None \<notin> set (map (\<lambda>p. case p of Done r \<Rightarrow> r | Act g k \<Rightarrow> None) (fst (b_pool b)))" by fastforce
  then obtain rs where rs: "pool_result (fst (b_pool b)) = Some rs"
    by (cases "pool_result (fst (b_pool b))") (auto simp: pool_result_def all_some_eq_None)
  then have "length rs = length (fst (b_pool b))" by (metis all_some_eq_Some length_map pool_result_def)
  with rs assms(2) show ?thesis by (simp add: batch_outcome_def)
qed simp

section \<open>Every fair schedule ends\<close>

text \<open>The steps left in a batch, when member i needs at most ns ! i more.\<close>

definition steps_ok :: "('w, 'a) pool \<Rightarrow> nat list \<Rightarrow> bool" where
  "steps_ok pw ns \<longleftrightarrow> length ns = length (fst pw) \<and> (\<forall>i < length ns. within (fst pw ! i) (ns ! i))"

fun worker_steps :: "worker \<Rightarrow> nat" where
  "worker_steps Ended = 0" | "worker_steps Idle = 1" | "worker_steps (Busy i) = 2"

definition steps_left :: "('w, 'a) batch \<Rightarrow> nat list \<Rightarrow> nat" where
  "steps_left b ns = sum_list ns + 2 * (length (fst (b_pool b)) - b_next b) + sum_list (map worker_steps (b_workers b))"

lemma sum_worker_steps:
  "j < length ws \<Longrightarrow> sum_list (map worker_steps (ws[j := x])) + worker_steps (ws ! j) = sum_list (map worker_steps ws) + worker_steps x"
proof -
  assume j: "j < length ws"
  then have "worker_steps (ws ! j) \<le> sum_list (map worker_steps ws)" by (intro member_le_sum_list) simp_all
  with j show ?thesis by (simp add: map_update sum_list_update)
qed

lemma worker_step_less:
  assumes "steps_ok (b_pool b) ns" "batch_ok b" "j < length (b_workers b)" "b_workers b ! j \<noteq> Ended"
  shows "\<exists>ns'. steps_ok (b_pool (worker_step b j)) ns' \<and> steps_left (worker_step b j) ns' < steps_left b ns"
proof (cases "b_workers b ! j")
  case Idle
  note u = sum_worker_steps [OF assms(3)]
  have "steps_left (take_item b j) ns < steps_left b ns"
    using u [of "Busy (b_next b)"] u [of Ended] Idle by (auto simp: take_item_def steps_left_def)
  moreover have "b_pool (take_item b j) = b_pool b" by (simp add: take_item_def)
  ultimately show ?thesis using assms(1,3) Idle by (intro exI [of _ ns]) (simp add: worker_step_def)
next
  case (Busy i)
  then have i: "i < length (fst (b_pool b))" using assms(2,3) by (metis batch_ok_def nth_mem order_less_le_trans)
  show ?thesis
  proof (cases "fst (b_pool b) ! i")
    case (Done r)
    have "sum_list (map worker_steps ((b_workers b)[j := if r = None then Ended else Idle])) < sum_list (map worker_steps (b_workers b))"
      using sum_worker_steps [OF assms(3), of "if r = None then Ended else Idle"] Busy by (auto split: if_splits)
    then show ?thesis using assms(1,3) Busy Done by (intro exI [of _ ns]) (simp add: worker_step_def work_on_def steps_left_def)
  next
    case (Act g k)
    have w: "within (Act g k) (ns ! i)" and l: "length ns = length (fst (b_pool b))"
      using assms(1) i by (auto simp: steps_ok_def Act [symmetric])
    then have n: "0 < ns ! i" "within (k (snd (b_pool b))) (ns ! i - 1)" by auto
    have s: "worker_step b j = b\<lparr>b_pool := ((fst (b_pool b))[i := k (snd (b_pool b))], g (snd (b_pool b)))\<rparr>"
      using assms(3) Busy Act i by (simp add: worker_step_def work_on_def pool_step_def)
    have "steps_ok (b_pool (worker_step b j)) (ns[i := ns ! i - 1])"
      unfolding s using assms(1) n(2) i by (auto simp: steps_ok_def nth_list_update)
    moreover have "sum_list (ns[i := ns ! i - 1]) < sum_list ns"
      using n(1) i l sum_list_update [of i ns "ns ! i - 1"] member_le_sum_list [of "ns ! i" ns] by simp
    ultimately show ?thesis by (intro exI [of _ "ns[i := ns ! i - 1]"]) (simp add: s steps_left_def)
  qed
qed (use assms(4) in simp)

lemma worker_step_ended: "b_workers b ! j = Ended \<Longrightarrow> worker_step b j = b"
  by (simp add: worker_step_def)

text \<open>A turn for every worker, in whatever order and however often, is a round; it makes progress.\<close>

lemma workers_length [simp]: "length (b_workers (foldl worker_step b turns)) = length (b_workers b)"
proof -
  have "length (b_workers (worker_step b j)) = length (b_workers b)" for b :: "('a, 'b) batch" and j
    by (simp add: worker_step_def take_item_def work_on_def split: worker.split proc.split)
  then show ?thesis by (induction turns arbitrary: b) simp_all
qed

lemma round_less:
  assumes "steps_ok (b_pool b) ns" "batch_ok b"
  shows "\<exists>ns'. steps_ok (b_pool (foldl worker_step b r)) ns' \<and> steps_left (foldl worker_step b r) ns' \<le> steps_left b ns
    \<and> ((\<exists>j \<in> set r. j < length (b_workers b) \<and> b_workers b ! j \<noteq> Ended) \<longrightarrow> steps_left (foldl worker_step b r) ns' < steps_left b ns)"
  using assms
proof (induction r arbitrary: b ns)
  case (Cons j r)
  show ?case
  proof (cases "j < length (b_workers b) \<and> b_workers b ! j \<noteq> Ended")
    case True
    obtain n1 where n1: "steps_ok (b_pool (worker_step b j)) n1" "steps_left (worker_step b j) n1 < steps_left b ns"
      using worker_step_less [OF Cons.prems] True by blast
    obtain n2 where "steps_ok (b_pool (foldl worker_step (worker_step b j) r)) n2"
        "steps_left (foldl worker_step (worker_step b j) r) n2 \<le> steps_left (worker_step b j) n1"
      using Cons.IH [OF n1(1) worker_step_ok [OF Cons.prems(2)]] by blast
    with n1 show ?thesis by (intro exI [of _ n2]) auto
  next
    case False
    then have "worker_step b j = b" by (auto simp: worker_step_def)
    with Cons.IH [OF Cons.prems] False show ?thesis by auto
  qed
qed (auto intro: exI [of _ ns])

lemma fair_rounds:
  assumes "steps_ok (b_pool b) ns" "batch_ok b" "steps_left b ns \<le> length rounds"
    and "\<forall>r \<in> set rounds. {..<length (b_workers b)} \<subseteq> set r"
  shows "all_ended (foldl worker_step b (concat rounds))"
  using assms
proof (induction rounds arbitrary: b ns)
  case Nil
  have "worker_steps x = 0 \<Longrightarrow> x = Ended" for x by (cases x) simp_all
  moreover have "\<forall>x \<in> set (b_workers b). worker_steps x = 0" using Nil by (simp add: steps_left_def)
  ultimately show ?case by (auto simp: all_ended_def list_all_iff)
next
  case (Cons r rounds)
  show ?case
  proof (cases "all_ended b")
    case True
    then have "b_workers b ! j = Ended" if "j < length (b_workers b)" for j using that by (simp add: all_ended_def list_all_iff)
    then have "worker_step b j = b" for j by (auto simp: worker_step_def)
    then have "foldl worker_step b turns = b" for turns by (induction turns) simp_all
    with True show ?thesis by simp
  next
    case False
    then obtain j where "j < length (b_workers b)" "b_workers b ! j \<noteq> Ended" by (auto simp: all_ended_def list_all_iff in_set_conv_nth)
    with Cons.prems(4) have j: "\<exists>j \<in> set r. j < length (b_workers b) \<and> b_workers b ! j \<noteq> Ended" by auto
    obtain n1 where n1: "steps_ok (b_pool (foldl worker_step b r)) n1" "steps_left (foldl worker_step b r) n1 < steps_left b ns"
      using round_less [OF Cons.prems(1,2), of r] j by blast
    have "steps_left (foldl worker_step b r) n1 \<le> length rounds" using n1(2) Cons.prems(3) by simp
    from Cons.IH [OF n1(1) worker_run_ok [OF Cons.prems(2)] this] Cons.prems(4) show ?thesis by simp
  qed
qed

lemma fair_ends:
  assumes "\<forall>p \<in> set ps. within p n" "\<forall>r \<in> set rounds. {..<c} \<subseteq> set r" "(n + 2) * length ps + c \<le> length rounds"
  shows "all_ended (foldl worker_step (start_batch c ps w) (concat rounds))"
proof (rule fair_rounds [OF _ batch_ok_start])
  show "steps_ok (b_pool (start_batch c ps w)) (replicate (length ps) n)" using assms(1) by (simp add: steps_ok_def start_batch_def)
  show "steps_left (start_batch c ps w) (replicate (length ps) n) \<le> length rounds"
    using assms(3) by (simp add: steps_left_def start_batch_def sum_list_replicate algebra_simps)
qed (use assms(2) in \<open>simp add: start_batch_def\<close>)

section \<open>One worker\<close>

text \<open>The members of a pool one after the other.\<close>

fun in_turn :: "('w, 'a) proc list \<Rightarrow> 'w \<Rightarrow> 'w \<times> 'a option list" where
  "in_turn [] w = (w, [])"
| "in_turn (p # ps) w = (let (w1, r) = run p w; (w2, rs) = in_turn ps w1 in (w2, r # rs))"

lemma in_turn_finished: "\<forall>p \<in> set ps. finished p \<Longrightarrow> in_turn ps w = (w, map (\<lambda>p. snd (run p w)) ps)"
  by (induction ps) (auto simp: finished_iff)

lemma in_turn_append: "in_turn (ps @ qs) w = (let (w1, rs) = in_turn ps w; (w2, ss) = in_turn qs w1 in (w2, rs @ ss))"
  by (induction ps arbitrary: w) (auto simp: case_prod_beta Let_def)

lemma in_turn_step:
  assumes "\<forall>m < i. finished (fst pw ! m)"
  shows "in_turn (fst (pool_step pw i)) (snd (pool_step pw i)) = in_turn (fst pw) (snd pw)"
proof (cases "i < length (fst pw) \<and> \<not> finished (fst pw ! i)")
  case False
  then have "pool_step pw i = pw" by (auto simp: pool_step_def finished_iff split: proc.split)
  then show ?thesis by simp
next
  case True
  then obtain g k where a: "fst pw ! i = Act g k" by (cases "fst pw ! i") auto
  have i: "i < length (fst pw)" using True by simp
  then have u: "\<forall>p \<in> set (take i (fst pw)). finished p" using assms by (auto simp: in_set_conv_nth)
  have ps: "fst pw = take i (fst pw) @ Act g k # drop (Suc i) (fst pw)" using id_take_nth_drop [OF i] a by simp
  have step: "pool_step pw i = (take i (fst pw) @ k (snd pw) # drop (Suc i) (fst pw), g (snd pw))"
    using a i by (simp add: pool_step_def upd_conv_take_nth_drop)
  have "in_turn (take i (fst pw)) v = (v, map (\<lambda>p. snd (run p v)) (take i (fst pw)))" for v by (rule in_turn_finished [OF u])
  moreover have "map (\<lambda>p. snd (run p v)) (take i (fst pw)) = map (\<lambda>p. snd (run p v')) (take i (fst pw))" for v v'
    using u by (auto simp: finished_iff)
  ultimately show ?thesis unfolding step by (subst ps) (simp add: in_turn_append case_prod_beta Let_def del: map_eq_conv)
qed

text \<open>One worker steps only the member it took last, and those before are finished.\<close>

definition alone :: "('w, 'a) batch \<Rightarrow> bool" where
  "alone b \<longleftrightarrow> (\<exists>x. b_workers b = [x] \<and>
    (case x of Busy i \<Rightarrow> b_next b = Suc i \<and> (\<forall>m < i. finished (fst (b_pool b) ! m)) | _ \<Rightarrow> \<forall>m < b_next b. finished (fst (b_pool b) ! m)))"

lemma alone_step:
  assumes "alone b"
  shows "alone (worker_step b j) \<and>
    in_turn (fst (b_pool (worker_step b j))) (snd (b_pool (worker_step b j))) = in_turn (fst (b_pool b)) (snd (b_pool b))"
proof -
  obtain x where x: "b_workers b = [x]" using assms by (auto simp: alone_def)
  show ?thesis
  proof (cases "j = 0")
    case False
    with x assms show ?thesis by (simp add: worker_step_def)
  next
    case j: True
    show ?thesis
    proof (cases x)
      case (Busy i)
      with assms x have i: "b_next b = Suc i" "\<forall>m < i. finished (fst (b_pool b) ! m)" by (auto simp: alone_def)
      show ?thesis
      proof (cases "fst (b_pool b) ! i")
        case (Act g k)
        have "fst (pool_step (b_pool b) i) ! m = fst (b_pool b) ! m" if "m < i" for m
          using that by (simp add: pool_step_def Act)
        with i Act x Busy j show ?thesis by (simp add: worker_step_def work_on_def alone_def in_turn_step)
      next
        case (Done r)
        then have "\<forall>m < b_next b. finished (fst (b_pool b) ! m)" using i by (auto simp: less_Suc_eq)
        with Done x Busy j show ?thesis by (auto simp: worker_step_def work_on_def alone_def)
      qed
    qed (use assms x j in \<open>auto simp: alone_def worker_step_def take_item_def\<close>)
  qed
qed

lemma in_turn_nth: "i < length qs \<Longrightarrow> qs ! i = Done r \<Longrightarrow> snd (in_turn qs v) ! i = r"
  by (induction qs arbitrary: i v) (auto simp: nth_Cons case_prod_beta Let_def split: nat.splits)

lemma one_worker_pool:
  "in_turn (fst (b_pool (foldl worker_step (start_batch 1 ps w) turns))) (snd (b_pool (foldl worker_step (start_batch 1 ps w) turns))) = in_turn ps w"
proof -
  have "in_turn (fst (b_pool (foldl worker_step b turns))) (snd (b_pool (foldl worker_step b turns))) = in_turn (fst (b_pool b)) (snd (b_pool b))"
    if "alone b" for b :: "('a, 'b) batch"
    using that by (induction turns arbitrary: b) (simp_all add: alone_step)
  from this [of "start_batch 1 ps w"] show ?thesis by (simp add: alone_def start_batch_def)
qed

lemma one_worker:
  fixes ps :: "('w, 'a) proc list"
  assumes "batch_outcome (foldl worker_step (start_batch 1 ps w) turns) = Some rs"
  shows "in_turn ps w = (snd (b_pool (foldl worker_step (start_batch 1 ps w) turns)), map Some rs)"
proof -
  let ?b = "foldl worker_step (start_batch 1 ps w) turns"
  have rs: "map (\<lambda>p. case p of Done r \<Rightarrow> r | Act g k \<Rightarrow> None) (fst (b_pool ?b)) = map Some rs"
    using assms by (simp add: batch_outcome_def pool_result_def all_some_eq_Some split: if_splits)
  have f: "\<forall>p \<in> set (fst (b_pool ?b)). finished p"
  proof
    fix p
    assume "p \<in> set (fst (b_pool ?b))"
    then have "(case p of Done r \<Rightarrow> r | Act g k \<Rightarrow> None) \<in> set (map Some rs)" unfolding rs [symmetric] by simp
    then show "finished p" by (cases p) auto
  qed
  have "in_turn ps w = in_turn (fst (b_pool ?b)) (snd (b_pool ?b))" by (rule one_worker_pool [symmetric])
  also have "\<dots> = (snd (b_pool ?b), map (\<lambda>p. case p of Done r \<Rightarrow> r | Act g k \<Rightarrow> None) (fst (b_pool ?b)))"
    using f by (subst in_turn_finished) (auto simp: finished_iff)
  finally show ?thesis unfolding rs .
qed

end
