(* ===== verification/Revocation.thy ===== *)
theory Revocation
  imports ReplayStores KeyRegistry
begin

text \<open>
  \<open>src/revocation.ts\<close>: the list of revoked signing keys. \<open>InMemoryRevocationStore\<close> is a
  map, \<open>createRedisRevocationStore\<close> a node with a local read cache in front of a Redis that
  several nodes share and whose calls may fail. The locale \<open>revocation_store\<close> is what
  \<open>withRevocationCheck\<close> relies on; both stores are interpretations of it. A key id is the
  text the template literal makes of it, times are milliseconds passed in.
\<close>

section \<open>The contract\<close>

text \<open>\<open>listed st s k t\<close>: the store refuses key id k of sender s at time t.\<close>

locale revocation_store =
  fixes ask :: "'st \<Rightarrow> jstr \<Rightarrow> jstr \<Rightarrow> int \<Rightarrow> 'st \<times> bool"
    and revoke :: "'st \<Rightarrow> jstr \<Rightarrow> jstr \<Rightarrow> int option \<Rightarrow> int \<Rightarrow> 'st"
    and listed :: "'st \<Rightarrow> jstr \<Rightarrow> jstr \<Rightarrow> int \<Rightarrow> bool"
  assumes listed_refused: "listed st s k t \<Longrightarrow> snd (ask st s k t)"
    and revoke_listed: "(\<forall>u. until = Some u \<longrightarrow> t < u) \<Longrightarrow> listed (revoke st s k until now) s k t"
    and ask_keeps: "listed st s k t \<Longrightarrow> now \<le> t \<Longrightarrow> listed (fst (ask st s' k' now)) s k t"
begin

fun ask_run :: "'st \<Rightarrow> (jstr \<times> jstr \<times> int) list \<Rightarrow> 'st" where
  "ask_run st [] = st"
| "ask_run st ((s, k, now) # qs) = ask_run (fst (ask st s k now)) qs"

lemma run_keeps: "listed st s k t \<Longrightarrow> \<forall>(s', k', now) \<in> set qs. now \<le> t \<Longrightarrow> listed (ask_run st qs) s k t"
  by (induction st qs rule: ask_run.induct) (auto intro: ask_keeps)

lemma revoked_refused:
  assumes "\<forall>u. until = Some u \<longrightarrow> t < u" "\<forall>(s', k', now') \<in> set qs. now' \<le> t"
  shows "snd (ask (ask_run (revoke st s k until now) qs) s k t)"
  by (intro listed_refused run_keeps revoke_listed assms)

end

text \<open>
  The key of both stores. The sender has passed validation and is a text; the two parts
  are joined by a space and nothing is escaped.
\<close>

definition revocation_key :: "jstr \<Rightarrow> jstr \<Rightarrow> jstr" where
  "revocation_key s k = s @ 32 # k"

lemma revocation_key_inj:
  assumes "32 \<notin> set s" "32 \<notin> set s'"
  shows "revocation_key s k = revocation_key s' k' \<longleftrightarrow> s = s' \<and> k = k'"
  using span_unique [of s "32 # k" s' "32 # k'" "\<lambda>c. c \<noteq> 32"] assms by (auto simp: revocation_key_def)

section \<open>InMemoryRevocationStore\<close>

text \<open>The revoked-until time; \<open>PosInf\<close> is a permanent revocation.\<close>

type_synonym revocation_list = "(jstr, jnum) jsmap"

definition mem_isRevoked :: "revocation_list \<Rightarrow> jstr \<Rightarrow> jstr \<Rightarrow> int \<Rightarrow> revocation_list \<times> bool" where
  "mem_isRevoked m s k nowMs =
    (case mget m (revocation_key s k) of
       None \<Rightarrow> (m, False)
     | Some until \<Rightarrow> if jnum_le until (Fin nowMs) then (mdelete m (revocation_key s k), False) else (m, True))"

definition mem_revoke :: "revocation_list \<Rightarrow> jstr \<Rightarrow> jstr \<Rightarrow> int option \<Rightarrow> revocation_list" where
  "mem_revoke m s k until = mset_key m (revocation_key s k) (case until of None \<Rightarrow> PosInf | Some u \<Rightarrow> Fin u)"

definition mem_listed :: "revocation_list \<Rightarrow> jstr \<Rightarrow> jstr \<Rightarrow> int \<Rightarrow> bool" where
  "mem_listed m s k t \<longleftrightarrow> (\<exists>u. mget m (revocation_key s k) = Some u \<and> \<not> jnum_le u (Fin t))"

interpretation memory_list: revocation_store mem_isRevoked "\<lambda>m s k until now. mem_revoke m s k until" mem_listed
proof unfold_locales
  fix m s k t now s' k'
  assume "mem_listed m s k t" "now \<le> t"
  then show "mem_listed (fst (mem_isRevoked m s' k' now)) s k t"
    using jnum_le_trans_int [of _ now t] by (auto simp: mem_listed_def mem_isRevoked_def split: option.splits)
qed (auto simp: mem_listed_def mem_isRevoked_def mem_revoke_def jnum_le_iff split: option.split)

section \<open>The Redis-backed store\<close>

datatype revocation_error = RejectOnError | AllowOnError

text \<open>One node: the answers it has cached, each fresh until some time.\<close>

record revocation_node =
  rn_prefix :: jstr
  rn_behavior :: revocation_error
  rn_cacheTtl :: int
  rn_cache :: "(jstr, bool \<times> int) jsmap"

definition createRedisRevocationStore :: "jstr option \<Rightarrow> revocation_error option \<Rightarrow> int option \<Rightarrow> revocation_node" where
  "createRedisRevocationStore pre eb ttl =
    \<lparr>rn_prefix = (case pre of None \<Rightarrow> js ''aip:revoked:'' | Some p \<Rightarrow> p),
     rn_behavior = (case eb of None \<Rightarrow> RejectOnError | Some b \<Rightarrow> b),
     rn_cacheTtl = (case ttl of None \<Rightarrow> 5000 | Some t \<Rightarrow> t), rn_cache = []\<rparr>"

definition redisKey :: "revocation_node \<Rightarrow> jstr \<Rightarrow> jstr \<Rightarrow> jstr" where
  "redisKey n s k = rn_prefix n @ revocation_key s k"

text \<open>\<open>outage\<close>: the client has no \<open>get\<close>, or the call throws.\<close>

definition node_isRevoked ::
  "revocation_node \<Rightarrow> redis \<Rightarrow> bool \<Rightarrow> jstr \<Rightarrow> jstr \<Rightarrow> int \<Rightarrow> revocation_node \<times> redis \<times> bool" where
  "node_isRevoked n r outage s k nowMs =
    (let key = redisKey n s k; cached = mget (rn_cache n) key in
     if (case cached of Some (_, freshUntil) \<Rightarrow> nowMs < freshUntil | None \<Rightarrow> False) then (n, r, fst (the cached))
     else if outage then (n, r, case cached of Some (hit, _) \<Rightarrow> hit | None \<Rightarrow> rn_behavior n = RejectOnError)
     else let (r1, value) = redis_get r key nowMs; hit = (value \<noteq> None) in
       (n\<lparr>rn_cache := mset_key (rn_cache n) key (hit, nowMs + rn_cacheTtl n)\<rparr>, r1, hit))"

text \<open>\<open>None\<close>: the client throws, and the revocation is neither stored nor cached.\<close>

definition node_revoke ::
  "revocation_node \<Rightarrow> redis \<Rightarrow> bool \<Rightarrow> jstr \<Rightarrow> jstr \<Rightarrow> int option \<Rightarrow> int \<Rightarrow> (revocation_node \<times> redis) option" where
  "node_revoke n r outage s k untilMs now =
    (if outage then None
     else let key = redisKey n s k;
              px = map_option (\<lambda>u. Fin (max 1 (u - now))) untilMs;
              (r1, ok) = redis_set r key (js ''1'') \<lparr>nx = False, pxMs = px\<rparr> now
       in Some (n\<lparr>rn_cache := mset_key (rn_cache n) key (True, now + rn_cacheTtl n)\<rparr>, r1))"

lemma redis_get_holds: "(snd (redis_get r key t) \<noteq> None) = redis_holds r key t"
  by (auto simp: redis_get_def redis_holds_def case_prod_beta Let_def)

lemma redis_get_kept: "redis_holds r key t \<Longrightarrow> now \<le> t \<Longrightarrow> redis_holds (fst (redis_get r key' now)) key t"
  using jnum_le_trans_int [of _ now t]
  by (auto simp: redis_holds_iff redis_get_def redis_live_def split: option.splits)

lemma redis_get_absent: "\<not> redis_holds r key t \<Longrightarrow> \<not> redis_holds (fst (redis_get r key' now)) key t"
  by (auto simp: redis_holds_iff redis_get_def redis_live_def split: option.splits if_splits)

lemma revoke_holds:
  assumes "node_revoke n r False s k until now = Some (n', r')" "\<forall>u. until = Some u \<longrightarrow> t < u"
  shows "redis_holds r' (redisKey n s k) t"
  using assms by (cases until) (auto simp: node_revoke_def redis_set_def redis_holds_iff jnum_le_iff Let_def)

subsection \<open>A node that knows\<close>

text \<open>
  One node over time: each lookup takes the next of the given outages, and none are left
  when the list is used up. Revocations go through here.
\<close>

type_synonym node_world = "revocation_node \<times> redis \<times> bool list"

fun next_outage :: "bool list \<Rightarrow> bool" where
  "next_outage [] = False"
| "next_outage (b # bs) = b"

definition node_ask :: "node_world \<Rightarrow> jstr \<Rightarrow> jstr \<Rightarrow> int \<Rightarrow> node_world \<times> bool" where
  "node_ask w s k now =
    (let (n, r, outs) = w; (n1, r1, hit) = node_isRevoked n r (next_outage outs) s k now in ((n1, r1, drop 1 outs), hit))"

definition node_put :: "node_world \<Rightarrow> jstr \<Rightarrow> jstr \<Rightarrow> int option \<Rightarrow> int \<Rightarrow> node_world" where
  "node_put w s k until now =
    (let (n, r, outs) = w in case node_revoke n r False s k until now of Some (n1, r1) \<Rightarrow> (n1, r1, outs) | None \<Rightarrow> w)"

definition node_listed :: "node_world \<Rightarrow> jstr \<Rightarrow> jstr \<Rightarrow> int \<Rightarrow> bool" where
  "node_listed w s k t \<longleftrightarrow>
    (let (n, r, outs) = w in (\<exists>f. mget (rn_cache n) (redisKey n s k) = Some (True, f)) \<and> redis_holds r (redisKey n s k) t)"

lemma node_isRevoked_prefix [simp]: "rn_prefix (fst (node_isRevoked n r out s k now)) = rn_prefix n"
  by (auto simp: node_isRevoked_def case_prod_beta Let_def)

lemma redisKey_prefix: "rn_prefix n = rn_prefix n' \<Longrightarrow> redisKey n s k = redisKey n' s k"
  by (simp add: redisKey_def)

lemma node_isRevoked_keeps:
  assumes "mget (rn_cache n) key = Some (True, f)" "redis_holds r key t" "now \<le> t"
  shows "(\<exists>f. mget (rn_cache (fst (node_isRevoked n r out s k now))) key = Some (True, f))
    \<and> redis_holds (fst (snd (node_isRevoked n r out s k now))) key t"
proof -
  have "redis_holds r key now"
    using assms(2,3) jnum_le_trans_int [of _ now t] by (auto simp: redis_holds_iff)
  then have "snd (redis_get r key now) \<noteq> None" by (simp only: redis_get_holds)
  then show ?thesis
    using assms redis_get_kept [OF assms(2,3), of "redisKey n s k"]
    by (cases "redisKey n s k = key") (auto simp: node_isRevoked_def case_prod_beta Let_def)
qed

lemma node_isRevoked_known:
  assumes "mget (rn_cache n) (redisKey n s k) = Some (True, f)" "redis_holds r (redisKey n s k) t"
  shows "snd (snd (node_isRevoked n r out s k t))"
  using assms redis_get_holds [of r "redisKey n s k" t] by (auto simp: node_isRevoked_def case_prod_beta Let_def)

interpretation node_list: revocation_store node_ask node_put node_listed
proof unfold_locales
  fix w :: node_world and s k t
  assume "node_listed w s k t"
  then show "snd (node_ask w s k t)"
    using node_isRevoked_known by (auto simp: node_listed_def node_ask_def case_prod_beta Let_def)
next
  fix until :: "int option" and t s k now and w :: node_world
  assume u: "\<forall>u. until = Some u \<longrightarrow> t < u"
  obtain n r outs where w: "w = (n, r, outs)" by (cases w)
  obtain n' r' where e: "node_revoke n r False s k until now = Some (n', r')"
    by (auto simp: node_revoke_def case_prod_beta Let_def)
  then have "mget (rn_cache n') (redisKey n s k) = Some (True, now + rn_cacheTtl n)" "rn_prefix n' = rn_prefix n"
    by (auto simp: node_revoke_def case_prod_beta Let_def)
  with revoke_holds [OF e u] show "node_listed (node_put w s k until now) s k t"
    by (simp add: w node_put_def e node_listed_def redisKey_def)
next
  fix w :: node_world and s k t now s' k'
  assume l: "node_listed w s k t" "now \<le> t"
  obtain n r outs where w: "w = (n, r, outs)" by (cases w)
  from l obtain f where c: "mget (rn_cache n) (redisKey n s k) = Some (True, f)" "redis_holds r (redisKey n s k) t"
    by (auto simp: w node_listed_def)
  show "node_listed (fst (node_ask w s' k' now)) s k t"
    using node_isRevoked_keeps [OF c l(2), of "next_outage outs" s' k']
    by (simp add: w node_listed_def node_ask_def case_prod_beta Let_def redisKey_def)
qed


section \<open>withRevocationCheck\<close>

text \<open>
  A resolver reads the received signature value and the sender; its state is \<open>'w\<close>, it
  throws (outer \<open>None\<close>) or answers material or nothing. The store comes first.
\<close>

type_synonym 'w resolver = "'w \<Rightarrow> json \<Rightarrow> jstr \<Rightarrow> 'w \<times> verification_material option option"

definition withRevocationCheck ::
  "('st \<Rightarrow> jstr \<Rightarrow> jstr \<Rightarrow> int \<Rightarrow> 'st \<times> bool) \<Rightarrow> 'w resolver \<Rightarrow> int \<Rightarrow> ('st \<times> 'w) resolver" where
  "withRevocationCheck ask f clock w sg s =
    (let (st, hit) = ask (fst w) s (template_text (jmember sg ''keyId'')) clock in
     if hit then ((st, snd w), Some None)
     else let (v, m) = f (snd w) sg s in ((st, v), m))"

context revocation_store
begin

lemma no_material:
  assumes "\<forall>u. until = Some u \<longrightarrow> t < u" "\<forall>(s', k', now') \<in> set qs. now' \<le> t"
    and "template_text (jmember sg ''keyId'') = k"
  shows "snd (withRevocationCheck ask f t (ask_run (revoke st s k until now) qs, v) sg s) = Some None"
  using revoked_refused [OF assms(1,2), of st s k now] assms(3)
  by (simp add: withRevocationCheck_def case_prod_beta Let_def)

end

lemma check_transparent:
  "snd (ask st s (template_text (jmember sg ''keyId'')) t) = False \<Longrightarrow>
    snd (withRevocationCheck ask f t (st, v) sg s) = snd (f v sg s)"
  by (simp add: withRevocationCheck_def case_prod_beta Let_def)

section \<open>What the single-process list answers\<close>

datatype list_event = Revoke jstr jstr "int option" | Ask jstr jstr int

fun list_step :: "revocation_list \<Rightarrow> list_event \<Rightarrow> revocation_list" where
  "list_step m (Revoke s k until) = mem_revoke m s k until"
| "list_step m (Ask s k now) = fst (mem_isRevoked m s k now)"

text \<open>The reference: the last revocation of a key is the one that counts.\<close>

fun last_revocation :: "list_event list \<Rightarrow> jstr \<Rightarrow> jstr \<Rightarrow> int option option" where
  "last_revocation [] s k = None"
| "last_revocation (e # es) s k =
    (case last_revocation es s k of
       Some u \<Rightarrow> Some u
     | None \<Rightarrow> (case e of Revoke s' k' until \<Rightarrow> if s' = s \<and> k' = k then Some until else None | Ask _ _ _ \<Rightarrow> None))"

fun event_sender :: "list_event \<Rightarrow> jstr" where
  "event_sender (Revoke s k until) = s"
| "event_sender (Ask s k now) = s"

fun asked_by :: "int \<Rightarrow> list_event \<Rightarrow> bool" where
  "asked_by t (Revoke s k until) = True"
| "asked_by t (Ask s k now) = (now \<le> t)"

definition until_over :: "int option \<Rightarrow> int \<Rightarrow> bool" where
  "until_over u t \<longleftrightarrow> (case u of None \<Rightarrow> False | Some x \<Rightarrow> x \<le> t)"

lemma mem_listed_step:
  assumes "32 \<notin> set s" "32 \<notin> set (event_sender e)" "asked_by t e"
  shows "mem_listed (list_step m e) s k t \<longleftrightarrow>
    (case e of Revoke s' k' until \<Rightarrow> if s' = s \<and> k' = k then \<not> until_over until t else mem_listed m s k t
     | Ask _ _ _ \<Rightarrow> mem_listed m s k t)"
proof (cases e)
  case (Revoke s' k' until)
  then show ?thesis using assms(1,2) revocation_key_inj [of s s' k k']
    by (auto simp: mem_listed_def mem_revoke_def until_over_def jnum_le_iff split: option.splits)
next
  case (Ask s' k' now)
  with assms(3) have n: "jnum_le u (Fin now) \<Longrightarrow> jnum_le u (Fin t)" for u using jnum_le_trans_int by simp
  show ?thesis using n by (auto simp: Ask mem_listed_def mem_isRevoked_def split: option.splits)
qed

lemma mem_listed_run:
  assumes "\<forall>e \<in> set es. 32 \<notin> set (event_sender e) \<and> asked_by t e" "32 \<notin> set s"
  shows "mem_listed (foldl list_step m es) s k t \<longleftrightarrow>
    (case last_revocation es s k of Some until \<Rightarrow> \<not> until_over until t | None \<Rightarrow> mem_listed m s k t)"
  using assms(1)
proof (induction es arbitrary: m)
  case (Cons e es)
  then have e: "32 \<notin> set (event_sender e)" "asked_by t e" by simp_all
  show ?case using Cons.IH [of "list_step m e"] Cons.prems mem_listed_step [OF assms(2) e, of m k]
    by (cases e) (auto split: option.split)
qed simp

lemma mem_isRevoked_listed: "snd (mem_isRevoked m s k t) \<longleftrightarrow> mem_listed m s k t"
  by (auto simp: mem_isRevoked_def mem_listed_def split: option.split)

text \<open>The single-process revocation list is exact for senders without a space: after any run of revocations and lookups, none of them later than t, a key is refused at time t exactly when the last revocation of that key by that sender is permanent or ends after t.\<close>

theorem memory_list_exact:
  assumes "\<forall>e \<in> set es. 32 \<notin> set (event_sender e) \<and> asked_by t e" "32 \<notin> set s"
  shows "snd (mem_isRevoked (foldl list_step [] es) s k t) \<longleftrightarrow>
    (case last_revocation es s k of None \<Rightarrow> False | Some None \<Rightarrow> True | Some (Some u) \<Rightarrow> t < u)"
  using mem_listed_run [OF assms, of "[]" k]
  by (auto simp: mem_isRevoked_listed until_over_def mem_listed_def split: option.splits)

theorem memory_list_exact_witness:
  "snd (mem_isRevoked (foldl list_step [] [Revoke (js ''a'') (js ''k'') (Some 9), Ask (js ''a'') (js ''k'') 3]) (js ''a'') (js ''k'') 8)
   \<and> \<not> snd (mem_isRevoked (foldl list_step [] [Revoke (js ''a'') (js ''k'') (Some 9), Ask (js ''a'') (js ''k'') 3]) (js ''a'') (js ''k'') 9)"
  using memory_list_exact [of "[Revoke (js ''a'') (js ''k'') (Some 9), Ask (js ''a'') (js ''k'') 3]" 8 "js ''a''" "js ''k''"]
    memory_list_exact [of "[Revoke (js ''a'') (js ''k'') (Some 9), Ask (js ''a'') (js ''k'') 3]" 9 "js ''a''" "js ''k''"]
  by (simp add: ascii_eval)

text \<open>The key of the list is ambiguous when a sender contains a space.\<close>

lemma revocation_confuses_senders:
  "snd (mem_isRevoked (mem_revoke m (js ''a'') (js ''b c'') None) (js ''a b'') (js ''c'') t)"
  by (simp add: mem_isRevoked_def mem_revoke_def revocation_key_def ascii_eval jnum_le_iff)

section \<open>A fleet of nodes\<close>

type_synonym fleet = "revocation_node list \<times> redis"

datatype fleet_event =
    NodeAsk nat bool jstr jstr int
  | NodeRevoke nat bool jstr jstr "int option" int

definition set_node :: "fleet \<Rightarrow> nat \<Rightarrow> revocation_node \<Rightarrow> redis \<Rightarrow> fleet" where
  "set_node w i n r = ((fst w)[i := n], r)"

fun fleet_step :: "fleet \<Rightarrow> fleet_event \<Rightarrow> fleet" where
  "fleet_step w (NodeAsk i outage s k now) =
    (if i < length (fst w) then
       (let (n, r, hit) = node_isRevoked (fst w ! i) (snd w) outage s k now in set_node w i n r)
     else w)"
| "fleet_step w (NodeRevoke i outage s k until now) =
    (if i < length (fst w) then
       (case node_revoke (fst w ! i) (snd w) outage s k until now of Some (n, r) \<Rightarrow> set_node w i n r | None \<Rightarrow> w)
     else w)"

text \<open>Events that leave a revocation of the given Redis key alone, none later than t.\<close>

fun harmless :: "jstr \<Rightarrow> jstr \<Rightarrow> int \<Rightarrow> fleet_event \<Rightarrow> bool" where
  "harmless pre key t (NodeAsk i outage s k now) = (now \<le> t)"
| "harmless pre key t (NodeRevoke i outage s k until now) = (pre @ revocation_key s k \<noteq> key)"

text \<open>What the caches of a fleet may still hold about a key: no negative answer fresh beyond F.\<close>

definition stale_by :: "jstr \<Rightarrow> int \<Rightarrow> revocation_node \<Rightarrow> bool" where
  "stale_by key F n \<longleftrightarrow> (\<forall>f. mget (rn_cache n) key = Some (False, f) \<longrightarrow> f \<le> F)"

definition fleet_knows :: "jstr \<Rightarrow> jstr \<Rightarrow> int \<Rightarrow> int \<Rightarrow> fleet \<Rightarrow> bool" where
  "fleet_knows pre key F t w \<longleftrightarrow> redis_holds (snd w) key t \<and> (\<forall>n \<in> set (fst w). rn_prefix n = pre \<and> stale_by key F n)"

lemma node_revoke_other:
  assumes "node_revoke n r outage s k until now = Some (n', r')" "redisKey n s k \<noteq> key" "redis_holds r key t"
  shows "redis_holds r' key t"
  using assms by (auto simp: node_revoke_def redis_set_def redis_holds_iff Let_def split: if_splits)

lemma node_revoke_cache:
  assumes "node_revoke n r outage s k until now = Some (n', r')"
  shows "rn_prefix n' = rn_prefix n" "rn_cacheTtl n' = rn_cacheTtl n"
    and "mget (rn_cache n') key = (if key = redisKey n s k then Some (True, now + rn_cacheTtl n) else mget (rn_cache n) key)"
  using assms by (auto simp: node_revoke_def Let_def split: if_splits prod.splits)

lemma node_ask_stale:
  assumes "stale_by key F n" "redis_holds r key t" "now \<le> t"
  shows "stale_by key F (fst (node_isRevoked n r outage s k now)) \<and> redis_holds (fst (snd (node_isRevoked n r outage s k now))) key t"
proof -
  have "redis_holds r key now" using assms(2,3) jnum_le_trans_int [of _ now t] by (auto simp: redis_holds_iff)
  then have "snd (redis_get r key now) \<noteq> None" by (simp only: redis_get_holds)
  then show ?thesis
    using assms redis_get_kept [OF assms(2,3), of "redisKey n s k"]
    by (cases "redisKey n s k = key") (auto simp: node_isRevoked_def stale_by_def case_prod_beta Let_def)
qed

lemma fleet_step_knows:
  assumes "fleet_knows pre key F t w" "harmless pre key t e"
  shows "fleet_knows pre key F t (fleet_step w e)"
proof (cases e)
  case (NodeAsk i outage s k now)
  show ?thesis
  proof (cases "i < length (fst w)")
    case True
    then have "fst w ! i \<in> set (fst w)" by simp
    with assms NodeAsk True node_ask_stale [of key F "fst w ! i" "snd w" t now outage s k] show ?thesis
      by (auto simp: fleet_knows_def set_node_def case_prod_beta Let_def dest!: set_update_subset_insert [THEN subsetD])
  qed (use assms NodeAsk in simp)
next
  case (NodeRevoke i outage s k until now)
  show ?thesis
  proof (cases "i < length (fst w) \<and> node_revoke (fst w ! i) (snd w) outage s k until now \<noteq> None")
    case True
    then obtain n r where e: "node_revoke (fst w ! i) (snd w) outage s k until now = Some (n, r)" "i < length (fst w)" by auto
    then have "fst w ! i \<in> set (fst w)" by simp
    with assms NodeRevoke have k: "redisKey (fst w ! i) s k \<noteq> key" "rn_prefix (fst w ! i) = pre" "stale_by key F (fst w ! i)"
      by (auto simp: fleet_knows_def redisKey_def)
    then have "stale_by key F n" "rn_prefix n = pre"
      using node_revoke_cache [OF e(1)] by (auto simp: stale_by_def)
    with assms NodeRevoke e node_revoke_other [OF e(1) k(1)] show ?thesis
      by (auto simp: fleet_knows_def set_node_def dest!: set_update_subset_insert [THEN subsetD])
  qed (use assms NodeRevoke in \<open>auto split: option.splits\<close>)
qed

lemma fleet_run_knows:
  "fleet_knows pre key F t w \<Longrightarrow> \<forall>e \<in> set es. harmless pre key t e \<Longrightarrow> fleet_knows pre key F t (foldl fleet_step w es)"
  by (induction es arbitrary: w) (simp_all add: fleet_step_knows)

text \<open>Before the revocation: no answer of a fleet asked up to time t0 is fresh beyond t0 plus the cache window.\<close>

fun before :: "int \<Rightarrow> fleet_event \<Rightarrow> bool" where
  "before t0 (NodeAsk i outage s k now) = (now \<le> t0)"
| "before t0 (NodeRevoke i outage s k until now) = True"

definition fleet_fresh :: "jstr \<Rightarrow> int \<Rightarrow> int \<Rightarrow> fleet \<Rightarrow> bool" where
  "fleet_fresh pre T t0 w \<longleftrightarrow> (\<forall>n \<in> set (fst w). rn_prefix n = pre \<and> rn_cacheTtl n = T \<and> (\<forall>key. stale_by key (t0 + T) n))"

lemma fleet_step_fresh: "fleet_fresh pre T t0 w \<Longrightarrow> before t0 e \<Longrightarrow> fleet_fresh pre T t0 (fleet_step w e)"
proof (cases e)
  case (NodeAsk i outage s k now)
  assume f: "fleet_fresh pre T t0 w" "before t0 e"
  have "rn_prefix n' = rn_prefix n \<and> rn_cacheTtl n' = rn_cacheTtl n \<and> (\<forall>key. stale_by key (t0 + T) n')"
    if "n' = fst (node_isRevoked n r outage s k now)" "\<forall>key. stale_by key (t0 + T) n" "rn_cacheTtl n = T" for n n' r
    using that f(2) NodeAsk by (auto simp: node_isRevoked_def stale_by_def case_prod_beta Let_def split: if_splits)
  from this [OF refl, of "fst w ! i" "snd w"] f NodeAsk show ?thesis
    by (cases "i < length (fst w)")
      (auto simp: fleet_fresh_def set_node_def case_prod_beta Let_def dest!: set_update_subset_insert [THEN subsetD])
next
  case (NodeRevoke i outage s k until now)
  assume f: "fleet_fresh pre T t0 w" "before t0 e"
  show ?thesis
  proof (cases "i < length (fst w) \<and> node_revoke (fst w ! i) (snd w) outage s k until now \<noteq> None")
    case True
    then obtain n r where e: "node_revoke (fst w ! i) (snd w) outage s k until now = Some (n, r)" "i < length (fst w)" by auto
    then have "rn_prefix (fst w ! i) = pre" "rn_cacheTtl (fst w ! i) = T" "\<forall>key. stale_by key (t0 + T) (fst w ! i)"
      using f(1) by (simp_all add: fleet_fresh_def)
    then have "rn_prefix n = pre" "rn_cacheTtl n = T" "\<forall>key. stale_by key (t0 + T) n"
      using node_revoke_cache [OF e(1)] by (auto simp: stale_by_def split: if_splits)
    with f(1) e NodeRevoke show ?thesis
      by (auto simp: fleet_fresh_def set_node_def dest!: set_update_subset_insert [THEN subsetD])
  qed (use f NodeRevoke in \<open>auto split: option.splits\<close>)
qed

lemma fleet_run_fresh:
  "fleet_fresh pre T t0 w \<Longrightarrow> \<forall>e \<in> set es. before t0 e \<Longrightarrow> fleet_fresh pre T t0 (foldl fleet_step w es)"
  by (induction es arbitrary: w) (simp_all add: fleet_step_fresh)

definition new_fleet :: "jstr \<Rightarrow> revocation_error \<Rightarrow> int \<Rightarrow> nat \<Rightarrow> fleet" where
  "new_fleet pre eb T n = (replicate n (createRedisRevocationStore (Some pre) (Some eb) (Some T)), [])"

lemma new_fleet_fresh: "fleet_fresh pre T t0 (new_fleet pre eb T n)"
  by (simp add: fleet_fresh_def new_fleet_def createRedisRevocationStore_def stale_by_def)

lemma revoke_known:
  assumes "fleet_fresh pre T t0 w" "i < length (fst w)" "\<forall>u. until = Some u \<longrightarrow> t < u"
  shows "fleet_knows pre (pre @ revocation_key s k) (t0 + T) t (fleet_step w (NodeRevoke i False s k until t0))"
proof -
  have i: "fst w ! i \<in> set (fst w)" using assms(2) by simp
  then have p: "redisKey (fst w ! i) s k = pre @ revocation_key s k" using assms(1) by (auto simp: fleet_fresh_def redisKey_def)
  obtain n r where e: "node_revoke (fst w ! i) (snd w) False s k until t0 = Some (n, r)"
    by (auto simp: node_revoke_def case_prod_beta Let_def)
  show ?thesis using assms i p node_revoke_cache [OF e] revoke_holds [OF e assms(3)] e
    by (auto simp: fleet_knows_def fleet_fresh_def set_node_def stale_by_def dest!: set_update_subset_insert [THEN subsetD])
qed

text \<open>C36 A revocation reaches the whole fleet within the cache window: when one node revokes a key, then whatever the nodes were asked before and are asked or told about other keys afterwards, through any outages, every node that reaches Redis refuses the key once the window T has passed, for as long as the revocation lasts.\<close>

theorem fleet_revocation_bounded:
  assumes "\<forall>e \<in> set before_es. before t0 e" "i < nodes" "j < nodes" "\<forall>u. until = Some u \<longrightarrow> t < u" "t0 + T \<le> t"
    and "\<forall>e \<in> set after_es. harmless pre (pre @ revocation_key s k) t e"
  shows "let w = foldl fleet_step (foldl fleet_step (new_fleet pre eb T nodes) before_es) (NodeRevoke i False s k until t0 # after_es)
    in snd (snd (node_isRevoked (fst w ! j) (snd w) False s k t))"
proof -
  have len: "length (fst (foldl fleet_step w es)) = length (fst w)" for w es
  proof (induction es arbitrary: w)
    case (Cons e es)
    then show ?case by (cases e) (auto simp: set_node_def case_prod_beta Let_def split: option.split)
  qed simp
  let ?prior = "foldl fleet_step (new_fleet pre eb T nodes) before_es"
  let ?w = "foldl fleet_step ?prior (NodeRevoke i False s k until t0 # after_es)"
  have f: "fleet_fresh pre T t0 ?prior" by (rule fleet_run_fresh [OF new_fleet_fresh assms(1)])
  have l: "length (fst ?prior) = nodes" "length (fst ?w) = nodes" unfolding len by (simp_all add: new_fleet_def)
  have w: "fleet_knows pre (pre @ revocation_key s k) (t0 + T) t ?w"
    unfolding foldl.simps by (rule fleet_run_knows [OF revoke_known [OF f _ assms(4)] assms(6)]) (simp add: l assms(2))
  then have j: "rn_prefix (fst ?w ! j) = pre" "stale_by (pre @ revocation_key s k) (t0 + T) (fst ?w ! j)"
    "redis_holds (snd ?w) (pre @ revocation_key s k) t"
    using assms(3) l(2) by (simp_all add: fleet_knows_def)
  have "snd (redis_get (snd ?w) (pre @ revocation_key s k) t) \<noteq> None" unfolding redis_get_holds by (rule j(3))
  then show ?thesis
    using j(1,2) assms(5) unfolding Let_def
    by (auto simp: node_isRevoked_def redisKey_def stale_by_def case_prod_beta Let_def split: option.splits)
qed

theorem fleet_revocation_bounded_witness:
  "let w = foldl fleet_step (foldl fleet_step (new_fleet [] RejectOnError 5 2) [NodeAsk 1 False (js ''a'') (js ''k'') 9])
      (NodeRevoke 0 False (js ''a'') (js ''k'') None 10 # [NodeAsk 1 True (js ''b'') (js ''k'') 12])
    in snd (snd (node_isRevoked (fst w ! 1) (snd w) False (js ''a'') (js ''k'') 15))"
  by (rule fleet_revocation_bounded) simp_all

text \<open>The default error behaviour does not always fail closed: a node that has once read a key as good and loses Redis keeps answering that it is good, however long ago that was and whatever the other nodes have revoked since.\<close>

theorem outage_serves_stale_answer:
  assumes "mget (rn_cache n) (redisKey n s k) = None" "\<not> redis_holds r (redisKey n s k) now"
  shows "let (n1, r1, hit) = node_isRevoked n r False s k now in \<not> hit \<and> \<not> snd (snd (node_isRevoked n1 r2 True s k t))"
proof -
  have "snd (redis_get r (redisKey n s k) now) = None" using redis_get_holds assms(2) by blast
  then show ?thesis using assms(1) by (simp add: node_isRevoked_def redisKey_def case_prod_beta Let_def)
qed

theorem outage_serves_stale_answer_witness:
  "let n = createRedisRevocationStore None (Some RejectOnError) None; (n1, r1, hit) = node_isRevoked n [] False (js ''a'') (js ''k'') 0;
       (n2, r2) = the (node_revoke n r1 False (js ''a'') (js ''k'') None 1)
   in \<not> hit \<and> \<not> snd (snd (node_isRevoked n1 r2 True (js ''a'') (js ''k'') 1000000000))"
proof -
  have c: "mget (rn_cache (createRedisRevocationStore None (Some RejectOnError) None)) (redisKey (createRedisRevocationStore None (Some RejectOnError) None) (js ''a'') (js ''k'')) = None"
    "\<not> redis_holds [] (redisKey (createRedisRevocationStore None (Some RejectOnError) None) (js ''a'') (js ''k'')) 0"
    by (simp_all add: createRedisRevocationStore_def redis_holds_iff)
  show ?thesis
    using outage_serves_stale_answer [OF c, where t = 1000000000]
    by (simp add: case_prod_beta Let_def)
qed

text \<open>Once a node knows of a revocation, no outage makes it forget, and the wrapped resolver hands out no material for the key.\<close>

theorem revoked_key_no_material:
  assumes "\<forall>u. until = Some u \<longrightarrow> t < u" "\<forall>(s', k', now') \<in> set qs. now' \<le> t" "template_text (jmember sg ''keyId'') = k"
  shows "snd (withRevocationCheck node_ask f t (node_list.ask_run (node_put (n, r, outs) s k until now) qs, v) sg s) = Some None"
  by (rule node_list.no_material [OF assms])

theorem revoked_key_no_material_witness:
  "snd (withRevocationCheck node_ask (\<lambda>w sg s. (w, Some (Some (HmacSecret (js ''x''))))) 7
     (node_list.ask_run (node_put (createRedisRevocationStore None None None, [], [True, True]) (js ''a'') (js ''k'') (Some 8) 1) [(js ''a'', js ''k'', 3)], ())
     (JObj [(js ''keyId'', JStr (js ''k''))]) (js ''a'')) = Some None"
  by (rule revoked_key_no_material) (simp_all add: template_text_def)

end
