(* ===== verification/Transport.thy ===== *)
theory Transport
  imports Process HttpBinding BinaryCodec Revocation
begin

text \<open>
  \<open>src/protocolTransport.ts\<close>: the wire formats of envelopes, \<open>receiveEnvelope\<close> with its
  telemetry, material cache, resolvers and replay cache, batches and \<open>SessionTransport\<close>.
  A received envelope is a JSON value read member by member, as \<open>HttpBinding\<close> reads it.
  \<open>receiveEnvelope\<close> is a process of \<open>Process\<close>: one atomic step for each call of the options,
  with the world \<open>'w\<close> those calls share; in the source some neighbouring calls are not
  separated by an \<open>await\<close>, so every order of steps it allows is one allowed here.
\<close>

section \<open>Wire formats\<close>

datatype wire_format = JsonFormat | CompactFormat | BinaryFormat

datatype wire = WireText jstr | WireFrame bytes

datatype receive_input = Wire wire | Parsed json

definition optional_json :: "string \<Rightarrow> json option \<Rightarrow> (jstr \<times> json) list" where
  "optional_json name v = (case v of None \<Rightarrow> [] | Some x \<Rightarrow> [(js name, x)])"

definition isProtocolEnvelope :: "json \<Rightarrow> bool" where
  "isProtocolEnvelope v \<longleftrightarrow> truthy_json (jmember v ''header'') \<and> truthy_json (jmember v ''body'')"

definition is_string :: "json option \<Rightarrow> bool" where
  "is_string v = (case v of Some (JStr s) \<Rightarrow> True | _ \<Rightarrow> False)"

definition isCompactEnvelope :: "json \<Rightarrow> bool" where
  "isCompactEnvelope v \<longleftrightarrow> jmember v ''v'' = Some (JStr protocol_version) \<and> is_string (jmember v ''mid'') \<and> is_string (jmember v ''i'')"

definition compact_signature :: "json \<Rightarrow> json" where
  "compact_signature sg = JObj ([(js ''alg'', case jmember sg ''a'' of None \<Rightarrow> JStr (js ''HS256'') | Some JNull \<Rightarrow> JStr (js ''HS256'') | Some a \<Rightarrow> a)]
     @ optional_json ''keyId'' (jmember sg ''k'') @ optional_json ''value'' (jmember sg ''v''))"

definition compactToEnvelope :: "json \<Rightarrow> json" where
  "compactToEnvelope c = JObj
    ([(js ''header'', JObj (optional_json ''version'' (jmember c ''v'') @ optional_json ''messageId'' (jmember c ''mid'')
        @ optional_json ''timestampMs'' (jmember c ''ts'') @ optional_json ''ttlMs'' (jmember c ''ttl'')
        @ optional_json ''sender'' (jmember c ''s'') @ optional_json ''recipient'' (jmember c ''r'') @ optional_json ''nonce'' (jmember c ''n''))),
      (js ''body'', JObj (optional_json ''intent'' (jmember c ''i'') @ optional_json ''content'' (jmember c ''c'')
        @ optional_json ''capability'' (jmember c ''cap'') @ optional_json ''correlationId'' (jmember c ''cid'')))]
     @ (if truthy_json (jmember c ''sig'') then [(js ''signature'', compact_signature (the (jmember c ''sig'')))] else []))"

definition envelopeToCompact :: "envelope \<Rightarrow> json" where
  "envelopeToCompact e =
    (let h = header e; b = body e in
     JObj ([(js ''v'', JStr (version h)), (js ''mid'', JStr (messageId h)), (js ''ts'', JNum (timestampMs h)), (js ''ttl'', JNum (ttlMs h)),
        (js ''s'', JStr (sender h))] @ opt_json ''r'' (recipient h) @ [(js ''n'', JStr (nonce h)),
        (js ''i'', JStr (intent_text (intent b))), (js ''c'', JStr (content b))]
        @ opt_json ''cap'' (capability b) @ opt_json ''cid'' (correlationId b)
        @ (case signature e of None \<Rightarrow> [] | Some s \<Rightarrow>
             [(js ''sig'', JObj [(js ''a'', JStr (alg_text (alg s))), (js ''k'', JStr (keyId s)), (js ''v'', JStr (sigValue s))])])))"

text \<open>\<open>None\<close>: the binary encoder throws.\<close>

definition encodeEnvelope :: "wire_format \<Rightarrow> envelope \<Rightarrow> wire option" where
  "encodeEnvelope fmt e =
    (case fmt of
       BinaryFormat \<Rightarrow> map_option WireFrame (encodeEnvelopeBinary e)
     | CompactFormat \<Rightarrow> Some (WireText (print_json (envelopeToCompact e)))
     | JsonFormat \<Rightarrow> Some (WireText (print_json (envelope_json e))))"

definition encodeEnvelopeBatch :: "bool \<Rightarrow> envelope list \<Rightarrow> jstr" where
  "encodeEnvelopeBatch asCompact es = print_json (JArr (map (if asCompact then envelopeToCompact else envelope_json) es))"

section \<open>Results\<close>

datatype transport_diagnostic =
    ShapeNotRecognized | InvalidJson | BatchNotArray | BatchItemShape | BatchInvalidJson | FrameRefused binary_failure
  | ClockSkew | Validation diagnostic | MissingSignature | MissingMaterial | SignatureFailed | ReplayRefused replay_result

record receive_result =
  rr_ok :: bool
  rr_diagnostics :: "transport_diagnostic list"
  rr_envelope :: "json option"

definition refused :: "transport_diagnostic \<Rightarrow> receive_result" where
  "refused d = \<lparr>rr_ok = False, rr_diagnostics = [d], rr_envelope = None\<rparr>"

definition decoded :: "json \<Rightarrow> receive_result" where
  "decoded e = \<lparr>rr_ok = True, rr_diagnostics = [], rr_envelope = Some e\<rparr>"

definition recognize :: "transport_diagnostic \<Rightarrow> json \<Rightarrow> receive_result" where
  "recognize unknown v =
    (if isCompactEnvelope v then decoded (compactToEnvelope v)
     else if isProtocolEnvelope v then decoded v
     else refused unknown)"

definition decodeEnvelope :: "(jstr \<Rightarrow> json option) \<Rightarrow> wire \<Rightarrow> receive_result" where
  "decodeEnvelope parse raw =
    (case raw of
       WireFrame bs \<Rightarrow>
         (case decodeEnvelopeBinary DEFAULT_MAX_BINARY_ENVELOPE_BYTES bs of
            Inl f \<Rightarrow> refused (FrameRefused f)
          | Inr e \<Rightarrow> decoded (envelope_json e))
     | WireText s \<Rightarrow> (case parse s of None \<Rightarrow> refused InvalidJson | Some v \<Rightarrow> recognize ShapeNotRecognized v))"

definition decodeEnvelopeBatch :: "(jstr \<Rightarrow> json option) \<Rightarrow> jstr \<Rightarrow> receive_result list" where
  "decodeEnvelopeBatch parse raw =
    (case parse raw of
       None \<Rightarrow> [refused BatchInvalidJson]
     | Some (JArr vs) \<Rightarrow> map (recognize BatchItemShape) vs
     | Some _ \<Rightarrow> [refused BatchNotArray])"

section \<open>The material cache\<close>

record material_cache =
  mc_entries :: "(jstr, int \<times> verification_material) jsmap"
  mc_max :: nat

definition new_material_cache :: "nat option \<Rightarrow> material_cache" where
  "new_material_cache mx = \<lparr>mc_entries = [], mc_max = (case mx of None \<Rightarrow> 512 | Some n \<Rightarrow> n)\<rparr>"

definition material_get :: "material_cache \<Rightarrow> jstr \<Rightarrow> int \<Rightarrow> material_cache \<times> verification_material option" where
  "material_get c key nowMs =
    (case mget (mc_entries c) key of
       None \<Rightarrow> (c, None)
     | Some (expiresAtMs, m) \<Rightarrow>
         if expiresAtMs \<le> nowMs then (c\<lparr>mc_entries := mdelete (mc_entries c) key\<rparr>, None) else (c, Some m))"

text \<open>The oldest key is deleted when the cache is full; an empty key is falsy and stays.\<close>

definition material_set :: "material_cache \<Rightarrow> jstr \<Rightarrow> verification_material \<Rightarrow> int \<Rightarrow> material_cache" where
  "material_set c key m expiresAtMs =
    (let es = (if mc_max c \<le> msize (mc_entries c)
               then (case mkeys (mc_entries c) of [] \<Rightarrow> mc_entries c | oldest # _ \<Rightarrow> if oldest \<noteq> [] then mdelete (mc_entries c) oldest else mc_entries c)
               else mc_entries c)
     in c\<lparr>mc_entries := mset_key es key (expiresAtMs, m)\<rparr>)"

definition material_delete :: "material_cache \<Rightarrow> jstr \<Rightarrow> material_cache" where
  "material_delete c key = c\<lparr>mc_entries := mdelete (mc_entries c) key\<rparr>"

definition verificationMaterialCacheKey :: "json \<Rightarrow> jstr \<Rightarrow> jstr" where
  "verificationMaterialCacheKey sg s = s @ 124 # template_text (jmember sg ''alg'') @ 124 # template_text (jmember sg ''keyId'')"

section \<open>Options\<close>

datatype phase =
    PhDecoded | PhClockSkew | PhValidation | PhReplay | PhMissingSignature | PhMissingMaterial | PhBadSignature | PhAccepted

datatype telemetry_event =
    EnvelopeEvent phase int "json option" "json option" "transport_diagnostic option"
  | BatchSummary int nat nat

text \<open>
  The functions a caller passes in, on the world they share. Each may throw (\<open>None\<close>),
  except the two of the cache; a replay cache answers as \<open>Replay\<close> and \<open>ReplayStores\<close> do.
\<close>

record 'w receive_options =
  op_requireSignature :: "bool option"
  op_maxClockSkewMs :: "int option"
  op_replayCache :: "('w \<Rightarrow> header \<Rightarrow> int \<Rightarrow> 'w \<times> replay_result option) option"
  op_cacheGet :: "('w \<Rightarrow> jstr \<Rightarrow> int \<Rightarrow> 'w \<times> verification_material option) option"
  op_cacheSet :: "'w \<Rightarrow> jstr \<Rightarrow> verification_material \<Rightarrow> int \<Rightarrow> 'w"
  op_secretResolver :: "('w \<Rightarrow> json option \<Rightarrow> jstr \<Rightarrow> 'w \<times> jstr option option) option"
  op_signatureResolver :: "'w resolver option"
  op_telemetry :: "('w \<Rightarrow> telemetry_event \<Rightarrow> 'w \<times> unit option) option"

section \<open>receiveEnvelope\<close>

definition emit :: "'w receive_options \<Rightarrow> telemetry_event \<Rightarrow> ('w, 'a) proc \<Rightarrow> ('w, 'a) proc" where
  "emit opts ev p = (case op_telemetry opts of None \<Rightarrow> p | Some f \<Rightarrow> act (\<lambda>w. f w ev) (\<lambda>u. p))"

definition event_of :: "phase \<Rightarrow> int \<Rightarrow> json \<Rightarrow> transport_diagnostic option \<Rightarrow> telemetry_event" where
  "event_of ph now e d =
    (let h = the (jmember e ''header'') in EnvelopeEvent ph now (jmember h ''sender'') (jmember h ''messageId'') d)"

definition reject ::
  "'w receive_options \<Rightarrow> int \<Rightarrow> json \<Rightarrow> phase \<Rightarrow> transport_diagnostic list \<Rightarrow> transport_diagnostic option \<Rightarrow> ('w, receive_result) proc" where
  "reject opts now e ph ds d =
    emit opts (event_of ph now e d) (Done (Some \<lparr>rr_ok = False, rr_diagnostics = ds, rr_envelope = Some e\<rparr>))"

definition accept :: "'w receive_options \<Rightarrow> int \<Rightarrow> json \<Rightarrow> transport_diagnostic list \<Rightarrow> ('w, receive_result) proc" where
  "accept opts now e ds =
    emit opts (event_of PhAccepted now e None) (Done (Some \<lparr>rr_ok = True, rr_diagnostics = ds, rr_envelope = Some e\<rparr>))"

text \<open>The header as the replay cache reads it; validation has made its members texts and finite numbers.\<close>

definition header_view :: "json \<Rightarrow> header" where
  "header_view h =
    \<lparr>version = string_or_empty (jmember h ''version''), messageId = string_or_empty (jmember h ''messageId''),
     timestampMs = finite_or_nan (jmember h ''timestampMs''), ttlMs = finite_or_nan (jmember h ''ttlMs''),
     sender = string_or_empty (jmember h ''sender''),
     recipient = (case jmember h ''recipient'' of Some (JStr s) \<Rightarrow> Some s | _ \<Rightarrow> None),
     nonce = string_or_empty (jmember h ''nonce'')\<rparr>"

definition replay_step ::
  "'w receive_options \<Rightarrow> int \<Rightarrow> json \<Rightarrow> json \<Rightarrow> transport_diagnostic list \<Rightarrow> ('w, receive_result) proc" where
  "replay_step opts now e h ds =
    (case op_replayCache opts of
       None \<Rightarrow> accept opts now e ds
     | Some f \<Rightarrow> act (\<lambda>w. f w (header_view h) now)
         (\<lambda>r. if r = ReplayOk then accept opts now e ds
              else reject opts now e PhReplay (ds @ [ReplayRefused r]) (Some (ReplayRefused r))))"

text \<open>\<open>verifyCanonicalPayloadSignature\<close> on a received signature value.\<close>

definition verify_payload :: "crypto \<Rightarrow> jstr \<Rightarrow> json \<Rightarrow> verification_material \<Rightarrow> bool option" where
  "verify_payload C payload sg m =
    (if jmember sg ''alg'' \<noteq> Some (JStr (alg_text (material_alg m))) then Some False
     else (case jmember sg ''value'' of
       Some (JStr v) \<Rightarrow>
         (case m of
            HmacSecret s \<Rightarrow> verifyCanonicalPayloadHmac C payload v s
          | Ed25519Key k \<Rightarrow> verifyCanonicalPayloadEd25519 C payload v k)
     | _ \<Rightarrow> None))"

definition verify_step ::
  "crypto \<Rightarrow> 'w receive_options \<Rightarrow> int \<Rightarrow> json \<Rightarrow> json \<Rightarrow> json \<Rightarrow> transport_diagnostic list \<Rightarrow> verification_material option
    \<Rightarrow> ('w, receive_result) proc" where
  "verify_step C opts now e h sg ds material =
    (case material of
       None \<Rightarrow> reject opts now e PhMissingMaterial (ds @ [MissingMaterial]) (Some MissingMaterial)
     | Some m \<Rightarrow>
         (case canonical_text h (jmember e ''body'') of
            None \<Rightarrow> Done None
          | Some payload \<Rightarrow>
              (case verify_payload C payload sg m of
                 None \<Rightarrow> Done None
               | Some False \<Rightarrow> reject opts now e PhBadSignature (ds @ [SignatureFailed]) (Some SignatureFailed)
               | Some True \<Rightarrow> replay_step opts now e h ds)))"

text \<open>\<open>Math.max(nowMs + 1, timestampMs + ttlMs)\<close>; validation has made the sum finite.\<close>

definition material_expiry :: "json \<Rightarrow> int \<Rightarrow> int" where
  "material_expiry h now =
    (case jnum_add (finite_or_nan (jmember h ''timestampMs'')) (finite_or_nan (jmember h ''ttlMs'')) of
       Fin e \<Rightarrow> max (now + 1) e | _ \<Rightarrow> now + 1)"

definition store_step ::
  "crypto \<Rightarrow> 'w receive_options \<Rightarrow> int \<Rightarrow> json \<Rightarrow> json \<Rightarrow> json \<Rightarrow> jstr \<Rightarrow> transport_diagnostic list \<Rightarrow> verification_material option
    \<Rightarrow> ('w, receive_result) proc" where
  "store_step C opts now e h sg s ds material =
    (case (material, op_cacheGet opts) of
       (Some m, Some g) \<Rightarrow>
         act (\<lambda>w. (op_cacheSet opts w (verificationMaterialCacheKey sg s) m (material_expiry h now), Some ()))
           (\<lambda>u. verify_step C opts now e h sg ds material)
     | _ \<Rightarrow> verify_step C opts now e h sg ds material)"

definition secret_step ::
  "crypto \<Rightarrow> 'w receive_options \<Rightarrow> int \<Rightarrow> json \<Rightarrow> json \<Rightarrow> json \<Rightarrow> jstr \<Rightarrow> transport_diagnostic list \<Rightarrow> verification_material option
    \<Rightarrow> ('w, receive_result) proc" where
  "secret_step C opts now e h sg s ds material =
    (case (material, jmember sg ''alg'' = Some (JStr (js ''HS256'')), op_secretResolver opts) of
       (None, True, Some f) \<Rightarrow>
         act (\<lambda>w. f w (jmember sg ''keyId'') s)
           (\<lambda>r. store_step C opts now e h sg s ds (case r of Some secret \<Rightarrow> if secret = [] then None else Some (HmacSecret secret) | None \<Rightarrow> None))
     | _ \<Rightarrow> store_step C opts now e h sg s ds material)"

definition resolve_step ::
  "crypto \<Rightarrow> 'w receive_options \<Rightarrow> int \<Rightarrow> json \<Rightarrow> json \<Rightarrow> json \<Rightarrow> jstr \<Rightarrow> transport_diagnostic list \<Rightarrow> verification_material option
    \<Rightarrow> ('w, receive_result) proc" where
  "resolve_step C opts now e h sg s ds cached =
    (case (cached, op_signatureResolver opts) of
       (None, Some f) \<Rightarrow> act (\<lambda>w. f w sg s) (\<lambda>m. secret_step C opts now e h sg s ds m)
     | _ \<Rightarrow> secret_step C opts now e h sg s ds cached)"

definition cache_step ::
  "crypto \<Rightarrow> 'w receive_options \<Rightarrow> int \<Rightarrow> json \<Rightarrow> json \<Rightarrow> json \<Rightarrow> jstr \<Rightarrow> transport_diagnostic list \<Rightarrow> ('w, receive_result) proc" where
  "cache_step C opts now e h sg s ds =
    (case op_cacheGet opts of
       None \<Rightarrow> resolve_step C opts now e h sg s ds None
     | Some g \<Rightarrow>
         act (\<lambda>w. let (w', m) = g w (verificationMaterialCacheKey sg s) now in (w', Some m))
           (\<lambda>m. resolve_step C opts now e h sg s ds m))"

definition transport_errors :: "diagnostic list \<Rightarrow> transport_diagnostic option" where
  "transport_errors ds = map_option Validation (List.find (\<lambda>d. level d = Error) ds)"

definition signature_step :: "crypto \<Rightarrow> 'w receive_options \<Rightarrow> int \<Rightarrow> json \<Rightarrow> json \<Rightarrow> ('w, receive_result) proc" where
  "signature_step C opts now e h =
    (let vs = validateEnvelope e now; ds = map Validation vs; sg = jmember e ''signature'' in
     if \<not> no_errors vs then reject opts now e PhValidation ds (transport_errors vs)
     else if \<not> truthy_json sg then
       (if op_requireSignature opts \<noteq> Some False
        then reject opts now e PhMissingSignature (ds @ [MissingSignature]) (Some MissingSignature)
        else accept opts now e ds)
     else cache_step C opts now e h (the sg) (string_or_empty (jmember h ''sender'')) ds)"

text \<open>
  \<open>Number.isFinite(ts)\<close> and the comparison with the allowed skew, before validation. The
  header of a value passed in parsed may be missing, and reading it throws.
\<close>

definition receive_value :: "crypto \<Rightarrow> 'w receive_options \<Rightarrow> int \<Rightarrow> json \<Rightarrow> ('w, receive_result) proc" where
  "receive_value C opts now e =
    (if \<not> truthy_json (Some e) then Done (Some \<lparr>rr_ok = True, rr_diagnostics = [], rr_envelope = Some e\<rparr>)
     else case readable (jmember e ''header'') of
       None \<Rightarrow> Done None
     | Some h \<Rightarrow>
         emit opts (event_of PhDecoded now e None)
           (let ts = finite_or_nan (jmember h ''timestampMs''); skew = (case op_maxClockSkewMs opts of None \<Rightarrow> 30000 | Some k \<Rightarrow> k) in
            if \<not> is_finite ts \<or> jnum_less (Fin (now + skew)) ts then reject opts now e PhClockSkew [ClockSkew] (Some ClockSkew)
            else signature_step C opts now e h))"

definition receiveEnvelope ::
  "crypto \<Rightarrow> (jstr \<Rightarrow> json option) \<Rightarrow> 'w receive_options \<Rightarrow> int \<Rightarrow> receive_input \<Rightarrow> ('w, receive_result) proc" where
  "receiveEnvelope C parse opts now input =
    (case input of
       Parsed v \<Rightarrow> receive_value C opts now v
     | Wire raw \<Rightarrow>
         (let d = decodeEnvelope parse raw in
          case (rr_ok d, rr_envelope d) of
            (True, Some e) \<Rightarrow> receive_value C opts now e
          | _ \<Rightarrow> Done (Some d)))"

section \<open>Batches\<close>

datatype batch_input = BatchText jstr | BatchItems "receive_input list"

text \<open>
  An item with members \<open>ok\<close>, \<open>diagnostics\<close> and \<open>envelope\<close> is taken for a result, which is how an
  item that could not be decoded is passed on; a received value that has them is \<open>AsGiven\<close>.
\<close>

datatype batch_result = Received receive_result | AsGiven json

fun result_ok :: "batch_result \<Rightarrow> bool" where
  "result_ok (Received r) = rr_ok r"
| "result_ok (AsGiven v) = truthy_json (jmember v ''ok'')"

fun result_envelope :: "batch_result \<Rightarrow> json option" where
  "result_envelope (Received r) = rr_envelope r"
| "result_envelope (AsGiven v) = jmember v ''envelope''"

definition looks_like_result :: "json \<Rightarrow> bool" where
  "looks_like_result v \<longleftrightarrow> jmember v ''ok'' \<noteq> None \<and> jmember v ''diagnostics'' \<noteq> None \<and> jmember v ''envelope'' \<noteq> None"

definition batch_item ::
  "crypto \<Rightarrow> (jstr \<Rightarrow> json option) \<Rightarrow> 'w receive_options \<Rightarrow> int \<Rightarrow> receive_input \<Rightarrow> ('w, batch_result) proc" where
  "batch_item C parse opts now item =
    (case item of
       Parsed v \<Rightarrow>
         if looks_like_result v then Done (Some (AsGiven v))
         else map_proc Received (receiveEnvelope C parse opts now item)
     | Wire raw \<Rightarrow> map_proc Received (receiveEnvelope C parse opts now item))"

definition decoded_item ::
  "crypto \<Rightarrow> (jstr \<Rightarrow> json option) \<Rightarrow> 'w receive_options \<Rightarrow> int \<Rightarrow> receive_result \<Rightarrow> ('w, batch_result) proc" where
  "decoded_item C parse opts now d =
    (case (rr_ok d, rr_envelope d) of
       (True, Some e) \<Rightarrow> batch_item C parse opts now (Parsed e)
     | _ \<Rightarrow> Done (Some (Received d)))"

definition batch_items ::
  "crypto \<Rightarrow> (jstr \<Rightarrow> json option) \<Rightarrow> 'w receive_options \<Rightarrow> int \<Rightarrow> batch_input \<Rightarrow> ('w, batch_result) proc list" where
  "batch_items C parse opts now input =
    (case input of
       BatchText raw \<Rightarrow> map (decoded_item C parse opts now) (decodeEnvelopeBatch parse raw)
     | BatchItems items \<Rightarrow> map (batch_item C parse opts now) items)"

text \<open>
  \<open>Math.max(1, Math.floor(batchConcurrency ?? Infinity))\<close> workers, at most one per item.
  Each takes the next item when it is done with one (\<open>worker_step\<close> of \<open>Process\<close>).
\<close>

definition worker_count :: "jnum option \<Rightarrow> nat \<Rightarrow> nat" where
  "worker_count concurrency items =
    (case concurrency of
       Some (Fin n) \<Rightarrow> min (nat (max 1 n)) items
     | Some NegInf \<Rightarrow> min 1 items
     | _ \<Rightarrow> items)"

definition batch_summary :: "'w receive_options \<Rightarrow> int \<Rightarrow> batch_result list \<Rightarrow> ('w, batch_result list) proc" where
  "batch_summary opts now results =
    emit opts (BatchSummary now (length results) (length (filter result_ok results))) (Done (Some results))"

text \<open>The steps of the workers in the order of the schedule; then the summary, once every worker has ended. \<open>None\<close>: one has thrown, or the schedule stops before.\<close>

definition receiveEnvelopeBatch ::
  "crypto \<Rightarrow> (jstr \<Rightarrow> json option) \<Rightarrow> 'w receive_options \<Rightarrow> jnum option \<Rightarrow> int \<Rightarrow> batch_input \<Rightarrow> nat list \<Rightarrow> 'w \<Rightarrow> 'w \<times> batch_result list option" where
  "receiveEnvelopeBatch C parse opts concurrency now input schedule w =
    (let ps = batch_items C parse opts now input;
         b = foldl worker_step (start_batch (worker_count concurrency (length ps)) ps w) schedule
     in case batch_outcome b of
       None \<Rightarrow> (snd (b_pool b), None)
     | Some results \<Rightarrow> run (batch_summary opts now results) (snd (b_pool b)))"

section \<open>SessionTransport\<close>

text \<open>
  A session over in-memory caches. The resolvers and the telemetry have a state of their
  own, \<open>'s\<close>, and cannot reach the caches.
\<close>

record 's session =
  ss_replay :: replay_cache
  ss_cache :: material_cache
  ss_env :: 's

definition session_replay :: "'s session \<Rightarrow> header \<Rightarrow> int \<Rightarrow> 's session \<times> replay_result option" where
  "session_replay w h now = (let (c, r) = consume (ss_replay w) h now in (w\<lparr>ss_replay := c\<rparr>, r))"

definition session_get :: "'s session \<Rightarrow> jstr \<Rightarrow> int \<Rightarrow> 's session \<times> verification_material option" where
  "session_get w key now = (let (c, m) = material_get (ss_cache w) key now in (w\<lparr>ss_cache := c\<rparr>, m))"

definition session_set :: "'s session \<Rightarrow> jstr \<Rightarrow> verification_material \<Rightarrow> int \<Rightarrow> 's session" where
  "session_set w key m e = w\<lparr>ss_cache := material_set (ss_cache w) key m e\<rparr>"

definition on_env :: "('s \<Rightarrow> 's \<times> 'b) \<Rightarrow> 's session \<Rightarrow> 's session \<times> 'b" where
  "on_env f w = (let (v, r) = f (ss_env w) in (w\<lparr>ss_env := v\<rparr>, r))"

record 's session_config =
  sc_requireSignature :: "bool option"
  sc_maxClockSkewMs :: "int option"
  sc_secretResolver :: "('s \<Rightarrow> json option \<Rightarrow> jstr \<Rightarrow> 's \<times> jstr option option) option"
  sc_signatureResolver :: "'s resolver option"
  sc_telemetry :: "('s \<Rightarrow> telemetry_event \<Rightarrow> 's \<times> unit option) option"

definition session_options :: "'s session_config \<Rightarrow> 's session receive_options" where
  "session_options cfg =
    \<lparr>op_requireSignature = sc_requireSignature cfg, op_maxClockSkewMs = sc_maxClockSkewMs cfg,
     op_replayCache = Some session_replay, op_cacheGet = Some session_get, op_cacheSet = session_set,
     op_secretResolver = map_option (\<lambda>f w k s. on_env (\<lambda>v. f v k s) w) (sc_secretResolver cfg),
     op_signatureResolver = map_option (\<lambda>f w sg s. on_env (\<lambda>v. f v sg s) w) (sc_signatureResolver cfg),
     op_telemetry = map_option (\<lambda>f w ev. on_env (\<lambda>v. f v ev) w) (sc_telemetry cfg)\<rparr>"

definition new_session :: "nat \<Rightarrow> 's \<Rightarrow> 's session" where
  "new_session maxReplay v = \<lparr>ss_replay = new_replay_cache maxReplay, ss_cache = new_material_cache None, ss_env = v\<rparr>"

definition session_receive ::
  "crypto \<Rightarrow> (jstr \<Rightarrow> json option) \<Rightarrow> 's session_config \<Rightarrow> 's session \<Rightarrow> receive_input \<Rightarrow> int \<Rightarrow> 's session \<times> receive_result option" where
  "session_receive C parse cfg w input now = run (receiveEnvelope C parse (session_options cfg) now input) w"

definition session_receiveBatch ::
  "crypto \<Rightarrow> (jstr \<Rightarrow> json option) \<Rightarrow> 's session_config \<Rightarrow> 's session \<Rightarrow> batch_input \<Rightarrow> int \<Rightarrow> nat list \<Rightarrow> 's session \<times> batch_result list option" where
  "session_receiveBatch C parse cfg w input now schedule =
    receiveEnvelopeBatch C parse (session_options cfg) None now input schedule w"

definition createSignedMessage :: "crypto \<Rightarrow> create_input \<Rightarrow> jstr \<Rightarrow> jstr option \<Rightarrow> int \<Rightarrow> bytes \<Rightarrow> bytes \<Rightarrow> envelope option" where
  "createSignedMessage C i secret kid clock rnd6 rnd12 =
    (let (h, b) = createEnvelope i clock rnd6 rnd12 in
     signEnvelopeHmac C h b secret (case kid of None \<Rightarrow> js ''local-dev-key'' | Some k \<Rightarrow> k))"

end
