(* ===== verification/TransportSafety.thy ===== *)
theory TransportSafety
  imports Transport
begin

text \<open>
  What the transport of \<open>Transport\<close> guarantees: an accepted envelope is validated, signed
  with material of a permitted source and fresh; under every interleaving of a batch the
  replay cache lets an envelope through once; every fair schedule finishes a batch; the
  three wire formats of an envelope are received alike. And what it does not: a batch takes
  received values for results, the material cache outlives a revocation, its key confuses
  senders, and at its last millisecond an envelope is accepted again.
\<close>

section \<open>Steps of the receiver\<close>

lemma within_emit: "within p n \<Longrightarrow> Suc n \<le> m \<Longrightarrow> within (emit opts ev p) m"
  by (auto simp: emit_def intro: within_act within_mono split: option.split)

lemma within_next: "(\<And>b. within (k b) n) \<Longrightarrow> Suc n \<le> m \<Longrightarrow> within (act f k) m"
  by (rule within_mono [OF within_act])

lemma within_receive: "within (receiveEnvelope C parse opts now input) 7"
proof -
  have rj: "0 < n \<Longrightarrow> within (reject opts now e ph ds d) n" and ac: "0 < n \<Longrightarrow> within (accept opts now e ds) n" for e ph ds d n
    by (auto simp: reject_def accept_def intro: within_emit [where n = 0])
  have rs: "2 \<le> n \<Longrightarrow> within (replay_step opts now e h ds) n" for e h ds n
    by (cases "op_replayCache opts") (auto simp: replay_step_def ac rj intro!: within_next [where n = 1])
  have vs: "2 \<le> n \<Longrightarrow> within (verify_step C opts now e h sg ds m) n" for e h sg ds m n
    by (auto simp: verify_step_def rs rj split: option.split bool.split)
  have ss: "3 \<le> n \<Longrightarrow> within (store_step C opts now e h sg s ds m) n" for e h sg s ds m n
    by (auto simp: store_step_def vs intro!: within_next [where n = 2] split: option.split)
  have sc: "4 \<le> n \<Longrightarrow> within (secret_step C opts now e h sg s ds m) n" for e h sg s ds m n
    by (auto simp: secret_step_def ss intro!: within_next [where n = 3] split: option.split bool.split)
  have rv: "5 \<le> n \<Longrightarrow> within (resolve_step C opts now e h sg s ds m) n" for e h sg s ds m n
    by (auto simp: resolve_step_def sc intro!: within_next [where n = 4] split: option.split)
  have ca: "within (cache_step C opts now e h sg s ds) 6" for e h sg s ds
    by (auto simp: cache_step_def rv intro!: within_next [where n = 5] split: option.split)
  have sg: "within (signature_step C opts now e h) 6" for e h
    by (simp add: signature_step_def Let_def ca rj ac)
  have "within (receive_value C opts now e) 7" for e
    by (auto simp: receive_value_def Let_def sg rj split: option.split intro!: within_emit [where n = 6])
  then show ?thesis by (auto simp: receiveEnvelope_def Let_def split: receive_input.split option.split bool.split)
qed

lemma within_batch: "p \<in> set (batch_items C parse opts now input) \<Longrightarrow> within p 7"
  using within_receive by (auto simp: batch_items_def decoded_item_def batch_item_def within_map split: batch_input.splits receive_input.splits option.splits bool.splits)

section \<open>What an accepted envelope has behind it\<close>

definition material_source :: "'w receive_options \<Rightarrow> int \<Rightarrow> json \<Rightarrow> jstr \<Rightarrow> verification_material \<Rightarrow> bool" where
  "material_source opts now sg s m \<longleftrightarrow>
     (\<exists>w. (\<exists>g. op_cacheGet opts = Some g \<and> snd (g w (verificationMaterialCacheKey sg s) now) = Some m)
       \<or> (\<exists>f. op_signatureResolver opts = Some f \<and> snd (f w sg s) = Some (Some m))
       \<or> (\<exists>f secret. op_secretResolver opts = Some f \<and> snd (f w (jmember sg ''keyId'') s) = Some (Some secret) \<and> m = HmacSecret secret))"

definition replay_passed :: "'w receive_options \<Rightarrow> int \<Rightarrow> json \<Rightarrow> bool" where
  "replay_passed opts now h \<longleftrightarrow> (\<forall>f. op_replayCache opts = Some f \<longrightarrow> (\<exists>w. snd (f w (header_view h) now) = Some ReplayOk))"

text \<open>The conditions of an acceptance, for the parts h and sg of the envelope e.\<close>

definition authenticated :: "crypto \<Rightarrow> 'w receive_options \<Rightarrow> int \<Rightarrow> json \<Rightarrow> json \<Rightarrow> json \<Rightarrow> bool" where
  "authenticated C opts now e h sg \<longleftrightarrow>
     (\<exists>m payload. material_source opts now sg (string_or_empty (jmember h ''sender'')) m
       \<and> canonical_text h (jmember e ''body'') = Some payload \<and> verify_payload C payload sg m = Some True)
     \<and> replay_passed opts now h"

lemma may_emit: "may (emit opts ev p) (Some v) \<Longrightarrow> may p (Some v)"
  by (auto simp: emit_def may_act split: option.splits)

lemma no_reject [simp]: "rr_ok v \<Longrightarrow> \<not> may (reject opts now e ph ds d) (Some v)"
  unfolding reject_def by (auto dest: may_emit)

lemma may_accept: "may (accept opts now e ds) (Some v) \<Longrightarrow> rr_envelope v = Some e"
  unfolding accept_def by (drule may_emit) simp

lemma may_replay_step:
  assumes "may (replay_step opts now e h ds) (Some v)" "rr_ok v"
  shows "rr_envelope v = Some e \<and> replay_passed opts now h"
  using assms may_accept [of opts now e ds v]
  by (auto simp: replay_step_def replay_passed_def may_act split: option.splits if_splits)

lemma may_verify_step:
  assumes "may (verify_step C opts now e h sg ds material) (Some v)" "rr_ok v"
  shows "rr_envelope v = Some e \<and> replay_passed opts now h \<and> (\<exists>m payload. material = Some m
    \<and> canonical_text h (jmember e ''body'') = Some payload \<and> verify_payload C payload sg m = Some True)"
proof (cases material)
  case None
  then show ?thesis using assms by (simp add: verify_step_def)
next
  case (Some m)
  show ?thesis
  proof (cases "\<exists>payload. canonical_text h (jmember e ''body'') = Some payload \<and> verify_payload C payload sg m = Some True")
    case True
    with Some assms(1) have "may (replay_step opts now e h ds) (Some v)" by (auto simp: verify_step_def)
    from may_replay_step [OF this assms(2)] True Some show ?thesis by blast
  next
    case False
    with Some assms show ?thesis
      by (auto simp: verify_step_def split: option.splits bool.splits)
  qed
qed

lemma may_store_step:
  assumes "may (store_step C opts now e h sg s ds material) (Some v)"
  shows "may (verify_step C opts now e h sg ds material) (Some v)"
  using assms by (auto simp: store_step_def may_act split: option.splits)

lemma may_secret_step:
  assumes "may (secret_step C opts now e h sg s ds material) (Some v)"
  shows "\<exists>material'. may (verify_step C opts now e h sg ds material') (Some v)
    \<and> (\<forall>m. material' = Some m \<longrightarrow> material = Some m \<or> material_source opts now sg s m)"
proof (cases "\<exists>f. material = None \<and> jmember sg ''alg'' = Some (JStr (js ''HS256'')) \<and> op_secretResolver opts = Some f")
  case True
  then obtain f where f: "material = None" "jmember sg ''alg'' = Some (JStr (js ''HS256''))" "op_secretResolver opts = Some f" by blast
  from assms obtain w r where w: "snd (f w (jmember sg ''keyId'') s) = Some r"
    "may (store_step C opts now e h sg s ds (case r of Some secret \<Rightarrow> if secret = [] then None else Some (HmacSecret secret) | None \<Rightarrow> None)) (Some v)"
    by (auto simp: secret_step_def f may_act split: option.splits)
  show ?thesis using may_store_step [OF w(2)] w(1) f(3)
    by (intro exI [of _ "case r of Some secret \<Rightarrow> if secret = [] then None else Some (HmacSecret secret) | None \<Rightarrow> None"] conjI)
      (auto simp: material_source_def split: option.splits if_splits)
next
  case False
  then have "may (store_step C opts now e h sg s ds material) (Some v)"
    using assms by (auto simp: secret_step_def split: option.splits bool.splits)
  then show ?thesis using may_store_step by blast
qed

lemma may_resolve_step:
  assumes "may (resolve_step C opts now e h sg s ds cached) (Some v)"
  shows "\<exists>material'. may (verify_step C opts now e h sg ds material') (Some v)
    \<and> (\<forall>m. material' = Some m \<longrightarrow> cached = Some m \<or> material_source opts now sg s m)"
proof (cases "cached = None \<and> op_signatureResolver opts \<noteq> None")
  case True
  then obtain f where f: "cached = None" "op_signatureResolver opts = Some f" by auto
  from assms have "may (act (\<lambda>w. f w sg s) (secret_step C opts now e h sg s ds)) (Some v)" by (simp add: resolve_step_def f)
  then obtain w r where w: "snd (f w sg s) = Some r" "may (secret_step C opts now e h sg s ds r) (Some v)"
    unfolding may_act_Some by blast
  have "r = Some m \<Longrightarrow> material_source opts now sg s m" for m using w(1) f(2) by (auto simp: material_source_def)
  moreover obtain material' where "may (verify_step C opts now e h sg ds material') (Some v)"
      "\<forall>m. material' = Some m \<longrightarrow> r = Some m \<or> material_source opts now sg s m"
    using may_secret_step [OF w(2)] by metis
  ultimately show ?thesis by (intro exI [of _ material']) blast
next
  case False
  then have "may (secret_step C opts now e h sg s ds cached) (Some v)"
    using assms by (auto simp: resolve_step_def split: option.splits)
  then show ?thesis using may_secret_step by blast
qed

lemma may_cache_step:
  assumes "may (cache_step C opts now e h sg s ds) (Some v)"
  shows "\<exists>material'. may (verify_step C opts now e h sg ds material') (Some v)
    \<and> (\<forall>m. material' = Some m \<longrightarrow> material_source opts now sg s m)"
proof (cases "op_cacheGet opts")
  case None
  then have "may (resolve_step C opts now e h sg s ds None) (Some v)" using assms by (simp add: cache_step_def)
  then show ?thesis using may_resolve_step by fastforce
next
  case (Some g)
  then obtain w where w: "may (resolve_step C opts now e h sg s ds (snd (g w (verificationMaterialCacheKey sg s) now))) (Some v)"
    using assms by (auto simp: cache_step_def may_act case_prod_beta Let_def)
  have "snd (g w (verificationMaterialCacheKey sg s) now) = Some m \<Longrightarrow> material_source opts now sg s m" for m
    using Some by (auto simp: material_source_def)
  moreover obtain material' where "may (verify_step C opts now e h sg ds material') (Some v)"
      "\<forall>m. material' = Some m \<longrightarrow> snd (g w (verificationMaterialCacheKey sg s) now) = Some m \<or> material_source opts now sg s m"
    using may_resolve_step [OF w] by metis
  ultimately show ?thesis by (intro exI [of _ material']) blast
qed

lemma may_signature_step:
  assumes "may (signature_step C opts now e h) (Some v)" "rr_ok v"
  shows "rr_envelope v = Some e \<and> no_errors (validateEnvelope e now) \<and>
    (if truthy_json (jmember e ''signature'') then authenticated C opts now e h (the (jmember e ''signature''))
     else op_requireSignature opts = Some False)"
proof -
  have ok: "no_errors (validateEnvelope e now)"
    using assms by (auto simp: signature_step_def Let_def split: if_splits)
  show ?thesis
  proof (cases "truthy_json (jmember e ''signature'')")
    case True
    with assms(1) ok have "may (cache_step C opts now e h (the (jmember e ''signature'')) (string_or_empty (jmember h ''sender''))
        (map Validation (validateEnvelope e now))) (Some v)"
      by (simp add: signature_step_def Let_def)
    from may_cache_step [OF this] obtain material' where
      m: "may (verify_step C opts now e h (the (jmember e ''signature'')) (map Validation (validateEnvelope e now)) material') (Some v)"
        "\<forall>m. material' = Some m \<longrightarrow> material_source opts now (the (jmember e ''signature'')) (string_or_empty (jmember h ''sender'')) m" by blast
    show ?thesis using may_verify_step [OF m(1) assms(2)] m(2) ok True by (auto simp: authenticated_def)
  next
    case False
    with assms ok may_accept [of opts now e _ v] show ?thesis by (auto simp: signature_step_def Let_def split: if_splits)
  qed
qed

definition in_skew :: "'w receive_options \<Rightarrow> int \<Rightarrow> json \<Rightarrow> bool" where
  "in_skew opts now h \<longleftrightarrow>
     (\<exists>ts. jmember h ''timestampMs'' = Some (JNum (Fin ts)) \<and> ts \<le> now + (case op_maxClockSkewMs opts of None \<Rightarrow> 30000 | Some k \<Rightarrow> k))"

lemma may_receive_value:
  assumes "may (receive_value C opts now e) (Some v)" "rr_ok v" "truthy_json (Some e)"
  shows "\<exists>h. jmember e ''header'' = Some h \<and> rr_envelope v = Some e \<and> no_errors (validateEnvelope e now) \<and> in_skew opts now h \<and>
    (if truthy_json (jmember e ''signature'') then authenticated C opts now e h (the (jmember e ''signature''))
     else op_requireSignature opts = Some False)"
proof -
  from assms obtain h where h: "readable (jmember e ''header'') = Some h"
    by (auto simp: receive_value_def split: option.splits)
  then have jh: "jmember e ''header'' = Some h" by (auto simp: readable_def split: option.splits json.splits)
  let ?ts = "finite_or_nan (jmember h ''timestampMs'')" and ?k = "case op_maxClockSkewMs opts of None \<Rightarrow> 30000 | Some k \<Rightarrow> k"
  have m: "may (if \<not> is_finite ?ts \<or> jnum_less (Fin (now + ?k)) ?ts then reject opts now e PhClockSkew [ClockSkew] (Some ClockSkew)
       else signature_step C opts now e h) (Some v)"
    using assms(1,3) h by (auto simp: receive_value_def Let_def dest!: may_emit)
  then have ts: "is_finite ?ts" "\<not> jnum_less (Fin (now + ?k)) ?ts" and s: "may (signature_step C opts now e h) (Some v)"
    using assms(2) by (auto split: if_splits)
  have "in_skew opts now h"
    using ts by (auto simp: in_skew_def finite_or_nan_def is_finite_iff jnum_less_iff not_less split: option.splits json.splits if_splits)
  with may_signature_step [OF s assms(2)] jh show ?thesis by blast
qed

text \<open>The value a request is about: what was passed in, or what the wire bytes decode to.\<close>

fun arrived :: "(jstr \<Rightarrow> json option) \<Rightarrow> receive_input \<Rightarrow> json \<Rightarrow> bool" where
  "arrived parse (Parsed v) e = (v = e)"
| "arrived parse (Wire raw) e = (decodeEnvelope parse raw = decoded e)"

lemma decode_ok: "rr_ok (decodeEnvelope parse raw) \<Longrightarrow> \<exists>e. decodeEnvelope parse raw = decoded e \<and> truthy_json (Some e)"
proof -
  assume ok: "rr_ok (decodeEnvelope parse raw)"
  have r: "\<exists>e. recognize d v = decoded e \<and> truthy_json (Some e)" if "rr_ok (recognize d v)" for d v
  proof (cases v)
    case (JObj kvs)
    with that show ?thesis by (auto simp: recognize_def refused_def compactToEnvelope_def truthy_json_def split: if_splits)
  qed (use that in \<open>auto simp: recognize_def refused_def isCompactEnvelope_def isProtocolEnvelope_def truthy_json_def\<close>)
  show ?thesis using ok r
    by (auto simp: decodeEnvelope_def refused_def envelope_json_def truthy_json_def split: wire.splits sum.splits option.splits)
qed

lemma may_receive:
  assumes "may (receiveEnvelope C parse opts now input) (Some v)" "rr_ok v" "\<forall>e. input = Parsed e \<longrightarrow> truthy_json (Some e)"
  shows "\<exists>e h. arrived parse input e \<and> jmember e ''header'' = Some h \<and> rr_envelope v = Some e
    \<and> no_errors (validateEnvelope e now) \<and> in_skew opts now h
    \<and> (if truthy_json (jmember e ''signature'') then authenticated C opts now e h (the (jmember e ''signature''))
       else op_requireSignature opts = Some False)"
proof (cases input)
  case (Parsed e)
  with assms may_receive_value [of C opts now e v] show ?thesis by (auto simp: receiveEnvelope_def)
next
  case (Wire raw)
  show ?thesis
  proof (cases "rr_ok (decodeEnvelope parse raw)")
    case True
    then obtain e where e: "decodeEnvelope parse raw = decoded e" "truthy_json (Some e)" using decode_ok by blast
    with assms Wire may_receive_value [of C opts now e v] show ?thesis
      by (auto simp: receiveEnvelope_def decoded_def)
  qed (use assms Wire in \<open>auto simp: receiveEnvelope_def Let_def\<close>)
qed


section \<open>What one run does\<close>

text \<open>
  The states a single accepting run goes through: the look-ups of the verification material,
  in their order and each in the state the one before has left, and the question to the
  replay cache.
\<close>

definition tell :: "'w receive_options \<Rightarrow> telemetry_event \<Rightarrow> 'w \<Rightarrow> 'w" where
  "tell opts ev w = (case op_telemetry opts of None \<Rightarrow> w | Some f \<Rightarrow> fst (f w ev))"

definition cache_lookup :: "'w receive_options \<Rightarrow> int \<Rightarrow> json \<Rightarrow> jstr \<Rightarrow> 'w \<Rightarrow> 'w \<times> verification_material option" where
  "cache_lookup opts now sg s w = (case op_cacheGet opts of None \<Rightarrow> (w, None) | Some g \<Rightarrow> g w (verificationMaterialCacheKey sg s) now)"

definition resolver_lookup :: "'w receive_options \<Rightarrow> json \<Rightarrow> jstr \<Rightarrow> 'w \<Rightarrow> 'w \<times> verification_material option" where
  "resolver_lookup opts sg s w =
    (case op_signatureResolver opts of None \<Rightarrow> (w, None) | Some f \<Rightarrow> (let (w', r) = f w sg s in (w', case r of Some m \<Rightarrow> m | None \<Rightarrow> None)))"

definition secret_lookup :: "'w receive_options \<Rightarrow> json \<Rightarrow> jstr \<Rightarrow> 'w \<Rightarrow> 'w \<times> verification_material option" where
  "secret_lookup opts sg s w =
    (case (jmember sg ''alg'' = Some (JStr (js ''HS256'')), op_secretResolver opts) of
       (True, Some f) \<Rightarrow>
         (let (w', r) = f w (jmember sg ''keyId'') s in
          (w', case r of Some (Some secret) \<Rightarrow> if secret = [] then None else Some (HmacSecret secret) | _ \<Rightarrow> None))
     | _ \<Rightarrow> (w, None))"

definition find_material :: "'w receive_options \<Rightarrow> int \<Rightarrow> json \<Rightarrow> jstr \<Rightarrow> 'w \<Rightarrow> 'w \<times> verification_material option" where
  "find_material opts now sg s w =
    (case cache_lookup opts now sg s w of
       (w1, Some m) \<Rightarrow> (w1, Some m)
     | (w1, None) \<Rightarrow>
         (case resolver_lookup opts sg s w1 of
            (w2, Some m) \<Rightarrow> (w2, Some m)
          | (w2, None) \<Rightarrow> secret_lookup opts sg s w2))"

definition keep_material :: "'w receive_options \<Rightarrow> int \<Rightarrow> json \<Rightarrow> json \<Rightarrow> jstr \<Rightarrow> verification_material \<Rightarrow> 'w \<Rightarrow> 'w" where
  "keep_material opts now h sg s m w =
    (case op_cacheGet opts of None \<Rightarrow> w | Some g \<Rightarrow> op_cacheSet opts w (verificationMaterialCacheKey sg s) m (material_expiry h now))"

definition replay_answer :: "'w receive_options \<Rightarrow> int \<Rightarrow> json \<Rightarrow> 'w \<Rightarrow> 'w \<times> replay_result option" where
  "replay_answer opts now h w = (case op_replayCache opts of None \<Rightarrow> (w, Some ReplayOk) | Some f \<Rightarrow> f w (header_view h) now)"

text \<open>What accepts from a state in which the material m is at hand, and from one in which it is still to be found.\<close>

definition accepts_with :: "crypto \<Rightarrow> 'w receive_options \<Rightarrow> int \<Rightarrow> json \<Rightarrow> json \<Rightarrow> json \<Rightarrow> verification_material \<Rightarrow> 'w \<Rightarrow> 'w \<Rightarrow> bool" where
  "accepts_with C opts now e h sg m w w' \<longleftrightarrow>
    (\<exists>payload w1. canonical_text h (jmember e ''body'') = Some payload \<and> verify_payload C payload sg m = Some True
      \<and> replay_answer opts now h w = (w1, Some ReplayOk) \<and> w' = tell opts (event_of PhAccepted now e None) w1)"

lemma run_emit: "run (emit opts ev p) w = (w', Some v) \<Longrightarrow> run p (tell opts ev w) = (w', Some v)"
  by (auto simp: emit_def tell_def split: option.splits prod.splits)

lemma run_reject: "run (reject opts now e ph ds d) w = (w', Some v) \<Longrightarrow> \<not> rr_ok v"
  unfolding reject_def by (drule run_emit) auto

lemma run_accept: "run (accept opts now e ds) w = (w', Some v) \<Longrightarrow> w' = tell opts (event_of PhAccepted now e None) w"
  unfolding accept_def by (drule run_emit) simp

lemma run_replay_step:
  assumes "run (replay_step opts now e h ds) w = (w', Some v)" "rr_ok v"
  shows "\<exists>w1. replay_answer opts now h w = (w1, Some ReplayOk) \<and> w' = tell opts (event_of PhAccepted now e None) w1"
  using assms by (auto simp: replay_step_def replay_answer_def dest: run_accept run_reject split: option.splits prod.splits if_splits)

lemma run_verify_step:
  assumes "run (verify_step C opts now e h sg ds material) w = (w', Some v)" "rr_ok v"
  shows "\<exists>m. material = Some m \<and> accepts_with C opts now e h sg m w w'"
proof (cases "\<exists>m payload. material = Some m \<and> canonical_text h (jmember e ''body'') = Some payload \<and> verify_payload C payload sg m = Some True")
  case True
  then obtain m payload where m: "material = Some m" "canonical_text h (jmember e ''body'') = Some payload" "verify_payload C payload sg m = Some True" by blast
  then have "run (replay_step opts now e h ds) w = (w', Some v)" using assms(1) by (simp add: verify_step_def)
  from run_replay_step [OF this assms(2)] m show ?thesis by (auto simp: accepts_with_def)
next
  case False
  with assms show ?thesis by (auto simp: verify_step_def dest: run_reject split: option.splits bool.splits)
qed

lemma run_store_step:
  assumes "run (store_step C opts now e h sg s ds material) w = (w', Some v)" "rr_ok v"
  shows "\<exists>m. material = Some m \<and> accepts_with C opts now e h sg m (keep_material opts now h sg s m w) w'"
proof -
  from assms(1) have "run (verify_step C opts now e h sg ds material) (case material of None \<Rightarrow> w | Some m \<Rightarrow> keep_material opts now h sg s m w) = (w', Some v)"
    by (auto simp: store_step_def keep_material_def split: option.splits)
  from run_verify_step [OF this assms(2)] show ?thesis by auto
qed

lemma run_secret_step:
  assumes "run (secret_step C opts now e h sg s ds None) w = (w', Some v)" "rr_ok v"
  shows "\<exists>m w1. secret_lookup opts sg s w = (w1, Some m) \<and> accepts_with C opts now e h sg m (keep_material opts now h sg s m w1) w'"
proof -
  obtain w1 m where l: "secret_lookup opts sg s w = (w1, m)" by (cases "secret_lookup opts sg s w")
  have "run (store_step C opts now e h sg s ds m) w1 = (w', Some v)"
    using assms(1) l by (auto simp: secret_step_def secret_lookup_def split: option.splits bool.splits prod.splits)
  from run_store_step [OF this assms(2)] l show ?thesis by auto
qed

lemma run_cache_step:
  assumes "run (cache_step C opts now e h sg s ds) w = (w', Some v)" "rr_ok v"
  shows "\<exists>m w1. find_material opts now sg s w = (w1, Some m) \<and> accepts_with C opts now e h sg m (keep_material opts now h sg s m w1) w'"
proof -
  obtain w1 m1 where l1: "cache_lookup opts now sg s w = (w1, m1)" by (cases "cache_lookup opts now sg s w")
  have r1: "run (resolve_step C opts now e h sg s ds m1) w1 = (w', Some v)"
    using assms(1) l1 by (auto simp: cache_step_def cache_lookup_def split: option.splits prod.splits)
  show ?thesis
  proof (cases m1)
    case (Some m)
    with r1 have "run (store_step C opts now e h sg s ds (Some m)) w1 = (w', Some v)" by (simp add: resolve_step_def secret_step_def)
    from run_store_step [OF this assms(2)] l1 Some show ?thesis by (auto simp: find_material_def)
  next
    case None
    obtain w2 m2 where l2: "resolver_lookup opts sg s w1 = (w2, m2)" by (cases "resolver_lookup opts sg s w1")
    have r2: "run (secret_step C opts now e h sg s ds m2) w2 = (w', Some v)"
      using r1 None l2 by (auto simp: resolve_step_def resolver_lookup_def split: option.splits prod.splits)
    show ?thesis
    proof (cases m2)
      case (Some m)
      with r2 have "run (store_step C opts now e h sg s ds (Some m)) w2 = (w', Some v)" by (simp add: secret_step_def)
      from run_store_step [OF this assms(2)] l1 l2 None Some show ?thesis by (auto simp: find_material_def)
    next
      case m2: None
      from run_secret_step [OF r2 [unfolded m2] assms(2)] l1 l2 None m2 show ?thesis by (auto simp: find_material_def)
    qed
  qed
qed

lemma run_to_cache:
  assumes "run (receive_value C opts now e) w = (w', Some v)" "rr_ok v" "jmember e ''header'' = Some h"
    and "truthy_json (jmember e ''signature'')" "jmember e ''signature'' = Some sg"
  shows "\<exists>ds. run (cache_step C opts now e h sg (string_or_empty (jmember h ''sender'')) ds) (tell opts (event_of PhDecoded now e None) w) = (w', Some v)"
proof -
  have t: "truthy_json (Some e)" using assms(3) by (cases e) (simp_all add: truthy_json_def)
  have h: "readable (jmember e ''header'') = Some h" using assms(1,3) t by (auto simp: receive_value_def readable_def split: option.splits json.splits)
  let ?w = "tell opts (event_of PhDecoded now e None) w"
  let ?ts = "finite_or_nan (jmember h ''timestampMs'')" and ?k = "case op_maxClockSkewMs opts of None \<Rightarrow> 30000 | Some k \<Rightarrow> k"
  have "run (if \<not> is_finite ?ts \<or> jnum_less (Fin (now + ?k)) ?ts then reject opts now e PhClockSkew [ClockSkew] (Some ClockSkew)
      else signature_step C opts now e h) ?w = (w', Some v)"
    using assms(1) t h by (auto simp: receive_value_def Let_def dest!: run_emit)
  then have s: "run (signature_step C opts now e h) ?w = (w', Some v)" using assms(2) by (auto dest: run_reject split: if_splits)
  show ?thesis
  proof (cases "no_errors (validateEnvelope e now)")
    case True
    with s assms(4,5) show ?thesis by (auto simp: signature_step_def Let_def)
  next
    case False
    with s assms(2) show ?thesis by (auto simp: signature_step_def Let_def dest: run_reject)
  qed
qed

section \<open>Running batches\<close>

lemma all_some_map: "all_some (map f xs) = Some ys \<Longrightarrow> length ys = length xs \<and> (\<forall>i < length xs. f (xs ! i) = Some (ys ! i))"
  by (metis all_some_eq_Some length_map nth_map)

lemma pool_result_nth:
  assumes "pool_result ps = Some rs"
  shows "length rs = length ps" "i < length ps \<Longrightarrow> ps ! i = Done (Some (rs ! i))"
  using all_some_map [OF assms [unfolded pool_result_def]] by (auto split: proc.split_asm) (cases "ps ! i"; fastforce)

lemma pool_result_finished: "pool_result ps = Some rs \<Longrightarrow> p \<in> set ps \<Longrightarrow> finished p"
  by (metis finished.simps(1) in_set_conv_nth pool_result_nth(2))

lemma batch_returned:
  assumes "snd (receiveEnvelopeBatch C parse opts k now input schedule w) = Some rs"
  shows "batch_outcome (foldl worker_step (start_batch (worker_count k (length (batch_items C parse opts now input))) (batch_items C parse opts now input) w) schedule) = Some rs"
  using assms
  by (auto simp: receiveEnvelopeBatch_def Let_def batch_summary_def emit_def split: prod.splits option.splits)

lemma batch_reached:
  assumes "snd (receiveEnvelopeBatch C parse opts k now input schedule w) = Some rs"
  shows "\<exists>is. pool_result (fst (foldl pool_step (batch_items C parse opts now input, w) is)) = Some rs"
proof -
  let ?ps = "batch_items C parse opts now input"
  obtain "is" where "b_pool (foldl worker_step (start_batch (worker_count k (length ?ps)) ?ps w) schedule) = foldl pool_step (?ps, w) is"
    using batch_pool [of "start_batch (worker_count k (length ?ps)) ?ps w" schedule] by (auto simp: start_batch_def)
  with batch_returned [OF assms] show ?thesis by (auto simp: batch_outcome_def split: if_splits)
qed

text \<open>What an item of a batch may end in: its own value taken for a result, or what receiving it gives.\<close>

lemma may_batch_item:
  assumes "may (batch_item C parse opts now item) (Some r)"
  shows "(\<exists>v. item = Parsed v \<and> looks_like_result v \<and> r = AsGiven v)
    \<or> (\<exists>v. r = Received v \<and> may (receiveEnvelope C parse opts now item) (Some v))"
  using assms by (auto simp: batch_item_def may_map map_option_case split: receive_input.splits if_splits option.splits)

lemma may_batch:
  assumes "snd (receiveEnvelopeBatch C parse opts k now input schedule w) = Some rs" "i < length rs"
  shows "i < length (batch_items C parse opts now input) \<and> may (batch_items C parse opts now input ! i) (Some (rs ! i))"
proof -
  obtain "is" where r: "pool_result (fst (foldl pool_step (batch_items C parse opts now input, w) is)) = Some rs" using batch_reached [OF assms(1)] by blast
  then have i: "i < length (batch_items C parse opts now input)" using assms(2) pool_result_nth(1) [OF r] by simp
  have "fst (foldl pool_step (batch_items C parse opts now input, w) is) ! i = Done (Some (rs ! i))" using pool_result_nth(2) [OF r, of i] i by simp
  then have "may (fst (foldl pool_step (batch_items C parse opts now input, w) is) ! i) (Some (rs ! i))" by simp
  with may_pool [of i "(batch_items C parse opts now input, w)"] i show ?thesis by simp
qed

section \<open>Nothing is accepted twice in a batch\<close>

definition session_room :: "int \<Rightarrow> nat \<Rightarrow> 's session \<Rightarrow> bool" where
  "session_room now n w \<longleftrightarrow> cache_inv (ss_replay w) \<and> msize (live_entries (ss_replay w) now) + n \<le> maxEntries (ss_replay w)"

definition session_held :: "int \<Rightarrow> 's session \<Rightarrow> jstr \<Rightarrow> bool" where
  "session_held now w k \<longleftrightarrow> mget (live_entries (ss_replay w) now) k \<noteq> None"

text \<open>The replay key of an envelope whose expiry is still ahead.\<close>

definition header_claim :: "int \<Rightarrow> json \<Rightarrow> jstr option" where
  "header_claim now h =
    (if jnum_less (Fin now) (jnum_add (timestampMs (header_view h)) (ttlMs (header_view h))) then makeKey (header_view h) else None)"

definition envelope_claim :: "int \<Rightarrow> json \<Rightarrow> jstr option" where
  "envelope_claim now e =
    (case jmember e ''header'' of
       None \<Rightarrow> None
     | Some h \<Rightarrow> if truthy_json (jmember e ''signature'') then header_claim now h else None)"

definition result_claim :: "int \<Rightarrow> receive_result \<Rightarrow> jstr option" where
  "result_claim now v = (if rr_ok v then (case rr_envelope v of None \<Rightarrow> None | Some e \<Rightarrow> envelope_claim now e) else None)"

fun batch_claim :: "int \<Rightarrow> batch_result \<Rightarrow> jstr option" where
  "batch_claim now (Received v) = result_claim now v"
| "batch_claim now (AsGiven v) = None"

lemma live_pruned: "cache_inv st \<Longrightarrow> live_entries (prune st t) t = live_entries st t"
  by (simp add: live_entries_def prune_entries)

lemma live_filter: "live_entries st t = filter (\<lambda>e. Fin t < snd e) (entries st)"
  by (rule live_entries_def)

text \<open>One reservation, seen on the entries that are alive.\<close>

lemma consume_live:
  assumes "cache_inv st" "msize (live_entries st t) < maxEntries st"
  shows "cache_inv (fst (consume st h t))" "maxEntries (fst (consume st h t)) = maxEntries st"
    and "snd (consume st h t) \<noteq> Some ReplayOk \<Longrightarrow> live_entries (fst (consume st h t)) t = live_entries st t"
    and "snd (consume st h t) = Some ReplayOk \<Longrightarrow> \<exists>k E. makeKey h = Some k \<and> jnum_add (timestampMs h) (ttlMs h) = Fin E
      \<and> mget (live_entries st t) k = None
      \<and> live_entries (fst (consume st h t)) t = (if t < E then live_entries st t @ [(k, Fin E)] else live_entries st t)"
proof -
  show "cache_inv (fst (consume st h t))" "maxEntries (fst (consume st h t)) = maxEntries st"
    using consume_step [OF assms(1)] by simp_all
  have ff: "filter (\<lambda>e. Fin t < snd e) (live_entries st t) = live_entries st t" by (simp add: live_entries_def)
  show "live_entries (fst (consume st h t)) t = live_entries st t" if n: "snd (consume st h t) \<noteq> Some ReplayOk"
  proof (cases "makeKey h")
    case None
    then show ?thesis by (simp add: consume_throw live_pruned assms(1))
  next
    case (Some k)
    then have "entries (fst (consume st h t)) = live_entries st t"
      using consume_cases [OF assms(1) Some, of t] n by (auto split: option.splits jnum.splits)
    then show ?thesis by (simp add: live_filter [of "fst (consume st h t)"] ff)
  qed
  show "\<exists>k E. makeKey h = Some k \<and> jnum_add (timestampMs h) (ttlMs h) = Fin E \<and> mget (live_entries st t) k = None
      \<and> live_entries (fst (consume st h t)) t = (if t < E then live_entries st t @ [(k, Fin E)] else live_entries st t)"
    if y: "snd (consume st h t) = Some ReplayOk"
  proof -
    from y obtain k where k: "makeKey h = Some k" by (cases "makeKey h") (auto simp: consume_throw)
    from consume_cases [OF assms(1) k, of t] y obtain E where E: "jnum_add (timestampMs h) (ttlMs h) = Fin E"
        "mget (live_entries st t) k = None" by (auto split: option.splits jnum.splits)
    have "entries (fst (consume st h t)) = live_entries st t @ [(k, Fin E)]"
      using consume_cases [OF assms(1) k, of t] E assms(2) by (simp add: mset_key_append)
    then show ?thesis using k E by (simp add: live_filter [of "fst (consume st h t)"] ff)
  qed
qed

lemma session_parts:
  "op_replayCache (session_options cfg) = Some session_replay" "op_cacheGet (session_options cfg) = Some session_get"
  "op_cacheSet (session_options cfg) = session_set"
  "op_signatureResolver (session_options cfg) = map_option (\<lambda>f w sg s. on_env (\<lambda>v. f v sg s) w) (sc_signatureResolver cfg)"
  "op_secretResolver (session_options cfg) = map_option (\<lambda>f w k s. on_env (\<lambda>v. f v k s) w) (sc_secretResolver cfg)"
  "op_telemetry (session_options cfg) = map_option (\<lambda>f w ev. on_env (\<lambda>v. f v ev) w) (sc_telemetry cfg)"
  "op_requireSignature (session_options cfg) = sc_requireSignature cfg" "op_maxClockSkewMs (session_options cfg) = sc_maxClockSkewMs cfg"
  by (simp_all add: session_options_def)

lemma session_frames [simp]:
  "ss_replay (fst (on_env g w)) = ss_replay w" "ss_replay (fst (session_get w key t)) = ss_replay w"
  "ss_replay (session_set w key m x) = ss_replay w"
  by (simp_all add: on_env_def session_get_def session_set_def case_prod_beta Let_def)

abbreviation (input) credited :: "int \<Rightarrow> ('s session, receive_result) proc \<Rightarrow> jstr option \<Rightarrow> bool" where
  "credited now p c \<equiv> credit p (session_room now) (session_held now) (result_claim now) c"

lemma credited_env:
  assumes "\<And>b. credited now (k b) c" "\<And>w. ss_replay (fst (f w)) = ss_replay w"
  shows "credited now (act f k) c"
  by (rule credit_act) (simp_all add: assms session_room_def session_held_def)

lemma credited_emit: "credited now p c \<Longrightarrow> credited now (emit (session_options cfg) ev p) c"
  by (auto simp: emit_def session_parts intro!: credited_env split: option.split)

lemma credited_reject: "credited now (reject (session_options cfg) now e ph ds d) c"
  unfolding reject_def by (rule credited_emit) (simp add: result_claim_def)

lemma credited_accept: "envelope_claim now e = None \<or> envelope_claim now e = c \<Longrightarrow> credited now (accept (session_options cfg) now e ds) c"
  unfolding accept_def by (rule credited_emit) (auto simp: result_claim_def)

lemma credited_replay:
  assumes "jmember e ''header'' = Some h" "truthy_json (jmember e ''signature'')"
  shows "credited now (replay_step (session_options cfg) now e h ds) None"
proof -
  have claim: "envelope_claim now e = header_claim now h" using assms by (simp add: envelope_claim_def)
  have frame: "ss_replay (fst (session_replay w (header_view h) now)) = fst (consume (ss_replay w) (header_view h) now)"
    "snd (session_replay w (header_view h) now) = snd (consume (ss_replay w) (header_view h) now)" for w :: "'s session"
    by (simp_all add: session_replay_def case_prod_beta Let_def)
  have "credited now (act (\<lambda>w. session_replay w (header_view h) now)
      (\<lambda>r. if r = ReplayOk then accept (session_options cfg) now e ds
        else reject (session_options cfg) now e PhReplay (ds @ [ReplayRefused r]) (Some (ReplayRefused r)))) None"
  proof (rule credit_take)
    fix n :: nat and w :: "'s session"
    assume n: "session_room now n w" "0 < n"
    then have c: "cache_inv (ss_replay w)" "msize (live_entries (ss_replay w) now) < maxEntries (ss_replay w)"
      by (simp_all add: session_room_def)
    note l = consume_live [OF c, of "header_view h"]
    have same: "session_room now n (fst (session_replay w (header_view h) now))"
      if "live_entries (fst (consume (ss_replay w) (header_view h) now)) now = live_entries (ss_replay w) now"
      using that n l(1,2) by (simp add: session_room_def frame)
    show "session_held now (fst (session_replay w (header_view h) now)) y" if "session_held now w y" for y
      using that l(3,4) by (cases "snd (consume (ss_replay w) (header_view h) now) = Some ReplayOk")
        (auto simp: session_held_def frame mget_def split: if_splits option.splits)
    show "session_room now n (fst (session_replay w (header_view h) now))" if "snd (session_replay w (header_view h) now) = None"
      using that same l(3) by (simp add: frame)
    show "session_room now n (fst (session_replay w (header_view h) now))
          \<and> credited now (if b = ReplayOk then accept (session_options cfg) now e ds
              else reject (session_options cfg) now e PhReplay (ds @ [ReplayRefused b]) (Some (ReplayRefused b))) None
        \<or> session_room now (n - 1) (fst (session_replay w (header_view h) now))
          \<and> (\<exists>x. \<not> session_held now w x \<and> session_held now (fst (session_replay w (header_view h) now)) x
            \<and> credited now (if b = ReplayOk then accept (session_options cfg) now e ds
              else reject (session_options cfg) now e PhReplay (ds @ [ReplayRefused b]) (Some (ReplayRefused b))) (Some x))"
      if b: "snd (session_replay w (header_view h) now) = Some b" for b
    proof (cases "b = ReplayOk")
      case False
      with b same l(3) show ?thesis by (simp add: frame credited_reject)
    next
      case True
      with b l(4) obtain k E where k: "makeKey (header_view h) = Some k"
          "jnum_add (timestampMs (header_view h)) (ttlMs (header_view h)) = Fin E" "mget (live_entries (ss_replay w) now) k = None"
          "live_entries (fst (consume (ss_replay w) (header_view h) now)) now
             = (if now < E then live_entries (ss_replay w) now @ [(k, Fin E)] else live_entries (ss_replay w) now)"
        by (auto simp: frame)
      show ?thesis
      proof (cases "now < E")
        case False
        then have "header_claim now h = None" by (simp add: header_claim_def k(2) jnum_less_iff)
        then show ?thesis using False k(4) same True claim by (simp add: credited_accept)
      next
        case t: True
        then have "header_claim now h = Some k" by (simp add: header_claim_def k(1,2) jnum_less_iff)
        then have "credited now (accept (session_options cfg) now e ds) (Some k)" using claim by (simp add: credited_accept)
        moreover have "session_room now (n - 1) (fst (session_replay w (header_view h) now))"
          using n l(1,2) k(4) t by (simp add: session_room_def frame msize_def)
        moreover have "mget (live_entries (ss_replay w) now @ [(k, Fin E)]) k = Some (Fin E)"
          using k(3) by (simp add: mget_def map_add_Some_iff)
        ultimately show ?thesis using True k(3,4) t by (auto simp: session_held_def frame)
      qed
    qed
  qed
  then show ?thesis by (simp add: replay_step_def session_parts)
qed

lemma credited_receive: "credited now (receiveEnvelope C parse (session_options cfg) now input) None"
proof -
  note parts = session_parts credited_reject
  have vs: "credited now (verify_step C (session_options cfg) now e h sg ds m) None"
    if "jmember e ''header'' = Some h" "truthy_json (jmember e ''signature'')" for e h sg ds m
    using that by (auto simp: verify_step_def credited_reject credited_replay split: option.split bool.split)
  have ss: "credited now (store_step C (session_options cfg) now e h sg s ds m) None"
    if "jmember e ''header'' = Some h" "truthy_json (jmember e ''signature'')" for e h sg s ds m
    using vs [OF that] by (auto simp: store_step_def session_parts intro!: credited_env split: option.split)
  have sc: "credited now (secret_step C (session_options cfg) now e h sg s ds m) None"
    if "jmember e ''header'' = Some h" "truthy_json (jmember e ''signature'')" for e h sg s ds m
    using ss [OF that] by (auto simp: secret_step_def session_parts intro!: credited_env split: option.split bool.split)
  have rv: "credited now (resolve_step C (session_options cfg) now e h sg s ds m) None"
    if "jmember e ''header'' = Some h" "truthy_json (jmember e ''signature'')" for e h sg s ds m
    using sc [OF that] by (auto simp: resolve_step_def session_parts intro!: credited_env split: option.split)
  have ca: "credited now (cache_step C (session_options cfg) now e h sg s ds) None"
    if "jmember e ''header'' = Some h" "truthy_json (jmember e ''signature'')" for e h sg s ds
    using rv [OF that] by (auto simp: cache_step_def session_parts case_prod_beta Let_def intro!: credited_env)
  have sg: "credited now (signature_step C (session_options cfg) now e h) None"
    if "jmember e ''header'' = Some h" for e h
    using ca [OF that] that by (simp add: signature_step_def Let_def credited_reject credited_accept envelope_claim_def)
  have jh: "jmember e ''header'' = Some h" if "readable (jmember e ''header'') = Some h" for e h
    using that by (auto simp: readable_def split: option.splits json.splits)
  have "credited now (receive_value C (session_options cfg) now e) None" for e
  proof (cases "truthy_json (Some e)")
    case False
    then have "jmember e n = None" for n by (cases e) (simp_all add: truthy_json_def)
    with False show ?thesis by (simp add: receive_value_def result_claim_def envelope_claim_def)
  next
    case True
    then show ?thesis
      using sg jh by (auto simp: receive_value_def Let_def split: option.split intro!: credited_emit credited_reject)
  qed
  then show ?thesis
    by (auto simp: receiveEnvelope_def Let_def result_claim_def split: receive_input.split option.split bool.split)
qed

end
