(* ===== verification/TransportProps.thy ===== *)
theory TransportProps
  imports TransportSafety
begin

text \<open>
  The properties of the transport, from the lemmas of \<open>TransportSafety\<close>, each with a concrete
  instance; and how a session receives a typed envelope, step by step.
\<close>

section \<open>Acceptance\<close>

text \<open>C11 What \<open>receiveEnvelope\<close> accepts from the wire with signatures required has arrived in those bytes, passes validation and is within the clock skew; in this very run the material cache, the signature resolver or the secret resolver, asked in this order for this signature and sender, gave material under which the signature verifies over the canonical text; and the replay cache, asked after that for this header, let it through in the state the run had come to. The state it ends in is the one the replay cache left, but for the telemetry. (A batch skips all this for a value in the form of a result.)\<close>

theorem transport_accepts_sound:
  assumes "run (receiveEnvelope C parse opts now (Wire raw)) w = (w', Some v)" "rr_ok v" "op_requireSignature opts \<noteq> Some False"
  shows "\<exists>e h sg m payload w1 w2. decodeEnvelope parse raw = decoded e \<and> rr_envelope v = Some e
    \<and> jmember e ''header'' = Some h \<and> jmember e ''signature'' = Some sg
    \<and> no_errors (validateEnvelope e now) \<and> in_skew opts now h
    \<and> find_material opts now sg (string_or_empty (jmember h ''sender'')) (tell opts (event_of PhDecoded now e None) w) = (w1, Some m)
    \<and> canonical_text h (jmember e ''body'') = Some payload \<and> verify_payload C payload sg m = Some True
    \<and> replay_answer opts now h (keep_material opts now h sg (string_or_empty (jmember h ''sender'')) m w1) = (w2, Some ReplayOk)
    \<and> w' = tell opts (event_of PhAccepted now e None) w2"
proof -
  have "snd (run (receiveEnvelope C parse opts now (Wire raw)) w) = Some v" using assms(1) by simp
  then have "may (receiveEnvelope C parse opts now (Wire raw)) (Some v)" by (metis may_run)
  from may_receive [OF this assms(2)] obtain e h where e: "arrived parse (Wire raw) e" "jmember e ''header'' = Some h" "rr_envelope v = Some e"
      "no_errors (validateEnvelope e now)" "in_skew opts now h"
      "if truthy_json (jmember e ''signature'') then authenticated C opts now e h (the (jmember e ''signature'')) else op_requireSignature opts = Some False"
    by blast
  from e(6) assms(3) have t: "truthy_json (jmember e ''signature'')" by (auto split: if_splits)
  then obtain sg where sg: "jmember e ''signature'' = Some sg" by (cases "jmember e ''signature''") (simp_all add: truthy_json_def)
  have d: "decodeEnvelope parse raw = decoded e" using e(1) by simp
  have r: "run (receive_value C opts now e) w = (w', Some v)" using assms(1) by (simp add: receiveEnvelope_def d decoded_def Let_def)
  let ?s = "string_or_empty (jmember h ''sender'')" and ?w = "tell opts (event_of PhDecoded now e None) w"
  have "\<exists>ds. run (cache_step C opts now e h sg ?s ds) ?w = (w', Some v)"
    by (rule run_to_cache [OF r assms(2) e(2) t sg])
  then obtain ds where "run (cache_step C opts now e h sg ?s ds) ?w = (w', Some v)" ..
  from run_cache_step [OF this assms(2)] obtain m w1 where m: "find_material opts now sg ?s ?w = (w1, Some m)"
    "accepts_with C opts now e h sg m (keep_material opts now h sg ?s m w1) w'" by blast
  with d e(2-5) sg show ?thesis unfolding accepts_with_def by blast
qed

text \<open>The workers of a batch cannot accept an envelope twice: whatever the order of their steps and however many there are, two different results of one batch that accept signed envelopes still ahead of their expiry differ in sender, message id or nonce, when the replay cache has room for the batch.\<close>

theorem batch_single_use:
  assumes "snd (receiveEnvelopeBatch C parse (session_options cfg) workers now input schedule w) = Some rs"
    and "session_room now (length rs) w" "i < length rs" "j < length rs" "i \<noteq> j" "batch_claim now (rs ! i) = Some k"
  shows "batch_claim now (rs ! j) \<noteq> Some k"
proof -
  let ?ps = "batch_items C parse (session_options cfg) now input"
  obtain "is" where r: "pool_result (fst (foldl pool_step (?ps, w) is)) = Some rs" using batch_reached [OF assms(1)] by blast
  note n = pool_result_nth [OF r]
  have item: "credit (batch_item C parse (session_options cfg) now x) (session_room now) (session_held now) (batch_claim now) None" for x
  proof -
    have "credit (map_proc Received (receiveEnvelope C parse (session_options cfg) now x)) (session_room now) (session_held now) (batch_claim now) None"
      by (rule credit_map) (simp add: credited_receive)
    then show ?thesis by (auto simp: batch_item_def split: receive_input.split)
  qed
  have c: "\<forall>p \<in> set ?ps. credit p (session_room now) (session_held now) (batch_claim now) None"
    using item by (auto simp: batch_items_def decoded_item_def result_claim_def split: batch_input.splits option.splits bool.splits)
  show ?thesis
    by (rule claims_distinct [OF _ c, of w "is" i "rs ! i" j "rs ! j" k])
      (use assms(2-6) n in simp_all)
qed

text \<open>C35 Every fair schedule ends a batch: after ten rounds for each item, a round giving every worker a turn in any order, all workers have ended, however many there are and whatever the resolvers and caches answer; and then either an item that was taken has thrown, which rejects the batch, or every item has its result.\<close>

theorem batch_finishes:
  assumes "\<forall>r \<in> set rounds. {..<worker_count workers (length (batch_items C parse opts now input))} \<subseteq> set r"
    and "10 * length (batch_items C parse opts now input) \<le> length rounds"
  shows "let b = foldl worker_step (start_batch (worker_count workers (length (batch_items C parse opts now input))) (batch_items C parse opts now input) w) (concat rounds)
    in all_ended b \<and> (thrown b \<or> (\<exists>rs. batch_outcome b = Some rs \<and> length rs = length (batch_items C parse opts now input)))"
proof -
  let ?ps = "batch_items C parse opts now input" let ?c = "worker_count workers (length ?ps)"
  let ?b = "foldl worker_step (start_batch ?c ?ps w) (concat rounds)"
  have c: "?c \<le> length ?ps" "?ps \<noteq> [] \<Longrightarrow> 0 < ?c" by (auto simp: worker_count_def split: option.split jnum.split)
  have "all_ended ?b" by (rule fair_ends [where n = 7]) (use within_batch assms c in auto)
  moreover have "batch_ok ?b" by (rule worker_run_ok [OF batch_ok_start])
  moreover have len: "length (fst (b_pool ?b)) = length ?ps"
    using batch_pool [of "start_batch ?c ?ps w" "concat rounds"] by (auto simp: start_batch_def)
  moreover have "b_workers ?b \<noteq> [] \<or> fst (b_pool ?b) = []"
  proof (cases "?ps = []")
    case False
    have "length (b_workers ?b) = ?c" unfolding workers_length by (simp add: start_batch_def)
    with c(2) [OF False] have "0 < length (b_workers ?b)" by argo
    then show ?thesis unfolding length_greater_0_conv by (rule disjI1)
  qed (use len in simp)
  ultimately show ?thesis unfolding Let_def using ended_outcome [of ?b] by simp
qed

text \<open>With one worker a batch is sequential: whatever the schedule, once the batch returns its results are those of receiving the items one after the other, each on the world the one before has left.\<close>

theorem one_worker_sequential:
  assumes "snd (receiveEnvelopeBatch C parse opts (Some (Fin 1)) now input schedule w) = Some rs"
  shows "snd (in_turn (batch_items C parse opts now input) w) = map Some rs"
proof -
  let ?ps = "batch_items C parse opts now input"
  note b = batch_returned [OF assms]
  show ?thesis
  proof (cases "?ps = []")
    case True
    obtain "is" where "pool_result (fst (foldl pool_step (?ps, w) is)) = Some rs" using batch_reached [OF assms] by blast
    from pool_result_nth(1) [OF this] True show ?thesis by simp
  next
    case False
    then have "worker_count (Some (Fin 1)) (length ?ps) = 1" by (cases ?ps) (simp_all add: worker_count_def)
    from one_worker [OF b [unfolded this]] show ?thesis by simp
  qed
qed

section \<open>A batch takes values for results\<close>

definition forged :: "json \<Rightarrow> json" where
  "forged e = JObj [(js ''header'', JObj []), (js ''body'', JObj []), (js ''ok'', JBool True), (js ''diagnostics'', JArr []), (js ''envelope'', e)]"

text \<open>A batch is a way around every check: for any value e, a batch text whose item has an empty header and body and the members ok, diagnostics and envelope e is answered with an acceptance of e, with no signature, validation or replay check, whatever the options say, once its worker has taken the item, finished it and found no other.\<close>

theorem batch_accepts_forged:
  assumes "parse raw = Some (JArr [forged e])" "op_telemetry opts = None"
  shows "\<exists>r. receiveEnvelopeBatch C parse opts workers now (BatchText raw) [0, 0, 0] w = (w, Some [r])
    \<and> result_ok r \<and> result_envelope r = Some e"
proof -
  have m: "jmember (forged e) ''v'' = None" "jmember (forged e) ''header'' = Some (JObj [])" "jmember (forged e) ''body'' = Some (JObj [])"
    "jmember (forged e) ''ok'' = Some (JBool True)" "jmember (forged e) ''diagnostics'' = Some (JArr [])" "jmember (forged e) ''envelope'' = Some e"
    by (simp_all add: forged_def)
  have d: "decodeEnvelopeBatch parse raw = [decoded (forged e)]"
    by (simp add: decodeEnvelopeBatch_def assms(1) recognize_def isCompactEnvelope_def isProtocolEnvelope_def m truthy_json_def)
  have i: "batch_items C parse opts now (BatchText raw) = [Done (Some (AsGiven (forged e)))]"
    by (simp add: batch_items_def d decoded_item_def decoded_def batch_item_def looks_like_result_def m)
  have c: "worker_count workers (Suc 0) = Suc 0" by (auto simp: worker_count_def split: option.split jnum.split)
  show ?thesis
    by (simp add: receiveEnvelopeBatch_def i c start_batch_def worker_step_def take_item_def work_on_def batch_outcome_def all_ended_def
        pool_result_def batch_summary_def emit_def assms(2) m truthy_json_def Let_def)
qed

theorem batch_accepts_forged_witness:
  "\<exists>r. receiveEnvelopeBatch demo_crypto (\<lambda>s. Some (JArr [forged (JStr (js ''anything''))]))
      (session_options \<lparr>sc_requireSignature = Some True, sc_maxClockSkewMs = None, sc_secretResolver = None, sc_signatureResolver = None, sc_telemetry = None\<rparr>)
      None 0 (BatchText (js ''[]'')) [0, 0, 0] (new_session 10 ()) = (new_session 10 (), Some [r])
    \<and> result_ok r \<and> result_envelope r = Some (JStr (js ''anything''))"
  by (rule batch_accepts_forged) (simp_all add: session_options_def)

section \<open>How a session receives a typed envelope\<close>

text \<open>The session's options without telemetry: every step is one of the caches or a resolver.\<close>

definition quiet :: "'s session_config \<Rightarrow> bool" where
  "quiet cfg \<longleftrightarrow> sc_telemetry cfg = None \<and> sc_maxClockSkewMs cfg = None"

lemma quiet_emit [simp]: "quiet cfg \<Longrightarrow> emit (session_options cfg) ev p = p"
  by (simp add: quiet_def emit_def session_parts)

lemma quiet_reject [simp]:
  "quiet cfg \<Longrightarrow> reject (session_options cfg) now e ph ds d = Done (Some \<lparr>rr_ok = False, rr_diagnostics = ds, rr_envelope = Some e\<rparr>)"
  and quiet_accept [simp]: "quiet cfg \<Longrightarrow> accept (session_options cfg) now e ds = Done (Some \<lparr>rr_ok = True, rr_diagnostics = ds, rr_envelope = Some e\<rparr>)"
  by (simp_all add: reject_def accept_def)

lemma run_replay:
  assumes "quiet cfg"
  shows "run (replay_step (session_options cfg) now e h ds) w =
    (w\<lparr>ss_replay := fst (consume (ss_replay w) (header_view h) now)\<rparr>,
     map_option (\<lambda>r. if r = ReplayOk then \<lparr>rr_ok = True, rr_diagnostics = ds, rr_envelope = Some e\<rparr>
         else \<lparr>rr_ok = False, rr_diagnostics = ds @ [ReplayRefused r], rr_envelope = Some e\<rparr>)
       (snd (consume (ss_replay w) (header_view h) now)))"
  using assms by (auto simp: replay_step_def session_parts session_replay_def case_prod_beta Let_def split: option.split)

lemma run_verify:
  assumes "quiet cfg" "canonical_text h (jmember e ''body'') = Some payload" "verify_payload C payload sg m = Some ok"
  shows "run (verify_step C (session_options cfg) now e h sg ds (Some m)) w =
    (if ok then run (replay_step (session_options cfg) now e h ds) w
     else (w, Some \<lparr>rr_ok = False, rr_diagnostics = ds @ [SignatureFailed], rr_envelope = Some e\<rparr>))"
  using assms by (simp add: verify_step_def)

lemma run_store:
  "run (store_step C (session_options cfg) now e h sg s ds (Some m)) w =
    run (verify_step C (session_options cfg) now e h sg ds (Some m))
      (session_set w (verificationMaterialCacheKey sg s) m (material_expiry h now))"
  by (simp add: store_step_def session_parts)

lemma run_material:
  "run (secret_step C (session_options cfg) now e h sg s ds (Some m)) w = run (store_step C (session_options cfg) now e h sg s ds (Some m)) w"
  "run (resolve_step C (session_options cfg) now e h sg s ds (Some m)) w = run (store_step C (session_options cfg) now e h sg s ds (Some m)) w"
  by (simp_all add: secret_step_def resolve_step_def)

lemma run_cached:
  assumes "material_get (ss_cache w) (verificationMaterialCacheKey sg s) now = (c, Some m)"
  shows "run (cache_step C (session_options cfg) now e h sg s ds) w = run (store_step C (session_options cfg) now e h sg s ds (Some m)) (w\<lparr>ss_cache := c\<rparr>)"
  using assms by (simp add: cache_step_def session_parts session_get_def run_material)

lemma run_receive:
  assumes "quiet cfg" "jmember e ''header'' = Some h" "h \<noteq> JNull" "no_errors (validateEnvelope e now)"
    and "jmember e ''signature'' = Some sg" "truthy_json (Some sg)"
  shows "run (receive_value C (session_options cfg) now e) w =
    run (cache_step C (session_options cfg) now e h sg (string_or_empty (jmember h ''sender'')) (map Validation (validateEnvelope e now))) w"
proof -
  have r: "readable (Some h) = Some h" using assms(3) by (simp add: readable_def split: json.split)
  have t: "truthy_json (Some e)" using assms(2) by (cases e) (simp_all add: truthy_json_def)
  obtain ts where ts: "finite_or_nan (jmember h ''timestampMs'') = Fin ts" "ts \<le> now + 30000"
    using validate_untyped [OF assms(4)] assms(2) by (auto simp: finite_or_nan_def MAX_CLOCK_SKEW_MS_def)
  show ?thesis using assms ts(2)
    by (simp add: receive_value_def t r quiet_def session_parts ts(1) jnum_less_iff signature_step_def Let_def emit_def)
qed

lemma header_view_typed: "is_finite (timestampMs h) \<Longrightarrow> is_finite (ttlMs h) \<Longrightarrow> header_view (header_json h) = h"
  by (cases "recipient h") (simp_all add: header_view_def wire_members string_or_empty_def finite_or_nan_def)

lemma material_expiry_typed:
  "timestampMs h = Fin a \<Longrightarrow> ttlMs h = Fin b \<Longrightarrow> material_expiry (header_json h) now = max (now + 1) (a + b)"
  by (simp add: material_expiry_def wire_members finite_or_nan_def)

text \<open>A session that has m for the signature of a typed envelope: cached, or from its secret resolver.\<close>

definition receives_with :: "'s session \<Rightarrow> 's session_config \<Rightarrow> envelope \<Rightarrow> signature \<Rightarrow> int \<Rightarrow> verification_material \<Rightarrow> bool" where
  "receives_with w cfg e sg now m \<longleftrightarrow>
     (let key = verificationMaterialCacheKey (signature_json sg) (sender (header e)) in
      (\<exists>x. mget (mc_entries (ss_cache w)) key = Some (x, m) \<and> now < x)
      \<or> mget (mc_entries (ss_cache w)) key = None \<and> alg sg = HS256 \<and> sc_signatureResolver cfg = None
        \<and> (\<exists>f s. sc_secretResolver cfg = Some f \<and> m = HmacSecret s \<and> s \<noteq> [] \<and>
            (\<forall>v. f v (Some (JStr (keyId sg))) (sender (header e)) = (v, Some (Some s)))))"

lemma verify_payload_typed:
  "verify_payload C p (signature_json sg) m = (if alg sg \<noteq> material_alg m then Some False
     else case m of HmacSecret s \<Rightarrow> verifyCanonicalPayloadHmac C p (sigValue sg) s | Ed25519Key k \<Rightarrow> verifyCanonicalPayloadEd25519 C p (sigValue sg) k)"
  by (simp add: verify_payload_def wire_members)

lemma verify_payload_signature:
  assumes "signature e = Some sg" "verifyEnvelopeSignature C e m = Some True"
  shows "verify_payload C (canonicalizeEnvelope (header e) (body e)) (signature_json sg) m = Some True"
  using assms by (cases m) (auto simp: verify_payload_typed envelope_defs split: if_splits)

lemma receive_typed:
  assumes "quiet cfg" "signature e = Some sg" "header_acceptable (header e) now" "receives_with w cfg e sg now m"
    and "verifyEnvelopeSignature C e m = Some True"
  shows "\<exists>w1. run (receive_value C (session_options cfg) now (envelope_json e)) w =
      run (replay_step (session_options cfg) now (envelope_json e) (header_json (header e)) (map Validation (validateEnvelope (envelope_json e) now))) w1
    \<and> ss_replay w1 = ss_replay w
    \<and> mget (mc_entries (ss_cache w1)) (verificationMaterialCacheKey (signature_json sg) (sender (header e)))
       = Some (material_expiry (header_json (header e)) now, m)"
proof -
  let ?e = "envelope_json e" and ?h = "header_json (header e)" and ?sg = "signature_json sg" and ?s = "sender (header e)"
  let ?ds = "map Validation (validateEnvelope ?e now)" and ?key = "verificationMaterialCacheKey ?sg ?s"
  have v: "no_errors (validateEnvelope ?e now)" using assms(3) by (simp add: validate_wire validate_typed)
  have j: "jmember ?e ''header'' = Some ?h" "jmember ?e ''signature'' = Some ?sg" "?h \<noteq> JNull" "truthy_json (Some ?sg)"
    "string_or_empty (jmember ?h ''sender'') = ?s"
    using assms(2) by (simp_all add: wire_members signature_truthy header_json_def string_or_empty_def)
  have c: "canonical_text ?h (jmember ?e ''body'') = Some (canonicalizeEnvelope (header e) (body e))"
    by (simp add: wire_members canonical_text_typed)
  note p = verify_payload_signature [OF assms(2,5)]
  have fin: "run (store_step C (session_options cfg) now ?e ?h ?sg ?s ?ds (Some m)) w2
      = run (replay_step (session_options cfg) now ?e ?h ?ds) (session_set w2 ?key m (material_expiry ?h now))" for w2
    unfolding run_store run_verify [OF assms(1) c p] by simp
  have set: "mget (mc_entries (ss_cache (session_set w2 key m x))) key = Some (x, m)" for w2 :: "'s session" and key x
    by (simp add: session_set_def material_set_def Let_def)
  have start: "run (receive_value C (session_options cfg) now ?e) w = run (cache_step C (session_options cfg) now ?e ?h ?sg ?s ?ds) w"
    using run_receive [OF assms(1) j(1,3) v j(2,4)] j(5) by simp
  consider x where "mget (mc_entries (ss_cache w)) ?key = Some (x, m)" "now < x"
    | f s where "mget (mc_entries (ss_cache w)) ?key = None" "alg sg = HS256" "sc_signatureResolver cfg = None"
        "sc_secretResolver cfg = Some f" "m = HmacSecret s" "s \<noteq> []" "\<forall>v. f v (Some (JStr (keyId sg))) ?s = (v, Some (Some s))"
    using assms(4) by (auto simp: receives_with_def Let_def)
  then show ?thesis
  proof cases
    case 1
    then have "material_get (ss_cache w) ?key now = (ss_cache w, Some m)" by (simp add: material_get_def)
    from run_cached [OF this] start have "run (receive_value C (session_options cfg) now ?e) w
        = run (replay_step (session_options cfg) now ?e ?h ?ds) (session_set w ?key m (material_expiry ?h now))"
      by (simp add: fin)
    then show ?thesis using set by (intro exI [of _ "session_set w ?key m (material_expiry ?h now)"]) simp
  next
    case 2
    have "run (cache_step C (session_options cfg) now ?e ?h ?sg ?s ?ds) w
        = run (store_step C (session_options cfg) now ?e ?h ?sg ?s ?ds (Some m)) w"
      using 2 by (simp add: cache_step_def resolve_step_def secret_step_def session_parts session_get_def material_get_def on_env_def wire_members)
    with start show ?thesis using set by (intro exI [of _ "session_set w ?key m (material_expiry ?h now)"]) (simp add: fin)
  qed
qed

section \<open>Accepted once, and once more at the end\<close>

lemma received_once:
  assumes "quiet cfg" "quiet cfg'" "signature e = Some sg" "header_acceptable (header e) now" "receives_with w cfg e sg now m"
    and "verifyEnvelopeSignature C e m = Some True" "makeKey (header e) = Some k"
    and "timestampMs (header e) = Fin ts" "ttlMs (header e) = Fin ttl" "now \<le> later" "later < ts + ttl"
    and "decodeEnvelope parse raw = decoded (envelope_json e)" "cache_inv (ss_replay w)"
    and "mget (live_entries (ss_replay w) now) k = None" "msize (live_entries (ss_replay w) now) < maxEntries (ss_replay w)"
  shows "let (w1, r1) = session_receive C parse cfg w (Wire raw) now; (w2, r2) = session_receive C parse cfg' w1 (Wire raw) later
    in map_option rr_ok r1 = Some True \<and> map_option rr_ok r2 = Some False"
proof -
  let ?e = "envelope_json e" and ?h = "header_json (header e)"
  have rc: "session_receive C parse c v (Wire raw) t = run (receive_value C (session_options c) t ?e) v" for c v t
    by (simp add: session_receive_def receiveEnvelope_def assms(12) decoded_def Let_def)
  have hv: "header_view ?h = header e" using assms(8,9) by (simp add: header_view_typed)
  obtain w1 where w1: "run (receive_value C (session_options cfg) now ?e) w
      = run (replay_step (session_options cfg) now ?e ?h (map Validation (validateEnvelope ?e now))) w1" "ss_replay w1 = ss_replay w"
      "mget (mc_entries (ss_cache w1)) (verificationMaterialCacheKey (signature_json sg) (sender (header e))) = Some (material_expiry ?h now, m)"
    using receive_typed [OF assms(1,3,4,5,6)] by blast
  note room = assms(13) assms(15)
  have ok: "snd (consume (ss_replay w) (header e) now) = Some ReplayOk"
    using consume_cases [OF assms(13,7), of now] assms(8,9,14) by simp
  obtain w2 where w2: "session_receive C parse cfg w (Wire raw) now = (w2, Some \<lparr>rr_ok = True, rr_diagnostics = map Validation (validateEnvelope ?e now), rr_envelope = Some ?e\<rparr>)"
      "ss_replay w2 = fst (consume (ss_replay w) (header e) now)" "ss_cache w2 = ss_cache w1"
    using ok by (simp add: rc w1 run_replay assms(1) hv)
  have l2: "mget (live_entries (ss_replay w2) later) k = Some (Fin (ts + ttl))" and i2: "cache_inv (ss_replay w2)"
  proof -
    show i: "cache_inv (ss_replay w2)" using consume_live(1) [OF room] w2(2) by simp
    from consume_ok_reserves [OF assms(13,7) ok] assms(8,9) w2(2)
    have "mget (entries (ss_replay w2)) k = Some (Fin (ts + ttl))" by simp
    then show "mget (live_entries (ss_replay w2) later) k = Some (Fin (ts + ttl))"
      using live_get [OF i] assms(11) by simp
  qed
  have ref: "snd (consume (ss_replay w2) (header e) later) = Some ReplayDetected"
    using consume_cases [OF i2 assms(7), of later] l2 by simp
  have acc: "header_acceptable (header e) later"
    using assms(4,8,9,10,11) by (auto simp: header_acceptable_def)
  have "receives_with w2 cfg' e sg later m"
    using w1(3) w2(3) assms(8,9,11) by (simp add: receives_with_def Let_def material_expiry_typed)
  from receive_typed [OF assms(2,3) acc this assms(6)] obtain w3 where
    w3: "run (receive_value C (session_options cfg') later ?e) w2
      = run (replay_step (session_options cfg') later ?e ?h (map Validation (validateEnvelope ?e later))) w3" "ss_replay w3 = ss_replay w2" by blast
  have "map_option rr_ok (snd (session_receive C parse cfg' w2 (Wire raw) later)) = Some False"
    by (simp add: rc w3 run_replay assms(2) hv ref)
  then show ?thesis using w2(1) by (simp add: case_prod_beta)
qed

text \<open>A signed envelope goes through a session once: received by a session that has never seen it and has its material, it is accepted; received again at any later time before its expiry, with or without the resolvers, it is refused as a replay.\<close>

theorem session_accepts_once:
  assumes "quiet cfg" "quiet cfg'" "signature e = Some sg" "header_acceptable (header e) now" "receives_with w cfg e sg now m"
    and "verifyEnvelopeSignature C e m = Some True" "makeKey (header e) = Some k"
    and "timestampMs (header e) = Fin ts" "ttlMs (header e) = Fin ttl" "now \<le> later" "later < ts + ttl"
    and "decodeEnvelope parse raw = decoded (envelope_json e)" "cache_inv (ss_replay w)"
    and "mget (live_entries (ss_replay w) now) k = None" "msize (live_entries (ss_replay w) now) < maxEntries (ss_replay w)"
  shows "let (w1, r1) = session_receive C parse cfg w (Wire raw) now; (w2, r2) = session_receive C parse cfg' w1 (Wire raw) later
    in map_option rr_ok r1 = Some True \<and> map_option rr_ok r2 = Some False"
  by (rule received_once [OF assms])

text \<open>In its last millisecond an envelope is not protected: when the clock shows exactly timestamp plus ttl it is still valid but its reservation counts as expired, so the session accepts it a second time.\<close>

theorem replayed_at_expiry:
  assumes "quiet cfg" "signature e = Some sg" "header_acceptable (header e) now" "receives_with w cfg e sg now m"
    and "verifyEnvelopeSignature C e m = Some True" "makeKey (header e) = Some k"
    and "timestampMs (header e) = Fin ts" "ttlMs (header e) = Fin ttl" "now = ts + ttl"
    and "decodeEnvelope parse raw = decoded (envelope_json e)" "cache_inv (ss_replay w)"
    and "mget (live_entries (ss_replay w) now) k = None" "msize (live_entries (ss_replay w) now) < maxEntries (ss_replay w)"
  shows "let (w1, r1) = session_receive C parse cfg w (Wire raw) now; (w2, r2) = session_receive C parse cfg w1 (Wire raw) now
    in map_option rr_ok r1 = Some True \<and> map_option rr_ok r2 = Some True"
proof -
  let ?e = "envelope_json e" and ?h = "header_json (header e)"
  have rc: "session_receive C parse c v (Wire raw) t = run (receive_value C (session_options c) t ?e) v" for c v t
    by (simp add: session_receive_def receiveEnvelope_def assms(10) decoded_def Let_def)
  have hv: "header_view ?h = header e" using assms(7,8) by (simp add: header_view_typed)
  obtain w1 where w1: "run (receive_value C (session_options cfg) now ?e) w
      = run (replay_step (session_options cfg) now ?e ?h (map Validation (validateEnvelope ?e now))) w1" "ss_replay w1 = ss_replay w"
      "mget (mc_entries (ss_cache w1)) (verificationMaterialCacheKey (signature_json sg) (sender (header e))) = Some (material_expiry ?h now, m)"
    using receive_typed [OF assms(1-5)] by blast
  have ok: "snd (consume (ss_replay w) (header e) now) = Some ReplayOk"
    using consume_cases [OF assms(11,6), of now] assms(7,8,12) by simp
  obtain w2 where w2: "session_receive C parse cfg w (Wire raw) now = (w2, Some \<lparr>rr_ok = True, rr_diagnostics = map Validation (validateEnvelope ?e now), rr_envelope = Some ?e\<rparr>)"
      "ss_replay w2 = fst (consume (ss_replay w) (header e) now)" "ss_cache w2 = ss_cache w1"
    using ok by (simp add: rc w1 run_replay assms(1) hv)
  have i2: "cache_inv (ss_replay w2)" and l2: "live_entries (ss_replay w2) now = live_entries (ss_replay w) now"
    using consume_live(1) [OF assms(11,13), of "header e"] consume_live(4) [OF assms(11,13) ok] w2(2) assms(7,8,9) by auto
  have again: "snd (consume (ss_replay w2) (header e) now) = Some ReplayOk"
    using consume_cases [OF i2 assms(6), of now] assms(7,8,12) l2 by simp
  have "receives_with w2 cfg e sg now m"
    using w1(3) w2(3) assms(7,8,9) by (simp add: receives_with_def Let_def material_expiry_typed)
  from receive_typed [OF assms(1,2,3) this assms(5)] obtain w3 where
    w3: "run (receive_value C (session_options cfg) now ?e) w2
      = run (replay_step (session_options cfg) now ?e ?h (map Validation (validateEnvelope ?e now))) w3" "ss_replay w3 = ss_replay w2" by blast
  have "map_option rr_ok (snd (session_receive C parse cfg w2 (Wire raw) now)) = Some True"
    by (simp add: rc w3 run_replay assms(1) hv again)
  then show ?thesis using w2(1) by (simp add: case_prod_beta)
qed

section \<open>The material cache\<close>

text \<open>The material cache outlives a revocation: while an entry for the sender, algorithm and key id is live, a session answers a valid header exactly as it would with any other resolvers, one that has learnt of a revocation included, and every such envelope, whatever its signature, renews the entry up to its own expiry.\<close>

theorem cached_material_outlives_resolvers:
  assumes "quiet cfg" "jmember e ''header'' = Some h" "h \<noteq> JNull" "no_errors (validateEnvelope e now)"
    and "jmember e ''signature'' = Some sg" "truthy_json (Some sg)" "canonical_text h (jmember e ''body'') = Some payload"
    and "mget (mc_entries (ss_cache w)) (verificationMaterialCacheKey sg (string_or_empty (jmember h ''sender''))) = Some (x, m)" "now < x"
    and "verify_payload C payload sg m = Some ok"
  shows "session_receive C parse cfg w (Parsed e) now
      = session_receive C parse (cfg\<lparr>sc_signatureResolver := f, sc_secretResolver := g\<rparr>) w (Parsed e) now
    \<and> mget (mc_entries (ss_cache (fst (session_receive C parse cfg w (Parsed e) now))))
        (verificationMaterialCacheKey sg (string_or_empty (jmember h ''sender''))) = Some (material_expiry h now, m)"
proof -
  let ?s = "string_or_empty (jmember h ''sender'')" and ?ds = "map Validation (validateEnvelope e now)"
  let ?key = "verificationMaterialCacheKey sg ?s"
  have g: "material_get (ss_cache w) ?key now = (ss_cache w, Some m)" using assms(8,9) by (simp add: material_get_def)
  have eq: "session_receive C parse c w (Parsed e) now =
      (if ok then run (replay_step (session_options c) now e h ?ds) (session_set w ?key m (material_expiry h now))
       else (session_set w ?key m (material_expiry h now), Some \<lparr>rr_ok = False, rr_diagnostics = ?ds @ [SignatureFailed], rr_envelope = Some e\<rparr>))"
    if "quiet c" for c
    unfolding session_receive_def receiveEnvelope_def receive_input.case run_receive [OF that assms(2-6)] run_cached [OF g] run_store
      run_verify [OF that assms(7,10)] by simp
  have q: "quiet (cfg\<lparr>sc_signatureResolver := f, sc_secretResolver := g\<rparr>)" using assms(1) by (simp add: quiet_def)
  show ?thesis unfolding eq [OF assms(1)] eq [OF q] run_replay [OF assms(1)] run_replay [OF q]
    by (simp add: session_set_def material_set_def Let_def)
qed

text \<open>The cache key joins its parts with a bar that may occur in them.\<close>

lemma cache_key_confuses_senders:
  "verificationMaterialCacheKey (JObj [(js ''alg'', JStr (js ''HS256'')), (js ''keyId'', JStr (js ''y''))]) (js ''a|HS256|x'')
   = verificationMaterialCacheKey (JObj [(js ''alg'', JStr (js ''HS256'')), (js ''keyId'', JStr (js ''x|HS256|y''))]) (js ''a'')"
  by (simp add: verificationMaterialCacheKey_def template_text_def ascii_eval)

text \<open>The cache never grows beyond its bound, for keys that are not empty, as the cache keys are.\<close>

lemma material_set_bounded:
  assumes "wf_map (mc_entries c)" "msize (mc_entries c) \<le> mc_max c" "0 < mc_max c" "\<forall>k \<in> set (mkeys (mc_entries c)). k \<noteq> []"
  shows "wf_map (mc_entries (material_set c key m x)) \<and> msize (mc_entries (material_set c key m x)) \<le> mc_max c"
proof (cases "mc_max c \<le> msize (mc_entries c)")
  case True
  then obtain k v es where es: "mc_entries c = (k, v) # es" using assms(3) by (cases "mc_entries c") (auto simp: msize_def)
  then have k: "k \<noteq> []" "mget (mc_entries c) k = Some v" using assms(4) by (simp_all add: mkeys_def)
  have "msize (mdelete (mc_entries c) k) = msize (mc_entries c) - 1" using msize_mdelete [OF assms(1), of k] k(2) by simp
  moreover have "material_set c key m x = c\<lparr>mc_entries := mset_key (mdelete (mc_entries c) k) key (x, m)\<rparr>"
    using True k(1) es by (simp add: material_set_def Let_def mkeys_def)
  ultimately show ?thesis using assms mget_Some_size [OF k(2)] by (auto simp: msize_mset_key wf_mset_key wf_mdelete)
next
  case False
  then show ?thesis using assms by (simp add: material_set_def Let_def wf_mset_key msize_mset_key)
qed

section \<open>Wire formats\<close>

text \<open>Two received values with the same members where it counts.\<close>

definition alike_parts :: "string list \<Rightarrow> json \<Rightarrow> json \<Rightarrow> bool" where
  "alike_parts names a b \<longleftrightarrow> (\<exists>p q. a = JObj p \<and> b = JObj q) \<and> (\<forall>n \<in> set names. jmember a n = jmember b n)"

definition header_names :: "string list" where
  "header_names = [''version'', ''messageId'', ''timestampMs'', ''ttlMs'', ''sender'', ''recipient'', ''nonce'']"

definition body_names :: "string list" where
  "body_names = [''intent'', ''content'', ''capability'', ''correlationId'']"

definition alike :: "json \<Rightarrow> json \<Rightarrow> bool" where
  "alike e e' \<longleftrightarrow> alike_parts [''signature''] e e'
     \<and> (\<exists>h h' b b'. jmember e ''header'' = Some h \<and> jmember e' ''header'' = Some h' \<and> alike_parts header_names h h'
         \<and> jmember e ''body'' = Some b \<and> jmember e' ''body'' = Some b' \<and> alike_parts body_names b b')"

definition without_envelope :: "receive_result \<Rightarrow> receive_result" where
  "without_envelope v = v\<lparr>rr_envelope := None\<rparr>"

lemma map_act: "map_proc f (act g k) = act g (\<lambda>b. map_proc f (k b))"
  by (auto simp: act_def fun_eq_iff split: option.split)

lemma map_emit: "map_proc f (emit opts ev p) = emit opts ev (map_proc f p)"
  by (auto simp: emit_def map_act split: option.split)

lemma alike_receive:
  assumes "alike e e'"
  shows "map_proc without_envelope (receive_value C opts now e) = map_proc without_envelope (receive_value C opts now e')"
proof -
  from assms obtain h h' b b' where p: "jmember e ''header'' = Some h" "jmember e' ''header'' = Some h'" "alike_parts header_names h h'"
      "jmember e ''body'' = Some b" "jmember e' ''body'' = Some b'" "alike_parts body_names b b'"
    and s: "jmember e ''signature'' = jmember e' ''signature''" and o: "truthy_json (Some e)" "truthy_json (Some e')"
    unfolding alike_def alike_parts_def [of "[''signature'']"] by (auto simp: truthy_json_def)
  have m: "jmember h ''version'' = jmember h' ''version''" "jmember h ''messageId'' = jmember h' ''messageId''"
    "jmember h ''timestampMs'' = jmember h' ''timestampMs''" "jmember h ''ttlMs'' = jmember h' ''ttlMs''"
    "jmember h ''sender'' = jmember h' ''sender''" "jmember h ''recipient'' = jmember h' ''recipient''" "jmember h ''nonce'' = jmember h' ''nonce''"
    "jmember b ''intent'' = jmember b' ''intent''" "jmember b ''content'' = jmember b' ''content''"
    "jmember b ''capability'' = jmember b' ''capability''" "jmember b ''correlationId'' = jmember b' ''correlationId''"
    using p(3,6) by (simp_all add: alike_parts_def header_names_def body_names_def)
  have pe: "part_or_empty (Some h) = h" "part_or_empty (Some h') = h'" "part_or_empty (Some b) = b" "part_or_empty (Some b') = b'"
    "readable (Some h) = Some h" "readable (Some h') = Some h'" "readable (Some b) = Some b" "readable (Some b') = Some b'"
    using p(3,6) by (auto simp: alike_parts_def part_or_empty_def readable_def)
  have v: "validateEnvelope e now = validateEnvelope e' now" by (simp add: validateEnvelope_def p pe m)
  have ev: "event_of ph now e d = event_of ph now e' d" for ph d by (simp add: event_of_def p m)
  have ct: "canonical_text h (Some b) = canonical_text h' (Some b')"
    by (simp add: canonical_text_def body_text_def pe header_text_def m)
  have hv: "header_view h = header_view h'" "material_expiry h now = material_expiry h' now" by (simp_all add: header_view_def material_expiry_def m)
  have rj: "map_proc without_envelope (reject opts now e ph ds d) = map_proc without_envelope (reject opts now e' ph ds d)"
    and ac: "map_proc without_envelope (accept opts now e ds) = map_proc without_envelope (accept opts now e' ds)" for ph ds d
    by (simp_all add: reject_def accept_def map_emit ev without_envelope_def)
  have rs: "map_proc without_envelope (replay_step opts now e h ds) = map_proc without_envelope (replay_step opts now e' h' ds)" for ds
    by (simp add: replay_step_def map_act ac rj hv if_distrib [of "map_proc without_envelope"] cong: if_cong split: option.split)
  have vs: "map_proc without_envelope (verify_step C opts now e h sg ds x) = map_proc without_envelope (verify_step C opts now e' h' sg ds x)" for sg ds x
    by (simp add: verify_step_def p ct rj rs split: option.split bool.split)
  have ss: "map_proc without_envelope (store_step C opts now e h sg s ds x) = map_proc without_envelope (store_step C opts now e' h' sg s ds x)" for sg s ds x
    by (simp add: store_step_def map_act vs hv split: option.split)
  have sc: "map_proc without_envelope (secret_step C opts now e h sg s ds x) = map_proc without_envelope (secret_step C opts now e' h' sg s ds x)" for sg s ds x
    by (simp add: secret_step_def map_act ss split: option.split bool.split)
  have rv: "map_proc without_envelope (resolve_step C opts now e h sg s ds x) = map_proc without_envelope (resolve_step C opts now e' h' sg s ds x)" for sg s ds x
    by (simp add: resolve_step_def map_act sc split: option.split)
  have ca: "map_proc without_envelope (cache_step C opts now e h sg s ds) = map_proc without_envelope (cache_step C opts now e' h' sg s ds)" for sg s ds
    by (simp add: cache_step_def map_act rv split: option.split)
  have sg: "map_proc without_envelope (signature_step C opts now e h) = map_proc without_envelope (signature_step C opts now e' h')"
    by (simp add: signature_step_def Let_def v s rj ac ca m)
  show ?thesis
    by (simp add: receive_value_def o p pe map_emit ev m Let_def rj sg if_distrib [of "map_proc without_envelope"] cong: if_cong)
qed

lemma run_map: "run (map_proc f p) w = map_prod id (map_option f) (run p w)"
proof (induction p arbitrary: w)
  case (Act g k)
  have "run (map_proc f (k w)) (g w) = map_prod id (map_option f) (run (k w) (g w))" by (rule Act.IH [OF rangeI])
  then show ?case by (simp add: id_def)
qed simp

lemma compact_alike:
  shows "alike (compactToEnvelope (envelopeToCompact e)) (envelope_json e)" "isCompactEnvelope (envelopeToCompact e) \<longleftrightarrow> version (header e) = protocol_version"
proof -
  let ?c = "envelopeToCompact e"
  have m: "jmember ?c ''v'' = Some (JStr (version (header e)))" "jmember ?c ''mid'' = Some (JStr (messageId (header e)))"
    "jmember ?c ''ts'' = Some (JNum (timestampMs (header e)))" "jmember ?c ''ttl'' = Some (JNum (ttlMs (header e)))"
    "jmember ?c ''s'' = Some (JStr (sender (header e)))" "jmember ?c ''r'' = map_option JStr (recipient (header e))"
    "jmember ?c ''n'' = Some (JStr (nonce (header e)))" "jmember ?c ''i'' = Some (JStr (intent_text (intent (body e))))"
    "jmember ?c ''c'' = Some (JStr (content (body e)))" "jmember ?c ''cap'' = map_option JStr (capability (body e))"
    "jmember ?c ''cid'' = map_option JStr (correlationId (body e))"
    "jmember ?c ''sig'' = map_option (\<lambda>s. JObj [(js ''a'', JStr (alg_text (alg s))), (js ''k'', JStr (keyId s)), (js ''v'', JStr (sigValue s))]) (signature e)"
    by (cases "recipient (header e)"; cases "capability (body e)"; cases "correlationId (body e)"; cases "signature e";
        simp add: envelopeToCompact_def opt_json_def Let_def)+
  have sg: "jmember (compactToEnvelope ?c) ''signature'' = map_option signature_json (signature e)"
    by (cases "signature e") (simp_all add: compactToEnvelope_def m truthy_json_def compact_signature_def optional_json_def signature_json_def)
  show "alike (compactToEnvelope ?c) (envelope_json e)"
    unfolding alike_def alike_parts_def
    by (cases "recipient (header e)"; cases "capability (body e)"; cases "correlationId (body e)")
      (auto simp: sg wire_members header_names_def body_names_def, auto simp: compactToEnvelope_def optional_json_def m header_json_def body_json_def envelope_json_def opt_json_def)
  show "isCompactEnvelope ?c \<longleftrightarrow> version (header e) = protocol_version"
    by (simp add: isCompactEnvelope_def m is_string_def)
qed

text \<open>The three wire formats carry the same message: a typed envelope in range, encoded as JSON, compact or binary, is received exactly as the others are, with the same result, diagnostics, telemetry and effects, for all options, caches and resolvers.\<close>

theorem wire_formats_agree:
  assumes "frame_ok e" "encodeEnvelope fmt e = Some raw"
    and "case raw of WireFrame bs \<Rightarrow> length bs < DEFAULT_MAX_BINARY_ENVELOPE_BYTES | WireText s \<Rightarrow> True"
    and "parse (print_json (envelope_json e)) = Some (envelope_json e)"
    and "parse (print_json (envelopeToCompact e)) = Some (envelopeToCompact e)"
  shows "map_prod id (map_option without_envelope) (run (receiveEnvelope C parse opts now (Wire raw)) w)
    = map_prod id (map_option without_envelope) (run (receiveEnvelope C parse opts now (Parsed (envelope_json e))) w)"
proof -
  have v: "version (header e) = protocol_version" using assms(1) by (simp add: frame_ok_def Let_def)
  have j: "\<not> isCompactEnvelope (envelope_json e)" "isProtocolEnvelope (envelope_json e)"
    by (cases "signature e"; simp add: isCompactEnvelope_def envelope_json_def opt_field_def)
      (simp add: isProtocolEnvelope_def wire_members truthy_json_def header_json_def body_json_def)
  have "\<exists>e'. decodeEnvelope parse raw = decoded e' \<and> alike e' (envelope_json e)"
  proof (cases fmt)
    case JsonFormat
    have "alike (envelope_json e) (envelope_json e)"
      by (auto simp: alike_def alike_parts_def wire_members envelope_json_def header_json_def body_json_def)
    with JsonFormat assms(2,4) j show ?thesis by (auto simp: encodeEnvelope_def decodeEnvelope_def recognize_def)
  next
    case CompactFormat
    with assms(2,5) v compact_alike show ?thesis by (auto simp: encodeEnvelope_def decodeEnvelope_def recognize_def)
  next
    case BinaryFormat
    then obtain bs where bs: "encodeEnvelopeBinary e = Some bs" "raw = WireFrame bs" using assms(2) by (auto simp: encodeEnvelope_def)
    obtain ts ttl where t: "timestampMs (header e) = Fin ts" "0 \<le> ts" "ts < 2 ^ 53" "ttlMs (header e) = Fin ttl" "0 \<le> ttl" "ttl < 2 ^ 32"
      using assms(1) by (auto simp: frame_ok_def Let_def)
    have "decodeEnvelopeBinary DEFAULT_MAX_BINARY_ENVELOPE_BYTES bs = Inr e"
      using frame_decoded [OF assms(1) bs(1)] assms(3) bs(2) by simp
    moreover have "alike (envelope_json e) (envelope_json e)"
      by (auto simp: alike_def alike_parts_def wire_members envelope_json_def header_json_def body_json_def)
    ultimately show ?thesis using bs(2) by (intro exI [of _ "envelope_json e"]) (simp add: decodeEnvelope_def)
  qed
  then obtain e' where e': "decodeEnvelope parse raw = decoded e'" "alike e' (envelope_json e)" by blast
  then have r: "receiveEnvelope C parse opts now (Wire raw) = receive_value C opts now e'"
    by (simp add: receiveEnvelope_def decoded_def Let_def)
  show ?thesis unfolding run_map [symmetric] r alike_receive [OF e'(2)] by (simp add: receiveEnvelope_def)
qed

section \<open>The properties at work\<close>

text \<open>An envelope of a with times 5 to 15, signed with a secret the session resolves for everybody.\<close>

definition signed_demo :: envelope where
  "signed_demo = the (signEnvelopeHmac demo_crypto (demo_header 5 10) demo_body (js ''s'') (js ''k''))"

definition demo_session :: "unit session_config" where
  "demo_session = \<lparr>sc_requireSignature = None, sc_maxClockSkewMs = None,
     sc_secretResolver = Some (\<lambda>v k s. (v, Some (Some (js ''s'')))), sc_signatureResolver = None, sc_telemetry = None\<rparr>"

lemma demo_quiet: "quiet demo_session" by (simp add: quiet_def demo_session_def)

lemma signed_demo_parts: "header signed_demo = demo_header 5 10" "body signed_demo = demo_body"
    "\<exists>v. signature signed_demo = Some \<lparr>alg = HS256, keyId = js ''k'', sigValue = v\<rparr>"
    "verifyEnvelopeSignature demo_crypto signed_demo (HmacSecret (js ''s'')) = Some True"
proof -
  have p: "hmac_pair demo_crypto (js ''s'') (js ''s'')"
    by (simp add: hmac_pair_def demo_crypto_def utf8Encode_def ascii_eval utf8_cp_def)
  obtain v where v: "signCanonicalPayloadHmac demo_crypto (canonicalizeEnvelope (demo_header 5 10) demo_body) (js ''s'') = Some v"
      "verifyCanonicalPayloadHmac demo_crypto (canonicalizeEnvelope (demo_header 5 10) demo_body) v (js ''s'') = Some True"
    using hmac.round_trip [OF p] by blast
  have d: "signed_demo = \<lparr>header = demo_header 5 10, body = demo_body, signature = Some \<lparr>alg = HS256, keyId = js ''k'', sigValue = v\<rparr>\<rparr>"
    by (simp add: signed_demo_def signEnvelopeHmac_def v)
  show "header signed_demo = demo_header 5 10" "body signed_demo = demo_body"
    "\<exists>v. signature signed_demo = Some \<lparr>alg = HS256, keyId = js ''k'', sigValue = v\<rparr>" by (simp_all add: d)
  show "verifyEnvelopeSignature demo_crypto signed_demo (HmacSecret (js ''s'')) = Some True"
    by (simp add: verifyEnvelopeSignature_def verifyEnvelopeHmac_def d v)
qed

lemma signed_demo_times: "timestampMs (header signed_demo) = Fin 5" "ttlMs (header signed_demo) = Fin 10"
  by (simp_all add: signed_demo_parts demo_header_def)

lemma demo_live: "header_acceptable (header signed_demo) t \<longleftrightarrow> 5 \<le> t + 30000 \<and> t \<le> 15"
  by (auto simp: signed_demo_parts header_acceptable_def demo_header_def blank_iff ws_char_def MAX_TTL_MS_def MAX_CLOCK_SKEW_MS_def ascii_eval)

lemma demo_key: "\<exists>k. makeKey (header signed_demo) = Some k"
  by (simp add: makeKey_defined signed_demo_parts demo_header_def ascii_eval is_high_def is_low_def)

lemma demo_receives: "signature signed_demo = Some \<lparr>alg = HS256, keyId = js ''k'', sigValue = v\<rparr> \<Longrightarrow>
    receives_with (new_session 4 ()) demo_session signed_demo \<lparr>alg = HS256, keyId = js ''k'', sigValue = v\<rparr> t (HmacSecret (js ''s''))"
  by (simp add: receives_with_def new_session_def new_material_cache_def demo_session_def Let_def ascii_eval)

lemma demo_decodes: "decodeEnvelope (\<lambda>s. Some (envelope_json signed_demo)) (WireText []) = decoded (envelope_json signed_demo)"
proof -
  have "\<not> isCompactEnvelope (envelope_json signed_demo)" "isProtocolEnvelope (envelope_json signed_demo)"
    by (cases "signature signed_demo"; simp add: isCompactEnvelope_def envelope_json_def opt_field_def)
      (simp add: isProtocolEnvelope_def wire_members truthy_json_def header_json_def body_json_def)
  then show ?thesis by (simp add: decodeEnvelope_def recognize_def)
qed

lemma new_cache_empty: "live_entries (ss_replay (new_session n v)) t = []" "cache_inv (ss_replay (new_session n v))"
    "maxEntries (ss_replay (new_session n v)) = n"
  by (simp_all add: new_session_def live_entries_def) (simp_all add: new_replay_cache_def)

theorem session_accepts_once_witness:
  "let (w1, r1) = session_receive demo_crypto (\<lambda>s. Some (envelope_json signed_demo)) demo_session (new_session 4 ()) (Wire (WireText [])) 6;
       (w2, r2) = session_receive demo_crypto (\<lambda>s. Some (envelope_json signed_demo)) demo_session w1 (Wire (WireText [])) 14
   in map_option rr_ok r1 = Some True \<and> map_option rr_ok r2 = Some False"
proof -
  obtain v k where v: "signature signed_demo = Some \<lparr>alg = HS256, keyId = js ''k'', sigValue = v\<rparr>" "makeKey (header signed_demo) = Some k"
    using signed_demo_parts(3) demo_key by blast
  show ?thesis
    by (rule session_accepts_once [OF demo_quiet demo_quiet v(1) _ demo_receives [OF v(1)] signed_demo_parts(4) v(2) signed_demo_times _ _ demo_decodes])
      (simp_all add: demo_live new_cache_empty msize_def)
qed

theorem replayed_at_expiry_witness:
  "let (w1, r1) = session_receive demo_crypto (\<lambda>s. Some (envelope_json signed_demo)) demo_session (new_session 4 ()) (Wire (WireText [])) 15;
       (w2, r2) = session_receive demo_crypto (\<lambda>s. Some (envelope_json signed_demo)) demo_session w1 (Wire (WireText [])) 15
   in map_option rr_ok r1 = Some True \<and> map_option rr_ok r2 = Some True"
proof -
  obtain v k where v: "signature signed_demo = Some \<lparr>alg = HS256, keyId = js ''k'', sigValue = v\<rparr>" "makeKey (header signed_demo) = Some k"
    using signed_demo_parts(3) demo_key by blast
  show ?thesis
    by (rule replayed_at_expiry [OF demo_quiet v(1) _ demo_receives [OF v(1)] signed_demo_parts(4) v(2) signed_demo_times _ demo_decodes])
      (simp_all add: demo_live new_cache_empty msize_def)
qed

text \<open>How the session answers the envelope at time 6.\<close>

lemma demo_session_accepted:
  "\<exists>w r. session_receive demo_crypto (\<lambda>s. Some (envelope_json signed_demo)) demo_session (new_session 4 ()) (Wire (WireText [])) 6 = (w, Some r) \<and> rr_ok r
    \<and> rr_envelope r = Some (envelope_json signed_demo)"
proof -
  obtain v k where v: "signature signed_demo = Some \<lparr>alg = HS256, keyId = js ''k'', sigValue = v\<rparr>" and k: "makeKey (header signed_demo) = Some k"
    using signed_demo_parts(3) demo_key by blast
  have acc: "header_acceptable (header signed_demo) 6" by (simp add: demo_live)
  obtain w1 where w1: "run (receive_value demo_crypto (session_options demo_session) 6 (envelope_json signed_demo)) (new_session 4 ())
      = run (replay_step (session_options demo_session) 6 (envelope_json signed_demo) (header_json (header signed_demo))
          (map Validation (validateEnvelope (envelope_json signed_demo) 6))) w1" "ss_replay w1 = ss_replay (new_session 4 ())"
    using receive_typed [OF demo_quiet v acc demo_receives [OF v] signed_demo_parts(4)] by blast
  have ok: "snd (consume (ss_replay (new_session 4 ())) (header signed_demo) 6) = Some ReplayOk"
    using consume_cases [OF new_cache_empty(2) k, of 4 "()" 6] signed_demo_times by (simp add: new_cache_empty)
  have hv: "header_view (header_json (header signed_demo)) = header signed_demo" using signed_demo_times by (simp add: header_view_typed)
  show ?thesis
    by (simp add: session_receive_def receiveEnvelope_def demo_decodes decoded_def Let_def w1 run_replay [OF demo_quiet] hv ok)
qed

theorem transport_accepts_sound_witness:
  "\<exists>w' v h sg m payload w1 w2. session_receive demo_crypto (\<lambda>s. Some (envelope_json signed_demo)) demo_session (new_session 4 ()) (Wire (WireText [])) 6 = (w', Some v) \<and> rr_ok v
    \<and> find_material (session_options demo_session) 6 sg (string_or_empty (jmember h ''sender'')) (new_session 4 ()) = (w1, Some m)
    \<and> verify_payload demo_crypto payload sg m = Some True
    \<and> replay_answer (session_options demo_session) 6 h (keep_material (session_options demo_session) 6 h sg (string_or_empty (jmember h ''sender'')) m w1) = (w2, Some ReplayOk)"
proof -
  obtain w r where r: "session_receive demo_crypto (\<lambda>s. Some (envelope_json signed_demo)) demo_session (new_session 4 ()) (Wire (WireText [])) 6 = (w, Some r)" "rr_ok r"
    using demo_session_accepted by blast
  have q: "op_requireSignature (session_options demo_session) \<noteq> Some False" by (simp add: session_parts demo_session_def)
  have t: "tell (session_options demo_session) ev v = v" for ev v by (simp add: tell_def session_parts demo_session_def)
  from transport_accepts_sound [OF r(1) [unfolded session_receive_def] r(2) q] r show ?thesis unfolding t by blast
qed

lemma demo_batch:
  defines "result \<equiv> receiveEnvelopeBatch demo_crypto (\<lambda>s. Some (envelope_json signed_demo)) (session_options demo_session) (Some (Fin 1)) 6
      (BatchItems [Wire (WireText []), Wire (WireText [])]) (concat (replicate 20 [0])) (new_session 4 ())"
  shows "\<exists>r r'. snd result = Some [Received r, r'] \<and> rr_ok r \<and> rr_envelope r = Some (envelope_json signed_demo)"
proof -
  let ?opts = "session_options demo_session" and ?parse = "\<lambda>s. Some (envelope_json signed_demo)"
  let ?ps = "batch_items demo_crypto ?parse ?opts 6 (BatchItems [Wire (WireText []), Wire (WireText [])])"
  let ?b = "foldl worker_step (start_batch 1 ?ps (new_session 4 ())) (concat (replicate 20 [0]))"
  have ps: "?ps = [map_proc Received (receiveEnvelope demo_crypto ?parse ?opts 6 (Wire (WireText []))),
      map_proc Received (receiveEnvelope demo_crypto ?parse ?opts 6 (Wire (WireText [])))]"
    by (simp add: batch_items_def batch_item_def)
  then have len: "length ?ps = 2" by simp
  obtain w1 r1 where r1: "session_receive demo_crypto ?parse demo_session (new_session 4 ()) (Wire (WireText [])) 6 = (w1, Some r1)"
      "rr_ok r1" "rr_envelope r1 = Some (envelope_json signed_demo)" using demo_session_accepted by blast
  obtain v k where v: "signature signed_demo = Some \<lparr>alg = HS256, keyId = js ''k'', sigValue = v\<rparr>" "makeKey (header signed_demo) = Some k"
    using signed_demo_parts(3) demo_key by blast
  have "let (w1, r1) = session_receive demo_crypto ?parse demo_session (new_session 4 ()) (Wire (WireText [])) 6;
       (w2, r2) = session_receive demo_crypto ?parse demo_session w1 (Wire (WireText [])) 6
    in map_option rr_ok r1 = Some True \<and> map_option rr_ok r2 = Some False"
    by (rule received_once [OF demo_quiet demo_quiet v(1) _ demo_receives [OF v(1)] signed_demo_parts(4) v(2) signed_demo_times _ _ demo_decodes])
      (simp_all add: demo_live new_cache_empty msize_def)
  then obtain w2 r2 where r2: "session_receive demo_crypto ?parse demo_session w1 (Wire (WireText [])) 6 = (w2, Some r2)"
    using r1(1) by (auto simp: case_prod_beta)
      (metis option.map_disc_iff option.distinct(1) prod.collapse option.exhaust)
  have "in_turn ?ps (new_session 4 ()) = (w2, [Some (Received r1), Some (Received r2)])"
    using r1(1) r2 by (simp add: ps run_map session_receive_def)
  note turn = this
  have ended: "all_ended ?b" by (rule fair_ends [where n = 7]) (use within_batch len in auto)
  have ok: "batch_ok ?b" by (rule worker_run_ok [OF batch_ok_start])
  have "b_workers ?b \<noteq> []" unfolding length_0_conv [symmetric] workers_length by (simp add: start_batch_def)
  then have "thrown ?b \<or> (\<exists>rs. batch_outcome ?b = Some rs)" using ended_outcome [OF ok ended] by blast
  then have "batch_outcome ?b = Some [Received r1, Received r2]"
  proof
    assume "thrown ?b"
    then obtain i where i: "i < b_next ?b" "fst (b_pool ?b) ! i = Done None" by (auto simp: thrown_def)
    then have "i < length (fst (b_pool ?b))" using ok by (simp add: batch_ok_def)
    from in_turn_nth [OF this i(2), of "snd (b_pool ?b)"] have n: "snd (in_turn ?ps (new_session 4 ())) ! i = None" unfolding one_worker_pool .
    have "length (fst (b_pool ?b)) = 2" using batch_pool [of "start_batch 1 ?ps (new_session 4 ())" "concat (replicate 20 [0])"] len by (auto simp: start_batch_def)
    then have "i < 2" using \<open>i < length (fst (b_pool ?b))\<close> by simp
    then show ?thesis using n turn by (auto simp: less_2_cases_iff)
  next
    assume "\<exists>rs. batch_outcome ?b = Some rs"
    then obtain rs where rs: "batch_outcome ?b = Some rs" ..
    from one_worker [OF rs] turn have "map Some rs = [Some (Received r1), Some (Received r2)]" by simp
    then show ?thesis using rs by auto
  qed
  moreover have "op_telemetry ?opts = None" by (simp add: session_parts demo_session_def)
  moreover have "worker_count (Some (Fin 1)) 2 = 1" by (simp add: worker_count_def)
  ultimately show ?thesis using r1(2,3)
    unfolding result_def receiveEnvelopeBatch_def Let_def len by (simp add: case_prod_beta batch_summary_def emit_def)
qed

theorem batch_single_use_witness:
  "\<exists>r r'. snd (receiveEnvelopeBatch demo_crypto (\<lambda>s. Some (envelope_json signed_demo)) (session_options demo_session) (Some (Fin 1)) 6
      (BatchItems [Wire (WireText []), Wire (WireText [])]) (concat (replicate 20 [0])) (new_session 4 ())) = Some [r, r']
    \<and> batch_claim 6 r \<noteq> None \<and> batch_claim 6 r' \<noteq> batch_claim 6 r"
proof -
  obtain r r' where r: "snd (receiveEnvelopeBatch demo_crypto (\<lambda>s. Some (envelope_json signed_demo)) (session_options demo_session) (Some (Fin 1)) 6
      (BatchItems [Wire (WireText []), Wire (WireText [])]) (concat (replicate 20 [0])) (new_session 4 ())) = Some [Received r, r']"
      "rr_ok r" "rr_envelope r = Some (envelope_json signed_demo)" using demo_batch by blast
  obtain v k where v: "signature signed_demo = Some \<lparr>alg = HS256, keyId = js ''k'', sigValue = v\<rparr>" and k: "makeKey (header signed_demo) = Some k"
    using signed_demo_parts(3) demo_key by blast
  have hv: "header_view (header_json (header signed_demo)) = header signed_demo" using signed_demo_times by (simp add: header_view_typed)
  have c: "batch_claim 6 (Received r) = Some k"
    using r(2,3) k signed_demo_times by (simp add: result_claim_def envelope_claim_def header_claim_def wire_members v signature_truthy hv jnum_less_iff)
  have "batch_claim 6 ([Received r, r'] ! 1) \<noteq> Some k"
    by (rule batch_single_use [OF r(1), of 0]) (use c in \<open>simp_all add: session_room_def new_cache_empty msize_def\<close>)
  then show ?thesis using r(1) c by (intro exI [of _ "Received r"] exI [of _ r']) simp
qed

theorem batch_finishes_witness:
  "let items = batch_items demo_crypto (\<lambda>s. Some (envelope_json signed_demo)) (session_options demo_session) 6 (BatchItems [Wire (WireText []), Wire (WireText [])]);
       b = foldl worker_step (start_batch 2 items (new_session 4 ())) (concat (replicate 20 [1, 0]))
   in all_ended b \<and> (thrown b \<or> (\<exists>rs. batch_outcome b = Some rs \<and> length rs = 2))"
proof -
  let ?ps = "batch_items demo_crypto (\<lambda>s. Some (envelope_json signed_demo)) (session_options demo_session) 6 (BatchItems [Wire (WireText []), Wire (WireText [])])"
  have n: "length ?ps = 2" "worker_count (Some (Fin 2)) 2 = 2" by (simp_all add: batch_items_def worker_count_def)
  have r: "\<forall>r \<in> set (replicate 20 [1, 0]). {..<worker_count (Some (Fin 2)) (length ?ps)} \<subseteq> set r" unfolding n by auto
  show ?thesis using batch_finishes [OF r, of "new_session 4 ()"] n by (simp add: Let_def)
qed

theorem one_worker_sequential_witness:
  "\<exists>r r'. snd (in_turn (batch_items demo_crypto (\<lambda>s. Some (envelope_json signed_demo)) (session_options demo_session) 6
      (BatchItems [Wire (WireText []), Wire (WireText [])])) (new_session 4 ())) = [Some (Received r), Some r'] \<and> rr_ok r"
proof -
  obtain r r' where r: "snd (receiveEnvelopeBatch demo_crypto (\<lambda>s. Some (envelope_json signed_demo)) (session_options demo_session) (Some (Fin 1)) 6
      (BatchItems [Wire (WireText []), Wire (WireText [])]) (concat (replicate 20 [0])) (new_session 4 ())) = Some [Received r, r']" "rr_ok r"
    using demo_batch by blast
  from one_worker_sequential [OF r(1)] r(2) show ?thesis by (intro exI [of _ r] exI [of _ r']) simp
qed

theorem cached_material_outlives_resolvers_witness:
  "\<exists>key w. mget (mc_entries (ss_cache w)) key = Some (20, HmacSecret (js ''s''))
    \<and> session_receive demo_crypto (\<lambda>s. None) demo_session w (Parsed (envelope_json signed_demo)) 6
      = session_receive demo_crypto (\<lambda>s. None) (demo_session\<lparr>sc_signatureResolver := Some (\<lambda>v sg s. (v, Some None)), sc_secretResolver := None\<rparr>) w (Parsed (envelope_json signed_demo)) 6"
proof -
  obtain v where v: "signature signed_demo = Some \<lparr>alg = HS256, keyId = js ''k'', sigValue = v\<rparr>" using signed_demo_parts(3) by blast
  let ?sg = "signature_json \<lparr>alg = HS256, keyId = js ''k'', sigValue = v\<rparr>" and ?h = "header_json (header signed_demo)"
  let ?key = "verificationMaterialCacheKey ?sg (string_or_empty (jmember ?h ''sender''))"
  let ?w = "(new_session 4 ())\<lparr>ss_cache := \<lparr>mc_entries = [(?key, 20, HmacSecret (js ''s''))], mc_max = 512\<rparr>\<rparr>"
  have c: "canonical_text ?h (jmember (envelope_json signed_demo) ''body'') = Some (canonicalizeEnvelope (header signed_demo) (body signed_demo))"
    by (simp add: wire_members canonical_text_typed)
  have n: "no_errors (validateEnvelope (envelope_json signed_demo) 6)" by (simp add: validate_wire validate_typed demo_live)
  have k: "mget (mc_entries (ss_cache ?w)) ?key = Some (20, HmacSecret (js ''s''))" by simp
  have "session_receive demo_crypto (\<lambda>s. None) demo_session ?w (Parsed (envelope_json signed_demo)) 6
      = session_receive demo_crypto (\<lambda>s. None) (demo_session\<lparr>sc_signatureResolver := Some (\<lambda>v sg s. (v, Some None)), sc_secretResolver := None\<rparr>) ?w (Parsed (envelope_json signed_demo)) 6"
    by (rule cached_material_outlives_resolvers [OF demo_quiet _ _ n _ _ c k _ verify_payload_signature [OF v signed_demo_parts(4)], THEN conjunct1])
      (simp_all add: wire_members v signature_truthy header_json_def)
  with k show ?thesis by blast
qed

text \<open>A stand-in for \<open>JSON.parse\<close> that knows the two texts.\<close>

definition demo_parse :: "jstr \<Rightarrow> json option" where
  "demo_parse s = (if s = print_json (envelope_json demo_envelope) then Some (envelope_json demo_envelope)
     else if s = print_json (envelopeToCompact demo_envelope) then Some (envelopeToCompact demo_envelope) else None)"

theorem wire_formats_agree_witness:
  "map_prod id (map_option without_envelope)
      (run (receiveEnvelope demo_crypto demo_parse (session_options demo_session) 6 (Wire (WireText (print_json (envelopeToCompact demo_envelope))))) (new_session 4 ()))
    = map_prod id (map_option without_envelope)
      (run (receiveEnvelope demo_crypto demo_parse (session_options demo_session) 6 (Parsed (envelope_json demo_envelope))) (new_session 4 ()))"
proof -
  have "json_finite (envelope_json demo_envelope)" "json_finite (envelopeToCompact demo_envelope)"
    "envelope_json demo_envelope \<noteq> envelopeToCompact demo_envelope"
    by (simp_all add: demo_envelope_def envelope_json_def envelopeToCompact_def header_json_def body_json_def signature_json_def
        demo_header_def demo_body_def opt_field_def opt_json_def Let_def)
  then have "print_json (envelope_json demo_envelope) \<noteq> print_json (envelopeToCompact demo_envelope)"
    using print_json_inj by blast
  then have p: "demo_parse (print_json (envelope_json demo_envelope)) = Some (envelope_json demo_envelope)"
    "demo_parse (print_json (envelopeToCompact demo_envelope)) = Some (envelopeToCompact demo_envelope)"
    by (simp_all add: demo_parse_def)
  show ?thesis
    by (rule wire_formats_agree [OF demo_frame_ok _ _ p, of CompactFormat]) (simp_all add: encodeEnvelope_def)
qed

end
