(* ===== verification/Sse.thy ===== *)
theory Sse
  imports TransportSafety
begin

text \<open>
  \<open>src/mcpSse.ts\<close>: signed server-sent events. The writer numbers and signs messages, the
  reader splits the text it is fed into lines as SSE prescribes, receives the envelope of
  every event with \<open>receiveEnvelope\<close> of \<open>Transport\<close>, and delivers its message only if stream,
  order and count are right. A reader that has failed stays failed. The world \<open>'w\<close> is what
  the receive options share; one feed is one step, with the clock read for it.
\<close>

section \<open>Writing\<close>

definition stream_id_char :: "code_unit \<Rightarrow> bool" where
  "stream_id_char c \<longleftrightarrow> (48 \<le> unat c \<and> unat c \<le> 57) \<or> (65 \<le> unat c \<and> unat c \<le> 90) \<or> (97 \<le> unat c \<and> unat c \<le> 122)
     \<or> unat c \<in> {46, 95, 58, 45}"

definition valid_stream_id :: "jstr \<Rightarrow> bool" where
  "valid_stream_id s \<longleftrightarrow> 1 \<le> length s \<and> length s \<le> 128 \<and> (\<forall>c \<in> set s. stream_id_char c)"

record sse_writer =
  sw_self :: jstr
  sw_peer :: jstr
  sw_ttl :: "int option"
  sw_correlation :: "jstr option"
  sw_stream :: jstr
  sw_seq :: nat
  sw_ended :: bool

text \<open>\<open>rnd16\<close>: the random bytes of a generated id. \<open>None\<close>: the constructor throws.\<close>

definition newSseWriter :: "jstr \<Rightarrow> jstr \<Rightarrow> int option \<Rightarrow> jstr option \<Rightarrow> jstr option \<Rightarrow> bytes \<Rightarrow> sse_writer option" where
  "newSseWriter self peer ttl cor sid rnd16 =
    (let s = (case sid of Some s \<Rightarrow> s | None \<Rightarrow> toHex rnd16) in
     if valid_stream_id s then
       Some \<lparr>sw_self = self, sw_peer = peer, sw_ttl = ttl, sw_correlation = cor, sw_stream = s, sw_seq = 0, sw_ended = False\<rparr>
     else None)"

definition sse_text :: "nat \<Rightarrow> jstr \<Rightarrow> jstr \<Rightarrow> jstr" where
  "sse_text seq kind wire = js ''id: '' @ show_nat seq @ [10] @ js ''event: '' @ kind @ [10] @ js ''data: '' @ wire @ [10, 10]"

definition event_content :: "jstr \<Rightarrow> nat \<Rightarrow> (jstr \<times> json) list \<Rightarrow> json" where
  "event_content stream seq payload = JObj ([(js ''stream'', JStr stream), (js ''seq'', JNum (Fin (int seq)))] @ payload)"

text \<open>The clock, the random bytes and the signer's answer belong to one event. \<open>None\<close>: signing throws, the number is used up.\<close>

definition event_envelope :: "sse_writer \<Rightarrow> (jstr \<times> json) list \<Rightarrow> int \<Rightarrow> bytes \<Rightarrow> bytes \<Rightarrow> header \<times> body" where
  "event_envelope wr payload clock rnd6 rnd12 = createEnvelope
    \<lparr>in_sender = sw_self wr, in_recipient = Some (sw_peer wr), in_intent = RESULT,
     in_content = print_json (event_content (sw_stream wr) (sw_seq wr) payload), in_capability = None,
     in_correlationId = sw_correlation wr, in_ttlMs = Some (case sw_ttl wr of None \<Rightarrow> 60000 | Some t \<Rightarrow> t),
     in_messageId = None, in_nonce = None, in_nowMs = None\<rparr> clock rnd6 rnd12"

definition writer_event ::
  "(header \<Rightarrow> body \<Rightarrow> envelope option) \<Rightarrow> sse_writer \<Rightarrow> jstr \<Rightarrow> (jstr \<times> json) list \<Rightarrow> int \<Rightarrow> bytes \<Rightarrow> bytes \<Rightarrow> sse_writer \<times> jstr option" where
  "writer_event sign wr kind payload clock rnd6 rnd12 =
    (let (h, b) = event_envelope wr payload clock rnd6 rnd12 in
     (wr\<lparr>sw_seq := Suc (sw_seq wr)\<rparr>, map_option (\<lambda>e. sse_text (sw_seq wr) kind (print_json (envelope_json e))) (sign h b)))"

definition writer_message ::
  "(header \<Rightarrow> body \<Rightarrow> envelope option) \<Rightarrow> sse_writer \<Rightarrow> json \<Rightarrow> int \<Rightarrow> bytes \<Rightarrow> bytes \<Rightarrow> sse_writer \<times> jstr option" where
  "writer_message sign wr m clock rnd6 rnd12 =
    (if sw_ended wr then (wr, None) else writer_event sign wr (js ''message'') [(js ''message'', m)] clock rnd6 rnd12)"

definition end_payload :: "nat \<Rightarrow> (jstr \<times> json) list" where
  "end_payload cnt = [(js ''end'', JBool True), (js ''count'', JNum (Fin (int cnt)))]"

definition writer_end ::
  "(header \<Rightarrow> body \<Rightarrow> envelope option) \<Rightarrow> sse_writer \<Rightarrow> int \<Rightarrow> bytes \<Rightarrow> bytes \<Rightarrow> sse_writer \<times> jstr option" where
  "writer_end sign wr clock rnd6 rnd12 =
    (if sw_ended wr then (wr, None)
     else let (wr', text) = writer_event sign wr (js ''end'') (end_payload (sw_seq wr)) clock rnd6 rnd12 in
       (case text of None \<Rightarrow> (wr', None) | Some t \<Rightarrow> (wr'\<lparr>sw_ended := True\<rparr>, Some t)))"

definition keepAlive :: jstr where
  "keepAlive = js '': keep-alive'' @ [10, 10]"

section \<open>The reader\<close>

datatype sse_failure =
    VerificationFailed | WrongSender | WrongRecipient | MalformedEvent | StreamMismatch | SequenceError | EventAfterEnd
  | CountMismatch | StreamTruncated | EventTooLarge | TooManyEvents

text \<open>\<open>Uncaught\<close>: an exception of the receiver or of its options, which the reader does not remember.\<close>

datatype sse_error = Violation sse_failure | Uncaught

record 'w sse_config =
  sg_self :: jstr
  sg_peer :: jstr
  sg_receive :: "'w receive_options"
  sg_streamId :: "jstr option"
  sg_correlationId :: "jstr option"
  sg_maxEventBytes :: nat
  sg_maxEvents :: nat

record sse_reader =
  rd_buffer :: jstr
  rd_started :: bool
  rd_lastWasCr :: bool
  rd_data :: "jstr list"
  rd_type :: jstr
  rd_size :: nat
  rd_expectedSeq :: nat
  rd_streamId :: "jstr option"
  rd_ended :: bool
  rd_failed :: "sse_failure option"
  rd_events :: nat

definition newSseReader :: "'w sse_config \<Rightarrow> sse_reader" where
  "newSseReader cfg = \<lparr>rd_buffer = [], rd_started = False, rd_lastWasCr = False, rd_data = [], rd_type = [], rd_size = 0,
     rd_expectedSeq = 0, rd_streamId = sg_streamId cfg, rd_ended = False, rd_failed = None, rd_events = 0\<rparr>"

text \<open>\<open>requireSignature\<close> cannot be weakened; the replay cache given is used, or an in-memory one of the session.\<close>

definition sse_receive_options :: "'w sse_config \<Rightarrow> 'w receive_options" where
  "sse_receive_options cfg = (sg_receive cfg)\<lparr>op_requireSignature := Some True\<rparr>"

subsection \<open>Lines\<close>

text \<open>The first line of the buffer and what follows its terminator: CR LF, LF or CR.\<close>

fun next_line :: "jstr \<Rightarrow> (jstr \<times> jstr) option" where
  "next_line [] = None"
| "next_line (c # cs) =
    (if c = 10 then Some ([], cs)
     else if c = 13 then (case cs of [] \<Rightarrow> Some ([], []) | d # ds \<Rightarrow> if d = 10 then Some ([], ds) else Some ([], d # ds))
     else map_option (\<lambda>(l, r). (c # l, r)) (next_line cs))"

lemma next_line_length: "next_line s = Some (l, r) \<Longrightarrow> length r < length s"
  by (induction s arbitrary: l) (auto split: if_splits list.splits)

definition sse_fail :: "sse_reader \<Rightarrow> sse_failure \<Rightarrow> sse_reader" where
  "sse_fail rd f = rd\<lparr>rd_failed := Some f\<rparr>"

text \<open>\<open>line.indexOf(':')\<close> and the two sides of it; a value loses one leading space.\<close>

definition field_name :: "jstr \<Rightarrow> jstr" where
  "field_name l = takeWhile (\<lambda>c. c \<noteq> 58) l"

definition field_value :: "jstr \<Rightarrow> jstr" where
  "field_value l =
    (let v = drop 1 (dropWhile (\<lambda>c. c \<noteq> 58) l) in case v of [] \<Rightarrow> [] | c # cs \<Rightarrow> if c = 32 then cs else c # cs)"

text \<open>One line: \<open>Inl\<close> a failure, \<open>Inr\<close> the data of an event that is complete, if any.\<close>

definition sse_line :: "'w sse_config \<Rightarrow> sse_reader \<Rightarrow> jstr \<Rightarrow> sse_reader \<times> (sse_failure + jstr option)" where
  "sse_line cfg rd l =
    (if l = [] then
       (rd\<lparr>rd_data := [], rd_type := [], rd_size := 0\<rparr>,
        Inr (if rd_data rd = [] then None else Some (join_with [10] (rd_data rd))))
     else if hd l = 58 then (rd, Inr None)
     else if field_name l = js ''data'' then
       (let rd1 = rd\<lparr>rd_size := rd_size rd + length (field_value l) + 1\<rparr> in
        if sg_maxEventBytes cfg < rd_size rd1 then (sse_fail rd1 EventTooLarge, Inl EventTooLarge)
        else (rd1\<lparr>rd_data := rd_data rd1 @ [field_value l]\<rparr>, Inr None))
     else if field_name l = js ''event'' then (rd\<lparr>rd_type := field_value l\<rparr>, Inr None)
     else (rd, Inr None))"

subsection \<open>Events\<close>

datatype sse_message = SseMessage nat json

text \<open>\<open>handle\<close> after the envelope was accepted: sender, recipient, correlation, stream, order, end.\<close>

definition check_envelope :: "'w sse_config \<Rightarrow> json \<Rightarrow> sse_failure option" where
  "check_envelope cfg e =
    (let h = the (jmember e ''header''); b = the (jmember e ''body'') in
     if jmember h ''sender'' \<noteq> Some (JStr (sg_peer cfg)) then Some WrongSender
     else if jmember h ''recipient'' \<noteq> Some (JStr (sg_self cfg)) then Some WrongRecipient
     else if sg_correlationId cfg \<noteq> None \<and> jmember b ''correlationId'' \<noteq> map_option JStr (sg_correlationId cfg) then Some StreamMismatch
     else None)"

definition is_number :: "json option \<Rightarrow> bool" where
  "is_number v = (case v of Some (JNum n) \<Rightarrow> True | _ \<Rightarrow> False)"

definition is_rpc_message :: "json option \<Rightarrow> bool" where
  "is_rpc_message v = (case v of Some (JObj kvs) \<Rightarrow> jmember (JObj kvs) ''jsonrpc'' = Some (JStr (js ''2.0'')) | _ \<Rightarrow> False)"

definition handle_payload :: "sse_reader \<Rightarrow> json \<Rightarrow> sse_reader \<times> (sse_failure + sse_message option)" where
  "handle_payload rd p =
    (case (jmember p ''stream'', is_number (jmember p ''seq'')) of
       (Some (JStr s), True) \<Rightarrow>
         if rd_streamId rd \<noteq> None \<and> rd_streamId rd \<noteq> Some s then (sse_fail rd StreamMismatch, Inl StreamMismatch)
         else let rd1 = rd\<lparr>rd_streamId := Some s\<rparr> in
           if jmember p ''seq'' \<noteq> Some (JNum (Fin (int (rd_expectedSeq rd1)))) then (sse_fail rd1 SequenceError, Inl SequenceError)
           else let rd2 = rd1\<lparr>rd_expectedSeq := Suc (rd_expectedSeq rd1)\<rparr> in
             if jmember p ''end'' = Some (JBool True) then
               (if jmember p ''count'' \<noteq> jmember p ''seq'' then (sse_fail rd2 CountMismatch, Inl CountMismatch)
                else (rd2\<lparr>rd_ended := True\<rparr>, Inr None))
             else if is_rpc_message (jmember p ''message'') then (rd2, Inr (Some (SseMessage (rd_expectedSeq rd1) (the (jmember p ''message'')))))
             else (sse_fail rd2 MalformedEvent, Inl MalformedEvent)
     | _ \<Rightarrow> (sse_fail rd MalformedEvent, Inl MalformedEvent))"

fun sse_outcome :: "sse_failure + 'a \<Rightarrow> sse_error + 'a" where
  "sse_outcome (Inl f) = Inl (Violation f)"
| "sse_outcome (Inr x) = Inr x"

definition sse_handle ::
  "crypto \<Rightarrow> (jstr \<Rightarrow> json option) \<Rightarrow> 'w sse_config \<Rightarrow> int \<Rightarrow> sse_reader \<Rightarrow> 'w \<Rightarrow> jstr \<Rightarrow> sse_reader \<times> 'w \<times> (sse_error + sse_message option)" where
  "sse_handle C parse cfg now rd w ev =
    (if rd_ended rd then (sse_fail rd EventAfterEnd, w, Inl (Violation EventAfterEnd))
     else let rd1 = rd\<lparr>rd_events := Suc (rd_events rd)\<rparr> in
       if sg_maxEvents cfg < rd_events rd1 then (sse_fail rd1 TooManyEvents, w, Inl (Violation TooManyEvents))
       else (case run (receiveEnvelope C parse (sse_receive_options cfg) now (Wire (WireText ev))) w of
         (w1, None) \<Rightarrow> (rd1, w1, Inl Uncaught)
       | (w1, Some v) \<Rightarrow>
           (case (rr_ok v, rr_envelope v) of
              (True, Some e) \<Rightarrow>
                (case check_envelope cfg e of
                   Some f \<Rightarrow> (sse_fail rd1 f, w1, Inl (Violation f))
                 | None \<Rightarrow>
                     (case parse (template_text (jmember (the (jmember e ''body'')) ''content'')) of
                        None \<Rightarrow> (sse_fail rd1 MalformedEvent, w1, Inl (Violation MalformedEvent))
                      | Some p \<Rightarrow> (let (rd2, r) = handle_payload rd1 p in (rd2, w1, sse_outcome r))))
            | _ \<Rightarrow> (sse_fail rd1 VerificationFailed, w1, Inl (Violation VerificationFailed)))))"

subsection \<open>Chunks\<close>

text \<open>
  The loop of \<open>feed\<close>: complete lines one by one, then the size of what is left. While it
  runs the buffer is an argument of its own, stored back when it ends.
\<close>

function feed_loop ::
  "crypto \<Rightarrow> (jstr \<Rightarrow> json option) \<Rightarrow> 'w sse_config \<Rightarrow> int \<Rightarrow> sse_reader \<Rightarrow> 'w \<Rightarrow> jstr \<Rightarrow> sse_message list
    \<Rightarrow> sse_reader \<times> 'w \<times> (sse_error + sse_message list)" where
  "feed_loop C parse cfg now rd w buf out =
    (case next_line buf of
       None \<Rightarrow>
         if sg_maxEventBytes cfg < length buf
         then (sse_fail (rd\<lparr>rd_buffer := buf\<rparr>) EventTooLarge, w, Inl (Violation EventTooLarge))
         else (rd\<lparr>rd_buffer := buf\<rparr>, w, Inr out)
     | Some (l, rest) \<Rightarrow>
         (case sse_line cfg rd l of
            (rd1, Inl f) \<Rightarrow> (rd1\<lparr>rd_buffer := rest\<rparr>, w, Inl (Violation f))
          | (rd1, Inr None) \<Rightarrow> feed_loop C parse cfg now rd1 w rest out
          | (rd1, Inr (Some ev)) \<Rightarrow>
              (case sse_handle C parse cfg now rd1 w ev of
                 (rd2, w2, Inl f) \<Rightarrow> (rd2\<lparr>rd_buffer := rest\<rparr>, w2, Inl f)
               | (rd2, w2, Inr None) \<Rightarrow> feed_loop C parse cfg now rd2 w2 rest out
               | (rd2, w2, Inr (Some m)) \<Rightarrow> feed_loop C parse cfg now rd2 w2 rest (out @ [m]))))"
  by pat_completeness auto
termination by (relation "measure (\<lambda>(C, parse, cfg, now, rd, w, buf, out). length buf)") (auto dest: next_line_length)

declare feed_loop.simps [simp del]

definition strip_bom :: "bool \<Rightarrow> jstr \<Rightarrow> jstr" where
  "strip_bom started chunk = (if \<not> started \<and> chunk \<noteq> [] \<and> hd chunk = 0xFEFF then tl chunk else chunk)"

definition strip_lf :: "bool \<Rightarrow> jstr \<Rightarrow> jstr" where
  "strip_lf lastWasCr chunk = (if lastWasCr \<and> chunk \<noteq> [] \<and> hd chunk = 10 then tl chunk else chunk)"

definition sse_feed ::
  "crypto \<Rightarrow> (jstr \<Rightarrow> json option) \<Rightarrow> 'w sse_config \<Rightarrow> int \<Rightarrow> sse_reader \<Rightarrow> 'w \<Rightarrow> jstr \<Rightarrow> sse_reader \<times> 'w \<times> (sse_error + sse_message list)" where
  "sse_feed C parse cfg now rd w chunk =
    (case rd_failed rd of
       Some f \<Rightarrow> (rd, w, Inl (Violation f))
     | None \<Rightarrow>
         (let c = strip_lf (rd_lastWasCr rd) (strip_bom (rd_started rd) chunk);
              rd1 = rd\<lparr>rd_buffer := [], rd_started := True, rd_lastWasCr := (c \<noteq> [] \<and> last c = 13)\<rparr>
          in feed_loop C parse cfg now rd1 w (rd_buffer rd @ c) []))"

definition sse_finish :: "sse_reader \<Rightarrow> sse_failure option" where
  "sse_finish rd = (case rd_failed rd of Some f \<Rightarrow> Some f | None \<Rightarrow> if rd_ended rd then None else Some StreamTruncated)"

text \<open>
  \<open>readSignedSse\<close>: the chunks as the decoder yields them, \<open>None\<close> where it finds invalid
  UTF-8, each with the clock. The messages yielded before an error count.
\<close>

fun readSignedSse ::
  "crypto \<Rightarrow> (jstr \<Rightarrow> json option) \<Rightarrow> 'w sse_config \<Rightarrow> sse_reader \<Rightarrow> 'w \<Rightarrow> (jstr option \<times> int) list \<Rightarrow> sse_message list \<times> sse_error option" where
  "readSignedSse C parse cfg rd w [] = ([], map_option Violation (sse_finish rd))"
| "readSignedSse C parse cfg rd w ((None, now) # cs) = ([], Some (Violation MalformedEvent))"
| "readSignedSse C parse cfg rd w ((Some chunk, now) # cs) =
    (case sse_feed C parse cfg now rd w chunk of
       (rd1, w1, Inl f) \<Rightarrow> ([], Some f)
     | (rd1, w1, Inr ms) \<Rightarrow> (let (rest, oe) = readSignedSse C parse cfg rd1 w1 cs in (ms @ rest, oe)))"

end
