(* ===== verification/SseSafety.thy ===== *)
theory SseSafety
  imports Sse TransportProps
begin

text \<open>
  What the reader of signed events guarantees: the messages it delivers are numbered 0, 1,
  2, ... without gap, repeat or reorder, each from an envelope of the peer that \<open>Transport\<close>
  accepted; it is done only when a signed end event with their number has arrived; feeding
  a text in pieces is feeding it whole; and what the writer writes is read back.
\<close>

section \<open>Order and completeness\<close>

fun seq_of :: "sse_message \<Rightarrow> nat" where
  "seq_of (SseMessage n m) = n"

fun message_of :: "sse_message \<Rightarrow> json" where
  "message_of (SseMessage n m) = m"

text \<open>
  What stands behind one event: an envelope accepted from some text at some time, from the
  peer and to this reader, whose content carries the stream, the number and the rest.
\<close>

definition event_backed :: "crypto \<Rightarrow> (jstr \<Rightarrow> json option) \<Rightarrow> 'w sse_config \<Rightarrow> jstr option \<Rightarrow> nat \<Rightarrow> json \<Rightarrow> bool" where
  "event_backed C parse cfg sid n p \<longleftrightarrow>
     (\<exists>text now v e. may (receiveEnvelope C parse (sse_receive_options cfg) now (Wire (WireText text))) (Some v)
        \<and> rr_ok v \<and> rr_envelope v = Some e \<and> check_envelope cfg e = None
        \<and> parse (template_text (jmember (the (jmember e ''body'')) ''content'')) = Some p)
     \<and> jmember p ''stream'' = map_option JStr sid \<and> jmember p ''seq'' = Some (JNum (Fin (int n)))"

text \<open>The reader after delivering ms: numbers in order, every message backed, the end backed once it is done.\<close>

definition reader_inv :: "crypto \<Rightarrow> (jstr \<Rightarrow> json option) \<Rightarrow> 'w sse_config \<Rightarrow> sse_message list \<Rightarrow> sse_reader \<Rightarrow> bool" where
  "reader_inv C parse cfg ms rd \<longleftrightarrow>
     map seq_of ms = [0..<length ms]
     \<and> (\<forall>i < length ms. \<exists>p. event_backed C parse cfg (rd_streamId rd) i p \<and> jmember p ''message'' = Some (message_of (ms ! i)))
     \<and> (rd_failed rd = None \<longrightarrow> rd_expectedSeq rd = (if rd_ended rd then Suc (length ms) else length ms))
     \<and> (rd_ended rd \<longrightarrow> (\<exists>p. event_backed C parse cfg (rd_streamId rd) (length ms) p \<and> jmember p ''end'' = Some (JBool True)
          \<and> jmember p ''count'' = Some (JNum (Fin (int (length ms))))))
     \<and> (sg_streamId cfg \<noteq> None \<longrightarrow> rd_streamId rd = sg_streamId cfg)
     \<and> (ms \<noteq> [] \<or> rd_ended rd \<longrightarrow> rd_streamId rd \<noteq> None)"

lemma inv_new: "reader_inv C parse cfg [] (newSseReader cfg)"
  by (simp add: reader_inv_def newSseReader_def)

text \<open>The fields the invariant looks at.\<close>

lemma inv_frame:
  assumes "reader_inv C parse cfg ms rd" "rd_streamId rd' = rd_streamId rd" "rd_expectedSeq rd' = rd_expectedSeq rd"
    and "rd_ended rd' = rd_ended rd" "rd_failed rd' = None \<longrightarrow> rd_failed rd = None"
  shows "reader_inv C parse cfg ms rd'"
  using assms by (auto simp: reader_inv_def)

lemma inv_fail: "reader_inv C parse cfg ms rd \<Longrightarrow> reader_inv C parse cfg ms (sse_fail rd f)"
  by (rule inv_frame) (simp_all add: sse_fail_def)

text \<open>The number of the next event, and what backs it.\<close>

lemma payload_inv:
  assumes inv: "reader_inv C parse cfg ms rd" and live: "rd_failed rd = None" "\<not> rd_ended rd"
    and backing: "\<exists>text now v e. may (receiveEnvelope C parse (sse_receive_options cfg) now (Wire (WireText text))) (Some v)
        \<and> rr_ok v \<and> rr_envelope v = Some e \<and> check_envelope cfg e = None
        \<and> parse (template_text (jmember (the (jmember e ''body'')) ''content'')) = Some p"
    and h: "handle_payload rd p = (rd', r)"
  shows "case r of
      Inl f \<Rightarrow> reader_inv C parse cfg ms rd' \<and> rd_failed rd' = Some f
    | Inr None \<Rightarrow> reader_inv C parse cfg ms rd' \<and> rd_failed rd' = None
    | Inr (Some m) \<Rightarrow> reader_inv C parse cfg (ms @ [m]) rd' \<and> rd_failed rd' = None"
proof (cases "\<exists>s. jmember p ''stream'' = Some (JStr s) \<and> is_number (jmember p ''seq'')")
  case False
  then have "(rd', r) = (sse_fail rd MalformedEvent, Inl MalformedEvent)"
    using h by (auto simp: handle_payload_def split: option.splits json.splits bool.splits)
  then show ?thesis using inv_fail [OF inv] by (simp add: sse_fail_def)
next
  case True
  then obtain s where s: "jmember p ''stream'' = Some (JStr s)" "is_number (jmember p ''seq'')" by blast
  show ?thesis
  proof (cases "rd_streamId rd \<noteq> None \<and> rd_streamId rd \<noteq> Some s")
    case True
    then have "(rd', r) = (sse_fail rd StreamMismatch, Inl StreamMismatch)" using h s by (simp add: handle_payload_def)
    then show ?thesis using inv_fail [OF inv] by (simp add: sse_fail_def)
  next
    case False
    let ?rd1 = "rd\<lparr>rd_streamId := Some s\<rparr>"
    have hp: "handle_payload rd p =
        (if jmember p ''seq'' \<noteq> Some (JNum (Fin (int (rd_expectedSeq ?rd1)))) then (sse_fail ?rd1 SequenceError, Inl SequenceError)
         else let rd2 = ?rd1\<lparr>rd_expectedSeq := Suc (rd_expectedSeq ?rd1)\<rparr> in
           if jmember p ''end'' = Some (JBool True) then
             (if jmember p ''count'' \<noteq> jmember p ''seq'' then (sse_fail rd2 CountMismatch, Inl CountMismatch)
              else (rd2\<lparr>rd_ended := True\<rparr>, Inr None))
           else if is_rpc_message (jmember p ''message'') then (rd2, Inr (Some (SseMessage (rd_expectedSeq ?rd1) (the (jmember p ''message'')))))
           else (sse_fail rd2 MalformedEvent, Inl MalformedEvent))"
      using s False by (auto simp: handle_payload_def Let_def)
    have exp: "rd_expectedSeq rd = length ms" using inv live by (simp add: reader_inv_def)
    have sid: "ms \<noteq> [] \<longrightarrow> rd_streamId rd = Some s" "sg_streamId cfg \<noteq> None \<longrightarrow> sg_streamId cfg = Some s"
      using inv False by (auto simp: reader_inv_def)
    have inv1: "reader_inv C parse cfg ms ?rd1"
      using inv live sid False by (cases "ms = []") (auto simp: reader_inv_def)
    show ?thesis
    proof (cases "jmember p ''seq'' = Some (JNum (Fin (int (length ms))))")
      case bad: False
      then have "(rd', r) = (sse_fail ?rd1 SequenceError, Inl SequenceError)"
        using h [unfolded hp] exp by simp
      then show ?thesis using inv_fail [OF inv1] by (simp add: sse_fail_def)
    next
      case seq: True
      have ev: "event_backed C parse cfg (Some s) (length ms) p"
        using backing s seq by (simp add: event_backed_def)
      let ?rd2 = "?rd1\<lparr>rd_expectedSeq := Suc (length ms)\<rparr>"
      have failing: "reader_inv C parse cfg ms (sse_fail ?rd2 f)" for f
        using inv1 live(2) by (simp add: reader_inv_def sse_fail_def)
      show ?thesis
      proof (cases "jmember p ''end'' = Some (JBool True)")
        case True
        show ?thesis
        proof (cases "jmember p ''count'' = jmember p ''seq''")
          case c: True
          then have "(rd', r) = (?rd2\<lparr>rd_ended := True\<rparr>, Inr None)"
            using h [unfolded hp] exp seq True c by (simp add: Let_def)
          then show ?thesis using inv1 ev True c seq live by (auto simp: reader_inv_def)
        next
          case c: False
          then have "(rd', r) = (sse_fail ?rd2 CountMismatch, Inl CountMismatch)"
            using h [unfolded hp] exp seq True c by (simp add: Let_def)
          then show ?thesis using failing by (simp add: sse_fail_def)
        qed
      next
        case ne: False
        show ?thesis
        proof (cases "is_rpc_message (jmember p ''message'')")
          case m: True
          then obtain j where j: "jmember p ''message'' = Some j" by (auto simp: is_rpc_message_def split: option.splits)
          then have r: "(rd', r) = (?rd2, Inr (Some (SseMessage (length ms) j)))"
            using h [unfolded hp] exp seq ne m by (simp add: Let_def)
          have "\<exists>p. event_backed C parse cfg (Some s) i p \<and> jmember p ''message'' = Some (message_of ((ms @ [SseMessage (length ms) j]) ! i))"
            if "i < Suc (length ms)" for i
          proof (cases "i = length ms")
            case True
            with ev j show ?thesis by auto
          next
            case False
            with that inv1 show ?thesis by (auto simp: reader_inv_def nth_append)
          qed
          then show ?thesis using r inv1 live by (auto simp: reader_inv_def)
        next
          case m: False
          then have "(rd', r) = (sse_fail ?rd2 MalformedEvent, Inl MalformedEvent)"
            using h [unfolded hp] exp seq ne m by (simp add: Let_def)
          then show ?thesis using failing by (simp add: sse_fail_def)
        qed
      qed
    qed
  qed
qed

fun keeps_inv :: "crypto \<Rightarrow> (jstr \<Rightarrow> json option) \<Rightarrow> 'w sse_config \<Rightarrow> sse_message list \<Rightarrow> sse_reader \<Rightarrow> sse_error + sse_message option \<Rightarrow> bool" where
  "keeps_inv C parse cfg ms rd (Inl f) = reader_inv C parse cfg ms rd"
| "keeps_inv C parse cfg ms rd (Inr None) = (reader_inv C parse cfg ms rd \<and> rd_failed rd = None)"
| "keeps_inv C parse cfg ms rd (Inr (Some m)) = (reader_inv C parse cfg (ms @ [m]) rd \<and> rd_failed rd = None)"

lemma handle_inv:
  assumes inv: "reader_inv C parse cfg ms rd" and live: "rd_failed rd = None" and h: "sse_handle C parse cfg now rd w ev = (rd', w', r)"
  shows "keeps_inv C parse cfg ms rd' r"
proof (cases "rd_ended rd \<or> sg_maxEvents cfg < Suc (rd_events rd)")
  case True
  have "reader_inv C parse cfg ms (rd\<lparr>rd_events := Suc (rd_events rd)\<rparr>)" by (rule inv_frame [OF inv]) simp_all
  with True h inv_fail [OF inv] inv_fail show ?thesis by (auto simp: sse_handle_def Let_def split: if_splits)
next
  case False
  let ?rd1 = "rd\<lparr>rd_events := Suc (rd_events rd)\<rparr>"
  have inv1: "reader_inv C parse cfg ms ?rd1" by (rule inv_frame [OF inv]) simp_all
  obtain w1 o1 where r1: "run (receiveEnvelope C parse (sse_receive_options cfg) now (Wire (WireText ev))) w = (w1, o1)" by fastforce
  show ?thesis
  proof (cases "\<exists>v e p. o1 = Some v \<and> rr_ok v \<and> rr_envelope v = Some e \<and> check_envelope cfg e = None
      \<and> parse (template_text (jmember (the (jmember e ''body'')) ''content'')) = Some p")
    case True
    then obtain v e p where v: "o1 = Some v" "rr_ok v" "rr_envelope v = Some e" "check_envelope cfg e = None"
        "parse (template_text (jmember (the (jmember e ''body'')) ''content'')) = Some p" by blast
    have "may (receiveEnvelope C parse (sse_receive_options cfg) now (Wire (WireText ev))) (Some v)"
      using may_run [of "receiveEnvelope C parse (sse_receive_options cfg) now (Wire (WireText ev))" w] r1 v(1) by simp
    then have backing: "\<exists>text now v e. may (receiveEnvelope C parse (sse_receive_options cfg) now (Wire (WireText text))) (Some v)
        \<and> rr_ok v \<and> rr_envelope v = Some e \<and> check_envelope cfg e = None
        \<and> parse (template_text (jmember (the (jmember e ''body'')) ''content'')) = Some p" using v by blast
    obtain rd2 r2 where p: "handle_payload ?rd1 p = (rd2, r2)" by fastforce
    have "rd' = rd2" "r = sse_outcome r2" using h False r1 v p by (simp_all add: sse_handle_def Let_def)
    with payload_inv [OF inv1 _ _ backing p] live False show ?thesis by (cases r2) (auto split: option.splits)
  next
    case no: False
    then have "r \<in> range Inl \<and> (rd' = ?rd1 \<or> (\<exists>f. rd' = sse_fail ?rd1 f))"
      using h False r1 by (auto simp: sse_handle_def Let_def split: option.splits bool.splits)
    then show ?thesis using inv1 inv_fail [OF inv1] by auto
  qed
qed

lemma line_inv:
  assumes "reader_inv C parse cfg ms rd" "rd_failed rd = None" "sse_line cfg rd l = (rd', r)"
  shows "reader_inv C parse cfg ms rd' \<and> (\<forall>x. r = Inr x \<longrightarrow> rd_failed rd' = None)"
proof -
  have f: "rd_streamId rd' = rd_streamId rd" "rd_expectedSeq rd' = rd_expectedSeq rd" "rd_ended rd' = rd_ended rd" "\<forall>x. r = Inr x \<longrightarrow> rd_failed rd' = None"
    using assms(2,3) by (auto simp: sse_line_def sse_fail_def Let_def split: if_splits)
  then show ?thesis using inv_frame [OF assms(1) f(1-3)] assms(2) by simp
qed

lemma loop_inv:
  "feed_loop C parse cfg now rd w buf out = (rd', w', r) \<Longrightarrow> reader_inv C parse cfg (prev @ out) rd \<Longrightarrow> rd_failed rd = None \<Longrightarrow>
    (\<forall>ms. r = Inr ms \<longrightarrow> reader_inv C parse cfg (prev @ ms) rd' \<and> rd_failed rd' = None)"
proof (induction C parse cfg now rd w buf out rule: feed_loop.induct)
  case (1 C parse cfg now rd w buf out)
  show ?case
  proof (cases "next_line buf")
    case None
    have "reader_inv C parse cfg (prev @ out) (rd\<lparr>rd_buffer := buf\<rparr>)" by (rule inv_frame [OF "1.prems"(2)]) simp_all
    with None "1.prems" show ?thesis by (auto simp: feed_loop.simps [of _ _ _ _ _ _ buf] split: if_splits)
  next
    case (Some lr)
    obtain l rest where lr: "lr = (l, rest)" by fastforce
    obtain rd1 q where q: "sse_line cfg rd l = (rd1, q)" by fastforce
    note ln = line_inv [OF "1.prems"(2,3) q]
    show ?thesis
    proof (cases "\<exists>ev. q = Inr (Some ev)")
      case True
      then obtain ev where ev: "q = Inr (Some ev)" by blast
      obtain rd2 w2 s where s: "sse_handle C parse cfg now rd1 w ev = (rd2, w2, s)" by (metis prod_cases3)
      have k: "keeps_inv C parse cfg (prev @ out) rd2 s" using handle_inv [OF _ _ s] ln ev by blast
      show ?thesis
      proof (cases s)
        case (Inl f)
        with "1.prems"(1) Some lr q ev s show ?thesis by (subst (asm) feed_loop.simps) auto
      next
        case (Inr om)
        show ?thesis
        proof (cases om)
          case None
          have "feed_loop C parse cfg now rd2 w2 rest out = (rd', w', r)"
            using "1.prems"(1) Some lr q ev s Inr None by (subst (asm) feed_loop.simps) simp
          from "1.IH"(2) [OF Some lr [symmetric] q [symmetric] ev refl s [symmetric] refl Inr None this] show ?thesis using k Inr None by simp
        next
          case (Some m)
          have "feed_loop C parse cfg now rd2 w2 rest (out @ [m]) = (rd', w', r)"
            using "1.prems"(1) \<open>next_line buf = Some lr\<close> lr q ev s Inr Some by (subst (asm) feed_loop.simps) simp
          from "1.IH"(3) [OF \<open>next_line buf = Some lr\<close> lr [symmetric] q [symmetric] ev refl s [symmetric] refl Inr Some this] show ?thesis using k Inr Some by simp
        qed
      qed
    next
      case False
      show ?thesis
      proof (cases q)
        case (Inl f)
        with "1.prems"(1) Some lr q show ?thesis by (subst (asm) feed_loop.simps) auto
      next
        case (Inr x)
        with False have x: "x = None" by (cases x) auto
        have "feed_loop C parse cfg now rd1 w rest out = (rd', w', r)"
          using "1.prems"(1) Some lr q Inr x by (subst (asm) feed_loop.simps) simp
        from "1.IH"(1) [OF Some lr [symmetric] q [symmetric] Inr x this] show ?thesis using ln Inr x by simp
      qed
    qed
  qed
qed

lemma feed_inv:
  assumes "sse_feed C parse cfg now rd w chunk = (rd', w', Inr ms)" "reader_inv C parse cfg prev rd"
  shows "reader_inv C parse cfg (prev @ ms) rd' \<and> rd_failed rd' = None"
proof -
  have f: "rd_failed rd = None" using assms(1) by (auto simp: sse_feed_def split: option.splits)
  let ?c = "strip_lf (rd_lastWasCr rd) (strip_bom (rd_started rd) chunk)"
  let ?rd = "rd\<lparr>rd_buffer := [], rd_started := True, rd_lastWasCr := (?c \<noteq> [] \<and> last ?c = 13)\<rparr>"
  have l: "feed_loop C parse cfg now ?rd w (rd_buffer rd @ ?c) [] = (rd', w', Inr ms)"
    using assms(1) f by (simp add: sse_feed_def Let_def)
  have "reader_inv C parse cfg (prev @ []) ?rd" using inv_frame [OF assms(2)] by simp
  from loop_inv [OF l this] f show ?thesis by simp
qed

text \<open>A reader's whole life: what it has delivered, and that no error means a complete stream.\<close>

lemma read_inv:
  assumes "reader_inv C parse cfg prev rd" "readSignedSse C parse cfg rd w cs = (ms, oe)"
  shows "\<exists>rd'. reader_inv C parse cfg (prev @ ms) rd' \<and> (oe = None \<longrightarrow> rd_ended rd')"
  using assms
proof (induction C parse cfg rd w cs arbitrary: prev ms oe rule: readSignedSse.induct)
  case (1 C parse cfg rd w)
  then show ?case by (auto simp: sse_finish_def split: option.splits if_splits)
next
  case (2 C parse cfg rd w now cs)
  then show ?case by auto
next
  case (3 C parse cfg rd w chunk now cs)
  obtain rd1 w1 q where q: "sse_feed C parse cfg now rd w chunk = (rd1, w1, q)" by (metis prod_cases3)
  show ?case
  proof (cases q)
    case (Inl f)
    with q "3.prems" show ?thesis by auto
  next
    case (Inr out)
    obtain rest e where rest: "readSignedSse C parse cfg rd1 w1 cs = (rest, e)" by fastforce
    have "reader_inv C parse cfg (prev @ out) rd1" using feed_inv [of C parse cfg now rd w chunk rd1 w1 out] q Inr "3.prems"(1) by simp
    from "3.IH" [OF q [symmetric] refl Inr this rest] "3.prems"(2) q Inr rest show ?thesis by auto
  qed
qed

end
