(* ===== verification/SseProps.thy ===== *)
theory SseProps
  imports SseSafety
begin

text \<open>
  The properties of signed event streams: what is delivered and when a stream is complete
  (from \<open>SseSafety\<close>), that feeding a text whole or in two pieces is the same, and that what
  the writer writes is what the reader delivers.
\<close>

section \<open>Feeding in pieces\<close>

lemma next_line_append:
  "next_line s = Some (l, rest) \<Longrightarrow> next_line (s @ t) = Some (l, if rest = [] \<and> last s = 13 then strip_lf True t else rest @ t)"
proof (induction s arbitrary: l)
  case (Cons c cs)
  show ?case
  proof (cases "c = 10 \<or> c = 13")
    case True
    with Cons.prems show ?thesis by (cases cs; cases t) (auto simp: strip_lf_def split: if_splits)
  next
    case False
    then obtain l' where l': "next_line cs = Some (l', rest)" "l = c # l'" using Cons.prems by auto
    then have "cs \<noteq> []" by auto
    with False Cons.IH [OF l'(1)] l'(2) show ?thesis by simp
  qed
qed simp

lemma next_line_last: "next_line s = Some (l, rest) \<Longrightarrow> rest \<noteq> [] \<Longrightarrow> last rest = last s"
proof (induction s arbitrary: l)
  case (Cons c cs)
  then show ?case by (cases cs) (auto split: if_splits)
qed simp

lemma next_line_none: "next_line s = None \<longleftrightarrow> 10 \<notin> set s \<and> 13 \<notin> set s"
proof (induction s)
  case (Cons c cs)
  then show ?case by (cases cs) auto
qed simp

lemma line_cr: "sse_line cfg (rd\<lparr>rd_lastWasCr := b\<rparr>) l = apfst (rd_lastWasCr_update (\<lambda>_. b)) (sse_line cfg rd l)"
  by (simp add: sse_line_def sse_fail_def Let_def)

lemma payload_cr: "handle_payload (rd\<lparr>rd_lastWasCr := b\<rparr>) p = apfst (rd_lastWasCr_update (\<lambda>_. b)) (handle_payload rd p)"
proof (cases "\<exists>t. jmember p ''stream'' = Some (JStr t)")
  case True
  then obtain t where "jmember p ''stream'' = Some (JStr t)" by blast
  then show ?thesis by (cases "rd_streamId rd"; cases "is_number (jmember p ''seq'')") (simp_all add: handle_payload_def sse_fail_def Let_def)
next
  case False
  then show ?thesis by (auto simp: handle_payload_def sse_fail_def split: option.split json.split)
qed

lemma handle_cr: "sse_handle C parse cfg now (rd\<lparr>rd_lastWasCr := b\<rparr>) w ev = apfst (rd_lastWasCr_update (\<lambda>_. b)) (sse_handle C parse cfg now rd w ev)"
proof -
  have "handle_payload (rd\<lparr>rd_lastWasCr := b, rd_events := n\<rparr>) p = apfst (rd_lastWasCr_update (\<lambda>_. b)) (handle_payload (rd\<lparr>rd_events := n\<rparr>) p)" for n p
  proof -
    have "rd\<lparr>rd_lastWasCr := b, rd_events := n\<rparr> = (rd\<lparr>rd_events := n\<rparr>)\<lparr>rd_lastWasCr := b\<rparr>" by (cases rd) simp
    then show ?thesis by (simp only: payload_cr)
  qed
  then show ?thesis
    by (simp add: sse_handle_def sse_fail_def Let_def split: prod.split option.split bool.split)
qed

lemma loop_cr:
  "feed_loop C parse cfg now (rd\<lparr>rd_lastWasCr := b\<rparr>) w buf out = apfst (rd_lastWasCr_update (\<lambda>_. b)) (feed_loop C parse cfg now rd w buf out)"
proof (induction C parse cfg now rd w buf out rule: feed_loop.induct)
  case (1 C parse cfg now rd w buf out)
  show ?case
    by (subst (1 2) feed_loop.simps)
      (auto simp: line_cr handle_cr sse_fail_def "1.IH" split: option.splits prod.splits sum.splits)
qed

lemma line_buffer: "rd_buffer (fst (sse_line cfg rd l)) = rd_buffer rd \<and> rd_started (fst (sse_line cfg rd l)) = rd_started rd"
  by (simp add: sse_line_def sse_fail_def Let_def)

lemma payload_buffer: "rd_buffer (fst (handle_payload rd p)) = rd_buffer rd \<and> rd_started (fst (handle_payload rd p)) = rd_started rd"
proof (cases "\<exists>t. jmember p ''stream'' = Some (JStr t)")
  case True
  then obtain t where "jmember p ''stream'' = Some (JStr t)" by blast
  then show ?thesis by (cases "rd_streamId rd"; cases "is_number (jmember p ''seq'')") (simp_all add: handle_payload_def sse_fail_def Let_def)
next
  case False
  then show ?thesis by (auto simp: handle_payload_def sse_fail_def split: option.splits json.splits)
qed

lemma handle_buffer:
  "rd_buffer (fst (sse_handle C parse cfg now rd w ev)) = rd_buffer rd \<and> rd_started (fst (sse_handle C parse cfg now rd w ev)) = rd_started rd"
proof -
  have p: "rd_buffer rd' = rd_buffer rd \<and> (rd_started rd' \<longleftrightarrow> rd_started rd)" if "handle_payload (rd\<lparr>rd_events := n\<rparr>) p = (rd', r)" for rd' n p r
    using payload_buffer [of "rd\<lparr>rd_events := n\<rparr>" p] that by simp
  show ?thesis
    by (auto simp: sse_handle_def sse_fail_def Let_def split: prod.split option.split bool.split dest!: p)
qed


lemma loop_buffer: "sse_line cfg rd l = (rd1, q) \<Longrightarrow> rd_buffer rd1 = rd_buffer rd \<and> rd_started rd1 = rd_started rd"
    "sse_handle C parse cfg now rd w ev = (rd2, w2, s) \<Longrightarrow> rd_buffer rd2 = rd_buffer rd \<and> rd_started rd2 = rd_started rd"
  using line_buffer [of cfg rd l] handle_buffer [of C parse cfg now rd w ev] by simp_all

text \<open>A text read in two parts: the loop goes on where it stopped, less the second half of a divided CR LF.\<close>

lemma loop_append:
  "feed_loop C parse cfg now rd w s out = (rd1, w1, Inr ms) \<Longrightarrow>
    feed_loop C parse cfg now rd w (s @ t) out
      = feed_loop C parse cfg now (rd1\<lparr>rd_buffer := rd_buffer rd\<rparr>) w1 (rd_buffer rd1 @ strip_lf (s \<noteq> [] \<and> last s = 13) t) ms"
proof (induction C parse cfg now rd w s out rule: feed_loop.induct)
  case (1 C parse cfg now rd w s out)
  show ?case
  proof (cases "next_line s")
    case None
    then have "13 \<notin> set s" by (simp add: next_line_none)
    then have "\<not> (s \<noteq> [] \<and> last s = 13)" by (metis last_in_set)
    then have "strip_lf (s \<noteq> [] \<and> last s = 13) t = t" by (auto simp: strip_lf_def)
    moreover have "rd1 = rd\<lparr>rd_buffer := s\<rparr>" "w1 = w" "ms = out"
      using None "1.prems" by (auto simp: feed_loop.simps [of _ _ _ _ _ _ s] split: if_splits)
    ultimately show ?thesis by (simp add: strip_lf_def)
  next
    case (Some lr)
    obtain l rest where lr: "lr = (l, rest)" by fastforce
    note step = Some [unfolded lr]
    obtain rda q where q: "sse_line cfg rd l = (rda, q)" by fastforce
    note ba = conjunct1 [OF loop_buffer(1) [OF q]]
    let ?rest = "if rest = [] \<and> last s = 13 then strip_lf True t else rest @ t"
    have go: "feed_loop C parse cfg now rdx wx ?rest outx
        = feed_loop C parse cfg now (rd1\<lparr>rd_buffer := rd_buffer rd\<rparr>) w1 (rd_buffer rd1 @ strip_lf (s \<noteq> [] \<and> last s = 13) t) ms"
      if ih: "feed_loop C parse cfg now rdx wx (rest @ t) outx
          = feed_loop C parse cfg now (rd1\<lparr>rd_buffer := rd_buffer rdx\<rparr>) w1 (rd_buffer rd1 @ strip_lf (rest \<noteq> [] \<and> last rest = 13) t) ms"
        and here: "feed_loop C parse cfg now rdx wx rest outx = (rd1, w1, Inr ms)" and b: "rd_buffer rdx = rd_buffer rd" for rdx wx outx
    proof (cases "rest = [] \<and> last s = 13")
      case True
      then have "rd1 = rdx\<lparr>rd_buffer := []\<rparr>" "w1 = wx" "ms = outx"
        using here by (auto simp: feed_loop.simps [of _ _ _ _ _ _ "[]"])
      moreover have "s \<noteq> []" using step by auto
      moreover have "rdx\<lparr>rd_buffer := rd_buffer rd\<rparr> = rdx" using b by (cases rdx) simp
      ultimately show ?thesis using True by simp
    next
      case False
      then have "(rest \<noteq> [] \<and> last rest = 13) = (s \<noteq> [] \<and> last s = 13)"
        using next_line_last [OF step] step by (cases rest) auto
      with False ih b show ?thesis by auto
    qed
    have whole: "next_line (s @ t) = Some (l, ?rest)" using next_line_append [OF step] by simp
    show ?thesis
    proof (cases "\<exists>ev. q = Inr (Some ev)")
      case True
      then obtain ev where ev: "q = Inr (Some ev)" by blast
      obtain rdb wb r where r: "sse_handle C parse cfg now rda w ev = (rdb, wb, r)" by (metis prod_cases3)
      have bb: "rd_buffer rdb = rd_buffer rd" using loop_buffer(2) [OF r] ba by simp
      obtain om where om: "r = Inr om"
        using "1.prems" step q ev r by (subst (asm) feed_loop.simps) (auto split: sum.splits option.splits)
      show ?thesis
      proof (cases om)
        case None
        have here: "feed_loop C parse cfg now rdb wb rest out = (rd1, w1, Inr ms)"
          using "1.prems" step q ev r om None by (subst (asm) feed_loop.simps) simp
        from go [OF "1.IH"(2) [OF Some lr [symmetric] q [symmetric] ev refl r [symmetric] refl om None here] here bb]
        show ?thesis using whole q ev r om None by (subst feed_loop.simps) simp
      next
        case m: (Some m)
        have here: "feed_loop C parse cfg now rdb wb rest (out @ [m]) = (rd1, w1, Inr ms)"
          using "1.prems" step q ev r om m by (subst (asm) feed_loop.simps) simp
        from go [OF "1.IH"(3) [OF Some lr [symmetric] q [symmetric] ev refl r [symmetric] refl om m here] here bb]
        show ?thesis using whole q ev r om m by (subst feed_loop.simps) simp
      qed
    next
      case False
      then obtain x where x: "q = Inr None"
        using "1.prems" step q by (subst (asm) feed_loop.simps) (cases q; auto; case_tac b; auto)
      have here: "feed_loop C parse cfg now rda w rest out = (rd1, w1, Inr ms)"
        using "1.prems" step q x by (subst (asm) feed_loop.simps) simp
      from go [OF "1.IH"(1) [OF Some lr [symmetric] q [symmetric] x refl here] here ba]
      show ?thesis using whole q x by (subst feed_loop.simps) simp
    qed
  qed
qed


text \<open>A loop that ends well: the reader has started as before, and what was collected earlier comes first.\<close>

lemma loop_started:
  "feed_loop C parse cfg now rd w s out = (rd1, w1, Inr ms) \<Longrightarrow> rd_started rd1 = rd_started rd"
proof (induction C parse cfg now rd w s out rule: feed_loop.induct)
  case (1 C parse cfg now rd w s out)
  from "1.prems" show ?case
    by (subst (asm) feed_loop.simps)
      (auto simp: "1.IH" split: option.splits prod.splits sum.splits if_splits dest: loop_buffer)
qed

lemma loop_collects:
  "feed_loop C parse cfg now rd w s (pre @ out) = map_prod id (map_prod id (map_sum id ((@) pre))) (feed_loop C parse cfg now rd w s out)"
proof (induction C parse cfg now rd w s out rule: feed_loop.induct)
  case (1 C parse cfg now rd w s out)
  show ?case
    by (subst (1 2) feed_loop.simps) (auto simp: "1.IH" id_def split: option.split prod.split sum.split)
qed

lemma strip_last: "d \<noteq> [] \<Longrightarrow> (x @ d \<noteq> [] \<and> last (x @ d) = 13) = (strip_lf b d \<noteq> [] \<and> last (strip_lf b d) = 13)"
  by (cases d) (auto simp: strip_lf_def)

lemma feed_two:
  assumes new: "rd_buffer rd = []" "\<not> rd_lastWasCr rd" "rd_failed rd = None" and ne: "c \<noteq> []" "d \<noteq> []"
    and c: "sse_feed C parse cfg now rd w c = (rd1, w1, Inr ms)" and live: "rd_failed rd1 = None"
  shows "sse_feed C parse cfg now rd w (c @ d) = map_prod id (map_prod id (map_sum id ((@) ms))) (sse_feed C parse cfg now rd1 w1 d)"
proof -
  let ?c = "strip_bom (rd_started rd) c"
  let ?cr = "?c \<noteq> [] \<and> last ?c = 13"
  let ?d = "strip_lf ?cr d"
  let ?cr2 = "?d \<noteq> [] \<and> last ?d = 13"
  let ?r = "rd\<lparr>rd_buffer := [], rd_started := True\<rparr>"
  have cd: "strip_bom (rd_started rd) (c @ d) = ?c @ d" using ne(1) by (cases c) (simp_all add: strip_bom_def)
  have cr2: "(?c @ d \<noteq> [] \<and> last (?c @ d) = 13) = ?cr2" by (rule strip_last [OF ne(2)])
  have lc: "feed_loop C parse cfg now (?r\<lparr>rd_lastWasCr := ?cr\<rparr>) w ?c [] = (rd1, w1, Inr ms)"
    using c new by (simp add: sse_feed_def strip_lf_def Let_def)
  have started: "rd_started rd1" using loop_started [OF lc] by simp
  have cr: "feed_loop C parse cfg now (?r\<lparr>rd_lastWasCr := b\<rparr>) w ?c [] = (rd1\<lparr>rd_lastWasCr := b\<rparr>, w1, Inr ms)" for b
    using loop_cr [of C parse cfg now b "?r\<lparr>rd_lastWasCr := ?cr\<rparr>" w ?c "[]"] lc by simp
  have "rd1 = rd1\<lparr>rd_lastWasCr := ?cr\<rparr>" using cr [of ?cr] lc by simp
  from arg_cong [OF this, of rd_lastWasCr] have crd: "rd_lastWasCr rd1 = ?cr" by simp
  note lc2 = cr [of ?cr2]
  have "sse_feed C parse cfg now rd w (c @ d) = feed_loop C parse cfg now (?r\<lparr>rd_lastWasCr := ?cr2\<rparr>) w (?c @ d) []"
    using new cd cr2 by (simp add: sse_feed_def strip_lf_def)
  also have "\<dots> = feed_loop C parse cfg now (rd1\<lparr>rd_lastWasCr := ?cr2, rd_buffer := []\<rparr>) w1 (rd_buffer rd1 @ ?d) (ms @ [])"
    using loop_append [OF lc2, of d] by simp
  also have "\<dots> = map_prod id (map_prod id (map_sum id ((@) ms))) (feed_loop C parse cfg now (rd1\<lparr>rd_lastWasCr := ?cr2, rd_buffer := []\<rparr>) w1 (rd_buffer rd1 @ ?d) [])"
    by (rule loop_collects)
  also have "rd1\<lparr>rd_lastWasCr := ?cr2, rd_buffer := []\<rparr> = rd1\<lparr>rd_buffer := [], rd_started := True, rd_lastWasCr := ?cr2\<rparr>"
    using started by (cases rd1) simp
  also have "feed_loop C parse cfg now (rd1\<lparr>rd_buffer := [], rd_started := True, rd_lastWasCr := ?cr2\<rparr>) w1 (rd_buffer rd1 @ ?d) []
      = sse_feed C parse cfg now rd1 w1 d"
    using live started crd by (simp add: sse_feed_def strip_bom_def Let_def)
  finally show ?thesis .
qed

fun feed_all ::
  "crypto \<Rightarrow> (jstr \<Rightarrow> json option) \<Rightarrow> 'w sse_config \<Rightarrow> int \<Rightarrow> sse_reader \<Rightarrow> 'w \<Rightarrow> jstr list \<Rightarrow> sse_reader \<times> 'w \<times> (sse_error + sse_message list)" where
  "feed_all C parse cfg now rd w [] = (rd, w, Inr [])"
| "feed_all C parse cfg now rd w (c # cs) =
    (case sse_feed C parse cfg now rd w c of
       (rd1, w1, Inl f) \<Rightarrow> (rd1, w1, Inl f)
     | (rd1, w1, Inr ms) \<Rightarrow> map_prod id (map_prod id (map_sum id ((@) ms))) (feed_all C parse cfg now rd1 w1 cs))"

text \<open>C34 Where a text is divided does not matter as long as the pieces are taken: if a new reader is fed non-empty pieces one after the other, with one reading of the clock, and none of the feeds fails, then feeding their concatenation at once, at that clock, succeeds as well, delivers the same messages in the same order and leaves the same reader and the same state of the receiver. Nothing is said when a piece fails: the size limit on an unfinished line applies where a piece ends, and the messages of a failing feed are lost.\<close>

theorem chunks_do_not_matter:
  assumes "feed_all C parse cfg now (newSseReader cfg) w (c # cs) = (rd', w', Inr ms)" "\<forall>c \<in> set (c # cs). c \<noteq> []"
  shows "sse_feed C parse cfg now (newSseReader cfg) w (concat (c # cs)) = (rd', w', Inr ms)"
  using assms
proof (induction cs arbitrary: c ms)
  case Nil
  then show ?case by (auto split: prod.splits sum.splits)
next
  case (Cons d cs)
  let ?rd = "newSseReader cfg"
  have new: "rd_buffer ?rd = []" "\<not> rd_lastWasCr ?rd" "rd_failed ?rd = None" by (simp_all add: newSseReader_def)
  obtain rd1 w1 m1 where c: "sse_feed C parse cfg now ?rd w c = (rd1, w1, Inr m1)"
    using Cons.prems(1) by (auto split: prod.splits sum.splits)
  then have live: "rd_failed rd1 = None" using feed_inv [OF c inv_new] by blast
  have "sse_feed C parse cfg now ?rd w (c @ d) = map_prod id (map_prod id (map_sum id ((@) m1))) (sse_feed C parse cfg now rd1 w1 d)"
    by (rule feed_two [OF new _ _ c live]) (use Cons.prems(2) in auto)
  moreover have merge: "(@) (a @ b) = (\<lambda>x :: sse_message list. a @ b @ x)" for a b by (simp add: fun_eq_iff)
  ultimately have "feed_all C parse cfg now ?rd w ((c @ d) # cs) = feed_all C parse cfg now ?rd w (c # d # cs)"
    using c by (auto simp: merge prod.map_comp sum.map_comp comp_def id_def split: prod.splits sum.splits)
  with Cons.IH [of "c @ d" ms] Cons.prems show ?case by simp
qed

section \<open>What is written is read\<close>

definition unbroken :: "jstr \<Rightarrow> bool" where
  "unbroken s \<longleftrightarrow> 10 \<notin> set s \<and> 13 \<notin> set s"

lemma unbroken_simps [simp]: "unbroken []" "unbroken (c # s) \<longleftrightarrow> c \<noteq> 10 \<and> c \<noteq> 13 \<and> unbroken s" "unbroken (s @ t) \<longleftrightarrow> unbroken s \<and> unbroken t"
  by (auto simp: unbroken_def)

lemma unbroken_ge: "(\<forall>c \<in> set s. 32 \<le> unat c) \<Longrightarrow> unbroken s"
  by (auto simp: unbroken_def)

lemma unbroken_nat [simp]: "unbroken (show_nat n)"
  using show_nat_digits [of n] by (auto simp: unbroken_def digit_char_def)

lemma unbroken_num [simp]: "unbroken (show_num n)"
  using show_num_chars [of n] by (auto simp: unbroken_def num_char_def digit_char_def)

lemma unbroken_escape: "unbroken (escape c)"
proof -
  have "48 \<le> unat (hex_digit (n mod 16))" for n
    by (simp add: hex_digit_def unat_of_nat16 del: of_nat_add)
  then have "hex_digit (n mod 16) \<noteq> 10 \<and> hex_digit (n mod 16) \<noteq> 13" for n
    by (fastforce dest: spec [of _ n])
  then show ?thesis by (simp add: escape_def hex4_def)
qed

lemma unbroken_body: "unbroken (quote_body s)"
  by (induction s rule: quote_body.induct) (auto simp: unbroken_escape is_high_def is_low_def)

lemma unbroken_join: "(\<forall>t \<in> set ts. unbroken t) \<Longrightarrow> unbroken (join_with [44] ts)"
  by (induction "[44 :: code_unit]" ts rule: join_with.induct) auto

lemma unbroken_json: "unbroken (print_json j)"
proof (induction j rule: print_json.induct)
  case (6 kvs)
  have "unbroken (quote k @ 58 # print_json v)" if "(k, v) \<in> set kvs" for k v
    using 6 [OF that] that by (auto simp: quote_def unbroken_body)
  then show ?case by (auto intro!: unbroken_join)
qed (auto simp: ascii_eval quote_def unbroken_body intro!: unbroken_join)

lemma next_line_at: "unbroken a \<Longrightarrow> next_line (a @ 10 # r) = Some (a, r)"
  by (induction a) auto

text \<open>One event: its three lines and the empty one, whatever follows.\<close>

definition fresh_event :: "sse_reader \<Rightarrow> bool" where
  "fresh_event rd \<longleftrightarrow> rd_data rd = [] \<and> rd_type rd = [] \<and> rd_size rd = 0"

lemma loop_skip:
  assumes "unbroken l" "sse_line cfg rd l = (rd', Inr None)"
  shows "feed_loop C parse cfg now rd w (l @ 10 # r) out = feed_loop C parse cfg now rd' w r out"
  using assms next_line_at [OF assms(1), of r] by (subst feed_loop.simps) simp

lemma event_lines:
  assumes "unbroken W" "unbroken kind" "fresh_event rd" "length W + 1 \<le> sg_maxEventBytes cfg"
  shows "feed_loop C parse cfg now rd w (sse_text n kind W @ r) out =
    (case sse_handle C parse cfg now rd w W of
       (rd2, w2, Inl f) \<Rightarrow> (rd2\<lparr>rd_buffer := r\<rparr>, w2, Inl f)
     | (rd2, w2, Inr None) \<Rightarrow> feed_loop C parse cfg now rd2 w2 r out
     | (rd2, w2, Inr (Some m)) \<Rightarrow> feed_loop C parse cfg now rd2 w2 r (out @ [m]))"
proof -
  let ?id = "js ''id'' @ 58 # 32 # show_nat n" and ?ev = "js ''event'' @ 58 # 32 # kind" and ?data = "js ''data'' @ 58 # 32 # W"
  let ?rd1 = "rd\<lparr>rd_type := kind\<rparr>"
  let ?rd2 = "?rd1\<lparr>rd_size := length W + 1, rd_data := [W]\<rparr>"
  have t: "sse_text n kind W @ r = ?id @ 10 # ?ev @ 10 # ?data @ 10 # [] @ 10 # r"
    by (simp add: sse_text_def ascii_eval)
  have one: "unbroken ?id" "unbroken ?ev" "unbroken ?data" using assms by (simp_all add: ascii_eval)
  have names: "field_name ?id = js ''id''" "field_name ?ev = js ''event''" "field_name ?data = js ''data''"
      "field_value ?ev = kind" "field_value ?data = W"
    by (simp_all add: field_name_def field_value_def ascii_eval)
  have "sse_line cfg rd ?id = (rd, Inr None)" "sse_line cfg rd ?ev = (?rd1, Inr None)"
    using names by (simp_all add: sse_line_def) (simp_all add: ascii_eval)
  moreover have "sse_line cfg ?rd1 ?data = (?rd2, Inr None)"
    using names assms(3,4) by (simp add: sse_line_def fresh_event_def Let_def) (simp add: ascii_eval)
  ultimately have l: "feed_loop C parse cfg now rd w (sse_text n kind W @ r) out = feed_loop C parse cfg now ?rd2 w ([] @ 10 # r) out"
    unfolding t using one by (simp only: loop_skip)
  have "?rd2\<lparr>rd_data := [], rd_type := [], rd_size := 0\<rparr> = rd" using assms(3) by (cases rd) (simp add: fresh_event_def)
  then have "sse_line cfg ?rd2 [] = (rd, Inr (Some W))" by (simp add: sse_line_def)
  then show ?thesis unfolding l by (subst feed_loop.simps) simp
qed

text \<open>
  An envelope the receiver takes from its text, leaving the receive options' world as w1, with
  a content that reads as p. \<open>takes_stream\<close>: every event of a stream, one after the other.
\<close>

definition takes :: "crypto \<Rightarrow> (jstr \<Rightarrow> json option) \<Rightarrow> 'w sse_config \<Rightarrow> int \<Rightarrow> 'w \<Rightarrow> envelope \<Rightarrow> json \<Rightarrow> 'w \<Rightarrow> bool" where
  "takes C parse cfg now w e p w1 \<longleftrightarrow>
     (\<exists>v. run (receiveEnvelope C parse (sse_receive_options cfg) now (Wire (WireText (print_json (envelope_json e))))) w = (w1, Some v)
        \<and> rr_ok v \<and> rr_envelope v = Some (envelope_json e))
     \<and> parse (content (body e)) = Some p \<and> length (print_json (envelope_json e)) + 1 \<le> sg_maxEventBytes cfg"

definition signs :: "(header \<Rightarrow> body \<Rightarrow> envelope option) \<Rightarrow> bool" where
  "signs sign \<longleftrightarrow> (\<forall>h b e. sign h b = Some e \<longrightarrow> header e = h \<and> body e = b)"

text \<open>The clock and the random bytes drawn for an event.\<close>

type_synonym draw = "int \<times> bytes \<times> bytes"

definition writes :: "(header \<Rightarrow> body \<Rightarrow> envelope option) \<Rightarrow> sse_writer \<Rightarrow> (jstr \<times> json) list \<Rightarrow> draw \<Rightarrow> envelope option" where
  "writes sign wr payload d = (case d of (clock, r6, r12) \<Rightarrow> case event_envelope wr payload clock r6 r12 of (h, b) \<Rightarrow> sign h b)"

fun write_stream :: "(header \<Rightarrow> body \<Rightarrow> envelope option) \<Rightarrow> sse_writer \<Rightarrow> (json \<times> draw) list \<Rightarrow> draw \<Rightarrow> jstr option" where
  "write_stream sign wr [] (clock, r6, r12) = snd (writer_end sign wr clock r6 r12)"
| "write_stream sign wr ((m, clock, r6, r12) # ms) d =
    (case writer_message sign wr m clock r6 r12 of
       (wr1, None) \<Rightarrow> None
     | (wr1, Some t) \<Rightarrow> map_option ((@) t) (write_stream sign wr1 ms d))"

fun takes_stream ::
  "crypto \<Rightarrow> (jstr \<Rightarrow> json option) \<Rightarrow> 'w sse_config \<Rightarrow> int \<Rightarrow> (header \<Rightarrow> body \<Rightarrow> envelope option) \<Rightarrow> 'w \<Rightarrow> sse_writer \<Rightarrow> (json \<times> draw) list \<Rightarrow> draw \<Rightarrow> bool" where
  "takes_stream C parse cfg now sign w wr [] d =
    (\<exists>e w1. writes sign wr (end_payload (sw_seq wr)) d = Some e
      \<and> takes C parse cfg now w e (event_content (sw_stream wr) (sw_seq wr) (end_payload (sw_seq wr))) w1)"
| "takes_stream C parse cfg now sign w wr ((m, dm) # ms) d =
    (\<exists>e w1. writes sign wr [(js ''message'', m)] dm = Some e
      \<and> takes C parse cfg now w e (event_content (sw_stream wr) (sw_seq wr) [(js ''message'', m)]) w1
      \<and> takes_stream C parse cfg now sign w1 (wr\<lparr>sw_seq := Suc (sw_seq wr)\<rparr>) ms d)"

definition paired :: "'w sse_config \<Rightarrow> sse_writer \<Rightarrow> bool" where
  "paired cfg wr \<longleftrightarrow> sg_peer cfg = sw_self wr \<and> sg_self cfg = sw_peer wr
     \<and> (sg_correlationId cfg = None \<or> sg_correlationId cfg = sw_correlation wr)"

definition in_step :: "sse_reader \<Rightarrow> sse_writer \<Rightarrow> bool" where
  "in_step rd wr \<longleftrightarrow> fresh_event rd \<and> \<not> rd_ended rd \<and> rd_failed rd = None \<and> rd_expectedSeq rd = sw_seq wr
     \<and> (rd_streamId rd = None \<or> rd_streamId rd = Some (sw_stream wr)) \<and> \<not> sw_ended wr"

lemma handle_written:
  assumes "in_step rd wr" "paired cfg wr" "signs sign" "writes sign wr payload d = Some e"
    and t: "takes C parse cfg now w e p w1" and "rd_events rd < sg_maxEvents cfg"
  shows "sse_handle C parse cfg now rd w (print_json (envelope_json e))
    = (let (rd2, r) = handle_payload (rd\<lparr>rd_events := Suc (rd_events rd)\<rparr>) p in (rd2, w1, sse_outcome r))"
proof -
  obtain clock r6 r12 where d: "d = (clock, r6, r12)" by (metis prod_cases3)
  obtain h b where hb: "event_envelope wr payload clock r6 r12 = (h, b)" by fastforce
  have e: "header e = h" "body e = b" using assms(3,4) d hb by (auto simp: signs_def writes_def)
  have f: "sender h = sw_self wr" "recipient h = Some (sw_peer wr)" "correlationId b = sw_correlation wr"
    using hb by (auto simp: event_envelope_def createEnvelope_def Let_def)
  have "check_envelope cfg (envelope_json e) = None"
    using assms(2) f by (auto simp: check_envelope_def wire_members e paired_def opt_member_typed Let_def)
  moreover have "parse (template_text (jmember (the (jmember (envelope_json e) ''body'')) ''content'')) = Some p"
    using t by (simp add: wire_members takes_def template_text_def)
  ultimately show ?thesis using assms(1,6) t
    by (auto simp: sse_handle_def takes_def in_step_def Let_def)
qed

lemma payload_message:
  assumes "in_step rd wr" "is_rpc_message (Some m)"
  shows "handle_payload rd (event_content (sw_stream wr) (sw_seq wr) [(js ''message'', m)])
    = (rd\<lparr>rd_streamId := Some (sw_stream wr), rd_expectedSeq := Suc (sw_seq wr)\<rparr>, Inr (Some (SseMessage (sw_seq wr) m)))"
  using assms by (auto simp: handle_payload_def event_content_def in_step_def is_number_def ascii_eval Let_def)

lemma payload_end:
  assumes "in_step rd wr"
  shows "handle_payload rd (event_content (sw_stream wr) (sw_seq wr) (end_payload (sw_seq wr)))
    = (rd\<lparr>rd_streamId := Some (sw_stream wr), rd_expectedSeq := Suc (sw_seq wr), rd_ended := True\<rparr>, Inr None)"
  using assms by (auto simp: handle_payload_def event_content_def end_payload_def in_step_def is_number_def ascii_eval Let_def)

lemma stream_read:
  assumes "in_step rd wr" "paired cfg wr" "signs sign" "rd_events rd + length ms < sg_maxEvents cfg"
    and "\<forall>(m, dm) \<in> set ms. is_rpc_message (Some m)" "takes_stream C parse cfg now sign w wr ms d"
  shows "\<exists>tx rd' w'. write_stream sign wr ms d = Some tx \<and> tx \<noteq> [] \<and> hd tx = 105 \<and> rd_ended rd' \<and> rd_failed rd' = None
    \<and> feed_loop C parse cfg now rd w tx out = (rd', w', Inr (out @ map2 SseMessage [sw_seq wr..<sw_seq wr + length ms] (map fst ms)))"
  using assms
proof (induction ms arbitrary: rd wr w out)
  case Nil
  let ?p = "event_content (sw_stream wr) (sw_seq wr) (end_payload (sw_seq wr))"
  obtain e w1 where e: "writes sign wr (end_payload (sw_seq wr)) d = Some e" "takes C parse cfg now w e ?p w1" using Nil.prems(6) by auto
  let ?W = "print_json (envelope_json e)"
  have written: "write_stream sign wr [] d = Some (sse_text (sw_seq wr) (js ''end'') ?W)"
    using e(1) Nil.prems(1) by (cases d) (auto simp: writer_end_def writer_event_def writes_def in_step_def split: prod.splits)
  have step: "in_step (rd\<lparr>rd_events := Suc (rd_events rd)\<rparr>) wr" using Nil.prems(1) by (simp add: in_step_def fresh_event_def)
  let ?rd = "rd\<lparr>rd_events := Suc (rd_events rd), rd_streamId := Some (sw_stream wr), rd_expectedSeq := Suc (sw_seq wr), rd_ended := True\<rparr>"
  have "sse_handle C parse cfg now rd w ?W = (?rd, w1, Inr None)"
    using handle_written [OF Nil.prems(1-3) e] payload_end [OF step] Nil.prems(4) by simp
  then have "feed_loop C parse cfg now rd w (sse_text (sw_seq wr) (js ''end'') ?W @ []) out = feed_loop C parse cfg now ?rd w1 [] out"
    using e(2) Nil.prems(1) by (subst event_lines) (simp_all add: unbroken_json takes_def in_step_def ascii_eval)
  then show ?case using written Nil.prems(1)
    by (simp add: feed_loop.simps [of _ _ _ _ _ _ "[]"] in_step_def) (simp add: sse_text_def ascii_eval)
next
  case (Cons a ms)
  obtain m dm where a: "a = (m, dm)" by (cases a)
  obtain clock r6 r12 where dm: "dm = (clock, r6, r12)" by (metis prod_cases3)
  let ?p = "event_content (sw_stream wr) (sw_seq wr) [(js ''message'', m)]" and ?wr = "wr\<lparr>sw_seq := Suc (sw_seq wr)\<rparr>"
  obtain e w1 where e: "writes sign wr [(js ''message'', m)] dm = Some e" "takes C parse cfg now w e ?p w1"
      "takes_stream C parse cfg now sign w1 ?wr ms d" using Cons.prems(6) a by auto
  let ?W = "print_json (envelope_json e)"
  have step: "in_step (rd\<lparr>rd_events := Suc (rd_events rd)\<rparr>) wr" using Cons.prems(1) by (simp add: in_step_def fresh_event_def)
  let ?rd = "rd\<lparr>rd_events := Suc (rd_events rd), rd_streamId := Some (sw_stream wr), rd_expectedSeq := Suc (sw_seq wr)\<rparr>"
  let ?m = "SseMessage (sw_seq wr) m"
  have msg: "writer_message sign wr m clock r6 r12 = (?wr, Some (sse_text (sw_seq wr) (js ''message'') ?W))"
    using e(1) Cons.prems(1) dm by (auto simp: writer_message_def writer_event_def writes_def in_step_def split: prod.splits)
  have "sse_handle C parse cfg now rd w ?W = (?rd, w1, Inr (Some ?m))"
    using handle_written [OF Cons.prems(1-3) e(1,2)] payload_message [OF step, of m] Cons.prems(4,5) a by simp
  then have l: "feed_loop C parse cfg now rd w (sse_text (sw_seq wr) (js ''message'') ?W @ r) out = feed_loop C parse cfg now ?rd w1 r (out @ [?m])" for r
    using e(2) Cons.prems(1) by (subst event_lines) (simp_all add: unbroken_json takes_def in_step_def ascii_eval)
  have nx: "in_step ?rd ?wr" "paired cfg ?wr" using Cons.prems(1,2) by (auto simp: in_step_def fresh_event_def paired_def)
  obtain tx rd' w' where ih: "write_stream sign ?wr ms d = Some tx" "tx \<noteq> []" "rd_ended rd'" "rd_failed rd' = None"
      "feed_loop C parse cfg now ?rd w1 tx (out @ [?m]) = (rd', w', Inr ((out @ [?m]) @ map2 SseMessage [sw_seq ?wr..<sw_seq ?wr + length ms] (map fst ms)))"
    using Cons.IH [OF nx Cons.prems(3) _ _ e(3), of "out @ [?m]"] Cons.prems(4,5) by auto
  have "write_stream sign wr (a # ms) d = Some (sse_text (sw_seq wr) (js ''message'') ?W @ tx)"
    using a dm msg ih(1) by simp
  moreover have "[sw_seq wr..<sw_seq wr + length (a # ms)] = sw_seq wr # [sw_seq ?wr..<sw_seq ?wr + length ms]"
    by (simp add: upt_conv_Cons del: upt_Suc)
  ultimately show ?case using l [of tx] ih a by (simp add: sse_text_def ascii_eval)
qed

text \<open>C32 What a reader has delivered when it stops carries the numbers 0, 1, 2, ... in order; each message comes from an envelope of the expected peer to this reader that the receiver accepted, all for one stream (the expected one, if any); and the reader stops without an error only if such an envelope also announced the end after exactly these messages.\<close>

theorem stream_delivery_sound:
  assumes "readSignedSse C parse cfg (newSseReader cfg) w cs = (ms, oe)"
  shows "map seq_of ms = [0..<length ms]
    \<and> (\<exists>sid. sg_streamId cfg \<in> {None, Some sid}
      \<and> (\<forall>i < length ms. \<exists>p. event_backed C parse cfg (Some sid) i p \<and> jmember p ''message'' = Some (message_of (ms ! i)))
      \<and> (oe = None \<longrightarrow> (\<exists>p. event_backed C parse cfg (Some sid) (length ms) p \<and> jmember p ''end'' = Some (JBool True)
           \<and> jmember p ''count'' = Some (JNum (Fin (int (length ms)))))))"
proof -
  obtain rd' where rd': "reader_inv C parse cfg ms rd'" "oe = None \<longrightarrow> rd_ended rd'" using read_inv [OF inv_new assms] by auto
  note inv = rd'(1) [unfolded reader_inv_def]
  from inv have seqs: "map seq_of ms = [0..<length ms]" by (elim conjE)
  from inv have each: "\<forall>i < length ms. \<exists>p. event_backed C parse cfg (rd_streamId rd') i p \<and> jmember p ''message'' = Some (message_of (ms ! i))"
    by (elim conjE)
  from inv have fin: "rd_ended rd' \<longrightarrow> (\<exists>p. event_backed C parse cfg (rd_streamId rd') (length ms) p \<and> jmember p ''end'' = Some (JBool True)
      \<and> jmember p ''count'' = Some (JNum (Fin (int (length ms)))))" by (elim conjE)
  from inv have id: "sg_streamId cfg \<noteq> None \<longrightarrow> rd_streamId rd' = sg_streamId cfg" "ms \<noteq> [] \<or> rd_ended rd' \<longrightarrow> rd_streamId rd' \<noteq> None" by auto
  obtain sid where sid: "rd_streamId rd' = Some sid \<or> rd_streamId rd' = None \<and> sg_streamId cfg = None" using id(1) by (cases "rd_streamId rd'") auto
  then have exp: "sg_streamId cfg \<in> {None, Some sid}" using id(1) by auto
  have some: "rd_streamId rd' = Some sid" if "ms \<noteq> [] \<or> oe = None" using that sid rd'(2) id(2) by auto
  have "\<forall>i < length ms. \<exists>p. event_backed C parse cfg (Some sid) i p \<and> jmember p ''message'' = Some (message_of (ms ! i))"
    using each some by (cases "ms = []") auto
  moreover have "oe = None \<longrightarrow> (\<exists>p. event_backed C parse cfg (Some sid) (length ms) p \<and> jmember p ''end'' = Some (JBool True)
      \<and> jmember p ''count'' = Some (JNum (Fin (int (length ms)))))" using fin some rd'(2) by auto
  ultimately show ?thesis using seqs exp by blast
qed

lemma stream_read_back:
  assumes "newSseWriter self peer ttl cor sid rnd16 = Some wr" "paired cfg wr" "sg_streamId cfg \<in> {None, Some (sw_stream wr)}"
    and "signs sign" "\<forall>(m, dm) \<in> set ms. is_rpc_message (Some m)" "length ms < sg_maxEvents cfg"
    and "takes_stream C parse cfg now sign w wr ms d"
  shows "\<exists>tx rd' w'. write_stream sign wr ms d = Some tx
    \<and> sse_feed C parse cfg now (newSseReader cfg) w tx = (rd', w', Inr (map2 SseMessage [0..<length ms] (map fst ms)))
    \<and> sse_finish rd' = None"
proof -
  have wr: "sw_seq wr = 0" "\<not> sw_ended wr" using assms(1) by (auto simp: newSseWriter_def Let_def split: if_splits)
  let ?rd = "(newSseReader cfg)\<lparr>rd_started := True\<rparr>"
  have step: "in_step (?rd\<lparr>rd_lastWasCr := b\<rparr>) wr" for b using wr assms(3) by (auto simp: in_step_def fresh_event_def newSseReader_def)
  obtain tx where tx: "write_stream sign wr ms d = Some tx" "tx \<noteq> []" "hd tx = 105"
    using stream_read [OF step assms(2,4) _ assms(5,7)] assms(6) by (auto simp: newSseReader_def)
  let ?cr = "last tx = 13"
  obtain rd' w' where r: "rd_ended rd'" "rd_failed rd' = None"
      "feed_loop C parse cfg now (?rd\<lparr>rd_lastWasCr := ?cr\<rparr>) w tx [] = (rd', w', Inr (map2 SseMessage [0..<length ms] (map fst ms)))"
    using stream_read [OF step [of ?cr] assms(2,4) _ assms(5,7), where out = "[]"] assms(6) tx(1) wr by (auto simp: newSseReader_def)
  have "strip_bom b tx = tx" for b using tx(3) by (simp add: strip_bom_def)
  then have "sse_feed C parse cfg now (newSseReader cfg) w tx = feed_loop C parse cfg now (?rd\<lparr>rd_lastWasCr := ?cr\<rparr>) w tx []"
    using tx(2) by (simp add: sse_feed_def newSseReader_def strip_lf_def Let_def)
  then show ?thesis using tx r by (auto simp: sse_finish_def)
qed

text \<open>C33 A stream the writer wrote, message by message and then its end, is read back: fed in one piece to a new reader that is paired with the writer, expects no other stream, allows more events than there are messages (the end is one more) and as many characters as each event has, and whose receiver takes the envelopes one after the other, its text delivers exactly the JSON-RPC messages, numbered from 0, and leaves the reader complete. (The writer has no limit of its own: what is longer is written, and refused.)\<close>

theorem sse_round_trip:
  assumes "newSseWriter self peer ttl cor sid rnd16 = Some wr" "paired cfg wr" "sg_streamId cfg \<in> {None, Some (sw_stream wr)}"
    and "signs sign" "\<forall>(m, dm) \<in> set ms. is_rpc_message (Some m)" "length ms < sg_maxEvents cfg"
    and "takes_stream C parse cfg now sign w wr ms d"
  shows "\<exists>tx rd' w'. write_stream sign wr ms d = Some tx
    \<and> sse_feed C parse cfg now (newSseReader cfg) w tx = (rd', w', Inr (map2 SseMessage [0..<length ms] (map fst ms)))
    \<and> sse_finish rd' = None"
  by (rule stream_read_back [OF assms])

section \<open>Where the reader differs from its description\<close>

lemma line_live: "sse_line cfg rd l = (rd1, Inr x) \<Longrightarrow> rd_failed rd1 = rd_failed rd"
  by (auto simp: sse_line_def sse_fail_def Let_def split: if_splits)

lemma payload_live: "handle_payload rd p = (rd1, Inr x) \<Longrightarrow> rd_failed rd1 = rd_failed rd"
proof -
  assume h: "handle_payload rd p = (rd1, Inr x)"
  then obtain s where s: "jmember p ''stream'' = Some (JStr s)" "is_number (jmember p ''seq'')"
    by (cases "is_number (jmember p ''seq'')") (auto simp: handle_payload_def split: option.splits json.splits)
  with h show ?thesis by (auto simp: handle_payload_def Let_def split: if_splits)
qed

lemma handle_live:
  assumes h: "sse_handle C parse cfg now rd w ev = (rd1, w1, r)" and r: "r = Inl Uncaught \<or> r \<in> range Inr"
  shows "rd_failed rd1 = rd_failed rd"
proof -
  have p: "rd_failed rd' = rd_failed rd" if "handle_payload (rd\<lparr>rd_events := n\<rparr>) p = (rd', Inr x)" for rd' n p x
    using payload_live [OF that] by simp
  have o: "sse_outcome q = Inl Uncaught \<longleftrightarrow> False" "sse_outcome q = Inr x \<longleftrightarrow> q = Inr x" for q :: "sse_failure + sse_message option" and x
    by (cases q; simp)+
  show ?thesis using h r
    by (auto simp: sse_handle_def Let_def o split: if_splits prod.splits option.splits bool.splits dest!: p)
qed

text \<open>An exception of the receiver leaves the reader usable, although a feed that throws is said to end its life.\<close>

lemma uncaught_leaves_reader_usable:
  "feed_loop C parse cfg now rd w s out = (rd1, w1, Inl Uncaught) \<Longrightarrow> rd_failed rd = None \<Longrightarrow> rd_failed rd1 = None"
proof (induction C parse cfg now rd w s out rule: feed_loop.induct)
  case (1 C parse cfg now rd w s out)
  have l: "rd_failed rd1 = None" if "sse_line cfg rd l = (rd1, Inr x)" for rd1 l x using line_live [OF that] "1.prems"(2) by simp
  have h: "rd_failed rd2 = None" if "sse_handle C parse cfg now rd1 w ev = (rd2, w2, r)" "r = Inl Uncaught \<or> r \<in> range Inr" "rd_failed rd1 = None" for rd1 rd2 w ev w2 r
    using handle_live [OF that(1,2)] that(3) by simp
  note step = "1.prems"(1) [unfolded feed_loop.simps [of C parse cfg now rd w s out]]
  show ?case
  proof (cases "next_line s")
    case None
    with step show ?thesis by (simp split: if_splits)
  next
    case (Some lr)
    obtain a rest where lr: "lr = (a, rest)" by fastforce
    obtain rda q where q: "sse_line cfg rd a = (rda, q)" by fastforce
    obtain x where x: "q = Inr x" using step Some lr q by (cases q) auto
    note la = l [OF q [unfolded x]]
    show ?thesis
    proof (cases x)
      case None
      with step Some lr q x have "feed_loop C parse cfg now rda w rest out = (rd1, w1, Inl Uncaught)" by simp
      with "1.IH"(1) [OF Some lr [symmetric] q [symmetric] x None] la show ?thesis by simp
    next
      case ev: (Some ev)
      obtain rdb wb r where r: "sse_handle C parse cfg now rda w ev = (rdb, wb, r)" by (metis prod_cases3)
      show ?thesis
      proof (cases r)
        case (Inl f)
        with step Some lr q x ev r have "rd1 = rdb\<lparr>rd_buffer := rest\<rparr>" "f = Uncaught" by simp_all
        with h [OF r _ la] Inl show ?thesis by simp
      next
        case om: (Inr om)
        have lb: "rd_failed rdb = None" using h [OF r _ la] om by simp
        show ?thesis
        proof (cases om)
          case None
          with step Some lr q x ev r om have "feed_loop C parse cfg now rdb wb rest out = (rd1, w1, Inl Uncaught)" by simp
          with "1.IH"(2) [OF Some lr [symmetric] q [symmetric] x ev r [symmetric] refl om None] lb show ?thesis by simp
        next
          case m: (Some m)
          with step Some lr q x ev r om have "feed_loop C parse cfg now rdb wb rest (out @ [m]) = (rd1, w1, Inl Uncaught)" by simp
          with "1.IH"(3) [OF Some lr [symmetric] q [symmetric] x ev r [symmetric] refl om m] lb show ?thesis by simp
        qed
      qed
    qed
  qed
qed

text \<open>An empty chunk between CR and LF makes them two line ends: an event that is not complete is handled, here with nothing to verify.\<close>

lemma empty_chunk_divides_crlf:
  fixes w :: 'w
  assumes c: "sg_maxEventBytes c = 8" "sg_maxEvents c = 8" "sg_streamId c = None"
  shows "snd (snd (feed_all demo_crypto (\<lambda>s. None) c now (newSseReader c) w [js ''data:'' @ [13, 10]])) = Inr []"
    and "snd (snd (feed_all demo_crypto (\<lambda>s. None) c now (newSseReader c) w [js ''data:'' @ [13], [], [10]])) = Inl (Violation VerificationFailed)"
proof -
  have d: "run (receiveEnvelope demo_crypto (\<lambda>s. None) opts now (Wire (WireText s))) w = (w, Some (refused InvalidJson))" for opts s and w :: 'w
    by (simp add: receiveEnvelope_def decodeEnvelope_def refused_def Let_def)
  show "snd (snd (feed_all demo_crypto (\<lambda>s. None) c now (newSseReader c) w [js ''data:'' @ [13, 10]])) = Inr []"
    by (simp add: sse_feed_def newSseReader_def strip_bom_def strip_lf_def feed_loop.simps sse_line_def field_name_def field_value_def ascii_eval c Let_def)
  show "snd (snd (feed_all demo_crypto (\<lambda>s. None) c now (newSseReader c) w [js ''data:'' @ [13], [], [10]])) = Inl (Violation VerificationFailed)"
    by (simp add: sse_feed_def newSseReader_def strip_bom_def strip_lf_def feed_loop.simps sse_line_def field_name_def field_value_def ascii_eval c
        sse_handle_def d refused_def sse_fail_def Let_def)
qed

section \<open>The statements on a stream\<close>

text \<open>A session that answers a fresh, properly signed envelope of its own shared secret.\<close>

lemma session_takes:
  assumes "quiet cfg" "signature e = Some sg" "header_acceptable (header e) now" "receives_with w cfg e sg now m"
    and "verifyEnvelopeSignature C e m = Some True" "makeKey (header e) = Some k"
    and "timestampMs (header e) = Fin ts" "ttlMs (header e) = Fin ttl"
    and "decodeEnvelope parse raw = decoded (envelope_json e)" "cache_inv (ss_replay w)"
    and "mget (live_entries (ss_replay w) now) k = None"
  shows "\<exists>w1 v. session_receive C parse cfg w (Wire raw) now = (w1, Some v) \<and> rr_ok v \<and> rr_envelope v = Some (envelope_json e)
    \<and> ss_replay w1 = fst (consume (ss_replay w) (header e) now)
    \<and> mget (mc_entries (ss_cache w1)) (verificationMaterialCacheKey (signature_json sg) (sender (header e)))
       = Some (material_expiry (header_json (header e)) now, m)"
proof -
  obtain w1 where w1: "run (receive_value C (session_options cfg) now (envelope_json e)) w
      = run (replay_step (session_options cfg) now (envelope_json e) (header_json (header e)) (map Validation (validateEnvelope (envelope_json e) now))) w1"
      "ss_replay w1 = ss_replay w"
      "mget (mc_entries (ss_cache w1)) (verificationMaterialCacheKey (signature_json sg) (sender (header e)))
       = Some (material_expiry (header_json (header e)) now, m)"
    using receive_typed [OF assms(1-5)] by blast
  have ok: "snd (consume (ss_replay w) (header e) now) = Some ReplayOk"
    using consume_cases [OF assms(10,6), of now] assms(7,8,11) by simp
  have hv: "header_view (header_json (header e)) = header e" using assms(7,8) by (simp add: header_view_typed)
  show ?thesis
    by (simp add: session_receive_def receiveEnvelope_def assms(9) decoded_def Let_def w1 run_replay [OF assms(1)] hv ok)
qed

lemma decodes_envelope:
  assumes "parse s = Some (envelope_json e)" "content (body e) \<noteq> []"
  shows "decodeEnvelope parse (WireText s) = decoded (envelope_json e)"
proof -
  have "\<not> isCompactEnvelope (envelope_json e)" "isProtocolEnvelope (envelope_json e)"
    by (cases "signature e"; simp add: isCompactEnvelope_def envelope_json_def opt_field_def)
      (simp add: isProtocolEnvelope_def wire_members truthy_json_def header_json_def body_json_def)
  then show ?thesis using assms by (simp add: decodeEnvelope_def recognize_def)
qed

text \<open>A stream of a to b: one message and the end, in envelopes of times 5 to 15, and a receiver that shares the secret.\<close>

definition sse_demo_writer :: sse_writer where
  "sse_demo_writer = \<lparr>sw_self = js ''a'', sw_peer = js ''b'', sw_ttl = Some 10, sw_correlation = None, sw_stream = js ''s'', sw_seq = 0, sw_ended = False\<rparr>"

definition sse_demo_next :: sse_writer where
  "sse_demo_next = sse_demo_writer\<lparr>sw_seq := Suc 0\<rparr>"

definition sse_demo_sign :: "header \<Rightarrow> body \<Rightarrow> envelope option" where
  "sse_demo_sign h b = signEnvelopeHmac demo_crypto h b (js ''s'') (js ''k'')"

definition sse_demo_message :: json where
  "sse_demo_message = JObj [(js ''jsonrpc'', JStr (js ''2.0''))]"

text \<open>What the two events say, and the envelopes that carry them.\<close>

definition sse_demo_says :: "nat \<Rightarrow> json" where
  "sse_demo_says n = event_content (js ''s'') n (if n = 0 then [(js ''message'', sse_demo_message)] else end_payload n)"

definition sse_demo_first :: envelope where
  "sse_demo_first = the (writes sse_demo_sign sse_demo_writer [(js ''message'', sse_demo_message)] (5, [1], [1]))"

definition sse_demo_last :: envelope where
  "sse_demo_last = the (writes sse_demo_sign sse_demo_next (end_payload (Suc 0)) (5, [2], [2]))"

definition sse_demo_parse :: "jstr \<Rightarrow> json option" where
  "sse_demo_parse s = Some (if s = print_json (sse_demo_says 0) then sse_demo_says 0 else if s = print_json (sse_demo_says (Suc 0)) then sse_demo_says (Suc 0)
     else if s = print_json (envelope_json sse_demo_last) then envelope_json sse_demo_last else envelope_json sse_demo_first)"

definition sse_demo_config :: "unit session sse_config" where
  "sse_demo_config = \<lparr>sg_self = js ''b'', sg_peer = js ''a'', sg_receive = session_options demo_session, sg_streamId = None,
     sg_correlationId = None, sg_maxEventBytes = length (print_json (envelope_json sse_demo_first)) + length (print_json (envelope_json sse_demo_last)) + 1,
     sg_maxEvents = 2\<rparr>"

definition sse_demo_session :: "unit session_config" where
  "sse_demo_session = demo_session\<lparr>sc_requireSignature := Some True\<rparr>"

definition sse_demo_header :: "byte \<Rightarrow> header" where
  "sse_demo_header x = \<lparr>version = protocol_version, messageId = js ''msg-5-'' @ randomHex [x], timestampMs = Fin 5, ttlMs = Fin 10, sender = js ''a'',
     recipient = Some (js ''b''), nonce = randomHex [x]\<rparr>"

lemma sse_demo_signs: "signs sse_demo_sign"
  by (auto simp: signs_def sse_demo_sign_def signEnvelopeHmac_def)

lemma sse_demo_new: "newSseWriter (js ''a'') (js ''b'') (Some 10) None (Some (js ''s'')) [] = Some sse_demo_writer"
  by (simp add: newSseWriter_def sse_demo_writer_def valid_stream_id_def stream_id_char_def ascii_eval)

lemma sse_demo_written:
  assumes "wr = sse_demo_writer\<lparr>sw_seq := n\<rparr>"
  shows "\<exists>e v. writes sse_demo_sign wr payload (5, [x], [x]) = Some e \<and> signature e = Some \<lparr>alg = HS256, keyId = js ''k'', sigValue = v\<rparr>
    \<and> header e = sse_demo_header x \<and> content (body e) = print_json (event_content (js ''s'') n payload)
    \<and> verifyEnvelopeSignature demo_crypto e (HmacSecret (js ''s'')) = Some True"
proof -
  obtain h b where hb: "event_envelope wr payload 5 [x] [x] = (h, b)" by fastforce
  have five: "show_int 5 = [53]" by (simp add: show_int_def show_nat.simps)
  have parts: "h = sse_demo_header x" "content b = print_json (event_content (js ''s'') n payload)"
    using hb five by (auto simp: assms event_envelope_def createEnvelope_def sse_demo_writer_def sse_demo_header_def Let_def ascii_eval)
  have p: "hmac_pair demo_crypto (js ''s'') (js ''s'')"
    by (simp add: hmac_pair_def demo_crypto_def utf8Encode_def ascii_eval utf8_cp_def)
  obtain v where v: "signCanonicalPayloadHmac demo_crypto (canonicalizeEnvelope h b) (js ''s'') = Some v"
      "verifyCanonicalPayloadHmac demo_crypto (canonicalizeEnvelope h b) v (js ''s'') = Some True"
    using hmac.round_trip [OF p] by blast
  have "writes sse_demo_sign wr payload (5, [x], [x]) = Some \<lparr>header = h, body = b, signature = Some \<lparr>alg = HS256, keyId = js ''k'', sigValue = v\<rparr>\<rparr>"
    by (simp add: writes_def hb sse_demo_sign_def signEnvelopeHmac_def v)
  then show ?thesis using parts v by (simp add: verifyEnvelopeSignature_def verifyEnvelopeHmac_def)
qed

lemma sse_demo_first:
  "\<exists>v. writes sse_demo_sign sse_demo_writer [(js ''message'', sse_demo_message)] (5, [1], [1]) = Some sse_demo_first
    \<and> signature sse_demo_first = Some \<lparr>alg = HS256, keyId = js ''k'', sigValue = v\<rparr> \<and> header sse_demo_first = sse_demo_header 1
    \<and> content (body sse_demo_first) = print_json (sse_demo_says 0) \<and> verifyEnvelopeSignature demo_crypto sse_demo_first (HmacSecret (js ''s'')) = Some True"
proof -
  have "sse_demo_writer = sse_demo_writer\<lparr>sw_seq := 0\<rparr>" by (simp add: sse_demo_writer_def)
  from sse_demo_written [OF this, of "[(js ''message'', sse_demo_message)]" 1] show ?thesis
    by (auto simp: sse_demo_first_def sse_demo_says_def)
qed

lemma sse_demo_last:
  "\<exists>v. writes sse_demo_sign sse_demo_next (end_payload (Suc 0)) (5, [2], [2]) = Some sse_demo_last
    \<and> signature sse_demo_last = Some \<lparr>alg = HS256, keyId = js ''k'', sigValue = v\<rparr> \<and> header sse_demo_last = sse_demo_header 2
    \<and> content (body sse_demo_last) = print_json (sse_demo_says (Suc 0)) \<and> verifyEnvelopeSignature demo_crypto sse_demo_last (HmacSecret (js ''s'')) = Some True"
  using sse_demo_written [OF sse_demo_next_def, of "end_payload (Suc 0)" 2] by (auto simp: sse_demo_last_def sse_demo_says_def)

lemma sse_demo_hex: "randomHex [1] = [48, 49]" "randomHex [2] = [48, 50]"
  by (simp_all add: randomHex_def toHex_def hex_digit_def)

lemma says_finite: "json_finite (sse_demo_says n)"
  by (simp add: sse_demo_says_def event_content_def end_payload_def sse_demo_message_def)

lemma sse_envelope_finite:
  assumes "header e = sse_demo_header x"
  shows "json_finite (envelope_json e)"
  by (cases "signature e"; cases "capability (body e)"; cases "correlationId (body e)")
    (simp_all add: envelope_json_def header_json_def body_json_def signature_json_def assms sse_demo_header_def opt_field_def opt_json_def Let_def)

lemma sse_demo_parses:
  "sse_demo_parse (print_json (sse_demo_says 0)) = Some (sse_demo_says 0)"
  "sse_demo_parse (print_json (sse_demo_says (Suc 0))) = Some (sse_demo_says (Suc 0))"
  "sse_demo_parse (print_json (envelope_json sse_demo_first)) = Some (envelope_json sse_demo_first)"
  "sse_demo_parse (print_json (envelope_json sse_demo_last)) = Some (envelope_json sse_demo_last)"
proof -
  have h: "header sse_demo_first = sse_demo_header 1" "header sse_demo_last = sse_demo_header 2" using sse_demo_first sse_demo_last by blast+
  note f = says_finite sse_envelope_finite [OF h(1)] sse_envelope_finite [OF h(2)]
  have "jmember (sse_demo_says n) ''stream'' \<noteq> None" "jmember (envelope_json e) ''stream'' = None" for n e
    by (simp add: sse_demo_says_def event_content_def ascii_eval) (cases "signature e"; simp add: envelope_json_def opt_field_def ascii_eval)
  then have other: "sse_demo_says n \<noteq> envelope_json e" for n e by metis
  have "jmember (sse_demo_says 0) ''seq'' \<noteq> jmember (sse_demo_says (Suc 0)) ''seq''"
    by (simp add: sse_demo_says_def event_content_def ascii_eval)
  then have ne: "sse_demo_says 0 \<noteq> sse_demo_says (Suc 0)" by metis
  have ne2: "envelope_json sse_demo_first \<noteq> envelope_json sse_demo_last"
  proof
    assume "envelope_json sse_demo_first = envelope_json sse_demo_last"
    then have "jmember (envelope_json sse_demo_first) ''header'' = jmember (envelope_json sse_demo_last) ''header''" by simp
    then have "header_json (sse_demo_header 1) = header_json (sse_demo_header 2)" by (simp add: wire_members h)
    then show False by (simp add: header_json_def sse_demo_header_def sse_demo_hex)
  qed
  have pr: "print_json a = print_json b \<longleftrightarrow> a = b" if "json_finite a" "json_finite b" for a b
    using print_json_inj [OF that] by blast
  note texts = pr [OF f(1,1)] pr [OF f(2) f(1)] pr [OF f(3) f(1)] pr [OF f(2) f(3)] pr [OF f(3) f(2)] pr [OF f(3) f(3)]
  show "sse_demo_parse (print_json (sse_demo_says 0)) = Some (sse_demo_says 0)"
    "sse_demo_parse (print_json (sse_demo_says (Suc 0))) = Some (sse_demo_says (Suc 0))"
    "sse_demo_parse (print_json (envelope_json sse_demo_first)) = Some (envelope_json sse_demo_first)"
    "sse_demo_parse (print_json (envelope_json sse_demo_last)) = Some (envelope_json sse_demo_last)"
    unfolding sse_demo_parse_def texts using ne ne2 other [symmetric] by simp_all
qed

lemma sse_demo_key: "x \<in> {1, 2} \<Longrightarrow> \<exists>k. makeKey (sse_demo_header x) = Some k"
  using makeKey_defined [of "sse_demo_header x"] by (auto simp: sse_demo_header_def sse_demo_hex ascii_eval is_high_def is_low_def)

text \<open>One event taken by the demo receiver.\<close>

lemma sse_demo_takes:
  assumes e: "signature e = Some sg" "header e = sse_demo_header x" "verifyEnvelopeSignature demo_crypto e (HmacSecret (js ''s'')) = Some True"
    and x: "x \<in> {1, 2}" and p: "content (body e) = print_json (sse_demo_says n)" "n \<le> Suc 0" "e \<in> {sse_demo_first, sse_demo_last}"
    and w: "receives_with w sse_demo_session e sg 6 (HmacSecret (js ''s''))" "cache_inv (ss_replay w)" "makeKey (header e) = Some k"
      "mget (live_entries (ss_replay w) 6) k = None"
  shows "\<exists>w1. takes demo_crypto sse_demo_parse sse_demo_config 6 w e (sse_demo_says n) w1 \<and> ss_replay w1 = fst (consume (ss_replay w) (header e) 6)
    \<and> mget (mc_entries (ss_cache w1)) (verificationMaterialCacheKey (signature_json sg) (js ''a'')) = Some (15, HmacSecret (js ''s''))"
proof -
  have opts: "sse_receive_options sse_demo_config = session_options sse_demo_session"
    by (simp add: sse_receive_options_def sse_demo_config_def session_options_def sse_demo_session_def)
  have acc: "header_acceptable (header e) 6"
    using x by (auto simp: e(2) sse_demo_header_def sse_demo_hex header_acceptable_def blank_iff ws_char_def MAX_TTL_MS_def MAX_CLOCK_SKEW_MS_def ascii_eval)
  have q: "quiet sse_demo_session" by (simp add: quiet_def demo_session_def sse_demo_session_def)
  have times: "timestampMs (header e) = Fin 5" "ttlMs (header e) = Fin 10" "sender (header e) = js ''a''" by (simp_all add: e(2) sse_demo_header_def)
  have "print_json (sse_demo_says n) \<noteq> []" by (simp add: sse_demo_says_def event_content_def)
  then have d: "decodeEnvelope sse_demo_parse (WireText (print_json (envelope_json e))) = decoded (envelope_json e)"
    by (intro decodes_envelope) (use p sse_demo_parses in auto)
  have exp: "material_expiry (header_json (header e)) 6 = 15"
    by (simp add: material_expiry_def header_json_def times finite_or_nan_def ascii_eval)
  obtain w1 r where r: "session_receive demo_crypto sse_demo_parse sse_demo_session w (Wire (WireText (print_json (envelope_json e)))) 6 = (w1, Some r)"
      "rr_ok r" "rr_envelope r = Some (envelope_json e)" "ss_replay w1 = fst (consume (ss_replay w) (header e) 6)"
      "mget (mc_entries (ss_cache w1)) (verificationMaterialCacheKey (signature_json sg) (js ''a'')) = Some (15, HmacSecret (js ''s''))"
    using session_takes [OF q e(1) acc w(1) e(3) w(3) times(1,2) d w(2,4)] unfolding exp times(3) by blast
  have "length (print_json (envelope_json e)) + 1 \<le> sg_maxEventBytes sse_demo_config" using p(3) by (auto simp: sse_demo_config_def)
  moreover have "sse_demo_parse (content (body e)) = Some (sse_demo_says n)"
    using p(1,2) sse_demo_parses(1,2) by (cases n) auto
  ultimately have "takes demo_crypto sse_demo_parse sse_demo_config 6 w e (sse_demo_says n) w1"
    using r(1-3) by (auto simp: takes_def opts session_receive_def)
  with r(4,5) show ?thesis by blast
qed

lemma sse_demo_taken:
  "takes_stream demo_crypto sse_demo_parse sse_demo_config 6 sse_demo_sign (new_session 4 ()) sse_demo_writer [(sse_demo_message, 5, [1], [1])] (5, [2], [2])"
proof -
  let ?w = "new_session 4 () :: unit session"
  obtain v where v: "writes sse_demo_sign sse_demo_writer [(js ''message'', sse_demo_message)] (5, [1], [1]) = Some sse_demo_first"
      "signature sse_demo_first = Some \<lparr>alg = HS256, keyId = js ''k'', sigValue = v\<rparr>" "header sse_demo_first = sse_demo_header 1"
      "content (body sse_demo_first) = print_json (sse_demo_says 0)" "verifyEnvelopeSignature demo_crypto sse_demo_first (HmacSecret (js ''s'')) = Some True"
    using sse_demo_first by blast
  obtain u where u: "writes sse_demo_sign sse_demo_next (end_payload (Suc 0)) (5, [2], [2]) = Some sse_demo_last"
      "signature sse_demo_last = Some \<lparr>alg = HS256, keyId = js ''k'', sigValue = u\<rparr>" "header sse_demo_last = sse_demo_header 2"
      "content (body sse_demo_last) = print_json (sse_demo_says (Suc 0))" "verifyEnvelopeSignature demo_crypto sse_demo_last (HmacSecret (js ''s'')) = Some True"
    using sse_demo_last by blast
  obtain k1 k2 where k: "makeKey (header sse_demo_first) = Some k1" "makeKey (header sse_demo_last) = Some k2"
    using sse_demo_key [of 1] sse_demo_key [of 2] unfolding v(3) u(3) by blast
  have other: "k2 \<noteq> k1"
  proof
    assume "k2 = k1"
    from makeKey_inj [OF k(1) k(2) [unfolded this]] show False by (simp add: v(3) u(3) sse_demo_header_def sse_demo_hex)
  qed
  have rw: "receives_with ?w sse_demo_session sse_demo_first \<lparr>alg = HS256, keyId = js ''k'', sigValue = v\<rparr> 6 (HmacSecret (js ''s''))"
    by (simp add: receives_with_def new_session_def new_material_cache_def demo_session_def sse_demo_session_def Let_def ascii_eval)
  obtain w1 where w1: "takes demo_crypto sse_demo_parse sse_demo_config 6 ?w sse_demo_first (sse_demo_says 0) w1"
      "ss_replay w1 = fst (consume (ss_replay ?w) (header sse_demo_first) 6)"
      "mget (mc_entries (ss_cache w1)) (verificationMaterialCacheKey (signature_json \<lparr>alg = HS256, keyId = js ''k'', sigValue = v\<rparr>) (js ''a'')) = Some (15, HmacSecret (js ''s''))"
    using sse_demo_takes [OF v(2,3,5) _ v(4) _ _ rw new_cache_empty(2) k(1)] by (auto simp: new_cache_empty)
  have c: "cache_inv (ss_replay w1)" "mget (live_entries (ss_replay w1) 6) k2 = None"
  proof -
    note cc = consume_cases [OF new_cache_empty(2) k(1), of 4 "()" 6]
    have t: "timestampMs (header sse_demo_first) = Fin 5" "ttlMs (header sse_demo_first) = Fin 10" by (simp_all add: v(3) sse_demo_header_def)
    show "cache_inv (ss_replay w1)" using cc w1(2) by simp
    have "entries (ss_replay w1) = mset_key [] k1 (Fin 15)" using cc w1(2) t by (simp add: new_cache_empty msize_def)
    then show "mget (live_entries (ss_replay w1) 6) k2 = None" using other by (simp add: live_entries_def)
  qed
  have key: "verificationMaterialCacheKey (signature_json \<lparr>alg = HS256, keyId = js ''k'', sigValue = u\<rparr>) (js ''a'')
      = verificationMaterialCacheKey (signature_json \<lparr>alg = HS256, keyId = js ''k'', sigValue = v\<rparr>) (js ''a'')"
    by (simp add: verificationMaterialCacheKey_def wire_members)
  have s: "sender (header sse_demo_last) = js ''a''" by (simp add: u(3) sse_demo_header_def)
  have rw2: "receives_with w1 sse_demo_session sse_demo_last \<lparr>alg = HS256, keyId = js ''k'', sigValue = u\<rparr> 6 (HmacSecret (js ''s''))"
    unfolding receives_with_def Let_def s key using w1(3) by simp
  obtain w2 where w2: "takes demo_crypto sse_demo_parse sse_demo_config 6 w1 sse_demo_last (sse_demo_says (Suc 0)) w2"
    using sse_demo_takes [OF u(2,3,5) _ u(4) _ _ rw2 c(1) k(2) c(2)] by auto
  have "sw_stream sse_demo_writer = js ''s''" "sw_seq sse_demo_writer = 0" "sw_stream sse_demo_next = js ''s''" "sw_seq sse_demo_next = Suc 0"
    by (simp_all add: sse_demo_next_def sse_demo_writer_def)
  moreover have "sse_demo_writer\<lparr>sw_seq := Suc (sw_seq sse_demo_writer)\<rparr> = sse_demo_next" by (simp add: sse_demo_next_def sse_demo_writer_def)
  ultimately have "takes_stream demo_crypto sse_demo_parse sse_demo_config 6 sse_demo_sign w1 (sse_demo_writer\<lparr>sw_seq := Suc (sw_seq sse_demo_writer)\<rparr>) [] (5, [2], [2])"
    and "event_content (sw_stream sse_demo_writer) (sw_seq sse_demo_writer) [(js ''message'', sse_demo_message)] = sse_demo_says 0"
    using u(1) w2 unfolding sse_demo_says_def takes_stream.simps by (simp_all only: nat.distinct if_False simp_thms if_True) blast
  with v(1) w1(1) show ?thesis unfolding takes_stream.simps by metis
qed

lemma sse_demo_paired: "paired sse_demo_config sse_demo_writer" "sg_streamId sse_demo_config \<in> {None, Some (sw_stream sse_demo_writer)}"
    "\<forall>(m, dm) \<in> set [(sse_demo_message, 5 :: int, [1 :: byte], [1 :: byte])]. is_rpc_message (Some m)"
    "length [(sse_demo_message, 5 :: int, [1 :: byte], [1 :: byte])] < sg_maxEvents sse_demo_config"
  by (simp_all add: paired_def sse_demo_config_def sse_demo_writer_def is_rpc_message_def sse_demo_message_def)

theorem sse_round_trip_witness:
  "\<exists>tx. write_stream sse_demo_sign sse_demo_writer [(sse_demo_message, 5, [1], [1])] (5, [2], [2]) = Some tx
    \<and> snd (snd (sse_feed demo_crypto sse_demo_parse sse_demo_config 6 (newSseReader sse_demo_config) (new_session 4 ()) tx)) = Inr [SseMessage 0 sse_demo_message]"
  using sse_round_trip [OF sse_demo_new sse_demo_paired(1,2) sse_demo_signs sse_demo_paired(3,4) sse_demo_taken] by auto

theorem stream_delivery_sound_witness:
  "\<exists>tx sid p. readSignedSse demo_crypto sse_demo_parse sse_demo_config (newSseReader sse_demo_config) (new_session 4 ()) [(Some tx, 6)] = ([SseMessage 0 sse_demo_message], None)
    \<and> event_backed demo_crypto sse_demo_parse sse_demo_config (Some sid) 1 p \<and> jmember p ''end'' = Some (JBool True)"
proof -
  obtain tx rd' w' where tx: "sse_feed demo_crypto sse_demo_parse sse_demo_config 6 (newSseReader sse_demo_config) (new_session 4 ()) tx = (rd', w', Inr [SseMessage 0 sse_demo_message])"
      "sse_finish rd' = None"
    using stream_read_back [OF sse_demo_new sse_demo_paired(1,2) sse_demo_signs sse_demo_paired(3,4) sse_demo_taken] by auto
  then have r: "readSignedSse demo_crypto sse_demo_parse sse_demo_config (newSseReader sse_demo_config) (new_session 4 ()) [(Some tx, 6)] = ([SseMessage 0 sse_demo_message], None)"
    by simp
  from stream_delivery_sound [OF r] r show ?thesis by auto
qed

theorem chunks_do_not_matter_witness:
  "snd (snd (sse_feed demo_crypto sse_demo_parse sse_demo_config 6 (newSseReader sse_demo_config) (new_session 4 ()) [58, 97, 13, 10, 58, 10])) = Inr []"
proof -
  obtain rd' where "feed_all demo_crypto sse_demo_parse sse_demo_config 6 (newSseReader sse_demo_config) (new_session 4 ()) ([58, 97, 13] # [[10, 58, 10]])
      = (rd', new_session 4 (), Inr [])"
    by (simp add: sse_feed_def newSseReader_def strip_bom_def strip_lf_def feed_loop.simps sse_line_def Let_def)
  from chunks_do_not_matter [OF this] show ?thesis by simp
qed

end
