(* ===== verification/PrimeField.thy ===== *)
theory PrimeField
  imports Main
begin

text \<open>
  That the order of the BLS12-381 scalar field, a constant of
  \<open>sdk/threshold/src/index.ts\<close>, is a prime: Fermat's theorem, Pocklington's criterion over a
  part of N - 1 whose factors are known, and a certificate for the constant (the powers of 5
  it needs, computed by squaring with the quotients given). The secret sharing of
  \<open>Threshold\<close> is correct only because of it.
\<close>

section \<open>Primes and Fermat's theorem\<close>

definition is_prime :: "int \<Rightarrow> bool" where
  "is_prime p \<longleftrightarrow> 1 < p \<and> (\<forall>d > 0. d dvd p \<longrightarrow> d = 1 \<or> d = p)"

lemma prime_coprime:
  assumes "is_prime p" "\<not> p dvd a"
  shows "coprime p a"
proof -
  have "gcd p a dvd p" "gcd p a > 0" using assms by (auto simp: is_prime_def)
  then have "gcd p a = 1 \<or> gcd p a = p" using assms(1) by (auto simp: is_prime_def)
  moreover have "gcd p a \<noteq> p" using assms(2) by (metis gcd_dvd2)
  ultimately show ?thesis by (simp add: coprime_iff_gcd_eq_1)
qed

lemma prime_dvd_mult: "is_prime p \<Longrightarrow> p dvd a * b \<Longrightarrow> p dvd a \<or> p dvd b"
  using prime_coprime coprime_dvd_mult_right_iff by blast

lemma prime_dvd_prod:
  assumes "is_prime p" "finite S" "p dvd \<Prod>S"
  shows "\<exists>x \<in> S. p dvd x"
  using assms(2,3)
proof (induction S rule: finite_induct)
  case empty
  with assms(1) show ?case by (auto simp: is_prime_def)
next
  case (insert x S)
  then show ?case using prime_dvd_mult [OF assms(1)] by auto
qed

lemma prod_mod: "finite S \<Longrightarrow> (\<Prod>x\<in>S. f x mod p) mod p = (\<Prod>x\<in>S. f x) mod (p :: int)"
proof (induction S rule: finite_induct)
  case (insert x S)
  then show ?case by (simp) (metis mod_mult_cong mod_mod_trivial)
qed simp

lemma fermat:
  assumes "is_prime p" "\<not> p dvd a"
  shows "a ^ nat (p - 1) mod p = 1"
proof -
  have p: "1 < p" using assms(1) by (simp add: is_prime_def)
  let ?S = "{1..p - 1}" and ?f = "\<lambda>x. a * x mod p"
  have small: "\<not> p dvd x" if "x \<in> ?S" for x using that zdvd_imp_le [of p x] by auto
  have inj: "inj_on ?f ?S"
  proof (rule inj_onI)
    fix x y assume xy: "x \<in> ?S" "y \<in> ?S" "?f x = ?f y"
    then have "p dvd a * (x - y)" by (simp add: mod_eq_dvd_iff right_diff_distrib)
    then have "p dvd x - y" using prime_dvd_mult [OF assms(1)] assms(2) by blast
    then show "x = y" using xy zdvd_imp_le [of p "\<bar>x - y\<bar>"] by (cases "x = y") auto
  qed
  have "?f x \<in> ?S" if "x \<in> ?S" for x
  proof -
    have "?f x \<noteq> 0" using prime_dvd_mult [OF assms(1), of a x] assms(2) small [OF that] by (auto simp: dvd_eq_mod_eq_0)
    then show ?thesis unfolding atLeastAtMost_iff using p pos_mod_bound [of p "a * x"] pos_mod_sign [of p "a * x"] by linarith
  qed
  then have "?f ` ?S = ?S" using inj by (intro endo_inj_surj) auto
  then have "\<Prod>?S = (\<Prod>x\<in>?S. ?f x)" using prod.reindex [OF inj, of "\<lambda>x. x"] by (simp add: comp_def)
  then have "\<Prod>?S mod p = (\<Prod>x\<in>?S. a * x) mod p" using prod_mod [of ?S "\<lambda>x. a * x" p] by simp
  then have "(a ^ nat (p - 1) * \<Prod>?S) mod p = \<Prod>?S mod p" by (simp add: prod.distrib)
  then have "p dvd a ^ nat (p - 1) * \<Prod>?S - \<Prod>?S" by (simp add: mod_eq_dvd_iff)
  then have "p dvd (a ^ nat (p - 1) - 1) * \<Prod>?S" by (simp add: left_diff_distrib)
  moreover have "\<not> p dvd \<Prod>?S" using prime_dvd_prod [OF assms(1)] small by blast
  ultimately have "p dvd a ^ nat (p - 1) - 1" using prime_dvd_mult [OF assms(1)] by blast
  then show ?thesis using p by (simp add: mod_eq_dvd_iff [symmetric])
qed

section \<open>Pocklington's criterion\<close>

lemma prime_divisor: "1 < n \<Longrightarrow> \<exists>p. is_prime p \<and> p dvd n \<and> (p * p \<le> n \<or> is_prime n)"
proof -
  assume n: "1 < n"
  let ?P = "\<lambda>k. 1 < k \<and> int k dvd n"
  have ex: "?P (nat n)" using n by simp
  define k where "k = (LEAST k. ?P k)"
  have k: "1 < k" "int k dvd n" using LeastI [of ?P, OF ex] by (auto simp: k_def)
  have least: "k \<le> j" if "1 < j" "int j dvd n" for j using that by (auto simp: k_def intro: Least_le)
  have prime: "is_prime (int k)"
  proof -
    have "d = 1 \<or> d = int k" if "d > 0" "d dvd int k" for d
    proof (cases "d = 1")
      case False
      then have "1 < nat d" "int (nat d) dvd n" using that k(2) by (auto intro: dvd_trans)
      from least [OF this] zdvd_imp_le [OF that(2)] k(1) that(1) show ?thesis by auto
    qed simp
    then show ?thesis using k(1) by (auto simp: is_prime_def)
  qed
  obtain c where c: "n = int k * c" using k(2) by blast
  have cpos: "0 < c" using n c k(1) by (metis less_trans mult_less_cancel_right of_nat_0_less_iff zero_less_mult_pos zero_less_one less_imp_of_nat_less of_nat_1 not_one_less_zero zero_less_mult_iff)
  have "int k * int k \<le> n \<or> is_prime n"
  proof (cases "c = 1")
    case True
    with c prime show ?thesis by simp
  next
    case False
    then have "1 < nat c" "int (nat c) dvd n" using cpos c by auto
    from least [OF this] cpos have "int k \<le> c" by simp
    then show ?thesis using c by (simp add: mult_left_mono)
  qed
  with prime k(2) show ?thesis by blast
qed

text \<open>Every prime divisor of N is 1 modulo k.\<close>

definition splits :: "int \<Rightarrow> int \<Rightarrow> bool" where
  "splits N k \<longleftrightarrow> (\<forall>p. is_prime p \<longrightarrow> p dvd N \<longrightarrow> k dvd p - 1)"

lemma splits_mult: "splits N k \<Longrightarrow> splits N l \<Longrightarrow> coprime k l \<Longrightarrow> splits N (k * l)"
  by (auto simp: splits_def intro: divides_mult)

lemma splits_prime:
  assumes "splits N k" "1 < N" "N < k * k" "0 < k"
  shows "is_prime N"
proof -
  obtain p where p: "is_prime p" "p dvd N" "p * p \<le> N \<or> is_prime N" using prime_divisor [OF assms(2)] by blast
  have "k dvd p - 1" using assms(1) p by (simp add: splits_def)
  then have "k \<le> p - 1" using p(1) by (intro zdvd_imp_le) (auto simp: is_prime_def)
  then have "k * k \<le> p * p" using assms(4) by (intro mult_mono) auto
  with assms(3) p(3) show ?thesis by auto
qed

lemma pow_gcd: "b ^ m mod p = 1 \<Longrightarrow> b ^ n mod p = 1 \<Longrightarrow> b ^ gcd m n mod p = (1 :: int)"
proof (induction m n rule: gcd_nat_induct)
  case (step m n)
  have "b ^ m = (b ^ n) ^ (m div n) * b ^ (m mod n)" by (simp flip: power_mult power_add)
  moreover have "(b ^ n) ^ (m div n) mod p = 1 mod p" using step.prems(2) by (metis power_mod power_one)
  ultimately have "b ^ (m mod n) mod p = 1" using step.prems(1) by (metis mod_mult_left_eq mult_1 mod_mod_trivial)
  with step show ?case by (simp add: gcd_red_nat [of m n])
qed simp

lemma prime_dvd_factor:
  assumes "is_prime q" "c dvd q ^ e" "c \<noteq> 1" "0 < c"
  shows "q dvd c"
proof (rule ccontr)
  assume "\<not> q dvd c"
  then have "coprime (q ^ e) c" using prime_coprime [OF assms(1)] by simp
  then have "is_unit c" using assms(2) by (metis coprime_def dvd_refl)
  with assms(3,4) show False by simp
qed

lemma splits_power:
  assumes q: "is_prime q" and e: "0 < e" and N: "1 < N"
    and a: "a ^ nat (q ^ e) mod N = 1" and cop: "coprime (a ^ nat (q ^ (e - 1)) - 1) N"
  shows "splits N (q ^ e)"
  unfolding splits_def
proof (intro allI impI, rule ccontr)
  fix p assume p: "is_prime p" "p dvd N" and not: "\<not> q ^ e dvd p - 1"
  have q0: "1 < q" and p1: "1 < p" using q p by (auto simp: is_prime_def)
  then have qe: "0 < q ^ e" by simp
  have 1: "a ^ nat (q ^ e) mod p = 1" using a p p1 by (metis mod_mod_cancel mod_pos_pos_trivial zero_le_one)
  have "\<not> p dvd a"
  proof
    assume "p dvd a"
    then have "p dvd a ^ nat (q ^ e)" using qe by (intro dvd_trans [OF _ dvd_power]) auto
    with 1 show False by (simp add: dvd_eq_mod_eq_0)
  qed
  then have 2: "a ^ nat (p - 1) mod p = 1" using fermat [OF p(1)] by simp
  define d where "d = gcd (nat (q ^ e)) (nat (p - 1))"
  have ad: "a ^ d mod p = 1" unfolding d_def by (rule pow_gcd [OF 1 2])
  have dq: "int d dvd q ^ e" "int d dvd p - 1" "0 < d"
    using qe p1 unfolding d_def by (auto simp: int_dvd_int_iff [symmetric] simp del: int_dvd_int_iff)
      (metis gcd_dvd1 int_dvd_int_iff int_nat_eq less_imp_le, metis gcd_dvd2 int_dvd_int_iff int_nat_eq diff_gt_0_iff_gt less_imp_le)
  obtain f where f: "q ^ e = int d * f" using dq(1) by blast
  have f0: "0 < f" using qe dq(3) f by (simp add: zero_less_mult_iff)
  have "f \<noteq> 1" using f not dq(2) by auto
  then have "q dvd f" using prime_dvd_factor [OF q, of f e] f f0 by simp
  then obtain g where "f = q * g" by blast
  moreover have "q ^ e = q * q ^ (e - 1)" using e by (simp flip: power_Suc)
  ultimately have g: "q ^ (e - 1) = int d * g" using f q0 by (simp add: mult.left_commute)
  then have "0 < g" using q0 dq(3) by (metis mult_pos_pos of_nat_0_less_iff zero_less_mult_pos zero_less_power order.strict_trans zero_less_one)
  then have "a ^ nat (q ^ (e - 1)) = (a ^ d) ^ nat g" using g by (simp add: nat_mult_distrib flip: power_mult)
  then have "a ^ nat (q ^ (e - 1)) mod p = 1" using ad p1 by (metis power_mod power_one mod_pos_pos_trivial zero_le_one)
  then have "p dvd a ^ nat (q ^ (e - 1)) - 1" using p1 by (simp add: mod_eq_dvd_iff [symmetric])
  then have "is_unit p" using cop p(2) by (metis coprime_def)
  then show False using p1 by simp
qed

section \<open>Certificates\<close>

text \<open>Trial division by the odd numbers.\<close>

function trial :: "int \<Rightarrow> int \<Rightarrow> bool" where
  "trial n d = (if d \<le> 0 \<or> n < d * d then True else n mod d \<noteq> 0 \<and> trial n (d + 2))"
  by auto
termination
proof (relation "measure (\<lambda>(n, d). nat (n + 1 - d))")
  fix n d :: int assume "\<not> (d \<le> 0 \<or> n < d * d)"
  then have "0 < d" "d * 1 \<le> d * d" "d * d \<le> n" by (auto intro!: mult_left_mono)
  then have "d \<le> n" by linarith
  then show "((n, d + 2), (n, d)) \<in> measure (\<lambda>(n, d). nat (n + 1 - d))" by simp
qed simp

declare trial.simps [simp del]

lemma trial_sound: "trial n d \<Longrightarrow> 0 < d \<Longrightarrow> odd d \<Longrightarrow> odd k \<Longrightarrow> d \<le> k \<Longrightarrow> k * k \<le> n \<Longrightarrow> \<not> k dvd n"
proof (induction n d rule: trial.induct)
  case (1 n d)
  have "d * d \<le> k * k" using "1.prems" by (intro mult_mono) auto
  then have t: "n mod d \<noteq> 0" "trial n (d + 2)" "\<not> (d \<le> 0 \<or> n < d * d)" using "1.prems" by (auto simp: trial.simps [of n d])
  show ?case
  proof (cases "k = d")
    case False
    then have "d + 2 \<le> k" using "1.prems"(3-5) by presburger
    with 1 t show ?thesis by auto
  qed (use t in \<open>auto simp: dvd_eq_mod_eq_0\<close>)
qed

lemma trial_prime:
  assumes "trial n 3" "odd n" "1 < n"
  shows "is_prime n"
proof -
  obtain p where p: "is_prime p" "p dvd n" "p * p \<le> n \<or> is_prime n" using prime_divisor [OF assms(3)] by blast
  have "odd p" using assms(2) p(2) by (metis dvd_trans)
  moreover have "1 < p" using p(1) by (simp add: is_prime_def)
  ultimately have "3 \<le> p" by presburger
  with trial_sound [OF assms(1), of p] \<open>odd p\<close> p show ?thesis by auto
qed

text \<open>
  The powers of a modulo n by squaring and multiplying: x stands for a power of a; each step
  comes with the quotient that reduces it.
\<close>

datatype power_step = Square int | Times int

fun chain :: "int \<Rightarrow> int \<Rightarrow> int \<Rightarrow> power_step list \<Rightarrow> int" where
  "chain n a x [] = x"
| "chain n a x (Square q # ss) = chain n a (x ^ 2 - q * n) ss"
| "chain n a x (Times q # ss) = chain n a (a * x - q * n) ss"

fun chain_exponent :: "int \<Rightarrow> power_step list \<Rightarrow> int" where
  "chain_exponent e [] = e"
| "chain_exponent e (Square q # ss) = chain_exponent (2 * e) ss"
| "chain_exponent e (Times q # ss) = chain_exponent (e + 1) ss"

lemma chain_sound:
  "0 \<le> e \<Longrightarrow> x mod n = a ^ nat e mod n \<Longrightarrow> chain n a x ss mod n = a ^ nat (chain_exponent e ss) mod n \<and> 0 \<le> chain_exponent e ss"
proof (induction n a x ss arbitrary: e rule: chain.induct)
  case (2 n a x q ss)
  have "(x ^ 2 - q * n) mod n = (x * x) mod n" by (simp add: mod_eq_dvd_iff power2_eq_square)
  also have "\<dots> = a ^ nat (2 * e) mod n" using "2.prems" by (metis mod_mult_cong nat_mult_distrib mult_2 nat_add_distrib power_add)
  finally show ?case using "2.IH" [of "2 * e"] "2.prems"(1) by simp
next
  case (3 n a x q ss)
  have "(a * x - q * n) mod n = (a * x) mod n" by (simp add: mod_eq_dvd_iff)
  also have "\<dots> = a ^ nat (e + 1) mod n" using "3.prems" by (metis mod_mult_right_eq Suc_nat_eq_nat_zadd1 power_Suc add.commute)
  finally show ?case using "3.IH" [of "e + 1"] "3.prems"(1) by simp
qed auto

text \<open>\<open>pw n a e x\<close>: x is the e-th power of a modulo n.\<close>

definition pw :: "int \<Rightarrow> int \<Rightarrow> int \<Rightarrow> int \<Rightarrow> bool" where
  "pw n a e x \<longleftrightarrow> 0 \<le> e \<and> x mod n = a ^ nat e mod n"

lemma pw_start: "pw n a 1 a"
  by (simp add: pw_def)

lemma pw_chain: "pw n a e x \<Longrightarrow> chain n a x ss = y \<Longrightarrow> chain_exponent e ss = f \<Longrightarrow> pw n a f y"
  using chain_sound [of e x n a ss] by (auto simp: pw_def)

lemma pw_power: "pw n a e x \<Longrightarrow> pw n x f y \<Longrightarrow> pw n a (e * f) y"
  by (simp add: pw_def nat_mult_distrib power_mult) (metis power_mod)

lemma coprime_witness: "u * s = v * n + (1 :: int) \<Longrightarrow> coprime s n"
  by (rule coprimeI) (metis dvd_add_right_iff dvd_mult dvd_mult2)

lemma coprime_pw: "pw n a e x \<Longrightarrow> coprime (x - 1) n \<Longrightarrow> coprime (a ^ nat e - 1) n"
  by (simp add: pw_def) (metis coprime_mod_left_iff coprime_0_right_iff mod_diff_left_eq mod_by_0)

text \<open>An element of order a prime power.\<close>

lemma splits_pw:
  assumes "is_prime q" "0 < e" "1 < N" "pw N a (q ^ (e - 1)) x" "pw N x q 1" "coprime (x - 1) N"
  shows "splits N (q ^ e)"
proof (rule splits_power [OF assms(1-3)])
  have "q ^ (e - 1) * q = q ^ e" using assms(2) by (simp add: power_Suc2 [symmetric] del: power_Suc)
  then show "a ^ nat (q ^ e) mod N = 1" using pw_power [OF assms(4,5)] assms(3) by (simp add: pw_def)
  show "coprime (a ^ nat (q ^ (e - 1)) - 1) N" by (rule coprime_pw [OF assms(4,6)])
qed

lemma prime_by_factor:
  assumes "is_prime q" "1 < N" "N < q * q" "pw N a q 1" "coprime (a - 1) N"
  shows "is_prime N"
  using splits_prime [of N q] splits_pw [of q 1 N a a] assms by (simp add: is_prime_def pw_def)

section \<open>The order of the scalar field\<close>

definition FIELD_ORDER :: int where
  "FIELD_ORDER = 0x73eda753299d7d483339d80809a1d80553bda402fffe5bfeffffffff00000001"

lemma chain_cong: "x = y \<Longrightarrow> chain n a x ss = chain n a y ss" "e = f \<Longrightarrow> chain_exponent e ss = chain_exponent f ss"
  by simp_all

lemmas chain_eval = chain.simps chain_exponent.simps arith_simps power_numeral pow.simps sqr.simps power_one
  mult_zero_left diff_zero mult_1_left mult_1_right one_add_one numeral_plus_one one_plus_numeral diff_numeral_special FIELD_ORDER_def

lemma prime_906349: "is_prime 906349"
  by (rule trial_prime) (code_simp, simp_all)

lemma prime_2653753: "is_prime 2653753"
  by (rule trial_prime) (code_simp, simp_all)

lemma order_63690073:
  "pw 63690073 16777216 2653753 1"
  by (rule pw_chain [OF pw_start, where ss =
    "[Square 4419448, Square 1889804, Times 8711448, Square 27329205, Square 51868540, Square 44833870, Square 1806065, Square 8505225, Times 10275902,
     Square 50738187, Times 11507447, Square 1036960, Times 14810750, Square 13880439, Times 460812, Square 49437545, Times 10386341, Square 153622,
     Times 1628574, Square 39970324, Square 9339886, Square 14406653, Square 3359262, Times 8455623, Square 28440403, Times 12355503, Square 34496211,
     Times 6970274, Square 48762712, Square 8225597, Square 42628564, Times 5430551]"])
    (simp_all only: chain_eval cong: chain_cong)

lemma apart_63690073: "coprime (16777216 - 1 :: int) 63690073"
  by (rule coprime_witness [of 34981479 _ 9214808])
    (simp only: chain_eval)

lemma prime_63690073: "is_prime 63690073"
  by (rule prime_by_factor [OF prime_2653753 _ _ order_63690073 apart_63690073]) simp_all

lemma order_254760293:
  "pw 254760293 16 63690073 1"
  by (rule pw_chain [OF pw_start, where ss =
    "[Square 0, Times 0, Square 0, Times 1, Square 734062, Times 14, Square 99707285, Square 4238726, Square 48084490, Times 1, Square 227324119,
     Square 173494994, Times 11, Square 168359654, Times 0, Square 169413461, Times 13, Square 8076135, Times 11, Square 153003320, Square 41854160,
     Times 5, Square 83761968, Square 2272739, Times 6, Square 164312586, Square 204119407, Times 9, Square 40312342, Square 219568135, Times 13,
     Square 179136231, Square 174133891, Times 2, Square 92900883, Times 10, Square 193374309, Square 35109216, Square 15922518, Times 3]"])
    (simp_all only: chain_eval cong: chain_cong)

lemma apart_254760293: "coprime (16 - 1 :: int) 254760293"
  by (rule coprime_witness [of 220792254 _ 13])
    (simp only: chain_eval)

lemma prime_254760293: "is_prime 254760293"
  by (rule prime_by_factor [OF prime_63690073 _ _ order_254760293 apart_254760293]) simp_all

lemma q1_once_0:
  "pw FIELD_ORDER 3424938062893677065662490257110172471024785187430867755711469115441404461958 442 30523750441402031379725359769494809876724181850796250059060123325617066735040"
  by (rule pw_chain [OF pw_start, where ss =
    "[Square 223705634653396695560244508681821010443667499250038860831745672379069186106,
     Times 468197841980428445197366667986683958944403539686487561023566025113794085912,
     Square 20673792135877517241697880859649351585320704816759387120810067049336166552517,
     Square 12965997501309988621046141576094041162666514981098290114739442572922270349373,
     Times 167835130491220174871693360067572446821640141284452682663108573145221745860,
     Square 3521224575643622908222359713921520077830806841862955980634236326496969848911,
     Times 226001342340151827500367440434409960305928679066199219311067615613756790432,
     Square 17506682372857870340900625512188253258697367434551479291853772866663641669429,
     Times 2871232315553464118432854635865891117561521288627806998953220192213792624116,
     Square 41941404303908325566830923894986236460419908089828505956327168366606585491916,
     Square 3606154659611354448499334452440748175683806969577440803398376363514545687390,
     Times 1788153130506890514768076180481092142129014623983753462673118047368993798031,
     Square 47504246960073282094338597432624787276823187858197556703104435308634091525577]"])
    (simp_all only: chain_eval cong: chain_cong)

lemma q1_once_1:
  "pw FIELD_ORDER 3424938062893677065662490257110172471024785187430867755711469115441404461958 113293 49128461717246919119635860449857819391963017616652791489724737959358992998637"
  by (rule pw_chain [OF q1_once_0, where ss =
    "[Square 17768356833890653337830362789964171827249942427476603788757798049269447790190,
     Times 2672616476130495163515446463301051717084113175986223321471299102116054934836,
     Square 192680569479270327995336026263781657832610142319959049138555599887712662978,
     Square 25679315437337433073121300812372649022265810046928685042954943290190680818707,
     Square 5768321890940665794423576944482047365842920048851523568460872066457052081130,
     Square 1751396555231897898983761558990607588977906013737396554746242442065913588705,
     Times 7289417401035492062241360505323624504070784796951239728179993075923691778,
     Square 10686477786611472194850305037821005505995097946500573666900024241502814583410,
     Times 3103604016984150050784966205145914265013431570405721151458672023360412655787,
     Square 22695703456711946130963341903694391680811619586624235633384564940237665977973,
     Square 4289760617879721372162147269266426372212849951403833425221488966322783486144,
     Times 1601699552133842332394509145807829217635169355786513144728282344567777306099]"])
    (simp_all only: chain_eval cong: chain_cong)

lemma q1_once:
  "pw FIELD_ORDER 3424938062893677065662490257110172471024785187430867755711469115441404461958 906349 4681681615185861505731311821549842608922871405158480711315762820312151169802"
  by (rule pw_chain [OF q1_once_1, where ss =
    "[Square 46029664664544956661318368991776274766085882451029593527023750881825544857078,
     Times 2923205823566824231955830670260333343336033694345571968228170669639288648796,
     Square 1772225778225203142386512499525832304563112259441775868169036416210944047994,
     Square 3481175784617197444684540791608238001462679387966627879490593408299059314550,
     Times 2644687741103579498461269927212960889470289579641800390207638799383078828170]"])
    (simp_all only: chain_eval cong: chain_cong)

lemma q1_twice_0:
  "pw FIELD_ORDER 4681681615185861505731311821549842608922871405158480711315762820312151169802 442 38427754793109808926602379712891224550337573640937456901742127398273278860360"
  by (rule pw_chain [OF pw_start, where ss =
    "[Square 417998987768712292137237887616015361202346811540029617741840904067256608794,
     Times 857943974164931829063613657370134404207929117012260327276629669251954518855,
     Square 52219424936010260796243615084980864699617027532824301220515170397914302085943,
     Square 3205112691925171872238347362724416319299119021484174302747501663924506818197,
     Times 49572894394057953822898009867623821660421998598407222319095715001750878094,
     Square 41066456784932944311715605478450799379127575634970591968553382847327135039839,
     Times 605764595985204768190849961160898039605444478265999706188226175999957252601,
     Square 29136674307569440500520087673658507831160933422157177773177606731365242269821,
     Times 2821984074660098397312236084014423608998148457669250753613021275311382691303,
     Square 35310265989999815967145987694580019713096967550545848400309068095869336499395,
     Square 8929713358936081016628488200952459567104235761819068255192694092393722834880,
     Times 4530071400414525207925594243873380448034030071587055036527788626053046898726,
     Square 28790110057048037463135634696500271640467538851530435488102706675040810428]"])
    (simp_all only: chain_eval cong: chain_cong)

lemma q1_twice_1:
  "pw FIELD_ORDER 4681681615185861505731311821549842608922871405158480711315762820312151169802 113293 25397196534283901656139109728770828117125290299767876240466619026534774070357"
  by (rule pw_chain [OF q1_twice_0, where ss =
    "[Square 28161870732728170468458694192345715089014809675233047942422417971856392967242,
     Times 109537498954418143083844816369443271691839064382074818923221093502061506690,
     Square 31863402928853548603784219132235537359749717600594729488711562189051532089796,
     Square 30473810750513382341166507802026351932650737510934147787537052057047767472944,
     Square 1447314146818588344424352649613658720611190549873126461626083558894918079584,
     Square 2285060763169663702995932759890657723187398398835233293756521808448985455576,
     Times 3324911433972326852865963685144623395176719024169074731419608016983907609181,
     Square 44249010378678847805876880438767621935301954254316032718823439387491834780825,
     Times 1750634777965298791951652353230406183099716004351418653815694083433769592710,
     Square 17968838222552786258624366674121573197798797596363000200650887438027720905828,
     Square 15512201991120051841144636752073115733090339239274439952044217489124862264,
     Times 1635682677068189400865816506949025116402067757367482255684280893308707618683]"])
    (simp_all only: chain_eval cong: chain_cong)

lemma q1_twice:
  "pw FIELD_ORDER 4681681615185861505731311821549842608922871405158480711315762820312151169802 906349 1"
  by (rule pw_chain [OF q1_twice_1, where ss =
    "[Square 12301074210105237306518767363110818352862125744486821070186387242705869273413,
     Times 1937604343761183743868106508899489246236163926947562200809226753500035599017,
     Square 25669846876455179409016650403516061231204044795294532321801158415700647165890,
     Square 11974547516059758935806987638953949643466523794447958281703552675812018731563,
     Times 158404495334825659011348588144547244569148352473885943254202337994947381851]"])
    (simp_all only: chain_eval cong: chain_cong)

lemma apart_q1: "coprime (4681681615185861505731311821549842608922871405158480711315762820312151169802 - 1 :: int) FIELD_ORDER"
  by (rule coprime_witness [of 23228006829848193982005774833676428102340799460332544135501612309786345839955 _ 2073888004529719578756517511504293145810796783323215621873515747645007284458])
    (simp only: chain_eval)

lemma q2_once_0:
  "pw FIELD_ORDER 42253163507982789749225996647836927160030393495320766407085765869987789208388 485 12441773931831047426996560495483711155080938178229604735922985399935339346352"
  by (rule pw_chain [OF pw_start, where ss =
    "[Square 34047869335062203889848577901245510974777815862269333396394781121709240930175,
     Times 20588434166798817651590261707104664432923539750310898621058284639762598030821,
     Square 42713555187293025327308338295770641531356096198840127430076652313563088109932,
     Times 30300431056179395098915607843789069716962474643827962621427994047661063615306,
     Square 3468019056174323463703546478381404871431579968395907718402578965093241662409,
     Times 30948940288063190064336072958951298957625684926692812065432743139367873807618,
     Square 5062731519313628218748285109893264090795909733589175617292943788655563742241,
     Square 486557742734157250045983895870105416422312433087421015136052305144787539939,
     Square 20078095923791846915502667194280800815464069709502702214692846249329267169234,
     Times 14913814571672266675652986159471410358858233729329094963164436542110289739402,
     Square 51150476250930388829562586809389501927380711561642513812671732370136753217944,
     Square 99978226247589325991925814545651812320215326675328061384639701479757961560,
     Times 9001652806479411804661866197572832317937689806848893710201746513748489039152]"])
    (simp_all only: chain_eval cong: chain_cong)

lemma q2_once_1:
  "pw FIELD_ORDER 42253163507982789749225996647836927160030393495320766407085765869987789208388 124394 33690050097179051872373489547089275396835657931397605994868549511788725196424"
  by (rule pw_chain [OF q2_once_0, where ss =
    "[Square 2952134164897497964975827897380732186083392939871175359459801306688460048349,
     Times 12962011531905469159683352954239694471744262680099693404749820894114899492909,
     Square 10851737549575759141657380398659065325199841176254491213758574152784920824170,
     Times 21229005664701129663615908957377953230479690691803870185989763188652966277337,
     Square 17956299764292887641431706257945537791450416966981840612582576596077166537320,
     Times 29833189703211119226807213410771961820448984304769799472761300146393644288643,
     Square 2313842953380340218942226965533948494793101338384699770086916323316787240825,
     Square 70578975288871294108913521015158952424813770573962398218799382159824841342,
     Times 15158585963500649862368759924483307487913299754957600649624709449211673715532,
     Square 13269881154989972455001024291941731422100775144533655672898105618231418408832,
     Square 9634364531074922427995857780337533397421677780892340450095670182408803159540,
     Times 11778954750174717424399335318068757717219940188780837949088359181118252341144,
     Square 34287881732487733339590040478960805013398977428452813887982447214397033321400]"])
    (simp_all only: chain_eval cong: chain_cong)

lemma q2_once_2:
  "pw FIELD_ORDER 42253163507982789749225996647836927160030393495320766407085765869987789208388 31845036 23275114102181123725845157479529510109605555268274500870671159063481625070215"
  by (rule pw_chain [OF q2_once_1, where ss =
    "[Square 21645857378363147371437918006673737453957807021168644810359279321773281635710,
     Times 40994814124942707413132665767708068963130078007440955686293389685235369741995,
     Square 22050550579300837038820400879525001421098456881471705826206692831922182079465,
     Square 540716190051236387538679938006025736476592419675622762115904376868497455861,
     Times 32835499826484562316001811664332014319141703021442474010456051144593450635308,
     Square 14982436010220160271033419743018268372187149966103273073540191421684321377804,
     Square 46748167285102758145170526671724434123834318228243070039668850406318812191070,
     Times 8849887904058915374073668027419123452384962869698744302215697266413388923861,
     Square 7804052334046335646609868741440070338514137447152031074743793403031390090327,
     Times 34301823860426747414437874655670104332148546370084555200867139752198796282459,
     Square 39759352951438093110970995075986918434792917516430400623780929929776398458806,
     Square 24192681975686443044931721366950745875929688869693934372123945059610907988642]"])
    (simp_all only: chain_eval cong: chain_cong)

lemma q2_once:
  "pw FIELD_ORDER 42253163507982789749225996647836927160030393495320766407085765869987789208388 254760293 43603732304489846592705804904240825429920340867092040465272759079799443387350"
  by (rule pw_chain [OF q2_once_2, where ss =
    "[Square 10331303418895342296411535679231226780037028833477074955308672478494708612542,
     Times 35489976877261430331393229599781334922896500788165053027047664289480721211640,
     Square 15740013279311425541453192123349944968231972003494188345075073403003342662816,
     Square 1400526635491618425669074814977229782188525411654526105513541022195233865836,
     Times 36334867556574597791720261731736303661567544336800086736706226191411031068538]"])
    (simp_all only: chain_eval cong: chain_cong)

lemma q2_twice_0:
  "pw FIELD_ORDER 43603732304489846592705804904240825429920340867092040465272759079799443387350 485 30531888427020111904245928980861097772491981161329385382623435626674294131237"
  by (rule pw_chain [OF pw_start, where ss =
    "[Square 36259249312263163837960127608279937350015443974530841958536014595626785281951,
     Times 28621710624976085080153114068291873774048715219021190394116095735755995191797,
     Square 14755569238028650128778644715390849190898822753490247058138237794770810011893,
     Times 6117109752310764052288136223218154457874400615430393007793590765944841743478,
     Square 51644735689504395586438263021945085550696786266953581829782545654840647947889,
     Times 23501316137412946208491091085519910927452333621298377210187165792149423494272,
     Square 23667379955889774899996320306391632188813181296966755905221642940013387444933,
     Square 17177350725215070309315338287039042895413987770537577416488898925743152739429,
     Square 685010609648615492364611424151926045534161027321824245080221914724466976229,
     Times 11388917025147232265879760153968221875210785476899534813211225382799197345807,
     Square 17188604035187759539854225175156833262657408365029125348409074499007164799771,
     Square 45734727472848671284549979212184399976150497833890034730528128858249929392,
     Times 17455105114653401434369543246177474480847610575466998435075901542764980136851]"])
    (simp_all only: chain_eval cong: chain_cong)

lemma q2_twice_1:
  "pw FIELD_ORDER 43603732304489846592705804904240825429920340867092040465272759079799443387350 124394 40395185600446990678178216205784666717020216602675989077327226195649772326732"
  by (rule pw_chain [OF q2_twice_0, where ss =
    "[Square 17777832596607581079494688660571654695658028290767249532048952316733681497163,
     Times 38672909783843779298379073935775933649379745598020099482701538279127975705759,
     Square 2136686210736746789561344093901435275099251725842912245704285444824835077182,
     Times 33149487931553705488050878612581047919726196763975539753262150322751434712223,
     Square 2626905222595262433834700853289177132663682426348839281704956730232686292332,
     Times 20663376516829780167665973233386943682190226523960388181780872959791466926082,
     Square 9260983060700748550607592642184348685918841201160222601156114552638885785259,
     Square 30489820536939932341153110247032955845451749140864095983214952564560334015945,
     Times 41357542589628139892449059037975123723268479733347876952351169240857761862431,
     Square 274522084030573291294688426207904566253493694473125314886600596900830472169,
     Square 3850187718369779817464206538335188013699968891452019285298868449365097667270,
     Times 6644687269673935468765799184796965886902539887984250248934893876334250868739,
     Square 10175806227683185107092559192724600757929716946766941468803122593714324065509]"])
    (simp_all only: chain_eval cong: chain_cong)

lemma q2_twice_2:
  "pw FIELD_ORDER 43603732304489846592705804904240825429920340867092040465272759079799443387350 31845036 24811698093435729321041472373234510731832877329147127293935326557711606807215"
  by (rule pw_chain [OF q2_twice_1, where ss =
    "[Square 31119362731045194870441463688044682291516803508389474675197432218152798960765,
     Times 31341695724788410113582194166916453896238076578582076963601642556213374661263,
     Square 4687319460060783998871668807024713081772873274419994213225990227321739316536,
     Square 1638092833440875134134530683460038258902878888426079953212756050951543079156,
     Times 10515318642559388750233825066544340063578847199071056523035242749603227147286,
     Square 786460608494521170326586290113160167713863879804482177762993234133434795814,
     Square 44709969392035272302666253829148783644519344592119940747573413726949112067038,
     Times 37643569445934155264628779393569222637172283003621104786282562590189316033094,
     Square 44658595245249905796785119315410402921394217161529486638729510774052640074068,
     Times 17715782449647067954409125915567495583802581539077245867628983221499947770958,
     Square 35858524693676743138976821093992608490137388188693187541921585856684654427631,
     Square 49304043513704750459469639428470547386651738579556085140645612340460412325258]"])
    (simp_all only: chain_eval cong: chain_cong)

lemma q2_twice:
  "pw FIELD_ORDER 43603732304489846592705804904240825429920340867092040465272759079799443387350 254760293 1"
  by (rule pw_chain [OF q2_twice_2, where ss =
    "[Square 11740442211057663983111840422876058097935807084151534342706355675360503651247,
     Times 2699394661090110002697230959390868381018403071487138813359884795093745201063,
     Square 4208256334893821837813069996788831709749222851234740012125079839303470155441,
     Square 2465681677999293783905345959619669084177359162545687687615589819229739168441,
     Times 9280085864434008675047290727612759051620497230802084321467071916787881510873]"])
    (simp_all only: chain_eval cong: chain_cong)

lemma apart_q2: "coprime (43603732304489846592705804904240825429920340867092040465272759079799443387350 - 1 :: int) FIELD_ORDER"
  by (rule coprime_witness [of 35712579557439236096876167352832642893763751801196582581341201406049842986247 _ 29697258865702329084714130822732336728870991264334716186206336229376044313554])
    (simp only: chain_eval)

lemma two_once_0:
  "pw FIELD_ORDER 937917089079007706106976984802249742464848817460758522850752807661925904159 256 13205172441828670567663721566567600707419662718089030114959677511969243860524"
  by (rule pw_chain [OF pw_start, where ss =
    "[Square 16776461974715619813569037439309893532967837537439729901758046165270917207,
     Square 36252878407426077592578755252064657524956885243352374794234035053573659580892,
     Square 277000762056131246938112220437233868345873954167468863918998217326770607303,
     Square 49252642875594653974532604697416328753930299046720377694623636612014391229661,
     Square 6688322797463033871603117451681983253277520578884863620167734108673180793437,
     Square 10985482498769950705103637904297266064221703239496195814966308674814606260075,
     Square 49975695697862090509428822510287300043787685484555081645875759536726215377945,
     Square 2037302396693008430321823442237346003643186948470262004116502567578880686477]"])
    (simp_all only: chain_eval cong: chain_cong)

lemma two_once_1:
  "pw FIELD_ORDER 937917089079007706106976984802249742464848817460758522850752807661925904159 65536 46605497109352149548364111935960392432509601054990529243781317021485154656122"
  by (rule pw_chain [OF two_once_0, where ss =
    "[Square 3325520526472489165192987219819013997251090441997560870444844796276765657752,
     Square 25771335944146864435162806054301534023147583103397236311308659705208753477999,
     Square 52845785545893046487505890908511395862657191379410652481875454595778048954,
     Square 48012157259678791389370477164937796933362520621559740883595383323275970928263,
     Square 10636104398307084544436323775010127087302777288043401919863971980542645734864,
     Square 13310793440447930429504881456743006951320590568877184336464916026184437419400,
     Square 35183260607211331998704367436465769292659026470480014790252244451238827483138,
     Square 134435503284273330965872436430013928181114231220137805804769064882593410954]"])
    (simp_all only: chain_eval cong: chain_cong)

lemma two_once_2:
  "pw FIELD_ORDER 937917089079007706106976984802249742464848817460758522850752807661925904159 16777216 21071158244812412064791010377580296085971058123779034548857891862303448703672"
  by (rule pw_chain [OF two_once_1, where ss =
    "[Square 41423402461683130062881916030270239716327447985848995269521657828332709411152,
     Square 17388482273571220190652344992498057611872896637974930626174342832255791684492,
     Square 25216089834993928433444796500815969002147820071136554540933259739795029025150,
     Square 450904330967427606653208871636973936747566933811174041049605227869637975359,
     Square 1134285040138189231872319530384705723199487254568059110578252774350338541474,
     Square 17683397148100526281810881353095936311667058923728079779944521464927729016664,
     Square 8675720130245987427563942071104686958010064558864238223037439715983122283069,
     Square 2994717374668740487447232620781058741594680265531247628485367376193753927128]"])
    (simp_all only: chain_eval cong: chain_cong)

lemma two_once:
  "pw FIELD_ORDER 937917089079007706106976984802249742464848817460758522850752807661925904159 2147483648 52435875175126190479447740508185965837690552500527637822603658699938581184512"
  by (rule pw_chain [OF two_once_2, where ss =
    "[Square 8467365297042695712063307938787513277505458094032558359203381088493032473144,
     Square 238324468436590208809265078937486138137894813525218123405361915932506876865,
     Square 795869367577610264683857499553917058119381019006084342746829094170432891995,
     Square 19910610028285244793439707581443337897408870797391250283276757805561446262065,
     Square 24457167616036385483969981257357750640857012912538963241384617061181668108066,
     Square 15775564248631049913154859163933222660124302047290014289737102587607709435697, Square 228988810152649578064853576960394133504]"])
    (simp_all only: chain_eval cong: chain_cong)

lemma two_twice:
  "pw FIELD_ORDER 52435875175126190479447740508185965837690552500527637822603658699938581184512 2 1"
  by (rule pw_chain [OF pw_start, where ss =
    "[Square 52435875175126190479447740508185965837690552500527637822603658699938581184511]"])
    (simp_all only: chain_eval cong: chain_cong)

lemma apart_two: "coprime (52435875175126190479447740508185965837690552500527637822603658699938581184512 - 1 :: int) FIELD_ORDER"
  by (rule coprime_witness [of 26217937587563095239723870254092982918845276250263818911301829349969290592256 _ 26217937587563095239723870254092982918845276250263818911301829349969290592255])
    (simp only: chain_eval)

lemma FIELD_ORDER_gt: "1 < FIELD_ORDER"
  by (simp add: FIELD_ORDER_def)

lemma field_order_prime: "is_prime FIELD_ORDER"
proof (rule splits_prime [of _ "906349 ^ 2 * 254760293 ^ 2 * 2 ^ 32"])
  have two: "is_prime 2" by (auto simp: is_prime_def dest: zdvd_imp_le)
  have "splits FIELD_ORDER (906349 ^ 2)" "splits FIELD_ORDER (254760293 ^ 2)"
    using splits_pw [OF prime_906349 _ FIELD_ORDER_gt _ q1_twice apart_q1, of 2] splits_pw [OF prime_254760293 _ FIELD_ORDER_gt _ q2_twice apart_q2, of 2]
      q1_once q2_once by simp_all
  moreover have "splits FIELD_ORDER (2 ^ 32)"
    using splits_pw [OF two _ FIELD_ORDER_gt _ two_twice apart_two, of 32] two_once by simp
  ultimately show "splits FIELD_ORDER (906349 ^ 2 * 254760293 ^ 2 * 2 ^ 32)"
    by (intro splits_mult) (simp_all add: coprime_iff_gcd_eq_1 gcd_non_0_int)
qed (simp_all add: FIELD_ORDER_def)

end
