(* ===== verification/ScalarField.thy ===== *)
theory ScalarField
  imports PrimeField
begin

text \<open>
  The scalar field as a type of the class \<open>field\<close>, which its order being prime makes it, and
  polynomials over any field by their coefficients: division by a linear factor, the number
  of roots, and Lagrange's interpolation at zero.
\<close>

section \<open>Polynomials over a field\<close>

primrec peval :: "'a :: field list \<Rightarrow> 'a \<Rightarrow> 'a" where
  "peval [] x = 0"
| "peval (c # cs) x = c + x * peval cs x"

text \<open>The quotient of the division by x - a.\<close>

fun quot :: "'a :: field \<Rightarrow> 'a list \<Rightarrow> 'a list" where
  "quot a [] = []"
| "quot a [c] = []"
| "quot a (c # d # cs) = peval (d # cs) a # quot a (d # cs)"

lemma length_quot [simp]: "length (quot a cs) = length cs - 1"
  by (induction a cs rule: quot.induct) auto

lemma peval_quot: "peval cs x = peval cs a + (x - a) * peval (quot a cs) x"
proof (induction a cs rule: quot.induct)
  case (3 a c d cs)
  have "peval (c # d # cs) x = c + x * (peval (d # cs) a + (x - a) * peval (quot a (d # cs)) x)" using 3 by simp
  also have "\<dots> = peval (c # d # cs) a + (x - a) * peval (quot a (c # d # cs)) x" by (simp add: algebra_simps)
  finally show ?case .
qed auto

lemma quot_zero: "peval cs a = 0 \<Longrightarrow> \<forall>q \<in> set (quot a cs). q = 0 \<Longrightarrow> \<forall>c \<in> set cs. c = 0"
  by (induction a cs rule: quot.induct) auto

lemma peval_zero: "\<forall>c \<in> set cs. c = 0 \<Longrightarrow> peval cs x = 0"
  by (induction cs) auto

lemma many_roots:
  "finite X \<Longrightarrow> length cs \<le> card X \<Longrightarrow> \<forall>x \<in> X. peval cs x = 0 \<Longrightarrow> \<forall>c \<in> set cs. c = 0"
proof (induction "length cs" arbitrary: cs X)
  case (Suc n)
  then have "X \<noteq> {}" by auto
  then obtain a where a: "a \<in> X" by blast
  have "peval (quot a cs) x = 0" if x: "x \<in> X - {a}" for x
  proof -
    have "peval cs x = peval cs a + (x - a) * peval (quot a cs) x" by (rule peval_quot)
    moreover have "peval cs x = 0" "peval cs a = 0" using Suc.prems(3) a x by auto
    ultimately show ?thesis using x by simp
  qed
  moreover have "length (quot a cs) \<le> card (X - {a})" "n = length (quot a cs)" using Suc.prems(1,2) Suc.hyps(2) a by (simp_all add: card_Diff_singleton)
  ultimately have "\<forall>q \<in> set (quot a cs). q = 0" using Suc.hyps(1) Suc.prems(1) by blast
  then show ?case using quot_zero a Suc.prems(3) by blast
qed simp

definition lagrange0 :: "'a :: field set \<Rightarrow> ('a \<Rightarrow> 'a) \<Rightarrow> 'a" where
  "lagrange0 X f = (\<Sum>x \<in> X. f x * (\<Prod>z \<in> X - {x}. - z / (x - z)))"

lemma lagrange0_add: "lagrange0 X (\<lambda>x. f x + g x) = lagrange0 X f + lagrange0 X g"
  by (simp add: lagrange0_def distrib_right sum.distrib)

lemma lagrange0_scale: "lagrange0 X (\<lambda>x. c * f x) = c * lagrange0 X f"
  by (simp add: lagrange0_def sum_distrib_left mult.assoc)

lemma lagrange0_remove:
  assumes "finite X" "a \<in> X"
  shows "lagrange0 X (\<lambda>x. (x - a) * f x) = - a * lagrange0 (X - {a}) f"
proof -
  have "lagrange0 X (\<lambda>x. (x - a) * f x) = (\<Sum>x \<in> X - {a}. (x - a) * f x * (\<Prod>z \<in> X - {x}. - z / (x - z)))"
    unfolding lagrange0_def by (subst sum.remove [OF assms]) simp
  also have "\<dots> = (\<Sum>x \<in> X - {a}. - a * (f x * (\<Prod>z \<in> X - {a} - {x}. - z / (x - z))))"
  proof (rule sum.cong [OF refl])
    fix x assume x: "x \<in> X - {a}"
    then have "(\<Prod>z \<in> X - {x}. - z / (x - z)) = - a / (x - a) * (\<Prod>z \<in> X - {x} - {a}. - z / (x - z))"
      using assms by (subst prod.remove [of _ a]) auto
    moreover have "X - {x} - {a} = X - {a} - {x}" by auto
    ultimately show "(x - a) * f x * (\<Prod>z \<in> X - {x}. - z / (x - z)) = - a * (f x * (\<Prod>z \<in> X - {a} - {x}. - z / (x - z)))"
      using x by simp
  qed
  finally show ?thesis by (simp add: lagrange0_def sum_distrib_left)
qed

lemma lagrange0_one: "finite X \<Longrightarrow> X \<noteq> {} \<Longrightarrow> lagrange0 X (\<lambda>x. 1) = 1"
proof (induction "card X" arbitrary: X)
  case (Suc n)
  obtain a where a: "a \<in> X" using Suc.prems(2) by blast
  show ?case
  proof (cases "X = {a}")
    case True
    then show ?thesis by (simp add: lagrange0_def)
  next
    case False
    then obtain b where b: "b \<in> X" "b \<noteq> a" using a by blast
    have one: "lagrange0 (X - {c}) (\<lambda>x. 1) = 1" if "c \<in> X" for c
    proof -
      have "X - {c} \<noteq> {}" using a b by auto
      then show ?thesis using Suc.hyps(1) [of "X - {c}"] Suc.hyps(2) Suc.prems(1) that by (simp add: card_Diff_singleton)
    qed
    have c: "lagrange0 X (\<lambda>x. x - c) = - c" if "c \<in> X" for c
      using lagrange0_remove [OF Suc.prems(1) that, of "\<lambda>x. 1"] one [OF that] by simp
    have "lagrange0 X (\<lambda>x. x - a) = lagrange0 X (\<lambda>x. (x - b) + (b - a) * 1)" by simp
    also have "\<dots> = lagrange0 X (\<lambda>x. x - b) + (b - a) * lagrange0 X (\<lambda>x. 1)"
      by (simp only: lagrange0_add lagrange0_scale)
    finally have "(b - a) * lagrange0 X (\<lambda>x. 1) = b - a" using c a b by (simp add: algebra_simps)
    then show ?thesis using b(2) by simp
  qed
qed simp

lemma lagrange_interpolation:
  "finite X \<Longrightarrow> length cs \<le> card X \<Longrightarrow> lagrange0 X (peval cs) = peval cs 0"
proof (induction "length cs" arbitrary: cs X)
  case 0
  then show ?case by (simp add: lagrange0_def)
next
  case (Suc n)
  then have ne: "X \<noteq> {}" by auto
  then obtain a where a: "a \<in> X" by blast
  let ?q = "quot a cs"
  have "peval cs = (\<lambda>x. peval cs a * 1 + (x - a) * peval ?q x)" unfolding mult_1_right by (rule ext) (rule peval_quot)
  then have "lagrange0 X (peval cs) = lagrange0 X (\<lambda>x. peval cs a * 1 + (x - a) * peval ?q x)" by (rule arg_cong)
  also have "\<dots> = peval cs a * lagrange0 X (\<lambda>x. 1) + lagrange0 X (\<lambda>x. (x - a) * peval ?q x)"
    by (simp only: lagrange0_add lagrange0_scale)
  also have "\<dots> = peval cs a + - a * lagrange0 (X - {a}) (peval ?q)"
    using lagrange0_one [OF Suc.prems(1) ne] lagrange0_remove [OF Suc.prems(1) a] by simp
  also have "lagrange0 (X - {a}) (peval ?q) = peval ?q 0"
    using Suc.hyps(1) [of ?q "X - {a}"] Suc.hyps(2) Suc.prems a by (simp add: card_Diff_singleton)
  also have "peval cs a + - a * peval ?q 0 = peval cs 0" by (subst peval_quot [of cs 0 a]) simp
  finally show ?case .
qed

section \<open>The scalar field\<close>

typedef fr = "{0..<FIELD_ORDER}"
  using FIELD_ORDER_gt by auto

setup_lifting type_definition_fr

lemma order_pos [simp]: "0 < FIELD_ORDER" "0 \<le> x mod FIELD_ORDER" "x mod FIELD_ORDER < FIELD_ORDER"
  using FIELD_ORDER_gt by simp_all

instantiation fr :: field
begin

lift_definition zero_fr :: fr is 0 by simp
lift_definition one_fr :: fr is 1 using FIELD_ORDER_gt by simp
lift_definition plus_fr :: "fr \<Rightarrow> fr \<Rightarrow> fr" is "\<lambda>a b. (a + b) mod FIELD_ORDER" by simp
lift_definition times_fr :: "fr \<Rightarrow> fr \<Rightarrow> fr" is "\<lambda>a b. (a * b) mod FIELD_ORDER" by simp
lift_definition uminus_fr :: "fr \<Rightarrow> fr" is "\<lambda>a. (- a) mod FIELD_ORDER" by simp
lift_definition minus_fr :: "fr \<Rightarrow> fr \<Rightarrow> fr" is "\<lambda>a b. (a - b) mod FIELD_ORDER" by simp
lift_definition inverse_fr :: "fr \<Rightarrow> fr" is "\<lambda>a. a ^ nat (FIELD_ORDER - 2) mod FIELD_ORDER" by simp

definition divide_fr :: "fr \<Rightarrow> fr \<Rightarrow> fr" where
  "divide_fr a b = a * inverse b"

lemma inverse_mod:
  assumes "0 < a" "a < FIELD_ORDER"
  shows "a ^ nat (FIELD_ORDER - 2) mod FIELD_ORDER * a mod FIELD_ORDER = 1"
proof -
  have "\<not> FIELD_ORDER dvd a" using assms zdvd_imp_le by fastforce
  moreover have "nat (FIELD_ORDER - 1) = Suc (nat (FIELD_ORDER - 2))" using FIELD_ORDER_gt by simp
  ultimately have "a ^ Suc (nat (FIELD_ORDER - 2)) mod FIELD_ORDER = 1" using fermat [OF field_order_prime] by metis
  then show ?thesis by (simp add: mod_mult_right_eq mult.commute)
qed

instance
proof
  fix a b c :: fr
  show "a * b * c = a * (b * c)" by transfer (simp add: mod_mult_left_eq mod_mult_right_eq mult.assoc)
  show "a * b = b * a" by transfer (simp add: mult.commute)
  show "1 * a = a" by transfer simp
  show "a + b + c = a + (b + c)" by transfer (simp add: mod_simps add.assoc)
  show "a + b = b + a" by transfer (simp add: add.commute)
  show "0 + a = a" by transfer simp
  show "- a + a = 0" by transfer (simp add: mod_simps)
  show "a - b = a + - b" by transfer (simp add: mod_simps)
  show "(a + b) * c = a * c + b * c" by transfer (simp add: mod_simps distrib_right)
  show "(0 :: fr) \<noteq> 1" by transfer simp
  show "a \<noteq> 0 \<Longrightarrow> inverse a * a = 1" by transfer (simp add: inverse_mod)
  show "a div b = a * inverse b" by (rule divide_fr_def)
  show "inverse (0 :: fr) = 0"
  proof transfer
    show "0 ^ nat (FIELD_ORDER - 2) mod FIELD_ORDER = 0" by (simp add: FIELD_ORDER_def)
  qed
qed

end

end
