(* ===== verification/Threshold.thy ===== *)
theory Threshold
  imports Protocol Bytes ScalarField "HOL-Library.Signed_Division"
begin

text \<open>
  \<open>sdk/threshold/src/index.ts\<close>: envelopes signed by m of n participants with aggregated BLS
  signatures, and Shamir's secret sharing of BLS keys over the scalar field. The curve
  library (\<open>@noble/curves\<close>) is the parameter \<open>bls\<close>, its exceptions \<open>None\<close>; random field
  elements are arguments. Big integers are \<open>int\<close>, a \<open>Record\<close> of keys an association list.
\<close>

section \<open>Envelopes\<close>

text \<open>The intent of this package is any string.\<close>

record bls_body =
  bb_intent :: jstr
  bb_content :: jstr
  bb_capability :: "jstr option"
  bb_correlationId :: "jstr option"

definition bls_header_parts :: "header \<Rightarrow> jstr list" where
  "bls_header_parts h =
    [quote (js ''messageId'') @ 58 # quote (messageId h), quote (js ''nonce'') @ 58 # quote (nonce h)]
    @ opt_member ''recipient'' (recipient h)
    @ [quote (js ''sender'') @ 58 # quote (sender h)]
    @ [quote (js ''timestampMs'') @ 58 # show_num (timestampMs h)]
    @ [quote (js ''ttlMs'') @ 58 # show_num (ttlMs h)]
    @ [quote (js ''version'') @ 58 # quote (version h)]"

definition bls_body_parts :: "bls_body \<Rightarrow> jstr list" where
  "bls_body_parts b =
    opt_member ''capability'' (bb_capability b)
    @ [quote (js ''content'') @ 58 # quote (bb_content b)]
    @ opt_member ''correlationId'' (bb_correlationId b)
    @ [quote (js ''intent'') @ 58 # quote (bb_intent b)]"

definition canonicalizeEnvelopeForBls :: "header \<Rightarrow> bls_body \<Rightarrow> jstr" where
  "canonicalizeEnvelopeForBls h b =
    123 # quote (js ''body'') @ 58 # 123 # join_with [44] (bls_body_parts b) @ 125 # 44
      # quote (js ''header'') @ 58 # 123 # join_with [44] (bls_header_parts h) @ [125, 125]"

record threshold_config =
  tc_m :: int
  tc_n :: int

record threshold_signature =
  ts_alg :: jstr
  ts_keyId :: jstr
  ts_value :: jstr
  ts_signerIds :: "jstr list"
  ts_threshold :: threshold_config

record threshold_envelope =
  te_header :: header
  te_body :: bls_body
  te_signature :: "threshold_signature option"

section \<open>Signing, aggregation, verification\<close>

text \<open>SHA-256, and the operations on points that the package calls: sign a hashed message, aggregate, verify.\<close>

record bls =
  bls_sha256 :: "bytes \<Rightarrow> bytes"
  bls_pub :: "bytes \<Rightarrow> bytes"
  bls_sign :: "bytes \<Rightarrow> bytes \<Rightarrow> bytes option"
  bls_aggregateSignatures :: "bytes list \<Rightarrow> bytes option"
  bls_aggregatePublicKeys :: "bytes list \<Rightarrow> bytes option"
  bls_verify :: "bytes \<Rightarrow> bytes \<Rightarrow> bytes \<Rightarrow> bool option"

record bls_key_pair =
  kp_publicKey :: jstr
  kp_privateKey :: jstr

definition generateBlsKeyPair :: "bls \<Rightarrow> bytes \<Rightarrow> bls_key_pair" where
  "generateBlsKeyPair B sk = \<lparr>kp_publicKey = toBase64Url (bls_pub B sk), kp_privateKey = toBase64Url sk\<rparr>"

definition message_hash :: "bls \<Rightarrow> header \<Rightarrow> bls_body \<Rightarrow> bytes" where
  "message_hash B h b = bls_sha256 B (utf8Encode (canonicalizeEnvelopeForBls h b))"

record partial_signature =
  ps_signerId :: jstr
  ps_partialSig :: jstr
  ps_canonicalHash :: jstr

definition signEnvelopeBls :: "bls \<Rightarrow> header \<Rightarrow> bls_body \<Rightarrow> jstr \<Rightarrow> jstr \<Rightarrow> partial_signature option" where
  "signEnvelopeBls B h b privateKey signerId =
    map_option (\<lambda>s. \<lparr>ps_signerId = signerId, ps_partialSig = toBase64Url s, ps_canonicalHash = toBase64Url (message_hash B h b)\<rparr>)
      (bls_sign B (message_hash B h b) (fromBase64Url privateKey))"

text \<open>\<open>slice(0, m)\<close>, with a negative end counted from the back.\<close>

definition slice_first :: "int \<Rightarrow> 'a list \<Rightarrow> 'a list" where
  "slice_first m xs = (if m < 0 then take (nat (int (length xs) + m)) xs else take (nat m) xs)"

text \<open>The key of a signer: a missing or empty one throws, as do the inherited members of the record.\<close>

definition signer_key :: "(jstr \<times> jstr) list \<Rightarrow> jstr \<Rightarrow> bytes option" where
  "signer_key keys i = (case map_of keys i of Some pk \<Rightarrow> if pk = [] then None else Some (fromBase64Url pk) | None \<Rightarrow> None)"

datatype aggregate_error = ThresholdNotMet | MissingKey | BlsError

definition aggregateSignatures ::
  "bls \<Rightarrow> (jstr \<times> jstr) list \<Rightarrow> (jstr \<times> jstr) list \<Rightarrow> header \<Rightarrow> bls_body \<Rightarrow> threshold_config \<Rightarrow> aggregate_error + threshold_envelope" where
  "aggregateSignatures B partials keys h b cfg =
    (if int (length partials) < tc_m cfg then Inl ThresholdNotMet
     else let selected = slice_first (tc_m cfg) partials; ids = map fst selected; sigs = map (fromBase64Url \<circ> snd) selected in
       (case all_some (map (signer_key keys) ids) of
          None \<Rightarrow> Inl MissingKey
        | Some pks \<Rightarrow>
            (case (bls_aggregateSignatures B sigs, bls_aggregatePublicKeys B pks) of
               (Some s, Some pk) \<Rightarrow> Inr \<lparr>te_header = h, te_body = b, te_signature = Some
                 \<lparr>ts_alg = js ''BLS-G2-2'', ts_keyId = toBase64Url (take 16 pk), ts_value = toBase64Url s, ts_signerIds = ids, ts_threshold = cfg\<rparr>\<rparr>
             | _ \<Rightarrow> Inl BlsError)))"

definition verifyThresholdEnvelope :: "bls \<Rightarrow> threshold_envelope \<Rightarrow> (jstr \<times> jstr) list \<Rightarrow> threshold_config \<Rightarrow> bool" where
  "verifyThresholdEnvelope B e keys cfg =
    (case te_signature e of
       None \<Rightarrow> False
     | Some sg \<Rightarrow>
         if ts_alg sg \<noteq> js ''BLS-G2-2'' then False
         else if int (length (ts_signerIds sg)) < tc_m cfg then False
         else (case all_some (map (signer_key keys) (ts_signerIds sg)) of
             None \<Rightarrow> False
           | Some pks \<Rightarrow>
               (case bls_aggregatePublicKeys B pks of
                  None \<Rightarrow> False
                | Some pk \<Rightarrow> bls_verify B (fromBase64Url (ts_value sg)) (message_hash B (te_header e) (te_body e)) pk = Some True)))"

section \<open>Field arithmetic\<close>

text \<open>\<open>%\<close> on big integers takes the sign of the dividend.\<close>

definition fieldMod :: "int \<Rightarrow> int" where
  "fieldMod n = ((n smod FIELD_ORDER) + FIELD_ORDER) smod FIELD_ORDER"

definition fieldAdd :: "int \<Rightarrow> int \<Rightarrow> int" where
  "fieldAdd a b = fieldMod (a + b)"

definition fieldMul :: "int \<Rightarrow> int \<Rightarrow> int" where
  "fieldMul a b = fieldMod (a * b)"

function pow_loop :: "int \<Rightarrow> int \<Rightarrow> int \<Rightarrow> int" where
  "pow_loop acc base e =
    (if e > 0 then pow_loop (if odd e then fieldMul acc base else acc) (fieldMul base base) (e div 2) else acc)"
  by auto
termination by (relation "measure (\<lambda>(acc, base, e). nat e)") auto

declare pow_loop.simps [simp del]

definition fieldPow :: "int \<Rightarrow> int \<Rightarrow> int" where
  "fieldPow base e = pow_loop 1 (fieldMod base) e"

definition fieldInv :: "int \<Rightarrow> int option" where
  "fieldInv a = (if a = 0 then None else Some (fieldPow a (FIELD_ORDER - 2)))"

text \<open>The digits of \<open>toString(16)\<close> for a number that is not negative.\<close>

function hex_digits :: "nat \<Rightarrow> nat list" where
  "hex_digits n = (if n < 16 then [n] else hex_digits (n div 16) @ [n mod 16])"
  by auto
termination by (relation "measure id") auto

declare hex_digits.simps [simp del]

definition bigintToBytes32 :: "int \<Rightarrow> bytes" where
  "bigintToBytes32 n =
    (let hex = hex_digits (nat n); ds = replicate (64 - length hex) 0 @ hex in
     map (\<lambda>i. of_nat (16 * ds ! (2 * i) + ds ! (2 * i + 1))) [0..<32])"

definition bytes32ToBigint :: "bytes \<Rightarrow> int" where
  "bytes32ToBigint bs = int (be_value bs)"

definition randomFieldElement :: "bytes \<Rightarrow> int" where
  "randomFieldElement rnd32 = fieldMod (bytes32ToBigint rnd32)"

section \<open>Secret sharing\<close>

text \<open>The loop over the coefficients, with the power of x.\<close>

definition share_value :: "int list \<Rightarrow> int \<Rightarrow> int" where
  "share_value coefficients x =
    fst (foldl (\<lambda>(y, xPow) coeff. (fieldAdd y (fieldMul coeff xPow), fieldMul xPow x)) (0, 1) coefficients)"

text \<open>The index goes into one byte.\<close>

definition share_text :: "int \<Rightarrow> int \<Rightarrow> jstr" where
  "share_text x y = toBase64Url (word_of_int x # bigintToBytes32 y)"

definition share_list :: "int list \<Rightarrow> int \<Rightarrow> jstr list" where
  "share_list coefficients n = map (\<lambda>x. share_text x (share_value coefficients x)) [1..n]"

datatype split_error = InvalidThreshold | WrongKeyLength nat | KeyTooLarge

definition splitPrivateKey :: "jstr \<Rightarrow> int \<Rightarrow> int \<Rightarrow> bytes list \<Rightarrow> split_error + jstr list" where
  "splitPrivateKey key m n draws =
    (if m < 2 \<or> n < m then Inl InvalidThreshold
     else let secretBytes = fromBase64Url key in
       if length secretBytes \<noteq> 32 then Inl (WrongKeyLength (length secretBytes))
       else let secret = bytes32ToBigint secretBytes in
         if FIELD_ORDER \<le> secret then Inl KeyTooLarge
         else Inr (share_list (secret # map randomFieldElement (take (nat m - 1) draws)) n))"

datatype reconstruct_error = TooFewShares | InvalidShare | CannotInvertZero

definition decode_share :: "jstr \<Rightarrow> (int \<times> int) option" where
  "decode_share s =
    (let bs = fromBase64Url s in
     if length bs \<noteq> 33 then None else Some (uint (hd bs), bytes32ToBigint (tl bs)))"

definition basis_num :: "int list \<Rightarrow> nat \<Rightarrow> int" where
  "basis_num xs i = foldl (\<lambda>num j. if i = j then num else fieldMul num (fieldMod (- (xs ! j)))) 1 [0..<length xs]"

definition basis_den :: "int list \<Rightarrow> nat \<Rightarrow> int" where
  "basis_den xs i = foldl (\<lambda>den j. if i = j then den else fieldMul den (fieldMod (xs ! i - xs ! j))) 1 [0..<length xs]"

text \<open>The value at zero; \<open>None\<close> where \<open>fieldInv\<close> throws.\<close>

definition interpolate :: "(int \<times> int) list \<Rightarrow> int option" where
  "interpolate ps =
    foldl (\<lambda>acc i. case (acc, fieldInv (basis_den (map fst ps) i)) of
        (Some secret, Some iv) \<Rightarrow> Some (fieldAdd secret (fieldMul (snd (ps ! i)) (fieldMul (basis_num (map fst ps) i) iv)))
      | _ \<Rightarrow> None) (Some 0) [0..<length ps]"

definition reconstructPrivateKey :: "jstr list \<Rightarrow> int \<Rightarrow> reconstruct_error + jstr" where
  "reconstructPrivateKey shares m =
    (if int (length shares) < m then Inl TooFewShares
     else (case all_some (map decode_share (slice_first m shares)) of
         None \<Rightarrow> Inl InvalidShare
       | Some ps \<Rightarrow>
           (case interpolate ps of None \<Rightarrow> Inl CannotInvertZero | Some s \<Rightarrow> Inr (toBase64Url (bigintToBytes32 s)))))"

end
