(* ===== verification/ThresholdProps.thy ===== *)
theory ThresholdProps
  imports Threshold
begin

text \<open>
  The guarantees of \<open>Threshold\<close>: any m shares give the key back and fewer say nothing about
  it, because the arithmetic of the code is that of the field \<open>fr\<close>; m signers that sign
  make an envelope that verifies, a verified one rests on m entries of signers, and these
  entries may repeat one signer.
\<close>

section \<open>The code computes in the field\<close>

lift_definition to_fr :: "int \<Rightarrow> fr" is "\<lambda>x. x mod FIELD_ORDER" by simp

lemma smod_pos: "0 \<le> a \<Longrightarrow> a smod FIELD_ORDER = a mod FIELD_ORDER"
  by (cases "a = 0") (simp_all add: smod_int_alt_def sgn_if abs_of_pos)

lemma fieldMod_eq: "fieldMod n = n mod FIELD_ORDER"
proof (cases "0 \<le> n")
  case False
  then have "n smod FIELD_ORDER = - ((- n) mod FIELD_ORDER)" by (simp add: smod_int_alt_def sgn_if abs_of_pos)
  moreover have "0 \<le> - ((- n) mod FIELD_ORDER) + FIELD_ORDER" using order_pos(3) [of "- n"] by linarith
  ultimately have "fieldMod n = (- ((- n) mod FIELD_ORDER) + FIELD_ORDER) mod FIELD_ORDER" by (simp add: fieldMod_def smod_pos)
  then show ?thesis by (simp add: mod_simps)
next
  case True
  have "0 \<le> n mod FIELD_ORDER + FIELD_ORDER" by (intro add_nonneg_nonneg) (simp_all add: less_imp_le)
  with True show ?thesis by (simp add: fieldMod_def smod_pos)
qed

lemma field_range [simp]: "0 \<le> fieldMod n" "fieldMod n < FIELD_ORDER" "0 \<le> fieldMul a b" "fieldMul a b < FIELD_ORDER"
    "0 \<le> fieldAdd a b" "fieldAdd a b < FIELD_ORDER"
  by (simp_all add: fieldMod_eq fieldMul_def fieldAdd_def)

lemma to_fr_simps [simp]: "to_fr (fieldMod a) = to_fr a" "to_fr (fieldAdd a b) = to_fr a + to_fr b"
    "to_fr (fieldMul a b) = to_fr a * to_fr b" "to_fr (- a) = - to_fr a" "to_fr (a - b) = to_fr a - to_fr b" "to_fr 0 = 0" "to_fr 1 = 1"
    "to_fr (a * b) = to_fr a * to_fr b" "to_fr (a mod FIELD_ORDER) = to_fr a"
proof -
  show "to_fr (fieldMod a) = to_fr a" unfolding fieldMod_eq by transfer simp
  show "to_fr (fieldAdd a b) = to_fr a + to_fr b" unfolding fieldAdd_def fieldMod_eq by transfer (simp add: mod_simps)
  show "to_fr (fieldMul a b) = to_fr a * to_fr b" unfolding fieldMul_def fieldMod_eq by transfer (simp add: mod_simps)
  show "to_fr (- a) = - to_fr a" by transfer (simp add: mod_simps)
  show "to_fr (a - b) = to_fr a - to_fr b" by transfer (simp add: mod_simps)
  show "to_fr 0 = 0" by transfer simp
  show "to_fr 1 = 1" using FIELD_ORDER_gt by transfer simp
  show "to_fr (a * b) = to_fr a * to_fr b" by transfer (simp add: mod_simps)
  show "to_fr (a mod FIELD_ORDER) = to_fr a" by transfer simp
qed

lemma to_fr_inj: "0 \<le> a \<Longrightarrow> a < FIELD_ORDER \<Longrightarrow> 0 \<le> b \<Longrightarrow> b < FIELD_ORDER \<Longrightarrow> to_fr a = to_fr b \<longleftrightarrow> a = b"
  by transfer simp

lemma to_fr_power: "to_fr (a ^ n) = to_fr a ^ n"
  by (induction n) simp_all

lemma pow_loop_eq: "to_fr (pow_loop acc base e) = to_fr acc * to_fr base ^ nat e"
proof (induction acc base e rule: pow_loop.induct)
  case (1 acc base e)
  show ?case
  proof (cases "e > 0")
    case True
    then have "nat e = 2 * nat (e div 2) + (if odd e then 1 else 0)" 
      using odd_two_times_div_two_succ [of "nat e"] even_two_times_div_two [of "nat e"] by (auto simp: nat_div_distrib even_nat_iff)
    then have "to_fr base ^ nat e = (to_fr base * to_fr base) ^ nat (e div 2) * (if odd e then to_fr base else 1)"
      by (simp add: power_add power_mult power2_eq_square)
    with 1 [OF True] True show ?thesis by (subst pow_loop.simps) (simp add: mult_ac)
  qed (simp add: pow_loop.simps)
qed

lemma inverse_power: "inverse a = a ^ nat (FIELD_ORDER - 2)" for a :: fr
proof -
  have "to_fr (Rep_fr a) = a" using Rep_fr [of a] by (simp add: to_fr_def Rep_fr_inverse)
  moreover have "to_fr (Rep_fr (inverse a)) = inverse a" using Rep_fr [of "inverse a"] by (simp add: to_fr_def Rep_fr_inverse)
  ultimately show ?thesis by (metis inverse_fr.rep_eq to_fr_power to_fr_simps(9))
qed

lemma fieldInv_eq:
  assumes "0 \<le> a" "a < FIELD_ORDER"
  shows "case fieldInv a of None \<Rightarrow> to_fr a = 0 | Some b \<Rightarrow> to_fr a \<noteq> 0 \<and> to_fr b = inverse (to_fr a)"
  using assms to_fr_inj [of a 0] by (auto simp: fieldInv_def fieldPow_def pow_loop_eq inverse_power)

section \<open>Bytes of a field element\<close>

fun hex_pad :: "nat \<Rightarrow> nat \<Rightarrow> nat list" where
  "hex_pad 0 n = []"
| "hex_pad (Suc k) n = hex_pad k (n div 16) @ [n mod 16]"

lemma length_hex_pad [simp]: "length (hex_pad k n) = k"
  by (induction k arbitrary: n) auto

lemma hex_pad_zero: "hex_pad k 0 = replicate k 0"
  by (induction k) (simp_all add: replicate_append_same)

lemma hex_digits_pad: "n < 16 ^ Suc k \<Longrightarrow> length (hex_digits n) \<le> Suc k \<and> replicate (Suc k - length (hex_digits n)) 0 @ hex_digits n = hex_pad (Suc k) n"
proof (induction k arbitrary: n)
  case (Suc k)
  show ?case
  proof (cases "n < 16")
    case True
    then show ?thesis using hex_pad_zero [of "Suc k"] by (simp add: hex_digits.simps [of n])
  next
    case False
    with Suc.IH [of "n div 16"] Suc.prems show ?thesis by (auto simp: hex_digits.simps [of n] less_mult_imp_div_less)
  qed
qed (simp add: hex_digits.simps)

lemma hex_pad_bytes: "map (\<lambda>i. of_nat (16 * hex_pad (2 * k) n ! (2 * i) + hex_pad (2 * k) n ! (2 * i + 1))) [0..<k] = be_bytes k n"
proof (induction k arbitrary: n)
  case (Suc k)
  have "16 * (n div 16 mod 16) + n mod 16 = n mod 256" using mod_mult2_eq [of n 16 16] by simp
  moreover have "hex_pad (2 * Suc k) n = hex_pad (2 * k) (n div 256) @ [n div 16 mod 16, n mod 16]" by (simp flip: div_mult2_eq)
  moreover have "map (\<lambda>i. of_nat (16 * (xs @ [a, b]) ! (2 * i) + (xs @ [a, b]) ! (2 * i + 1)) :: byte) [0..<Suc k]
      = map (\<lambda>i. of_nat (16 * xs ! (2 * i) + xs ! (2 * i + 1))) [0..<k] @ [of_nat (16 * a + b)]" if "length xs = 2 * k" for xs :: "nat list" and a b
    using that by (auto simp: nth_append)
  ultimately show ?case using Suc [of "n div 256"] by (simp del: hex_pad.simps of_nat_add of_nat_mult upt_Suc)
qed simp

lemma bytes32_eq: "0 \<le> n \<Longrightarrow> n < FIELD_ORDER \<Longrightarrow> bigintToBytes32 n = be_bytes 32 (nat n)"
proof -
  assume n: "0 \<le> n" "n < FIELD_ORDER"
  then have "nat n < 16 ^ Suc 63" by (simp add: FIELD_ORDER_def)
  from hex_digits_pad [OF this] hex_pad_bytes [of 32 "nat n"] show ?thesis by (simp add: bigintToBytes32_def Let_def)
qed

lemma bytes32_round: "0 \<le> n \<Longrightarrow> n < FIELD_ORDER \<Longrightarrow> bytes32ToBigint (bigintToBytes32 n) = n" "length (bigintToBytes32 n) = 32"
proof -
  assume n: "0 \<le> n" "n < FIELD_ORDER"
  then have "nat n < 256 ^ 32" by (simp add: FIELD_ORDER_def)
  with n show "bytes32ToBigint (bigintToBytes32 n) = n" by (simp add: bytes32_eq bytes32ToBigint_def be_roundtrip)
qed (simp add: bigintToBytes32_def Let_def)

lemma be_value_inv: "be_bytes (length bs) (be_value bs) = bs"
proof (induction bs rule: rev_induct)
  case (snoc b bs)
  have "(be_value bs * 256 + unat b) div 256 = be_value bs" "(be_value bs * 256 + unat b) mod 256 = unat b" using unat8_less [of b] by simp_all
  with snoc show ?case by (simp add: be_value_def)
qed simp

lemma bytes32_back: "length bs = 32 \<Longrightarrow> bytes32ToBigint bs < FIELD_ORDER \<Longrightarrow> bigintToBytes32 (bytes32ToBigint bs) = bs"
proof -
  assume bs: "length bs = 32" "bytes32ToBigint bs < FIELD_ORDER"
  then have "bigintToBytes32 (bytes32ToBigint bs) = be_bytes 32 (be_value bs)" by (simp add: bytes32_eq bytes32ToBigint_def)
  also have "\<dots> = bs" using be_value_inv [of bs] bs(1) by simp
  finally show ?thesis .
qed

section \<open>Shares are values of the polynomial\<close>

lemma share_value_fr: "to_fr (share_value cs x) = peval (map to_fr cs) (to_fr x)"
proof -
  have "to_fr (fst (foldl (\<lambda>(y, xPow) c. (fieldAdd y (fieldMul c xPow), fieldMul xPow x)) (y, p) cs)) = to_fr y + to_fr p * peval (map to_fr cs) (to_fr x)" for y p
    by (induction cs arbitrary: y p) (simp_all add: algebra_simps)
  from this [of 0 1] show ?thesis by (simp add: share_value_def)
qed

lemma share_value_range: "0 \<le> share_value cs x \<and> share_value cs x < FIELD_ORDER"
proof -
  have "0 \<le> y \<and> y < FIELD_ORDER \<Longrightarrow> 0 \<le> fst (foldl (\<lambda>(y, xPow) c. (fieldAdd y (fieldMul c xPow), fieldMul xPow x)) (y, p) cs)
      \<and> fst (foldl (\<lambda>(y, xPow) c. (fieldAdd y (fieldMul c xPow), fieldMul xPow x)) (y, p) cs) < FIELD_ORDER" for y p
    by (induction cs arbitrary: y p) simp_all
  from this [of 0 1] show ?thesis by (simp add: share_value_def)
qed

lemma decode_share_text: "0 \<le> x \<Longrightarrow> x < 256 \<Longrightarrow> 0 \<le> y \<Longrightarrow> y < FIELD_ORDER \<Longrightarrow> decode_share (share_text x y) = Some (x, y)"
  by (simp add: decode_share_def share_text_def base64url_roundtrip bytes32_round uint_word_of_int_eq take_bit_eq_mod)

lemma share_list_nth: "i < nat n \<Longrightarrow> share_list cs n ! i = share_text (int i + 1) (share_value cs (int i + 1))"
  by (simp add: share_list_def add.commute)

section \<open>Interpolation by the code\<close>

text \<open>The loops over the other points.\<close>

lemma skip_prod:
  assumes "\<And>j. to_fr (g j) = h j"
  shows "to_fr (foldl (\<lambda>acc j. if i = j then acc else fieldMul acc (g j)) a [0..<n]) = to_fr a * (\<Prod>j \<in> {..<n} - {i}. h j)"
proof (induction n)
  case (Suc n)
  show ?case
  proof (cases "i = n")
    case True
    then have "{..<Suc n} - {i} = {..<n} - {i}" by auto
    with True Suc show ?thesis by simp
  next
    case False
    then have "{..<Suc n} - {i} = insert n ({..<n} - {i})" by auto
    with False Suc assms show ?thesis by (simp add: mult_ac)
  qed
qed simp

lemma skip_range: "0 \<le> a \<and> a < FIELD_ORDER \<Longrightarrow> 0 \<le> foldl (\<lambda>acc j. if i = j then acc else fieldMul acc (g j)) a ks
    \<and> foldl (\<lambda>acc j. if i = j then acc else fieldMul acc (g j)) a ks < FIELD_ORDER"
  by (induction ks arbitrary: a) simp_all

lemma basis_fr:
  "to_fr (basis_num xs i) = (\<Prod>j \<in> {..<length xs} - {i}. - to_fr (xs ! j))"
  "to_fr (basis_den xs i) = (\<Prod>j \<in> {..<length xs} - {i}. to_fr (xs ! i) - to_fr (xs ! j))"
  unfolding basis_num_def basis_den_def by (subst skip_prod; simp)+

lemma interpolate_fr:
  assumes "distinct (map (to_fr \<circ> fst) ps)"
  shows "\<exists>s. interpolate ps = Some s \<and> 0 \<le> s \<and> s < FIELD_ORDER
    \<and> to_fr s = (\<Sum>i < length ps. to_fr (snd (ps ! i)) * (\<Prod>j \<in> {..<length ps} - {i}. - to_fr (fst (ps ! j)) / (to_fr (fst (ps ! i)) - to_fr (fst (ps ! j)))))"
proof -
  let ?xs = "map fst ps" and ?n = "length ps"
  let ?t = "\<lambda>i. to_fr (snd (ps ! i)) * (\<Prod>j \<in> {..<?n} - {i}. - to_fr (fst (ps ! j)) / (to_fr (fst (ps ! i)) - to_fr (fst (ps ! j))))"
  have tm: "\<exists>v. fieldInv (basis_den ?xs i) = Some v
      \<and> to_fr (fieldMul (snd (ps ! i)) (fieldMul (basis_num ?xs i) v)) = ?t i" if i: "i < ?n" for i
  proof -
    have "to_fr (fst (ps ! i)) \<noteq> to_fr (fst (ps ! j))" if "j \<in> {..<?n} - {i}" for j
      using assms i that by (auto simp: distinct_conv_nth)
    then have d: "to_fr (basis_den ?xs i) \<noteq> 0" using i by (simp add: basis_fr)
    have "0 \<le> basis_den ?xs i" "basis_den ?xs i < FIELD_ORDER" 
      using skip_range [OF conjI [OF zero_le_one FIELD_ORDER_gt], where i = i and g = "\<lambda>j. fieldMod (?xs ! i - ?xs ! j)" and ks = "[0..<length ?xs]"]
      unfolding basis_den_def by blast+
    from fieldInv_eq [OF this] d obtain v where v: "fieldInv (basis_den ?xs i) = Some v" "to_fr v = inverse (to_fr (basis_den ?xs i))"
      by (auto split: option.splits)
    have "to_fr (basis_num ?xs i) * to_fr v = (\<Prod>j \<in> {..<?n} - {i}. - to_fr (fst (ps ! j)) / (to_fr (fst (ps ! i)) - to_fr (fst (ps ! j))))"
      unfolding prod_dividef v(2) using i by (simp add: basis_fr divide_inverse)
    then show ?thesis using v(1) by simp
  qed
  let ?step = "\<lambda>acc i. case (acc, fieldInv (basis_den ?xs i)) of
      (Some secret, Some iv) \<Rightarrow> Some (fieldAdd secret (fieldMul (snd (ps ! i)) (fieldMul (basis_num ?xs i) iv))) | _ \<Rightarrow> None"
  have "\<exists>s. foldl ?step (Some 0) [0..<k] = Some s \<and> 0 \<le> s \<and> s < FIELD_ORDER \<and> to_fr s = (\<Sum>i < k. ?t i)" if "k \<le> ?n" for k
    using that
  proof (induction k)
    case (Suc k)
    then obtain s where s: "foldl ?step (Some 0) [0..<k] = Some s" "to_fr s = (\<Sum>i < k. ?t i)" by auto
    obtain v where "fieldInv (basis_den ?xs k) = Some v" "to_fr (fieldMul (snd (ps ! k)) (fieldMul (basis_num ?xs k) v)) = ?t k"
      using tm [of k] Suc.prems by auto
    with s show ?case by simp
  qed simp
  from this [of ?n] show ?thesis by (simp add: interpolate_def)
qed

section \<open>Reconstruction\<close>

text \<open>The points of a list, as Lagrange's formula over their set.\<close>

lemma sum_points:
  assumes "distinct xs"
  shows "(\<Sum>i < length xs. f (xs ! i) * (\<Prod>j \<in> {..<length xs} - {i}. - (xs ! j) / (xs ! i - xs ! j))) = lagrange0 (set xs) (f :: 'a :: field \<Rightarrow> 'a)"
proof -
  have inj: "inj_on ((!) xs) {..<length xs}" using assms by (simp add: inj_on_nth)
  have img: "(!) xs ` {..<length xs} = set xs" by (auto simp: in_set_conv_nth)
  have p: "(\<Prod>z \<in> set xs - {xs ! i}. - z / (xs ! i - z)) = (\<Prod>j \<in> {..<length xs} - {i}. - (xs ! j) / (xs ! i - xs ! j))" if i: "i < length xs" for i
  proof -
    have "set xs - {xs ! i} = (!) xs ` ({..<length xs} - {i})"
      using inj_on_image_set_diff [OF inj, of "{..<length xs}" "{i}"] i img by auto
    then show ?thesis using prod.reindex [OF inj_on_subset [OF inj, of "{..<length xs} - {i}"]] by (simp add: comp_def)
  qed
  have "lagrange0 (set xs) f = (\<Sum>i < length xs. f (xs ! i) * (\<Prod>z \<in> set xs - {xs ! i}. - z / (xs ! i - z)))"
    unfolding lagrange0_def using sum.reindex [OF inj, of "\<lambda>x. f x * (\<Prod>z \<in> set xs - {x}. - z / (x - z))"] by (simp add: img comp_def)
  then show ?thesis using p by simp
qed

lemma interpolate_shares:
  assumes "distinct xs" "\<forall>x \<in> set xs. 0 \<le> x \<and> x < FIELD_ORDER" "length cs \<le> length xs" "cs = secret # cs'"
    and "0 \<le> secret" "secret < FIELD_ORDER"
  shows "interpolate (map (\<lambda>x. (x, share_value cs x)) xs) = Some secret"
proof -
  let ?ps = "map (\<lambda>x. (x, share_value cs x)) xs" and ?zs = "map to_fr xs" and ?cs = "map to_fr cs"
  have "inj_on to_fr (set xs)" using assms(2) by (auto intro!: inj_onI simp: to_fr_inj)
  then have d: "distinct ?zs" using assms(1) by (simp add: distinct_map)
  then have "distinct (map (to_fr \<circ> fst) ?ps)" by (simp add: comp_def)
  from interpolate_fr [OF this] obtain s where s: "interpolate ?ps = Some s" "0 \<le> s" "s < FIELD_ORDER"
      "to_fr s = (\<Sum>i < length ?ps. to_fr (snd (?ps ! i)) * (\<Prod>j \<in> {..<length ?ps} - {i}. - to_fr (fst (?ps ! j)) / (to_fr (fst (?ps ! i)) - to_fr (fst (?ps ! j)))))"
    by blast
  have "to_fr s = (\<Sum>i < length ?zs. peval ?cs (?zs ! i) * (\<Prod>j \<in> {..<length ?zs} - {i}. - (?zs ! j) / (?zs ! i - ?zs ! j)))"
    unfolding s(4) by (rule sum.cong) (auto simp: share_value_fr intro!: prod.cong arg_cong2 [where f = "(*)"])
  also have "\<dots> = lagrange0 (set ?zs) (peval ?cs)" by (rule sum_points [OF d])
  also have "\<dots> = peval ?cs 0" using assms(3) distinct_card [OF d] by (intro lagrange_interpolation) simp_all
  also have "\<dots> = to_fr secret" using assms(4) by simp
  finally show ?thesis using s to_fr_inj assms(5,6) by simp
qed

lemma slice_first_map: "slice_first m (map f xs) = map f (slice_first m xs)"
  by (simp add: slice_first_def take_map)

lemma read_back:
  assumes "splitPrivateKey key m n draws = Inr shares" "n \<le> 255" "distinct idx" "\<forall>i \<in> set idx. i < length shares" "m \<le> int (length idx)"
  shows "reconstructPrivateKey (map (\<lambda>i. shares ! i) idx) m = Inr (toBase64Url (fromBase64Url key))"
proof -
  let ?bs = "fromBase64Url key" and ?idx = "take (nat m) idx"
  let ?cs = "bytes32ToBigint ?bs # map randomFieldElement (take (nat m - 1) draws)" and ?xs = "map (\<lambda>i. int i + 1) ?idx"
  have c: "2 \<le> m" "m \<le> n" "length ?bs = 32" "bytes32ToBigint ?bs < FIELD_ORDER" "shares = share_list ?cs n"
    using assms(1) by (auto simp: splitPrivateKey_def Let_def split: if_splits)
  have len: "length shares = nat n" by (simp add: c(5) share_list_def)
  have x: "0 \<le> int i + 1 \<and> int i + 1 < 256 \<and> int i + 1 < FIELD_ORDER" if "i \<in> set ?idx" for i
  proof -
    have "i < nat n" using assms(4) len set_take_subset [of "nat m" idx] that by auto
    moreover have "256 < FIELD_ORDER" by (simp add: FIELD_ORDER_def)
    ultimately show ?thesis using assms(2) by linarith
  qed
  have dec: "decode_share (shares ! i) = Some (int i + 1, share_value ?cs (int i + 1))" if i: "i \<in> set ?idx" for i
  proof -
    have "i < nat n" using assms(4) len set_take_subset [of "nat m" idx] i by auto
    then have "shares ! i = share_text (int i + 1) (share_value ?cs (int i + 1))" unfolding c(5) by (rule share_list_nth)
    then show ?thesis using x [OF i] share_value_range by (simp only: decode_share_text)
  qed
  have "map decode_share (map ((!) shares) ?idx) = map Some (map (\<lambda>x. (x, share_value ?cs x)) ?xs)" using dec by simp
  then have "all_some (map decode_share (slice_first m (map ((!) shares) idx))) = Some (map (\<lambda>x. (x, share_value ?cs x)) ?xs)"
    using c(1) by (simp add: slice_first_def take_map all_some_eq_Some)
  moreover have "interpolate (map (\<lambda>x. (x, share_value ?cs x)) ?xs) = Some (bytes32ToBigint ?bs)"
  proof (rule interpolate_shares)
    show "distinct ?xs" using assms(3) by (simp add: distinct_map inj_on_def)
    show "\<forall>x \<in> set ?xs. 0 \<le> x \<and> x < FIELD_ORDER" using x by auto
    show "length ?cs \<le> length ?xs" using assms(5) c(1) by auto
  qed (use c(4) in \<open>simp_all add: bytes32ToBigint_def\<close>)
  ultimately show ?thesis using assms(5) c(3,4) by (simp add: reconstructPrivateKey_def bytes32_back)
qed

text \<open>C29 Any m of the shares of a key, in any order, give the key back: for at most 255 participants, whatever the random coefficients.\<close>

theorem shamir_reconstructs:
  assumes "splitPrivateKey key m n draws = Inr shares" "n \<le> 255" "distinct idx" "\<forall>i \<in> set idx. i < length shares" "m \<le> int (length idx)"
  shows "reconstructPrivateKey (map (\<lambda>i. shares ! i) idx) m = Inr (toBase64Url (fromBase64Url key))"
  by (rule read_back [OF assms])

section \<open>Fewer shares\<close>

lemma peval_diff: "length cs = length ds \<Longrightarrow> peval (map2 (-) cs ds) x = peval cs x - peval ds x"
  by (induction cs ds rule: list_induct2) (simp_all add: right_diff_distrib)

definition field_lists :: "nat \<Rightarrow> int list set" where
  "field_lists k = {cs. set cs \<subseteq> {0..<FIELD_ORDER} \<and> length cs = k}"

lemma finite_field_lists: "finite (field_lists k)"
  unfolding field_lists_def by (rule finite_lists_length_eq) simp

text \<open>The values at k points other than zero determine the k coefficients after the first.\<close>

lemma values_inj:
  assumes xs: "distinct xs" "\<forall>x \<in> set xs. 0 < x \<and> x < FIELD_ORDER"
  shows "inj_on (\<lambda>cs. map (share_value (secret # cs)) xs) (field_lists (length xs))"
proof (rule inj_onI)
  fix cs ds assume cd: "cs \<in> field_lists (length xs)" "ds \<in> field_lists (length xs)"
    and eq: "map (share_value (secret # cs)) xs = map (share_value (secret # ds)) xs"
  let ?c = "map to_fr cs" and ?d = "map to_fr ds"
  have len: "length ?c = length ?d" using cd by (simp add: field_lists_def)
  have "inj_on to_fr (set xs)"
  proof (rule inj_onI)
    fix x y assume "x \<in> set xs" "y \<in> set xs" "to_fr x = to_fr y"
    then show "x = y" using xs(2) to_fr_inj [of x y] by force
  qed
  then have card: "card (to_fr ` set xs) = length xs" using xs(1) by (simp add: card_image distinct_card)
  have "peval (map2 (-) ?c ?d) (to_fr x) = 0" if x: "x \<in> set xs" for x
  proof -
    have "to_fr x \<noteq> 0" using xs(2) x to_fr_inj [of x 0] by force
    moreover have "share_value (secret # cs) x = share_value (secret # ds) x" using eq x by simp
    then have "to_fr x * peval ?c (to_fr x) = to_fr x * peval ?d (to_fr x)"
      using share_value_fr [of "secret # cs" x] share_value_fr [of "secret # ds" x] by auto
    ultimately show ?thesis using len by (simp add: peval_diff)
  qed
  then have z: "\<forall>c \<in> set (map2 (-) ?c ?d). c = 0" using cd by (intro many_roots [of "to_fr ` set xs"]) (auto simp: card field_lists_def)
  show "cs = ds"
  proof (rule nth_equalityI)
    show "length cs = length ds" using len by simp
    fix i assume i: "i < length cs"
    then have "map2 (-) ?c ?d ! i = to_fr (cs ! i) - to_fr (ds ! i)" "i < length (map2 (-) ?c ?d)" using len by simp_all
    then have "to_fr (cs ! i) - to_fr (ds ! i) \<in> set (map2 (-) ?c ?d)" by (metis nth_mem)
    then have "to_fr (cs ! i) = to_fr (ds ! i)" using z by auto
    moreover have "cs ! i \<in> {0..<FIELD_ORDER}" "ds ! i \<in> {0..<FIELD_ORDER}"
      using cd i len by (auto simp: field_lists_def subset_iff all_set_conv_all_nth)
    ultimately show "cs ! i = ds ! i" by (simp add: to_fr_inj)
  qed
qed

lemma values_surj:
  assumes "distinct xs" "\<forall>x \<in> set xs. 0 < x \<and> x < FIELD_ORDER"
  shows "(\<lambda>cs. map (share_value (secret # cs)) xs) ` field_lists (length xs) = field_lists (length xs)"
  using finite_field_lists values_inj [OF assms]
  by (intro endo_inj_surj) (auto simp: field_lists_def share_value_range)

lemma map2_inj:
  assumes "length as = length xs" "length bs = length xs" "set as \<subseteq> Y" "set bs \<subseteq> Y"
    and "\<And>x a b. x \<in> set xs \<Longrightarrow> a \<in> Y \<Longrightarrow> b \<in> Y \<Longrightarrow> f x a = f x b \<longleftrightarrow> a = b"
  shows "map2 f xs as = map2 f xs bs \<longleftrightarrow> as = bs"
  using assms
proof (induction xs arbitrary: as bs)
  case (Cons x xs)
  then show ?case by (cases as; cases bs) auto
qed simp

text \<open>C30 Fewer than m shares say nothing: whatever the key and whatever m - 1 values are seen in the shares of m - 1 participants, exactly one choice of the m - 1 random coefficients makes these values the shares of this key. With uniform coefficients every key is equally likely.\<close>

theorem shamir_hides_key:
  assumes "n \<le> 255" "distinct idx" "\<forall>i \<in> set idx. int i < n" "ys \<in> field_lists (length idx)"
  shows "\<exists>!cs. cs \<in> field_lists (length idx)
    \<and> map (\<lambda>i. share_list (secret # cs) n ! i) idx = map2 share_text (map (\<lambda>i. int i + 1) idx) ys"
proof -
  let ?xs = "map (\<lambda>i. int i + 1) idx" and ?v = "\<lambda>cs. map (share_value (secret # cs)) (map (\<lambda>i. int i + 1) idx)"
  have small: "256 < FIELD_ORDER" by (simp add: FIELD_ORDER_def)
  have xs: "distinct ?xs" "\<forall>x \<in> set ?xs. 0 < x \<and> x < FIELD_ORDER"
    using assms(1-3) small by (auto simp: distinct_map inj_on_def)
  have shares: "map (\<lambda>i. share_list (secret # cs) n ! i) idx = map2 share_text ?xs zs \<longleftrightarrow> ?v cs = zs"
    if zs: "zs \<in> field_lists (length idx)" for cs zs
  proof -
    have inj: "share_text x y = share_text x y' \<longleftrightarrow> y = y'" if "x \<in> set ?xs" "y \<in> {0..<FIELD_ORDER}" "y' \<in> {0..<FIELD_ORDER}" for x y y'
    proof -
      have "0 \<le> x" "x < 256" using that(1) assms(1,3) by auto
      then have "decode_share (share_text x y) = Some (x, y)" "decode_share (share_text x y') = Some (x, y')"
        using decode_share_text that(2,3) by simp_all
      then show ?thesis by (metis option.inject prod.inject)
    qed
    have "map (\<lambda>i. share_list (secret # cs) n ! i) idx = map2 share_text ?xs (?v cs)"
    proof -
      have "map2 share_text (map g ks) (map h (map g ks)) = map (\<lambda>i. share_text (g i) (h (g i))) ks" for g h and ks :: "nat list"
        by (induction ks) simp_all
      moreover have nth: "share_list (secret # cs) n ! i = share_text (int i + 1) (share_value (secret # cs) (int i + 1))" if "i \<in> set idx" for i
        using assms(3) that by (intro share_list_nth) auto
      moreover have "map (\<lambda>i. share_list (secret # cs) n ! i) idx = map (\<lambda>i. share_text (int i + 1) (share_value (secret # cs) (int i + 1))) idx"
        by (rule map_cong [OF refl nth])
      ultimately show ?thesis by simp
    qed
    moreover have "map2 share_text ?xs (?v cs) = map2 share_text ?xs zs \<longleftrightarrow> ?v cs = zs"
      using zs share_value_range by (intro map2_inj [where Y = "{0..<FIELD_ORDER}"] inj) (auto simp: field_lists_def)
    ultimately show ?thesis by simp
  qed
  have "ys \<in> ?v ` field_lists (length idx)" using values_surj [OF xs, of secret] assms(4) by (simp only: length_map)
  then have "\<exists>cs. cs \<in> field_lists (length idx) \<and> ?v cs = ys" by blast
  moreover have "cs = ds" if "cs \<in> field_lists (length idx)" "ds \<in> field_lists (length idx)" "?v cs = ys" "?v ds = ys" for cs ds
    using values_inj [OF xs, of secret] that by (auto simp: inj_on_def)
  ultimately show ?thesis unfolding shares [OF assms(4)] by blast
qed

section \<open>Threshold signatures\<close>

text \<open>What the curve library promises: signatures and keys of the same private keys, aggregated in the same order, verify together.\<close>

definition bls_laws :: "bls \<Rightarrow> bytes set \<Rightarrow> bool" where
  "bls_laws B Ks \<longleftrightarrow>
     (\<forall>k \<in> Ks. \<forall>m. bls_sign B m k \<noteq> None)
     \<and> (\<forall>ks m. ks \<noteq> [] \<longrightarrow> set ks \<subseteq> Ks \<longrightarrow>
          (\<exists>s p. bls_aggregateSignatures B (map (\<lambda>k. the (bls_sign B m k)) ks) = Some s
            \<and> bls_aggregatePublicKeys B (map (bls_pub B) ks) = Some p \<and> bls_verify B s m p = Some True))"

text \<open>The signatures of the private keys of a list of signers over an envelope.\<close>

definition partials_of :: "bls \<Rightarrow> header \<Rightarrow> bls_body \<Rightarrow> (jstr \<times> bytes) list \<Rightarrow> (jstr \<times> jstr) list" where
  "partials_of B h b signers = map (\<lambda>(i, k). case signEnvelopeBls B h b (toBase64Url k) i of Some p \<Rightarrow> (ps_signerId p, ps_partialSig p) | None \<Rightarrow> (i, [])) signers"

definition registered :: "bls \<Rightarrow> (jstr \<times> jstr) list \<Rightarrow> (jstr \<times> bytes) list \<Rightarrow> bool" where
  "registered B keys signers \<longleftrightarrow> (\<forall>(i, k) \<in> set signers. map_of keys i = Some (toBase64Url (bls_pub B k)) \<and> toBase64Url (bls_pub B k) \<noteq> [])"

lemma partials_eq:
  assumes "bls_laws B Ks" "snd ` set signers \<subseteq> Ks"
  shows "partials_of B h b signers = map (\<lambda>(i, k). (i, toBase64Url (the (bls_sign B (message_hash B h b) k)))) signers"
proof -
  have "bls_sign B (message_hash B h b) k \<noteq> None" if "(i, k) \<in> set signers" for i k
  proof -
    have "k \<in> Ks" using assms(2) that by force
    then show ?thesis using conjunct1 [OF assms(1) [unfolded bls_laws_def]] by blast
  qed
  then have "(case signEnvelopeBls B h b (toBase64Url k) i of Some p \<Rightarrow> (ps_signerId p, ps_partialSig p) | None \<Rightarrow> (i, []))
      = (i, toBase64Url (the (bls_sign B (message_hash B h b) k)))" if "(i, k) \<in> set signers" for i k
  proof -
    obtain v where "bls_sign B (message_hash B h b) k = Some v" using \<open>\<And>k i. (i, k) \<in> set signers \<Longrightarrow> bls_sign B (message_hash B h b) k \<noteq> None\<close> \<open>(i, k) \<in> set signers\<close> by blast
    then show ?thesis by (simp add: signEnvelopeBls_def base64url_roundtrip)
  qed
  then show ?thesis unfolding partials_of_def by (intro map_cong [OF refl]) auto
qed

lemma keys_eq: "registered B keys signers \<Longrightarrow> all_some (map (signer_key keys) (map fst signers)) = Some (map (bls_pub B) (map snd signers))"
  by (auto simp: all_some_eq_Some registered_def signer_key_def base64url_roundtrip)

lemma aggregate_verifies:
  assumes laws: "bls_laws B Ks" "snd ` set signers \<subseteq> Ks" "registered B keys signers"
    and m: "1 \<le> tc_m cfg" "tc_m cfg \<le> int (length signers)"
  shows "\<exists>e. aggregateSignatures B (partials_of B h b signers) keys h b cfg = Inr e \<and> te_header e = h \<and> te_body e = b \<and> verifyThresholdEnvelope B e keys cfg
    \<and> ts_signerIds (the (te_signature e)) = take (nat (tc_m cfg)) (map fst signers)"
proof -
  let ?m = "nat (tc_m cfg)" and ?H = "message_hash B h b"
  let ?sel = "take ?m signers"
  have ne: "map snd ?sel \<noteq> []" using m by auto
  have sub: "snd ` set ?sel \<subseteq> Ks" "registered B keys ?sel"
    using laws(2,3) set_take_subset [of ?m signers] by (auto simp: registered_def)
  obtain s p where sp: "bls_aggregateSignatures B (map (\<lambda>k. the (bls_sign B ?H k)) (map snd ?sel)) = Some s"
      "bls_aggregatePublicKeys B (map (bls_pub B) (map snd ?sel)) = Some p" "bls_verify B s ?H p = Some True"
  proof -
    have "set (map snd ?sel) \<subseteq> Ks" using sub(1) by simp
    with laws(1) ne that show thesis unfolding bls_laws_def by blast
  qed
  have selected: "slice_first (tc_m cfg) (partials_of B h b signers) = partials_of B h b ?sel"
    using m by (simp add: slice_first_def partials_of_def take_map)
  have ids: "map fst (partials_of B h b ?sel) = map fst ?sel" and
    sigs: "map (fromBase64Url \<circ> snd) (partials_of B h b ?sel) = map (\<lambda>k. the (bls_sign B ?H k)) (map snd ?sel)"
    by (simp_all add: partials_eq [OF laws(1) sub(1)] case_prod_beta base64url_roundtrip comp_def)
  have len: "length (partials_of B h b signers) = length signers" by (simp add: partials_of_def)
  let ?e = "\<lparr>te_header = h, te_body = b, te_signature = Some
    \<lparr>ts_alg = js ''BLS-G2-2'', ts_keyId = toBase64Url (take 16 p), ts_value = toBase64Url s, ts_signerIds = map fst ?sel, ts_threshold = cfg\<rparr>\<rparr>"
  have "aggregateSignatures B (partials_of B h b signers) keys h b cfg = Inr ?e"
    unfolding aggregateSignatures_def Let_def selected ids sigs keys_eq [OF sub(2)] sp len option.case prod.case using m by simp
  moreover have "verifyThresholdEnvelope B ?e keys cfg"
    using m sp keys_eq [OF sub(2)] by (simp add: verifyThresholdEnvelope_def base64url_roundtrip)
  ultimately show ?thesis by (simp add: take_map)
qed

text \<open>When m registered signers sign an envelope, the aggregate of their signatures verifies against their keys.\<close>

theorem threshold_round_trip:
  assumes "bls_laws B Ks" "snd ` set signers \<subseteq> Ks" "registered B keys signers" "1 \<le> tc_m cfg" "tc_m cfg \<le> int (length signers)"
  shows "\<exists>e. aggregateSignatures B (partials_of B h b signers) keys h b cfg = Inr e \<and> te_header e = h \<and> te_body e = b \<and> verifyThresholdEnvelope B e keys cfg"
  using aggregate_verifies [OF assms] by blast

text \<open>C31 The threshold counts entries, not signers: one registered signer who repeats a signature m times produces an envelope that verifies, although nobody else has signed.\<close>

theorem one_signer_meets_threshold:
  assumes "bls_laws B Ks" "k \<in> Ks" "registered B keys [(i, k)]" "1 \<le> tc_m cfg"
  shows "\<exists>e. aggregateSignatures B (partials_of B h b (replicate (nat (tc_m cfg)) (i, k))) keys h b cfg = Inr e
    \<and> verifyThresholdEnvelope B e keys cfg \<and> set (ts_signerIds (the (te_signature e))) = {i}"
proof -
  let ?s = "replicate (nat (tc_m cfg)) (i, k)"
  have "set ?s = {(i, k)}" using assms(4) by simp
  then have s: "snd ` set ?s \<subseteq> Ks" "registered B keys ?s" using assms(2,3) by (simp_all add: registered_def)
  from aggregate_verifies [OF assms(1) s assms(4)] assms(4) show ?thesis by fastforce
qed

text \<open>The text that is signed is the canonical text of the protocol's envelopes.\<close>

theorem bls_canonical_agrees:
  "canonicalizeEnvelopeForBls h \<lparr>bb_intent = intent_text (intent b), bb_content = content b, bb_capability = capability b, bb_correlationId = correlationId b\<rparr>
    = canonicalizeEnvelope h b"
  by (simp add: canonicalizeEnvelopeForBls_def canonicalizeEnvelope_def bls_body_parts_def bls_header_parts_def serializeBodyCanonical_def
      serializeHeaderCanonical_def)

text \<open>Share 256 carries the index 0 and share 257 that of share 1: more participants than indices of one byte.\<close>

lemma share_index_wraps: "share_text (x + 256) y = share_text x y"
proof -
  have "(word_of_int (x + 256) :: byte) = word_of_int x" by (simp add: word_of_int_eq_iff take_bit_eq_mod)
  then show ?thesis unfolding share_text_def by (simp only:)
qed

section \<open>The statements on examples\<close>

text \<open>A stand-in for the curve: numbers modulo 256, a signature the product of message and key.\<close>

definition first_byte :: "bytes \<Rightarrow> byte" where
  "first_byte bs = (case bs of [] \<Rightarrow> 0 | b # bs' \<Rightarrow> b)"

definition demo_bls :: bls where
  "demo_bls = \<lparr>bls_sha256 = (\<lambda>bs. [3]), bls_pub = (\<lambda>k. [first_byte k]), bls_sign = (\<lambda>m k. Some [first_byte m * first_byte k]),
     bls_aggregateSignatures = (\<lambda>ss. Some [sum_list (map first_byte ss)]), bls_aggregatePublicKeys = (\<lambda>ps. Some [sum_list (map first_byte ps)]),
     bls_verify = (\<lambda>s m p. Some (first_byte s = first_byte m * first_byte p))\<rparr>"

lemma demo_bls_laws: "bls_laws demo_bls UNIV"
proof -
  have "sum_list (map (first_byte \<circ> (\<lambda>k. [first_byte m * first_byte k])) ks) = first_byte m * sum_list (map (first_byte \<circ> (\<lambda>k. [first_byte k])) ks)" for m ks
    by (induction ks) (simp_all add: first_byte_def distrib_left)
  then show ?thesis by (simp add: bls_laws_def demo_bls_def first_byte_def)
qed

lemma toBase64Url_not_empty: "bs \<noteq> [] \<Longrightarrow> toBase64Url bs \<noteq> []"
proof
  assume "bs \<noteq> []" and e: "toBase64Url bs = []"
  then have "fromBase64Url [] = bs" using base64url_roundtrip [of bs] e by simp
  moreover have "fromBase64Url [] = []" by (simp add: fromBase64Url_eq)
  ultimately show False using \<open>bs \<noteq> []\<close> by simp
qed

definition demo_keys :: "(jstr \<times> jstr) list" where
  "demo_keys = [(js ''a'', toBase64Url [5]), (js ''b'', toBase64Url [7])]"

lemma demo_registered: "registered demo_bls demo_keys [(js ''a'', [5]), (js ''b'', [7])]" "registered demo_bls demo_keys [(js ''a'', [5])]"
  by (simp_all add: registered_def demo_keys_def demo_bls_def first_byte_def toBase64Url_not_empty ascii_eval)

theorem threshold_round_trip_witness:
  "\<exists>e. aggregateSignatures demo_bls (partials_of demo_bls (demo_header 1 2) \<lparr>bb_intent = [], bb_content = [], bb_capability = None, bb_correlationId = None\<rparr>
      [(js ''a'', [5]), (js ''b'', [7])]) demo_keys (demo_header 1 2) \<lparr>bb_intent = [], bb_content = [], bb_capability = None, bb_correlationId = None\<rparr>
      \<lparr>tc_m = 2, tc_n = 2\<rparr> = Inr e \<and> verifyThresholdEnvelope demo_bls e demo_keys \<lparr>tc_m = 2, tc_n = 2\<rparr>"
  using threshold_round_trip [OF demo_bls_laws _ demo_registered(1), where cfg = "\<lparr>tc_m = 2, tc_n = 2\<rparr>"] by fastforce

theorem one_signer_meets_threshold_witness:
  "\<exists>e. verifyThresholdEnvelope demo_bls e demo_keys \<lparr>tc_m = 2, tc_n = 2\<rparr> \<and> set (ts_signerIds (the (te_signature e))) = {js ''a''}"
  using one_signer_meets_threshold [OF demo_bls_laws UNIV_I demo_registered(2), where cfg = "\<lparr>tc_m = 2, tc_n = 2\<rparr>"] by fastforce

text \<open>The key 5, split for three participants with the coefficient 7; the third and the first share give it back.\<close>

theorem shamir_reconstructs_witness:
  "\<exists>shares. splitPrivateKey (toBase64Url (be_bytes 32 5)) 2 3 [be_bytes 32 7] = Inr shares
    \<and> reconstructPrivateKey (map (\<lambda>i. shares ! i) [2, 0]) 2 = Inr (toBase64Url (be_bytes 32 5))"
proof -
  have "bytes32ToBigint (be_bytes 32 5) = 5" by (simp add: bytes32ToBigint_def be_roundtrip)
  then obtain shares where s: "splitPrivateKey (toBase64Url (be_bytes 32 5)) 2 3 [be_bytes 32 7] = Inr shares" "length shares = 3"
    by (simp add: splitPrivateKey_def base64url_roundtrip share_list_def FIELD_ORDER_def)
  from shamir_reconstructs [OF s(1), of "[2, 0]"] s show ?thesis by (simp add: base64url_roundtrip)
qed

theorem shamir_hides_key_witness:
  "\<exists>!cs. cs \<in> field_lists 1 \<and> map (\<lambda>i. share_list (5 # cs) 3 ! i) [1] = map2 share_text [2] [9]"
proof -
  have "[9] \<in> field_lists (length [1 :: nat])" by (simp add: field_lists_def FIELD_ORDER_def)
  from shamir_hides_key [of 3 "[1]", OF _ _ _ this, of 5] show ?thesis by simp
qed

end
