(* ===== verification/WebReceipts.thy ===== *)
theory WebReceipts
  imports AuditLog
begin

text \<open>
  \<open>sdk/webmcp/src/crypto.ts\<close> and \<open>sdk/webmcp/src/receipts.ts\<close>: canonical JSON and the log of
  signed receipts that the tool guard keeps. A receipt names the hash of its predecessor and its
  own position. An append has three atomic parts, because it awaits the signature and then the
  hash; \<open>receipt_append\<close> runs them without interruption.
\<close>

section \<open>Canonical JSON\<close>

fun canonicalJson :: "json \<Rightarrow> jstr" where
  "canonicalJson (JArr vs) = 91 # join_with [44] (map canonicalJson vs) @ [93]"
| "canonicalJson (JObj kvs) =
     123 # join_with [44] (map (\<lambda>(k, t). quote k @ 58 # t) (sort_key fst (map (\<lambda>(k, v). (k, canonicalJson v)) kvs))) @ [125]"
| "canonicalJson v = print_json v"

lemma canonicalJson_print: "canonicalJson v = print_json (norm_json v)"
proof (induction v rule: canonicalJson.induct)
  case (1 vs)
  then have "map canonicalJson vs = map (print_json \<circ> norm_json) vs" by simp
  then show ?case by (simp only: canonicalJson.simps norm_json.simps print_json.simps map_map)
next
  case (2 kvs)
  define f where "f = (\<lambda>(k, t). quote k @ 58 # t)"
  have e: "map (\<lambda>(k, v). (k, canonicalJson v)) kvs = map (\<lambda>(k, v). (k, print_json (norm_json v))) kvs"
    using 2 by auto
  have "canonicalJson (JObj kvs) = 123 # join_with [44] (map f (map (\<lambda>(k, v). (k, print_json (norm_json v))) (sort_key fst kvs))) @ [125]"
    unfolding canonicalJson.simps e sort_key_map_fst [of "\<lambda>v. print_json (norm_json v)"] f_def ..
  also have "map f (map (\<lambda>(k, v). (k, print_json (norm_json v))) (sort_key fst kvs))
      = map (\<lambda>(k, v). quote k @ 58 # print_json (norm_json v)) (sort_key fst kvs)"
    by (simp add: f_def case_prod_beta')
  finally show ?case
    by (simp only: norm_json.simps print_json.simps sort_key_map_fst map_map comp_def) (simp add: case_prod_beta')
qed auto

lemma canonicalJson_stable: "json_finite v \<Longrightarrow> stableStringify v = Some (canonicalJson v)"
  by (simp add: canonicalJson_print stableStringify_finite)

lemma canonicalJson_inj:
  "canonicalJson v = canonicalJson w \<Longrightarrow> json_finite v \<Longrightarrow> json_finite w \<Longrightarrow> norm_json v = norm_json w"
  by (auto simp: canonicalJson_print json_finite_norm intro: print_json_inj)

text \<open>Two objects with one canonical text agree member by member.\<close>

lemma canonical_member:
  assumes "canonicalJson (JObj xs) = canonicalJson (JObj ys)" "json_finite (JObj xs)" "json_finite (JObj ys)"
    and "distinct (map fst xs)" "distinct (map fst ys)"
  shows "map_option norm_json (map_of xs k) = map_option norm_json (map_of ys k)"
  using stable_member [of xs "canonicalJson (JObj xs)" ys] canonicalJson_stable assms by metis

lemma canonicalJson_utf8:
  assumes "utf8Encode (canonicalJson v) = utf8Encode (canonicalJson w)"
  shows "canonicalJson v = canonicalJson w"
proof -
  have s: "sanitize (print_json v) = print_json v" for v
    using sanitize_append [of "print_json v" "[]"] well_formed_print [of v "[]"] by (simp add: sanitize_def)
  show ?thesis using utf8_sanitize [OF assms] by (simp add: canonicalJson_print s)
qed

section \<open>Receipts\<close>

datatype tool_method = READ | WRITE

definition method_text :: "tool_method \<Rightarrow> jstr" where
  "method_text m = (case m of READ \<Rightarrow> js ''READ'' | WRITE \<Rightarrow> js ''WRITE'')"

lemma method_text_inj [simp]: "method_text a = method_text b \<longleftrightarrow> a = b"
  by (cases a; cases b) (simp_all add: method_text_def)

datatype refusal =
  NoActiveGrant | GrantExpired | GrantInvalidSignature | GrantRevoked | ScopeUncovered | LimitExceeded
  | ReplayedCall | ConfirmationDenied | UnknownTool

fun refusal_text :: "refusal \<Rightarrow> jstr" where
  "refusal_text NoActiveGrant = js ''no-active-grant''"
| "refusal_text GrantExpired = js ''grant-expired''"
| "refusal_text GrantInvalidSignature = js ''grant-invalid-signature''"
| "refusal_text GrantRevoked = js ''grant-revoked''"
| "refusal_text ScopeUncovered = js ''scope-not-covered''"
| "refusal_text LimitExceeded = js ''limit-exceeded''"
| "refusal_text ReplayedCall = js ''replayed-call''"
| "refusal_text ConfirmationDenied = js ''confirmation-denied''"
| "refusal_text UnknownTool = js ''unknown-tool''"

lemma refusal_text_inj [simp]: "refusal_text a = refusal_text b \<longleftrightarrow> a = b"
  by (cases a; cases b) simp_all

text \<open>The outcome and, for a refused call, its reason and detail.\<close>

record receipt_input =
  ri_tool :: jstr
  ri_scope :: jstr
  ri_method :: tool_method
  ri_allowed :: bool
  ri_reason :: "refusal option"
  ri_detail :: "jstr option"
  ri_grantId :: "jstr option"
  ri_inputHash :: jstr

record receipt =
  rc_seq :: int
  rc_id :: jstr
  rc_timestampMs :: int
  rc_prevHash :: jstr
  rc_keyId :: jstr
  rc_input :: receipt_input
  rc_signature :: jstr

definition receipt_members :: "receipt \<Rightarrow> (jstr \<times> json) list" where
  "receipt_members r = (let i = rc_input r in
    [(js ''seq'', num (rc_seq r)), (js ''id'', JStr (rc_id r)), (js ''timestampMs'', num (rc_timestampMs r)),
     (js ''prevHash'', JStr (rc_prevHash r)), (js ''keyId'', JStr (rc_keyId r)),
     (js ''tool'', JStr (ri_tool i)), (js ''scope'', JStr (ri_scope i)), (js ''method'', JStr (method_text (ri_method i))),
     (js ''outcome'', JStr (if ri_allowed i then js ''allowed'' else js ''refused''))]
    @ opt_field ''reason'' (\<lambda>x. JStr (refusal_text x)) (ri_reason i) @ opt_field ''detail'' JStr (ri_detail i)
    @ [(js ''grantId'', null_or JStr (ri_grantId i)), (js ''inputHash'', JStr (ri_inputHash i))])"

definition canonicalReceiptPayload :: "receipt \<Rightarrow> jstr" where
  "canonicalReceiptPayload r = canonicalJson (JObj (receipt_members r))"

definition receipt_json :: "receipt \<Rightarrow> json" where
  "receipt_json r = JObj (receipt_members r @ [(js ''signature'', JStr (rc_signature r))])"

definition receiptHash :: "crypto \<Rightarrow> receipt \<Rightarrow> jstr" where
  "receiptHash C r = sha256Hex C (canonicalJson (receipt_json r))"

lemma finite_receipt [simp]: "json_finite (JObj (receipt_members r))" "json_finite (receipt_json r)"
  by (auto simp: receipt_members_def receipt_json_def Let_def ball_Un null_or_def opt_field_def split: option.splits)

lemma distinct_receipt [simp]: "distinct (map fst (receipt_members r @ [(js ''signature'', JStr s)]))"
  by (auto simp: receipt_members_def Let_def opt_field_def split: option.splits)

lemma receipt_lookup:
  fixes r :: receipt
  defines "m \<equiv> map_of (receipt_members r @ [(js ''signature'', JStr (rc_signature r))])"
  shows "m (js ''seq'') = Some (num (rc_seq r))" "m (js ''id'') = Some (JStr (rc_id r))"
    "m (js ''timestampMs'') = Some (num (rc_timestampMs r))" "m (js ''prevHash'') = Some (JStr (rc_prevHash r))"
    "m (js ''keyId'') = Some (JStr (rc_keyId r))" "m (js ''tool'') = Some (JStr (ri_tool (rc_input r)))"
    "m (js ''scope'') = Some (JStr (ri_scope (rc_input r)))" "m (js ''method'') = Some (JStr (method_text (ri_method (rc_input r))))"
    "m (js ''outcome'') = Some (JStr (if ri_allowed (rc_input r) then js ''allowed'' else js ''refused''))"
    "m (js ''reason'') = map_option (\<lambda>x. JStr (refusal_text x)) (ri_reason (rc_input r))"
    "m (js ''detail'') = map_option JStr (ri_detail (rc_input r))"
    "m (js ''grantId'') = Some (null_or JStr (ri_grantId (rc_input r)))"
    "m (js ''inputHash'') = Some (JStr (ri_inputHash (rc_input r)))" "m (js ''signature'') = Some (JStr (rc_signature r))"
  by (simp_all add: m_def receipt_members_def Let_def map_add_def split: option.split)

lemma receipt_json_inj:
  assumes "canonicalJson (receipt_json a) = canonicalJson (receipt_json b)"
  shows "a = b"
proof -
  have m: "map_option norm_json (map_of (receipt_members a @ [(js ''signature'', JStr (rc_signature a))]) k)
      = map_option norm_json (map_of (receipt_members b @ [(js ''signature'', JStr (rc_signature b))]) k)" for k
    by (rule canonical_member [OF assms [unfolded receipt_json_def]])
      (use finite_receipt(2) [of a] finite_receipt(2) [of b] in \<open>simp_all only: receipt_json_def distinct_receipt\<close>)
  have i: "inj JStr" "inj (\<lambda>x. JStr (refusal_text x))" by (auto simp: inj_def)
  note o' = map_option_inj_iff [OF i(1)] map_option_inj_iff [OF i(2)]
  have o: "map_option norm_json (map_option JStr x) = map_option JStr x"
     "map_option norm_json (map_option (\<lambda>x. JStr (refusal_text x)) y) = map_option (\<lambda>x. JStr (refusal_text x)) y" for x y
    by (cases x; simp) (cases y; simp)
  have "rc_input a = rc_input b"
    using m [of "js ''tool''"] m [of "js ''scope''"] m [of "js ''method''"] m [of "js ''outcome''"] m [of "js ''reason''"]
      m [of "js ''detail''"] m [of "js ''grantId''"] m [of "js ''inputHash''"]
    unfolding receipt_lookup o o' by (simp add: receipt_input.equality split: if_splits)
  then show ?thesis
    using m [of "js ''seq''"] m [of "js ''id''"] m [of "js ''timestampMs''"] m [of "js ''prevHash''"] m [of "js ''keyId''"] m [of "js ''signature''"]
    unfolding receipt_lookup by (simp add: receipt.equality)
qed

definition receipt_pre :: "receipt \<Rightarrow> bytes" where
  "receipt_pre r = utf8Encode (canonicalJson (receipt_json r))"

lemma receipt_pre_inj: "receipt_pre a = receipt_pre b \<Longrightarrow> a = b"
  unfolding receipt_pre_def by (intro receipt_json_inj canonicalJson_utf8)

interpretation receipt_chain: hash_chain receipt_pre "\<lambda>bs. toHex (sha256_raw C bs)" rc_prevHash "(=)" "\<lambda>r. True" for C :: crypto
  by unfold_locales (simp_all add: receipt_pre_inj)

lemma receiptHash_pre: "receiptHash C r = toHex (sha256_raw C (receipt_pre r))"
  by (simp add: receiptHash_def sha256Hex_def receipt_pre_def)

section \<open>The log\<close>

definition GENESIS_HASH :: jstr where
  "GENESIS_HASH = replicate 64 48"

record receipt_log =
  rl_entries :: "receipt list"
  rl_tip :: jstr
  rl_keyId :: jstr

definition new_receipt_log :: "jstr \<Rightarrow> receipt_log" where
  "new_receipt_log kid = \<lparr>rl_entries = [], rl_tip = GENESIS_HASH, rl_keyId = kid\<rparr>"

text \<open>\<open>append\<close> up to the first await: length, tip and clock are read, the signature is requested.\<close>

definition receipt_sign :: "crypto \<Rightarrow> jstr \<Rightarrow> receipt_log \<Rightarrow> receipt_input \<Rightarrow> int \<Rightarrow> receipt option" where
  "receipt_sign C priv l i now =
    (let seq = int (length (rl_entries l));
         u = \<lparr>rc_seq = seq, rc_id = js ''rcpt-'' @ show_int seq @ js ''-'' @ take 8 (rl_tip l), rc_timestampMs = now,
              rc_prevHash = rl_tip l, rc_keyId = rl_keyId l, rc_input = i, rc_signature = []\<rparr>
     in map_option (\<lambda>s. u\<lparr>rc_signature := s\<rparr>) (signCanonicalPayloadEd25519 C (canonicalReceiptPayload u) priv))"

definition receipt_push :: "receipt_log \<Rightarrow> receipt \<Rightarrow> receipt_log" where
  "receipt_push l r = l\<lparr>rl_entries := rl_entries l @ [r]\<rparr>"

definition receipt_finish :: "crypto \<Rightarrow> receipt_log \<Rightarrow> receipt \<Rightarrow> receipt_log" where
  "receipt_finish C l r = l\<lparr>rl_tip := receiptHash C r\<rparr>"

text \<open>A call that is awaited; \<open>None\<close>: signing throws and the log stays as it is.\<close>

definition receipt_append :: "crypto \<Rightarrow> jstr \<Rightarrow> receipt_log \<Rightarrow> receipt_input \<Rightarrow> int \<Rightarrow> (receipt \<times> receipt_log) option" where
  "receipt_append C priv l i now =
    map_option (\<lambda>r. (r, receipt_finish C (receipt_push l r) r)) (receipt_sign C priv l i now)"

datatype receipt_break = SeqMismatch | ReceiptPrevHashMismatch | ReceiptBadSignature

definition receipt_verify :: "crypto \<Rightarrow> jstr \<Rightarrow> receipt \<Rightarrow> bool option" where
  "receipt_verify C pub r = verifyCanonicalPayloadEd25519 C (canonicalReceiptPayload r) (rc_signature r) pub"

fun receipt_chain_loop :: "crypto \<Rightarrow> jstr \<Rightarrow> nat \<Rightarrow> jstr \<Rightarrow> receipt list \<Rightarrow> (nat \<times> receipt_break) option option" where
  "receipt_chain_loop C pub i expectedPrev [] = Some None"
| "receipt_chain_loop C pub i expectedPrev (r # rs) =
    (if rc_seq r \<noteq> int i then Some (Some (i, SeqMismatch))
     else if rc_prevHash r \<noteq> expectedPrev then Some (Some (i, ReceiptPrevHashMismatch))
     else case verifyCanonicalPayloadEd25519 C (canonicalReceiptPayload r) (rc_signature r) pub of
       None \<Rightarrow> None
     | Some False \<Rightarrow> Some (Some (i, ReceiptBadSignature))
     | Some True \<Rightarrow> receipt_chain_loop C pub (Suc i) (receiptHash C r) rs)"

text \<open>\<open>Some None\<close> is the answer ok, \<open>Some (Some (i, b))\<close> the index and reason of the first failure, \<open>None\<close> a throw.\<close>

definition verifyChain :: "crypto \<Rightarrow> receipt list \<Rightarrow> jstr \<Rightarrow> (nat \<times> receipt_break) option option" where
  "verifyChain C rs pub = receipt_chain_loop C pub 0 GENESIS_HASH rs"

fun numbered :: "nat \<Rightarrow> receipt list \<Rightarrow> bool" where
  "numbered i [] = True"
| "numbered i (r # rs) = (rc_seq r = int i \<and> numbered (Suc i) rs)"

lemma numbered_append: "numbered i (as @ bs) \<longleftrightarrow> numbered i as \<and> numbered (i + length as) bs"
  by (induction i as rule: numbered.induct) auto

lemma receipt_loop_iff:
  "receipt_chain_loop C pub i h rs = Some None \<longleftrightarrow>
    numbered i rs \<and> receipt_chain.chained C h rs \<and> (\<forall>r \<in> set rs. receipt_verify C pub r = Some True)"
  by (induction C pub i h rs rule: receipt_chain_loop.induct)
    (auto simp: receipt_verify_def receiptHash_pre split: option.splits bool.splits)

lemma receipts_verify_iff:
  "verifyChain C rs pub = Some None \<longleftrightarrow>
    numbered 0 rs \<and> receipt_chain.chained C GENESIS_HASH rs \<and> (\<forall>r \<in> set rs. receipt_verify C pub r = Some True)"
  by (simp add: verifyChain_def receipt_loop_iff)

lemma receipt_sign_some:
  assumes "ed_pair C priv pub"
  shows "\<exists>r. receipt_sign C priv l i now = Some r \<and> rc_seq r = int (length (rl_entries l)) \<and> rc_prevHash r = rl_tip l
    \<and> rc_input r = i \<and> rc_timestampMs r = now \<and> rc_keyId r = rl_keyId l \<and> receipt_verify C pub r = Some True"
proof -
  define seq where "seq = int (length (rl_entries l))"
  define u where "u = \<lparr>rc_seq = seq, rc_id = js ''rcpt-'' @ show_int seq @ js ''-'' @ take 8 (rl_tip l), rc_timestampMs = now,
              rc_prevHash = rl_tip l, rc_keyId = rl_keyId l, rc_input = i, rc_signature = []\<rparr>"
  obtain s where s: "signCanonicalPayloadEd25519 C (canonicalReceiptPayload u) priv = Some s" using ed.sign_some [OF assms] by blast
  have "canonicalReceiptPayload (u\<lparr>rc_signature := s\<rparr>) = canonicalReceiptPayload u"
    by (simp add: canonicalReceiptPayload_def receipt_members_def)
  with ed.sign_verifies [OF assms s] have "receipt_verify C pub (u\<lparr>rc_signature := s\<rparr>) = Some True"
    by (simp add: receipt_verify_def)
  moreover have "receipt_sign C priv l i now = Some (u\<lparr>rc_signature := s\<rparr>)"
    unfolding receipt_sign_def Let_def seq_def [symmetric] u_def [symmetric] using s by simp
  ultimately show ?thesis by (simp add: u_def seq_def)
qed

text \<open>A log whose entries verify and whose tip is their head: what awaited appends keep.\<close>

definition log_ok :: "crypto \<Rightarrow> jstr \<Rightarrow> receipt_log \<Rightarrow> bool" where
  "log_ok C pub l \<longleftrightarrow> verifyChain C (rl_entries l) pub = Some None \<and> rl_tip l = receipt_chain.head C GENESIS_HASH (rl_entries l)"

lemma log_ok_new [simp]: "log_ok C pub (new_receipt_log kid)"
  by (simp add: log_ok_def new_receipt_log_def verifyChain_def)

lemma receipt_append_ok:
  assumes "log_ok C pub l" "ed_pair C priv pub"
  shows "\<exists>r l'. receipt_append C priv l i now = Some (r, l') \<and> log_ok C pub l' \<and> rl_entries l' = rl_entries l @ [r]
    \<and> rc_input r = i \<and> rc_timestampMs r = now \<and> rl_keyId l' = rl_keyId l"
proof -
  obtain r where r: "receipt_sign C priv l i now = Some r" "rc_seq r = int (length (rl_entries l))" "rc_prevHash r = rl_tip l"
    "rc_input r = i" "rc_timestampMs r = now" "receipt_verify C pub r = Some True"
    using receipt_sign_some [OF assms(2)] by blast
  then have "log_ok C pub (receipt_finish C (receipt_push l r) r)"
    using assms(1) unfolding log_ok_def receipts_verify_iff
    by (auto simp: receipt_push_def receipt_finish_def numbered_append receipt_chain.chained_snoc receipt_chain.head_snoc receiptHash_pre)
  with r show ?thesis by (auto simp: receipt_append_def receipt_push_def receipt_finish_def)
qed

lemma receipt_append_fields:
  "receipt_append C priv l i now = Some (r, l') \<Longrightarrow> rl_entries l' = rl_entries l @ [r] \<and> rc_input r = i \<and> rl_keyId l' = rl_keyId l"
  by (auto simp: receipt_append_def receipt_sign_def Let_def receipt_push_def receipt_finish_def)

section \<open>Properties\<close>

text \<open>C18 The last receipts fix everything before them: two chains that both verify and end in the same non-empty list of receipts are the same chain, unless SHA-256 collides on the receipts concerned. So no receipt before the last can be edited, deleted, inserted or moved, not even by the holder of the signing key; only a truncation at the end goes unnoticed.\<close>

theorem receipts_fix_past:
  assumes "verifyChain C (xs @ zs) pub = Some None" "verifyChain C (ys @ zs) pub = Some None" "zs \<noteq> []"
    and "inj_on (\<lambda>b. toHex (sha256_raw C b)) (receipt_pre ` (set xs \<union> set ys))"
  shows "xs = ys \<and> verifyChain C xs pub = Some None"
proof -
  obtain z zs' where z: "zs = z # zs'" using assms(3) by (cases zs) auto
  have l: "length xs = length ys"
    using assms(1,2) by (simp add: z receipts_verify_iff numbered_append)
  have c: "receipt_chain.chained C GENESIS_HASH xs" "receipt_chain.chained C GENESIS_HASH ys"
      "receipt_chain.head C GENESIS_HASH xs = receipt_chain.head C GENESIS_HASH ys"
    using assms(1,2) by (simp_all add: z receipts_verify_iff receipt_chain.chained_append)
  have "list_all2 (=) xs ys" by (rule receipt_chain.same_history [OF c(1,2) l c(3) assms(4)]) simp
  then show ?thesis
    using assms(1) by (simp add: list.rel_eq receipts_verify_iff numbered_append receipt_chain.chained_append)
qed

text \<open>Receipts of calls that overlap do not form a chain: when a second append starts before the first has pushed its receipt, both carry the same number and the same predecessor, and verifyChain reports the second one, although nothing was tampered with.\<close>

definition overlapping_appends :: "crypto \<Rightarrow> jstr \<Rightarrow> receipt_log \<Rightarrow> receipt_input \<times> int \<Rightarrow> receipt_input \<times> int \<Rightarrow> receipt_log option" where
  "overlapping_appends C priv l a b =
    (case (receipt_sign C priv l (fst a) (snd a), receipt_sign C priv l (fst b) (snd b)) of
       (Some r, Some q) \<Rightarrow> Some (receipt_finish C (receipt_finish C (receipt_push (receipt_push l r) q) r) q)
     | _ \<Rightarrow> None)"

lemma receipt_loop_append:
  "receipt_chain_loop C pub i h xs = Some None \<Longrightarrow>
   receipt_chain_loop C pub i h (xs @ ys) = receipt_chain_loop C pub (i + length xs) (receipt_chain.head C h xs) ys"
  by (induction C pub i h xs rule: receipt_chain_loop.induct)
    (auto simp: receiptHash_pre split: option.splits bool.splits if_splits)

theorem overlapping_receipts_break_chain:
  assumes "log_ok C pub l" "ed_pair C priv pub"
  shows "\<exists>l'. overlapping_appends C priv l a b = Some l' \<and> length (rl_entries l') = length (rl_entries l) + 2 \<and>
    verifyChain C (rl_entries l') pub = Some (Some (Suc (length (rl_entries l)), SeqMismatch))"
proof -
  obtain r where r: "receipt_sign C priv l (fst a) (snd a) = Some r" "rc_seq r = int (length (rl_entries l))"
      "rc_prevHash r = rl_tip l" "receipt_verify C pub r = Some True"
    using receipt_sign_some [OF assms(2)] by blast
  obtain q where q: "receipt_sign C priv l (fst b) (snd b) = Some q" "rc_seq q = int (length (rl_entries l))"
    using receipt_sign_some [OF assms(2)] by blast
  have "verifyChain C (rl_entries l @ [r, q]) pub = Some (Some (Suc (length (rl_entries l)), SeqMismatch))"
    using assms(1) r q receipt_loop_append [of C pub 0 GENESIS_HASH "rl_entries l" "[r, q]"]
    by (simp add: log_ok_def verifyChain_def receipt_verify_def)
  with r q show ?thesis by (simp add: overlapping_appends_def receipt_push_def receipt_finish_def)
qed

section \<open>At a concrete log\<close>

definition demo_receipt :: receipt_input where
  "demo_receipt = \<lparr>ri_tool = js ''pay'', ri_scope = js ''money/pay'', ri_method = WRITE, ri_allowed = True, ri_reason = None,
     ri_detail = None, ri_grantId = Some (js ''g''), ri_inputHash = js ''h''\<rparr>"

theorem overlapping_receipts_break_chain_witness:
  "\<exists>l. overlapping_appends demo_crypto_inj (js ''k'') (new_receipt_log (js ''k'')) (demo_receipt, 1) (demo_receipt, 2) = Some l
    \<and> verifyChain demo_crypto_inj (rl_entries l) (js ''k'') = Some (Some (1, SeqMismatch))"
  using overlapping_receipts_break_chain [OF log_ok_new demo_inj_pair, of "js ''k''" "js ''k''" "(demo_receipt, 1)" "(demo_receipt, 2)"]
  by (auto simp: new_receipt_log_def)

theorem receipts_fix_past_witness:
  "\<exists>a b. a \<noteq> b \<and> verifyChain demo_crypto_inj [a, b] (js ''k'') = Some None \<and> verifyChain demo_crypto_inj [a] (js ''k'') = Some None"
proof -
  let ?k = "js ''k''"
  obtain a l where a: "log_ok demo_crypto_inj ?k l" "rl_entries l = [a]"
    using receipt_append_ok [OF log_ok_new [where kid = ?k] demo_inj_pair, where i = demo_receipt and now = 1, of ?k ?k]
    by (auto simp: new_receipt_log_def)
  obtain b l' where b: "log_ok demo_crypto_inj ?k l'" "rl_entries l' = [a] @ [b]"
    using receipt_append_ok [OF a(1) demo_inj_pair, where i = demo_receipt and now = 2, of ?k] a(2) by auto
  then have v: "verifyChain demo_crypto_inj ([a] @ [b]) ?k = Some None" by (simp add: log_ok_def)
  then have "a \<noteq> b" by (auto simp: receipts_verify_iff)
  moreover from receipts_fix_past [OF v v _ demo_inj_on] have "verifyChain demo_crypto_inj [a] ?k = Some None" by simp
  ultimately show ?thesis using v by auto
qed

end
