(* ===== verification/ToolManifest.thy ===== *)
theory ToolManifest
  imports WebReceipts JsMap
begin

text \<open>
  \<open>sdk/webmcp/src/manifest.ts\<close>: digests of tool surfaces, the signed manifest of an origin and
  the comparison of the live tools with it. A tool's handler is no part of its surface. The
  member \<open>annotations\<close> is the JSON value the page passes; \<open>None\<close> for an absent member.
\<close>

section \<open>Tools\<close>

record guarded_tool =
  gt_name :: jstr
  gt_title :: "jstr option"
  gt_description :: jstr
  gt_inputSchema :: "json option"
  gt_annotations :: "json option"
  gt_scope :: "jstr option"
  gt_limit :: "(jstr \<times> jnum) option"
  gt_confirm :: bool

definition toolMethod :: "guarded_tool \<Rightarrow> tool_method" where
  "toolMethod t =
    (case gt_annotations t of
       Some a \<Rightarrow> if jmember a ''readOnlyHint'' = Some (JBool True) then READ else WRITE
     | None \<Rightarrow> WRITE)"

definition published_scope :: "guarded_tool \<Rightarrow> jstr" where
  "published_scope t = (case gt_scope t of None \<Rightarrow> js ''public'' | Some s \<Rightarrow> s)"

definition json_or_null :: "json option \<Rightarrow> json" where
  "json_or_null v = (case v of None \<Rightarrow> JNull | Some x \<Rightarrow> x)"

definition surface_json :: "guarded_tool \<Rightarrow> json" where
  "surface_json t = JObj
    [(js ''name'', JStr (gt_name t)), (js ''description'', JStr (gt_description t)),
     (js ''inputSchema'', json_or_null (gt_inputSchema t)), (js ''annotations'', json_or_null (gt_annotations t)),
     (js ''scope'', JStr (published_scope t))]"

definition toolDigest :: "crypto \<Rightarrow> guarded_tool \<Rightarrow> jstr" where
  "toolDigest C t = sha256Hex C (canonicalJson (surface_json t))"

record manifest_entry =
  me_name :: jstr
  me_description :: jstr
  me_scope :: jstr
  me_method :: tool_method
  me_digest :: jstr

definition manifestEntry :: "crypto \<Rightarrow> guarded_tool \<Rightarrow> manifest_entry" where
  "manifestEntry C t = \<lparr>me_name = gt_name t, me_description = gt_description t, me_scope = published_scope t,
     me_method = toolMethod t, me_digest = toolDigest C t\<rparr>"

definition surfaceDigest :: "crypto \<Rightarrow> manifest_entry list \<Rightarrow> jstr" where
  "surfaceDigest C es = sha256Hex C (concat (map me_digest es))"

section \<open>Manifests\<close>

record signed_manifest =
  sm_version :: jstr
  sm_origin :: jstr
  sm_issuedAt :: int
  sm_tools :: "manifest_entry list"
  sm_surfaceDigest :: jstr
  sm_keyId :: jstr
  sm_signature :: jstr

definition tool_entry_json :: "manifest_entry \<Rightarrow> json" where
  "tool_entry_json e = JObj
    [(js ''name'', JStr (me_name e)), (js ''description'', JStr (me_description e)), (js ''scope'', JStr (me_scope e)),
     (js ''method'', JStr (method_text (me_method e))), (js ''digest'', JStr (me_digest e))]"

definition manifest_json :: "signed_manifest \<Rightarrow> json" where
  "manifest_json m = JObj
    [(js ''version'', JStr (sm_version m)), (js ''origin'', JStr (sm_origin m)), (js ''issuedAt'', num (sm_issuedAt m)),
     (js ''tools'', JArr (map tool_entry_json (sm_tools m))), (js ''surfaceDigest'', JStr (sm_surfaceDigest m)),
     (js ''keyId'', JStr (sm_keyId m))]"

definition canonicalManifestPayload :: "signed_manifest \<Rightarrow> jstr" where
  "canonicalManifestPayload m = canonicalJson (manifest_json m)"

definition signManifest :: "crypto \<Rightarrow> jstr \<Rightarrow> manifest_entry list \<Rightarrow> jstr \<Rightarrow> jstr \<Rightarrow> int \<Rightarrow> signed_manifest option" where
  "signManifest C origin es priv kid now =
    (let u = \<lparr>sm_version = js ''7h3-webmcp-manifest/1'', sm_origin = origin, sm_issuedAt = now, sm_tools = es,
              sm_surfaceDigest = surfaceDigest C es, sm_keyId = kid, sm_signature = []\<rparr>
     in map_option (\<lambda>s. u\<lparr>sm_signature := s\<rparr>) (signCanonicalPayloadEd25519 C (canonicalManifestPayload u) priv))"

datatype manifest_verification = ManifestOk | SurfaceDigestMismatch | ManifestBadSignature

definition verifyManifest :: "crypto \<Rightarrow> signed_manifest \<Rightarrow> jstr \<Rightarrow> manifest_verification option" where
  "verifyManifest C m pub =
    (if surfaceDigest C (sm_tools m) \<noteq> sm_surfaceDigest m then Some SurfaceDigestMismatch
     else map_option (\<lambda>ok. if ok then ManifestOk else ManifestBadSignature)
       (verifyCanonicalPayloadEd25519 C (canonicalManifestPayload m) (sm_signature m) pub))"

text \<open>\<open>new Map(entries.map(e => [e.name, e]))\<close>: a later entry of the same name replaces an earlier one.\<close>

definition by_name :: "manifest_entry list \<Rightarrow> (jstr, manifest_entry) jsmap" where
  "by_name es = foldl (\<lambda>m e. mset_key m (me_name e) e) [] es"

record manifest_diff =
  md_ok :: bool
  md_added :: "jstr list"
  md_removed :: "jstr list"
  md_modified :: "jstr list"

definition diffAgainstManifest :: "crypto \<Rightarrow> guarded_tool list \<Rightarrow> signed_manifest \<Rightarrow> manifest_diff" where
  "diffAgainstManifest C live m =
    (let l = by_name (map (manifestEntry C) live);
         d = by_name (sm_tools m);
         added = filter (\<lambda>n. \<not> mhas d n) (mkeys l);
         removed = filter (\<lambda>n. \<not> mhas l n) (mkeys d);
         modified = map fst (filter (\<lambda>(n, e). case mget d n of None \<Rightarrow> False | Some e' \<Rightarrow> me_digest e' \<noteq> me_digest e) l)
     in \<lparr>md_ok = (added = [] \<and> removed = [] \<and> modified = []), md_added = added, md_removed = removed, md_modified = modified\<rparr>)"

section \<open>What the comparison decides\<close>

lemma wf_by_name: "wf_map (by_name es)"
  by (induction es rule: rev_induct) (simp_all add: by_name_def wf_mset_key)

lemma mget_by_name_none: "mget (by_name es) n = None \<longleftrightarrow> n \<notin> me_name ` set es"
  by (induction es rule: rev_induct) (auto simp: by_name_def)

lemma mget_by_name:
  "distinct (map me_name es) \<Longrightarrow> e \<in> set es \<Longrightarrow> mget (by_name es) (me_name e) = Some e"
proof (induction es rule: rev_induct)
  case (snoc x xs)
  show ?case
  proof (cases "e = x")
    case False
    with snoc.prems have "e \<in> set xs" "me_name x \<notin> me_name ` set xs" by auto
    then have "me_name e \<noteq> me_name x" by (metis image_eqI)
    with snoc False show ?thesis by (simp add: by_name_def)
  qed (simp add: by_name_def)
qed simp

lemma mkeys_iff: "n \<in> set (mkeys m) \<longleftrightarrow> mget m n \<noteq> None"
  by (simp add: mkeys_def mget_None_iff)

lemma diff_ok_iff:
  "md_ok (diffAgainstManifest C live m) \<longleftrightarrow>
    (\<forall>n. map_option me_digest (mget (by_name (map (manifestEntry C) live)) n) = map_option me_digest (mget (by_name (sm_tools m)) n))"
  (is "?ok \<longleftrightarrow> (\<forall>n. map_option me_digest (mget ?l n) = map_option me_digest (mget ?d n))")
proof -
  have "?ok \<longleftrightarrow> (\<forall>n \<in> set (mkeys ?l). mhas ?d n) \<and> (\<forall>n \<in> set (mkeys ?d). mhas ?l n) \<and>
      (\<forall>(n, e) \<in> set ?l. case mget ?d n of None \<Rightarrow> True | Some e' \<Rightarrow> me_digest e' = me_digest e)"
    by (auto simp: diffAgainstManifest_def Let_def filter_empty_conv split: option.splits)
  also have "\<dots> \<longleftrightarrow> (\<forall>n. mget ?l n \<noteq> None \<longleftrightarrow> mget ?d n \<noteq> None) \<and>
      (\<forall>n e. mget ?l n = Some e \<longrightarrow> (case mget ?d n of None \<Rightarrow> True | Some e' \<Rightarrow> me_digest e' = me_digest e))"
    unfolding mkeys_iff mhas_def Ball_def using mget_in_set [OF wf_by_name] by auto
  also have "\<dots> \<longleftrightarrow> (\<forall>n. map_option me_digest (mget ?l n) = map_option me_digest (mget ?d n))"
  proof
    assume a: "(\<forall>n. (mget ?l n \<noteq> None) = (mget ?d n \<noteq> None)) \<and>
      (\<forall>n e. mget ?l n = Some e \<longrightarrow> (case mget ?d n of None \<Rightarrow> True | Some e' \<Rightarrow> me_digest e' = me_digest e))"
    show "\<forall>n. map_option me_digest (mget ?l n) = map_option me_digest (mget ?d n)"
    proof
      fix n
      from a show "map_option me_digest (mget ?l n) = map_option me_digest (mget ?d n)"
        by (cases "mget ?l n"; cases "mget ?d n") (fastforce dest!: spec [of _ n])+
    qed
  next
    assume a: "\<forall>n. map_option me_digest (mget ?l n) = map_option me_digest (mget ?d n)"
    have "case mget ?d n of None \<Rightarrow> True | Some e' \<Rightarrow> me_digest e' = me_digest e" if "mget ?l n = Some e" for n e
      using a [rule_format, of n] that by (cases "mget ?d n") auto
    moreover have "(mget ?l n \<noteq> None) = (mget ?d n \<noteq> None)" for n by (metis a option.map_disc_iff)
    ultimately show "(\<forall>n. (mget ?l n \<noteq> None) = (mget ?d n \<noteq> None)) \<and>
      (\<forall>n e. mget ?l n = Some e \<longrightarrow> (case mget ?d n of None \<Rightarrow> True | Some e' \<Rightarrow> me_digest e' = me_digest e))"
      by blast
  qed
  finally show ?thesis .
qed

lemma digest_fixes_surface:
  assumes "toolDigest C a = toolDigest C b" "inj_on (sha256_raw C) S"
    and "utf8Encode (canonicalJson (surface_json a)) \<in> S" "utf8Encode (canonicalJson (surface_json b)) \<in> S"
  shows "canonicalJson (surface_json a) = canonicalJson (surface_json b)"
  using sha256Hex_eq [OF assms(1) [unfolded toolDigest_def] assms(2-4)] by (rule canonicalJson_utf8)

definition finite_surface :: "guarded_tool \<Rightarrow> bool" where
  "finite_surface t \<longleftrightarrow> json_finite (json_or_null (gt_inputSchema t)) \<and> json_finite (json_or_null (gt_annotations t))"

text \<open>Two tools an agent cannot tell apart; member order in schema and annotations does not count.\<close>

definition same_surface :: "guarded_tool \<Rightarrow> guarded_tool \<Rightarrow> bool" where
  "same_surface a b \<longleftrightarrow> gt_name a = gt_name b \<and> gt_description a = gt_description b \<and> published_scope a = published_scope b \<and>
    norm_json (json_or_null (gt_inputSchema a)) = norm_json (json_or_null (gt_inputSchema b)) \<and>
    norm_json (json_or_null (gt_annotations a)) = norm_json (json_or_null (gt_annotations b))"

lemma surface_text_inj:
  assumes "canonicalJson (surface_json a) = canonicalJson (surface_json b)" "finite_surface a" "finite_surface b"
  shows "same_surface a b"
proof -
  have "norm_json (surface_json a) = norm_json (surface_json b)"
    using assms by (intro canonicalJson_inj) (auto simp: surface_json_def finite_surface_def)
  from norm_same_keys [OF this [unfolded surface_json_def]] show ?thesis by (simp add: same_surface_def)
qed

lemma entry_json_norm_inj [simp]: "norm_json (tool_entry_json a) = norm_json (tool_entry_json b) \<longleftrightarrow> a = b"
proof
  assume n: "norm_json (tool_entry_json a) = norm_json (tool_entry_json b)"
  show "a = b" using norm_same_keys [OF n [unfolded tool_entry_json_def]] by (simp add: manifest_entry.equality)
qed simp

lemma manifest_payload_inj:
  assumes "canonicalManifestPayload a = canonicalManifestPayload b"
  shows "b = a\<lparr>sm_signature := sm_signature b\<rparr>"
proof -
  have i: "inj (\<lambda>e. norm_json (tool_entry_json e))" by (simp add: inj_def)
  have "norm_json (manifest_json a) = norm_json (manifest_json b)"
    using assms unfolding canonicalManifestPayload_def
    by (rule canonicalJson_inj) (auto simp: manifest_json_def tool_entry_json_def)
  from norm_same_keys [OF this [unfolded manifest_json_def]]
  have "map (\<lambda>e. norm_json (tool_entry_json e)) (sm_tools a) = map (\<lambda>e. norm_json (tool_entry_json e)) (sm_tools b)"
    "sm_version a = sm_version b" "sm_origin a = sm_origin b" "sm_issuedAt a = sm_issuedAt b"
    "sm_surfaceDigest a = sm_surfaceDigest b" "sm_keyId a = sm_keyId b"
    by (simp_all add: comp_def)
  then show ?thesis by (simp add: inj_map_eq_map [OF i] signed_manifest.equality)
qed

lemma sign_manifest_some:
  assumes "ed_pair C priv pub"
  shows "\<exists>m. signManifest C origin es priv kid now = Some m \<and> sm_tools m = es \<and> verifyManifest C m pub = Some ManifestOk"
proof -
  define u where "u = \<lparr>sm_version = js ''7h3-webmcp-manifest/1'', sm_origin = origin, sm_issuedAt = now, sm_tools = es,
              sm_surfaceDigest = surfaceDigest C es, sm_keyId = kid, sm_signature = []\<rparr>"
  obtain s where s: "signCanonicalPayloadEd25519 C (canonicalManifestPayload u) priv = Some s" using ed.sign_some [OF assms] by blast
  have "canonicalManifestPayload (u\<lparr>sm_signature := s\<rparr>) = canonicalManifestPayload u"
    by (simp add: canonicalManifestPayload_def manifest_json_def)
  with ed.sign_verifies [OF assms s] have "verifyManifest C (u\<lparr>sm_signature := s\<rparr>) pub = Some ManifestOk"
    by (simp add: verifyManifest_def) (simp add: u_def)
  moreover have "signManifest C origin es priv kid now = Some (u\<lparr>sm_signature := s\<rparr>)"
    unfolding signManifest_def Let_def u_def [symmetric] using s by simp
  ultimately show ?thesis by (simp add: u_def)
qed

lemma entry_unprotected:
  "manifestEntry C (t\<lparr>gt_scope := None\<rparr>) = manifestEntry C (t\<lparr>gt_scope := Some (js ''public'')\<rparr>)"
  "manifestEntry C (t\<lparr>gt_limit := x, gt_confirm := b, gt_title := y\<rparr>) = manifestEntry C t"
  "manifestEntry C (t\<lparr>gt_confirm := b\<rparr>) = manifestEntry C t"
  by (simp_all add: manifestEntry_def published_scope_def toolDigest_def surface_json_def toolMethod_def)

section \<open>Properties\<close>

text \<open>A signed manifest pins the tools of a page: when a manifest verifies, its payload is the one an origin signed for the tools it deployed, and the live tools pass diffAgainstManifest, then every live tool is one of the deployed tools and every deployed tool is live, with the same name, description, input schema, annotations and published scope, unless SHA-256 collides on the surfaces concerned. Names are distinct, as in the guard's map of tools.\<close>

theorem manifest_pins_tools:
  assumes "verifyManifest C m pub = Some ManifestOk" "canonicalManifestPayload m = canonicalManifestPayload m0"
    and "signManifest C origin (map (manifestEntry C) deployed) priv kid now = Some m0"
    and "md_ok (diffAgainstManifest C live m)"
    and "distinct (map gt_name live)" "distinct (map gt_name deployed)"
    and "\<forall>t \<in> set live \<union> set deployed. finite_surface t"
    and "inj_on (sha256_raw C) ((\<lambda>t. utf8Encode (canonicalJson (surface_json t))) ` (set live \<union> set deployed))"
  shows "(\<forall>t \<in> set live. \<exists>d \<in> set deployed. same_surface t d) \<and> (\<forall>d \<in> set deployed. \<exists>t \<in> set live. same_surface t d)"
proof -
  have "sm_tools m0 = map (manifestEntry C) deployed"
    using assms(3) by (auto simp: signManifest_def Let_def)
  then have m: "sm_tools m = map (manifestEntry C) deployed"
    using manifest_payload_inj [OF assms(2)] by (metis signed_manifest.select_convs(4) signed_manifest.surjective signed_manifest.update_convs(7))
  have n: "me_name \<circ> manifestEntry C = gt_name" by (simp add: fun_eq_iff manifestEntry_def)
  have d: "distinct (map me_name (map (manifestEntry C) live))" "distinct (map me_name (map (manifestEntry C) deployed))"
    using assms(5,6) by (simp_all only: map_map n)
  have l: "mget (by_name (map (manifestEntry C) live)) (gt_name t) = Some (manifestEntry C t)" if "t \<in> set live" for t
    using mget_by_name [OF d(1), of "manifestEntry C t"] that by (simp add: manifestEntry_def)
  have p: "mget (by_name (map (manifestEntry C) deployed)) (gt_name t) = Some (manifestEntry C t)" if "t \<in> set deployed" for t
    using mget_by_name [OF d(2), of "manifestEntry C t"] that by (simp add: manifestEntry_def)
  note eq = assms(4) [unfolded diff_ok_iff m, rule_format]
  have s: "same_surface t t'" if "t \<in> set live" "t' \<in> set deployed" "gt_name t = gt_name t'" for t t'
  proof -
    have "toolDigest C t = toolDigest C t'"
      using eq [of "gt_name t"] l [OF that(1)] p [OF that(2)] that(3) by (simp add: manifestEntry_def)
    from digest_fixes_surface [OF this assms(8)] show ?thesis
      using that assms(7) by (intro surface_text_inj) auto
  qed
  have "\<exists>d \<in> set deployed. same_surface t d" if t: "t \<in> set live" for t
  proof -
    from eq [of "gt_name t"] l [OF t] have "mget (by_name (map (manifestEntry C) deployed)) (gt_name t) \<noteq> None"
      by (metis option.distinct(1) option.map_disc_iff)
    then obtain d where "d \<in> set deployed" "gt_name t = gt_name d" unfolding mget_by_name_none by (auto simp: manifestEntry_def)
    with s t show ?thesis by blast
  qed
  moreover have "\<exists>t \<in> set live. same_surface t d" if t: "d \<in> set deployed" for d
  proof -
    from eq [of "gt_name d"] p [OF t] have "mget (by_name (map (manifestEntry C) live)) (gt_name d) \<noteq> None"
      by (metis option.distinct(1) option.map_disc_iff)
    then obtain x where "x \<in> set live" "gt_name x = gt_name d" unfolding mget_by_name_none by (auto simp: manifestEntry_def)
    with s t show ?thesis by blast
  qed
  ultimately show ?thesis by blast
qed

text \<open>Swapping the protection of a tool goes unnoticed: a tool without scope, which is published unguarded, and the tool with the scope public, which needs a grant, have the same manifest entry; ceilings, titles and the request for confirmation have no influence on it either.\<close>

theorem manifest_ignores_protection:
  "manifestEntry C (t\<lparr>gt_scope := None\<rparr>) = manifestEntry C (t\<lparr>gt_scope := Some (js ''public'')\<rparr>) \<and>
   manifestEntry C (t\<lparr>gt_limit := x, gt_confirm := b, gt_title := y\<rparr>) = manifestEntry C t"
  by (simp add: entry_unprotected)

section \<open>At concrete tools\<close>

definition demo_tool :: guarded_tool where
  "demo_tool = \<lparr>gt_name = js ''pay'', gt_title = None, gt_description = js ''Pay'', gt_inputSchema = None, gt_annotations = None,
     gt_scope = Some (js ''money/pay''), gt_limit = Some (js ''amount'', Fin 100), gt_confirm = True\<rparr>"

theorem manifest_pins_tools_witness:
  "same_surface (demo_tool\<lparr>gt_confirm := False\<rparr>) demo_tool"
proof -
  obtain m where m: "signManifest demo_crypto_inj (js ''o'') (map (manifestEntry demo_crypto_inj) [demo_tool]) (js ''k'') (js ''k'') 1 = Some m"
    "sm_tools m = [manifestEntry demo_crypto_inj demo_tool]" "verifyManifest demo_crypto_inj m (js ''k'') = Some ManifestOk"
    using sign_manifest_some [OF demo_inj_pair] by fastforce
  have d: "md_ok (diffAgainstManifest demo_crypto_inj [demo_tool\<lparr>gt_confirm := False\<rparr>] m)"
    unfolding diff_ok_iff m(2) list.map entry_unprotected by simp
  have f: "finite_surface demo_tool" "finite_surface (demo_tool\<lparr>gt_confirm := False\<rparr>)"
    by (simp_all add: demo_tool_def finite_surface_def json_or_null_def)
  have i: "inj_on (sha256_raw demo_crypto_inj) S" for S by (rule inj_onI) (simp add: demo_crypto_inj_def)
  from manifest_pins_tools [OF m(3) refl m(1) d _ _ _ i] f show ?thesis by simp
qed

end
