(* ===== verification/ToolGuard.thy ===== *)
theory ToolGuard
  imports ToolManifest Capability KeyRegistry
begin

text \<open>
  \<open>sdk/webmcp/src/guard.ts\<close>: the guard in front of the tools a page offers to an agent. The
  guard keeps the registered tools, the grants it issued, the revoked identifiers, a store
  of used nonces and the receipt log. Every operation reads the clock once. \<open>JSON.parse\<close> of a
  grant chain, the reading of a number from a string, the replay store, the confirmation
  callback and the handlers of the tools are parameters; the inputs of a call are JSON
  members. An outcome \<open>None\<close> is a call that throws.
\<close>

section \<open>The replay store of a page\<close>

definition MIN_REPLAY_RETENTION_MS :: int where
  "MIN_REPLAY_RETENTION_MS = 60000"

definition js_max :: "jnum \<Rightarrow> jnum \<Rightarrow> jnum" where
  "js_max a b = (if a = NaN \<or> b = NaN then NaN else max a b)"

definition js_min :: "jnum \<Rightarrow> jnum \<Rightarrow> jnum" where
  "js_min a b = (if a = NaN \<or> b = NaN then NaN else min a b)"

type_synonym seen_nonces = "(jstr, jnum) jsmap"

definition seen_check :: "seen_nonces \<Rightarrow> jstr \<Rightarrow> jnum \<Rightarrow> int \<Rightarrow> seen_nonces \<times> bool option" where
  "seen_check seen key ttl now =
    (let s1 = filter (\<lambda>(k, expiry). \<not> jnum_le expiry (Fin now)) seen in
     if mhas s1 key then (s1, Some True)
     else (mset_key s1 key (jnum_add (Fin now) (js_max ttl (Fin MIN_REPLAY_RETENTION_MS))), Some False))"

definition seen_mark :: "seen_nonces \<Rightarrow> jstr \<Rightarrow> jnum \<Rightarrow> int \<Rightarrow> seen_nonces \<times> bool" where
  "seen_mark s key ttl now = map_prod id (\<lambda>r. r = Some False) (seen_check s key ttl now)"

definition seen_holds :: "seen_nonces \<Rightarrow> jstr \<Rightarrow> int \<Rightarrow> bool" where
  "seen_holds s key t \<longleftrightarrow> (case mget s key of Some e \<Rightarrow> \<not> jnum_le e (Fin t) | None \<Rightarrow> False)"

lemma seen_pruned:
  "wf_map s \<Longrightarrow> mget (filter (\<lambda>(k, expiry). \<not> jnum_le expiry (Fin now)) s) k =
    (case mget s k of Some e \<Rightarrow> if jnum_le e (Fin now) then None else Some e | None \<Rightarrow> None)"
  by (simp add: mget_filter split: option.splits)

interpretation seen_checker: replay_checker seen_mark seen_holds wf_map seen_check
proof unfold_locales
  fix s :: seen_nonces and k ttl now
  assume "wf_map s"
  then show "wf_map (fst (seen_mark s k ttl now))"
    by (simp add: seen_mark_def seen_check_def Let_def wf_filter wf_mset_key)
next
  fix s :: seen_nonces and k ttl now
  assume "wf_map s" "seen_holds s k now"
  then show "\<not> snd (seen_mark s k ttl now)"
    by (auto simp: seen_mark_def seen_check_def Let_def seen_holds_def mhas_def seen_pruned split: option.splits)
next
  fix s :: seen_nonces and k n now t
  assume a: "wf_map s" "snd (seen_mark s k (Fin n) now)" "t < now + n"
  have "\<not> jnum_le (jnum_add (Fin now) (js_max (Fin n) (Fin MIN_REPLAY_RETENTION_MS))) (Fin t)"
    using a(3) by (auto simp: js_max_def max_def MIN_REPLAY_RETENTION_MS_def)
  with a show "seen_holds (fst (seen_mark s k (Fin n) now)) k t"
    by (auto simp: seen_mark_def seen_check_def Let_def seen_holds_def mhas_def split: if_splits)
next
  fix s :: seen_nonces and k k' ttl now t
  assume a: "wf_map s" "seen_holds s k t" "now \<le> t"
  then obtain e where e: "mget s k = Some e" "\<not> jnum_le e (Fin t)" by (auto simp: seen_holds_def split: option.splits)
  then have "\<not> jnum_le e (Fin now)" using a(3) by (cases e) (auto simp: jnum_le_def)
  with e a(1) show "seen_holds (fst (seen_mark s k' ttl now)) k t"
    by (auto simp: seen_mark_def seen_check_def Let_def seen_holds_def mhas_def seen_pruned)
qed (simp add: seen_mark_def)

section \<open>Ceilings\<close>

definition CAPS_PREFIX :: jstr where
  "CAPS_PREFIX = js ''caps/''"

text \<open>
  \<open>number\<close> reads a number from a string. Assigning to \<open>__proto__\<close> a value that is no object
  stores nothing.
\<close>

definition scope_cap :: "(jstr \<Rightarrow> jnum) \<Rightarrow> scope \<Rightarrow> (jstr \<times> jnum) option" where
  "scope_cap number s =
    (if \<not> startsWith (pathGlob s) CAPS_PREFIX then None
     else case split_on 47 (pathGlob s) of
       p # field # raw # rest \<Rightarrow>
         if field \<noteq> [] \<and> is_finite (number raw) \<and> field \<noteq> js ''__proto__'' then Some (field, number raw) else None
     | _ \<Rightarrow> None)"

definition parseCaps :: "(jstr \<Rightarrow> jnum) \<Rightarrow> token \<Rightarrow> (jstr, jnum) jsmap" where
  "parseCaps number t =
    foldl (\<lambda>caps s. case scope_cap number s of None \<Rightarrow> caps | Some (f, v) \<Rightarrow> mset_key caps f v) [] (token.scopes t)"

text \<open>\<open>caps[field]\<close> of a plain object: inherited members are there too; as numbers they are NaN.\<close>

definition plain_get :: "(jstr, jnum) jsmap \<Rightarrow> jstr \<Rightarrow> jnum option" where
  "plain_get m f = (case mget m f of Some v \<Rightarrow> Some v | None \<Rightarrow> if f \<in> set inherited_names then Some NaN else None)"

definition merge_caps :: "(jstr, jnum) jsmap \<Rightarrow> (jstr, jnum) jsmap \<Rightarrow> (jstr, jnum) jsmap" where
  "merge_caps caps new =
    foldl (\<lambda>m (f, v). mset_key m f (case plain_get m f of None \<Rightarrow> v | Some c \<Rightarrow> js_min c v)) caps new"

definition effectiveCaps :: "(jstr \<Rightarrow> jnum) \<Rightarrow> token list \<Rightarrow> (jstr, jnum) jsmap" where
  "effectiveCaps number chain = foldl (\<lambda>caps t. merge_caps caps (parseCaps number t)) [] chain"

text \<open>
  \<open>Number(v)\<close>: objects and arrays are read through their text; an object whose own
  \<open>toString\<close> is a JSON value has none, and the conversion throws.
\<close>

fun object_text :: "json \<Rightarrow> jstr option" where
  "object_text (JArr vs) = map_option (join_with [44]) (all_some (map (\<lambda>v. if v = JNull then Some [] else object_text v) vs))"
| "object_text (JObj kvs) = (if map_of kvs (js ''toString'') = None then Some (js ''[object Object]'') else None)"
| "object_text v = Some (to_text v)"

fun to_number :: "(jstr \<Rightarrow> jnum) \<Rightarrow> json \<Rightarrow> jnum option" where
  "to_number number JNull = Some (Fin 0)"
| "to_number number (JBool b) = Some (Fin (if b then 1 else 0))"
| "to_number number (JNum n) = Some n"
| "to_number number (JStr s) = Some (number s)"
| "to_number number v = map_option number (object_text v)"

type_synonym call_input = "(jstr \<times> json) list"

text \<open>\<open>Number(input[field])\<close>; the inner \<open>None\<close> is a missing field.\<close>

definition input_number :: "(jstr \<Rightarrow> jnum) \<Rightarrow> call_input \<Rightarrow> jstr \<Rightarrow> jnum option option" where
  "input_number number kvs f =
    (case map_of kvs f of
       Some v \<Rightarrow> map_option Some (to_number number v)
     | None \<Rightarrow> Some (if f \<in> set inherited_names then Some NaN else None))"

datatype limit_failure = MissingField | NotFinite | OverCeiling

datatype limit_outcome = WithinLimit | LimitFailed limit_failure (ceiling_of: jnum) jnum

definition evaluateLimit :: "(jstr \<Rightarrow> jnum) \<Rightarrow> guarded_tool \<Rightarrow> call_input \<Rightarrow> (jstr, jnum) jsmap \<Rightarrow> limit_outcome option" where
  "evaluateLimit number tool kvs caps =
    (case gt_limit tool of
       None \<Rightarrow> Some WithinLimit
     | Some (f, mx) \<Rightarrow>
         (let ceiling = js_min mx (case plain_get caps f of None \<Rightarrow> PosInf | Some c \<Rightarrow> c) in
          case input_number number kvs f of
            None \<Rightarrow> None
          | Some None \<Rightarrow> Some (LimitFailed MissingField ceiling NaN)
          | Some (Some v) \<Rightarrow>
              if \<not> is_finite v then Some (LimitFailed NotFinite ceiling NaN)
              else if jnum_less ceiling v then Some (LimitFailed OverCeiling ceiling v)
              else Some WithinLimit))"

section \<open>The guard\<close>

datatype decision = AllowCall "jstr option" | RefuseCall refusal jstr

text \<open>
  What the guard is given: the platform, the replay store's \<open>check\<close> and the confirmation
  callback, whose inner \<open>None\<close> is a callback that throws. \<open>ge_chain\<close> reads a bearer chain: tokens
  whose members have their declared types, of which only the two times may be missing (\<open>None\<close>: the
  text does not parse). A text that parses to anything else has no counterpart here.
\<close>

record 'st guard_env =
  ge_crypto :: crypto
  ge_number :: "jstr \<Rightarrow> jnum"
  ge_chain :: "jstr \<Rightarrow> token list option"
  ge_check :: "'st \<Rightarrow> jstr \<Rightarrow> jnum \<Rightarrow> int \<Rightarrow> 'st \<times> bool option"
  ge_confirm :: "(guarded_tool \<Rightarrow> call_input \<Rightarrow> bool option) option"

record 'st tool_guard =
  tg_origin :: jstr
  tg_privateKey :: jstr
  tg_publicKey :: jstr
  tg_keyId :: jstr
  tg_peerKeys :: "(jstr, jstr) jsmap option"
  tg_replay :: 'st
  tg_tools :: "(jstr, guarded_tool) jsmap"
  tg_grants :: "(jstr, token) jsmap"
  tg_revoked :: "jstr list"
  tg_receipts :: receipt_log

definition new_guard :: "jstr \<Rightarrow> jstr \<Rightarrow> jstr \<Rightarrow> jstr option \<Rightarrow> (jstr, jstr) jsmap option \<Rightarrow> 'st \<Rightarrow> 'st tool_guard" where
  "new_guard origin priv pub kid peers st =
    (let k = (case kid of None \<Rightarrow> origin @ js ''-k1'' | Some k \<Rightarrow> k) in
     \<lparr>tg_origin = origin, tg_privateKey = priv, tg_publicKey = pub, tg_keyId = k, tg_peerKeys = peers, tg_replay = st,
      tg_tools = [], tg_grants = [], tg_revoked = [], tg_receipts = new_receipt_log k\<rparr>)"

definition GRANT_FIELD :: jstr where
  "GRANT_FIELD = js ''__7h3_grant''"

definition NONCE_FIELD :: jstr where
  "NONCE_FIELD = js ''__7h3_nonce''"

definition stripReserved :: "call_input \<Rightarrow> call_input" where
  "stripReserved kvs = filter (\<lambda>(k, v). k \<noteq> GRANT_FIELD \<and> k \<noteq> NONCE_FIELD) kvs"

text \<open>A member that is a non-empty string.\<close>

definition text_member :: "call_input \<Rightarrow> jstr \<Rightarrow> jstr option" where
  "text_member kvs k = (case map_of kvs k of Some (JStr s) \<Rightarrow> if s = [] then None else Some s | _ \<Rightarrow> None)"

definition refusalRank :: "decision \<Rightarrow> nat" where
  "refusalRank d =
    (case d of AllowCall g \<Rightarrow> 0
     | RefuseCall LimitExceeded m \<Rightarrow> 4
     | RefuseCall GrantInvalidSignature m \<Rightarrow> 3
     | RefuseCall GrantRevoked m \<Rightarrow> 2
     | RefuseCall GrantExpired m \<Rightarrow> 2
     | _ \<Rightarrow> 1)"

definition noted :: "decision option \<Rightarrow> decision \<Rightarrow> decision option" where
  "noted old d = (case old of None \<Rightarrow> Some d | Some o' \<Rightarrow> if refusalRank o' < refusalRank d then Some d else Some o')"

definition limitRefusal :: "guarded_tool \<Rightarrow> limit_failure \<Rightarrow> jnum \<Rightarrow> jnum \<Rightarrow> decision" where
  "limitRefusal tool why ceiling v =
    (let field = (case gt_limit tool of None \<Rightarrow> [] | Some (f, mx) \<Rightarrow> f) in
     RefuseCall LimitExceeded
       (case why of
          MissingField \<Rightarrow> field @ js '' is required: this tool declares a ceiling on it''
        | NotFinite \<Rightarrow> field @ js '' is not a finite number''
        | OverCeiling \<Rightarrow> field @ js ''='' @ show_num v @ js '' exceeds the authorized ceiling of '' @ show_num ceiling))"

section \<open>Bearer chains\<close>

text \<open>
  The texts of \<open>src/capability.ts\<close>: the guard searches them for the word expired. A quotation
  mark is code unit 39.
\<close>

definition quoted :: "jstr \<Rightarrow> jstr" where
  "quoted s = 39 # s @ [39]"

definition at_token :: "nat \<Rightarrow> string \<Rightarrow> jstr" where
  "at_token i t = js ''token['' @ show_int (int i) @ js '']'' @ js t"

definition chain_error_text :: "token list \<Rightarrow> chain_error \<Rightarrow> jstr" where
  "chain_error_text chain e =
    (case e of
       EmptyChain \<Rightarrow> js ''empty-chain''
     | RootDepth \<Rightarrow> js ''root-token-delegation-depth-must-be-zero''
     | IssuerBroken i \<Rightarrow> js ''chain-broken: '' @ at_token i ''.issuer '' @ quoted (token.issuer (chain ! i)) @ js '' !== ''
         @ at_token (i - 1) ''.subject '' @ quoted (token.subject (chain ! (i - 1)))
     | ParentIdBroken i \<Rightarrow> js ''chain-broken: '' @ at_token i ''.parentTokenId ''
         @ quoted (case parentTokenId (chain ! i) of None \<Rightarrow> js ''undefined'' | Some p \<Rightarrow> p) @ js '' !== ''
         @ at_token (i - 1) ''.id '' @ quoted (tid (chain ! (i - 1)))
     | DepthBroken i \<Rightarrow> js ''chain-broken: '' @ at_token i ''.delegationDepth '' @ show_int (delegationDepth (chain ! i))
         @ js '' !== '' @ show_int (delegationDepth (chain ! (i - 1)) + 1)
     | NoFurtherDelegation i \<Rightarrow> js ''chain-broken: '' @ at_token i '' does not permit further delegation (maxDelegations=0)''
     | ExpiryExceeds i \<Rightarrow> js ''chain-broken: '' @ at_token i ''.expiresAt exceeds '' @ at_token (i - 1) ''.expiresAt''
     | ScopesExceed i \<Rightarrow> js ''chain-broken: '' @ at_token i ''.scopes exceed '' @ at_token (i - 1) ''.scopes''
     | Expired i \<Rightarrow> at_token i ''-expired''
     | NoPublicKey iss \<Rightarrow> js ''no-public-key-for-issuer:'' @ iss
     | InvalidSignature i \<Rightarrow> js ''invalid-signature-at-index:'' @ show_int (int i)
     | ScopeNotCovered \<Rightarrow> js ''leaf-token-does-not-cover-required-scope'')"

definition guard_key :: "'st tool_guard \<Rightarrow> jstr \<Rightarrow> jstr option" where
  "guard_key G i =
    (if i = tg_origin G \<or> i = tg_keyId G then Some (tg_publicKey G)
     else case tg_peerKeys G of None \<Rightarrow> None | Some peers \<Rightarrow> mget peers i)"

text \<open>
  An issuer named like an inherited member yields a function for a key, and importing it throws:
  that is the one case in which \<open>guard_key\<close> finding none is no refusal.
\<close>

definition inherited_key :: "'st tool_guard \<Rightarrow> chain_error \<Rightarrow> bool" where
  "inherited_key G e = (case e of NoPublicKey iss \<Rightarrow> tg_peerKeys G \<noteq> None \<and> guard_key G iss = None \<and> iss \<in> set inherited_names | _ \<Rightarrow> False)"

definition verifyBearer :: "'st guard_env \<Rightarrow> 'st tool_guard \<Rightarrow> jstr \<Rightarrow> jstr \<Rightarrow> tool_method \<Rightarrow> int \<Rightarrow> (decision + token \<times> token list) option" where
  "verifyBearer E G serialized scope meth now =
    (case ge_chain E serialized of
       None \<Rightarrow> Some (Inl (RefuseCall GrantInvalidSignature (js ''grant chain is not parseable'')))
     | Some chain \<Rightarrow>
         (case verifyCapabilityChain (ge_crypto E) chain (guard_key G) (Some scope) (Some (method_text meth)) now of
            None \<Rightarrow> None
          | Some (Inl e) \<Rightarrow>
              if inherited_key G e then None
              else (let reason = chain_error_text chain e in
                Some (Inl (RefuseCall (if contains_sub reason (js ''expired'') then GrantExpired else GrantInvalidSignature) reason)))
          | Some (Inr t) \<Rightarrow>
              if tid t \<in> set (tg_revoked G) then Some (Inl (RefuseCall GrantRevoked (js ''grant '' @ tid t @ js '' was revoked'')))
              else Some (Inr (t, chain))))"

section \<open>Deciding a call\<close>

text \<open>
  The loop over the candidates: the outcome is the authorizing token, or the best limit failure
  and the most specific refusal.
\<close>

fun select_grant :: "'st guard_env \<Rightarrow> 'st tool_guard \<Rightarrow> guarded_tool \<Rightarrow> jstr \<Rightarrow> call_input \<Rightarrow> int \<Rightarrow> bool
    \<Rightarrow> (limit_failure \<times> jnum \<times> jnum) option \<Rightarrow> decision option \<Rightarrow> (token \<times> token list) list
    \<Rightarrow> (((limit_failure \<times> jnum \<times> jnum) option \<times> decision option) + token) option" where
  "select_grant E G tool scope kvs now pre best ref [] = Some (Inl (best, ref))"
| "select_grant E G tool scope kvs now pre best ref ((t, chain) # cs) =
    (if tid t \<in> set (tg_revoked G)
     then select_grant E G tool scope kvs now pre best
       (noted ref (RefuseCall GrantRevoked (js ''grant '' @ tid t @ js '' was revoked''))) cs
     else if lapsed (token.expiresAt t) now
     then select_grant E G tool scope kvs now pre best
       (noted ref (RefuseCall GrantExpired (js ''grant '' @ tid t @ js '' has expired''))) cs
     else case (if pre then Some True else verifyCapabilityToken (ge_crypto E) t (tg_publicKey G) now) of
       None \<Rightarrow> None
     | Some False \<Rightarrow> select_grant E G tool scope kvs now pre best
         (noted ref (RefuseCall GrantInvalidSignature (js ''grant '' @ tid t @ js '' failed signature verification''))) cs
     | Some True \<Rightarrow>
         (if \<not> tokenMatchesScope t scope (Some (method_text (toolMethod tool)))
          then select_grant E G tool scope kvs now pre best ref cs
          else case evaluateLimit (ge_number E) tool kvs (effectiveCaps (ge_number E) chain) of
            None \<Rightarrow> None
          | Some WithinLimit \<Rightarrow> Some (Inr t)
          | Some (LimitFailed why c v) \<Rightarrow>
              select_grant E G tool scope kvs now pre
                (case best of None \<Rightarrow> Some (why, c, v)
                 | Some (why', c', v') \<Rightarrow> if jnum_less c' c then Some (why, c, v) else best) ref cs))"

definition candidates :: "'st guard_env \<Rightarrow> 'st tool_guard \<Rightarrow> guarded_tool \<Rightarrow> jstr \<Rightarrow> call_input \<Rightarrow> int
    \<Rightarrow> (decision + bool \<times> (token \<times> token list) list) option" where
  "candidates E G tool scope kvs now =
    (case text_member kvs GRANT_FIELD of
       Some bearer \<Rightarrow> map_option (map_sum id (\<lambda>c. (True, [c]))) (verifyBearer E G bearer scope (toolMethod tool) now)
     | None \<Rightarrow> Some (Inr (False, map (\<lambda>(k, t). (t, [t])) (tg_grants G))))"

text \<open>Everything before the first side effect: a decision, or the authorizing token.\<close>

definition authorize :: "'st guard_env \<Rightarrow> 'st tool_guard \<Rightarrow> guarded_tool \<Rightarrow> jstr \<Rightarrow> call_input \<Rightarrow> int \<Rightarrow> (decision + token) option" where
  "authorize E G tool scope kvs now =
    (case candidates E G tool scope kvs now of
       None \<Rightarrow> None
     | Some (Inl d) \<Rightarrow> Some (Inl d)
     | Some (Inr (pre, cs)) \<Rightarrow>
         if cs = [] then Some (Inl (RefuseCall NoActiveGrant (js ''no grant covers '' @ scope)))
         else (case select_grant E G tool scope kvs now pre None None cs of
           None \<Rightarrow> None
         | Some (Inr t) \<Rightarrow> Some (Inr t)
         | Some (Inl (Some (why, c, v), ref)) \<Rightarrow> Some (Inl (limitRefusal tool why c v))
         | Some (Inl (None, Some d)) \<Rightarrow> Some (Inl d)
         | Some (Inl (None, None)) \<Rightarrow>
             Some (Inl (RefuseCall ScopeUncovered (js ''no active grant covers '' @ scope @ js '' ('' @ method_text (toolMethod tool) @ js '')'')))))"

definition nonce_key :: "token \<Rightarrow> guarded_tool \<Rightarrow> jstr \<Rightarrow> jstr" where
  "nonce_key t tool n = tid t @ 58 # gt_name tool @ 58 # n"

text \<open>\<open>Math.max(0, token.expiresAt - now)\<close>; for a token without expiry it is NaN.\<close>

definition grant_retention :: "token \<Rightarrow> int \<Rightarrow> jnum" where
  "grant_retention t now = (case token.expiresAt t of None \<Rightarrow> NaN | Some e \<Rightarrow> Fin (max 0 (e - now)))"

text \<open>The inner \<open>None\<close> of the result means no objection.\<close>

definition checkReplay :: "'st guard_env \<Rightarrow> 'st tool_guard \<Rightarrow> guarded_tool \<Rightarrow> call_input \<Rightarrow> token \<Rightarrow> int \<Rightarrow> decision option option \<times> 'st tool_guard" where
  "checkReplay E G tool kvs t now =
    (case text_member kvs NONCE_FIELD of
       None \<Rightarrow> (Some None, G)
     | Some n \<Rightarrow>
         (let (st, r) = ge_check E (tg_replay G) (nonce_key t tool n) (grant_retention t now) now in
          (map_option (\<lambda>replay. if replay then Some (RefuseCall ReplayedCall (js ''nonce '' @ n @ js '' already used for '' @ gt_name tool)) else None) r,
           G\<lparr>tg_replay := st\<rparr>)))"

definition confirmed :: "'st guard_env \<Rightarrow> guarded_tool \<Rightarrow> call_input \<Rightarrow> bool option" where
  "confirmed E tool kvs =
    (if gt_confirm tool then (case ge_confirm E of None \<Rightarrow> Some False | Some ask \<Rightarrow> ask tool kvs) else Some True)"

definition decide :: "'st guard_env \<Rightarrow> 'st tool_guard \<Rightarrow> guarded_tool \<Rightarrow> call_input \<Rightarrow> int \<Rightarrow> decision option \<times> 'st tool_guard" where
  "decide E G tool kvs now =
    (case gt_scope tool of
       None \<Rightarrow> (Some (AllowCall None), G)
     | Some scope \<Rightarrow>
         if scope = [] then (Some (AllowCall None), G)
         else (case authorize E G tool scope kvs now of
           None \<Rightarrow> (None, G)
         | Some (Inl d) \<Rightarrow> (Some d, G)
         | Some (Inr t) \<Rightarrow>
             (case confirmed E tool kvs of
                None \<Rightarrow> (None, G)
              | Some False \<Rightarrow> (Some (RefuseCall ConfirmationDenied (gt_name tool @ js '' requires human confirmation'')), G)
              | Some True \<Rightarrow>
                  (case checkReplay E G tool kvs t now of
                     (None, G') \<Rightarrow> (None, G')
                   | (Some (Some d), G') \<Rightarrow> (Some d, G')
                   | (Some None, G') \<Rightarrow> (Some (AllowCall (Some (tid t))), G')))))"

section \<open>Operations\<close>

datatype 'v call_result = CallDone 'v jstr | CallRefused refusal jstr jstr

definition with_receipt :: "'st guard_env \<Rightarrow> 'st tool_guard \<Rightarrow> receipt_input \<Rightarrow> int \<Rightarrow> (jstr \<Rightarrow> 'v call_result) \<Rightarrow> 'v call_result option \<times> 'st tool_guard" where
  "with_receipt E G i now answer =
    (case receipt_append (ge_crypto E) (tg_privateKey G) (tg_receipts G) i now of
       None \<Rightarrow> (None, G)
     | Some (r, l) \<Rightarrow> (Some (answer (rc_id r)), G\<lparr>tg_receipts := l\<rparr>))"

text \<open>The wrapper that stands in for the handler of a registered tool; \<open>handler\<close> may throw.\<close>

definition execute :: "'st guard_env \<Rightarrow> (guarded_tool \<Rightarrow> call_input \<Rightarrow> 'v option) \<Rightarrow> 'st tool_guard \<Rightarrow> guarded_tool \<Rightarrow> call_input \<Rightarrow> int
    \<Rightarrow> 'v call_result option \<times> 'st tool_guard" where
  "execute E handler G tool kvs now =
    (case decide E G tool kvs now of
       (None, G') \<Rightarrow> (None, G')
     | (Some d, G') \<Rightarrow>
         (let i = \<lparr>ri_tool = gt_name tool, ri_scope = published_scope tool, ri_method = toolMethod tool, ri_allowed = True,
                   ri_reason = None, ri_detail = None, ri_grantId = None,
                   ri_inputHash = sha256Hex (ge_crypto E) (canonicalJson (JObj (stripReserved kvs)))\<rparr> in
          case d of
            RefuseCall why detail \<Rightarrow>
              with_receipt E G' (i\<lparr>ri_allowed := False, ri_reason := Some why, ri_detail := Some detail\<rparr>) now (CallRefused why detail)
          | AllowCall g \<Rightarrow>
              (case handler tool (stripReserved kvs) of
                 None \<Rightarrow> (None, G')
               | Some v \<Rightarrow> with_receipt E G' (i\<lparr>ri_grantId := g\<rparr>) now (CallDone v))))"

definition invoke :: "'st guard_env \<Rightarrow> (guarded_tool \<Rightarrow> call_input \<Rightarrow> 'v option) \<Rightarrow> 'st tool_guard \<Rightarrow> jstr \<Rightarrow> call_input \<Rightarrow> int
    \<Rightarrow> 'v call_result option \<times> 'st tool_guard" where
  "invoke E handler G name kvs now =
    (case mget (tg_tools G) name of
       Some tool \<Rightarrow> execute E handler G tool kvs now
     | None \<Rightarrow>
         (let detail = js ''no tool registered as '' @ name in
          with_receipt E G
            \<lparr>ri_tool = name, ri_scope = js ''unknown'', ri_method = WRITE, ri_allowed = False, ri_reason = Some UnknownTool,
             ri_detail = Some detail, ri_grantId = None, ri_inputHash = sha256Hex (ge_crypto E) (js ''{}'')\<rparr>
            now (CallRefused UnknownTool detail)))"

text \<open>\<open>None\<close>: the scope lies in the reserved namespace, the call throws.\<close>

definition registerTool :: "'st tool_guard \<Rightarrow> guarded_tool \<Rightarrow> 'st tool_guard option" where
  "registerTool G tool =
    (if (case gt_scope tool of None \<Rightarrow> False | Some s \<Rightarrow> startsWith s CAPS_PREFIX) then None
     else Some (G\<lparr>tg_tools := mset_key (tg_tools G) (gt_name tool) tool\<rparr>))"

record grant_request =
  gr_subject :: jstr
  gr_scopes :: "jstr list"
  gr_ttlMs :: int
  gr_caps :: "(jstr \<times> jnum) list"
  gr_maxDelegations :: "int option"

definition plain_scope :: "jstr \<Rightarrow> scope" where
  "plain_scope g = \<lparr>pathGlob = g, methods = None, scopeMaxDelegations = None\<rparr>"

definition grant_scopes :: "grant_request \<Rightarrow> scope list" where
  "grant_scopes q = map plain_scope (gr_scopes q)
    @ map (\<lambda>(f, mx). plain_scope (CAPS_PREFIX @ f @ 47 # show_num mx)) (gr_caps q)"

definition guard_grant :: "'st guard_env \<Rightarrow> 'st tool_guard \<Rightarrow> grant_request \<Rightarrow> int \<Rightarrow> bytes \<Rightarrow> token option \<times> 'st tool_guard" where
  "guard_grant E G q now rnd6 =
    (case issueCapabilityToken (ge_crypto E)
        \<lparr>issuerPrivateKey = tg_privateKey G, issuerId = tg_origin G, iss_subject = gr_subject q, iss_scopes = grant_scopes q,
         iss_ttlMs = gr_ttlMs q, iss_maxDelegations = Some (case gr_maxDelegations q of None \<Rightarrow> 0 | Some n \<Rightarrow> n),
         iss_keyId = Some (tg_keyId G)\<rparr> now rnd6 of
       None \<Rightarrow> (None, G)
     | Some t \<Rightarrow> (Some t, G\<lparr>tg_grants := mset_key (tg_grants G) (tid t) t\<rparr>))"

definition guard_revoke :: "'st tool_guard \<Rightarrow> jstr \<Rightarrow> 'st tool_guard" where
  "guard_revoke G i = G\<lparr>tg_revoked := (if i \<in> set (tg_revoked G) then tg_revoked G else tg_revoked G @ [i])\<rparr>"

definition activeGrants :: "'st tool_guard \<Rightarrow> int \<Rightarrow> token list" where
  "activeGrants G now = filter (\<lambda>t. tid t \<notin> set (tg_revoked G) \<and> (case token.expiresAt t of None \<Rightarrow> False | Some e \<Rightarrow> now < e)) (map snd (tg_grants G))"

definition registeredTools :: "'st tool_guard \<Rightarrow> guarded_tool list" where
  "registeredTools G = map snd (tg_tools G)"

definition guard_manifest :: "'st guard_env \<Rightarrow> 'st tool_guard \<Rightarrow> int \<Rightarrow> signed_manifest option" where
  "guard_manifest E G now =
    signManifest (ge_crypto E) (tg_origin G) (map (manifestEntry (ge_crypto E)) (registeredTools G)) (tg_privateKey G) (tg_keyId G) now"

text \<open>Everything that changes a guard, one call after the other.\<close>

datatype guard_op =
  RegisterOp guarded_tool | GrantOp grant_request bytes | RevokeOp jstr | InvokeOp jstr call_input

definition guard_step :: "'st guard_env \<Rightarrow> (guarded_tool \<Rightarrow> call_input \<Rightarrow> 'v option) \<Rightarrow> 'st tool_guard \<Rightarrow> guard_op \<Rightarrow> int \<Rightarrow> 'st tool_guard" where
  "guard_step E handler G op now =
    (case op of
       RegisterOp tool \<Rightarrow> (case registerTool G tool of None \<Rightarrow> G | Some G' \<Rightarrow> G')
     | GrantOp q rnd6 \<Rightarrow> snd (guard_grant E G q now rnd6)
     | RevokeOp i \<Rightarrow> guard_revoke G i
     | InvokeOp name kvs \<Rightarrow> snd (invoke E handler G name kvs now))"

fun guard_run :: "'st guard_env \<Rightarrow> (guarded_tool \<Rightarrow> call_input \<Rightarrow> 'v option) \<Rightarrow> 'st tool_guard \<Rightarrow> (guard_op \<times> int) list \<Rightarrow> 'st tool_guard" where
  "guard_run E handler G [] = G"
| "guard_run E handler G ((op, now) # ops) = guard_run E handler (guard_step E handler G op now) ops"

end
