(* ===== verification/ToolGuardProps.thy ===== *)
theory ToolGuardProps
  imports ToolGuard
begin

text \<open>
  What the tool guard promises: an allowed call has a verified, live grant that covers it and
  stays within every ceiling; any covering grant suffices; a nonce is spent once per grant and
  only by an allowed call; every call that returns has left one receipt, and the receipts
  verify. Then the places where it promises less than its documentation.
\<close>

section \<open>Ceilings along a chain\<close>

lemma mget_merge_caps:
  "wf_map new \<Longrightarrow> mget (merge_caps caps new) f =
    (case mget new f of None \<Rightarrow> mget caps f | Some v \<Rightarrow> Some (case plain_get caps f of None \<Rightarrow> v | Some c \<Rightarrow> js_min c v))"
proof (induction new arbitrary: caps)
  case (Cons kv new)
  obtain k v where kv: "kv = (k, v)" by (cases kv)
  let ?m = "mset_key caps k (case plain_get caps k of None \<Rightarrow> v | Some c \<Rightarrow> js_min c v)"
  have wf: "wf_map new" "mget new k = None" using Cons.prems by (auto simp: kv wf_map_def mget_None_iff)
  have "merge_caps caps (kv # new) = merge_caps ?m new" by (simp add: merge_caps_def kv)
  then show ?case
    using Cons.IH [OF wf(1), of ?m] wf(2) by (cases "f = k"; cases "mget new f") (simp_all add: kv plain_get_def)
qed (simp add: merge_caps_def)

lemma parseCaps_foldl:
  assumes "wf_map m" "\<And>f c. mget m f = Some c \<Longrightarrow> is_finite c \<and> f \<noteq> [] \<and> 47 \<notin> set f"
  shows "wf_map (foldl (\<lambda>caps s. case scope_cap number s of None \<Rightarrow> caps | Some (f, v) \<Rightarrow> mset_key caps f v) m ss) \<and>
    (mget (foldl (\<lambda>caps s. case scope_cap number s of None \<Rightarrow> caps | Some (f, v) \<Rightarrow> mset_key caps f v) m ss) g = Some d
      \<longrightarrow> is_finite d \<and> g \<noteq> [] \<and> 47 \<notin> set g)"
  using assms
proof (induction ss arbitrary: m)
  case (Cons s ss)
  show ?case
  proof (cases "scope_cap number s")
    case (Some fv)
    obtain f v where fv: "fv = (f, v)" by (cases fv)
    obtain p raw more where sp: "split_on 47 (pathGlob s) = p # f # raw # more" "f \<noteq> []" "is_finite v"
      using Some by (auto simp: scope_cap_def fv split: if_splits list.splits)
    have "47 \<notin> set f" using split_on_no_sep [of f 47 "pathGlob s"] sp(1) by simp
    with sp Cons.prems have "wf_map (mset_key m f v)" "mget (mset_key m f v) h = Some c \<Longrightarrow> is_finite c \<and> h \<noteq> [] \<and> 47 \<notin> set h" for h c
      by (auto intro: wf_mset_key split: if_splits)
    from Cons.IH [OF this] show ?thesis by (simp add: Some fv)
  next
    case None
    then show ?thesis using Cons.IH [OF Cons.prems] by simp
  qed
qed simp

lemma parseCaps_ok: "wf_map (parseCaps number t)" "mget (parseCaps number t) f = Some c \<Longrightarrow> is_finite c \<and> f \<noteq> [] \<and> 47 \<notin> set f"
  using parseCaps_foldl [of "[]" number "token.scopes t" f c] by (simp_all add: parseCaps_def)

lemma effective_snoc: "effectiveCaps number (ts @ [t]) = merge_caps (effectiveCaps number ts) (parseCaps number t)"
  by (simp add: effectiveCaps_def)

lemma effective_finite:
  assumes "f \<notin> set inherited_names"
  shows "mget (effectiveCaps number chain) f = Some c \<Longrightarrow> is_finite c"
proof (induction chain arbitrary: c rule: rev_induct)
  case (snoc t ts)
  from snoc.prems show ?case
    using snoc.IH parseCaps_ok(2) [of number t f] assms
    by (auto simp: effective_snoc mget_merge_caps [OF parseCaps_ok(1)] plain_get_def js_min_def min_def split: option.splits if_splits)
qed (simp add: effectiveCaps_def)

text \<open>No token of the chain, wherever it stands, can raise a ceiling.\<close>

lemma effective_le:
  assumes "f \<notin> set inherited_names" "t \<in> set chain" "mget (parseCaps number t) f = Some c"
  shows "\<exists>e. mget (effectiveCaps number chain) f = Some e \<and> e \<le> c"
  using assms(2)
proof (induction chain rule: rev_induct)
  case (snoc u ts)
  show ?case
  proof (cases "t \<in> set ts")
    case True
    then obtain e where e: "mget (effectiveCaps number ts) f = Some e" "e \<le> c" using snoc.IH by blast
    with effective_finite [OF assms(1) e(1)] show ?thesis
      using parseCaps_ok(2) [of number u f]
      by (cases "mget (parseCaps number u) f")
        (auto simp: effective_snoc mget_merge_caps [OF parseCaps_ok(1)] plain_get_def js_min_def min_le_iff_disj)
  next
    case False
    with snoc.prems have "u = t" by simp
    then show ?thesis
      using assms(1,3) effective_finite [OF assms(1), of number ts] parseCaps_ok(2) [OF assms(3)]
      by (cases "mget (effectiveCaps number ts) f")
        (auto simp: effective_snoc mget_merge_caps [OF parseCaps_ok(1)] plain_get_def js_min_def)
  qed
qed simp

definition within_ceilings :: "(jstr \<Rightarrow> jnum) \<Rightarrow> guarded_tool \<Rightarrow> call_input \<Rightarrow> token list \<Rightarrow> bool" where
  "within_ceilings number tool kvs chain \<longleftrightarrow>
    (\<forall>f mx. gt_limit tool = Some (f, mx) \<and> mx \<noteq> NaN \<and> f \<notin> set inherited_names \<longrightarrow>
      (\<exists>n. input_number number kvs f = Some (Some (Fin n)) \<and> jnum_le (Fin n) mx \<and>
        (\<forall>t \<in> set chain. \<forall>c. mget (parseCaps number t) f = Some c \<longrightarrow> jnum_le (Fin n) c)))"

lemma evaluateLimit_within:
  assumes "evaluateLimit number tool kvs (effectiveCaps number chain) = Some WithinLimit"
  shows "within_ceilings number tool kvs chain"
  unfolding within_ceilings_def
proof (intro allI impI, elim conjE)
  fix f mx
  assume l: "gt_limit tool = Some (f, mx)" and mx: "mx \<noteq> NaN" and f: "f \<notin> set inherited_names"
  define cap where "cap = (case plain_get (effectiveCaps number chain) f of None \<Rightarrow> PosInf | Some c \<Rightarrow> c)"
  have cap: "cap \<noteq> NaN" using effective_finite [OF f, of number chain]
    by (auto simp: cap_def plain_get_def f split: option.splits)
  obtain v where v: "input_number number kvs f = Some (Some v)" "is_finite v" "\<not> jnum_less (js_min mx cap) v"
    using assms l by (auto simp: evaluateLimit_def Let_def cap_def split: option.splits if_splits)
  then obtain n where n: "v = Fin n" by (auto simp: is_finite_iff)
  have le: "Fin n \<le> min mx cap"
    using v(3) mx cap n by (simp add: js_min_def jnum_less_iff min_def split: if_splits)
  have "jnum_le (Fin n) c" if t: "t \<in> set chain" "mget (parseCaps number t) f = Some c" for t c
  proof -
    obtain e where "mget (effectiveCaps number chain) f = Some e" "e \<le> c" using effective_le [OF f t] by blast
    then have "Fin n \<le> c" using le by (auto simp: cap_def plain_get_def)
    then show ?thesis using parseCaps_ok(2) [OF t(2)] by (auto simp: jnum_le_iff is_finite_iff)
  qed
  moreover have "jnum_le (Fin n) mx" using le mx by (simp add: jnum_le_iff)
  ultimately show "\<exists>n. input_number number kvs f = Some (Some (Fin n)) \<and> jnum_le (Fin n) mx \<and>
        (\<forall>t \<in> set chain. \<forall>c. mget (parseCaps number t) f = Some c \<longrightarrow> jnum_le (Fin n) c)"
    using v(1) n by blast
qed

section \<open>The choice of a grant\<close>

definition grant_fits :: "'st guard_env \<Rightarrow> 'st tool_guard \<Rightarrow> guarded_tool \<Rightarrow> jstr \<Rightarrow> call_input \<Rightarrow> int \<Rightarrow> bool \<Rightarrow> token \<times> token list \<Rightarrow> bool" where
  "grant_fits E G tool scope kvs now pre c \<longleftrightarrow> (case c of (t, chain) \<Rightarrow>
    tid t \<notin> set (tg_revoked G) \<and> \<not> lapsed (token.expiresAt t) now \<and>
    (pre \<or> verifyCapabilityToken (ge_crypto E) t (tg_publicKey G) now = Some True) \<and>
    tokenMatchesScope t scope (Some (method_text (toolMethod tool))) \<and>
    evaluateLimit (ge_number E) tool kvs (effectiveCaps (ge_number E) chain) = Some WithinLimit)"

lemma select_step:
  assumes "r = select_grant E G tool scope kvs now pre best ref ((t, chain) # cs)"
  shows "if grant_fits E G tool scope kvs now pre (t, chain) then r = Some (Inr t)
    else r = None \<or> (\<exists>best' ref'. r = select_grant E G tool scope kvs now pre best' ref' cs \<and> (ref' = ref \<or> (\<exists>why m. ref' = noted ref (RefuseCall why m))))"
proof (cases "tid t \<in> set (tg_revoked G) \<or> lapsed (token.expiresAt t) now")
  case True
  then show ?thesis unfolding assms by (auto simp: grant_fits_def)
next
  case live: False
  let ?v = "if pre then Some True else verifyCapabilityToken (ge_crypto E) t (tg_publicKey G) now"
  let ?m = "tokenMatchesScope t scope (Some (method_text (toolMethod tool)))"
  let ?l = "evaluateLimit (ge_number E) tool kvs (effectiveCaps (ge_number E) chain)"
  have fits: "grant_fits E G tool scope kvs now pre (t, chain) \<longleftrightarrow> ?v = Some True \<and> ?m \<and> ?l = Some WithinLimit"
    using live by (auto simp: grant_fits_def)
  show ?thesis
  proof (cases "?v = Some True \<and> ?m")
    case True
    then show ?thesis unfolding fits assms using live by (auto split: option.splits limit_outcome.splits)
  next
    case False
    then show ?thesis unfolding fits assms using live by (cases ?v) (auto split: bool.splits)
  qed
qed

lemma select_grant_sound:
  "select_grant E G tool scope kvs now pre best ref cs = Some (Inr t) \<Longrightarrow>
    \<exists>chain. (t, chain) \<in> set cs \<and> grant_fits E G tool scope kvs now pre (t, chain)"
proof (induction cs arbitrary: best ref)
  case (Cons c cs)
  obtain u chain where c: "c = (u, chain)" by (cases c)
  show ?case
  proof (cases "grant_fits E G tool scope kvs now pre (u, chain)")
    case True
    with select_step [OF refl, of E G tool scope kvs now pre u chain best ref cs] Cons.prems show ?thesis by (auto simp only: c split: if_splits) auto
  next
    case False
    with select_step [OF refl, of E G tool scope kvs now pre u chain best ref cs] Cons.prems
    obtain best' ref' where "select_grant E G tool scope kvs now pre best' ref' cs = Some (Inr t)"
      unfolding c by (metis option.distinct(1))
    from Cons.IH [OF this] show ?thesis by auto
  qed
qed simp

lemma select_grant_complete:
  "c \<in> set cs \<Longrightarrow> grant_fits E G tool scope kvs now pre c \<Longrightarrow> select_grant E G tool scope kvs now pre best ref cs = Some r \<Longrightarrow> \<exists>t. r = Inr t"
proof (induction cs arbitrary: best ref)
  case (Cons d cs)
  obtain u chain where d: "d = (u, chain)" by (cases d)
  show ?case
  proof (cases "grant_fits E G tool scope kvs now pre (u, chain)")
    case True
    with select_step [OF refl, of E G tool scope kvs now pre u chain best ref cs] Cons.prems(3) show ?thesis unfolding d by (metis option.inject)
  next
    case False
    with select_step [OF refl, of E G tool scope kvs now pre u chain best ref cs] Cons.prems(3)
    obtain best' ref' where "select_grant E G tool scope kvs now pre best' ref' cs = Some r"
      unfolding d by (metis option.distinct(1))
    from Cons.IH [OF _ Cons.prems(2) this] False Cons.prems(1,2) d show ?thesis by auto
  qed
qed simp

definition is_refusal :: "decision \<Rightarrow> bool" where
  "is_refusal d \<longleftrightarrow> (case d of RefuseCall why m \<Rightarrow> why \<noteq> ReplayedCall | AllowCall g \<Rightarrow> False)"

lemma select_grant_refusal:
  "select_grant E G tool scope kvs now pre best ref cs = Some (Inl (b, Some d)) \<Longrightarrow> (\<forall>x. ref = Some x \<longrightarrow> is_refusal x) \<Longrightarrow> is_refusal d"
  by (induction E G tool scope kvs now pre best ref cs rule: select_grant.induct)
    (auto simp: is_refusal_def noted_def split: if_splits option.splits bool.splits limit_outcome.splits)

text \<open>Where the authority of a call comes from: a grant the guard holds, or a bearer chain that verifies.\<close>

definition authority :: "'st guard_env \<Rightarrow> 'st tool_guard \<Rightarrow> guarded_tool \<Rightarrow> jstr \<Rightarrow> call_input \<Rightarrow> int \<Rightarrow> token \<Rightarrow> token list \<Rightarrow> bool" where
  "authority E G tool scope kvs now t chain \<longleftrightarrow>
    (case text_member kvs GRANT_FIELD of
       None \<Rightarrow> chain = [t] \<and> t \<in> snd ` set (tg_grants G) \<and> verifyCapabilityToken (ge_crypto E) t (tg_publicKey G) now = Some True
     | Some b \<Rightarrow> ge_chain E b = Some chain \<and>
         verifyCapabilityChain (ge_crypto E) chain (guard_key G) (Some scope) (Some (method_text (toolMethod tool))) now = Some (Inr t))
    \<and> tid t \<notin> set (tg_revoked G) \<and> \<not> lapsed (token.expiresAt t) now \<and> tokenMatchesScope t scope (Some (method_text (toolMethod tool)))
    \<and> within_ceilings (ge_number E) tool kvs chain"

lemma authorize_sound:
  assumes "authorize E G tool scope kvs now = Some (Inr t)"
  shows "\<exists>chain. authority E G tool scope kvs now t chain"
proof -
  obtain pre cs where c: "candidates E G tool scope kvs now = Some (Inr (pre, cs))"
      "select_grant E G tool scope kvs now pre None None cs = Some (Inr t)"
    using assms by (auto simp: authorize_def split: option.splits sum.splits if_splits)
  obtain chain where f: "(t, chain) \<in> set cs" "grant_fits E G tool scope kvs now pre (t, chain)"
    using select_grant_sound [OF c(2)] by blast
  have w: "within_ceilings (ge_number E) tool kvs chain" using f(2) by (auto simp: grant_fits_def intro: evaluateLimit_within)
  show ?thesis
  proof (cases "text_member kvs GRANT_FIELD")
    case None
    with c(1) f w show ?thesis by (force simp: candidates_def authority_def grant_fits_def)
  next
    case (Some b)
    with c(1) obtain v where v: "verifyBearer E G b scope (toolMethod tool) now = Some v" "map_sum id (\<lambda>c. (True, [c])) v = Inr (pre, cs)"
      by (auto simp: candidates_def)
    then obtain r where r: "verifyBearer E G b scope (toolMethod tool) now = Some (Inr r)" "pre" "cs = [r]"
      by (cases v) auto
    with f(1) have "verifyBearer E G b scope (toolMethod tool) now = Some (Inr (t, chain))" by simp
    then have "ge_chain E b = Some chain"
      "verifyCapabilityChain (ge_crypto E) chain (guard_key G) (Some scope) (Some (method_text (toolMethod tool))) now = Some (Inr t)"
      by (auto simp: verifyBearer_def Let_def split: option.splits sum.splits if_splits)
    with Some f(2) w show ?thesis by (auto simp: authority_def grant_fits_def)
  qed
qed

lemma authorize_refuses:
  assumes "authorize E G tool scope kvs now = Some (Inl d)"
  shows "is_refusal d"
proof -
  obtain c where c: "candidates E G tool scope kvs now = Some c" using assms by (auto simp: authorize_def split: option.splits)
  show ?thesis
  proof (cases c)
    case (Inl x)
    with c assms have "candidates E G tool scope kvs now = Some (Inl d)" by (simp add: authorize_def)
    then obtain b v where b: "verifyBearer E G b scope (toolMethod tool) now = Some v" "map_sum id (\<lambda>c. (True, [c])) v = Inl d"
      by (auto simp: candidates_def split: option.splits)
    then have "verifyBearer E G b scope (toolMethod tool) now = Some (Inl d)" by (cases v) auto
    then show ?thesis by (auto simp: verifyBearer_def is_refusal_def Let_def split: option.splits sum.splits if_splits)
  next
    case (Inr x)
    obtain pre cs where x: "x = (pre, cs)" by (cases x)
    show ?thesis
    proof (cases "cs = []")
      case True
      with assms c Inr x show ?thesis by (auto simp: authorize_def is_refusal_def)
    next
      case False
      then obtain best ref where "select_grant E G tool scope kvs now pre None None cs = Some (Inl (best, ref))"
          "(case best of Some (why, c, v) \<Rightarrow> d = limitRefusal tool why c v | None \<Rightarrow> case ref of Some d' \<Rightarrow> d = d' | None \<Rightarrow> is_refusal d)"
        using assms c Inr x by (auto simp: authorize_def is_refusal_def split: option.splits sum.splits)
      then show ?thesis
        using select_grant_refusal [of E G tool scope kvs now pre None None cs None]
        by (auto simp: limitRefusal_def Let_def is_refusal_def split: option.splits)
    qed
  qed
qed

lemma decide_fst:
  "fst (decide E G tool kvs now) =
    (case gt_scope tool of
       None \<Rightarrow> Some (AllowCall None)
     | Some scope \<Rightarrow>
         if scope = [] then Some (AllowCall None)
         else (case authorize E G tool scope kvs now of
           None \<Rightarrow> None
         | Some (Inl d) \<Rightarrow> Some d
         | Some (Inr t) \<Rightarrow>
             (case confirmed E tool kvs of
                None \<Rightarrow> None
              | Some False \<Rightarrow> Some (RefuseCall ConfirmationDenied (gt_name tool @ js '' requires human confirmation''))
              | Some True \<Rightarrow>
                  (case fst (checkReplay E G tool kvs t now) of
                     None \<Rightarrow> None
                   | Some (Some d) \<Rightarrow> Some d
                   | Some None \<Rightarrow> Some (AllowCall (Some (tid t)))))))"
  by (auto simp: decide_def split: option.splits sum.splits bool.splits prod.splits)

lemma decide_allowed:
  assumes "fst (decide E G tool kvs now) = Some (AllowCall g)" "gt_scope tool = Some scope" "scope \<noteq> []"
  obtains t where "authorize E G tool scope kvs now = Some (Inr t)" "g = Some (tid t)" "confirmed E tool kvs = Some True"
    "fst (checkReplay E G tool kvs t now) = Some None" "snd (decide E G tool kvs now) = snd (checkReplay E G tool kvs t now)"
proof -
  have r: "fst (checkReplay E G tool kvs t now) \<noteq> Some (Some (AllowCall g))" for t
    by (auto simp: checkReplay_def Let_def split: option.splits prod.splits if_splits)
  have "authorize E G tool scope kvs now \<noteq> Some (Inl (AllowCall g))"
    using authorize_refuses [of E G tool scope kvs now "AllowCall g"] by (auto simp: is_refusal_def)
  with assms obtain t where t: "authorize E G tool scope kvs now = Some (Inr t)"
    by (auto simp: decide_def split: option.splits sum.splits)
  with assms have "confirmed E tool kvs = Some True" by (auto simp: decide_def split: option.splits bool.splits)
  with t assms r [of t] that show thesis
    by (cases "checkReplay E G tool kvs t now") (auto simp: decide_def split: option.splits)
qed

lemma checkReplay_fields:
  "snd (checkReplay E G tool kvs t now) = G\<lparr>tg_replay := tg_replay (snd (checkReplay E G tool kvs t now))\<rparr>"
  by (auto simp: checkReplay_def Let_def split: option.splits prod.splits)

lemma decide_fields: "snd (decide E G tool kvs now) = G\<lparr>tg_replay := tg_replay (snd (decide E G tool kvs now))\<rparr>"
proof -
  have "\<exists>st. G = G\<lparr>tg_replay := st\<rparr>" by (rule exI [of _ "tg_replay G"]) simp
  moreover have "G' = G\<lparr>tg_replay := tg_replay G'\<rparr>" if "checkReplay E G tool kvs t now = (x, G')" for t x G'
    using checkReplay_fields [of E G tool kvs t now] that by simp
  ultimately show ?thesis
    by (auto simp: decide_def split: option.splits sum.splits bool.splits prod.splits)
qed

section \<open>What a guard keeps\<close>

text \<open>
  The receipts verify, every grant is kept under its own identifier and carries a signature of
  the guard's key, tools are kept under their names and outside the reserved namespace.
\<close>

definition guard_ok :: "'st guard_env \<Rightarrow> 'st tool_guard \<Rightarrow> bool" where
  "guard_ok E G \<longleftrightarrow> log_ok (ge_crypto E) (tg_publicKey G) (tg_receipts G) \<and> wf_map (tg_grants G) \<and> wf_map (tg_tools G) \<and>
    (\<forall>(i, t) \<in> set (tg_grants G). tid t = i \<and> token_signature_ok (ge_crypto E) t (tg_publicKey G) = Some True) \<and>
    (\<forall>(n, tool) \<in> set (tg_tools G). gt_name tool = n \<and> (\<forall>s. gt_scope tool = Some s \<longrightarrow> \<not> startsWith s CAPS_PREFIX))"

definition same_keys :: "'st tool_guard \<Rightarrow> 'st tool_guard \<Rightarrow> bool" where
  "same_keys G G' \<longleftrightarrow> tg_privateKey G' = tg_privateKey G \<and> tg_publicKey G' = tg_publicKey G \<and> tg_keyId G' = tg_keyId G \<and> tg_origin G' = tg_origin G"

lemma with_receipt_ok:
  assumes "guard_ok E G" "ed_pair (ge_crypto E) (tg_privateKey G) (tg_publicKey G)"
  shows "guard_ok E (snd (with_receipt E G i now answer)) \<and> same_keys G (snd (with_receipt E G i now answer))"
proof -
  obtain r l where "receipt_append (ge_crypto E) (tg_privateKey G) (tg_receipts G) i now = Some (r, l)"
      "log_ok (ge_crypto E) (tg_publicKey G) l"
    using receipt_append_ok [OF _ assms(2), of "tg_receipts G" i now] assms(1) by (auto simp: guard_ok_def)
  with assms(1) show ?thesis by (simp add: with_receipt_def guard_ok_def same_keys_def)
qed

lemma guard_ok_replay [simp]: "guard_ok E (G\<lparr>tg_replay := st\<rparr>) = guard_ok E G"
  by (simp add: guard_ok_def)

lemma execute_ok:
  assumes "guard_ok E G" "ed_pair (ge_crypto E) (tg_privateKey G) (tg_publicKey G)"
  shows "guard_ok E (snd (execute E handler G tool kvs now)) \<and> same_keys G (snd (execute E handler G tool kvs now))"
proof -
  obtain r G' where d: "decide E G tool kvs now = (r, G')" by (cases "decide E G tool kvs now")
  then have G': "G' = G\<lparr>tg_replay := tg_replay G'\<rparr>" using decide_fields [of E G tool kvs now] by simp
  have ok: "guard_ok E G'" using assms(1) G' guard_ok_replay by metis
  have k: "tg_privateKey G' = tg_privateKey G" "tg_publicKey G' = tg_publicKey G" "tg_keyId G' = tg_keyId G" "tg_origin G' = tg_origin G"
    by (subst G', simp)+
  have w: "guard_ok E (snd (with_receipt E G' i now answer)) \<and> same_keys G (snd (with_receipt E G' i now answer))" for i and answer :: "jstr \<Rightarrow> 'b call_result"
    using with_receipt_ok [OF ok, of i now answer] assms(2) by (simp add: k same_keys_def)
  show ?thesis
    using w ok k by (auto simp: execute_def d Let_def same_keys_def split: option.splits decision.splits)
qed

lemma invoke_ok:
  assumes "guard_ok E G" "ed_pair (ge_crypto E) (tg_privateKey G) (tg_publicKey G)"
  shows "guard_ok E (snd (invoke E handler G name kvs now)) \<and> same_keys G (snd (invoke E handler G name kvs now))"
  by (simp add: invoke_def Let_def execute_ok [OF assms] with_receipt_ok [OF assms] split: option.split)

lemma in_mset_keyD: "e \<in> set (mset_key m k v) \<Longrightarrow> e = (k, v) \<or> e \<in> set m"
  using set_mset_key [of m k v] by blast

lemma issue_signed:
  assumes "issueCapabilityToken C o' now rnd6 = Some t" "ed_pair C (issuerPrivateKey o') pub"
  shows "token_signature_ok C t pub = Some True"
  using signed_token_verifies [OF assms(2)] assms(1) by (auto simp: issueCapabilityToken_def)

lemma grant_ok:
  assumes "guard_ok E G" "ed_pair (ge_crypto E) (tg_privateKey G) (tg_publicKey G)"
  shows "guard_ok E (snd (guard_grant E G q now rnd6)) \<and> same_keys G (snd (guard_grant E G q now rnd6))"
proof (cases "fst (guard_grant E G q now rnd6)")
  case None
  with assms(1) show ?thesis by (simp add: guard_grant_def same_keys_def split: option.splits)
next
  case (Some t)
  then obtain o' where i: "issueCapabilityToken (ge_crypto E) o' now rnd6 = Some t" "issuerPrivateKey o' = tg_privateKey G"
    "snd (guard_grant E G q now rnd6) = G\<lparr>tg_grants := mset_key (tg_grants G) (tid t) t\<rparr>"
    by (auto simp: guard_grant_def split: option.splits)
  have "token_signature_ok (ge_crypto E) t (tg_publicKey G) = Some True" using issue_signed [OF i(1)] assms(2) i(2) by simp
  with assms(1) show ?thesis
    by (auto simp: i(3) guard_ok_def same_keys_def wf_mset_key dest!: in_mset_keyD)
qed

lemma register_ok:
  assumes "guard_ok E G" "registerTool G tool = Some G'"
  shows "guard_ok E G' \<and> same_keys G G'"
proof -
  have G': "G' = G\<lparr>tg_tools := mset_key (tg_tools G) (gt_name tool) tool\<rparr>" "\<forall>s. gt_scope tool = Some s \<longrightarrow> \<not> startsWith s CAPS_PREFIX"
    using assms(2) by (auto simp: registerTool_def split: if_splits option.splits)
  with assms(1) show ?thesis by (auto simp: guard_ok_def same_keys_def wf_mset_key dest!: in_mset_keyD)
qed

lemma guard_step_ok:
  assumes "guard_ok E G" "ed_pair (ge_crypto E) (tg_privateKey G) (tg_publicKey G)"
  shows "guard_ok E (guard_step E handler G op now) \<and> same_keys G (guard_step E handler G op now)"
proof (cases op)
  case (RegisterOp tool)
  with register_ok [OF assms(1)] assms(1) show ?thesis by (auto simp: guard_step_def same_keys_def split: option.split)
next
  case (RevokeOp i)
  with assms(1) show ?thesis by (simp add: guard_step_def guard_revoke_def guard_ok_def same_keys_def)
qed (simp_all add: guard_step_def grant_ok [OF assms] invoke_ok [OF assms])

lemma guard_run_ok:
  assumes "guard_ok E G" "ed_pair (ge_crypto E) (tg_privateKey G) (tg_publicKey G)"
  shows "guard_ok E (guard_run E handler G ops) \<and> same_keys G (guard_run E handler G ops)"
  using assms
proof (induction E handler G ops rule: guard_run.induct)
  case (2 E handler G op now ops)
  have s: "guard_ok E (guard_step E handler G op now)" "same_keys G (guard_step E handler G op now)"
    using guard_step_ok [OF "2.prems"] by auto
  with 2 show ?case by (simp add: same_keys_def)
qed (simp add: same_keys_def)

lemma new_guard_ok: "guard_ok E (new_guard origin priv pub kid peers st)"
  by (simp add: guard_ok_def new_guard_def Let_def)

section \<open>Nonces\<close>

context replay_checker
begin

lemma marks_append: "mark_run (mark_run st a) b = mark_run st (a @ b)"
  by (induction st a rule: mark_run.induct) auto

lemma checkReplay_marks:
  assumes "ge_check E = check"
  shows "\<exists>evs. tg_replay (snd (checkReplay E G tool kvs t now)) = mark_run (tg_replay G) evs \<and> (\<forall>(k, ttl, u) \<in> set evs. u = now)"
proof (cases "text_member kvs NONCE_FIELD")
  case None
  then show ?thesis by (intro exI [of _ "[]"]) (simp add: checkReplay_def)
next
  case (Some n)
  then show ?thesis
    by (intro exI [of _ "[(nonce_key t tool n, grant_retention t now, now)]"])
      (simp add: checkReplay_def assms mark_check Let_def case_prod_beta)
qed

lemma decide_marks:
  assumes "ge_check E = check"
  shows "\<exists>evs. tg_replay (snd (decide E G tool kvs now)) = mark_run (tg_replay G) evs \<and> (\<forall>(k, ttl, u) \<in> set evs. u = now)"
proof -
  have n: "\<exists>evs. tg_replay G = mark_run (tg_replay G) evs \<and> (\<forall>(k, ttl, u) \<in> set evs. u = now)" by (rule exI [of _ "[]"]) simp
  have c: "\<exists>evs. tg_replay G' = mark_run (tg_replay G) evs \<and> (\<forall>(k, ttl, u) \<in> set evs. u = now)"
    if "checkReplay E G tool kvs t now = (x, G')" for t x G'
    using checkReplay_marks [OF assms, of G tool kvs t now] that by simp
  show ?thesis using n c by (auto simp: decide_def split: option.splits sum.splits bool.splits prod.splits)
qed

lemma with_receipt_replay: "tg_replay (snd (with_receipt E G i now answer)) = tg_replay G"
  by (simp add: with_receipt_def split: option.split)

lemma execute_replay: "tg_replay (snd (execute E handler G tool kvs now)) = tg_replay (snd (decide E G tool kvs now))"
  by (auto simp: execute_def Let_def with_receipt_replay split: option.split decision.split prod.split)

lemma step_marks:
  assumes "ge_check E = check"
  shows "\<exists>evs. tg_replay (guard_step E handler G op now) = mark_run (tg_replay G) evs \<and> (\<forall>(k, ttl, u) \<in> set evs. u = now)"
proof -
  have n: "\<exists>evs. tg_replay G = mark_run (tg_replay G) evs \<and> (\<forall>(k, ttl, u) \<in> set evs. u = now)" by (rule exI [of _ "[]"]) simp
  show ?thesis
  proof (cases op)
    case (InvokeOp name kvs)
    then show ?thesis
      using n decide_marks [OF assms] by (simp add: guard_step_def invoke_def Let_def with_receipt_replay execute_replay split: option.split)
  qed (use n in \<open>auto simp: guard_step_def registerTool_def guard_grant_def guard_revoke_def split: option.split if_splits\<close>)
qed

lemma guard_run_marks:
  assumes "ge_check E = check"
  shows "\<forall>(op, u) \<in> set ops. u \<le> t \<Longrightarrow> \<exists>evs. tg_replay (guard_run E handler G ops) = mark_run (tg_replay G) evs \<and> (\<forall>(k, ttl, u) \<in> set evs. u \<le> t)"
proof (induction ops arbitrary: G)
  case Nil
  then show ?case by (intro exI [of _ "[]"]) simp
next
  case (Cons o' ops)
  obtain op u where o': "o' = (op, u)" by (cases o')
  obtain e1 where e1: "tg_replay (guard_step E handler G op u) = mark_run (tg_replay G) e1" "\<forall>(k, ttl, v) \<in> set e1. v = u"
    using step_marks [OF assms] by blast
  obtain e2 where e2: "tg_replay (guard_run E handler (guard_step E handler G op u) ops) = mark_run (tg_replay (guard_step E handler G op u)) e2"
      "\<forall>(k, ttl, v) \<in> set e2. v \<le> t"
    using Cons.IH Cons.prems by force
  have "tg_replay (guard_run E handler G (o' # ops)) = mark_run (tg_replay G) (e1 @ e2)" using e1(1) e2(1) by (simp add: o' marks_append)
  moreover have "\<forall>(k, ttl, v) \<in> set (e1 @ e2). v \<le> t" using e1(2) e2(2) Cons.prems o' by fastforce
  ultimately show ?case by blast
qed

lemma nonce_spent:
  assumes "ge_check E = check" "text_member kvs NONCE_FIELD = Some n" "fst (checkReplay E G tool kvs t now) = Some None"
  shows "snd (mark (tg_replay G) (nonce_key t tool n) (grant_retention t now) now)"
    and "tg_replay (snd (checkReplay E G tool kvs t now)) = fst (mark (tg_replay G) (nonce_key t tool n) (grant_retention t now) now)"
  using assms by (auto simp: checkReplay_def mark_check Let_def split: prod.splits option.splits if_splits)

lemma guard_single_use:
  assumes E: "ge_check E = check" "invar (tg_replay G)"
    and first: "authorize E G tool scope kvs now = Some (Inr t)" "fst (decide E G tool kvs now) = Some (AllowCall g)"
    and tools: "gt_scope tool = Some scope" "scope \<noteq> []" "gt_scope tool2 = Some scope2" "scope2 \<noteq> []" "gt_name tool2 = gt_name tool"
    and n: "text_member kvs NONCE_FIELD = Some n" "text_member kvs2 NONCE_FIELD = Some n"
    and times: "\<forall>(op, u) \<in> set ops. u \<le> now2" "token.expiresAt t = Some e" "now2 < e"
  shows "fst (decide E (guard_run E handler (snd (decide E G tool kvs now)) ops) tool2 kvs2 now2) \<noteq> Some (AllowCall g)"
proof
  let ?G1 = "snd (decide E G tool kvs now)" let ?G2 = "guard_run E handler ?G1 ops"
  let ?k = "nonce_key t tool n"
  assume second: "fst (decide E ?G2 tool2 kvs2 now2) = Some (AllowCall g)"
  from decide_allowed [OF first(2) tools(1,2)] first(1) have c: "fst (checkReplay E G tool kvs t now) = Some None"
    "?G1 = snd (checkReplay E G tool kvs t now)" "g = Some (tid t)" by (metis option.inject sum.inject(2))+
  have r: "grant_retention t now = Fin (max 0 (e - now))" by (simp add: grant_retention_def times(2))
  note m = nonce_spent [OF E(1) n(1) c(1), unfolded r]
  obtain t2 where t2: "g = Some (tid t2)" "fst (checkReplay E ?G2 tool2 kvs2 t2 now2) = Some None"
    using decide_allowed [OF second tools(3,4)] by metis
  have k: "nonce_key t2 tool2 n = ?k" using t2(1) c(3) tools(5) by (simp add: nonce_key_def)
  obtain evs where "tg_replay ?G2 = mark_run (tg_replay ?G1) evs" "\<forall>(k, ttl, u) \<in> set evs. u \<le> now2"
    using guard_run_marks [OF E(1) times(1)] by blast
  then show False
    using no_replay [OF E(2) m(1)] nonce_spent(1) [OF E(1) n(2) t2(2)] times(3) m(2) c(2) k by auto
qed

end

lemma with_receipt_fields:
  "with_receipt E H i now answer = (Some x, H') \<Longrightarrow>
    \<exists>r. x = answer (rc_id r) \<and> rl_entries (tg_receipts H') = rl_entries (tg_receipts H) @ [r] \<and> rc_input r = i"
  by (auto simp: with_receipt_def split: option.splits dest!: receipt_append_fields)

lemma with_receipt_some:
  assumes "log_ok (ge_crypto E) (tg_publicKey G) (tg_receipts G)" "ed_pair (ge_crypto E) (tg_privateKey G) (tg_publicKey G)"
  shows "\<exists>x G'. with_receipt E G i now answer = (Some x, G')"
  using receipt_append_ok [OF assms, of i now] by (auto simp: with_receipt_def)

section \<open>Properties\<close>

text \<open>C15 The guard lets a call on a scoped tool through only with authority: some token, not revoked and not past the expiry it states, held by the guard and signed with its key or the leaf of a bearer chain that verifies, covers the tool's scope and method; the human confirmed if the tool asks for it; and a nonce the call carries was fresh. When the tool limits a field, and neither is that limit NaN nor the field named like a member that every object inherits (in both cases nothing is limited: see \<open>prototype_field_unlimited\<close>), the field is a finite number within the tool's limit and within each ceiling that \<open>parseCaps\<close> reads for it from a token of the chain: of several in one token only the last, and none for a field with a slash in its name (\<open>slashed_cap_lost\<close>).\<close>

theorem guard_allows_sound:
  assumes "fst (decide E G tool kvs now) = Some (AllowCall g)" "gt_scope tool = Some scope" "scope \<noteq> []"
  shows "\<exists>t chain. g = Some (tid t) \<and> authority E G tool scope kvs now t chain \<and>
    (gt_confirm tool \<longrightarrow> (\<exists>ask. ge_confirm E = Some ask \<and> ask tool kvs = Some True)) \<and>
    (\<forall>n. text_member kvs NONCE_FIELD = Some n \<longrightarrow>
      snd (ge_check E (tg_replay G) (nonce_key t tool n) (grant_retention t now) now) = Some False)"
proof -
  obtain t where t: "authorize E G tool scope kvs now = Some (Inr t)" "g = Some (tid t)" "confirmed E tool kvs = Some True"
    "fst (checkReplay E G tool kvs t now) = Some None"
    using decide_allowed [OF assms] by metis
  obtain chain where "authority E G tool scope kvs now t chain" using authorize_sound [OF t(1)] by blast
  moreover have "gt_confirm tool \<longrightarrow> (\<exists>ask. ge_confirm E = Some ask \<and> ask tool kvs = Some True)"
    using t(3) by (auto simp: confirmed_def split: option.splits)
  moreover have "snd (ge_check E (tg_replay G) (nonce_key t tool n) (grant_retention t now) now) = Some False"
    if "text_member kvs NONCE_FIELD = Some n" for n
    using t(4) that by (auto simp: checkReplay_def Let_def split: prod.splits option.splits if_splits)
  ultimately show ?thesis using t(2) by blast
qed

text \<open>A covering grant cannot be vetoed: when a grant the guard holds fits the call (not revoked, unexpired, verified, covering scope and method, within the ceilings), a call without bearer chain is authorized, whatever other grants are held and in whatever order, unless evaluating one of them throws.\<close>

theorem covering_grant_suffices:
  assumes "text_member kvs GRANT_FIELD = None" "(i, t) \<in> set (tg_grants G)" "grant_fits E G tool scope kvs now False (t, [t])"
    and "authorize E G tool scope kvs now = Some r"
  shows "\<exists>u. r = Inr u"
proof -
  let ?cs = "map (\<lambda>(k, t). (t, [t])) (tg_grants G)"
  have c: "candidates E G tool scope kvs now = Some (Inr (False, ?cs))" using assms(1) by (simp add: candidates_def)
  have m: "(t, [t]) \<in> set ?cs" using assms(2) by force
  then have ne: "?cs \<noteq> []" by auto
  obtain s where s: "select_grant E G tool scope kvs now False None None ?cs = Some s"
    using assms(4) ne by (auto simp: authorize_def c split: option.splits)
  from select_grant_complete [OF m assms(3) s] obtain u where "s = Inr u" ..
  with assms(4) ne s show ?thesis by (auto simp: authorize_def c)
qed

text \<open>A nonce is spent once per grant: after an allowed call with a nonce, whatever the guard does until the granting token expires, no call on a tool of the same name with the same nonce is allowed under the same grant, with the in-memory replay store.\<close>

theorem guard_nonce_single_use:
  assumes "ge_check E = seen_check" "wf_map (tg_replay G)"
    and "authorize E G tool scope kvs now = Some (Inr t)" "fst (decide E G tool kvs now) = Some (AllowCall g)"
    and "gt_scope tool = Some scope" "scope \<noteq> []" "gt_scope tool2 = Some scope2" "scope2 \<noteq> []" "gt_name tool2 = gt_name tool"
    and "text_member kvs NONCE_FIELD = Some n" "text_member kvs2 NONCE_FIELD = Some n"
    and "\<forall>(op, u) \<in> set ops. u \<le> now2" "token.expiresAt t = Some e" "now2 < e"
  shows "fst (decide E (guard_run E handler (snd (decide E G tool kvs now)) ops) tool2 kvs2 now2) \<noteq> Some (AllowCall g)"
  by (rule seen_checker.guard_single_use [OF assms])

text \<open>A call that is refused for any other reason than a replay leaves the guard as it was: it spends no nonce.\<close>

theorem refused_call_keeps_nonce:
  assumes "fst (decide E G tool kvs now) = Some (RefuseCall why m)" "why \<noteq> ReplayedCall"
  shows "snd (decide E G tool kvs now) = G"
proof -
  have "fst (checkReplay E G tool kvs t now) \<noteq> Some (Some (RefuseCall why m))" for t
    using assms(2) by (auto simp: checkReplay_def Let_def split: option.splits prod.splits if_splits)
  then have "checkReplay E G tool kvs t now \<noteq> (Some (Some (RefuseCall why m)), G')" for t G' by (metis fst_conv)
  with assms show ?thesis by (auto simp: decide_def split: option.splits sum.splits bool.splits prod.splits)
qed

text \<open>C16 Every call that returns has left exactly one receipt: the receipt of an answered call is marked allowed, names the grant the decision named, and the answer is the handler's; the receipt of a refused call carries the reason and detail the agent is told, and the handler had no part in it.\<close>

theorem invoke_recorded:
  assumes "invoke E handler G name kvs now = (Some res, G')"
  shows "\<exists>r. rl_entries (tg_receipts G') = rl_entries (tg_receipts G) @ [r] \<and>
    (case res of
       CallDone v rid \<Rightarrow> rc_id r = rid \<and> ri_allowed (rc_input r) \<and>
         (\<exists>tool. mget (tg_tools G) name = Some tool \<and> fst (decide E G tool kvs now) = Some (AllowCall (ri_grantId (rc_input r))) \<and>
           handler tool (stripReserved kvs) = Some v)
     | CallRefused why detail rid \<Rightarrow> rc_id r = rid \<and> \<not> ri_allowed (rc_input r) \<and> ri_reason (rc_input r) = Some why \<and>
         ri_detail (rc_input r) = Some detail \<and> invoke E handler' G name kvs now = (Some res, G'))"
proof -
  note w = with_receipt_fields
  show ?thesis
  proof (cases "mget (tg_tools G) name")
    case None
    then have "with_receipt E G
            \<lparr>ri_tool = name, ri_scope = js ''unknown'', ri_method = WRITE, ri_allowed = False, ri_reason = Some UnknownTool,
             ri_detail = Some (js ''no tool registered as '' @ name), ri_grantId = None, ri_inputHash = sha256Hex (ge_crypto E) (js ''{}'')\<rparr>
            now (CallRefused UnknownTool (js ''no tool registered as '' @ name)) = (Some res, G')"
      using assms by (simp add: invoke_def Let_def)
    from w [OF this] None assms show ?thesis by (auto simp: invoke_def)
  next
    case (Some tool)
    obtain d G1 where d: "decide E G tool kvs now = (Some d, G1)"
      using assms Some by (cases "decide E G tool kvs now"; cases "fst (decide E G tool kvs now)") (auto simp: invoke_def execute_def)
    have rec: "rl_entries (tg_receipts G1) = rl_entries (tg_receipts G)"
      using decide_fields [of E G tool kvs now] d by (metis snd_conv tool_guard.ext_inject tool_guard.surjective tool_guard.update_convs(6))
    show ?thesis
    proof (cases d)
      case (RefuseCall why m)
      from assms Some d RefuseCall have e: "with_receipt E G1 \<lparr>ri_tool = gt_name tool, ri_scope = published_scope tool, ri_method = toolMethod tool,
          ri_allowed = False, ri_reason = Some why, ri_detail = Some m, ri_grantId = None,
          ri_inputHash = sha256Hex (ge_crypto E) (canonicalJson (JObj (stripReserved kvs)))\<rparr> now (CallRefused why m) = (Some res, G')"
        by (simp add: invoke_def execute_def Let_def)
      from w [OF e] rec Some d RefuseCall assms show ?thesis by (auto simp: invoke_def execute_def Let_def)
    next
      case (AllowCall g)
      then obtain v where v: "handler tool (stripReserved kvs) = Some v"
        using assms Some d by (auto simp: invoke_def execute_def Let_def split: option.splits)
      with assms Some d AllowCall have e: "with_receipt E G1 \<lparr>ri_tool = gt_name tool, ri_scope = published_scope tool, ri_method = toolMethod tool,
          ri_allowed = True, ri_reason = None, ri_detail = None, ri_grantId = g,
          ri_inputHash = sha256Hex (ge_crypto E) (canonicalJson (JObj (stripReserved kvs)))\<rparr> now (CallDone v) = (Some res, G')"
        by (simp add: invoke_def execute_def Let_def)
      from w [OF e] rec Some d AllowCall v show ?thesis by auto
    qed
  qed
qed

text \<open>C17 Whatever is registered, granted, revoked and called, one operation after the other, the receipts of a guard verify from genesis, every grant it holds carries its signature and no tool sits in the reserved namespace.\<close>

theorem guard_receipts_verify:
  assumes "ed_pair (ge_crypto E) priv pub"
  shows "verifyChain (ge_crypto E) (rl_entries (tg_receipts (guard_run E handler (new_guard origin priv pub kid peers st) ops))) pub = Some None \<and>
    guard_ok E (guard_run E handler (new_guard origin priv pub kid peers st) ops)"
proof -
  let ?G = "new_guard origin priv pub kid peers st"
  have k: "tg_privateKey ?G = priv" "tg_publicKey ?G = pub" by (simp_all add: new_guard_def Let_def)
  from guard_run_ok [OF new_guard_ok, of E origin priv pub kid peers st handler ops] assms k show ?thesis
    by (auto simp: guard_ok_def log_ok_def same_keys_def)
qed

section \<open>Where the guard promises less\<close>

lemma revoke_fields [simp]:
  "tg_origin (guard_revoke G i) = tg_origin G" "tg_keyId (guard_revoke G i) = tg_keyId G" "tg_publicKey (guard_revoke G i) = tg_publicKey G"
  "tg_peerKeys (guard_revoke G i) = tg_peerKeys G" "tg_replay (guard_revoke G i) = tg_replay G" "tg_grants (guard_revoke G i) = tg_grants G"
  "j \<in> set (tg_revoked (guard_revoke G i)) \<longleftrightarrow> j = i \<or> j \<in> set (tg_revoked G)"
  by (auto simp: guard_revoke_def)

lemma revoke_key: "guard_key (guard_revoke G i) = guard_key G" "inherited_key (guard_revoke G i) = inherited_key G"
  by (simp_all add: fun_eq_iff guard_key_def inherited_key_def split: chain_error.split)

text \<open>Revoking a grant does not reach what was delegated from it: for a call with a bearer chain, the decision is the same before and after any token of the chain other than the last is revoked.\<close>

theorem revocation_misses_delegations:
  assumes "text_member kvs GRANT_FIELD = Some b" "ge_chain E b = Some chain" "i \<noteq> tid (last chain)"
  shows "fst (decide E (guard_revoke G i) tool kvs now) = fst (decide E G tool kvs now)"
proof -
  have leaf: "t = last chain" if "verifyCapabilityChain C chain reg req mth now = Some (Inr t)" for C reg req mth now t
    using that by (simp add: verifyChain_iff)
  have v: "verifyBearer E (guard_revoke G i) b scope meth now = verifyBearer E G b scope meth now" for scope meth
    using assms(2,3) leaf by (fastforce simp: verifyBearer_def revoke_key Let_def split: option.split sum.split)
  have c: "candidates E (guard_revoke G i) tool scope kvs now = candidates E G tool scope kvs now" for scope
    using assms(1) by (simp add: candidates_def v)
  have l: "cs = [(last chain, chain)]" if "candidates E G tool scope kvs now = Some (Inr (pre, cs))" for scope pre cs
  proof -
    from that assms(1) obtain x where x: "verifyBearer E G b scope (toolMethod tool) now = Some x" "map_sum id (\<lambda>c. (True, [c])) x = Inr (pre, cs)"
      by (auto simp: candidates_def)
    then obtain t ch where t: "x = Inr (t, ch)" "cs = [(t, ch)]" by (cases x) auto
    with x(1) assms(2) leaf show ?thesis by (auto simp: verifyBearer_def Let_def split: option.splits sum.splits if_splits)
  qed
  have s: "select_grant E (guard_revoke G i) tool scope kvs now pre None None [(last chain, chain)]
      = select_grant E G tool scope kvs now pre None None [(last chain, chain)]" for scope pre
    using assms(3) by (simp split: option.split limit_outcome.split bool.split)
  have a: "authorize E (guard_revoke G i) tool scope kvs now = authorize E G tool scope kvs now" for scope
  proof (cases "candidates E G tool scope kvs now")
    case (Some x)
    show ?thesis
    proof (cases x)
      case (Inr y)
      obtain pre cs where y: "y = (pre, cs)" by (cases y)
      from l [of scope pre cs] Some Inr y have "cs = [(last chain, chain)]" by simp
      then show ?thesis unfolding authorize_def c Some Inr y by (simp only: s sum.case option.case prod.case)
    qed (simp add: authorize_def c Some)
  qed (simp add: authorize_def c)
  have r: "fst (checkReplay E (guard_revoke G i) tool kvs t now) = fst (checkReplay E G tool kvs t now)" for t
    by (simp add: checkReplay_def Let_def split: option.split prod.split)
  show ?thesis unfolding decide_fst a r ..
qed

text \<open>A ceiling on a field whose name is empty or contains a slash is signed into the grant and never enforced: no chain of tokens yields a ceiling for such a field.\<close>

theorem slashed_cap_lost:
  assumes "f = [] \<or> 47 \<in> set f" "f \<notin> set inherited_names"
  shows "mget (effectiveCaps number chain) f = None"
proof (induction chain rule: rev_induct)
  case (snoc t ts)
  have "mget (parseCaps number t) f = None" using parseCaps_ok(2) [of number t f] assms(1) by (cases "mget (parseCaps number t) f") auto
  with snoc show ?case by (simp add: effective_snoc mget_merge_caps [OF parseCaps_ok(1)])
qed (simp add: effectiveCaps_def)

text \<open>A tool that limits a field named like a member every object inherits has no limit at all: the ceiling becomes NaN, and every finite number passes.\<close>

theorem prototype_field_unlimited:
  assumes "gt_limit tool = Some (f, mx)" "f \<in> set inherited_names" "map_of kvs f = Some (JNum (Fin n))"
  shows "evaluateLimit number tool kvs [] = Some WithinLimit"
  using assms by (simp add: evaluateLimit_def Let_def input_number_def plain_get_def js_min_def)

text \<open>A call whose handler throws leaves no receipt, although the decision was made and the nonce spent: the log is unchanged, the replay store is the one after the decision.\<close>

theorem failed_handler_unrecorded:
  assumes "mget (tg_tools G) name = Some tool" "decide E G tool kvs now = (Some (AllowCall g), G1)" "handler tool (stripReserved kvs) = None"
  shows "invoke E handler G name kvs now = (None, G1) \<and> tg_receipts G1 = tg_receipts G"
proof -
  have "G1 = G\<lparr>tg_replay := tg_replay G1\<rparr>" using decide_fields [of E G tool kvs now] assms(2) by simp
  then have "tg_receipts G1 = tg_receipts G" by (metis tool_guard.ext_inject tool_guard.surjective tool_guard.update_convs(6))
  with assms show ?thesis by (simp add: invoke_def execute_def)
qed

text \<open>A nonce is bound to the grant that happened to be chosen: the same call with the same nonce is fresh again under any other grant, for instance once the first one has expired.\<close>

theorem nonce_fresh_under_other_grant:
  assumes "wf_map seen" "tid t \<noteq> tid u" "mget seen (nonce_key u tool n) = None"
  shows "snd (seen_check (fst (seen_check seen (nonce_key t tool n) ttl now)) (nonce_key u tool n) ttl2 now2) = Some False"
proof -
  have k: "nonce_key u tool n \<noteq> nonce_key t tool n" using assms(2) by (simp add: nonce_key_def)
  define s1 where "s1 = fst (seen_check seen (nonce_key t tool n) ttl now)"
  have "mget s1 (nonce_key u tool n) = None" "wf_map s1"
    using assms(1,3) k by (auto simp: s1_def seen_check_def Let_def seen_pruned wf_filter wf_mset_key)
  then have "snd (seen_check s1 (nonce_key u tool n) ttl2 now2) = Some False"
    by (simp add: seen_check_def Let_def mhas_def seen_pruned)
  then show ?thesis unfolding s1_def .
qed

section \<open>At a concrete guard\<close>

definition demo_pay :: guarded_tool where
  "demo_pay = \<lparr>gt_name = js ''pay'', gt_title = None, gt_description = js ''Pay'', gt_inputSchema = None, gt_annotations = None,
     gt_scope = Some (js ''/a/b''), gt_limit = Some (js ''amount'', Fin 100), gt_confirm = False\<rparr>"

definition demo_env :: "seen_nonces guard_env" where
  "demo_env = \<lparr>ge_crypto = demo_crypto, ge_number = (\<lambda>s. NaN), ge_chain = (\<lambda>s. Some [demo_root]), ge_check = seen_check, ge_confirm = None\<rparr>"

definition demo_guard :: "seen_nonces tool_guard" where
  "demo_guard = \<lparr>tg_origin = js ''o'', tg_privateKey = js ''k'', tg_publicKey = js ''k'', tg_keyId = js ''k'', tg_peerKeys = None, tg_replay = [],
     tg_tools = [(js ''pay'', demo_pay)], tg_grants = [(js ''t0'', demo_root)], tg_revoked = [], tg_receipts = new_receipt_log (js ''k'')\<rparr>"

definition demo_call :: call_input where
  "demo_call = [(js ''amount'', JNum (Fin 50)), (js ''__7h3_nonce'', JStr (js ''n''))]"

lemma demo_root_signed: "verifyCapabilityToken demo_crypto demo_root (js ''k'') 10 = Some True"
  using demo_root_ok by (auto simp: verifyChain_iff authentic_def verifyCapabilityToken_def)

lemma demo_root_covers: "tokenMatchesScope demo_root (js ''/a/b'') m" "parseCaps number demo_root = []" "tid demo_root = js ''t0''"
proof -
  obtain s where r: "demo_root = demo_token\<lparr>tsignature := s\<rparr>" using demo_root_fields ..
  show "tokenMatchesScope demo_root (js ''/a/b'') m"
    by (simp add: r demo_token_def tokenMatchesScope_def scope_grants_def matchGlob_def ascii_eval)
  show "parseCaps number demo_root = []" "tid demo_root = js ''t0''"
    by (simp_all add: r demo_token_def parseCaps_def scope_cap_def CAPS_PREFIX_def startsWith_def ascii_eval)
qed

lemma demo_fits: "grant_fits demo_env demo_guard demo_pay (js ''/a/b'') demo_call 10 False (demo_root, [demo_root])"
  by (simp add: grant_fits_def demo_env_def demo_guard_def demo_root_signed demo_root_covers demo_root_facts evaluateLimit_def Let_def
      demo_pay_def effectiveCaps_def merge_caps_def input_number_def demo_call_def plain_get_def inherited_names_def js_min_def min_def)

lemma demo_text: "text_member demo_call GRANT_FIELD = None" "text_member demo_call NONCE_FIELD = Some (js ''n'')"
  by (simp_all add: text_member_def demo_call_def GRANT_FIELD_def NONCE_FIELD_def ascii_eval)

lemma demo_authorize: "authorize demo_env demo_guard demo_pay (js ''/a/b'') demo_call 10 = Some (Inr demo_root)"
proof -
  have "candidates demo_env demo_guard demo_pay (js ''/a/b'') demo_call 10 = Some (Inr (False, [(demo_root, [demo_root])]))"
    by (simp add: candidates_def demo_text) (simp add: demo_guard_def)
  then show ?thesis
    using select_step [OF refl, of demo_env demo_guard demo_pay "js ''/a/b''" demo_call 10 False demo_root "[demo_root]" None None "[]"] demo_fits
    by (simp add: authorize_def del: select_grant.simps)
qed

lemma demo_decide: "fst (decide demo_env demo_guard demo_pay demo_call 10) = Some (AllowCall (Some (js ''t0'')))"
proof -
  have "gt_scope demo_pay = Some (js ''/a/b'')" "js ''/a/b'' \<noteq> []" by (simp_all add: demo_pay_def ascii_eval)
  moreover have "fst (checkReplay demo_env demo_guard demo_pay demo_call demo_root 10) = Some None"
    by (simp add: checkReplay_def demo_text Let_def demo_env_def demo_guard_def seen_check_def mhas_def)
  moreover have "confirmed demo_env demo_pay demo_call = Some True" by (simp add: confirmed_def demo_pay_def)
  ultimately show ?thesis by (simp add: decide_fst demo_authorize demo_root_covers)
qed

theorem guard_allows_sound_witness:
  "\<exists>t chain. tid t = js ''t0'' \<and> authority demo_env demo_guard demo_pay (js ''/a/b'') demo_call 10 t chain"
  using guard_allows_sound [OF demo_decide, of "js ''/a/b''"] by (auto simp: demo_pay_def ascii_eval)

theorem covering_grant_suffices_witness:
  "\<exists>u. authorize demo_env demo_guard demo_pay (js ''/a/b'') demo_call 10 = Some (Inr u)"
  using covering_grant_suffices [OF demo_text(1) _ demo_fits demo_authorize, of "js ''t0''"] demo_authorize by (auto simp: demo_guard_def)

theorem guard_nonce_single_use_witness:
  "fst (decide demo_env (snd (decide demo_env demo_guard demo_pay demo_call 10)) demo_pay demo_call 50) \<noteq> Some (AllowCall (Some (js ''t0'')))"
proof -
  have s: "gt_scope demo_pay = Some (js ''/a/b'')" "js ''/a/b'' \<noteq> []" by (simp_all add: demo_pay_def ascii_eval)
  have "ge_check demo_env = seen_check" "wf_map (tg_replay demo_guard)" by (simp_all add: demo_env_def demo_guard_def)
  from guard_nonce_single_use [OF this demo_authorize demo_decide s s refl demo_text(2) demo_text(2), of "[]" 50] show ?thesis
    by (simp add: demo_root_facts)
qed

theorem refused_call_keeps_nonce_witness:
  "snd (decide demo_env (new_guard (js ''o'') (js ''k'') (js ''k'') None None []) demo_pay demo_call 10) = new_guard (js ''o'') (js ''k'') (js ''k'') None None []"
proof -
  let ?G = "new_guard (js ''o'') (js ''k'') (js ''k'') None None [] :: seen_nonces tool_guard"
  have "tg_grants ?G = []" by (simp add: new_guard_def Let_def)
  then have "authorize demo_env ?G demo_pay (js ''/a/b'') demo_call 10 = Some (Inl (RefuseCall NoActiveGrant (js ''no grant covers '' @ js ''/a/b'')))"
    by (simp add: authorize_def candidates_def demo_text)
  moreover have "gt_scope demo_pay = Some (js ''/a/b'')" "js ''/a/b'' \<noteq> []" by (simp_all add: demo_pay_def ascii_eval)
  ultimately have "fst (decide demo_env ?G demo_pay demo_call 10) = Some (RefuseCall NoActiveGrant (js ''no grant covers '' @ js ''/a/b''))"
    unfolding decide_fst by simp
  from refused_call_keeps_nonce [OF this] show ?thesis by simp
qed

definition demo_handler :: "guarded_tool \<Rightarrow> call_input \<Rightarrow> nat option" where
  "demo_handler tool kvs = Some 7"

theorem invoke_recorded_witness:
  "\<exists>res r G. invoke demo_env demo_handler demo_guard (js ''x'') demo_call 10 = (Some res, G) \<and> rl_entries (tg_receipts G) = [r]"
proof -
  have l: "log_ok (ge_crypto demo_env) (tg_publicKey demo_guard) (tg_receipts demo_guard)"
    "ed_pair (ge_crypto demo_env) (tg_privateKey demo_guard) (tg_publicKey demo_guard)" by (simp_all add: demo_guard_def demo_env_def)
  have "mget (tg_tools demo_guard) (js ''x'') = None" by (simp add: demo_guard_def)
  then obtain i answer where "invoke demo_env demo_handler demo_guard (js ''x'') demo_call 10 = with_receipt demo_env demo_guard i 10 answer"
    by (simp only: invoke_def Let_def option.case)
  with with_receipt_some [OF l] obtain res G where g: "invoke demo_env demo_handler demo_guard (js ''x'') demo_call 10 = (Some res, G)"
    by metis
  have "rl_entries (tg_receipts demo_guard) = []" by (simp add: demo_guard_def new_receipt_log_def)
  with invoke_recorded [OF g] obtain r where "rl_entries (tg_receipts G) = [r]" by auto
  with g show ?thesis by blast
qed

theorem guard_receipts_verify_witness:
  "verifyChain demo_crypto (rl_entries (tg_receipts (guard_run demo_env demo_handler (new_guard (js ''o'') (js ''k'') (js ''k'') None None [])
     [(RegisterOp demo_pay, 1), (InvokeOp (js ''pay'') demo_call, 2)]))) (js ''k'') = Some None"
proof -
  have c: "ge_crypto demo_env = demo_crypto" by (simp add: demo_env_def)
  have p: "ed_pair (ge_crypto demo_env) (js ''k'') (js ''k'')" by (simp add: c)
  show ?thesis
    using guard_receipts_verify [OF p, of demo_handler "js ''o''" None None "[]" "[(RegisterOp demo_pay, 1), (InvokeOp (js ''pay'') demo_call, 2)]"]
    unfolding c by blast
qed

theorem revocation_misses_delegations_witness:
  "fst (decide demo_env (guard_revoke demo_guard (js ''r'')) demo_pay [(js ''__7h3_grant'', JStr (js ''c''))] 10)
    = fst (decide demo_env demo_guard demo_pay [(js ''__7h3_grant'', JStr (js ''c''))] 10)"
  by (rule revocation_misses_delegations [of _ "js ''c''" demo_env "[demo_root]"])
    (simp_all add: text_member_def GRANT_FIELD_def demo_env_def demo_root_covers ascii_eval)

theorem slashed_cap_lost_witness: "mget (effectiveCaps (\<lambda>s. Fin 5) [demo_root]) (js ''a/b'') = None"
  by (rule slashed_cap_lost) (simp_all add: ascii_eval inherited_names_def)

theorem prototype_field_unlimited_witness:
  "evaluateLimit (\<lambda>s. NaN) (demo_pay\<lparr>gt_limit := Some (js ''valueOf'', Fin 1)\<rparr>) [(js ''valueOf'', JNum (Fin 1000000))] [] = Some WithinLimit"
  by (rule prototype_field_unlimited [where f = "js ''valueOf''" and mx = "Fin 1"]) (simp_all add: inherited_names_def)

theorem failed_handler_unrecorded_witness:
  "fst (invoke demo_env (\<lambda>tool kvs. None :: nat option) demo_guard (js ''pay'') demo_call 10) = None"
proof -
  obtain G1 where d: "decide demo_env demo_guard demo_pay demo_call 10 = (Some (AllowCall (Some (js ''t0''))), G1)"
    using demo_decide by (metis prod.collapse)
  have t: "mget (tg_tools demo_guard) (js ''pay'') = Some demo_pay" by (simp add: demo_guard_def)
  from failed_handler_unrecorded [OF t d, of "\<lambda>tool kvs. None :: nat option"] show ?thesis by simp
qed

theorem nonce_fresh_under_other_grant_witness:
  "snd (seen_check (fst (seen_check [] (nonce_key demo_root demo_pay (js ''n'')) (Fin 10) 1)) (nonce_key (demo_root\<lparr>tid := js ''t1''\<rparr>) demo_pay (js ''n'')) (Fin 10) 2) = Some False"
  by (rule nonce_fresh_under_other_grant) (simp_all add: demo_root_covers)

end
