(* ===== verification/Webhook.thy ===== *)
theory Webhook
  imports HttpBinding Complex_Main
begin

text \<open>
  \<open>src/webhookBinding.ts\<close>: webhooks signed over \<open>timestamp.body\<close>, and the bounded cache of
  signatures that have been used. Timestamps are numbers of the language, here rationals:
  \<open>number\<close> reads one from a header text (\<open>None\<close> when the result is not finite) and \<open>shown\<close>
  prints one; both are parameters. An outcome \<open>None\<close> is a call that throws.
\<close>

definition WEBHOOK_DEFAULT_TTL_MS :: rat where
  "WEBHOOK_DEFAULT_TTL_MS = 300000"

section \<open>The cache of used signatures\<close>

record webhook_cache =
  wc_seen :: "(jstr, rat) jsmap"
  wc_max :: nat

definition wc_prune :: "webhook_cache \<Rightarrow> rat \<Rightarrow> webhook_cache" where
  "wc_prune c now = c\<lparr>wc_seen := filter (\<lambda>(k, e). \<not> e \<le> now) (wc_seen c)\<rparr>"

text \<open>The entries when there has to be room for one more: at capacity the oldest goes, live or not.\<close>

definition wc_room :: "webhook_cache \<Rightarrow> (jstr, rat) jsmap" where
  "wc_room c =
    (if wc_max c \<le> msize (wc_seen c)
     then (case mkeys (wc_seen c) of [] \<Rightarrow> wc_seen c | oldest # _ \<Rightarrow> mdelete (wc_seen c) oldest)
     else wc_seen c)"

definition wc_consume :: "webhook_cache \<Rightarrow> jstr \<Rightarrow> rat \<Rightarrow> rat \<Rightarrow> webhook_cache \<times> bool" where
  "wc_consume c0 key expiry now =
    (let c = wc_prune c0 now in
     if (case mget (wc_seen c) key of None \<Rightarrow> False | Some e \<Rightarrow> now < e) then (c, False)
     else (c\<lparr>wc_seen := mset_key (wc_room c) key expiry\<rparr>, True))"

section \<open>Signing and verifying\<close>

datatype webhook_payload = PayloadText jstr | PayloadBytes bytes

definition payload_text :: "webhook_payload \<Rightarrow> jstr" where
  "payload_text p = (case p of PayloadText s \<Rightarrow> s | PayloadBytes b \<Rightarrow> utf8Decode b)"

record clock_text =
  number :: "jstr \<Rightarrow> rat option"
  shown :: "rat \<Rightarrow> jstr"

definition webhookSigningPayload :: "clock_text \<Rightarrow> rat \<Rightarrow> jstr \<Rightarrow> jstr" where
  "webhookSigningPayload K ts bd = shown K ts @ 46 # bd"

record webhook_headers =
  wh_sig :: "jstr option"
  wh_ts :: "jstr option"

definition sign_webhook :: "(jstr \<Rightarrow> jstr \<Rightarrow> jstr option) \<Rightarrow> clock_text \<Rightarrow> webhook_payload \<Rightarrow> jstr \<Rightarrow> rat \<Rightarrow> webhook_headers option" where
  "sign_webhook sign K p key now =
    map_option (\<lambda>s. \<lparr>wh_sig = Some s, wh_ts = Some (shown K now)\<rparr>) (sign (webhookSigningPayload K now (payload_text p)) key)"

definition signWebhook :: "crypto \<Rightarrow> clock_text \<Rightarrow> webhook_payload \<Rightarrow> jstr \<Rightarrow> rat \<Rightarrow> webhook_headers option" where
  "signWebhook C = sign_webhook (signCanonicalPayloadEd25519 C)"

definition signWebhookHmac :: "crypto \<Rightarrow> clock_text \<Rightarrow> webhook_payload \<Rightarrow> jstr \<Rightarrow> rat \<Rightarrow> webhook_headers option" where
  "signWebhookHmac C = sign_webhook (signCanonicalPayloadHmac C)"

text \<open>A header that is there and not empty.\<close>

definition present :: "jstr option \<Rightarrow> jstr option" where
  "present v = (case v of Some s \<Rightarrow> if s = [] then None else Some s | None \<Rightarrow> None)"

text \<open>\<open>verify\<close> with key already applied; the cache is optional and of any kind.\<close>

definition verify_webhook :: "(jstr \<Rightarrow> jstr \<Rightarrow> bool option) \<Rightarrow> ('w \<Rightarrow> jstr \<Rightarrow> rat \<Rightarrow> rat \<Rightarrow> 'w \<times> bool) option \<Rightarrow> clock_text
    \<Rightarrow> 'w \<Rightarrow> webhook_payload \<Rightarrow> webhook_headers \<Rightarrow> rat option \<Rightarrow> rat \<Rightarrow> 'w \<times> bool option" where
  "verify_webhook ver cache K w p hs maxAge now =
    (case (present (wh_sig hs), present (wh_ts hs)) of
       (Some sg, Some tsStr) \<Rightarrow>
         (case number K tsStr of
            None \<Rightarrow> (w, Some False)
          | Some ts \<Rightarrow>
              let age = (case maxAge of None \<Rightarrow> WEBHOOK_DEFAULT_TTL_MS | Some a \<Rightarrow> a) in
              if age < now - ts then (w, Some False)
              else (case ver (webhookSigningPayload K ts (payload_text p)) sg of
                None \<Rightarrow> (w, None)
              | Some False \<Rightarrow> (w, Some False)
              | Some True \<Rightarrow>
                  (case cache of
                     None \<Rightarrow> (w, Some True)
                   | Some f \<Rightarrow> let (w', fresh) = f w sg (ts + age) now in (w', Some fresh))))
     | _ \<Rightarrow> (w, Some False))"

definition verifyWebhook :: "crypto \<Rightarrow> ('w \<Rightarrow> jstr \<Rightarrow> rat \<Rightarrow> rat \<Rightarrow> 'w \<times> bool) option \<Rightarrow> clock_text
    \<Rightarrow> 'w \<Rightarrow> webhook_payload \<Rightarrow> webhook_headers \<Rightarrow> jstr \<Rightarrow> rat option \<Rightarrow> rat \<Rightarrow> 'w \<times> bool option" where
  "verifyWebhook C cache K w p hs pub = verify_webhook (\<lambda>t s. verifyCanonicalPayloadEd25519 C t s pub) cache K w p hs"

definition verifyWebhookHmac :: "crypto \<Rightarrow> ('w \<Rightarrow> jstr \<Rightarrow> rat \<Rightarrow> rat \<Rightarrow> 'w \<times> bool) option \<Rightarrow> clock_text
    \<Rightarrow> 'w \<Rightarrow> webhook_payload \<Rightarrow> webhook_headers \<Rightarrow> jstr \<Rightarrow> rat option \<Rightarrow> rat \<Rightarrow> 'w \<times> bool option" where
  "verifyWebhookHmac C cache K w p hs secret = verify_webhook (\<lambda>t s. verifyCanonicalPayloadHmac C t s secret) cache K w p hs"

text \<open>\<open>None\<close>: it throws, because verification failed or threw, or the payload is no JSON.\<close>

definition consumeWebhook :: "crypto \<Rightarrow> (jstr \<Rightarrow> json option) \<Rightarrow> ('w \<Rightarrow> jstr \<Rightarrow> rat \<Rightarrow> rat \<Rightarrow> 'w \<times> bool) option \<Rightarrow> clock_text
    \<Rightarrow> 'w \<Rightarrow> jstr \<Rightarrow> webhook_headers \<Rightarrow> jstr \<Rightarrow> rat option \<Rightarrow> rat \<Rightarrow> 'w \<times> json option" where
  "consumeWebhook C parse cache K w p hs pub maxAge now =
    (let (w', r) = verifyWebhook C cache K w (PayloadText p) hs pub maxAge now in
     (w', if r = Some True then parse p else None))"

section \<open>What the cache remembers\<close>

text \<open>An entry with at most k entries behind it.\<close>

definition at_depth :: "(jstr, rat) jsmap \<Rightarrow> jstr \<Rightarrow> rat \<Rightarrow> nat \<Rightarrow> bool" where
  "at_depth m key e k \<longleftrightarrow> (\<exists>as bs. m = as @ (key, e) # bs \<and> length bs \<le> k)"

lemma at_depth_mget: "wf_map m \<Longrightarrow> at_depth m key e k \<Longrightarrow> mget m key = Some e"
  by (auto simp: at_depth_def mget_in_set)

lemma at_depth_filter: "at_depth m key e k \<Longrightarrow> P (key, e) \<Longrightarrow> at_depth (filter P m) key e k"
proof -
  assume a: "at_depth m key e k" "P (key, e)"
  then obtain as bs where "m = as @ (key, e) # bs" "length bs \<le> k" by (auto simp: at_depth_def)
  with a(2) have "filter P m = filter P as @ (key, e) # filter P bs" "length (filter P bs) \<le> k"
    by (auto intro: order_trans [OF length_filter_le])
  then show ?thesis unfolding at_depth_def by blast
qed

lemma at_depth_set:
  assumes "at_depth m key e k" "k' \<noteq> key"
  shows "at_depth (mset_key m k' v) key e (Suc k)"
proof -
  obtain as bs where m: "m = as @ (key, e) # bs" "length bs \<le> k" using assms(1) by (auto simp: at_depth_def)
  show ?thesis
  proof (cases "mget m k'")
    case None
    then have "mset_key m k' v = as @ (key, e) # bs @ [(k', v)]" by (simp add: mset_key_append m(1))
    then show ?thesis using m(2) unfolding at_depth_def by (intro exI [of _ as] exI [of _ "bs @ [(k', v)]"]) simp
  next
    case (Some x)
    have l: "length (mset_key bs k' v) \<le> Suc (length bs)" for bs :: "(jstr, rat) jsmap" by (induction bs) auto
    have "at_depth (mset_key (as @ (key, e) # bs) k' v) key e (Suc k)"
      using m(2)
    proof (induction as)
      case Nil
      then have "length (mset_key bs k' v) \<le> Suc k" using l [of bs] by simp
      moreover have "mset_key ([] @ (key, e) # bs) k' v = [] @ (key, e) # mset_key bs k' v" using assms(2) by simp
      ultimately show ?case unfolding at_depth_def by blast
    next
      case (Cons a as)
      obtain p q where a: "a = (p, q)" by (cases a)
      from Cons obtain cs ds where c: "mset_key (as @ (key, e) # bs) k' v = cs @ (key, e) # ds" "length ds \<le> Suc k"
        by (auto simp: at_depth_def)
      show ?case
      proof (cases "p = k'")
        case True
        then have "mset_key ((a # as) @ (key, e) # bs) k' v = (k', v) # as @ (key, e) # bs" by (simp add: a)
        then show ?thesis using Cons.prems unfolding at_depth_def by (intro exI [of _ "(k', v) # as"] exI [of _ bs]) simp
      next
        case False
        then have "mset_key ((a # as) @ (key, e) # bs) k' v = (a # cs) @ (key, e) # ds" by (simp add: a c(1))
        then show ?thesis using c(2) unfolding at_depth_def by blast
      qed
    qed
    then show ?thesis by (simp add: m)
  qed
qed

lemma wc_room_wf: "wf_map (wc_seen c) \<Longrightarrow> wf_map (wc_room c)"
  by (auto simp: wc_room_def wf_mdelete split: list.split)

lemma wc_room_depth:
  assumes "wf_map (wc_seen c)" "at_depth (wc_seen c) key e k" "Suc k < wc_max c"
  shows "at_depth (wc_room c) key e k"
proof (cases "wc_max c \<le> msize (wc_seen c)")
  case True
  obtain as bs where m: "wc_seen c = as @ (key, e) # bs" "length bs \<le> k" using assms(2) by (auto simp: at_depth_def)
  with True assms(3) obtain o' x as' where as: "as = (o', x) # as'" by (cases as) (auto simp: msize_def)
  have "o' \<noteq> key" using assms(1) by (auto simp: m as wf_map_def mkeys_def)
  moreover have "wc_room c = filter (\<lambda>x. fst x \<noteq> o') (wc_seen c)"
    using True by (simp add: wc_room_def mkeys_def mdelete_def m as)
  ultimately show ?thesis using at_depth_filter [OF assms(2), of "\<lambda>x. fst x \<noteq> o'"] by simp
next
  case False
  then show ?thesis using assms(2) by (simp add: wc_room_def)
qed

lemma wc_consume_keeps:
  assumes "wf_map (wc_seen c)" "at_depth (wc_seen c) key e k" "now < e" "Suc k < wc_max c"
  shows "wf_map (wc_seen (fst (wc_consume c key' e' now))) \<and> at_depth (wc_seen (fst (wc_consume c key' e' now))) key e (Suc k)
    \<and> wc_max (fst (wc_consume c key' e' now)) = wc_max c \<and> (key' = key \<longrightarrow> \<not> snd (wc_consume c key' e' now))"
proof -
  let ?s = "wc_seen (wc_prune c now)"
  have s: "wf_map ?s" "at_depth ?s key e k" "wc_max (wc_prune c now) = wc_max c"
    using assms(1) at_depth_filter [OF assms(2), of "\<lambda>(k, e). \<not> e \<le> now"] assms(3) by (auto simp: wc_prune_def wf_filter)
  then have g: "mget ?s key = Some e" using at_depth_mget by blast
  have mono: "at_depth m key e k \<Longrightarrow> at_depth m key e (Suc k)" for m by (auto simp: at_depth_def intro: le_SucI)
  have live: "\<not> (case mget ?s key' of None \<Rightarrow> False | Some e \<Rightarrow> now < e) \<Longrightarrow> key' \<noteq> key"
    using g assms(3) by auto
  show ?thesis
  proof (cases "case mget ?s key' of None \<Rightarrow> False | Some e \<Rightarrow> now < e")
    case True
    then have "wc_consume c key' e' now = (wc_prune c now, False)" by (simp add: wc_consume_def Let_def)
    with s mono show ?thesis by auto
  next
    case False
    then have c: "wc_consume c key' e' now = ((wc_prune c now)\<lparr>wc_seen := mset_key (wc_room (wc_prune c now)) key' e'\<rparr>, True)"
      by (simp add: wc_consume_def Let_def)
    have ne: "key' \<noteq> key" using live [OF False] .
    have "wf_map (wc_room (wc_prune c now))" using wc_room_wf [OF s(1)] .
    moreover have "at_depth (wc_room (wc_prune c now)) key e k"
      using wc_room_depth [OF s(1,2)] s(3) assms(4) by simp
    ultimately show ?thesis using wf_mset_key at_depth_set [OF _ ne] s(3) ne by (simp add: c)
  qed
qed

lemma wc_consume_new:
  assumes "wf_map (wc_seen c)" "snd (wc_consume c key e now)"
  shows "wf_map (wc_seen (fst (wc_consume c key e now))) \<and> at_depth (wc_seen (fst (wc_consume c key e now))) key e 0
    \<and> wc_max (fst (wc_consume c key e now)) = wc_max c"
proof -
  let ?s = "wc_seen (wc_prune c now)"
  have s: "wf_map ?s" using assms(1) by (simp add: wc_prune_def wf_filter)
  have "mget ?s key = Some v \<Longrightarrow> now < v" for v
    using assms(1) by (auto simp: wc_prune_def mget_filter split: option.splits if_splits)
  with assms(2) have n: "mget ?s key = None" by (cases "mget ?s key") (auto simp: wc_consume_def Let_def)
  have k: "wf_map (wc_room (wc_prune c now))" "mget (wc_room (wc_prune c now)) key = None"
    using wc_room_wf [OF s] n by (auto simp: wc_room_def mget_mdelete split: list.split)
  have "wc_consume c key e now = ((wc_prune c now)\<lparr>wc_seen := mset_key (wc_room (wc_prune c now)) key e\<rparr>, True)"
    using n by (simp add: wc_consume_def Let_def)
  moreover have "at_depth (mset_key (wc_room (wc_prune c now)) key e) key e 0"
    using k(2) by (auto simp: mset_key_append at_depth_def)
  ultimately show ?thesis using wf_mset_key [OF k(1), of key e] by (simp add: wc_prune_def)
qed

fun wc_run :: "webhook_cache \<Rightarrow> (jstr \<times> rat \<times> rat) list \<Rightarrow> webhook_cache" where
  "wc_run c [] = c"
| "wc_run c ((key, e, now) # evs) = wc_run (fst (wc_consume c key e now)) evs"

lemma wc_run_keeps:
  "wf_map (wc_seen c) \<Longrightarrow> at_depth (wc_seen c) key e k \<Longrightarrow> \<forall>(k, x, now) \<in> set evs. now < e \<Longrightarrow> k + length evs < wc_max c \<Longrightarrow>
    wf_map (wc_seen (wc_run c evs)) \<and> at_depth (wc_seen (wc_run c evs)) key e (k + length evs) \<and> wc_max (wc_run c evs) = wc_max c"
proof (induction evs arbitrary: c k)
  case (Cons ev evs)
  obtain k' e' now where ev: "ev = (k', e', now)" by (cases ev)
  from wc_consume_keeps [OF Cons.prems(1,2), of now k' e'] Cons.prems(3,4) ev
  have "wf_map (wc_seen (fst (wc_consume c k' e' now)))" "at_depth (wc_seen (fst (wc_consume c k' e' now))) key e (Suc k)"
    "wc_max (fst (wc_consume c k' e' now)) = wc_max c" by auto
  from Cons.IH [OF this(1,2)] this(3) Cons.prems(3,4) ev show ?case by simp
qed simp

section \<open>Properties\<close>

text \<open>An accepted webhook has both headers, a timestamp that is a number and not older than the allowed age, a signature that verifies over the timestamp and the body, and the cache, where there is one, had not seen that signature text.\<close>

theorem webhook_accepts_sound:
  assumes "snd (verifyWebhook C cache K w p hs pub maxAge now) = Some True"
  shows "\<exists>sg tsStr ts. wh_sig hs = Some sg \<and> wh_ts hs = Some tsStr \<and> number K tsStr = Some ts
    \<and> now - ts \<le> (case maxAge of None \<Rightarrow> WEBHOOK_DEFAULT_TTL_MS | Some a \<Rightarrow> a)
    \<and> verifyCanonicalPayloadEd25519 C (webhookSigningPayload K ts (payload_text p)) sg pub = Some True
    \<and> (\<forall>f. cache = Some f \<longrightarrow> snd (f w sg (ts + (case maxAge of None \<Rightarrow> WEBHOOK_DEFAULT_TTL_MS | Some a \<Rightarrow> a)) now))"
  using assms by (auto simp: verifyWebhook_def verify_webhook_def present_def Let_def not_less split: option.splits bool.splits if_splits prod.splits)

text \<open>What is signed is accepted: a webhook verifies with the matching key within its age, when the timestamp text is read back as it was printed.\<close>

theorem webhook_round_trip:
  assumes "ed_pair C priv pub" "signWebhook C K p priv t = Some hs" "number K (shown K t) = Some t" "shown K t \<noteq> []"
    and "wh_sig hs \<noteq> Some []" "now - t \<le> WEBHOOK_DEFAULT_TTL_MS"
  shows "verifyWebhook C None K w p hs pub None now = (w, Some True)"
proof -
  obtain s where s: "signCanonicalPayloadEd25519 C (webhookSigningPayload K t (payload_text p)) priv = Some s"
    "hs = \<lparr>wh_sig = Some s, wh_ts = Some (shown K t)\<rparr>"
    using assms(2) by (auto simp: signWebhook_def sign_webhook_def)
  with ed.sign_verifies [OF assms(1) s(1)] assms(3-6) show ?thesis
    by (auto simp: verifyWebhook_def verify_webhook_def present_def not_less)
qed

text \<open>A signature text is accepted once: after an accepted webhook, the same signature is refused until it expires, as long as fewer signatures have been presented since than the cache has room for. The bound matters: the cache drops its oldest entry when it is full, expired or not.\<close>

theorem webhook_signature_single_use:
  assumes "wf_map (wc_seen c)" "snd (wc_consume c key e t)" "\<forall>(k, x, now) \<in> set evs. now < e"
    and "Suc (length evs) < wc_max c" "now < e"
  shows "\<not> snd (wc_consume (wc_run (fst (wc_consume c key e t)) evs) key e' now)"
proof -
  from wc_consume_new [OF assms(1,2)] have n: "wf_map (wc_seen (fst (wc_consume c key e t)))"
    "at_depth (wc_seen (fst (wc_consume c key e t))) key e 0" "wc_max (fst (wc_consume c key e t)) = wc_max c" by auto
  from wc_run_keeps [OF n(1,2) assms(3)] n(3) assms(4)
  have r: "wf_map (wc_seen (wc_run (fst (wc_consume c key e t)) evs))" "at_depth (wc_seen (wc_run (fst (wc_consume c key e t)) evs)) key e (length evs)"
    "wc_max (wc_run (fst (wc_consume c key e t)) evs) = wc_max c" by auto
  from wc_consume_keeps [OF r(1,2) assms(5), of key e'] r(3) assms(4) show ?thesis by simp
qed

text \<open>The cache is evaded by spelling the signature differently: appending an equals sign to the text of an accepted signature gives a text that verifies all the same, so a captured webhook is accepted again by any cache that has not seen the longer text.\<close>

theorem webhook_replay_respelled:
  assumes "verifyWebhook C None K w p hs pub maxAge now = (w, Some True)" "wh_sig hs = Some sg"
    and "wh_ts hs = Some tsStr" "number K tsStr = Some ts"
    and "snd (f u (sg @ [61]) (ts + (case maxAge of None \<Rightarrow> WEBHOOK_DEFAULT_TTL_MS | Some a \<Rightarrow> a)) now)"
  shows "snd (verifyWebhook C (Some f) K u p (hs\<lparr>wh_sig := Some (sg @ [61])\<rparr>) pub maxAge now) = Some True"
proof -
  have "fromBase64Url (sg @ [61]) = fromBase64Url sg"
    by (simp add: fromBase64Url_eq map_filter_append List.map_filter_def b64_val_def)
  then have v: "verifyCanonicalPayloadEd25519 C t (sg @ [61]) pub = verifyCanonicalPayloadEd25519 C t sg pub" for t
    unfolding verifyCanonicalPayloadEd25519_def ed_check_def by (simp only: \<open>fromBase64Url (sg @ [61]) = fromBase64Url sg\<close>)
  show ?thesis
    using assms by (auto simp: verifyWebhook_def verify_webhook_def present_def Let_def v split: option.splits bool.splits if_splits prod.splits)
qed

text \<open>Timestamp and body are not kept apart: when a body begins with digits and a point, the digits can be moved behind the timestamp, as a fraction of a millisecond, and the shorter body is accepted under the same signature.\<close>

theorem webhook_body_shifted:
  assumes "verifyWebhook C None K w (PayloadText (digits @ 46 # bd)) \<lparr>wh_sig = sg, wh_ts = Some ts\<rparr> pub maxAge now = (w, Some True)"
    and "number K ts = Some q" "shown K q = ts" "ts \<noteq> []"
    and "number K (ts @ 46 # digits) = Some r" "shown K r = ts @ 46 # digits" "q \<le> r"
  shows "verifyWebhook C None K w (PayloadText bd) \<lparr>wh_sig = sg, wh_ts = Some (ts @ 46 # digits)\<rparr> pub maxAge now = (w, Some True)"
proof -
  have t: "webhookSigningPayload K r bd = webhookSigningPayload K q (digits @ 46 # bd)"
    by (simp add: webhookSigningPayload_def assms(3,6))
  have age: "a < now - r \<Longrightarrow> a < now - q" for a using assms(7) by linarith
  with assms(1,2,4,5) t show ?thesis
    by (auto simp: verifyWebhook_def verify_webhook_def present_def Let_def payload_text_def dest: age split: option.splits bool.splits if_splits)
qed

section \<open>Concrete webhooks\<close>

definition demo_clock :: clock_text where
  "demo_clock = \<lparr>number = (\<lambda>s. if s = js ''1'' then Some 1 else if s = js ''1.5'' then Some (3 / 2) else None),
    shown = (\<lambda>q. if q = 1 then js ''1'' else js ''1.5'')\<rparr>"

definition demo_cache :: webhook_cache where
  "demo_cache = \<lparr>wc_seen = [], wc_max = 5\<rparr>"

lemma demo_signed_webhook:
  "\<exists>s. s \<noteq> [] \<and> signWebhook demo_crypto demo_clock (PayloadText (js ''5.x'')) (js ''k'') 1 = Some \<lparr>wh_sig = Some s, wh_ts = Some (js ''1'')\<rparr>"
proof -
  obtain s where s: "signCanonicalPayloadEd25519 demo_crypto (webhookSigningPayload demo_clock 1 (js ''5.x'')) (js ''k'') = Some s"
    using ed.sign_some [OF demo_pair] by blast
  have "fromBase64Url s = utf8Encode (webhookSigningPayload demo_clock 1 (js ''5.x''))"
    using ed.sign_verifies [OF demo_pair s, of "js ''k''"] by (auto simp: verifyCanonicalPayloadEd25519_def ed_check_def import_ed_pub_def demo_crypto_def)
  moreover have "utf8Encode (webhookSigningPayload demo_clock 1 (js ''5.x'')) \<noteq> []"
    by (simp add: webhookSigningPayload_def demo_clock_def utf8Encode_def ascii_eval utf8_cp_def)
  ultimately have "s \<noteq> []" by (auto simp: fromBase64Url_eq List.map_filter_def)
  with s show ?thesis by (auto simp: signWebhook_def sign_webhook_def payload_text_def demo_clock_def)
qed

lemma demo_accepted_webhook:
  assumes "s \<noteq> []" "signWebhook demo_crypto demo_clock (PayloadText (js ''5.x'')) (js ''k'') 1 = Some \<lparr>wh_sig = Some s, wh_ts = Some (js ''1'')\<rparr>"
  shows "verifyWebhook demo_crypto None demo_clock w (PayloadText (js ''5.x'')) \<lparr>wh_sig = Some s, wh_ts = Some (js ''1'')\<rparr> (js ''k'') None 2 = (w, Some True)"
proof -
  obtain s' where s: "signCanonicalPayloadEd25519 demo_crypto (webhookSigningPayload demo_clock 1 (js ''5.x'')) (js ''k'') = Some s'" "s' = s"
    using assms(2) by (auto simp: signWebhook_def sign_webhook_def payload_text_def)
  with ed.sign_verifies [OF demo_pair s(1), of "js ''k''"] assms(1) show ?thesis
    by (simp add: verifyWebhook_def verify_webhook_def present_def payload_text_def demo_clock_def WEBHOOK_DEFAULT_TTL_MS_def ascii_eval)
qed

theorem webhook_round_trip_witness:
  "\<exists>hs. snd (verifyWebhook demo_crypto None demo_clock () (PayloadText (js ''5.x'')) hs (js ''k'') None 2) = Some True"
proof -
  obtain s where s: "s \<noteq> []" "signWebhook demo_crypto demo_clock (PayloadText (js ''5.x'')) (js ''k'') 1 = Some \<lparr>wh_sig = Some s, wh_ts = Some (js ''1'')\<rparr>"
    using demo_signed_webhook by blast
  have "verifyWebhook demo_crypto None demo_clock () (PayloadText (js ''5.x'')) \<lparr>wh_sig = Some s, wh_ts = Some (js ''1'')\<rparr> (js ''k'') None 2 = ((), Some True)"
    by (rule webhook_round_trip [OF demo_pair s(2)]) (simp_all add: s(1) demo_clock_def WEBHOOK_DEFAULT_TTL_MS_def ascii_eval)
  then have "snd (verifyWebhook demo_crypto None demo_clock () (PayloadText (js ''5.x'')) \<lparr>wh_sig = Some s, wh_ts = Some (js ''1'')\<rparr> (js ''k'') None 2) = Some True"
    by simp
  then show ?thesis by blast
qed

theorem webhook_accepts_sound_witness:
  "\<exists>s. verifyCanonicalPayloadEd25519 demo_crypto (webhookSigningPayload demo_clock 1 (js ''5.x'')) s (js ''k'') = Some True"
proof -
  obtain s where s: "s \<noteq> []" "signWebhook demo_crypto demo_clock (PayloadText (js ''5.x'')) (js ''k'') 1 = Some \<lparr>wh_sig = Some s, wh_ts = Some (js ''1'')\<rparr>"
    using demo_signed_webhook by blast
  have "snd (verifyWebhook demo_crypto None demo_clock () (PayloadText (js ''5.x'')) \<lparr>wh_sig = Some s, wh_ts = Some (js ''1'')\<rparr> (js ''k'') None 2) = Some True"
    using demo_accepted_webhook [OF s, of "()"] by simp
  from webhook_accepts_sound [OF this] show ?thesis by (auto simp: demo_clock_def payload_text_def)
qed

theorem webhook_signature_single_use_witness:
  "\<not> snd (wc_consume (fst (wc_consume demo_cache (js ''s'') 10 1)) (js ''s'') 10 2)"
  using webhook_signature_single_use [of demo_cache "js ''s''" 10 1 "[]" 2 10] by (simp add: demo_cache_def wc_consume_def wc_prune_def Let_def)

theorem webhook_replay_respelled_witness:
  "\<exists>s. snd (verifyWebhook demo_crypto (Some wc_consume) demo_clock demo_cache (PayloadText (js ''5.x'')) \<lparr>wh_sig = Some s, wh_ts = Some (js ''1'')\<rparr> (js ''k'') None 2) = Some True"
proof -
  obtain s where s: "s \<noteq> []" "signWebhook demo_crypto demo_clock (PayloadText (js ''5.x'')) (js ''k'') 1 = Some \<lparr>wh_sig = Some s, wh_ts = Some (js ''1'')\<rparr>"
    using demo_signed_webhook by blast
  have "snd (wc_consume demo_cache (s @ [61]) (1 + (case None of None \<Rightarrow> WEBHOOK_DEFAULT_TTL_MS | Some a \<Rightarrow> a)) 2)"
    by (simp add: demo_cache_def wc_consume_def wc_prune_def Let_def)
  with webhook_replay_respelled [OF demo_accepted_webhook [OF s, of demo_cache], of s "js ''1''" 1 wc_consume demo_cache] show ?thesis
    by (auto simp: demo_clock_def)
qed

theorem webhook_body_shifted_witness:
  "\<exists>s. verifyWebhook demo_crypto None demo_clock () (PayloadText (js ''x'')) \<lparr>wh_sig = Some s, wh_ts = Some (js ''1.5'')\<rparr> (js ''k'') None 2 = ((), Some True)"
proof -
  obtain s where s: "s \<noteq> []" "signWebhook demo_crypto demo_clock (PayloadText (js ''5.x'')) (js ''k'') 1 = Some \<lparr>wh_sig = Some s, wh_ts = Some (js ''1'')\<rparr>"
    using demo_signed_webhook by blast
  have j: "js ''5.x'' = js ''5'' @ 46 # js ''x''" "js ''1.5'' = js ''1'' @ 46 # js ''5''" by (simp_all add: ascii_eval)
  from webhook_body_shifted [of demo_crypto demo_clock "()" "js ''5''" "js ''x''" "Some s" "js ''1''" "js ''k''" None 2 1 "3 / 2"]
    demo_accepted_webhook [OF s, of "()"] show ?thesis
    unfolding j by (auto simp: demo_clock_def ascii_eval)
qed

end
