(* ===== verification/Queue.thy ===== *)
theory Queue
  imports Transport
begin

text \<open>
  \<open>src/queueBinding.ts\<close>: messages of a queue, a JSON object of a signed envelope and the payload
  it stands for. Every failure of the verifier is an exception; \<open>queue_error\<close> tells them apart.
  The replay cache is a parameter that may throw.
\<close>

section \<open>Verifying an envelope of any shape\<close>

text \<open>\<open>verifyEnvelopeEd25519\<close> of a parsed value whose header may be missing.\<close>

definition verify_parsed_ed :: "crypto \<Rightarrow> json \<Rightarrow> jstr \<Rightarrow> bool option" where
  "verify_parsed_ed C e pub =
    (case jmember e ''signature'' of
       None \<Rightarrow> Some False
     | Some sg \<Rightarrow>
         if \<not> truthy_json (Some sg) \<or> jmember sg ''alg'' \<noteq> Some (JStr (js ''ED25519'')) then Some False
         else if readable (jmember e ''header'') = None then None
         else json_verify_ed C e pub)"

text \<open>
  The header as the replay cache reads it when nothing has validated it: texts are what a
  template makes of the members, a sum with a member that is no number, null or boolean is
  not finite.
\<close>

definition number_read :: "json option \<Rightarrow> jnum" where
  "number_read v = (case v of Some (JNum n) \<Rightarrow> n | Some JNull \<Rightarrow> Fin 0 | Some (JBool b) \<Rightarrow> Fin (if b then 1 else 0) | _ \<Rightarrow> NaN)"

definition header_as_read :: "json \<Rightarrow> header" where
  "header_as_read h =
    \<lparr>version = template_text (jmember h ''version''), messageId = template_text (jmember h ''messageId''),
     timestampMs = number_read (jmember h ''timestampMs''), ttlMs = number_read (jmember h ''ttlMs''),
     sender = template_text (jmember h ''sender''), recipient = None, nonce = template_text (jmember h ''nonce'')\<rparr>"

section \<open>Messages\<close>

record queue_options =
  qo_publicKey :: jstr
  qo_strictTtl :: "bool option"

datatype queue_error =
  NotJson | MissingEnvelope | ValidationFailed "diagnostic_reason list" | SignatureRefused | ReplayRejected replay_result
  | PayloadModified | Thrown

type_synonym 'w replay_consume = "'w \<Rightarrow> header \<Rightarrow> int \<Rightarrow> 'w \<times> replay_result option"

text \<open>\<open>typeof v === 'object'\<close> for a value that is not falsy.\<close>

definition is_object :: "json option \<Rightarrow> bool" where
  "is_object v = (case v of Some (JObj kvs) \<Rightarrow> True | Some (JArr vs) \<Rightarrow> True | _ \<Rightarrow> False)"

definition message_text :: "json option \<Rightarrow> jstr option" where
  "message_text v = (case v of Some (JStr s) \<Rightarrow> Some s | Some x \<Rightarrow> Some (print_json x) | None \<Rightarrow> None)"

definition payload_matches :: "json option \<Rightarrow> json option \<Rightarrow> bool" where
  "payload_matches payload cont = (map_option JStr (message_text payload) = cont)"

text \<open>The steps after the envelope has been found. \<open>consume\<close> is the optional replay cache.\<close>

definition verify_queue_envelope :: "crypto \<Rightarrow> 'w replay_consume option \<Rightarrow> queue_options \<Rightarrow> int \<Rightarrow> 'w \<Rightarrow> json \<Rightarrow> json option
    \<Rightarrow> 'w \<times> (queue_error + json option \<times> json)" where
  "verify_queue_envelope C cache opts now w e payload =
    (let errors = (if qo_strictTtl opts \<noteq> Some False then error_reasons (validateEnvelope e now) else []) in
     if errors \<noteq> [] then (w, Inl (ValidationFailed errors))
     else (case verify_parsed_ed C e (qo_publicKey opts) of
       None \<Rightarrow> (w, Inl Thrown)
     | Some False \<Rightarrow> (w, Inl SignatureRefused)
     | Some True \<Rightarrow>
         (let (w', r) = (case cache of None \<Rightarrow> (w, Some ReplayOk) | Some f \<Rightarrow> f w (header_as_read (the (jmember e ''header''))) now) in
          case r of
            None \<Rightarrow> (w', Inl Thrown)
          | Some x \<Rightarrow>
              if x \<noteq> ReplayOk then (w', Inl (ReplayRejected x))
              else if \<not> payload_matches payload (jmember (the (jmember e ''body'')) ''content'') then (w', Inl PayloadModified)
              else (w', Inr (payload, e)))))"

definition verifyQueueMessage :: "crypto \<Rightarrow> (jstr \<Rightarrow> json option) \<Rightarrow> 'w replay_consume option \<Rightarrow> queue_options \<Rightarrow> int \<Rightarrow> 'w \<Rightarrow> jstr
    \<Rightarrow> 'w \<times> (queue_error + json option \<times> json)" where
  "verifyQueueMessage C parse cache opts now w raw =
    (case parse raw of
       None \<Rightarrow> (w, Inl NotJson)
     | Some JNull \<Rightarrow> (w, Inl Thrown)
     | Some v \<Rightarrow>
         if \<not> is_object (jmember v ''envelope'') then (w, Inl MissingEnvelope)
         else verify_queue_envelope C cache opts now w (the (jmember v ''envelope'')) (jmember v ''payload''))"

text \<open>
  A batch: the messages are verified concurrently. \<open>schedule\<close> lists them in the order in which
  they reach the replay cache, each with its clock reading; a failure becomes the result of its message.
\<close>

fun queue_batch_run :: "crypto \<Rightarrow> (jstr \<Rightarrow> json option) \<Rightarrow> 'w replay_consume option \<Rightarrow> queue_options \<Rightarrow> jstr list \<Rightarrow> 'w \<Rightarrow> (nat \<times> int) list
    \<Rightarrow> 'w \<times> (nat \<times> ((jstr \<times> queue_error) + json option \<times> json)) list" where
  "queue_batch_run C parse cache opts raws w [] = (w, [])"
| "queue_batch_run C parse cache opts raws w ((i, now) # schedule) =
    (let (w1, r) = verifyQueueMessage C parse cache opts now w (raws ! i); (w2, rs) = queue_batch_run C parse cache opts raws w1 schedule in
     (w2, (i, map_sum (Pair (raws ! i)) id r) # rs))"

definition verifyQueueBatch :: "crypto \<Rightarrow> (jstr \<Rightarrow> json option) \<Rightarrow> 'w replay_consume option \<Rightarrow> queue_options \<Rightarrow> 'w \<Rightarrow> jstr list \<Rightarrow> (nat \<times> int) list
    \<Rightarrow> 'w \<times> ((jstr \<times> queue_error) + json option \<times> json) option list" where
  "verifyQueueBatch C parse cache opts w raws schedule =
    (let (w', rs) = queue_batch_run C parse cache opts raws w schedule in (w', map (map_of rs) [0..<length raws]))"

record queue_sign =
  qs_privateKey :: jstr
  qs_sender :: jstr
  qs_recipient :: "jstr option"
  qs_ttlMs :: "int option"
  qs_keyId :: "jstr option"

text \<open>\<open>clock\<close>, \<open>rnd6\<close> and \<open>rnd12\<close> are the clock reading and the random bytes; \<open>None\<close>: signing throws.\<close>

definition signQueueMessage :: "crypto \<Rightarrow> json \<Rightarrow> queue_sign \<Rightarrow> int \<Rightarrow> bytes \<Rightarrow> bytes \<Rightarrow> jstr option" where
  "signQueueMessage C payload o' clock rnd6 rnd12 =
    (let cont = (case payload of JStr s \<Rightarrow> s | _ \<Rightarrow> print_json payload);
         (h, b) = createEnvelope \<lparr>in_sender = qs_sender o', in_recipient = qs_recipient o', in_intent = TASK, in_content = cont,
           in_capability = None, in_correlationId = None, in_ttlMs = Some (case qs_ttlMs o' of None \<Rightarrow> 3600000 | Some t \<Rightarrow> t),
           in_messageId = None, in_nonce = None, in_nowMs = None\<rparr> clock rnd6 rnd12
     in map_option (\<lambda>e. print_json (JObj [(js ''envelope'', envelope_json e), (js ''payload'', payload)]))
       (signEnvelopeEd25519 C h b (qs_privateKey o') (case qs_keyId o' of None \<Rightarrow> default_ed_key_id | Some k \<Rightarrow> k)))"

section \<open>Properties\<close>

lemma queue_accepts:
  assumes "verify_queue_envelope C cache opts now w e payload = (w', Inr (p, e'))"
  shows "p = payload \<and> e' = e \<and> verify_parsed_ed C e (qo_publicKey opts) = Some True
    \<and> (qo_strictTtl opts \<noteq> Some False \<longrightarrow> no_errors (validateEnvelope e now))
    \<and> (\<forall>f. cache = Some f \<longrightarrow> f w (header_as_read (the (jmember e ''header''))) now = (w', Some ReplayOk))
    \<and> payload_matches payload (jmember (the (jmember e ''body'')) ''content'')"
proof -
  have ne: "error_reasons ds = [] \<longleftrightarrow> no_errors ds" for ds by (auto simp: error_reasons_def no_errors_def filter_empty_conv)
  show ?thesis
    using assms by (auto simp: verify_queue_envelope_def Let_def ne split: option.splits bool.splits if_splits prod.splits)
qed

text \<open>An accepted queue message was JSON with an envelope that passes validation, is signed by the expected key, was new to the replay cache, and whose signed content is the text of the payload that is returned.\<close>

theorem queue_accepts_sound:
  assumes "verifyQueueMessage C parse cache opts now w raw = (w', Inr (p, e))" "qo_strictTtl opts \<noteq> Some False"
  shows "\<exists>v. parse raw = Some v \<and> jmember v ''envelope'' = Some e \<and> jmember v ''payload'' = p
    \<and> no_errors (validateEnvelope e now) \<and> verify_parsed_ed C e (qo_publicKey opts) = Some True
    \<and> (\<forall>f. cache = Some f \<longrightarrow> f w (header_as_read (the (jmember e ''header''))) now = (w', Some ReplayOk))
    \<and> jmember (the (jmember e ''body'')) ''content'' = map_option JStr (message_text p)"
proof -
  obtain v where v: "parse raw = Some v" "is_object (jmember v ''envelope'')"
    "verify_queue_envelope C cache opts now w (the (jmember v ''envelope'')) (jmember v ''payload'') = (w', Inr (p, e))"
    using assms(1) by (auto simp: verifyQueueMessage_def split: option.splits json.splits if_splits)
  from v(2) obtain x where x: "jmember v ''envelope'' = Some x" by (cases "jmember v ''envelope''") (auto simp: is_object_def)
  from queue_accepts [OF v(3)] x assms(2) v(1) show ?thesis by (auto simp: payload_matches_def)
qed

text \<open>The text of the payload is signed, not its type: a message whose payload is a string that happens to be the JSON text of another value is accepted just as well with that value in its place, which is then what the consumer gets.\<close>

theorem queue_payload_retyped:
  assumes "verify_queue_envelope C cache opts now w e (Some (JStr (print_json v))) = (w', Inr r)" "\<forall>s. v \<noteq> JStr s"
  shows "verify_queue_envelope C cache opts now w e (Some v) = (w', Inr (Some v, e))"
proof -
  have m: "payload_matches (Some v) c = payload_matches (Some (JStr (print_json v))) c" for c
    using assms(2) by (cases v) (auto simp: payload_matches_def message_text_def)
  obtain p e' where r: "r = (p, e')" by (cases r)
  note q = queue_accepts [OF assms(1) [unfolded r]]
  show ?thesis
    using assms(1) unfolding verify_queue_envelope_def m
    by (auto simp: Let_def split: option.splits bool.splits if_splits prod.splits)
qed

text \<open>A message with a modified payload is refused only after its envelope has been entered into the replay cache, so it takes the place of the genuine one: with the in-memory cache the untouched message is then refused as a replay until it expires.\<close>

theorem tampered_message_blocks_original:
  assumes "cache_inv w" "verify_queue_envelope C (Some consume) opts now w e bad = (w', Inl PayloadModified)"
    and "jnum_add (number_read (jmember (the (jmember e ''header'')) ''timestampMs'')) (number_read (jmember (the (jmember e ''header'')) ''ttlMs'')) = Fin E"
    and "now2 < E"
  shows "\<exists>err. snd (verify_queue_envelope C (Some consume) opts now2 w' e good) = Inl err"
proof -
  let ?h = "header_as_read (the (jmember e ''header''))"
  have first: "consume w ?h now = (w', Some ReplayOk)"
    using assms(2) by (auto simp: verify_queue_envelope_def Let_def split: option.splits bool.splits if_splits prod.splits)
  obtain k where k: "makeKey ?h = Some k"
    using first by (cases "makeKey ?h") (auto simp: consume_def Let_def)
  have t: "jnum_add (timestampMs ?h) (ttlMs ?h) = Fin E" using assms(3) by (simp add: header_as_read_def)
  obtain E' where "jnum_add (timestampMs ?h) (ttlMs ?h) = Fin E'" "mget (entries w') k = Some (Fin E')"
    using consume_ok_reserves [OF assms(1) k, of now] first by auto
  with t have m: "mget (entries w') k = Some (Fin E)" by simp
  have inv: "cache_inv w'" using consume_step(1) [OF assms(1), of ?h now] first by simp
  have "mget (live_entries w' now2) k = Some (Fin E)" using live_get [OF inv] m assms(4) by simp
  with consume_cases [OF inv k, of now2] have second: "snd (consume w' ?h now2) = Some ReplayDetected" by simp
  show ?thesis
  proof (cases "snd (verify_queue_envelope C (Some consume) opts now2 w' e good)")
    case (Inr r)
    then obtain p e' v where "verify_queue_envelope C (Some consume) opts now2 w' e good = (v, Inr (p, e'))"
      by (metis prod.collapse)
    from queue_accepts [OF this] second show ?thesis by auto
  qed simp
qed

end
