(* ===== verification/Rpc.thy ===== *)
theory Rpc
  imports Queue
begin

text \<open>
  \<open>src/grpcBinding.ts\<close> and the frames of \<open>src/wsBinding.ts\<close>: envelopes in call metadata and on a
  socket. Registries, replay cache and \<open>JSON.parse\<close> are parameters; \<open>None\<close> is a call that throws.
\<close>

section \<open>Calls\<close>

datatype metadata_value = MetaText jstr | MetaBytes bytes | MetaList "jstr list"

definition GRPC_METADATA_KEY :: jstr where
  "GRPC_METADATA_KEY = js ''7h3-envelope-bin''"

datatype grpc_failure =
  MissingMetadata | MalformedMetadata | EnvelopeInvalid | MissingSenderOrAlg | UnknownGrpcSender jstr | UnknownGrpcKey
  | InvalidGrpcSignature | UnsupportedGrpcAlg jstr

text \<open>The status codes of the failures.\<close>

fun grpc_code :: "grpc_failure \<Rightarrow> int" where
  "grpc_code MissingMetadata = 16"
| "grpc_code MalformedMetadata = 3"
| "grpc_code EnvelopeInvalid = 4"
| "grpc_code MissingSenderOrAlg = 3"
| "grpc_code (UnknownGrpcSender s) = 16"
| "grpc_code UnknownGrpcKey = 16"
| "grpc_code InvalidGrpcSignature = 16"
| "grpc_code (UnsupportedGrpcAlg a) = 3"

record grpc_options =
  gv_registry :: key_registry
  gv_metadataKey :: "jstr option"
  gv_strictTtl :: "bool option"

definition metadata_text :: "metadata_value option \<Rightarrow> jstr" where
  "metadata_text v =
    (case v of None \<Rightarrow> [] | Some (MetaText s) \<Rightarrow> s | Some (MetaBytes b) \<Rightarrow> utf8Decode b
     | Some (MetaList ss) \<Rightarrow> (case ss of [] \<Rightarrow> [] | s # _ \<Rightarrow> s))"

text \<open>\<open>envelope.header?.sender\<close>.\<close>

definition sender_of :: "json \<Rightarrow> json option" where
  "sender_of e = (case jmember e ''header'' of None \<Rightarrow> None | Some h \<Rightarrow> jmember h ''sender'')"

definition alg_of :: "json \<Rightarrow> json option" where
  "alg_of e = (case jmember e ''signature'' of None \<Rightarrow> None | Some sg \<Rightarrow> jmember sg ''alg'')"

definition grpc_signature :: "crypto \<Rightarrow> key_registry \<Rightarrow> json \<Rightarrow> (grpc_failure + json) option" where
  "grpc_signature C reg e =
    (if alg_of e = Some (JStr (js ''ED25519'')) then
       (case reg_public reg (sender_of e) of
          None \<Rightarrow> None
        | Some None \<Rightarrow> Some (Inl (UnknownGrpcSender (template_text (sender_of e))))
        | Some (Some k) \<Rightarrow>
            if k = [] then Some (Inl (UnknownGrpcSender (template_text (sender_of e))))
            else map_option (\<lambda>ok. if ok then Inr e else Inl InvalidGrpcSignature) (json_verify_ed C e k))
     else if alg_of e = Some (JStr (js ''HS256'')) then
       (case (case reg_secret reg of None \<Rightarrow> Some None | Some f \<Rightarrow> f (jmember (the (jmember e ''signature'')) ''keyId'') (sender_of e)) of
          None \<Rightarrow> None
        | Some None \<Rightarrow> Some (Inl UnknownGrpcKey)
        | Some (Some s) \<Rightarrow>
            if s = [] then Some (Inl UnknownGrpcKey)
            else map_option (\<lambda>ok. if ok then Inr e else Inl InvalidGrpcSignature) (json_verify_hmac C e s))
     else Some (Inl (UnsupportedGrpcAlg (template_text (alg_of e)))))"

text \<open>Reading \<open>header\<close> of a null envelope throws.\<close>

definition verifyGrpcCall :: "crypto \<Rightarrow> (jstr \<Rightarrow> json option) \<Rightarrow> grpc_options \<Rightarrow> (jstr, metadata_value) jsmap \<Rightarrow> int \<Rightarrow> (grpc_failure + json) option" where
  "verifyGrpcCall C parse opts md now =
    (let raw = metadata_text (mget md (case gv_metadataKey opts of None \<Rightarrow> GRPC_METADATA_KEY | Some k \<Rightarrow> k)) in
     if raw = [] then Some (Inl MissingMetadata)
     else (case parse raw of
       None \<Rightarrow> Some (Inl MalformedMetadata)
     | Some JNull \<Rightarrow> None
     | Some e \<Rightarrow>
         if gv_strictTtl opts \<noteq> Some False \<and> \<not> no_errors (validateEnvelope e now) then Some (Inl EnvelopeInvalid)
         else if \<not> truthy_json (sender_of e) \<or> \<not> truthy_json (alg_of e) then Some (Inl MissingSenderOrAlg)
         else grpc_signature C (gv_registry opts) e))"

record grpc_sign =
  gs_privateKey :: jstr
  gs_sender :: jstr
  gs_recipient :: "jstr option"
  gs_ttlMs :: "int option"
  gs_metadataKey :: "jstr option"

definition signGrpcCall :: "crypto \<Rightarrow> grpc_sign \<Rightarrow> int \<Rightarrow> bytes \<Rightarrow> bytes \<Rightarrow> (jstr, metadata_value) jsmap option" where
  "signGrpcCall C o' clock rnd6 rnd12 =
    (let (h, b) = createEnvelope \<lparr>in_sender = gs_sender o', in_recipient = gs_recipient o', in_intent = TASK, in_content = js ''grpc-call'',
           in_capability = None, in_correlationId = None, in_ttlMs = Some (case gs_ttlMs o' of None \<Rightarrow> 60000 | Some t \<Rightarrow> t),
           in_messageId = None, in_nonce = None, in_nowMs = None\<rparr> clock rnd6 rnd12
     in map_option (\<lambda>e. [(case gs_metadataKey o' of None \<Rightarrow> GRPC_METADATA_KEY | Some k \<Rightarrow> k, MetaText (print_json (envelope_json e)))])
       (signEnvelopeEd25519 C h b (gs_privateKey o') default_ed_key_id))"

text \<open>The wrapper of a handler: the error carries the status code; the handler sees the verified envelope.\<close>

datatype ('c, 'r) grpc_outcome = GrpcError int | HandlerCalled 'r

definition withGrpcVerification :: "crypto \<Rightarrow> (jstr \<Rightarrow> json option) \<Rightarrow> grpc_options \<Rightarrow> (json \<Rightarrow> 'c \<Rightarrow> 'r)
    \<Rightarrow> (jstr, metadata_value) jsmap \<Rightarrow> 'c \<Rightarrow> int \<Rightarrow> ('c, 'r) grpc_outcome option" where
  "withGrpcVerification C parse opts handler md call now =
    map_option (\<lambda>r. case r of Inl f \<Rightarrow> GrpcError (grpc_code f) | Inr e \<Rightarrow> HandlerCalled (handler e call)) (verifyGrpcCall C parse opts md now)"

section \<open>Frames\<close>

datatype frame_failure =
  MalformedFrame | FrameWithoutSender | UnknownFrameSender jstr | InvalidFrameSignature | InvalidFrame "diagnostic_reason list"
  | FrameReplayed replay_result

record 'w ws_options =
  wo_registry :: key_registry
  wo_replay :: "'w replay_consume option"

text \<open>\<open>JSON.parse(content)\<close>, or the content itself where that throws.\<close>

definition frame_payload :: "(jstr \<Rightarrow> json option) \<Rightarrow> json option \<Rightarrow> json option" where
  "frame_payload parse cont = (case parse (template_text cont) of None \<Rightarrow> cont | Some v \<Rightarrow> Some v)"

text \<open>
  The listener for incoming frames up to the message handlers: what they are called with, or
  what the failure handlers are called with. A signature check that throws counts as failed;
  the registry and the replay cache may throw (\<open>None\<close>), then no handler is called.
\<close>

definition ws_receive :: "crypto \<Rightarrow> (jstr \<Rightarrow> json option) \<Rightarrow> 'w ws_options \<Rightarrow> int \<Rightarrow> 'w \<Rightarrow> jstr \<Rightarrow> 'w \<times> (frame_failure + json option \<times> json) option" where
  "ws_receive C parse opts now w raw =
    (case parse raw of
       None \<Rightarrow> (w, Some (Inl MalformedFrame))
     | Some e \<Rightarrow>
         if \<not> truthy_json (sender_of e) then (w, Some (Inl FrameWithoutSender))
         else (case reg_public (wo_registry opts) (sender_of e) of
           None \<Rightarrow> (w, None)
         | Some None \<Rightarrow> (w, Some (Inl (UnknownFrameSender (template_text (sender_of e)))))
         | Some (Some k) \<Rightarrow>
             if k = [] then (w, Some (Inl (UnknownFrameSender (template_text (sender_of e)))))
             else if json_verify_ed C e k \<noteq> Some True then (w, Some (Inl InvalidFrameSignature))
             else let errors = error_reasons (validateEnvelope e now) in
               if errors \<noteq> [] then (w, Some (Inl (InvalidFrame errors)))
               else (case (case wo_replay opts of None \<Rightarrow> (w, Some ReplayOk) | Some f \<Rightarrow> f w (header_as_read (the (jmember e ''header''))) now) of
                 (w', None) \<Rightarrow> (w', None)
               | (w', Some r) \<Rightarrow>
                   if r \<noteq> ReplayOk then (w', Some (Inl (FrameReplayed r)))
                   else (w', Some (Inr (frame_payload parse (jmember (the (jmember e ''body'')) ''content''), e))))))"

record ws_sign =
  wx_privateKey :: jstr
  wx_sender :: jstr
  wx_recipient :: "jstr option"
  wx_ttlMs :: "int option"

text \<open>\<open>send\<close> with the running number; the number is used up even when signing throws.\<close>

definition ws_send :: "crypto \<Rightarrow> ws_sign \<Rightarrow> nat \<Rightarrow> json \<Rightarrow> int \<Rightarrow> bytes \<Rightarrow> bytes \<Rightarrow> nat \<times> jstr option" where
  "ws_send C o' seq payload clock rnd6 rnd12 =
    (let cont = (case payload of JStr s \<Rightarrow> s | _ \<Rightarrow> print_json payload);
         (h, b) = createEnvelope \<lparr>in_sender = wx_sender o', in_recipient = wx_recipient o', in_intent = TASK, in_content = cont,
           in_capability = None, in_correlationId = Some (show_nat (Suc seq)), in_ttlMs = Some (case wx_ttlMs o' of None \<Rightarrow> 30000 | Some t \<Rightarrow> t),
           in_messageId = None, in_nonce = None, in_nowMs = None\<rparr> clock rnd6 rnd12
     in (Suc seq, map_option (\<lambda>e. print_json (envelope_json e)) (signEnvelopeEd25519 C h b (wx_privateKey o') default_ed_key_id)))"

section \<open>Properties\<close>

text \<open>A call is let through only with metadata that parses to a valid, unexpired envelope of a sender whose registered key or shared secret verifies its signature.\<close>

theorem grpc_accepts_sound:
  assumes "verifyGrpcCall C parse opts md now = Some (Inr e)"
  shows "\<exists>raw. raw \<noteq> [] \<and> parse raw = Some e \<and> (gv_strictTtl opts \<noteq> Some False \<longrightarrow> no_errors (validateEnvelope e now)) \<and>
    (\<exists>k. k \<noteq> [] \<and> (reg_public (gv_registry opts) (sender_of e) = Some (Some k) \<and> json_verify_ed C e k = Some True
      \<or> (\<exists>f. reg_secret (gv_registry opts) = Some f \<and> f (jmember (the (jmember e ''signature'')) ''keyId'') (sender_of e) = Some (Some k)
          \<and> json_verify_hmac C e k = Some True)))"
proof -
  let ?raw = "metadata_text (mget md (case gv_metadataKey opts of None \<Rightarrow> GRPC_METADATA_KEY | Some k \<Rightarrow> k))"
  obtain v where v: "?raw \<noteq> []" "parse ?raw = Some v" "gv_strictTtl opts \<noteq> Some False \<longrightarrow> no_errors (validateEnvelope v now)"
    "grpc_signature C (gv_registry opts) v = Some (Inr e)"
    using assms by (auto simp: verifyGrpcCall_def Let_def split: if_splits option.splits json.splits)
  then have "v = e \<and> (\<exists>k. k \<noteq> [] \<and> (reg_public (gv_registry opts) (sender_of e) = Some (Some k) \<and> json_verify_ed C e k = Some True
      \<or> (\<exists>f. reg_secret (gv_registry opts) = Some f \<and> f (jmember (the (jmember e ''signature'')) ''keyId'') (sender_of e) = Some (Some k)
          \<and> json_verify_hmac C e k = Some True)))"
    by (auto simp: grpc_signature_def split: if_splits option.splits)
  with v show ?thesis by blast
qed

text \<open>A frame reaches the message handlers only if it parses to an envelope of a sender whose registered key verifies its signature, that passes validation and that the replay cache, if there is one, had not seen; the payload is the signed content, read as JSON where that is possible.\<close>

theorem ws_receive_sound:
  assumes "ws_receive C parse opts now w raw = (w', Some (Inr (p, e)))"
  shows "parse raw = Some e \<and> (\<exists>k. k \<noteq> [] \<and> reg_public (wo_registry opts) (sender_of e) = Some (Some k) \<and> json_verify_ed C e k = Some True)
    \<and> no_errors (validateEnvelope e now)
    \<and> (\<forall>f. wo_replay opts = Some f \<longrightarrow> f w (header_as_read (the (jmember e ''header''))) now = (w', Some ReplayOk))
    \<and> p = frame_payload parse (jmember (the (jmember e ''body'')) ''content'')"
proof -
  have ne: "error_reasons ds = [] \<longleftrightarrow> no_errors ds" for ds by (auto simp: error_reasons_def no_errors_def filter_empty_conv)
  show ?thesis
    using assms by (auto simp: ws_receive_def Let_def ne split: option.splits if_splits prod.splits)
qed

end
