(* ===== verification/WsStream.thy ===== *)
theory WsStream
  imports Stream
begin

text \<open>
  The signed streams of \<open>src/wsBinding.ts\<close>. The signing side is a machine whose events are the
  messages and the closing of the socket and the awaits that complete: the HMAC of a chunk
  (\<open>ChunkSigned\<close> with its place among those under way), the private key of the final frame
  (\<open>KeyReady\<close>, after which the content is read) and its signature (\<open>FinalSigned\<close>). The
  receiving side is a fold over frames that ends at the first frame marked final.
\<close>

section \<open>The signing side\<close>

datatype closing = Listening | AwaitingKey | AwaitingSignature bytes | Closed

record ws_signer =
  wz_writer :: stream_writer
  wz_pending :: "(int \<times> jstr) list"
  wz_closing :: closing
  wz_sent :: "stream_chunk list"

datatype ws_signer_event = Incoming jstr | ChunkSigned nat | SocketClosed | KeyReady | FinalSigned

definition new_ws_signer :: "stream_writer \<Rightarrow> ws_signer" where
  "new_ws_signer w = \<lparr>wz_writer = w, wz_pending = [], wz_closing = Listening, wz_sent = []\<rparr>"

text \<open>The two halves of \<open>writeChunk\<close>: the number is taken at once, the rest follows the HMAC.\<close>

definition write_begin :: "ws_signer \<Rightarrow> jstr \<Rightarrow> ws_signer" where
  "write_begin s d =
    s\<lparr>wz_writer := (wz_writer s)\<lparr>sw_seq := sw_seq (wz_writer s) + 1\<rparr>, wz_pending := wz_pending s @ [(sw_seq (wz_writer s), d)]\<rparr>"

definition write_end :: "crypto \<Rightarrow> hkdf \<Rightarrow> ws_signer \<Rightarrow> nat \<Rightarrow> ws_signer" where
  "write_end C D s k =
    (let (i, d) = wz_pending s ! k; s1 = s\<lparr>wz_pending := take k (wz_pending s) @ drop (Suc k) (wz_pending s)\<rparr> in
     case computeChunkHmac C D (wz_writer s) i d of
       None \<Rightarrow> s1
     | Some h \<Rightarrow> s1\<lparr>wz_writer := (wz_writer s)\<lparr>sw_accum := sw_accum (wz_writer s) @ [(i, d)]\<rparr>,
         wz_sent := wz_sent s @ [\<lparr>sc_i = Fin i, sc_d = d, sc_h = h, sc_f = False, sc_sig = None, sc_kid = None\<rparr>]\<rparr>)"

text \<open>The three parts of \<open>finalize\<close>.\<close>

definition final_read :: "crypto \<Rightarrow> ws_signer \<Rightarrow> ws_signer" where
  "final_read C s =
    (case import_ed_priv C (sw_privateKey (wz_writer s)) of
       None \<Rightarrow> s\<lparr>wz_closing := Closed\<rparr>
     | Some key \<Rightarrow> s\<lparr>wz_closing := AwaitingSignature (sha256_raw C (buildContentMessage (sw_accum (wz_writer s))))\<rparr>)"

definition final_send :: "crypto \<Rightarrow> hkdf \<Rightarrow> ws_signer \<Rightarrow> bytes \<Rightarrow> ws_signer" where
  "final_send C D s digest =
    (let w = wz_writer s in
     case (import_ed_priv C (sw_privateKey w), computeChunkHmac C D w (sw_seq w) (toBase64Url digest)) of
       (Some key, Some h) \<Rightarrow> s\<lparr>wz_closing := Closed, wz_sent := wz_sent s @
         [\<lparr>sc_i = Fin (sw_seq w), sc_d = [], sc_h = h, sc_f = True, sc_sig = Some (toBase64Url (ed_sign_raw C key digest)), sc_kid = Some (sw_keyId w)\<rparr>]\<rparr>
     | _ \<Rightarrow> s\<lparr>wz_closing := Closed\<rparr>)"

text \<open>After the closing the listeners are gone; an event that cannot happen leaves the state alone.\<close>

fun ws_signer_step :: "crypto \<Rightarrow> hkdf \<Rightarrow> ws_signer \<Rightarrow> ws_signer_event \<Rightarrow> ws_signer" where
  "ws_signer_step C D s (Incoming d) = (if wz_closing s = Listening then write_begin s d else s)"
| "ws_signer_step C D s (ChunkSigned k) = (if k < length (wz_pending s) then write_end C D s k else s)"
| "ws_signer_step C D s SocketClosed = (if wz_closing s = Listening then s\<lparr>wz_closing := AwaitingKey\<rparr> else s)"
| "ws_signer_step C D s KeyReady = (if wz_closing s = AwaitingKey then final_read C s else s)"
| "ws_signer_step C D s FinalSigned = (case wz_closing s of AwaitingSignature digest \<Rightarrow> final_send C D s digest | _ \<Rightarrow> s)"

definition createSignedWebSocketStream :: "crypto \<Rightarrow> hkdf \<Rightarrow> stream_writer \<Rightarrow> ws_signer_event list \<Rightarrow> ws_signer" where
  "createSignedWebSocketStream C D w evs = foldl (ws_signer_step C D) (new_ws_signer w) evs"

section \<open>The receiving side\<close>

datatype ws_event = FrameIn jstr | ClosedIn

datatype ws_stream_outcome = FrameUndecodable | StreamResult "(stream_failure \<times> jnum option) + nat \<times> nat" | ClosedBeforeFinal

text \<open>\<open>None\<close>: the promise is still open after these events.\<close>

fun receiveSignedWebSocketStream :: "crypto \<Rightarrow> (jstr \<Rightarrow> json option) \<Rightarrow> jstr \<Rightarrow> nat \<Rightarrow> stream_chunk list \<Rightarrow> ws_event list \<Rightarrow> ws_stream_outcome option" where
  "receiveSignedWebSocketStream C parse pub mx collected [] = None"
| "receiveSignedWebSocketStream C parse pub mx collected (ClosedIn # evs) = Some ClosedBeforeFinal"
| "receiveSignedWebSocketStream C parse pub mx collected (FrameIn raw # evs) =
    (case decodeStreamChunk parse raw of
       None \<Rightarrow> Some FrameUndecodable
     | Some c \<Rightarrow>
         if sc_f c then Some (StreamResult (verifyStream C (collected @ [c]) pub mx))
         else receiveSignedWebSocketStream C parse pub mx (collected @ [c]) evs)"

section \<open>The two sides together\<close>

lemma decode_encode:
  assumes "parse (print_json (chunk_json c)) = Some (chunk_json c)"
  shows "decodeStreamChunk parse (encodeStreamChunk c) = Some c"
proof -
  let ?v = "chunk_json c"
  have m: "jmember ?v ''i'' = Some (JNum (sc_i c))" "jmember ?v ''d'' = Some (JStr (sc_d c))" "jmember ?v ''h'' = Some (JStr (sc_h c))"
    "jmember ?v ''f'' = Some (JBool (sc_f c))" "jmember ?v ''sig'' = map_option JStr (sc_sig c)" "jmember ?v ''kid'' = map_option JStr (sc_kid c)"
    by (auto simp: chunk_json_def opt_field_def ascii_eval split: option.splits)
  have o: "optional_string (map_option JStr x) = Some x" for x by (cases x) (simp_all add: optional_string_def)
  show ?thesis using assms by (simp add: decodeStreamChunk_def encodeStreamChunk_def m o)
qed

lemma receive_frames:
  assumes "\<And>x. x \<in> set cs \<union> {c} \<Longrightarrow> parse (print_json (chunk_json x)) = Some (chunk_json x)" "\<And>x. x \<in> set cs \<Longrightarrow> \<not> sc_f x" "sc_f c"
  shows "receiveSignedWebSocketStream C parse pub mx collected (map (\<lambda>x. FrameIn (encodeStreamChunk x)) (cs @ [c]) @ evs) =
    Some (StreamResult (verifyStream C (collected @ cs @ [c]) pub mx))"
  using assms
proof (induction cs arbitrary: collected)
  case Nil
  then have "decodeStreamChunk parse (encodeStreamChunk c) = Some c" by (intro decode_encode) simp
  with Nil.prems(3) show ?case by simp
next
  case (Cons x cs)
  have "decodeStreamChunk parse (encodeStreamChunk x) = Some x" using Cons.prems(1) by (intro decode_encode) simp
  moreover have "receiveSignedWebSocketStream C parse pub mx (collected @ [x]) (map (\<lambda>x. FrameIn (encodeStreamChunk x)) (cs @ [c]) @ evs) =
      Some (StreamResult (verifyStream C ((collected @ [x]) @ cs @ [c]) pub mx))"
    by (rule Cons.IH) (use Cons.prems in auto)
  ultimately show ?case using Cons.prems(2) by simp
qed

lemma write_both:
  assumes "wz_closing s = Listening" "wz_pending s = []"
  shows "ws_signer_step C D (ws_signer_step C D s (Incoming d)) (ChunkSigned 0) =
    (case writeChunk C D (wz_writer s) d of
       (w, None) \<Rightarrow> s\<lparr>wz_writer := w\<rparr>
     | (w, Some c) \<Rightarrow> s\<lparr>wz_writer := w, wz_sent := wz_sent s @ [c]\<rparr>)"
proof -
  have h: "computeChunkHmac C D (w\<lparr>sw_seq := n\<rparr>) i d = computeChunkHmac C D w i d" for w n i d
    by (simp add: computeChunkHmac_def split: option.split)
  show ?thesis
  proof (cases "computeChunkHmac C D (wz_writer s) (sw_seq (wz_writer s)) d")
    case None
    with assms show ?thesis by (simp add: write_begin_def write_end_def writeChunk_def h Let_def)
  next
    case (Some t)
    with assms show ?thesis by (simp add: write_begin_def write_end_def writeChunk_def h Let_def)
  qed
qed

lemma write_in_turn:
  assumes "wz_closing s = Listening" "wz_pending s = []" "write_all C D (wz_writer s) ds = Some (w, cs)"
  shows "foldl (ws_signer_step C D) s (concat (map (\<lambda>d. [Incoming d, ChunkSigned 0]) ds)) = s\<lparr>wz_writer := w, wz_sent := wz_sent s @ cs\<rparr>"
  using assms
proof (induction ds arbitrary: s cs)
  case (Cons d ds)
  obtain w1 c cs' where c: "writeChunk C D (wz_writer s) d = (w1, Some c)" "write_all C D w1 ds = Some (w, cs')" "cs = c # cs'"
    using Cons.prems(3) by (auto split: prod.splits option.splits)
  from Cons.IH [of "s\<lparr>wz_writer := w1, wz_sent := wz_sent s @ [c]\<rparr>"] write_both [OF Cons.prems(1,2)] Cons.prems(1,2) c
  show ?case by simp
qed simp

lemma written_not_final: "write_all C D w ds = Some (w', cs) \<Longrightarrow> \<forall>c \<in> set cs. \<not> sc_f c"
  by (induction ds arbitrary: w w' cs) (auto simp: writeChunk_def Let_def split: prod.splits option.splits)

lemma close_in_turn:
  assumes "wz_closing s = Listening" "writer_finalize C D (wz_writer s) = Some c"
  shows "wz_sent (foldl (ws_signer_step C D) s [SocketClosed, KeyReady, FinalSigned]) = wz_sent s @ [c]"
  using assms by (auto simp: writer_finalize_def final_read_def final_send_def Let_def split: option.splits)

lemma in_turn_sends:
  assumes "signStream C D ds w = Some frames"
  shows "wz_sent (createSignedWebSocketStream C D w (concat (map (\<lambda>d. [Incoming d, ChunkSigned 0]) ds) @ [SocketClosed, KeyReady, FinalSigned])) = frames"
proof -
  obtain w1 cs c where w1: "write_all C D w ds = Some (w1, cs)" "writer_finalize C D w1 = Some c" "frames = cs @ [c]"
    using assms by (auto simp: signStream_def split: option.splits prod.splits)
  have "foldl (ws_signer_step C D) (new_ws_signer w) (concat (map (\<lambda>d. [Incoming d, ChunkSigned 0]) ds)) = (new_ws_signer w)\<lparr>wz_writer := w1, wz_sent := cs\<rparr>"
    using write_in_turn [of "new_ws_signer w"] w1(1) by (simp add: new_ws_signer_def)
  with close_in_turn [of "(new_ws_signer w)\<lparr>wz_writer := w1, wz_sent := cs\<rparr>"] w1(2,3) show ?thesis
    by (simp add: createSignedWebSocketStream_def new_ws_signer_def)
qed

section \<open>Properties\<close>

text \<open>When every chunk is signed before the next message or the closing arrives, the frames put on the socket are those of signStream, and the receiver of these frames, whatever follows them, resolves with the total of bytes and the number of messages.\<close>

theorem ws_stream_delivered:
  assumes "ed_pair C priv pub" "hkdf_ok C D priv nn" "\<forall>m. ed_sign_raw C (fromBase64Url priv) m \<noteq> []" "length ds \<le> mx"
    and "\<forall>c. parse (print_json (chunk_json c)) = Some (chunk_json c)"
  shows "\<exists>frames. wz_sent (createSignedWebSocketStream C D (new_writer priv nn kid)
      (concat (map (\<lambda>d. [Incoming d, ChunkSigned 0]) ds) @ [SocketClosed, KeyReady, FinalSigned])) = frames
    \<and> receiveSignedWebSocketStream C parse pub mx [] (map (\<lambda>x. FrameIn (encodeStreamChunk x)) frames @ evs) =
      Some (StreamResult (Inr (\<Sum>d \<leftarrow> ds. length (utf8Encode d), length ds)))"
proof -
  obtain cs c where cs: "signStream C D ds (new_writer priv nn kid) = Some (cs @ [c])" "map chunk_key cs = fin_keys (enumerate_from 0 ds)"
    "sc_f c" "sc_sig c = Some (toBase64Url (ed_sign_raw C (fromBase64Url priv) (sha256_raw C (buildContentMessage (enumerate_from 0 ds)))))"
    using signStream_ok [OF assms(2,1)] by blast
  have "\<forall>x \<in> set cs. \<not> sc_f x"
    using cs(1) written_not_final by (auto simp: signStream_def split: option.splits)
  then have r: "receiveSignedWebSocketStream C parse pub mx [] (map (\<lambda>x. FrameIn (encodeStreamChunk x)) (cs @ [c]) @ evs) =
      Some (StreamResult (verifyStream C (cs @ [c]) pub mx))"
    using receive_frames [of cs c parse] assms(5) cs(3) by auto
  have "import_ed_pub C pub = Some (fromBase64Url pub)" using assms(1) by (simp add: import_ed_pub_def ed_pair_def)
  then have "verifyStream C (cs @ [c]) pub mx = Inr (\<Sum>d \<leftarrow> ds. length (utf8Encode d), length ds)"
    using verifyStream_ok [OF cs(2) assms(4) cs(3,4) toBase64Url_nonempty] assms(1,3) by (simp add: ed_pair_def base64url_roundtrip)
  with r in_turn_sends [OF cs(1)] show ?thesis by auto
qed

text \<open>A socket that closes while the HMAC of its last chunk is being computed: the content of the final signature is read before the chunk is recorded, the chunk is sent all the same, and the receiver refuses the whole stream although nobody interfered.\<close>

theorem close_drops_pending_chunk:
  assumes "ed_pair C priv pub" "hkdf_ok C D priv nn" "0 < mx" "ed_sign_raw C (fromBase64Url priv) (sha256_raw C []) \<noteq> []"
    and "\<not> ed_verify_raw C (fromBase64Url pub) (ed_sign_raw C (fromBase64Url priv) (sha256_raw C [])) (sha256_raw C (buildContentMessage [(0, d)]))"
  shows "\<exists>frames. wz_sent (createSignedWebSocketStream C D (new_writer priv nn kid)
      [Incoming d, SocketClosed, KeyReady, ChunkSigned 0, FinalSigned]) = frames
    \<and> map sc_d frames = [d, []] \<and> verifyStream C frames pub mx = Inl (StreamSignatureFailed, None)"
proof -
  let ?w = "(new_writer priv nn kid)\<lparr>sw_seq := 1\<rparr>"
  have imp: "import_ed_priv C priv = Some (fromBase64Url priv)" "import_ed_pub C pub = Some (fromBase64Url pub)"
    using assms(1) by (simp_all add: import_ed_priv_def import_ed_pub_def ed_pair_def)
  have "hkdf_ok C D (sw_privateKey ?w) (sw_nonce ?w)" using assms(2) by (simp add: new_writer_def)
  then obtain h1 where h1: "computeChunkHmac C D ?w 0 d = Some h1" using chunk_hmac_some by blast
  let ?w2 = "?w\<lparr>sw_accum := [(0, d)]\<rparr>"
  have "hkdf_ok C D (sw_privateKey ?w2) (sw_nonce ?w2)" using assms(2) by (simp add: new_writer_def)
  then obtain h2 where h2: "computeChunkHmac C D ?w2 1 (toBase64Url (sha256_raw C (buildContentMessage []))) = Some h2" using chunk_hmac_some by blast
  let ?c1 = "\<lparr>sc_i = Fin 0, sc_d = d, sc_h = h1, sc_f = False, sc_sig = None, sc_kid = None\<rparr>"
  let ?sg = "toBase64Url (ed_sign_raw C (fromBase64Url priv) (sha256_raw C (buildContentMessage [])))"
  let ?c2 = "\<lparr>sc_i = Fin 1, sc_d = [], sc_h = h2, sc_f = True, sc_sig = Some ?sg, sc_kid = Some kid\<rparr>"
  have sent: "wz_sent (createSignedWebSocketStream C D (new_writer priv nn kid) [Incoming d, SocketClosed, KeyReady, ChunkSigned 0, FinalSigned]) = [?c1, ?c2]"
    using h1 h2 imp(1) by (simp add: createSignedWebSocketStream_def new_ws_signer_def new_writer_def write_begin_def write_end_def
      final_read_def final_send_def Let_def)
  have e: "buildContentMessage [] = []" by (simp add: buildContentMessage_def utf8Encode_def)
  have ne: "?sg \<noteq> []" using toBase64Url_nonempty assms(4) by (simp add: e)
  have "verifyStream C [?c1, ?c2] pub mx = Inl (StreamSignatureFailed, None)"
    using assms(3,5) ne by (simp add: verifyStream_def receiveChunk_def new_reader_def reader_finalize_def imp(2) base64url_roundtrip e)
  with sent show ?thesis by simp
qed

end
