(* ===== verification/ToolPinning.thy ===== *)
theory ToolPinning
  imports Digest JsMap KeyRegistry
begin

text \<open>
  \<open>src/mcpToolPinning.ts\<close>: digests of the tools a server lists, the scan for hidden text, signed
  pin sets, the inspection of a list of tools and the guarded client. Tools, requests and
  responses are JSON values as they were received; \<open>None\<close> is an exception. The members of an
  object stand in the order in which the language enumerates them.
\<close>

section \<open>Digests\<close>

definition DIGEST_FIELDS :: "string list" where
  "DIGEST_FIELDS = [''name'', ''title'', ''description'', ''inputSchema'', ''outputSchema'', ''annotations'']"

definition picked_fields :: "json \<Rightarrow> (jstr \<times> json) list" where
  "picked_fields t = List.map_filter (\<lambda>f. map_option (Pair (js f)) (jmember t f)) DIGEST_FIELDS"

definition mcpToolDigest :: "crypto \<Rightarrow> json \<Rightarrow> jstr option" where
  "mcpToolDigest C t = map_option (sha256Hex C) (stableStringify (JObj (picked_fields t)))"

section \<open>Hidden text\<close>

datatype finding_kind = InvisibleCharacter | BidiControl | TagCharacter | ControlCharacter | OversizedText

record tool_finding =
  tf_kind :: finding_kind
  tf_path :: jstr
  tf_codePoint :: "jstr option"

definition MAX_TOOL_TEXT_LENGTH :: nat where
  "MAX_TOOL_TEXT_LENGTH = 8000"

definition MAX_SCAN_DEPTH :: nat where
  "MAX_SCAN_DEPTH = 32"

definition MAX_SCAN_STRINGS :: nat where
  "MAX_SCAN_STRINGS = 5000"

definition classifyCodePoint :: "nat \<Rightarrow> finding_kind option" where
  "classifyCodePoint cp =
    (if 0xe0000 \<le> cp \<and> cp \<le> 0xe007f then Some TagCharacter
     else if 0x202a \<le> cp \<and> cp \<le> 0x202e \<or> 0x2066 \<le> cp \<and> cp \<le> 0x2069 then Some BidiControl
     else if 0x200b \<le> cp \<and> cp \<le> 0x200f \<or> 0x2060 \<le> cp \<and> cp \<le> 0x2064 \<or> cp = 0xfeff \<or> cp = 0x00ad \<or> cp = 0x034f
       \<or> cp = 0x061c \<or> 0xfe00 \<le> cp \<and> cp \<le> 0xfe0f \<or> 0xe0100 \<le> cp \<and> cp \<le> 0xe01ef \<or> cp = 0x115f \<or> cp = 0x1160
       \<or> cp = 0x3164 \<or> cp = 0xffa0 then Some InvisibleCharacter
     else if cp < 0x20 \<and> cp \<noteq> 0x09 \<and> cp \<noteq> 0x0a \<and> cp \<noteq> 0x0d \<or> 0x7f \<le> cp \<and> cp \<le> 0x9f then Some ControlCharacter
     else None)"

fun hex_text :: "nat \<Rightarrow> jstr" where
  "hex_text n = (if n < 16 then [hex_upper n] else hex_text (n div 16) @ [hex_upper (n mod 16)])"

definition code_point_text :: "nat \<Rightarrow> jstr" where
  "code_point_text cp = js ''U+'' @ replicate (4 - length (hex_text cp)) 48 @ hex_text cp"

text \<open>
  The set of keys that were reported is the list of findings itself. A surrogate on its own
  is read as U+FFFD here; neither is in any class.
\<close>

definition scan_code_point :: "jstr \<Rightarrow> tool_finding list \<Rightarrow> nat \<Rightarrow> tool_finding list" where
  "scan_code_point loc fs cp =
    (case classifyCodePoint cp of
       None \<Rightarrow> fs
     | Some k \<Rightarrow> let f = \<lparr>tf_kind = k, tf_path = loc, tf_codePoint = Some (code_point_text cp)\<rparr> in
         if f \<in> set fs then fs else fs @ [f])"

definition scan_string :: "jstr \<Rightarrow> jstr \<Rightarrow> tool_finding list \<Rightarrow> tool_finding list" where
  "scan_string s loc fs =
    foldl (scan_code_point loc)
      (if MAX_TOOL_TEXT_LENGTH < length s then fs @ [\<lparr>tf_kind = OversizedText, tf_path = loc, tf_codePoint = None\<rparr>] else fs)
      (code_points s)"

type_synonym scan_state = "nat \<times> tool_finding list"

text \<open>One visit counted.\<close>

definition visit :: "scan_state \<Rightarrow> scan_state" where
  "visit st = (Suc (fst st), snd st)"

definition budget_spent :: "scan_state \<Rightarrow> bool" where
  "budget_spent st \<longleftrightarrow> MAX_SCAN_STRINGS < fst st"

function (sequential) walk :: "json \<Rightarrow> jstr \<Rightarrow> nat \<Rightarrow> scan_state \<Rightarrow> scan_state"
and walk_items :: "json list \<Rightarrow> jstr \<Rightarrow> nat \<Rightarrow> nat \<Rightarrow> scan_state \<Rightarrow> scan_state"
and walk_members :: "(jstr \<times> json) list \<Rightarrow> jstr \<Rightarrow> nat \<Rightarrow> scan_state \<Rightarrow> scan_state" where
  "walk (JStr s) loc depth st = (if budget_spent st then visit st else (Suc (fst st), scan_string s loc (snd st)))"
| "walk (JArr vs) loc depth st =
    (if budget_spent st \<or> MAX_SCAN_DEPTH \<le> depth then visit st else walk_items vs loc depth 0 (visit st))"
| "walk (JObj kvs) loc depth st =
    (if budget_spent st \<or> MAX_SCAN_DEPTH \<le> depth then visit st else walk_members kvs loc depth (visit st))"
| "walk v loc depth st = visit st"
| "walk_items [] loc depth i st = st"
| "walk_items (v # vs) loc depth i st =
    walk_items vs loc depth (Suc i) (walk v (loc @ js ''['' @ show_nat i @ js '']'') (Suc depth) st)"
| "walk_members [] loc depth st = st"
| "walk_members ((k, v) # kvs) loc depth st =
    walk_members kvs loc depth
      (walk v (if loc = [] then k else loc @ 46 # k) (Suc depth) (fst st, scan_string k (loc @ js ''{key}'') (snd st)))"
  by pat_completeness auto
termination
  by (relation "measure (\<lambda>x. case x of
      Inl (v, _) \<Rightarrow> size v
    | Inr (Inl (vs, _)) \<Rightarrow> size_list size vs
    | Inr (Inr (kvs, _)) \<Rightarrow> size_list (size_prod (\<lambda>_. 0) size) kvs)") auto

definition scan_field :: "json \<Rightarrow> scan_state \<Rightarrow> string \<Rightarrow> scan_state" where
  "scan_field t st f = (case jmember t f of None \<Rightarrow> st | Some v \<Rightarrow> walk v (js f) 0 st)"

definition scanTool :: "json \<Rightarrow> tool_finding list" where
  "scanTool t = snd (foldl (scan_field t) (0, []) DIGEST_FIELDS)"

section \<open>Pin sets\<close>

definition TOOL_PINS_VERSION :: jstr where
  "TOOL_PINS_VERSION = js ''7h3-toolpins/1''"

datatype pin_failure = ToolWithoutName | DuplicateTool jstr | HiddenText jstr finding_kind jstr | DigestThrows

definition tool_name :: "json \<Rightarrow> jstr" where
  "tool_name t = (case jmember t ''name'' of Some (JStr s) \<Rightarrow> s | _ \<Rightarrow> [])"

fun pin_loop :: "crypto \<Rightarrow> jstr list \<Rightarrow> json list \<Rightarrow> pin_failure + (jstr \<times> jstr) list" where
  "pin_loop C names [] = Inr []"
| "pin_loop C names (t # ts) =
    (if tool_name t = [] then Inl ToolWithoutName
     else if tool_name t \<in> set names then Inl (DuplicateTool (tool_name t))
     else (case scanTool t of
       f # _ \<Rightarrow> Inl (HiddenText (tool_name t) (tf_kind f) (tf_path f))
     | [] \<Rightarrow> (case mcpToolDigest C t of
         None \<Rightarrow> Inl DigestThrows
       | Some d \<Rightarrow> map_sum id (Cons (tool_name t, d)) (pin_loop C (tool_name t # names) ts))))"

definition pin_json :: "jstr \<times> jstr \<Rightarrow> json" where
  "pin_json p = JObj [(js ''name'', JStr (fst p)), (js ''digest'', JStr (snd p))]"

text \<open>\<open>approvedBy\<close> is left out when it is undefined or empty.\<close>

definition pinTools :: "crypto \<Rightarrow> jstr \<Rightarrow> json list \<Rightarrow> jstr option \<Rightarrow> int \<Rightarrow> pin_failure + json" where
  "pinTools C server tools approvedBy now =
    map_sum id (\<lambda>pins. JObj ([(js ''version'', JStr TOOL_PINS_VERSION), (js ''server'', JStr server),
        (js ''pins'', JArr (map pin_json (sort_key fst pins))), (js ''approvedAt'', JNum (Fin now))]
      @ (case approvedBy of Some (c # s) \<Rightarrow> [(js ''approvedBy'', JStr (c # s))] | _ \<Rightarrow> []))) (pin_loop C [] tools)"

definition or_null :: "json option \<Rightarrow> json" where
  "or_null v = (case v of None \<Rightarrow> JNull | Some x \<Rightarrow> x)"

text \<open>\<open>None\<close> where a member is undefined, which the printer refuses.\<close>

definition canonical_pin :: "json \<Rightarrow> json option" where
  "canonical_pin x =
    (case (jmember x ''name'', jmember x ''digest'') of
       (Some n, Some d) \<Rightarrow> Some (JObj [(js ''name'', n), (js ''digest'', d)])
     | _ \<Rightarrow> None)"

definition canonicalPins :: "json \<Rightarrow> jstr option" where
  "canonicalPins p =
    (case (jmember p ''version'', jmember p ''server'', jmember p ''pins'', jmember p ''approvedAt'') of
       (Some v, Some s, Some (JArr xs), Some a) \<Rightarrow>
         (case all_some (map canonical_pin xs) of
            None \<Rightarrow> None
          | Some ps \<Rightarrow> stableStringify (JObj [(js ''version'', v), (js ''server'', s), (js ''pins'', JArr ps), (js ''approvedAt'', a),
              (js ''approvedBy'', or_null (jmember p ''approvedBy'')), (js ''keyId'', or_null (jmember p ''keyId''))]))
     | _ \<Rightarrow> None)"

text \<open>The spread of an object with one member replaced or added.\<close>

definition with_member :: "json \<Rightarrow> string \<Rightarrow> json \<Rightarrow> json" where
  "with_member v name x = (case v of JObj kvs \<Rightarrow> JObj (mset_key kvs (js name) x) | _ \<Rightarrow> JObj [(js name, x)])"

definition signToolPins :: "crypto \<Rightarrow> json \<Rightarrow> jstr \<Rightarrow> jstr \<Rightarrow> json option" where
  "signToolPins C set' priv kid =
    (let withKey = with_member set' ''keyId'' (JStr kid) in
     case canonicalPins withKey of
       None \<Rightarrow> None
     | Some t \<Rightarrow> map_option (\<lambda>s. with_member withKey ''signature'' (JStr s)) (signCanonicalPayloadEd25519 C t priv))"

datatype pins_failure = WrongServer | UnsupportedPinsVersion | InvalidPinsSignature | MalformedPins

definition pins_of :: "json \<Rightarrow> json list" where
  "pins_of v = (case jmember v ''pins'' of Some (JArr xs) \<Rightarrow> xs | _ \<Rightarrow> [])"

definition verified_set :: "json \<Rightarrow> json" where
  "verified_set v = JObj
    ([(js ''version'', or_null (jmember v ''version'')), (js ''server'', or_null (jmember v ''server'')),
      (js ''pins'', JArr (map (\<lambda>p. or_null (canonical_pin p)) (pins_of v))), (js ''approvedAt'', or_null (jmember v ''approvedAt''))]
     @ (if truthy_json (jmember v ''approvedBy'') then [(js ''approvedBy'', or_null (jmember v ''approvedBy''))] else []))"

definition verifyToolPins :: "crypto \<Rightarrow> json \<Rightarrow> jstr \<Rightarrow> jstr \<Rightarrow> pins_failure + json" where
  "verifyToolPins C v pub expectedServer =
    (if jmember v ''version'' \<noteq> Some (JStr TOOL_PINS_VERSION) then Inl UnsupportedPinsVersion
     else (case (jmember v ''pins'', jmember v ''signature'', jmember v ''keyId'') of
       (Some (JArr xs), Some (JStr sg), Some (JStr kid)) \<Rightarrow>
         if jmember v ''server'' \<noteq> Some (JStr expectedServer) then Inl WrongServer
         else (case (case canonicalPins v of None \<Rightarrow> None | Some t \<Rightarrow> verifyCanonicalPayloadEd25519 C t sg pub) of
           None \<Rightarrow> Inl MalformedPins
         | Some False \<Rightarrow> Inl InvalidPinsSignature
         | Some True \<Rightarrow> Inr (verified_set v))
     | _ \<Rightarrow> Inl MalformedPins))"

section \<open>Inspection\<close>

datatype tool_status = ToolOk | Unpinned | Changed | Suspicious | Duplicate

record tool_verdict =
  tv_name :: jstr
  tv_status :: tool_status
  tv_blocked :: bool
  tv_currentDigest :: "jstr option"
  tv_pinnedDigest :: "json option"
  tv_findings :: "tool_finding list"

text \<open>The pins as they were read: name and digest of a pin may be missing or of any type.\<close>

record pin_guard =
  pg_pinned :: "(json option, json option) jsmap"
  pg_server :: "json option"
  pg_allowUnpinned :: bool

definition new_pin_guard :: "json \<Rightarrow> bool \<Rightarrow> pin_guard option" where
  "new_pin_guard set' allow =
    (if jmember set' ''version'' \<noteq> Some (JStr TOOL_PINS_VERSION) then None
     else (case jmember set' ''pins'' of
       Some (JArr xs) \<Rightarrow>
         if JNull \<in> set xs then None
         else Some \<lparr>pg_pinned = foldl (\<lambda>m p. mset_key m (jmember p ''name'') (jmember p ''digest'')) [] xs,
           pg_server = jmember set' ''server'', pg_allowUnpinned = allow\<rparr>
     | _ \<Rightarrow> None))"

definition pinned_digest :: "pin_guard \<Rightarrow> jstr \<Rightarrow> json option" where
  "pinned_digest g nm = (case mget (pg_pinned g) (Some (JStr nm)) of None \<Rightarrow> None | Some d \<Rightarrow> d)"

definition isPinned :: "pin_guard \<Rightarrow> jstr \<Rightarrow> bool" where
  "isPinned g nm \<longleftrightarrow> mget (pg_pinned g) (Some (JStr nm)) \<noteq> None"

definition pinCount :: "pin_guard \<Rightarrow> nat" where
  "pinCount g = msize (pg_pinned g)"

definition judge_tool :: "pin_guard \<Rightarrow> json \<Rightarrow> jstr \<Rightarrow> tool_verdict" where
  "judge_tool g t d =
    (let v = \<lparr>tv_name = tool_name t, tv_status = ToolOk, tv_blocked = False, tv_currentDigest = Some d,
           tv_pinnedDigest = pinned_digest g (tool_name t), tv_findings = []\<rparr> in
     if scanTool t \<noteq> [] then v\<lparr>tv_status := Suspicious, tv_blocked := True, tv_findings := scanTool t\<rparr>
     else if pinned_digest g (tool_name t) = None then v\<lparr>tv_status := Unpinned, tv_blocked := \<not> pg_allowUnpinned g\<rparr>
     else if pinned_digest g (tool_name t) \<noteq> Some (JStr d) then v\<lparr>tv_status := Changed, tv_blocked := True\<rparr>
     else v)"

definition pin_first :: "pin_guard \<Rightarrow> tool_verdict \<Rightarrow> jstr \<Rightarrow> pin_guard" where
  "pin_first g v d =
    (if tv_status v = Unpinned \<and> pg_allowUnpinned g then g\<lparr>pg_pinned := mset_key (pg_pinned g) (Some (JStr (tv_name v))) (Some (JStr d))\<rparr> else g)"

definition occurrences :: "json list \<Rightarrow> jstr \<Rightarrow> nat" where
  "occurrences ts nm = length (filter (\<lambda>t. jmember t ''name'' = Some (JStr nm)) ts)"

definition plain_verdict :: "jstr \<Rightarrow> tool_status \<Rightarrow> tool_verdict" where
  "plain_verdict nm s = \<lparr>tv_name = nm, tv_status = s, tv_blocked = True, tv_currentDigest = None, tv_pinnedDigest = None, tv_findings = []\<rparr>"

text \<open>The loop over the tools; a digest that throws ends the inspection, the pins made so far stay.\<close>

fun inspect_loop :: "crypto \<Rightarrow> json list \<Rightarrow> pin_guard \<Rightarrow> jstr list \<Rightarrow> json list \<Rightarrow> pin_guard \<times> (tool_verdict list \<times> json list) option" where
  "inspect_loop C all g seen [] = (g, Some ([], []))"
| "inspect_loop C all g seen (t # ts) =
    (if tool_name t = [] then
       map_prod id (map_option (map_prod (Cons (plain_verdict [] Suspicious)) id)) (inspect_loop C all g seen ts)
     else if 1 < occurrences all (tool_name t) then
       map_prod id (map_option (map_prod (if tool_name t \<in> set seen then id else Cons (plain_verdict (tool_name t) Duplicate)) id))
         (inspect_loop C all g (tool_name t # seen) ts)
     else (case mcpToolDigest C t of
       None \<Rightarrow> (g, None)
     | Some d \<Rightarrow> let v = judge_tool g t d in
         map_prod id (map_option (map_prod (Cons v) (if tv_blocked v then id else Cons t)))
           (inspect_loop C all (pin_first g v d) seen ts)))"

record list_inspection =
  li_verdicts :: "tool_verdict list"
  li_allowed :: "json list"
  li_missing :: "json option list"

definition inspect :: "crypto \<Rightarrow> pin_guard \<Rightarrow> json list \<Rightarrow> pin_guard \<times> list_inspection option" where
  "inspect C g ts =
    (let (g', r) = inspect_loop C ts g [] ts in
     (g', map_option (\<lambda>(vs, al). \<lparr>li_verdicts = vs, li_allowed = al,
        li_missing = filter (\<lambda>n. n \<notin> (\<lambda>t. jmember t ''name'') ` set ts) (mkeys (pg_pinned g'))\<rparr>) r))"

section \<open>The guarded client\<close>

text \<open>
  \<open>srv\<close> is the wrapped call: it may change the state of the server and may throw.
  \<open>gh_verifiedAt = None\<close> stands for minus infinity; \<open>gh_reported\<close> collects the calls of
  \<open>onBlocked\<close>.
\<close>

type_synonym 's mcp_server = "'s \<Rightarrow> json \<Rightarrow> 's \<times> json option"

record guard_handle =
  gh_guard :: pin_guard
  gh_verified :: "(jstr, tool_verdict) jsmap"
  gh_verifiedAt :: "int option"
  gh_nextId :: nat
  gh_reported :: "tool_verdict list"

definition new_guard_handle :: "pin_guard \<Rightarrow> guard_handle" where
  "new_guard_handle g = \<lparr>gh_guard = g, gh_verified = [], gh_verifiedAt = None, gh_nextId = 0, gh_reported = []\<rparr>"

definition invalidate :: "guard_handle \<Rightarrow> guard_handle" where
  "invalidate h = h\<lparr>gh_verifiedAt := None\<rparr>"

definition result_tools :: "json \<Rightarrow> json option" where
  "result_tools res = (case jmember res ''result'' of None \<Rightarrow> None | Some r \<Rightarrow> jmember r ''tools'')"

definition isToolArray :: "json option \<Rightarrow> bool" where
  "isToolArray v = (case v of Some (JArr ts) \<Rightarrow> list_all (\<lambda>t. case t of JObj kvs \<Rightarrow> True | JArr vs \<Rightarrow> True | _ \<Rightarrow> False) ts | _ \<Rightarrow> False)"

definition listed_tools :: "json \<Rightarrow> json list option" where
  "listed_tools res =
    (if truthy_json (jmember res ''error'') \<or> \<not> isToolArray (result_tools res) then None
     else (case result_tools res of Some (JArr ts) \<Rightarrow> Some ts | _ \<Rightarrow> None))"

definition record_inspection :: "guard_handle \<Rightarrow> list_inspection \<Rightarrow> guard_handle" where
  "record_inspection h i = h\<lparr>gh_reported := gh_reported h @ filter tv_blocked (li_verdicts i)\<rparr>"

definition put_verdicts :: "(jstr, tool_verdict) jsmap \<Rightarrow> tool_verdict list \<Rightarrow> (jstr, tool_verdict) jsmap" where
  "put_verdicts m vs = foldl (\<lambda>m v. mset_key m (tv_name v) v) m vs"

text \<open>One page of a refresh.\<close>

datatype page_result = PageFailed | PageThrown | PageMore "(jstr, tool_verdict) jsmap" jstr | PageLast "(jstr, tool_verdict) jsmap"

definition page_step :: "crypto \<Rightarrow> guard_handle \<Rightarrow> (jstr, tool_verdict) jsmap \<Rightarrow> json \<Rightarrow> guard_handle \<times> page_result" where
  "page_step C h fresh res =
    (case listed_tools res of
       None \<Rightarrow> (h, PageFailed)
     | Some ts \<Rightarrow>
         (case inspect C (gh_guard h) ts of
            (g, None) \<Rightarrow> (h\<lparr>gh_guard := g\<rparr>, PageThrown)
          | (g, Some i) \<Rightarrow>
              let h' = record_inspection (h\<lparr>gh_guard := g\<rparr>) i; fresh' = put_verdicts fresh (li_verdicts i) in
              (case jmember (or_null (jmember res ''result'')) ''nextCursor'' of
                 Some (JStr (c # s)) \<Rightarrow> (h', PageMore fresh' (c # s))
               | _ \<Rightarrow> (h', PageLast fresh'))))"

definition finish_refresh :: "guard_handle \<Rightarrow> (jstr, tool_verdict) jsmap \<Rightarrow> int \<Rightarrow> guard_handle" where
  "finish_refresh h fresh now = h\<lparr>gh_verified := fresh, gh_verifiedAt := Some now\<rparr>"

definition list_request :: "nat \<Rightarrow> jstr option \<Rightarrow> json" where
  "list_request n cursor = JObj ([(js ''jsonrpc'', JStr (js ''2.0'')), (js ''id'', JStr (js ''7h3-guard-'' @ show_nat n)), (js ''method'', JStr (js ''tools/list''))]
    @ (case cursor of None \<Rightarrow> [] | Some c \<Rightarrow> [(js ''params'', JObj [(js ''cursor'', JStr c)])]))"

text \<open>The loop with the pages that are left; \<open>now\<close> is the clock when it ends. The result is None when a call or a digest throws.\<close>

fun refresh_loop :: "crypto \<Rightarrow> 's mcp_server \<Rightarrow> int \<Rightarrow> nat \<Rightarrow> 's \<Rightarrow> guard_handle \<Rightarrow> (jstr, tool_verdict) jsmap \<Rightarrow> jstr option \<Rightarrow> 's \<times> guard_handle \<times> bool option" where
  "refresh_loop C srv now 0 s h fresh cursor = (s, h, Some False)"
| "refresh_loop C srv now (Suc k) s h fresh cursor =
    (let h0 = h\<lparr>gh_nextId := Suc (gh_nextId h)\<rparr> in
     case srv s (list_request (gh_nextId h) cursor) of
       (s', None) \<Rightarrow> (s', h0, None)
     | (s', Some res) \<Rightarrow>
         (case page_step C h0 fresh res of
            (h', PageFailed) \<Rightarrow> (s', h', Some False)
          | (h', PageThrown) \<Rightarrow> (s', h', None)
          | (h', PageLast fresh') \<Rightarrow> (s', finish_refresh h' fresh' now, Some True)
          | (h', PageMore fresh' c) \<Rightarrow> refresh_loop C srv now k s' h' fresh' (Some c)))"

definition status_text :: "tool_status \<Rightarrow> jstr" where
  "status_text s = (case s of ToolOk \<Rightarrow> js ''ok'' | Unpinned \<Rightarrow> js ''unpinned'' | Changed \<Rightarrow> js ''changed'' | Suspicious \<Rightarrow> js ''suspicious'' | Duplicate \<Rightarrow> js ''duplicate'')"

definition blockedResponse :: "json \<Rightarrow> jstr \<Rightarrow> json" where
  "blockedResponse req reason' = JObj ([(js ''jsonrpc'', JStr (js ''2.0''))] @ opt_field ''id'' id (jmember req ''id'')
    @ [(js ''error'', JObj [(js ''code'', JNum (Fin (- 32001))), (js ''message'', JStr (js ''tool-blocked: '' @ reason'))])])"

record call_clock =
  cc_now :: int
  cc_after :: int

datatype call_decision = Forward | Refuse json | CallThrows

definition called_name :: "json \<Rightarrow> jstr option" where
  "called_name req =
    (case jmember req ''params'' of
       None \<Rightarrow> None
     | Some p \<Rightarrow> (case jmember p ''name'' of Some (JStr s) \<Rightarrow> Some s | _ \<Rightarrow> None))"

text \<open>What happens to \<open>tools/call\<close> before it is forwarded.\<close>

definition decide_call :: "crypto \<Rightarrow> 's mcp_server \<Rightarrow> int \<Rightarrow> nat \<Rightarrow> call_clock \<Rightarrow> 's \<Rightarrow> guard_handle \<Rightarrow> json \<Rightarrow> 's \<times> guard_handle \<times> call_decision" where
  "decide_call C srv maxAge maxPages T s h req =
    (case called_name req of
       None \<Rightarrow> (s, h, Forward)
     | Some nm \<Rightarrow>
         (let stale = (case gh_verifiedAt h of None \<Rightarrow> True | Some a \<Rightarrow> maxAge \<le> cc_now T - a);
              (s', h', r) = (if stale then refresh_loop C srv (cc_after T) maxPages s h [] None else (s, h, Some True)) in
          case r of
            None \<Rightarrow> (s', h', CallThrows)
          | Some False \<Rightarrow> (s', h', Refuse (blockedResponse req (js ''could not verify the server'' @ 39 # js ''s tool list'')))
          | Some True \<Rightarrow>
              (case mget (gh_verified h') nm of
                 None \<Rightarrow> (s', h', Refuse (blockedResponse req (39 # nm @ 39 # js '' is not a known tool'')))
               | Some v \<Rightarrow>
                   if tv_blocked v then (s', h', Refuse (blockedResponse req (39 # nm @ 39 # js '' is '' @ status_text (tv_status v))))
                   else (s', h', Forward))))"

definition guarded_list :: "crypto \<Rightarrow> 's mcp_server \<Rightarrow> 's \<Rightarrow> guard_handle \<Rightarrow> json \<Rightarrow> 's \<times> guard_handle \<times> json option" where
  "guarded_list C srv s h req =
    (case srv s req of
       (s', None) \<Rightarrow> (s', h, None)
     | (s', Some res) \<Rightarrow>
         (case listed_tools res of
            None \<Rightarrow> (s', h, Some res)
          | Some ts \<Rightarrow>
              (case inspect C (gh_guard h) ts of
                 (g, None) \<Rightarrow> (s', h\<lparr>gh_guard := g\<rparr>, None)
               | (g, Some i) \<Rightarrow>
                   (s', (record_inspection (h\<lparr>gh_guard := g\<rparr>) i)\<lparr>gh_verified := put_verdicts (gh_verified h) (li_verdicts i)\<rparr>,
                    Some (with_member res ''result'' (with_member (or_null (jmember res ''result'')) ''tools'' (JArr (li_allowed i))))))))"

definition guarded_call :: "crypto \<Rightarrow> 's mcp_server \<Rightarrow> int \<Rightarrow> nat \<Rightarrow> call_clock \<Rightarrow> 's \<Rightarrow> guard_handle \<Rightarrow> json \<Rightarrow> 's \<times> guard_handle \<times> json option" where
  "guarded_call C srv maxAge maxPages T s h req =
    (if jmember req ''method'' = Some (JStr (js ''tools/list'')) then guarded_list C srv s h req
     else if jmember req ''method'' = Some (JStr (js ''tools/call'')) then
       (case decide_call C srv maxAge maxPages T s h req of
          (s', h', Forward) \<Rightarrow> (let (s2, r) = srv s' req in (s2, h', r))
        | (s', h', Refuse r) \<Rightarrow> (s', h', Some r)
        | (s', h', CallThrows) \<Rightarrow> (s', h', None))
     else (let (s', r) = srv s req in (s', h, r)))"

text \<open>The life of a handle: calls, one after the other, and invalidations.\<close>

datatype handle_event = CallMade call_clock json | Invalidated

fun handle_run :: "crypto \<Rightarrow> 's mcp_server \<Rightarrow> int \<Rightarrow> nat \<Rightarrow> 's \<times> guard_handle \<Rightarrow> handle_event list \<Rightarrow> 's \<times> guard_handle" where
  "handle_run C srv maxAge maxPages (s, h) [] = (s, h)"
| "handle_run C srv maxAge maxPages (s, h) (Invalidated # evs) = handle_run C srv maxAge maxPages (s, invalidate h) evs"
| "handle_run C srv maxAge maxPages (s, h) (CallMade T req # evs) =
    (case guarded_call C srv maxAge maxPages T s h req of (s', h', _) \<Rightarrow> handle_run C srv maxAge maxPages (s', h') evs)"

end
