(* ===== verification/ToolPinningProps.thy ===== *)
theory ToolPinningProps
  imports ToolPinning WebReceipts
begin

text \<open>
  What the scan finds, what an inspection lets through, and the invariant of the guarded client:
  every unblocked verdict it holds is about a clean tool whose digest is the pinned one.
\<close>

section \<open>The scan\<close>

definition clean_text :: "jstr \<Rightarrow> bool" where
  "clean_text s \<longleftrightarrow> length s \<le> MAX_TOOL_TEXT_LENGTH \<and> (\<forall>cp \<in> set (code_points s). classifyCodePoint cp = None)"

fun clean_json :: "json \<Rightarrow> bool" where
  "clean_json (JStr s) = clean_text s"
| "clean_json (JArr vs) = (\<forall>v \<in> set vs. clean_json v)"
| "clean_json (JObj kvs) = (\<forall>(k, v) \<in> set kvs. clean_text k \<and> clean_json v)"
| "clean_json v = True"

text \<open>Within the depth the walk reaches, and the number of values it visits.\<close>

fun within_depth :: "nat \<Rightarrow> json \<Rightarrow> bool" where
  "within_depth d (JArr vs) = (d < MAX_SCAN_DEPTH \<and> (\<forall>v \<in> set vs. within_depth (Suc d) v))"
| "within_depth d (JObj kvs) = (d < MAX_SCAN_DEPTH \<and> (\<forall>(k, v) \<in> set kvs. within_depth (Suc d) v))"
| "within_depth d v = True"

fun node_count :: "json \<Rightarrow> nat" where
  "node_count (JArr vs) = Suc (sum_list (map node_count vs))"
| "node_count (JObj kvs) = Suc (sum_list (map (\<lambda>(k, v). node_count v) kvs))"
| "node_count v = 1"

lemma scan_code_point_grows: "\<exists>gs. scan_code_point loc fs cp = fs @ gs"
  by (auto simp: scan_code_point_def Let_def split: option.split)

lemma scan_code_points_grow: "\<exists>gs. foldl (scan_code_point loc) fs cps = fs @ gs"
proof (induction cps arbitrary: fs)
  case (Cons c cps)
  obtain gs where "scan_code_point loc fs c = fs @ gs" using scan_code_point_grows by blast
  with Cons.IH [of "fs @ gs"] show ?case by auto
qed simp

lemma scan_string_grows: "\<exists>gs. scan_string s loc fs = fs @ gs"
proof -
  let ?f = "if MAX_TOOL_TEXT_LENGTH < length s then [\<lparr>tf_kind = OversizedText, tf_path = loc, tf_codePoint = None\<rparr>] else []"
  obtain gs where "foldl (scan_code_point loc) (fs @ ?f) (code_points s) = (fs @ ?f) @ gs" using scan_code_points_grow by blast
  then show ?thesis unfolding scan_string_def by (intro exI [of _ "?f @ gs"]) auto
qed

lemma scan_code_points_nil:
  assumes "foldl (scan_code_point loc) fs cps = []"
  shows "fs = [] \<and> (\<forall>cp \<in> set cps. classifyCodePoint cp = None)"
  using assms
proof (induction cps arbitrary: fs)
  case (Cons c cps)
  from Cons.IH [of "scan_code_point loc fs c"] Cons.prems
  have "scan_code_point loc fs c = []" "\<forall>cp \<in> set cps. classifyCodePoint cp = None" by simp_all
  then show ?case by (auto simp: scan_code_point_def Let_def split: option.splits if_splits)
qed simp

lemma scan_string_nil: "scan_string s loc fs = [] \<Longrightarrow> fs = [] \<and> clean_text s"
  unfolding scan_string_def by (drule scan_code_points_nil) (auto simp: clean_text_def split: if_splits)

lemma walk_grows:
  "\<exists>gs. snd (walk v loc d st) = snd st @ gs"
  "\<exists>gs. snd (walk_items vs loc d i st) = snd st @ gs"
  "\<exists>gs. snd (walk_members kvs loc d st) = snd st @ gs"
proof (induction v loc d st and vs loc d i st and kvs loc d st rule: walk_walk_items_walk_members.induct)
  case (1 s loc depth st)
  then show ?case using scan_string_grows by (simp add: visit_def)
next
  case (6 v vs loc depth i st)
  then obtain gs hs where "snd (walk v (loc @ js ''['' @ show_nat i @ js '']'') (Suc depth) st) = snd st @ gs"
    "snd (walk_items (v # vs) loc depth i st) = snd (walk v (loc @ js ''['' @ show_nat i @ js '']'') (Suc depth) st) @ hs" by auto
  then show ?case by simp
next
  case (8 k v kvs loc depth st)
  obtain fs where "scan_string k (loc @ js ''{key}'') (snd st) = snd st @ fs" using scan_string_grows by blast
  moreover obtain gs where "snd (walk v (if loc = [] then k else loc @ 46 # k) (Suc depth) (fst st, scan_string k (loc @ js ''{key}'') (snd st)))
      = scan_string k (loc @ js ''{key}'') (snd st) @ gs" using 8(1) by auto
  moreover obtain hs where "snd (walk_members ((k, v) # kvs) loc depth st) =
      snd (walk v (if loc = [] then k else loc @ 46 # k) (Suc depth) (fst st, scan_string k (loc @ js ''{key}'') (snd st))) @ hs" using 8(2) by auto
  ultimately show ?case by simp
qed (auto simp: visit_def)

lemma walk_complete:
  "fst st + node_count v \<le> Suc MAX_SCAN_STRINGS \<Longrightarrow> within_depth d v \<Longrightarrow> snd (walk v loc d st) = [] \<Longrightarrow>
    clean_json v \<and> fst (walk v loc d st) = fst st + node_count v"
  "fst st + sum_list (map node_count vs) \<le> Suc MAX_SCAN_STRINGS \<Longrightarrow> \<forall>v \<in> set vs. within_depth (Suc d) v \<Longrightarrow> snd (walk_items vs loc d i st) = [] \<Longrightarrow>
    (\<forall>v \<in> set vs. clean_json v) \<and> fst (walk_items vs loc d i st) = fst st + sum_list (map node_count vs)"
  "fst st + sum_list (map (\<lambda>(k, v). node_count v) kvs) \<le> Suc MAX_SCAN_STRINGS \<Longrightarrow> \<forall>(k, v) \<in> set kvs. within_depth (Suc d) v \<Longrightarrow> snd (walk_members kvs loc d st) = [] \<Longrightarrow>
    (\<forall>(k, v) \<in> set kvs. clean_text k \<and> clean_json v) \<and> fst (walk_members kvs loc d st) = fst st + sum_list (map (\<lambda>(k, v). node_count v) kvs)"
proof (induction v loc d st and vs loc d i st and kvs loc d st rule: walk_walk_items_walk_members.induct)
  case (1 s loc depth st)
  then show ?case using scan_string_nil [of s loc "snd st"] by (simp add: budget_spent_def)
next
  case (2 vs loc depth st)
  from 2(2,3) have nb: "\<not> (budget_spent st \<or> MAX_SCAN_DEPTH \<le> depth)" by (simp add: budget_spent_def)
  with 2(4) have "snd (walk_items vs loc depth 0 (visit st)) = []" by simp
  from 2(1) [OF nb _ _ this] 2(2,3) nb show ?case by (simp add: visit_def)
next
  case (3 kvs loc depth st)
  from 3(2,3) have nb: "\<not> (budget_spent st \<or> MAX_SCAN_DEPTH \<le> depth)" by (simp add: budget_spent_def)
  with 3(4) have "snd (walk_members kvs loc depth (visit st)) = []" by simp
  from 3(1) [OF nb _ _ this] 3(2,3) nb show ?case by (simp add: visit_def)
next
  case (6 v vs loc depth i st)
  let ?w = "walk v (loc @ js ''['' @ show_nat i @ js '']'') (Suc depth) st"
  have r: "snd (walk_items vs loc depth (Suc i) ?w) = []" using 6(5) by simp
  then have w: "snd ?w = []" using walk_grows(2) [of vs loc depth "Suc i" ?w] by auto
  from 6(1) [OF _ _ w] 6(3,4) have v: "clean_json v" "fst ?w = fst st + node_count v" by simp_all
  from 6(2) [OF _ _ r] 6(3,4) v show ?case by simp
next
  case (8 k v kvs loc depth st)
  let ?s = "scan_string k (loc @ js ''{key}'') (snd st)"
  let ?w = "walk v (if loc = [] then k else loc @ 46 # k) (Suc depth) (fst st, ?s)"
  have r: "snd (walk_members kvs loc depth ?w) = []" using 8(5) by simp
  then have w: "snd ?w = []" using walk_grows(3) [of kvs loc depth ?w] by auto
  then have "?s = []" using walk_grows(1) [of v _ "Suc depth" "(fst st, ?s)"] by (metis append_is_Nil_conv snd_conv)
  then have k: "clean_text k" using scan_string_nil by blast
  from 8(1) [OF _ _ w] 8(3,4) have v: "clean_json v" "fst ?w = fst st + node_count v" by simp_all
  from 8(2) [OF _ _ r] 8(3,4) v k show ?case by simp
qed (auto simp: visit_def)

definition field_nodes :: "json \<Rightarrow> string \<Rightarrow> nat" where
  "field_nodes t f = (case jmember t f of None \<Rightarrow> 0 | Some v \<Rightarrow> node_count v)"

lemma scan_fields_grow: "\<exists>gs. snd (foldl (scan_field t) st fs) = snd st @ gs"
proof (induction fs arbitrary: st)
  case (Cons f fs)
  have "\<exists>gs. snd (scan_field t st f) = snd st @ gs"
    using walk_grows(1) by (cases "jmember t f") (simp_all add: scan_field_def del: split_paired_All)
  then obtain gs where "snd (scan_field t st f) = snd st @ gs" by blast
  moreover obtain hs where "snd (foldl (scan_field t) (scan_field t st f) fs) = snd (scan_field t st f) @ hs" using Cons.IH by blast
  ultimately show ?case by simp
qed simp

lemma scan_fields_complete:
  assumes "snd (foldl (scan_field t) st fs) = []" "fst st + sum_list (map (field_nodes t) fs) \<le> Suc MAX_SCAN_STRINGS"
    and "\<And>f v. f \<in> set fs \<Longrightarrow> jmember t f = Some v \<Longrightarrow> within_depth 0 v" "f \<in> set fs" "jmember t f = Some v"
  shows "clean_json v"
  using assms
proof (induction fs arbitrary: st)
  case (Cons g fs)
  let ?st = "scan_field t st g"
  have r: "snd (foldl (scan_field t) ?st fs) = []" using Cons.prems(1) by simp
  then have w: "snd ?st = []" using scan_fields_grow [of t ?st fs] by auto
  have s: "fst ?st = fst st + field_nodes t g \<and> (\<forall>v. jmember t g = Some v \<longrightarrow> clean_json v)"
  proof (cases "jmember t g")
    case None
    then show ?thesis by (simp add: scan_field_def field_nodes_def)
  next
    case (Some u)
    have "within_depth 0 u" using Cons.prems(3) [OF _ Some] by simp
    with walk_complete(1) [of st u 0 "js g"] w Cons.prems(2) Some show ?thesis
      by (simp add: scan_field_def field_nodes_def)
  qed
  show ?case
  proof (cases "f = g")
    case True
    with s Cons.prems(5) show ?thesis by simp
  next
    case False
    with Cons.prems have f: "f \<in> set fs" by simp
    have b: "fst ?st + sum_list (map (field_nodes t) fs) \<le> Suc MAX_SCAN_STRINGS" using s Cons.prems(2) by simp
    show ?thesis by (rule Cons.IH [OF r b _ f Cons.prems(5)]) (use Cons.prems(3) in auto)
  qed
qed simp

section \<open>Inspections\<close>

text \<open>A tool that an inspection lets through: clean, and, unless first use is trusted, with the pinned digest.\<close>

definition tool_passes :: "crypto \<Rightarrow> pin_guard \<Rightarrow> json \<Rightarrow> jstr \<Rightarrow> bool" where
  "tool_passes C g t nm \<longleftrightarrow> tool_name t = nm \<and> nm \<noteq> [] \<and> scanTool t = [] \<and>
    (\<exists>d. mcpToolDigest C t = Some d \<and> (\<not> pg_allowUnpinned g \<longrightarrow> pinned_digest g nm = Some (JStr d)))"

lemma judge_passes: "mcpToolDigest C t = Some d \<Longrightarrow> tool_name t \<noteq> [] \<Longrightarrow> \<not> tv_blocked (judge_tool g t d) \<Longrightarrow> tool_passes C g t (tool_name t)"
  by (auto simp: judge_tool_def tool_passes_def Let_def split: if_splits)

lemma judge_name: "tv_name (judge_tool g t d) = tool_name t"
  by (simp add: judge_tool_def Let_def)

lemma passes_pin_first: "tool_passes C (pin_first g v d) t nm \<Longrightarrow> \<not> pg_allowUnpinned g \<Longrightarrow> tool_passes C g t nm"
  by (simp add: pin_first_def)

lemma pin_first_allow: "pg_allowUnpinned (pin_first g v d) = pg_allowUnpinned g"
  by (simp add: pin_first_def)

lemma inspect_loop_guard:
  "pg_allowUnpinned (fst (inspect_loop C all g seen ts)) = pg_allowUnpinned g \<and> (\<not> pg_allowUnpinned g \<longrightarrow> fst (inspect_loop C all g seen ts) = g)"
proof (induction ts arbitrary: g seen)
  case (Cons t ts)
  then show ?case by (simp add: Let_def pin_first_allow split: option.split) (simp add: pin_first_def)
qed simp

lemma passes_trusting: "pg_allowUnpinned g = pg_allowUnpinned g' \<Longrightarrow> pg_allowUnpinned g \<Longrightarrow> tool_passes C g' t nm \<Longrightarrow> tool_passes C g t nm"
  by (auto simp: tool_passes_def)

lemma inspect_loop_sound:
  assumes "inspect_loop C all g seen ts = (g', Some (vs, al))"
  shows "(\<forall>t \<in> set al. t \<in> set ts \<and> tool_passes C g t (tool_name t) \<and> occurrences all (tool_name t) \<le> 1)
    \<and> (\<forall>v \<in> set vs. \<not> tv_blocked v \<longrightarrow> (\<exists>t \<in> set al. tool_name t = tv_name v))"
  using assms
proof (induction ts arbitrary: g seen vs al)
  case (Cons t ts)
  consider "tool_name t = []" | "tool_name t \<noteq> []" "1 < occurrences all (tool_name t)"
    | d where "tool_name t \<noteq> []" "\<not> 1 < occurrences all (tool_name t)" "mcpToolDigest C t = Some d"
    using Cons.prems by (cases "mcpToolDigest C t") (auto split: if_splits)
  then show ?case
  proof cases
    case 1
    then obtain vs' where "inspect_loop C all g seen ts = (g', Some (vs', al))" "vs = plain_verdict [] Suspicious # vs'"
      using Cons.prems by (cases "inspect_loop C all g seen ts") auto
    from Cons.IH [OF this(1)] this(2) show ?thesis by (auto simp: plain_verdict_def)
  next
    case 2
    then obtain vs' where "inspect_loop C all g (tool_name t # seen) ts = (g', Some (vs', al))"
      "vs = (if tool_name t \<in> set seen then vs' else plain_verdict (tool_name t) tool_status.Duplicate # vs')"
      using Cons.prems by (cases "inspect_loop C all g (tool_name t # seen) ts") (auto split: if_splits)
    from Cons.IH [OF this(1)] this(2) show ?thesis by (auto simp: plain_verdict_def split: if_splits)
  next
    case (3 d)
    let ?v = "judge_tool g t d"
    obtain vs' al' where r: "inspect_loop C all (pin_first g ?v d) seen ts = (g', Some (vs', al'))"
      "vs = ?v # vs'" "al = (if tv_blocked ?v then al' else t # al')"
      using Cons.prems 3 by (cases "inspect_loop C all (pin_first g ?v d) seen ts") (auto simp: Let_def)
    have earlier: "tool_passes C (pin_first g ?v d) u nm \<Longrightarrow> tool_passes C g u nm" for u nm
      using passes_pin_first passes_trusting pin_first_allow by metis
    from Cons.IH [OF r(1)] earlier judge_passes [OF 3(3,1), of g] 3(2) r(2,3) show ?thesis
      by (auto simp: judge_name)
  qed
qed simp

lemma inspect_sound:
  assumes "inspect C g ts = (g', Some i)"
  shows "(\<forall>t \<in> set (li_allowed i). t \<in> set ts \<and> tool_passes C g t (tool_name t) \<and> occurrences ts (tool_name t) \<le> 1)
    \<and> (\<forall>v \<in> set (li_verdicts i). \<not> tv_blocked v \<longrightarrow> (\<exists>t \<in> set ts. tool_passes C g t (tv_name v)))"
proof -
  obtain vs al where r: "inspect_loop C ts g [] ts = (g', Some (vs, al))" "li_verdicts i = vs" "li_allowed i = al"
    using assms by (auto simp: inspect_def split: prod.splits)
  from inspect_loop_sound [OF r(1)] show ?thesis by (fastforce simp: r(2,3))
qed

lemma inspect_guard:
  assumes "inspect C g ts = (g', r)"
  shows "pg_allowUnpinned g' = pg_allowUnpinned g \<and> (\<not> pg_allowUnpinned g \<longrightarrow> g' = g)"
  using inspect_loop_guard [of C ts g "[]" ts] assms by (auto simp: inspect_def split: prod.splits)

section \<open>Pin sets\<close>

definition tool_bytes :: "json \<Rightarrow> bytes" where
  "tool_bytes t = utf8Encode (canonicalJson (JObj (picked_fields t)))"

lemma digest_field_names: "distinct (map js DIGEST_FIELDS)"
  by (simp add: DIGEST_FIELDS_def ascii_eval)

lemma picked_keys: "set (map fst (List.map_filter (\<lambda>f. map_option (Pair (js f)) (jmember t f)) fs)) \<subseteq> js ` set fs"
  by (induction fs) (auto simp: List.map_filter_simps split: option.splits)

lemma picked_lookup:
  assumes "distinct (map js fs)"
  shows "distinct (map fst (List.map_filter (\<lambda>f. map_option (Pair (js f)) (jmember t f)) fs))
    \<and> (\<forall>f \<in> set fs. map_of (List.map_filter (\<lambda>f. map_option (Pair (js f)) (jmember t f)) fs) (js f) = jmember t f)"
  using assms
proof (induction fs)
  case (Cons g fs)
  have n: "js g \<notin> js ` set fs" using Cons.prems by auto
  have k: "js g \<notin> set (map fst (List.map_filter (\<lambda>f. map_option (Pair (js f)) (jmember t f)) fs))"
    using picked_keys [of t fs] n by blast
  then have o': "map_of (List.map_filter (\<lambda>f. map_option (Pair (js f)) (jmember t f)) fs) (js g) = None"
    by (simp add: map_of_eq_None_iff)
  have d: "f \<in> set fs \<Longrightarrow> js f \<noteq> js g" for f using n by (metis imageI)
  show ?case
  proof (cases "jmember t g")
    case None
    with Cons o' show ?thesis by (simp add: List.map_filter_simps)
  next
    case (Some v)
    with Cons o' k d show ?thesis by (auto simp: List.map_filter_simps)
  qed
qed (simp add: List.map_filter_simps)

lemma mcp_digest_fixes_fields:
  assumes "mcpToolDigest C t = Some d" "mcpToolDigest C a = Some d" "inj_on (sha256_raw C) {tool_bytes t, tool_bytes a}" "f \<in> set DIGEST_FIELDS"
  shows "map_option norm_json (jmember t f) = map_option norm_json (jmember a f)"
proof -
  obtain x y where xy: "stableStringify (JObj (picked_fields t)) = Some x" "stableStringify (JObj (picked_fields a)) = Some y"
    "sha256Hex C x = sha256Hex C y"
    using assms(1,2) by (auto simp: mcpToolDigest_def)
  have fin: "json_finite (JObj (picked_fields t))" "json_finite (JObj (picked_fields a))"
    using xy(1,2) stableStringify_throws by (metis option.distinct(1))+
  have c: "x = canonicalJson (JObj (picked_fields t))" "y = canonicalJson (JObj (picked_fields a))"
    using trans [OF xy(1) [symmetric] canonicalJson_stable [OF fin(1)]] trans [OF xy(2) [symmetric] canonicalJson_stable [OF fin(2)]] by blast+
  have "sha256_raw C (tool_bytes t) = sha256_raw C (tool_bytes a)"
    using xy(3) unfolding sha256Hex_def tool_bytes_def c by (rule toHex_inj)
  then have "tool_bytes t = tool_bytes a" using inj_onD [OF assms(3)] by blast
  then have e: "canonicalJson (JObj (picked_fields t)) = canonicalJson (JObj (picked_fields a))"
    unfolding tool_bytes_def by (rule canonicalJson_utf8)
  have l: "distinct (map fst (picked_fields u)) \<and> map_of (picked_fields u) (js f) = jmember u f" for u
    using picked_lookup [OF digest_field_names, of u] assms(4) by (simp add: picked_fields_def)
  from canonical_member [OF e fin, of "js f"] l [of t] l [of a] show ?thesis by simp
qed

lemma pin_loop_ok:
  assumes "pin_loop C names ts = Inr pins"
  shows "\<forall>(n, d) \<in> set pins. \<exists>a \<in> set ts. tool_name a = n \<and> scanTool a = [] \<and> mcpToolDigest C a = Some d"
  using assms
proof (induction ts arbitrary: names pins)
  case (Cons t ts)
  obtain d pins' where d: "scanTool t = []" "mcpToolDigest C t = Some d" "pin_loop C (tool_name t # names) ts = Inr pins'"
    "pins = (tool_name t, d) # pins'"
    using Cons.prems by (cases "pin_loop C (tool_name t # names) ts") (auto split: if_splits list.splits option.splits)
  from Cons.IH [OF d(3)] d show ?case by fastforce
qed simp

lemma pinned_from:
  assumes "mget (foldl (\<lambda>m p. mset_key m (jmember p ''name'') (jmember p ''digest'')) m xs) k = Some x"
  shows "mget m k = Some x \<or> (\<exists>p \<in> set xs. jmember p ''name'' = k \<and> jmember p ''digest'' = x)"
  using assms
proof (induction xs arbitrary: m)
  case (Cons p xs)
  from Cons.IH [of "mset_key m (jmember p ''name'') (jmember p ''digest'')"] Cons.prems
  show ?case by (auto simp: mget_mset_key split: if_splits)
qed simp

lemma pin_json_members: "jmember (pin_json p) ''name'' = Some (JStr (fst p))" "jmember (pin_json p) ''digest'' = Some (JStr (snd p))"
  by (simp_all add: pin_json_def ascii_eval)

text \<open>What a guard made from the pins of some tools knows: the digests of these tools.\<close>

lemma guard_of_pins:
  assumes "pinTools C server tools by now = Inr set'" "new_pin_guard set' allow = Some g"
  shows "pg_allowUnpinned g = allow \<and>
    (\<forall>nm d. pinned_digest g nm = Some (JStr d) \<longrightarrow> (\<exists>a \<in> set tools. tool_name a = nm \<and> scanTool a = [] \<and> mcpToolDigest C a = Some d))"
proof -
  obtain pins where pins: "pin_loop C [] tools = Inr pins" "jmember set' ''pins'' = Some (JArr (map pin_json (sort_key fst pins)))"
    using assms(1) by (cases "pin_loop C [] tools") (auto simp: pinTools_def ascii_eval)
  have g: "pg_allowUnpinned g = allow"
    "pg_pinned g = foldl (\<lambda>m p. mset_key m (jmember p ''name'') (jmember p ''digest'')) [] (map pin_json (sort_key fst pins))"
    using assms(2) pins(2) by (auto simp: new_pin_guard_def split: if_splits)
  have "\<exists>a \<in> set tools. tool_name a = nm \<and> scanTool a = [] \<and> mcpToolDigest C a = Some d" if "pinned_digest g nm = Some (JStr d)" for nm d
  proof -
    have "mget (pg_pinned g) (Some (JStr nm)) = Some (Some (JStr d))"
      using that by (auto simp: pinned_digest_def split: option.splits)
    from pinned_from [OF this [unfolded g(2)]] have "(nm, d) \<in> set pins"
      by (auto simp: pin_json_members)
    with pin_loop_ok [OF pins(1)] show ?thesis by blast
  qed
  with g(1) show ?thesis by blast
qed

section \<open>The guarded client\<close>

text \<open>A server that keeps every response it gave.\<close>

definition logging :: "'s mcp_server \<Rightarrow> ('s \<times> json list) mcp_server" where
  "logging srv = (\<lambda>(s, log) req. case srv s req of
     (s', None) \<Rightarrow> ((s', log), None)
   | (s', Some res) \<Rightarrow> ((s', log @ [res]), Some res))"

text \<open>
  What the guard has been shown: the pages of the last full sweep with the time at which it
  ended, and the lists it passed on since. The pages of a sweep that failed do not count, and
  neither does a list whose inspection threw.
\<close>

type_synonym shown_lists = "json list \<times> int option"

definition full_sweep :: "crypto \<Rightarrow> 's mcp_server \<Rightarrow> int \<Rightarrow> nat \<Rightarrow> call_clock \<Rightarrow> 's \<Rightarrow> guard_handle \<Rightarrow> json \<Rightarrow> json list option" where
  "full_sweep C srv maxAge maxPages T s h req =
    (if called_name req = None \<or> (case gh_verifiedAt h of None \<Rightarrow> False | Some a \<Rightarrow> cc_now T - a < maxAge) then None
     else (case refresh_loop C (logging srv) (cc_after T) maxPages (s, []) h [] None of
       ((s', log), h', r) \<Rightarrow> if r = Some True then Some log else None))"

definition shown_before_call :: "crypto \<Rightarrow> 's mcp_server \<Rightarrow> int \<Rightarrow> nat \<Rightarrow> call_clock \<Rightarrow> 's \<Rightarrow> guard_handle \<Rightarrow> json \<Rightarrow> shown_lists \<Rightarrow> shown_lists" where
  "shown_before_call C srv maxAge maxPages T s h req st =
    (case full_sweep C srv maxAge maxPages T s h req of None \<Rightarrow> st | Some pages \<Rightarrow> (pages, Some (cc_after T)))"

definition shown_after :: "crypto \<Rightarrow> 's mcp_server \<Rightarrow> int \<Rightarrow> nat \<Rightarrow> call_clock \<Rightarrow> 's \<Rightarrow> guard_handle \<Rightarrow> json \<Rightarrow> shown_lists \<Rightarrow> shown_lists" where
  "shown_after C srv maxAge maxPages T s h req st =
    (if jmember req ''method'' = Some (JStr (js ''tools/list'')) then
       (case guarded_list C (logging srv) (s, []) h req of ((s', log), h', r) \<Rightarrow> if r = None then st else (fst st @ log, snd st))
     else if jmember req ''method'' = Some (JStr (js ''tools/call'')) then shown_before_call C srv maxAge maxPages T s h req st
     else st)"

fun shown_run :: "crypto \<Rightarrow> 's mcp_server \<Rightarrow> int \<Rightarrow> nat \<Rightarrow> 's \<times> guard_handle \<Rightarrow> shown_lists \<Rightarrow> handle_event list \<Rightarrow> shown_lists" where
  "shown_run C srv maxAge maxPages (s, h) st [] = st"
| "shown_run C srv maxAge maxPages (s, h) st (Invalidated # evs) = shown_run C srv maxAge maxPages (s, invalidate h) st evs"
| "shown_run C srv maxAge maxPages (s, h) st (CallMade T req # evs) =
    (case guarded_call C srv maxAge maxPages T s h req of (s', h', _) \<Rightarrow>
      shown_run C srv maxAge maxPages (s', h') (shown_after C srv maxAge maxPages T s h req st) evs)"

text \<open>The last of some responses that lists a tool of a name, and a response that lists one which passes.\<close>

definition lists_name :: "jstr \<Rightarrow> json \<Rightarrow> bool" where
  "lists_name nm res \<longleftrightarrow> (case listed_tools res of None \<Rightarrow> False | Some ts \<Rightarrow> nm \<in> tool_name ` set ts)"

definition last_listing :: "json list \<Rightarrow> jstr \<Rightarrow> json option" where
  "last_listing log nm = find (lists_name nm) (rev log)"

definition lists_passing :: "crypto \<Rightarrow> pin_guard \<Rightarrow> json \<Rightarrow> jstr \<Rightarrow> bool" where
  "lists_passing C g res nm \<longleftrightarrow>
    (\<exists>ts. listed_tools res = Some ts \<and> occurrences ts nm \<le> 1 \<and> (\<exists>t \<in> set ts. tool_passes C g t nm))"

definition map_backed :: "crypto \<Rightarrow> pin_guard \<Rightarrow> json list \<Rightarrow> (jstr, tool_verdict) jsmap \<Rightarrow> bool" where
  "map_backed C g log m \<longleftrightarrow>
    (\<forall>n v. mget m n = Some v \<and> \<not> tv_blocked v \<longrightarrow> (\<exists>res. last_listing log n = Some res \<and> lists_passing C g res n))"

definition handle_ok :: "crypto \<Rightarrow> pin_guard \<Rightarrow> shown_lists \<Rightarrow> guard_handle \<Rightarrow> bool" where
  "handle_ok C g st h \<longleftrightarrow> gh_guard h = g \<and> map_backed C g (fst st) (gh_verified h) \<and> (\<forall>a. gh_verifiedAt h = Some a \<longrightarrow> snd st = Some a)"

lemma last_listing_snoc: "last_listing (log @ [res]) n = (if lists_name n res then Some res else last_listing log n)"
  by (simp add: last_listing_def)

lemma put_verdicts_cases:
  assumes "mget (put_verdicts m vs) n = Some v"
  shows "v \<in> set vs \<and> tv_name v = n \<or> n \<notin> tv_name ` set vs \<and> mget m n = Some v"
  using assms
proof (induction vs arbitrary: m)
  case (Cons u vs)
  from Cons.prems have "mget (put_verdicts (mset_key m (tv_name u) u) vs) n = Some v" by (simp add: put_verdicts_def)
  from Cons.IH [OF this] show ?case by (auto split: if_splits)
qed (simp add: put_verdicts_def)

lemma inspect_loop_names:
  assumes "inspect_loop C all g seen ts = (g', Some (vs, al))"
  shows "tool_name ` set ts \<subseteq> tv_name ` set vs \<union> set seen \<and> tv_name ` set vs \<subseteq> tool_name ` set ts"
  using assms
proof (induction ts arbitrary: g seen vs al)
  case (Cons t ts)
  consider "tool_name t = []" | "tool_name t \<noteq> []" "1 < occurrences all (tool_name t)"
    | d where "tool_name t \<noteq> []" "\<not> 1 < occurrences all (tool_name t)" "mcpToolDigest C t = Some d"
    using Cons.prems by (cases "mcpToolDigest C t") (auto split: if_splits)
  then show ?case
  proof cases
    case 1
    then obtain vs' where "inspect_loop C all g seen ts = (g', Some (vs', al))" "vs = plain_verdict [] Suspicious # vs'"
      using Cons.prems by (cases "inspect_loop C all g seen ts") auto
    from Cons.IH [OF this(1)] this(2) 1 show ?thesis by (auto simp: plain_verdict_def)
  next
    case 2
    then obtain vs' where r: "inspect_loop C all g (tool_name t # seen) ts = (g', Some (vs', al))"
      "vs = (if tool_name t \<in> set seen then vs' else plain_verdict (tool_name t) tool_status.Duplicate # vs')"
      using Cons.prems by (cases "inspect_loop C all g (tool_name t # seen) ts") (auto split: if_splits)
    have "tv_name (plain_verdict (tool_name t) tool_status.Duplicate) = tool_name t" by (simp add: plain_verdict_def)
    with Cons.IH [OF r(1)] r(2) show ?thesis by auto
  next
    case (3 d)
    let ?v = "judge_tool g t d"
    obtain vs' al' where r: "inspect_loop C all (pin_first g ?v d) seen ts = (g', Some (vs', al'))" "vs = ?v # vs'"
      using Cons.prems 3 by (cases "inspect_loop C all (pin_first g ?v d) seen ts") (auto simp: Let_def)
    from Cons.IH [OF r(1)] r(2) show ?thesis by (auto simp: judge_name)
  qed
qed simp

lemma inspect_names:
  assumes "inspect C g ts = (g', Some i)"
  shows "tv_name ` set (li_verdicts i) = tool_name ` set ts"
proof -
  obtain vs al where r: "inspect_loop C ts g [] ts = (g', Some (vs, al))" "li_verdicts i = vs"
    using assms by (auto simp: inspect_def split: prod.splits)
  from inspect_loop_names [OF r(1)] show ?thesis by (simp add: r(2) subset_antisym)
qed

lemma inspect_passing:
  assumes "inspect C g ts = (g', Some i)" "listed_tools res = Some ts" "v \<in> set (li_verdicts i)" "\<not> tv_blocked v"
  shows "lists_passing C g res (tv_name v)"
proof -
  obtain vs al where r: "inspect_loop C ts g [] ts = (g', Some (vs, al))" "li_verdicts i = vs"
    using assms(1) by (auto simp: inspect_def split: prod.splits)
  note sound = inspect_loop_sound [OF r(1)]
  obtain t where "t \<in> set al" "tool_name t = tv_name v" using sound assms(3,4) r(2) by blast
  then show ?thesis using sound assms(2) unfolding lists_passing_def by metis
qed

text \<open>A list that was inspected: what it says about its names counts from now on.\<close>

lemma backed_page:
  assumes "map_backed C g log m" "listed_tools res = Some ts" "inspect C g ts = (g', Some i)"
  shows "map_backed C g (log @ [res]) (put_verdicts m (li_verdicts i))"
  unfolding map_backed_def
proof (intro allI impI, elim conjE)
  fix n v assume v: "mget (put_verdicts m (li_verdicts i)) n = Some v" "\<not> tv_blocked v"
  have n: "lists_name n res \<longleftrightarrow> n \<in> tv_name ` set (li_verdicts i)"
    by (simp add: lists_name_def assms(2) inspect_names [OF assms(3)])
  from put_verdicts_cases [OF v(1)] show "\<exists>r. last_listing (log @ [res]) n = Some r \<and> lists_passing C g r n"
  proof
    assume now: "v \<in> set (li_verdicts i) \<and> tv_name v = n"
    then have "lists_passing C g res n" using inspect_passing [OF assms(3,2) _ v(2)] by blast
    with now n show ?thesis by (auto simp: last_listing_snoc)
  next
    assume before: "n \<notin> tv_name ` set (li_verdicts i) \<and> mget m n = Some v"
    with assms(1) v(2) obtain r where "last_listing log n = Some r" "lists_passing C g r n" unfolding map_backed_def by blast
    with before n show ?thesis by (simp add: last_listing_snoc)
  qed
qed

lemma backed_other: "map_backed C g log m \<Longrightarrow> listed_tools res = None \<Longrightarrow> map_backed C g (log @ [res]) m"
  by (simp add: map_backed_def last_listing_snoc lists_name_def)

lemma map_backed_empty: "map_backed C g log []"
  by (simp add: map_backed_def mget_def)

lemma page_ok:
  assumes "page_step C h fresh res = (h', p)" "gh_guard h = g" "\<not> pg_allowUnpinned g" "map_backed C g log fresh"
  shows "gh_guard h' = g \<and> gh_verified h' = gh_verified h \<and> gh_verifiedAt h' = gh_verifiedAt h \<and>
    (\<forall>m c. p = PageMore m c \<longrightarrow> map_backed C g (log @ [res]) m) \<and> (\<forall>m. p = PageLast m \<longrightarrow> map_backed C g (log @ [res]) m)"
proof (cases "listed_tools res")
  case None
  with assms(1,2) show ?thesis by (auto simp: page_step_def)
next
  case (Some ts)
  obtain g' r where r: "inspect C g ts = (g', r)" by (cases "inspect C g ts")
  have same: "g' = g" using inspect_guard [OF r] assms(3) by simp
  show ?thesis
  proof (cases r)
    case None
    with Some r same assms(1,2) show ?thesis by (auto simp: page_step_def)
  next
    case ins: (Some i)
    have b: "map_backed C g (log @ [res]) (put_verdicts fresh (li_verdicts i))"
      using backed_page [OF assms(4) Some] r ins by blast
    have "(h', p) = (let h' = record_inspection (h\<lparr>gh_guard := g\<rparr>) i; fresh' = put_verdicts fresh (li_verdicts i) in
        (case jmember (or_null (jmember res ''result'')) ''nextCursor'' of
           Some (JStr (c # s)) \<Rightarrow> (h', PageMore fresh' (c # s))
         | _ \<Rightarrow> (h', PageLast fresh')))"
      using assms(1) Some r ins same assms(2) by (simp add: page_step_def)
    then have "h' = record_inspection (h\<lparr>gh_guard := g\<rparr>) i"
      "\<And>m c. p = PageMore m c \<Longrightarrow> m = put_verdicts fresh (li_verdicts i)" "\<And>m. p = PageLast m \<Longrightarrow> m = put_verdicts fresh (li_verdicts i)"
      by (auto simp: Let_def split: option.splits json.splits list.splits)
    with b have "(\<forall>m c. p = PageMore m c \<longrightarrow> map_backed C g (log @ [res]) m) \<and> (\<forall>m. p = PageLast m \<longrightarrow> map_backed C g (log @ [res]) m)" by blast
    with \<open>h' = record_inspection (h\<lparr>gh_guard := g\<rparr>) i\<close> show ?thesis by (simp add: record_inspection_def)
  qed
qed

text \<open>A sweep starts from an empty map: what it puts in place is backed by its own pages.\<close>

lemma refresh_ok:
  assumes "refresh_loop C (logging srv) now k (s, log) h fresh cursor = ((s', log'), h', r)"
    and "gh_guard h = g" "\<not> pg_allowUnpinned g" "map_backed C g log fresh"
  shows "gh_guard h' = g \<and> (if r = Some True then map_backed C g log' (gh_verified h') \<and> gh_verifiedAt h' = Some now
    else gh_verified h' = gh_verified h \<and> gh_verifiedAt h' = gh_verifiedAt h)"
  using assms(1,2,4)
proof (induction k arbitrary: s log h fresh cursor)
  case 0
  then show ?case by auto
next
  case (Suc k)
  let ?h0 = "h\<lparr>gh_nextId := Suc (gh_nextId h)\<rparr>"
  obtain s1 x where x: "srv s (list_request (gh_nextId h) cursor) = (s1, x)" by (cases "srv s (list_request (gh_nextId h) cursor)")
  show ?case
  proof (cases x)
    case None
    with Suc.prems(1,2) x show ?thesis by (auto simp: Let_def logging_def)
  next
    case (Some res)
    obtain h1 p where p: "page_step C ?h0 fresh res = (h1, p)" by (cases "page_step C ?h0 fresh res")
    have "gh_guard ?h0 = g" using Suc.prems(2) by simp
    note ok = page_ok [OF p this assms(3) Suc.prems(3)]
    show ?thesis
    proof (cases p)
      case (PageMore m c)
      then have "refresh_loop C (logging srv) now k (s1, log @ [res]) h1 m (Some c) = ((s', log'), h', r)"
        using Suc.prems(1) x Some p by (simp add: Let_def logging_def)
      from Suc.IH [OF this] ok PageMore show ?thesis by simp
    next
      case (PageLast m)
      then have e: "h' = finish_refresh h1 m now" "log' = log @ [res]" "r = Some True"
        using Suc.prems(1) x Some p by (simp_all add: Let_def logging_def)
      have "map_backed C g log' m" using ok PageLast e(2) by blast
      then show ?thesis using ok e(1,3) by (simp add: finish_refresh_def)
    qed (use Suc.prems(1) x Some p ok in \<open>auto simp: Let_def logging_def\<close>)
  qed
qed

lemma refresh_logged:
  "refresh_loop C srv now k s h fresh cursor = (s', h', r) \<Longrightarrow> \<exists>log'. refresh_loop C (logging srv) now k (s, log) h fresh cursor = ((s', log'), h', r)"
proof (induction k arbitrary: s log h fresh cursor)
  case (Suc k)
  let ?h0 = "h\<lparr>gh_nextId := Suc (gh_nextId h)\<rparr>"
  obtain s1 x where x: "srv s (list_request (gh_nextId h) cursor) = (s1, x)" by (cases "srv s (list_request (gh_nextId h) cursor)")
  show ?case
  proof (cases x)
    case (Some res)
    obtain h1 p where p: "page_step C ?h0 fresh res = (h1, p)" by (cases "page_step C ?h0 fresh res")
    show ?thesis
    proof (cases p)
      case (PageMore m c)
      then have "refresh_loop C srv now k s1 h1 m (Some c) = (s', h', r)" using Suc.prems x Some p by (simp add: Let_def)
      from Suc.IH [OF this, of "log @ [res]"] x Some p PageMore show ?thesis by (simp add: Let_def logging_def)
    qed (use Suc.prems x Some p in \<open>auto simp: Let_def logging_def\<close>)
  qed (use Suc.prems x in \<open>auto simp: Let_def logging_def\<close>)
qed simp

lemma decide_ok:
  assumes "decide_call C srv maxAge maxPages T s h req = (s', h', r)" "handle_ok C g st h" "\<not> pg_allowUnpinned g"
  shows "handle_ok C g (shown_before_call C srv maxAge maxPages T s h req st) h' \<and>
    (r = Forward \<longrightarrow> (\<forall>nm. called_name req = Some nm \<longrightarrow>
      (\<exists>v. mget (gh_verified h') nm = Some v \<and> \<not> tv_blocked v) \<and>
      (\<exists>a. gh_verifiedAt h' = Some a \<and> (cc_now T - a < maxAge \<or> a = cc_after T))))"
proof (cases "called_name req")
  case None
  with assms show ?thesis by (simp add: decide_call_def shown_before_call_def full_sweep_def)
next
  case (Some nm)
  let ?stale = "case gh_verifiedAt h of None \<Rightarrow> True | Some a \<Rightarrow> maxAge \<le> cc_now T - a"
  let ?st = "shown_before_call C srv maxAge maxPages T s h req st"
  have guard: "gh_guard h = g" using assms(2) by (simp add: handle_ok_def)
  obtain s1 h1 q where q: "(if ?stale then refresh_loop C srv (cc_after T) maxPages s h [] None else (s, h, Some True)) = (s1, h1, q)"
    by (metis prod.collapse)
  have ok: "handle_ok C g ?st h1 \<and> (q = Some True \<longrightarrow> (\<exists>a. gh_verifiedAt h1 = Some a \<and> (cc_now T - a < maxAge \<or> a = cc_after T)))"
  proof (cases ?stale)
    case True
    then have e: "refresh_loop C srv (cc_after T) maxPages s h [] None = (s1, h1, q)" using q by simp
    obtain log where l: "refresh_loop C (logging srv) (cc_after T) maxPages (s, []) h [] None = ((s1, log), h1, q)"
      using refresh_logged [OF e] by blast
    have "full_sweep C srv maxAge maxPages T s h req = (if q = Some True then Some log else None)"
      using True Some by (simp add: full_sweep_def l split: option.splits)
    with refresh_ok [OF l guard assms(3) map_backed_empty] assms(2) show ?thesis
      by (simp add: shown_before_call_def handle_ok_def split: if_splits)
  next
    case False
    then have "full_sweep C srv maxAge maxPages T s h req = None" by (simp add: full_sweep_def split: option.splits)
    with False q assms(2) show ?thesis by (auto simp: shown_before_call_def split: option.splits)
  qed
  have "h' = h1 \<and> (r = Forward \<longrightarrow> q = Some True \<and> (\<exists>v. mget (gh_verified h1) nm = Some v \<and> \<not> tv_blocked v))"
    using assms(1) q Some by (auto simp: decide_call_def Let_def split: option.splits bool.splits if_splits)
  with ok Some show ?thesis by auto
qed

lemma list_ok:
  assumes "guarded_list C srv s h req = (s', h', r)" "handle_ok C g st h" "\<not> pg_allowUnpinned g"
    and "jmember req ''method'' = Some (JStr (js ''tools/list''))"
  shows "handle_ok C g (shown_after C srv maxAge maxPages T s h req st) h'"
proof -
  obtain s1 x where x: "srv s req = (s1, x)" by (cases "srv s req")
  have g: "gh_guard h = g" using assms(2) by (simp add: handle_ok_def)
  show ?thesis
  proof (cases x)
    case None
    with assms x show ?thesis by (simp add: guarded_list_def shown_after_def logging_def)
  next
    case (Some res)
    show ?thesis
    proof (cases "listed_tools res")
      case None
      with assms(1,2,4) x Some show ?thesis
        by (auto simp: guarded_list_def shown_after_def logging_def handle_ok_def intro: backed_other)
    next
      case ts: (Some ts)
      obtain g' i where i: "inspect C g ts = (g', i)" by (cases "inspect C g ts")
      have same: "g' = g" using inspect_guard [OF i] assms(3) by simp
      show ?thesis
      proof (cases i)
        case None
        with assms(1,2,4) x Some ts i same g show ?thesis by (auto simp: guarded_list_def shown_after_def logging_def handle_ok_def)
      next
        case ins: (Some j)
        have "map_backed C g (fst st @ [res]) (put_verdicts (gh_verified h) (li_verdicts j))"
          using backed_page [OF _ ts] i ins assms(2) by (metis handle_ok_def)
        with assms(1,2,4) x Some ts i ins same g show ?thesis
          by (auto simp: guarded_list_def shown_after_def logging_def handle_ok_def record_inspection_def)
      qed
    qed
  qed
qed

lemma call_ok:
  assumes "guarded_call C srv maxAge maxPages T s h req = (s', h', r)" "handle_ok C g st h" "\<not> pg_allowUnpinned g"
  shows "handle_ok C g (shown_after C srv maxAge maxPages T s h req st) h'"
proof -
  let ?m = "jmember req ''method''"
  obtain s1 h1 d where d: "decide_call C srv maxAge maxPages T s h req = (s1, h1, d)" by (metis surj_pair)
  note ok = decide_ok [OF d assms(2,3)]
  consider "?m = Some (JStr (js ''tools/list''))" | "?m \<noteq> Some (JStr (js ''tools/list''))" "?m = Some (JStr (js ''tools/call''))"
    | "?m \<noteq> Some (JStr (js ''tools/list''))" "?m \<noteq> Some (JStr (js ''tools/call''))" by blast
  then show ?thesis
  proof cases
    case 1
    with assms(1) list_ok [OF _ assms(2,3) 1] show ?thesis by (simp add: guarded_call_def)
  next
    case 2
    with assms(1) d have "h' = h1" by (cases d) (auto simp: guarded_call_def Let_def split: prod.splits)
    with ok 2 show ?thesis by (simp add: shown_after_def)
  next
    case 3
    with assms(1) have "h' = h" by (auto simp: guarded_call_def Let_def split: prod.splits)
    with assms(2) 3 show ?thesis by (simp add: shown_after_def)
  qed
qed

lemma handle_run_ok:
  assumes "handle_run C srv maxAge maxPages (s, h) evs = (s', h')" "handle_ok C g st h" "\<not> pg_allowUnpinned g"
  shows "handle_ok C g (shown_run C srv maxAge maxPages (s, h) st evs) h'"
  using assms(1,2)
proof (induction evs arbitrary: s h st)
  case (Cons e evs)
  show ?case
  proof (cases e)
    case Invalidated
    have "handle_ok C g st (invalidate h)" using Cons.prems(2) by (simp add: handle_ok_def invalidate_def)
    with Cons.IH [of s "invalidate h" st] Cons.prems(1) Invalidated show ?thesis by simp
  next
    case (CallMade T req)
    obtain s1 h1 r where c: "guarded_call C srv maxAge maxPages T s h req = (s1, h1, r)" by (metis surj_pair)
    from Cons.IH [of s1 h1] call_ok [OF c Cons.prems(2) assms(3)] Cons.prems(1) CallMade c show ?thesis by simp
  qed
qed simp

section \<open>Properties\<close>

text \<open>A tool is exposed only if it is one that was approved: under the guard made from the pins of some tools, a tool that an inspection of the server's list allows is listed once under its name, has no hidden text, and agrees in every field a model reads with a tool that was pinned, as long as SHA-256 tells the tools concerned apart.\<close>

theorem exposed_tools_approved:
  assumes "pinTools C server tools by tm = Inr set'" "new_pin_guard set' False = Some g" "inspect C g listed = (g', Some i)"
    and "t \<in> set (li_allowed i)" "inj_on (sha256_raw C) (tool_bytes ` (set tools \<union> set listed))"
  shows "t \<in> set listed \<and> occurrences listed (tool_name t) \<le> 1 \<and> scanTool t = [] \<and>
    (\<exists>a \<in> set tools. \<forall>f \<in> set DIGEST_FIELDS. map_option norm_json (jmember t f) = map_option norm_json (jmember a f))"
proof -
  from inspect_sound [OF assms(3)] assms(4)
  have t: "t \<in> set listed" "occurrences listed (tool_name t) \<le> 1" "tool_passes C g t (tool_name t)" by blast+
  obtain d where d: "scanTool t = []" "mcpToolDigest C t = Some d" "pinned_digest g (tool_name t) = Some (JStr d)"
    using t(3) guard_of_pins [OF assms(1,2)] by (auto simp: tool_passes_def)
  obtain a where a: "a \<in> set tools" "mcpToolDigest C a = Some d"
    using guard_of_pins [OF assms(1,2)] d(3) by blast
  have "inj_on (sha256_raw C) {tool_bytes t, tool_bytes a}"
    by (rule inj_on_subset [OF assms(5)]) (use t(1) a(1) in blast)
  with mcp_digest_fixes_fields [OF d(2) a(2)] t(1,2) d(1) a(1) show ?thesis by blast
qed

text \<open>C19 A call that names a tool reaches the server only if the tool is approved as it was last listed: under a guard that takes pinned tools only, whatever was called and invalidated before, one after the other, when such a call is forwarded, then of the pages of the last full sweep of the server's list and the lists passed on since, the last one that names the tool lists it once, with nothing that the scan reports and with the digest of a tool that was pinned under that name; and that sweep ended less than the allowed age ago, or is the one made for this call. (Texts below the depth of 32 are not scanned, and a name is counted page by page.)\<close>

theorem calls_only_approved:
  assumes "pinTools C server tools by tm = Inr set'" "new_pin_guard set' False = Some g"
    and "handle_run C srv maxAge maxPages (s0, new_guard_handle g) evs = (s, h)"
    and "decide_call C srv maxAge maxPages T s h req = (s', h', Forward)" "called_name req = Some nm"
    and "shown_before_call C srv maxAge maxPages T s h req (shown_run C srv maxAge maxPages (s0, new_guard_handle g) ([], None) evs) = (pages, swept)"
  shows "(\<exists>res ts t d. last_listing pages nm = Some res \<and> listed_tools res = Some ts \<and> occurrences ts nm \<le> 1 \<and>
      t \<in> set ts \<and> tool_name t = nm \<and> scanTool t = [] \<and> mcpToolDigest C t = Some d \<and>
      (\<exists>a \<in> set tools. tool_name a = nm \<and> mcpToolDigest C a = Some d))
    \<and> (\<exists>a. swept = Some a \<and> (cc_now T - a < maxAge \<or> a = cc_after T))"
proof -
  note pins = guard_of_pins [OF assms(1,2)]
  have "handle_ok C g ([], None) (new_guard_handle g)" by (simp add: handle_ok_def new_guard_handle_def map_backed_empty)
  with handle_run_ok [OF assms(3)] pins have "handle_ok C g (shown_run C srv maxAge maxPages (s0, new_guard_handle g) ([], None) evs) h" by blast
  from decide_ok [OF assms(4) this] pins assms(5,6) obtain v a where
    ok: "handle_ok C g (pages, swept) h'" and v: "mget (gh_verified h') nm = Some v" "\<not> tv_blocked v"
    and a: "gh_verifiedAt h' = Some a" "cc_now T - a < maxAge \<or> a = cc_after T" by auto
  have s: "swept = Some a" using ok a(1) by (simp add: handle_ok_def)
  obtain res where r: "last_listing pages nm = Some res" "lists_passing C g res nm"
    using ok v by (auto simp: handle_ok_def map_backed_def)
  then obtain ts t where t: "listed_tools res = Some ts" "occurrences ts nm \<le> 1" "t \<in> set ts" "tool_passes C g t nm"
    by (auto simp: lists_passing_def)
  then obtain d where d: "scanTool t = []" "tool_name t = nm" "mcpToolDigest C t = Some d" "pinned_digest g nm = Some (JStr d)"
    using pins by (auto simp: tool_passes_def)
  moreover obtain b where "b \<in> set tools" "tool_name b = nm" "mcpToolDigest C b = Some d"
    using pins d(4) by blast
  ultimately show ?thesis using r(1) t(1-3) s a(2) by blast
qed

text \<open>The scan is complete within its bounds: when it reports nothing about a tool whose fields are nested at most 32 deep and hold at most 5001 values, no text or property name of a field a model reads contains a hidden or direction-changing character or is longer than 8000 code units.\<close>

theorem scan_complete:
  assumes "scanTool t = []" "sum_list (map (field_nodes t) DIGEST_FIELDS) \<le> Suc MAX_SCAN_STRINGS"
    and "\<forall>f \<in> set DIGEST_FIELDS. \<forall>v. jmember t f = Some v \<longrightarrow> within_depth 0 v"
  shows "\<forall>f \<in> set DIGEST_FIELDS. \<forall>v. jmember t f = Some v \<longrightarrow> clean_json v"
proof (intro ballI allI impI)
  fix f v assume f: "f \<in> set DIGEST_FIELDS" "jmember t f = Some v"
  have "snd (foldl (scan_field t) (0, []) DIGEST_FIELDS) = []" using assms(1) by (simp add: scanTool_def)
  from scan_fields_complete [OF this _ _ f] assms(2,3) show "clean_json v" by simp
qed

fun nest :: "nat \<Rightarrow> json \<Rightarrow> json" where
  "nest 0 v = v"
| "nest (Suc k) v = JArr [nest k v]"

lemma walk_nest:
  assumes "fst st + k \<le> MAX_SCAN_STRINGS" "d + k = Suc MAX_SCAN_DEPTH" "d \<le> MAX_SCAN_DEPTH"
  shows "snd (walk (nest k v) loc d st) = snd st"
  using assms
proof (induction k arbitrary: d st loc)
  case (Suc k)
  show ?case
  proof (cases "d = MAX_SCAN_DEPTH")
    case False
    with Suc.IH [of "visit st" "Suc d"] Suc.prems show ?thesis by (simp add: budget_spent_def visit_def)
  qed (simp add: visit_def)
qed simp

text \<open>Outside its bounds the scan is blind: a schema can hold any text at the depth of 33 without a finding, although the digest covers it and a model reads it.\<close>

theorem deep_text_unscanned:
  "scanTool (JObj [(js ''name'', JStr (js ''t'')), (js ''inputSchema'', nest 33 (JStr s))]) = []"
proof -
  have w: "snd (walk (nest 33 (JStr s)) loc 0 st) = snd st" if "fst st \<le> 5" for st loc
    using walk_nest [of st 33 0] that by (simp add: MAX_SCAN_STRINGS_def MAX_SCAN_DEPTH_def)
  have n: "scan_string [116] loc [] = []" for loc
    by (simp add: scan_string_def ascii_eval MAX_TOOL_TEXT_LENGTH_def scan_code_point_def classifyCodePoint_def is_high_def is_low_def)
  show ?thesis
    by (simp add: scanTool_def DIGEST_FIELDS_def scan_field_def ascii_eval budget_spent_def MAX_SCAN_STRINGS_def w n)
qed

lemma tool_name_iff: "nm \<noteq> [] \<Longrightarrow> tool_name u = nm \<longleftrightarrow> jmember u ''name'' = Some (JStr nm)"
  by (auto simp: tool_name_def split: option.splits json.splits)

lemma inspect_loop_judges:
  assumes "\<not> pg_allowUnpinned g" "\<forall>u \<in> set ts. mcpToolDigest C u \<noteq> None" "nm \<noteq> []" "occurrences all nm \<le> 1"
    and "\<forall>u \<in> set ts. tool_name u = nm \<longrightarrow> u = t" "mcpToolDigest C t = Some d"
  shows "\<exists>vs al. inspect_loop C all g seen ts = (g, Some (vs, al)) \<and> (\<forall>v \<in> set vs. tv_name v = nm \<longrightarrow> v = judge_tool g t d)
    \<and> (t \<in> set ts \<longrightarrow> tool_name t = nm \<longrightarrow> judge_tool g t d \<in> set vs)"
  using assms(2,5)
proof (induction ts arbitrary: seen)
  case (Cons u ts)
  from Cons.prems(1) have "mcpToolDigest C u \<noteq> None" by simp
  then obtain e where e: "mcpToolDigest C u = Some e" by blast
  have pf: "pin_first g v e = g" for v using assms(1) by (simp add: pin_first_def)
  have sub: "\<forall>u \<in> set ts. mcpToolDigest C u \<noteq> None" "\<forall>u \<in> set ts. tool_name u = nm \<longrightarrow> u = t"
    using Cons.prems by (meson list.set_intros(2))+
  obtain vs al where r: "inspect_loop C all g seen ts = (g, Some (vs, al))" "\<forall>v \<in> set vs. tv_name v = nm \<longrightarrow> v = judge_tool g t d"
    "t \<in> set ts \<longrightarrow> tool_name t = nm \<longrightarrow> judge_tool g t d \<in> set vs" using Cons.IH [OF sub, of seen] by blast
  obtain vs' al' where r': "inspect_loop C all g (tool_name u # seen) ts = (g, Some (vs', al'))" "\<forall>v \<in> set vs'. tv_name v = nm \<longrightarrow> v = judge_tool g t d"
    "t \<in> set ts \<longrightarrow> tool_name t = nm \<longrightarrow> judge_tool g t d \<in> set vs'" using Cons.IH [OF sub, of "tool_name u # seen"] by blast
  consider "tool_name u = []" | "tool_name u \<noteq> []" "1 < occurrences all (tool_name u)" | "tool_name u \<noteq> []" "\<not> 1 < occurrences all (tool_name u)" by blast
  then show ?case
  proof cases
    case 1
    then have "inspect_loop C all g seen (u # ts) = (g, Some (plain_verdict [] Suspicious # vs, al))" by (simp add: r(1))
    moreover have "u \<noteq> t \<or> tool_name t \<noteq> nm" using 1 assms(3) by auto
    ultimately show ?thesis using r(2,3) assms(3) by (auto simp: plain_verdict_def)
  next
    case 2
    with assms(4) have n: "tool_name u \<noteq> nm" by auto
    have "inspect_loop C all g seen (u # ts) =
      (g, Some (if tool_name u \<in> set seen then vs' else plain_verdict (tool_name u) tool_status.Duplicate # vs', al'))"
      using 2 by (simp add: r'(1))
    then show ?thesis using r'(2,3) n by (auto simp: plain_verdict_def)
  next
    case 3
    have same: "u = t \<and> e = d" if "tool_name u = nm"
    proof -
      have "u = t" using bspec [OF Cons.prems(2), of u] that by simp
      with e assms(6) show ?thesis by simp
    qed
    have "inspect_loop C all g seen (u # ts) = (g, Some (judge_tool g u e # vs, if tv_blocked (judge_tool g u e) then al else u # al))"
      using 3 by (simp add: e Let_def pf r(1))
    moreover have "\<forall>v \<in> set (judge_tool g u e # vs). tv_name v = nm \<longrightarrow> v = judge_tool g t d"
      using r(2) same by (auto simp: judge_name)
    moreover have "t \<in> set (u # ts) \<longrightarrow> tool_name t = nm \<longrightarrow> judge_tool g t d \<in> set (judge_tool g u e # vs)"
      using r(3) same by auto
    ultimately show ?thesis by blast
  qed
qed simp

lemma put_verdicts_get:
  assumes "\<forall>v \<in> set vs. tv_name v = nm \<longrightarrow> v = w" "tv_name w = nm" "w \<in> set vs \<or> mget m nm = Some w"
  shows "mget (put_verdicts m vs) nm = Some w"
  using assms(1,3)
proof (induction vs arbitrary: m)
  case (Cons v vs)
  have vs: "\<forall>v \<in> set vs. tv_name v = nm \<longrightarrow> v = w" using Cons.prems(1) by (meson list.set_intros(2))
  have "w \<in> set vs \<or> mget (mset_key m (tv_name v) v) nm = Some w"
  proof (cases "tv_name v = nm")
    case True
    with bspec [OF Cons.prems(1), of v] have "v = w" by simp
    with True show ?thesis by (simp add: mget_mset_key)
  next
    case False
    then show ?thesis using Cons.prems(2) assms(2) by (auto simp: mget_mset_key)
  qed
  from Cons.IH [OF vs this] show ?case by (simp add: put_verdicts_def)
qed (simp add: put_verdicts_def)

text \<open>One page: the verdict about a tool that the page lists once is the judgement of that tool.\<close>

lemma page_judges:
  assumes "\<not> pg_allowUnpinned (gh_guard h)" "listed_tools res = Some ts" "\<forall>u \<in> set ts. mcpToolDigest C u \<noteq> None"
    and "filter (\<lambda>u. jmember u ''name'' = Some (JStr nm)) ts = [t]" "nm \<noteq> []" "mcpToolDigest C t = Some d"
  shows "\<exists>h' i. inspect C (gh_guard h) ts = (gh_guard h, Some i) \<and> gh_guard h' = gh_guard h
    \<and> mget (put_verdicts m (li_verdicts i)) nm = Some (judge_tool (gh_guard h) t d)
    \<and> page_step C h m res = (case jmember (or_null (jmember res ''result'')) ''nextCursor'' of
        Some (JStr (c # s)) \<Rightarrow> (h', PageMore (put_verdicts m (li_verdicts i)) (c # s))
      | _ \<Rightarrow> (h', PageLast (put_verdicts m (li_verdicts i))))"
proof -
  let ?g = "gh_guard h"
  have o': "occurrences ts nm = 1" by (simp add: occurrences_def assms(4))
  have fs: "{u \<in> set ts. jmember u ''name'' = Some (JStr nm)} = {t}"
    using arg_cong [OF assms(4), of set] by simp
  then have t: "t \<in> set ts" "tool_name t = nm" "\<forall>u \<in> set ts. tool_name u = nm \<longrightarrow> u = t"
    using tool_name_iff [OF assms(5)] by auto
  obtain vs al where r: "inspect_loop C ts ?g [] ts = (?g, Some (vs, al))" "\<forall>v \<in> set vs. tv_name v = nm \<longrightarrow> v = judge_tool ?g t d"
    "judge_tool ?g t d \<in> set vs"
    using inspect_loop_judges [OF assms(1,3,5) _ t(3) assms(6), of ts "[]"] o' t(1,2) by auto
  obtain i where i: "inspect C ?g ts = (?g, Some i)" "li_verdicts i = vs" using r(1) by (simp add: inspect_def)
  have w: "mget (put_verdicts m vs) nm = Some (judge_tool ?g t d)"
    by (rule put_verdicts_get [OF r(2)]) (simp_all add: judge_name t(2) r(3))
  let ?h = "record_inspection (h\<lparr>gh_guard := ?g\<rparr>) i"
  have "gh_guard ?h = ?g" by (simp add: record_inspection_def)
  moreover have "page_step C h m res = (case jmember (or_null (jmember res ''result'')) ''nextCursor'' of
      Some (JStr (c # s)) \<Rightarrow> (?h, PageMore (put_verdicts m (li_verdicts i)) (c # s))
    | _ \<Rightarrow> (?h, PageLast (put_verdicts m (li_verdicts i))))"
    by (simp add: page_step_def assms(2) i(1) Let_def)
  ultimately show ?thesis using i w by metis
qed

text \<open>A change after approval is caught: when the last sweep is not current and the server's list, on one page, contains the called tool with a digest that is not the pinned one, the call is refused.\<close>

theorem changed_tool_refused:
  assumes "\<not> pg_allowUnpinned (gh_guard h)" "gh_verifiedAt h = None" "0 < maxPages"
    and "srv s (list_request (gh_nextId h) None) = (s', Some res)" "listed_tools res = Some ts"
    and "jmember (or_null (jmember res ''result'')) ''nextCursor'' = None" "\<forall>u \<in> set ts. mcpToolDigest C u \<noteq> None"
    and "filter (\<lambda>u. jmember u ''name'' = Some (JStr nm)) ts = [t]" "nm \<noteq> []" "mcpToolDigest C t = Some d"
    and "pinned_digest (gh_guard h) nm \<noteq> Some (JStr d)" "called_name req = Some nm"
  shows "\<exists>h' r. decide_call C srv maxAge maxPages T s h req = (s', h', Refuse r)"
proof -
  let ?h = "h\<lparr>gh_nextId := Suc (gh_nextId h)\<rparr>"
  obtain k where k: "maxPages = Suc k" using assms(3) by (cases maxPages) auto
  obtain h1 :: guard_handle and i :: list_inspection where p: "page_step C ?h [] res = (h1, PageLast (put_verdicts [] (li_verdicts i)))"
    "mget (put_verdicts [] (li_verdicts i)) nm = Some (judge_tool (gh_guard h) t d)"
  proof -
    have g: "gh_guard ?h = gh_guard h" by simp
    have "\<not> pg_allowUnpinned (gh_guard ?h)" using assms(1) by simp
    from page_judges [OF this assms(5,7-10), of "[]"] obtain h' :: guard_handle and i :: list_inspection where
      "mget (put_verdicts [] (li_verdicts i)) nm = Some (judge_tool (gh_guard h) t d)"
      "page_step C ?h [] res = (h', PageLast (put_verdicts [] (li_verdicts i)))" unfolding g assms(6) option.case by blast
    then show ?thesis by (intro that)
  qed
  have "tool_name t = nm" using arg_cong [OF assms(8), of set] tool_name_iff [OF assms(9)] by auto
  then have "tv_blocked (judge_tool (gh_guard h) t d)"
    using assms(1,11) by (simp add: judge_tool_def Let_def)
  with p assms(2,4,12) show ?thesis by (simp add: decide_call_def k finish_refresh_def)
qed

text \<open>A name that occurs on two pages is not seen as a duplicate: a tool of any content on the first page is forgotten when the second page lists the approved one, and calls under the common name are let through.\<close>

theorem duplicate_across_pages:
  assumes "\<not> pg_allowUnpinned (gh_guard h)" "gh_verifiedAt h = None"
    and "srv s (list_request (gh_nextId h) None) = (s1, Some res1)" "listed_tools res1 = Some [shadow]"
    and "jmember (or_null (jmember res1 ''result'')) ''nextCursor'' = Some (JStr (c # cs))"
    and "srv s1 (list_request (Suc (gh_nextId h)) (Some (c # cs))) = (s2, Some res2)" "listed_tools res2 = Some [good]"
    and "jmember (or_null (jmember res2 ''result'')) ''nextCursor'' = None"
    and "tool_name shadow = nm" "tool_name good = nm" "nm \<noteq> []" "mcpToolDigest C shadow \<noteq> None"
    and "scanTool good = []" "mcpToolDigest C good = Some d" "pinned_digest (gh_guard h) nm = Some (JStr d)" "called_name req = Some nm"
  shows "\<exists>h'. decide_call C srv maxAge 2 T s h req = (s2, h', Forward)"
proof -
  let ?h = "h\<lparr>gh_nextId := Suc (gh_nextId h)\<rparr>"
  obtain e where e: "mcpToolDigest C shadow = Some e" using assms(12) by auto
  have n: "jmember shadow ''name'' = Some (JStr nm)" "jmember good ''name'' = Some (JStr nm)"
    using tool_name_iff [OF assms(11)] assms(9,10) by blast+
  have q1: "\<exists>h1 m1. page_step C ?h [] res1 = (h1, PageMore m1 (c # cs)) \<and> gh_guard h1 = gh_guard h \<and> gh_nextId h1 = Suc (gh_nextId h)"
  proof -
    have "gh_nextId (fst (page_step C ?h [] res1)) = Suc (gh_nextId h)"
      by (auto simp: page_step_def record_inspection_def Let_def split: option.splits prod.splits json.splits list.splits)
    with page_judges [of ?h res1 "[shadow]" C nm shadow e "[]"] assms(1,4,5,11) e n(1) show ?thesis by auto
  qed
  then obtain h1 m1 where p1: "page_step C ?h [] res1 = (h1, PageMore m1 (c # cs))" "gh_guard h1 = gh_guard h" "gh_nextId h1 = Suc (gh_nextId h)" by blast
  let ?h1 = "h1\<lparr>gh_nextId := Suc (gh_nextId h1)\<rparr>"
  obtain h2 m2 where p2: "page_step C ?h1 m1 res2 = (h2, PageLast m2)" "mget m2 nm = Some (judge_tool (gh_guard h) good d)"
    using page_judges [of ?h1 res2 "[good]" C nm good d m1] assms(1,7,8,11,14) n(2) p1(2) by auto
  have "\<not> tv_blocked (judge_tool (gh_guard h) good d)"
    using assms(10,13,15) by (simp add: judge_tool_def Let_def)
  with p1 p2 assms(2,3,6,16) show ?thesis
    by (simp add: decide_call_def finish_refresh_def numeral_2_eq_2)
qed

text \<open>An invalidation that arrives while a refresh is under way is lost: the state after the refresh is the same with and without it.\<close>

theorem invalidate_during_refresh_lost:
  "finish_refresh (invalidate h) fresh now = finish_refresh h fresh now"
  by (simp add: finish_refresh_def invalidate_def)

text \<open>Signing adds two members that the canonical text and the verified set leave out.\<close>

lemma with_member_lookup: "jmember (with_member (JObj kvs) name x) f = (if js f = js name then Some x else jmember (JObj kvs) f)"
  using mget_mset_key [of kvs "js name" x "js f"] by (simp add: with_member_def mget_def)

lemma canonical_pins_signature:
  "canonicalPins (with_member (JObj kvs) ''signature'' x) = canonicalPins (JObj kvs)"
proof -
  have m: "jmember (with_member (JObj kvs) ''signature'' x) f = jmember (JObj kvs) f" if "js f \<noteq> js ''signature''" for f
    using that by (simp only: with_member_lookup if_False)
  have f: "js ''version'' \<noteq> js ''signature''" "js ''server'' \<noteq> js ''signature''" "js ''pins'' \<noteq> js ''signature''"
    "js ''approvedAt'' \<noteq> js ''signature''" "js ''approvedBy'' \<noteq> js ''signature''" "js ''keyId'' \<noteq> js ''signature''"
    by (simp_all add: ascii_eval)
  show ?thesis unfolding canonicalPins_def m [OF f(1)] m [OF f(2)] m [OF f(3)] m [OF f(4)] m [OF f(5)] m [OF f(6)] ..
qed

lemma canonical_pin_json: "canonical_pin (pin_json p) = Some (pin_json p)"
  by (simp add: canonical_pin_def pin_json_members) (simp add: pin_json_def)

text \<open>What is signed is verified: a set of pins that pinTools made and signToolPins signed is accepted under the matching key for its server, and the set that comes back is the one that was signed.\<close>

theorem pins_round_trip:
  assumes "pinTools C server tools by tm = Inr set'" "ed_pair C priv pub" "signToolPins C set' priv kid = Some sgd"
  shows "verifyToolPins C sgd pub server = Inr set'"
proof -
  obtain pins where set': "set' = JObj ([(js ''version'', JStr TOOL_PINS_VERSION), (js ''server'', JStr server),
        (js ''pins'', JArr (map pin_json (sort_key fst pins))), (js ''approvedAt'', JNum (Fin tm))]
      @ (case by of Some (c # s) \<Rightarrow> [(js ''approvedBy'', JStr (c # s))] | _ \<Rightarrow> []))"
    using assms(1) by (cases "pin_loop C [] tools") (auto simp: pinTools_def)
  then obtain kvs where kvs: "set' = JObj kvs" by blast
  obtain kvs2 where k2: "with_member set' ''keyId'' (JStr kid) = JObj kvs2" by (simp add: with_member_def kvs)
  obtain t sg where t: "canonicalPins (JObj kvs2) = Some t" "signCanonicalPayloadEd25519 C t priv = Some sg"
    "sgd = with_member (JObj kvs2) ''signature'' (JStr sg)"
    using assms(3) by (auto simp: signToolPins_def Let_def k2 split: option.splits)
  have l: "jmember sgd f = (if js f = js ''signature'' then Some (JStr sg) else if js f = js ''keyId'' then Some (JStr kid) else jmember set' f)" for f
    using with_member_lookup [of kvs2 "''signature''" "JStr sg" f] with_member_lookup [of kvs "''keyId''" "JStr kid" f] k2
    by (simp add: t(3) kvs)
  have s': "jmember set' ''version'' = Some (JStr TOOL_PINS_VERSION)" "jmember set' ''server'' = Some (JStr server)"
    "jmember set' ''pins'' = Some (JArr (map pin_json (sort_key fst pins)))" "jmember set' ''approvedAt'' = Some (JNum (Fin tm))"
    "jmember set' ''approvedBy'' = (case by of Some (c # s) \<Rightarrow> Some (JStr (c # s)) | _ \<Rightarrow> None)"
    by (auto simp: set' ascii_eval split: option.split list.split)
  have m: "jmember sgd ''version'' = Some (JStr TOOL_PINS_VERSION)" "jmember sgd ''server'' = Some (JStr server)"
    "jmember sgd ''pins'' = Some (JArr (map pin_json (sort_key fst pins)))" "jmember sgd ''approvedAt'' = Some (JNum (Fin tm))"
    "jmember sgd ''approvedBy'' = (case by of Some (c # s) \<Rightarrow> Some (JStr (c # s)) | _ \<Rightarrow> None)"
    "jmember sgd ''signature'' = Some (JStr sg)" "jmember sgd ''keyId'' = Some (JStr kid)"
    by (simp_all only: l s') (simp_all add: ascii_eval)
  have "canonicalPins sgd = Some t" using t(1,3) canonical_pins_signature by simp
  moreover have "verifyCanonicalPayloadEd25519 C t sg pub = Some True" by (rule ed.sign_verifies [OF assms(2) t(2)])
  moreover have "verified_set sgd = set'"
  proof -
    have "map (\<lambda>p. or_null (canonical_pin p)) (map pin_json qs) = map pin_json qs" for qs
      by (simp add: canonical_pin_json or_null_def)
    then show ?thesis
      by (simp add: verified_set_def m or_null_def pins_of_def set' truthy_json_def split: option.split list.split)
  qed
  ultimately show ?thesis by (simp add: verifyToolPins_def m)
qed

section \<open>A guarded client at work\<close>

definition demo_tool :: json where
  "demo_tool = JObj [(js ''name'', JStr (js ''t''))]"

lemma demo_tool_clean: "scanTool demo_tool = []" "tool_name demo_tool = js ''t''"
proof -
  have "scan_string [116] loc [] = []" for loc
    by (simp add: scan_string_def ascii_eval MAX_TOOL_TEXT_LENGTH_def scan_code_point_def classifyCodePoint_def is_high_def is_low_def)
  then show "scanTool demo_tool = []" "tool_name demo_tool = js ''t''"
    by (simp_all add: demo_tool_def scanTool_def DIGEST_FIELDS_def scan_field_def ascii_eval budget_spent_def MAX_SCAN_STRINGS_def tool_name_def)
qed

lemma demo_tool_digest: "\<exists>d. mcpToolDigest C demo_tool = Some d"
proof -
  have "stableStringify (JObj (picked_fields demo_tool)) \<noteq> None"
    by (simp only: stableStringify_throws) (simp add: demo_tool_def picked_fields_def DIGEST_FIELDS_def ascii_eval List.map_filter_simps)
  then show ?thesis by (auto simp: mcpToolDigest_def)
qed

definition demo_digest :: "crypto \<Rightarrow> jstr" where
  "demo_digest C = (case mcpToolDigest C demo_tool of Some d \<Rightarrow> d | None \<Rightarrow> [])"

lemma demo_digest: "mcpToolDigest C demo_tool = Some (demo_digest C)"
  using demo_tool_digest [of C] by (auto simp: demo_digest_def)

definition demo_pins :: "crypto \<Rightarrow> json" where
  "demo_pins C = JObj [(js ''version'', JStr TOOL_PINS_VERSION), (js ''server'', JStr (js ''s'')),
    (js ''pins'', JArr [pin_json (js ''t'', demo_digest C)]), (js ''approvedAt'', JNum (Fin 1))]"

definition demo_pin_guard :: "crypto \<Rightarrow> pin_guard" where
  "demo_pin_guard C = \<lparr>pg_pinned = [(Some (JStr (js ''t'')), Some (JStr (demo_digest C)))], pg_server = Some (JStr (js ''s'')), pg_allowUnpinned = False\<rparr>"

lemma demo_pinned: "pinTools C (js ''s'') [demo_tool] None 1 = Inr (demo_pins C)"
  by (simp add: pinTools_def demo_tool_clean demo_digest demo_pins_def) (simp add: ascii_eval)

lemma demo_pin_guard_new: "new_pin_guard (demo_pins C) False = Some (demo_pin_guard C)"
proof -
  have "jmember (demo_pins C) ''version'' = Some (JStr TOOL_PINS_VERSION)" "jmember (demo_pins C) ''pins'' = Some (JArr [pin_json (js ''t'', demo_digest C)])"
    "jmember (demo_pins C) ''server'' = Some (JStr (js ''s''))" "JNull \<noteq> pin_json x" for x
    by (simp_all add: demo_pins_def pin_json_def ascii_eval)
  then show ?thesis by (simp add: new_pin_guard_def pin_json_members demo_pin_guard_def)
qed

lemma demo_pin_digest: "pinned_digest (demo_pin_guard C) (js ''t'') = Some (JStr (demo_digest C))"
  by (simp add: pinned_digest_def demo_pin_guard_def)

definition demo_page :: json where
  "demo_page = JObj [(js ''result'', JObj [(js ''tools'', JArr [demo_tool])])]"

definition demo_request :: json where
  "demo_request = JObj [(js ''method'', JStr (js ''tools/call'')), (js ''params'', JObj [(js ''name'', JStr (js ''t''))])]"

lemma demo_page_parts:
  "listed_tools demo_page = Some [demo_tool]" "jmember (or_null (jmember demo_page ''result'')) ''nextCursor'' = None"
  "called_name demo_request = Some (js ''t'')" "jmember demo_tool ''name'' = Some (JStr (js ''t''))"
  by (simp_all add: demo_page_def demo_request_def listed_tools_def isToolArray_def result_tools_def or_null_def truthy_json_def called_name_def
    demo_tool_def ascii_eval)

text \<open>The first call sweeps the list, which is one page long.\<close>

definition demo_server :: "unit mcp_server" where
  "demo_server = (\<lambda>s req. (s, Some demo_page))"

definition demo_clock :: call_clock where
  "demo_clock = \<lparr>cc_now = 5, cc_after = 7\<rparr>"

lemma demo_sweep:
  "\<exists>h'. decide_call C demo_server 30 20 demo_clock () (new_guard_handle (demo_pin_guard C)) demo_request = ((), h', Forward)
    \<and> full_sweep C demo_server 30 20 demo_clock () (new_guard_handle (demo_pin_guard C)) demo_request = Some [demo_page]"
proof -
  let ?h = "new_guard_handle (demo_pin_guard C)"
  let ?h1 = "?h\<lparr>gh_nextId := Suc (gh_nextId ?h)\<rparr>"
  have g: "gh_guard ?h1 = demo_pin_guard C" "\<not> pg_allowUnpinned (gh_guard ?h1)" by (simp_all add: new_guard_handle_def demo_pin_guard_def)
  have "filter (\<lambda>u. jmember u ''name'' = Some (JStr (js ''t''))) [demo_tool] = [demo_tool]" by (simp add: demo_page_parts)
  moreover have "\<forall>u \<in> set [demo_tool]. mcpToolDigest C u \<noteq> None" by (simp add: demo_digest)
  moreover have "js ''t'' \<noteq> []" by (simp add: ascii_eval)
  ultimately obtain h1 :: guard_handle and m where p: "page_step C ?h1 [] demo_page = (h1, PageLast m)"
    "mget m (js ''t'') = Some (judge_tool (demo_pin_guard C) demo_tool (demo_digest C))"
    using page_judges [OF g(2) demo_page_parts(1) _ _ _ demo_digest, where nm = "js ''t''" and m = "[]"] unfolding g(1) demo_page_parts(2) option.case by blast
  have v: "\<not> tv_blocked (judge_tool (demo_pin_guard C) demo_tool (demo_digest C))"
    by (simp add: judge_tool_def demo_tool_clean demo_pin_digest Let_def)
  have n: "gh_verifiedAt ?h = None" by (simp add: new_guard_handle_def)
  have r: "refresh_loop C demo_server 7 20 () ?h [] None = ((), finish_refresh h1 m 7, Some True)"
    using p(1) refresh_loop.simps(2) [of C demo_server 7 19 "()" ?h "[]" None] by (simp add: demo_server_def)
  have l: "refresh_loop C (logging demo_server) 7 20 ((), []) ?h [] None = (((), [demo_page]), finish_refresh h1 m 7, Some True)"
    using p(1) refresh_loop.simps(2) [of C "logging demo_server" 7 19 "((), [])" ?h "[]" None]
    by (simp add: logging_def demo_server_def)
  show ?thesis using p(2) v n r l
    by (simp add: decide_call_def full_sweep_def demo_page_parts(3) finish_refresh_def demo_clock_def)
qed

theorem calls_only_approved_witness:
  "\<exists>res ts t d. last_listing [demo_page] (js ''t'') = Some res \<and> listed_tools res = Some ts \<and> t \<in> set ts \<and> tool_name t = js ''t'' \<and> mcpToolDigest demo_crypto t = Some d"
proof -
  let ?g = "demo_pin_guard demo_crypto"
  obtain h' where d: "decide_call demo_crypto demo_server 30 20 demo_clock () (new_guard_handle ?g) demo_request = ((), h', Forward)"
    and sw: "full_sweep demo_crypto demo_server 30 20 demo_clock () (new_guard_handle ?g) demo_request = Some [demo_page]" using demo_sweep by blast
  have r: "handle_run demo_crypto demo_server 30 20 ((), new_guard_handle ?g) [] = ((), new_guard_handle ?g)" by simp
  have sh: "shown_before_call demo_crypto demo_server 30 20 demo_clock () (new_guard_handle ?g) demo_request
      (shown_run demo_crypto demo_server 30 20 ((), new_guard_handle ?g) ([], None) []) = ([demo_page], Some 7)"
    unfolding shown_before_call_def sw by (simp add: demo_clock_def)
  from calls_only_approved [OF demo_pinned demo_pin_guard_new r d demo_page_parts(3) sh] show ?thesis by blast
qed

lemma demo_inspected: "\<exists>g' i. inspect C (demo_pin_guard C) [demo_tool] = (g', Some i) \<and> li_allowed i = [demo_tool]"
proof -
  have "js ''t'' \<noteq> []" "occurrences [demo_tool] (js ''t'') = 1"
    by (simp_all add: ascii_eval occurrences_def demo_tool_def)
  moreover have "\<not> tv_blocked (judge_tool (demo_pin_guard C) demo_tool (demo_digest C))"
    by (simp add: judge_tool_def demo_tool_clean demo_pin_digest Let_def)
  ultimately show ?thesis by (simp add: inspect_def demo_tool_clean demo_digest Let_def)
qed

theorem exposed_tools_approved_witness:
  "scanTool demo_tool = [] \<and> map_option norm_json (jmember demo_tool ''title'') = None"
proof -
  let ?g = "demo_pin_guard demo_crypto_inj"
  obtain g' i where i: "inspect demo_crypto_inj ?g [demo_tool] = (g', Some i)" "li_allowed i = [demo_tool]" using demo_inspected by blast
  have "inj_on (sha256_raw demo_crypto_inj) S" for S by (simp add: demo_crypto_inj_def inj_on_def)
  from exposed_tools_approved [OF demo_pinned demo_pin_guard_new i(1) _ this, of demo_tool] i(2)
  show ?thesis by (auto simp: DIGEST_FIELDS_def demo_tool_def ascii_eval)
qed

end
