(* ===== verification/DidKey.thy ===== *)
theory DidKey
  imports Bytes Dpop
begin

text \<open>
  \<open>src/agentIdentity.ts\<close>, first part: base58btc, \<open>did:key\<close> identifiers of Ed25519 keys with their
  documents and the derived X25519 key, and SPIFFE identifiers. The regular expressions are
  written out, read from the left. \<open>None\<close> is \<open>null\<close>; a call that may also throw returns a
  second option around it.
\<close>

section \<open>base58btc\<close>

definition B58 :: jstr where
  "B58 = js ''123456789ABCDEFGHJKLMNPQRSTUVWXYZabcdefghijkmnopqrstuvwxyz''"

definition B58_INDEX :: "(code_unit \<times> nat) list" where
  "B58_INDEX = zip B58 [0..<58]"

text \<open>The digits of a number in a base, the most significant first, none for zero; and back.\<close>

fun digits_of :: "nat \<Rightarrow> nat \<Rightarrow> nat list" where
  "digits_of base n = (if n = 0 \<or> base < 2 then [] else digits_of base (n div base) @ [n mod base])"

definition value_of :: "nat \<Rightarrow> nat list \<Rightarrow> nat" where
  "value_of base ds = foldl (\<lambda>n d. n * base + d) 0 ds"

definition leading :: "'a \<Rightarrow> 'a list \<Rightarrow> nat" where
  "leading x xs = length (takeWhile (\<lambda>y. y = x) xs)"

definition base58btcEncode :: "bytes \<Rightarrow> jstr" where
  "base58btcEncode bs = replicate (leading 0 bs) 49 @ map ((!) B58) (digits_of 58 (be_value bs))"

definition base58btcDecode :: "jstr \<Rightarrow> bytes option" where
  "base58btcDecode s =
    map_option (\<lambda>ds. replicate (leading 49 s) 0 @ map of_nat (digits_of 256 (value_of 58 ds))) (all_some (map (map_of B58_INDEX) s))"

section \<open>did:key\<close>

definition SPKI_PREFIX :: bytes where
  "SPKI_PREFIX = [0x30, 0x2a, 0x30, 0x05, 0x06, 0x03, 0x2b, 0x65, 0x70, 0x03, 0x21, 0x00]"

definition MULTICODEC_ED25519 :: bytes where
  "MULTICODEC_ED25519 = [0xed, 0x01]"

definition MULTICODEC_X25519 :: bytes where
  "MULTICODEC_X25519 = [0xec, 0x01]"

definition rawFromSpki :: "jstr \<Rightarrow> bytes option" where
  "rawFromSpki spki =
    (case b64uToBytes spki of
       None \<Rightarrow> None
     | Some der \<Rightarrow>
         if length der \<noteq> length SPKI_PREFIX + 32 \<or> take (length SPKI_PREFIX) der \<noteq> SPKI_PREFIX then None
         else Some (drop (length SPKI_PREFIX) der))"

definition spkiFromRaw :: "bytes \<Rightarrow> jstr" where
  "spkiFromRaw raw = toBase64Url (SPKI_PREFIX @ raw)"

definition multibase :: "bytes \<Rightarrow> bytes \<Rightarrow> jstr" where
  "multibase codec raw = 122 # base58btcEncode (codec @ raw)"

definition fromMultibase :: "jstr \<Rightarrow> bytes \<Rightarrow> bytes option" where
  "fromMultibase v codec =
    (case v of
       [] \<Rightarrow> None
     | c # t \<Rightarrow>
         if c \<noteq> 122 then None
         else (case base58btcDecode t of
           None \<Rightarrow> None
         | Some bs \<Rightarrow>
             if length bs \<noteq> length codec + 32 \<or> take (length codec) bs \<noteq> codec then None else Some (drop (length codec) bs)))"

text \<open>\<open>None\<close>: it throws.\<close>

definition didKeyFromEd25519 :: "jstr \<Rightarrow> jstr option" where
  "didKeyFromEd25519 spki = map_option (\<lambda>raw. js ''did:key:'' @ multibase MULTICODEC_ED25519 raw) (rawFromSpki spki)"

text \<open>\<open>z\<close> and at least one character of the alphabet.\<close>

definition multibase_shaped :: "jstr \<Rightarrow> bool" where
  "multibase_shaped s = (case s of c # t \<Rightarrow> c = 122 \<and> t \<noteq> [] \<and> (\<forall>d \<in> set t. d \<in> set B58) | [] \<Rightarrow> False)"

text \<open>The two groups of the regular expression.\<close>

definition did_key_groups :: "jstr \<Rightarrow> (jstr \<times> jstr option) option" where
  "did_key_groups did =
    (if take 8 did \<noteq> js ''did:key:'' then None
     else let m1 = takeWhile (\<lambda>c. c \<noteq> 35) (drop 8 did); rest = dropWhile (\<lambda>c. c \<noteq> 35) (drop 8 did) in
       if \<not> multibase_shaped m1 then None
       else (case rest of
         [] \<Rightarrow> Some (m1, None)
       | _ # m2 \<Rightarrow> if multibase_shaped m2 then Some (m1, Some m2) else None))"

definition ed25519FromDidKey :: "jstr \<Rightarrow> jstr option" where
  "ed25519FromDidKey did =
    (case did_key_groups did of
       None \<Rightarrow> None
     | Some (m1, m2) \<Rightarrow>
         if m2 \<noteq> None \<and> m2 \<noteq> Some m1 then None
         else map_option spkiFromRaw (fromMultibase m1 MULTICODEC_ED25519))"

section \<open>The X25519 key\<close>

definition curve_P :: int where
  "curve_P = 2 ^ 255 - 19"

definition curve_mod :: "int \<Rightarrow> int" where
  "curve_mod a = a mod curve_P"

function powMod_loop :: "int \<Rightarrow> int \<Rightarrow> nat \<Rightarrow> int" where
  "powMod_loop result b e =
    (if e = 0 then result
     else powMod_loop (if odd e then curve_mod (result * b) else result) (curve_mod (b * b)) (e div 2))"
  by pat_completeness auto
termination by (relation "measure (\<lambda>(r, b, e). e)") auto

definition powMod :: "int \<Rightarrow> nat \<Rightarrow> int" where
  "powMod base e = powMod_loop 1 (curve_mod base) e"

text \<open>Bytes with the least significant first.\<close>

definition le_value :: "bytes \<Rightarrow> nat" where
  "le_value bs = be_value (rev bs)"

definition montgomery_u :: "int \<Rightarrow> int option" where
  "montgomery_u y =
    (let denominator = curve_mod (1 - y) in
     if denominator = 0 then None else Some (curve_mod ((1 + y) * powMod denominator (nat (curve_P - 2)))))"

definition ed25519PublicToX25519 :: "jstr \<Rightarrow> jstr option" where
  "ed25519PublicToX25519 spki =
    (case rawFromSpki spki of
       None \<Rightarrow> None
     | Some raw \<Rightarrow>
         map_option (\<lambda>u. toBase64Url (rev (be_bytes 32 (nat u)))) (montgomery_u (int (le_value (raw[31 := raw ! 31 AND 0x7f])))))"

text \<open>The document; the outer option is a throw of the derivation of the X25519 key.\<close>

definition did_method :: "jstr \<Rightarrow> jstr \<Rightarrow> jstr \<Rightarrow> json" where
  "did_method mid base mb = JObj [(js ''id'', JStr mid), (js ''type'', JStr (js ''Multikey'')), (js ''controller'', JStr base), (js ''publicKeyMultibase'', JStr mb)]"

definition didKeyDocument :: "jstr \<Rightarrow> json option option" where
  "didKeyDocument did =
    (case ed25519FromDidKey did of
       None \<Rightarrow> Some None
     | Some spki \<Rightarrow>
         if spki = [] then Some None
         else let base = takeWhile (\<lambda>c. c \<noteq> 35) did; fragment = drop 8 base; vm = base @ 35 # fragment in
         (case ed25519PublicToX25519 spki of
            None \<Rightarrow> None
          | Some x \<Rightarrow>
              (case b64uToBytes x of
                 None \<Rightarrow> None
               | Some xb \<Rightarrow> let x25519 = multibase MULTICODEC_X25519 xb in
                   Some (Some (JObj
                     [(js ''@context'', JArr [JStr (js ''https://www.w3.org/ns/did/v1.1'')]), (js ''id'', JStr base),
                      (js ''verificationMethod'', JArr [did_method vm base fragment]), (js ''authentication'', JArr [JStr vm]),
                      (js ''assertionMethod'', JArr [JStr vm]), (js ''capabilityInvocation'', JArr [JStr vm]),
                      (js ''capabilityDelegation'', JArr [JStr vm]),
                      (js ''keyAgreement'', JArr [did_method (base @ 35 # x25519) base x25519])])))))"

definition did_key_registry :: "jstr \<Rightarrow> jstr option" where
  "did_key_registry sender' = ed25519FromDidKey sender'"

section \<open>SPIFFE\<close>

definition domain_char :: "code_unit \<Rightarrow> bool" where
  "domain_char c \<longleftrightarrow> (let n = unat c in 97 \<le> n \<and> n \<le> 122 \<or> 48 \<le> n \<and> n \<le> 57 \<or> n = 46 \<or> n = 95 \<or> n = 45)"

definition segment_char :: "code_unit \<Rightarrow> bool" where
  "segment_char c \<longleftrightarrow> domain_char c \<or> 65 \<le> unat c \<and> unat c \<le> 90"

record spiffe_id =
  sp_trustDomain :: jstr
  sp_path :: jstr

text \<open>\<open>path.split('/').slice(1)\<close>.\<close>

definition path_segments :: "jstr \<Rightarrow> jstr list" where
  "path_segments p = tl (split_on 47 p)"

definition parseSpiffeId :: "jstr \<Rightarrow> spiffe_id option" where
  "parseSpiffeId s =
    (if 2048 < length s \<or> take 9 s \<noteq> js ''spiffe://'' then None
     else let td = takeWhile domain_char (drop 9 s); p = dropWhile domain_char (drop 9 s) in
       if td = [] \<or> (p \<noteq> [] \<and> hd p \<noteq> 47) \<or> (\<exists>seg \<in> set (path_segments p). seg = [] \<or> (\<exists>c \<in> set seg. \<not> segment_char c)) then None
       else if \<exists>seg \<in> set (path_segments p). seg = [46] \<or> seg = [46, 46] then None
       else Some \<lparr>sp_trustDomain = td, sp_path = p\<rparr>)"

record spiffe_policy =
  spo_trustDomains :: "jstr list"
  spo_pathPrefixes :: "jstr list option"

definition ends_slash :: "jstr \<Rightarrow> bool" where
  "ends_slash p \<longleftrightarrow> p \<noteq> [] \<and> last p = 47"

definition beneath :: "jstr \<Rightarrow> jstr \<Rightarrow> bool" where
  "beneath pth p \<longleftrightarrow> pth = p \<or> startsWith pth (if ends_slash p then p else p @ [47])"

text \<open>\<open>None\<close>: it throws.\<close>

definition isSpiffeIdAllowed :: "jstr \<Rightarrow> spiffe_policy \<Rightarrow> bool option" where
  "isSpiffeIdAllowed s pol =
    (if spo_trustDomains pol = [] then None
     else Some (case parseSpiffeId s of
       None \<Rightarrow> False
     | Some i \<Rightarrow>
         sp_trustDomain i \<in> set (spo_trustDomains pol) \<and>
         (case spo_pathPrefixes pol of None \<Rightarrow> True | Some ps \<Rightarrow> \<exists>p \<in> set ps. beneath (sp_path i) p)))"

end
