(* ===== verification/DidKeyProps.thy ===== *)
theory DidKeyProps
  imports DidKey
begin

text \<open>
  base58btc as a bijection, \<open>did:key\<close> identifiers as names of keys, the square-and-multiply loop,
  and what a SPIFFE policy confines.
\<close>

declare digits_of.simps [simp del] powMod_loop.simps [simp del]

section \<open>Digits\<close>

lemma digits_zero [simp]: "digits_of b 0 = []"
  by (simp add: digits_of.simps)

lemma digits_step: "n \<noteq> 0 \<Longrightarrow> 2 \<le> b \<Longrightarrow> digits_of b n = digits_of b (n div b) @ [n mod b]"
  by (simp add: digits_of.simps)

lemma value_snoc: "value_of b (ds @ [d]) = value_of b ds * b + d"
  by (simp add: value_of_def)

lemma div_smaller: "n \<noteq> 0 \<Longrightarrow> 2 \<le> b \<Longrightarrow> n div b < (n :: nat)"
  by (intro div_less_dividend) auto

lemma value_digits: "2 \<le> b \<Longrightarrow> value_of b (digits_of b n) = n"
proof (induction n rule: less_induct)
  case (less n)
  show ?case
  proof (cases "n = 0")
    case False
    have "value_of b (digits_of b n) = value_of b (digits_of b (n div b)) * b + n mod b"
      by (simp only: digits_step [OF False less.prems] value_snoc)
    then show ?thesis using less.IH [OF div_smaller [OF False less.prems] less.prems] by simp
  qed (simp add: value_of_def)
qed

lemma digits_range: "2 \<le> b \<Longrightarrow> \<forall>d \<in> set (digits_of b n). d < b"
proof (induction n rule: less_induct)
  case (less n)
  show ?case
  proof (cases "n = 0")
    case False
    have "set (digits_of b n) = insert (n mod b) (set (digits_of b (n div b)))"
      by (simp only: digits_step [OF False less.prems]) simp
    moreover have "n mod b < b" using less.prems by simp
    ultimately show ?thesis using less.IH [OF div_smaller [OF False less.prems] less.prems] by simp
  qed simp
qed

text \<open>Digits without a leading zero.\<close>

definition trimmed :: "'a :: zero list \<Rightarrow> bool" where
  "trimmed ds \<longleftrightarrow> ds = [] \<or> hd ds \<noteq> 0"

lemma digits_nonempty: "n \<noteq> 0 \<Longrightarrow> 2 \<le> b \<Longrightarrow> digits_of b n \<noteq> []"
  using digits_step [of n b] by simp

lemma digits_trimmed: "2 \<le> b \<Longrightarrow> trimmed (digits_of b n)"
proof (induction n rule: less_induct)
  case (less n)
  show ?case
  proof (cases "n = 0")
    case False
    note st = digits_step [OF False less.prems]
    show ?thesis
    proof (cases "n div b = 0")
      case True
      then have "n mod b = n" using less.prems by (simp add: div_eq_0_iff)
      with True False show ?thesis by (simp add: st trimmed_def)
    next
      case nz: False
      from digits_nonempty [OF nz less.prems] less.IH [OF div_smaller [OF False less.prems] less.prems]
      show ?thesis by (simp add: st trimmed_def)
    qed
  qed (simp add: trimmed_def)
qed

lemma digits_value: "2 \<le> b \<Longrightarrow> \<forall>d \<in> set ds. d < b \<Longrightarrow> trimmed ds \<Longrightarrow> digits_of b (value_of b ds) = ds"
proof (induction ds rule: rev_induct)
  case (snoc d ds)
  have t: "trimmed ds" using snoc.prems(3) by (cases ds) (auto simp: trimmed_def)
  have "value_of b (ds @ [d]) \<noteq> 0"
  proof
    assume z: "value_of b (ds @ [d]) = 0"
    with snoc.prems(1) have "value_of b ds = 0" "d = 0" by (auto simp: value_snoc)
    with snoc.IH [OF snoc.prems(1) _ t] snoc.prems(2) have "ds = []" by simp
    with snoc.prems(3) \<open>d = 0\<close> show False by (simp add: trimmed_def)
  qed
  then have "digits_of b (value_of b (ds @ [d])) = digits_of b (value_of b (ds @ [d]) div b) @ [value_of b (ds @ [d]) mod b]"
    using snoc.prems(1) by (rule digits_step)
  moreover have "value_of b (ds @ [d]) div b = value_of b ds" "value_of b (ds @ [d]) mod b = d"
    using snoc.prems(1,2) by (simp_all add: value_snoc)
  ultimately show ?case using snoc.IH [OF snoc.prems(1) _ t] snoc.prems(2) by simp
qed (simp add: value_of_def)

lemma value_zeros: "value_of b (replicate z 0 @ ds) = value_of b ds"
proof -
  have "foldl (\<lambda>n d. n * b + d) 0 (replicate z 0) = 0" by (induction z) simp_all
  then show ?thesis by (simp add: value_of_def)
qed

lemma be_value_digits: "be_value bs = value_of 256 (map unat bs)"
  by (simp add: be_value_def value_of_def foldl_map)

lemma leading_split: "xs = replicate (leading x xs) x @ dropWhile (\<lambda>y. y = x) xs"
  by (induction xs) (auto simp: leading_def)

lemma leading_replicate: "t = [] \<or> hd t \<noteq> x \<Longrightarrow> leading x (replicate z x @ t) = z"
  by (induction z) (auto simp: leading_def takeWhile_eq_Nil_iff)

section \<open>base58btc\<close>

lemma B58_facts: "length B58 = 58" "distinct B58" "B58 ! 0 = 49"
  by (simp_all add: B58_def ascii_eval)

lemma b58_index: "d < 58 \<Longrightarrow> map_of B58_INDEX (B58 ! d) = Some d"
  using map_of_zip_nth [of B58 "[0..<58]" d] by (simp add: B58_INDEX_def B58_facts)

lemma b58_indexD: "map_of B58_INDEX c = Some d \<Longrightarrow> d < 58 \<and> B58 ! d = c"
  by (drule map_of_SomeD) (auto simp: B58_INDEX_def in_set_zip B58_facts)

lemma b58_nth_eq: "d < 58 \<Longrightarrow> B58 ! d = 49 \<longleftrightarrow> d = 0"
  using nth_eq_iff_index_eq [OF B58_facts(2), of d 0] by (simp add: B58_facts)

lemma b58_decode_digits: "\<forall>d \<in> set ds. d < 58 \<Longrightarrow> all_some (map (map_of B58_INDEX) (map ((!) B58) ds)) = Some ds"
  by (induction ds) (simp_all add: b58_index)

lemma b58_digits_decoded: "all_some (map (map_of B58_INDEX) s) = Some ds \<Longrightarrow> s = map ((!) B58) ds \<and> (\<forall>d \<in> set ds. d < 58)"
proof (induction s arbitrary: ds)
  case (Cons c s)
  obtain d ds' where "map_of B58_INDEX c = Some d" "all_some (map (map_of B58_INDEX) s) = Some ds'" "ds = d # ds'"
    using Cons.prems by (cases "map_of B58_INDEX c"; cases "all_some (map (map_of B58_INDEX) s)") auto
  with Cons.IH b58_indexD show ?case by auto
qed simp

lemma bytes_digits: "\<forall>d \<in> set ds. d < 256 \<Longrightarrow> map unat (map of_nat ds :: bytes) = ds"
  by (induction ds) (simp_all add: unat_of_nat8 del: of_nat_add)

lemma digits_bytes: "map of_nat (map unat bs) = (bs :: bytes)"
  by (induction bs) simp_all

lemma base58_decode_encode: "base58btcDecode (base58btcEncode bs) = Some bs"
proof -
  let ?rest = "dropWhile (\<lambda>y. y = 0) bs"
  have bs: "bs = replicate (leading 0 bs) 0 @ ?rest" by (rule leading_split)
  have t: "trimmed (map unat ?rest)"
    using hd_dropWhile [of "\<lambda>y. y = 0" bs] by (cases ?rest) (auto simp: trimmed_def unat_eq_zero)
  have "map unat bs = replicate (leading 0 bs) 0 @ map unat ?rest"
    using arg_cong [OF bs, of "map unat"] by simp
  then have v: "be_value bs = value_of 256 (map unat ?rest)" by (simp add: be_value_digits value_zeros)
  define ds where "ds = digits_of 58 (be_value bs)"
  have ds: "\<forall>d \<in> set ds. d < 58" "trimmed ds" "value_of 58 ds = be_value bs"
    using digits_range [of 58] digits_trimmed [of 58] value_digits [of 58] by (simp_all add: ds_def)
  have l: "leading 49 (base58btcEncode bs) = leading 0 bs"
    unfolding base58btcEncode_def ds_def [symmetric]
    by (rule leading_replicate) (use ds(1,2) b58_nth_eq in \<open>cases ds; auto simp: trimmed_def\<close>)
  have e: "base58btcEncode bs = map ((!) B58) (replicate (leading 0 bs) 0 @ ds)"
    by (simp add: base58btcEncode_def ds_def B58_facts)
  have d: "all_some (map (map_of B58_INDEX) (base58btcEncode bs)) = Some (replicate (leading 0 bs) 0 @ ds)"
    unfolding e by (rule b58_decode_digits) (use ds(1) in auto)
  have "digits_of 256 (be_value bs) = map unat ?rest"
    unfolding v by (rule digits_value) (use t unat8_less in auto)
  then have "map of_nat (digits_of 256 (be_value bs)) = ?rest" using digits_bytes [of ?rest] by simp
  with bs show ?thesis by (simp add: base58btcDecode_def d l value_zeros ds(3))
qed

lemma base58_encode_decode:
  assumes "base58btcDecode s = Some bs"
  shows "base58btcEncode bs = s"
proof -
  obtain ds where ds: "all_some (map (map_of B58_INDEX) s) = Some ds"
    "bs = replicate (leading 49 s) 0 @ map of_nat (digits_of 256 (value_of 58 ds))"
    using assms by (auto simp: base58btcDecode_def)
  have s: "s = map ((!) B58) ds" "\<forall>d \<in> set ds. d < 58" using b58_digits_decoded [OF ds(1)] by blast+
  let ?rest = "dropWhile (\<lambda>d. d = 0) ds"
  have l: "leading 49 s = leading 0 ds"
    unfolding s(1) using s(2) by (induction ds) (auto simp: leading_def b58_nth_eq)
  have d: "ds = replicate (leading 0 ds) 0 @ ?rest" by (rule leading_split)
  have t: "trimmed ?rest" using hd_dropWhile [of "\<lambda>y. y = 0" ds] by (cases ?rest) (auto simp: trimmed_def)
  have r: "\<forall>d \<in> set ?rest. d < 58" using s(2) set_dropWhileD by metis
  have v: "value_of 58 ds = value_of 58 ?rest" using d value_zeros by metis
  let ?tail = "map of_nat (digits_of 256 (value_of 58 ds)) :: bytes"
  have u: "map unat ?tail = digits_of 256 (value_of 58 ds)"
    by (rule bytes_digits) (use digits_range [of 256] in simp)
  have tt: "?tail = [] \<or> hd ?tail \<noteq> 0"
  proof (cases "digits_of 256 (value_of 58 ds)")
    case (Cons x xs)
    have "x \<noteq> 0" using digits_trimmed [of 256 "value_of 58 ds"] Cons by (simp add: trimmed_def)
    moreover have "unat (of_nat x :: byte) = x" using u Cons by simp
    ultimately show ?thesis using Cons by auto
  qed simp
  have lb: "leading 0 bs = leading 0 ds" unfolding ds(2) l by (rule leading_replicate [OF tt])
  have "be_value bs = value_of 58 ds"
    using value_digits [of 256] by (simp add: be_value_digits ds(2) value_zeros u del: map_map)
  then have "digits_of 58 (be_value bs) = ?rest" using digits_value [OF _ r t] v by simp
  with lb have "base58btcEncode bs = map ((!) B58) (replicate (leading 0 ds) 0 @ ?rest)"
    by (simp add: base58btcEncode_def B58_facts)
  with d s(1) show ?thesis by simp
qed

section \<open>Identifiers and keys\<close>

lemma base58_chars: "base58btcDecode s = Some bs \<Longrightarrow> \<forall>c \<in> set s. c \<in> set B58"
proof -
  assume "base58btcDecode s = Some bs"
  then obtain ds where "all_some (map (map_of B58_INDEX) s) = Some ds" by (auto simp: base58btcDecode_def)
  from b58_digits_decoded [OF this] show ?thesis by (auto simp: B58_facts)
qed

lemma hash_not_B58: "35 \<notin> set B58"
  by (simp add: B58_def ascii_eval)

lemma base58_not_empty: "bs \<noteq> [] \<Longrightarrow> base58btcEncode bs \<noteq> []"
proof
  assume "bs \<noteq> []" "base58btcEncode bs = []"
  then have "base58btcDecode [] = Some bs" using base58_decode_encode [of bs] by simp
  with \<open>bs \<noteq> []\<close> show False by (simp add: base58btcDecode_def leading_def value_of_def)
qed

lemma fromMultibase_iff:
  "fromMultibase v codec = Some raw \<longleftrightarrow> v = multibase codec raw \<and> length raw = 32"
proof
  assume "fromMultibase v codec = Some raw"
  then obtain t bs where t: "v = 122 # t" "base58btcDecode t = Some bs" "length bs = length codec + 32" "take (length codec) bs = codec" "raw = drop (length codec) bs"
    by (auto simp: fromMultibase_def split: list.splits if_splits option.splits)
  have bs: "codec @ raw = bs" unfolding t(5) by (subst t(4) [symmetric]) (rule append_take_drop_id)
  with t(1,3,5) base58_encode_decode [OF t(2)] show "v = multibase codec raw \<and> length raw = 32" unfolding multibase_def bs by simp
next
  assume "v = multibase codec raw \<and> length raw = 32"
  then show "fromMultibase v codec = Some raw" by (simp add: fromMultibase_def multibase_def base58_decode_encode)
qed

lemma multibase_shape: "multibase_shaped (multibase codec raw)" if "codec \<noteq> []"
  using base58_not_empty [of "codec @ raw"] base58_chars [OF base58_decode_encode [of "codec @ raw"]] that
  by (simp add: multibase_shaped_def multibase_def)

lemma multibase_no_hash: "multibase_shaped s \<Longrightarrow> 35 \<notin> set s"
  using hash_not_B58 by (auto simp: multibase_shaped_def split: list.splits)

lemma strict_base64url: "b64uToBytes (toBase64Url bs) = Some bs"
  by (rule b64u_roundtrip)

lemma raw_spki: "length raw = 32 \<Longrightarrow> rawFromSpki (spkiFromRaw raw) = Some raw"
  by (simp add: rawFromSpki_def spkiFromRaw_def strict_base64url SPKI_PREFIX_def)

lemma rawFromSpki_length: "rawFromSpki spki = Some raw \<Longrightarrow> length raw = 32"
  by (auto simp: rawFromSpki_def SPKI_PREFIX_def split: option.splits if_splits)

lemma did_groups:
  assumes "multibase_shaped m"
  shows "did_key_groups (js ''did:key:'' @ m) = Some (m, None)"
proof -
  have "\<forall>c \<in> set m. c \<noteq> 35" using multibase_no_hash [OF assms] by auto
  then have "takeWhile (\<lambda>c. c \<noteq> 35) m = m" "dropWhile (\<lambda>c. c \<noteq> 35) m = []" by auto
  moreover have "take 8 (js ''did:key:'' @ m) = js ''did:key:''" "drop 8 (js ''did:key:'' @ m) = m" by (simp_all add: ascii_eval)
  ultimately show ?thesis using assms by (simp only: did_key_groups_def Let_def) simp
qed

lemma did_of_key:
  assumes "didKeyFromEd25519 spki = Some did"
  shows "\<exists>raw. rawFromSpki spki = Some raw \<and> ed25519FromDidKey did = Some (spkiFromRaw raw)"
proof -
  obtain raw where raw: "rawFromSpki spki = Some raw" "did = js ''did:key:'' @ multibase MULTICODEC_ED25519 raw"
    using assms by (auto simp: didKeyFromEd25519_def)
  have "did_key_groups did = Some (multibase MULTICODEC_ED25519 raw, None)"
    unfolding raw(2) by (rule did_groups [OF multibase_shape]) (simp add: MULTICODEC_ED25519_def)
  moreover have "fromMultibase (multibase MULTICODEC_ED25519 raw) MULTICODEC_ED25519 = Some raw"
    using fromMultibase_iff rawFromSpki_length [OF raw(1)] by blast
  ultimately show ?thesis using raw(1) by (simp add: ed25519FromDidKey_def)
qed

lemma key_of_did:
  assumes "ed25519FromDidKey did = Some k"
  shows "didKeyFromEd25519 k = Some (takeWhile (\<lambda>c. c \<noteq> 35) did)"
proof -
  obtain m1 m2 raw where m: "did_key_groups did = Some (m1, m2)" "fromMultibase m1 MULTICODEC_ED25519 = Some raw" "k = spkiFromRaw raw"
    using assms by (auto simp: ed25519FromDidKey_def split: option.splits prod.splits if_splits)
  have g: "take 8 did = js ''did:key:''" "m1 = takeWhile (\<lambda>c. c \<noteq> 35) (drop 8 did)"
    using m(1) by (auto simp: did_key_groups_def Let_def split: if_splits list.splits)
  have "takeWhile (\<lambda>c. c \<noteq> 35) did = js ''did:key:'' @ m1"
  proof -
    have "js ''did:key:'' @ drop 8 did = did" by (subst g(1) [symmetric]) (rule append_take_drop_id)
    moreover have "\<forall>c \<in> set (js ''did:key:''). c \<noteq> 35" by (simp add: ascii_eval)
    ultimately have "takeWhile (\<lambda>c. c \<noteq> 35) did = js ''did:key:'' @ takeWhile (\<lambda>c. c \<noteq> 35) (drop 8 did)"
      using takeWhile_append2 [of "js ''did:key:''" "\<lambda>c. c \<noteq> 35" "drop 8 did"] by simp
    with g(2) show ?thesis by simp
  qed
  moreover have "m1 = multibase MULTICODEC_ED25519 raw" "length raw = 32" using m(2) fromMultibase_iff by blast+
  ultimately show ?thesis using raw_spki m(3) by (simp add: didKeyFromEd25519_def)
qed

section \<open>The X25519 key\<close>

lemma powMod_loop_eq: "0 \<le> r \<Longrightarrow> r < curve_P \<Longrightarrow> powMod_loop r b e = r * b ^ e mod curve_P"
proof (induction r b e rule: powMod_loop.induct)
  case (1 r b e)
  have p: "0 < curve_P" by (simp add: curve_P_def)
  show ?case
  proof (cases "e = 0")
    case True
    with 1(2,3) show ?thesis by (subst powMod_loop.simps) simp
  next
    case False
    let ?r = "if odd e then curve_mod (r * b) else r"
    have r: "0 \<le> ?r" "?r < curve_P" using 1(2,3) p by (simp_all add: curve_mod_def)
    have "powMod_loop r b e = powMod_loop ?r (curve_mod (b * b)) (e div 2)" using False by (subst powMod_loop.simps) simp
    also have "\<dots> = ?r * curve_mod (b * b) ^ (e div 2) mod curve_P" using 1(1) [OF False r] by simp
    also have "\<dots> = ?r * (b * b) ^ (e div 2) mod curve_P"
    proof -
      have "curve_mod (b * b) ^ (e div 2) mod curve_P = (b * b) ^ (e div 2) mod curve_P" by (simp add: curve_mod_def power_mod)
      then show ?thesis by (metis mod_mult_right_eq)
    qed
    also have "(b * b) ^ (e div 2) = b ^ (2 * (e div 2))" by (simp add: power_mult power2_eq_square)
    also have "?r * b ^ (2 * (e div 2)) mod curve_P = r * b ^ e mod curve_P"
    proof (cases "odd e")
      case True
      then have e: "e = Suc (2 * (e div 2))" by simp
      have "curve_mod (r * b) * b ^ (2 * (e div 2)) mod curve_P = r * b * b ^ (2 * (e div 2)) mod curve_P"
        by (simp add: curve_mod_def mod_mult_left_eq)
      also have "r * b * b ^ (2 * (e div 2)) = r * b ^ Suc (2 * (e div 2))" by simp
      finally show ?thesis using True e by simp
    qed (simp add: even_two_times_div_two)
    finally show ?thesis .
  qed
qed

lemma parse_spiffe_parts:
  assumes "parseSpiffeId s = Some i"
  shows "take 9 s = js ''spiffe://'' \<and> takeWhile domain_char (drop 9 s) \<noteq> [] \<and>
    (\<forall>seg \<in> set (path_segments (dropWhile domain_char (drop 9 s))). seg \<noteq> [] \<and> seg \<noteq> [46] \<and> seg \<noteq> [46, 46]) \<and>
    sp_trustDomain i = takeWhile domain_char (drop 9 s) \<and> sp_path i = dropWhile domain_char (drop 9 s)"
proof -
  define td p where "td = takeWhile domain_char (drop 9 s)" and "p = dropWhile domain_char (drop 9 s)"
  define A where "A \<longleftrightarrow> 2048 < length s \<or> take 9 s \<noteq> js ''spiffe://''"
  define B where "B \<longleftrightarrow> td = [] \<or> (p \<noteq> [] \<and> hd p \<noteq> 47) \<or> (\<exists>seg \<in> set (path_segments p). seg = [] \<or> (\<exists>c \<in> set seg. \<not> segment_char c))"
  define D where "D \<longleftrightarrow> (\<exists>seg \<in> set (path_segments p). seg = [46] \<or> seg = [46, 46])"
  have "parseSpiffeId s = (if A then None else if B then None else if D then None else Some \<lparr>sp_trustDomain = td, sp_path = p\<rparr>)"
    unfolding parseSpiffeId_def Let_def A_def B_def D_def td_def p_def ..
  with assms have "\<not> A" "\<not> B" "\<not> D" "i = \<lparr>sp_trustDomain = td, sp_path = p\<rparr>" by (auto split: if_split_asm)
  then show ?thesis unfolding A_def B_def D_def td_def [symmetric] p_def [symmetric] by simp
qed

section \<open>Properties\<close>

text \<open>base58btc is a bijection between byte strings and the texts that decode: a text decodes to some bytes exactly when it is the encoding of these bytes, so no two texts stand for the same bytes and every byte string, leading zeros included, survives.\<close>

theorem base58btc_bijective: "base58btcDecode s = Some bs \<longleftrightarrow> s = base58btcEncode bs"
  using base58_decode_encode base58_encode_decode by blast

text \<open>The identity is the key: for texts without a fragment, an identifier resolves to a key exactly when it is the identifier of that key in its canonical form, so two different identifiers never resolve to one key and no key is lost.\<close>

theorem did_key_exact:
  assumes "35 \<notin> set did"
  shows "ed25519FromDidKey did = Some k \<longleftrightarrow> didKeyFromEd25519 k = Some did \<and> (\<exists>raw. k = spkiFromRaw raw)"
proof
  assume k: "ed25519FromDidKey did = Some k"
  have "takeWhile (\<lambda>c. c \<noteq> 35) did = did" using assms by (auto simp: takeWhile_eq_all_conv)
  moreover have "\<exists>raw. k = spkiFromRaw raw" using k by (auto simp: ed25519FromDidKey_def split: option.splits prod.splits if_splits)
  ultimately show "didKeyFromEd25519 k = Some did \<and> (\<exists>raw. k = spkiFromRaw raw)" using key_of_did [OF k] by simp
next
  assume a: "didKeyFromEd25519 k = Some did \<and> (\<exists>raw. k = spkiFromRaw raw)"
  then obtain raw where raw: "rawFromSpki k = Some raw" "ed25519FromDidKey did = Some (spkiFromRaw raw)" using did_of_key by blast
  obtain raw' where k: "k = spkiFromRaw raw'" using a by blast
  have "raw = raw'" using raw(1) by (auto simp: k rawFromSpki_def spkiFromRaw_def strict_base64url split: if_splits)
  with raw(2) k show "ed25519FromDidKey did = Some k" by simp
qed

text \<open>The loop computes the power: the key-agreement key of a point with coordinate y is (1 + y) times the power P - 2 of 1 - y modulo the prime of the curve, and there is none only when y is 1.\<close>

theorem montgomery_formula:
  "montgomery_u y = (if (1 - y) mod curve_P = 0 then None else Some ((1 + y) * (1 - y) ^ nat (curve_P - 2) mod curve_P))"
proof -
  have p: "1 < curve_P" by (simp add: curve_P_def)
  have "powMod b e = b ^ e mod curve_P" for b e
    using powMod_loop_eq [of 1 "curve_mod b" e] p by (simp add: powMod_def curve_mod_def power_mod)
  then show ?thesis
    by (simp add: montgomery_u_def curve_mod_def Let_def power_mod mod_mult_right_eq)
qed

text \<open>What a SPIFFE policy lets through lies where it says: the identifier has the form of the specification, its trust domain is one of the listed ones, no segment of its path is empty or climbs, and with prefixes given the path is one of them or continues one of them at a slash.\<close>

theorem spiffe_policy_confines:
  assumes "isSpiffeIdAllowed s pol = Some True"
  shows "\<exists>td p. s = js ''spiffe://'' @ td @ p \<and> td \<in> set (spo_trustDomains pol) \<and> td \<noteq> [] \<and> 47 \<notin> set td
    \<and> (\<forall>seg \<in> set (path_segments p). seg \<notin> {[], js ''.'', js ''..''})
    \<and> (\<forall>ps. spo_pathPrefixes pol = Some ps \<longrightarrow> (\<exists>q \<in> set ps. p = q \<or> (\<exists>r. p = q @ r \<and> (r = [] \<or> hd r = 47 \<or> last q = 47))))"
proof -
  obtain i where i: "parseSpiffeId s = Some i" "sp_trustDomain i \<in> set (spo_trustDomains pol)"
    "case spo_pathPrefixes pol of None \<Rightarrow> True | Some ps \<Rightarrow> \<exists>p \<in> set ps. beneath (sp_path i) p"
    using assms by (auto simp: isSpiffeIdAllowed_def split: if_splits option.splits)
  let ?td = "takeWhile domain_char (drop 9 s)"
  let ?p = "dropWhile domain_char (drop 9 s)"
  have p: "take 9 s = js ''spiffe://''" "?td \<noteq> []" "\<forall>seg \<in> set (path_segments ?p). seg \<noteq> [] \<and> seg \<noteq> [46] \<and> seg \<noteq> [46, 46]"
    "sp_trustDomain i = ?td" "sp_path i = ?p"
    using parse_spiffe_parts [OF i(1)] by blast+
  have "js ''spiffe://'' @ drop 9 s = s" by (subst p(1) [symmetric]) (rule append_take_drop_id)
  then have s: "s = js ''spiffe://'' @ ?td @ ?p" by simp
  have "\<forall>c \<in> set ?td. domain_char c" by (auto dest: set_takeWhileD)
  then have c: "47 \<notin> set ?td" by (auto simp: domain_char_def)
  have sg: "\<forall>seg \<in> set (path_segments ?p). seg \<notin> {[], js ''.'', js ''..''}" using p(3) by (auto simp: ascii_eval)
  have pre: "\<exists>q \<in> set ps. ?p = q \<or> (\<exists>r. ?p = q @ r \<and> (r = [] \<or> hd r = 47 \<or> last q = 47))" if "spo_pathPrefixes pol = Some ps" for ps
  proof -
    have "\<exists>q \<in> set ps. beneath (sp_path i) q" using i(3) unfolding that option.case .
    then obtain q where q: "q \<in> set ps" "beneath ?p q" unfolding p(5) by blast
    then show ?thesis
    proof (cases "?p = q")
      case False
      then have "startsWith ?p (if ends_slash q then q else q @ [47])" using q(2) by (simp add: beneath_def)
      then obtain r where r: "?p = (if ends_slash q then q else q @ [47]) @ r" by (auto simp: startsWith_iff)
      show ?thesis
      proof (cases "ends_slash q")
        case True
        then have "\<exists>r. ?p = q @ r \<and> (r = [] \<or> hd r = 47 \<or> last q = 47)" using r by (intro exI [of _ r]) (simp add: ends_slash_def)
        with q(1) show ?thesis by blast
      next
        case nq: False
        then have "?p = q @ (47 # r)" using r by simp
        then have "\<exists>r. ?p = q @ r \<and> (r = [] \<or> hd r = 47 \<or> last q = 47)" by (intro exI [of _ "47 # r"]) simp
        with q(1) show ?thesis by blast
      qed
    qed blast
  qed
  have "?td \<in> set (spo_trustDomains pol)" using i(2) unfolding p(4) .
  with s p(2) c sg pre show ?thesis by (intro exI [of _ ?td] exI [of _ ?p] conjI allI impI)
qed

theorem did_key_exact_witness:
  "ed25519FromDidKey (js ''did:key:'' @ multibase MULTICODEC_ED25519 (replicate 32 7)) = Some (spkiFromRaw (replicate 32 7))"
proof -
  let ?k = "spkiFromRaw (replicate 32 7)"
  let ?d = "js ''did:key:'' @ multibase MULTICODEC_ED25519 (replicate 32 7)"
  have d: "didKeyFromEd25519 ?k = Some ?d" using raw_spki [of "replicate 32 7"] by (simp add: didKeyFromEd25519_def)
  have "35 \<notin> set (multibase MULTICODEC_ED25519 (replicate 32 7))"
    by (rule multibase_no_hash [OF multibase_shape]) (simp add: MULTICODEC_ED25519_def)
  then have "35 \<notin> set ?d" by (simp add: ascii_eval)
  from did_key_exact [OF this] d show ?thesis by blast
qed

theorem spiffe_policy_confines_witness:
  "\<exists>td p. js ''spiffe://td/ns/a'' = js ''spiffe://'' @ td @ p \<and> td \<in> {js ''td''}"
proof -
  have "isSpiffeIdAllowed (js ''spiffe://td/ns/a'') \<lparr>spo_trustDomains = [js ''td''], spo_pathPrefixes = Some [js ''/ns'']\<rparr> = Some True"
    by (simp add: isSpiffeIdAllowed_def parseSpiffeId_def Let_def ascii_eval domain_char_def segment_char_def path_segments_def beneath_def ends_slash_def startsWith_def)
  from spiffe_policy_confines [OF this] show ?thesis by auto
qed

end
