(* ===== verification/AgentCard.thy ===== *)
theory AgentCard
  imports JsMap Dpop KeyRegistry
begin

text \<open>
  \<open>src/agentIdentity.ts\<close>, second part: signatures on agent cards. A card is a JSON value.
  Parameters: the key operations of the platform, \<open>JSON.parse\<close>, the resolver of keys, which
  may throw (\<open>None\<close>) or answer null, and the URL parser, which gives protocol and origin.
\<close>

section \<open>Signing\<close>

definition card_payload :: "json \<Rightarrow> jstr option" where
  "card_payload c = (case c of JObj kvs \<Rightarrow> stableStringify (JObj (filter (\<lambda>kv. fst kv \<noteq> js ''signatures'') kvs)) | v \<Rightarrow> stableStringify v)"

definition card_signing_input :: "jstr \<Rightarrow> jstr \<Rightarrow> jstr" where
  "card_signing_input p payload = p @ 46 # toBase64Url (utf8Encode payload)"

record card_sign =
  cs_alg :: "jws_alg option"
  cs_privateJwk :: json
  cs_keyId :: jstr
  cs_jku :: "jstr option"

definition card_alg :: "card_sign \<Rightarrow> jws_alg" where
  "card_alg o' = (case cs_alg o' of Some a \<Rightarrow> a | None \<Rightarrow> if jmember (cs_privateJwk o') ''kty'' = Some (JStr (js ''EC'')) then ES256 else EdDSA)"

definition card_header :: "card_sign \<Rightarrow> json" where
  "card_header o' = JObj ([(js ''alg'', JStr (jws_alg_text (card_alg o'))), (js ''typ'', JStr (js ''JOSE'')), (js ''kid'', JStr (cs_keyId o'))]
    @ (case cs_jku o' of Some (c # s) \<Rightarrow> [(js ''jku'', JStr (c # s))] | _ \<Rightarrow> []))"

definition card_signature :: "jstr \<Rightarrow> bytes \<Rightarrow> json" where
  "card_signature p sig = JObj [(js ''protected'', JStr p), (js ''signature'', JStr (toBase64Url sig))]"

definition signatures_of :: "json \<Rightarrow> json list" where
  "signatures_of c = (case jmember c ''signatures'' of Some (JArr xs) \<Rightarrow> xs | _ \<Rightarrow> [])"

definition signAgentCard :: "jose \<Rightarrow> (jstr \<times> json) list \<Rightarrow> card_sign \<Rightarrow> json option" where
  "signAgentCard J kvs o' =
    (let p = toBase64Url (utf8Encode (print_json (card_header o'))) in
     case card_payload (JObj kvs) of
       None \<Rightarrow> None
     | Some payload \<Rightarrow>
         map_option (\<lambda>sig. JObj (mset_key kvs (js ''signatures'') (JArr (signatures_of (JObj kvs) @ [card_signature p sig]))))
           (jwk_sign J (card_alg o') (cs_privateJwk o') (utf8Encode (card_signing_input p payload))))"

section \<open>Verifying\<close>

datatype card_failure = NoCardSignature | TooManySignatures | NoValidSignature "nat option" | OriginMismatch jstr | NotACard

definition MAX_SIGNATURES :: nat where
  "MAX_SIGNATURES = 8"

definition MAX_PROTECTED_BYTES :: nat where
  "MAX_PROTECTED_BYTES = 2048"

type_synonym origin_parser = "jstr \<Rightarrow> (jstr \<times> jstr) option"

type_synonym key_resolver = "jstr \<Rightarrow> jstr option \<Rightarrow> json option option"

record card_verify =
  cv_resolveKey :: key_resolver
  cv_expectedOrigin :: "jstr option"
  cv_requireAll :: bool
  cv_allowedAlgs :: "jws_alg list option"

definition interface_urls :: "json \<Rightarrow> string \<Rightarrow> json option list" where
  "interface_urls c key = (case jmember c key of Some (JArr items) \<Rightarrow> map (\<lambda>i. jmember i ''url'') items | _ \<Rightarrow> [])"

definition url_origin :: "origin_parser \<Rightarrow> json option \<Rightarrow> jstr list" where
  "url_origin U u =
    (case u of
       Some (JStr s) \<Rightarrow>
         (case U s of
            None \<Rightarrow> []
          | Some (proto, org) \<Rightarrow> if proto = js ''https:'' \<or> proto = js ''http:'' then [org] else [])
     | _ \<Rightarrow> [])"

definition cardOrigins :: "origin_parser \<Rightarrow> json \<Rightarrow> jstr list" where
  "cardOrigins U c =
    concat (map (url_origin U) (jmember c ''url'' # interface_urls c ''supportedInterfaces'' @ interface_urls c ''additionalInterfaces''))"

definition entry_text :: "json \<Rightarrow> string \<Rightarrow> jstr option" where
  "entry_text e name = (case jmember e name of Some (JStr s) \<Rightarrow> Some s | _ \<Rightarrow> None)"

text \<open>The protected header of an entry: its parsed object and the algorithm it names.\<close>

definition protected_header :: "(jstr \<Rightarrow> json option) \<Rightarrow> jws_alg list \<Rightarrow> jstr \<Rightarrow> (json \<times> jws_alg \<times> jstr) option" where
  "protected_header parse allowed p =
    (case b64uToBytes p of
       None \<Rightarrow> None
     | Some hb \<Rightarrow>
         (case parseJsonObject parse hb of
            None \<Rightarrow> None
          | Some h \<Rightarrow>
              (case (jmember h ''crit'', header_alg h, entry_text h ''kid'') of
                 (None, Some a, Some kid) \<Rightarrow>
                   if a \<notin> set allowed \<or> kid = [] \<or> 512 < length kid then None else Some (h, a, kid)
               | _ \<Rightarrow> None)))"

text \<open>The outer option is a throw of the resolver.\<close>

definition verifyOne :: "jose \<Rightarrow> (jstr \<Rightarrow> json option) \<Rightarrow> key_resolver \<Rightarrow> jws_alg list \<Rightarrow> jstr \<Rightarrow> json \<Rightarrow> jstr option option" where
  "verifyOne J parse resolve allowed payload e =
    (case (entry_text e ''protected'', entry_text e ''signature'') of
       (Some p, Some sg) \<Rightarrow>
         if MAX_PROTECTED_BYTES < length p then Some None
         else (case (b64uToBytes sg, protected_header parse allowed p) of
           (Some sig, Some (h, a, kid)) \<Rightarrow>
             (case resolve kid (entry_text h ''jku'') of
                None \<Rightarrow> None
              | Some None \<Rightarrow> Some None
              | Some (Some v) \<Rightarrow>
                  (case public_jwk_of v of
                     None \<Rightarrow> Some None
                   | Some k \<Rightarrow>
                       if algForJwk k \<noteq> a then Some None
                       else Some (if jwsVerify J v k (utf8Encode (card_signing_input p payload)) sig = JwsValid then Some kid else None)))
         | _ \<Rightarrow> Some None)
     | _ \<Rightarrow> Some None)"

text \<open>The loop over the signatures: the keys that verified and the number of failures.\<close>

fun verify_entries :: "(json \<Rightarrow> jstr option option) \<Rightarrow> json list \<Rightarrow> (jstr list \<times> nat) option" where
  "verify_entries f [] = Some ([], 0)"
| "verify_entries f (e # es) =
    (case f e of
       None \<Rightarrow> None
     | Some r \<Rightarrow>
         map_option (\<lambda>(kids, n). case r of Some kid \<Rightarrow> (kid # kids, n) | None \<Rightarrow> (kids, Suc n)) (verify_entries f es))"

definition origin_check :: "origin_parser \<Rightarrow> json \<Rightarrow> jstr option \<Rightarrow> card_failure option option" where
  "origin_check U c expected =
    (case expected of
       None \<Rightarrow> Some None
     | Some x \<Rightarrow>
         (case U x of
            None \<Rightarrow> None
          | Some (proto, org) \<Rightarrow> Some (if org \<in> set (cardOrigins U c) then None else Some (OriginMismatch org))))"

text \<open>\<open>None\<close>: it throws, on an expected origin that is no URL or in the resolver.\<close>

definition verifyAgentCard :: "jose \<Rightarrow> (jstr \<Rightarrow> json option) \<Rightarrow> origin_parser \<Rightarrow> json \<Rightarrow> card_verify \<Rightarrow> (card_failure + jstr list) option" where
  "verifyAgentCard J parse U c o' =
    (case c of
       JObj kvs \<Rightarrow>
         if signatures_of c = [] then Some (Inl NoCardSignature)
         else if MAX_SIGNATURES < length (signatures_of c) then Some (Inl TooManySignatures)
         else (case origin_check U c (cv_expectedOrigin o') of
           None \<Rightarrow> None
         | Some (Some f) \<Rightarrow> Some (Inl f)
         | Some None \<Rightarrow>
             (case card_payload c of
                None \<Rightarrow> Some (Inl NotACard)
              | Some payload \<Rightarrow>
                  let allowed = (case cv_allowedAlgs o' of None \<Rightarrow> [ES256, EdDSA] | Some l \<Rightarrow> l) in
                  (case verify_entries (verifyOne J parse (cv_resolveKey o') allowed payload) (signatures_of c) of
                     None \<Rightarrow> None
                   | Some (kids, failures) \<Rightarrow>
                       if kids = [] then Some (Inl (NoValidSignature None))
                       else if cv_requireAll o' \<and> 0 < failures then Some (Inl (NoValidSignature (Some failures)))
                       else Some (Inr kids))))
     | _ \<Rightarrow> Some (Inl NotACard))"

section \<open>Properties\<close>

text \<open>What one entry has to be for its key to count.\<close>

definition entry_signed :: "jose \<Rightarrow> (jstr \<Rightarrow> json option) \<Rightarrow> card_verify \<Rightarrow> jstr \<Rightarrow> json \<Rightarrow> jstr \<Rightarrow> bool" where
  "entry_signed J parse o' payload e kid \<longleftrightarrow>
    (\<exists>p sg sig hb h v k. entry_text e ''protected'' = Some p \<and> entry_text e ''signature'' = Some sg \<and> b64uToBytes sg = Some sig
      \<and> b64uToBytes p = Some hb \<and> parseJsonObject parse hb = Some h \<and> entry_text h ''kid'' = Some kid \<and> header_alg h = Some (algForJwk k)
      \<and> algForJwk k \<in> set (case cv_allowedAlgs o' of None \<Rightarrow> [ES256, EdDSA] | Some l \<Rightarrow> l)
      \<and> cv_resolveKey o' kid (entry_text h ''jku'') = Some (Some v) \<and> public_jwk_of v = Some k
      \<and> jwsVerify J v k (utf8Encode (card_signing_input p payload)) sig = JwsValid)"

lemma verifyOne_signed:
  assumes "verifyOne J parse (cv_resolveKey o') (case cv_allowedAlgs o' of None \<Rightarrow> [ES256, EdDSA] | Some l \<Rightarrow> l) payload e = Some (Some kid)"
  shows "entry_signed J parse o' payload e kid"
proof -
  let ?al = "case cv_allowedAlgs o' of None \<Rightarrow> [ES256, EdDSA] | Some l \<Rightarrow> l"
  obtain p sg sig h a v k where e: "entry_text e ''protected'' = Some p" "entry_text e ''signature'' = Some sg" "b64uToBytes sg = Some sig"
    "protected_header parse ?al p = Some (h, a, kid)" "cv_resolveKey o' kid (entry_text h ''jku'') = Some (Some v)" "public_jwk_of v = Some k"
    "algForJwk k = a" "jwsVerify J v k (utf8Encode (card_signing_input p payload)) sig = JwsValid"
    using assms by (auto simp: verifyOne_def split: option.splits if_splits prod.splits)
  from e(4) obtain hb where "b64uToBytes p = Some hb" "parseJsonObject parse hb = Some h" "header_alg h = Some a" "entry_text h ''kid'' = Some kid" "a \<in> set ?al"
    by (auto simp: protected_header_def split: option.splits if_splits)
  with e show ?thesis unfolding entry_signed_def by blast
qed

lemma verify_entries_sound:
  "verify_entries f es = Some (kids, n) \<Longrightarrow> (\<forall>kid \<in> set kids. \<exists>e \<in> set es. f e = Some (Some kid)) \<and>
    (n = 0 \<longrightarrow> (\<forall>e \<in> set es. \<exists>kid \<in> set kids. f e = Some (Some kid)))"
proof (induction es arbitrary: kids n)
  case (Cons e es)
  obtain r ks m where r: "f e = Some r" "verify_entries f es = Some (ks, m)"
    "(kids, n) = (case r of Some kid \<Rightarrow> (kid # ks, m) | None \<Rightarrow> (ks, Suc m))"
    using Cons.prems by (auto split: option.splits)
  from Cons.IH [OF r(2)] r show ?case by (cases r) auto
qed simp

text \<open>A card is accepted only with a key that signed exactly this card: every key the result names belongs to an entry whose header names an allowed algorithm and this key, the resolver trusts it, it is a public key for that algorithm, and its signature verifies over the canonical card without its signatures; with an expected origin, the card declares an endpoint there; when all signatures are required, every entry is of this kind.\<close>

theorem card_accepts_sound:
  assumes "verifyAgentCard J parse U c o' = Some (Inr kids)"
  shows "\<exists>payload. card_payload c = Some payload \<and> kids \<noteq> [] \<and> length (signatures_of c) \<le> MAX_SIGNATURES
    \<and> (\<forall>kid \<in> set kids. \<exists>e \<in> set (signatures_of c). entry_signed J parse o' payload e kid)
    \<and> (cv_requireAll o' \<longrightarrow> (\<forall>e \<in> set (signatures_of c). \<exists>kid \<in> set kids. entry_signed J parse o' payload e kid))
    \<and> (\<forall>x. cv_expectedOrigin o' = Some x \<longrightarrow> (\<exists>proto org. U x = Some (proto, org) \<and> org \<in> set (cardOrigins U c)))"
proof -
  let ?al = "case cv_allowedAlgs o' of None \<Rightarrow> [ES256, EdDSA] | Some l \<Rightarrow> l"
  obtain kvs where c: "c = JObj kvs" using assms by (cases c) (auto simp: verifyAgentCard_def)
  obtain payload failures where r: "origin_check U c (cv_expectedOrigin o') = Some None" "card_payload c = Some payload"
    "verify_entries (verifyOne J parse (cv_resolveKey o') ?al payload) (signatures_of c) = Some (kids, failures)"
    "kids \<noteq> []" "\<not> (cv_requireAll o' \<and> 0 < failures)" "length (signatures_of c) \<le> MAX_SIGNATURES"
    using assms by (auto simp: c verifyAgentCard_def Let_def split: if_splits option.splits prod.splits)
  note s = verify_entries_sound [OF r(3)]
  have "\<forall>kid \<in> set kids. \<exists>e \<in> set (signatures_of c). entry_signed J parse o' payload e kid"
    using s verifyOne_signed by blast
  moreover have "cv_requireAll o' \<longrightarrow> (\<forall>e \<in> set (signatures_of c). \<exists>kid \<in> set kids. entry_signed J parse o' payload e kid)"
    using s r(5) verifyOne_signed by blast
  moreover have "\<forall>x. cv_expectedOrigin o' = Some x \<longrightarrow> (\<exists>proto org. U x = Some (proto, org) \<and> org \<in> set (cardOrigins U c))"
    using r(1) by (auto simp: origin_check_def split: option.splits if_splits)
  ultimately show ?thesis using r(2,4,6) by blast
qed

section \<open>Signed cards\<close>

lemma filter_mset_key: "filter (\<lambda>kv. fst kv \<noteq> k) (mset_key m k v) = filter (\<lambda>kv. fst kv \<noteq> k) m"
  by (induction m k v rule: mset_key.induct) auto

lemma signed_card_lookup: "jmember (JObj (mset_key kvs (js ''signatures'') v)) f = (if js f = js ''signatures'' then Some v else jmember (JObj kvs) f)"
  using mget_mset_key [of kvs "js ''signatures''" v "js f"] by (simp add: mget_def)

lemma signed_card_parts:
  assumes "signAgentCard J kvs o' = Some c"
  shows "\<exists>payload sig. card_payload (JObj kvs) = Some payload
    \<and> jwk_sign J (card_alg o') (cs_privateJwk o') (utf8Encode (card_signing_input (b64u_json (card_header o')) payload)) = Some sig
    \<and> signatures_of c = signatures_of (JObj kvs) @ [card_signature (b64u_json (card_header o')) sig]
    \<and> card_payload c = Some payload \<and> (\<exists>kvs'. c = JObj kvs') \<and> cardOrigins U c = cardOrigins U (JObj kvs)"
proof -
  obtain payload sig where r: "card_payload (JObj kvs) = Some payload"
    "jwk_sign J (card_alg o') (cs_privateJwk o') (utf8Encode (card_signing_input (b64u_json (card_header o')) payload)) = Some sig"
    "c = JObj (mset_key kvs (js ''signatures'') (JArr (signatures_of (JObj kvs) @ [card_signature (b64u_json (card_header o')) sig])))"
    using assms by (auto simp: signAgentCard_def Let_def b64u_json_def split: option.splits)
  have s: "signatures_of c = signatures_of (JObj kvs) @ [card_signature (b64u_json (card_header o')) sig]"
    unfolding r(3) signatures_of_def [of "JObj (mset_key kvs k v)" for k v] signed_card_lookup by simp
  have p: "card_payload c = Some payload" using r(1) by (simp add: r(3) card_payload_def filter_mset_key)
  have n: "js ''url'' \<noteq> js ''signatures''" "js ''supportedInterfaces'' \<noteq> js ''signatures''" "js ''additionalInterfaces'' \<noteq> js ''signatures''"
    by (simp_all add: ascii_eval)
  have "cardOrigins U c = cardOrigins U (JObj kvs)"
    unfolding r(3) cardOrigins_def interface_urls_def signed_card_lookup if_not_P [OF n(1)] if_not_P [OF n(2)] if_not_P [OF n(3)] ..
  with r s p show ?thesis by blast
qed

lemma verify_entries_complete:
  "\<forall>x \<in> set es. f x \<noteq> None \<Longrightarrow> e \<in> set es \<Longrightarrow> f e = Some (Some kid) \<Longrightarrow> \<exists>kids n. verify_entries f es = Some (kids, n) \<and> kid \<in> set kids"
proof -
  have total: "\<forall>x \<in> set es. f x \<noteq> None \<Longrightarrow> \<exists>kids n. verify_entries f es = Some (kids, n)" for es by (induction es) auto
  show "\<forall>x \<in> set es. f x \<noteq> None \<Longrightarrow> e \<in> set es \<Longrightarrow> f e = Some (Some kid) \<Longrightarrow> \<exists>kids n. verify_entries f es = Some (kids, n) \<and> kid \<in> set kids"
  proof (induction es)
    case (Cons x es)
    obtain r where r: "f x = Some r" using Cons.prems(1) by auto
    obtain kids n where k: "verify_entries f es = Some (kids, n)" using total Cons.prems(1) by (meson list.set_intros(2))
    show ?case
    proof (cases "e \<in> set es")
      case True
      with Cons.IH Cons.prems(1,3) k have "kid \<in> set kids" by auto
      with r k show ?thesis by (cases r) auto
    next
      case False
      with Cons.prems(2,3) r k show ?thesis by simp
    qed
  qed simp
qed

lemma verifyOne_total: "\<forall>kid j. resolve kid j \<noteq> None \<Longrightarrow> verifyOne J parse resolve allowed payload e \<noteq> None"
  unfolding verifyOne_def by (auto split: option.split simp del: not_None_eq)

definition card_jku :: "card_sign \<Rightarrow> jstr option" where
  "card_jku o' = (case cs_jku o' of Some (c # s) \<Rightarrow> Some (c # s) | _ \<Rightarrow> None)"

lemma card_header_parts:
  "jmember (card_header o') ''crit'' = None" "header_alg (card_header o') = Some (card_alg o')"
  "entry_text (card_header o') ''kid'' = Some (cs_keyId o')" "entry_text (card_header o') ''jku'' = card_jku o'"
proof -
  show "jmember (card_header o') ''crit'' = None" by (auto simp: card_header_def ascii_eval split: option.split list.split)
  have "jmember (card_header o') ''alg'' = Some (JStr (jws_alg_text (card_alg o')))" by (simp add: card_header_def ascii_eval)
  then show "header_alg (card_header o') = Some (card_alg o')"
    by (cases "card_alg o'") (simp_all add: header_alg_def ascii_eval)
  show "entry_text (card_header o') ''kid'' = Some (cs_keyId o')" by (simp add: entry_text_def card_header_def ascii_eval)
  show "entry_text (card_header o') ''jku'' = card_jku o'"
    by (auto simp: entry_text_def card_header_def card_jku_def ascii_eval split: option.split list.split)
qed

text \<open>What is signed is accepted: a card signed with a usable key is verified by a reader who resolves the key id to its public half, allows its algorithm and expects an origin the card declares, and the key is among those the result names, whatever the other signatures of the card are worth.\<close>

theorem card_round_trip:
  assumes "signAgentCard J kvs s = Some c" "key_usable J k" "cs_privateJwk s = dk_private k" "card_alg s = dk_alg k"
    and "parse (print_json (card_header s)) = Some (card_header s)" "length (b64u_json (card_header s)) \<le> MAX_PROTECTED_BYTES"
    and "cs_keyId s \<noteq> []" "length (cs_keyId s) \<le> 512" "length (signatures_of (JObj kvs)) < MAX_SIGNATURES"
    and "\<forall>kid j. cv_resolveKey v kid j \<noteq> None" "cv_resolveKey v (cs_keyId s) (card_jku s) = Some (Some (public_jwk_json (dk_public k)))"
    and "\<forall>l. cv_allowedAlgs v = Some l \<longrightarrow> dk_alg k \<in> set l" "\<not> cv_requireAll v" "origin_check U (JObj kvs) (cv_expectedOrigin v) = Some None"
  shows "\<exists>kids. verifyAgentCard J parse U c v = Some (Inr kids) \<and> cs_keyId s \<in> set kids"
proof -
  let ?al = "case cv_allowedAlgs v of None \<Rightarrow> [ES256, EdDSA] | Some l \<Rightarrow> l"
  let ?p = "b64u_json (card_header s)"
  obtain payload sig kvs' where r: "jwk_sign J (card_alg s) (cs_privateJwk s) (utf8Encode (card_signing_input ?p payload)) = Some sig"
    "signatures_of c = signatures_of (JObj kvs) @ [card_signature ?p sig]" "card_payload c = Some payload" "c = JObj kvs'" "cardOrigins U c = cardOrigins U (JObj kvs)"
    using signed_card_parts [OF assms(1), of U] by blast
  obtain key where k: "dk_alg k = algForJwk (dk_public k)" "jwk_shaped (dk_public k)" "jwk_import J (public_jwk_json (dk_public k)) = Some key"
    "jwk_verify J (dk_alg k) key sig (utf8Encode (card_signing_input ?p payload)) = Some True" "length sig = 64"
    using assms(2) r(1) unfolding assms(3,4) key_usable_def by blast
  obtain hb where hb: "b64uToBytes ?p = Some hb" "parseJsonObject parse hb = Some (card_header s)"
    using part_roundtrip [where parse = parse] assms(5) unfolding card_header_def by metis
  have al: "dk_alg k \<in> set ?al" using assms(12) by (cases "cv_allowedAlgs v"; cases "dk_alg k") auto
  have h: "protected_header parse ?al ?p = Some (card_header s, dk_alg k, cs_keyId s)"
    using assms(4,7,8) al by (simp add: protected_header_def hb card_header_parts)
  have e: "entry_text (card_signature ?p sig) ''protected'' = Some ?p" "entry_text (card_signature ?p sig) ''signature'' = Some (toBase64Url sig)"
    by (simp_all add: entry_text_def card_signature_def ascii_eval)
  have "jwsVerify J (public_jwk_json (dk_public k)) (dk_public k) (utf8Encode (card_signing_input ?p payload)) sig = JwsValid"
    using k by (simp add: jwsVerify_def)
  then have one: "verifyOne J parse (cv_resolveKey v) ?al payload (card_signature ?p sig) = Some (Some (cs_keyId s))"
    using assms(6,11) by (simp add: verifyOne_def e h b64u_roundtrip card_header_parts public_jwk_of_json [OF k(2)] k(1))
  obtain kids n where kids: "verify_entries (verifyOne J parse (cv_resolveKey v) ?al payload) (signatures_of c) = Some (kids, n)" "cs_keyId s \<in> set kids"
  proof -
    have "\<forall>x \<in> set (signatures_of c). verifyOne J parse (cv_resolveKey v) ?al payload x \<noteq> None" using verifyOne_total [OF assms(10)] by blast
    moreover have "card_signature ?p sig \<in> set (signatures_of c)" by (simp add: r(2))
    ultimately show ?thesis
      using verify_entries_complete [where f = "verifyOne J parse (cv_resolveKey v) ?al payload" and es = "signatures_of c"] one that by blast
  qed
  have "origin_check U c (cv_expectedOrigin v) = Some None" using assms(14) unfolding origin_check_def r(5) .
  moreover have "signatures_of c \<noteq> []" "length (signatures_of c) \<le> MAX_SIGNATURES" using r(2) assms(9) by simp_all
  moreover have "kids \<noteq> []" using kids(2) by auto
  ultimately have "verifyAgentCard J parse U c v = Some (Inr kids)"
    using kids(1) r(3) assms(13) unfolding r(4) by (simp add: verifyAgentCard_def Let_def)
  with kids(2) show ?thesis by blast
qed

text \<open>Signing has no bound on the signatures it keeps: the ninth gives a card that every verifier refuses, the eight good signatures included.\<close>

theorem ninth_signature_spoils_card:
  assumes "signAgentCard J kvs s = Some c" "length (signatures_of (JObj kvs)) = 8"
  shows "verifyAgentCard J parse U c v = Some (Inl TooManySignatures)"
proof -
  obtain kvs' e where "c = JObj kvs'" "signatures_of c = signatures_of (JObj kvs) @ [e]" using signed_card_parts [OF assms(1)] by blast
  with assms(2) show ?thesis by (simp add: verifyAgentCard_def MAX_SIGNATURES_def)
qed

definition demo_card_sign :: card_sign where
  "demo_card_sign = \<lparr>cs_alg = None, cs_privateJwk = JNull, cs_keyId = js ''k1'', cs_jku = None\<rparr>"

definition demo_card_verify :: card_verify where
  "demo_card_verify = \<lparr>cv_resolveKey = (\<lambda>kid jku. Some (Some (public_jwk_json (OkpJwk (replicate 43 65))))), cv_expectedOrigin = Some (js ''https://h''),
    cv_requireAll = False, cv_allowedAlgs = None\<rparr>"

definition demo_card :: "(jstr \<times> json) list" where
  "demo_card = [(js ''url'', JStr (js ''https://h/a''))]"

definition demo_origins :: origin_parser where
  "demo_origins s = Some (js ''https:'', js ''https://h'')"

lemma demo_card_signed: "\<exists>c. signAgentCard demo_jose demo_card demo_card_sign = Some c"
proof -
  have "stableStringify (JObj (filter (\<lambda>kv. fst kv \<noteq> js ''signatures'') demo_card)) \<noteq> None"
    unfolding stableStringify_throws by (simp add: demo_card_def ascii_eval)
  then show ?thesis by (auto simp: signAgentCard_def card_payload_def demo_jose_def Let_def)
qed

lemma demo_card_header_short: "length (b64u_json (card_header demo_card_sign)) \<le> MAX_PROTECTED_BYTES"
proof -
  have "length (print_json (card_header demo_card_sign)) \<le> 300"
    using length_quote [of "js ''alg''"] length_quote [of "js ''EdDSA''"] length_quote [of "js ''typ''"] length_quote [of "js ''JOSE''"]
      length_quote [of "js ''kid''"] length_quote [of "js ''k1''"]
    by (simp add: card_header_def demo_card_sign_def card_alg_def ascii_eval)
  with length_b64u_json [of "card_header demo_card_sign"] show ?thesis by (simp add: MAX_PROTECTED_BYTES_def)
qed

theorem card_round_trip_witness:
  "\<exists>c kids. signAgentCard demo_jose demo_card demo_card_sign = Some c
    \<and> verifyAgentCard demo_jose (\<lambda>t. Some (card_header demo_card_sign)) demo_origins c demo_card_verify = Some (Inr kids) \<and> js ''k1'' \<in> set kids"
proof -
  obtain c where c: "signAgentCard demo_jose demo_card demo_card_sign = Some c" using demo_card_signed by blast
  have k: "key_usable demo_jose demo_dpop_key"
    by (simp add: key_usable_def demo_jose_def demo_dpop_key_def url_char_def)
  have o': "origin_check demo_origins (JObj demo_card) (cv_expectedOrigin demo_card_verify) = Some None"
    by (simp add: origin_check_def demo_origins_def demo_card_verify_def cardOrigins_def demo_card_def url_origin_def)
  have n: "cs_keyId demo_card_sign = js ''k1''" "js ''k1'' \<noteq> []" by (simp_all add: demo_card_sign_def ascii_eval)
  have s: "length (signatures_of (JObj demo_card)) < MAX_SIGNATURES"
    by (simp add: signatures_of_def demo_card_def ascii_eval MAX_SIGNATURES_def)
  have "\<exists>kids. verifyAgentCard demo_jose (\<lambda>t. Some (card_header demo_card_sign)) demo_origins c demo_card_verify = Some (Inr kids) \<and> cs_keyId demo_card_sign \<in> set kids"
    by (rule card_round_trip [OF c k _ _ _ demo_card_header_short _ _ s _ _ _ _ o'])
      (simp_all add: n, simp_all add: demo_card_sign_def demo_dpop_key_def card_alg_def demo_card_verify_def)
  with c n(1) show ?thesis by auto
qed

end
