(* ===== verification/WebBotAuth.thy ===== *)
theory WebBotAuth
  imports HttpSignature DidKey
begin

text \<open>
  \<open>src/webBotAuth.ts\<close>: HTTP message signatures of automated clients, whose keys are published in
  a directory and named by their thumbprints. The resolver of keys, the nonce store, the URL
  parser, \<open>JSON.parse\<close>, the reading of a number and the fetch are parameters. \<open>None\<close> is an
  exception.
\<close>

section \<open>Keys\<close>

definition web_space :: "code_unit \<Rightarrow> bool" where
  "web_space c \<longleftrightarrow> c \<in> {9, 10, 12, 13, 32}"

text \<open>\<open>atob\<close>: white space is dropped, up to two padding signs at the end of full groups are removed.\<close>

definition atob :: "jstr \<Rightarrow> bytes option" where
  "atob t =
    (let s = filter (\<lambda>c. \<not> web_space c) t;
         u = (if length s mod 4 = 0 then (if drop (length s - 2) s = [61, 61] \<and> 2 \<le> length s then take (length s - 2) s
              else if s \<noteq> [] \<and> last s = 61 then butlast s else s) else s)
     in if length u mod 4 = 1 \<or> (\<exists>c \<in> set u. \<not> std64_char c) then None else Some (base64_decode u))"

definition web_b64uToBytes :: "jstr \<Rightarrow> bytes option" where
  "web_b64uToBytes s = (let std = replace_char 95 47 (replace_char 45 43 s) in atob (std @ replicate ((4 - length std mod 4) mod 4) 61))"

text \<open>\<open>isEd25519Jwk\<close>, with the member \<open>x\<close> of the key it recognises.\<close>

definition ed_jwk_x :: "json \<Rightarrow> jstr option" where
  "ed_jwk_x v =
    (if jmember v ''kty'' \<noteq> Some (JStr (js ''OKP'')) \<or> jmember v ''crv'' \<noteq> Some (JStr (js ''Ed25519'')) \<or> jmember v ''d'' \<noteq> None then None
     else b64u43 (jmember v ''x''))"

definition isEd25519Jwk :: "json \<Rightarrow> bool" where
  "isEd25519Jwk v \<longleftrightarrow> ed_jwk_x v \<noteq> None"

definition spkiToEd25519Jwk :: "jstr \<Rightarrow> json option" where
  "spkiToEd25519Jwk spki =
    (case web_b64uToBytes spki of
       None \<Rightarrow> None
     | Some der \<Rightarrow>
         if length der \<noteq> length SPKI_PREFIX + 32 \<or> take (length SPKI_PREFIX) der \<noteq> SPKI_PREFIX then None
         else Some (JObj [(js ''kty'', JStr (js ''OKP'')), (js ''crv'', JStr (js ''Ed25519'')), (js ''x'', JStr (toBase64Url (drop (length SPKI_PREFIX) der)))]))"

definition ed25519JwkToSpki :: "json \<Rightarrow> jstr option" where
  "ed25519JwkToSpki v =
    (case ed_jwk_x v of
       None \<Rightarrow> None
     | Some x \<Rightarrow>
         (case web_b64uToBytes x of
            None \<Rightarrow> None
          | Some raw \<Rightarrow> if length raw \<noteq> 32 then None else Some (toBase64Url (SPKI_PREFIX @ raw))))"

definition web_thumbprint :: "crypto \<Rightarrow> json \<Rightarrow> jstr option" where
  "web_thumbprint C v =
    map_option (\<lambda>x. toBase64Url (sha256_raw C (utf8Encode (js ''{'' @ 34 # js ''crv'' @ 34 # js '':'' @ 34 # js ''Ed25519'' @ 34 # js '','' @ 34 # js ''kty'' @ 34 # js '':''
      @ 34 # js ''OKP'' @ 34 # js '','' @ 34 # js ''x'' @ 34 # js '':'' @ 34 # x @ 34 # js ''}'')))) (ed_jwk_x v)"

section \<open>The client\<close>

definition WEB_BOT_AUTH_TAG :: jstr where
  "WEB_BOT_AUTH_TAG = js ''web-bot-auth''"

definition SIGNATURE_AGENT_HEADER :: jstr where
  "SIGNATURE_AGENT_HEADER = js ''signature-agent''"

record web_sign =
  ws_privateKey :: jstr
  ws_publicKey :: jstr
  ws_agentUrl :: "jstr option"
  ws_agentString :: bool
  ws_agentLabel :: "jstr option"
  ws_lifetimeSeconds :: "int option"
  ws_body :: "bytes option"
  ws_identityOnly :: bool
  ws_label :: "jstr option"
  ws_now :: int

definition agent_url_ok :: "jstr \<Rightarrow> bool" where
  "agent_url_ok u \<longleftrightarrow> startsWith u (js ''https://'') \<and> drop 8 u \<noteq> [] \<and> (\<forall>c \<in> set (drop 8 u). \<not> ws_char c \<and> c \<noteq> 34 \<and> c \<noteq> 92)"

definition agent_label_ok :: "jstr \<Rightarrow> bool" where
  "agent_label_ok l \<longleftrightarrow> (case l of c # s \<Rightarrow> key_start c \<and> (\<forall>d \<in> set s. key_char d) | [] \<Rightarrow> False)"

text \<open>The field and component of the agent: nothing, an error, or both.\<close>

definition agent_field :: "web_sign \<Rightarrow> (jstr \<times> jstr) option option" where
  "agent_field o' =
    (case ws_agentUrl o' of
       None \<Rightarrow> Some None
     | Some u \<Rightarrow>
         if \<not> agent_url_ok u then None
         else if ws_agentString o' then Some (Some (34 # u @ [34], SIGNATURE_AGENT_HEADER))
         else let l = (case ws_agentLabel o' of None \<Rightarrow> js ''agent'' | Some l \<Rightarrow> l) in
           if \<not> agent_label_ok l then None
           else Some (Some (l @ 61 # 34 # u @ [34], SIGNATURE_AGENT_HEADER @ js '';key='' @ 34 # l @ [34])))"

definition base_components :: "web_sign \<Rightarrow> http_message \<Rightarrow> jstr list" where
  "base_components o' msg =
    js ''@authority'' # (if ws_identityOnly o' then []
      else [js ''@method'', js ''@path''] @ (if (case msg_url msg of None \<Rightarrow> False | Some u \<Rightarrow> 63 \<in> set u) then [js ''@query''] else []))"

definition with_headers :: "http_message \<Rightarrow> (jstr \<times> jstr) list \<Rightarrow> http_message" where
  "with_headers msg extra = msg\<lparr>msg_headers := foldl (\<lambda>m (k, v). mset_key m k (Single v)) (msg_headers msg) extra\<rparr>"

definition signWebBotAuthRequest :: "crypto \<Rightarrow> (bytes \<Rightarrow> bytes) \<Rightarrow> http_message \<Rightarrow> web_sign \<Rightarrow> bytes \<Rightarrow> ((jstr \<times> jstr) list \<times> jstr) option" where
  "signWebBotAuthRequest C sha512 msg o' rnd =
    (case spkiToEd25519Jwk (ws_publicKey o') of
       None \<Rightarrow> None
     | Some jwk \<Rightarrow>
         (case web_thumbprint C jwk of
            None \<Rightarrow> None
          | Some keyId' \<Rightarrow>
              let lifetime = (case ws_lifetimeSeconds o' of None \<Rightarrow> 60 | Some l \<Rightarrow> l); created = ws_now o' div 1000 in
              if lifetime \<le> 0 \<or> 3600 < lifetime then None
              else (case agent_field o' of
                None \<Rightarrow> None
              | Some agent \<Rightarrow>
                  let bodyPart = (case ws_body o' of Some (b # bs) \<Rightarrow> [(js ''content-digest'', createContentDigest C sha512 Sha256 (b # bs))] | _ \<Rightarrow> []);
                      extra = (case agent of None \<Rightarrow> [] | Some (f, c) \<Rightarrow> [(SIGNATURE_AGENT_HEADER, f)]) @ bodyPart;
                      components = base_components o' msg @ (case agent of None \<Rightarrow> [] | Some (f, c) \<Rightarrow> [c]) @ map fst bodyPart;
                      so = \<lparr>sm_label = Some (case ws_label o' of None \<Rightarrow> js ''sig1'' | Some l \<Rightarrow> l), sm_components = components,
                        sm_key = SignEd (ws_privateKey o'), sm_keyId = Some keyId', sm_created = CreatedAt created,
                        sm_expires = Some (created + lifetime), sm_nonce = RandomNonce, sm_tag = Some WEB_BOT_AUTH_TAG, sm_includeAlg = True, sm_request = None\<rparr>
                  in (case signMessage C (with_headers msg extra) so (ws_now o') rnd of
                     Inl _ \<Rightarrow> None
                   | Inr None \<Rightarrow> None
                   | Inr (Some sd) \<Rightarrow>
                       Some (extra @ [(js ''signature-input'', sd_signatureInput sd), (js ''signature'', sd_signature sd)], keyId')))))"

section \<open>The server\<close>

type_synonym web_resolver = "jstr option \<Rightarrow> jstr \<Rightarrow> json list option option"

record web_verify =
  wv_resolveKeys :: web_resolver
  wv_requiredComponents :: "jstr list"
  wv_body :: "bytes option"
  wv_requireBodyBinding :: bool
  wv_maxAgeMs :: "int option"
  wv_now :: int
  wv_label :: "jstr option"

datatype web_failure = HttpFailure hms_failure | BadSignatureAgent | UnknownWebKey

record web_result =
  wr_keyId :: "jstr option"
  wr_agentUrl :: "jstr option"
  wr_jwk :: "json option"

definition headerValue :: "http_headers \<Rightarrow> jstr \<Rightarrow> jstr option" where
  "headerValue hs name =
    (case filter (\<lambda>kv. toLowerCase (fst kv) = name) hs of
       [] \<Rightarrow> None
     | (k, Single v) # _ \<Rightarrow> Some v
     | (k, Multi vs) # _ \<Rightarrow> Some (join_with (js '', '') vs))"

text \<open>\<open>/^"([^"\\\\]+)"$/\<close>, the group.\<close>

definition plain_string :: "jstr \<Rightarrow> jstr option" where
  "plain_string s =
    (if 3 \<le> length s \<and> hd s = 34 \<and> last s = 34 \<and> (\<forall>c \<in> set (butlast (tl s)). c \<noteq> 34 \<and> c \<noteq> 92) then Some (butlast (tl s)) else None)"

definition agent_plain :: jstr where
  "agent_plain = 34 # SIGNATURE_AGENT_HEADER @ [34]"

definition agent_keyed :: jstr where
  "agent_keyed = agent_plain @ js '';key=''"

text \<open>\<open>None\<close> for undefined, \<open>Some None\<close> for null.\<close>

definition agentFromHeader :: "jstr option \<Rightarrow> jstr option \<Rightarrow> jstr option option" where
  "agentFromHeader raw covered =
    (case raw of
       None \<Rightarrow> None
     | Some r \<Rightarrow> Some
         (case covered of
            None \<Rightarrow> None
          | Some c \<Rightarrow>
              if c = agent_plain then plain_string (trim r)
              else if \<not> startsWith c agent_keyed then None
              else (case plain_string (drop (length agent_keyed) c) of
                None \<Rightarrow> None
              | Some key \<Rightarrow> (case getDictionaryMember r key of Inl _ \<Rightarrow> None | Inr v \<Rightarrow> plain_string v))))"

text \<open>The component by which the chosen signature covers the agent.\<close>

definition covered_agent :: "web_verify \<Rightarrow> http_headers \<Rightarrow> jstr option" where
  "covered_agent o' hs =
    (case parseSignatures hs of
       Inl _ \<Rightarrow> None
     | Inr sigs \<Rightarrow>
         (case find (\<lambda>s. (wv_label o' = None \<or> Some (ps_label s) = wv_label o') \<and> sp_tag (ps_params s) = Some WEB_BOT_AUTH_TAG) sigs of
            None \<Rightarrow> None
          | Some s \<Rightarrow> find (\<lambda>c. c = agent_plain \<or> startsWith c agent_keyed) (ps_components s)))"

definition matching_key :: "crypto \<Rightarrow> jstr \<Rightarrow> json list \<Rightarrow> json option" where
  "matching_key C kid keys = find (\<lambda>j. web_thumbprint C j = Some kid) keys"

definition resolved_jwk :: "crypto \<Rightarrow> web_verify \<Rightarrow> jstr option \<Rightarrow> jstr option \<Rightarrow> json option" where
  "resolved_jwk C o' agent kid =
    (case kid of
       None \<Rightarrow> None
     | Some k \<Rightarrow> (case wv_resolveKeys o' agent k of Some (Some keys) \<Rightarrow> matching_key C k keys | _ \<Rightarrow> None))"

text \<open>\<open>resolveKey\<close>: the outer option is a throw.\<close>

definition web_resolve :: "crypto \<Rightarrow> web_verify \<Rightarrow> jstr option \<Rightarrow> jstr option \<Rightarrow> sig_params \<Rightarrow> verification_key option option" where
  "web_resolve C o' agent kid p =
    (case kid of
       None \<Rightarrow> Some None
     | Some k \<Rightarrow>
         (case wv_resolveKeys o' agent k of
            None \<Rightarrow> None
          | Some None \<Rightarrow> Some None
          | Some (Some keys) \<Rightarrow>
              (case matching_key C k keys of
                 None \<Rightarrow> Some None
               | Some j \<Rightarrow> map_option (\<lambda>s. Some (VerifyEd s)) (ed25519JwkToSpki j))))"

definition key_unknown :: "crypto \<Rightarrow> web_verify \<Rightarrow> jstr option \<Rightarrow> jstr option \<Rightarrow> bool" where
  "key_unknown C o' agent kid \<longleftrightarrow>
    (case kid of
       None \<Rightarrow> False
     | Some k \<Rightarrow> (case wv_resolveKeys o' agent k of Some (Some keys) \<Rightarrow> matching_key C k keys = None | _ \<Rightarrow> False))"

definition web_opts :: "crypto \<Rightarrow> web_verify \<Rightarrow> jstr option \<Rightarrow> jstr option \<Rightarrow> verify_message_opts" where
  "web_opts C o' covered agent =
    \<lparr>vm_label = wv_label o', vm_tag = Some WEB_BOT_AUTH_TAG, vm_resolveKey = web_resolve C o' agent,
     vm_requiredComponents = js ''@authority'' # (case covered of None \<Rightarrow> [] | Some c \<Rightarrow> [c]) @ wv_requiredComponents o',
     vm_body = wv_body o', vm_requireBodyBinding = wv_requireBodyBinding o', vm_maxAgeMs = Some (case wv_maxAgeMs o' of None \<Rightarrow> 60000 | Some m \<Rightarrow> m),
     vm_clockSkewMs = None, vm_requireCreated = True, vm_requireExpires = True, vm_now = wv_now o', vm_request = None\<rparr>"

definition verifyWebBotAuthRequest :: "crypto \<Rightarrow> (bytes \<Rightarrow> bytes) \<Rightarrow> ('st \<Rightarrow> jstr \<Rightarrow> jnum \<Rightarrow> int \<Rightarrow> 'st \<times> bool option) option \<Rightarrow> 'st \<Rightarrow> int
    \<Rightarrow> http_message \<Rightarrow> web_verify \<Rightarrow> 'st \<times> (web_failure + web_result) option" where
  "verifyWebBotAuthRequest C sha512 check st clock msg o' =
    (let covered = covered_agent o' (msg_headers msg);
         agentUrl = agentFromHeader (headerValue (msg_headers msg) SIGNATURE_AGENT_HEADER) covered
     in if agentUrl = Some None then (st, Some (Inl BadSignatureAgent))
     else let agent = (case agentUrl of Some (Some u) \<Rightarrow> Some u | _ \<Rightarrow> None); vo = web_opts C o' covered agent;
              (st', r) = verifyMessage C sha512 check st clock msg vo
       in (st', map_option (\<lambda>res. case res of
            Inl f \<Rightarrow> Inl (if f = NoKeyForSignature \<and> (case select_signature vo (msg_headers msg) of Inl _ \<Rightarrow> False | Inr s \<Rightarrow> key_unknown C o' agent (sp_keyid (ps_params s)))
                then UnknownWebKey else HttpFailure f)
          | Inr s \<Rightarrow> Inr \<lparr>wr_keyId = sp_keyid (ps_params s), wr_agentUrl = agent, wr_jwk = resolved_jwk C o' agent (sp_keyid (ps_params s))\<rparr>) r))"

section \<open>Key directories\<close>

definition KEY_DIRECTORY_PATH :: jstr where
  "KEY_DIRECTORY_PATH = js ''/.well-known/http-message-signatures-directory''"

definition KEY_DIRECTORY_MEDIA_TYPE :: jstr where
  "KEY_DIRECTORY_MEDIA_TYPE = js ''application/http-message-signatures-directory+json''"

record directory_url =
  du_protocol :: jstr
  du_username :: jstr
  du_password :: jstr
  du_origin :: jstr

record directory_response =
  dr_ok :: bool
  dr_contentType :: "jstr option"
  dr_contentLength :: "jstr option"
  dr_text :: jstr

record directory_opts =
  fo_maxBytes :: "int option"
  fo_maxKeys :: "int option"

text \<open>\<open>Array.prototype.slice(0, n)\<close>.\<close>

definition slice_upto :: "int \<Rightarrow> 'a list \<Rightarrow> 'a list" where
  "slice_upto n xs = (if 0 \<le> n then take (nat n) xs else take (length xs - nat (- n)) xs)"

text \<open>\<open>fetch\<close> gives no response when it is aborted, redirected or fails; \<open>number\<close> reads a header as a number.\<close>

definition fetchKeyDirectory :: "(jstr \<Rightarrow> directory_url option) \<Rightarrow> (jstr \<Rightarrow> directory_response option) \<Rightarrow> (jstr \<Rightarrow> jnum) \<Rightarrow> (jstr \<Rightarrow> json option)
    \<Rightarrow> directory_opts \<Rightarrow> jstr \<Rightarrow> json list option" where
  "fetchKeyDirectory U fetch number' parse o' agentUrl =
    (case U agentUrl of
       None \<Rightarrow> None
     | Some u \<Rightarrow>
         if du_protocol u \<noteq> js ''https:'' \<or> du_username u \<noteq> [] \<or> du_password u \<noteq> [] then None
         else (case fetch (du_origin u @ KEY_DIRECTORY_PATH) of
           None \<Rightarrow> None
         | Some r \<Rightarrow>
             let maxBytes = (case fo_maxBytes o' of None \<Rightarrow> 65536 | Some m \<Rightarrow> m);
                 type' = toLowerCase (trim (takeWhile (\<lambda>c. c \<noteq> 59) (case dr_contentType r of None \<Rightarrow> [] | Some t \<Rightarrow> t)));
                 declared = number' (case dr_contentLength r of None \<Rightarrow> js ''0'' | Some t \<Rightarrow> t)
             in if \<not> dr_ok r \<or> (type' \<noteq> KEY_DIRECTORY_MEDIA_TYPE \<and> type' \<noteq> js ''application/json'') \<or> jnum_less (Fin maxBytes) declared
                  \<or> maxBytes < int (length (utf8Encode (dr_text r))) then None
             else (case parse (dr_text r) of
               None \<Rightarrow> None
             | Some v \<Rightarrow>
                 (case jmember v ''keys'' of
                    Some (JArr keys) \<Rightarrow> Some (slice_upto (case fo_maxKeys o' of None \<Rightarrow> 32 | Some m \<Rightarrow> m) (filter isEd25519Jwk keys))
                  | _ \<Rightarrow> None))))"

section \<open>Properties\<close>

lemma verify_web_ok:
  assumes "snd (verifyWebBotAuthRequest C sha512 check st clock msg o') = Some (Inr r)"
  obtains covered agent s where "covered = covered_agent o' (msg_headers msg)"
    "agentFromHeader (headerValue (msg_headers msg) SIGNATURE_AGENT_HEADER) covered = (case agent of None \<Rightarrow> None | Some u \<Rightarrow> Some (Some u))"
    "snd (verifyMessage C sha512 check st clock msg (web_opts C o' covered agent)) = Some (Inr s)"
    "r = \<lparr>wr_keyId = sp_keyid (ps_params s), wr_agentUrl = agent, wr_jwk = resolved_jwk C o' agent (sp_keyid (ps_params s))\<rparr>"
proof -
  let ?covered = "covered_agent o' (msg_headers msg)"
  let ?a = "agentFromHeader (headerValue (msg_headers msg) SIGNATURE_AGENT_HEADER) ?covered"
  let ?agent = "case ?a of Some (Some u) \<Rightarrow> Some u | _ \<Rightarrow> None"
  have n: "?a \<noteq> Some None" using assms by (auto simp: verifyWebBotAuthRequest_def Let_def)
  obtain st' v where v: "verifyMessage C sha512 check st clock msg (web_opts C o' ?covered ?agent) = (st', v)"
    by (cases "verifyMessage C sha512 check st clock msg (web_opts C o' ?covered ?agent)")
  have "snd (verifyWebBotAuthRequest C sha512 check st clock msg o') = map_option (\<lambda>res. case res of
      Inl f \<Rightarrow> Inl (if f = NoKeyForSignature \<and> (case select_signature (web_opts C o' ?covered ?agent) (msg_headers msg) of Inl _ \<Rightarrow> False | Inr s \<Rightarrow> key_unknown C o' ?agent (sp_keyid (ps_params s)))
          then UnknownWebKey else HttpFailure f)
    | Inr s \<Rightarrow> Inr \<lparr>wr_keyId = sp_keyid (ps_params s), wr_agentUrl = ?agent, wr_jwk = resolved_jwk C o' ?agent (sp_keyid (ps_params s))\<rparr>) v"
    using n v by (simp add: verifyWebBotAuthRequest_def Let_def)
  with assms obtain s where s: "v = Some (Inr s)"
    "r = \<lparr>wr_keyId = sp_keyid (ps_params s), wr_agentUrl = ?agent, wr_jwk = resolved_jwk C o' ?agent (sp_keyid (ps_params s))\<rparr>"
    by (auto split: sum.splits)
  have "?a = (case ?agent of None \<Rightarrow> None | Some u \<Rightarrow> Some (Some u))" using n by (auto split: option.splits)
  with s v show ?thesis by (intro that [OF refl]) auto
qed

lemma authority_normal: "normalizeComponentId (js ''@authority'') = Inr (34 # js ''@authority'' @ [34])"
  by (simp add: normalizeComponentId_def trim_def ws_char_def ascii_eval Let_def startsWith_def sf_string_def sf_expect_def printable_def
      serializeComponent_def sfString_def sf_escape_def)

text \<open>A request is accepted only from the holder of a published key: the key is among those the deployment publishes for the agent the request names, it is a public Ed25519 key whose thumbprint is the key id, and the signature, tagged for this use, verifies under it over the base of the received message, which covers the authority, has a time of creation and an expiry that has not passed; an agent header, when there is one, is read only in a form that the signature covers.\<close>

theorem web_bot_accepts_sound:
  assumes "snd (verifyWebBotAuthRequest C sha512 check st clock msg o') = Some (Inr r)"
  shows "\<exists>(s :: parsed_signature) kid keys jwk spki base x. wr_keyId r = Some kid \<and> wr_jwk r = Some jwk \<and> wv_resolveKeys o' (wr_agentUrl r) kid = Some (Some keys)
    \<and> jwk \<in> set keys \<and> web_thumbprint C jwk = Some kid \<and> ed25519JwkToSpki jwk = Some spki
    \<and> buildSignatureBase (ps_components s) (ps_value s) (context_of msg None) = Inr base \<and> verifyBytes C (VerifyEd spki) (utf8Encode base) (ps_signature s)
    \<and> sp_keyid (ps_params s) = Some kid \<and> sp_tag (ps_params s) = Some WEB_BOT_AUTH_TAG \<and> 34 # js ''@authority'' @ [34] \<in> set (ps_components s)
    \<and> sp_created (ps_params s) \<noteq> None \<and> sp_expires (ps_params s) = Some x \<and> wv_now o' div 1000 < x
    \<and> (\<forall>raw. headerValue (msg_headers msg) SIGNATURE_AGENT_HEADER = Some raw \<longrightarrow>
        (\<exists>c n. covered_agent o' (msg_headers msg) = Some c \<and> normalizeComponentId c = Inr n \<and> n \<in> set (ps_components s) \<and> wr_agentUrl r \<noteq> None))"
proof -
  obtain covered agent s where v: "covered = covered_agent o' (msg_headers msg)"
    "agentFromHeader (headerValue (msg_headers msg) SIGNATURE_AGENT_HEADER) covered = (case agent of None \<Rightarrow> None | Some u \<Rightarrow> Some (Some u))"
    "snd (verifyMessage C sha512 check st clock msg (web_opts C o' covered agent)) = Some (Inr s)"
    "r = \<lparr>wr_keyId = sp_keyid (ps_params s), wr_agentUrl = agent, wr_jwk = resolved_jwk C o' agent (sp_keyid (ps_params s))\<rparr>"
    using verify_web_ok [OF assms] by blast
  let ?vo = "web_opts C o' covered agent"
  obtain required key where h: "each normalizeComponentId (vm_requiredComponents ?vo) = Inr required" "select_signature ?vo (msg_headers msg) = Inr s"
    "coverage_check ?vo required s = None" "time_check ?vo (ps_params s) = None" "vm_resolveKey ?vo (sp_keyid (ps_params s)) (ps_params s) = Some (Some key)"
    "signature_check C msg ?vo s key = None"
    using hs_verdict_ok [OF accepted_verdict_hs [OF v(3)]] by metis
  have cov: "set required \<subseteq> set (ps_components s)" using h(3) by (auto simp: coverage_check_def split: if_splits)
  obtain n ns where req: "normalizeComponentId (js ''@authority'') = Inr n" "required = n # ns"
    "each normalizeComponentId ((case covered of None \<Rightarrow> [] | Some c \<Rightarrow> [c]) @ wv_requiredComponents o') = Inr ns"
    using h(1) by (auto simp: web_opts_def and_then_def split: sum.splits)
  have auth: "34 # js ''@authority'' @ [34] \<in> set (ps_components s)" using req(1,2) cov authority_normal by simp
  obtain kid keys jwk spki where k: "sp_keyid (ps_params s) = Some kid" "wv_resolveKeys o' agent kid = Some (Some keys)" "matching_key C kid keys = Some jwk"
    "ed25519JwkToSpki jwk = Some spki" "key = VerifyEd spki"
    using h(5) by (auto simp: web_opts_def web_resolve_def split: option.splits)
  have m: "jwk \<in> set keys" "web_thumbprint C jwk = Some kid" using k(3) by (auto simp: matching_key_def find_Some_iff)
  have "resolved_jwk C o' agent (Some kid) = Some jwk" using k(2,3) by (simp add: resolved_jwk_def)
  then have r: "wr_keyId r = Some kid" "wr_jwk r = Some jwk" "wr_agentUrl r = agent" using v(4) k(1) by simp_all
  obtain base where base: "buildSignatureBase (ps_components s) (ps_value s) (context_of msg None) = Inr base" "verifyBytes C (VerifyEd spki) (utf8Encode base) (ps_signature s)"
    using h(6) k(5) by (auto simp: signature_check_def web_opts_def split: if_splits sum.splits)
  have tag: "sp_tag (ps_params s) = Some WEB_BOT_AUTH_TAG" using selected [OF h(2)] by (auto simp: web_opts_def)
  have t: "sp_created (ps_params s) \<noteq> None" "sp_expires (ps_params s) \<noteq> None" "\<forall>x. sp_expires (ps_params s) = Some x \<longrightarrow> wv_now o' div 1000 < x"
    using time_window [OF h(4)] by (auto simp: web_opts_def)
  then obtain x where x: "sp_expires (ps_params s) = Some x" "wv_now o' div 1000 < x" by auto
  have hd: "\<exists>c n. covered_agent o' (msg_headers msg) = Some c \<and> normalizeComponentId c = Inr n \<and> n \<in> set (ps_components s) \<and> agent \<noteq> None"
    if raw: "headerValue (msg_headers msg) SIGNATURE_AGENT_HEADER = Some raw" for raw
  proof -
    obtain c where c: "covered = Some c" using v(2) raw by (cases covered) (auto simp: agentFromHeader_def split: option.splits)
    have a: "agent \<noteq> None" using v(2) raw by (cases agent) (auto simp: agentFromHeader_def)
    obtain n' where "normalizeComponentId c = Inr n'" "n' \<in> set ns" using req(3) c by (auto simp: and_then_def split: sum.splits)
    with c a v(1) cov req(2) show ?thesis by auto
  qed
  show ?thesis unfolding r(3)
    by (rule exI [of _ s], rule exI [of _ kid], rule exI [of _ keys], rule exI [of _ jwk], rule exI [of _ spki], rule exI [of _ base], rule exI [of _ x],
        intro conjI allI impI) (rule r(1,2) k(1,2,4) m base tag auth t(1) x hd | assumption)+
qed

text \<open>A directory is asked at one address only, the fixed path on the origin of an https URL without credentials, and gives at most the allowed number of keys, each a public Ed25519 key without a private part.\<close>

theorem directory_fetch_guarded:
  assumes "fetchKeyDirectory U fetch number' parse o' agentUrl = Some keys" "0 \<le> (case fo_maxKeys o' of None \<Rightarrow> 32 | Some m \<Rightarrow> m)"
  shows "\<exists>u r. U agentUrl = Some u \<and> du_protocol u = js ''https:'' \<and> du_username u = [] \<and> du_password u = []
    \<and> fetch (du_origin u @ KEY_DIRECTORY_PATH) = Some r \<and> dr_ok r
    \<and> int (length (utf8Encode (dr_text r))) \<le> (case fo_maxBytes o' of None \<Rightarrow> 65536 | Some m \<Rightarrow> m)
    \<and> int (length keys) \<le> (case fo_maxKeys o' of None \<Rightarrow> 32 | Some m \<Rightarrow> m) \<and> (\<forall>k \<in> set keys. isEd25519Jwk k \<and> jmember k ''d'' = None)"
proof -
  obtain u r v ks where u: "U agentUrl = Some u" "du_protocol u = js ''https:''" "du_username u = []" "du_password u = []"
    "fetch (du_origin u @ KEY_DIRECTORY_PATH) = Some r" "dr_ok r" "\<not> (case fo_maxBytes o' of None \<Rightarrow> 65536 | Some m \<Rightarrow> m) < int (length (utf8Encode (dr_text r)))"
    "keys = slice_upto (case fo_maxKeys o' of None \<Rightarrow> 32 | Some m \<Rightarrow> m) (filter isEd25519Jwk ks)"
    using assms(1) unfolding fetchKeyDirectory_def Let_def
    by (auto simp del: not_less split: option.splits if_split_asm json.splits)
  have k: "set keys \<subseteq> {k. isEd25519Jwk k}" "int (length keys) \<le> (case fo_maxKeys o' of None \<Rightarrow> 32 | Some m \<Rightarrow> m)"
    using assms(2) unfolding u(8) slice_upto_def by (auto dest: in_set_takeD)
  have "isEd25519Jwk k \<Longrightarrow> jmember k ''d'' = None" for k
    by (auto simp: isEd25519Jwk_def ed_jwk_x_def split: if_splits)
  with u k show ?thesis by (intro exI [of _ u] exI [of _ r]) auto
qed

end
