(* ===== verification/Attestation.thy ===== *)
theory Attestation
  imports Mandate ToolPinning
begin

text \<open>
  \<open>src/attestation.ts\<close>: statements that bind the key of an agent to the measurements of a build,
  their issuing, the reading and the verification of received ones, and the key registry that
  yields keys of attested agents only. A received statement is a JSON value; the record holds
  what is read of it once its shape is checked. The registry of attester keys, the revocation
  check and the source of statements are parameters that may throw (\<open>None\<close>).
\<close>

section \<open>Statements\<close>

record attestation =
  at_version :: jstr
  at_id :: jstr
  at_agent :: jstr
  at_publicKey :: jstr
  at_measurements :: "(jstr, jstr) jsmap"
  at_claims :: "(jstr, json) jsmap option"
  at_attester :: jstr
  at_issuedAt :: int
  at_expiresAt :: int
  at_keyId :: jstr
  at_signature :: jstr

definition ATTESTATION_VERSION :: jstr where
  "ATTESTATION_VERSION = js ''7h3-attest/1''"

definition MAX_ATTESTATION_LIFETIME_MS :: int where
  "MAX_ATTESTATION_LIFETIME_MS = 86400000"

definition DEFAULT_ATTESTATION_LIFETIME_MS :: int where
  "DEFAULT_ATTESTATION_LIFETIME_MS = 3600000"

definition MAX_MEASUREMENTS :: nat where
  "MAX_MEASUREMENTS = 32"

definition MAX_CLAIMS :: nat where
  "MAX_CLAIMS = 32"

text \<open>\<open>/^(?:[0-9a-f]{64}|[0-9a-f]{128})$/\<close> and \<open>/^[A-Za-z][A-Za-z0-9._-]{0,63}$/\<close>.\<close>

definition lower_hex :: "code_unit \<Rightarrow> bool" where
  "lower_hex c \<longleftrightarrow> 48 \<le> c \<and> c \<le> 57 \<or> 97 \<le> c \<and> c \<le> 102"

definition is_digest :: "jstr \<Rightarrow> bool" where
  "is_digest s \<longleftrightarrow> (length s = 64 \<or> length s = 128) \<and> list_all lower_hex s"

definition is_letter :: "code_unit \<Rightarrow> bool" where
  "is_letter c \<longleftrightarrow> 65 \<le> c \<and> c \<le> 90 \<or> 97 \<le> c \<and> c \<le> 122"

definition attest_name :: "jstr \<Rightarrow> bool" where
  "attest_name s =
    (case s of
       [] \<Rightarrow> False
     | c # r \<Rightarrow> is_letter c \<and> length r \<le> 63 \<and> list_all (\<lambda>c. is_letter c \<or> 48 \<le> c \<and> c \<le> 57 \<or> c = 46 \<or> c = 95 \<or> c = 45) r)"

definition claim_value :: "json \<Rightarrow> bool" where
  "claim_value v = (case v of JStr _ \<Rightarrow> True | JBool _ \<Rightarrow> True | JNum n \<Rightarrow> is_finite n | _ \<Rightarrow> False)"

definition digestJson :: "crypto \<Rightarrow> json \<Rightarrow> jstr option" where
  "digestJson C v = map_option (sha256Hex C) (stableStringify v)"

definition toolPinsDigest :: "crypto \<Rightarrow> json \<Rightarrow> jstr option" where
  "toolPinsDigest C pins =
    (case (jmember pins ''server'', jmember pins ''pins'') of
       (Some s, Some (JArr xs)) \<Rightarrow>
         (case all_some (map canonical_pin xs) of
            None \<Rightarrow> None
          | Some ps \<Rightarrow> digestJson C (JObj [(js ''server'', s), (js ''pins'', JArr ps)]))
     | _ \<Rightarrow> None)"

definition digests_json :: "(jstr, jstr) jsmap \<Rightarrow> json" where
  "digests_json ms = JObj (map (\<lambda>(k, d). (k, JStr d)) ms)"

definition attest_body :: "attestation \<Rightarrow> json" where
  "attest_body s = JObj
    [(js ''version'', JStr (at_version s)), (js ''id'', JStr (at_id s)),
     (js ''subject'', JObj [(js ''agent'', JStr (at_agent s)), (js ''publicKey'', JStr (at_publicKey s))]),
     (js ''measurements'', digests_json (at_measurements s)), (js ''claims'', null_or JObj (at_claims s)),
     (js ''attester'', JStr (at_attester s)), (js ''issuedAt'', num (at_issuedAt s)), (js ''expiresAt'', num (at_expiresAt s)),
     (js ''keyId'', JStr (at_keyId s))]"

definition canonAttestation :: "attestation \<Rightarrow> jstr option" where
  "canonAttestation s = stableStringify (attest_body s)"

section \<open>Issuing\<close>

record attest_opts =
  ao_privateKey :: jstr
  ao_attester :: jstr
  ao_agent :: jstr
  ao_publicKey :: jstr
  ao_measurements :: "(jstr, jstr) jsmap"
  ao_claims :: "(jstr, json) jsmap option"
  ao_lifetimeMs :: "jnum option"
  ao_keyId :: "jstr option"

definition claims_or_none :: "(jstr, json) jsmap option \<Rightarrow> (jstr, json) jsmap" where
  "claims_or_none c = (case c of None \<Rightarrow> [] | Some m \<Rightarrow> m)"

text \<open>\<open>None\<close>: one of the checks throws, or the private key is unusable.\<close>

definition issueAttestation :: "crypto \<Rightarrow> attest_opts \<Rightarrow> int \<Rightarrow> bytes \<Rightarrow> attestation option" where
  "issueAttestation C o' now rnd8 =
    (case lifetime_ok (case ao_lifetimeMs o' of None \<Rightarrow> Fin DEFAULT_ATTESTATION_LIFETIME_MS | Some l \<Rightarrow> l) MAX_ATTESTATION_LIFETIME_MS of
       None \<Rightarrow> None
     | Some lifetime \<Rightarrow>
         if ao_attester o' = [] \<or> ao_agent o' = [] \<or> ao_publicKey o' = [] then None
         else if msize (ao_measurements o') = 0 \<or> MAX_MEASUREMENTS < msize (ao_measurements o') then None
         else if \<not> list_all (\<lambda>(k, v). attest_name k \<and> is_digest v) (ao_measurements o') then None
         else if \<not> list_all (\<lambda>(k, v). attest_name k \<and> (case v of JNum n \<Rightarrow> is_finite n | _ \<Rightarrow> True)) (claims_or_none (ao_claims o')) then None
         else if MAX_CLAIMS < msize (claims_or_none (ao_claims o')) then None
         else let s = \<lparr>at_version = ATTESTATION_VERSION, at_id = js ''att-'' @ show_int now @ js ''-'' @ randomHex rnd8,
             at_agent = ao_agent o', at_publicKey = ao_publicKey o', at_measurements = ao_measurements o', at_claims = ao_claims o',
             at_attester = ao_attester o', at_issuedAt = now, at_expiresAt = now + lifetime,
             at_keyId = (case ao_keyId o' of None \<Rightarrow> ao_attester o' @ js ''-key'' | Some k \<Rightarrow> k), at_signature = []\<rparr> in
           map_option (\<lambda>sg. s\<lparr>at_signature := sg\<rparr>) (sign_canonical C (canonAttestation s) (ao_privateKey o')))"

section \<open>Reading\<close>

definition text_member :: "json \<Rightarrow> string \<Rightarrow> jstr option" where
  "text_member v f = (case jmember v f of Some (JStr (c # s)) \<Rightarrow> Some (c # s) | _ \<Rightarrow> None)"

definition time_member :: "json \<Rightarrow> string \<Rightarrow> int option" where
  "time_member v f = (case jmember v f of Some (JNum (Fin n)) \<Rightarrow> if isSafeInteger (Fin n) \<and> 0 < n then Some n else None | _ \<Rightarrow> None)"

definition object_member :: "(jstr \<times> json \<Rightarrow> 'a option) \<Rightarrow> nat \<Rightarrow> json \<Rightarrow> 'a list option" where
  "object_member f mx v = (case v of JObj kvs \<Rightarrow> if mx < length kvs then None else all_some (map f kvs) | _ \<Rightarrow> None)"

definition read_measurement :: "jstr \<times> json \<Rightarrow> (jstr \<times> jstr) option" where
  "read_measurement kv = (case snd kv of JStr d \<Rightarrow> if is_digest d \<and> attest_name (fst kv) then Some (fst kv, d) else None | _ \<Rightarrow> None)"

definition read_claim :: "jstr \<times> json \<Rightarrow> (jstr \<times> json) option" where
  "read_claim kv = (if claim_value (snd kv) \<and> attest_name (fst kv) then Some kv else None)"

definition read_claims :: "json option \<Rightarrow> (jstr, json) jsmap option option" where
  "read_claims v = (case v of None \<Rightarrow> Some None | Some c \<Rightarrow> map_option Some (object_member read_claim MAX_CLAIMS c))"

text \<open>What \<open>isStatement\<close> accepts, with the members the rest of the code reads.\<close>

definition isStatement :: "json \<Rightarrow> attestation option" where
  "isStatement v =
    (case (text_member v ''version'', text_member v ''id'', jmember v ''subject'', jmember v ''measurements'') of
       (Some ver, Some i, Some subj, Some ms) \<Rightarrow>
         (case (text_member subj ''agent'', text_member subj ''publicKey'', object_member read_measurement MAX_MEASUREMENTS ms,
             read_claims (jmember v ''claims'')) of
            (Some ag, Some pk, Some m, Some c) \<Rightarrow>
              (case (text_member v ''attester'', time_member v ''issuedAt'', time_member v ''expiresAt'', text_member v ''keyId'', text_member v ''signature'') of
                 (Some att, Some i0, Some e0, Some kid, Some sg) \<Rightarrow>
                   Some \<lparr>at_version = ver, at_id = i, at_agent = ag, at_publicKey = pk, at_measurements = m, at_claims = c,
                     at_attester = att, at_issuedAt = i0, at_expiresAt = e0, at_keyId = kid, at_signature = sg\<rparr>
               | _ \<Rightarrow> None)
          | _ \<Rightarrow> None)
     | _ \<Rightarrow> None)"

definition statement_json :: "attestation \<Rightarrow> json" where
  "statement_json s = JObj
    ([(js ''version'', JStr (at_version s)), (js ''id'', JStr (at_id s)),
      (js ''subject'', JObj [(js ''agent'', JStr (at_agent s)), (js ''publicKey'', JStr (at_publicKey s))]),
      (js ''measurements'', digests_json (at_measurements s))]
     @ (case at_claims s of None \<Rightarrow> [] | Some c \<Rightarrow> [(js ''claims'', JObj c)])
     @ [(js ''attester'', JStr (at_attester s)), (js ''issuedAt'', num (at_issuedAt s)), (js ''expiresAt'', num (at_expiresAt s)),
        (js ''keyId'', JStr (at_keyId s)), (js ''signature'', JStr (at_signature s))])"

text \<open>The argument is a text or a value that was parsed before.\<close>

definition parseAttestation :: "(jstr \<Rightarrow> json option) \<Rightarrow> json \<Rightarrow> attestation option" where
  "parseAttestation parse raw =
    (case raw of
       JStr t \<Rightarrow> if 32 * 1024 < length t then None else (case parse t of None \<Rightarrow> None | Some v \<Rightarrow> isStatement v)
     | v \<Rightarrow> isStatement v)"

section \<open>Verifying\<close>

datatype attest_failure =
    MalformedStatement | UnsupportedAttestation | AttesterNotAllowed | LifetimeTooLong | NotYetValid | StatementExpired | TooOld
  | SubjectMismatch | KeyMismatch | NoAttesterKey | InvalidAttestation | AttestationRevoked
  | MeasurementMissing jstr | MeasurementNotApproved jstr | ClaimMismatch jstr

record attest_verify =
  av_attesterKeys :: "jstr \<Rightarrow> lookup"
  av_allowedAttesters :: "jstr list"
  av_requiredMeasurements :: "(jstr, jstr list) jsmap"
  av_requiredClaims :: "(jstr, json) jsmap"
  av_maxAgeMs :: "int option"
  av_isRevoked :: "(jstr \<Rightarrow> bool option) option"
  av_clockSkewMs :: "int option"

definition config_ok :: "attest_verify \<Rightarrow> bool" where
  "config_ok o' \<longleftrightarrow> av_allowedAttesters o' \<noteq> [] \<and> av_requiredMeasurements o' \<noteq> [] \<and> list_all (\<lambda>(k, ds). ds \<noteq> []) (av_requiredMeasurements o')"

definition window_check :: "attest_verify \<Rightarrow> int \<Rightarrow> attestation \<Rightarrow> attest_failure option" where
  "window_check o' now s =
    (if at_expiresAt s \<le> at_issuedAt s \<or> MAX_ATTESTATION_LIFETIME_MS < at_expiresAt s - at_issuedAt s then Some LifetimeTooLong
     else if now + (case av_clockSkewMs o' of None \<Rightarrow> MAX_CLOCK_SKEW_MS | Some k \<Rightarrow> k) < at_issuedAt s then Some NotYetValid
     else if at_expiresAt s \<le> now then Some StatementExpired
     else if (case av_maxAgeMs o' of None \<Rightarrow> False | Some m \<Rightarrow> m < now - at_issuedAt s) then Some TooOld
     else None)"

text \<open>
  A name that every object inherits is present even when the statement does not have it, but
  what is found there is no digest and equals no claim.
\<close>

fun measurement_checks :: "attestation \<Rightarrow> (jstr, jstr list) jsmap \<Rightarrow> attest_failure option" where
  "measurement_checks s [] = None"
| "measurement_checks s ((n, approved) # r) =
    (case mget (at_measurements s) n of
       None \<Rightarrow> Some (if n \<in> set inherited_names then MeasurementNotApproved n else MeasurementMissing n)
     | Some d \<Rightarrow> if d \<notin> set approved then Some (MeasurementNotApproved n) else measurement_checks s r)"

fun claim_checks :: "attestation \<Rightarrow> (jstr, json) jsmap \<Rightarrow> attest_failure option" where
  "claim_checks s [] = None"
| "claim_checks s ((n, expected) # r) =
    (if mget (claims_or_none (at_claims s)) n \<noteq> Some expected \<or> \<not> json_finite expected then Some (ClaimMismatch n) else claim_checks s r)"

definition revoked_check :: "attest_verify \<Rightarrow> attestation \<Rightarrow> bool option" where
  "revoked_check o' s = (case av_isRevoked o' of None \<Rightarrow> Some False | Some f \<Rightarrow> f (at_id s))"

definition statement_checks :: "crypto \<Rightarrow> attest_verify \<Rightarrow> jstr \<Rightarrow> jstr \<Rightarrow> int \<Rightarrow> attestation \<Rightarrow> (attest_failure + attestation) option" where
  "statement_checks C o' agent agentKey now s =
    (if at_version s \<noteq> ATTESTATION_VERSION then Some (Inl UnsupportedAttestation)
     else if at_attester s \<notin> set (av_allowedAttesters o') then Some (Inl AttesterNotAllowed)
     else (case window_check o' now s of
       Some f \<Rightarrow> Some (Inl f)
     | None \<Rightarrow>
         if at_agent s \<noteq> agent then Some (Inl SubjectMismatch)
         else if at_publicKey s \<noteq> agentKey then Some (Inl KeyMismatch)
         else (case av_attesterKeys o' (at_attester s) of
           None \<Rightarrow> None
         | Some None \<Rightarrow> Some (Inl NoAttesterKey)
         | Some (Some k) \<Rightarrow>
             if k = [] then Some (Inl NoAttesterKey)
             else (case verify_canonical C (canonAttestation s) (at_signature s) k of
               None \<Rightarrow> None
             | Some False \<Rightarrow> Some (Inl InvalidAttestation)
             | Some True \<Rightarrow>
                 (case revoked_check o' s of
                    None \<Rightarrow> None
                  | Some True \<Rightarrow> Some (Inl AttestationRevoked)
                  | Some False \<Rightarrow>
                      (case measurement_checks s (av_requiredMeasurements o') of
                         Some f \<Rightarrow> Some (Inl f)
                       | None \<Rightarrow> (case claim_checks s (av_requiredClaims o') of Some f \<Rightarrow> Some (Inl f) | None \<Rightarrow> Some (Inr s))))))))"

definition verifyAttestation :: "crypto \<Rightarrow> json \<Rightarrow> attest_verify \<Rightarrow> jstr \<Rightarrow> jstr \<Rightarrow> int \<Rightarrow> (attest_failure + attestation) option" where
  "verifyAttestation C v o' agent agentKey now =
    (if \<not> config_ok o' then None
     else (case isStatement v of
       None \<Rightarrow> Some (Inl MalformedStatement)
     | Some s \<Rightarrow> statement_checks C o' agent agentKey now s))"

section \<open>The registry of attested keys\<close>

type_synonym attest_cache = "(jstr, jstr \<times> int) jsmap"

record attested_registry =
  ar_verify :: attest_verify
  ar_cacheMs :: int
  ar_maxEntries :: int
  ar_cache :: attest_cache

definition createAttestedKeyRegistry :: "attest_verify \<Rightarrow> int option \<Rightarrow> int option \<Rightarrow> attested_registry" where
  "createAttestedKeyRegistry o' cms mx =
    \<lparr>ar_verify = o', ar_cacheMs = (case cms of None \<Rightarrow> 30000 | Some n \<Rightarrow> n),
     ar_maxEntries = (case mx of None \<Rightarrow> 1000 | Some n \<Rightarrow> n), ar_cache = []\<rparr>"

text \<open>The part of a lookup before the statement is awaited: a cached answer, or none yet.\<close>

definition cache_hit :: "attested_registry \<Rightarrow> jstr \<Rightarrow> jstr \<Rightarrow> int \<Rightarrow> bool" where
  "cache_hit r sndr key t = (case mget (ar_cache r) sndr of None \<Rightarrow> False | Some (k, until) \<Rightarrow> k = key \<and> t < until)"

definition evict_first :: "attested_registry \<Rightarrow> attest_cache" where
  "evict_first r = (if ar_maxEntries r \<le> int (msize (ar_cache r)) then tl (ar_cache r) else ar_cache r)"

text \<open>The part after it, which also catches what the fetch (\<open>None\<close>) and the checks throw.\<close>

definition after_fetch :: "crypto \<Rightarrow> attested_registry \<Rightarrow> jstr \<Rightarrow> jstr \<Rightarrow> int \<Rightarrow> json option \<Rightarrow> attested_registry \<times> jstr option" where
  "after_fetch C r sndr key t fetched =
    (case (case fetched of None \<Rightarrow> None | Some v \<Rightarrow> verifyAttestation C v (ar_verify r) sndr key t) of
       Some (Inr s) \<Rightarrow> (r\<lparr>ar_cache := mset_key (evict_first r) sndr (key, min (t + ar_cacheMs r) (at_expiresAt s))\<rparr>, Some key)
     | _ \<Rightarrow> (r\<lparr>ar_cache := mdelete (ar_cache r) sndr\<rparr>, None))"

text \<open>A lookup that nothing interleaves with; the outer \<open>None\<close> is a base registry that throws.\<close>

definition attested_public :: "crypto \<Rightarrow> (jstr \<Rightarrow> lookup) \<Rightarrow> (jstr \<Rightarrow> json option) \<Rightarrow> attested_registry \<Rightarrow> jstr \<Rightarrow> int \<Rightarrow> attested_registry \<times> lookup" where
  "attested_public C base getAttestation r sndr t =
    (case base sndr of
       None \<Rightarrow> (r, None)
     | Some None \<Rightarrow> (r, Some None)
     | Some (Some key) \<Rightarrow>
         if key = [] then (r, Some None)
         else if cache_hit r sndr key t then (r, Some (Some key))
         else map_prod id Some (after_fetch C r sndr key t (getAttestation sndr)))"

text \<open>Lookups that overlap finish in any order: each finishing is one event.\<close>

record fetch_event =
  fe_sender :: jstr
  fe_key :: jstr
  fe_time :: int
  fe_fetched :: "json option"

fun attested_run :: "crypto \<Rightarrow> attested_registry \<Rightarrow> fetch_event list \<Rightarrow> attested_registry" where
  "attested_run C r [] = r"
| "attested_run C r (e # es) = attested_run C (fst (after_fetch C r (fe_sender e) (fe_key e) (fe_time e) (fe_fetched e))) es"

section \<open>What acceptance means\<close>

lemma window_check_None:
  "window_check o' now s = None \<Longrightarrow> at_issuedAt s < at_expiresAt s \<and> at_expiresAt s - at_issuedAt s \<le> MAX_ATTESTATION_LIFETIME_MS
    \<and> at_issuedAt s \<le> now + (case av_clockSkewMs o' of None \<Rightarrow> MAX_CLOCK_SKEW_MS | Some k \<Rightarrow> k) \<and> now < at_expiresAt s
    \<and> (\<forall>m. av_maxAgeMs o' = Some m \<longrightarrow> now - at_issuedAt s \<le> m)"
  by (auto simp: window_check_def split: if_splits option.splits)

lemma measurement_checks_None:
  "measurement_checks s req = None \<longleftrightarrow> (\<forall>(n, approved) \<in> set req. \<exists>d \<in> set approved. mget (at_measurements s) n = Some d)"
  by (induction s req rule: measurement_checks.induct) (auto split: option.splits)

lemma claim_checks_None:
  "claim_checks s req = None \<longleftrightarrow> (\<forall>(n, x) \<in> set req. json_finite x \<and> mget (claims_or_none (at_claims s)) n = Some x)"
  by (induction s req rule: claim_checks.induct) auto

text \<open>The signature and standing of a statement.\<close>

definition attest_vouched :: "crypto \<Rightarrow> attest_verify \<Rightarrow> attestation \<Rightarrow> bool" where
  "attest_vouched C o' s \<longleftrightarrow> at_version s = ATTESTATION_VERSION \<and> at_attester s \<in> set (av_allowedAttesters o') \<and> revoked_check o' s = Some False
    \<and> (\<exists>k. av_attesterKeys o' (at_attester s) = Some (Some k) \<and> k \<noteq> [] \<and> verify_canonical C (canonAttestation s) (at_signature s) k = Some True)"

lemma statement_checks_iff:
  "statement_checks C o' agent key now s = Some (Inr s') \<longleftrightarrow>
    s' = s \<and> attest_vouched C o' s \<and> window_check o' now s = None \<and> at_agent s = agent \<and> at_publicKey s = key
    \<and> measurement_checks s (av_requiredMeasurements o') = None \<and> claim_checks s (av_requiredClaims o') = None"
  by (auto simp: statement_checks_def attest_vouched_def split: option.splits bool.splits if_splits)

lemma verify_attestation_iff:
  "verifyAttestation C v o' agent key now = Some (Inr s) \<longleftrightarrow> config_ok o' \<and> isStatement v = Some s \<and> statement_checks C o' agent key now s = Some (Inr s)"
  by (auto simp: verifyAttestation_def statement_checks_iff split: option.splits)

text \<open>An accepted statement is signed by an allowed attester, names this agent and this key, is in its window and not revoked, and has an approved value for every required measurement, of which there is one at least, and the required value of every claim.\<close>

theorem attestation_accepts_sound:
  assumes "verifyAttestation C v o' agent key now = Some (Inr s)"
  shows "attest_vouched C o' s \<and> at_agent s = agent \<and> at_publicKey s = key \<and> isStatement v = Some s
    \<and> at_issuedAt s \<le> now + (case av_clockSkewMs o' of None \<Rightarrow> MAX_CLOCK_SKEW_MS | Some k \<Rightarrow> k) \<and> now < at_expiresAt s
    \<and> at_expiresAt s - at_issuedAt s \<le> MAX_ATTESTATION_LIFETIME_MS \<and> (\<forall>m. av_maxAgeMs o' = Some m \<longrightarrow> now - at_issuedAt s \<le> m)
    \<and> av_requiredMeasurements o' \<noteq> []
    \<and> (\<forall>(n, approved) \<in> set (av_requiredMeasurements o'). \<exists>d \<in> set approved. mget (at_measurements s) n = Some d)
    \<and> (\<forall>(n, x) \<in> set (av_requiredClaims o'). mget (claims_or_none (at_claims s)) n = Some x)"
proof -
  have a: "config_ok o'" "isStatement v = Some s" "attest_vouched C o' s" "window_check o' now s = None" "at_agent s = agent" "at_publicKey s = key"
    "measurement_checks s (av_requiredMeasurements o') = None" "claim_checks s (av_requiredClaims o') = None"
    using assms by (simp_all add: verify_attestation_iff statement_checks_iff)
  have "av_requiredMeasurements o' \<noteq> []" using a(1) by (simp add: config_ok_def)
  moreover have "\<forall>(n, x) \<in> set (av_requiredClaims o'). mget (claims_or_none (at_claims s)) n = Some x"
    using a(8) unfolding claim_checks_None by auto
  ultimately show ?thesis using a(2,3,5,6) window_check_None [OF a(4)] a(7) [unfolded measurement_checks_None] by blast
qed

section \<open>What the signature covers\<close>

lemma norm_digests_inj:
  assumes "norm_json (digests_json a) = norm_json (digests_json b)" "wf_map a" "wf_map b"
  shows "mget a = mget b"
proof -
  have n: "map (\<lambda>(k, v). (k, norm_json v)) (map (\<lambda>(k, d). (k, JStr d)) m) = map (\<lambda>(k, d). (k, JStr d)) m" for m :: "(jstr, jstr) jsmap"
    by (simp add: case_prod_beta comp_def)
  have d: "distinct (map fst (map (\<lambda>(k, d). (k, JStr d)) m))" if "wf_map m" for m :: "(jstr, jstr) jsmap"
    using that by (simp add: wf_map_def case_prod_beta comp_def)
  have s: "sort_key fst (map (\<lambda>(k, d). (k, JStr d)) a) = sort_key fst (map (\<lambda>(k, d). (k, JStr d)) b)"
    using assms(1) unfolding digests_json_def norm_json.simps n by simp
  have "map_of (map (\<lambda>(k, d). (k, JStr d)) a) = map_of (map (\<lambda>(k, d). (k, JStr d)) b)"
    using s map_of_sort_key [OF d [OF assms(2)]] map_of_sort_key [OF d [OF assms(3)]] by metis
  then have m: "map_option JStr (map_of a k) = map_option JStr (map_of b k)" for k by (metis map_of_map_snd)
  have "map_of a k = map_of b k" for k using m [of k] by (cases "map_of a k"; cases "map_of b k") simp_all
  then show ?thesis by (simp add: mget_def fun_eq_iff)
qed

lemma norm_claims_inj:
  assumes "norm_json (null_or JObj a) = norm_json (null_or JObj b)" "wf_map (claims_or_none a)" "wf_map (claims_or_none b)"
  shows "map_option norm_json (mget (claims_or_none a) k) = map_option norm_json (mget (claims_or_none b) k)"
proof (cases a; cases b)
  fix x y assume xy: "a = Some x" "b = Some y"
  let ?n = "map (\<lambda>(k, v). (k, norm_json v))"
  have d: "distinct (map fst (?n m))" if "wf_map m" for m using that by (simp add: wf_map_def case_prod_beta comp_def)
  have s: "sort_key fst (?n x) = sort_key fst (?n y)" using assms(1) xy by (simp add: null_or_def)
  have w: "wf_map x" "wf_map y" using assms(2,3) xy by (simp_all add: claims_or_none_def)
  have "map_of (?n x) = map_of (?n y)" using s map_of_sort_key [OF d [OF w(1)]] map_of_sort_key [OF d [OF w(2)]] by metis
  then have "map_option norm_json (map_of x k) = map_option norm_json (map_of y k)" by (metis map_of_map_snd)
  then show ?thesis using xy by (simp add: mget_def claims_or_none_def)
qed (use assms(1) in \<open>simp_all add: null_or_def claims_or_none_def\<close>)

text \<open>Two statements with one text to sign differ in their signatures and in the order of measurements and claims at most.\<close>

theorem attestation_text_binds:
  assumes "canonAttestation a = Some t" "canonAttestation b = Some t" "wf_map (at_measurements a)" "wf_map (at_measurements b)"
    "wf_map (claims_or_none (at_claims a))" "wf_map (claims_or_none (at_claims b))"
  shows "(at_version a, at_id a, at_agent a, at_publicKey a, at_attester a, at_keyId a) = (at_version b, at_id b, at_agent b, at_publicKey b, at_attester b, at_keyId b)
    \<and> at_issuedAt a = at_issuedAt b \<and> at_expiresAt a = at_expiresAt b \<and> mget (at_measurements a) = mget (at_measurements b)
    \<and> map_option norm_json (mget (claims_or_none (at_claims a)) k) = map_option norm_json (mget (claims_or_none (at_claims b)) k)"
proof -
  have e: "norm_json (JObj [(js ''agent'', JStr (at_agent a)), (js ''publicKey'', JStr (at_publicKey a))])
      = norm_json (JObj [(js ''agent'', JStr (at_agent b)), (js ''publicKey'', JStr (at_publicKey b))])"
    and m: "norm_json (digests_json (at_measurements a)) = norm_json (digests_json (at_measurements b))"
    and c: "norm_json (null_or JObj (at_claims a)) = norm_json (null_or JObj (at_claims b))"
    and r: "(at_version a, at_id a, at_attester a, at_keyId a) = (at_version b, at_id b, at_attester b, at_keyId b)"
      "at_issuedAt a = at_issuedAt b \<and> at_expiresAt a = at_expiresAt b"
    using stable_same_keys [OF assms(1,2) [unfolded canonAttestation_def attest_body_def]] by simp_all
  have "at_agent a = at_agent b \<and> at_publicKey a = at_publicKey b" using norm_same_keys [OF e] by simp
  with r norm_digests_inj [OF m assms(3,4)] norm_claims_inj [OF c assms(5,6)] show ?thesis by simp
qed

end
