(* ===== verification/AttestationProps.thy ===== *)
theory AttestationProps
  imports Attestation
begin

text \<open>
  Properties of attestations: which statements survive printing and reading, the round trip from
  issuing to acceptance, and what stands behind every answer of the attested registry.
\<close>

section \<open>Reading back\<close>

definition time_ok :: "int \<Rightarrow> bool" where
  "time_ok n \<longleftrightarrow> isSafeInteger (Fin n) \<and> 0 < n"

definition attest_wf :: "attestation \<Rightarrow> bool" where
  "attest_wf s \<longleftrightarrow> [] \<notin> {at_version s, at_id s, at_agent s, at_publicKey s, at_attester s, at_keyId s, at_signature s}
    \<and> length (at_measurements s) \<le> MAX_MEASUREMENTS \<and> (\<forall>(k, d) \<in> set (at_measurements s). is_digest d \<and> attest_name k)
    \<and> length (claims_or_none (at_claims s)) \<le> MAX_CLAIMS \<and> (\<forall>(k, c) \<in> set (claims_or_none (at_claims s)). claim_value c \<and> attest_name k)
    \<and> time_ok (at_issuedAt s) \<and> time_ok (at_expiresAt s)"

lemma text_member_JStr: "jmember v f = Some (JStr s) \<Longrightarrow> text_member v f = (if s = [] then None else Some s)"
  by (cases s) (simp_all add: text_member_def)

lemma time_member_num: "jmember v f = Some (num n) \<Longrightarrow> time_member v f = (if time_ok n then Some n else None)"
  by (simp add: time_member_def time_ok_def)

lemma all_some_if: "all_some (map (\<lambda>x. if P x then Some x else None) xs) = (if \<forall>x \<in> set xs. P x then Some xs else None)"
  by (induction xs) auto

lemma read_digests:
  "object_member read_measurement n (digests_json ms) =
    (if length ms \<le> n \<and> (\<forall>(k, d) \<in> set ms. is_digest d \<and> attest_name k) then Some ms else None)"
proof -
  have "map read_measurement (map (\<lambda>(k, d). (k, JStr d)) ms) = map (\<lambda>x. if is_digest (snd x) \<and> attest_name (fst x) then Some x else None) ms"
    by (simp add: read_measurement_def case_prod_beta)
  then show ?thesis
    unfolding digests_json_def object_member_def by (simp add: all_some_if case_prod_beta del: map_map)
qed

lemma read_claims_back:
  "read_claims (map_option JObj c) =
    (if length (claims_or_none c) \<le> MAX_CLAIMS \<and> (\<forall>(k, v) \<in> set (claims_or_none c). claim_value v \<and> attest_name k) then Some c else None)"
proof (cases c)
  case (Some m)
  have e: "map read_claim m = map (\<lambda>x. if claim_value (snd x) \<and> attest_name (fst x) then Some x else None) m"
    by (simp add: read_claim_def)
  have "all_some (map read_claim m) = (if \<forall>x \<in> set m. claim_value (snd x) \<and> attest_name (fst x) then Some m else None)"
    unfolding e by (rule all_some_if)
  then show ?thesis using Some by (simp add: read_claims_def object_member_def claims_or_none_def case_prod_beta)
qed (simp add: read_claims_def claims_or_none_def)

lemma statement_members:
  "jmember (statement_json s) ''version'' = Some (JStr (at_version s))" "jmember (statement_json s) ''id'' = Some (JStr (at_id s))"
  "jmember (statement_json s) ''subject'' = Some (JObj [(js ''agent'', JStr (at_agent s)), (js ''publicKey'', JStr (at_publicKey s))])"
  "jmember (statement_json s) ''measurements'' = Some (digests_json (at_measurements s))"
  "jmember (statement_json s) ''claims'' = map_option JObj (at_claims s)"
  "jmember (statement_json s) ''attester'' = Some (JStr (at_attester s))" "jmember (statement_json s) ''issuedAt'' = Some (num (at_issuedAt s))"
  "jmember (statement_json s) ''expiresAt'' = Some (num (at_expiresAt s))" "jmember (statement_json s) ''keyId'' = Some (JStr (at_keyId s))"
  "jmember (statement_json s) ''signature'' = Some (JStr (at_signature s))"
  by (cases "at_claims s"; simp add: statement_json_def)+

lemma isStatement_iff:
  "isStatement v = Some s \<longleftrightarrow>
    (\<exists>subj ms. jmember v ''subject'' = Some subj \<and> jmember v ''measurements'' = Some ms \<and> text_member subj ''agent'' = Some (at_agent s)
      \<and> text_member subj ''publicKey'' = Some (at_publicKey s) \<and> object_member read_measurement MAX_MEASUREMENTS ms = Some (at_measurements s))
    \<and> text_member v ''version'' = Some (at_version s) \<and> text_member v ''id'' = Some (at_id s) \<and> read_claims (jmember v ''claims'') = Some (at_claims s)
    \<and> text_member v ''attester'' = Some (at_attester s) \<and> time_member v ''issuedAt'' = Some (at_issuedAt s)
    \<and> time_member v ''expiresAt'' = Some (at_expiresAt s) \<and> text_member v ''keyId'' = Some (at_keyId s) \<and> text_member v ''signature'' = Some (at_signature s)"
  by (cases s) (auto simp: isStatement_def split: option.splits)

lemma subject_text:
  "text_member (JObj [(js ''agent'', JStr a), (js ''publicKey'', JStr p)]) ''agent'' = (if a = [] then None else Some a)"
  "text_member (JObj [(js ''agent'', JStr a), (js ''publicKey'', JStr p)]) ''publicKey'' = (if p = [] then None else Some p)"
  by (rule text_member_JStr, simp)+

lemmas statement_texts = statement_members(1,2,6,9,10) [THEN text_member_JStr] statement_members(7,8) [THEN time_member_num]

lemma read_back_iff: "isStatement (statement_json s) = Some s' \<longleftrightarrow> attest_wf s \<and> s' = s"
  by (cases s') (auto simp: isStatement_iff statement_texts statement_members(3,4,5) read_digests read_claims_back subject_text attest_wf_def split: if_splits)

text \<open>A printed statement is read back as it was exactly when it is well formed; every statement that is read is.\<close>

theorem statement_reads_back: "isStatement (statement_json s) = (if attest_wf s then Some s else None)"
  using read_back_iff [of s] by (cases "isStatement (statement_json s)") auto

lemma issued_statement:
  assumes "issueAttestation C o' now rnd8 = Some s"
  shows "\<exists>l. 0 < l \<and> l \<le> MAX_ATTESTATION_LIFETIME_MS \<and> at_expiresAt s = now + l \<and> at_issuedAt s = now \<and> at_version s = ATTESTATION_VERSION
    \<and> at_agent s = ao_agent o' \<and> at_publicKey s = ao_publicKey o' \<and> at_attester s = ao_attester o' \<and> at_measurements s = ao_measurements o'
    \<and> at_claims s = ao_claims o' \<and> at_id s \<noteq> [] \<and> [] \<notin> {ao_attester o', ao_agent o', ao_publicKey o'}
    \<and> length (at_measurements s) \<le> MAX_MEASUREMENTS \<and> (\<forall>(k, d) \<in> set (at_measurements s). is_digest d \<and> attest_name k)
    \<and> length (claims_or_none (at_claims s)) \<le> MAX_CLAIMS \<and> (\<forall>(k, c) \<in> set (claims_or_none (at_claims s)). attest_name k)
    \<and> sign_canonical C (canonAttestation s) (ao_privateKey o') = Some (at_signature s)"
proof -
  define s0 where "s0 l = \<lparr>at_version = ATTESTATION_VERSION, at_id = js ''att-'' @ show_int now @ js ''-'' @ randomHex rnd8,
     at_agent = ao_agent o', at_publicKey = ao_publicKey o', at_measurements = ao_measurements o', at_claims = ao_claims o',
     at_attester = ao_attester o', at_issuedAt = now, at_expiresAt = now + l,
     at_keyId = (case ao_keyId o' of None \<Rightarrow> ao_attester o' @ js ''-key'' | Some k \<Rightarrow> k), at_signature = []\<rparr>" for l
  obtain l sg where l: "lifetime_ok (case ao_lifetimeMs o' of None \<Rightarrow> Fin DEFAULT_ATTESTATION_LIFETIME_MS | Some l \<Rightarrow> l) MAX_ATTESTATION_LIFETIME_MS = Some l"
    and n: "[] \<notin> {ao_attester o', ao_agent o', ao_publicKey o'}"
    and m: "length (ao_measurements o') \<le> MAX_MEASUREMENTS" "list_all (\<lambda>(k, v). attest_name k \<and> is_digest v) (ao_measurements o')"
    and c: "length (claims_or_none (ao_claims o')) \<le> MAX_CLAIMS"
      "list_all (\<lambda>(k, v). attest_name k \<and> (case v of JNum n \<Rightarrow> is_finite n | _ \<Rightarrow> True)) (claims_or_none (ao_claims o'))"
    and sg: "sign_canonical C (canonAttestation (s0 l)) (ao_privateKey o') = Some sg" "s = (s0 l)\<lparr>at_signature := sg\<rparr>"
    using assms unfolding issueAttestation_def s0_def Let_def msize_def by (auto split: option.split_asm if_split_asm)
  have w: "0 < l \<and> l \<le> MAX_ATTESTATION_LIFETIME_MS" using l by (simp add: lifetime_ok_def split: jnum.splits if_splits)
  have e: "canonAttestation s = canonAttestation (s0 l)" by (simp add: sg(2) canonAttestation_def attest_body_def)
  have f: "\<forall>(k, d) \<in> set (ao_measurements o'). is_digest d \<and> attest_name k" "\<forall>(k, c) \<in> set (claims_or_none (ao_claims o')). attest_name k"
    using m(2) c(2) by (auto simp: list_all_iff)
  have i: "at_id s \<noteq> []" by (simp add: sg(2) s0_def ascii_eval)
  show ?thesis
    using w n m(1) c(1) f i sg(1) by (intro exI [of _ l]) (simp add: e, simp add: sg(2) s0_def)
qed

lemma issued_accepted:
  assumes "issueAttestation C io t0 rnd8 = Some s" "ed_pair C (ao_privateKey io) pub" "pub \<noteq> []" "config_ok o'"
    "ao_attester io \<in> set (av_allowedAttesters o')" "av_attesterKeys o' (ao_attester io) = Some (Some pub)" "revoked_check o' s = Some False"
    "measurement_checks s (av_requiredMeasurements o') = None" "claim_checks s (av_requiredClaims o') = None"
    "t0 \<le> now" "now < at_expiresAt s" "av_maxAgeMs o' = None" "av_clockSkewMs o' = None" "time_ok t0" "time_ok (at_expiresAt s)"
    "at_keyId s \<noteq> []" "at_signature s \<noteq> []" "\<forall>(k, c) \<in> set (claims_or_none (ao_claims io)). claim_value c"
  shows "verifyAttestation C (statement_json s) o' (ao_agent io) (ao_publicKey io) now = Some (Inr s)"
proof -
  obtain l where i: "0 < l" "l \<le> MAX_ATTESTATION_LIFETIME_MS" "at_expiresAt s = t0 + l" "at_issuedAt s = t0" "at_version s = ATTESTATION_VERSION"
    "at_agent s = ao_agent io" "at_publicKey s = ao_publicKey io" "at_attester s = ao_attester io" "at_measurements s = ao_measurements io"
    "at_claims s = ao_claims io" "at_id s \<noteq> []" "[] \<notin> {ao_attester io, ao_agent io, ao_publicKey io}"
    "length (at_measurements s) \<le> MAX_MEASUREMENTS" "\<forall>(k, d) \<in> set (at_measurements s). is_digest d \<and> attest_name k"
    "length (claims_or_none (at_claims s)) \<le> MAX_CLAIMS" "\<forall>(k, c) \<in> set (claims_or_none (at_claims s)). attest_name k"
    "sign_canonical C (canonAttestation s) (ao_privateKey io) = Some (at_signature s)"
    using issued_statement [OF assms(1)] by blast
  have "attest_wf s"
    unfolding attest_wf_def using i(4-8,11-16) assms(14-18) by (auto simp: ATTESTATION_VERSION_def ascii_eval i(10))
  moreover have "attest_vouched C o' s"
    unfolding attest_vouched_def using i(5,8) assms(3,5,6,7) verify_canonical_sign [OF assms(2) i(17)] by simp
  moreover have "window_check o' now s = None"
    using i(1-4) assms(10-13) by (simp add: window_check_def MAX_CLOCK_SKEW_MS_def)
  ultimately show ?thesis
    using i(6,7) assms(4,8,9) read_back_iff [of s s] by (simp add: verify_attestation_iff statement_checks_iff)
qed

text \<open>What an attester issues is accepted, until it expires, by a verifier that trusts the attester's key and approves the measurements, provided the times are safe integers and the key id, the signature and the claims have the shape a reader demands.\<close>

theorem attestation_round_trip:
  assumes "issueAttestation C io t0 rnd8 = Some s" "ed_pair C (ao_privateKey io) pub" "pub \<noteq> []" "config_ok o'"
    "ao_attester io \<in> set (av_allowedAttesters o')" "av_attesterKeys o' (ao_attester io) = Some (Some pub)" "revoked_check o' s = Some False"
    "measurement_checks s (av_requiredMeasurements o') = None" "claim_checks s (av_requiredClaims o') = None"
    "t0 \<le> now" "now < at_expiresAt s" "av_maxAgeMs o' = None" "av_clockSkewMs o' = None" "time_ok t0" "time_ok (at_expiresAt s)"
    "at_keyId s \<noteq> []" "at_signature s \<noteq> []" "\<forall>(k, c) \<in> set (claims_or_none (ao_claims io)). claim_value c"
  shows "verifyAttestation C (statement_json s) o' (ao_agent io) (ao_publicKey io) now = Some (Inr s)"
  using assms by (rule issued_accepted)

section \<open>The attested registry\<close>

text \<open>What stands behind an entry of the cache.\<close>

definition justified :: "crypto \<Rightarrow> attest_verify \<Rightarrow> int \<Rightarrow> fetch_event list \<Rightarrow> jstr \<times> jstr \<times> int \<Rightarrow> bool" where
  "justified C o' cms es entry \<longleftrightarrow>
    (\<exists>e \<in> set es. \<exists>v s. fe_sender e = fst entry \<and> fe_key e = fst (snd entry) \<and> fe_fetched e = Some v
      \<and> verifyAttestation C v o' (fe_sender e) (fe_key e) (fe_time e) = Some (Inr s)
      \<and> snd (snd entry) = min (fe_time e + cms) (at_expiresAt s))"

lemma justified_mono: "justified C o' cms es x \<Longrightarrow> set es \<subseteq> set es' \<Longrightarrow> justified C o' cms es' x"
  unfolding justified_def by blast

lemma after_fetch_config: "ar_verify (fst (after_fetch C r sndr key t f)) = ar_verify r" "ar_cacheMs (fst (after_fetch C r sndr key t f)) = ar_cacheMs r"
  "ar_maxEntries (fst (after_fetch C r sndr key t f)) = ar_maxEntries r"
  by (auto simp: after_fetch_def split: option.splits sum.splits)

lemma evict_first_subset: "set (evict_first r) \<subseteq> set (ar_cache r)"
  by (cases "ar_cache r") (auto simp: evict_first_def)

lemma after_fetch_cache:
  assumes "x \<in> set (ar_cache (fst (after_fetch C r (fe_sender e) (fe_key e) (fe_time e) (fe_fetched e))))"
  shows "x \<in> set (ar_cache r) \<or> justified C (ar_verify r) (ar_cacheMs r) [e] x"
proof -
  let ?r = "case fe_fetched e of None \<Rightarrow> None | Some v \<Rightarrow> verifyAttestation C v (ar_verify r) (fe_sender e) (fe_key e) (fe_time e)"
  consider s where "?r = Some (Inr s)" | "\<And>s. ?r \<noteq> Some (Inr s)" by blast
  then show ?thesis
  proof cases
    case 1
    then obtain v where v: "fe_fetched e = Some v" "verifyAttestation C v (ar_verify r) (fe_sender e) (fe_key e) (fe_time e) = Some (Inr s)"
      by (cases "fe_fetched e") auto
    have "x \<in> set (mset_key (evict_first r) (fe_sender e) (fe_key e, min (fe_time e + ar_cacheMs r) (at_expiresAt s)))"
      using assms v by (simp add: after_fetch_def)
    then have "x = (fe_sender e, fe_key e, min (fe_time e + ar_cacheMs r) (at_expiresAt s)) \<or> x \<in> set (ar_cache r)"
      using set_mset_key evict_first_subset by fastforce
    with v show ?thesis by (auto simp: justified_def)
  next
    case 2
    then have "x \<in> set (mdelete (ar_cache r) (fe_sender e))"
      using assms by (auto simp: after_fetch_def split: option.splits sum.splits)
    then show ?thesis by (simp add: mdelete_def)
  qed
qed

lemma attested_run_config: "ar_verify (attested_run C r es) = ar_verify r \<and> ar_cacheMs (attested_run C r es) = ar_cacheMs r"
  by (induction C r es rule: attested_run.induct) (simp_all add: after_fetch_config)

lemma attested_run_cache:
  "x \<in> set (ar_cache (attested_run C r es)) \<Longrightarrow> x \<in> set (ar_cache r) \<or> justified C (ar_verify r) (ar_cacheMs r) es x"
proof (induction es arbitrary: r)
  case (Cons e es)
  let ?r = "fst (after_fetch C r (fe_sender e) (fe_key e) (fe_time e) (fe_fetched e))"
  from Cons.prems have "x \<in> set (ar_cache (attested_run C ?r es))" by simp
  from Cons.IH [OF this] have "x \<in> set (ar_cache ?r) \<or> justified C (ar_verify r) (ar_cacheMs r) es x" by (simp add: after_fetch_config)
  then show ?case
    using after_fetch_cache [of x C r e] justified_mono [of C "ar_verify r" "ar_cacheMs r" "[e]" x "e # es"]
      justified_mono [of C "ar_verify r" "ar_cacheMs r" es x "e # es"] by auto
qed simp

text \<open>C27 Whatever lookups finished before, and in whatever order, a key the attested registry answers is the key of the base registry, and a statement binding this agent and this key passed every check at this moment, or at an earlier one less than the caching time ago, and has not expired.\<close>

theorem attested_key_justified:
  assumes "snd (attested_public C base getAttestation (attested_run C (createAttestedKeyRegistry o' cms mx) es) sndr t) = Some (Some key)"
  shows "base sndr = Some (Some key) \<and> key \<noteq> [] \<and>
    ((\<exists>v s. getAttestation sndr = Some v \<and> verifyAttestation C v o' sndr key t = Some (Inr s)) \<or>
     (\<exists>e \<in> set es. \<exists>v s. fe_sender e = sndr \<and> fe_key e = key \<and> fe_fetched e = Some v
        \<and> verifyAttestation C v o' sndr key (fe_time e) = Some (Inr s)
        \<and> t < fe_time e + (case cms of None \<Rightarrow> 30000 | Some n \<Rightarrow> n) \<and> t < at_expiresAt s))"
proof -
  let ?init = "createAttestedKeyRegistry o' cms mx" and ?c = "case cms of None \<Rightarrow> 30000 | Some n \<Rightarrow> n"
  let ?r = "attested_run C ?init es"
  have c0: "ar_verify ?init = o'" "ar_cacheMs ?init = ?c" "ar_cache ?init = []" by (simp_all add: createAttestedKeyRegistry_def)
  have cfg: "ar_verify ?r = o'" "ar_cacheMs ?r = ?c" using attested_run_config [of C ?init es] c0 by simp_all
  obtain k where b: "base sndr = Some (Some k)" "k \<noteq> []"
    using assms by (auto simp: attested_public_def split: option.splits if_splits)
  show ?thesis
  proof (cases "cache_hit ?r sndr k t")
    case True
    then obtain u where u: "mget (ar_cache ?r) sndr = Some (k, u)" "t < u" by (auto simp: cache_hit_def split: option.splits)
    have k: "k = key" using assms b True by (simp add: attested_public_def)
    from attested_run_cache [OF mget_Some_in_set [OF u(1)]] have "justified C o' ?c es (sndr, k, u)" by (simp add: c0)
    with u(2) k b show ?thesis unfolding justified_def by fastforce
  next
    case False
    then have a: "snd (after_fetch C ?r sndr k t (getAttestation sndr)) = Some key"
      using assms b by (simp add: attested_public_def)
    then obtain v s where "getAttestation sndr = Some v" "verifyAttestation C v o' sndr k t = Some (Inr s)" "k = key"
      by (auto simp: after_fetch_def cfg split: option.splits sum.splits)
    with b show ?thesis by blast
  qed
qed

lemma length_mset_key: "length (mset_key m k v) \<le> Suc (length m)"
  by (induction m k v rule: mset_key.induct) auto

text \<open>Senders are chosen by attackers; the cache never grows over its bound.\<close>

theorem attested_cache_bounded:
  assumes "0 < mx"
  shows "int (length (ar_cache (attested_run C (createAttestedKeyRegistry o' cms (Some mx)) es))) \<le> mx"
proof -
  have step: "int (length (ar_cache (fst (after_fetch C r sndr key t f)))) \<le> mx" if "int (length (ar_cache r)) \<le> mx" "ar_maxEntries r = mx" for r sndr key t f
  proof -
    have "int (length (evict_first r)) < mx" using that assms by (auto simp: evict_first_def msize_def)
    then have "int (length (mset_key (evict_first r) sndr x)) \<le> mx" for x using length_mset_key [of "evict_first r" sndr x] by linarith
    moreover have "int (length (mdelete (ar_cache r) sndr)) \<le> mx" using that(1) length_filter_le [of _ "ar_cache r"] unfolding mdelete_def
      by (meson dual_order.trans of_nat_mono)
    ultimately show ?thesis by (auto simp: after_fetch_def split: option.splits sum.splits)
  qed
  have "int (length (ar_cache (attested_run C r es))) \<le> mx" if "int (length (ar_cache r)) \<le> mx" "ar_maxEntries r = mx" for r
    using that by (induction es arbitrary: r) (simp_all add: step after_fetch_config)
  then show ?thesis using assms by (simp add: createAttestedKeyRegistry_def)
qed

text \<open>A registry made without attesters or measurements to check does not throw: it has no key for anyone.\<close>

theorem empty_config_locks_out:
  "\<not> config_ok o' \<Longrightarrow> snd (attested_public C base getAttestation (createAttestedKeyRegistry o' cms mx) sndr t) \<noteq> Some (Some key)"
  by (auto simp: attested_public_def cache_hit_def after_fetch_def createAttestedKeyRegistry_def verifyAttestation_def split: option.splits sum.splits)

section \<open>A concrete statement\<close>

definition demo_measure :: jstr where
  "demo_measure = replicate 64 97"

definition demo_attest_opts :: attest_opts where
  "demo_attest_opts = \<lparr>ao_privateKey = js ''k'', ao_attester = js ''ci'', ao_agent = js ''a'', ao_publicKey = js ''p'',
    ao_measurements = [(js ''image'', demo_measure)], ao_claims = None, ao_lifetimeMs = None, ao_keyId = None\<rparr>"

definition demo_attest_verify :: attest_verify where
  "demo_attest_verify = \<lparr>av_attesterKeys = (\<lambda>a. if a = js ''ci'' then Some (Some (js ''q'')) else Some None), av_allowedAttesters = [js ''ci''],
    av_requiredMeasurements = [(js ''image'', [demo_measure])], av_requiredClaims = [], av_maxAgeMs = None, av_isRevoked = None, av_clockSkewMs = None\<rparr>"

lemma demo_issue: "\<exists>s. issueAttestation demo_crypto demo_attest_opts 1000 [1] = Some s \<and> at_signature s \<noteq> [] \<and> at_keyId s \<noteq> [] \<and> at_expiresAt s = 3601000"
proof -
  have t: "\<exists>x. canonAttestation s = Some (123 # x)" if "at_claims s = None" for s
  proof -
    have "json_finite (attest_body s)" using that by (auto simp: attest_body_def digests_json_def null_or_def)
    then show ?thesis using stableStringify_throws [of "attest_body s"] by (auto simp: canonAttestation_def attest_body_def)
  qed
  have sg: "\<exists>y. sign_canonical demo_crypto (Some (123 # x)) k = Some y \<and> y \<noteq> []" for x k
  proof -
    have "code_points (123 # x) \<noteq> []" by (cases x) (simp_all add: is_high_def)
    then have "utf8Encode (123 # x) \<noteq> []" using utf8_points_utf8Encode [of "123 # x"] by auto
    moreover have "fromBase64Url [] = []" using base64url_roundtrip [of "[]"] by (simp add: toBase64Url_def replace_char_def)
    ultimately have "toBase64Url (utf8Encode (123 # x)) \<noteq> []" using base64url_roundtrip [of "utf8Encode (123 # x)"] by auto
    then show ?thesis by (simp add: sign_canonical_def signCanonicalPayloadEd25519_def import_ed_priv_def demo_crypto_def ed_tag_def)
  qed
  have d: "list_all lower_hex demo_measure" "length demo_measure = 64" by (simp_all add: demo_measure_def list_all_iff lower_hex_def)
  then have m: "is_digest demo_measure" by (simp add: is_digest_def)
  have n: "attest_name (js ''image'')" by (simp add: attest_name_def ascii_eval is_letter_def)
  define s0 where "s0 = \<lparr>at_version = ATTESTATION_VERSION, at_id = js ''att-'' @ show_int 1000 @ js ''-'' @ randomHex [1],
     at_agent = js ''a'', at_publicKey = js ''p'', at_measurements = [(js ''image'', demo_measure)], at_claims = None,
     at_attester = js ''ci'', at_issuedAt = 1000, at_expiresAt = 1000 + 3600000, at_keyId = js ''ci'' @ js ''-key'', at_signature = []\<rparr>"
  have "at_claims s0 = None" by (simp add: s0_def)
  from t [OF this] obtain x where x: "canonAttestation s0 = Some (123 # x)" by blast
  obtain y where y: "sign_canonical demo_crypto (canonAttestation s0) (js ''k'') = Some y" "y \<noteq> []" using sg [of x "js ''k''"] x by auto
  have ne: "js ''ci'' \<noteq> []" "js ''a'' \<noteq> []" "js ''p'' \<noteq> []" by (simp_all add: ascii_eval)
  have "issueAttestation demo_crypto demo_attest_opts 1000 [1] = map_option (\<lambda>sg. s0\<lparr>at_signature := sg\<rparr>) (sign_canonical demo_crypto (canonAttestation s0) (js ''k''))"
    using m n ne by (simp add: issueAttestation_def demo_attest_opts_def lifetime_ok_def DEFAULT_ATTESTATION_LIFETIME_MS_def MAX_ATTESTATION_LIFETIME_MS_def
      msize_def MAX_MEASUREMENTS_def claims_or_none_def s0_def Let_def)
  with y show ?thesis by (auto simp: s0_def ascii_eval)
qed

lemma demo_attest_checks:
  assumes "issueAttestation demo_crypto demo_attest_opts 1000 [1] = Some s"
  shows "config_ok demo_attest_verify" "revoked_check demo_attest_verify s = Some False"
    "measurement_checks s (av_requiredMeasurements demo_attest_verify) = None" "claim_checks s (av_requiredClaims demo_attest_verify) = None"
    "av_maxAgeMs demo_attest_verify = None" "av_clockSkewMs demo_attest_verify = None" "claims_or_none (ao_claims demo_attest_opts) = []"
    "ao_attester demo_attest_opts \<in> set (av_allowedAttesters demo_attest_verify)"
    "av_attesterKeys demo_attest_verify (ao_attester demo_attest_opts) = Some (Some (js ''q''))"
  using issued_statement [OF assms]
  by (auto simp: demo_attest_verify_def demo_attest_opts_def config_ok_def revoked_check_def claims_or_none_def measurement_checks_None)

theorem attestation_round_trip_witness:
  "\<exists>s. verifyAttestation demo_crypto (statement_json s) demo_attest_verify (ao_agent demo_attest_opts) (ao_publicKey demo_attest_opts) 2000 = Some (Inr s)"
proof -
  obtain s where s: "issueAttestation demo_crypto demo_attest_opts 1000 [1] = Some s" "at_signature s \<noteq> []" "at_keyId s \<noteq> []" "at_expiresAt s = 3601000"
    using demo_issue by blast
  note c = demo_attest_checks [OF s(1)]
  have "verifyAttestation demo_crypto (statement_json s) demo_attest_verify (ao_agent demo_attest_opts) (ao_publicKey demo_attest_opts) 2000 = Some (Inr s)"
    by (rule attestation_round_trip [OF s(1) demo_pair _ c(1,8,9,2,3,4)])
      (use s(2-4) c(5-7) in \<open>simp_all add: time_ok_def isSafeInteger_def max_safe_def ascii_eval\<close>)
  then show ?thesis by blast
qed

lemma attest_demo_accepted:
  "\<exists>s. verifyAttestation demo_crypto (statement_json s) demo_attest_verify (js ''a'') (js ''p'') 2000 = Some (Inr s)"
proof -
  obtain s where s: "issueAttestation demo_crypto demo_attest_opts 1000 [1] = Some s" "at_signature s \<noteq> []" "at_keyId s \<noteq> []" "at_expiresAt s = 3601000"
    using demo_issue by blast
  note c = demo_attest_checks [OF s(1)]
  have "verifyAttestation demo_crypto (statement_json s) demo_attest_verify (ao_agent demo_attest_opts) (ao_publicKey demo_attest_opts) 2000 = Some (Inr s)"
    by (rule issued_accepted [OF s(1) demo_pair _ c(1,8,9,2,3,4)])
      (use s(2-4) c(5-7) in \<open>simp_all add: time_ok_def isSafeInteger_def max_safe_def ascii_eval\<close>)
  then show ?thesis by (auto simp: demo_attest_opts_def)
qed

theorem attested_key_justified_witness:
  "\<exists>v s. verifyAttestation demo_crypto v demo_attest_verify (js ''a'') (js ''p'') 2000 = Some (Inr s) \<and>
    snd (attested_public demo_crypto (\<lambda>_. Some (Some (js ''p''))) (\<lambda>_. Some v)
      (attested_run demo_crypto (createAttestedKeyRegistry demo_attest_verify None None) []) (js ''a'') 2000) = Some (Some (js ''p''))"
proof -
  obtain s where s: "verifyAttestation demo_crypto (statement_json s) demo_attest_verify (js ''a'') (js ''p'') 2000 = Some (Inr s)"
    using attest_demo_accepted by blast
  have a: "snd (attested_public demo_crypto (\<lambda>_. Some (Some (js ''p''))) (\<lambda>_. Some (statement_json s))
      (attested_run demo_crypto (createAttestedKeyRegistry demo_attest_verify None None) []) (js ''a'') 2000) = Some (Some (js ''p''))"
    using s by (simp add: attested_public_def cache_hit_def createAttestedKeyRegistry_def after_fetch_def ascii_eval)
  from attested_key_justified [OF a] a show ?thesis by auto
qed

theorem attestation_accepts_sound_witness:
  "\<exists>v s. verifyAttestation demo_crypto v demo_attest_verify (js ''a'') (js ''p'') 2000 = Some (Inr s) \<and> attest_vouched demo_crypto demo_attest_verify s"
proof -
  obtain s where s: "verifyAttestation demo_crypto (statement_json s) demo_attest_verify (js ''a'') (js ''p'') 2000 = Some (Inr s)"
    using attest_demo_accepted by blast
  from attestation_accepts_sound [OF s] s show ?thesis by blast
qed

end
