(* ===== verification/KeyDiscovery.thy ===== *)
theory KeyDiscovery
  imports HttpSignature KeyRegistry
begin

text \<open>
  \<open>src/keyInfra.ts\<close>, first part: the key documents of domains and the registry that fetches
  them. The sender of a message that is not verified yet decides which host is asked. Fetching,
  \<open>JSON.parse\<close> and the reading of a text as a number are parameters; a fetch that fails or is
  cut off by the time limit, and a parse that fails, is \<open>None\<close>. Documents are JSON values as
  they were received.
\<close>

section \<open>Key documents\<close>

record key_entry =
  ke_id :: jstr
  ke_publicKey :: jstr
  ke_created :: int
  ke_expires :: "int option"
  ke_revokedAt :: "int option"

definition key_entry_json :: "key_entry \<Rightarrow> json" where
  "key_entry_json k = JObj
    ([(js ''id'', JStr (ke_id k)), (js ''algorithm'', JStr (js ''Ed25519'')), (js ''publicKey'', JStr (ke_publicKey k)), (js ''created'', JNum (Fin (ke_created k)))]
     @ (case ke_expires k of None \<Rightarrow> [] | Some e \<Rightarrow> [(js ''expires'', JNum (Fin e))])
     @ (case ke_revokedAt k of None \<Rightarrow> [] | Some e \<Rightarrow> [(js ''revoked'', JBool True), (js ''revokedAt'', JNum (Fin e))]))"

definition well_known_json :: "int \<Rightarrow> key_entry list \<Rightarrow> json" where
  "well_known_json updated ks = JObj
    [(js ''version'', JStr (js ''7h3/0.1'')), (js ''updated'', JNum (Fin updated)), (js ''keys'', JArr (map key_entry_json ks))]"

definition serveWellKnownKeys :: "json \<Rightarrow> jstr" where
  "serveWellKnownKeys doc = print_json doc"

definition parseWellKnownKeys :: "(jstr \<Rightarrow> json option) \<Rightarrow> jstr \<Rightarrow> json option" where
  "parseWellKnownKeys parse t =
    (case parse t of
       None \<Rightarrow> None
     | Some d \<Rightarrow> if jmember d ''version'' = Some (JStr (js ''7h3/0.1'')) then Some d else None)"

definition MAX_KEY_DOCUMENT_CHARS :: nat where
  "MAX_KEY_DOCUMENT_CHARS = 256 * 1024"

text \<open>A fetch gives whether the status was in the good range, and the text.\<close>

type_synonym fetcher = "jstr \<Rightarrow> (bool \<times> jstr) option"

definition well_known_url :: "jstr \<Rightarrow> jstr" where
  "well_known_url baseUrl = (if baseUrl \<noteq> [] \<and> last baseUrl = 47 then butlast baseUrl else baseUrl) @ js ''/.well-known/7h3-keys''"

definition fetchWellKnownKeys :: "fetcher \<Rightarrow> (jstr \<Rightarrow> json option) \<Rightarrow> jstr \<Rightarrow> json option" where
  "fetchWellKnownKeys fetch parse baseUrl =
    (case fetch (well_known_url baseUrl) of
       None \<Rightarrow> None
     | Some (good, t) \<Rightarrow> if \<not> good then None else if MAX_KEY_DOCUMENT_CHARS < length t then None else parseWellKnownKeys parse t)"

section \<open>Which hosts are asked\<close>

definition digit_unit :: "code_unit \<Rightarrow> bool" where
  "digit_unit c \<longleftrightarrow> 48 \<le> c \<and> c \<le> 57"

definition lower_alnum :: "code_unit \<Rightarrow> bool" where
  "lower_alnum c \<longleftrightarrow> 97 \<le> c \<and> c \<le> 122 \<or> digit_unit c"

text \<open>\<open>[a-z0-9]([a-z0-9-]{0,61}[a-z0-9])?\<close>\<close>

definition host_label :: "jstr \<Rightarrow> bool" where
  "host_label l \<longleftrightarrow> l \<noteq> [] \<and> length l \<le> 63 \<and> lower_alnum (hd l) \<and> lower_alnum (last l) \<and> list_all (\<lambda>c. lower_alnum c \<or> c = 45) l"

definition internal_tlds :: "jstr list" where
  "internal_tlds = map js [''localhost'', ''local'', ''internal'', ''lan'', ''home'']"

definition isFetchableKeyHost :: "jstr \<Rightarrow> bool" where
  "isFetchableKeyHost host =
    (if host = [] \<or> 253 < length host then False
     else let labels = split_on 46 host in
       if length labels < 2 \<or> \<not> list_all host_label labels then False
       else if list_all (list_all digit_unit) labels then False
       else \<not> (list_all digit_unit (last labels) \<or> last labels \<in> set internal_tlds \<or> endsWith host (js ''.home.arpa'')))"

section \<open>The registry\<close>

type_synonym document_cache = "(jstr, json \<times> int) jsmap"

record http_registry =
  hr_cacheMs :: int
  hr_maxCache :: int
  hr_allowed :: "jstr list option"
  hr_cache :: document_cache

definition createHttpKeyRegistry :: "int option \<Rightarrow> jstr list option \<Rightarrow> int option \<Rightarrow> http_registry" where
  "createHttpKeyRegistry cms allowedDomains mx =
    \<lparr>hr_cacheMs = (case cms of None \<Rightarrow> 60000 | Some n \<Rightarrow> n), hr_maxCache = (case mx of None \<Rightarrow> 1000 | Some n \<Rightarrow> n),
     hr_allowed = map_option (map toLowerCase) allowedDomains, hr_cache = []\<rparr>"

definition cached_document :: "http_registry \<Rightarrow> jstr \<Rightarrow> int \<Rightarrow> json option" where
  "cached_document r baseUrl now = (case mget (hr_cache r) baseUrl of None \<Rightarrow> None | Some (doc, till) \<Rightarrow> if now < till then Some doc else None)"

text \<open>What happens when the fetch that began at \<open>now\<close> is over.\<close>

definition store_document :: "http_registry \<Rightarrow> jstr \<Rightarrow> int \<Rightarrow> json \<Rightarrow> http_registry" where
  "store_document r baseUrl now doc =
    r\<lparr>hr_cache := mset_key (if hr_maxCache r \<le> int (msize (hr_cache r)) then tl (hr_cache r) else hr_cache r) baseUrl (doc, now + hr_cacheMs r)\<rparr>"

definition getDoc :: "fetcher \<Rightarrow> (jstr \<Rightarrow> json option) \<Rightarrow> http_registry \<Rightarrow> jstr \<Rightarrow> int \<Rightarrow> http_registry \<times> json option" where
  "getDoc fetch parse r baseUrl now =
    (case cached_document r baseUrl now of
       Some doc \<Rightarrow> (r, Some doc)
     | None \<Rightarrow>
         (case fetchWellKnownKeys fetch parse baseUrl of
            None \<Rightarrow> (r, None)
          | Some doc \<Rightarrow> (store_document r baseUrl now doc, Some doc)))"

text \<open>A comparison with a number converts the other side; \<open>conv\<close> reads a text.\<close>

definition json_number :: "(jstr \<Rightarrow> jnum) \<Rightarrow> json \<Rightarrow> jnum" where
  "json_number conv v = (case v of JNull \<Rightarrow> Fin 0 | JBool b \<Rightarrow> Fin (if b then 1 else 0) | JNum n \<Rightarrow> n | v \<Rightarrow> conv (to_text v))"

definition entry_current :: "(jstr \<Rightarrow> jnum) \<Rightarrow> int \<Rightarrow> json \<Rightarrow> bool" where
  "entry_current conv now k \<longleftrightarrow> \<not> truthy_json (jmember k ''revoked'') \<and>
    (\<not> truthy_json (jmember k ''expires'') \<or> jnum_less (Fin now) (json_number conv (case jmember k ''expires'' of None \<Rightarrow> JNull | Some e \<Rightarrow> e)))"

definition local_part :: "jstr \<Rightarrow> jstr" where
  "local_part senderId = hd (split_on 64 senderId)"

definition entry_for :: "jstr \<Rightarrow> json \<Rightarrow> bool" where
  "entry_for senderId k \<longleftrightarrow> jmember k ''id'' = Some (JStr senderId) \<or> jmember k ''id'' = Some (JStr (local_part senderId))"

text \<open>The search stops with an exception at an entry that is null.\<close>

fun find_entry :: "(json \<Rightarrow> bool) \<Rightarrow> json list \<Rightarrow> json option option" where
  "find_entry P [] = Some None"
| "find_entry P (k # ks) = (if k = JNull then None else if P k then Some (Some k) else find_entry P ks)"

text \<open>An absent key and every exception give null.\<close>

definition document_key :: "(jstr \<Rightarrow> jnum) \<Rightarrow> json \<Rightarrow> jstr \<Rightarrow> int \<Rightarrow> json" where
  "document_key conv doc senderId now =
    (case jmember doc ''keys'' of
       Some (JArr ks) \<Rightarrow>
         (case find_entry (\<lambda>k. entry_for senderId k \<and> entry_current conv now k) ks of
            Some (Some k) \<Rightarrow> (case jmember k ''publicKey'' of None \<Rightarrow> JNull | Some p \<Rightarrow> p)
          | _ \<Rightarrow> JNull)
     | _ \<Rightarrow> JNull)"

definition domain_of :: "jstr \<Rightarrow> jstr" where
  "domain_of senderId =
    (if 64 \<in> set senderId then split_on 64 senderId ! 1
     else let ls = split_on 46 senderId in join_with [46] (drop (length ls - 2) ls))"

definition domain_asked :: "http_registry \<Rightarrow> jstr \<Rightarrow> bool" where
  "domain_asked r domain \<longleftrightarrow> domain \<noteq> [] \<and> isFetchableKeyHost domain \<and> (case hr_allowed r of None \<Rightarrow> True | Some ds \<Rightarrow> domain \<in> set ds)"

text \<open>\<open>t\<close> and \<open>t'\<close> are the two readings of the clock, before and after the document is there.\<close>

definition http_getPublicKey ::
  "fetcher \<Rightarrow> (jstr \<Rightarrow> json option) \<Rightarrow> (jstr \<Rightarrow> jnum) \<Rightarrow> http_registry \<Rightarrow> jstr \<Rightarrow> int \<Rightarrow> int \<Rightarrow> http_registry \<times> json" where
  "http_getPublicKey fetch parse conv r senderId t t' =
    (if \<not> domain_asked r (domain_of senderId) then (r, JNull)
     else (case getDoc fetch parse r (js ''https://'' @ domain_of senderId) t of
       (r', None) \<Rightarrow> (r', JNull)
     | (r', Some doc) \<Rightarrow> (r', document_key conv doc senderId t')))"

section \<open>Fetches that end in any order\<close>

record doc_event =
  de_base :: jstr
  de_time :: int
  de_doc :: json

fun http_run :: "http_registry \<Rightarrow> doc_event list \<Rightarrow> http_registry" where
  "http_run r [] = r"
| "http_run r (e # es) = http_run (store_document r (de_base e) (de_time e) (de_doc e)) es"

lemma http_run_config: "hr_cacheMs (http_run r es) = hr_cacheMs r \<and> hr_allowed (http_run r es) = hr_allowed r"
  by (induction r es rule: http_run.induct) (simp_all add: store_document_def)

definition from_event :: "int \<Rightarrow> doc_event list \<Rightarrow> jstr \<times> json \<times> int \<Rightarrow> bool" where
  "from_event cms es x \<longleftrightarrow> (\<exists>e \<in> set es. fst x = de_base e \<and> fst (snd x) = de_doc e \<and> snd (snd x) = de_time e + cms)"

lemma http_run_cache:
  "x \<in> set (hr_cache (http_run r es)) \<Longrightarrow> x \<in> set (hr_cache r) \<or> from_event (hr_cacheMs r) es x"
proof (induction es arbitrary: r)
  case (Cons e es)
  let ?r = "store_document r (de_base e) (de_time e) (de_doc e)"
  have c: "hr_cacheMs ?r = hr_cacheMs r" by (simp add: store_document_def)
  have s: "set (hr_cache ?r) \<subseteq> insert (de_base e, de_doc e, de_time e + hr_cacheMs r) (set (hr_cache r))"
    using set_mset_key [of "tl (hr_cache r)" "de_base e"] set_mset_key [of "hr_cache r" "de_base e"] list.set_sel(2) [of "hr_cache r"]
    by (cases "hr_cache r = []") (auto simp: store_document_def split: if_splits dest!: set_mset_key [THEN subsetD])
  from Cons.prems have "x \<in> set (hr_cache (http_run ?r es))" by simp
  from Cons.IH [OF this] s c show ?case by (auto simp: from_event_def)
qed simp

section \<open>Properties\<close>

text \<open>A host that is asked is a name of two labels or more, of lower-case letters, digits and hyphens: no port, credentials, path or brackets, not an address of numbers and none of the names that stand for internal hosts.\<close>

lemma labels_of_host: "isFetchableKeyHost h \<Longrightarrow> 2 \<le> length (split_on 46 h) \<and> (\<forall>l \<in> set (split_on 46 h). host_label l) \<and> length h \<le> 253"
  by (auto simp: isFetchableKeyHost_def Let_def list_all_iff split: if_splits)

lemma set_join_split: "set h \<subseteq> insert c (\<Union> (set ` set (split_on c h)))"
proof (induction h)
  case (Cons x h)
  then show ?case by (cases "split_on c h") auto
qed simp

lemma fetchable_units:
  assumes "isFetchableKeyHost h" "c \<in> set h"
  shows "lower_alnum c \<or> c = 45 \<or> c = 46"
proof -
  have "c = 46 \<or> (\<exists>l \<in> set (split_on 46 h). c \<in> set l)" using set_join_split [of h 46] assms(2) by blast
  then show ?thesis using labels_of_host [OF assms(1)] by (auto simp: host_label_def list_all_iff)
qed

theorem fetchable_host_public:
  assumes "isFetchableKeyHost h"
  shows "set h \<subseteq> {c. lower_alnum c \<or> c = 45 \<or> c = 46} \<and> set h \<inter> {37, 47, 58, 63, 64, 35, 91, 92, 93} = {} \<and> length h \<le> 253
    \<and> 2 \<le> length (split_on 46 h) \<and> last (split_on 46 h) \<notin> set internal_tlds \<and> \<not> list_all digit_unit (last (split_on 46 h))
    \<and> \<not> endsWith h (js ''.home.arpa'')"
proof -
  have "set h \<inter> {37, 47, 58, 63, 64, 35, 91, 92, 93} = {}"
  proof -
    have "\<forall>c \<in> {37, 47, 58, 63, 64, 35, 91, 92, 93}. \<not> (lower_alnum c \<or> c = 45 \<or> c = 46)" by (simp add: lower_alnum_def digit_unit_def)
    then show ?thesis using fetchable_units [OF assms] by blast
  qed
  moreover have "last (split_on 46 h) \<notin> set internal_tlds \<and> \<not> list_all digit_unit (last (split_on 46 h)) \<and> \<not> endsWith h (js ''.home.arpa'')"
    using assms by (auto simp: isFetchableKeyHost_def Let_def split: if_splits)
  ultimately show ?thesis using fetchable_units [OF assms] labels_of_host [OF assms] by auto
qed

lemma find_entry_found: "find_entry P ks = Some (Some k) \<Longrightarrow> k \<in> set ks \<and> P k"
  by (induction ks) (auto split: if_splits)

lemma document_key_found:
  assumes "document_key conv doc senderId now = key" "key \<noteq> JNull"
  shows "\<exists>ks k. jmember doc ''keys'' = Some (JArr ks) \<and> k \<in> set ks \<and> entry_for senderId k \<and> entry_current conv now k \<and> jmember k ''publicKey'' = Some key"
proof -
  obtain ks where ks: "jmember doc ''keys'' = Some (JArr ks)"
    using assms by (auto simp: document_key_def split: option.splits json.splits)
  obtain k where k: "find_entry (\<lambda>k. entry_for senderId k \<and> entry_current conv now k) ks = Some (Some k)" "jmember k ''publicKey'' = Some key"
    using assms ks by (auto simp: document_key_def split: option.splits)
  from find_entry_found [OF k(1)] ks k(2) show ?thesis by auto
qed

text \<open>Whatever documents were fetched before, a key the registry answers is published now, or was within the caching time, by the domain the sender id names, at a host that may be asked, in an entry with this id that is neither revoked nor expired.\<close>

theorem discovered_key_published:
  assumes "snd (http_getPublicKey fetch parse conv (http_run (createHttpKeyRegistry cms allowed mx) es) senderId t t') = key" "key \<noteq> JNull"
  shows "\<exists>doc ks k. isFetchableKeyHost (domain_of senderId) \<and> (\<forall>ds. allowed = Some ds \<longrightarrow> domain_of senderId \<in> toLowerCase ` set ds)
    \<and> (fetchWellKnownKeys fetch parse (js ''https://'' @ domain_of senderId) = Some doc \<or>
       (\<exists>e \<in> set es. de_base e = js ''https://'' @ domain_of senderId \<and> de_doc e = doc \<and> t < de_time e + (case cms of None \<Rightarrow> 60000 | Some n \<Rightarrow> n)))
    \<and> jmember doc ''keys'' = Some (JArr ks) \<and> k \<in> set ks \<and> entry_for senderId k \<and> entry_current conv t' k \<and> jmember k ''publicKey'' = Some key"
proof -
  let ?init = "createHttpKeyRegistry cms allowed mx" and ?c = "case cms of None \<Rightarrow> 60000 | Some n \<Rightarrow> n"
  let ?r = "http_run ?init es" and ?url = "js ''https://'' @ domain_of senderId"
  have c0: "hr_cacheMs ?init = ?c" "hr_allowed ?init = map_option (map toLowerCase) allowed" "hr_cache ?init = []"
    by (simp_all add: createHttpKeyRegistry_def)
  have cfg: "hr_cacheMs ?r = ?c" "hr_allowed ?r = map_option (map toLowerCase) allowed" using http_run_config [of ?init es] c0 by simp_all
  have asked: "domain_asked ?r (domain_of senderId)" using assms by (auto simp: http_getPublicKey_def split: if_splits)
  then obtain doc where d: "snd (getDoc fetch parse ?r ?url t) = Some doc" "document_key conv doc senderId t' = key"
    using assms by (auto simp: http_getPublicKey_def split: prod.splits option.splits)
  have src: "fetchWellKnownKeys fetch parse ?url = Some doc \<or> (\<exists>e \<in> set es. de_base e = ?url \<and> de_doc e = doc \<and> t < de_time e + ?c)"
  proof (cases "cached_document ?r ?url t")
    case None
    then show ?thesis using d(1) by (auto simp: getDoc_def split: option.splits)
  next
    case (Some doc')
    then obtain till where m: "mget (hr_cache ?r) ?url = Some (doc, till)" "t < till"
      using d(1) by (auto simp: getDoc_def cached_document_def split: option.splits if_splits)
    from http_run_cache [OF mget_Some_in_set [OF m(1)]] have "from_event ?c es (?url, doc, till)" by (simp add: c0)
    with m(2) show ?thesis unfolding from_event_def by fastforce
  qed
  have "isFetchableKeyHost (domain_of senderId) \<and> (\<forall>ds. allowed = Some ds \<longrightarrow> domain_of senderId \<in> toLowerCase ` set ds)"
    using asked cfg(2) by (auto simp: domain_asked_def)
  with src document_key_found [OF d(2) assms(2)] show ?thesis by blast
qed

text \<open>A sender id that is no plain host name under two labels is answered from the domain of its last two labels, which for a public suffix of two labels belongs to no sender.\<close>

theorem public_suffix_asked: "domain_of (js ''agent.example.co.uk'') = js ''co.uk'' \<and> isFetchableKeyHost (js ''co.uk'')"
  by (simp add: domain_of_def isFetchableKeyHost_def ascii_eval Let_def host_label_def lower_alnum_def digit_unit_def internal_tlds_def endsWith_def)

end
