(* ===== verification/KeyRotation.thy ===== *)
theory KeyRotation
  imports KeyDiscovery
begin

text \<open>
  \<open>src/keyRotation.ts\<close> (\<open>RollingKeyring\<close>) and the rest of \<open>src/keyInfra.ts\<close>: the key rotation
  manager, whose generation of a key is awaited, and the revocation registry with the registry
  it wraps. Times are integers, the clock and the generated keys arguments. A record that a
  method changes is changed in the list that holds it.
\<close>

section \<open>The rolling keyring\<close>

datatype key_status = KeyActive | KeyVerifyOnly | KeyRevoked

record key_record =
  kr_sender :: jstr
  kr_keyId :: jstr
  kr_alg :: sig_alg
  kr_status :: key_status
  kr_notBefore :: int
  kr_notAfter :: int
  kr_material :: verification_material

type_synonym keyring = "key_record list"

definition ring_add :: "keyring \<Rightarrow> key_record \<Rightarrow> keyring" where
  "ring_add ks k = ks @ [k]"

definition named :: "jstr \<Rightarrow> jstr \<Rightarrow> key_record \<Rightarrow> bool" where
  "named sndr kid k \<longleftrightarrow> kr_sender k = sndr \<and> kr_keyId k = kid"

fun ring_revoke :: "keyring \<Rightarrow> jstr \<Rightarrow> jstr \<Rightarrow> int \<Rightarrow> keyring \<times> bool" where
  "ring_revoke [] sndr kid t = ([], False)"
| "ring_revoke (k # ks) sndr kid t =
    (if named sndr kid k then (k\<lparr>kr_status := KeyRevoked, kr_notAfter := min (kr_notAfter k) t\<rparr> # ks, True)
     else map_prod (Cons k) id (ring_revoke ks sndr kid t))"

definition in_window :: "int \<Rightarrow> key_record \<Rightarrow> bool" where
  "in_window now k \<longleftrightarrow> kr_notBefore k \<le> now \<and> now < kr_notAfter k"

text \<open>The sort is stable and puts the latest \<open>notBeforeMs\<close> first.\<close>

definition newest :: "keyring \<Rightarrow> key_record option" where
  "newest ks = (case sort_key (\<lambda>k. - kr_notBefore k) ks of [] \<Rightarrow> None | k # _ \<Rightarrow> Some k)"

definition selectSigningKey :: "keyring \<Rightarrow> jstr \<Rightarrow> sig_alg \<Rightarrow> int \<Rightarrow> key_record option" where
  "selectSigningKey ks sndr a now =
    newest (filter (\<lambda>k. kr_sender k = sndr \<and> kr_alg k = a \<and> kr_status k = KeyActive \<and> in_window now k) ks)"

definition usable :: "signature \<Rightarrow> jstr \<Rightarrow> int \<Rightarrow> key_record \<Rightarrow> bool" where
  "usable sg sndr now k \<longleftrightarrow> named sndr (keyId sg) k \<and> kr_alg k = alg sg \<and> kr_status k \<noteq> KeyRevoked \<and> in_window now k"

definition resolveVerificationMaterial :: "keyring \<Rightarrow> signature \<Rightarrow> jstr \<Rightarrow> int \<Rightarrow> verification_material option" where
  "resolveVerificationMaterial ks sg sndr now = map_option kr_material (newest (filter (usable sg sndr now) ks))"

definition createKeyringSignatureResolver :: "keyring \<Rightarrow> int \<Rightarrow> signature \<Rightarrow> jstr \<Rightarrow> verification_material option" where
  "createKeyringSignatureResolver ks now sg sndr = resolveVerificationMaterial ks sg sndr now"

lemma newest_spec:
  "newest ks = Some k \<Longrightarrow> k \<in> set ks \<and> (\<forall>k' \<in> set ks. kr_notBefore k' \<le> kr_notBefore k)"
proof -
  assume n: "newest ks = Some k"
  then obtain r where r: "sort_key (\<lambda>k. - kr_notBefore k) ks = k # r" by (auto simp: newest_def split: list.splits)
  have s: "set (k # r) = set ks" using r by (metis set_sort)
  have "sorted (map (\<lambda>k. - kr_notBefore k) (k # r))" using r by (metis sorted_sort_key)
  then have "\<forall>k' \<in> set (k # r). kr_notBefore k' \<le> kr_notBefore k" by auto
  then show ?thesis using s by auto
qed

lemma newest_None: "newest ks = None \<longleftrightarrow> ks = []"
  by (auto simp: newest_def split: list.splits dest: arg_cong [where f = set])

text \<open>What a signature is verified with is the material of the latest record of this sender, key id and algorithm that is in its window and not revoked; there is none only when no such record exists.\<close>

theorem keyring_resolves_newest:
  "case resolveVerificationMaterial ks sg sndr now of
     None \<Rightarrow> filter (usable sg sndr now) ks = []
   | Some m \<Rightarrow> \<exists>k. kr_material k = m \<and> k \<in> set (filter (usable sg sndr now) ks) \<and>
       Max (kr_notBefore ` set (filter (usable sg sndr now) ks)) = kr_notBefore k"
proof (cases "newest (filter (usable sg sndr now) ks)")
  case None
  then have "filter (usable sg sndr now) ks = []" by (simp add: newest_None)
  then show ?thesis by (simp add: resolveVerificationMaterial_def newest_def)
next
  case (Some k)
  note n = newest_spec [OF Some]
  have "Max (kr_notBefore ` set (filter (usable sg sndr now) ks)) = kr_notBefore k"
    using n by (intro Max_eqI) auto
  then show ?thesis using Some n by (auto simp: resolveVerificationMaterial_def)
qed

lemma ring_revoke_others: "k' \<in> set (fst (ring_revoke ks sndr kid t)) \<Longrightarrow> \<not> named sndr kid k' \<Longrightarrow> k' \<in> set ks"
  by (induction ks sndr kid t rule: ring_revoke.induct) (auto simp: named_def split: if_splits)

lemma ring_revoke_unique:
  "length (filter (named sndr kid) ks) \<le> 1 \<Longrightarrow> k' \<in> set (fst (ring_revoke ks sndr kid t)) \<Longrightarrow> named sndr kid k' \<Longrightarrow> kr_status k' = KeyRevoked"
proof (induction ks sndr kid t rule: ring_revoke.induct)
  case (2 k ks sndr kid t)
  show ?case
  proof (cases "named sndr kid k")
    case True
    then have "\<forall>x \<in> set ks. \<not> named sndr kid x" using 2(2) by (simp add: filter_empty_conv)
    then show ?thesis using True 2(3,4) by auto
  next
    case False
    then show ?thesis using "2.IH" 2(2-4) by auto
  qed
qed simp

text \<open>Where no two records share sender and key id, a key is of no use any more once it is revoked.\<close>

theorem revoked_record_unusable:
  assumes "length (filter (named sndr (keyId sg)) ks) \<le> 1"
  shows "resolveVerificationMaterial (fst (ring_revoke ks sndr (keyId sg) t)) sg sndr now = None"
proof -
  have "filter (usable sg sndr now) (fst (ring_revoke ks sndr (keyId sg) t)) = []"
    using ring_revoke_unique [OF assms] by (auto simp: filter_empty_conv usable_def)
  then show ?thesis by (simp add: resolveVerificationMaterial_def newest_def)
qed

text \<open>Where two records share them, only the first is revoked: the second still verifies.\<close>

theorem second_record_survives:
  "\<exists>k. snd (ring_revoke [k, k\<lparr>kr_notAfter := 100\<rparr>] sndr kid 5) \<and>
    resolveVerificationMaterial (fst (ring_revoke [k, k\<lparr>kr_notAfter := 100\<rparr>] sndr kid 5)) \<lparr>alg = ED25519, keyId = kid, sigValue = v\<rparr> sndr 10 = Some m"
  by (rule exI [of _ "\<lparr>kr_sender = sndr, kr_keyId = kid, kr_alg = ED25519, kr_status = KeyActive, kr_notBefore = 0, kr_notAfter = 50, kr_material = m\<rparr>"])
    (simp add: named_def resolveVerificationMaterial_def usable_def in_window_def newest_def)

section \<open>The rotation manager\<close>

record managed_key =
  mk_id :: jstr
  mk_publicKey :: jstr
  mk_privateKey :: jstr
  mk_createdAt :: int
  mk_expiresAt :: "int option"

record rotation_manager =
  rm_maxAgeMs :: int
  rm_overlapMs :: int
  rm_keys :: "managed_key list"

text \<open>The default overlap is the floor of a tenth.\<close>

definition new_rotation_manager :: "int \<Rightarrow> int option \<Rightarrow> rotation_manager" where
  "new_rotation_manager mx overlap = \<lparr>rm_maxAgeMs = mx, rm_overlapMs = (case overlap of None \<Rightarrow> mx div 10 | Some n \<Rightarrow> n), rm_keys = []\<rparr>"

definition addKey :: "rotation_manager \<Rightarrow> managed_key \<Rightarrow> rotation_manager" where
  "addKey m k = m\<lparr>rm_keys := rm_keys m @ [k]\<rparr>"

text \<open>An expiry of 0 counts as none.\<close>

definition expiry :: "managed_key \<Rightarrow> int option" where
  "expiry k = (if mk_expiresAt k = Some 0 then None else mk_expiresAt k)"

definition unexpired :: "int \<Rightarrow> managed_key \<Rightarrow> bool" where
  "unexpired now k \<longleftrightarrow> (case expiry k of None \<Rightarrow> True | Some e \<Rightarrow> now < e)"

text \<open>The key is identified by its place in the list, since a rotation changes it there.\<close>

definition later_of :: "managed_key list \<Rightarrow> nat \<Rightarrow> nat \<Rightarrow> nat" where
  "later_of ks a b = (if mk_createdAt (ks ! b) < mk_createdAt (ks ! a) then a else b)"

definition current_index :: "rotation_manager \<Rightarrow> int \<Rightarrow> nat option" where
  "current_index m now =
    (case filter (\<lambda>i. unexpired now (rm_keys m ! i)) [0..<length (rm_keys m)] of
       [] \<Rightarrow> None
     | i # is \<Rightarrow> Some (foldl (later_of (rm_keys m)) i is))"

definition getCurrentKey :: "rotation_manager \<Rightarrow> int \<Rightarrow> managed_key option" where
  "getCurrentKey m now = map_option ((!) (rm_keys m)) (current_index m now)"

text \<open>Up to the awaited generation of the key: \<open>None\<close> when there is nothing to do.\<close>

definition rotate_begin :: "rotation_manager \<Rightarrow> int \<Rightarrow> rotation_manager option" where
  "rotate_begin m now =
    (case current_index m now of
       None \<Rightarrow> Some m
     | Some i \<Rightarrow>
         let k = rm_keys m ! i in
         if now - mk_createdAt k < rm_maxAgeMs m - rm_overlapMs m then None
         else if expiry k = None then Some (m\<lparr>rm_keys := (rm_keys m)[i := k\<lparr>mk_expiresAt := Some (now + rm_overlapMs m)\<rparr>]\<rparr>)
         else Some m)"

definition rotate_finish :: "rotation_manager \<Rightarrow> int \<Rightarrow> jstr \<times> jstr \<Rightarrow> bytes \<Rightarrow> rotation_manager \<times> managed_key" where
  "rotate_finish m now pair rnd4 =
    (let k = \<lparr>mk_id = js ''key-'' @ show_int now @ js ''-'' @ randomHex rnd4, mk_publicKey = fst pair, mk_privateKey = snd pair,
         mk_createdAt = now, mk_expiresAt = None\<rparr>
     in (addKey m k, k))"

definition rotateIfNeeded :: "rotation_manager \<Rightarrow> int \<Rightarrow> jstr \<times> jstr \<Rightarrow> bytes \<Rightarrow> rotation_manager \<times> managed_key option" where
  "rotateIfNeeded m now pair rnd4 =
    (case rotate_begin m now of None \<Rightarrow> (m, None) | Some m' \<Rightarrow> map_prod id Some (rotate_finish m' now pair rnd4))"

definition published_entry :: "int \<Rightarrow> managed_key \<Rightarrow> key_entry" where
  "published_entry now k = \<lparr>ke_id = mk_id k, ke_publicKey = mk_publicKey k, ke_created = mk_createdAt k, ke_expires = expiry k,
     ke_revokedAt = (case expiry k of None \<Rightarrow> None | Some e \<Rightarrow> if e < now then Some e else None)\<rparr>"

definition getWellKnownDocument :: "rotation_manager \<Rightarrow> int \<Rightarrow> json" where
  "getWellKnownDocument m now = well_known_json now (map (published_entry now) (rm_keys m))"

definition manager_key :: "rotation_manager \<Rightarrow> jstr \<Rightarrow> int \<Rightarrow> jstr option" where
  "manager_key m senderId now = map_option mk_publicKey (find (\<lambda>k. mk_id k = senderId \<and> unexpired now k) (rm_keys m))"

lemma foldl_later_in: "foldl (later_of ks) i is \<in> insert i (set is)"
proof (induction "is" arbitrary: i)
  case (Cons j js')
  then show ?case using Cons.IH [of "later_of ks i j"] by (auto simp: later_of_def)
qed simp

lemma current_index_valid: "current_index m now = Some i \<Longrightarrow> i < length (rm_keys m) \<and> unexpired now (rm_keys m ! i)"
proof -
  assume c: "current_index m now = Some i"
  then obtain j js' where j: "filter (\<lambda>i. unexpired now (rm_keys m ! i)) [0..<length (rm_keys m)] = j # js'" "i = foldl (later_of (rm_keys m)) j js'"
    by (auto simp: current_index_def split: list.splits)
  have "set (filter (\<lambda>i. unexpired now (rm_keys m ! i)) [0..<length (rm_keys m)]) = insert j (set js')" using j(1) by simp
  with foldl_later_in [of "rm_keys m" j js'] j(2) have "i \<in> set (filter (\<lambda>i. unexpired now (rm_keys m ! i)) [0..<length (rm_keys m)])" by simp
  then show ?thesis by simp
qed

lemma foldl_later_last:
  "\<forall>i \<in> set (i0 # is). mk_createdAt (ks ! i) \<le> mk_createdAt (ks ! n) \<Longrightarrow> foldl (later_of ks) i0 (is @ [n]) = n"
proof -
  assume a: "\<forall>i \<in> set (i0 # is). mk_createdAt (ks ! i) \<le> mk_createdAt (ks ! n)"
  have "foldl (later_of ks) i0 is \<in> set (i0 # is)" using foldl_later_in [of ks i0 "is"] by simp
  then have "mk_createdAt (ks ! foldl (later_of ks) i0 is) \<le> mk_createdAt (ks ! n)" using a by blast
  then show ?thesis by (simp add: later_of_def)
qed

text \<open>A key added last is the current one while it has not expired, if none was created after it.\<close>

lemma added_is_current:
  assumes "\<forall>x \<in> set (rm_keys m). mk_createdAt x \<le> mk_createdAt k" "unexpired now k"
  shows "getCurrentKey (addKey m k) now = Some k"
proof -
  let ?ks = "rm_keys m @ [k]" and ?n = "length (rm_keys m)"
  define cs where "cs = filter (\<lambda>i. unexpired now (?ks ! i)) [0..<?n]"
  have u: "filter (\<lambda>i. unexpired now (?ks ! i)) [0..<length ?ks] = cs @ [?n]" using assms(2) by (simp add: cs_def)
  have "\<forall>i \<in> set cs. mk_createdAt (?ks ! i) \<le> mk_createdAt (?ks ! ?n)" using assms(1) by (auto simp: cs_def nth_append)
  then have "(case cs @ [?n] of [] \<Rightarrow> None | i # is \<Rightarrow> Some (foldl (later_of ?ks) i is)) = Some ?n"
    using foldl_later_last [of _ _ ?ks ?n] by (cases cs) auto
  note c = this
  have rk: "rm_keys (addKey m k) = ?ks" by (simp add: addKey_def)
  have "current_index (addKey m k) now = Some ?n" unfolding current_index_def rk u by (rule c)
  then show ?thesis by (simp add: getCurrentKey_def addKey_def)
qed

lemma find_unique:
  assumes "distinct (map mk_id ks)" "k \<in> set ks"
  shows "find (\<lambda>x. mk_id x = mk_id k \<and> P x) ks = (if P k then Some k else None)"
  using assms
proof (induction ks)
  case (Cons x ks)
  show ?case
  proof (cases "x = k")
    case True
    then have "\<forall>y \<in> set ks. mk_id y \<noteq> mk_id k" using Cons.prems(1) by (auto simp: image_iff)
    then have "find (\<lambda>x. mk_id x = mk_id k \<and> P x) ks = None" by (auto simp: find_None_iff)
    with True show ?thesis by simp
  next
    case False
    then have "mk_id x \<noteq> mk_id k" using Cons.prems by auto
    with False Cons show ?thesis by simp
  qed
qed simp

text \<open>A rotation: the new key is current from now on, the old one is answered for the overlap and not after it.\<close>

theorem rotation_hands_over:
  assumes "rotateIfNeeded m now pair rnd4 = (m', Some nk)" "getCurrentKey m now = Some k" "expiry k = None" "now + rm_overlapMs m \<noteq> 0"
    "distinct (map mk_id (rm_keys m))" "mk_id nk \<notin> set (map mk_id (rm_keys m))" "\<forall>x \<in> set (rm_keys m). mk_createdAt x \<le> now"
  shows "getCurrentKey m' t = Some nk \<and> manager_key m' (mk_id nk) t = Some (fst pair)
    \<and> manager_key m' (mk_id k) t = (if t < now + rm_overlapMs m then Some (mk_publicKey k) else None)"
proof -
  obtain i where i: "current_index m now = Some i" "k = rm_keys m ! i" using assms(2) by (auto simp: getCurrentKey_def)
  then have l: "i < length (rm_keys m)" using current_index_valid by blast
  define k' where "k' = k\<lparr>mk_expiresAt := Some (now + rm_overlapMs m)\<rparr>"
  define ks where "ks = (rm_keys m)[i := k']"
  have b: "rotate_begin m now = Some (m\<lparr>rm_keys := ks\<rparr>)"
    using assms(1,3) i by (auto simp: rotateIfNeeded_def rotate_begin_def Let_def ks_def k'_def split: if_splits)
  have nk: "nk = \<lparr>mk_id = mk_id nk, mk_publicKey = fst pair, mk_privateKey = snd pair, mk_createdAt = now, mk_expiresAt = None\<rparr>"
    and m': "m' = addKey (m\<lparr>rm_keys := ks\<rparr>) nk"
    using assms(1) b by (auto simp: rotateIfNeeded_def rotate_finish_def Let_def)
  have ids: "map mk_id ks = map mk_id (rm_keys m)"
    using l i(2) by (simp add: ks_def k'_def map_update list_update_same_conv)
  have cr: "\<forall>x \<in> set ks. mk_createdAt x \<le> now"
  proof
    fix x assume "x \<in> set ks"
    then have "x = k' \<or> x \<in> set (rm_keys m)" using set_update_subset_insert [of "rm_keys m" i k'] unfolding ks_def by blast
    then show "mk_createdAt x \<le> now" using assms(7) l i(2) by (auto simp: k'_def)
  qed
  have un: "unexpired t nk" using nk by (metis expiry_def managed_key.select_convs(5) option.case(1) option.distinct(1) unexpired_def)
  have d: "distinct (map mk_id (ks @ [nk]))" using assms(5,6) ids by simp
  have e: "unexpired t k' \<longleftrightarrow> t < now + rm_overlapMs m" using assms(4) by (simp add: unexpired_def expiry_def k'_def)
  have k: "k' \<in> set (ks @ [nk])" "mk_id k' = mk_id k" "mk_publicKey k' = mk_publicKey k"
    using l set_update_memI [of i "rm_keys m" k'] by (simp_all add: ks_def k'_def)
  have "manager_key m' (mk_id k) t = (if t < now + rm_overlapMs m then Some (mk_publicKey k) else None)"
    using find_unique [OF d k(1), of "unexpired t"] k(2,3) e by (simp add: manager_key_def m' addKey_def)
  moreover have "manager_key m' (mk_id nk) t = Some (fst pair)"
    using find_unique [OF d, of nk "unexpired t"] un nk by (simp add: manager_key_def m' addKey_def) (metis managed_key.select_convs(2))
  moreover have "getCurrentKey m' t = Some nk"
    using added_is_current [of "m\<lparr>rm_keys := ks\<rparr>" nk t] cr un nk m' by (metis managed_key.select_convs(4) rotation_manager.select_convs(3) rotation_manager.surjective rotation_manager.update_convs(3))
  ultimately show ?thesis by blast
qed

text \<open>Two rotations that overlap both make a key; only one of them is ever current, so the other one never gets an expiry, whatever rotations follow.\<close>

definition demo_managed :: "string \<Rightarrow> int \<Rightarrow> managed_key" where
  "demo_managed n t = \<lparr>mk_id = js n, mk_publicKey = js n, mk_privateKey = js n, mk_createdAt = t, mk_expiresAt = None\<rparr>"

definition demo_manager :: rotation_manager where
  "demo_manager = addKey (new_rotation_manager 100 None) (demo_managed ''old'' 0)"

definition overlapped :: rotation_manager where
  "overlapped =
    (case rotate_begin demo_manager 95 of
       None \<Rightarrow> demo_manager
     | Some m1 \<Rightarrow> (case rotate_begin m1 96 of
         None \<Rightarrow> m1
       | Some m2 \<Rightarrow> fst (rotate_finish (fst (rotate_finish m2 95 (js ''a'', js ''x'') [1])) 96 (js ''b'', js ''y'') [2])))"

theorem overlapping_rotations_leave_key:
  "map mk_publicKey (rm_keys overlapped) = [js ''old'', js ''a'', js ''b''] \<and>
    (\<forall>t. manager_key (fst (rotateIfNeeded overlapped 300 (js ''c'', js ''z'') [3])) (mk_id (rm_keys overlapped ! 1)) t = Some (js ''a''))"
proof -
  have u: "[0..<Suc 0] = [0]" "[0..<3] = [0, 1, 2::nat]" by (simp_all add: upt_rec)
  have o': "overlapped = \<lparr>rm_maxAgeMs = 100, rm_overlapMs = 10, rm_keys =
      [(demo_managed ''old'' 0)\<lparr>mk_expiresAt := Some 105\<rparr>,
       \<lparr>mk_id = js ''key-'' @ show_int 95 @ js ''-'' @ randomHex [1], mk_publicKey = js ''a'', mk_privateKey = js ''x'', mk_createdAt = 95, mk_expiresAt = None\<rparr>,
       \<lparr>mk_id = js ''key-'' @ show_int 96 @ js ''-'' @ randomHex [2], mk_publicKey = js ''b'', mk_privateKey = js ''y'', mk_createdAt = 96, mk_expiresAt = None\<rparr>]\<rparr>"
    by (simp add: overlapped_def demo_manager_def new_rotation_manager_def addKey_def rotate_begin_def rotate_finish_def current_index_def u
      unexpired_def expiry_def demo_managed_def Let_def)
  have r: "rm_keys (fst (rotateIfNeeded overlapped 300 (js ''c'', js ''z'') [3])) ! 1 = rm_keys overlapped ! 1
    \<and> (\<exists>rest. rm_keys (fst (rotateIfNeeded overlapped 300 (js ''c'', js ''z'') [3])) = hd (rm_keys overlapped) # rm_keys overlapped ! 1 # rest)"
    unfolding o' by (simp add: rotateIfNeeded_def addKey_def rotate_begin_def rotate_finish_def current_index_def u
      unexpired_def expiry_def demo_managed_def Let_def later_of_def numeral_3_eq_3)
  have "js ''old'' \<noteq> js ''key-'' @ s" for s by (simp add: ascii_eval)
  with r show ?thesis
    by (auto simp: o' manager_key_def unexpired_def expiry_def demo_managed_def)
qed

section \<open>The revocation registry\<close>

record revocation_entry =
  re_id :: jstr
  re_revokedAt :: int
  re_reason :: "jstr option"

record revocation_listing =
  rl_updated :: int
  rl_revokedKeys :: "revocation_entry list"

type_synonym revocation_registry = "(jstr, revocation_entry) jsmap"

definition registry_revoke :: "revocation_registry \<Rightarrow> jstr \<Rightarrow> jstr option \<Rightarrow> int \<Rightarrow> revocation_registry" where
  "registry_revoke r i why now = mset_key r i \<lparr>re_id = i, re_revokedAt = now, re_reason = why\<rparr>"

definition isRevoked :: "revocation_registry \<Rightarrow> jstr \<Rightarrow> bool" where
  "isRevoked r i \<longleftrightarrow> mhas r i"

definition isEnvelopeRevoked :: "revocation_registry \<Rightarrow> jstr option \<Rightarrow> jstr option \<Rightarrow> bool" where
  "isEnvelopeRevoked r sndr kid \<longleftrightarrow>
    (case sndr of None \<Rightarrow> False | Some s \<Rightarrow> isRevoked r s) \<or> (case kid of None \<Rightarrow> False | Some k \<Rightarrow> isRevoked r k)"

definition getList :: "revocation_registry \<Rightarrow> int \<Rightarrow> revocation_listing" where
  "getList r now = \<lparr>rl_updated = now, rl_revokedKeys = map snd r\<rparr>"

definition import_entry :: "revocation_registry \<Rightarrow> revocation_entry \<Rightarrow> revocation_registry" where
  "import_entry r e = (if mhas r (re_id e) then r else mset_key r (re_id e) e)"

definition importList :: "revocation_registry \<Rightarrow> revocation_listing \<Rightarrow> revocation_registry" where
  "importList r l = foldl import_entry r (rl_revokedKeys l)"

definition revoked_value :: "revocation_registry \<Rightarrow> json option \<Rightarrow> bool" where
  "revoked_value r v = (case v of Some (JStr s) \<Rightarrow> isRevoked r s | _ \<Rightarrow> False)"

definition wrapRegistry :: "revocation_registry \<Rightarrow> key_registry \<Rightarrow> key_registry" where
  "wrapRegistry r inner =
    \<lparr>reg_public = (\<lambda>s. if revoked_value r s then Some None else reg_public inner s),
     reg_secret = map_option (\<lambda>f k s. if revoked_value r k \<or> revoked_value r s then Some None else f k s) (reg_secret inner)\<rparr>"

datatype registry_event = RevokeId jstr "jstr option" int | ImportList revocation_listing

fun registry_run :: "revocation_registry \<Rightarrow> registry_event list \<Rightarrow> revocation_registry" where
  "registry_run r [] = r"
| "registry_run r (RevokeId i why now # es) = registry_run (registry_revoke r i why now) es"
| "registry_run r (ImportList l # es) = registry_run (importList r l) es"

lemma import_keeps: "mget r i = Some e \<Longrightarrow> mget (foldl import_entry r es) i = Some e"
proof (induction es arbitrary: r)
  case (Cons x es)
  then have "mget (import_entry r x) i = Some e" by (auto simp: import_entry_def mhas_def)
  with Cons.IH show ?case by simp
qed simp

lemma import_revoked: "mhas (foldl import_entry r es) i \<longleftrightarrow> mhas r i \<or> i \<in> re_id ` set es"
  by (induction es arbitrary: r) (auto simp: import_entry_def mhas_def)

text \<open>An import adds what it lists and changes nothing that is there.\<close>

theorem import_is_union:
  "isRevoked (importList r l) i = (isRevoked r i \<or> i \<in> re_id ` set (rl_revokedKeys l))"
  by (simp add: isRevoked_def importList_def import_revoked)

lemma run_keeps_revoked: "isRevoked r i \<Longrightarrow> isRevoked (registry_run r es) i"
proof (induction r es rule: registry_run.induct)
  case (3 r l es)
  then have "isRevoked (importList r l) i" by (simp add: isRevoked_def importList_def import_revoked)
  with 3 show ?case by simp
qed (auto simp: isRevoked_def registry_revoke_def mhas_def)

text \<open>What was revoked once stays so, and the wrapped registry has neither a key nor a secret for it.\<close>

theorem revocation_permanent:
  "isRevoked (registry_run (registry_revoke r i why now) es) i
    \<and> reg_public (wrapRegistry (registry_run (registry_revoke r i why now) es) inner) (Some (JStr i)) = Some None
    \<and> (case reg_secret (wrapRegistry (registry_run (registry_revoke r i why now) es) inner) of
         None \<Rightarrow> reg_secret inner = None
       | Some f \<Rightarrow> f (Some (JStr i)) s = Some None \<and> f s (Some (JStr i)) = Some None)"
proof -
  have "isRevoked (registry_revoke r i why now) i" by (simp add: isRevoked_def registry_revoke_def mhas_def)
  from run_keeps_revoked [OF this] show ?thesis by (simp add: wrapRegistry_def revoked_value_def split: option.splits)
qed

text \<open>A revoked key id stops no lookup by the sender's name: only the check of the envelope sees it.\<close>

theorem key_id_revocation_needs_envelope_check:
  "reg_public (wrapRegistry (registry_revoke [] kid why now) inner) (Some (JStr sndr)) = (if sndr = kid then Some None else reg_public inner (Some (JStr sndr)))
    \<and> isEnvelopeRevoked (registry_revoke [] kid why now) (Some sndr) (Some kid)"
  by (simp add: wrapRegistry_def revoked_value_def isRevoked_def registry_revoke_def isEnvelopeRevoked_def mhas_def)

end
