(* ===== verification/McpWrapper.thy ===== *)
theory McpWrapper
  imports TransportSafety
begin

text \<open>
  \<open>src/mcpWrapper.ts\<close>: the middleware that puts every JSON-RPC message of a tool server into a
  signed envelope. Server and client are processes on the world of the caller's functions:
  signing, the handler, the replay cache and the resolvers. Requests and responses are JSON
  values; \<open>wording\<close> gives the text of a diagnostic. A sender or message id that is no text,
  which only a refused message can have, counts as absent in the reply.
\<close>

section \<open>Sequencing\<close>

primrec bind_proc :: "('w, 'a) proc \<Rightarrow> ('a \<Rightarrow> ('w, 'b) proc) \<Rightarrow> ('w, 'b) proc" where
  "bind_proc (Done r) f = (case r of None \<Rightarrow> Done None | Some a \<Rightarrow> f a)"
| "bind_proc (Act g k) f = Act g (\<lambda>w. bind_proc (k w) f)"

lemma run_bind: "run (bind_proc p f) w = (case run p w of (w', None) \<Rightarrow> (w', None) | (w', Some a) \<Rightarrow> run (f a) w')"
  by (induction p arbitrary: w) (auto split: option.split)

section \<open>Options\<close>

record 'w mcp_options =
  mo_selfAgentId :: jstr
  mo_peerAgentId :: "jstr option"
  mo_sign :: "'w \<Rightarrow> header \<Rightarrow> body \<Rightarrow> 'w \<times> envelope option"
  mo_receive :: "'w receive_options option"
  mo_wireFormat :: "wire_format option"
  mo_ttlMs :: "int option"

type_synonym 'w replay_checker = "'w \<Rightarrow> header \<Rightarrow> int \<Rightarrow> 'w \<times> replay_result option"

definition no_options :: "'w receive_options" where
  "no_options = \<lparr>op_requireSignature = None, op_maxClockSkewMs = None, op_replayCache = None, op_cacheGet = None, op_cacheSet = (\<lambda>w k m e. w),
     op_secretResolver = None, op_signatureResolver = None, op_telemetry = None\<rparr>"

definition base_options :: "'w mcp_options \<Rightarrow> 'w receive_options" where
  "base_options o' = (case mo_receive o' of None \<Rightarrow> no_options | Some r \<Rightarrow> r)"

text \<open>\<open>fresh\<close> is the in-memory cache made when the caller brings none.\<close>

definition chosen_cache :: "'w mcp_options \<Rightarrow> 'w replay_checker \<Rightarrow> 'w replay_checker" where
  "chosen_cache o' fresh = (case op_replayCache (base_options o') of None \<Rightarrow> fresh | Some c \<Rightarrow> c)"

definition hardenedReceive :: "'w mcp_options \<Rightarrow> 'w replay_checker \<Rightarrow> 'w receive_options" where
  "hardenedReceive o' cache = (base_options o')\<lparr>op_requireSignature := Some True, op_replayCache := Some cache\<rparr>"

definition mcp_receive :: "crypto \<Rightarrow> (jstr \<Rightarrow> json option) \<Rightarrow> 'w mcp_options \<Rightarrow> 'w replay_checker \<Rightarrow> int \<Rightarrow> wire \<Rightarrow> ('w, receive_result) proc" where
  "mcp_receive C parse o' fresh now raw = receiveEnvelope C parse (hardenedReceive o' (chosen_cache o' fresh)) now (Wire raw)"

definition mcp_wire :: "'w mcp_options \<Rightarrow> wire_format" where
  "mcp_wire o' = (case mo_wireFormat o' of None \<Rightarrow> CompactFormat | Some f \<Rightarrow> f)"

text \<open>Creating, signing and encoding an envelope.\<close>

definition outgoing :: "'w mcp_options \<Rightarrow> jstr option \<Rightarrow> intent \<Rightarrow> jstr \<Rightarrow> jstr option \<Rightarrow> create_input" where
  "outgoing o' rcpt i cont corr =
    \<lparr>in_sender = mo_selfAgentId o', in_recipient = rcpt, in_intent = i, in_content = cont, in_capability = None, in_correlationId = corr,
     in_ttlMs = Some (case mo_ttlMs o' of None \<Rightarrow> 60000 | Some t \<Rightarrow> t), in_messageId = None, in_nonce = None, in_nowMs = None\<rparr>"

definition signAndEncode :: "'w mcp_options \<Rightarrow> header \<times> body \<Rightarrow> ('w, wire) proc" where
  "signAndEncode o' hb = act (\<lambda>w. mo_sign o' w (fst hb) (snd hb)) (\<lambda>e. Done (encodeEnvelope (mcp_wire o') e))"

section \<open>The server\<close>

definition jsonRpcError :: "json \<Rightarrow> int \<Rightarrow> jstr \<Rightarrow> json" where
  "jsonRpcError i code msg = JObj [(js ''jsonrpc'', JStr (js ''2.0'')), (js ''id'', i),
     (js ''error'', JObj [(js ''code'', JNum (Fin code)), (js ''message'', JStr msg)])]"

definition reply :: "'w mcp_options \<Rightarrow> int \<Rightarrow> bytes \<Rightarrow> bytes \<Rightarrow> jstr option \<Rightarrow> intent \<Rightarrow> json \<Rightarrow> jstr option \<Rightarrow> ('w, wire) proc" where
  "reply o' clock rnd6 rnd12 rcpt i response corr = signAndEncode o' (createEnvelope (outgoing o' rcpt i (print_json response) corr) clock rnd6 rnd12)"

definition header_text :: "json option \<Rightarrow> string \<Rightarrow> jstr option" where
  "header_text e f =
    (case e of
       None \<Rightarrow> None
     | Some e \<Rightarrow> (case jmember e ''header'' of None \<Rightarrow> None | Some h \<Rightarrow> (case jmember h f of Some (JStr s) \<Rightarrow> Some s | _ \<Rightarrow> None)))"

definition diagnostic_error :: "transport_diagnostic \<Rightarrow> bool" where
  "diagnostic_error d = (case d of Validation v \<Rightarrow> level v = Error | _ \<Rightarrow> True)"

definition first_error :: "(transport_diagnostic \<Rightarrow> jstr) \<Rightarrow> transport_diagnostic list \<Rightarrow> jstr \<Rightarrow> jstr" where
  "first_error wording ds dflt = (case List.find diagnostic_error ds of None \<Rightarrow> dflt | Some d \<Rightarrow> wording d)"

definition mismatch_text :: jstr where
  "mismatch_text = js ''Recipient mismatch: envelope not addressed to this agent''"

definition parse_error_text :: jstr where
  "parse_error_text = js ''Parse error: envelope body is not JSON-RPC''"

text \<open>\<open>JSON.parse(envelope.body.content)\<close>; reading the content of an absent or null body throws as well.\<close>

definition parsed_content :: "(jstr \<Rightarrow> json option) \<Rightarrow> json \<Rightarrow> json option" where
  "parsed_content parse e = (case readable (jmember e ''body'') of None \<Rightarrow> None | Some b \<Rightarrow> parse (template_text (jmember b ''content'')))"

text \<open>The checks between reception and handler: the request, or the error to answer with.\<close>

definition mcp_request :: "(jstr \<Rightarrow> json option) \<Rightarrow> (transport_diagnostic \<Rightarrow> jstr) \<Rightarrow> jstr \<Rightarrow> receive_result \<Rightarrow> (int \<times> jstr) + json" where
  "mcp_request parse wording self r =
    (case rr_envelope r of
       None \<Rightarrow> Inl (-32600, first_error wording (rr_diagnostics r) (js ''AIP verification failed''))
     | Some e \<Rightarrow>
         if \<not> rr_ok r then Inl (-32600, first_error wording (rr_diagnostics r) (js ''AIP verification failed''))
         else if header_text (Some e) ''recipient'' \<noteq> Some self then Inl (-32600, mismatch_text)
         else (case parsed_content parse e of None \<Rightarrow> Inl (-32700, parse_error_text) | Some q \<Rightarrow> Inr q))"

text \<open>A handler answers or throws; \<open>Inl\<close> is the message of what it threw.\<close>

type_synonym 'w rpc_handler = "'w \<Rightarrow> json \<Rightarrow> 'w \<times> (jstr + json)"

text \<open>Reading the id of a request that is null throws out of the middleware.\<close>

definition request_id :: "json \<Rightarrow> json option" where
  "request_id q = (if q = JNull then None else Some (case jmember q ''id'' of None \<Rightarrow> JNull | Some i \<Rightarrow> i))"

definition wrapMcpServer ::
  "crypto \<Rightarrow> (jstr \<Rightarrow> json option) \<Rightarrow> (transport_diagnostic \<Rightarrow> jstr) \<Rightarrow> 'w rpc_handler \<Rightarrow> 'w mcp_options \<Rightarrow> 'w replay_checker
    \<Rightarrow> int \<Rightarrow> int \<Rightarrow> bytes \<Rightarrow> bytes \<Rightarrow> wire \<Rightarrow> ('w, wire) proc" where
  "wrapMcpServer C parse wording handler o' fresh now clock rnd6 rnd12 raw =
    bind_proc (mcp_receive C parse o' fresh now raw)
      (\<lambda>r. let sndr = header_text (rr_envelope r) ''sender''; corr = header_text (rr_envelope r) ''messageId'' in
        case mcp_request parse wording (mo_selfAgentId o') r of
          Inl (code, msg) \<Rightarrow> reply o' clock rnd6 rnd12 sndr ERROR (jsonRpcError JNull code msg) corr
        | Inr q \<Rightarrow>
            act (\<lambda>w. let (w', a) = handler w q in (w', Some a))
              (\<lambda>a. case a of
                 Inr response \<Rightarrow> reply o' clock rnd6 rnd12 sndr RESULT response corr
               | Inl msg \<Rightarrow>
                   (case request_id q of
                      None \<Rightarrow> Done None
                    | Some i \<Rightarrow> reply o' clock rnd6 rnd12 sndr RESULT (jsonRpcError i (-32603) msg) corr)))"

section \<open>The client\<close>

datatype mcp_client_failure = ResponseRefused jstr | NoPeerConfigured | WrongPeer | WrongCorrelation | ResponseNotJson

definition encodeRequest :: "'w mcp_options \<Rightarrow> int \<Rightarrow> bytes \<Rightarrow> bytes \<Rightarrow> json \<Rightarrow> ('w, wire \<times> jstr) proc" where
  "encodeRequest o' clock rnd6 rnd12 q =
    (let hb = createEnvelope (outgoing o' (mo_peerAgentId o') TASK (print_json q) None) clock rnd6 rnd12 in
     bind_proc (signAndEncode o' hb) (\<lambda>raw. Done (Some (raw, messageId (fst hb)))))"

text \<open>With a correlation to check, reading it off an absent or null body throws.\<close>

definition correlation_ok :: "json \<Rightarrow> jstr option \<Rightarrow> bool option" where
  "correlation_ok e expect =
    (case expect of
       None \<Rightarrow> Some True
     | Some x \<Rightarrow> (case readable (jmember e ''body'') of None \<Rightarrow> None | Some b \<Rightarrow> Some (jmember b ''correlationId'' = Some (JStr x))))"

definition accept_response :: "(jstr \<Rightarrow> json option) \<Rightarrow> (transport_diagnostic \<Rightarrow> jstr) \<Rightarrow> jstr option \<Rightarrow> jstr option \<Rightarrow> receive_result
    \<Rightarrow> (mcp_client_failure + json) option" where
  "accept_response parse wording peer expect r =
    (case (rr_ok r, rr_envelope r) of
       (True, Some e) \<Rightarrow>
         (case peer of
            None \<Rightarrow> Some (Inl NoPeerConfigured)
          | Some p \<Rightarrow>
              if p = [] then Some (Inl NoPeerConfigured)
              else if header_text (Some e) ''sender'' \<noteq> Some p then Some (Inl WrongPeer)
              else (case correlation_ok e expect of
                None \<Rightarrow> None
              | Some False \<Rightarrow> Some (Inl WrongCorrelation)
              | Some True \<Rightarrow> (case parsed_content parse e of None \<Rightarrow> Some (Inl ResponseNotJson) | Some v \<Rightarrow> Some (Inr v))))
     | _ \<Rightarrow> Some (Inl (ResponseRefused (first_error wording (rr_diagnostics r) (js ''unknown'')))))"

definition decodeResponse ::
  "crypto \<Rightarrow> (jstr \<Rightarrow> json option) \<Rightarrow> (transport_diagnostic \<Rightarrow> jstr) \<Rightarrow> 'w mcp_options \<Rightarrow> 'w replay_checker \<Rightarrow> int \<Rightarrow> jstr option \<Rightarrow> wire
    \<Rightarrow> ('w, mcp_client_failure + json) proc" where
  "decodeResponse C parse wording o' fresh now expect raw =
    bind_proc (mcp_receive C parse o' fresh now raw) (\<lambda>r. Done (accept_response parse wording (mo_peerAgentId o') expect r))"

definition wrapMcpClient ::
  "crypto \<Rightarrow> (jstr \<Rightarrow> json option) \<Rightarrow> (transport_diagnostic \<Rightarrow> jstr) \<Rightarrow> ('w \<Rightarrow> wire \<Rightarrow> 'w \<times> wire option) \<Rightarrow> 'w mcp_options \<Rightarrow> 'w replay_checker
    \<Rightarrow> int \<Rightarrow> bytes \<Rightarrow> bytes \<Rightarrow> int \<Rightarrow> json \<Rightarrow> ('w, mcp_client_failure + json) proc" where
  "wrapMcpClient C parse wording send o' fresh clock rnd6 rnd12 now q =
    bind_proc (encodeRequest o' clock rnd6 rnd12 q)
      (\<lambda>(raw, mid). act (\<lambda>w. send w raw) (\<lambda>answer. decodeResponse C parse wording o' fresh now (Some mid) answer))"

section \<open>What gets through\<close>

text \<open>An envelope that passed the hardened reception: signed, valid, fresh, let through by the replay cache.\<close>

definition hardened_pass :: "crypto \<Rightarrow> (jstr \<Rightarrow> json option) \<Rightarrow> 'w mcp_options \<Rightarrow> 'w replay_checker \<Rightarrow> int \<Rightarrow> wire \<Rightarrow> json \<Rightarrow> bool" where
  "hardened_pass C parse o' fresh now raw e \<longleftrightarrow>
    (\<exists>h sg m payload w. decodeEnvelope parse raw = decoded e \<and> jmember e ''header'' = Some h \<and> jmember e ''signature'' = Some sg
      \<and> no_errors (validateEnvelope e now)
      \<and> material_source (hardenedReceive o' (chosen_cache o' fresh)) now sg (string_or_empty (jmember h ''sender'')) m
      \<and> canonical_text h (jmember e ''body'') = Some payload \<and> verify_payload C payload sg m = Some True
      \<and> snd (chosen_cache o' fresh w (header_view h) now) = Some ReplayOk)"

lemma received_pass:
  assumes "snd (run (mcp_receive C parse o' fresh now raw) w) = Some r" "rr_ok r"
  shows "\<exists>e. rr_envelope r = Some e \<and> hardened_pass C parse o' fresh now raw e"
proof -
  let ?o = "hardenedReceive o' (chosen_cache o' fresh)"
  have m: "may (receiveEnvelope C parse ?o now (Wire raw)) (Some r)"
    using may_run [of "receiveEnvelope C parse ?o now (Wire raw)" w] assms(1) by (simp add: mcp_receive_def)
  have q: "op_requireSignature ?o = Some True" "op_replayCache ?o = Some (chosen_cache o' fresh)" by (simp_all add: hardenedReceive_def)
  from may_receive [OF m assms(2)] obtain e h where e: "arrived parse (Wire raw) e" "jmember e ''header'' = Some h" "rr_envelope r = Some e"
      "no_errors (validateEnvelope e now)"
      "if truthy_json (jmember e ''signature'') then authenticated C ?o now e h (the (jmember e ''signature'')) else op_requireSignature ?o = Some False"
    by blast
  from e(5) q(1) have s: "truthy_json (jmember e ''signature'')" "authenticated C ?o now e h (the (jmember e ''signature''))"
    by (auto split: if_splits)
  obtain sg where sg: "jmember e ''signature'' = Some sg" using s(1) by (cases "jmember e ''signature''") (simp_all add: truthy_json_def)
  have au: "authenticated C ?o now e h sg" using s(2) sg by simp
  then obtain m payload where mp: "material_source ?o now sg (string_or_empty (jmember h ''sender'')) m"
    "canonical_text h (jmember e ''body'') = Some payload" "verify_payload C payload sg m = Some True"
    unfolding authenticated_def by blast
  obtain w' where "snd (chosen_cache o' fresh w' (header_view h) now) = Some ReplayOk"
    using au q(2) unfolding authenticated_def replay_passed_def by blast
  with e mp sg show ?thesis unfolding hardened_pass_def by (auto intro!: exI [of _ e])
qed

text \<open>The options of the caller cannot weaken the server: two handlers can make a difference only when the message passed the hardened reception, is addressed to this agent and has JSON for content.\<close>

theorem mcp_handler_guarded:
  assumes "run (wrapMcpServer C parse wording handler o' fresh now clock rnd6 rnd12 raw) w \<noteq>
    run (wrapMcpServer C parse wording handler' o' fresh now clock rnd6 rnd12 raw) w"
  shows "\<exists>e q. hardened_pass C parse o' fresh now raw e \<and> header_text (Some e) ''recipient'' = Some (mo_selfAgentId o') \<and> parsed_content parse e = Some q"
proof -
  obtain w' a where p: "run (mcp_receive C parse o' fresh now raw) w = (w', a)" by (cases "run (mcp_receive C parse o' fresh now raw) w")
  obtain r where r: "a = Some r" using assms unfolding wrapMcpServer_def run_bind p by (cases a) simp_all
  obtain q where q: "mcp_request parse wording (mo_selfAgentId o') r = Inr q"
    using assms unfolding wrapMcpServer_def run_bind p r by (cases "mcp_request parse wording (mo_selfAgentId o') r") (auto simp: Let_def)
  then obtain e where e: "rr_envelope r = Some e" "rr_ok r" "header_text (Some e) ''recipient'' = Some (mo_selfAgentId o')" "parsed_content parse e = Some q"
    by (auto simp: mcp_request_def split: option.splits if_splits)
  have "snd (run (mcp_receive C parse o' fresh now raw) w) = Some r" using p r by simp
  from received_pass [OF this e(2)] e show ?thesis by auto
qed

lemma decode_pass:
  assumes "snd (run (decodeResponse C parse wording o' fresh now expect raw) w) = Some (Inr v)"
  shows "\<exists>e p. hardened_pass C parse o' fresh now raw e \<and> mo_peerAgentId o' = Some p \<and> header_text (Some e) ''sender'' = Some p
    \<and> correlation_ok e expect = Some True \<and> parsed_content parse e = Some v"
proof -
  obtain w' a where p: "run (mcp_receive C parse o' fresh now raw) w = (w', a)" by (cases "run (mcp_receive C parse o' fresh now raw) w")
  obtain r where r: "a = Some r" "accept_response parse wording (mo_peerAgentId o') expect r = Some (Inr v)"
    using assms unfolding decodeResponse_def run_bind p by (cases a) simp_all
  from r(2) obtain e pr where e: "rr_ok r" "rr_envelope r = Some e" "mo_peerAgentId o' = Some pr" "header_text (Some e) ''sender'' = Some pr"
    "correlation_ok e expect = Some True" "parsed_content parse e = Some v"
    unfolding accept_response_def by (auto split: bool.splits option.splits if_splits)
  have "snd (run (mcp_receive C parse o' fresh now raw) w) = Some r" using p r by simp
  from received_pass [OF this e(1)] e show ?thesis by auto
qed

lemma encoded_id:
  assumes "run (encodeRequest o' clock rnd6 rnd12 q) w = (w', Some (raw, mid))"
  shows "mid = messageId (fst (createEnvelope (outgoing o' (mo_peerAgentId o') TASK (print_json q) None) clock rnd6 rnd12))"
  using assms unfolding encodeRequest_def Let_def run_bind by (auto split: option.splits prod.splits)

text \<open>A response reaches the caller of a wrapped client only from the expected peer, signed and fresh, and bound to the message id of the request that was sent.\<close>

theorem mcp_response_bound:
  assumes "snd (run (wrapMcpClient C parse wording send o' fresh clock rnd6 rnd12 now q) w) = Some (Inr v)"
  shows "\<exists>raw e p b. hardened_pass C parse o' fresh now raw e \<and> mo_peerAgentId o' = Some p \<and> header_text (Some e) ''sender'' = Some p
    \<and> jmember e ''body'' = Some b
    \<and> jmember b ''correlationId'' = Some (JStr (messageId (fst (createEnvelope (outgoing o' (mo_peerAgentId o') TASK (print_json q) None) clock rnd6 rnd12))))
    \<and> parse (template_text (jmember b ''content'')) = Some v"
proof -
  let ?mid = "messageId (fst (createEnvelope (outgoing o' (mo_peerAgentId o') TASK (print_json q) None) clock rnd6 rnd12))"
  obtain w1 x where x: "run (encodeRequest o' clock rnd6 rnd12 q) w = (w1, x)" by (cases "run (encodeRequest o' clock rnd6 rnd12 q) w")
  then obtain raw0 where raw0: "x = Some (raw0, ?mid)"
    using assms x encoded_id [of o' clock rnd6 rnd12 q w w1] unfolding wrapMcpClient_def run_bind x by (cases x) auto
  obtain raw w2 where d: "snd (run (decodeResponse C parse wording o' fresh now (Some ?mid) raw) w2) = Some (Inr v)"
    using assms unfolding wrapMcpClient_def run_bind x raw0 by (auto split: option.splits prod.splits)
  obtain e p where e: "hardened_pass C parse o' fresh now raw e" "mo_peerAgentId o' = Some p" "header_text (Some e) ''sender'' = Some p"
    "correlation_ok e (Some ?mid) = Some True" "parsed_content parse e = Some v"
    using decode_pass [OF d] by blast
  from e(4,5) obtain b where b: "readable (jmember e ''body'') = Some b" "jmember b ''correlationId'' = Some (JStr ?mid)"
    "parse (template_text (jmember b ''content'')) = Some v"
    unfolding correlation_ok_def parsed_content_def by (auto split: option.splits)
  then have "jmember e ''body'' = Some b" by (auto simp: readable_def split: option.splits json.splits)
  with e(1-3) b(2,3) show ?thesis by blast
qed

text \<open>A verified message whose content is \<open>null\<close> and whose handler throws gets no reply: the middleware itself throws.\<close>

theorem null_request_unanswered:
  assumes "run (mcp_receive C parse o' fresh now raw) w = (w', Some r)" "mcp_request parse wording (mo_selfAgentId o') r = Inr JNull"
    "handler w' JNull = (w'', Inl msg)"
  shows "run (wrapMcpServer C parse wording handler o' fresh now clock rnd6 rnd12 raw) w = (w'', None)"
  using assms by (simp add: wrapMcpServer_def run_bind Let_def request_id_def)

end
