(* ===== verification/McpTransports.thy ===== *)
theory McpTransports
  imports McpWrapper
begin

text \<open>
  \<open>src/mcpTransports.ts\<close>: the wrapped server and client on lines of text and on HTTP requests.
  The wrapped handler is a function on the world that may throw (\<open>None\<close>); lines arrive one by
  one and are served in that order.
\<close>

type_synonym 'w wire_handler = "'w \<Rightarrow> wire \<Rightarrow> 'w \<times> wire option"

section \<open>Lines\<close>

definition assertStringWire :: "wire \<Rightarrow> jstr option" where
  "assertStringWire x = (case x of WireText s \<Rightarrow> Some s | WireFrame b \<Rightarrow> None)"

definition line_wire :: "jstr \<Rightarrow> jstr option" where
  "line_wire line = (let raw = trim line in if raw = [] then None else Some raw)"

text \<open>One line served: what is written, and whether \<open>onError\<close> is called instead.\<close>

definition serve_line :: "'w wire_handler \<Rightarrow> 'w \<times> jstr list \<times> nat \<Rightarrow> jstr \<Rightarrow> 'w \<times> jstr list \<times> nat" where
  "serve_line handle st line =
    (case line_wire line of
       None \<Rightarrow> st
     | Some raw \<Rightarrow>
         (let (w', r) = handle (fst st) (WireText raw) in
          case (case r of None \<Rightarrow> None | Some x \<Rightarrow> assertStringWire x) of
            None \<Rightarrow> (w', fst (snd st), Suc (snd (snd st)))
          | Some s \<Rightarrow> (w', fst (snd st) @ [s @ [10]], snd (snd st))))"

definition serveMcpOverStdio :: "'w wire_handler \<Rightarrow> 'w \<Rightarrow> jstr list \<Rightarrow> 'w \<times> jstr list \<times> nat" where
  "serveMcpOverStdio handle w lines = foldl (serve_line handle) (w, [], 0) lines"

text \<open>The client: requests wait in order; a line goes to the one that waits longest.\<close>

record stdio_client =
  sc_pending :: "nat list"
  sc_next :: nat
  sc_answered :: "(nat \<times> jstr) list"
  sc_output :: "jstr list"

definition createStdioMcpClient :: stdio_client where
  "createStdioMcpClient = \<lparr>sc_pending = [], sc_next = 0, sc_answered = [], sc_output = []\<rparr>"

datatype client_event = Send wire | Line jstr

text \<open>A frame is refused by an exception before anything is queued.\<close>

definition client_event_step :: "stdio_client \<Rightarrow> client_event \<Rightarrow> stdio_client" where
  "client_event_step c ev =
    (case ev of
       Send raw \<Rightarrow>
         (case assertStringWire raw of
            None \<Rightarrow> c
          | Some line \<Rightarrow> c\<lparr>sc_pending := sc_pending c @ [sc_next c], sc_next := Suc (sc_next c), sc_output := sc_output c @ [line @ [10]]\<rparr>)
     | Line line \<Rightarrow>
         (case line_wire line of
            None \<Rightarrow> c
          | Some raw \<Rightarrow>
              (case sc_pending c of [] \<Rightarrow> c | p # ps \<Rightarrow> c\<lparr>sc_pending := ps, sc_answered := sc_answered c @ [(p, raw)]\<rparr>)))"

section \<open>HTTP\<close>

datatype http_reply = HttpReply int jstr "bytes"

definition wire_bytes :: "wire \<Rightarrow> bytes" where
  "wire_bytes x = (case x of WireText s \<Rightarrow> utf8Encode s | WireFrame b \<Rightarrow> b)"

definition request_wire :: "bool \<Rightarrow> bytes list \<Rightarrow> wire" where
  "request_wire binary chunks =
    (if binary then WireFrame (concat chunks) else WireText (concat (map utf16_of (utf8_points (concat chunks)))))"

text \<open>\<open>failure\<close> is the message of what the handler threw.\<close>

definition createHttpMcpHandler :: "'w wire_handler \<Rightarrow> ('w \<Rightarrow> jstr) \<Rightarrow> bool \<Rightarrow> 'w \<Rightarrow> bytes list \<Rightarrow> 'w \<times> http_reply" where
  "createHttpMcpHandler handle failure binary w chunks =
    (let (w', r) = handle w (request_wire binary chunks) in
     (w', case r of
        Some (WireText s) \<Rightarrow> HttpReply 200 (js ''application/json'') (utf8Encode s)
      | Some (WireFrame b) \<Rightarrow> HttpReply 200 (js ''application/octet-stream'') b
      | None \<Rightarrow> HttpReply 500 (js ''application/json'') (utf8Encode (print_json (jsonRpcError JNull (-32603) (failure w'))))))"

text \<open>The client's exchange: \<open>post\<close> sends content type and body and gives the bytes of the answer.\<close>

definition createHttpMcpClient :: "('w \<Rightarrow> jstr \<times> bytes \<Rightarrow> 'w \<times> bytes option) \<Rightarrow> (bytes \<Rightarrow> jstr) \<Rightarrow> bool \<Rightarrow> 'w wire_handler" where
  "createHttpMcpClient post as_text binary w raw =
    (let (w', r) = post w (if binary then js ''application/octet-stream'' else js ''application/json'', wire_bytes raw) in
     (w', map_option (\<lambda>b. if binary then WireFrame b else WireText (as_text b)) r))"

section \<open>Properties\<close>

definition client_run :: "stdio_client \<Rightarrow> client_event list \<Rightarrow> stdio_client" where
  "client_run c evs = foldl client_event_step c evs"

definition sends :: "client_event list \<Rightarrow> nat" where
  "sends evs = length (filter (\<lambda>ev. case ev of Send (WireText s) \<Rightarrow> True | _ \<Rightarrow> False) evs)"

text \<open>Whatever is sent and received in whatever order, the requests answered so far and those that wait are, in this order, all requests sent.\<close>

lemma client_order:
  "map fst (sc_answered (client_run c evs)) @ sc_pending (client_run c evs) = [0..<sc_next (client_run c evs)]"
  if "map fst (sc_answered c) @ sc_pending c = [0..<sc_next c]" for c evs
  using that
proof (induction evs arbitrary: c)
  case (Cons ev evs)
  have "map fst (sc_answered (client_event_step c ev)) @ sc_pending (client_event_step c ev) = [0..<sc_next (client_event_step c ev)]"
  proof (cases ev)
    case (Send raw)
    then show ?thesis using Cons.prems [symmetric] by (simp add: client_event_step_def split: option.split)
  next
    case (Line l)
    then show ?thesis using Cons.prems by (auto simp: client_event_step_def split: option.split list.split)
  qed
  from Cons.IH [OF this] show ?case by (simp add: client_run_def)
qed (simp add: client_run_def)

theorem stdio_answers_in_order:
  "map fst (sc_answered (client_run createStdioMcpClient evs)) @ sc_pending (client_run createStdioMcpClient evs)
    = [0..<sc_next (client_run createStdioMcpClient evs)]"
  by (rule client_order) (simp add: createStdioMcpClient_def)

text \<open>The server writes one line per non-empty line it reads as long as the handler answers with text.\<close>

lemma serve_lines:
  assumes "\<And>w x. \<exists>w' s. handle w x = (w', Some (WireText s))"
  shows "length (fst (snd (foldl (serve_line handle) st lines))) = length (fst (snd st)) + length (List.map_filter line_wire lines)
    \<and> snd (snd (foldl (serve_line handle) st lines)) = snd (snd st)"
proof (induction lines arbitrary: st)
  case (Cons l ls)
  show ?case
  proof (cases "line_wire l")
    case None
    then show ?thesis using Cons.IH [of st] by (simp add: serve_line_def map_filter_simps)
  next
    case (Some raw)
    obtain w' s where h: "handle (fst st) (WireText raw) = (w', Some (WireText s))" using assms by blast
    then have "serve_line handle st l = (w', fst (snd st) @ [s @ [10]], snd (snd st))" by (simp add: serve_line_def Some assertStringWire_def)
    then show ?thesis using Cons.IH [of "(w', fst (snd st) @ [s @ [10]], snd (snd st))"] Some by (simp add: map_filter_simps)
  qed
qed (simp add: map_filter_simps)

theorem stdio_serves_every_line:
  assumes "\<And>w x. \<exists>w' s. handle w x = (w', Some (WireText s))"
  shows "length (fst (snd (serveMcpOverStdio handle w lines))) = length (List.map_filter line_wire lines)"
  using serve_lines [OF assms, where st = "(w, [], 0)"] by (simp add: serveMcpOverStdio_def)

text \<open>A request whose handling throws is answered by no line, so the answer to the next request goes to it.\<close>

theorem unanswered_line_shifts:
  assumes "line_wire l = Some a" "line_wire m = Some b" "handle w (WireText a) = (w', None)" "handle w' (WireText b) = (w'', Some (WireText s))" "line_wire (s @ [10]) = Some s"
  shows "fst (snd (serveMcpOverStdio handle w [l, m])) = [s @ [10]]
    \<and> sc_answered (client_run createStdioMcpClient (map (\<lambda>x. Send (WireText x)) [l, m] @ map Line (fst (snd (serveMcpOverStdio handle w [l, m]))))) = [(0, s)]"
  using assms by (simp add: serveMcpOverStdio_def serve_line_def assertStringWire_def client_run_def createStdioMcpClient_def client_event_step_def)

end
