(* ===== verification/AgentSession.thy ===== *)
theory AgentSession
  imports McpWrapper
begin

text \<open>
  \<open>src/protocolCapabilities.ts\<close> and \<open>src/protocolAgent.ts\<close>: what agents announce and negotiate,
  and the session that receives an envelope and answers it. A session is a process on its replay
  cache and the state \<open>'s\<close> of the functions the caller passes in, each of which may throw.
\<close>

section \<open>Capabilities\<close>

datatype ack_mode = FastAck | ReceiptAck

fun ack_text :: "ack_mode \<Rightarrow> jstr" where
  "ack_text FastAck = js ''fast''"
| "ack_text ReceiptAck = js ''receipt''"

fun format_text :: "wire_format \<Rightarrow> jstr" where
  "format_text JsonFormat = js ''json''"
| "format_text CompactFormat = js ''compact''"
| "format_text BinaryFormat = js ''binary''"

record aip_capabilities =
  ac_agent :: jstr
  ac_capabilities :: "jstr list"
  ac_wireFormats :: "wire_format list"
  ac_batchMax :: jnum
  ac_ackModes :: "ack_mode list"

definition WIRE_FORMAT_ORDER :: "wire_format list" where
  "WIRE_FORMAT_ORDER = [BinaryFormat, CompactFormat, JsonFormat]"

definition ACK_MODE_ORDER :: "ack_mode list" where
  "ACK_MODE_ORDER = [FastAck, ReceiptAck]"

definition createAipCapabilities ::
  "jstr \<Rightarrow> jstr list option \<Rightarrow> wire_format list option \<Rightarrow> jnum option \<Rightarrow> ack_mode list option \<Rightarrow> aip_capabilities" where
  "createAipCapabilities agent caps formats batch acks =
    \<lparr>ac_agent = agent, ac_capabilities = (case caps of None \<Rightarrow> [] | Some c \<Rightarrow> c),
     ac_wireFormats = (case formats of None \<Rightarrow> [CompactFormat, JsonFormat] | Some f \<Rightarrow> f),
     ac_batchMax = (case batch of None \<Rightarrow> Fin 1 | Some n \<Rightarrow> n), ac_ackModes = (case acks of None \<Rightarrow> [ReceiptAck] | Some a \<Rightarrow> a)\<rparr>"

definition capabilities_json :: "aip_capabilities \<Rightarrow> json" where
  "capabilities_json c = JObj
    [(js ''agent'', JStr (ac_agent c)), (js ''capabilities'', JArr (map JStr (ac_capabilities c))),
     (js ''wireFormats'', JArr (map (\<lambda>f. JStr (format_text f)) (ac_wireFormats c))), (js ''batchMax'', JNum (ac_batchMax c)),
     (js ''ackModes'', JArr (map (\<lambda>a. JStr (ack_text a)) (ac_ackModes c)))]"

definition encodeAipCapabilities :: "aip_capabilities \<Rightarrow> jstr" where
  "encodeAipCapabilities c = print_json (capabilities_json c)"

text \<open>The items of a received array that are the text of a known value.\<close>

definition known_items :: "'a list \<Rightarrow> ('a \<Rightarrow> jstr) \<Rightarrow> json list \<Rightarrow> 'a list" where
  "known_items vs f xs = List.map_filter (\<lambda>x. find (\<lambda>v. x = JStr (f v)) vs) xs"

definition text_items :: "json list \<Rightarrow> jstr list" where
  "text_items xs = List.map_filter (\<lambda>x. case x of JStr s \<Rightarrow> Some s | _ \<Rightarrow> None) xs"

definition parseAipCapabilities :: "(jstr \<Rightarrow> json option) \<Rightarrow> jstr \<Rightarrow> aip_capabilities option" where
  "parseAipCapabilities parse raw =
    (case parse raw of
       None \<Rightarrow> None
     | Some p \<Rightarrow>
         (case (jmember p ''agent'', jmember p ''capabilities'', jmember p ''wireFormats'', jmember p ''ackModes'', jmember p ''batchMax'') of
            (Some (JStr a), Some (JArr cs), Some (JArr fs), Some (JArr as), Some (JNum n)) \<Rightarrow>
              if jnum_less n (Fin 1) then None
              else Some \<lparr>ac_agent = a, ac_capabilities = text_items cs, ac_wireFormats = known_items [JsonFormat, CompactFormat, BinaryFormat] format_text fs,
                ac_batchMax = n, ac_ackModes = known_items [FastAck, ReceiptAck] ack_text as\<rparr>
          | _ \<Rightarrow> None))"

text \<open>\<open>Math.min\<close> and \<open>Math.max\<close>.\<close>

definition jnum_min :: "jnum \<Rightarrow> jnum \<Rightarrow> jnum" where
  "jnum_min a b = (if a = NaN \<or> b = NaN then NaN else if jnum_less b a then b else a)"

definition jnum_max :: "jnum \<Rightarrow> jnum \<Rightarrow> jnum" where
  "jnum_max a b = (if a = NaN \<or> b = NaN then NaN else if jnum_less a b then b else a)"

definition first_common :: "'a list \<Rightarrow> 'a list \<Rightarrow> 'a list \<Rightarrow> 'a \<Rightarrow> 'a" where
  "first_common order xs ys dflt = (case find (\<lambda>v. v \<in> set xs \<and> v \<in> set ys) order of None \<Rightarrow> dflt | Some v \<Rightarrow> v)"

record negotiated =
  ng_wireFormat :: wire_format
  ng_batchMax :: jnum
  ng_ackMode :: ack_mode

definition negotiateAipCapabilities :: "aip_capabilities \<Rightarrow> aip_capabilities \<Rightarrow> negotiated" where
  "negotiateAipCapabilities a b =
    \<lparr>ng_wireFormat = first_common WIRE_FORMAT_ORDER (ac_wireFormats a) (ac_wireFormats b) CompactFormat,
     ng_batchMax = jnum_max (Fin 1) (jnum_min (ac_batchMax a) (ac_batchMax b)),
     ng_ackMode = first_common ACK_MODE_ORDER (ac_ackModes a) (ac_ackModes b) ReceiptAck\<rparr>"

lemma known_formats: "known_items [JsonFormat, CompactFormat, BinaryFormat] format_text (map (\<lambda>f. JStr (format_text f)) fs) = fs"
proof (induction fs)
  case (Cons f fs)
  then show ?case by (cases f) (simp_all add: known_items_def map_filter_simps ascii_eval)
qed (simp add: known_items_def map_filter_simps)

lemma known_acks: "known_items [FastAck, ReceiptAck] ack_text (map (\<lambda>a. JStr (ack_text a)) as) = as"
proof (induction "as")
  case (Cons a as')
  then show ?case by (cases a) (simp_all add: known_items_def map_filter_simps ascii_eval)
qed (simp add: known_items_def map_filter_simps)

lemma text_items_JStr: "text_items (map JStr xs) = xs"
  by (induction xs) (simp_all add: text_items_def map_filter_simps)

text \<open>Announced capabilities are read back as they were, by a parser that reads what is printed.\<close>

theorem capabilities_round_trip:
  assumes "parse (print_json (capabilities_json c)) = Some (capabilities_json c)" "\<not> jnum_less (ac_batchMax c) (Fin 1)"
  shows "parseAipCapabilities parse (encodeAipCapabilities c) = Some c"
proof -
  have m: "jmember (capabilities_json c) ''agent'' = Some (JStr (ac_agent c))" "jmember (capabilities_json c) ''capabilities'' = Some (JArr (map JStr (ac_capabilities c)))"
    "jmember (capabilities_json c) ''wireFormats'' = Some (JArr (map (\<lambda>f. JStr (format_text f)) (ac_wireFormats c)))"
    "jmember (capabilities_json c) ''ackModes'' = Some (JArr (map (\<lambda>a. JStr (ack_text a)) (ac_ackModes c)))"
    "jmember (capabilities_json c) ''batchMax'' = Some (JNum (ac_batchMax c))"
    by (simp_all add: capabilities_json_def)
  show ?thesis
    using assms by (simp add: parseAipCapabilities_def encodeAipCapabilities_def m known_formats known_acks text_items_JStr)
qed

text \<open>Both sides compute the same agreement.\<close>

lemma jnum_min_commute: "jnum_min a b = jnum_min b a"
  by (cases a; cases b) (auto simp: jnum_min_def)

theorem negotiation_symmetric: "negotiateAipCapabilities a b = negotiateAipCapabilities b a"
proof -
  have "first_common order xs ys d = first_common order ys xs d" for order xs ys :: "'x list" and d
    by (simp add: first_common_def conj_commute)
  then show ?thesis by (simp add: negotiateAipCapabilities_def jnum_min_commute [of "ac_batchMax a"] first_common_def conj_commute)
qed

text \<open>The agreed format is the first of the order that both offer. Without a common one it is the compact format, which then at least one side does not offer.\<close>

theorem negotiated_format:
  "(ng_wireFormat (negotiateAipCapabilities a b) \<in> set (ac_wireFormats a) \<inter> set (ac_wireFormats b)) =
    (set (ac_wireFormats a) \<inter> set (ac_wireFormats b) \<noteq> {})"
proof -
  let ?I = "set (ac_wireFormats a) \<inter> set (ac_wireFormats b)"
  have all: "v \<in> set WIRE_FORMAT_ORDER" for v by (cases v) (simp_all add: WIRE_FORMAT_ORDER_def)
  show ?thesis
  proof (cases "find (\<lambda>v. v \<in> ?I) WIRE_FORMAT_ORDER")
    case None
    then have "?I = {}" using all by (auto simp: find_None_iff)
    then show ?thesis by simp
  next
    case (Some v)
    then have "v \<in> ?I" by (auto simp: find_Some_iff)
    with Some show ?thesis by (auto simp: negotiateAipCapabilities_def first_common_def)
  qed
qed

section \<open>The session\<close>

record task_result =
  tr_intent :: "intent option"
  tr_content :: jstr
  tr_capability :: "jstr option"

record 's agent_config =
  ag_agentId :: jstr
  ag_outboundSecret :: jstr
  ag_keyId :: "jstr option"
  ag_capabilities :: "jstr list option"
  ag_wireFormats :: "wire_format list option"
  ag_maxBatchSize :: "jnum option"
  ag_ackModes :: "ack_mode list option"
  ag_requireSignature :: "bool option"
  ag_sharedSecrets :: "(jstr, jstr) jsmap"
  ag_resolve :: "('s \<Rightarrow> json option \<Rightarrow> jstr \<Rightarrow> 's \<times> jstr option option) option"
  ag_onTask :: "('s \<Rightarrow> json \<Rightarrow> 's \<times> task_result option) option"

record 's agent_world =
  aw_replay :: replay_cache
  aw_env :: 's

definition agent_env :: "('s \<Rightarrow> 's \<times> 'b) \<Rightarrow> 's agent_world \<Rightarrow> 's agent_world \<times> 'b" where
  "agent_env f w = (let (v, r) = f (aw_env w) in (w\<lparr>aw_env := v\<rparr>, r))"

text \<open>A name that every object inherits is found in the table of secrets as a function, which no key can be made of.\<close>

definition shared_secret :: "(jstr, jstr) jsmap \<Rightarrow> jstr \<Rightarrow> jstr option option" where
  "shared_secret ss sndr = (case mget ss sndr of Some s \<Rightarrow> Some (Some s) | None \<Rightarrow> if sndr \<in> set inherited_names then None else Some None)"

definition inboundSecretResolver :: "'s agent_config \<Rightarrow> 's agent_world \<Rightarrow> json option \<Rightarrow> jstr \<Rightarrow> 's agent_world \<times> jstr option option" where
  "inboundSecretResolver cfg w kid sndr =
    (case ag_resolve cfg of Some f \<Rightarrow> agent_env (\<lambda>v. f v kid sndr) w | None \<Rightarrow> (w, shared_secret (ag_sharedSecrets cfg) sndr))"

definition agent_replay :: "'s agent_world \<Rightarrow> header \<Rightarrow> int \<Rightarrow> 's agent_world \<times> replay_result option" where
  "agent_replay w h now = (let (c, r) = consume (aw_replay w) h now in (w\<lparr>aw_replay := c\<rparr>, r))"

definition agent_options :: "'s agent_config \<Rightarrow> 's agent_world receive_options" where
  "agent_options cfg =
    \<lparr>op_requireSignature = Some (case ag_requireSignature cfg of None \<Rightarrow> True | Some b \<Rightarrow> b), op_maxClockSkewMs = None, op_replayCache = Some agent_replay,
     op_cacheGet = None, op_cacheSet = (\<lambda>w k m e. w), op_secretResolver = Some (inboundSecretResolver cfg), op_signatureResolver = None, op_telemetry = None\<rparr>"

record intent_input =
  ii_recipient :: "jstr option"
  ii_intent :: intent
  ii_content :: jstr
  ii_capability :: "jstr option"
  ii_correlationId :: "jstr option"
  ii_nowMs :: "int option"

definition createSignedIntent :: "crypto \<Rightarrow> 's agent_config \<Rightarrow> intent_input \<Rightarrow> int \<Rightarrow> bytes \<Rightarrow> bytes \<Rightarrow> envelope option" where
  "createSignedIntent C cfg i clock rnd6 rnd12 =
    (let (h, b) = createEnvelope \<lparr>in_sender = ag_agentId cfg, in_recipient = ii_recipient i, in_intent = ii_intent i, in_content = ii_content i,
           in_capability = ii_capability i, in_correlationId = ii_correlationId i, in_ttlMs = None, in_messageId = None, in_nonce = None,
           in_nowMs = ii_nowMs i\<rparr> clock rnd6 rnd12
     in signEnvelopeHmac C h b (ag_outboundSecret cfg) (case ag_keyId cfg of None \<Rightarrow> ag_agentId cfg @ js ''-k1'' | Some k \<Rightarrow> k))"

definition own_capabilities :: "'s agent_config \<Rightarrow> aip_capabilities" where
  "own_capabilities cfg = createAipCapabilities (ag_agentId cfg) (Some (case ag_capabilities cfg of None \<Rightarrow> [] | Some c \<Rightarrow> c))
    (Some (case ag_wireFormats cfg of None \<Rightarrow> [CompactFormat, JsonFormat] | Some f \<Rightarrow> f))
    (Some (case ag_maxBatchSize cfg of None \<Rightarrow> Fin 1 | Some n \<Rightarrow> n)) (Some (case ag_ackModes cfg of None \<Rightarrow> [ReceiptAck] | Some a \<Rightarrow> a))"

definition body_member :: "json \<Rightarrow> string \<Rightarrow> json option" where
  "body_member e f = (case jmember e ''body'' of None \<Rightarrow> None | Some b \<Rightarrow> jmember b f)"

definition text_or_none :: "json option \<Rightarrow> jstr option" where
  "text_or_none v = (case v of Some (JStr s) \<Rightarrow> Some s | _ \<Rightarrow> None)"

text \<open>The answer a task gets without a handler.\<close>

definition acknowledge :: "json \<Rightarrow> task_result" where
  "acknowledge e = \<lparr>tr_intent = Some RESULT, tr_content = js ''ACK'', tr_capability = text_or_none (body_member e ''capability'')\<rparr>"

definition answer_to :: "json \<Rightarrow> int \<Rightarrow> intent \<Rightarrow> jstr \<Rightarrow> jstr option \<Rightarrow> intent_input" where
  "answer_to e now i cont cap = \<lparr>ii_recipient = header_text (Some e) ''sender'', ii_intent = i, ii_content = cont, ii_capability = cap,
    ii_correlationId = header_text (Some e) ''messageId'', ii_nowMs = Some now\<rparr>"

text \<open>\<open>Done None\<close>: the handler, the signing or the reading of an absent body throws; \<open>None\<close> inside: no answer to this intent.\<close>

definition buildAutoResponse ::
  "crypto \<Rightarrow> 's agent_config \<Rightarrow> json \<Rightarrow> int \<Rightarrow> int \<Rightarrow> bytes \<Rightarrow> bytes \<Rightarrow> ('s agent_world, envelope option) proc" where
  "buildAutoResponse C cfg e now clock rnd6 rnd12 =
    (let send = \<lambda>i. Done (map_option Some (createSignedIntent C cfg i clock rnd6 rnd12)) in
     if readable (jmember e ''body'') = None then Done None
     else if body_member e ''intent'' = Some (JStr (js ''PING'')) then send (answer_to e now PONG (js ''pong'') None)
     else if body_member e ''intent'' = Some (JStr (js ''CAPS'')) then
       send (answer_to e now RESULT (encodeAipCapabilities (own_capabilities cfg)) (Some (js ''caps'')))
     else if body_member e ''intent'' = Some (JStr (js ''TASK'')) then
       (let finish = \<lambda>t. send (answer_to e now (case tr_intent t of None \<Rightarrow> RESULT | Some i \<Rightarrow> i) (tr_content t) (tr_capability t)) in
        case ag_onTask cfg of None \<Rightarrow> finish (acknowledge e) | Some f \<Rightarrow> act (\<lambda>w. agent_env (\<lambda>v. f v e) w) finish)
     else Done (Some None))"

record agent_result =
  ar_ok :: bool
  ar_diagnostics :: "transport_diagnostic list"
  ar_received :: "json option"
  ar_response :: "envelope option"

definition receiveAndRespond ::
  "crypto \<Rightarrow> (jstr \<Rightarrow> json option) \<Rightarrow> 's agent_config \<Rightarrow> receive_input \<Rightarrow> int \<Rightarrow> int \<Rightarrow> bytes \<Rightarrow> bytes \<Rightarrow> ('s agent_world, agent_result) proc" where
  "receiveAndRespond C parse cfg input now clock rnd6 rnd12 =
    bind_proc (receiveEnvelope C parse (agent_options cfg) now input)
      (\<lambda>r. case (rr_ok r \<and> truthy_json (rr_envelope r), rr_envelope r) of
         (True, Some e) \<Rightarrow>
           bind_proc (buildAutoResponse C cfg e now clock rnd6 rnd12)
             (\<lambda>a. Done (Some \<lparr>ar_ok = True, ar_diagnostics = rr_diagnostics r, ar_received = Some e, ar_response = a\<rparr>))
       | _ \<Rightarrow> Done (Some \<lparr>ar_ok = False, ar_diagnostics = rr_diagnostics r, ar_received = rr_envelope r, ar_response = None\<rparr>))"

section \<open>What is answered\<close>

lemma signed_intent:
  "createSignedIntent C cfg i clock rnd6 rnd12 = Some x \<Longrightarrow> sender (header x) = ag_agentId cfg \<and> recipient (header x) = ii_recipient i
    \<and> correlationId (body x) = ii_correlationId i \<and> intent (body x) = ii_intent i \<and> timestampMs (header x) = Fin (case ii_nowMs i of None \<Rightarrow> clock | Some t \<Rightarrow> t)
    \<and> (hmac_key_ok C (utf8Encode (ag_outboundSecret cfg)) \<longrightarrow> verifyEnvelopeHmac C x (ag_outboundSecret cfg) = Some True)"
proof -
  assume a: "createSignedIntent C cfg i clock rnd6 rnd12 = Some x"
  define ci where "ci = \<lparr>in_sender = ag_agentId cfg, in_recipient = ii_recipient i, in_intent = ii_intent i, in_content = ii_content i,
     in_capability = ii_capability i, in_correlationId = ii_correlationId i, in_ttlMs = None, in_messageId = None, in_nonce = None, in_nowMs = ii_nowMs i\<rparr>"
  obtain h b where hb: "createEnvelope ci clock rnd6 rnd12 = (h, b)" by (cases "createEnvelope ci clock rnd6 rnd12")
  have f: "sender h = ag_agentId cfg" "recipient h = ii_recipient i" "correlationId b = ii_correlationId i" "intent b = ii_intent i"
    "timestampMs h = Fin (case ii_nowMs i of None \<Rightarrow> clock | Some t \<Rightarrow> t)"
    using hb by (auto simp: createEnvelope_def Let_def ci_def split: option.split)
  obtain k s where s: "signCanonicalPayloadHmac C (canonicalizeEnvelope h b) (ag_outboundSecret cfg) = Some s"
    "x = \<lparr>header = h, body = b, signature = Some \<lparr>alg = HS256, keyId = k, sigValue = s\<rparr>\<rparr>"
    using a hb by (auto simp: createSignedIntent_def ci_def [symmetric] signEnvelopeHmac_def)
  have "verifyEnvelopeHmac C x (ag_outboundSecret cfg) = Some True" if "hmac_key_ok C (utf8Encode (ag_outboundSecret cfg))"
    using hmac.sign_verifies [of C "ag_outboundSecret cfg" "ag_outboundSecret cfg", OF _ s(1)] that by (simp add: s(2) verifyEnvelopeHmac_def hmac_pair_def)
  with f s(2) show ?thesis by simp
qed

lemma auto_response:
  assumes "snd (run (buildAutoResponse C cfg e now clock rnd6 rnd12) w) = Some (Some x)"
  shows "\<exists>i cont cap. createSignedIntent C cfg (answer_to e now i cont cap) clock rnd6 rnd12 = Some x
    \<and> (body_member e ''intent'' = Some (JStr (js ''PING'')) \<and> i = PONG \<or> body_member e ''intent'' = Some (JStr (js ''CAPS'')) \<and> i = RESULT
       \<or> body_member e ''intent'' = Some (JStr (js ''TASK'')))"
  using assms unfolding buildAutoResponse_def Let_def
  by (auto split: if_splits option.splits prod.splits)

text \<open>A session that requires signatures answers only an envelope that was verified and let through by its replay cache, and the answer goes back to that sender, names that message, and is signed with the session's own secret.\<close>

theorem agent_answers_verified:
  assumes "snd (run (receiveAndRespond C parse cfg (Wire raw) now clock rnd6 rnd12) w) = Some a" "ar_response a = Some x"
    "ag_requireSignature cfg \<noteq> Some False" "hmac_key_ok C (utf8Encode (ag_outboundSecret cfg))"
  shows "\<exists>e h sg m payload. ar_received a = Some e \<and> decodeEnvelope parse raw = decoded e \<and> jmember e ''header'' = Some h \<and> jmember e ''signature'' = Some sg
    \<and> no_errors (validateEnvelope e now) \<and> material_source (agent_options cfg) now sg (string_or_empty (jmember h ''sender'')) m
    \<and> canonical_text h (jmember e ''body'') = Some payload \<and> verify_payload C payload sg m = Some True \<and> replay_passed (agent_options cfg) now h
    \<and> recipient (header x) = header_text (Some e) ''sender'' \<and> correlationId (body x) = header_text (Some e) ''messageId''
    \<and> sender (header x) = ag_agentId cfg \<and> verifyEnvelopeHmac C x (ag_outboundSecret cfg) = Some True"
proof -
  let ?o = "agent_options cfg"
  obtain w1 y where y: "run (receiveEnvelope C parse ?o now (Wire raw)) w = (w1, y)" by (cases "run (receiveEnvelope C parse ?o now (Wire raw)) w")
  obtain r where r: "y = Some r" using assms(1) unfolding receiveAndRespond_def run_bind y by (cases y) simp_all
  have ok: "rr_ok r \<and> truthy_json (rr_envelope r)"
    using assms(1,2) unfolding receiveAndRespond_def run_bind y r by (auto split: bool.splits option.splits)
  obtain e where e: "rr_envelope r = Some e" using ok by (cases "rr_envelope r") (simp_all add: truthy_json_def)
  have b: "snd (run (buildAutoResponse C cfg e now clock rnd6 rnd12) w1) = Some (Some x)" "ar_received a = Some e"
    using assms(1,2) ok e unfolding receiveAndRespond_def run_bind y r by (auto simp: run_bind split: prod.splits option.splits)
  obtain i cont cap where s: "createSignedIntent C cfg (answer_to e now i cont cap) clock rnd6 rnd12 = Some x"
    using auto_response [OF b(1)] by blast
  have m: "may (receiveEnvelope C parse ?o now (Wire raw)) (Some r)"
    using may_run [of "receiveEnvelope C parse ?o now (Wire raw)" w] y r by simp
  obtain e' h where h: "arrived parse (Wire raw) e'" "jmember e' ''header'' = Some h" "rr_envelope r = Some e'" "no_errors (validateEnvelope e' now)"
      "if truthy_json (jmember e' ''signature'') then authenticated C ?o now e' h (the (jmember e' ''signature'')) else op_requireSignature ?o = Some False"
    using may_receive [OF m] ok by blast
  have ee: "e' = e" using h(3) e by simp
  have q: "op_requireSignature ?o = Some True" using assms(3) by (auto simp: agent_options_def split: option.split)
  with h(5) have s2: "truthy_json (jmember e ''signature'')" "authenticated C ?o now e h (the (jmember e ''signature''))"
    by (auto simp: ee split: if_splits)
  obtain sg where sg: "jmember e ''signature'' = Some sg" using s2(1) by (cases "jmember e ''signature''") (simp_all add: truthy_json_def)
  obtain m' payload where mp: "material_source ?o now sg (string_or_empty (jmember h ''sender'')) m'"
    "canonical_text h (jmember e ''body'') = Some payload" "verify_payload C payload sg m' = Some True" "replay_passed ?o now h"
    using s2(2) sg unfolding authenticated_def by auto
  have f: "recipient (header x) = header_text (Some e) ''sender''" "correlationId (body x) = header_text (Some e) ''messageId''"
    "sender (header x) = ag_agentId cfg" "verifyEnvelopeHmac C x (ag_outboundSecret cfg) = Some True"
    using signed_intent [OF s] assms(4) by (simp_all add: answer_to_def)
  have d: "decodeEnvelope parse raw = decoded e" using h(1) ee by simp
  show ?thesis
    by (rule exI [of _ e], rule exI [of _ h], rule exI [of _ sg], rule exI [of _ m'], rule exI [of _ payload], intro conjI)
      (rule b(2) d h(2,4) [unfolded ee] sg mp f)+
qed

end
