(* ===== verification/Encryption.thy ===== *)
theory Encryption
  imports HttpBinding Digest
begin

text \<open>
  \<open>src/encryption.ts\<close>: bodies encrypted to the X25519 key of a recipient with an ephemeral key
  pair and ChaCha20-Poly1305, and the envelopes that carry them under an Ed25519 signature. The
  primitives of the platform, \<open>JSON.parse\<close>, the fresh key pair and the random nonce are
  parameters; \<open>None\<close> is an exception.
\<close>

section \<open>The primitives\<close>

record box_ops =
  bx_priv_ok :: "bytes \<Rightarrow> bool"
  bx_pub_ok :: "bytes \<Rightarrow> bool"
  bx_dh :: "bytes \<Rightarrow> bytes \<Rightarrow> bytes option"
  bx_hkdf :: "bytes \<Rightarrow> bytes \<Rightarrow> bytes \<Rightarrow> nat \<Rightarrow> bytes"
  bx_seal :: "bytes \<Rightarrow> bytes \<Rightarrow> bytes \<Rightarrow> bytes \<times> bytes"
  bx_open :: "bytes \<Rightarrow> bytes \<Rightarrow> bytes \<Rightarrow> bytes \<Rightarrow> bytes option"
  bx_buffer :: "json \<Rightarrow> bytes option"

text \<open>\<open>bx_buffer\<close> is what \<open>Buffer.from\<close> makes of a value that is no text.\<close>

record x25519_pair =
  x_publicKey :: jstr
  x_privateKey :: jstr

definition X25519_PKCS8_HEADER :: bytes where
  "X25519_PKCS8_HEADER = [0x30, 0x2e, 0x02, 0x01, 0x00, 0x30, 0x05, 0x06, 0x03, 0x2b, 0x65, 0x6e, 0x04, 0x22, 0x04, 0x20]"

definition X25519_SPKI_HEADER :: bytes where
  "X25519_SPKI_HEADER = [0x30, 0x2a, 0x30, 0x05, 0x06, 0x03, 0x2b, 0x65, 0x6e, 0x03, 0x21, 0x00]"

text \<open>\<open>Buffer.from(s, 'base64url')\<close> on a member that may be of any type, and \<open>toString('utf8')\<close>.\<close>

definition buffer_of :: "box_ops \<Rightarrow> json option \<Rightarrow> bytes option" where
  "buffer_of X v = (case v of None \<Rightarrow> None | Some (JStr s) \<Rightarrow> Some (base64_decode s) | Some w \<Rightarrow> bx_buffer X w)"

definition buffer_text :: "bytes \<Rightarrow> jstr" where
  "buffer_text bs = concat (map utf16_of (utf8_points bs))"

definition importX25519Private :: "box_ops \<Rightarrow> bytes \<Rightarrow> bytes option" where
  "importX25519Private X raw = (let der = X25519_PKCS8_HEADER @ raw in if bx_priv_ok X der then Some der else None)"

definition importX25519Public :: "box_ops \<Rightarrow> bytes \<Rightarrow> bytes option" where
  "importX25519Public X raw = (let der = X25519_SPKI_HEADER @ raw in if bx_pub_ok X der then Some der else None)"

definition derive_key :: "box_ops \<Rightarrow> bytes \<Rightarrow> bytes \<Rightarrow> bytes \<Rightarrow> bytes option" where
  "derive_key X priv pub salt =
    (case (importX25519Private X priv, importX25519Public X pub) of
       (Some p, Some q) \<Rightarrow> map_option (\<lambda>s. bx_hkdf X s salt (utf8Encode (js ''7h3-enc/1'')) 32) (bx_dh X p q)
     | _ \<Rightarrow> None)"

definition deriveEncryptionKey :: "box_ops \<Rightarrow> jstr \<Rightarrow> jstr \<Rightarrow> jstr \<Rightarrow> bytes option" where
  "deriveEncryptionKey X priv pub nonce' = derive_key X (base64_decode priv) (base64_decode pub) (base64_decode nonce')"

section \<open>Bodies\<close>

definition encrypted_payload :: "jstr \<Rightarrow> bytes \<Rightarrow> bytes \<times> bytes \<Rightarrow> json" where
  "encrypted_payload pub nonce12 ct = JObj
    [(js ''ephemeralPublic'', JStr pub), (js ''nonce'', JStr (toBase64Url nonce12)),
     (js ''ciphertext'', JStr (toBase64Url (fst ct))), (js ''tag'', JStr (toBase64Url (snd ct)))]"

definition encryptBody :: "box_ops \<Rightarrow> body \<Rightarrow> jstr \<Rightarrow> x25519_pair \<Rightarrow> bytes \<Rightarrow> (jstr \<times> jstr) option" where
  "encryptBody X b rpub eph nonce12 =
    map_option (\<lambda>key. (toBase64Url (utf8Encode (print_json (encrypted_payload (x_publicKey eph) nonce12
        (bx_seal X key nonce12 (utf8Encode (print_json (body_json b))))))), x_publicKey eph))
      (deriveEncryptionKey X (x_privateKey eph) rpub (toBase64Url nonce12))"

definition decryptBody :: "box_ops \<Rightarrow> (jstr \<Rightarrow> json option) \<Rightarrow> jstr \<Rightarrow> jstr \<Rightarrow> json option" where
  "decryptBody X parse encrypted rpriv =
    (case parse (buffer_text (base64_decode encrypted)) of
       None \<Rightarrow> None
     | Some p \<Rightarrow>
         (case (buffer_of X (jmember p ''ephemeralPublic''), buffer_of X (jmember p ''nonce''), buffer_of X (jmember p ''ciphertext''), buffer_of X (jmember p ''tag'')) of
            (Some pub, Some n, Some ct, Some tag) \<Rightarrow>
              (case derive_key X (base64_decode rpriv) pub n of
                 None \<Rightarrow> None
               | Some key \<Rightarrow> (case bx_open X key n ct tag of None \<Rightarrow> None | Some plain \<Rightarrow> parse (buffer_text plain)))
          | _ \<Rightarrow> None))"

section \<open>Envelopes\<close>

definition sealEnvelope :: "crypto \<Rightarrow> box_ops \<Rightarrow> header \<Rightarrow> body \<Rightarrow> jstr \<Rightarrow> jstr \<Rightarrow> x25519_pair \<Rightarrow> bytes \<Rightarrow> envelope option" where
  "sealEnvelope C X h b rpub spriv eph nonce12 =
    (case encryptBody X b rpub eph nonce12 of
       None \<Rightarrow> None
     | Some (cont, _) \<Rightarrow>
         signEnvelopeEd25519 C h \<lparr>intent = ENCRYPTED, content = cont, capability = Some (js ''x25519-chacha20poly1305''), correlationId = correlationId b\<rparr>
           spriv default_ed_key_id)"

definition openEnvelope :: "crypto \<Rightarrow> box_ops \<Rightarrow> (jstr \<Rightarrow> json option) \<Rightarrow> envelope \<Rightarrow> jstr \<Rightarrow> jstr \<Rightarrow> (envelope \<times> json) option" where
  "openEnvelope C X parse e rpriv spub =
    (case verifyEnvelopeEd25519 C e spub of
       Some True \<Rightarrow> map_option (Pair e) (decryptBody X parse (content (body e)) rpriv)
     | _ \<Rightarrow> None)"

section \<open>Properties\<close>

text \<open>What the platform promises of its primitives for the keys of a message.\<close>

definition agreed :: "box_ops \<Rightarrow> x25519_pair \<Rightarrow> jstr \<Rightarrow> jstr \<Rightarrow> bool" where
  "agreed X eph rpub rpriv \<longleftrightarrow>
    bx_priv_ok X (X25519_PKCS8_HEADER @ base64_decode rpriv) \<and> bx_pub_ok X (X25519_SPKI_HEADER @ base64_decode (x_publicKey eph))
    \<and> bx_dh X (X25519_PKCS8_HEADER @ base64_decode rpriv) (X25519_SPKI_HEADER @ base64_decode (x_publicKey eph))
      = bx_dh X (X25519_PKCS8_HEADER @ base64_decode (x_privateKey eph)) (X25519_SPKI_HEADER @ base64_decode rpub)"

lemma buffer_text_print: "buffer_text (utf8Encode (print_json v)) = print_json v"
  using well_formed_print [of v "[]"] by (simp add: buffer_text_def utf8_points_utf8Encode utf16_code_points)

lemma base64_decode_url: "base64_decode (toBase64Url bs) = bs"
proof -
  have "List.map_filter b64_val (replicate n 61) = []" for n by (induction n) (simp_all add: map_filter_simps)
  then have "fromBase64Url s = base64_decode s" for s
    by (simp add: fromBase64Url_def base64_decode_def padEnd_def map_filter_append map_filter_replace)
  then show ?thesis using base64url_roundtrip by metis
qed

definition payload_of :: "box_ops \<Rightarrow> bytes \<Rightarrow> body \<Rightarrow> x25519_pair \<Rightarrow> bytes \<Rightarrow> json" where
  "payload_of X key b eph nonce12 = encrypted_payload (x_publicKey eph) nonce12 (bx_seal X key nonce12 (utf8Encode (print_json (body_json b))))"

lemma decrypt_encrypted:
  assumes "deriveEncryptionKey X (x_privateKey eph) rpub (toBase64Url nonce12) = Some key" "agreed X eph rpub rpriv"
    and "\<And>n p. bx_open X key n (fst (bx_seal X key n p)) (snd (bx_seal X key n p)) = Some p"
    and "parse (print_json (payload_of X key b eph nonce12)) = Some (payload_of X key b eph nonce12)" "parse (print_json (body_json b)) = Some (body_json b)"
  shows "\<exists>cont. encryptBody X b rpub eph nonce12 = Some (cont, x_publicKey eph) \<and> decryptBody X parse cont rpriv = Some (body_json b)"
proof -
  let ?cont = "toBase64Url (utf8Encode (print_json (payload_of X key b eph nonce12)))"
  have e: "encryptBody X b rpub eph nonce12 = Some (?cont, x_publicKey eph)" using assms(1) by (simp add: encryptBody_def payload_of_def)
  have d: "derive_key X (base64_decode rpriv) (base64_decode (x_publicKey eph)) nonce12 = Some key"
    using assms(1,2) by (auto simp: deriveEncryptionKey_def derive_key_def importX25519Private_def importX25519Public_def agreed_def Let_def base64_decode_url
      split: option.splits if_splits)
  have "decryptBody X parse ?cont rpriv = Some (body_json b)"
    by (simp add: decryptBody_def base64_decode_url buffer_text_print assms(4))
      (simp add: payload_of_def encrypted_payload_def buffer_of_def base64_decode_url d assms(3,5) buffer_text_print)
  with e show ?thesis by blast
qed

text \<open>What is sealed for a recipient opens, for the holder of the recipient's key who checks the sender's, to the body that went in; the header stays as it was.\<close>

theorem sealed_envelope_opens:
  assumes "deriveEncryptionKey X (x_privateKey eph) rpub (toBase64Url nonce12) = Some key" "agreed X eph rpub rpriv"
    and "\<And>n p. bx_open X key n (fst (bx_seal X key n p)) (snd (bx_seal X key n p)) = Some p"
    and "parse (print_json (payload_of X key b eph nonce12)) = Some (payload_of X key b eph nonce12)" "parse (print_json (body_json b)) = Some (body_json b)"
    and "ed_pair C spriv spub"
  shows "\<exists>e. sealEnvelope C X h b rpub spriv eph nonce12 = Some e \<and> openEnvelope C X parse e rpriv spub = Some (e, body_json b)
    \<and> header e = h \<and> intent (body e) = ENCRYPTED"
proof -
  obtain cont where c: "encryptBody X b rpub eph nonce12 = Some (cont, x_publicKey eph)" "decryptBody X parse cont rpriv = Some (body_json b)"
    using decrypt_encrypted [OF assms(1-5)] by blast
  let ?b = "\<lparr>intent = ENCRYPTED, content = cont, capability = Some (js ''x25519-chacha20poly1305''), correlationId = correlationId b\<rparr>"
  obtain s where s: "signCanonicalPayloadEd25519 C (canonicalizeEnvelope h ?b) spriv = Some s"
    using ed.sign_some [OF assms(6)] by blast
  let ?e = "\<lparr>header = h, body = ?b, signature = Some \<lparr>alg = ED25519, keyId = default_ed_key_id, sigValue = s\<rparr>\<rparr>"
  have "sealEnvelope C X h b rpub spriv eph nonce12 = Some ?e" by (simp add: sealEnvelope_def c(1) signEnvelopeEd25519_def s)
  moreover have "openEnvelope C X parse ?e rpriv spub = Some (?e, body_json b)"
    using ed.sign_verifies [OF assms(6) s] by (simp add: openEnvelope_def verifyEnvelopeEd25519_def c(2))
  ultimately show ?thesis by (intro exI [of _ ?e]) simp
qed

definition demo_box :: box_ops where
  "demo_box = \<lparr>bx_priv_ok = (\<lambda>k. True), bx_pub_ok = (\<lambda>k. True), bx_dh = (\<lambda>p q. Some [1]), bx_hkdf = (\<lambda>s n i l. s @ n),
    bx_seal = (\<lambda>k n p. (k @ p, n)), bx_open = (\<lambda>k n c t. if t = n \<and> take (length k) c = k then Some (drop (length k) c) else None), bx_buffer = (\<lambda>v. None)\<rparr>"

definition demo_eph :: x25519_pair where
  "demo_eph = \<lparr>x_publicKey = js ''p'', x_privateKey = js ''q''\<rparr>"

theorem sealed_envelope_opens_witness:
  "\<exists>parse e. sealEnvelope demo_crypto demo_box (demo_header 5 10) demo_body (js ''r'') (js ''k'') demo_eph [7] = Some e
    \<and> openEnvelope demo_crypto demo_box parse e (js ''s'') (js ''k'') = Some (e, body_json demo_body)"
proof -
  have k: "deriveEncryptionKey demo_box (x_privateKey demo_eph) (js ''r'') (toBase64Url [7]) = Some [1, 7]"
    by (simp add: deriveEncryptionKey_def derive_key_def importX25519Private_def importX25519Public_def demo_box_def base64_decode_url)
  have a: "agreed demo_box demo_eph (js ''r'') (js ''s'')" by (simp add: agreed_def demo_box_def)
  define P B where "P = payload_of demo_box [1, 7] demo_body demo_eph [7]" and "B = body_json demo_body"
  define parse where "parse t = (if t = print_json P then Some P else Some B)" for t
  have f: "json_finite B" "json_finite P" "B \<noteq> P"
    by (simp_all add: P_def B_def payload_of_def encrypted_payload_def body_json_def demo_body_def opt_json_def)
  then have "print_json B \<noteq> print_json P" using print_json_inj by blast
  then have p: "parse (print_json P) = Some P" "parse (print_json B) = Some B" by (simp_all add: parse_def)
  have o: "bx_open demo_box [1, 7] n (fst (bx_seal demo_box [1, 7] n q)) (snd (bx_seal demo_box [1, 7] n q)) = Some q" for n q
    by (simp add: demo_box_def)
  show ?thesis
    using sealed_envelope_opens [OF k a o p [unfolded P_def B_def] demo_pair, of "demo_header 5 10"] by (intro exI [of _ parse]) blast
qed

text \<open>Nothing is decrypted before the signature over the encrypted body has verified, and what comes out passed the authenticated decryption.\<close>

theorem opened_only_verified:
  assumes "openEnvelope C X parse e rpriv spub = Some (e', v)"
  shows "e' = e \<and> verifyEnvelopeEd25519 C e spub = Some True
    \<and> (\<exists>key n ct tag plain. bx_open X key n ct tag = Some plain \<and> parse (buffer_text plain) = Some v)"
  using assms by (auto simp: openEnvelope_def decryptBody_def split: option.splits bool.splits) blast

text \<open>The encrypted body is bound neither to its header nor to its signer: whoever holds a sealed envelope can sign its body under a header and key of their own, and the recipient opens it as theirs.\<close>

theorem sealed_body_transferable:
  assumes "openEnvelope C X parse e rpriv spub = Some (e, v)" "signEnvelopeEd25519 C h (body e) mpriv kid = Some e'" "ed_pair C mpriv mpub"
  shows "openEnvelope C X parse e' rpriv mpub = Some (e', v)"
proof -
  obtain s where s: "signCanonicalPayloadEd25519 C (canonicalizeEnvelope h (body e)) mpriv = Some s"
    "e' = \<lparr>header = h, body = body e, signature = Some \<lparr>alg = ED25519, keyId = kid, sigValue = s\<rparr>\<rparr>"
    using assms(2) by (auto simp: signEnvelopeEd25519_def)
  have "verifyEnvelopeEd25519 C e' mpub = Some True"
    using ed.sign_verifies [OF assms(3) s(1)] by (simp add: verifyEnvelopeEd25519_def s(2))
  moreover have "decryptBody X parse (content (body e)) rpriv = Some v"
    using assms(1) by (auto simp: openEnvelope_def split: option.splits bool.splits)
  ultimately show ?thesis by (simp add: openEnvelope_def s(2))
qed

end
