(* ===== verification/Spec2Isabelle.thy ===== *)
theory Spec2Isabelle
  imports Replay RateLimiter KeyLog AuditLog Stream GatewayPath BinaryCodec HttpBinding Dpop Provenance GatewaySafety TransportProps SseProps ThresholdProps ToolGuardProps Webhook Rpc WsStream ToolPinningProps DidKeyProps AgentCard WebBotAuth AttestationProps KeyRotation McpTransports AgentSession Encryption
begin

text \<open>
  A verification development for the 7h3 protocol, a TypeScript library for signed messages
  between software agents and for the gates in front of what agents may do.

  \<^bold>\<open>The program\<close>. An envelope (header, body, signature) is signed over a canonical text with
  HMAC or Ed25519, travels as JSON, compact JSON, CBOR or a binary frame, over HTTP or
  server-sent events, and is received once: validated, verified with keys from a registry, and
  reserved in a replay store. Around that core stand capability tokens that are delegated in
  chains, approvals bound to one action, trust labels, payment mandates, a public log of keys,
  an audit log, revocation, rate limits and route policies. The gateway composes them into one
  decision on an HTTP request; the tool guard does the same for tools a web page offers.

  \<^bold>\<open>Theories and sources\<close> (paths under \<open>src/\<close>).
  \<^item> Foundations: \<open>Prelude\<close> (UTF-16 strings, numbers with NaN and infinities, text functions),
    \<open>Encoding\<close> (UTF-8, base64url, hex), \<open>Json\<close> (printing, stable printing, what a printed value
    determines), \<open>JsMap\<close> (insertion-ordered maps; locale \<open>finite_store\<close>), \<open>Bytes\<close> (byte readers;
    locale \<open>prefix_codec\<close>), \<open>Digest\<close> (locale \<open>hash_chain\<close>), \<open>Process\<close> (asynchronous functions as
    sequences of atomic steps).
  \<^item> Envelopes: \<open>Protocol\<close> (\<open>src/protocol.ts\<close>), \<open>BinaryCodec\<close> (\<open>src/protocolBinary.ts\<close>), \<open>Cbor\<close> and
    \<open>EnvelopeCbor\<close> (\<open>src/cborCodec.ts\<close>, \<open>src/envelopeCbor.ts\<close>).
  \<^item> Replay: \<open>ReplayHeap\<close> and \<open>Replay\<close> (\<open>src/protocolReplay.ts\<close>), \<open>ReplayStores\<close>
    (\<open>src/replayStores.ts\<close>, \<open>src/redisClient.ts\<close>; locale \<open>replay_store\<close>).
  \<^item> Receiving: \<open>Transport\<close>, \<open>TransportSafety\<close>, \<open>TransportProps\<close> (\<open>src/protocolTransport.ts\<close>),
    \<open>Revocation\<close> (\<open>src/revocation.ts\<close>), \<open>KeyRegistry\<close> (\<open>src/keyRegistry.ts\<close>), \<open>HttpBinding\<close>
    (\<open>src/httpBinding.ts\<close>, \<open>src/signedResponse.ts\<close>), \<open>Sse\<close>, \<open>SseSafety\<close>, \<open>SseProps\<close> (\<open>src/mcpSse.ts\<close>),
    \<open>Stream\<close> (\<open>src/stream.ts\<close>).
  \<^item> Other bindings: \<open>Webhook\<close> (\<open>src/webhookBinding.ts\<close>), \<open>Queue\<close> (\<open>src/queueBinding.ts\<close>), \<open>Rpc\<close> and
    \<open>WsStream\<close> (\<open>src/grpcBinding.ts\<close>, \<open>src/wsBinding.ts\<close>), \<open>McpWrapper\<close> and \<open>McpTransports\<close> (signed JSON-RPC
    for tool servers, \<open>src/mcpWrapper.ts\<close>, \<open>src/mcpTransports.ts\<close>), \<open>AgentSession\<close> (\<open>src/protocolAgent.ts\<close>,
    \<open>src/protocolCapabilities.ts\<close>), \<open>Encryption\<close> (\<open>src/encryption.ts\<close>).
  \<^item> Keys and identities: \<open>DidKey\<close>, \<open>DidKeyProps\<close> and \<open>AgentCard\<close> (\<open>src/agentIdentity.ts\<close>), \<open>WebBotAuth\<close>
    (\<open>src/webBotAuth.ts\<close>), \<open>KeyDiscovery\<close> and \<open>KeyRotation\<close> (\<open>src/keyInfra.ts\<close>, \<open>src/keyRotation.ts\<close>),
    \<open>Attestation\<close> and \<open>AttestationProps\<close> (\<open>src/attestation.ts\<close>).
  \<^item> Tools of a server: \<open>ToolPinning\<close>, \<open>ToolPinningProps\<close> (\<open>src/mcpToolPinning.ts\<close>).
  \<^item> Authority: \<open>RoutePolicy\<close>, \<open>RateLimiter\<close>, \<open>Capability\<close>, \<open>Approval\<close> (with \<open>src/actionBinding.ts\<close>;
    locale \<open>replay_checker\<close>), \<open>Provenance\<close>, \<open>Mandate\<close>, \<open>Dpop\<close> (with \<open>src/jose.ts\<close>),
    \<open>StructuredFields\<close> and \<open>HttpSignature\<close> (\<open>src/httpMessageSignatures.ts\<close>).
  \<^item> Logs: \<open>KeyLog\<close> (\<open>src/keyLog.ts\<close>), \<open>AuditLog\<close> (\<open>src/auditLog.ts\<close>).
  \<^item> Gateway (\<open>src/gateway.ts\<close>): \<open>GatewayPath\<close>, \<open>Gateway\<close>, \<open>GatewayStores\<close>, \<open>GatewaySafety\<close>.
  \<^item> Threshold signatures (\<open>sdk/threshold\<close>): \<open>PrimeField\<close>, \<open>ScalarField\<close>, \<open>Threshold\<close>, \<open>ThresholdProps\<close>.
  \<^item> Tools of a web page (\<open>sdk/webmcp\<close>): \<open>WebReceipts\<close>, \<open>ToolManifest\<close>, \<open>ToolGuard\<close>, \<open>ToolGuardProps\<close>.

  \<^bold>\<open>How the code appears\<close>. A class is a record of its fields, a method a function from record and
  arguments to the result and the new record; a union is a datatype; a failure reason is a
  constructor; an exception is \<open>None\<close> or \<open>Inl\<close>. Strings are lists of 16-bit code units, so
  length, comparison and slicing are those of the language. Numbers are integers where the
  source checks for safe integers and \<open>jnum\<close> where NaN or infinities matter; numbers that are
  no integers have no counterpart. Received JSON stays a JSON value and is read member by
  member, as the source does, with one exception: a capability chain that the gateway or the tool
  guard parses is a parameter that yields tokens of the declared types (\<open>pf_chain\<close>, \<open>ge_chain\<close>), in
  which only the two times may be missing; the source does not check those types, and a chain
  with members of other types has no counterpart here. Where calls overlap, the code between two
  awaits is one atomic step, and the theorems quantify over interleavings; the workers of a batch
  are explicit, and one whose item throws takes no further item.

  \<^bold>\<open>Parameters\<close>. Cryptography is a record of functions (\<open>crypto\<close>); nothing is assumed of it but,
  where a theorem names it, that a key pair belongs together and that SHA-256 does not collide
  on the values at hand. \<open>JSON.parse\<close>, the URL parser, reading a number from a text, JWK import,
  HKDF and BLS arithmetic, key resolvers, external stores, handlers, the clock and random bytes
  are arguments.

  \<^bold>\<open>What the lemmas show\<close>. Canonical forms determine what is signed (\<open>Protocol\<close>, \<open>HttpSignature\<close>,
  \<open>Mandate\<close>, \<open>Capability\<close>, \<open>KeyLog\<close>); encoders and decoders are inverse; accepting operations
  accept only what their documentation says (\<open>..._sound\<close>, \<open>..._exact\<close>); what is single use stays
  single use, from laws of the stores proved once in a locale and interpreted for every store;
  caches refine maps; logs fix their past; retries and loops finish. Theorems about deviations
  of the code from its documentation stand beside them.

  \<^bold>\<open>Bounds and fuel\<close>. CBOR nesting is bounded by 64, percent-decoding of a gateway path by five
  passes, both as in the source. A run of \<open>receiveEnvelope\<close> takes at most seven steps, so that ten rounds
  of its workers for each item end a batch (\<open>batch_finishes\<close>). All other
  loops are structural or have a measure. The order of the BLS scalar field is prime by a
  Pocklington certificate checked with \<open>simp\<close>.

  \<^bold>\<open>Not modelled\<close>. The command line tool, benchmarks, build scripts, demos, the MCP server and
  the Cloudflare worker are I/O around the library; the heuristic detector of prompt injection
  is a table of regular expressions; adapters for frameworks, the gateway runtime that is built
  from them (\<open>src/mcpGateway.ts\<close>), telemetry and its exporters translate between foreign
  interfaces; runtime policies (\<open>src/policyEnforcer.ts\<close> among them) tune benchmarks; the packages in
  other languages repeat the core.
\<close>

end
